(* ===== verification/Neo_Prelude.thy ===== *)
theory Neo_Prelude
  imports Main "HOL-Library.Word" "HOL-Library.Monad_Syntax"
begin

text \<open>
  Shared vocabulary of the development.

  The Rust crate \<open>neovm-core\<close> stores buffer text as raw bytes and addresses it with
  \<open>usize\<close> offsets. Bytes are 8-bit words, character codes are 32-bit words; offsets
  and lengths are natural numbers (every offset is bounded by the length of an
  allocated vector, so the width of \<open>usize\<close> plays no role), and every subtraction
  that the Rust code would let underflow goes through \<open>chk_sub\<close>.

  A computation that can panic has an \<open>option\<close> type: \<open>None\<close> is the panic.
  What is modelled is the development build: \<open>assert!\<close>, \<open>debug_assert!\<close>,
  \<open>expect\<close>, slice bounds and arithmetic underflow are all live checks.
  Theorems of the form "the operation returns \<open>Some\<close>" therefore also say that no check
  fires, so that a release build, where some of the checks are compiled out, computes the
  same result.
\<close>

unbundle bit_operations_syntax

subsection \<open>Types and collections of facts\<close>

type_synonym u8 = "8 word"
type_synonym u32 = "32 word"
type_synonym u64 = "64 word"
type_synonym bytes = "u8 list"

named_theorems panic_simps \<open>checks that succeed under their stated condition\<close>
named_theorems segment_simps \<open>take and drop on lists cut into segments\<close>

subsection \<open>Panics\<close>

definition panic_unless :: "bool \<Rightarrow> unit option" where
  "panic_unless b = (if b then Some () else None)"

definition chk_sub :: "nat \<Rightarrow> nat \<Rightarrow> nat option" where
  "chk_sub a b = (if b \<le> a then Some (a - b) else None)"

definition slice :: "'a list \<Rightarrow> nat \<Rightarrow> nat \<Rightarrow> 'a list option" where
  "slice xs a b = (if a \<le> b \<and> b \<le> length xs then Some (take (b - a) (drop a xs)) else None)"

definition index_at :: "'a list \<Rightarrow> nat \<Rightarrow> 'a option" where
  "index_at xs i = (if i < length xs then Some (xs ! i) else None)"

definition copy_within :: "'a list \<Rightarrow> nat \<Rightarrow> nat \<Rightarrow> nat \<Rightarrow> 'a list option" where
  "copy_within xs a b dst =
     (if a \<le> b \<and> b \<le> length xs \<and> dst + (b - a) \<le> length xs
      then Some (take dst xs @ take (b - a) (drop a xs) @ drop (dst + (b - a)) xs)
      else None)"

definition copy_from_slice :: "'a list \<Rightarrow> nat \<Rightarrow> nat \<Rightarrow> 'a list \<Rightarrow> 'a list option" where
  "copy_from_slice xs a b ys =
     (if a \<le> b \<and> b \<le> length xs \<and> length ys = b - a
      then Some (take a xs @ ys @ drop b xs) else None)"

definition resize_vec :: "'a list \<Rightarrow> nat \<Rightarrow> 'a \<Rightarrow> 'a list" where
  "resize_vec xs n z = take n xs @ replicate (n - length xs) z"

lemma panic_unless_True [simp, panic_simps]: "b \<Longrightarrow> panic_unless b = Some ()"
  by (simp add: panic_unless_def)

lemma panic_unless_False [simp]: "\<not> b \<Longrightarrow> panic_unless b = None"
  by (simp add: panic_unless_def)

lemma panic_unless_bind_Some [simp]:
  "(panic_unless b \<bind> f) = Some r \<longleftrightarrow> b \<and> f () = Some r"
  by (cases b) auto

lemma chk_sub_Some [simp, panic_simps]: "b \<le> a \<Longrightarrow> chk_sub a b = Some (a - b)"
  by (simp add: chk_sub_def)

lemma slice_Some [simp, panic_simps]:
  "a \<le> b \<Longrightarrow> b \<le> length xs \<Longrightarrow> slice xs a b = Some (take (b - a) (drop a xs))"
  by (simp add: slice_def)

lemma index_at_Some [simp, panic_simps]: "i < length xs \<Longrightarrow> index_at xs i = Some (xs ! i)"
  by (simp add: index_at_def)

lemma copy_within_Some [panic_simps]:
  "a \<le> b \<Longrightarrow> b \<le> length xs \<Longrightarrow> dst + (b - a) \<le> length xs \<Longrightarrow>
   copy_within xs a b dst =
     Some (take dst xs @ take (b - a) (drop a xs) @ drop (dst + (b - a)) xs)"
  by (simp add: copy_within_def)

lemma copy_from_slice_Some [panic_simps]:
  "a \<le> b \<Longrightarrow> b \<le> length xs \<Longrightarrow> length ys = b - a \<Longrightarrow>
   copy_from_slice xs a b ys = Some (take a xs @ ys @ drop b xs)"
  by (simp add: copy_from_slice_def)

lemma resize_vec_grow [simp]:
  "length xs \<le> n \<Longrightarrow> resize_vec xs n z = xs @ replicate (n - length xs) z"
  by (simp add: resize_vec_def)

subsection \<open>Lists cut at a position\<close>

definition insert_at :: "nat \<Rightarrow> 'a list \<Rightarrow> 'a list \<Rightarrow> 'a list" where
  "insert_at p ys xs = take p xs @ ys @ drop p xs"

definition delete_range :: "nat \<Rightarrow> nat \<Rightarrow> 'a list \<Rightarrow> 'a list" where
  "delete_range a b xs = take a xs @ drop b xs"

definition sub_list :: "nat \<Rightarrow> nat \<Rightarrow> 'a list \<Rightarrow> 'a list" where
  "sub_list a b xs = take (b - a) (drop a xs)"

lemma length_insert_at [simp]: "length (insert_at p ys xs) = length xs + length ys"
  by (cases "p \<le> length xs") (simp_all add: insert_at_def)

lemma length_delete_range [simp]:
  "a \<le> b \<Longrightarrow> b \<le> length xs \<Longrightarrow> length (delete_range a b xs) = length xs - (b - a)"
  by (simp add: delete_range_def)

lemma length_sub_list [simp]:
  "b \<le> length xs \<Longrightarrow> length (sub_list a b xs) = b - a"
  by (simp add: sub_list_def)

lemma delete_range_empty [simp]: "delete_range a a xs = xs"
  by (simp add: delete_range_def)

lemma insert_at_Nil [simp]: "insert_at p [] xs = xs"
  by (simp add: insert_at_def)

lemma delete_insert_cancel:
  "p \<le> length xs \<Longrightarrow> delete_range p (p + length ys) (insert_at p ys xs) = xs"
  by (simp add: delete_range_def insert_at_def)

lemma insert_delete_cancel:
  assumes "a \<le> b" "b \<le> length xs"
  shows "insert_at a (sub_list a b xs) (delete_range a b xs) = xs"
proof -
  have "take a xs @ take (b - a) (drop a xs) @ drop b xs = xs"
    using assms by (metis append_take_drop_id drop_drop le_add_diff_inverse2)
  then show ?thesis
    using assms by (simp add: insert_at_def delete_range_def sub_list_def)
qed

lemma take_sub_list: "a \<le> b \<Longrightarrow> take a xs @ sub_list a b xs = take b xs"
  by (metis le_add_diff_inverse sub_list_def take_add)

lemma sub_list_drop: "a \<le> b \<Longrightarrow> sub_list a b xs @ drop b xs = drop a xs"
  by (metis append_take_drop_id drop_drop le_add_diff_inverse2 sub_list_def)

lemma sub_list_glue: "a \<le> b \<Longrightarrow> b \<le> c \<Longrightarrow> sub_list a b xs @ sub_list b c xs = sub_list a c xs"
proof -
  assume "a \<le> b" "b \<le> c"
  then have "take a xs @ sub_list a b xs @ sub_list b c xs = take a xs @ sub_list a c xs"
    using take_sub_list [of a b xs] take_sub_list [of b c xs] take_sub_list [of a c xs] by (metis append_assoc le_trans)
  then show ?thesis by simp
qed

lemma take_delete_range [segment_simps]:
  "p \<le> a \<Longrightarrow> a \<le> length xs \<Longrightarrow> take p (delete_range a b xs) = take p xs"
  by (simp add: delete_range_def min_absorb1)

lemma take_insert_at [segment_simps]:
  "q \<le> p \<Longrightarrow> p \<le> length xs \<Longrightarrow> take q (insert_at p ys xs) = take q xs"
  by (simp add: insert_at_def min_absorb1)

lemma take_insert_at_after [segment_simps]:
  "p \<le> q \<Longrightarrow> p \<le> length xs \<Longrightarrow>
   take (q + length ys) (insert_at p ys xs) = take p xs @ ys @ drop p (take q xs)"
  by (simp add: insert_at_def min_absorb2 drop_take)

lemma take_delete_range_after [segment_simps]:
  "a \<le> b \<Longrightarrow> b \<le> q \<Longrightarrow> b \<le> length xs \<Longrightarrow>
   take (q - (b - a)) (delete_range a b xs) = take a xs @ drop b (take q xs)"
  by (simp add: delete_range_def min_absorb2 drop_take)

lemma nth_insert_at [segment_simps]:
  "p \<le> length xs \<Longrightarrow> insert_at p ys xs ! i =
     (if i < p then xs ! i else if i < p + length ys then ys ! (i - p) else xs ! (i - length ys))"
  by (auto simp: insert_at_def nth_append not_less)

lemma nth_delete_range [segment_simps]:
  "a \<le> b \<Longrightarrow> b \<le> length xs \<Longrightarrow> delete_range a b xs ! i =
     (if i < a then xs ! i else xs ! (i + (b - a)))"
  by (auto simp: delete_range_def nth_append not_less add.commute add_diff_assoc)

lemma nth_sub_list [segment_simps]:
  "b \<le> length xs \<Longrightarrow> i < b - a \<Longrightarrow> sub_list a b xs ! i = xs ! (a + i)"
  by (simp add: sub_list_def)

subsection \<open>Exhaustive reasoning about bytes\<close>

lemma unat_u8_less [simp]: "unat (b::u8) < 256"
  using unsigned_less [of b, where 'a = nat] by simp

lemma unat_u8_le [simp]: "unat (b::u8) \<le> 255"
  using unat_u8_less [of b] by linarith

lemma unat_u32_less [simp]: "unat (c::u32) < 4294967296"
  using unsigned_less [of c, where 'a = nat] by simp

text \<open>A property of every byte is checked at the 256 values.\<close>

lemma all_u8_int:
  assumes "\<forall>k \<in> set [0..255]. P (k::int)"
  shows "P (uint (b::u8))"
proof -
  have "uint b \<in> set [0..255]" using uint_lt2p [of b] by simp
  with assms show ?thesis by blast
qed
lemma byte_bits:
  fixes b :: u8
  shows "128 \<le> uint b \<and> uint b < 192 \<longleftrightarrow> uint b AND 0xC0 = 0x80"
    and "drop_bit 2 (uint b AND 0x20) = 8 * (uint b div 32 mod 2)"
    and "drop_bit 3 (uint b AND 0x30) = 2 * (uint b div 16 mod 4)"
    and "uint b AND 0x80 = 0 \<longleftrightarrow> uint b < 128"
    and "uint b AND 0x20 = 0 \<longleftrightarrow> uint b div 32 mod 2 = 0"
    and "uint b AND 0x10 = 0 \<longleftrightarrow> uint b div 16 mod 2 = 0"
    and "uint b AND 0x08 = 0 \<longleftrightarrow> uint b div 8 mod 2 = 0"
  by (rule all_u8_int [where b = b], code_simp)+

subsection \<open>Words read as numbers\<close>

lemma unat_and_mask: "unat ((c::'a::len word) AND mask k) = unat c mod 2 ^ k"
  by (simp add: unsigned_take_bit_eq take_bit_nat_def flip: take_bit_eq_mask)

lemma unat_and_masks:
  "unat ((c::'a::len word) AND 1) = unat c mod 2"
  "unat ((c::'a::len word) AND 7) = unat c mod 8"
  "unat ((c::'a::len word) AND 15) = unat c mod 16"
  "unat ((c::'a::len word) AND 31) = unat c mod 32"
  "unat ((c::'a::len word) AND 63) = unat c mod 64"
  "unat ((c::'a::len word) AND 255) = unat c mod 256"
  using unat_and_mask[of c 1] unat_and_mask[of c 3] unat_and_mask[of c 4] unat_and_mask[of c 5] unat_and_mask[of c 6] unat_and_mask[of c 8]
  by (simp_all add: mask_numeral)

lemma unat_shift_or:
  fixes x y :: "'a::len word"
  assumes "unat x * 2 ^ k < 2 ^ LENGTH('a)" "unat y < 2 ^ k"
  shows "unat (push_bit k x OR y) = unat x * 2 ^ k + unat y"
proof -
  have 1: "unat (push_bit k x) = push_bit k (unat x)"
    using assms(1) by (simp add: unsigned_push_bit_eq push_bit_nat_def take_bit_nat_def)
  have high: "\<not> bit (unat y) n" if "k \<le> n" for n
    using assms(2) that by (metis bit_take_bit_iff not_le take_bit_nat_eq_self)
  have "push_bit k (unat x) AND unat y = 0"
    by (rule bit_eqI) (auto simp: bit_and_iff bit_push_bit_iff high)
  then have "push_bit k (unat x) + unat y = push_bit k (unat x) OR unat y"
    by (rule disjunctive_add_eq_or)
  then show ?thesis
    by (simp add: unsigned_or_eq 1 push_bit_nat_def)
qed

lemma or_leads:
  "unat y < 64 \<Longrightarrow> unat (0x80 OR (y::u8)) = 128 + unat y"
  "unat y < 32 \<Longrightarrow> unat (0xC0 OR (y::u8)) = 192 + unat y"
  "unat y < 16 \<Longrightarrow> unat (0xE0 OR (y::u8)) = 224 + unat y"
  "unat y < 8 \<Longrightarrow> unat (0xF0 OR (y::u8)) = 240 + unat y"
  using unat_shift_or[of "2::u8" 6 y]  unat_shift_or[of "6::u8" 5 y]  unat_shift_or[of "14::u8" 4 y] unat_shift_or[of "30::u8" 3 y] 
  by (simp_all add: push_bit_eq_mult)

lemma unat_ucast_u8: "unat (ucast (x::u32) :: u8) = unat x mod 256"
  by (simp add: unsigned_ucast_eq take_bit_eq_mod)
lemma unat_ucast_u32 [simp]: "unat (ucast (x::u8) :: u32) = unat x"
proof -
  have "unat x < 4294967296" by (rule less_trans [OF unat_u8_less]) simp
  then show ?thesis by (simp add: unsigned_ucast_eq take_bit_eq_mod)
qed
lemma unat_drop_bit_word: "unat (drop_bit k (x::'a::len word)) = unat x div 2 ^ k"
  by (simp add: unat_drop_bit_eq drop_bit_nat_def)

end
