(* ===== verification/Emacs_Char.thy ===== *)
theory Emacs_Char
  imports Neo_Prelude
begin

text \<open>
  The internal character encoding, \<open>src/crates/neovm-core/src/emacs_core/text/emacs_char/mod.rs\<close>:
  a superset of UTF-8 with 22-bit codes, in which a raw byte \<open>0x80..0xFF\<close> is the code
  \<open>byte + 0x3FFF00\<close> and is stored as an overlong two-byte form.

  The theory holds the classification of bytes, the encoder \<open>char_string\<close>, the decoders
  \<open>string_char\<close> and \<open>string_char_unchecked\<close>, the validator \<open>multibyte_length\<close>, the
  unibyte/multibyte conversions, and the conversions between character and byte offsets of a
  slice (the block-wise scans \<open>char_to_byte_pos\<close>, \<open>char_to_byte_pos_from_end\<close> and
  \<open>nth_lead_from_end\<close>). It shows that the encoder and the decoders are inverse on every
  code, that the block-wise scans compute their one-byte-at-a-time meaning, and that the two
  directions of the offset conversion are inverse at character boundaries.
\<close>

subsection \<open>Codes\<close>

definition MAX_CHAR :: u32 where "MAX_CHAR = 0x3FFFFF"
definition MAX_1_BYTE_CHAR :: u32 where "MAX_1_BYTE_CHAR = 0x7F"
definition MAX_2_BYTE_CHAR :: u32 where "MAX_2_BYTE_CHAR = 0x7FF"
definition MAX_3_BYTE_CHAR :: u32 where "MAX_3_BYTE_CHAR = 0xFFFF"
definition MAX_4_BYTE_CHAR :: u32 where "MAX_4_BYTE_CHAR = 0x1FFFFF"
definition MAX_5_BYTE_CHAR :: u32 where "MAX_5_BYTE_CHAR = 0x3FFF7F"
definition MAX_MULTIBYTE_LENGTH :: nat where "MAX_MULTIBYTE_LENGTH = 5"
definition BYTE8_OFFSET :: u32 where "BYTE8_OFFSET = 0x3FFF00"

definition CHAR_ALT :: u32 where "CHAR_ALT = 0x0400000"
definition CHAR_SUPER :: u32 where "CHAR_SUPER = 0x0800000"
definition CHAR_HYPER :: u32 where "CHAR_HYPER = 0x1000000"
definition CHAR_SHIFT :: u32 where "CHAR_SHIFT = 0x2000000"
definition CHAR_CTL :: u32 where "CHAR_CTL = 0x4000000"
definition CHAR_META :: u32 where "CHAR_META = 0x8000000"

definition CHAR_MODIFIER_MASK :: u32 where
  "CHAR_MODIFIER_MASK =
     CHAR_ALT OR CHAR_SUPER OR CHAR_HYPER OR CHAR_SHIFT OR CHAR_CTL OR CHAR_META"

text \<open>
  \<open>char_resolve_modifier_mask\<close> works on an \<open>i64\<close>; its bitwise operations and the one
  subtraction of 32 stay in range, so the model uses \<open>int\<close> with two's complement bit
  operations. Octal literals of the source are written in hexadecimal.
\<close>

definition char_resolve_modifier_mask :: "int \<Rightarrow> int" where
  "char_resolve_modifier_mask c =
     (let mask = uint CHAR_MODIFIER_MASK;
          shift = uint CHAR_SHIFT;
          ctl = uint CHAR_CTL;
          base = c AND NOT mask
      in if \<not> (0 \<le> base \<and> base \<le> 0x7F) then c
         else
           let c1 = (if c AND shift \<noteq> 0 then
                       let low = c AND 0xFF in
                       if 0x41 \<le> low \<and> low \<le> 0x5A then c AND NOT shift
                       else if 0x61 \<le> low \<and> low \<le> 0x7A then (c AND NOT shift) - (0x61 - 0x41)
                       else if c AND NOT mask \<le> 0x20 then c AND NOT shift
                       else c
                     else c)
           in if c1 AND ctl \<noteq> 0 then
                let low = c1 AND 0xFF in
                if low = 0x20 then c1 AND (NOT 0x7F AND NOT ctl)
                else if low = 0x3F then 0x7F OR (c1 AND NOT 0x7F AND NOT ctl)
                else if 0x41 \<le> c1 AND 0x5F \<and> c1 AND 0x5F \<le> 0x5A
                        \<or> 0x40 \<le> c1 AND 0x7F \<and> c1 AND 0x7F \<le> 0x5F
                then c1 AND (0x1F OR (NOT 0x7F AND NOT ctl))
                else c1
              else c1)"

subsection \<open>Raw bytes and byte classes\<close>

definition char_byte8_p :: "u32 \<Rightarrow> bool" where
  "char_byte8_p c \<longleftrightarrow> MAX_5_BYTE_CHAR < c"

definition byte8_to_char :: "u8 \<Rightarrow> u32" where
  "byte8_to_char b = ucast b + BYTE8_OFFSET"

definition unibyte_to_char :: "u8 \<Rightarrow> u32" where
  "unibyte_to_char b = (if b < 0x80 then ucast b else byte8_to_char b)"

definition char_to_byte8 :: "u32 \<Rightarrow> u8 option" where
  "char_to_byte8 c =
     (if char_byte8_p c then Some (ucast (c - BYTE8_OFFSET))
      else do { panic_unless (c < 0x80); Some (ucast c) })"

definition char_to_byte_safe :: "u32 \<Rightarrow> u8 option" where
  "char_to_byte_safe c =
     (if c < 0x80 then Some (ucast c)
      else if char_byte8_p c then Some (ucast (c - BYTE8_OFFSET))
      else None)"

definition char_valid_p :: "int \<Rightarrow> bool" where
  "char_valid_p c \<longleftrightarrow> 0 \<le> c \<and> c \<le> uint MAX_CHAR"

definition leading_code_p :: "u8 \<Rightarrow> bool" where
  "leading_code_p b \<longleftrightarrow> b AND 0xC0 = 0xC0"

definition trailing_code_p :: "u8 \<Rightarrow> bool" where
  "trailing_code_p b \<longleftrightarrow> b AND 0xC0 = 0x80"

definition char_head_p :: "u8 \<Rightarrow> bool" where
  "char_head_p b \<longleftrightarrow> b AND 0xC0 \<noteq> 0x80"

definition char_byte8_head_p :: "u8 \<Rightarrow> bool" where
  "char_byte8_head_p b \<longleftrightarrow> b = 0xC0 \<or> b = 0xC1"

definition is_raw_byte_lead :: "u8 \<Rightarrow> bool" where
  "is_raw_byte_lead lead \<longleftrightarrow> lead = 0xC0 \<or> lead = 0xC1"

definition bytes_by_char_head :: "u8 \<Rightarrow> nat" where
  "bytes_by_char_head b =
     (if b AND 0x80 = 0 then 1
      else if b AND 0x20 = 0 then 2
      else if b AND 0x10 = 0 then 3
      else if b AND 0x08 = 0 then 4
      else 5)"

definition char_leading_code :: "u32 \<Rightarrow> u8" where
  "char_leading_code c =
     (if c \<le> MAX_1_BYTE_CHAR then ucast c
      else if c \<le> MAX_2_BYTE_CHAR then 0xC0 OR ucast (drop_bit 6 c)
      else if c \<le> MAX_3_BYTE_CHAR then 0xE0 OR ucast (drop_bit 12 c)
      else if c \<le> MAX_4_BYTE_CHAR then 0xF0 OR ucast (drop_bit 18 c)
      else if c \<le> MAX_5_BYTE_CHAR then 0xF8
      else 0xC0 OR ucast (drop_bit 6 c AND 0x01))"

subsection \<open>Encoding and decoding one character\<close>

definition char_bytes :: "u32 \<Rightarrow> nat" where
  "char_bytes c =
     (if c < 0x80 then 1
      else if c < 0x800 then 2
      else if c < 0x10000 then 3
      else if c < 0x200000 then 4
      else if c \<le> MAX_5_BYTE_CHAR then 5
      else 2)"

text \<open>
  \<open>char_string\<close> writes into a caller's buffer of at least five bytes and returns the
  number of bytes written; the model returns the bytes written.
\<close>

definition char_string :: "u32 \<Rightarrow> bytes option" where
  "char_string c0 =
     (let c = (if c0 AND CHAR_MODIFIER_MASK \<noteq> 0
               then word_of_int (char_resolve_modifier_mask (uint c0)) AND NOT CHAR_MODIFIER_MASK
               else c0)
      in do {
        panic_unless (c \<le> MAX_CHAR);
        if c < 0x80 then Some [ucast c]
        else if c < 0x800 then
          Some [0xC0 OR ucast (drop_bit 6 c),
                0x80 OR ucast (c AND 0x3F)]
        else if c < 0x10000 then
          Some [0xE0 OR ucast (drop_bit 12 c),
                0x80 OR ucast (drop_bit 6 c AND 0x3F),
                0x80 OR ucast (c AND 0x3F)]
        else if c < 0x200000 then
          Some [0xF0 OR ucast (drop_bit 18 c),
                0x80 OR ucast (drop_bit 12 c AND 0x3F),
                0x80 OR ucast (drop_bit 6 c AND 0x3F),
                0x80 OR ucast (c AND 0x3F)]
        else if c \<le> MAX_5_BYTE_CHAR then
          Some [0xF8,
                0x80 OR ucast (drop_bit 18 c AND 0x3F),
                0x80 OR ucast (drop_bit 12 c AND 0x3F),
                0x80 OR ucast (drop_bit 6 c AND 0x3F),
                0x80 OR ucast (c AND 0x3F)]
        else do {
          b \<leftarrow> char_to_byte8 c;
          let val = b - 0x80;
          Some [0xC0 OR drop_bit 6 val, 0x80 OR (val AND 0x3F)]
        }
      })"

text \<open>\<open>string_char\<close> decodes one character and says how many bytes it took.\<close>

definition string_char :: "bytes \<Rightarrow> (u32 \<times> nat) option" where
  "string_char bs = (case bs of [] \<Rightarrow> None | b0 # _ \<Rightarrow> Some
     (if b0 < 0x80 then (ucast b0, 1)
      else if is_raw_byte_lead b0 \<and> 2 \<le> length bs \<and> bs ! 1 AND 0xC0 = 0x80 then
        (byte8_to_char ((push_bit 6 (b0 AND 0x01) OR (bs ! 1 AND 0x3F)) OR 0x80), 2)
      else if b0 < 0xE0 \<and> 2 \<le> length bs \<and> bs ! 1 AND 0xC0 = 0x80 then
        (push_bit 6 (ucast b0 AND 0x1F) OR (ucast (bs ! 1) AND 0x3F), 2)
      else if b0 < 0xF0 \<and> 3 \<le> length bs
              \<and> bs ! 1 AND 0xC0 = 0x80 \<and> bs ! 2 AND 0xC0 = 0x80 then
        (push_bit 12 (ucast b0 AND 0x0F) OR push_bit 6 (ucast (bs ! 1) AND 0x3F)
           OR (ucast (bs ! 2) AND 0x3F), 3)
      else if b0 < 0xF8 \<and> 4 \<le> length bs
              \<and> bs ! 1 AND 0xC0 = 0x80 \<and> bs ! 2 AND 0xC0 = 0x80 \<and> bs ! 3 AND 0xC0 = 0x80 then
        (push_bit 18 (ucast b0 AND 0x07) OR push_bit 12 (ucast (bs ! 1) AND 0x3F)
           OR push_bit 6 (ucast (bs ! 2) AND 0x3F) OR (ucast (bs ! 3) AND 0x3F), 4)
      else if b0 = 0xF8 \<and> 5 \<le> length bs
              \<and> bs ! 1 AND 0xC0 = 0x80 \<and> bs ! 2 AND 0xC0 = 0x80
              \<and> bs ! 3 AND 0xC0 = 0x80 \<and> bs ! 4 AND 0xC0 = 0x80 then
        (push_bit 18 (ucast (bs ! 1) AND 0x3F) OR push_bit 12 (ucast (bs ! 2) AND 0x3F)
           OR push_bit 6 (ucast (bs ! 3) AND 0x3F) OR (ucast (bs ! 4) AND 0x3F), 5)
      else (byte8_to_char b0, 1)))"

text \<open>
  \<open>string_char_unchecked\<close> trusts its input: it computes in \<open>i32\<close> from the lead byte
  and indexes the continuation bytes without testing them.
\<close>

definition string_char_unchecked :: "bytes \<Rightarrow> (u32 \<times> nat) option" where
  "string_char_unchecked bs = do {
     b0 \<leftarrow> index_at bs 0;
     let c = uint b0;
     if c AND 0x80 = 0 then Some (word_of_int c, 1)
     else do {
       b1 \<leftarrow> index_at bs 1;
       let d = push_bit 6 c + uint b1 - (push_bit 6 0xC0 + 0x80);
       if c AND 0x20 = 0 then
         Some (word_of_int (d + (if c < 0xC2 then 0x3FFF80 else 0)), 2)
       else do {
         b2 \<leftarrow> index_at bs 2;
         let d = push_bit 6 d + uint b2 - (push_bit 12 0x20 + 0x80);
         if c AND 0x10 = 0 then Some (word_of_int d, 3)
         else do {
           b3 \<leftarrow> index_at bs 3;
           let d = push_bit 6 d + uint b3 - (push_bit 18 0x10 + 0x80);
           if c AND 0x08 = 0 then Some (word_of_int d, 4)
           else do {
             b4 \<leftarrow> index_at bs 4;
             let d = push_bit 6 d + uint b4 - (push_bit 24 0x08 + 0x80);
             Some (word_of_int d, 5)
           }
         }
       }
     }
   }"

text \<open>\<open>multibyte_length\<close> validates the form at the front of a slice.\<close>

definition multibyte_length :: "bytes \<Rightarrow> bool \<Rightarrow> nat option" where
  "multibyte_length bs allow_8bit =
     (if bs = [] then None
      else let c = uint (bs ! 0) in
      if c < 0x80 then Some 1
      else if length bs < 2 then None
      else let d = uint (bs ! 1);
               w = push_bit 2 (d AND 0xC0) + c;
               two_lo = (if allow_8bit then 0x2C0 else 0x2C2) in
      if two_lo \<le> w \<and> w \<le> 0x2DF then Some 2
      else if length bs < 3 then None
      else let e = uint (bs ! 2);
               w = w + push_bit 4 (e AND 0xC0);
               w1 = w OR drop_bit 2 (d AND 0x20) in
      if 0xAE1 \<le> w1 \<and> w1 \<le> 0xAEF then Some 3
      else if length bs < 4 then None
      else let f = uint (bs ! 3);
               w = w + push_bit 6 (f AND 0xC0);
               w2 = w OR drop_bit 3 (d AND 0x30) in
      if 0x2AF1 \<le> w2 \<and> w2 \<le> 0x2AF7 then Some 4
      else if length bs < 5 then None
      else let lw = w + push_bit 8 (uint (bs ! 4) AND 0xC0);
               w3 = push_bit 24 lw + push_bit 16 d + push_bit 8 e + f in
      if 0xAAF8888080 \<le> w3 \<and> w3 \<le> 0xAAF88FBFBD then Some 5
      else None)"

subsection \<open>Counting characters\<close>

definition count_lead_bytes :: "bytes \<Rightarrow> nat" where
  "count_lead_bytes bs = length (filter char_head_p bs)"

text \<open>
  \<open>chars_in_multibyte\<close> is the bytewise count; in debug builds the source compares it with
  the decoding loop below, which \<open>chars_in_multibyte_oracle\<close> states as a theorem.
\<close>

definition chars_in_multibyte :: "bytes \<Rightarrow> nat" where
  "chars_in_multibyte bs = count_lead_bytes bs"

function chars_in_multibyte_by_decode :: "bytes \<Rightarrow> nat" where
  "chars_in_multibyte_by_decode bs =
     (if bs = [] then 0
      else let len = (case multibyte_length bs True of Some n \<Rightarrow> if 0 < n then n else 1 | None \<Rightarrow> 1)
           in Suc (chars_in_multibyte_by_decode (drop len bs)))"
  by pat_completeness auto
termination
  by (relation "measure length") (auto split: option.splits)

declare chars_in_multibyte_by_decode.simps [simp del]

text \<open>\<open>multibyte_chars_in_text\<close> panics (in debug builds) on an invalid sequence.\<close>

function multibyte_chars_in_text :: "bytes \<Rightarrow> nat option" where
  "multibyte_chars_in_text bs =
     (if bs = [] then Some 0
      else case multibyte_length bs True of
        None \<Rightarrow> None
      | Some n \<Rightarrow> if n = 0 then None else map_option Suc (multibyte_chars_in_text (drop n bs)))"
  by pat_completeness auto
termination
  by (relation "measure length") auto

declare multibyte_chars_in_text.simps [simp del]

definition emacs_char_count_bytes :: "bytes \<Rightarrow> bool \<Rightarrow> nat" where
  "emacs_char_count_bytes bs multibyte =
     (if multibyte then chars_in_multibyte bs else length bs)"

subsection \<open>Unibyte and multibyte text\<close>

definition count_size_as_multibyte :: "bytes \<Rightarrow> nat" where
  "count_size_as_multibyte src = length src + length (filter (\<lambda>b. 0x80 \<le> b) src)"

definition byte_to_multibyte :: "u8 \<Rightarrow> bytes" where
  "byte_to_multibyte c =
     (if c \<le> 0x7F then [c] else [0xC0 OR (drop_bit 6 c AND 1), 0x80 OR (c AND 0x3F)])"

definition str_to_multibyte :: "bytes \<Rightarrow> bytes" where
  "str_to_multibyte src =
     (if \<forall>b \<in> set src. b < 0x80 then src else concat (map byte_to_multibyte src))"

function str_to_unibyte :: "bytes \<Rightarrow> bytes option" where
  "str_to_unibyte src =
     (if src = [] then Some []
      else case string_char src of
        None \<Rightarrow> None
      | Some (c, len) \<Rightarrow>
          map_option (Cons (ucast (c AND 0xFF))) (str_to_unibyte (drop (max len 1) src)))"
  by pat_completeness auto
termination
  by (relation "measure length") auto

declare str_to_unibyte.simps [simp del]

record multibyte_parse_metrics =
  mp_chars :: nat
  mp_nbytes :: nat

function parse_str_as_multibyte :: "bytes \<Rightarrow> multibyte_parse_metrics" where
  "parse_str_as_multibyte src =
     (if src = [] then \<lparr>mp_chars = 0, mp_nbytes = 0\<rparr>
      else let (p, n) = (case multibyte_length src True of Some n \<Rightarrow> (max n 1, n) | None \<Rightarrow> (1, 2));
               rest = parse_str_as_multibyte (drop p src)
           in \<lparr>mp_chars = Suc (mp_chars rest), mp_nbytes = n + mp_nbytes rest\<rparr>)"
  by pat_completeness auto
termination
  by (relation "measure length") (auto split: option.splits)

declare parse_str_as_multibyte.simps [simp del]

function str_as_multibyte :: "bytes \<Rightarrow> bytes option" where
  "str_as_multibyte src =
     (if src = [] then Some []
      else case multibyte_length src True of
        Some n \<Rightarrow> map_option ((@) (take n src)) (str_as_multibyte (drop (max n 1) src))
      | None \<Rightarrow> do {
          enc \<leftarrow> char_string (byte8_to_char (hd src));
          map_option ((@) enc) (str_as_multibyte (drop 1 src))
        })"
  by pat_completeness auto
termination
  by (relation "measure length") auto

declare str_as_multibyte.simps [simp del]

text \<open>
  \<open>str_as_unibyte\<close> copies the run before the next \<open>0xC0\<close>/\<open>0xC1\<close> lead in bulk
  (\<open>memchr2\<close>) and decodes the raw byte that follows.
\<close>

function str_as_unibyte :: "bytes \<Rightarrow> bytes option" where
  "str_as_unibyte src =
     (let run = takeWhile (\<lambda>b. \<not> char_byte8_head_p b) src;
          rest = drop (length run) src
      in if rest = [] then Some run
         else let len = bytes_by_char_head (hd rest) in
           if len \<le> length rest then do {
             (c, _) \<leftarrow> string_char_unchecked rest;
             b \<leftarrow> char_to_byte8 c;
             map_option (\<lambda>t. run @ b # t) (str_as_unibyte (drop (max len 1) rest))
           } else Some (run @ rest))"
  by pat_completeness auto
termination
  by (relation "measure length") (auto simp: length_takeWhile_le)

declare str_as_unibyte.simps [simp del]

definition string_count_byte8_unibyte :: "bytes \<Rightarrow> nat" where
  "string_count_byte8_unibyte bs = length (filter (\<lambda>b. 0x80 \<le> b) bs)"

function string_count_byte8_multibyte :: "bytes \<Rightarrow> nat" where
  "string_count_byte8_multibyte bs =
     (if bs = [] then 0
      else let lead = hd bs; len = bytes_by_char_head lead in
        (if char_byte8_head_p lead then 1 else 0)
          + string_count_byte8_multibyte (drop (min len (length bs)) bs))"
  by pat_completeness auto
termination
  by (relation "measure length") (auto simp: bytes_by_char_head_def)

declare string_count_byte8_multibyte.simps [simp del]

definition string_count_byte8 :: "bytes \<Rightarrow> bool \<Rightarrow> nat" where
  "string_count_byte8 bs multibyte =
     (if \<not> multibyte then string_count_byte8_unibyte bs else string_count_byte8_multibyte bs)"

subsection \<open>Character and byte offsets of a slice\<close>

definition position_of :: "('a \<Rightarrow> bool) \<Rightarrow> 'a list \<Rightarrow> nat option" where
  "position_of p xs =
     (let i = length (takeWhile (\<lambda>x. \<not> p x) xs) in if i < length xs then Some i else None)"

definition BLOCK :: nat where "BLOCK = 64"

text \<open>
  The forward scan counts lead bytes a block at a time until the target is in the next block,
  then walks that block.
\<close>

function skip_blocks :: "bytes \<Rightarrow> nat \<Rightarrow> nat \<Rightarrow> nat \<times> nat" where
  "skip_blocks bs remaining base =
     (if base + BLOCK \<le> length bs then
        let leads = count_lead_bytes (take BLOCK (drop base bs)) in
        if remaining \<le> leads then (remaining, base)
        else skip_blocks bs (remaining - leads) (base + BLOCK)
      else (remaining, base))"
  by pat_completeness auto
termination
  by (relation "measure (\<lambda>(bs, remaining, base). length bs - base)") (auto simp: BLOCK_def)

declare skip_blocks.simps [simp del]

fun walk_leads :: "bytes \<Rightarrow> nat \<Rightarrow> nat \<Rightarrow> nat option" where
  "walk_leads [] i remaining = None"
| "walk_leads (b # bs) i remaining =
     (if char_head_p b then
        if remaining - 1 = 0 then Some i else walk_leads bs (Suc i) (remaining - 1)
      else walk_leads bs (Suc i) remaining)"

definition char_to_byte_pos :: "bytes \<Rightarrow> nat \<Rightarrow> nat" where
  "char_to_byte_pos bs char_idx =
     (if char_idx = 0 then 0
      else let (remaining, base) = skip_blocks bs char_idx 0 in
        case walk_leads (drop base bs) 0 remaining of
          None \<Rightarrow> length bs
        | Some i \<Rightarrow> let start = base + i in
            start + (case position_of char_head_p (drop (start + 1) bs) of
                       None \<Rightarrow> length bs - start
                     | Some n \<Rightarrow> n + 1))"

text \<open>The backward scan is its mirror image.\<close>

function skip_blocks_back :: "bytes \<Rightarrow> nat \<Rightarrow> nat \<Rightarrow> nat \<times> nat" where
  "skip_blocks_back bs remaining stop =
     (if BLOCK \<le> stop then
        let leads = count_lead_bytes (take BLOCK (drop (stop - BLOCK) bs)) in
        if remaining \<le> leads then (remaining, stop)
        else skip_blocks_back bs (remaining - leads) (stop - BLOCK)
      else (remaining, stop))"
  by pat_completeness auto
termination
  by (relation "measure (\<lambda>(bs, remaining, stop). stop)") (auto simp: BLOCK_def)

declare skip_blocks_back.simps [simp del]

fun walk_leads_back :: "bytes \<Rightarrow> nat \<Rightarrow> nat \<Rightarrow> nat option" where
  "walk_leads_back bs 0 remaining = None"
| "walk_leads_back bs (Suc i) remaining =
     (if char_head_p (bs ! i) then
        if remaining - 1 = 0 then Some i else walk_leads_back bs i (remaining - 1)
      else walk_leads_back bs i remaining)"

definition char_to_byte_pos_from_end :: "bytes \<Rightarrow> nat \<Rightarrow> nat" where
  "char_to_byte_pos_from_end bs chars_before_end =
     (if chars_before_end = 0 then length bs
      else let (remaining, stop) = skip_blocks_back bs chars_before_end (length bs) in
        case walk_leads_back bs stop remaining of Some i \<Rightarrow> i | None \<Rightarrow> 0)"

definition nth_lead_from_end :: "bytes \<Rightarrow> nat \<Rightarrow> bool \<Rightarrow> nat option" where
  "nth_lead_from_end slc n multibyte =
     (if \<not> multibyte then if n \<le> length slc then Some (length slc - n) else None
      else let (remaining, stop) = skip_blocks_back slc n (length slc) in
        walk_leads_back slc stop remaining)"

definition byte_to_char_pos :: "bytes \<Rightarrow> nat \<Rightarrow> nat" where
  "byte_to_char_pos bs byte_pos = count_lead_bytes (take (min byte_pos (length bs)) bs)"

definition emacs_char_to_byte_in_slice :: "bytes \<Rightarrow> nat \<Rightarrow> bool \<Rightarrow> nat" where
  "emacs_char_to_byte_in_slice bs char_pos multibyte =
     (if multibyte then char_to_byte_pos bs char_pos else min char_pos (length bs))"

definition is_emacs_char_boundary :: "bytes \<Rightarrow> nat \<Rightarrow> bool \<Rightarrow> bool" where
  "is_emacs_char_boundary bs byte_pos multibyte =
     (if length bs < byte_pos then False
      else if \<not> multibyte \<or> byte_pos = 0 \<or> byte_pos = length bs then True
      else char_head_p (bs ! byte_pos))"

definition emacs_byte_to_char_in_slice :: "bytes \<Rightarrow> nat \<Rightarrow> bool \<Rightarrow> nat option" where
  "emacs_byte_to_char_in_slice bs byte_pos multibyte =
     (if \<not> multibyte then Some (min byte_pos (length bs))
      else do {
        panic_unless (is_emacs_char_boundary bs byte_pos multibyte);
        Some (byte_to_char_pos bs byte_pos)
      })"

subsection \<open>Counting and boundaries\<close>

lemma count_lead_bytes_simps [simp]:
  "count_lead_bytes [] = 0"
  "count_lead_bytes (b # bs) = (if char_head_p b then Suc (count_lead_bytes bs) else count_lead_bytes bs)"
  "count_lead_bytes (xs @ ys) = count_lead_bytes xs + count_lead_bytes ys"
  by (simp_all add: count_lead_bytes_def)

lemma count_lead_bytes_le: "count_lead_bytes bs \<le> length bs"
  by (simp add: count_lead_bytes_def)

lemma char_count_append [simp]:
  "emacs_char_count_bytes (xs @ ys) mb = emacs_char_count_bytes xs mb + emacs_char_count_bytes ys mb"
  by (simp add: emacs_char_count_bytes_def chars_in_multibyte_def)

lemma char_count_Nil [simp]: "emacs_char_count_bytes [] mb = 0"
  by (simp add: emacs_char_count_bytes_def chars_in_multibyte_def)

lemma char_count_Cons [simp]:
  "emacs_char_count_bytes (b # bs) mb =
     (if mb \<and> \<not> char_head_p b then 0 else 1) + emacs_char_count_bytes bs mb"
  by (auto simp: emacs_char_count_bytes_def chars_in_multibyte_def)

lemma char_count_le_length: "emacs_char_count_bytes bs mb \<le> length bs"
  by (simp add: emacs_char_count_bytes_def chars_in_multibyte_def count_lead_bytes_le)

lemma char_count_False [simp]: "emacs_char_count_bytes bs False = length bs"
  by (simp add: emacs_char_count_bytes_def)

lemma char_count_True: "emacs_char_count_bytes bs True = count_lead_bytes bs"
  by (simp add: emacs_char_count_bytes_def chars_in_multibyte_def)

lemma char_count_split:
  "emacs_char_count_bytes (take k bs) mb + emacs_char_count_bytes (drop k bs) mb
     = emacs_char_count_bytes bs mb"
  by (metis append_take_drop_id char_count_append)

lemma char_count_take_le: "emacs_char_count_bytes (take k bs) mb \<le> emacs_char_count_bytes bs mb"
  using char_count_split [of k bs mb] by linarith

lemma char_count_take_sub:
  "j \<le> k \<Longrightarrow> emacs_char_count_bytes (take k bs) mb =
     emacs_char_count_bytes (take j bs) mb + emacs_char_count_bytes (sub_list j k bs) mb"
  by (metis char_count_append take_sub_list)

lemma char_count_take_mono:
  "j \<le> k \<Longrightarrow> emacs_char_count_bytes (take j bs) mb \<le> emacs_char_count_bytes (take k bs) mb"
  by (simp add: char_count_take_sub)

text \<open>As many characters as bytes: every character is one byte.\<close>

lemma char_count_eq_length_take:
  assumes "emacs_char_count_bytes bs mb = length bs" "k \<le> length bs"
  shows "emacs_char_count_bytes (take k bs) mb = k"
proof -
  have "emacs_char_count_bytes (take k bs) mb \<le> k"
       "emacs_char_count_bytes (drop k bs) mb \<le> length bs - k"
    using char_count_le_length [of "take k bs" mb] char_count_le_length [of "drop k bs" mb] assms
    by auto
  then show ?thesis using char_count_split [of k bs mb] assms by linarith
qed

text \<open>
  Text whose first byte is not a continuation byte. Every well-formed text has this; together
  with edits at character boundaries it is all that the offset conversions rely on.
\<close>

definition lead_ok :: "bool \<Rightarrow> bytes \<Rightarrow> bool" where
  "lead_ok mb bs \<longleftrightarrow> (mb \<longrightarrow> bs \<noteq> [] \<longrightarrow> char_head_p (hd bs))"

text \<open>Offset \<open>k\<close> is where character number \<open>c\<close> starts (or the end of the text).\<close>

definition char_offset :: "bool \<Rightarrow> bytes \<Rightarrow> nat \<Rightarrow> nat \<Rightarrow> bool" where
  "char_offset mb bs c k \<longleftrightarrow>
     is_emacs_char_boundary bs k mb \<and> emacs_char_count_bytes (take k bs) mb = c"

lemma boundary_le: "is_emacs_char_boundary bs k mb \<Longrightarrow> k \<le> length bs"
  by (simp add: is_emacs_char_boundary_def split: if_splits)

lemma boundary_0 [simp]: "is_emacs_char_boundary bs 0 mb"
  by (simp add: is_emacs_char_boundary_def)

lemma boundary_length [simp]: "is_emacs_char_boundary bs (length bs) mb"
  by (simp add: is_emacs_char_boundary_def)

lemma boundary_False [simp]: "is_emacs_char_boundary bs k False \<longleftrightarrow> k \<le> length bs"
  by (auto simp: is_emacs_char_boundary_def)

lemma boundary_head:
  "is_emacs_char_boundary bs k True \<Longrightarrow> lead_ok True bs \<Longrightarrow> k < length bs \<Longrightarrow> char_head_p (bs ! k)"
  by (cases bs) (auto simp: is_emacs_char_boundary_def lead_ok_def split: if_splits)

lemma boundary_drop_lead_ok:
  "is_emacs_char_boundary bs k mb \<Longrightarrow> lead_ok mb bs \<Longrightarrow> lead_ok mb (drop k bs)"
  using boundary_head [of bs k] boundary_le [of bs k mb]
  by (cases mb) (auto simp: lead_ok_def hd_drop_conv_nth)

lemma lead_ok_Nil [simp]: "lead_ok mb []"
  by (simp add: lead_ok_def)

lemma lead_ok_False [simp]: "lead_ok False bs"
  by (simp add: lead_ok_def)

lemma lead_ok_append: "lead_ok mb xs \<Longrightarrow> (xs = [] \<Longrightarrow> lead_ok mb ys) \<Longrightarrow> lead_ok mb (xs @ ys)"
  by (cases xs) (auto simp: lead_ok_def)

lemma lead_ok_take [simp]: "lead_ok mb xs \<Longrightarrow> lead_ok mb (take k xs)"
  by (cases xs; cases k) (auto simp: lead_ok_def)

lemma char_count_strict:
  assumes "is_emacs_char_boundary bs j mb" "lead_ok mb bs" "j < k" "k \<le> length bs"
  shows "emacs_char_count_bytes (take j bs) mb < emacs_char_count_bytes (take k bs) mb"
proof -
  have "take k bs = take j bs @ bs ! j # take (k - Suc j) (drop (Suc j) bs)"
    using assms by (metis Cons_nth_drop_Suc Suc_diff_Suc le_add_diff_inverse less_le_trans
        nat_less_le take_Suc_Cons take_add)
  moreover have "mb \<Longrightarrow> char_head_p (bs ! j)"
    using assms boundary_head by simp
  ultimately show ?thesis by auto
qed

lemma char_offset_unique:
  assumes "lead_ok mb bs" "char_offset mb bs c j" "char_offset mb bs c k"
  shows "j = k"
proof (rule ccontr)
  assume "j \<noteq> k"
  then consider "j < k" | "k < j" by linarith
  then show False
    using assms char_count_strict [of bs j mb k] char_count_strict [of bs k mb j]
    by cases (auto simp: char_offset_def boundary_le)
qed

lemma char_offset_0 [simp]: "char_offset mb bs 0 0"
  by (simp add: char_offset_def)

lemma char_offset_end [simp]: "char_offset mb bs (emacs_char_count_bytes bs mb) (length bs)"
  by (simp add: char_offset_def)

lemma char_offset_le:
  "char_offset mb bs c k \<Longrightarrow> k \<le> length bs \<and> c \<le> emacs_char_count_bytes bs mb"
  using char_count_take_le [of k bs mb] by (auto simp: char_offset_def boundary_le)

lemma char_offset_mono:
  assumes "lead_ok mb bs" "char_offset mb bs c j" "char_offset mb bs d k"
  shows "c < d \<longleftrightarrow> j < k" "c \<le> d \<longleftrightarrow> j \<le> k"
proof -
  have "j < k \<Longrightarrow> c < d" "k < j \<Longrightarrow> d < c"
    using assms char_count_strict [of bs j mb k] char_count_strict [of bs k mb j]
    by (auto simp: char_offset_def boundary_le)
  moreover have "j = k \<Longrightarrow> c = d" using assms by (auto simp: char_offset_def)
  ultimately have "(c < d \<longleftrightarrow> j < k) \<and> (c \<le> d \<longleftrightarrow> j \<le> k)"
    by (cases j k rule: linorder_cases) auto
  then show "c < d \<longleftrightarrow> j < k" "c \<le> d \<longleftrightarrow> j \<le> k" by auto
qed

text \<open>Boundaries and offsets of a text cut in two at a boundary.\<close>

lemma boundary_append:
  assumes "lead_ok mb ys"
  shows "is_emacs_char_boundary (xs @ ys) (length xs + k) mb \<longleftrightarrow> is_emacs_char_boundary ys k mb"
  using assms
  by (cases ys; cases k) (auto simp: is_emacs_char_boundary_def nth_append lead_ok_def)

lemma boundary_append_left:
  assumes "k \<le> length xs" "lead_ok mb ys"
  shows "is_emacs_char_boundary (xs @ ys) k mb \<longleftrightarrow> is_emacs_char_boundary xs k mb"
  using assms
  by (cases ys) (auto simp: is_emacs_char_boundary_def nth_append lead_ok_def)

lemma boundary_drop:
  assumes "is_emacs_char_boundary bs j mb" "lead_ok mb bs"
  shows "is_emacs_char_boundary (drop j bs) k mb \<longleftrightarrow> is_emacs_char_boundary bs (j + k) mb"
proof -
  have "is_emacs_char_boundary (take j bs @ drop j bs) (length (take j bs) + k) mb
          \<longleftrightarrow> is_emacs_char_boundary (drop j bs) k mb"
    using assms boundary_append boundary_drop_lead_ok by blast
  then show ?thesis using boundary_le [OF assms(1)] by simp
qed

lemma boundary_take:
  assumes "is_emacs_char_boundary bs j mb" "lead_ok mb bs" "k \<le> j"
  shows "is_emacs_char_boundary (take j bs) k mb \<longleftrightarrow> is_emacs_char_boundary bs k mb"
proof -
  have "is_emacs_char_boundary (take j bs @ drop j bs) k mb
          \<longleftrightarrow> is_emacs_char_boundary (take j bs) k mb"
    using assms boundary_le [OF assms(1)]
    by (intro boundary_append_left) (auto simp: boundary_drop_lead_ok)
  then show ?thesis by simp
qed

lemma char_offset_drop:
  assumes "is_emacs_char_boundary bs j mb" "lead_ok mb bs"
  shows "char_offset mb (drop j bs) c k \<longleftrightarrow>
         char_offset mb bs (emacs_char_count_bytes (take j bs) mb + c) (j + k)"
  using boundary_drop [OF assms, of k]
  by (auto simp: char_offset_def take_add)

lemma char_offset_take:
  assumes "is_emacs_char_boundary bs j mb" "lead_ok mb bs" "k \<le> j"
  shows "char_offset mb (take j bs) c k \<longleftrightarrow> char_offset mb bs c k"
  using boundary_take [OF assms] assms(3) by (auto simp: char_offset_def min_absorb2 min_absorb1)

lemma char_offset_sub_list:
  assumes "is_emacs_char_boundary tx i mb" "is_emacs_char_boundary tx j mb" "lead_ok mb tx" "i \<le> j"
    "char_offset mb (sub_list i j tx) c k"
  shows "char_offset mb tx (emacs_char_count_bytes (take i tx) mb + c) (i + k)"
proof -
  have k: "k \<le> j - i"
    using char_offset_le [OF assms(5)] boundary_le [OF assms(2)] by simp
  have "is_emacs_char_boundary (drop i tx) (j - i) mb"
    using assms by (simp add: boundary_drop)
  then have "char_offset mb (drop i tx) c k"
    using assms k boundary_drop_lead_ok [OF assms(1,3)] char_offset_take [of "drop i tx" "j - i" mb k c]
    by (simp add: sub_list_def)
  then show ?thesis using assms by (simp add: char_offset_drop)
qed

subsection \<open>The block-wise scans\<close>

lemma walk_leads_correct:
  assumes "1 \<le> r"
  shows "if r \<le> count_lead_bytes bs
         then \<exists>j < length bs. walk_leads bs i r = Some (i + j) \<and> char_head_p (bs ! j)
                \<and> count_lead_bytes (take j bs) + 1 = r
         else walk_leads bs i r = None"
  using assms
proof (induction bs i r rule: walk_leads.induct)
  case (1 i r)
  then show ?case by simp
next
  case (2 b bs i r)
  show ?case
  proof (cases "char_head_p b \<and> r = 1")
    case True
    then show ?thesis by (auto intro!: exI [of _ 0])
  next
    case False
    define r' where "r' = (if char_head_p b then r - 1 else r)"
    have r': "1 \<le> r'" "walk_leads (b # bs) i r = walk_leads bs (Suc i) r'"
      "r \<le> count_lead_bytes (b # bs) \<longleftrightarrow> r' \<le> count_lead_bytes bs"
      using False "2.prems" by (auto simp: r'_def)
    have IH: "if r' \<le> count_lead_bytes bs
         then \<exists>j < length bs. walk_leads bs (Suc i) r' = Some (Suc i + j) \<and> char_head_p (bs ! j)
                \<and> count_lead_bytes (take j bs) + 1 = r'
         else walk_leads bs (Suc i) r' = None"
      using 2 False r'(1) by (auto simp: r'_def)
    show ?thesis
    proof (cases "r' \<le> count_lead_bytes bs")
      case True
      with IH obtain j where j: "j < length bs" "walk_leads bs (Suc i) r' = Some (Suc i + j)"
        "char_head_p (bs ! j)" "count_lead_bytes (take j bs) + 1 = r'" by auto
      have "count_lead_bytes (take (Suc j) (b # bs)) + 1 = r"
        using j(4) False "2.prems" by (auto simp: r'_def)
      then have "\<exists>k < length (b # bs). walk_leads bs (Suc i) r' = Some (i + k)
          \<and> char_head_p ((b # bs) ! k) \<and> count_lead_bytes (take k (b # bs)) + 1 = r"
        using j by (intro exI [of _ "Suc j"]) auto
      then show ?thesis using True by (simp only: r'(2,3) if_True)
    next
      case nle: False
      with IH show ?thesis by (simp only: r'(2,3) if_False)
    qed
  qed
qed

lemma skip_blocks_correct:
  assumes "skip_blocks bs r base = (r', base')" "1 \<le> r" "base \<le> length bs"
  shows "1 \<le> r' \<and> base' \<le> length bs \<and>
         r' + count_lead_bytes (take base' bs) = r + count_lead_bytes (take base bs)"
  using assms
proof (induction bs r base rule: skip_blocks.induct)
  case (1 bs r base)
  let ?leads = "count_lead_bytes (take BLOCK (drop base bs))"
  show ?case
  proof (cases "base + BLOCK \<le> length bs \<and> \<not> r \<le> ?leads")
    case True
    then have eq: "skip_blocks bs (r - ?leads) (base + BLOCK) = (r', base')"
      using "1.prems"(1) by (simp add: skip_blocks.simps [of bs r base] Let_def)
    have "1 \<le> r' \<and> base' \<le> length bs \<and>
        r' + count_lead_bytes (take base' bs) = r - ?leads + count_lead_bytes (take (base + BLOCK) bs)"
      using "1.IH" [OF _ refl _ eq] True by auto
    then show ?thesis using True by (simp add: take_add)
  next
    case False
    then show ?thesis using "1.prems" by (auto simp: skip_blocks.simps [of bs r base] Let_def split: if_splits)
  qed
qed

lemma position_of_correct:
  "case position_of p xs of
     None \<Rightarrow> \<forall>x \<in> set xs. \<not> p x
   | Some n \<Rightarrow> n < length xs \<and> p (xs ! n) \<and> (\<forall>x \<in> set (take n xs). \<not> p x)"
proof (cases "length (takeWhile (\<lambda>x. \<not> p x) xs) < length xs")
  case True
  then show ?thesis
    using nth_length_takeWhile [of "\<lambda>x. \<not> p x" xs]
    by (auto simp: position_of_def Let_def takeWhile_eq_take [symmetric] dest: set_takeWhileD)
next
  case False
  then have "takeWhile (\<lambda>x. \<not> p x) xs = xs"
    by (metis length_takeWhile_le nat_less_le takeWhile_eq_take take_all_iff)
  then show ?thesis using False by (auto simp: position_of_def Let_def takeWhile_eq_all_conv)
qed

lemma count_lead_bytes_none: "\<forall>x \<in> set bs. \<not> char_head_p x \<Longrightarrow> count_lead_bytes bs = 0"
  by (simp add: count_lead_bytes_def)

lemma char_to_byte_pos_offset:
  assumes "c \<le> count_lead_bytes bs"
  shows "char_offset True bs c (char_to_byte_pos bs c)"
proof (cases "c = 0")
  case True
  then show ?thesis by (simp add: char_to_byte_pos_def)
next
  case False
  obtain r base where sb: "skip_blocks bs c 0 = (r, base)" by fastforce
  have inv: "1 \<le> r" "base \<le> length bs" "r + count_lead_bytes (take base bs) = c"
    using skip_blocks_correct [OF sb] False by auto
  have "count_lead_bytes (take base bs) + count_lead_bytes (drop base bs) = count_lead_bytes bs"
    using char_count_split [of base bs True] by (simp add: char_count_True)
  then have "r \<le> count_lead_bytes (drop base bs)" using inv assms by linarith
  then obtain j where j: "j < length (drop base bs)" "walk_leads (drop base bs) 0 r = Some j"
    "char_head_p (drop base bs ! j)" "count_lead_bytes (take j (drop base bs)) + 1 = r"
    using walk_leads_correct [OF inv(1), of "drop base bs" 0] by auto
  define start where "start = base + j"
  have start: "start < length bs" "char_head_p (bs ! start)"
    "count_lead_bytes (take start bs) + 1 = c"
    using j inv by (auto simp: start_def take_add)
  then have Suc_start: "count_lead_bytes (take (Suc start) bs) = c"
    by (simp add: take_Suc_conv_app_nth)
  have res: "char_to_byte_pos bs c =
      start + (case position_of char_head_p (drop (start + 1) bs) of
                 None \<Rightarrow> length bs - start | Some n \<Rightarrow> n + 1)"
    using False sb j(2) by (simp add: char_to_byte_pos_def start_def Let_def cong: option.case_cong)
  have pos: "case position_of char_head_p (drop (start + 1) bs) of
     None \<Rightarrow> \<forall>x \<in> set (drop (start + 1) bs). \<not> char_head_p x
   | Some n \<Rightarrow> n < length (drop (start + 1) bs) \<and> char_head_p (drop (start + 1) bs ! n)
       \<and> (\<forall>x \<in> set (take n (drop (start + 1) bs)). \<not> char_head_p x)"
    by (rule position_of_correct)
  show ?thesis
  proof (cases "position_of char_head_p (drop (start + 1) bs)")
    case None
    have "char_to_byte_pos bs c = length bs" using None res start(1) by simp
    moreover have "count_lead_bytes bs = c"
    proof -
      have "count_lead_bytes (drop (Suc start) bs) = 0"
        using None pos by (intro count_lead_bytes_none) simp
      then show ?thesis
        using Suc_start char_count_split [of "Suc start" bs True] by (simp add: char_count_True)
    qed
    ultimately show ?thesis using char_offset_end [of True bs] by (simp add: char_count_True)
  next
    case (Some n)
    let ?k = "Suc start + n"
    have k: "char_to_byte_pos bs c = ?k" using Some res by simp
    have n: "?k < length bs" "char_head_p (bs ! ?k)"
      "count_lead_bytes (take n (drop (Suc start) bs)) = 0"
      using Some pos by (auto intro!: count_lead_bytes_none)
    then have "count_lead_bytes (take ?k bs) = c" using Suc_start by (simp only: take_add) simp
    then show ?thesis using n k
      by (simp add: char_offset_def is_emacs_char_boundary_def char_count_True)
  qed
qed

lemma emacs_char_to_byte_in_slice_offset:
  "c \<le> emacs_char_count_bytes bs mb \<Longrightarrow>
   char_offset mb bs c (emacs_char_to_byte_in_slice bs c mb)"
  using char_to_byte_pos_offset [of c bs]
  by (cases mb) (simp_all add: emacs_char_to_byte_in_slice_def char_count_True char_offset_def min_def)

lemma walk_leads_back_correct:
  assumes "1 \<le> r" "stop \<le> length bs"
  shows "if r \<le> count_lead_bytes (take stop bs)
         then \<exists>j < stop. walk_leads_back bs stop r = Some j \<and> char_head_p (bs ! j)
                \<and> count_lead_bytes (sub_list j stop bs) = r
         else walk_leads_back bs stop r = None"
  using assms
proof (induction bs stop r rule: walk_leads_back.induct)
  case (1 bs r)
  then show ?case by simp
next
  case (2 bs i r)
  have i: "i < length bs" using "2.prems" by simp
  have tk: "count_lead_bytes (take (Suc i) bs) =
      count_lead_bytes (take i bs) + (if char_head_p (bs ! i) then 1 else 0)"
    using i by (simp add: take_Suc_conv_app_nth)
  have sl: "j \<le> i \<Longrightarrow> count_lead_bytes (sub_list j (Suc i) bs) =
      count_lead_bytes (sub_list j i bs) + (if char_head_p (bs ! i) then 1 else 0)" for j
    using i by (simp add: sub_list_def Suc_diff_le take_Suc_conv_app_nth)
  show ?case
  proof (cases "char_head_p (bs ! i) \<and> r = 1")
    case True
    have "count_lead_bytes (sub_list i (Suc i) bs) = 1"
      using sl [of i] True by (simp add: sub_list_def)
    then show ?thesis using True tk by (auto intro!: exI [of _ i])
  next
    case False
    define r' where "r' = (if char_head_p (bs ! i) then r - 1 else r)"
    have r': "1 \<le> r'" "walk_leads_back bs (Suc i) r = walk_leads_back bs i r'"
      "r \<le> count_lead_bytes (take (Suc i) bs) \<longleftrightarrow> r' \<le> count_lead_bytes (take i bs)"
      using False "2.prems"(1) tk by (auto simp: r'_def)
    have IH: "if r' \<le> count_lead_bytes (take i bs)
         then \<exists>j < i. walk_leads_back bs i r' = Some j \<and> char_head_p (bs ! j)
                \<and> count_lead_bytes (sub_list j i bs) = r'
         else walk_leads_back bs i r' = None"
      using 2 False r'(1) by (auto simp: r'_def)
    show ?thesis
    proof (cases "r' \<le> count_lead_bytes (take i bs)")
      case True
      with IH obtain j where j: "j < i" "walk_leads_back bs i r' = Some j"
        "char_head_p (bs ! j)" "count_lead_bytes (sub_list j i bs) = r'" by auto
      have "count_lead_bytes (sub_list j (Suc i) bs) = r"
        using j sl [of j] False "2.prems"(1) by (auto simp: r'_def)
      then have "\<exists>j < Suc i. walk_leads_back bs i r' = Some j \<and> char_head_p (bs ! j)
                \<and> count_lead_bytes (sub_list j (Suc i) bs) = r"
        using j by (intro exI [of _ j]) auto
      then show ?thesis using True by (simp only: r'(2,3) if_True)
    next
      case nle: False
      with IH show ?thesis by (simp only: r'(2,3) if_False)
    qed
  qed
qed

lemma skip_blocks_back_correct:
  assumes "skip_blocks_back bs r stop = (r', stop')" "1 \<le> r" "stop \<le> length bs"
  shows "1 \<le> r' \<and> stop' \<le> stop \<and>
         r = r' + count_lead_bytes (sub_list stop' stop bs)"
  using assms
proof (induction bs r stop rule: skip_blocks_back.induct)
  case (1 bs r stop)
  let ?leads = "count_lead_bytes (take BLOCK (drop (stop - BLOCK) bs))"
  show ?case
  proof (cases "BLOCK \<le> stop \<and> \<not> r \<le> ?leads")
    case True
    then have eq: "skip_blocks_back bs (r - ?leads) (stop - BLOCK) = (r', stop')"
      using "1.prems"(1) by (simp add: skip_blocks_back.simps [of bs r stop] Let_def)
    have IH: "1 \<le> r' \<and> stop' \<le> stop - BLOCK \<and>
        r - ?leads = r' + count_lead_bytes (sub_list stop' (stop - BLOCK) bs)"
      using "1.IH" [OF _ refl _ eq] True "1.prems" by auto
    have "sub_list stop' stop bs =
        sub_list stop' (stop - BLOCK) bs @ take BLOCK (drop (stop - BLOCK) bs)"
    proof -
      have "stop' \<le> stop - BLOCK" using IH by blast
      then have "stop - stop' = (stop - BLOCK - stop') + BLOCK" using True by linarith
      then show ?thesis
        using \<open>stop' \<le> stop - BLOCK\<close> by (simp only: sub_list_def take_add) simp
    qed
    then show ?thesis using IH True by auto
  next
    case False
    then show ?thesis using "1.prems"
      by (auto simp: skip_blocks_back.simps [of bs r stop] Let_def sub_list_def split: if_splits)
  qed
qed

text \<open>
  The two backward scans share their loop: \<open>scan_back\<close> is the lead byte that starts the
  \<open>n\<close>-th character from the end.
\<close>

lemma scan_back_correct:
  assumes "skip_blocks_back bs n (length bs) = (r, stop)" "1 \<le> n"
  shows "if n \<le> count_lead_bytes bs
         then \<exists>j < length bs. walk_leads_back bs stop r = Some j \<and> char_head_p (bs ! j)
                \<and> count_lead_bytes (drop j bs) = n
         else walk_leads_back bs stop r = None"
proof -
  have inv: "1 \<le> r" "stop \<le> length bs" "n = r + count_lead_bytes (drop stop bs)"
    using skip_blocks_back_correct [OF assms] by (auto simp: sub_list_def)
  have iff: "n \<le> count_lead_bytes bs \<longleftrightarrow> r \<le> count_lead_bytes (take stop bs)"
    using inv char_count_split [of stop bs True] by (auto simp: char_count_True)
  have tail: "count_lead_bytes (drop j bs) =
      count_lead_bytes (sub_list j stop bs) + count_lead_bytes (drop stop bs)" if "j < stop" for j
    using that sub_list_drop [of j stop bs] count_lead_bytes_simps(3) by (metis less_imp_le)
  show ?thesis
  proof (cases "n \<le> count_lead_bytes bs")
    case True
    then obtain j where j: "j < stop" "walk_leads_back bs stop r = Some j" "char_head_p (bs ! j)"
      "count_lead_bytes (sub_list j stop bs) = r"
      using walk_leads_back_correct [OF inv(1,2)] iff by auto
    then have "count_lead_bytes (drop j bs) = n" using tail [of j] inv(3) by simp
    then show ?thesis using True j inv(2) by auto
  next
    case False
    then show ?thesis using walk_leads_back_correct [OF inv(1,2)] iff by simp
  qed
qed

lemma char_offset_of_tail:
  assumes "j < length bs" "char_head_p (bs ! j)" "emacs_char_count_bytes (drop j bs) True = n"
  shows "char_offset True bs (emacs_char_count_bytes bs True - n) j"
  using assms char_count_split [of j bs True]
  by (auto simp: char_offset_def is_emacs_char_boundary_def)

lemma nth_lead_from_end_correct:
  assumes "1 \<le> n"
  shows "if n \<le> emacs_char_count_bytes slc mb
         then \<exists>j. nth_lead_from_end slc n mb = Some j \<and>
                  char_offset mb slc (emacs_char_count_bytes slc mb - n) j
         else nth_lead_from_end slc n mb = None"
proof (cases mb)
  case True
  obtain r stop where sb: "skip_blocks_back slc n (length slc) = (r, stop)" by fastforce
  have "nth_lead_from_end slc n mb = walk_leads_back slc stop r"
    using sb True by (simp add: nth_lead_from_end_def)
  then show ?thesis
    using scan_back_correct [OF sb assms] char_offset_of_tail [of _ slc n] True
    by (auto simp: char_count_True)
next
  case False
  then show ?thesis by (auto simp: nth_lead_from_end_def char_offset_def)
qed

lemma char_to_byte_pos_from_end_offset:
  assumes "n \<le> count_lead_bytes bs"
  shows "char_offset True bs (count_lead_bytes bs - n) (char_to_byte_pos_from_end bs n)"
proof (cases "n = 0")
  case True
  then show ?thesis
    using char_offset_end [of True bs] by (simp add: char_to_byte_pos_from_end_def char_count_True)
next
  case False
  obtain r stop where sb: "skip_blocks_back bs n (length bs) = (r, stop)" by fastforce
  show ?thesis
    using scan_back_correct [OF sb] False assms char_offset_of_tail [of _ bs n]
    by (auto simp: char_to_byte_pos_from_end_def sb char_count_True)
qed

subsection \<open>The encoder and the decoder\<close>

lemma head_tests: "b AND 0xC0 = 0x80 \<longleftrightarrow> 128 \<le> unat (b::u8) \<and> unat b < 192"
proof -
  have "b AND 0xC0 = 0x80 \<longleftrightarrow> uint b AND 0xC0 = 0x80"
    by (simp add: word_uint_eq_iff unsigned_and_eq)
  also have "\<dots> \<longleftrightarrow> 128 \<le> uint b \<and> uint b < 192" by (rule byte_bits(1) [symmetric])
  also have "\<dots> \<longleftrightarrow> 128 \<le> unat b \<and> unat b < 192"
  proof -
    have "uint b = int (unat b)" by simp
    then have "128 \<le> uint b \<longleftrightarrow> 128 \<le> unat b" "uint b < 192 \<longleftrightarrow> unat b < 192" by arith+
    then show ?thesis by simp
  qed
  finally show ?thesis .
qed

lemma char_head_unat: "char_head_p b \<longleftrightarrow> unat b < 128 \<or> 192 \<le> unat b"
  by (auto simp: char_head_p_def head_tests)

lemmas enc_simps = unat_and_masks or_leads unat_ucast_u8 unat_drop_bit_word MAX_5_BYTE_CHAR_def MAX_CHAR_def BYTE8_OFFSET_def word_less_nat_alt word_le_nat_alt

lemma no_modifiers: assumes "c \<le> MAX_CHAR" shows "c AND CHAR_MODIFIER_MASK = 0"
proof -
  have "unat c < 2 ^ 22" using assms by (simp add: MAX_CHAR_def word_le_nat_alt)
  then have "take_bit 22 (unat c) = unat c" by (simp add: take_bit_nat_eq_self)
  then have "take_bit 22 c = c" by (metis unsigned_take_bit_eq unat_eq_nat_uint word_unat_eq_iff)
  then have c: "c AND mask 22 = c" by (simp add: take_bit_eq_mask)
  have "c AND CHAR_MODIFIER_MASK = c AND (mask 22 AND CHAR_MODIFIER_MASK)"
    by (metis c and.assoc)
  also have "mask 22 AND CHAR_MODIFIER_MASK = 0"
    by (simp add: CHAR_MODIFIER_MASK_def CHAR_ALT_def CHAR_SUPER_def CHAR_HYPER_def CHAR_SHIFT_def CHAR_CTL_def CHAR_META_def mask_numeral)
  finally show ?thesis by simp
qed

definition enc :: "nat \<Rightarrow> nat list" where
  "enc n = (if n < 128 then [n] else if n < 2048 then [192 + n div 64, 128 + n mod 64]
   else if n < 65536 then [224 + n div 4096, 128 + n div 64 mod 64, 128 + n mod 64]
   else if n < 2097152 then [240 + n div 262144, 128 + n div 4096 mod 64, 128 + n div 64 mod 64, 128 + n mod 64]
   else if n < 4194176 then [248, 128 + n div 262144 mod 64, 128 + n div 4096 mod 64, 128 + n div 64 mod 64, 128 + n mod 64]
   else [192 + (n - 4194176) div 64, 128 + (n - 4194176) mod 64])"

lemma raw_byte_unat:
  assumes "c \<le> MAX_CHAR" "\<not> unat c < 4194176"
  shows "unat (ucast (c - BYTE8_OFFSET) - 0x80 :: u8) = unat c - 4194176"
proof -
  have "unat (c - BYTE8_OFFSET) = unat c - 4194048"
    using assms by (simp add: unat_sub BYTE8_OFFSET_def word_le_nat_alt)
  then have "unat (ucast (c - BYTE8_OFFSET) :: u8) = unat c - 4194048"
    using assms by (simp add: unat_ucast_u8 MAX_CHAR_def word_le_nat_alt)
  then show ?thesis
    using assms by (simp add: unat_sub word_le_nat_alt)
qed

lemma char_string_enc:
  assumes "c \<le> MAX_CHAR"
  shows "map_option (map unat) (char_string c) = Some (enc (unat c))"
proof (cases "unat c < 4194176")
  case True
  then show ?thesis using assms
    by (auto simp: char_string_def no_modifiers enc_def enc_simps char_to_byte8_def char_byte8_p_def Let_def)
next
  case False
  have b: "unat (ucast (c - BYTE8_OFFSET) - 0x80 :: u8) = unat c - 4194176"
    using assms False by (rule raw_byte_unat)
  have "unat c - 4194176 < 128" using assms by (simp add: MAX_CHAR_def word_le_nat_alt)
  then show ?thesis using assms False b
    by (simp add: char_string_def no_modifiers enc_def unat_and_masks or_leads unat_drop_bit_word MAX_5_BYTE_CHAR_def
       word_less_nat_alt word_le_nat_alt char_to_byte8_def char_byte8_p_def Let_def)
qed

lemma unat_shift_or_u32:
  fixes x y :: u32
  assumes "unat x < m" "m * 2 ^ k \<le> 4294967296" "unat y < 2 ^ k"
  shows "unat (push_bit k x OR y) = unat x * 2 ^ k + unat y"
    and "unat (push_bit k x OR y) < m * 2 ^ k"
proof -
  have le: "unat x * 2 ^ k + 2 ^ k \<le> m * 2 ^ k"
    using assms(1) by (metis Suc_leI mult_Suc add.commute mult_le_mono1)
  have pos: "0 < (2::nat) ^ k" by simp
  have "unat x * 2 ^ k < 4294967296" using le pos assms(2) by linarith
  then have "unat x * 2 ^ k < 2 ^ LENGTH(32)" by simp
  then show "unat (push_bit k x OR y) = unat x * 2 ^ k + unat y"
    using assms(3) by (rule unat_shift_or)
  then show "unat (push_bit k x OR y) < m * 2 ^ k" using le assms(3) by linarith
qed

lemma decoded_values:
  fixes b0 b1 b2 b3 b4 :: u8
  shows dec2: "unat (push_bit 6 (ucast b0 AND 0x1F) OR (ucast b1 AND 0x3F) :: u32)
      = unat b0 mod 32 * 64 + unat b1 mod 64"
    and dec3: "unat (push_bit 12 (ucast b0 AND 0x0F) OR push_bit 6 (ucast b1 AND 0x3F) OR (ucast b2 AND 0x3F) :: u32)
      = unat b0 mod 16 * 4096 + unat b1 mod 64 * 64 + unat b2 mod 64"
    and dec4: "unat (push_bit 18 (ucast b0 AND 0x07) OR push_bit 12 (ucast b1 AND 0x3F)
         OR push_bit 6 (ucast b2 AND 0x3F) OR (ucast b3 AND 0x3F) :: u32)
      = unat b0 mod 8 * 262144 + unat b1 mod 64 * 4096 + unat b2 mod 64 * 64 + unat b3 mod 64"
    and dec5: "unat (push_bit 18 (ucast b1 AND 0x3F) OR push_bit 12 (ucast b2 AND 0x3F)
         OR push_bit 6 (ucast b3 AND 0x3F) OR (ucast b4 AND 0x3F) :: u32)
      = unat b1 mod 64 * 262144 + unat b2 mod 64 * 4096 + unat b3 mod 64 * 64 + unat b4 mod 64"
proof -
  have m: "unat (ucast b AND 0x3F :: u32) = unat b mod 64" "unat (ucast b AND 0x3F :: u32) < 64"
     for b :: u8 by (simp_all add: unat_and_masks)
  have m5: "unat (ucast b AND 0x1F :: u32) = unat b mod 32" "unat (ucast b AND 0x1F :: u32) < 32"
     for b :: u8 by (simp_all add: unat_and_masks)
  have m4: "unat (ucast b AND 0x0F :: u32) = unat b mod 16" "unat (ucast b AND 0x0F :: u32) < 16"
     for b :: u8 by (simp_all add: unat_and_masks)
  have m3: "unat (ucast b AND 0x07 :: u32) = unat b mod 8" "unat (ucast b AND 0x07 :: u32) < 8"
     for b :: u8 by (simp_all add: unat_and_masks)
  have two: "unat (push_bit 6 (ucast b AND 0x3F) OR (ucast b' AND 0x3F) :: u32)
      = unat b mod 64 * 64 + unat b' mod 64"
     "unat (push_bit 6 (ucast b AND 0x3F) OR (ucast b' AND 0x3F) :: u32) < 2 ^ 12" for b b' :: u8
    using unat_shift_or_u32 [OF m(2) [of b], of 6 "ucast b' AND 0x3F"] m [of b'] m(1) [of b]
    by simp_all
  have three: "unat (push_bit 12 (ucast b AND 0x3F) OR push_bit 6 (ucast b' AND 0x3F) OR (ucast b'' AND 0x3F) :: u32)
      = unat b mod 64 * 4096 + unat b' mod 64 * 64 + unat b'' mod 64"
     "unat (push_bit 12 (ucast b AND 0x3F) OR push_bit 6 (ucast b' AND 0x3F) OR (ucast b'' AND 0x3F) :: u32) < 2 ^ 18"
     for b b' b'' :: u8
    using unat_shift_or_u32 [OF m(2) [of b] _ two(2) [of b' b'']] m(1) [of b] two(1) [of b' b'']
    by simp_all
  show "unat (push_bit 6 (ucast b0 AND 0x1F) OR (ucast b1 AND 0x3F) :: u32)
      = unat b0 mod 32 * 64 + unat b1 mod 64"
    using unat_shift_or_u32 [OF m5(2) [of b0], of 6 "ucast b1 AND 0x3F"] m [of b1] m5(1) [of b0] by simp
  show "unat (push_bit 12 (ucast b0 AND 0x0F) OR push_bit 6 (ucast b1 AND 0x3F) OR (ucast b2 AND 0x3F) :: u32)
      = unat b0 mod 16 * 4096 + unat b1 mod 64 * 64 + unat b2 mod 64"
    using unat_shift_or_u32 [OF m4(2) [of b0] _ two(2) [of b1 b2]] m4(1) [of b0] two(1) [of b1 b2] by simp
  show "unat (push_bit 18 (ucast b0 AND 0x07) OR push_bit 12 (ucast b1 AND 0x3F)
         OR push_bit 6 (ucast b2 AND 0x3F) OR (ucast b3 AND 0x3F) :: u32)
      = unat b0 mod 8 * 262144 + unat b1 mod 64 * 4096 + unat b2 mod 64 * 64 + unat b3 mod 64"
    using unat_shift_or_u32 [OF m3(2) [of b0] _ three(2) [of b1 b2 b3]] m3(1) [of b0] three(1) [of b1 b2 b3]
    by simp
  show "unat (push_bit 18 (ucast b1 AND 0x3F) OR push_bit 12 (ucast b2 AND 0x3F)
         OR push_bit 6 (ucast b3 AND 0x3F) OR (ucast b4 AND 0x3F) :: u32)
      = unat b1 mod 64 * 262144 + unat b2 mod 64 * 4096 + unat b3 mod 64 * 64 + unat b4 mod 64"
    using unat_shift_or_u32 [OF m(2) [of b1] _ three(2) [of b2 b3 b4]] m(1) [of b1] three(1) [of b2 b3 b4]
    by simp
qed

lemma raw_decoded:
  "b0 = 0xC0 \<or> b0 = 0xC1 \<Longrightarrow>
   unat (byte8_to_char ((push_bit 6 (b0 AND 0x01) OR (b1 AND 0x3F)) OR 0x80))
     = 4194176 + (unat b0 - 192) * 64 + unat b1 mod 64"
proof -
  have y: "unat (b1 AND 0x3F) < 64" by (simp add: unat_and_masks)
  have "unat (0xC0 OR (b1 AND 0x3F)) = 192 + unat b1 mod 64"
    using unat_shift_or [of "3::u8" 6 "b1 AND 0x3F"] y by (simp add: push_bit_eq_mult unat_and_masks)
  moreover have "(0x40 OR (b1 AND 0x3F)) OR 0x80 = 0xC0 OR (b1 AND 0x3F)"
  proof -
    have "(0x40 OR (b1 AND 0x3F)) OR 0x80 = (0x80 OR 0x40) OR (b1 AND 0x3F)"
      by (simp only: or.assoc or.commute or.left_commute)
    then show ?thesis by simp
  qed
  moreover have "(b1 AND 0x3F) OR 0x80 = 0x80 OR (b1 AND 0x3F)" by (rule or.commute)
  ultimately show "b0 = 0xC0 \<or> b0 = 0xC1 \<Longrightarrow> ?thesis"
    using y
    by (auto simp: byte8_to_char_def BYTE8_OFFSET_def unat_word_ariths or_leads push_bit_eq_mult unat_and_masks)
qed

lemma mod_offsets:
  "x < 32 \<Longrightarrow> (192 + x) mod 32 = (x::nat)"
  "x < 16 \<Longrightarrow> (224 + x) mod 16 = (x::nat)"
  "x < 8 \<Longrightarrow> (240 + x) mod 8 = (x::nat)"
  "x < 64 \<Longrightarrow> (128 + x) mod 64 = (x::nat)"
  using mod_mult_self3 [of 6 32 x] mod_mult_self3 [of 14 16 x] mod_mult_self3 [of 30 8 x]
    mod_mult_self3 [of 2 64 x]
  by simp_all

lemma n_div: "n div 64 div 64 = n div (4096::nat)" "n div 4096 div 64 = n div (262144::nat)"
  by (simp_all add: div_mult2_eq[symmetric])

lemma recombine: 
  "(n::nat) div 64 * 64 + n mod 64 = n"
  "(n::nat) div 4096 * 4096 + n div 64 mod 64 * 64 + n mod 64 = n"
  "(n::nat) div 262144 * 262144 + n div 4096 mod 64 * 4096 + n div 64 mod 64 * 64 + n mod 64 = n"
  using div_mult_mod_eq[of n 64] div_mult_mod_eq[of "n div 64" 64] div_mult_mod_eq[of "n div 4096" 64] 
  unfolding n_div by linarith+

lemma u32_eqI: "unat (c::u32) = n \<Longrightarrow> c = word_of_nat n"
  by auto

lemma string_char_enc:
  assumes "map unat bs = enc n @ rest" "n < 4194304"
  shows "string_char bs = Some (word_of_nat n, length (enc n))"
proof -
  consider "n < 128" | "128 \<le> n" "n < 2048" | "2048 \<le> n" "n < 65536" | "65536 \<le> n" "n < 2097152"
    | "2097152 \<le> n" "n < 4194176" | "4194176 \<le> n" by linarith
  then show ?thesis
  proof cases
    case 1
    with assms obtain b0 bs' where "bs = b0 # bs'" "unat b0 = n"
      by (cases bs) (auto simp: enc_def)
    with 1 show ?thesis by (auto simp: string_char_def enc_def word_less_nat_alt intro!: u32_eqI)
  next
    case 2
    with assms obtain b0 b1 bs' where b: "bs = b0 # b1 # bs'" "unat b0 = 192 + n div 64" "unat b1 = 128 + n mod 64"
      by (auto simp: enc_def map_eq_Cons_conv)
    have lt: "n div 64 < 32" using 2 by linarith
    have "unat b0 mod 32 = n div 64" "unat b1 mod 64 = n mod 64" using 2 b by (simp_all add: mod_offsets)
    then have "unat (push_bit 6 (ucast b0 AND 0x1F) OR (ucast b1 AND 0x3F) :: u32) = n"
      using recombine(1)[of n] by (simp only: dec2)
    moreover have "\<not> is_raw_byte_lead b0" using b 2 by (auto simp: is_raw_byte_lead_def)
    ultimately show ?thesis using 2 b lt by (simp add: string_char_def enc_def word_less_nat_alt head_tests u32_eqI)
  next
    case 3
    with assms obtain b0 b1 b2 bs' where b: "bs = b0 # b1 # b2 # bs'" "unat b0 = 224 + n div 4096" "unat b1 = 128 + n div 64 mod 64" "unat b2 = 128 + n mod 64"
      by (auto simp: enc_def map_eq_Cons_conv)
    have lt: "n div 4096 < 16" using 3 by linarith
    have "unat b0 mod 16 = n div 4096" "unat b1 mod 64 = n div 64 mod 64" "unat b2 mod 64 = n mod 64" using 3 b by (simp_all add: mod_offsets)
    then have "unat (push_bit 12 (ucast b0 AND 0x0F) OR push_bit 6 (ucast b1 AND 0x3F) OR (ucast b2 AND 0x3F) :: u32) = n"
      using recombine(2)[of n] by (simp only: dec3)
    moreover have "\<not> is_raw_byte_lead b0" using b 3 by (auto simp: is_raw_byte_lead_def)
    ultimately show ?thesis using 3 b lt by (simp add: string_char_def enc_def word_less_nat_alt head_tests u32_eqI)
  next
    case 4
    with assms obtain b0 b1 b2 b3 bs' where b: "bs = b0 # b1 # b2 # b3 # bs'" "unat b0 = 240 + n div 262144" "unat b1 = 128 + n div 4096 mod 64" "unat b2 = 128 + n div 64 mod 64" "unat b3 = 128 + n mod 64"
      by (auto simp: enc_def map_eq_Cons_conv)
    have lt: "n div 262144 < 8" using 4 by linarith
    have "unat b0 mod 8 = n div 262144" "unat b1 mod 64 = n div 4096 mod 64" "unat b2 mod 64 = n div 64 mod 64" "unat b3 mod 64 = n mod 64" using 4 b by (simp_all add: mod_offsets)
    then have "unat (push_bit 18 (ucast b0 AND 0x07) OR push_bit 12 (ucast b1 AND 0x3F)
         OR push_bit 6 (ucast b2 AND 0x3F) OR (ucast b3 AND 0x3F) :: u32) = n"
      using recombine(3)[of n] by (simp only: dec4)
    moreover have "\<not> is_raw_byte_lead b0" using b 4 by (auto simp: is_raw_byte_lead_def)
    ultimately show ?thesis using 4 b lt by (simp add: string_char_def enc_def word_less_nat_alt head_tests u32_eqI)
  next
    case 5
    with assms obtain b0 b1 b2 b3 b4 bs' where b: "bs = b0 # b1 # b2 # b3 # b4 # bs'" "unat b0 = 248" "unat b1 = 128 + n div 262144 mod 64" "unat b2 = 128 + n div 4096 mod 64" "unat b3 = 128 + n div 64 mod 64" "unat b4 = 128 + n mod 64"
      by (auto simp: enc_def map_eq_Cons_conv)
    have "unat b1 mod 64 = n div 262144" "unat b2 mod 64 = n div 4096 mod 64" "unat b3 mod 64 = n div 64 mod 64" "unat b4 mod 64 = n mod 64" using 5 b by (simp_all add: mod_offsets)
    then have "unat (push_bit 18 (ucast b1 AND 0x3F) OR push_bit 12 (ucast b2 AND 0x3F)
         OR push_bit 6 (ucast b3 AND 0x3F) OR (ucast b4 AND 0x3F) :: u32) = n"
      using recombine(3)[of n] by (simp only: dec5)
    moreover have "b0 = 0xF8" using b by (simp add: word_unat_eq_iff)
    ultimately show ?thesis using 5 b by (simp add: string_char_def enc_def word_less_nat_alt head_tests u32_eqI is_raw_byte_lead_def)
  next
    case 6
    with assms obtain b0 b1 bs' where b: "bs = b0 # b1 # bs'" "unat b0 = 192 + (n - 4194176) div 64" "unat b1 = 128 + (n - 4194176) mod 64"
      by (auto simp: enc_def map_eq_Cons_conv)
    have "unat b0 < 194" using b assms(2) by linarith
    then have raw: "b0 = 0xC0 \<or> b0 = 0xC1" using b by (auto simp: word_unat_eq_iff)
    have "unat b0 - 192 = (n - 4194176) div 64" "unat b1 mod 64 = (n - 4194176) mod 64" using b by (simp_all add: mod_offsets)
    then have "unat (byte8_to_char ((push_bit 6 (b0 AND 0x01) OR (b1 AND 0x3F)) OR 0x80)) = n"
      using recombine(1)[of "n - 4194176"] 6 raw_decoded[OF raw, of b1] by simp
    then show ?thesis using 6 b raw by (auto simp: string_char_def enc_def word_less_nat_alt head_tests u32_eqI is_raw_byte_lead_def)
  qed
qed

lemma uint_unat_byte: "uint (b::u8) = int (unat b)" by simp

lemma trailing_uint: "128 \<le> unat (b::u8) \<Longrightarrow> unat b < 192 \<Longrightarrow> uint b AND 0xC0 = 0x80"
proof -
  assume "128 \<le> unat b" "unat b < 192"
  then have "128 \<le> uint b \<and> uint b < 192" using uint_unat_byte [of b] by linarith
  then show ?thesis by (simp add: byte_bits(1))
qed

lemma or_ge: "0 \<le> (a::int) \<Longrightarrow> 0 \<le> b \<Longrightarrow> a \<le> a OR b"
  by (simp add: or_greater_eq)

lemma mod_int_range: "9 \<le> (d::int) \<Longrightarrow> d < 12 \<Longrightarrow> 1 \<le> d mod 4"
proof -
  assume "9 \<le> d" "d < 12"
  then have "d = 9 \<or> d = 10 \<or> d = 11" by linarith
  then show ?thesis by auto
qed

lemma three_window:
  "\<forall>k \<in> set [0..15]. \<forall>t \<in> set [0..1]. 1 \<le> k \<or> 1 \<le> t \<longrightarrow>
     0xAE1 \<le> (0xAE0 + k) OR (8 * t) \<and> (0xAE0 + k) OR (8 * t) \<le> (0xAEF::int)"
  by code_simp
lemma four_window:
  "\<forall>k \<in> set [0..7]. \<forall>t \<in> set [0..3]. 1 \<le> k \<or> 1 \<le> t \<longrightarrow>
     0x2AF1 \<le> (0x2AF0 + k) OR (2 * t) \<and> (0x2AF0 + k) OR (2 * t) \<le> (0x2AF7::int)"
  by code_simp

lemma multibyte_length_2:
  assumes "192 \<le> unat b0" "unat b0 < 224" "128 \<le> unat b1" "unat b1 < 192"
  shows "multibyte_length (b0 # b1 # bs) True = Some 2"
proof -
  have "uint b0 = int (unat b0)" by simp
  then have "192 \<le> uint b0" "uint b0 < 224" using assms by linarith+
  then show ?thesis using trailing_uint [OF assms(3,4)]
    by (simp add: multibyte_length_def Let_def del: push_bit_and drop_bit_and)
qed

lemma multibyte_length_3:
  assumes "224 \<le> unat b0" "unat b0 < 240" "128 \<le> unat b1" "unat b1 < 192" "128 \<le> unat b2" "unat b2 < 192"
    "225 \<le> unat b0 \<or> 160 \<le> unat b1"
  shows "multibyte_length (b0 # b1 # b2 # bs) True = Some 3"
proof -
  have u: "uint b0 = int (unat b0)" "uint b1 = int (unat b1)" by simp_all
  then have b0: "224 \<le> uint b0" "uint b0 < 240" and b1: "128 \<le> uint b1" "uint b1 < 192"
    and c: "225 \<le> uint b0 \<or> 160 \<le> uint b1"
    using assms by linarith+
  define k where "k = uint b0 - 224"
  define t where "t = uint b1 div 32 mod 2"
  have "uint b1 div 32 = 5" if "160 \<le> uint b1" using that b1 by linarith
  then have kt: "k \<in> set [0..15]" "t \<in> set [0..1]" "1 \<le> k \<or> 1 \<le> t"
    using b0 c by (auto simp: k_def t_def)
  have "0xAE1 \<le> (0xAE0 + k) OR (8 * t) \<and> (0xAE0 + k) OR (8 * t) \<le> (0xAEF::int)"
    using three_window kt by blast
  then show ?thesis using trailing_uint [OF assms(3,4)] trailing_uint [OF assms(5,6)] b0
    by (simp add: multibyte_length_def Let_def byte_bits(2) t_def k_def algebra_simps del: push_bit_and drop_bit_and)
qed

lemma multibyte_length_4:
  assumes "240 \<le> unat b0" "unat b0 < 248" "128 \<le> unat b1" "unat b1 < 192" "128 \<le> unat b2" "unat b2 < 192"
    "128 \<le> unat b3" "unat b3 < 192"
    "241 \<le> unat b0 \<or> 144 \<le> unat b1"
  shows "multibyte_length (b0 # b1 # b2 # b3 # bs) True = Some 4"
proof -
  have u: "uint b0 = int (unat b0)" "uint b1 = int (unat b1)" by simp_all
  then have b0: "240 \<le> uint b0" "uint b0 < 248" and b1: "128 \<le> uint b1" "uint b1 < 192"
    and c: "241 \<le> uint b0 \<or> 144 \<le> uint b1"
    using assms by linarith+
  define k where "k = uint b0 - 240"
  define t where "t = uint b1 div 16 mod 4"
  have "9 \<le> uint b1 div 16 \<and> uint b1 div 16 < 12" if "144 \<le> uint b1" using that b1 by linarith
  then have "1 \<le> t" if "144 \<le> uint b1" using that by (auto simp: t_def mod_int_range)
  then have kt: "k \<in> set [0..7]" "t \<in> set [0..3]" "1 \<le> k \<or> 1 \<le> t"
    using b0 c by (auto simp: k_def t_def)
  have w: "0x2AF1 \<le> (0x2AF0 + k) OR (2 * t) \<and> (0x2AF0 + k) OR (2 * t) \<le> (0x2AF7::int)"
    using four_window kt by blast
  have "0xA00 + uint b0 \<le> (0xA00 + uint b0) OR 8 * (uint b1 div 32 mod 2)"
    using b0 by (intro or_ge) auto
  then have "\<not> (0xA00 + uint b0) OR 8 * (uint b1 div 32 mod 2) \<le> 0xAEF" using b0 by linarith
  then show ?thesis using w trailing_uint [OF assms(3,4)] trailing_uint [OF assms(5,6)] trailing_uint [OF assms(7,8)] b0
    by (simp add: multibyte_length_def Let_def byte_bits(2,3) t_def k_def algebra_simps del: push_bit_and drop_bit_and)
qed

lemma multibyte_length_5:
  assumes "unat b0 = 248" "128 \<le> unat b1" "unat b1 < 192" "128 \<le> unat b2" "unat b2 < 192"
    "128 \<le> unat b3" "unat b3 < 192" "128 \<le> unat b4" "unat b4 < 192"
    "136 \<le> unat b1" "unat b1 < 144" "unat b1 = 143 \<and> unat b2 = 191 \<longrightarrow> unat b3 \<le> 189"
  shows "multibyte_length (b0 # b1 # b2 # b3 # b4 # bs) True = Some 5"
proof -
  have u: "uint b0 = int (unat b0)" "uint b1 = int (unat b1)" "uint b2 = int (unat b2)" "uint b3 = int (unat b3)" by simp_all
  then have b0: "uint b0 = 248" and b1: "136 \<le> uint b1" "uint b1 < 144"
    and b2: "128 \<le> uint b2" "uint b2 < 192" and b3: "128 \<le> uint b3" "uint b3 < 192"
    and c: "uint b1 = 143 \<and> uint b2 = 191 \<longrightarrow> uint b3 \<le> 189"
    using assms by linarith+
  have "0xA00 + uint b0 \<le> (0xA00 + uint b0) OR 8 * (uint b1 div 32 mod 2)"
    using b0 by (intro or_ge) auto
  then have n3: "\<not> (0xAF8) OR 8 * (uint b1 div 32 mod 2) \<le> 0xAEF" using b0 by simp
  have "0x2A00 + uint b0 \<le> (0x2A00 + uint b0) OR 2 * (uint b1 div 16 mod 4)"
    using b0 by (intro or_ge) auto
  then have n4: "\<not> (0x2AF8) OR 2 * (uint b1 div 16 mod 4) \<le> 0x2AF7" using b0 by simp
  have "0x888080 \<le> uint b1 * 65536 + uint b2 * 256 + uint b3" "uint b1 * 65536 + uint b2 * 256 + uint b3 \<le> 0x8FBFBD"
    using b1 b2 b3 c by linarith+
  then show ?thesis using n3 n4 trailing_uint [OF assms(2,3)] trailing_uint [OF assms(4,5)] trailing_uint [OF assms(6,7)] trailing_uint [OF assms(8,9)] b0
    by (simp add: multibyte_length_def Let_def byte_bits(2,3) push_bit_eq_mult [of 8 "uint _"] push_bit_eq_mult [of 16] algebra_simps
        del: push_bit_and drop_bit_and)
qed

lemma enc_leads: 
  "n < 4194304 \<Longrightarrow> \<exists>b bs. enc n = b # bs \<and> (b < 128 \<or> 192 \<le> b) \<and> (\<forall>x \<in> set bs. 128 \<le> x \<and> x < 192)"
  by (auto simp: enc_def)

lemma div_lower_window:
  fixes k m n :: nat
  assumes "k * m \<le> n" "0 < m"
  shows "1 \<le> n div (m * 64) \<or> k \<le> n div m mod 64"
proof (cases "n div m < 64")
  case True
  then have "n div m mod 64 = n div m" by simp
  moreover have "k \<le> n div m" using assms by (simp add: less_eq_div_iff_mult_less_eq)
  ultimately show ?thesis by simp
next
  case False
  then have "0 < n div m div 64" by (simp add: div_greater_zero_iff)
  then show ?thesis by (simp add: div_mult2_eq)
qed

lemma multibyte_length_enc:
  assumes "map unat bs = enc n @ rest" "n < 4194304"
  shows "multibyte_length bs True = Some (length (enc n))"
proof -
  consider "n < 128" | "128 \<le> n" "n < 2048" | "2048 \<le> n" "n < 65536" | "65536 \<le> n" "n < 2097152"
    | "2097152 \<le> n" "n < 4194176" | "4194176 \<le> n" by linarith
  then show ?thesis
  proof cases
    case 1
    with assms obtain b0 bs' where b: "bs = b0 # bs'" "unat b0 = n"
      by (cases bs) (auto simp: enc_def)
    have "uint b0 < 128" using b 1 uint_unat_byte[of b0] by linarith
    with 1 b show ?thesis by (simp add: multibyte_length_def enc_def)
  next
    case 2
    with assms obtain b0 b1 bs' where b: "bs = b0 # b1 # bs'" "unat b0 = 192 + n div 64" "unat b1 = 128 + n mod 64"
      by (auto simp: enc_def map_eq_Cons_conv)
    have "n div 64 < 32" using 2 by linarith
    then show ?thesis using multibyte_length_2 [of b0 b1 bs'] b 2 by (simp add: enc_def)
  next
    case 3
    with assms obtain b0 b1 b2 bs' where b: "bs = b0 # b1 # b2 # bs'" "unat b0 = 224 + n div 4096" "unat b1 = 128 + n div 64 mod 64" "unat b2 = 128 + n mod 64"
      by (auto simp: enc_def map_eq_Cons_conv)
    have "n div 4096 < 16" "1 \<le> n div 4096 \<or> 32 \<le> n div 64 mod 64"
      using 3 div_lower_window [of 32 64 n] by (linarith, auto)
    then show ?thesis using multibyte_length_3 [of b0 b1 b2 bs'] b 3 by (simp add: enc_def)
  next
    case 4
    with assms obtain b0 b1 b2 b3 bs' where b: "bs = b0 # b1 # b2 # b3 # bs'" "unat b0 = 240 + n div 262144" "unat b1 = 128 + n div 4096 mod 64" "unat b2 = 128 + n div 64 mod 64" "unat b3 = 128 + n mod 64"
      by (auto simp: enc_def map_eq_Cons_conv)
    have "n div 262144 < 8" "1 \<le> n div 262144 \<or> 16 \<le> n div 4096 mod 64"
      using 4 div_lower_window [of 16 4096 n] by (linarith, auto)
    then show ?thesis using multibyte_length_4 [of b0 b1 b2 b3 bs'] b 4 by (simp add: enc_def)
  next
    case 5
    with assms obtain b0 b1 b2 b3 b4 bs' where b: "bs = b0 # b1 # b2 # b3 # b4 # bs'" "unat b0 = 248" "unat b1 = 128 + n div 262144 mod 64" "unat b2 = 128 + n div 4096 mod 64" "unat b3 = 128 + n div 64 mod 64" "unat b4 = 128 + n mod 64"
      by (auto simp: enc_def map_eq_Cons_conv)
    have r: "n div 262144 * 262144 + n div 4096 mod 64 * 4096 + n div 64 mod 64 * 64 + n mod 64 = n" by (rule recombine)
    have d: "8 \<le> n div 262144" "n div 262144 < 16" using 5 by linarith+
    then have m: "n div 262144 mod 64 = n div 262144" by simp
    have "n div 262144 = 15 \<and> n div 4096 mod 64 = 63 \<longrightarrow> n div 64 mod 64 \<le> 61" using r 5 by linarith
    then show ?thesis using multibyte_length_5 [of b0 b1 b2 b3 b4 bs'] b 5 d m by (simp add: enc_def)
  next
    case 6
    with assms obtain b0 b1 bs' where b: "bs = b0 # b1 # bs'" "unat b0 = 192 + (n - 4194176) div 64" "unat b1 = 128 + (n - 4194176) mod 64"
      by (auto simp: enc_def map_eq_Cons_conv)
    have "(n - 4194176) div 64 < 2" using assms(2) by linarith
    then show ?thesis using multibyte_length_2 [of b0 b1 bs'] b 6 by (simp add: enc_def)
  qed
qed

lemma unchecked_bits:
  "(uint (b::u8) AND 0x80 = 0) = (unat b < 128)"
  "(uint (b::u8) AND 0x20 = 0) = even (unat b div 32)"
  "(uint (b::u8) AND 0x10 = 0) = even (unat b div 16)"
  "(uint (b::u8) AND 0x08 = 0) = even (unat b div 8)"
proof -
  have half: "int m div k mod 2 = 0 \<longleftrightarrow> even (m div nat k)" if "0 \<le> k" for m and k :: int
  proof -
    have "int m div k mod 2 = int (m div nat k mod 2)" using that by (simp add: zdiv_int zmod_int)
    then show ?thesis by (simp add: even_iff_mod_2_eq_zero del: of_nat_mod)
  qed
  show "(uint b AND 0x80 = 0) = (unat b < 128)"
    unfolding byte_bits(4) using uint_unat_byte [of b] by linarith
  show "(uint b AND 0x20 = 0) = even (unat b div 32)"
    unfolding byte_bits(5) unfolding uint_unat_byte
    by (rule half [of 32 "unat b", OF zero_le_numeral, unfolded nat_numeral])
  show "(uint b AND 0x10 = 0) = even (unat b div 16)"
    unfolding byte_bits(6) unfolding uint_unat_byte
    by (rule half [of 16 "unat b", OF zero_le_numeral, unfolded nat_numeral])
  show "(uint b AND 0x08 = 0) = even (unat b div 8)"
    unfolding byte_bits(7) unfolding uint_unat_byte
    by (rule half [of 8 "unat b", OF zero_le_numeral, unfolded nat_numeral])
qed

lemma string_char_unchecked_enc:
  assumes "map unat bs = enc n @ rest" "n < 4194304"
  shows "string_char_unchecked bs = Some (word_of_nat n, length (enc n))"
proof -
  consider "n < 128" | "128 \<le> n" "n < 2048" | "2048 \<le> n" "n < 65536" | "65536 \<le> n" "n < 2097152"
    | "2097152 \<le> n" "n < 4194176" | "4194176 \<le> n" by linarith
  then show ?thesis
  proof cases
    case 1
    with assms obtain b0 bs' where b: "bs = b0 # bs'" "unat b0 = n"
      by (cases bs) (auto simp: enc_def)
    with 1 show ?thesis by (auto simp: string_char_unchecked_def enc_def unchecked_bits intro!: u32_eqI)
  next
    case 2
    with assms obtain b0 b1 bs' where b: "bs = b0 # b1 # bs'" "unat b0 = 192 + n div 64" "unat b1 = 128 + n mod 64"
      by (auto simp: enc_def map_eq_Cons_conv)
    have q: "2 \<le> n div 64" "unat b0 div 32 = 6" using 2 b by linarith+
    have v: "uint b0 * 64 + uint b1 - 12416 = int n"
      using b recombine(1) [of n] uint_unat_byte [of b0] uint_unat_byte [of b1] by linarith
    have "\<not> uint b0 < 0xC2" using q b uint_unat_byte [of b0] by linarith
    then show ?thesis using b 2 q v
      by (simp add: string_char_unchecked_def enc_def unchecked_bits push_bit_eq_mult
        del: of_int_diff of_int_add of_int_mult)
  next
    case 3
    with assms obtain b0 b1 b2 bs' where b: "bs = b0 # b1 # b2 # bs'" "unat b0 = 224 + n div 4096" "unat b1 = 128 + n div 64 mod 64" "unat b2 = 128 + n mod 64"
      by (auto simp: enc_def map_eq_Cons_conv)
    have q: "unat b0 div 32 = 7" "unat b0 div 16 = 14" using 3 b by linarith+
    have v: "(uint b0 * 64 + uint b1 - 12416) * 64 + uint b2 - 131200 = int n"
    proof -
      obtain x y z where x: "n div 4096 = x" "n div 64 mod 64 = y" "n mod 64 = z" by blast
      show ?thesis
        using recombine(2) [of n, unfolded x]
        by (simp only: uint_unat_byte b x of_nat_add of_nat_numeral) (auto simp: algebra_simps)
    qed
    then show ?thesis using b 3 q
      by (simp add: string_char_unchecked_def enc_def unchecked_bits push_bit_eq_mult
        del: of_int_diff of_int_add of_int_mult)
  next
    case 4
    with assms obtain b0 b1 b2 b3 bs' where b: "bs = b0 # b1 # b2 # b3 # bs'" "unat b0 = 240 + n div 262144" "unat b1 = 128 + n div 4096 mod 64" "unat b2 = 128 + n div 64 mod 64" "unat b3 = 128 + n mod 64"
      by (auto simp: enc_def map_eq_Cons_conv)
    have q: "unat b0 div 32 = 7" "unat b0 div 16 = 15" "unat b0 div 8 = 30" using 4 b by linarith+
    have v: "((uint b0 * 64 + uint b1 - 12416) * 64 + uint b2 - 131200) * 64 + uint b3 - 4194432 = int n"
    proof -
      obtain w x y z where x: "n div 262144 = w" "n div 4096 mod 64 = x" "n div 64 mod 64 = y" "n mod 64 = z" by blast
      show ?thesis
        using recombine(3) [of n, unfolded x]
        by (simp only: uint_unat_byte b x of_nat_add of_nat_numeral) (auto simp: algebra_simps)
    qed
    then show ?thesis using b 4 q
      by (simp add: string_char_unchecked_def enc_def unchecked_bits push_bit_eq_mult
        del: of_int_diff of_int_add of_int_mult)
  next
    case 5
    with assms obtain b0 b1 b2 b3 b4 bs' where b: "bs = b0 # b1 # b2 # b3 # b4 # bs'" "unat b0 = 248" "unat b1 = 128 + n div 262144 mod 64" "unat b2 = 128 + n div 4096 mod 64" "unat b3 = 128 + n div 64 mod 64" "unat b4 = 128 + n mod 64"
      by (auto simp: enc_def map_eq_Cons_conv)
    have m: "n div 262144 mod 64 = n div 262144" using 5 by simp
    have v: "(((uint b0 * 64 + uint b1 - 12416) * 64 + uint b2 - 131200) * 64 + uint b3 - 4194432) * 64 + uint b4 - 134217856 = int n"
    proof -
      obtain w x y z where x: "n div 262144 = w" "n div 4096 mod 64 = x" "n div 64 mod 64 = y" "n mod 64 = z" by blast
      show ?thesis
        using recombine(3) [of n, unfolded x] m [unfolded x]
        by (simp only: uint_unat_byte b m x of_nat_add of_nat_numeral) (auto simp: algebra_simps)
    qed
    then show ?thesis using b 5
      by (simp add: string_char_unchecked_def enc_def unchecked_bits push_bit_eq_mult
        del: of_int_diff of_int_add of_int_mult)
  next
    case 6
    with assms obtain b0 b1 bs' where b: "bs = b0 # b1 # bs'" "unat b0 = 192 + (n - 4194176) div 64" "unat b1 = 128 + (n - 4194176) mod 64"
      by (auto simp: enc_def map_eq_Cons_conv)
    have q: "unat b0 div 32 = 6" "unat b0 < 194" using b assms(2) by linarith+
    have lt: "uint b0 < 0xC2" using q uint_unat_byte [of b0] by linarith
    have v: "uint b0 * 64 + uint b1 - 12416 + 0x3FFF80 = int n"
      using b 6 recombine(1) [of "n - 4194176"] uint_unat_byte [of b0] uint_unat_byte [of b1] by linarith
    then show ?thesis using b 6 q lt
      by (simp add: string_char_unchecked_def enc_def unchecked_bits push_bit_eq_mult
        del: of_int_diff of_int_add of_int_mult)
  qed
qed

text \<open>Everything the rest of the theory uses about one encoded character.\<close>

lemma char_string_form:
  assumes "c \<le> MAX_CHAR"
  obtains e where "char_string c = Some e" "length e = char_bytes c"
    "char_head_p (hd e)" "e \<noteq> []" "\<forall>b \<in> set (tl e). \<not> char_head_p b"
    "\<And>rest. string_char (e @ rest) = Some (c, length e)"
    "\<And>rest. string_char_unchecked (e @ rest) = Some (c, length e)"
    "\<And>rest. multibyte_length (e @ rest) True = Some (length e)"
proof -
  from char_string_enc [OF assms] obtain e where e: "char_string c = Some e" "map unat e = enc (unat c)"
    by auto
  have lt: "unat c < 4194304" using assms by (simp add: MAX_CHAR_def word_le_nat_alt)
  have c: "word_of_nat (unat c) = c" by simp
  have len: "length (enc (unat c)) = length e" using e(2) by (metis length_map)
  have "length (enc (unat c)) = char_bytes c"
    by (auto simp: enc_def char_bytes_def MAX_5_BYTE_CHAR_def word_less_nat_alt word_le_nat_alt)
  moreover obtain b bs where "enc (unat c) = b # bs" "b < 128 \<or> 192 \<le> b"
      "\<forall>x \<in> set bs. 128 \<le> x \<and> x < 192"
    using enc_leads [OF lt] by blast
  then have "char_head_p (hd e) \<and> e \<noteq> [] \<and> (\<forall>b \<in> set (tl e). \<not> char_head_p b)"
    using e(2) by (cases e; fastforce simp: char_head_unat)
  moreover have "map unat (e @ rest) = enc (unat c) @ map unat rest" for rest using e(2) by simp
  ultimately show thesis
    using that [OF e(1)] len string_char_enc [OF _ lt] string_char_unchecked_enc [OF _ lt]
      multibyte_length_enc [OF _ lt]
    unfolding c by metis
qed

subsection \<open>Encoded text\<close>

text \<open>The text of a list of codes, as the encoder writes it one character after the other.\<close>

primrec encode_text :: "u32 list \<Rightarrow> bytes" where
  "encode_text [] = []"
| "encode_text (c # cs) = (case char_string c of Some e \<Rightarrow> e | None \<Rightarrow> []) @ encode_text cs"

abbreviation valid_codes :: "u32 list \<Rightarrow> bool" where
  "valid_codes cs \<equiv> \<forall>c \<in> set cs. c \<le> MAX_CHAR"

lemma encode_text_count:
  "valid_codes cs \<Longrightarrow> chars_in_multibyte (encode_text cs) = length cs"
proof (induction cs)
  case Nil
  then show ?case by (simp add: chars_in_multibyte_def)
next
  case (Cons c cs)
  then obtain e where e: "char_string c = Some e" "char_head_p (hd e)" "e \<noteq> []"
    "\<forall>b \<in> set (tl e). \<not> char_head_p b"
    using char_string_form [of c] by (metis list.set_intros(1))
  then have "count_lead_bytes e = 1"
    by (cases e) (auto simp: count_lead_bytes_none)
  with Cons e show ?case by (simp add: chars_in_multibyte_def)
qed

lemma encode_text_decode_count:
  "valid_codes cs \<Longrightarrow> chars_in_multibyte_by_decode (encode_text cs) = length cs
     \<and> multibyte_chars_in_text (encode_text cs) = Some (length cs)"
proof (induction cs)
  case Nil
  then show ?case
    by (simp add: chars_in_multibyte_by_decode.simps multibyte_chars_in_text.simps)
next
  case (Cons c cs)
  then obtain e where e: "char_string c = Some e" "e \<noteq> []"
    "\<And>rest. multibyte_length (e @ rest) True = Some (length e)"
    using char_string_form [of c] by (metis list.set_intros(1))
  with Cons show ?case
    by (simp add: chars_in_multibyte_by_decode.simps [of "e @ _"]
        multibyte_chars_in_text.simps [of "e @ _"])
qed

text \<open>Decoding a whole text with \<open>string_char\<close>, one character after the other.\<close>

function decode_text :: "bytes \<Rightarrow> u32 list option" where
  "decode_text bs =
     (if bs = [] then Some []
      else case string_char bs of
        None \<Rightarrow> None
      | Some (c, len) \<Rightarrow> map_option (Cons c) (decode_text (drop (max len 1) bs)))"
  by pat_completeness auto
termination
  by (relation "measure length") auto

declare decode_text.simps [simp del]

lemma decode_encode: "valid_codes cs \<Longrightarrow> decode_text (encode_text cs) = Some cs"
proof (induction cs)
  case Nil
  then show ?case by (simp add: decode_text.simps)
next
  case (Cons c cs)
  then obtain e where e: "char_string c = Some e" "e \<noteq> []"
    "\<And>rest. string_char (e @ rest) = Some (c, length e)"
    using char_string_form [of c] by (metis list.set_intros(1))
  then have "max (length e) 1 = length e" by (cases e) auto
  with Cons e show ?case by (simp add: decode_text.simps [of "e @ _"])
qed

lemma encode_text_lead_ok: "valid_codes cs \<Longrightarrow> lead_ok mb (encode_text cs)"
proof (cases cs)
  case (Cons c cs')
  assume "valid_codes cs"
  with Cons obtain e where "char_string c = Some e" "char_head_p (hd e)" "e \<noteq> []"
    using char_string_form [of c] by (metis list.set_intros(1))
  with Cons show ?thesis by (simp add: lead_ok_def)
qed simp

lemma encode_text_append [simp]: "encode_text (xs @ ys) = encode_text xs @ encode_text ys"
  by (induction xs) auto

lemma encode_text_offset:
  assumes "valid_codes cs" "i \<le> length cs"
  shows "char_offset True (encode_text cs) i (length (encode_text (take i cs)))"
proof -
  have s: "encode_text cs = encode_text (take i cs) @ encode_text (drop i cs)"
    by (metis append_take_drop_id encode_text_append)
  have v: "valid_codes (take i cs)" "valid_codes (drop i cs)"
    using assms(1) by (meson in_set_takeD in_set_dropD)+
  have "is_emacs_char_boundary (encode_text cs) (length (encode_text (take i cs)) + 0) True"
    unfolding s by (simp add: boundary_append [OF encode_text_lead_ok [OF v(2)], of _ 0, simplified])
  moreover have "emacs_char_count_bytes (encode_text (take i cs)) True = i"
    using encode_text_count [OF v(1)] assms(2) by (simp add: emacs_char_count_bytes_def)
  ultimately show ?thesis by (simp add: char_offset_def s)
qed

lemma encode_text_boundary:
  assumes "valid_codes cs" "is_emacs_char_boundary (encode_text cs) k True"
  obtains i where "i \<le> length cs" "k = length (encode_text (take i cs))"
    "char_offset True (encode_text cs) i k"
proof -
  define i where "i = emacs_char_count_bytes (take k (encode_text cs)) True"
  have k: "char_offset True (encode_text cs) i k" using assms(2) by (simp add: char_offset_def i_def)
  then have i: "i \<le> length cs"
    using char_offset_le [OF k] encode_text_count [OF assms(1)] by (simp add: emacs_char_count_bytes_def)
  show thesis
    using that i k char_offset_unique [OF encode_text_lead_ok [OF assms(1)] k encode_text_offset [OF assms(1) i]]
    by blast
qed

text \<open>A piece of well-formed text between two boundaries is well-formed text.\<close>

lemma encode_text_slice:
  assumes "valid_codes cs" "is_emacs_char_boundary (encode_text cs) a True"
    "is_emacs_char_boundary (encode_text cs) b True" "a \<le> b"
  obtains ds where "valid_codes ds" "sub_list a b (encode_text cs) = encode_text ds"
proof -
  obtain i where i: "i \<le> length cs" "a = length (encode_text (take i cs))" "char_offset True (encode_text cs) i a"
    using encode_text_boundary [OF assms(1,2)] by blast
  obtain j where j: "j \<le> length cs" "b = length (encode_text (take j cs))" "char_offset True (encode_text cs) j b"
    using encode_text_boundary [OF assms(1,3)] by blast
  have ij: "i \<le> j"
    using char_offset_mono(2) [OF encode_text_lead_ok [OF assms(1)] i(3) j(3)] assms(4) by simp
  define ds where "ds = drop i (take j cs)"
  have c: "cs = take i cs @ ds @ drop j cs"
    using ij by (metis append_assoc append_take_drop_id ds_def min_absorb1 take_take)
  have t: "take j cs = take i cs @ ds"
    using ij by (metis append_take_drop_id ds_def min_absorb1 take_take)
  have e: "encode_text cs = encode_text (take i cs) @ encode_text ds @ encode_text (drop j cs)"
    by (subst c) simp
  have "b - a = length (encode_text ds)" using i(2) j(2) t by simp
  then have "sub_list a b (encode_text cs) = encode_text ds"
    unfolding e sub_list_def using i(2) by simp
  moreover have "valid_codes ds" using assms(1) by (auto simp: ds_def dest: in_set_dropD in_set_takeD)
  ultimately show thesis using that by blast
qed

lemma encode_text_drop:
  assumes "valid_codes cs" "char_offset True (encode_text cs) i k" "i < length cs"
  obtains e rest where "drop k (encode_text cs) = e @ rest" "char_string (cs ! i) = Some e"
    "char_offset True (encode_text cs) (Suc i) (k + length e)"
    "\<And>r. string_char (e @ r) = Some (cs ! i, length e)"
proof -
  have k: "k = length (encode_text (take i cs))"
    using char_offset_unique [OF encode_text_lead_ok [OF assms(1)] assms(2) encode_text_offset [OF assms(1)]] assms(3)
    by simp
  have "cs ! i \<le> MAX_CHAR" using assms(1,3) by simp
  then obtain e where e: "char_string (cs ! i) = Some e" "\<And>r. string_char (e @ r) = Some (cs ! i, length e)"
    using char_string_form [of "cs ! i"] by metis
  have "encode_text (take (Suc i) cs) = encode_text (take i cs) @ e"
    using assms(3) e by (simp add: take_Suc_conv_app_nth)
  then have k2: "k + length e = length (encode_text (take (Suc i) cs))" using k by simp
  have "encode_text cs = encode_text (take i cs) @ encode_text (drop i cs)"
    by (metis append_take_drop_id encode_text_append)
  moreover have "drop i cs = cs ! i # drop (Suc i) cs" using assms(3) by (simp add: Cons_nth_drop_Suc)
  ultimately have "drop k (encode_text cs) = e @ encode_text (drop (Suc i) cs)"
    using k e by simp
  then show thesis
    using that e k2 encode_text_offset [OF assms(1), of "Suc i"] assms(3) by simp
qed

lemma char_to_byte_offset_pos:
  "c \<le> emacs_char_count_bytes bs mb \<Longrightarrow>
   is_emacs_char_boundary bs (emacs_char_to_byte_in_slice bs c mb) mb"
  using emacs_char_to_byte_in_slice_offset [of c bs mb] by (simp add: char_offset_def)

lemma byte_to_char_count:
  "is_emacs_char_boundary bs k mb \<Longrightarrow>
   emacs_byte_to_char_in_slice bs k mb = Some (emacs_char_count_bytes (take k bs) mb)"
  using boundary_le [of bs k mb]
  by (auto simp: emacs_byte_to_char_in_slice_def byte_to_char_pos_def char_count_True min_absorb1 min_absorb2)

subsection \<open>Unibyte text\<close>

lemma byte8_to_char_unat: "unat (byte8_to_char b) = unat b + 4194048"
proof -
  have "unat b + 4194048 < 4294967296" using unat_u8_less [of b] by linarith
  then show ?thesis by (simp add: byte8_to_char_def BYTE8_OFFSET_def unat_word_ariths)
qed

lemma byte_to_multibyte_enc:
  "\<exists>e. char_string (unibyte_to_char b) = Some e \<and> byte_to_multibyte b = e"
proof (cases "unat b < 128")
  case True
  have u: "unat (ucast b :: u32) = unat b" by simp
  have "(ucast b :: u32) \<le> MAX_CHAR" using True by (simp add: MAX_CHAR_def word_le_nat_alt)
  then have "map_option (map unat) (char_string (ucast b)) = Some [unat b]"
    using char_string_enc [of "ucast b"] True by (simp add: enc_def)
  then obtain e where "char_string (ucast b) = Some e" "map unat e = [unat b]" by auto
  moreover then have "e = [b]" by (auto simp: map_eq_Cons_conv word_unat_eq_iff)
  ultimately show ?thesis
    using True by (simp add: unibyte_to_char_def byte_to_multibyte_def word_less_nat_alt word_le_nat_alt)
next
  case False
  have lt: "unat b < 256" by (rule unat_u8_less)
  note u = byte8_to_char_unat [of b]
  have "byte8_to_char b \<le> MAX_CHAR" using u lt by (simp add: MAX_CHAR_def word_le_nat_alt)
  then have "map_option (map unat) (char_string (byte8_to_char b)) = Some [192 + (unat b - 128) div 64, 128 + (unat b - 128) mod 64]"
    using char_string_enc [of "byte8_to_char b"] False u by (simp add: enc_def)
  then obtain e where e: "char_string (byte8_to_char b) = Some e"
      "map unat e = [192 + (unat b - 128) div 64, 128 + (unat b - 128) mod 64]" by auto
  have m: "unat b div 64 mod 2 = (unat b - 128) div 64" "unat b mod 64 = (unat b - 128) mod 64"
  proof -
    obtain k where k: "unat b = 128 + k" using False by (metis le_Suc_ex not_less)
    then have "k < 128" using lt by simp
    then show "unat b div 64 mod 2 = (unat b - 128) div 64" "unat b mod 64 = (unat b - 128) mod 64"
      unfolding k using mod_offsets(4) [of "k mod 64"] by (simp_all add: div_add1_eq mod_simps)
  qed
  have d: "unat (drop_bit 6 b AND 1) = (unat b - 128) div 64" "unat (b AND 0x3F) = (unat b - 128) mod 64"
    using m by (simp_all add: unat_and_masks unat_drop_bit_word)
  have "(unat b - 128) div 64 < 32" "(unat b - 128) mod 64 < 64" using lt by linarith+
  then have "map unat (byte_to_multibyte b) = map unat e"
    using False d e(2) by (simp add: byte_to_multibyte_def word_le_nat_alt or_leads)
  then have "byte_to_multibyte b = e" by (simp add: inj_map_eq_map inj_def word_unat_eq_iff)
  then show ?thesis using e False by (simp add: unibyte_to_char_def word_less_nat_alt)
qed

lemma unibyte_to_char_valid: "unibyte_to_char b \<le> MAX_CHAR"
proof -
  have lt: "unat b < 256" by (rule unat_u8_less)
  then show ?thesis
    using unat_u8_le [of b] by (auto simp: unibyte_to_char_def byte8_to_char_unat MAX_CHAR_def word_le_nat_alt
        simp del: unat_u8_le)
qed

lemma str_to_multibyte_encode: "str_to_multibyte src = encode_text (map unibyte_to_char src)"
proof -
  have c: "concat (map byte_to_multibyte src) = encode_text (map unibyte_to_char src)"
  proof (induction src)
    case (Cons b src)
    then show ?case using byte_to_multibyte_enc [of b] by auto
  qed simp
  moreover have "concat (map byte_to_multibyte src) = src" if "\<forall>b \<in> set src. b < 0x80"
    using that by (induction src) (auto simp: byte_to_multibyte_def word_le_nat_alt word_less_nat_alt)
  ultimately show ?thesis by (simp add: str_to_multibyte_def)
qed

lemma unibyte_low_byte: "ucast (unibyte_to_char b AND 0xFF) = b"
proof -
  have lt: "unat b < 256" by (rule unat_u8_less)
  have "unat (unibyte_to_char b AND 0xFF) = unat b"
  proof (cases "b < 0x80")
    case True
    then show ?thesis using lt by (simp add: unibyte_to_char_def unat_and_masks)
  next
    case False
    have "unat (byte8_to_char b) = unat b + 16383 * 256"
      by (simp add: byte8_to_char_unat)
    then show ?thesis using False lt by (simp only: unibyte_to_char_def unat_and_masks if_False mod_mult_self1 mod_less)
  qed
  then show ?thesis using lt by (simp add: word_unat_eq_iff unat_ucast_u8)
qed

lemma str_to_unibyte_encode: 
  "str_to_unibyte (encode_text (map unibyte_to_char src)) = Some src"
proof (induction src)
  case Nil
  then show ?case by (simp add: str_to_unibyte.simps)
next
  case (Cons b src)
  obtain e where e: "char_string (unibyte_to_char b) = Some e" "e \<noteq> []"
    "\<And>rest. string_char (e @ rest) = Some (unibyte_to_char b, length e)"
    using char_string_form [OF unibyte_to_char_valid [of b]] by metis
  then have "max (length e) 1 = length e" by (cases e) auto
  with Cons e show ?case by (simp add: str_to_unibyte.simps [of "e @ _"] unibyte_low_byte)
qed

lemma count_size_encode: "length (encode_text (map unibyte_to_char src)) = count_size_as_multibyte src"
proof (induction src)
  case Nil
  then show ?case by (simp add: count_size_as_multibyte_def)
next
  case (Cons b src)
  obtain e where e: "char_string (unibyte_to_char b) = Some e" "byte_to_multibyte b = e"
    using byte_to_multibyte_enc [of b] by auto
  have "length e = (if 0x80 \<le> b then 2 else 1)"
    using e(2) by (auto simp: byte_to_multibyte_def word_le_nat_alt)
  with Cons e(1) show ?case by (simp add: count_size_as_multibyte_def)
qed

subsection \<open>Reading bytes as multibyte text\<close>

text \<open>The validator reads no byte behind the form it accepts.\<close>

lemma multibyte_length_bound: "multibyte_length bs m = Some n \<Longrightarrow> 1 \<le> n \<and> n \<le> length bs"
  by (auto simp: multibyte_length_def Let_def not_less Suc_le_eq split: if_splits)

definition form2 :: "bool \<Rightarrow> u8 \<Rightarrow> u8 \<Rightarrow> bool" where
  "form2 m b0 b1 \<longleftrightarrow> (let w = push_bit 2 (uint b1 AND 0xC0) + uint b0
     in (if m then 0x2C0 else 0x2C2) \<le> w \<and> w \<le> 0x2DF)"

definition form3 :: "u8 \<Rightarrow> u8 \<Rightarrow> u8 \<Rightarrow> bool" where
  "form3 b0 b1 b2 \<longleftrightarrow> (let w = push_bit 2 (uint b1 AND 0xC0) + uint b0 + push_bit 4 (uint b2 AND 0xC0)
        OR drop_bit 2 (uint b1 AND 0x20)
     in 0xAE1 \<le> w \<and> w \<le> 0xAEF)"

definition form4 :: "u8 \<Rightarrow> u8 \<Rightarrow> u8 \<Rightarrow> u8 \<Rightarrow> bool" where
  "form4 b0 b1 b2 b3 \<longleftrightarrow> (let w = push_bit 2 (uint b1 AND 0xC0) + uint b0 + push_bit 4 (uint b2 AND 0xC0)
        + push_bit 6 (uint b3 AND 0xC0) OR drop_bit 3 (uint b1 AND 0x30)
     in 0x2AF1 \<le> w \<and> w \<le> 0x2AF7)"

definition form5 :: "u8 \<Rightarrow> u8 \<Rightarrow> u8 \<Rightarrow> u8 \<Rightarrow> u8 \<Rightarrow> bool" where
  "form5 b0 b1 b2 b3 b4 \<longleftrightarrow> (let w = push_bit 24 (push_bit 2 (uint b1 AND 0xC0) + uint b0
        + push_bit 4 (uint b2 AND 0xC0) + push_bit 6 (uint b3 AND 0xC0) + push_bit 8 (uint b4 AND 0xC0))
        + push_bit 16 (uint b1) + push_bit 8 (uint b2) + uint b3
     in 0xAAF8888080 \<le> w \<and> w \<le> 0xAAF88FBFBD)"

lemma multibyte_length_forms:
  "multibyte_length bs m =
     (if bs = [] then None else if uint (bs ! 0) < 0x80 then Some 1
      else if length bs < 2 then None else if form2 m (bs ! 0) (bs ! 1) then Some 2
      else if length bs < 3 then None else if form3 (bs ! 0) (bs ! 1) (bs ! 2) then Some 3
      else if length bs < 4 then None else if form4 (bs ! 0) (bs ! 1) (bs ! 2) (bs ! 3) then Some 4
      else if length bs < 5 then None else if form5 (bs ! 0) (bs ! 1) (bs ! 2) (bs ! 3) (bs ! 4) then Some 5
      else None)"
  unfolding multibyte_length_def form2_def form3_def form4_def form5_def Let_def ..

lemma multibyte_length_take:
  assumes "multibyte_length bs m = Some n"
  shows "multibyte_length (take n bs @ rest) m = Some n"
proof -
  have b: "1 \<le> n" "n \<le> length bs" using multibyte_length_bound [OF assms] by auto
  have nth: "(take n bs @ rest) ! i = bs ! i" if "i < n" for i using that b by (simp add: nth_append)
  have ne: "take n bs @ rest \<noteq> []" using b by auto
  have len: "n \<le> length (take n bs @ rest)" using b by simp
  have "n = 1 \<or> n = 2 \<or> n = 3 \<or> n = 4 \<or> n = 5" using assms
    by (auto simp: multibyte_length_forms split: if_splits)
  then show ?thesis
    using assms nth ne len
    by (elim disjE; simp add: multibyte_length_forms [of bs] multibyte_length_forms [of "take _ bs @ rest"]
        split: if_splits)
qed

text \<open>A byte that starts no valid form is read as a raw byte, two bytes long.\<close>

lemma multibyte_length_None_high: "multibyte_length bs m = None \<Longrightarrow> bs \<noteq> [] \<Longrightarrow> 0x80 \<le> hd bs"
  by (cases bs) (auto simp: multibyte_length_forms word_le_def split: if_splits)

lemma parse_as_multibyte_correct:
  "\<exists>out. str_as_multibyte src = Some out \<and> length out = mp_nbytes (parse_str_as_multibyte src)
     \<and> multibyte_chars_in_text out = Some (mp_chars (parse_str_as_multibyte src))"
proof (induction src rule: length_induct)
  case (1 src)
  show ?case
  proof (cases "src = []")
    case True
    then show ?thesis
      by (simp add: str_as_multibyte.simps parse_str_as_multibyte.simps multibyte_chars_in_text.simps)
  next
    case ne: False
    show ?thesis
    proof (cases "multibyte_length src True")
      case (Some n)
      have b: "1 \<le> n" "n \<le> length src" using multibyte_length_bound [OF Some] by auto
      then have mx: "max n 1 = n" by simp
      obtain out where out: "str_as_multibyte (drop n src) = Some out"
          "length out = mp_nbytes (parse_str_as_multibyte (drop n src))"
          "multibyte_chars_in_text out = Some (mp_chars (parse_str_as_multibyte (drop n src)))"
        using 1 [rule_format, of "drop n src"] ne b by auto
      have ml: "multibyte_length (take n src @ out) True = Some n" by (rule multibyte_length_take [OF Some])
      have dr: "drop n (take n src @ out) = out" "take n src @ out \<noteq> []" using b ne by auto
      have "multibyte_chars_in_text (take n src @ out) = Some (Suc (mp_chars (parse_str_as_multibyte (drop n src))))"
        by (subst multibyte_chars_in_text.simps) (use ml dr out b in simp)
      then show ?thesis
        using ne Some out b mx
        by (simp add: str_as_multibyte.simps [of src] parse_str_as_multibyte.simps [of src] Let_def)
    next
      case None
      have high: "0x80 \<le> hd src" using multibyte_length_None_high [OF None ne] .
      have uc: "unibyte_to_char (hd src) = byte8_to_char (hd src)"
        using high by (simp add: unibyte_to_char_def word_le_nat_alt word_less_nat_alt)
      obtain e where e: "char_string (byte8_to_char (hd src)) = Some e" "byte_to_multibyte (hd src) = e"
        using byte_to_multibyte_enc [of "hd src"] uc by auto
      have el: "length e = 2" using e(2) high by (auto simp: byte_to_multibyte_def word_le_nat_alt)
      have ml: "multibyte_length (e @ rest) True = Some 2" for rest
        by (rule char_string_form [OF unibyte_to_char_valid [of "hd src"]]) (use e uc el in auto)
      obtain out where out: "str_as_multibyte (drop 1 src) = Some out"
          "length out = mp_nbytes (parse_str_as_multibyte (drop 1 src))"
          "multibyte_chars_in_text out = Some (mp_chars (parse_str_as_multibyte (drop 1 src)))"
        using 1 [rule_format, of "drop 1 src"] ne by auto
      have dr: "drop 2 (e @ out) = out" "e @ out \<noteq> []" using el by auto
      have "multibyte_chars_in_text (e @ out) = Some (Suc (mp_chars (parse_str_as_multibyte (drop 1 src))))"
        by (subst multibyte_chars_in_text.simps) (use ml dr out in simp)
      then show ?thesis
        using ne None out e el
        by (simp add: str_as_multibyte.simps [of src] parse_str_as_multibyte.simps [of src] Let_def)
    qed
  qed
qed

subsection \<open>Properties of the encoding\<close>

text \<open>C35: every character code up to \<open>MAX_CHAR\<close> (including the raw bytes) is encoded in
  \<open>char_bytes\<close> bytes, and whatever text follows, both decoders give back the code and the
  number of bytes it took, and the validator accepts exactly those bytes.\<close>

theorem char_string_round_trip:
  assumes "c \<le> MAX_CHAR"
  shows "\<exists>e. char_string c = Some e \<and> length e = char_bytes c \<and>
     (\<forall>rest. string_char (e @ rest) = Some (c, length e)
        \<and> string_char_unchecked (e @ rest) = Some (c, length e)
        \<and> multibyte_length (e @ rest) True = Some (length e))"
  using assms by (rule char_string_form) blast

theorem char_string_round_trip_witness:
  "0x10FFFF \<le> MAX_CHAR \<and> (\<exists>e. char_string 0x10FFFF = Some e \<and> length e = char_bytes 0x10FFFF \<and>
     (\<forall>rest. string_char (e @ rest) = Some (0x10FFFF, length e)
        \<and> string_char_unchecked (e @ rest) = Some (0x10FFFF, length e)
        \<and> multibyte_length (e @ rest) True = Some (length e)))"
  using char_string_round_trip [of "0x10FFFF"] by (simp add: MAX_CHAR_def)

text \<open>Decoding a text that was encoded character by character gives back the characters.\<close>

theorem decode_encode_text:
  assumes "valid_codes cs"
  shows "decode_text (encode_text cs) = Some cs"
  using assms by (rule decode_encode)

theorem decode_encode_text_witness:
  "decode_text (encode_text [0x61, 0xE9, 0x3FFF80]) = Some [0x61, 0xE9, 0x3FFF80]"
  using decode_encode_text [of "[0x61, 0xE9, 0x3FFF80]"] by (simp add: MAX_CHAR_def)

text \<open>Between any two character boundaries of well-formed text, counting lead bytes agrees
  with the per-character decoding loop that debug builds compare it with, and the checked count
  accepts the slice: the assertion inside \<open>chars_in_multibyte\<close> never fires there.\<close>

theorem chars_in_multibyte_oracle:
  assumes "valid_codes cs" "is_emacs_char_boundary (encode_text cs) a True"
    "is_emacs_char_boundary (encode_text cs) b True" "a \<le> b"
  shows "chars_in_multibyte_by_decode (sub_list a b (encode_text cs)) = chars_in_multibyte (sub_list a b (encode_text cs))
     \<and> multibyte_chars_in_text (sub_list a b (encode_text cs)) = Some (chars_in_multibyte (sub_list a b (encode_text cs)))"
  using assms by (rule encode_text_slice) (simp add: encode_text_count encode_text_decode_count)

theorem chars_in_multibyte_oracle_witness:
  "chars_in_multibyte_by_decode (sub_list 1 3 (encode_text [0x61, 0xE9, 0x62])) = chars_in_multibyte (sub_list 1 3 (encode_text [0x61, 0xE9, 0x62]))
     \<and> multibyte_chars_in_text (sub_list 1 3 (encode_text [0x61, 0xE9, 0x62])) = Some (chars_in_multibyte (sub_list 1 3 (encode_text [0x61, 0xE9, 0x62])))"
proof (rule chars_in_multibyte_oracle)
  show "valid_codes [0x61, 0xE9, 0x62]" by (simp add: MAX_CHAR_def)
  show "is_emacs_char_boundary (encode_text [0x61, 0xE9, 0x62]) 1 True" by code_simp
  show "is_emacs_char_boundary (encode_text [0x61, 0xE9, 0x62]) 3 True" by code_simp
qed simp

text \<open>The block-wise conversion from a character index to a byte offset lands on a character
  boundary, and converting back gives the index: for every index up to the number of characters
  and every slice, however its length relates to the block size.\<close>

theorem char_to_byte_to_char:
  assumes "c \<le> emacs_char_count_bytes bs mb"
  shows "is_emacs_char_boundary bs (emacs_char_to_byte_in_slice bs c mb) mb
     \<and> emacs_byte_to_char_in_slice bs (emacs_char_to_byte_in_slice bs c mb) mb = Some c"
  using emacs_char_to_byte_in_slice_offset [OF assms]
  by (simp add: char_offset_def byte_to_char_count)

theorem char_to_byte_to_char_witness:
  "2 \<le> emacs_char_count_bytes [0x61, 0xC3, 0xA9, 0x62] True
   \<and> is_emacs_char_boundary [0x61, 0xC3, 0xA9, 0x62] (emacs_char_to_byte_in_slice [0x61, 0xC3, 0xA9, 0x62] 2 True) True
   \<and> emacs_byte_to_char_in_slice [0x61, 0xC3, 0xA9, 0x62]
        (emacs_char_to_byte_in_slice [0x61, 0xC3, 0xA9, 0x62] 2 True) True = Some 2"
proof -
  have "2 \<le> emacs_char_count_bytes [0x61, 0xC3, 0xA9, 0x62] True" by code_simp
  then show ?thesis using char_to_byte_to_char [of 2 "[0x61, 0xC3, 0xA9, 0x62]" True] by blast
qed

text \<open>On text that starts with a character head, the scan from the end and the scan from the
  start find the same byte offset.\<close>

theorem scan_directions_agree:
  assumes "lead_ok True bs" "n \<le> count_lead_bytes bs"
  shows "char_to_byte_pos_from_end bs n = char_to_byte_pos bs (count_lead_bytes bs - n)"
  using char_offset_unique [OF assms(1)] char_to_byte_pos_from_end_offset [OF assms(2)]
    char_to_byte_pos_offset [of "count_lead_bytes bs - n" bs] assms(2)
  by (metis diff_le_self)

theorem scan_directions_agree_witness:
  "char_to_byte_pos_from_end [0xC3, 0xA9, 0x62, 0x63] 2
     = char_to_byte_pos [0xC3, 0xA9, 0x62, 0x63] (count_lead_bytes [0xC3, 0xA9, 0x62, 0x63] - 2)"
proof (rule scan_directions_agree)
  show "lead_ok True [0xC3, 0xA9, 0x62, 0x63]" by code_simp
  show "2 \<le> count_lead_bytes [0xC3, 0xA9, 0x62, 0x63]" by code_simp
qed

text \<open>Converting unibyte bytes to multibyte text and back loses nothing, and the size computed
  in advance is the size of the result.\<close>

theorem unibyte_round_trip:
  "str_to_unibyte (str_to_multibyte src) = Some src
   \<and> length (str_to_multibyte src) = count_size_as_multibyte src"
  by (simp add: str_to_multibyte_encode str_to_unibyte_encode count_size_encode)

text \<open>Reading arbitrary bytes as multibyte text always succeeds; the result has the byte and
  character counts that \<open>parse_str_as_multibyte\<close> predicts and is valid throughout.\<close>

theorem str_as_multibyte_metrics:
  "\<exists>out. str_as_multibyte src = Some out \<and> length out = mp_nbytes (parse_str_as_multibyte src)
     \<and> multibyte_chars_in_text out = Some (mp_chars (parse_str_as_multibyte src))"
  by (rule parse_as_multibyte_correct)

end
