(* ===== verification/Text_Position.thy ===== *)
theory Text_Position
  imports Emacs_Char
begin

text \<open>
  Coordinates and measured edits: \<open>src/crates/neovm-core/src/buffer/position.rs\<close>,
  \<open>buffer/text/edit.rs\<close>, \<open>buffer/text/metrics.rs\<close> and \<open>buffer/text/layout.rs\<close>.

  The one-field wrappers \<open>CharPos0\<close>, \<open>EmacsBytePos\<close>, \<open>CharLen\<close>, \<open>EmacsByteLen\<close> and
  \<open>DisplayColumn\<close> are type synonyms of \<open>nat\<close>, the signed ones of \<open>int\<close>; the two-field
  structs are records. Accessors of the source that only return a field are the selectors.
  The theory shows that a bracketing pair of known (character, byte) positions stays a bracket
  while anchors are considered, that interpolation between single-byte brackets is exact, that
  signed edit deltas are what moves a position across an edit, and that
  \<open>transpose_half_open_position\<close> is the position map of swapping two regions of a text.
\<close>

subsection \<open>Coordinate spaces\<close>

type_synonym char_pos0 = nat
type_synonym emacs_byte_pos = nat
type_synonym char_len = nat
type_synonym emacs_byte_len = nat
type_synonym char_delta = int
type_synonym emacs_byte_delta = int
type_synonym lisp_char_pos1 = int
type_synonym lisp_byte_pos1 = int

definition char_pos0_to_lisp :: "char_pos0 \<Rightarrow> lisp_char_pos1" where
  "char_pos0_to_lisp p = int p + 1"

definition char_pos0_from_lisp :: "lisp_char_pos1 \<Rightarrow> char_pos0" where
  "char_pos0_from_lisp p = nat (max (p - 1) 0)"

definition to_lisp_byte_pos :: "emacs_byte_pos \<Rightarrow> lisp_byte_pos1" where
  "to_lisp_byte_pos p = int p + 1"

definition to_emacs_byte_pos :: "lisp_byte_pos1 \<Rightarrow> emacs_byte_pos" where
  "to_emacs_byte_pos p = nat (max (p - 1) 0)"

definition to_one_based_usize :: "lisp_char_pos1 \<Rightarrow> nat" where
  "to_one_based_usize p = nat (max p 1)"

definition from_one_based_usize :: "nat \<Rightarrow> lisp_char_pos1" where
  "from_one_based_usize p = int (max p 1)"

text \<open>\<open>usize\<close> subtraction that saturates at zero is subtraction of natural numbers.\<close>

definition saturating_offset_from :: "nat \<Rightarrow> nat \<Rightarrow> nat" where
  "saturating_offset_from p start = p - start"

definition saturating_sub_len :: "nat \<Rightarrow> nat \<Rightarrow> nat" where
  "saturating_sub_len p len = p - len"

definition add_len :: "nat \<Rightarrow> nat \<Rightarrow> nat" where
  "add_len p len = p + len"

text \<open>Signed deltas; applying one panics on underflow.\<close>

definition delta_insertion :: "nat \<Rightarrow> int" where
  "delta_insertion len = int len"

definition delta_deletion :: "nat \<Rightarrow> int" where
  "delta_deletion len = - int len"

definition delta_replacement :: "nat \<Rightarrow> nat \<Rightarrow> int" where
  "delta_replacement old_len new_len = int new_len - int old_len"

definition apply_signed_delta :: "nat \<Rightarrow> int \<Rightarrow> nat option" where
  "apply_signed_delta v delta =
     (if 0 \<le> delta then Some (v + nat delta)
      else chk_sub v (nat (- delta)))"

definition char_delta_apply_to_pos :: "char_delta \<Rightarrow> char_pos0 \<Rightarrow> char_pos0 option" where
  "char_delta_apply_to_pos d p = apply_signed_delta p d"

definition byte_delta_apply_to_pos :: "emacs_byte_delta \<Rightarrow> emacs_byte_pos \<Rightarrow> emacs_byte_pos option" where
  "byte_delta_apply_to_pos d p = (if d = 0 then Some p else apply_signed_delta p d)"

definition byte_delta_combine :: "emacs_byte_delta \<Rightarrow> emacs_byte_delta \<Rightarrow> emacs_byte_delta" where
  "byte_delta_combine d other = (if d = 0 then other else if other = 0 then d else d + other)"

subsection \<open>Ranges\<close>

record char_range =
  cr_start :: char_pos0
  cr_end :: char_pos0

record emacs_byte_range =
  br_start :: emacs_byte_pos
  br_end :: emacs_byte_pos

definition char_range_new :: "char_pos0 \<Rightarrow> char_pos0 \<Rightarrow> char_range" where
  "char_range_new s e = \<lparr>cr_start = s, cr_end = e\<rparr>"

definition char_range_from_start_len :: "char_pos0 \<Rightarrow> char_len \<Rightarrow> char_range" where
  "char_range_from_start_len s len = \<lparr>cr_start = s, cr_end = add_len s len\<rparr>"

definition char_range_len :: "char_range \<Rightarrow> char_len" where
  "char_range_len r = cr_end r - cr_start r"

definition char_range_is_empty :: "char_range \<Rightarrow> bool" where
  "char_range_is_empty r \<longleftrightarrow> cr_end r \<le> cr_start r"

definition byte_range_new :: "emacs_byte_pos \<Rightarrow> emacs_byte_pos \<Rightarrow> emacs_byte_range" where
  "byte_range_new s e = \<lparr>br_start = s, br_end = e\<rparr>"

definition byte_range_ordered :: "emacs_byte_pos \<Rightarrow> emacs_byte_pos \<Rightarrow> emacs_byte_range" where
  "byte_range_ordered s e = byte_range_new (min s e) (max s e)"

definition byte_range_from_start_len :: "emacs_byte_pos \<Rightarrow> emacs_byte_len \<Rightarrow> emacs_byte_range" where
  "byte_range_from_start_len s len = \<lparr>br_start = s, br_end = add_len s len\<rparr>"

definition byte_range_len :: "emacs_byte_range \<Rightarrow> emacs_byte_len" where
  "byte_range_len r = br_end r - br_start r"

definition byte_range_is_empty :: "emacs_byte_range \<Rightarrow> bool" where
  "byte_range_is_empty r \<longleftrightarrow> br_end r \<le> br_start r"

definition byte_delta_apply_to_range :: "emacs_byte_delta \<Rightarrow> emacs_byte_range \<Rightarrow> emacs_byte_range option" where
  "byte_delta_apply_to_range d r = do {
     s \<leftarrow> byte_delta_apply_to_pos d (br_start r);
     e \<leftarrow> byte_delta_apply_to_pos d (br_end r);
     Some (byte_range_new s e)
   }"

text \<open>
  The accessible (narrowed) ranges. Rust's \<open>Ord::clamp\<close> panics when its bounds are reversed.
\<close>

definition clamp_pos :: "nat \<Rightarrow> nat \<Rightarrow> nat \<Rightarrow> nat option" where
  "clamp_pos lo hi p = do {
     panic_unless (lo \<le> hi);
     Some (if p < lo then lo else if hi < p then hi else p)
   }"

definition accessible_bytes_contains :: "emacs_byte_range \<Rightarrow> emacs_byte_pos \<Rightarrow> bool" where
  "accessible_bytes_contains r p \<longleftrightarrow> br_start r \<le> p \<and> p < br_end r"

definition accessible_bytes_contains_preceding_char_boundary ::
    "emacs_byte_range \<Rightarrow> emacs_byte_pos \<Rightarrow> bool" where
  "accessible_bytes_contains_preceding_char_boundary r p \<longleftrightarrow> br_start r < p \<and> p \<le> br_end r"

definition accessible_bytes_clamp :: "emacs_byte_range \<Rightarrow> emacs_byte_pos \<Rightarrow> emacs_byte_pos option" where
  "accessible_bytes_clamp r p = clamp_pos (br_start r) (br_end r) p"

definition accessible_chars_contains :: "char_range \<Rightarrow> char_pos0 \<Rightarrow> bool" where
  "accessible_chars_contains r p \<longleftrightarrow> cr_start r \<le> p \<and> p < cr_end r"

definition accessible_chars_contains_boundary :: "char_range \<Rightarrow> char_pos0 \<Rightarrow> bool" where
  "accessible_chars_contains_boundary r p \<longleftrightarrow> cr_start r \<le> p \<and> p \<le> cr_end r"

definition accessible_chars_clamp :: "char_range \<Rightarrow> char_pos0 \<Rightarrow> char_pos0 option" where
  "accessible_chars_clamp r p = clamp_pos (cr_start r) (cr_end r) p"

definition full_buffer_contains :: "lisp_char_pos1 \<Rightarrow> lisp_char_pos1 \<Rightarrow> bool" where
  "full_buffer_contains z p \<longleftrightarrow> 1 \<le> p \<and> p \<le> z"

subsection \<open>Anchors and bounds\<close>

record text_position_anchor =
  ta_char :: char_pos0
  ta_byte :: emacs_byte_pos

definition anchor_new :: "char_pos0 \<Rightarrow> emacs_byte_pos \<Rightarrow> text_position_anchor" where
  "anchor_new c b = \<lparr>ta_char = c, ta_byte = b\<rparr>"

definition anchor_zero :: text_position_anchor where
  "anchor_zero = \<lparr>ta_char = 0, ta_byte = 0\<rparr>"

record text_position_bounds =
  tb_below :: text_position_anchor
  tb_above :: text_position_anchor

definition bounds_new :: "text_position_anchor \<Rightarrow> text_position_bounds" where
  "bounds_new hi = \<lparr>tb_below = anchor_zero, tb_above = hi\<rparr>"

definition consider_char_anchor ::
    "char_pos0 \<Rightarrow> text_position_anchor \<Rightarrow> text_position_bounds \<Rightarrow> text_position_bounds" where
  "consider_char_anchor target a bs =
     (let bs = (if ta_char a \<le> target \<and> ta_char (tb_below bs) < ta_char a
                then bs\<lparr>tb_below := a\<rparr> else bs)
      in if target \<le> ta_char a \<and> ta_char a < ta_char (tb_above bs)
         then bs\<lparr>tb_above := a\<rparr> else bs)"

definition consider_byte_anchor ::
    "emacs_byte_pos \<Rightarrow> text_position_anchor \<Rightarrow> text_position_bounds \<Rightarrow> text_position_bounds" where
  "consider_byte_anchor target a bs =
     (let bs = (if ta_byte a \<le> target \<and> ta_byte (tb_below bs) < ta_byte a
                then bs\<lparr>tb_below := a\<rparr> else bs)
      in if target \<le> ta_byte a \<and> ta_byte a < ta_byte (tb_above bs)
         then bs\<lparr>tb_above := a\<rparr> else bs)"

type_synonym text_position_hint = "text_position_anchor option"

definition hint_consider_char_anchor ::
    "text_position_hint \<Rightarrow> text_position_bounds \<Rightarrow> char_pos0 \<Rightarrow> text_position_bounds" where
  "hint_consider_char_anchor h bs target =
     (case h of Some a \<Rightarrow> consider_char_anchor target a bs | None \<Rightarrow> bs)"

definition hint_consider_byte_anchor ::
    "text_position_hint \<Rightarrow> text_position_bounds \<Rightarrow> emacs_byte_pos \<Rightarrow> text_position_bounds" where
  "hint_consider_byte_anchor h bs target =
     (case h of Some a \<Rightarrow> consider_byte_anchor target a bs | None \<Rightarrow> bs)"

datatype text_position_lookup = AnchorScan | BackendIndex

definition uses_backend_index :: "text_position_lookup \<Rightarrow> bool" where
  "uses_backend_index l = (case l of BackendIndex \<Rightarrow> True | AnchorScan \<Rightarrow> False)"

definition span_is_single_byte :: "text_position_bounds \<Rightarrow> bool option" where
  "span_is_single_byte bs = do {
     chars \<leftarrow> chk_sub (ta_char (tb_above bs)) (ta_char (tb_below bs));
     nbytes \<leftarrow> chk_sub (ta_byte (tb_above bs)) (ta_byte (tb_below bs));
     Some (chars = nbytes)
   }"

definition interpolate_char :: "text_position_bounds \<Rightarrow> char_pos0 \<Rightarrow> emacs_byte_pos option option" where
  "interpolate_char bs target = do {
     single \<leftarrow> span_is_single_byte bs;
     if \<not> single then Some None
     else do {
       offset \<leftarrow> chk_sub target (ta_char (tb_below bs));
       Some (Some (ta_byte (tb_below bs) + offset))
     }
   }"

definition interpolate_byte :: "text_position_bounds \<Rightarrow> emacs_byte_pos \<Rightarrow> char_pos0 option option" where
  "interpolate_byte bs target = do {
     single \<leftarrow> span_is_single_byte bs;
     if \<not> single then Some None
     else do {
       offset \<leftarrow> chk_sub target (ta_byte (tb_below bs));
       Some (Some (ta_char (tb_below bs) + offset))
     }
   }"

definition char_below_distance :: "text_position_bounds \<Rightarrow> char_pos0 \<Rightarrow> char_len" where
  "char_below_distance bs target = saturating_offset_from target (ta_char (tb_below bs))"

definition char_above_distance :: "text_position_bounds \<Rightarrow> char_pos0 \<Rightarrow> char_len" where
  "char_above_distance bs target = saturating_offset_from (ta_char (tb_above bs)) target"

definition byte_below_distance :: "text_position_bounds \<Rightarrow> emacs_byte_pos \<Rightarrow> emacs_byte_len" where
  "byte_below_distance bs target = saturating_offset_from target (ta_byte (tb_below bs))"

definition byte_above_distance :: "text_position_bounds \<Rightarrow> emacs_byte_pos \<Rightarrow> emacs_byte_len" where
  "byte_above_distance bs target = saturating_offset_from (ta_byte (tb_above bs)) target"

definition char_target_is_near :: "text_position_bounds \<Rightarrow> char_pos0 \<Rightarrow> char_len \<Rightarrow> bool" where
  "char_target_is_near bs target distance \<longleftrightarrow>
     char_above_distance bs target < distance \<or> char_below_distance bs target < distance"

definition byte_target_is_near :: "text_position_bounds \<Rightarrow> emacs_byte_pos \<Rightarrow> emacs_byte_len \<Rightarrow> bool" where
  "byte_target_is_near bs target distance \<longleftrightarrow>
     byte_above_distance bs target < distance \<or> byte_below_distance bs target < distance"

definition nearest_char_anchor :: "text_position_bounds \<Rightarrow> char_pos0 \<Rightarrow> text_position_anchor" where
  "nearest_char_anchor bs target =
     (if char_below_distance bs target \<le> char_above_distance bs target
      then tb_below bs else tb_above bs)"

definition nearest_byte_anchor :: "text_position_bounds \<Rightarrow> emacs_byte_pos \<Rightarrow> text_position_anchor" where
  "nearest_byte_anchor bs target =
     (if byte_below_distance bs target \<le> byte_above_distance bs target
      then tb_below bs else tb_above bs)"

definition min_char_walk :: "text_position_bounds \<Rightarrow> char_pos0 \<Rightarrow> char_len" where
  "min_char_walk bs target = min (char_below_distance bs target) (char_above_distance bs target)"

definition min_byte_walk :: "text_position_bounds \<Rightarrow> emacs_byte_pos \<Rightarrow> emacs_byte_len" where
  "min_byte_walk bs target = min (byte_below_distance bs target) (byte_above_distance bs target)"

subsection \<open>Measured edits\<close>

record text_extent =
  te_chars :: char_len
  te_bytes :: emacs_byte_len

definition extent_new :: "char_len \<Rightarrow> emacs_byte_len \<Rightarrow> text_extent" where
  "extent_new c b = \<lparr>te_chars = c, te_bytes = b\<rparr>"

definition extent_zero :: text_extent where
  "extent_zero = \<lparr>te_chars = 0, te_bytes = 0\<rparr>"

definition extent_from_emacs_bytes :: "bytes \<Rightarrow> bool \<Rightarrow> text_extent" where
  "extent_from_emacs_bytes bs multibyte =
     extent_new (emacs_char_count_bytes bs multibyte) (length bs)"

definition extent_is_empty :: "text_extent \<Rightarrow> bool" where
  "extent_is_empty e \<longleftrightarrow> te_chars e = 0 \<and> te_bytes e = 0"

record text_extent_delta =
  td_chars :: char_delta
  td_bytes :: emacs_byte_delta

definition extent_delta_insertion :: "text_extent \<Rightarrow> text_extent_delta" where
  "extent_delta_insertion e =
     \<lparr>td_chars = delta_insertion (te_chars e), td_bytes = delta_insertion (te_bytes e)\<rparr>"

definition extent_delta_deletion :: "text_extent \<Rightarrow> text_extent_delta" where
  "extent_delta_deletion e =
     \<lparr>td_chars = delta_deletion (te_chars e), td_bytes = delta_deletion (te_bytes e)\<rparr>"

definition extent_delta_replacement :: "text_extent \<Rightarrow> text_extent \<Rightarrow> text_extent_delta" where
  "extent_delta_replacement old new =
     \<lparr>td_chars = delta_replacement (te_chars old) (te_chars new),
      td_bytes = delta_replacement (te_bytes old) (te_bytes new)\<rparr>"

definition apply_to_anchor :: "text_extent_delta \<Rightarrow> text_position_anchor \<Rightarrow> text_position_anchor option" where
  "apply_to_anchor d a = do {
     c \<leftarrow> char_delta_apply_to_pos (td_chars d) (ta_char a);
     b \<leftarrow> byte_delta_apply_to_pos (td_bytes d) (ta_byte a);
     Some (anchor_new c b)
   }"

record text_insertion =
  ti_byte :: emacs_byte_pos
  ti_char :: char_pos0
  ti_extent :: text_extent

definition insertion_new :: "emacs_byte_pos \<Rightarrow> char_pos0 \<Rightarrow> text_extent \<Rightarrow> text_insertion" where
  "insertion_new b c e = \<lparr>ti_byte = b, ti_char = c, ti_extent = e\<rparr>"

definition insertion_at_anchor :: "text_position_anchor \<Rightarrow> text_extent \<Rightarrow> text_insertion" where
  "insertion_at_anchor a e = \<lparr>ti_byte = ta_byte a, ti_char = ta_char a, ti_extent = e\<rparr>"

definition insertion_start_anchor :: "text_insertion \<Rightarrow> text_position_anchor" where
  "insertion_start_anchor i = anchor_new (ti_char i) (ti_byte i)"

definition insertion_byte_end :: "text_insertion \<Rightarrow> emacs_byte_pos" where
  "insertion_byte_end i = add_len (ti_byte i) (te_bytes (ti_extent i))"

definition insertion_char_end :: "text_insertion \<Rightarrow> char_pos0" where
  "insertion_char_end i = add_len (ti_char i) (te_chars (ti_extent i))"

definition insertion_end_anchor :: "text_insertion \<Rightarrow> text_position_anchor" where
  "insertion_end_anchor i = anchor_new (insertion_char_end i) (insertion_byte_end i)"

record text_edit_range =
  er_bytes :: emacs_byte_range
  er_char_start :: char_pos0
  er_char_end :: char_pos0

definition edit_range_new :: "emacs_byte_range \<Rightarrow> char_pos0 \<Rightarrow> char_pos0 \<Rightarrow> text_edit_range" where
  "edit_range_new r s e = \<lparr>er_bytes = r, er_char_start = s, er_char_end = e\<rparr>"

definition edit_range_empty_at :: "emacs_byte_pos \<Rightarrow> char_pos0 \<Rightarrow> text_edit_range" where
  "edit_range_empty_at b c = edit_range_new (byte_range_new b b) c c"

definition edit_range_from_start_end ::
    "text_position_anchor \<Rightarrow> text_position_anchor \<Rightarrow> text_edit_range" where
  "edit_range_from_start_end s e =
     \<lparr>er_bytes = byte_range_new (ta_byte s) (ta_byte e),
      er_char_start = ta_char s, er_char_end = ta_char e\<rparr>"

definition edit_range_from_start_extent ::
    "emacs_byte_pos \<Rightarrow> char_pos0 \<Rightarrow> text_extent \<Rightarrow> text_edit_range" where
  "edit_range_from_start_extent b c e =
     \<lparr>er_bytes = byte_range_from_start_len b (te_bytes e),
      er_char_start = c, er_char_end = add_len c (te_chars e)\<rparr>"

abbreviation er_byte_start :: "text_edit_range \<Rightarrow> emacs_byte_pos" where
  "er_byte_start r \<equiv> br_start (er_bytes r)"

abbreviation er_byte_end :: "text_edit_range \<Rightarrow> emacs_byte_pos" where
  "er_byte_end r \<equiv> br_end (er_bytes r)"

definition edit_range_start_anchor :: "text_edit_range \<Rightarrow> text_position_anchor" where
  "edit_range_start_anchor r = anchor_new (er_char_start r) (er_byte_start r)"

definition edit_range_end_anchor :: "text_edit_range \<Rightarrow> text_position_anchor" where
  "edit_range_end_anchor r = anchor_new (er_char_end r) (er_byte_end r)"

definition edit_range_char_range :: "text_edit_range \<Rightarrow> char_range" where
  "edit_range_char_range r = char_range_new (er_char_start r) (er_char_end r)"

definition edit_range_byte_len :: "text_edit_range \<Rightarrow> emacs_byte_len" where
  "edit_range_byte_len r = byte_range_len (er_bytes r)"

definition edit_range_char_len :: "text_edit_range \<Rightarrow> char_len" where
  "edit_range_char_len r = er_char_end r - er_char_start r"

definition edit_range_extent :: "text_edit_range \<Rightarrow> text_extent" where
  "edit_range_extent r = extent_new (edit_range_char_len r) (edit_range_byte_len r)"

definition edit_range_is_empty :: "text_edit_range \<Rightarrow> bool" where
  "edit_range_is_empty r \<longleftrightarrow> byte_range_is_empty (er_bytes r)"

definition byte_index_range_relative_to ::
    "text_edit_range \<Rightarrow> text_edit_range \<Rightarrow> (nat \<times> nat) option" where
  "byte_index_range_relative_to r base = do {
     panic_unless (er_byte_start base \<le> er_byte_start r \<and> er_byte_end r \<le> er_byte_end base);
     s \<leftarrow> chk_sub (er_byte_start r) (er_byte_start base);
     e \<leftarrow> chk_sub (er_byte_end r) (er_byte_start base);
     Some (s, e)
   }"

definition subrange_from_start_offsets ::
    "text_edit_range \<Rightarrow> emacs_byte_len \<Rightarrow> char_len \<Rightarrow> text_extent \<Rightarrow> text_edit_range" where
  "subrange_from_start_offsets r byte_off char_off e =
     edit_range_from_start_extent (add_len (er_byte_start r) byte_off)
       (add_len (er_char_start r) char_off) e"

record text_replacement =
  tr_old :: text_edit_range
  tr_new :: text_extent

definition replacement_new :: "text_edit_range \<Rightarrow> text_extent \<Rightarrow> text_replacement" where
  "replacement_new r e = \<lparr>tr_old = r, tr_new = e\<rparr>"

definition replacement_changed_chars :: "text_replacement \<Rightarrow> char_len" where
  "replacement_changed_chars r =
     (let old = edit_range_char_len (tr_old r); new = te_chars (tr_new r)
      in if new < old then old else new)"

record text_change =
  tc_old_range :: text_edit_range
  tc_new_extent :: text_extent
  tc_after_start :: emacs_byte_pos
  tc_after_new_extent :: text_extent
  tc_after_old_chars :: char_len

definition change_new :: "text_edit_range \<Rightarrow> text_extent \<Rightarrow> text_change" where
  "change_new r e =
     \<lparr>tc_old_range = r, tc_new_extent = e, tc_after_start = er_byte_start r,
      tc_after_new_extent = e, tc_after_old_chars = edit_range_char_len r\<rparr>"

definition change_insertion :: "text_insertion \<Rightarrow> text_change" where
  "change_insertion i = change_new (edit_range_empty_at (ti_byte i) (ti_char i)) (ti_extent i)"

definition change_deletion :: "text_edit_range \<Rightarrow> text_change" where
  "change_deletion r = change_new r extent_zero"

definition change_unchanged_extent :: "text_edit_range \<Rightarrow> text_change" where
  "change_unchanged_extent r = change_new r (edit_range_extent r)"

definition change_unchanged_extent_with_after_range ::
    "text_edit_range \<Rightarrow> text_edit_range \<Rightarrow> text_change" where
  "change_unchanged_extent_with_after_range bef aft =
     \<lparr>tc_old_range = bef, tc_new_extent = edit_range_extent bef,
      tc_after_start = er_byte_start aft, tc_after_new_extent = edit_range_extent aft,
      tc_after_old_chars = edit_range_char_len aft\<rparr>"

definition change_replacement :: "text_replacement \<Rightarrow> text_change" where
  "change_replacement r = change_new (tr_old r) (tr_new r)"

definition change_after_end_byte :: "text_change \<Rightarrow> emacs_byte_pos" where
  "change_after_end_byte c = add_len (tc_after_start c) (te_bytes (tc_after_new_extent c))"

definition change_after_byte_range :: "text_change \<Rightarrow> emacs_byte_range" where
  "change_after_byte_range c = byte_range_new (tc_after_start c) (change_after_end_byte c)"

subsection \<open>Transposition\<close>

record text_transposition =
  tt_first :: text_edit_range
  tt_second :: text_edit_range

definition transposition_byte_span :: "text_transposition \<Rightarrow> emacs_byte_range" where
  "transposition_byte_span t =
     byte_range_new (er_byte_start (tt_first t)) (er_byte_end (tt_second t))"

definition transposition_char_span :: "text_transposition \<Rightarrow> char_range" where
  "transposition_char_span t =
     char_range_new (er_char_start (tt_first t)) (er_char_end (tt_second t))"

definition transposition_span_edit_range :: "text_transposition \<Rightarrow> text_edit_range" where
  "transposition_span_edit_range t =
     edit_range_from_start_end (edit_range_start_anchor (tt_first t))
       (edit_range_end_anchor (tt_second t))"

definition middle_byte_range :: "text_transposition \<Rightarrow> emacs_byte_range" where
  "middle_byte_range t = byte_range_new (er_byte_end (tt_first t)) (er_byte_start (tt_second t))"

definition middle_char_range :: "text_transposition \<Rightarrow> char_range" where
  "middle_char_range t = char_range_new (er_char_end (tt_first t)) (er_char_start (tt_second t))"

definition second_destination_char_start :: "text_transposition \<Rightarrow> char_pos0" where
  "second_destination_char_start t = er_char_start (tt_first t)"

definition middle_destination_char_start :: "text_transposition \<Rightarrow> char_pos0" where
  "middle_destination_char_start t =
     add_len (er_char_start (tt_first t)) (edit_range_char_len (tt_second t))"

definition first_destination_char_start :: "text_transposition \<Rightarrow> char_pos0" where
  "first_destination_char_start t =
     saturating_sub_len (er_char_end (tt_second t)) (edit_range_char_len (tt_first t))"

definition transposition_changed_chars :: "text_transposition \<Rightarrow> char_len" where
  "transposition_changed_chars t = char_range_len (transposition_char_span t)"

definition same_char_len :: "text_transposition \<Rightarrow> bool" where
  "same_char_len t \<longleftrightarrow>
     edit_range_char_len (tt_first t) = edit_range_char_len (tt_second t)"

definition transposition_adjacent :: "text_transposition \<Rightarrow> bool" where
  "transposition_adjacent t \<longleftrightarrow> er_byte_end (tt_first t) = er_byte_start (tt_second t)"

text \<open>
  The middle part moves by a signed difference computed in \<open>isize\<close> and cast back to
  \<open>usize\<close>, which wraps a negative value around \<open>2 ^ 64\<close>.
\<close>

definition transpose_half_open_position ::
    "nat \<Rightarrow> nat \<Rightarrow> nat \<Rightarrow> nat \<Rightarrow> nat \<Rightarrow> nat option" where
  "transpose_half_open_position pos start1 end1 start2 end2 =
     (if pos < start1 \<or> end2 \<le> pos then Some pos
      else if pos < end1 then do { d \<leftarrow> chk_sub end2 end1; Some (pos + d) }
      else if pos < start2 then do {
        len2 \<leftarrow> chk_sub end2 start2;
        len1 \<leftarrow> chk_sub end1 start1;
        Some (nat ((int pos + (int len2 - int len1)) mod 2 ^ 64))
      }
      else do { d \<leftarrow> chk_sub start2 start1; chk_sub pos d })"

definition transpose_byte_pos :: "text_transposition \<Rightarrow> emacs_byte_pos \<Rightarrow> emacs_byte_pos option" where
  "transpose_byte_pos t p =
     transpose_half_open_position p (er_byte_start (tt_first t)) (er_byte_end (tt_first t))
       (er_byte_start (tt_second t)) (er_byte_end (tt_second t))"

definition transpose_char_pos :: "text_transposition \<Rightarrow> char_pos0 \<Rightarrow> char_pos0 option" where
  "transpose_char_pos t p =
     transpose_half_open_position p (er_char_start (tt_first t)) (er_char_end (tt_first t))
       (er_char_start (tt_second t)) (er_char_end (tt_second t))"

definition transpose_anchor :: "text_transposition \<Rightarrow> text_position_anchor \<Rightarrow> text_position_anchor option" where
  "transpose_anchor t a = do {
     c \<leftarrow> transpose_char_pos t (ta_char a);
     b \<leftarrow> transpose_byte_pos t (ta_byte a);
     Some (anchor_new c b)
   }"

subsection \<open>Metrics and gap layout\<close>

record text_metrics =
  tm_chars :: char_len
  tm_bytes :: emacs_byte_len

definition metrics_zero :: text_metrics where
  "metrics_zero = \<lparr>tm_chars = 0, tm_bytes = 0\<rparr>"

definition metrics_from_lengths :: "char_len \<Rightarrow> emacs_byte_len \<Rightarrow> text_metrics" where
  "metrics_from_lengths c b = \<lparr>tm_chars = c, tm_bytes = b\<rparr>"

definition metrics_from_extent :: "text_extent \<Rightarrow> text_metrics" where
  "metrics_from_extent e = \<lparr>tm_chars = te_chars e, tm_bytes = te_bytes e\<rparr>"

definition add_metrics :: "text_metrics \<Rightarrow> text_metrics \<Rightarrow> text_metrics" where
  "add_metrics m n = \<lparr>tm_chars = tm_chars m + tm_chars n, tm_bytes = tm_bytes m + tm_bytes n\<rparr>"

definition add_extent :: "text_metrics \<Rightarrow> text_extent \<Rightarrow> text_metrics" where
  "add_extent m e = \<lparr>tm_chars = tm_chars m + te_chars e, tm_bytes = tm_bytes m + te_bytes e\<rparr>"

definition metrics_is_empty :: "text_metrics \<Rightarrow> bool" where
  "metrics_is_empty m \<longleftrightarrow> tm_chars m = 0 \<and> tm_bytes m = 0"

record gap_compat_state =
  gc_pos :: char_pos0
  gc_byte_len :: emacs_byte_len

definition gap_lisp_position :: "gap_compat_state \<Rightarrow> int" where
  "gap_lisp_position g = char_pos0_to_lisp (gc_pos g)"

definition gap_lisp_size :: "gap_compat_state \<Rightarrow> int" where
  "gap_lisp_size g = int (gc_byte_len g)"

record gap_debug_layout =
  gl_gpt :: char_pos0
  gl_z :: char_pos0
  gl_gpt_byte :: emacs_byte_pos
  gl_z_byte :: emacs_byte_pos
  gl_gap_byte_len :: emacs_byte_len

definition gap_layout_compat_state :: "gap_debug_layout \<Rightarrow> gap_compat_state" where
  "gap_layout_compat_state l = \<lparr>gc_pos = gl_gpt l, gc_byte_len = gl_gap_byte_len l\<rparr>"

datatype text_backend_debug_layout =
    LayoutGap gap_debug_layout
  | LayoutPieceTree text_metrics
  | LayoutRope text_metrics

fun debug_layout_metrics :: "text_backend_debug_layout \<Rightarrow> text_metrics" where
  "debug_layout_metrics (LayoutGap l) = metrics_from_lengths (gl_z l) (gl_z_byte l)"
| "debug_layout_metrics (LayoutPieceTree m) = m"
| "debug_layout_metrics (LayoutRope m) = m"

subsection \<open>Lisp positions\<close>

lemma char_pos0_lisp_round_trip:
  "char_pos0_from_lisp (char_pos0_to_lisp p) = p"
  "char_pos0_to_lisp (char_pos0_from_lisp q) = max q 1"
  "to_emacs_byte_pos (to_lisp_byte_pos b) = b"
  by (auto simp: char_pos0_from_lisp_def char_pos0_to_lisp_def to_emacs_byte_pos_def
      to_lisp_byte_pos_def)

subsection \<open>Edits move character offsets\<close>

lemma boundary_insert_before:
  assumes "is_emacs_char_boundary tx p mb" "lead_ok mb tx" "lead_ok mb ins"
    "is_emacs_char_boundary tx k mb" "k \<le> p"
  shows "is_emacs_char_boundary (insert_at p ins tx) k mb"
proof -
  have "lead_ok mb (ins @ drop p tx)"
    using assms by (intro lead_ok_append) (auto simp: boundary_drop_lead_ok)
  then show ?thesis
    using assms boundary_le [OF assms(1)] by (simp add: insert_at_def boundary_append_left boundary_take)
qed

lemma boundary_insert_after:
  assumes "is_emacs_char_boundary tx p mb" "lead_ok mb tx"
    "is_emacs_char_boundary tx k mb" "p \<le> k"
  shows "is_emacs_char_boundary (insert_at p ins tx) (k + length ins) mb"
proof -
  have "length (take p tx @ ins) + (k - p) = k + length ins"
    using assms boundary_le [OF assms(1)] by simp
  moreover have "is_emacs_char_boundary (drop p tx) (k - p) mb"
    using assms by (simp add: boundary_drop)
  ultimately show ?thesis
    using boundary_append [of mb "drop p tx" "take p tx @ ins" "k - p"] assms
    by (simp add: insert_at_def boundary_drop_lead_ok add.commute)
qed

lemma char_offset_insert_before:
  assumes "is_emacs_char_boundary tx p mb" "lead_ok mb tx" "lead_ok mb ins"
    "char_offset mb tx c k" "k \<le> p"
  shows "char_offset mb (insert_at p ins tx) c k"
  using assms boundary_insert_before [of tx p mb ins k] boundary_le [OF assms(1)]
  by (auto simp: char_offset_def take_insert_at)

lemma char_offset_insert_after:
  assumes "is_emacs_char_boundary tx p mb" "lead_ok mb tx"
    "char_offset mb tx c k" "p \<le> k"
  shows "char_offset mb (insert_at p ins tx) (c + emacs_char_count_bytes ins mb) (k + length ins)"
proof -
  have "take k tx = take p tx @ drop p (take k tx)"
    using assms(4) by (metis append_take_drop_id min_absorb1 take_take)
  then have "emacs_char_count_bytes (take k tx) mb
      = emacs_char_count_bytes (take p tx) mb + emacs_char_count_bytes (drop p (take k tx)) mb"
    by (metis char_count_append)
  then show ?thesis
    using assms boundary_insert_after [of tx p mb k ins] boundary_le [OF assms(1)]
    by (simp add: char_offset_def take_insert_at_after)
qed

lemma boundary_delete_before:
  assumes "is_emacs_char_boundary tx a mb" "is_emacs_char_boundary tx b mb" "lead_ok mb tx"
    "is_emacs_char_boundary tx k mb" "k \<le> a"
  shows "is_emacs_char_boundary (delete_range a b tx) k mb"
  using assms boundary_le [OF assms(1)]
  by (simp add: delete_range_def boundary_append_left boundary_take boundary_drop_lead_ok)

lemma boundary_delete_after:
  assumes "is_emacs_char_boundary tx a mb" "is_emacs_char_boundary tx b mb" "lead_ok mb tx"
    "is_emacs_char_boundary tx k mb" "a \<le> b" "b \<le> k"
  shows "is_emacs_char_boundary (delete_range a b tx) (k - (b - a)) mb"
proof -
  have "k - (b - a) = length (take a tx) + (k - b)"
    using assms boundary_le [OF assms(1)] by simp
  then show ?thesis
    using assms unfolding delete_range_def
    by (simp only: boundary_append boundary_drop_lead_ok boundary_drop le_add_diff_inverse)
qed

lemma char_offset_delete_before:
  assumes "is_emacs_char_boundary tx a mb" "is_emacs_char_boundary tx b mb" "lead_ok mb tx"
    "char_offset mb tx c k" "k \<le> a"
  shows "char_offset mb (delete_range a b tx) c k"
  using assms boundary_delete_before [of tx a mb b k] boundary_le [OF assms(1)]
  by (auto simp: char_offset_def take_delete_range)

lemma char_offset_delete_after:
  assumes "is_emacs_char_boundary tx a mb" "is_emacs_char_boundary tx b mb" "lead_ok mb tx"
    "char_offset mb tx c k" "a \<le> b" "b \<le> k"
  shows "char_offset mb (delete_range a b tx)
           (c - emacs_char_count_bytes (sub_list a b tx) mb) (k - (b - a))"
    "emacs_char_count_bytes (sub_list a b tx) mb \<le> c"
proof -
  have "take k tx = (take a tx @ sub_list a b tx) @ drop b (take k tx)"
    using assms(5,6) by (metis append_take_drop_id min_absorb1 take_take take_sub_list)
  then have c: "emacs_char_count_bytes (take k tx) mb = emacs_char_count_bytes (take a tx) mb
      + emacs_char_count_bytes (sub_list a b tx) mb + emacs_char_count_bytes (drop b (take k tx)) mb"
    by (metis char_count_append)
  then show "emacs_char_count_bytes (sub_list a b tx) mb \<le> c"
    using assms(4) by (simp add: char_offset_def)
  show "char_offset mb (delete_range a b tx)
           (c - emacs_char_count_bytes (sub_list a b tx) mb) (k - (b - a))"
    unfolding char_offset_def
    using assms boundary_delete_after [of tx a mb b k] c
      take_delete_range_after [OF assms(5,6) boundary_le [OF assms(2)]]
    by (simp only: char_offset_def char_count_append) auto
qed

lemma lead_ok_insert:
  assumes "is_emacs_char_boundary tx p mb" "lead_ok mb tx" "lead_ok mb ins"
  shows "lead_ok mb (insert_at p ins tx)"
  unfolding insert_at_def using assms
  by (intro lead_ok_append) (auto simp: boundary_drop_lead_ok)

lemma lead_ok_delete:
  assumes "is_emacs_char_boundary tx b mb" "lead_ok mb tx"
  shows "lead_ok mb (delete_range a b tx)"
  unfolding delete_range_def using assms
  by (intro lead_ok_append) (auto simp: boundary_drop_lead_ok)

lemma char_count_insert:
  "emacs_char_count_bytes (insert_at p ins tx) mb
     = emacs_char_count_bytes tx mb + emacs_char_count_bytes ins mb"
  using char_count_split [of p tx mb] by (simp add: insert_at_def)

lemma char_count_delete:
  assumes "a \<le> b"
  shows "emacs_char_count_bytes (delete_range a b tx) mb
     = emacs_char_count_bytes tx mb - emacs_char_count_bytes (sub_list a b tx) mb"
    "emacs_char_count_bytes (sub_list a b tx) mb \<le> emacs_char_count_bytes tx mb"
  using char_count_split [of b tx mb] char_count_take_sub [OF assms, of tx mb]
  by (simp_all add: delete_range_def)

text \<open>The signed delta of an edit, applied to a known position behind the edit.\<close>

abbreviation valid_anchor :: "bool \<Rightarrow> bytes \<Rightarrow> text_position_anchor \<Rightarrow> bool" where
  "valid_anchor mb tx a \<equiv> char_offset mb tx (ta_char a) (ta_byte a)"

lemma signed_delta_insertion:
  "apply_to_anchor (extent_delta_insertion e) a = Some (anchor_new (ta_char a + te_chars e) (ta_byte a + te_bytes e))"
  by (auto simp: apply_to_anchor_def extent_delta_insertion_def char_delta_apply_to_pos_def
      byte_delta_apply_to_pos_def apply_signed_delta_def delta_insertion_def)

lemma signed_delta_deletion:
  "te_chars e \<le> ta_char a \<Longrightarrow> te_bytes e \<le> ta_byte a \<Longrightarrow>
   apply_to_anchor (extent_delta_deletion e) a = Some (anchor_new (ta_char a - te_chars e) (ta_byte a - te_bytes e))"
  by (auto simp: apply_to_anchor_def extent_delta_deletion_def char_delta_apply_to_pos_def
      byte_delta_apply_to_pos_def apply_signed_delta_def delta_deletion_def)

lemma signed_delta_replacement:
  assumes "te_chars old \<le> ta_char a" "te_bytes old \<le> ta_byte a"
  shows "apply_to_anchor (extent_delta_replacement old new) a
     = Some (anchor_new (ta_char a - te_chars old + te_chars new) (ta_byte a - te_bytes old + te_bytes new))"
proof -
  have "apply_signed_delta v (delta_replacement m n) = Some (v - m + n)" if "m \<le> v" for v m n
    using that by (auto simp: apply_signed_delta_def delta_replacement_def chk_sub_def)
  moreover have "delta_replacement m n = 0 \<Longrightarrow> m \<le> v \<Longrightarrow> v - m + n = v" for v m n
    by (simp add: delta_replacement_def)
  ultimately show ?thesis
    using assms
    by (simp add: apply_to_anchor_def extent_delta_replacement_def char_delta_apply_to_pos_def
        byte_delta_apply_to_pos_def)
qed

lemma apply_to_anchor_replacement:
  assumes b: "is_emacs_char_boundary tx a mb" "is_emacs_char_boundary tx b mb" "lead_ok mb tx"
    "lead_ok mb ins" and v: "valid_anchor mb tx an" "a \<le> b" "b \<le> ta_byte an"
  shows "\<exists>an'. apply_to_anchor
       (extent_delta_replacement (extent_from_emacs_bytes (sub_list a b tx) mb)
          (extent_from_emacs_bytes ins mb)) an = Some an'
     \<and> valid_anchor mb (insert_at a ins (delete_range a b tx)) an'"
proof -
  let ?n = "emacs_char_count_bytes (sub_list a b tx) mb"
  have le: "?n \<le> ta_char an" "b \<le> length tx"
    using char_offset_delete_after(2) [OF b(1-3) v(1)] v b boundary_le by auto
  have "char_offset mb (delete_range a b tx) (ta_char an - ?n) (ta_byte an - (b - a))"
    using b v by (intro char_offset_delete_after)
  then have "char_offset mb (insert_at a ins (delete_range a b tx))
      (ta_char an - ?n + emacs_char_count_bytes ins mb) (ta_byte an - (b - a) + length ins)"
    using b v by (intro char_offset_insert_after boundary_delete_before lead_ok_delete) auto
  then show ?thesis
    using le v by (subst signed_delta_replacement)
      (auto simp: extent_from_emacs_bytes_def extent_new_def anchor_new_def)
qed

subsection \<open>Bracketing anchors\<close>

definition char_bracket :: "bool \<Rightarrow> bytes \<Rightarrow> char_pos0 \<Rightarrow> text_position_bounds \<Rightarrow> bool" where
  "char_bracket mb tx target bs \<longleftrightarrow>
     valid_anchor mb tx (tb_below bs) \<and> valid_anchor mb tx (tb_above bs)
     \<and> ta_char (tb_below bs) \<le> target \<and> target \<le> ta_char (tb_above bs)"

definition byte_bracket :: "bool \<Rightarrow> bytes \<Rightarrow> emacs_byte_pos \<Rightarrow> text_position_bounds \<Rightarrow> bool" where
  "byte_bracket mb tx target bs \<longleftrightarrow>
     valid_anchor mb tx (tb_below bs) \<and> valid_anchor mb tx (tb_above bs)
     \<and> ta_byte (tb_below bs) \<le> target \<and> target \<le> ta_byte (tb_above bs)"

lemma bracket_new:
  "target \<le> emacs_char_count_bytes tx mb \<Longrightarrow>
     char_bracket mb tx target (bounds_new (anchor_new (emacs_char_count_bytes tx mb) (length tx)))"
  "k \<le> length tx \<Longrightarrow>
     byte_bracket mb tx k (bounds_new (anchor_new (emacs_char_count_bytes tx mb) (length tx)))"
  by (simp_all add: char_bracket_def byte_bracket_def bounds_new_def anchor_new_def anchor_zero_def)

lemma consider_keeps_bracket:
  "char_bracket mb tx target bs \<Longrightarrow> valid_anchor mb tx a \<Longrightarrow>
     char_bracket mb tx target (consider_char_anchor target a bs)"
  "byte_bracket mb tx k bs \<Longrightarrow> valid_anchor mb tx a \<Longrightarrow>
     byte_bracket mb tx k (consider_byte_anchor k a bs)"
  by (auto simp: char_bracket_def byte_bracket_def consider_char_anchor_def
      consider_byte_anchor_def Let_def)

lemma fold_consider_keeps_bracket:
  "char_bracket mb tx target bs \<Longrightarrow> \<forall>a \<in> set as. valid_anchor mb tx a \<Longrightarrow>
     char_bracket mb tx target (fold (consider_char_anchor target) as bs)"
  "byte_bracket mb tx k bs \<Longrightarrow> \<forall>a \<in> set as. valid_anchor mb tx a \<Longrightarrow>
     byte_bracket mb tx k (fold (consider_byte_anchor k) as bs)"
  by (induction as arbitrary: bs) (auto simp: consider_keeps_bracket)

text \<open>As many characters as bytes between two known positions: every byte is a head.\<close>

lemma single_byte_heads:
  assumes "emacs_char_count_bytes bs True = length bs" "i < length bs"
  shows "char_head_p (bs ! i)"
  using assms
  by (metis char_count_True count_lead_bytes_def length_filter_less nat_neq_iff nth_mem)

lemma single_byte_span:
  assumes v: "char_offset mb tx c1 b1" "char_offset mb tx c2 b2" and "lead_ok mb tx"
    and eq: "c2 - c1 = b2 - b1" "b1 \<le> b" "b \<le> b2"
  shows "char_offset mb tx (c1 + (b - b1)) b"
proof -
  let ?s = "sub_list b1 b2 tx"
  have le: "b2 \<le> length tx" using v(2) char_offset_le by blast
  have n: "c1 + emacs_char_count_bytes ?s mb = c2"
    using v eq char_count_take_sub [of b1 b2 tx mb] by (simp add: char_offset_def)
  then have len: "emacs_char_count_bytes ?s mb = length ?s" using eq le by simp
  have "take (b - b1) ?s = sub_list b1 b tx"
    using eq by (simp add: sub_list_def min_absorb1)
  then have "emacs_char_count_bytes (sub_list b1 b tx) mb = b - b1"
    using char_count_eq_length_take [OF len, of "b - b1"] eq le by simp
  then have cnt: "emacs_char_count_bytes (take b tx) mb = c1 + (b - b1)"
    using v(1) eq char_count_take_sub [of b1 b tx mb] by (simp add: char_offset_def)
  have "is_emacs_char_boundary tx b mb"
  proof (cases "b < b2 \<and> mb")
    case True
    then have "char_head_p (?s ! (b - b1))"
      using single_byte_heads [of ?s "b - b1"] len le eq by (simp add: diff_less_mono)
    then have "char_head_p (tx ! b)" using True le eq by (simp add: nth_sub_list diff_less_mono)
    then show ?thesis using True le by (simp add: is_emacs_char_boundary_def)
  next
    case False
    then show ?thesis using v(2) eq le by (cases mb) (auto simp: char_offset_def)
  qed
  with cnt show ?thesis by (simp add: char_offset_def)
qed

lemma char_bracket_bytes:
  assumes "char_bracket mb tx target bs" "lead_ok mb tx"
  shows "ta_byte (tb_below bs) \<le> ta_byte (tb_above bs)" "ta_char (tb_below bs) \<le> ta_char (tb_above bs)"
  using assms char_offset_mono(2) [OF assms(2), of "ta_char (tb_below bs)" "ta_byte (tb_below bs)"]
  by (force simp: char_bracket_def)+

lemma byte_bracket_chars:
  assumes "byte_bracket mb tx target bs" "lead_ok mb tx"
  shows "ta_byte (tb_below bs) \<le> ta_byte (tb_above bs)" "ta_char (tb_below bs) \<le> ta_char (tb_above bs)"
  using assms char_offset_mono(2) [OF assms(2), of "ta_char (tb_below bs)" "ta_byte (tb_below bs)"]
  by (force simp: byte_bracket_def)+

lemma interpolate_char_bracket:
  assumes "char_bracket mb tx target bs" "lead_ok mb tx"
  shows "\<exists>r. interpolate_char bs target = Some r \<and> (\<forall>b. r = Some b \<longrightarrow> char_offset mb tx target b)"
proof -
  let ?lo = "tb_below bs" and ?hi = "tb_above bs"
  have le: "ta_char ?lo \<le> target" "target \<le> ta_char ?hi" "valid_anchor mb tx ?lo" "valid_anchor mb tx ?hi"
    using assms by (auto simp: char_bracket_def)
  have "char_offset mb tx target (ta_byte ?lo + (target - ta_char ?lo))"
    if "ta_char ?hi - ta_char ?lo = ta_byte ?hi - ta_byte ?lo"
    using single_byte_span [OF le(3,4) assms(2) that, of "ta_byte ?lo + (target - ta_char ?lo)"]
      that le char_bracket_bytes [OF assms] by simp
  then show ?thesis
    using le char_bracket_bytes [OF assms]
    by (auto simp: interpolate_char_def span_is_single_byte_def)
qed

lemma interpolate_byte_bracket:
  assumes "byte_bracket mb tx target bs" "lead_ok mb tx"
  shows "\<exists>r. interpolate_byte bs target = Some r \<and> (\<forall>c. r = Some c \<longrightarrow> char_offset mb tx c target)"
proof -
  let ?lo = "tb_below bs" and ?hi = "tb_above bs"
  have le: "ta_byte ?lo \<le> target" "target \<le> ta_byte ?hi" "valid_anchor mb tx ?lo" "valid_anchor mb tx ?hi"
    using assms by (auto simp: byte_bracket_def)
  have "char_offset mb tx (ta_char ?lo + (target - ta_byte ?lo)) target"
    if "ta_char ?hi - ta_char ?lo = ta_byte ?hi - ta_byte ?lo"
    using single_byte_span [OF le(3,4) assms(2) that le(1,2)] .
  then show ?thesis
    using le byte_bracket_chars [OF assms]
    by (auto simp: interpolate_byte_def span_is_single_byte_def)
qed

subsection \<open>Transposed text\<close>

text \<open>Swapping \<open>[s1, e1)\<close> and \<open>[s2, e2)\<close> of a list.\<close>

definition transposed :: "nat \<Rightarrow> nat \<Rightarrow> nat \<Rightarrow> nat \<Rightarrow> 'a list \<Rightarrow> 'a list" where
  "transposed s1 e1 s2 e2 xs =
     take s1 xs @ sub_list s2 e2 xs @ sub_list e1 s2 xs @ sub_list s1 e1 xs @ drop e2 xs"

lemma transpose_position_cases:
  assumes "s1 \<le> e1" "e1 \<le> s2" "s2 \<le> e2" "e2 < 2 ^ 63"
  shows "transpose_half_open_position p s1 e1 s2 e2 = Some
     (if p < s1 \<or> e2 \<le> p then p
      else if p < e1 then p + (e2 - e1)
      else if p < s2 then p + (e2 - s2) - (e1 - s1)
      else p - (s2 - s1))"
proof -
  have "nat ((int p + (int (e2 - s2) - int (e1 - s1))) mod 2 ^ 64) = p + (e2 - s2) - (e1 - s1)"
    if "e1 \<le> p" "p < s2"
  proof -
    have "int p + (int (e2 - s2) - int (e1 - s1)) = int (p + (e2 - s2) - (e1 - s1))"
      using that assms by auto
    moreover have "int (p + (e2 - s2) - (e1 - s1)) mod 2 ^ 64 = int (p + (e2 - s2) - (e1 - s1))"
      using that assms by (intro mod_pos_pos_trivial) auto
    ultimately show ?thesis by (simp only: nat_int)
  qed
  then show ?thesis
    using assms by (auto simp: transpose_half_open_position_def)
qed

lemma nth_segment: "p = length as + d \<Longrightarrow> d < length bs \<Longrightarrow> (as @ bs @ cs) ! p = bs ! d"
  by (simp add: nth_append)

lemma transpose_position_text:
  assumes "s1 \<le> e1" "e1 \<le> s2" "s2 \<le> e2" "e2 \<le> length xs" "e2 < 2 ^ 63" "p < length xs"
  shows "\<exists>q. transpose_half_open_position p s1 e1 s2 e2 = Some q \<and> q < length xs
           \<and> transposed s1 e1 s2 e2 xs ! q = xs ! p"
proof -
  have len: "length (take s1 xs) = s1" "length (sub_list s2 e2 xs) = e2 - s2"
      "length (sub_list e1 s2 xs) = s2 - e1" "length (sub_list s1 e1 xs) = e1 - s1"
    using assms by auto
  consider (before) "p < s1" | (first) "s1 \<le> p" "p < e1" | (middle) "e1 \<le> p" "p < s2"
    | (second) "s2 \<le> p" "p < e2" | (after) "e2 \<le> p" by linarith
  then show ?thesis
  proof cases
    case before
    then show ?thesis using assms len transpose_position_cases [OF assms(1-3,5), of p]
      by (simp add: transposed_def nth_append)
  next
    case first
    then have "transposed s1 e1 s2 e2 xs ! (p + (e2 - e1)) = sub_list s1 e1 xs ! (p - s1)"
      using assms len nth_segment [of "p + (e2 - e1)" "take s1 xs @ sub_list s2 e2 xs @ sub_list e1 s2 xs" "p - s1" "sub_list s1 e1 xs"]
      by (simp add: transposed_def diff_less_mono add.commute)
    then show ?thesis using first assms transpose_position_cases [OF assms(1-3,5), of p]
      by (simp add: nth_sub_list diff_less_mono)
  next
    case middle
    then have "transposed s1 e1 s2 e2 xs ! (p + (e2 - s2) - (e1 - s1)) = sub_list e1 s2 xs ! (p - e1)"
      using assms len nth_segment [of "p + (e2 - s2) - (e1 - s1)" "take s1 xs @ sub_list s2 e2 xs" "p - e1" "sub_list e1 s2 xs"]
      by (simp add: transposed_def diff_less_mono add.commute add.left_commute)
    then show ?thesis using middle assms transpose_position_cases [OF assms(1-3,5), of p]
      by (simp add: nth_sub_list diff_less_mono)
  next
    case second
    then have "transposed s1 e1 s2 e2 xs ! (p - (s2 - s1)) = sub_list s2 e2 xs ! (p - s2)"
      using assms len nth_segment [of "p - (s2 - s1)" "take s1 xs" "p - s2" "sub_list s2 e2 xs"]
      by (simp add: transposed_def diff_less_mono add.commute)
    then show ?thesis using second assms transpose_position_cases [OF assms(1-3,5), of p]
      by (simp add: nth_sub_list diff_less_mono)
  next
    case after
    then have "transposed s1 e1 s2 e2 xs ! p = drop e2 xs ! (p - e2)"
      using assms len nth_segment [of p "take s1 xs @ sub_list s2 e2 xs @ sub_list e1 s2 xs @ sub_list s1 e1 xs"
          "p - e2" "drop e2 xs" "[]"]
      by (simp add: transposed_def diff_less_mono)
    then show ?thesis using after assms transpose_position_cases [OF assms(1-3,5), of p] by simp
  qed
qed

lemma transpose_position_inj:
  assumes "s1 \<le> e1" "e1 \<le> s2" "s2 \<le> e2" "e2 < 2 ^ 63"
    "transpose_half_open_position p s1 e1 s2 e2 = transpose_half_open_position q s1 e1 s2 e2"
  shows "p = q"
  using assms(5) unfolding transpose_position_cases [OF assms(1-4)] option.inject
  using assms(1-3) by (auto split: if_splits)

end
