(* ===== verification/Text_Backend_Spec.thy ===== *)
theory Text_Backend_Spec
  imports Text_Position
begin

text \<open>
  What \<open>BufferText\<close> relies on in a physical text backend, the trait
  \<open>PhysicalTextBackend\<close> of \<open>src/crates/neovm-core/src/buffer/text/backend/contract.rs\<close>, as a
  locale over the logical text: an abstraction \<open>text\<close>, an invariant \<open>inv\<close>, and for each
  operation the list operation it refines. Every law also says that the operation returns, so
  none of the assertions of the implementation fires.

  The laws of the mutating operations ask for a measured argument: byte positions on character
  boundaries and extents that count what they claim to count. They also ask that the new bytes are
  \<open>storable\<close>: each backend says which texts it can hold (the rope refuses a character that
  would not fit into a leaf). The client lemmas are proved once
  here and hold for the gap buffer, the piece tree, the rope and the enum that dispatches to them.
\<close>

subsection \<open>Measured arguments\<close>

definition measured_range :: "bool \<Rightarrow> bytes \<Rightarrow> text_edit_range \<Rightarrow> bool" where
  "measured_range mb tx r \<longleftrightarrow>
     valid_anchor mb tx (edit_range_start_anchor r) \<and> valid_anchor mb tx (edit_range_end_anchor r)
     \<and> er_byte_start r \<le> er_byte_end r"

definition measured_text :: "bool \<Rightarrow> bytes \<Rightarrow> text_extent \<Rightarrow> bool" where
  "measured_text mb bs e \<longleftrightarrow> e = extent_from_emacs_bytes bs mb \<and> lead_ok mb bs"

lemma measured_rangeD:
  assumes "measured_range mb tx r"
  shows "is_emacs_char_boundary tx (er_byte_start r) mb" "is_emacs_char_boundary tx (er_byte_end r) mb"
    "char_offset mb tx (er_char_start r) (er_byte_start r)"
    "char_offset mb tx (er_char_end r) (er_byte_end r)"
    "er_byte_start r \<le> er_byte_end r" "er_byte_end r \<le> length tx"
  using assms boundary_le [of tx "er_byte_end r" mb]
  by (auto simp: measured_range_def edit_range_start_anchor_def edit_range_end_anchor_def
      anchor_new_def char_offset_def)

lemma measured_range_char_len:
  assumes "measured_range mb tx r"
  shows "er_char_start r + emacs_char_count_bytes (sub_list (er_byte_start r) (er_byte_end r) tx) mb
           = er_char_end r"
    "edit_range_char_len r = emacs_char_count_bytes (sub_list (er_byte_start r) (er_byte_end r) tx) mb"
proof -
  show "er_char_start r + emacs_char_count_bytes (sub_list (er_byte_start r) (er_byte_end r) tx) mb
           = er_char_end r"
    using measured_rangeD [OF assms] char_count_take_sub [of "er_byte_start r" "er_byte_end r" tx mb]
    by (simp add: char_offset_def)
  then show "edit_range_char_len r
      = emacs_char_count_bytes (sub_list (er_byte_start r) (er_byte_end r) tx) mb"
    by (simp add: edit_range_char_len_def)
qed

lemma measured_range_from_anchors:
  assumes "char_offset mb tx c a" "char_offset mb tx d b" "a \<le> b"
  shows "measured_range mb tx (edit_range_from_start_end (anchor_new c a) (anchor_new d b))"
  using assms
  by (simp add: measured_range_def edit_range_from_start_end_def edit_range_start_anchor_def
      edit_range_end_anchor_def anchor_new_def byte_range_new_def)

lemma edit_range_from_start_end_simps [simp]:
  "er_bytes (edit_range_from_start_end s e) = byte_range_new (ta_byte s) (ta_byte e)"
  "er_char_start (edit_range_from_start_end s e) = ta_char s"
  "er_char_end (edit_range_from_start_end s e) = ta_char e"
  by (simp_all add: edit_range_from_start_end_def)

lemma byte_range_new_simps [simp]:
  "br_start (byte_range_new a b) = a" "br_end (byte_range_new a b) = b"
  by (simp_all add: byte_range_new_def)

lemma anchor_new_simps [simp]:
  "ta_char (anchor_new c b) = c" "ta_byte (anchor_new c b) = b"
  by (simp_all add: anchor_new_def)

lemma extent_from_emacs_bytes_simps [simp]:
  "te_chars (extent_from_emacs_bytes bs mb) = emacs_char_count_bytes bs mb"
  "te_bytes (extent_from_emacs_bytes bs mb) = length bs"
  by (simp_all add: extent_from_emacs_bytes_def extent_new_def)

text \<open>The text after replacing a range.\<close>

definition replace_range :: "nat \<Rightarrow> nat \<Rightarrow> 'a list \<Rightarrow> 'a list \<Rightarrow> 'a list" where
  "replace_range a b ys xs = insert_at a ys (delete_range a b xs)"

lemma replace_range_alt:
  "a \<le> length xs \<Longrightarrow> replace_range a b ys xs = take a xs @ ys @ drop b xs"
  by (simp add: replace_range_def insert_at_def delete_range_def)

lemma length_replace_range:
  "a \<le> b \<Longrightarrow> b \<le> length xs \<Longrightarrow> length (replace_range a b ys xs) = length xs - (b - a) + length ys"
  by (simp add: replace_range_def)

lemma replace_range_empty [simp]: "replace_range a a ys xs = insert_at a ys xs"
  by (simp add: replace_range_def)

lemma replace_range_Nil [simp]: "replace_range a b [] xs = delete_range a b xs"
  by (simp add: replace_range_def)

lemma replace_range_undo:
  assumes "a \<le> b" "b \<le> length xs"
  shows "replace_range a (a + length ys) (sub_list a b xs) (replace_range a b ys xs) = xs"
  using assms by (simp add: replace_range_def delete_insert_cancel insert_delete_cancel)

subsection \<open>The contract\<close>

locale text_backend =
  fixes inv :: "'b \<Rightarrow> bool"
    and tx :: "'b \<Rightarrow> bytes"
    and mb :: "'b \<Rightarrow> bool"
    and insert_bytes :: "nat \<Rightarrow> bytes \<Rightarrow> text_extent \<Rightarrow> 'b \<Rightarrow> 'b option"
    and delete_bytes :: "text_edit_range \<Rightarrow> 'b \<Rightarrow> 'b option"
    and replace_bytes :: "text_replacement \<Rightarrow> bytes \<Rightarrow> 'b \<Rightarrow> 'b option"
    and byte_to_char :: "nat \<Rightarrow> 'b \<Rightarrow> (nat \<times> 'b) option"
    and char_to_byte :: "nat \<Rightarrow> 'b \<Rightarrow> (nat \<times> 'b) option"
    and copy_bytes :: "emacs_byte_range \<Rightarrow> 'b \<Rightarrow> bytes option"
    and metrics :: "'b \<Rightarrow> text_metrics option"
    and storable :: "bool \<Rightarrow> bytes \<Rightarrow> bool"
  assumes storable_lead_ok: "storable m bs \<Longrightarrow> lead_ok m bs"
    and storable_slice:
      "storable m bs \<Longrightarrow> is_emacs_char_boundary bs i m \<Longrightarrow> is_emacs_char_boundary bs j m \<Longrightarrow>
       storable m (sub_list i j bs)"
    and text_storable: "inv b \<Longrightarrow> storable (mb b) (tx b)"
    and insert_law:
      "inv b \<Longrightarrow> is_emacs_char_boundary (tx b) p (mb b) \<Longrightarrow> measured_text (mb b) bs e \<Longrightarrow>
       storable (mb b) bs \<Longrightarrow>
       \<exists>b'. insert_bytes p bs e b = Some b' \<and> inv b' \<and> mb b' = mb b \<and> tx b' = insert_at p bs (tx b)"
    and delete_law:
      "inv b \<Longrightarrow> measured_range (mb b) (tx b) r \<Longrightarrow>
       \<exists>b'. delete_bytes r b = Some b' \<and> inv b' \<and> mb b' = mb b
            \<and> tx b' = delete_range (er_byte_start r) (er_byte_end r) (tx b)"
    and replace_law:
      "inv b \<Longrightarrow> measured_range (mb b) (tx b) (tr_old rep) \<Longrightarrow> measured_text (mb b) bs (tr_new rep) \<Longrightarrow>
       storable (mb b) bs \<Longrightarrow>
       \<exists>b'. replace_bytes rep bs b = Some b' \<and> inv b' \<and> mb b' = mb b
            \<and> tx b' = replace_range (er_byte_start (tr_old rep)) (er_byte_end (tr_old rep)) bs (tx b)"
    and byte_to_char_law:
      "inv b \<Longrightarrow> is_emacs_char_boundary (tx b) k (mb b) \<Longrightarrow>
       \<exists>c b'. byte_to_char k b = Some (c, b') \<and> inv b' \<and> mb b' = mb b \<and> tx b' = tx b
              \<and> char_offset (mb b) (tx b) c k"
    and char_to_byte_law:
      "inv b \<Longrightarrow>
       \<exists>k b'. char_to_byte c b = Some (k, b') \<and> inv b' \<and> mb b' = mb b \<and> tx b' = tx b
              \<and> (if c \<le> emacs_char_count_bytes (tx b) (mb b)
                 then char_offset (mb b) (tx b) c k else k = length (tx b))"
    and copy_law:
      "inv b \<Longrightarrow> br_start rg \<le> br_end rg \<Longrightarrow> br_end rg \<le> length (tx b) \<Longrightarrow>
       copy_bytes rg b = Some (sub_list (br_start rg) (br_end rg) (tx b))"
    and metrics_law:
      "inv b \<Longrightarrow>
       metrics b = Some (metrics_from_lengths (emacs_char_count_bytes (tx b) (mb b)) (length (tx b)))"
begin

lemma text_lead_ok: "inv b \<Longrightarrow> lead_ok (mb b) (tx b)"
  by (rule storable_lead_ok [OF text_storable])

text \<open>Measuring a byte range with the backend's own conversion gives a measured range.\<close>

lemma measure_range:
  assumes "inv b" "is_emacs_char_boundary (tx b) i (mb b)" "is_emacs_char_boundary (tx b) j (mb b)" "i \<le> j"
  shows "\<exists>c d b1 b2. byte_to_char i b = Some (c, b1) \<and> byte_to_char j b1 = Some (d, b2)
           \<and> inv b2 \<and> mb b2 = mb b \<and> tx b2 = tx b
           \<and> measured_range (mb b) (tx b) (edit_range_from_start_end (anchor_new c i) (anchor_new d j))"
proof -
  obtain c b1 where 1: "byte_to_char i b = Some (c, b1)" "inv b1" "mb b1 = mb b" "tx b1 = tx b"
      "char_offset (mb b) (tx b) c i"
    using byte_to_char_law [OF assms(1,2)] by blast
  obtain d b2 where 2: "byte_to_char j b1 = Some (d, b2)" "inv b2" "mb b2 = mb b1" "tx b2 = tx b1"
      "char_offset (mb b1) (tx b1) d j"
    using byte_to_char_law [OF 1(2), of j] 1(3,4) assms(3) by auto
  then show ?thesis
    using 1 assms(4) measured_range_from_anchors [of "mb b" "tx b" c i d j] by auto
qed

text \<open>The two conversions are inverse.\<close>

lemma char_byte_char:
  assumes "inv b" "c \<le> emacs_char_count_bytes (tx b) (mb b)"
  shows "\<exists>k b1 b2. char_to_byte c b = Some (k, b1) \<and> byte_to_char k b1 = Some (c, b2)"
proof -
  obtain k b1 where 1: "char_to_byte c b = Some (k, b1)" "inv b1" "mb b1 = mb b" "tx b1 = tx b"
      "char_offset (mb b) (tx b) c k"
    using char_to_byte_law [OF assms(1), of c] assms(2) by auto
  obtain c' b2 where 2: "byte_to_char k b1 = Some (c', b2)" "char_offset (mb b) (tx b) c' k"
    using byte_to_char_law [OF 1(2), of k] 1 by (auto simp: char_offset_def)
  with 1 show ?thesis by (auto simp: char_offset_def)
qed

lemma byte_char_byte:
  assumes "inv b" "is_emacs_char_boundary (tx b) k (mb b)"
  shows "\<exists>c b1 b2. byte_to_char k b = Some (c, b1) \<and> char_to_byte c b1 = Some (k, b2)"
proof -
  obtain c b1 where 1: "byte_to_char k b = Some (c, b1)" "inv b1" "mb b1 = mb b" "tx b1 = tx b"
      "char_offset (mb b) (tx b) c k"
    using byte_to_char_law [OF assms] by blast
  have "c \<le> emacs_char_count_bytes (tx b1) (mb b1)" using 1 char_offset_le by auto
  then obtain k' b2 where 2: "char_to_byte c b1 = Some (k', b2)" "char_offset (mb b1) (tx b1) c k'"
    using char_to_byte_law [OF 1(2), of c] by auto
  then have "k' = k" using 1 char_offset_unique text_lead_ok [OF assms(1)] by auto
  with 1 2 show ?thesis by auto
qed

text \<open>Taking back an edit: the same bytes put in and out again restore the text.\<close>

lemma replace_take_back:
  assumes "inv b" "measured_range (mb b) (tx b) (tr_old rep)" "measured_text (mb b) bs (tr_new rep)"
    "storable (mb b) bs"
  shows "\<exists>b1 b2. replace_bytes rep bs b = Some b1 \<and>
     replace_bytes
       (replacement_new
          (edit_range_from_start_extent (er_byte_start (tr_old rep)) (er_char_start (tr_old rep)) (tr_new rep))
          (edit_range_extent (tr_old rep)))
       (sub_list (er_byte_start (tr_old rep)) (er_byte_end (tr_old rep)) (tx b)) b1 = Some b2
     \<and> inv b2 \<and> tx b2 = tx b"
proof -
  let ?r = "tr_old rep" and ?s = "er_byte_start (tr_old rep)" and ?e = "er_byte_end (tr_old rep)"
  let ?undone = "edit_range_from_start_extent ?s (er_char_start ?r) (tr_new rep)"
  let ?old = "sub_list ?s ?e (tx b)"
  note m = measured_rangeD [OF assms(2)] and lok = text_lead_ok [OF assms(1)]
  have bs: "te_bytes (tr_new rep) = length bs" "te_chars (tr_new rep) = emacs_char_count_bytes bs (mb b)"
    "lead_ok (mb b) bs"
    using assms(3) by (auto simp: measured_text_def)
  obtain b1 where b1: "replace_bytes rep bs b = Some b1" "inv b1" "mb b1 = mb b"
      "tx b1 = replace_range ?s ?e bs (tx b)"
    using replace_law [OF assms] by blast
  have st: "char_offset (mb b) (tx b1) (er_char_start ?r) ?s"
    unfolding b1 replace_range_def using m lok bs
    by (intro char_offset_insert_before boundary_delete_before lead_ok_delete char_offset_delete_before) auto
  have "char_offset (mb b) (delete_range ?s ?e (tx b)) (er_char_start ?r) ?s"
    using m lok by (intro char_offset_delete_before) auto
  then have en: "char_offset (mb b) (tx b1) (er_char_start ?r + emacs_char_count_bytes bs (mb b)) (?s + length bs)"
    unfolding b1 replace_range_def using m lok
    by (intro char_offset_insert_after boundary_delete_before lead_ok_delete) auto
  have mr: "measured_range (mb b1) (tx b1) ?undone"
    using st en bs b1
    by (simp add: measured_range_def edit_range_from_start_extent_def byte_range_from_start_len_def
        add_len_def edit_range_start_anchor_def edit_range_end_anchor_def)
  have "lead_ok (mb b) ?old"
    using boundary_drop_lead_ok [OF m(1) lok] by (simp add: sub_list_def)
  then have mt: "measured_text (mb b1) ?old (edit_range_extent ?r)"
    using measured_range_char_len(2) [OF assms(2)] m b1
    by (simp add: measured_text_def edit_range_extent_def extent_from_emacs_bytes_def
        edit_range_byte_len_def byte_range_len_def)
  obtain b2 where b2: "replace_bytes (replacement_new ?undone (edit_range_extent ?r)) ?old b1 = Some b2"
      "inv b2" "tx b2 = replace_range (er_byte_start ?undone) (er_byte_end ?undone) ?old (tx b1)"
    using replace_law [OF b1(2), of "replacement_new ?undone (edit_range_extent ?r)" ?old] mr mt
      storable_slice [OF text_storable [OF assms(1)] m(1,2)] b1(3)
    by (auto simp: replacement_new_def)
  have "tx b2 = tx b"
    using b2(3) b1(4) bs m replace_range_undo [of ?s ?e "tx b" bs]
    by (simp add: edit_range_from_start_extent_def byte_range_from_start_len_def add_len_def)
  with b1 b2 show ?thesis by blast
qed

end

end
