(* ===== verification/Gap_Buffer.thy ===== *)
theory Gap_Buffer
  imports Text_Backend_Spec
begin

text \<open>
  The gap buffer, \<open>src/crates/neovm-core/src/buffer/gap_buffer.rs\<close>, and its wrapper
  \<open>buffer/text/backend/gap.rs\<close>: the storage of every ordinary buffer.

  The record holds the ten fields of the struct. Queries that update the anchor ring through a
  \<open>Cell\<close> return the updated buffer beside their result. Every assertion, debug assertion,
  slice bound and subtraction of the source is a check whose failure is \<open>None\<close>.
\<close>

subsection \<open>State\<close>

definition GAP_BYTES_DFL :: nat where "GAP_BYTES_DFL = 2000"
definition GAP_BYTES_MIN :: nat where "GAP_BYTES_MIN = 20"
definition POSITION_ANCHOR_RING :: nat where "POSITION_ANCHOR_RING = 4"

record gap_buffer =
  gb_buf :: bytes
  gb_multibyte :: bool
  gb_gap_start :: nat
  gb_gap_end :: nat
  gb_gap_start_chars :: nat
  gb_total_chars :: nat
  gb_gap_start_bytes :: nat
  gb_total_bytes :: nat
  gb_anchors :: "text_position_anchor list"
  gb_anchor_next :: nat

definition gb_new_with_multibyte :: "bool \<Rightarrow> gap_buffer" where
  "gb_new_with_multibyte multibyte =
     \<lparr>gb_buf = replicate GAP_BYTES_MIN 0, gb_multibyte = multibyte,
      gb_gap_start = 0, gb_gap_end = GAP_BYTES_MIN,
      gb_gap_start_chars = 0, gb_total_chars = 0, gb_gap_start_bytes = 0, gb_total_bytes = 0,
      gb_anchors = replicate POSITION_ANCHOR_RING anchor_zero, gb_anchor_next = 0\<rparr>"

definition gb_new :: gap_buffer where
  "gb_new = gb_new_with_multibyte True"

definition gb_from_emacs_bytes :: "bytes \<Rightarrow> bool \<Rightarrow> gap_buffer" where
  "gb_from_emacs_bytes tx multibyte =
     (let gap = GAP_BYTES_DFL;
          char_count = emacs_char_count_bytes tx multibyte;
          byte_count = length tx
      in \<lparr>gb_buf = resize_vec tx (length tx + gap) 0, gb_multibyte = multibyte,
          gb_gap_start = length tx, gb_gap_end = length tx + gap,
          gb_gap_start_chars = char_count, gb_total_chars = char_count,
          gb_gap_start_bytes = byte_count, gb_total_bytes = byte_count,
          gb_anchors = replicate POSITION_ANCHOR_RING anchor_zero, gb_anchor_next = 0\<rparr>)"

definition gb_from_emacs_bytes_with_gap_compat_state ::
    "bytes \<Rightarrow> bool \<Rightarrow> gap_compat_state \<Rightarrow> gap_buffer option" where
  "gb_from_emacs_bytes_with_gap_compat_state tx multibyte gap_state = do {
     let total_chars = emacs_char_count_bytes tx multibyte;
     let gap_start_chars = gc_pos gap_state;
     panic_unless (gap_start_chars \<le> total_chars);
     let gap_start_bytes = emacs_char_to_byte_in_slice tx gap_start_chars multibyte;
     let gap = gc_byte_len gap_state;
     pre \<leftarrow> slice tx 0 gap_start_bytes;
     post \<leftarrow> slice tx gap_start_bytes (length tx);
     Some \<lparr>gb_buf = resize_vec pre (gap_start_bytes + gap) 0 @ post, gb_multibyte = multibyte,
           gb_gap_start = gap_start_bytes, gb_gap_end = gap_start_bytes + gap,
           gb_gap_start_chars = gap_start_chars, gb_total_chars = total_chars,
           gb_gap_start_bytes = gap_start_bytes, gb_total_bytes = length tx,
           gb_anchors = replicate POSITION_ANCHOR_RING anchor_zero, gb_anchor_next = 0\<rparr>
   }"

definition gb_from_dump :: "bytes \<Rightarrow> bool \<Rightarrow> gap_buffer" where
  "gb_from_dump tx multibyte =
     (let len = length tx;
          char_count = emacs_char_count_bytes tx multibyte
      in \<lparr>gb_buf = tx, gb_multibyte = multibyte, gb_gap_start = len, gb_gap_end = len,
          gb_gap_start_chars = char_count, gb_total_chars = char_count,
          gb_gap_start_bytes = len, gb_total_bytes = len,
          gb_anchors = replicate POSITION_ANCHOR_RING anchor_zero, gb_anchor_next = 0\<rparr>)"

subsection \<open>Queries\<close>

definition gb_gap_size :: "gap_buffer \<Rightarrow> nat option" where
  "gb_gap_size g = chk_sub (gb_gap_end g) (gb_gap_start g)"

definition gb_len :: "gap_buffer \<Rightarrow> nat option" where
  "gb_len g = do { gap \<leftarrow> gb_gap_size g; chk_sub (length (gb_buf g)) gap }"

definition gb_byte_at :: "nat \<Rightarrow> gap_buffer \<Rightarrow> u8 option" where
  "gb_byte_at pos g = do {
     len \<leftarrow> gb_len g;
     panic_unless (pos < len);
     if pos < gb_gap_start g then index_at (gb_buf g) pos
     else do { gap \<leftarrow> gb_gap_size g; index_at (gb_buf g) (pos + gap) }
   }"

definition gb_emacs_byte_at :: "nat \<Rightarrow> gap_buffer \<Rightarrow> u8 option option" where
  "gb_emacs_byte_at pos g =
     (if pos < gb_total_bytes g then map_option Some (gb_byte_at pos g) else Some None)"

definition gb_is_char_boundary :: "nat \<Rightarrow> gap_buffer \<Rightarrow> bool option" where
  "gb_is_char_boundary pos g = do {
     len \<leftarrow> gb_len g;
     if \<not> gb_multibyte g \<or> pos = 0 \<or> len \<le> pos then Some True
     else do { b \<leftarrow> gb_byte_at pos g; Some (char_head_p b) }
   }"

definition gb_char_code_at :: "nat \<Rightarrow> gap_buffer \<Rightarrow> u32 option option" where
  "gb_char_code_at pos g = do {
     len \<leftarrow> gb_len g;
     if len \<le> pos then Some None
     else do {
       boundary \<leftarrow> gb_is_char_boundary pos g;
       panic_unless boundary;
       if \<not> gb_multibyte g then do { b \<leftarrow> gb_byte_at pos g; Some (Some (ucast b)) }
       else do {
         gap \<leftarrow> gb_gap_size g;
         let (phys_start, phys_end) =
           (if pos < gb_gap_start g then (pos, gb_gap_start g) else (pos + gap, length (gb_buf g)));
         seg \<leftarrow> slice (gb_buf g) phys_start phys_end;
         (c, _) \<leftarrow> string_char seg;
         Some (Some c)
       }
     }
   }"

text \<open>The contiguous windows return the bytes of the window where the source returns a pointer.\<close>

definition gb_contiguous_window_at :: "nat \<Rightarrow> gap_buffer \<Rightarrow> (nat \<times> bytes) option option" where
  "gb_contiguous_window_at pos g = do {
     len \<leftarrow> gb_len g;
     if len \<le> pos then Some None
     else if pos < gb_gap_start g then do {
       w \<leftarrow> slice (gb_buf g) 0 (gb_gap_start g);
       Some (Some (0, w))
     }
     else do {
       n \<leftarrow> chk_sub len (gb_gap_start g);
       w \<leftarrow> slice (gb_buf g) (gb_gap_end g) (gb_gap_end g + n);
       Some (Some (gb_gap_start g, w))
     }
   }"

definition gb_contiguous_window_before :: "nat \<Rightarrow> gap_buffer \<Rightarrow> (nat \<times> bytes) option option" where
  "gb_contiguous_window_before e g = do {
     len \<leftarrow> gb_len g;
     if e = 0 \<or> len < e then Some None
     else if e \<le> gb_gap_start g then do {
       w \<leftarrow> slice (gb_buf g) 0 e;
       Some (Some (0, w))
     }
     else do {
       phys_end \<leftarrow> chk_sub (gb_gap_end g + e) (gb_gap_start g);
       w \<leftarrow> slice (gb_buf g) (gb_gap_end g) phys_end;
       Some (Some (gb_gap_start g, w))
     }
   }"

definition gb_copy_emacs_byte_range_to :: "emacs_byte_range \<Rightarrow> gap_buffer \<Rightarrow> bytes option" where
  "gb_copy_emacs_byte_range_to r g = do {
     let s = br_start r;
     let e = br_end r;
     panic_unless (s \<le> e);
     panic_unless (e \<le> gb_total_bytes g);
     if s = e then Some []
     else do {
       pre \<leftarrow> (if s < gb_gap_start g
               then slice (gb_buf g) s (min e (gb_gap_start g)) else Some []);
       post \<leftarrow> (if gb_gap_start g < e then do {
                  gap \<leftarrow> gb_gap_size g;
                  slice (gb_buf g) (max s (gb_gap_start g) + gap) (e + gap)
                } else Some []);
       Some (pre @ post)
     }
   }"

text \<open>
  \<open>for_each_emacs_byte_range_chunk\<close> hands the pieces of a range to a callback in order; the
  model returns the pieces.
\<close>

definition gb_byte_range_chunks :: "emacs_byte_range \<Rightarrow> gap_buffer \<Rightarrow> bytes list option" where
  "gb_byte_range_chunks r g = do {
     let s = br_start r;
     let e = br_end r;
     panic_unless (s \<le> e);
     panic_unless (e \<le> gb_total_bytes g);
     if s = e then Some []
     else if e \<le> gb_gap_start_bytes g then map_option (\<lambda>c. [c]) (slice (gb_buf g) s e)
     else if gb_gap_start_bytes g \<le> s then do {
       gap \<leftarrow> gb_gap_size g;
       map_option (\<lambda>c. [c]) (slice (gb_buf g) (s + gap) (e + gap))
     }
     else do {
       c1 \<leftarrow> slice (gb_buf g) s (gb_gap_start g);
       gap \<leftarrow> gb_gap_size g;
       c2 \<leftarrow> slice (gb_buf g) (gb_gap_start g + gap) (e + gap);
       Some [c1, c2]
     }
   }"

definition gb_has_contiguous_emacs_byte_range :: "emacs_byte_range \<Rightarrow> gap_buffer \<Rightarrow> bool option" where
  "gb_has_contiguous_emacs_byte_range r g = do {
     let s = br_start r;
     let e = br_end r;
     panic_unless (s \<le> e);
     panic_unless (e \<le> gb_total_bytes g);
     Some (s = e \<or> e \<le> gb_gap_start_bytes g \<or> gb_gap_start_bytes g \<le> s)
   }"

definition gb_with_contiguous_emacs_byte_range ::
    "emacs_byte_range \<Rightarrow> gap_buffer \<Rightarrow> bytes option option" where
  "gb_with_contiguous_emacs_byte_range r g = do {
     let s = br_start r;
     let e = br_end r;
     panic_unless (s \<le> e);
     panic_unless (e \<le> gb_total_bytes g);
     if s = e then Some (Some [])
     else if e \<le> gb_gap_start_bytes g then map_option Some (slice (gb_buf g) s e)
     else if gb_gap_start_bytes g \<le> s then do {
       gap \<leftarrow> gb_gap_size g;
       map_option Some (slice (gb_buf g) (s + gap) (e + gap))
     }
     else Some None
   }"

definition gb_dump_text :: "gap_buffer \<Rightarrow> bytes option" where
  "gb_dump_text g = do {
     pre \<leftarrow> slice (gb_buf g) 0 (gb_gap_start g);
     post \<leftarrow> slice (gb_buf g) (gb_gap_end g) (length (gb_buf g));
     Some (pre @ post)
   }"

definition gb_metrics :: "gap_buffer \<Rightarrow> text_metrics option" where
  "gb_metrics g = do { len \<leftarrow> gb_len g; Some (metrics_from_lengths (gb_total_chars g) len) }"

definition gb_storage_position_hint :: "gap_buffer \<Rightarrow> text_position_hint" where
  "gb_storage_position_hint g = Some (anchor_new (gb_gap_start_chars g) (gb_gap_start_bytes g))"

definition gb_real_gap_compat_state :: "gap_buffer \<Rightarrow> gap_compat_state option" where
  "gb_real_gap_compat_state g = do {
     gap \<leftarrow> gb_gap_size g;
     Some \<lparr>gc_pos = gb_gap_start_chars g, gc_byte_len = gap\<rparr>
   }"

subsection \<open>The anchor ring\<close>

definition gb_reset_position_anchors :: "gap_buffer \<Rightarrow> gap_buffer" where
  "gb_reset_position_anchors g =
     g\<lparr>gb_anchors := replicate POSITION_ANCHOR_RING anchor_zero, gb_anchor_next := 0\<rparr>"

definition gb_remember_position_anchor :: "text_position_anchor \<Rightarrow> gap_buffer \<Rightarrow> gap_buffer option" where
  "gb_remember_position_anchor a g = do {
     let slot = gb_anchor_next g;
     panic_unless (slot < length (gb_anchors g));
     Some (g\<lparr>gb_anchors := (gb_anchors g)[slot := a],
             gb_anchor_next := (slot + 1) mod POSITION_ANCHOR_RING\<rparr>)
   }"

definition gb_valid_position_anchors :: "gap_buffer \<Rightarrow> text_position_anchor list" where
  "gb_valid_position_anchors g =
     filter (\<lambda>a. ta_byte a \<le> gb_total_bytes g \<and> ta_char a \<le> gb_total_chars g) (gb_anchors g)"

definition gb_adjust_position_anchors_for_insert ::
    "nat \<Rightarrow> nat \<Rightarrow> nat \<Rightarrow> gap_buffer \<Rightarrow> gap_buffer" where
  "gb_adjust_position_anchors_for_insert pos nbytes nchars g =
     g\<lparr>gb_anchors := map (\<lambda>a. if pos < ta_byte a
                              then anchor_new (ta_char a + nchars) (ta_byte a + nbytes) else a)
                        (gb_anchors g)\<rparr>"

definition adjust_anchor_for_delete ::
    "nat \<Rightarrow> nat \<Rightarrow> nat \<Rightarrow> nat \<Rightarrow> text_position_anchor \<Rightarrow> text_position_anchor option" where
  "adjust_anchor_for_delete s e nbytes nchars a =
     (if ta_byte a \<le> s then Some a
      else if e \<le> ta_byte a then do {
        c \<leftarrow> chk_sub (ta_char a) nchars;
        b \<leftarrow> chk_sub (ta_byte a) nbytes;
        Some (anchor_new c b)
      }
      else Some anchor_zero)"

definition gb_adjust_position_anchors_for_delete ::
    "nat \<Rightarrow> nat \<Rightarrow> nat \<Rightarrow> nat \<Rightarrow> gap_buffer \<Rightarrow> gap_buffer option" where
  "gb_adjust_position_anchors_for_delete s e nbytes nchars g = do {
     ring \<leftarrow> those (map (adjust_anchor_for_delete s e nbytes nchars) (gb_anchors g));
     Some (g\<lparr>gb_anchors := ring\<rparr>)
   }"

subsection \<open>Position conversion\<close>

definition gb_count_chars_in_logical_byte_range :: "nat \<Rightarrow> nat \<Rightarrow> gap_buffer \<Rightarrow> nat option" where
  "gb_count_chars_in_logical_byte_range lo hi g = do {
     panic_unless (lo \<le> hi \<and> hi \<le> gb_total_bytes g);
     pre \<leftarrow> (if lo < gb_gap_start_bytes g then do {
               s \<leftarrow> slice (gb_buf g) lo (min hi (gb_gap_start_bytes g));
               Some (emacs_char_count_bytes s (gb_multibyte g))
             } else Some 0);
     post \<leftarrow> (if gb_gap_start_bytes g < hi then do {
                let post_lo = max lo (gb_gap_start_bytes g);
                dlo \<leftarrow> chk_sub post_lo (gb_gap_start_bytes g);
                dhi \<leftarrow> chk_sub hi (gb_gap_start_bytes g);
                s \<leftarrow> slice (gb_buf g) (gb_gap_end g + dlo) (gb_gap_end g + dhi);
                Some (emacs_char_count_bytes s (gb_multibyte g))
              } else Some 0);
     Some (pre + post)
   }"

definition gb_char_pos_from_byte_anchors ::
    "nat \<Rightarrow> text_position_anchor list \<Rightarrow> gap_buffer \<Rightarrow> nat option" where
  "gb_char_pos_from_byte_anchors target extra g = do {
     let bounds = fold (consider_byte_anchor target)
           (anchor_new (gb_gap_start_chars g) (gb_gap_start_bytes g) # extra)
           (bounds_new (anchor_new (gb_total_chars g) (gb_total_bytes g)));
     let below_byte = ta_byte (tb_below bounds);
     let above_byte = ta_byte (tb_above bounds);
     let below_char = ta_char (tb_below bounds);
     let above_char = ta_char (tb_above bounds);
     span_bytes \<leftarrow> chk_sub above_byte below_byte;
     span_chars \<leftarrow> chk_sub above_char below_char;
     if span_bytes = span_chars then do {
       d \<leftarrow> chk_sub target below_byte;
       Some (below_char + d)
     }
     else do {
       dbelow \<leftarrow> chk_sub target below_byte;
       dabove \<leftarrow> chk_sub above_byte target;
       if dbelow \<le> dabove then do {
         n \<leftarrow> gb_count_chars_in_logical_byte_range below_byte target g;
         Some (below_char + n)
       }
       else do {
         n \<leftarrow> gb_count_chars_in_logical_byte_range target above_byte g;
         chk_sub above_char n
       }
     }
   }"

definition gb_emacs_byte_pos_to_char_pos :: "nat \<Rightarrow> gap_buffer \<Rightarrow> (nat \<times> gap_buffer) option" where
  "gb_emacs_byte_pos_to_char_pos byte_pos g = do {
     len \<leftarrow> gb_len g;
     panic_unless (byte_pos \<le> len);
     if gb_total_chars g = gb_total_bytes g then Some (byte_pos, g)
     else do {
       result \<leftarrow> gb_char_pos_from_byte_anchors byte_pos (gb_valid_position_anchors g) g;
       structural \<leftarrow> gb_char_pos_from_byte_anchors byte_pos [] g;
       panic_unless (result = structural);
       g \<leftarrow> gb_remember_position_anchor (anchor_new result byte_pos) g;
       Some (result, g)
     }
   }"

definition gb_bytes_for_n_chars_before_logical_byte :: "nat \<Rightarrow> nat \<Rightarrow> gap_buffer \<Rightarrow> nat option" where
  "gb_bytes_for_n_chars_before_logical_byte end_byte nchars g =
     (if nchars = 0 then Some 0
      else do {
        found \<leftarrow> (if gb_gap_start_bytes g < end_byte then do {
                    d \<leftarrow> chk_sub end_byte (gb_gap_start_bytes g);
                    s \<leftarrow> slice (gb_buf g) (gb_gap_end g) (gb_gap_end g + d);
                    case nth_lead_from_end s nchars (gb_multibyte g) of
                      Some off \<Rightarrow> do { n \<leftarrow> chk_sub (length s) off; Some (Inl n) }
                    | None \<Rightarrow> do {
                        r \<leftarrow> chk_sub nchars (emacs_char_count_bytes s (gb_multibyte g));
                        Some (Inr (r, length s))
                      }
                  } else Some (Inr (nchars, 0)));
        case found of
          Inl n \<Rightarrow> Some n
        | Inr (remaining, consumed) \<Rightarrow> do {
            s \<leftarrow> slice (gb_buf g) 0 (min end_byte (gb_gap_start_bytes g));
            case nth_lead_from_end s remaining (gb_multibyte g) of
              Some off \<Rightarrow> do { n \<leftarrow> chk_sub (length s) off; Some (consumed + n) }
            | None \<Rightarrow> Some (consumed + length s)
          }
      })"

definition gb_bytes_for_n_chars_from_logical_byte :: "nat \<Rightarrow> nat \<Rightarrow> gap_buffer \<Rightarrow> nat option" where
  "gb_bytes_for_n_chars_from_logical_byte start_byte nchars g =
     (if nchars = 0 then Some 0
      else do {
        found \<leftarrow> (if start_byte < gb_gap_start_bytes g then do {
                    s \<leftarrow> slice (gb_buf g) start_byte (gb_gap_start g);
                    let avail = emacs_char_count_bytes s (gb_multibyte g);
                    if nchars \<le> avail
                    then Some (Inl (emacs_char_to_byte_in_slice s nchars (gb_multibyte g)))
                    else Some (Inr (nchars - avail, length s))
                  } else Some (Inr (nchars, 0)));
        case found of
          Inl n \<Rightarrow> Some n
        | Inr (remaining, consumed) \<Rightarrow> do {
            post_phys \<leftarrow> (if gb_gap_start_bytes g \<le> start_byte then do {
                             d \<leftarrow> chk_sub start_byte (gb_gap_start_bytes g);
                             Some (gb_gap_end g + d)
                           } else Some (gb_gap_end g));
            s \<leftarrow> slice (gb_buf g) post_phys (length (gb_buf g));
            Some (consumed + emacs_char_to_byte_in_slice s remaining (gb_multibyte g))
          }
      })"

definition gb_byte_pos_from_char_anchors ::
    "nat \<Rightarrow> text_position_anchor list \<Rightarrow> gap_buffer \<Rightarrow> nat option" where
  "gb_byte_pos_from_char_anchors target extra g = do {
     let bounds = fold (consider_char_anchor target)
           (anchor_new (gb_gap_start_chars g) (gb_gap_start_bytes g) # extra)
           (bounds_new (anchor_new (gb_total_chars g) (gb_total_bytes g)));
     let below_byte = ta_byte (tb_below bounds);
     let below_char = ta_char (tb_below bounds);
     let above_byte = ta_byte (tb_above bounds);
     let above_char = ta_char (tb_above bounds);
     span_bytes \<leftarrow> chk_sub above_byte below_byte;
     span_chars \<leftarrow> chk_sub above_char below_char;
     if span_bytes = span_chars then do {
       d \<leftarrow> chk_sub target below_char;
       Some (below_byte + d)
     }
     else do {
       dbelow \<leftarrow> chk_sub target below_char;
       dabove \<leftarrow> chk_sub above_char target;
       if dbelow \<le> dabove then do {
         n \<leftarrow> gb_bytes_for_n_chars_from_logical_byte below_byte dbelow g;
         Some (below_byte + n)
       }
       else do {
         n \<leftarrow> gb_bytes_for_n_chars_before_logical_byte above_byte dabove g;
         chk_sub above_byte n
       }
     }
   }"

definition gb_char_pos_to_emacs_byte_pos :: "nat \<Rightarrow> gap_buffer \<Rightarrow> (nat \<times> gap_buffer) option" where
  "gb_char_pos_to_emacs_byte_pos char_pos g =
     (if char_pos = 0 then Some (0, g)
      else if gb_total_chars g < char_pos then Some (gb_total_bytes g, g)
      else if gb_total_chars g = gb_total_bytes g then Some (char_pos, g)
      else do {
        result \<leftarrow> gb_byte_pos_from_char_anchors char_pos (gb_valid_position_anchors g) g;
        structural \<leftarrow> gb_byte_pos_from_char_anchors char_pos [] g;
        panic_unless (result = structural);
        g \<leftarrow> gb_remember_position_anchor (anchor_new char_pos result) g;
        Some (result, g)
      })"

subsection \<open>Gap management\<close>

definition gb_move_gap_both :: "nat \<Rightarrow> nat \<Rightarrow> gap_buffer \<Rightarrow> gap_buffer option" where
  "gb_move_gap_both bytepos charpos g = do {
     len \<leftarrow> gb_len g;
     panic_unless (bytepos \<le> len);
     if bytepos = gb_gap_start g then Some g
     else do {
       gap \<leftarrow> gb_gap_size g;
       buf \<leftarrow> (if bytepos < gb_gap_start g then do {
                 n \<leftarrow> chk_sub (gb_gap_start g) bytepos;
                 copy_within (gb_buf g) bytepos (bytepos + n) (bytepos + gap)
               }
               else do {
                 n \<leftarrow> chk_sub bytepos (gb_gap_start g);
                 copy_within (gb_buf g) (gb_gap_end g) (gb_gap_end g + n) (gb_gap_start g)
               });
       Some (g\<lparr>gb_buf := buf, gb_gap_start := bytepos, gb_gap_end := bytepos + gap,
               gb_gap_start_chars := charpos, gb_gap_start_bytes := bytepos\<rparr>)
     }
   }"

definition gb_move_gap_to :: "nat \<Rightarrow> gap_buffer \<Rightarrow> gap_buffer option" where
  "gb_move_gap_to pos g = do {
     len \<leftarrow> gb_len g;
     panic_unless (pos \<le> len);
     if pos = gb_gap_start g then Some g
     else do {
       (charpos, g) \<leftarrow> gb_emacs_byte_pos_to_char_pos pos g;
       gb_move_gap_both pos charpos g
     }
   }"

definition gb_ensure_gap :: "nat \<Rightarrow> gap_buffer \<Rightarrow> gap_buffer option" where
  "gb_ensure_gap min_size g = do {
     gap \<leftarrow> gb_gap_size g;
     if min_size \<le> gap then Some g
     else do {
       need \<leftarrow> chk_sub min_size gap;
       let grow = need + GAP_BYTES_DFL;
       let old_gap_end = gb_gap_end g;
       after_gap_len \<leftarrow> chk_sub (length (gb_buf g)) old_gap_end;
       let buf = resize_vec (gb_buf g) (length (gb_buf g) + grow) 0;
       buf \<leftarrow> (if 0 < after_gap_len
               then copy_within buf old_gap_end (old_gap_end + after_gap_len) (old_gap_end + grow)
               else Some buf);
       Some (g\<lparr>gb_buf := buf, gb_gap_end := old_gap_end + grow\<rparr>)
     }
   }"

definition gb_make_emacs_byte_range_contiguous :: "emacs_byte_range \<Rightarrow> gap_buffer \<Rightarrow> gap_buffer option" where
  "gb_make_emacs_byte_range_contiguous r g = do {
     contiguous \<leftarrow> gb_has_contiguous_emacs_byte_range r g;
     if contiguous then Some g
     else do {
       dbelow \<leftarrow> chk_sub (gb_gap_start g) (br_start r);
       dabove \<leftarrow> chk_sub (br_end r) (gb_gap_start g);
       if dbelow \<le> dabove then gb_move_gap_to (br_start r) g else gb_move_gap_to (br_end r) g
     }
   }"

subsection \<open>Mutation\<close>

definition gb_insert_measured_emacs_bytes ::
    "nat \<Rightarrow> bytes \<Rightarrow> text_extent \<Rightarrow> gap_buffer \<Rightarrow> gap_buffer option" where
  "gb_insert_measured_emacs_bytes pos bs extent g = do {
     len \<leftarrow> gb_len g;
     panic_unless (pos \<le> len);
     if bs = [] then Some g
     else do {
       boundary \<leftarrow> gb_is_char_boundary pos g;
       panic_unless (pos = len \<or> boundary);
       panic_unless (te_bytes extent = length bs);
       panic_unless (te_chars extent = emacs_char_count_bytes bs (gb_multibyte g));
       let inserted_bytes = length bs;
       let nchars = te_chars extent;
       g \<leftarrow> gb_move_gap_to pos g;
       g \<leftarrow> gb_ensure_gap inserted_bytes g;
       buf \<leftarrow> copy_from_slice (gb_buf g) (gb_gap_start g) (gb_gap_start g + inserted_bytes) bs;
       Some (gb_adjust_position_anchors_for_insert pos inserted_bytes nchars
         (g\<lparr>gb_buf := buf,
            gb_gap_start := gb_gap_start g + inserted_bytes,
            gb_gap_start_chars := gb_gap_start_chars g + nchars,
            gb_total_chars := gb_total_chars g + nchars,
            gb_gap_start_bytes := gb_gap_start_bytes g + inserted_bytes,
            gb_total_bytes := gb_total_bytes g + inserted_bytes\<rparr>))
     }
   }"

definition gb_insert_emacs_bytes :: "nat \<Rightarrow> bytes \<Rightarrow> gap_buffer \<Rightarrow> gap_buffer option" where
  "gb_insert_emacs_bytes pos bs g =
     (if bs = [] then Some g
      else gb_insert_measured_emacs_bytes pos bs (extent_from_emacs_bytes bs (gb_multibyte g)) g)"

definition gb_delete_measured_range :: "text_edit_range \<Rightarrow> gap_buffer \<Rightarrow> gap_buffer option" where
  "gb_delete_measured_range r g = do {
     let s = er_byte_start r;
     let e = er_byte_end r;
     let nchars = edit_range_char_len r;
     panic_unless (s \<le> e);
     len \<leftarrow> gb_len g;
     panic_unless (e \<le> len);
     if s = e then Some g
     else do {
       s_boundary \<leftarrow> gb_is_char_boundary s g;
       panic_unless s_boundary;
       e_boundary \<leftarrow> gb_is_char_boundary e g;
       panic_unless (e = len \<or> e_boundary);
       (e_char, g) \<leftarrow> gb_emacs_byte_pos_to_char_pos e g;
       (s_char, g) \<leftarrow> gb_emacs_byte_pos_to_char_pos s g;
       actual \<leftarrow> chk_sub e_char s_char;
       panic_unless (nchars = actual);
       g \<leftarrow> gb_move_gap_both s (er_char_start r) g;
       let deleted_bytes = e - s;
       total_chars \<leftarrow> chk_sub (gb_total_chars g) nchars;
       total_bytes \<leftarrow> chk_sub (gb_total_bytes g) deleted_bytes;
       gb_adjust_position_anchors_for_delete s e deleted_bytes nchars
         (g\<lparr>gb_gap_end := gb_gap_end g + deleted_bytes,
            gb_total_chars := total_chars, gb_total_bytes := total_bytes\<rparr>)
     }
   }"

definition gb_delete_emacs_byte_range_with_char_len ::
    "emacs_byte_range \<Rightarrow> char_len \<Rightarrow> gap_buffer \<Rightarrow> gap_buffer option" where
  "gb_delete_emacs_byte_range_with_char_len r nchars g = do {
     (start_char, g) \<leftarrow> gb_emacs_byte_pos_to_char_pos (br_start r) g;
     gb_delete_measured_range
       (edit_range_from_start_extent (br_start r) start_char (extent_new nchars (byte_range_len r))) g
   }"

definition gb_delete_emacs_byte_range :: "emacs_byte_range \<Rightarrow> gap_buffer \<Rightarrow> gap_buffer option" where
  "gb_delete_emacs_byte_range r g = do {
     panic_unless (br_start r \<le> br_end r);
     len \<leftarrow> gb_len g;
     panic_unless (br_end r \<le> len);
     if br_start r = br_end r then Some g
     else do {
       tmp \<leftarrow> gb_copy_emacs_byte_range_to r g;
       gb_delete_emacs_byte_range_with_char_len r (emacs_char_count_bytes tmp (gb_multibyte g)) g
     }
   }"

definition gb_replace_measured_range :: "text_replacement \<Rightarrow> bytes \<Rightarrow> gap_buffer \<Rightarrow> gap_buffer option" where
  "gb_replace_measured_range rep bs g =
     (let old_range = tr_old rep in
      if edit_range_is_empty old_range
      then gb_insert_measured_emacs_bytes (er_byte_start old_range) bs (tr_new rep) g
      else if bs = [] then gb_delete_measured_range old_range g
      else do {
        g \<leftarrow> gb_delete_measured_range old_range g;
        gb_insert_measured_emacs_bytes (er_byte_start old_range) bs (tr_new rep) g
      })"

definition saturating_add_signed :: "nat \<Rightarrow> int \<Rightarrow> nat" where
  "saturating_add_signed n d = nat (int n + d)"

definition gb_replace_same_len_measured_range ::
    "text_replacement \<Rightarrow> bytes \<Rightarrow> gap_buffer \<Rightarrow> gap_buffer option" where
  "gb_replace_same_len_measured_range rep bs g = do {
     let s = er_byte_start (tr_old rep);
     let e = er_byte_end (tr_old rep);
     panic_unless (s \<le> e);
     len \<leftarrow> gb_len g;
     panic_unless (e \<le> len);
     panic_unless (length bs = e - s);
     panic_unless (te_bytes (tr_new rep) = length bs);
     if s = e then Some g
     else do {
       s_boundary \<leftarrow> gb_is_char_boundary s g;
       panic_unless s_boundary;
       e_boundary \<leftarrow> gb_is_char_boundary e g;
       panic_unless (e = len \<or> e_boundary);
       let before_gap_len =
         (if s < gb_gap_start_bytes g then min e (gb_gap_start_bytes g) - s else 0);
       let after_gap_len =
         (if gb_gap_start_bytes g < e then e - max s (gb_gap_start_bytes g) else 0);
       gap \<leftarrow> gb_gap_size g;
       let phys_start = max s (gb_gap_start_bytes g) + gap;
       old_before \<leftarrow> (if before_gap_len = 0 then Some 0 else do {
                        sl \<leftarrow> slice (gb_buf g) s (s + before_gap_len);
                        Some (emacs_char_count_bytes sl (gb_multibyte g))
                      });
       old_after \<leftarrow> (if after_gap_len = 0 then Some 0 else do {
                       sl \<leftarrow> slice (gb_buf g) phys_start (phys_start + after_gap_len);
                       Some (emacs_char_count_bytes sl (gb_multibyte g))
                     });
       panic_unless (te_chars (tr_new rep) = emacs_char_count_bytes bs (gb_multibyte g));
       panic_unless (edit_range_char_len (tr_old rep) = old_before + old_after);
       buf \<leftarrow> (if before_gap_len \<noteq> 0 then do {
                 src \<leftarrow> slice bs 0 before_gap_len;
                 copy_from_slice (gb_buf g) s (s + before_gap_len) src
               } else Some (gb_buf g));
       buf \<leftarrow> (if after_gap_len \<noteq> 0 then do {
                 src \<leftarrow> slice bs before_gap_len (before_gap_len + after_gap_len);
                 copy_from_slice buf phys_start (phys_start + after_gap_len) src
               } else Some buf);
       let old_chars = edit_range_char_len (tr_old rep);
       let new_chars = te_chars (tr_new rep);
       new_prefix \<leftarrow> slice bs 0 before_gap_len;
       let new_before = emacs_char_count_bytes new_prefix (gb_multibyte g);
       let gap_start_chars =
         (if old_before \<noteq> new_before
          then saturating_add_signed (gb_gap_start_chars g) (int new_before - int old_before)
          else gb_gap_start_chars g);
       let total_chars =
         (if old_chars \<noteq> new_chars
          then saturating_add_signed (gb_total_chars g) (int new_chars - int old_chars)
          else gb_total_chars g);
       Some (gb_reset_position_anchors
         (g\<lparr>gb_buf := buf, gb_gap_start_chars := gap_start_chars, gb_total_chars := total_chars\<rparr>))
     }
   }"

definition gb_replace_same_len_emacs_byte_range ::
    "emacs_byte_range \<Rightarrow> bytes \<Rightarrow> gap_buffer \<Rightarrow> gap_buffer option" where
  "gb_replace_same_len_emacs_byte_range r bs g = do {
     (start_char, g) \<leftarrow> gb_emacs_byte_pos_to_char_pos (br_start r) g;
     (end_char, g) \<leftarrow> gb_emacs_byte_pos_to_char_pos (br_end r) g;
     gb_replace_same_len_measured_range
       (replacement_new
          (edit_range_from_start_end (anchor_new start_char (br_start r))
             (anchor_new end_char (br_end r)))
          (extent_from_emacs_bytes bs (gb_multibyte g)))
       bs g
   }"

definition gb_set_multibyte :: "bool \<Rightarrow> gap_buffer \<Rightarrow> gap_buffer option" where
  "gb_set_multibyte multibyte g =
     (if gb_multibyte g = multibyte then Some g
      else do {
        let g = g\<lparr>gb_multibyte := multibyte\<rparr>;
        len \<leftarrow> gb_len g;
        logical \<leftarrow> gb_copy_emacs_byte_range_to (byte_range_new 0 len) g;
        prefix \<leftarrow> slice logical 0 (gb_gap_start g);
        Some (gb_reset_position_anchors
          (g\<lparr>gb_gap_start_chars := emacs_char_count_bytes prefix multibyte,
             gb_total_chars := emacs_char_count_bytes logical multibyte,
             gb_gap_start_bytes := gb_gap_start g,
             gb_total_bytes := length logical\<rparr>))
      })"

subsection \<open>The logical text and the invariant\<close>

definition gb_text :: "gap_buffer \<Rightarrow> bytes" where
  "gb_text g = take (gb_gap_start g) (gb_buf g) @ drop (gb_gap_end g) (gb_buf g)"

definition gb_wf :: "gap_buffer \<Rightarrow> bool" where
  "gb_wf g \<longleftrightarrow> gb_gap_start g \<le> gb_gap_end g \<and> gb_gap_end g \<le> length (gb_buf g)
     \<and> gb_gap_start_bytes g = gb_gap_start g \<and> gb_total_bytes g = length (gb_text g)"

definition gap_inv :: "gap_buffer \<Rightarrow> bool" where
  "gap_inv g \<longleftrightarrow> gb_wf g
     \<and> lead_ok (gb_multibyte g) (gb_text g)
     \<and> gb_total_chars g = emacs_char_count_bytes (gb_text g) (gb_multibyte g)
     \<and> char_offset (gb_multibyte g) (gb_text g) (gb_gap_start_chars g) (gb_gap_start g)
     \<and> length (gb_anchors g) = POSITION_ANCHOR_RING
     \<and> gb_anchor_next g < POSITION_ANCHOR_RING
     \<and> (\<forall>a \<in> set (gb_anchors g). valid_anchor (gb_multibyte g) (gb_text g) a)"

lemma gb_text_update [simp]:
  "gb_text (g\<lparr>gb_anchors := as\<rparr>) = gb_text g"
  "gb_text (g\<lparr>gb_anchor_next := n\<rparr>) = gb_text g"
  "gb_text (g\<lparr>gb_multibyte := m\<rparr>) = gb_text g"
  "gb_text (g\<lparr>gb_gap_start_chars := n\<rparr>) = gb_text g"
  "gb_text (g\<lparr>gb_total_chars := n\<rparr>) = gb_text g"
  "gb_text (g\<lparr>gb_gap_start_bytes := n\<rparr>) = gb_text g"
  "gb_text (g\<lparr>gb_total_bytes := n\<rparr>) = gb_text g"
  by (simp_all add: gb_text_def)

lemma gap_inv_wf: "gap_inv g \<Longrightarrow> gb_wf g"
  by (simp add: gap_inv_def)

lemma gb_wf_length: "gb_wf g \<Longrightarrow> length (gb_text g) = length (gb_buf g) - (gb_gap_end g - gb_gap_start g)"
  by (auto simp: gb_wf_def gb_text_def)

lemma gb_wf_gap_start_le: "gb_wf g \<Longrightarrow> gb_gap_start g \<le> length (gb_text g)"
  by (auto simp: gb_wf_def gb_text_def)

lemma gb_gap_size_wf [simp]: "gb_wf g \<Longrightarrow> gb_gap_size g = Some (gb_gap_end g - gb_gap_start g)"
  by (simp add: gb_gap_size_def gb_wf_def)

lemma gb_len_wf [simp]: "gb_wf g \<Longrightarrow> gb_len g = Some (length (gb_text g))"
  by (auto simp: gb_len_def gb_wf_length) (auto simp: gb_wf_def chk_sub_def)

lemma gb_slice_before:
  assumes "gb_wf g" "lo \<le> hi" "hi \<le> gb_gap_start g"
  shows "slice (gb_buf g) lo hi = Some (sub_list lo hi (gb_text g))"
proof -
  have "sub_list lo hi (gb_text g) = sub_list lo hi (take (gb_gap_start g) (gb_buf g))"
    using assms by (simp add: sub_list_def gb_text_def gb_wf_def)
  also have "\<dots> = sub_list lo hi (gb_buf g)"
    using assms by (simp add: sub_list_def drop_take min_def)
  finally show ?thesis using assms by (simp add: slice_def sub_list_def gb_wf_def)
qed

lemma gb_slice_after:
  assumes "gb_wf g" "gb_gap_start g \<le> lo" "lo \<le> hi" "hi \<le> length (gb_text g)"
  shows "slice (gb_buf g) (gb_gap_end g + (lo - gb_gap_start g)) (gb_gap_end g + (hi - gb_gap_start g))
           = Some (sub_list lo hi (gb_text g))"
    "slice (gb_buf g) (lo + (gb_gap_end g - gb_gap_start g)) (hi + (gb_gap_end g - gb_gap_start g))
           = Some (sub_list lo hi (gb_text g))"
proof -
  have le: "gb_gap_start g \<le> gb_gap_end g" "gb_gap_end g \<le> length (gb_buf g)"
    using assms by (auto simp: gb_wf_def)
  have hi: "gb_gap_end g + (hi - gb_gap_start g) \<le> length (gb_buf g)"
    using assms le by (simp add: gb_wf_length)
  have "sub_list lo hi (gb_text g) = take (hi - lo) (drop (gb_gap_end g + (lo - gb_gap_start g)) (gb_buf g))"
    using assms le by (simp add: sub_list_def gb_text_def min_absorb2 add.commute)
  then show 1: "slice (gb_buf g) (gb_gap_end g + (lo - gb_gap_start g)) (gb_gap_end g + (hi - gb_gap_start g))
           = Some (sub_list lo hi (gb_text g))"
    using assms hi by (simp add: slice_def)
  have "lo + (gb_gap_end g - gb_gap_start g) = gb_gap_end g + (lo - gb_gap_start g)"
    "hi + (gb_gap_end g - gb_gap_start g) = gb_gap_end g + (hi - gb_gap_start g)"
    using assms le by auto
  then show "slice (gb_buf g) (lo + (gb_gap_end g - gb_gap_start g)) (hi + (gb_gap_end g - gb_gap_start g))
           = Some (sub_list lo hi (gb_text g))"
    using 1 by simp
qed

lemma gb_byte_at_wf [simp]:
  assumes "gb_wf g" "pos < length (gb_text g)"
  shows "gb_byte_at pos g = Some (gb_text g ! pos)"
proof -
  let ?G = "gb_gap_start g" and ?E = "gb_gap_end g"
  have le: "?G \<le> ?E" "?E \<le> length (gb_buf g)" using assms by (auto simp: gb_wf_def)
  have lt: "pos + (?E - ?G) < length (gb_buf g)"
    using assms(2) le by (simp add: gb_wf_length [OF assms(1)])
  have "gb_text g ! pos = (if pos < ?G then gb_buf g ! pos else gb_buf g ! (pos + (?E - ?G)))"
  proof (cases "pos < ?G")
    case True
    then show ?thesis using le by (simp add: gb_text_def nth_append)
  next
    case False
    then have "?E + (pos - ?G) = pos + (?E - ?G)" using le by simp
    then show ?thesis using False le by (simp add: gb_text_def nth_append)
  qed
  then show ?thesis using assms lt le by (simp add: gb_byte_at_def)
qed

lemma gb_is_char_boundary_wf [simp]:
  assumes "gb_wf g" "pos \<le> length (gb_text g)"
  shows "gb_is_char_boundary pos g = Some (is_emacs_char_boundary (gb_text g) pos (gb_multibyte g))"
  using assms by (auto simp: gb_is_char_boundary_def is_emacs_char_boundary_def)

lemma gb_copy_wf:
  assumes "gb_wf g" "br_start r \<le> br_end r" "br_end r \<le> length (gb_text g)"
  shows "gb_copy_emacs_byte_range_to r g = Some (sub_list (br_start r) (br_end r) (gb_text g))"
proof -
  obtain s e where r: "br_start r = s" "br_end r = e" by blast
  let ?G = "gb_gap_start g"
  consider (left) "e \<le> ?G" | (right) "?G \<le> s" "?G < e" | (both) "s < ?G" "?G < e" by linarith
  then have "s \<noteq> e \<Longrightarrow> ?thesis"
  proof cases
    case left
    assume "s \<noteq> e"
    with left show ?thesis using assms gb_slice_before [OF assms(1), of s e]
      by (simp add: gb_copy_emacs_byte_range_to_def r gb_wf_def min_absorb1)
  next
    case right
    assume "s \<noteq> e"
    with right show ?thesis using assms gb_slice_after(2) [OF assms(1), of s e]
      by (simp add: gb_copy_emacs_byte_range_to_def r max_absorb1) (simp add: gb_wf_def)
  next
    case both
    assume "s \<noteq> e"
    with both show ?thesis
      using assms gb_slice_before [OF assms(1), of s ?G] gb_slice_after(2) [OF assms(1), of ?G e]
        sub_list_glue [of s ?G e "gb_text g"]
      by (simp add: gb_copy_emacs_byte_range_to_def r max_absorb2 min_absorb2) (simp add: gb_wf_def)
  qed
  moreover have "s = e \<Longrightarrow> ?thesis"
    using assms by (simp add: gb_copy_emacs_byte_range_to_def r sub_list_def gb_wf_def)
  ultimately show ?thesis by blast
qed

lemma gb_dump_text_wf: "gb_wf g \<Longrightarrow> gb_dump_text g = Some (gb_text g)"
  by (simp add: gb_dump_text_def gb_text_def gb_wf_def)

lemma gb_count_chars_wf:
  assumes "gb_wf g" "lo \<le> hi" "hi \<le> length (gb_text g)"
  shows "gb_count_chars_in_logical_byte_range lo hi g
     = Some (emacs_char_count_bytes (sub_list lo hi (gb_text g)) (gb_multibyte g))"
proof -
  let ?G = "gb_gap_start g"
  have G: "gb_gap_start_bytes g = ?G" "gb_total_bytes g = length (gb_text g)"
    using assms by (auto simp: gb_wf_def)
  consider (left) "hi \<le> ?G" | (right) "?G \<le> lo" "?G < hi" | (both) "lo < ?G" "?G < hi" by linarith
  then show ?thesis
  proof cases
    case left
    then show ?thesis using assms G gb_slice_before [OF assms(1), of lo hi]
      by (cases "lo = hi") (auto simp: gb_count_chars_in_logical_byte_range_def min_absorb1 sub_list_def)
  next
    case right
    then show ?thesis using assms G gb_slice_after(1) [OF assms(1), of lo hi]
      by (simp add: gb_count_chars_in_logical_byte_range_def max_absorb1)
  next
    case both
    then show ?thesis
      using assms G gb_slice_before [OF assms(1), of lo ?G] gb_slice_after(1) [OF assms(1), of ?G hi]
        sub_list_glue [of lo ?G hi "gb_text g", symmetric]
      by (simp add: gb_count_chars_in_logical_byte_range_def max_absorb2 min_absorb2)
  qed
qed

subsection \<open>Position conversion\<close>

lemma gb_valid_position_anchors_inv:
  "gap_inv g \<Longrightarrow> \<forall>a \<in> set (gb_valid_position_anchors g). valid_anchor (gb_multibyte g) (gb_text g) a"
  by (auto simp: gb_valid_position_anchors_def gap_inv_def)

lemma gb_char_pos_from_byte_anchors_inv:
  assumes inv: "gap_inv g" and tgt: "is_emacs_char_boundary (gb_text g) k (gb_multibyte g)"
    and ex: "\<forall>a \<in> set extra. valid_anchor (gb_multibyte g) (gb_text g) a"
  shows "gb_char_pos_from_byte_anchors k extra g
           = Some (emacs_char_count_bytes (take k (gb_text g)) (gb_multibyte g))"
proof -
  let ?t = "gb_text g" and ?m = "gb_multibyte g"
  define bds where "bds = fold (consider_byte_anchor k)
      (anchor_new (gb_gap_start_chars g) (gb_gap_start_bytes g) # extra)
      (bounds_new (anchor_new (gb_total_chars g) (gb_total_bytes g)))"
  have lok: "lead_ok ?m ?t" and wf: "gb_wf g" and kl: "k \<le> length ?t"
    using inv tgt boundary_le by (auto simp: gap_inv_def)
  have br: "byte_bracket ?m ?t k bds"
    unfolding bds_def using inv ex bracket_new(2) [OF kl, of ?m]
    by (intro fold_consider_keeps_bracket) (auto simp: gap_inv_def gb_wf_def)
  let ?lo = "tb_below bds" and ?hi = "tb_above bds"
  have va: "valid_anchor ?m ?t ?lo" "valid_anchor ?m ?t ?hi" "ta_byte ?lo \<le> k" "k \<le> ta_byte ?hi"
    using br by (auto simp: byte_bracket_def)
  note le = byte_bracket_chars [OF br lok]
  have cnt: "emacs_char_count_bytes (take k ?t) ?m
      = ta_char ?lo + emacs_char_count_bytes (sub_list (ta_byte ?lo) k ?t) ?m"
    "ta_char ?hi = emacs_char_count_bytes (take k ?t) ?m + emacs_char_count_bytes (sub_list k (ta_byte ?hi) ?t) ?m"
    using va char_count_take_sub [of "ta_byte ?lo" k ?t ?m] char_count_take_sub [of k "ta_byte ?hi" ?t ?m]
    by (auto simp: char_offset_def)
  have single: "ta_char ?lo + (k - ta_byte ?lo) = emacs_char_count_bytes (take k ?t) ?m"
    if "ta_byte ?hi - ta_byte ?lo = ta_char ?hi - ta_char ?lo"
    using single_byte_span [OF va(1,2) lok that [symmetric] va(3,4)] by (simp add: char_offset_def)
  have hl: "ta_byte ?hi \<le> length ?t" using va(2) char_offset_le by blast
  have g1: "gb_count_chars_in_logical_byte_range (ta_byte ?lo) k g
      = Some (emacs_char_count_bytes (sub_list (ta_byte ?lo) k ?t) ?m)"
    and g2: "gb_count_chars_in_logical_byte_range k (ta_byte ?hi) g
      = Some (emacs_char_count_bytes (sub_list k (ta_byte ?hi) ?t) ?m)"
    using gb_count_chars_wf [OF wf] va kl hl by auto
  show ?thesis
    unfolding gb_char_pos_from_byte_anchors_def Let_def bds_def [symmetric]
    using le va single cnt g1 g2 by (simp add: chk_sub_def)
qed

lemma gb_remember_inv:
  assumes "gap_inv g" "valid_anchor (gb_multibyte g) (gb_text g) a"
  obtains g' where "gb_remember_position_anchor a g = Some g'" "gap_inv g'"
    "gb_text g' = gb_text g" "gb_multibyte g' = gb_multibyte g"
    "gb_gap_start g' = gb_gap_start g" "gb_gap_end g' = gb_gap_end g" "gb_buf g' = gb_buf g"
proof
  let ?g = "g\<lparr>gb_anchors := (gb_anchors g)[gb_anchor_next g := a],
      gb_anchor_next := (gb_anchor_next g + 1) mod POSITION_ANCHOR_RING\<rparr>"
  show "gb_remember_position_anchor a g = Some ?g"
    using assms by (simp add: gb_remember_position_anchor_def gap_inv_def Let_def)
  have "\<forall>x \<in> set ((gb_anchors g)[gb_anchor_next g := a]). valid_anchor (gb_multibyte g) (gb_text g) x"
    using assms set_update_subset_insert [of "gb_anchors g" "gb_anchor_next g" a]
    by (auto simp: gap_inv_def)
  then show "gap_inv ?g"
    using assms by (simp add: gap_inv_def gb_wf_def POSITION_ANCHOR_RING_def)
qed simp_all

lemma gb_byte_to_char_inv:
  assumes inv: "gap_inv g" and tgt: "is_emacs_char_boundary (gb_text g) k (gb_multibyte g)"
  obtains g' where "gb_emacs_byte_pos_to_char_pos k g
      = Some (emacs_char_count_bytes (take k (gb_text g)) (gb_multibyte g), g')" "gap_inv g'"
    "gb_text g' = gb_text g" "gb_multibyte g' = gb_multibyte g"
    "gb_gap_start g' = gb_gap_start g" "gb_gap_end g' = gb_gap_end g" "gb_buf g' = gb_buf g"
proof -
  let ?c = "emacs_char_count_bytes (take k (gb_text g)) (gb_multibyte g)"
  have wf: "gb_wf g" and k: "k \<le> length (gb_text g)"
    using inv tgt boundary_le by (auto simp: gap_inv_def)
  show thesis
  proof (cases "gb_total_chars g = gb_total_bytes g")
    case True
    then have "?c = k"
      using inv k by (intro char_count_eq_length_take) (auto simp: gap_inv_def gb_wf_def)
    then have "gb_emacs_byte_pos_to_char_pos k g = Some (?c, g)"
      using True wf k by (simp add: gb_emacs_byte_pos_to_char_pos_def)
    then show thesis using inv that by blast
  next
    case False
    obtain g' where g': "gb_remember_position_anchor (anchor_new ?c k) g = Some g'" "gap_inv g'"
      "gb_text g' = gb_text g" "gb_multibyte g' = gb_multibyte g"
      "gb_gap_start g' = gb_gap_start g" "gb_gap_end g' = gb_gap_end g" "gb_buf g' = gb_buf g"
      using gb_remember_inv [OF inv, of "anchor_new ?c k"] tgt by (auto simp: char_offset_def)
    have "gb_emacs_byte_pos_to_char_pos k g = Some (?c, g')"
      using False wf k g'(1) gb_char_pos_from_byte_anchors_inv [OF inv tgt]
        gb_valid_position_anchors_inv [OF inv]
      by (simp add: gb_emacs_byte_pos_to_char_pos_def)
    then show thesis using g' that by blast
  qed
qed

lemma gb_buf_length: "gb_wf g \<Longrightarrow> length (gb_buf g) = gb_gap_end g + (length (gb_text g) - gb_gap_start g)"
  by (auto simp: gb_wf_length) (auto simp: gb_wf_def)

lemma gap_inv_boundary: "gap_inv g \<Longrightarrow> is_emacs_char_boundary (gb_text g) (gb_gap_start g) (gb_multibyte g)"
  by (simp add: gap_inv_def char_offset_def)

lemma gb_bytes_from_inv:
  assumes inv: "gap_inv g" and st: "char_offset (gb_multibyte g) (gb_text g) c0 k0"
    and n: "c0 + n \<le> emacs_char_count_bytes (gb_text g) (gb_multibyte g)"
  shows "\<exists>d. gb_bytes_for_n_chars_from_logical_byte k0 n g = Some d
           \<and> char_offset (gb_multibyte g) (gb_text g) (c0 + n) (k0 + d)"
proof (cases "n = 0")
  case True
  then show ?thesis using st by (simp add: gb_bytes_for_n_chars_from_logical_byte_def)
next
  case False
  let ?t = "gb_text g" and ?m = "gb_multibyte g" and ?G = "gb_gap_start g"
  let ?cnt = "\<lambda>bs. emacs_char_count_bytes bs (gb_multibyte g)"
  have wf: "gb_wf g" and lok: "lead_ok ?m ?t" and G: "gb_gap_start_bytes g = ?G"
    using inv by (auto simp: gap_inv_def gb_wf_def)
  have bG: "is_emacs_char_boundary ?t ?G ?m" and b0: "is_emacs_char_boundary ?t k0 ?m"
    and c0: "?cnt (take k0 ?t) = c0"
    using inv st by (auto simp: gap_inv_def char_offset_def)
  note GL = gb_wf_gap_start_le [OF wf] and KL = boundary_le [OF b0]
  show ?thesis
  proof (cases "k0 < ?G")
    case True
    let ?s = "sub_list k0 ?G ?t"
    have sl: "slice (gb_buf g) k0 ?G = Some ?s" using gb_slice_before [OF wf, of k0 ?G] True by simp
    have cG: "?cnt (take ?G ?t) = c0 + ?cnt ?s"
      using char_count_take_sub [of k0 ?G ?t ?m] True c0 by simp
    show ?thesis
    proof (cases "n \<le> ?cnt ?s")
      case le: True
      then show ?thesis
        using char_offset_sub_list [OF b0 bG lok, of n] emacs_char_to_byte_in_slice_offset [OF le] True False sl G c0
        by (simp add: gb_bytes_for_n_chars_from_logical_byte_def Let_def)
    next
      case nle: False
      let ?r = "sub_list ?G (length ?t) ?t"
      have sl2: "slice (gb_buf g) (gb_gap_end g) (length (gb_buf g)) = Some ?r"
        using gb_slice_after(1) [OF wf, of ?G "length ?t"] GL by (simp add: gb_buf_length [OF wf])
      have le: "n - ?cnt ?s \<le> ?cnt ?r"
        using n cG nle char_count_split [of ?G ?t ?m] by (simp add: sub_list_def)
      have "char_offset ?m ?t (?cnt (take ?G ?t) + (n - ?cnt ?s))
          (?G + emacs_char_to_byte_in_slice ?r (n - ?cnt ?s) ?m)"
        using char_offset_sub_list [OF bG _ lok _ emacs_char_to_byte_in_slice_offset [OF le]] GL by simp
      moreover have "?cnt (take ?G ?t) + (n - ?cnt ?s) = c0 + n" using cG nle by simp
      ultimately show ?thesis
        using True False sl sl2 nle G GL
        by (simp add: gb_bytes_for_n_chars_from_logical_byte_def Let_def)
    qed
  next
    case ge: False
    let ?r = "sub_list k0 (length ?t) ?t"
    have sl2: "slice (gb_buf g) (gb_gap_end g + (k0 - ?G)) (length (gb_buf g)) = Some ?r"
      using gb_slice_after(1) [OF wf, of k0 "length ?t"] ge KL by (simp add: gb_buf_length [OF wf])
    have le: "n \<le> ?cnt ?r"
      using n c0 char_count_split [of k0 ?t ?m] by (simp add: sub_list_def)
    show ?thesis
      using char_offset_sub_list [OF b0 _ lok _ emacs_char_to_byte_in_slice_offset [OF le]] KL c0 ge False sl2 G
      by (simp add: gb_bytes_for_n_chars_from_logical_byte_def Let_def)
  qed
qed

lemma gb_bytes_before_inv:
  assumes inv: "gap_inv g" and en: "char_offset (gb_multibyte g) (gb_text g) ce e" and n: "n \<le> ce"
  shows "\<exists>d. gb_bytes_for_n_chars_before_logical_byte e n g = Some d \<and> d \<le> e
           \<and> char_offset (gb_multibyte g) (gb_text g) (ce - n) (e - d)"
proof (cases "n = 0")
  case True
  then show ?thesis using en by (simp add: gb_bytes_for_n_chars_before_logical_byte_def)
next
  case False
  let ?t = "gb_text g" and ?m = "gb_multibyte g" and ?G = "gb_gap_start g"
  let ?cnt = "\<lambda>bs. emacs_char_count_bytes bs (gb_multibyte g)"
  have wf: "gb_wf g" and lok: "lead_ok ?m ?t" and G: "gb_gap_start_bytes g = ?G"
    using inv by (auto simp: gap_inv_def gb_wf_def)
  have bG: "is_emacs_char_boundary ?t ?G ?m" and be: "is_emacs_char_boundary ?t e ?m"
    and ce: "?cnt (take e ?t) = ce"
    using inv en by (auto simp: gap_inv_def char_offset_def)
  note GL = gb_wf_gap_start_le [OF wf] and EL = boundary_le [OF be]
  have front: "\<exists>j \<le> p. nth_lead_from_end (sub_list 0 p ?t) r ?m = Some j
      \<and> char_offset ?m ?t (?cnt (take p ?t) - r) j"
    if p: "is_emacs_char_boundary ?t p ?m" and r: "1 \<le> r" "r \<le> ?cnt (take p ?t)" for p r
  proof -
    have s: "sub_list 0 p ?t = take p ?t" by (simp add: sub_list_def)
    obtain j where j: "nth_lead_from_end (take p ?t) r ?m = Some j"
        "char_offset ?m (take p ?t) (?cnt (take p ?t) - r) j"
      using nth_lead_from_end_correct [OF r(1), of "take p ?t" ?m] r(2) by auto
    then have "j \<le> p" using char_offset_le boundary_le [OF p] by fastforce
    then show ?thesis using j char_offset_take [OF p lok] s by auto
  qed
  show ?thesis
  proof (cases "?G < e")
    case True
    let ?s = "sub_list ?G e ?t"
    have sl: "slice (gb_buf g) (gb_gap_end g) (gb_gap_end g + (e - ?G)) = Some ?s"
      using gb_slice_after(1) [OF wf, of ?G e] True EL by simp
    have cG: "?cnt (take ?G ?t) + ?cnt ?s = ce"
      using char_count_take_sub [of ?G e ?t ?m] True ce by simp
    have len: "length ?s = e - ?G" using EL by simp
    show ?thesis
    proof (cases "n \<le> ?cnt ?s")
      case le: True
      then obtain j where j: "nth_lead_from_end ?s n ?m = Some j" "char_offset ?m ?s (?cnt ?s - n) j"
        using nth_lead_from_end_correct [of n ?s ?m] False by auto
      have jl: "j \<le> e - ?G" using char_offset_le [OF j(2)] len by simp
      have "char_offset ?m ?t (?cnt (take ?G ?t) + (?cnt ?s - n)) (?G + j)"
        using char_offset_sub_list [OF bG be lok _ j(2)] True by simp
      moreover have "?cnt (take ?G ?t) + (?cnt ?s - n) = ce - n" "e - (e - ?G - j) = ?G + j"
          "e - ?G - j \<le> e"
        using cG le jl True by auto
      moreover have "gb_bytes_for_n_chars_before_logical_byte e n g = Some (e - ?G - j)"
        using True False sl j(1) jl len G
        by (simp add: gb_bytes_for_n_chars_before_logical_byte_def Let_def)
      ultimately show ?thesis by (intro exI [of _ "e - ?G - j"]) simp
    next
      case nle: False
      then have none: "nth_lead_from_end ?s n ?m = None"
        using nth_lead_from_end_correct [of n ?s ?m] False by auto
      have rl: "1 \<le> n - ?cnt ?s" "n - ?cnt ?s \<le> ?cnt (take ?G ?t)" using nle n cG by linarith+
      obtain j where j: "j \<le> ?G" "nth_lead_from_end (sub_list 0 ?G ?t) (n - ?cnt ?s) ?m = Some j"
          "char_offset ?m ?t (?cnt (take ?G ?t) - (n - ?cnt ?s)) j"
        using front [OF bG, of "n - ?cnt ?s"] rl by blast
      have "slice (gb_buf g) 0 ?G = Some (sub_list 0 ?G ?t)" using gb_slice_before [OF wf, of 0 ?G] by simp
      then have "gb_bytes_for_n_chars_before_logical_byte e n g = Some (e - ?G + (?G - j))"
        using True False sl none j nle len G GL
        by (simp add: gb_bytes_for_n_chars_before_logical_byte_def Let_def min_absorb2)
      moreover have "?cnt (take ?G ?t) - (n - ?cnt ?s) = ce - n" "e - (e - ?G + (?G - j)) = j"
          "e - ?G + (?G - j) \<le> e"
        using cG nle n j True by auto
      ultimately show ?thesis using j(3) by (intro exI [of _ "e - ?G + (?G - j)"]) simp
    qed
  next
    case le: False
    obtain j where j: "j \<le> e" "nth_lead_from_end (sub_list 0 e ?t) n ?m = Some j"
        "char_offset ?m ?t (ce - n) j"
      using front [OF be, of n] False n ce by auto
    have "slice (gb_buf g) 0 e = Some (sub_list 0 e ?t)" using gb_slice_before [OF wf, of 0 e] le by simp
    then show ?thesis
      using le False j EL G
      by (auto simp: gb_bytes_for_n_chars_before_logical_byte_def Let_def min_absorb1)
  qed
qed

lemma gb_byte_pos_from_char_anchors_inv:
  assumes inv: "gap_inv g" and c: "c \<le> emacs_char_count_bytes (gb_text g) (gb_multibyte g)"
    and ex: "\<forall>a \<in> set extra. valid_anchor (gb_multibyte g) (gb_text g) a"
  shows "\<exists>k. gb_byte_pos_from_char_anchors c extra g = Some k
           \<and> char_offset (gb_multibyte g) (gb_text g) c k"
proof -
  let ?t = "gb_text g" and ?m = "gb_multibyte g"
  define bds where "bds = fold (consider_char_anchor c)
      (anchor_new (gb_gap_start_chars g) (gb_gap_start_bytes g) # extra)
      (bounds_new (anchor_new (gb_total_chars g) (gb_total_bytes g)))"
  have lok: "lead_ok ?m ?t" and wf: "gb_wf g" using inv by (auto simp: gap_inv_def)
  have br: "char_bracket ?m ?t c bds"
    unfolding bds_def using inv ex bracket_new(1) [OF c]
    by (intro fold_consider_keeps_bracket) (auto simp: gap_inv_def gb_wf_def)
  let ?lo = "tb_below bds" and ?hi = "tb_above bds"
  have va: "valid_anchor ?m ?t ?lo" "valid_anchor ?m ?t ?hi" "ta_char ?lo \<le> c" "c \<le> ta_char ?hi"
    using br by (auto simp: char_bracket_def)
  note le = char_bracket_bytes [OF br lok]
  have single: "char_offset ?m ?t c (ta_byte ?lo + (c - ta_char ?lo))"
    if "ta_byte ?hi - ta_byte ?lo = ta_char ?hi - ta_char ?lo"
    using single_byte_span [OF va(1,2) lok that [symmetric], of "ta_byte ?lo + (c - ta_char ?lo)"]
      that va le by simp
  obtain d where d: "gb_bytes_for_n_chars_from_logical_byte (ta_byte ?lo) (c - ta_char ?lo) g = Some d"
      "char_offset ?m ?t c (ta_byte ?lo + d)"
    using gb_bytes_from_inv [OF inv va(1), of "c - ta_char ?lo"] va c by auto
  obtain d' where d': "gb_bytes_for_n_chars_before_logical_byte (ta_byte ?hi) (ta_char ?hi - c) g = Some d'"
      "d' \<le> ta_byte ?hi" "char_offset ?m ?t c (ta_byte ?hi - d')"
    using gb_bytes_before_inv [OF inv va(2), of "ta_char ?hi - c"] va by auto
  show ?thesis
    unfolding gb_byte_pos_from_char_anchors_def Let_def bds_def [symmetric]
    using le va single d d' by simp
qed

lemma gb_char_to_byte_inv:
  assumes inv: "gap_inv g"
  obtains k g' where "gb_char_pos_to_emacs_byte_pos c g = Some (k, g')" "gap_inv g'"
    "gb_text g' = gb_text g" "gb_multibyte g' = gb_multibyte g"
    "if c \<le> emacs_char_count_bytes (gb_text g) (gb_multibyte g)
     then char_offset (gb_multibyte g) (gb_text g) c k else k = length (gb_text g)"
proof -
  let ?t = "gb_text g" and ?m = "gb_multibyte g"
  have lok: "lead_ok ?m ?t" and wf: "gb_wf g" and tc: "gb_total_chars g = emacs_char_count_bytes ?t ?m"
    and tb: "gb_total_bytes g = length ?t"
    using inv by (auto simp: gap_inv_def gb_wf_def)
  consider (zero) "c = 0" | (clamp) "c \<noteq> 0" "gb_total_chars g < c"
    | (fast) "c \<noteq> 0" "c \<le> gb_total_chars g" "gb_total_chars g = gb_total_bytes g"
    | (scan) "c \<noteq> 0" "c \<le> gb_total_chars g" "gb_total_chars g \<noteq> gb_total_bytes g" by linarith
  then show thesis
  proof cases
    case zero
    then show thesis using that [of 0 g] inv by (simp add: gb_char_pos_to_emacs_byte_pos_def)
  next
    case clamp
    then show thesis using that [of "length ?t" g] inv tc tb by (simp add: gb_char_pos_to_emacs_byte_pos_def)
  next
    case fast
    have "char_offset ?m ?t (0 + (c - 0)) c"
      using single_byte_span [OF char_offset_0 char_offset_end lok, of c] fast tc tb by simp
    then show thesis
      using that [of c g] inv fast tc by (simp add: gb_char_pos_to_emacs_byte_pos_def)
  next
    case scan
    obtain k where k: "gb_byte_pos_from_char_anchors c (gb_valid_position_anchors g) g = Some k"
        "char_offset ?m ?t c k"
      using gb_byte_pos_from_char_anchors_inv [OF inv _ gb_valid_position_anchors_inv [OF inv]] scan tc by auto
    obtain k' where k': "gb_byte_pos_from_char_anchors c [] g = Some k'" "char_offset ?m ?t c k'"
      using gb_byte_pos_from_char_anchors_inv [OF inv, of c "[]"] scan tc by auto
    have kk: "k' = k" using char_offset_unique [OF lok k'(2) k(2)] .
    obtain g' where "gb_remember_position_anchor (anchor_new c k) g = Some g'" "gap_inv g'"
        "gb_text g' = gb_text g" "gb_multibyte g' = gb_multibyte g"
      using gb_remember_inv [OF inv, of "anchor_new c k"] k by auto
    then show thesis
      using that [of k g'] k k' kk scan tc by (simp add: gb_char_pos_to_emacs_byte_pos_def)
  qed
qed

lemma gb_byte_to_char_offset:
  assumes "gap_inv g" "char_offset m t c k" "gb_text g = t" "gb_multibyte g = m"
  obtains g' where "gb_emacs_byte_pos_to_char_pos k g = Some (c, g')" "gap_inv g'"
    "gb_text g' = t" "gb_multibyte g' = m"
    "gb_gap_start g' = gb_gap_start g" "gb_gap_end g' = gb_gap_end g"
  using gb_byte_to_char_inv [OF assms(1), of k] assms(2-4) by (auto simp: char_offset_def)

subsection \<open>Moving and growing the gap\<close>

lemma gb_move_gap_both_inv:
  assumes inv: "gap_inv g" and tgt: "char_offset (gb_multibyte g) (gb_text g) c p"
  obtains g' where "gb_move_gap_both p c g = Some g'" "gap_inv g'" "gb_text g' = gb_text g"
    "gb_multibyte g' = gb_multibyte g" "gb_gap_start g' = p"
    "gb_gap_end g' - gb_gap_start g' = gb_gap_end g - gb_gap_start g"
proof (cases "p = gb_gap_start g")
  case True
  then have "gb_move_gap_both p c g = Some g"
    using inv gb_wf_gap_start_le [of g] by (simp add: gb_move_gap_both_def gap_inv_def)
  then show thesis using that inv True by blast
next
  case False
  let ?G = "gb_gap_start g" and ?E = "gb_gap_end g" and ?b = "gb_buf g"
  let ?gap = "?E - ?G"
  have wf: "gb_wf g" using inv by (rule gap_inv_wf)
  then have le: "?G \<le> ?E" "?E \<le> length ?b" by (auto simp: gb_wf_def)
  have p: "p \<le> length (gb_text g)" using tgt char_offset_le by blast
  define buf where "buf = (if p < ?G then take (p + ?gap) ?b @ take (?G - p) (drop p ?b) @ drop ?E ?b
      else take ?G ?b @ take (p - ?G) (drop ?E ?b) @ drop p ?b)"
  define g' where "g' = g\<lparr>gb_buf := buf, gb_gap_start := p, gb_gap_end := p + ?gap,
               gb_gap_start_chars := c, gb_gap_start_bytes := p\<rparr>"
  have lt: "p + ?gap \<le> length ?b" using p le by (simp add: gb_wf_length [OF wf])
  have buf': "take p buf @ drop (p + ?gap) buf = gb_text g \<and> length buf = length ?b"
  proof (cases "p < ?G")
    case True
    then have "take p ?b @ take (?G - p) (drop p ?b) = take ?G ?b"
      by (metis le_add_diff_inverse less_imp_le take_add)
    moreover have "p + ?gap \<le> ?E" using True le by simp
    ultimately show ?thesis
      using True lt le by (simp add: buf_def gb_text_def min_absorb2 min_absorb1)
  next
    case ge: False
    have e: "?E + (p - ?G) = p + ?gap" using ge le by simp
    have "take (p - ?G) (drop ?E ?b) @ drop (p + ?gap) ?b = drop ?E ?b"
      using e by (metis append_take_drop_id drop_drop add.commute)
    moreover have "length (take (p - ?G) (drop ?E ?b)) = p - ?G" using e lt by simp
    ultimately show ?thesis
      using ge lt le by (simp add: buf_def gb_text_def min_absorb2 min_absorb1 drop_drop add.commute)
  qed
  then have tx: "gb_text g' = gb_text g" by (simp add: g'_def gb_text_def)
  have "gb_move_gap_both p c g = Some g'"
    using False wf p le lt
    by (auto simp: gb_move_gap_both_def g'_def buf_def copy_within_def Let_def)
  moreover have "gap_inv g'"
    using inv tgt tx lt buf' le
    by (simp add: gap_inv_def gb_wf_def g'_def)
  ultimately show thesis using that [of g'] tx by (simp add: g'_def)
qed

lemma gb_move_gap_to_inv:
  assumes inv: "gap_inv g" and tgt: "is_emacs_char_boundary (gb_text g) p (gb_multibyte g)"
  obtains g' where "gb_move_gap_to p g = Some g'" "gap_inv g'" "gb_text g' = gb_text g"
    "gb_multibyte g' = gb_multibyte g" "gb_gap_start g' = p"
    "gb_gap_end g' - gb_gap_start g' = gb_gap_end g - gb_gap_start g"
proof (cases "p = gb_gap_start g")
  case True
  then have "gb_move_gap_to p g = Some g"
    using inv gb_wf_gap_start_le [of g] by (simp add: gb_move_gap_to_def gap_inv_def)
  then show thesis using that inv True by blast
next
  case False
  let ?c = "emacs_char_count_bytes (take p (gb_text g)) (gb_multibyte g)"
  obtain g1 where g1: "gb_emacs_byte_pos_to_char_pos p g = Some (?c, g1)" "gap_inv g1"
    "gb_text g1 = gb_text g" "gb_multibyte g1 = gb_multibyte g"
    "gb_gap_start g1 = gb_gap_start g" "gb_gap_end g1 = gb_gap_end g"
    using gb_byte_to_char_inv [OF inv tgt] by metis
  obtain g2 where g2: "gb_move_gap_both p ?c g1 = Some g2" "gap_inv g2" "gb_text g2 = gb_text g1"
    "gb_multibyte g2 = gb_multibyte g1" "gb_gap_start g2 = p"
    "gb_gap_end g2 - gb_gap_start g2 = gb_gap_end g1 - gb_gap_start g1"
    using gb_move_gap_both_inv [OF g1(2), of ?c p] tgt g1 by (auto simp: char_offset_def)
  then show thesis
    using that [of g2] False g1 inv boundary_le [OF tgt] by (simp add: gb_move_gap_to_def gap_inv_def)
qed

lemma gb_ensure_gap_inv:
  assumes inv: "gap_inv g"
  obtains g' where "gb_ensure_gap n g = Some g'" "gap_inv g'" "gb_text g' = gb_text g"
    "gb_multibyte g' = gb_multibyte g" "gb_gap_start g' = gb_gap_start g"
    "n \<le> gb_gap_end g' - gb_gap_start g'"
    "gb_gap_end g' - gb_gap_start g' \<le> max (gb_gap_end g - gb_gap_start g) (n + GAP_BYTES_DFL)"
proof (cases "n \<le> gb_gap_end g - gb_gap_start g")
  case True
  then show thesis using that [of g] inv by (simp add: gb_ensure_gap_def gap_inv_def)
next
  case False
  let ?G = "gb_gap_start g" and ?E = "gb_gap_end g" and ?b = "gb_buf g"
  let ?grow = "n - (?E - ?G) + GAP_BYTES_DFL"
  define buf where "buf = (if ?E < length ?b
      then take (?E + ?grow) (?b @ replicate ?grow 0) @ drop ?E ?b else ?b @ replicate ?grow 0)"
  define g' where "g' = g\<lparr>gb_buf := buf, gb_gap_end := ?E + ?grow\<rparr>"
  have wf: "gb_wf g" using inv by (rule gap_inv_wf)
  then have le: "?G \<le> ?E" "?E \<le> length ?b" by (auto simp: gb_wf_def)
  have tx: "gb_text g' = gb_text g" and len: "length buf = length ?b + ?grow"
    using le by (auto simp: g'_def gb_text_def buf_def min_absorb1 min_absorb2)
  have "gb_ensure_gap n g = Some g'"
    using False wf le
    by (auto simp: gb_ensure_gap_def g'_def buf_def copy_within_def Let_def)
  moreover have "gap_inv g'"
    using inv tx len le by (simp add: gap_inv_def gb_wf_def g'_def)
  ultimately show thesis using that [of g'] tx False le by (simp add: g'_def)
qed

subsection \<open>Insertion\<close>

lemma gb_adjust_insert_valid:
  assumes "is_emacs_char_boundary tx p mb" "lead_ok mb tx" "lead_ok mb bs" "valid_anchor mb tx a"
  shows "valid_anchor mb (insert_at p bs tx)
    (if p < ta_byte a then anchor_new (ta_char a + emacs_char_count_bytes bs mb) (ta_byte a + length bs) else a)"
  using assms char_offset_insert_before [OF assms(1-4)] char_offset_insert_after [OF assms(1,2,4), of bs]
  by simp

lemma gb_insert_inv:
  assumes inv: "gap_inv g" and p: "is_emacs_char_boundary (gb_text g) p (gb_multibyte g)"
    and e: "measured_text (gb_multibyte g) bs e"
  obtains g' where "gb_insert_measured_emacs_bytes p bs e g = Some g'" "gap_inv g'"
    "gb_multibyte g' = gb_multibyte g" "gb_text g' = insert_at p bs (gb_text g)"
proof (cases "bs = []")
  case True
  then show thesis
    using that [of g] inv boundary_le [OF p] by (simp add: gb_insert_measured_emacs_bytes_def gap_inv_def)
next
  case False
  let ?m = "gb_multibyte g" and ?n = "emacs_char_count_bytes bs (gb_multibyte g)"
  have bs: "te_chars e = ?n" "te_bytes e = length bs" "lead_ok ?m bs"
    using e by (auto simp: measured_text_def)
  obtain g1 where g1: "gb_move_gap_to p g = Some g1" "gap_inv g1" "gb_text g1 = gb_text g"
    "gb_multibyte g1 = ?m" "gb_gap_start g1 = p"
    using gb_move_gap_to_inv [OF inv p] by metis
  obtain g2 where g2: "gb_ensure_gap (length bs) g1 = Some g2" "gap_inv g2" "gb_text g2 = gb_text g"
    "gb_multibyte g2 = ?m" "gb_gap_start g2 = p" "length bs \<le> gb_gap_end g2 - gb_gap_start g2"
    using gb_ensure_gap_inv [OF g1(2), of "length bs"] g1 by metis
  have wf2: "gb_wf g2" using g2(2) by (rule gap_inv_wf)
  then have le: "p + length bs \<le> gb_gap_end g2" "gb_gap_end g2 \<le> length (gb_buf g2)"
    "gb_gap_start_bytes g2 = p" "gb_total_bytes g2 = length (gb_text g)" "p \<le> gb_gap_end g2"
    using g2 by (auto simp: gb_wf_def)
  define buf where "buf = take p (gb_buf g2) @ bs @ drop (p + length bs) (gb_buf g2)"
  define g3 where "g3 = gb_adjust_position_anchors_for_insert p (length bs) ?n
     (g2\<lparr>gb_buf := buf, gb_gap_start := p + length bs,
        gb_gap_start_chars := gb_gap_start_chars g2 + ?n, gb_total_chars := gb_total_chars g2 + ?n,
        gb_gap_start_bytes := p + length bs, gb_total_bytes := length (gb_text g) + length bs\<rparr>)"
  have tx: "gb_text g3 = insert_at p bs (gb_text g)"
    unfolding g2(3) [symmetric]
    using le g2(5)
    by (simp add: g3_def gb_adjust_position_anchors_for_insert_def gb_text_def buf_def insert_at_def min_absorb2)
  have lenb: "length buf = length (gb_buf g2)" using le by (simp add: buf_def)
  have off: "char_offset ?m (insert_at p bs (gb_text g)) (gb_gap_start_chars g2 + ?n) (p + length bs)"
    using g2 inv p by (intro char_offset_insert_after) (auto simp: gap_inv_def)
  have anch: "\<forall>a \<in> set (gb_anchors g3). valid_anchor ?m (insert_at p bs (gb_text g)) a"
  proof
    fix a assume "a \<in> set (gb_anchors g3)"
    then obtain a0 where a0: "a0 \<in> set (gb_anchors g2)"
        "a = (if p < ta_byte a0 then anchor_new (ta_char a0 + ?n) (ta_byte a0 + length bs) else a0)"
      by (auto simp: g3_def gb_adjust_position_anchors_for_insert_def)
    have "valid_anchor ?m (gb_text g) a0" using a0(1) g2 by (simp add: gap_inv_def)
    then show "valid_anchor ?m (insert_at p bs (gb_text g)) a"
      unfolding a0(2) using inv by (intro gb_adjust_insert_valid p bs) (simp add: gap_inv_def)
  qed
  have "gap_inv g3"
    unfolding gap_inv_def gb_wf_def tx
    using g2 inv bs p le anch off lenb lead_ok_insert [OF p]
    by (simp add: g3_def gb_adjust_position_anchors_for_insert_def gap_inv_def char_count_insert)
  moreover have "gb_insert_measured_emacs_bytes p bs e g = Some g3"
    using False inv g1 g2 p bs le boundary_le [OF p]
    by (simp add: gb_insert_measured_emacs_bytes_def gap_inv_wf copy_from_slice_Some Let_def g3_def buf_def)
  moreover have "gb_multibyte g3 = ?m"
    using g2 by (simp add: g3_def gb_adjust_position_anchors_for_insert_def)
  ultimately show thesis using that tx by blast
qed

subsection \<open>Deletion\<close>

lemma those_map_Some: "(\<And>x. x \<in> set xs \<Longrightarrow> f x = Some (h x)) \<Longrightarrow> those (map f xs) = Some (map h xs)"
  by (induction xs) auto

lemma adjust_anchor_for_delete_valid:
  assumes b: "is_emacs_char_boundary tx s mb" "is_emacs_char_boundary tx e mb" "lead_ok mb tx" "s \<le> e"
    and a: "valid_anchor mb tx a"
  shows "\<exists>a'. adjust_anchor_for_delete s e (e - s) (emacs_char_count_bytes (sub_list s e tx) mb) a = Some a'
           \<and> valid_anchor mb (delete_range s e tx) a'"
proof -
  consider "ta_byte a \<le> s" | "s < ta_byte a" "e \<le> ta_byte a" | "s < ta_byte a" "ta_byte a < e" by linarith
  then show ?thesis
  proof cases
    case 1
    then show ?thesis
      using char_offset_delete_before [OF b(1-3) a] by (simp add: adjust_anchor_for_delete_def)
  next
    case 2
    then show ?thesis
      using char_offset_delete_after [OF b(1-3) a b(4)] by (simp add: adjust_anchor_for_delete_def)
  next
    case 3
    then show ?thesis by (simp add: adjust_anchor_for_delete_def anchor_zero_def)
  qed
qed

lemma gb_adjust_delete_valid:
  assumes b: "is_emacs_char_boundary tx s mb" "is_emacs_char_boundary tx e mb" "lead_ok mb tx" "s \<le> e"
    and a: "\<forall>a \<in> set (gb_anchors g). valid_anchor mb tx a"
  shows "\<exists>ring. gb_adjust_position_anchors_for_delete s e (e - s)
             (emacs_char_count_bytes (sub_list s e tx) mb) g = Some (g\<lparr>gb_anchors := ring\<rparr>)
           \<and> length ring = length (gb_anchors g)
           \<and> (\<forall>a \<in> set ring. valid_anchor mb (delete_range s e tx) a)"
proof -
  let ?f = "adjust_anchor_for_delete s e (e - s) (emacs_char_count_bytes (sub_list s e tx) mb)"
  have "those (map ?f (gb_anchors g)) = Some (map (the \<circ> ?f) (gb_anchors g))"
    using adjust_anchor_for_delete_valid [OF b] a by (intro those_map_Some) fastforce
  moreover have "\<forall>x \<in> set (map (the \<circ> ?f) (gb_anchors g)). valid_anchor mb (delete_range s e tx) x"
    using adjust_anchor_for_delete_valid [OF b] a by fastforce
  ultimately show ?thesis
    by (intro exI [of _ "map (the \<circ> ?f) (gb_anchors g)"])
       (simp add: gb_adjust_position_anchors_for_delete_def)
qed

lemma gb_delete_inv:
  assumes inv: "gap_inv g" and r: "measured_range (gb_multibyte g) (gb_text g) r"
  obtains g' where "gb_delete_measured_range r g = Some g'" "gap_inv g'"
    "gb_multibyte g' = gb_multibyte g"
    "gb_text g' = delete_range (er_byte_start r) (er_byte_end r) (gb_text g)"
proof (cases "er_byte_start r = er_byte_end r")
  case True
  then show thesis
    using that [of g] inv measured_rangeD [OF r] by (simp add: gb_delete_measured_range_def gap_inv_wf Let_def)
next
  case False
  let ?m = "gb_multibyte g" and ?t = "gb_text g" and ?s = "er_byte_start r" and ?e = "er_byte_end r"
  let ?n = "emacs_char_count_bytes (sub_list ?s ?e ?t) ?m"
  note m = measured_rangeD [OF r] and n = measured_range_char_len [OF r]
  have lok: "lead_ok ?m ?t" using inv by (simp add: gap_inv_def)
  obtain g1 where g1: "gb_emacs_byte_pos_to_char_pos ?e g = Some (er_char_end r, g1)" "gap_inv g1"
    "gb_text g1 = ?t" "gb_multibyte g1 = ?m"
    using gb_byte_to_char_offset [OF inv m(4) refl refl] by metis
  obtain g2 where g2: "gb_emacs_byte_pos_to_char_pos ?s g1 = Some (er_char_start r, g2)" "gap_inv g2"
    "gb_text g2 = ?t" "gb_multibyte g2 = ?m"
    using gb_byte_to_char_offset [OF g1(2) m(3) g1(3,4)] by metis
  obtain g3 where g3: "gb_move_gap_both ?s (er_char_start r) g2 = Some g3" "gap_inv g3" "gb_text g3 = ?t"
    "gb_multibyte g3 = ?m" "gb_gap_start g3 = ?s"
    using gb_move_gap_both_inv [OF g2(2) m(3) [folded g2(3,4)]] g2(3,4) by metis
  have wf3: "gb_wf g3" using g3(2) by (rule gap_inv_wf)
  have le: "gb_gap_end g3 + (?e - ?s) \<le> length (gb_buf g3)" "?s \<le> gb_gap_end g3"
    "gb_gap_end g3 \<le> length (gb_buf g3)"
    using gb_buf_length [OF wf3] m g3 wf3 by (auto simp: gb_wf_def)
  define g4 where "g4 = g3\<lparr>gb_gap_end := gb_gap_end g3 + (?e - ?s),
      gb_total_chars := gb_total_chars g3 - ?n, gb_total_bytes := gb_total_bytes g3 - (?e - ?s)\<rparr>"
  have an: "\<forall>a \<in> set (gb_anchors g4). valid_anchor ?m ?t a"
    using g3 by (simp add: g4_def gap_inv_def)
  obtain ring where ring: "gb_adjust_position_anchors_for_delete ?s ?e (?e - ?s) ?n g4
        = Some (g4\<lparr>gb_anchors := ring\<rparr>)" "length ring = length (gb_anchors g4)"
      "\<forall>a \<in> set ring. valid_anchor ?m (delete_range ?s ?e ?t) a"
    using gb_adjust_delete_valid [OF m(1,2) lok m(5) an] by blast
  let ?g = "g4\<lparr>gb_anchors := ring\<rparr>"
  have tx: "gb_text ?g = delete_range ?s ?e ?t"
    unfolding g3(3) [symmetric] using g3(5) le m
    by (simp add: g4_def gb_text_def delete_range_def add.commute)
  have tot: "gb_total_chars g3 = emacs_char_count_bytes ?t ?m" "gb_total_bytes g3 = length ?t"
    using g3 by (auto simp: gap_inv_def gb_wf_def)
  have off: "char_offset ?m (delete_range ?s ?e ?t) (gb_gap_start_chars g3) ?s"
    using char_offset_delete_before [OF m(1,2) lok, of "gb_gap_start_chars g3" ?s] g3
    by (simp add: gap_inv_def)
  have fields: "gb_gap_start_bytes g3 = ?s" "length (gb_anchors g3) = POSITION_ANCHOR_RING"
      "gb_anchor_next g3 < POSITION_ANCHOR_RING"
    using g3 by (simp_all add: gap_inv_def gb_wf_def)
  have "gap_inv ?g"
    unfolding gap_inv_def gb_wf_def tx
    using fields off ring(2,3) le m(5,6) tot lead_ok_delete [OF m(2) lok] char_count_delete(1) [OF m(5)] g3(4,5)
    by (simp add: g4_def)
  moreover have "gb_delete_measured_range r g = Some ?g"
    using False inv g1 g2 g3 m n tot ring char_count_delete(2) [OF m(5), of ?t ?m]
    by (simp add: gb_delete_measured_range_def gap_inv_wf Let_def g4_def edit_range_char_len_def chk_sub_def)
  moreover have "gb_multibyte ?g = ?m" using g3 by (simp add: g4_def)
  ultimately show thesis using that tx by blast
qed

subsection \<open>Replacement\<close>

lemma gb_replace_inv:
  assumes inv: "gap_inv g" and r: "measured_range (gb_multibyte g) (gb_text g) (tr_old rep)"
    and e: "measured_text (gb_multibyte g) bs (tr_new rep)"
  obtains g' where "gb_replace_measured_range rep bs g = Some g'" "gap_inv g'"
    "gb_multibyte g' = gb_multibyte g"
    "gb_text g' = replace_range (er_byte_start (tr_old rep)) (er_byte_end (tr_old rep)) bs (gb_text g)"
proof -
  let ?r = "tr_old rep" and ?s = "er_byte_start (tr_old rep)" and ?e = "er_byte_end (tr_old rep)"
  note m = measured_rangeD [OF r]
  have lok: "lead_ok (gb_multibyte g) (gb_text g)" using inv by (simp add: gap_inv_def)
  consider (ins) "?s = ?e" | (del) "?s < ?e" "bs = []" | (both) "?s < ?e" "bs \<noteq> []" using m(5) by linarith
  then show thesis
  proof cases
    case ins
    obtain g' where "gb_insert_measured_emacs_bytes ?s bs (tr_new rep) g = Some g'" "gap_inv g'"
      "gb_multibyte g' = gb_multibyte g" "gb_text g' = insert_at ?s bs (gb_text g)"
      using gb_insert_inv [OF inv m(1) e] by blast
    then show thesis using that [of g'] ins
      by (simp add: gb_replace_measured_range_def edit_range_is_empty_def byte_range_is_empty_def)
  next
    case del
    obtain g' where "gb_delete_measured_range ?r g = Some g'" "gap_inv g'"
      "gb_multibyte g' = gb_multibyte g" "gb_text g' = delete_range ?s ?e (gb_text g)"
      using gb_delete_inv [OF inv r] by blast
    then show thesis using that [of g'] del
      by (simp add: gb_replace_measured_range_def edit_range_is_empty_def byte_range_is_empty_def)
  next
    case both
    obtain g1 where g1: "gb_delete_measured_range ?r g = Some g1" "gap_inv g1"
      "gb_multibyte g1 = gb_multibyte g" "gb_text g1 = delete_range ?s ?e (gb_text g)"
      using gb_delete_inv [OF inv r] by blast
    have bd: "is_emacs_char_boundary (gb_text g1) ?s (gb_multibyte g1)"
      unfolding g1 using boundary_delete_before [OF m(1,2) lok m(1)] by simp
    obtain g2 where "gb_insert_measured_emacs_bytes ?s bs (tr_new rep) g1 = Some g2" "gap_inv g2"
      "gb_multibyte g2 = gb_multibyte g" "gb_text g2 = insert_at ?s bs (gb_text g1)"
      using gb_insert_inv [OF g1(2) bd e [folded g1(3)]] g1(3) by metis
    then show thesis using that [of g2] both g1
      by (simp add: gb_replace_measured_range_def edit_range_is_empty_def byte_range_is_empty_def
          replace_range_def)
  qed
qed

text \<open>Overwriting bytes on one side of the gap.\<close>

lemma overwrite_before_gap:
  assumes "s + length ys \<le> G" "G \<le> E" "E \<le> length b"
  shows "take G (take s b @ ys @ drop (s + length ys) b) @ drop E (take s b @ ys @ drop (s + length ys) b)
     = replace_range s (s + length ys) ys (take G b @ drop E b)"
proof -
  have "take G (take s b @ ys @ drop (s + length ys) b) = take s b @ ys @ drop (s + length ys) (take G b)"
    using assms by (simp add: min_absorb2 drop_take)
  moreover have "drop E (take s b @ ys @ drop (s + length ys) b) = drop E b"
    using assms by simp
  ultimately show ?thesis
    using assms by (simp add: replace_range_alt min_absorb2 min_absorb1)
qed

lemma overwrite_after_gap:
  assumes "G \<le> s" "s + (E - G) + length ys \<le> length b" "G \<le> E"
  shows "take G (take (s + (E - G)) b @ ys @ drop (s + (E - G) + length ys) b)
       @ drop E (take (s + (E - G)) b @ ys @ drop (s + (E - G) + length ys) b)
     = replace_range s (s + length ys) ys (take G b @ drop E b)"
proof -
  have e: "s + (E - G) - E = s - G" "s + (E - G) + length ys = E + (s - G + length ys)" "E \<le> s + (E - G)"
    using assms by auto
  have "take G (take (s + (E - G)) b @ ys @ drop (s + (E - G) + length ys) b) = take G b"
    using assms by (simp add: min_absorb1)
  moreover have "drop E (take (s + (E - G)) b @ ys @ drop (s + (E - G) + length ys) b)
      = take (s - G) (drop E b) @ ys @ drop (s - G + length ys) (drop E b)"
    using assms e by (simp add: drop_take add.commute)
  moreover have "replace_range s (s + length ys) ys (take G b @ drop E b)
      = take G b @ take (s - G) (drop E b) @ ys @ drop (s - G + length ys) (drop E b)"
    using assms by (simp add: replace_range_alt min_absorb2 add.commute)
  ultimately show ?thesis by simp
qed

lemma replace_range_split:
  assumes "s \<le> G" "G \<le> e" "e \<le> length xs" "length ys = G - s" "length zs = e - G"
  shows "replace_range G e zs (replace_range s G ys xs) = replace_range s e (ys @ zs) xs"
  using assms by (simp add: replace_range_alt min_absorb2)

lemma char_count_replace:
  assumes "a \<le> b" "b \<le> length tx"
  shows "emacs_char_count_bytes (replace_range a b ys tx) mb + emacs_char_count_bytes (sub_list a b tx) mb
     = emacs_char_count_bytes tx mb + emacs_char_count_bytes ys mb"
  using assms char_count_delete [OF assms(1), of tx mb] by (simp add: replace_range_def char_count_insert)

lemma saturating_add_signed_diff:
  "m \<le> v \<Longrightarrow> (if m \<noteq> n then saturating_add_signed v (int n - int m) else v) = v - m + n"
  by (auto simp: saturating_add_signed_def)

text \<open>One run of the overwrite, for whatever part of it lies on either side of the gap.\<close>

lemma gb_replace_same_len_run:
  fixes rep :: text_replacement
  defines "s \<equiv> er_byte_start (tr_old rep)" and "e \<equiv> er_byte_end (tr_old rep)"
  assumes wf: "gb_wf g" and se: "s < e" "e \<le> length (gb_text g)"
    and bd: "is_emacs_char_boundary (gb_text g) s (gb_multibyte g)"
      "is_emacs_char_boundary (gb_text g) e (gb_multibyte g)"
    and bs: "length bs = e - s" "te_bytes (tr_new rep) = e - s"
      "te_chars (tr_new rep) = emacs_char_count_bytes bs (gb_multibyte g)"
    and B: "B = (if s < gb_gap_start g then min e (gb_gap_start g) - s else 0)"
    and A: "A = (if gb_gap_start g < e then e - max s (gb_gap_start g) else 0)"
    and P: "P = max s (gb_gap_start g) + (gb_gap_end g - gb_gap_start g)"
    and xb: "B \<noteq> 0 \<Longrightarrow> slice (gb_buf g) s (s + B) = Some xb" "B = 0 \<Longrightarrow> xb = []"
    and xa: "A \<noteq> 0 \<Longrightarrow> slice (gb_buf g) P (P + A) = Some xa" "A = 0 \<Longrightarrow> xa = []"
    and old: "edit_range_char_len (tr_old rep)
        = emacs_char_count_bytes xb (gb_multibyte g) + emacs_char_count_bytes xa (gb_multibyte g)"
    and fit: "emacs_char_count_bytes xb (gb_multibyte g) \<le> gb_gap_start_chars g"
      "edit_range_char_len (tr_old rep) \<le> gb_total_chars g"
    and b1: "b1 = (if B = 0 then gb_buf g else take s (gb_buf g) @ take B bs @ drop (s + B) (gb_buf g))"
    and b2: "b2 = (if A = 0 then b1 else take P b1 @ drop B bs @ drop (P + A) b1)"
    and lens: "length b1 = length (gb_buf g)" "A \<noteq> 0 \<Longrightarrow> P + A \<le> length (gb_buf g)" "B + A = e - s"
      "s + B \<le> length (gb_buf g)"
  shows "gb_replace_same_len_measured_range rep bs g = Some (gb_reset_position_anchors
     (g\<lparr>gb_buf := b2,
        gb_gap_start_chars := gb_gap_start_chars g - emacs_char_count_bytes xb (gb_multibyte g)
          + emacs_char_count_bytes (take B bs) (gb_multibyte g),
        gb_total_chars := gb_total_chars g - edit_range_char_len (tr_old rep)
          + emacs_char_count_bytes bs (gb_multibyte g)\<rparr>))"
proof -
  let ?cnt = "\<lambda>xs. emacs_char_count_bytes xs (gb_multibyte g)"
  have G: "gb_gap_start_bytes g = gb_gap_start g" using wf by (simp add: gb_wf_def)
  have lB: "B \<le> length bs" using lens bs by simp
  have ob: "(if B = 0 then Some 0 else do {
        sl \<leftarrow> slice (gb_buf g) s (s + B); Some (?cnt sl) }) = Some (?cnt xb)"
    using xb by simp
  have oa: "(if A = 0 then Some 0 else do {
        sl \<leftarrow> slice (gb_buf g) P (P + A); Some (?cnt sl) }) = Some (?cnt xa)"
    using xa by simp
  have w1: "(if B \<noteq> 0 then copy_from_slice (gb_buf g) s (s + B) (take B bs)
      else Some (gb_buf g)) = Some b1"
    using lens lB by (simp add: b1 copy_from_slice_Some)
  have w2: "(if A \<noteq> 0 then slice bs B (B + A) \<bind> copy_from_slice b1 P (P + A)
      else Some b1) = Some b2"
    using lens bs by (simp add: b2 copy_from_slice_Some)
  have s0: "slice bs 0 B = Some (take B bs)" using lB by simp
  show ?thesis
    unfolding gb_replace_same_len_measured_range_def Let_def s_def [symmetric] e_def [symmetric] G
    using se bs bd wf
    by (simp only: B [symmetric] A [symmetric] P [symmetric] gb_len_wf gb_gap_size_wf bind.bind_lunit
        panic_unless_True less_imp_le gb_is_char_boundary_wf ob oa w1 w2 s0 old
        saturating_add_signed_diff [OF fit(1)] saturating_add_signed_diff [OF fit(2) [unfolded old]] less_imp_neq if_False simp_thms)
qed

lemma take_replace_range:
  "a \<le> b \<Longrightarrow> b \<le> p \<Longrightarrow> p \<le> length xs \<Longrightarrow> length ys = b - a \<Longrightarrow>
     take p (replace_range a b ys xs) = replace_range a b ys (take p xs)"
  "p \<le> a \<Longrightarrow> a \<le> length xs \<Longrightarrow> take p (replace_range a b ys xs) = take p xs"
  "a \<le> p \<Longrightarrow> p \<le> b \<Longrightarrow> a \<le> length xs \<Longrightarrow> length ys = b - a \<Longrightarrow>
     take p (replace_range a b ys xs) = take a xs @ take (p - a) ys"
  by (simp_all add: replace_range_alt min_absorb1 min_absorb2 drop_take)

lemma gb_replace_same_len_before:
  fixes rep :: text_replacement
  defines "s \<equiv> er_byte_start (tr_old rep)" and "e \<equiv> er_byte_end (tr_old rep)"
  assumes inv: "gap_inv g" and r: "measured_range (gb_multibyte g) (gb_text g) (tr_old rep)"
    and ex: "measured_text (gb_multibyte g) bs (tr_new rep)" and bl: "length bs = e - s"
    and se: "s < e" and left: "e \<le> gb_gap_start g"
  shows "\<exists>buf. gb_replace_same_len_measured_range rep bs g = Some (gb_reset_position_anchors
     (g\<lparr>gb_buf := buf,
        gb_gap_start_chars := emacs_char_count_bytes (take (gb_gap_start g) (replace_range s e bs (gb_text g))) (gb_multibyte g),
        gb_total_chars := emacs_char_count_bytes (replace_range s e bs (gb_text g)) (gb_multibyte g)\<rparr>))
     \<and> take (gb_gap_start g) buf @ drop (gb_gap_end g) buf = replace_range s e bs (gb_text g)
     \<and> length buf = length (gb_buf g)"
proof -
  let ?m = "gb_multibyte g" and ?t = "gb_text g" and ?G = "gb_gap_start g" and ?E = "gb_gap_end g"
  let ?cnt = "\<lambda>xs. emacs_char_count_bytes xs (gb_multibyte g)"
  note m = measured_rangeD [OF r, folded s_def e_def] and n = measured_range_char_len [OF r, folded s_def e_def]
  have wf: "gb_wf g" using inv by (simp add: gap_inv_def)
  have le: "?G \<le> ?E" "?E \<le> length (gb_buf g)" "gb_total_chars g = ?cnt ?t" "gb_gap_start_chars g = ?cnt (take ?G ?t)"
    "?G \<le> length ?t"
    using inv gb_wf_gap_start_le [OF wf] by (auto simp: gap_inv_def gb_wf_def char_offset_def)
  define buf where "buf = take s (gb_buf g) @ bs @ drop (s + length bs) (gb_buf g)"
  have xb: "slice (gb_buf g) s e = Some (sub_list s e ?t)" using gb_slice_before [OF wf] left se by simp
  have sub: "sub_list s e (take ?G ?t) = sub_list s e ?t"
    using left by (simp add: sub_list_def drop_take min_absorb1)
  have c1: "?cnt (take ?G ?t) - ?cnt (sub_list s e ?t) + ?cnt bs = ?cnt (take ?G (replace_range s e bs ?t))"
      "?cnt (sub_list s e ?t) \<le> ?cnt (take ?G ?t)"
    using char_count_replace [of s e "take ?G ?t" bs ?m] char_count_delete(2) [of s e "take ?G ?t" ?m]
      take_replace_range(1) [of s e ?G ?t bs] left se bl le sub by auto
  have c2: "?cnt ?t - ?cnt (sub_list s e ?t) + ?cnt bs = ?cnt (replace_range s e bs ?t)"
      "?cnt (sub_list s e ?t) \<le> ?cnt ?t"
    using char_count_replace [of s e ?t bs ?m] char_count_delete(2) [of s e ?t ?m] m by auto
  have "gb_replace_same_len_measured_range rep bs g = Some (gb_reset_position_anchors
     (g\<lparr>gb_buf := buf,
        gb_gap_start_chars := gb_gap_start_chars g - ?cnt (sub_list s e ?t) + ?cnt (take (e - s) bs),
        gb_total_chars := gb_total_chars g - edit_range_char_len (tr_old rep) + ?cnt bs\<rparr>))"
    by (rule gb_replace_same_len_run [OF wf, where rep = rep and A = 0 and xa = "[]" and ?b1.0 = buf, folded s_def e_def])
       (use ex m n le left se bl xb c1 c2 in \<open>simp_all add: measured_text_def buf_def\<close>)
  moreover have "take ?G buf @ drop ?E buf = replace_range s e bs ?t" "length buf = length (gb_buf g)"
    unfolding buf_def using overwrite_before_gap [of s bs ?G ?E "gb_buf g"] left bl se le
    by (simp_all add: gb_text_def)
  ultimately show ?thesis using c1 c2 le n bl by auto
qed

lemma gb_replace_same_len_after:
  fixes rep :: text_replacement
  defines "s \<equiv> er_byte_start (tr_old rep)" and "e \<equiv> er_byte_end (tr_old rep)"
  assumes inv: "gap_inv g" and r: "measured_range (gb_multibyte g) (gb_text g) (tr_old rep)"
    and ex: "measured_text (gb_multibyte g) bs (tr_new rep)" and bl: "length bs = e - s"
    and se: "s < e" and right: "gb_gap_start g \<le> s"
  shows "\<exists>buf. gb_replace_same_len_measured_range rep bs g = Some (gb_reset_position_anchors
     (g\<lparr>gb_buf := buf,
        gb_gap_start_chars := emacs_char_count_bytes (take (gb_gap_start g) (replace_range s e bs (gb_text g))) (gb_multibyte g),
        gb_total_chars := emacs_char_count_bytes (replace_range s e bs (gb_text g)) (gb_multibyte g)\<rparr>))
     \<and> take (gb_gap_start g) buf @ drop (gb_gap_end g) buf = replace_range s e bs (gb_text g)
     \<and> length buf = length (gb_buf g)"
proof -
  let ?m = "gb_multibyte g" and ?t = "gb_text g" and ?G = "gb_gap_start g" and ?E = "gb_gap_end g"
  let ?cnt = "\<lambda>xs. emacs_char_count_bytes xs (gb_multibyte g)" and ?P = "s + (gb_gap_end g - gb_gap_start g)"
  note m = measured_rangeD [OF r, folded s_def e_def] and n = measured_range_char_len [OF r, folded s_def e_def]
  have wf: "gb_wf g" using inv by (simp add: gap_inv_def)
  have le: "?G \<le> ?E" "?E \<le> length (gb_buf g)" "gb_total_chars g = ?cnt ?t" "gb_gap_start_chars g = ?cnt (take ?G ?t)"
    "?G \<le> length ?t"
    using inv gb_wf_gap_start_le [OF wf] by (auto simp: gap_inv_def gb_wf_def char_offset_def)
  have fit: "?P + (e - s) \<le> length (gb_buf g)" "?P + (e - s) = e + (?E - ?G)"
    using gb_buf_length [OF wf] m right le se by auto
  define buf where "buf = take ?P (gb_buf g) @ bs @ drop (?P + length bs) (gb_buf g)"
  have xa: "slice (gb_buf g) ?P (?P + (e - s)) = Some (sub_list s e ?t)"
    unfolding fit(2) using gb_slice_after(2) [OF wf, of s e] right se m by simp
  have c1: "?cnt (take ?G (replace_range s e bs ?t)) = ?cnt (take ?G ?t)"
    using take_replace_range(2) [of ?G s ?t e bs] right m by simp
  have c2: "?cnt ?t - ?cnt (sub_list s e ?t) + ?cnt bs = ?cnt (replace_range s e bs ?t)"
      "?cnt (sub_list s e ?t) \<le> ?cnt ?t"
    using char_count_replace [of s e ?t bs ?m] char_count_delete(2) [of s e ?t ?m] m by auto
  have "gb_replace_same_len_measured_range rep bs g = Some (gb_reset_position_anchors
     (g\<lparr>gb_buf := buf,
        gb_gap_start_chars := gb_gap_start_chars g - ?cnt [] + ?cnt (take 0 bs),
        gb_total_chars := gb_total_chars g - edit_range_char_len (tr_old rep) + ?cnt bs\<rparr>))"
    by (rule gb_replace_same_len_run [OF wf, where rep = rep and A = "e - s" and xa = "sub_list s e ?t" and P = ?P
          and ?b1.0 = "gb_buf g", folded s_def e_def])
       (use ex m n le right se bl xa c1 c2 fit in \<open>simp_all add: measured_text_def buf_def max_absorb1\<close>)
  moreover have "take ?G buf @ drop ?E buf = replace_range s e bs ?t" "length buf = length (gb_buf g)"
    unfolding buf_def using overwrite_after_gap [of ?G s ?E bs "gb_buf g"] right bl se le fit
    by (simp_all add: gb_text_def)
  ultimately show ?thesis using c1 c2 le n bl by auto
qed

lemma gb_replace_same_len_across:
  fixes rep :: text_replacement
  defines "s \<equiv> er_byte_start (tr_old rep)" and "e \<equiv> er_byte_end (tr_old rep)"
  assumes inv: "gap_inv g" and r: "measured_range (gb_multibyte g) (gb_text g) (tr_old rep)"
    and ex: "measured_text (gb_multibyte g) bs (tr_new rep)" and bl: "length bs = e - s"
    and se: "s < gb_gap_start g" "gb_gap_start g < e"
  shows "\<exists>buf. gb_replace_same_len_measured_range rep bs g = Some (gb_reset_position_anchors
     (g\<lparr>gb_buf := buf,
        gb_gap_start_chars := emacs_char_count_bytes (take (gb_gap_start g) (replace_range s e bs (gb_text g))) (gb_multibyte g),
        gb_total_chars := emacs_char_count_bytes (replace_range s e bs (gb_text g)) (gb_multibyte g)\<rparr>))
     \<and> take (gb_gap_start g) buf @ drop (gb_gap_end g) buf = replace_range s e bs (gb_text g)
     \<and> length buf = length (gb_buf g)"
proof -
  let ?m = "gb_multibyte g" and ?t = "gb_text g" and ?G = "gb_gap_start g" and ?E = "gb_gap_end g"
  let ?cnt = "\<lambda>xs. emacs_char_count_bytes xs (gb_multibyte g)"
  let ?b = "gb_buf g" and ?y = "take (?G - s) bs" and ?z = "drop (?G - s) bs"
  note m = measured_rangeD [OF r, folded s_def e_def] and n = measured_range_char_len [OF r, folded s_def e_def]
  have wf: "gb_wf g" using inv by (simp add: gap_inv_def)
  have le: "?G \<le> ?E" "?E \<le> length ?b" "gb_total_chars g = ?cnt ?t" "gb_gap_start_chars g = ?cnt (take ?G ?t)"
    "?G \<le> length ?t"
    using inv gb_wf_gap_start_le [OF wf] by (auto simp: gap_inv_def gb_wf_def char_offset_def)
  have fit: "?E + (e - ?G) \<le> length ?b" using gb_buf_length [OF wf] m se by auto
  have yz: "length ?y = ?G - s" "length ?z = e - ?G" using bl se by auto
  define b1 where "b1 = take s ?b @ ?y @ drop ?G ?b"
  define b2 where "b2 = take ?E b1 @ ?z @ drop (?E + (e - ?G)) b1"
  have l1: "length b1 = length ?b" using yz se le by (simp add: b1_def)
  have xb: "slice ?b s ?G = Some (sub_list s ?G ?t)" using gb_slice_before [OF wf] se by simp
  have xa: "slice ?b ?E (?E + (e - ?G)) = Some (sub_list ?G e ?t)"
    using gb_slice_after(1) [OF wf, of ?G e] se m by simp
  have glue: "?cnt (sub_list s e ?t) = ?cnt (sub_list s ?G ?t) + ?cnt (sub_list ?G e ?t)"
    using sub_list_glue [of s ?G e ?t] se by (metis char_count_append less_imp_le)
  have c1: "?cnt (take ?G ?t) - ?cnt (sub_list s ?G ?t) + ?cnt ?y = ?cnt (take ?G (replace_range s e bs ?t))"
      "?cnt (sub_list s ?G ?t) \<le> ?cnt (take ?G ?t)"
    using char_count_take_sub [of s ?G ?t ?m] take_replace_range(3) [of s ?G e ?t bs] se m bl by auto
  have c2: "?cnt ?t - ?cnt (sub_list s e ?t) + ?cnt bs = ?cnt (replace_range s e bs ?t)"
      "?cnt (sub_list s e ?t) \<le> ?cnt ?t"
    using char_count_replace [of s e ?t bs ?m] char_count_delete(2) [of s e ?t ?m] m by auto
  have "gb_replace_same_len_measured_range rep bs g = Some (gb_reset_position_anchors
     (g\<lparr>gb_buf := b2,
        gb_gap_start_chars := gb_gap_start_chars g - ?cnt (sub_list s ?G ?t) + ?cnt ?y,
        gb_total_chars := gb_total_chars g - edit_range_char_len (tr_old rep) + ?cnt bs\<rparr>))"
    by (rule gb_replace_same_len_run [OF wf, where rep = rep and A = "e - ?G" and P = ?E and xa = "sub_list ?G e ?t"
          and ?b1.0 = b1, folded s_def e_def])
       (use ex m n le se bl xa xb c1 c2 fit glue l1 in
         \<open>simp_all add: measured_text_def b1_def b2_def max_absorb2 min_absorb2\<close>)
  moreover have "take ?G b2 @ drop ?E b2 = replace_range s e bs ?t" "length b2 = length ?b"
  proof -
    have "take ?G b1 @ drop ?E b1 = replace_range s ?G ?y ?t"
      using overwrite_before_gap [of s ?y ?G ?E ?b] yz se le by (simp add: b1_def gb_text_def)
    then show "take ?G b2 @ drop ?E b2 = replace_range s e bs ?t"
      using overwrite_after_gap [of ?G ?G ?E ?z b1] yz se le fit l1
        replace_range_split [of s ?G e ?t ?y ?z] m
      by (simp add: b2_def)
    show "length b2 = length ?b" using yz fit l1 by (simp add: b2_def)
  qed
  ultimately show ?thesis using c1 c2 le n by auto
qed

lemma gb_replace_same_len_inv:
  assumes inv: "gap_inv g" and r: "measured_range (gb_multibyte g) (gb_text g) (tr_old rep)"
    and e: "measured_text (gb_multibyte g) bs (tr_new rep)"
    and len: "length bs = edit_range_byte_len (tr_old rep)"
    and gap: "is_emacs_char_boundary
      (replace_range (er_byte_start (tr_old rep)) (er_byte_end (tr_old rep)) bs (gb_text g))
      (gb_gap_start g) (gb_multibyte g)"
  obtains g' where "gb_replace_same_len_measured_range rep bs g = Some g'" "gap_inv g'"
    "gb_multibyte g' = gb_multibyte g"
    "gb_text g' = replace_range (er_byte_start (tr_old rep)) (er_byte_end (tr_old rep)) bs (gb_text g)"
proof (cases "er_byte_start (tr_old rep) = er_byte_end (tr_old rep)")
  case True
  then show thesis
    using that [of g] inv e len measured_rangeD [OF r]
    by (simp add: gb_replace_same_len_measured_range_def Let_def gap_inv_wf measured_text_def
        edit_range_byte_len_def byte_range_len_def)
next
  case False
  let ?m = "gb_multibyte g" and ?t = "gb_text g" and ?G = "gb_gap_start g" and ?E = "gb_gap_end g"
  let ?s = "er_byte_start (tr_old rep)" and ?e = "er_byte_end (tr_old rep)"
  let ?T = "replace_range ?s ?e bs ?t"
  note m = measured_rangeD [OF r]
  have lt: "?s < ?e" using False m by simp
  have bl: "length bs = ?e - ?s" using len by (simp add: edit_range_byte_len_def byte_range_len_def)
  consider "?e \<le> ?G" | "?G \<le> ?s" | "?s < ?G" "?G < ?e" by linarith
  then obtain buf where run: "gb_replace_same_len_measured_range rep bs g = Some (gb_reset_position_anchors
       (g\<lparr>gb_buf := buf, gb_gap_start_chars := emacs_char_count_bytes (take ?G ?T) ?m,
          gb_total_chars := emacs_char_count_bytes ?T ?m\<rparr>))"
      and buf: "take ?G buf @ drop ?E buf = ?T" "length buf = length (gb_buf g)"
    using gb_replace_same_len_before [OF inv r e bl lt] gb_replace_same_len_after [OF inv r e bl lt]
      gb_replace_same_len_across [OF inv r e bl] by cases blast+
  let ?g = "gb_reset_position_anchors
       (g\<lparr>gb_buf := buf, gb_gap_start_chars := emacs_char_count_bytes (take ?G ?T) ?m,
          gb_total_chars := emacs_char_count_bytes ?T ?m\<rparr>)"
  have tx: "gb_text ?g = ?T" using buf by (simp add: gb_reset_position_anchors_def gb_text_def)
  have "lead_ok ?m ?T"
    unfolding replace_range_def using m inv e
    by (intro lead_ok_insert boundary_delete_before lead_ok_delete) (auto simp: gap_inv_def measured_text_def)
  moreover have "length ?T = length ?t" using m bl by (simp add: length_replace_range)
  ultimately have "gap_inv ?g"
    unfolding gap_inv_def gb_wf_def tx using inv buf gap
    by (simp add: gb_reset_position_anchors_def POSITION_ANCHOR_RING_def char_offset_def anchor_zero_def
        gap_inv_def gb_wf_def)
  moreover have "gb_multibyte ?g = ?m" by (simp add: gb_reset_position_anchors_def)
  ultimately show thesis using that run tx by blast
qed

subsection \<open>Reading characters and ranges\<close>

lemma gb_char_code_at_inv:
  assumes inv: "gap_inv g" and mb: "gb_multibyte g" and cs: "valid_codes cs" "gb_text g = encode_text cs"
    and i: "char_offset True (gb_text g) i k" "i < length cs"
  shows "gb_char_code_at k g = Some (Some (cs ! i))"
proof -
  let ?t = "gb_text g" and ?G = "gb_gap_start g"
  have wf: "gb_wf g" using inv by (rule gap_inv_wf)
  have lok: "lead_ok True ?t" using cs encode_text_lead_ok by simp
  obtain e rest where e: "drop k ?t = e @ rest" "char_offset True ?t (Suc i) (k + length e)"
      "\<And>r. string_char (e @ r) = Some (cs ! i, length e)"
    using encode_text_drop [OF cs(1), of i k] i cs(2) by metis
  have lt: "k < length ?t"
    using char_offset_mono(1) [OF lok i(1) char_offset_end] i encode_text_count [OF cs(1)] cs(2)
    by (simp add: emacs_char_count_bytes_def)
  have bd: "is_emacs_char_boundary ?t k (gb_multibyte g)" using i mb by (simp add: char_offset_def)
  show ?thesis
  proof (cases "k < ?G")
    case True
    have G: "char_offset True ?t (gb_gap_start_chars g) ?G" using inv mb by (simp add: gap_inv_def)
    have "Suc i \<le> gb_gap_start_chars g"
      using char_offset_mono(1) [OF lok i(1) G] True by simp
    then have "k + length e \<le> ?G" using char_offset_mono(2) [OF lok e(2) G] by simp
    then have "sub_list k ?G ?t = e @ take (?G - k - length e) rest" by (simp add: sub_list_def e(1))
    then have "slice (gb_buf g) k ?G = Some (e @ take (?G - k - length e) rest)"
      using gb_slice_before [OF wf, of k ?G] True by simp
    then show ?thesis
      using lt wf bd mb True e(3) by (simp add: gb_char_code_at_def Let_def)
  next
    case False
    have "slice (gb_buf g) (gb_gap_end g + (k - ?G)) (length (gb_buf g)) = Some (sub_list k (length ?t) ?t)"
      using gb_slice_after(1) [OF wf, of k "length ?t"] False lt by (simp add: gb_buf_length [OF wf])
    moreover have "gb_gap_end g + (k - ?G) = k + (gb_gap_end g - ?G)"
      using wf False by (auto simp: gb_wf_def)
    ultimately have "slice (gb_buf g) (k + (gb_gap_end g - ?G)) (length (gb_buf g)) = Some (e @ rest)"
      using e(1) unfolding sub_list_def by (metis length_drop order_refl take_all)
    then show ?thesis
      using lt wf bd mb False e(3) by (simp add: gb_char_code_at_def Let_def)
  qed
qed

lemma gb_chunks_wf:
  assumes wf: "gb_wf g" and r: "br_start r \<le> br_end r" "br_end r \<le> length (gb_text g)"
  shows "\<exists>cs. gb_byte_range_chunks r g = Some cs \<and> concat cs = sub_list (br_start r) (br_end r) (gb_text g)"
proof -
  obtain s e where se: "br_start r = s" "br_end r = e" by blast
  let ?G = "gb_gap_start g"
  have G: "gb_gap_start_bytes g = ?G" "gb_total_bytes g = length (gb_text g)" "?G \<le> gb_gap_end g"
    using wf by (auto simp: gb_wf_def)
  consider "s = e" | "s < e" "e \<le> ?G" | "s < e" "?G \<le> s" "?G < e" | "s < ?G" "?G < e" using r se by linarith
  then show ?thesis
  proof cases
    case 1
    then show ?thesis using r G by (simp add: gb_byte_range_chunks_def se sub_list_def)
  next
    case 2
    then show ?thesis using r G gb_slice_before [OF wf, of s e] by (simp add: gb_byte_range_chunks_def se)
  next
    case 3
    then show ?thesis using r G wf gb_slice_after(2) [OF wf, of s e] by (simp add: gb_byte_range_chunks_def se)
  next
    case 4
    then show ?thesis
      using r G wf gb_slice_before [OF wf, of s ?G] gb_slice_after(2) [OF wf, of ?G e]
        sub_list_glue [of s ?G e "gb_text g"]
      by (simp add: gb_byte_range_chunks_def se)
  qed
qed

lemma gb_make_contiguous_inv:
  assumes inv: "gap_inv g" and r: "br_start r \<le> br_end r"
    "is_emacs_char_boundary (gb_text g) (br_start r) (gb_multibyte g)"
    "is_emacs_char_boundary (gb_text g) (br_end r) (gb_multibyte g)"
  obtains g' where "gb_make_emacs_byte_range_contiguous r g = Some g'" "gap_inv g'"
    "gb_text g' = gb_text g" "gb_multibyte g' = gb_multibyte g"
    "gb_with_contiguous_emacs_byte_range r g' = Some (Some (sub_list (br_start r) (br_end r) (gb_text g)))"
proof -
  obtain s e where se: "br_start r = s" "br_end r = e" by blast
  note outer = that
  have el: "e \<le> length (gb_text g)" using boundary_le [OF r(3)] se by simp
  have slice: "gb_with_contiguous_emacs_byte_range r g' = Some (Some (sub_list s e (gb_text g)))"
    if I: "gap_inv g'" and T: "gb_text g' = gb_text g"
      and C: "s = e \<or> e \<le> gb_gap_start g' \<or> gb_gap_start g' \<le> s" for g'
  proof -
    have wf: "gb_wf g'" using I by (rule gap_inv_wf)
    then have G: "gb_gap_start_bytes g' = gb_gap_start g'" "gb_total_bytes g' = length (gb_text g)"
        "gb_gap_start g' \<le> gb_gap_end g'"
      using T by (auto simp: gb_wf_def)
    consider "s = e" | "s < e" "e \<le> gb_gap_start g'" | "s < e" "gb_gap_start g' \<le> s" "gb_gap_start g' < e"
      using C r(1) se by linarith
    then show ?thesis
      using gb_slice_before [OF wf, of s e] gb_slice_after(2) [OF wf, of s e] G wf r(1) se el T
      by cases (auto simp: gb_with_contiguous_emacs_byte_range_def sub_list_def)
  qed
  have wf: "gb_wf g" using inv by (rule gap_inv_wf)
  then have G: "gb_gap_start_bytes g = gb_gap_start g" "gb_total_bytes g = length (gb_text g)"
    by (auto simp: gb_wf_def)
  have has: "gb_has_contiguous_emacs_byte_range r g
      = Some (s = e \<or> e \<le> gb_gap_start g \<or> gb_gap_start g \<le> s)"
    using r(1) el G by (simp add: gb_has_contiguous_emacs_byte_range_def se)
  show thesis
  proof (cases "s = e \<or> e \<le> gb_gap_start g \<or> gb_gap_start g \<le> s")
    case True
    then show thesis
      using outer [of g] has inv slice [OF inv refl True]
      by (simp add: gb_make_emacs_byte_range_contiguous_def se)
  next
    case False
    obtain g1 where g1: "gb_move_gap_to s g = Some g1" "gap_inv g1" "gb_text g1 = gb_text g"
        "gb_multibyte g1 = gb_multibyte g" "gb_gap_start g1 = s"
      using gb_move_gap_to_inv [OF inv r(2)] se by metis
    obtain g2 where g2: "gb_move_gap_to e g = Some g2" "gap_inv g2" "gb_text g2 = gb_text g"
        "gb_multibyte g2 = gb_multibyte g" "gb_gap_start g2 = e"
      using gb_move_gap_to_inv [OF inv r(3)] se by metis
    have run: "gb_make_emacs_byte_range_contiguous r g
        = (if gb_gap_start g - s \<le> e - gb_gap_start g then Some g1 else Some g2)"
      using False has g1(1) g2(1) by (simp add: gb_make_emacs_byte_range_contiguous_def se)
    show thesis
      using outer [of g1] outer [of g2] run g1(2-5) g2(2-5) slice [OF g1(2,3)] slice [OF g2(2,3)] se
      by (cases "gb_gap_start g - s \<le> e - gb_gap_start g") simp_all
  qed
qed

subsection \<open>Construction, dump and multibyteness\<close>

lemma replicate_anchor_zero_valid: "a \<in> set (replicate n anchor_zero) \<Longrightarrow> valid_anchor mb tx a"
  by (auto simp: anchor_zero_def)

lemma gb_new_inv: "gap_inv (gb_new_with_multibyte mb) \<and> gb_text (gb_new_with_multibyte mb) = []
    \<and> gb_multibyte (gb_new_with_multibyte mb) = mb"
proof -
  have "gb_text (gb_new_with_multibyte mb) = []" by (simp add: gb_new_with_multibyte_def gb_text_def)
  then show ?thesis
    by (auto simp: gap_inv_def gb_wf_def gb_new_with_multibyte_def POSITION_ANCHOR_RING_def anchor_zero_def)
qed

lemma gb_from_emacs_bytes_inv:
  assumes "lead_ok mb bs"
  shows "gap_inv (gb_from_emacs_bytes bs mb)" "gb_text (gb_from_emacs_bytes bs mb) = bs"
    "gb_multibyte (gb_from_emacs_bytes bs mb) = mb"
proof -
  show t: "gb_text (gb_from_emacs_bytes bs mb) = bs" by (simp add: gb_from_emacs_bytes_def gb_text_def Let_def)
  show "gb_multibyte (gb_from_emacs_bytes bs mb) = mb" by (simp add: gb_from_emacs_bytes_def Let_def)
  show "gap_inv (gb_from_emacs_bytes bs mb)"
    unfolding gap_inv_def gb_wf_def t using assms
    by (auto simp: gb_from_emacs_bytes_def POSITION_ANCHOR_RING_def anchor_zero_def Let_def)
qed

lemma gb_from_dump_inv:
  assumes "lead_ok mb bs"
  shows "gap_inv (gb_from_dump bs mb)" "gb_text (gb_from_dump bs mb) = bs"
    "gb_multibyte (gb_from_dump bs mb) = mb"
proof -
  show t: "gb_text (gb_from_dump bs mb) = bs" by (simp add: gb_from_dump_def gb_text_def Let_def)
  show "gb_multibyte (gb_from_dump bs mb) = mb" by (simp add: gb_from_dump_def Let_def)
  show "gap_inv (gb_from_dump bs mb)"
    unfolding gap_inv_def gb_wf_def t using assms
    by (auto simp: gb_from_dump_def POSITION_ANCHOR_RING_def anchor_zero_def Let_def)
qed

lemma gb_from_gap_compat_inv:
  assumes "lead_ok mb bs" "gc_pos st \<le> emacs_char_count_bytes bs mb"
  obtains g where "gb_from_emacs_bytes_with_gap_compat_state bs mb st = Some g" "gap_inv g"
    "gb_text g = bs" "gb_multibyte g = mb" "gb_real_gap_compat_state g = Some st"
proof -
  let ?k = "emacs_char_to_byte_in_slice bs (gc_pos st) mb"
  have off: "char_offset mb bs (gc_pos st) ?k" using emacs_char_to_byte_in_slice_offset [OF assms(2)] .
  then have k: "?k \<le> length bs" using char_offset_le by blast
  obtain g where g: "gb_from_emacs_bytes_with_gap_compat_state bs mb st = Some g"
    "g = \<lparr>gb_buf = take ?k bs @ replicate (gc_byte_len st) 0 @ drop ?k bs, gb_multibyte = mb,
           gb_gap_start = ?k, gb_gap_end = ?k + gc_byte_len st,
           gb_gap_start_chars = gc_pos st, gb_total_chars = emacs_char_count_bytes bs mb,
           gb_gap_start_bytes = ?k, gb_total_bytes = length bs,
           gb_anchors = replicate POSITION_ANCHOR_RING anchor_zero, gb_anchor_next = 0\<rparr>"
    using assms(2) k by (simp add: gb_from_emacs_bytes_with_gap_compat_state_def Let_def min_absorb2)
  have t: "gb_text g = bs" using k by (simp add: g gb_text_def min_absorb2)
  have "gap_inv g"
    unfolding gap_inv_def gb_wf_def t using assms off k
    by (auto simp: g POSITION_ANCHOR_RING_def anchor_zero_def)
  then show thesis
    using that g(1) t by (simp add: g(2) gb_real_gap_compat_state_def gb_gap_size_def)
qed

lemma gb_set_multibyte_inv:
  assumes inv: "gap_inv g" and m: "lead_ok m (gb_text g)"
    "is_emacs_char_boundary (gb_text g) (gb_gap_start g) m"
  obtains g' where "gb_set_multibyte m g = Some g'" "gap_inv g'" "gb_text g' = gb_text g" "gb_multibyte g' = m"
proof (cases "gb_multibyte g = m")
  case True
  then show thesis using that [of g] inv by (simp add: gb_set_multibyte_def)
next
  case False
  let ?g = "g\<lparr>gb_multibyte := m\<rparr>" and ?t = "gb_text g"
  define g' where "g' = gb_reset_position_anchors
      (?g\<lparr>gb_gap_start_chars := emacs_char_count_bytes (take (gb_gap_start g) ?t) m,
         gb_total_chars := emacs_char_count_bytes ?t m,
         gb_gap_start_bytes := gb_gap_start g, gb_total_bytes := length ?t\<rparr>)"
  have wf: "gb_wf ?g" and G: "gb_gap_start g \<le> length ?t"
    using inv gb_wf_gap_start_le [of g] by (auto simp: gap_inv_def gb_wf_def)
  have "gb_copy_emacs_byte_range_to (byte_range_new 0 (length ?t)) ?g = Some ?t"
    using gb_copy_wf [OF wf, of "byte_range_new 0 (length ?t)"] by (simp add: sub_list_def)
  then have "gb_set_multibyte m g = Some g'"
    using False wf G by (simp add: gb_set_multibyte_def Let_def g'_def)
  moreover have t: "gb_text g' = ?t" by (simp add: g'_def gb_reset_position_anchors_def)
  moreover have "gap_inv g'"
    unfolding gap_inv_def gb_wf_def t using inv m
    by (auto simp: g'_def gb_reset_position_anchors_def char_offset_def anchor_zero_def
        POSITION_ANCHOR_RING_def gap_inv_def gb_wf_def)
  ultimately show thesis using that by (simp add: g'_def gb_reset_position_anchors_def)
qed

interpretation gap: text_backend gap_inv gb_text gb_multibyte gb_insert_measured_emacs_bytes
  gb_delete_measured_range gb_replace_measured_range gb_emacs_byte_pos_to_char_pos
  gb_char_pos_to_emacs_byte_pos gb_copy_emacs_byte_range_to gb_metrics lead_ok
proof
  show "lead_ok m bs \<Longrightarrow> lead_ok m bs" for m bs .
  show "lead_ok m bs \<Longrightarrow> is_emacs_char_boundary bs i m \<Longrightarrow> is_emacs_char_boundary bs j m \<Longrightarrow>
      lead_ok m (sub_list i j bs)" for m bs i j
    by (simp add: sub_list_def boundary_drop_lead_ok)
  show "gap_inv b \<Longrightarrow> lead_ok (gb_multibyte b) (gb_text b)" for b by (simp add: gap_inv_def)
  show "gap_inv b \<Longrightarrow> gb_metrics b = Some (metrics_from_lengths
      (emacs_char_count_bytes (gb_text b) (gb_multibyte b)) (length (gb_text b)))" for b
    by (simp add: gb_metrics_def gap_inv_def)
  show "gap_inv b \<Longrightarrow> br_start rg \<le> br_end rg \<Longrightarrow> br_end rg \<le> length (gb_text b) \<Longrightarrow>
      gb_copy_emacs_byte_range_to rg b = Some (sub_list (br_start rg) (br_end rg) (gb_text b))" for b rg
    by (simp add: gb_copy_wf gap_inv_wf)
next
  fix b p bs e
  assume "gap_inv b" "is_emacs_char_boundary (gb_text b) p (gb_multibyte b)" "measured_text (gb_multibyte b) bs e"
    "lead_ok (gb_multibyte b) bs"
  from this(1-3) show "\<exists>b'. gb_insert_measured_emacs_bytes p bs e b = Some b' \<and> gap_inv b'
      \<and> gb_multibyte b' = gb_multibyte b \<and> gb_text b' = insert_at p bs (gb_text b)"
    by (rule gb_insert_inv) blast
next
  fix b r
  assume "gap_inv b" "measured_range (gb_multibyte b) (gb_text b) r"
  then show "\<exists>b'. gb_delete_measured_range r b = Some b' \<and> gap_inv b' \<and> gb_multibyte b' = gb_multibyte b
      \<and> gb_text b' = delete_range (er_byte_start r) (er_byte_end r) (gb_text b)"
    by (rule gb_delete_inv) blast
next
  fix b bs and rep :: text_replacement
  assume "gap_inv b" "measured_range (gb_multibyte b) (gb_text b) (tr_old rep)"
    "measured_text (gb_multibyte b) bs (tr_new rep)" "lead_ok (gb_multibyte b) bs"
  from this(1-3) show "\<exists>b'. gb_replace_measured_range rep bs b = Some b' \<and> gap_inv b' \<and> gb_multibyte b' = gb_multibyte b
      \<and> gb_text b' = replace_range (er_byte_start (tr_old rep)) (er_byte_end (tr_old rep)) bs (gb_text b)"
    by (rule gb_replace_inv) blast
next
  fix b k
  assume "gap_inv b" and k: "is_emacs_char_boundary (gb_text b) k (gb_multibyte b)"
  then show "\<exists>c b'. gb_emacs_byte_pos_to_char_pos k b = Some (c, b') \<and> gap_inv b'
      \<and> gb_multibyte b' = gb_multibyte b \<and> gb_text b' = gb_text b
      \<and> char_offset (gb_multibyte b) (gb_text b) c k"
    by (rule gb_byte_to_char_inv) (use k in \<open>auto simp: char_offset_def\<close>)
next
  fix b c
  assume "gap_inv b"
  then show "\<exists>k b'. gb_char_pos_to_emacs_byte_pos c b = Some (k, b') \<and> gap_inv b'
      \<and> gb_multibyte b' = gb_multibyte b \<and> gb_text b' = gb_text b
      \<and> (if c \<le> emacs_char_count_bytes (gb_text b) (gb_multibyte b)
         then char_offset (gb_multibyte b) (gb_text b) c k else k = length (gb_text b))"
    by (rule gb_char_to_byte_inv [of b c]) blast
qed

subsection \<open>Properties of the gap buffer\<close>

text \<open>The buffer of the witnesses: a text of one, two and one bytes per character.\<close>

definition sample_text :: bytes where "sample_text = [0x61, 0xC3, 0xA9, 0x62]"

definition sample_gap :: gap_buffer where "sample_gap = gb_from_dump sample_text True"

lemma sample_lead_ok: "lead_ok True sample_text" by code_simp

lemma sample_boundaries:
  "is_emacs_char_boundary sample_text 1 True" "is_emacs_char_boundary sample_text 3 True"
  by code_simp+

lemma sample_gap_facts:
  "gap_inv sample_gap" "gb_text sample_gap = sample_text" "gb_multibyte sample_gap"
  using gb_from_dump_inv [OF sample_lead_ok] by (simp_all add: sample_gap_def)

lemma sample_range:
  "measured_range True sample_text (edit_range_new (byte_range_new 1 3) 1 2)"
  by code_simp

text \<open>Inserting measured text at a character boundary of any gap buffer that satisfies the
  invariant succeeds (no assertion, bound or anchor check fires), keeps the invariant and inserts
  exactly these bytes there.\<close>

theorem gap_insert_refines:
  assumes "gap_inv g" "is_emacs_char_boundary (gb_text g) p (gb_multibyte g)"
    "measured_text (gb_multibyte g) bs e"
  shows "\<exists>g'. gb_insert_measured_emacs_bytes p bs e g = Some g' \<and> gap_inv g'
     \<and> gb_multibyte g' = gb_multibyte g \<and> gb_text g' = insert_at p bs (gb_text g)"
  using assms by (intro gap.insert_law) (auto simp: measured_text_def)

theorem gap_insert_refines_witness:
  "\<exists>g'. gb_insert_measured_emacs_bytes 1 [0xC3, 0xA8] (extent_new 1 2) sample_gap = Some g' \<and> gap_inv g'
     \<and> gb_multibyte g' = gb_multibyte sample_gap
     \<and> gb_text g' = insert_at 1 [0xC3, 0xA8] (gb_text sample_gap)"
proof (rule gap_insert_refines)
  show "measured_text (gb_multibyte sample_gap) [0xC3, 0xA8] (extent_new 1 2)" by code_simp
qed (simp_all add: sample_gap_facts sample_boundaries del: One_nat_def)

text \<open>Deleting a measured range succeeds, keeps the invariant and removes exactly that range.\<close>

theorem gap_delete_refines:
  assumes "gap_inv g" "measured_range (gb_multibyte g) (gb_text g) r"
  shows "\<exists>g'. gb_delete_measured_range r g = Some g' \<and> gap_inv g' \<and> gb_multibyte g' = gb_multibyte g
     \<and> gb_text g' = delete_range (er_byte_start r) (er_byte_end r) (gb_text g)"
  using assms by (rule gap.delete_law)

theorem gap_delete_refines_witness:
  "\<exists>g'. gb_delete_measured_range (edit_range_new (byte_range_new 1 3) 1 2) sample_gap = Some g' \<and> gap_inv g'
     \<and> gb_multibyte g' = gb_multibyte sample_gap
     \<and> gb_text g' = delete_range (er_byte_start (edit_range_new (byte_range_new 1 3) 1 2))
          (er_byte_end (edit_range_new (byte_range_new 1 3) 1 2)) (gb_text sample_gap)"
  by (rule gap_delete_refines) (simp_all add: sample_gap_facts sample_range del: One_nat_def)

text \<open>C40: overwriting a measured range in place with as many bytes, on either side of the gap or
  across it, succeeds, keeps the invariant and replaces exactly that range, provided the gap is on
  a character boundary of the new text.\<close>

theorem gap_replace_same_len_refines:
  assumes "gap_inv g" "measured_range (gb_multibyte g) (gb_text g) (tr_old rep)"
    "measured_text (gb_multibyte g) bs (tr_new rep)" "length bs = edit_range_byte_len (tr_old rep)"
    "is_emacs_char_boundary
      (replace_range (er_byte_start (tr_old rep)) (er_byte_end (tr_old rep)) bs (gb_text g))
      (gb_gap_start g) (gb_multibyte g)"
  shows "\<exists>g'. gb_replace_same_len_measured_range rep bs g = Some g' \<and> gap_inv g'
     \<and> gb_multibyte g' = gb_multibyte g
     \<and> gb_text g' = replace_range (er_byte_start (tr_old rep)) (er_byte_end (tr_old rep)) bs (gb_text g)"
  using assms by (rule gb_replace_same_len_inv) blast

theorem gap_replace_same_len_refines_witness:
  "\<exists>g'. gb_replace_same_len_measured_range
        (replacement_new (edit_range_new (byte_range_new 1 3) 1 2) (extent_new 2 2)) [0x78, 0x79] sample_gap = Some g'
     \<and> gap_inv g' \<and> gb_multibyte g' = gb_multibyte sample_gap
     \<and> gb_text g' = replace_range
         (er_byte_start (tr_old (replacement_new (edit_range_new (byte_range_new 1 3) 1 2) (extent_new 2 2))))
         (er_byte_end (tr_old (replacement_new (edit_range_new (byte_range_new 1 3) 1 2) (extent_new 2 2))))
         [0x78, 0x79] (gb_text sample_gap)"
proof (rule gap_replace_same_len_refines)
  show "gap_inv sample_gap" by (rule sample_gap_facts)
qed code_simp+

text \<open>Without that condition the invariant is lost. Swapping the two characters of the text
  \<open>a\<close>, \<open>e-acute\<close> with the gap between them (what \<open>transpose-regions\<close> asks of the storage) passes
  every check and leaves the gap inside the two-byte character: the bytes are the right ones, but
  reading the first character gives the raw byte \<open>0xC3\<close>, and character position 1 is mapped to
  byte 1 instead of byte 2.\<close>

theorem transposition_splits_character:
  "do { g \<leftarrow> gb_from_emacs_bytes_with_gap_compat_state [0x61, 0xC3, 0xA9] True \<lparr>gc_pos = 1, gc_byte_len = 4\<rparr>;
        g \<leftarrow> gb_replace_same_len_measured_range
               (replacement_new (edit_range_new (byte_range_new 0 3) 0 2) (extent_new 2 3)) [0xC3, 0xA9, 0x61] g;
        tx \<leftarrow> gb_dump_text g;
        c \<leftarrow> gb_char_code_at 0 g;
        (k, _) \<leftarrow> gb_char_pos_to_emacs_byte_pos 1 g;
        Some (tx, c, k) }
     = Some ([0xC3, 0xA9, 0x61], Some 0x3FFFC3, 1)
   \<and> string_char [0xC3, 0xA9, 0x61] = Some (0xE9, 2)"
  by code_simp

text \<open>Converting a byte position on a character boundary to a character position counts the
  characters before it, whatever the anchor ring holds: the check against the anchor-free
  computation never fires, and the anchor remembered for later is valid.\<close>

theorem gap_byte_to_char_sound:
  assumes "gap_inv g" "is_emacs_char_boundary (gb_text g) k (gb_multibyte g)"
  shows "\<exists>g'. gb_emacs_byte_pos_to_char_pos k g
        = Some (emacs_char_count_bytes (take k (gb_text g)) (gb_multibyte g), g')
      \<and> gap_inv g' \<and> gb_text g' = gb_text g"
  using assms by (rule gb_byte_to_char_inv) blast

theorem gap_byte_to_char_sound_witness:
  "\<exists>g'. gb_emacs_byte_pos_to_char_pos 3 sample_gap
        = Some (emacs_char_count_bytes (take 3 (gb_text sample_gap)) (gb_multibyte sample_gap), g')
      \<and> gap_inv g' \<and> gb_text g' = gb_text sample_gap"
  by (rule gap_byte_to_char_sound) (simp_all add: sample_gap_facts sample_boundaries del: One_nat_def)

text \<open>Converting a character position gives the byte offset at which that character starts,
  clamped to the end of the text, again independently of the anchor ring.\<close>

theorem gap_char_to_byte_sound:
  assumes "gap_inv g"
  shows "\<exists>k g'. gb_char_pos_to_emacs_byte_pos c g = Some (k, g') \<and> gap_inv g' \<and> gb_text g' = gb_text g
      \<and> (if c \<le> emacs_char_count_bytes (gb_text g) (gb_multibyte g)
         then char_offset (gb_multibyte g) (gb_text g) c k else k = length (gb_text g))"
  using assms by (rule gb_char_to_byte_inv [of g c]) blast

theorem gap_char_to_byte_sound_witness:
  "\<exists>k g'. gb_char_pos_to_emacs_byte_pos 2 sample_gap = Some (k, g') \<and> gap_inv g' \<and> gb_text g' = gb_text sample_gap
      \<and> (if 2 \<le> emacs_char_count_bytes (gb_text sample_gap) (gb_multibyte sample_gap)
         then char_offset (gb_multibyte sample_gap) (gb_text sample_gap) 2 k else k = length (gb_text sample_gap))"
  by (rule gap_char_to_byte_sound) (rule sample_gap_facts)

text \<open>Off a character boundary the byte conversion does not panic, contrary to its
  documentation: it returns a count and remembers the pair, and the next conversion of that
  character position then fails the stale-anchor check.\<close>

theorem unaligned_conversion_poisons_ring:
  "map_option fst (gb_emacs_byte_pos_to_char_pos 1 (gb_from_dump [0xC3, 0xA9, 0x61, 0xC3, 0xA9] True)) = Some 1
   \<and> do { (_, g) \<leftarrow> gb_emacs_byte_pos_to_char_pos 1 (gb_from_dump [0xC3, 0xA9, 0x61, 0xC3, 0xA9] True);
          gb_char_pos_to_emacs_byte_pos 1 g } = None
   \<and> map_option fst (gb_char_pos_to_emacs_byte_pos 1 (gb_from_dump [0xC3, 0xA9, 0x61, 0xC3, 0xA9] True)) = Some 2"
  by code_simp

text \<open>Reading the character at the byte offset of the \<open>i\<close>-th character of well-formed text
  gives that character, on whichever side of the gap it lies.\<close>

theorem gap_char_code_at_correct:
  assumes "gap_inv g" "gb_multibyte g" "valid_codes cs" "gb_text g = encode_text cs"
    "char_offset True (gb_text g) i k" "i < length cs"
  shows "gb_char_code_at k g = Some (Some (cs ! i))"
  using assms by (rule gb_char_code_at_inv)

theorem gap_char_code_at_correct_witness:
  "gb_char_code_at 1 sample_gap = Some (Some ([0x61, 0xE9, 0x62] ! 1))"
proof (rule gap_char_code_at_correct)
  show "valid_codes [0x61, 0xE9, 0x62]" by (simp add: MAX_CHAR_def)
  show "gb_text sample_gap = encode_text [0x61, 0xE9, 0x62]" by code_simp
  show "char_offset True (gb_text sample_gap) 1 1" by code_simp
qed (simp_all add: sample_gap_facts)

text \<open>Making a range contiguous moves only the gap: the text, the invariant and the character
  count are kept, and the range can then be borrowed as one slice with the right bytes.\<close>

theorem gap_make_contiguous_correct:
  assumes "gap_inv g" "br_start r \<le> br_end r"
    "is_emacs_char_boundary (gb_text g) (br_start r) (gb_multibyte g)"
    "is_emacs_char_boundary (gb_text g) (br_end r) (gb_multibyte g)"
  shows "\<exists>g'. gb_make_emacs_byte_range_contiguous r g = Some g' \<and> gap_inv g' \<and> gb_text g' = gb_text g
     \<and> gb_with_contiguous_emacs_byte_range r g' = Some (Some (sub_list (br_start r) (br_end r) (gb_text g)))"
  using assms by (rule gb_make_contiguous_inv) blast

theorem gap_make_contiguous_correct_witness:
  "\<exists>g'. gb_make_emacs_byte_range_contiguous (byte_range_new 1 3) sample_gap = Some g' \<and> gap_inv g'
     \<and> gb_text g' = gb_text sample_gap
     \<and> gb_with_contiguous_emacs_byte_range (byte_range_new 1 3) g'
         = Some (Some (sub_list (br_start (byte_range_new 1 3)) (br_end (byte_range_new 1 3)) (gb_text sample_gap)))"
  by (rule gap_make_contiguous_correct) (simp_all add: sample_gap_facts sample_boundaries del: One_nat_def)

text \<open>C34: growing the gap keeps the text and the gap position, reaches the requested size, and
  never grows it beyond the request plus \<open>GAP_BYTES_DFL\<close>.\<close>

theorem gap_ensure_gap_bounds:
  assumes "gap_inv g"
  shows "\<exists>g'. gb_ensure_gap n g = Some g' \<and> gap_inv g' \<and> gb_text g' = gb_text g
     \<and> gb_gap_start g' = gb_gap_start g \<and> n \<le> gb_gap_end g' - gb_gap_start g'
     \<and> gb_gap_end g' - gb_gap_start g' \<le> max (gb_gap_end g - gb_gap_start g) (n + GAP_BYTES_DFL)"
  using assms by (rule gb_ensure_gap_inv [of g n]) blast

theorem gap_ensure_gap_bounds_witness:
  "\<exists>g'. gb_ensure_gap 10 sample_gap = Some g' \<and> gap_inv g' \<and> gb_text g' = gb_text sample_gap
     \<and> gb_gap_start g' = gb_gap_start sample_gap \<and> 10 \<le> gb_gap_end g' - gb_gap_start g'
     \<and> gb_gap_end g' - gb_gap_start g' \<le> max (gb_gap_end sample_gap - gb_gap_start sample_gap) (10 + GAP_BYTES_DFL)"
  by (rule gap_ensure_gap_bounds) (rule sample_gap_facts)

text \<open>Dumping a gap buffer and rebuilding it, from the dump or with the saved position and size
  of the gap, gives a buffer with the same text and multibyteness, and in the second case the same
  gap.\<close>

theorem gap_dump_round_trip:
  assumes "gap_inv g"
  shows "gb_dump_text g = Some (gb_text g)
     \<and> gap_inv (gb_from_dump (gb_text g) (gb_multibyte g))
     \<and> gb_dump_text (gb_from_dump (gb_text g) (gb_multibyte g)) = Some (gb_text g)
     \<and> (\<exists>st g'. gb_real_gap_compat_state g = Some st
          \<and> gb_from_emacs_bytes_with_gap_compat_state (gb_text g) (gb_multibyte g) st = Some g'
          \<and> gap_inv g' \<and> gb_text g' = gb_text g \<and> gb_real_gap_compat_state g' = Some st)"
proof -
  have lok: "lead_ok (gb_multibyte g) (gb_text g)" and wf: "gb_wf g" using assms by (simp_all add: gap_inv_def)
  note dump = gb_from_dump_inv [OF lok]
  define st where "st = \<lparr>gc_pos = gb_gap_start_chars g, gc_byte_len = gb_gap_end g - gb_gap_start g\<rparr>"
  have st: "gb_real_gap_compat_state g = Some st" using wf by (simp add: gb_real_gap_compat_state_def st_def)
  have "gc_pos st \<le> emacs_char_count_bytes (gb_text g) (gb_multibyte g)"
    using assms char_offset_le by (auto simp: st_def gap_inv_def)
  then obtain g' where "gb_from_emacs_bytes_with_gap_compat_state (gb_text g) (gb_multibyte g) st = Some g'"
      "gap_inv g'" "gb_text g' = gb_text g" "gb_real_gap_compat_state g' = Some st"
    using gb_from_gap_compat_inv [OF lok] by metis
  then show ?thesis
    using st wf dump gb_dump_text_wf gap_inv_wf by auto
qed

theorem gap_dump_round_trip_witness:
  "gb_dump_text sample_gap = Some (gb_text sample_gap)
     \<and> gap_inv (gb_from_dump (gb_text sample_gap) (gb_multibyte sample_gap))
     \<and> gb_dump_text (gb_from_dump (gb_text sample_gap) (gb_multibyte sample_gap)) = Some (gb_text sample_gap)
     \<and> (\<exists>st g'. gb_real_gap_compat_state sample_gap = Some st
          \<and> gb_from_emacs_bytes_with_gap_compat_state (gb_text sample_gap) (gb_multibyte sample_gap) st = Some g'
          \<and> gap_inv g' \<and> gb_text g' = gb_text sample_gap \<and> gb_real_gap_compat_state g' = Some st)"
  by (rule gap_dump_round_trip) (rule sample_gap_facts)

end
