(* ===== verification/Treap_Text.thy ===== *)
theory Treap_Text
  imports Text_Backend_Spec
begin

text \<open>
  The tree that the two indexed backends share.

  \<open>piece_tree.rs\<close> and \<open>rope.rs\<close> (under \<open>src/crates/neovm-core/src/buffer/text/backend/\<close>)
  keep the text as a treap: each node holds an item (a piece of a backing vector, or a chunk of
  bytes), a priority drawn from the counter of \<open>treap.rs\<close>, and the metrics of its subtree. The
  two files repeat the same functions for the two item types. Here they are written once, over
  the extent \<open>ext\<close> of an item and the bytes \<open>cont\<close> it stands for (\<open>None\<close> where slicing the
  backing vector would panic), and the two component theories instantiate them.

  The locales state what an item promises (\<open>treap_items\<close>) and what the code that cuts an item in
  two promises (\<open>treap_splitter\<close>); the facts about the whole tree are proved from that.
\<close>

subsection \<open>Priorities\<close>

definition splitmix64 :: "u64 \<Rightarrow> u64" where
  "splitmix64 x =
     (let x = x + 0x9e3779b97f4a7c15;
          x = (x XOR drop_bit 30 x) * 0xbf58476d1ce4e5b9;
          x = (x XOR drop_bit 27 x) * 0x94d049bb133111eb
      in x XOR drop_bit 31 x)"

definition TREAP_SERIAL_FIRST :: u64 where "TREAP_SERIAL_FIRST = 1"

definition next_priority :: "u64 \<Rightarrow> u64 \<times> u64" where
  "next_priority serial = (splitmix64 serial, serial + 1)"

subsection \<open>Nodes\<close>

datatype 'a treap =
  Tip
| Node (n_item: 'a) (n_priority: u64) (n_metrics: text_metrics) (n_left: "'a treap") (n_right: "'a treap")

fun node_metrics :: "'a treap \<Rightarrow> text_metrics" where
  "node_metrics Tip = metrics_zero"
| "node_metrics (Node x p m l r) = m"

definition node_new :: "('a \<Rightarrow> text_extent) \<Rightarrow> 'a \<Rightarrow> u64 \<Rightarrow> 'a treap" where
  "node_new ext x p = Node x p (metrics_from_extent (ext x)) Tip Tip"

text \<open>A node whose children were reassigned, after \<open>refresh\<close>.\<close>

definition refresh :: "('a \<Rightarrow> text_extent) \<Rightarrow> 'a \<Rightarrow> u64 \<Rightarrow> 'a treap \<Rightarrow> 'a treap \<Rightarrow> 'a treap" where
  "refresh ext x p l r =
     Node x p (add_metrics (add_extent (node_metrics l) (ext x)) (node_metrics r)) l r"

function treap_merge :: "('a \<Rightarrow> text_extent) \<Rightarrow> 'a treap \<Rightarrow> 'a treap \<Rightarrow> 'a treap" where
  "treap_merge ext Tip r = r"
| "treap_merge ext (Node x p m l r) Tip = Node x p m l r"
| "treap_merge ext (Node x p m l r) (Node x' p' m' l' r') =
     (if p' \<le> p then refresh ext x p l (treap_merge ext r (Node x' p' m' l' r'))
      else refresh ext x' p' (treap_merge ext (Node x p m l r) l') r')"
  by pat_completeness auto
termination by (relation "measure (\<lambda>(ext, l, r). size l + size r)") auto

text \<open>
  Splitting walks down to the item that covers the position. What happens when the position is
  strictly inside that item differs between the backends and is the parameter \<open>sever\<close>: it gets
  the item, the offset in it, the two subtrees and the priority counter.
\<close>

type_synonym 'a severer =
  "'a \<Rightarrow> nat \<Rightarrow> 'a treap \<Rightarrow> 'a treap \<Rightarrow> u64 \<Rightarrow> ('a treap \<times> 'a treap \<times> u64) option"

fun treap_split_at_byte ::
    "('a \<Rightarrow> text_extent) \<Rightarrow> 'a severer \<Rightarrow> 'a treap \<Rightarrow> nat \<Rightarrow> u64 \<Rightarrow> ('a treap \<times> 'a treap \<times> u64) option" where
  "treap_split_at_byte ext sever Tip byte_pos s = do {
     panic_unless (byte_pos = 0);
     Some (Tip, Tip, s)
   }"
| "treap_split_at_byte ext sever (Node x p m l r) byte_pos s = do {
     panic_unless (byte_pos \<le> tm_bytes m);
     let item_start = tm_bytes (node_metrics l);
     let item_end = item_start + te_bytes (ext x);
     if byte_pos < item_start then do {
       (ll, lr, s) \<leftarrow> treap_split_at_byte ext sever l byte_pos s;
       Some (ll, refresh ext x p lr r, s)
     }
     else if item_end < byte_pos then do {
       (rl, rr, s) \<leftarrow> treap_split_at_byte ext sever r (byte_pos - item_end) s;
       Some (refresh ext x p l rl, rr, s)
     }
     else do {
       let local = byte_pos - item_start;
       if local = 0 then Some (l, refresh ext x p Tip r, s)
       else if local = te_bytes (ext x) then Some (refresh ext x p l Tip, r, s)
       else sever x local l r s
     }
   }"

subsection \<open>Lookup\<close>

fun byte_to_char_in_node ::
    "('a \<Rightarrow> text_extent) \<Rightarrow> ('a \<Rightarrow> bytes option) \<Rightarrow> bool \<Rightarrow> 'a treap \<Rightarrow> nat \<Rightarrow> nat option" where
  "byte_to_char_in_node ext cont mb Tip byte_pos = Some 0"
| "byte_to_char_in_node ext cont mb (Node x p m l r) byte_pos =
     (let left = node_metrics l in
      if byte_pos \<le> tm_bytes left then byte_to_char_in_node ext cont mb l byte_pos
      else
        let after_left = byte_pos - tm_bytes left in
        if after_left \<le> te_bytes (ext x) then do {
          bs \<leftarrow> cont x;
          c \<leftarrow> emacs_byte_to_char_in_slice bs after_left mb;
          Some (tm_chars left + c)
        }
        else do {
          c \<leftarrow> byte_to_char_in_node ext cont mb r (after_left - te_bytes (ext x));
          Some (tm_chars left + te_chars (ext x) + c)
        })"

fun char_to_byte_in_node ::
    "('a \<Rightarrow> text_extent) \<Rightarrow> ('a \<Rightarrow> bytes option) \<Rightarrow> bool \<Rightarrow> 'a treap \<Rightarrow> nat \<Rightarrow> nat option" where
  "char_to_byte_in_node ext cont mb Tip char_pos = Some 0"
| "char_to_byte_in_node ext cont mb (Node x p m l r) char_pos =
     (let left = node_metrics l in
      if char_pos \<le> tm_chars left then char_to_byte_in_node ext cont mb l char_pos
      else
        let after_left = char_pos - tm_chars left in
        if after_left \<le> te_chars (ext x) then do {
          bs \<leftarrow> cont x;
          Some (tm_bytes left + emacs_char_to_byte_in_slice bs after_left mb)
        }
        else do {
          k \<leftarrow> char_to_byte_in_node ext cont mb r (after_left - te_chars (ext x));
          Some (tm_bytes left + te_bytes (ext x) + k)
        })"

text \<open>
  \<open>for_each_range\<close> calls back with the stretches of a range in order; the model returns the
  stretches.
\<close>

fun for_each_range ::
    "('a \<Rightarrow> text_extent) \<Rightarrow> ('a \<Rightarrow> bytes option) \<Rightarrow> 'a treap \<Rightarrow> nat \<Rightarrow> nat \<Rightarrow> bytes list option" where
  "for_each_range ext cont Tip a b = Some []"
| "for_each_range ext cont (Node x p m l r) a b =
     (if b \<le> a then Some []
      else do {
        let item_start = tm_bytes (node_metrics l);
        pre \<leftarrow> (if a < item_start then for_each_range ext cont l a (min b item_start) else Some []);
        let item_end = item_start + te_bytes (ext x);
        mid \<leftarrow> (if a < item_end \<and> item_start < b then do {
                 bs \<leftarrow> cont x;
                 c \<leftarrow> slice bs (max a item_start - item_start) (min b item_end - item_start);
                 Some [c]
               } else Some []);
        post \<leftarrow> (if item_end < b then for_each_range ext cont r (a - item_end) (b - item_end)
                 else Some []);
        Some (pre @ mid @ post)
      })"

fun contiguous_slice_in_node ::
    "('a \<Rightarrow> text_extent) \<Rightarrow> ('a \<Rightarrow> bytes option) \<Rightarrow> 'a treap \<Rightarrow> nat \<Rightarrow> nat \<Rightarrow> bytes option option" where
  "contiguous_slice_in_node ext cont Tip a b = Some None"
| "contiguous_slice_in_node ext cont (Node x p m l r) a b =
     (let item_start = tm_bytes (node_metrics l);
          item_end = item_start + te_bytes (ext x)
      in if b \<le> item_start then contiguous_slice_in_node ext cont l a b
      else if item_end \<le> a then contiguous_slice_in_node ext cont r (a - item_end) (b - item_end)
      else if item_start \<le> a \<and> b \<le> item_end then do {
        bs \<leftarrow> cont x;
        c \<leftarrow> slice bs (a - item_start) (b - item_start);
        Some (Some c)
      }
      else Some None)"

definition contiguous_slice ::
    "('a \<Rightarrow> text_extent) \<Rightarrow> ('a \<Rightarrow> bytes option) \<Rightarrow> 'a treap \<Rightarrow> nat \<Rightarrow> nat \<Rightarrow> bytes option option" where
  "contiguous_slice ext cont t a b =
     (if a = b then Some (Some []) else contiguous_slice_in_node ext cont t a b)"

subsection \<open>The read operations of a backend with root \<open>t\<close>\<close>

definition treap_len :: "'a treap \<Rightarrow> nat" where
  "treap_len t = tm_bytes (node_metrics t)"

definition treap_byte_at ::
    "('a \<Rightarrow> text_extent) \<Rightarrow> ('a \<Rightarrow> bytes option) \<Rightarrow> 'a treap \<Rightarrow> nat \<Rightarrow> u8 option" where
  "treap_byte_at ext cont t pos = do {
     panic_unless (pos < treap_len t);
     found \<leftarrow> contiguous_slice ext cont t pos (pos + 1);
     single \<leftarrow> found;
     index_at single 0
   }"

definition treap_emacs_byte_at ::
    "('a \<Rightarrow> text_extent) \<Rightarrow> ('a \<Rightarrow> bytes option) \<Rightarrow> 'a treap \<Rightarrow> nat \<Rightarrow> u8 option option" where
  "treap_emacs_byte_at ext cont t pos =
     (if pos < treap_len t then map_option Some (treap_byte_at ext cont t pos) else Some None)"

definition treap_byte_pos_to_char_pos ::
    "('a \<Rightarrow> text_extent) \<Rightarrow> ('a \<Rightarrow> bytes option) \<Rightarrow> bool \<Rightarrow> 'a treap \<Rightarrow> nat \<Rightarrow> nat option" where
  "treap_byte_pos_to_char_pos ext cont mb t byte_pos = do {
     panic_unless (byte_pos \<le> treap_len t);
     byte_to_char_in_node ext cont mb t byte_pos
   }"

definition treap_char_pos_to_byte_pos ::
    "('a \<Rightarrow> text_extent) \<Rightarrow> ('a \<Rightarrow> bytes option) \<Rightarrow> bool \<Rightarrow> 'a treap \<Rightarrow> nat \<Rightarrow> nat option" where
  "treap_char_pos_to_byte_pos ext cont mb t char_pos =
     (let metrics = node_metrics t in
      if tm_chars metrics \<le> char_pos then Some (tm_bytes metrics)
      else char_to_byte_in_node ext cont mb t char_pos)"

definition treap_range_chunks ::
    "('a \<Rightarrow> text_extent) \<Rightarrow> ('a \<Rightarrow> bytes option) \<Rightarrow> 'a treap \<Rightarrow> emacs_byte_range \<Rightarrow> bytes list option" where
  "treap_range_chunks ext cont t rg = do {
     panic_unless (br_start rg \<le> br_end rg);
     panic_unless (br_end rg \<le> treap_len t);
     for_each_range ext cont t (br_start rg) (br_end rg)
   }"

definition treap_copy_range ::
    "('a \<Rightarrow> text_extent) \<Rightarrow> ('a \<Rightarrow> bytes option) \<Rightarrow> 'a treap \<Rightarrow> emacs_byte_range \<Rightarrow> bytes option" where
  "treap_copy_range ext cont t rg = do {
     panic_unless (br_start rg \<le> br_end rg);
     panic_unless (br_end rg \<le> treap_len t);
     chunks \<leftarrow> treap_range_chunks ext cont t rg;
     Some (foldl (@) [] chunks)
   }"

definition treap_has_contiguous ::
    "('a \<Rightarrow> text_extent) \<Rightarrow> ('a \<Rightarrow> bytes option) \<Rightarrow> 'a treap \<Rightarrow> emacs_byte_range \<Rightarrow> bool option" where
  "treap_has_contiguous ext cont t rg = do {
     panic_unless (br_start rg \<le> br_end rg);
     panic_unless (br_end rg \<le> treap_len t);
     if br_start rg = br_end rg then Some True
     else do {
       found \<leftarrow> contiguous_slice ext cont t (br_start rg) (br_end rg);
       Some (found \<noteq> None)
     }
   }"

definition treap_with_contiguous ::
    "('a \<Rightarrow> text_extent) \<Rightarrow> ('a \<Rightarrow> bytes option) \<Rightarrow> 'a treap \<Rightarrow> emacs_byte_range \<Rightarrow> bytes option option" where
  "treap_with_contiguous ext cont t rg = do {
     panic_unless (br_start rg \<le> br_end rg);
     panic_unless (br_end rg \<le> treap_len t);
     if br_start rg = br_end rg then Some (Some [])
     else contiguous_slice ext cont t (br_start rg) (br_end rg)
   }"

definition treap_dump_text ::
    "('a \<Rightarrow> text_extent) \<Rightarrow> ('a \<Rightarrow> bytes option) \<Rightarrow> 'a treap \<Rightarrow> bytes option" where
  "treap_dump_text ext cont t = treap_copy_range ext cont t (byte_range_new 0 (treap_len t))"

text \<open>
  Reading a character copies at most \<open>MAX_MULTIBYTE_LENGTH\<close> bytes, chunk by chunk, into a
  scratch array; \<open>written\<close> is the part of it that has been filled.
\<close>

fun copy_chunks :: "nat \<Rightarrow> bytes list \<Rightarrow> bytes \<Rightarrow> bytes option" where
  "copy_chunks available [] written = Some written"
| "copy_chunks available (chunk # chunks) written = do {
     room \<leftarrow> chk_sub available (length written);
     part \<leftarrow> slice chunk 0 (min room (length chunk));
     copy_chunks available chunks (written @ part)
   }"

definition treap_char_code_at ::
    "('a \<Rightarrow> text_extent) \<Rightarrow> ('a \<Rightarrow> bytes option) \<Rightarrow> bool \<Rightarrow> 'a treap \<Rightarrow> nat \<Rightarrow> u32 option option" where
  "treap_char_code_at ext cont mb t pos =
     (if treap_len t \<le> pos then Some None
      else do {
        _ \<leftarrow> treap_byte_pos_to_char_pos ext cont mb t pos;
        if \<not> mb then do { b \<leftarrow> treap_byte_at ext cont t pos; Some (Some (ucast b)) }
        else do {
          let available = min (treap_len t - pos) MAX_MULTIBYTE_LENGTH;
          chunks \<leftarrow> treap_range_chunks ext cont t (byte_range_from_start_len pos available);
          tmp \<leftarrow> copy_chunks available chunks [];
          (c, _) \<leftarrow> string_char tmp;
          Some (Some c)
        }
      })"

subsection \<open>The text of a tree and its invariant\<close>

fun treap_text :: "('a \<Rightarrow> bytes option) \<Rightarrow> 'a treap \<Rightarrow> bytes" where
  "treap_text cont Tip = []"
| "treap_text cont (Node x p m l r) =
     treap_text cont l @ (case cont x of Some bs \<Rightarrow> bs | None \<Rightarrow> []) @ treap_text cont r"

fun treap_ok :: "('a \<Rightarrow> bool) \<Rightarrow> ('a \<Rightarrow> text_extent) \<Rightarrow> 'a treap \<Rightarrow> bool" where
  "treap_ok good ext Tip \<longleftrightarrow> True"
| "treap_ok good ext (Node x p m l r) \<longleftrightarrow>
     good x \<and> m = add_metrics (add_extent (node_metrics l) (ext x)) (node_metrics r)
     \<and> treap_ok good ext l \<and> treap_ok good ext r"

text \<open>
  The order of priorities that makes a treap a treap: no child outranks its parent. It bounds
  the expected depth, not the contents, and \<open>assert_node_invariants\<close> in \<open>rope.rs\<close> checks it.
\<close>

fun treap_heap :: "'a treap \<Rightarrow> bool" where
  "treap_heap Tip \<longleftrightarrow> True"
| "treap_heap (Node x p m l r) \<longleftrightarrow>
     (case l of Tip \<Rightarrow> True | Node _ pl _ _ _ \<Rightarrow> pl \<le> p)
     \<and> (case r of Tip \<Rightarrow> True | Node _ pr _ _ _ \<Rightarrow> pr \<le> p)
     \<and> treap_heap l \<and> treap_heap r"

fun treap_nodes :: "'a treap \<Rightarrow> nat" where
  "treap_nodes Tip = 0"
| "treap_nodes (Node x p m l r) = Suc (treap_nodes l + treap_nodes r)"

lemma treap_nodes_refresh [simp]:
  "treap_nodes (refresh ext x p l r) = Suc (treap_nodes l + treap_nodes r)"
  by (simp add: refresh_def)

lemma treap_nodes_new [simp]: "treap_nodes (node_new ext x p) = 1"
  by (simp add: node_new_def)

lemma treap_nodes_merge [simp]: "treap_nodes (treap_merge ext l r) = treap_nodes l + treap_nodes r"
  by (induction ext l r rule: treap_merge.induct) auto

lemma extent_new_simps [simp]: "te_chars (extent_new c n) = c" "te_bytes (extent_new c n) = n"
  by (simp_all add: extent_new_def)

text \<open>Joining keeps the order of priorities; the root of the result is one of the two roots.\<close>

lemma treap_merge_root:
  "treap_merge ext l r \<noteq> Tip \<Longrightarrow> n_priority (treap_merge ext l r) \<in>
     (if l = Tip then {} else {n_priority l}) \<union> (if r = Tip then {} else {n_priority r})"
  by (cases "(ext, l, r)" rule: treap_merge.cases) (auto simp: refresh_def)

lemma treap_heap_node:
  "treap_heap (Node x p m l r) \<longleftrightarrow> (l \<noteq> Tip \<longrightarrow> n_priority l \<le> p) \<and> (r \<noteq> Tip \<longrightarrow> n_priority r \<le> p)
     \<and> treap_heap l \<and> treap_heap r"
  by (cases l; cases r) auto

lemma treap_heap_merge: "treap_heap l \<Longrightarrow> treap_heap r \<Longrightarrow> treap_heap (treap_merge ext l r)"
proof (induction ext l r rule: treap_merge.induct)
  case (3 ext x p m l r x' p' m' l' r')
  let ?L = "Node x p m l r" and ?R = "Node x' p' m' l' r'"
  show ?case
  proof (cases "p' \<le> p")
    case True
    then have "treap_heap (treap_merge ext r ?R)" using 3 by (simp add: treap_heap_node del: treap_heap.simps(2))
    moreover have "treap_merge ext r ?R \<noteq> Tip \<longrightarrow> n_priority (treap_merge ext r ?R) \<le> p"
      using treap_merge_root [of ext r ?R] 3(3) True by (auto simp: treap_heap_node simp del: treap_heap.simps(2) split: if_splits)
    ultimately show ?thesis using True 3(3) by (simp add: refresh_def treap_heap_node del: treap_heap.simps(2))
  next
    case False
    then have "treap_heap (treap_merge ext ?L l')" using 3 by (simp add: treap_heap_node del: treap_heap.simps(2))
    moreover have "treap_merge ext ?L l' \<noteq> Tip \<longrightarrow> n_priority (treap_merge ext ?L l') \<le> p'"
      using treap_merge_root [of ext ?L l'] 3(4) False by (auto simp: treap_heap_node simp del: treap_heap.simps(2) split: if_splits)
    ultimately show ?thesis using False 3(4) by (simp add: refresh_def treap_heap_node del: treap_heap.simps(2))
  qed
qed simp_all

lemma metrics_simps [simp]:
  "tm_chars (add_metrics a b) = tm_chars a + tm_chars b"
  "tm_bytes (add_metrics a b) = tm_bytes a + tm_bytes b"
  "tm_chars (add_extent a e) = tm_chars a + te_chars e"
  "tm_bytes (add_extent a e) = tm_bytes a + te_bytes e"
  "tm_chars metrics_zero = 0" "tm_bytes metrics_zero = 0"
  "tm_chars (metrics_from_lengths c n) = c" "tm_bytes (metrics_from_lengths c n) = n"
  "tm_chars (metrics_from_extent e) = te_chars e" "tm_bytes (metrics_from_extent e) = te_bytes e"
  by (simp_all add: add_metrics_def add_extent_def metrics_zero_def metrics_from_lengths_def
      metrics_from_extent_def)

lemma metrics_zero_add [simp]:
  "add_metrics (add_extent metrics_zero e) metrics_zero = metrics_from_extent e"
  by (simp add: add_metrics_def add_extent_def metrics_zero_def metrics_from_extent_def
      metrics_from_lengths_def)

lemma treap_ok_refresh [simp]:
  "treap_ok good ext (refresh ext x p l r) \<longleftrightarrow> good x \<and> treap_ok good ext l \<and> treap_ok good ext r"
  by (auto simp: refresh_def)

lemma treap_text_refresh [simp]:
  "treap_text cont (refresh ext x p l r) =
     treap_text cont l @ (case cont x of Some bs \<Rightarrow> bs | None \<Rightarrow> []) @ treap_text cont r"
  by (simp add: refresh_def)

lemma treap_ok_new [simp]: "treap_ok good ext (node_new ext x p) \<longleftrightarrow> good x"
  by (simp add: node_new_def)

lemma treap_text_new [simp]:
  "treap_text cont (node_new ext x p) = (case cont x of Some bs \<Rightarrow> bs | None \<Rightarrow> [])"
  by (simp add: node_new_def)

lemma treap_ok_merge [simp]:
  "treap_ok good ext l \<Longrightarrow> treap_ok good ext r \<Longrightarrow> treap_ok good ext (treap_merge ext l r)"
  by (induction ext l r rule: treap_merge.induct) auto

lemma treap_text_merge [simp]:
  "treap_text cont (treap_merge ext l r) = treap_text cont l @ treap_text cont r"
  by (induction ext l r rule: treap_merge.induct) auto

text \<open>Positions and ranges of a text in three parts.\<close>

lemma three_segments:
  obtains "k \<le> n" | j where "k = n + j" "0 < j" "j \<le> m" | j where "k = n + (m + j)" "0 < (j::nat)"
proof (cases "k \<le> n")
  case False
  then show ?thesis using that(2) [of "k - n"] that(3) [of "k - n - m"] by (cases "k \<le> n + m") auto
qed (rule that(1))

lemma sub_list_append:
  "sub_list a b (xs @ ys) =
     sub_list a (min b (length xs)) xs @ sub_list (a - length xs) (b - length xs) ys"
  by (cases "b \<le> length xs"; cases "a \<le> length xs") (simp_all add: sub_list_def)

text \<open>Items that stay readable keep the tree as it is.\<close>

lemma treap_ok_mono:
  assumes "treap_ok good ext t" "\<And>x. good x \<Longrightarrow> good' x"
  shows "treap_ok good' ext t"
  using assms by (induction t) auto

lemma treap_text_mono:
  assumes "treap_ok good ext t" "\<And>x. good x \<Longrightarrow> cont' x = cont x"
  shows "treap_text cont' t = treap_text cont t"
  using assms by (induction t) auto

lemma foldl_append_concat: "foldl (@) a xss = a @ concat xss"
  by (induction xss arbitrary: a) auto

lemma copy_chunks_all:
  "length w + length (concat cs) \<le> n \<Longrightarrow> copy_chunks n cs w = Some (w @ concat cs)"
  by (induction cs arbitrary: w) (auto simp: min_absorb2)

subsection \<open>What an item promises\<close>

locale treap_items =
  fixes good :: "'a \<Rightarrow> bool"
    and ext :: "'a \<Rightarrow> text_extent"
    and cont :: "'a \<Rightarrow> bytes option"
    and mb :: bool
  assumes good_item:
    "good x \<Longrightarrow> \<exists>bs. cont x = Some bs \<and> bs \<noteq> [] \<and> lead_ok mb bs \<and> ext x = extent_from_emacs_bytes bs mb"
begin

abbreviation ok where "ok \<equiv> treap_ok good ext"
abbreviation text_of where "text_of \<equiv> treap_text cont"

lemma good_itemE:
  assumes "good x"
  obtains bs where "cont x = Some bs" "bs \<noteq> []" "lead_ok mb bs" "ext x = extent_from_emacs_bytes bs mb"
  using good_item [OF assms] by blast

lemma node_metrics_text:
  assumes "ok t"
  shows "tm_bytes (node_metrics t) = length (text_of t)"
    "tm_chars (node_metrics t) = emacs_char_count_bytes (text_of t) mb"
  using assms by (induction t) (auto elim!: good_itemE)

lemma text_lead_ok: "ok t \<Longrightarrow> lead_ok mb (text_of t)"
  by (induction t) (auto elim!: good_itemE intro!: lead_ok_append)

text \<open>A boundary of the whole is a boundary of the part it falls into.\<close>

lemma boundary_in_node:
  assumes "ok l" "ok r" "lead_ok mb bs" "bs \<noteq> []"
  shows "k \<le> length (text_of l) \<Longrightarrow>
      is_emacs_char_boundary (text_of l @ bs @ text_of r) k mb = is_emacs_char_boundary (text_of l) k mb"
    "k \<le> length bs \<Longrightarrow>
      is_emacs_char_boundary (text_of l @ bs @ text_of r) (length (text_of l) + k) mb = is_emacs_char_boundary bs k mb"
    "is_emacs_char_boundary (text_of l @ bs @ text_of r) (length (text_of l) + (length bs + k)) mb
       = is_emacs_char_boundary (text_of r) k mb"
  using assms text_lead_ok
  by (auto simp: boundary_append boundary_append_left lead_ok_append)

lemma byte_to_char_node:
  assumes "ok t" "is_emacs_char_boundary (text_of t) k mb"
  shows "byte_to_char_in_node ext cont mb t k = Some (emacs_char_count_bytes (take k (text_of t)) mb)"
  using assms
proof (induction t arbitrary: k)
  case (Node x p m l r)
  then have ok: "ok l" "ok r" and "good x" by auto
  from \<open>good x\<close> obtain bs where bs: "cont x = Some bs" "bs \<noteq> []" "lead_ok mb bs"
    "ext x = extent_from_emacs_bytes bs mb" by (rule good_itemE)
  note b = boundary_in_node [OF ok bs(3,2)] and m = node_metrics_text [OF ok(1)]
  let ?n = "length (text_of l)"
  have bd: "is_emacs_char_boundary (text_of l @ bs @ text_of r) k mb" using Node.prems bs by simp
  consider "k \<le> ?n" | j where "k = ?n + j" "0 < j" "j \<le> length bs"
    | j where "k = ?n + (length bs + j)" "0 < j"
    by (rule three_segments)
  then show ?case
  proof cases
    case 1
    then show ?thesis using Node.IH(1) [OF ok(1)] b(1) bd bs m by simp
  next
    case 2
    then have "is_emacs_char_boundary bs j mb" using b(2) bd by simp
    then have "emacs_byte_to_char_in_slice bs j mb = Some (emacs_char_count_bytes (take j bs) mb)"
      by (rule byte_to_char_count)
    then show ?thesis using 2 bs m by simp
  next
    case 3
    then have "is_emacs_char_boundary (text_of r) j mb" using b(3) bd by simp
    then show ?thesis using 3 Node.IH(2) [OF ok(2)] bs m by simp
  qed
qed simp

lemma char_to_byte_node:
  assumes "ok t" "c \<le> emacs_char_count_bytes (text_of t) mb"
  shows "\<exists>k. char_to_byte_in_node ext cont mb t c = Some k \<and> char_offset mb (text_of t) c k"
  using assms
proof (induction t arbitrary: c)
  case (Node x p m l r)
  then have ok: "ok l" "ok r" and "good x" by auto
  from \<open>good x\<close> obtain bs where bs: "cont x = Some bs" "bs \<noteq> []" "lead_ok mb bs"
    "ext x = extent_from_emacs_bytes bs mb" by (rule good_itemE)
  note b = boundary_in_node [OF ok bs(3,2)] and m = node_metrics_text [OF ok(1)]
  let ?n = "emacs_char_count_bytes (text_of l) mb"
  consider "c \<le> ?n" | d where "c = ?n + d" "0 < d" "d \<le> emacs_char_count_bytes bs mb"
    | d where "c = ?n + (emacs_char_count_bytes bs mb + d)" "0 < d"
    by (rule three_segments)
  then show ?case
  proof cases
    case 1
    then obtain k where k: "char_to_byte_in_node ext cont mb l c = Some k" "char_offset mb (text_of l) c k"
      using Node.IH(1) [OF ok(1)] by blast
    then show ?thesis using 1 b(1) bs m char_offset_le [OF k(2)] by (simp add: char_offset_def)
  next
    case 2
    then have o: "char_offset mb bs d (emacs_char_to_byte_in_slice bs d mb)"
      by (intro emacs_char_to_byte_in_slice_offset)
    then show ?thesis using 2 b(2) bs m char_offset_le [OF o] by (simp add: char_offset_def)
  next
    case 3
    then have "d \<le> emacs_char_count_bytes (text_of r) mb" using Node.prems bs by simp
    then obtain k where "char_to_byte_in_node ext cont mb r d = Some k" "char_offset mb (text_of r) d k"
      using Node.IH(2) [OF ok(2)] by blast
    then show ?thesis using 3 b(3) bs m by (simp add: char_offset_def add.assoc)
  qed
qed simp

lemma for_each_range_node:
  assumes "ok t" "a \<le> b" "b \<le> length (text_of t)"
  shows "\<exists>cs. for_each_range ext cont t a b = Some cs \<and> concat cs = sub_list a b (text_of t)"
  using assms
proof (induction t arbitrary: a b)
  case (Node x p m l r)
  then have ok: "ok l" "ok r" and "good x" by auto
  from \<open>good x\<close> obtain bs where bs: "cont x = Some bs" "ext x = extent_from_emacs_bytes bs mb"
    by (rule good_itemE)
  note m = node_metrics_text [OF ok(1)]
  let ?n = "length (text_of l)" and ?e = "length (text_of l) + length bs"
  have sub: "sub_list a b (text_of l @ bs @ text_of r) = sub_list a (min b ?n) (text_of l)
      @ sub_list (a - ?n) (min b ?e - ?n) bs @ sub_list (a - ?e) (b - ?e) (text_of r)"
    by (simp add: sub_list_append) (auto simp: min_def)
  obtain pre where pre: "(if a < ?n then for_each_range ext cont l a (min b ?n) else Some []) = Some pre"
      "concat pre = sub_list a (min b ?n) (text_of l)"
    using Node.IH(1) [OF ok(1), of a "min b ?n"] Node.prems(2)
    by (cases "a < ?n") (auto simp: sub_list_def)
  have "a - ?e \<le> b - ?e" "b - ?e \<le> length (text_of r)" using Node.prems bs by auto
  from Node.IH(2) [OF ok(2) this]
  obtain post where post: "(if ?e < b then for_each_range ext cont r (a - ?e) (b - ?e) else Some []) = Some post"
      "concat post = sub_list (a - ?e) (b - ?e) (text_of r)"
    by (cases "?e < b") (auto simp: sub_list_def)
  have mid: "slice bs (max a ?n - ?n) (min b ?e - ?n) = Some (sub_list (a - ?n) (min b ?e - ?n) bs)"
    if "a < ?e" "?n < b" "a < b" using that by (auto simp: sub_list_def max_def min_def slice_def)
  show ?case
  proof (cases "b \<le> a")
    case True
    then show ?thesis by (simp add: sub_list_def)
  next
    case False
    let ?mid = "if a < ?e \<and> ?n < b then [sub_list (a - ?n) (min b ?e - ?n) bs] else []"
    have cm: "concat ?mid = sub_list (a - ?n) (min b ?e - ?n) bs"
      using False by (auto simp: sub_list_def)
    have ev: "for_each_range ext cont (Node x p m l r) a b = Some (pre @ ?mid @ post)"
      using False pre(1) post(1) mid bs m(1) by (cases "a < ?e"; cases "?n < b") (simp_all add: Let_def)
    have tx: "text_of (Node x p m l r) = text_of l @ bs @ text_of r" using bs by simp
    show ?thesis unfolding ev tx sub by (intro exI conjI, rule refl, simp only: concat_append cm pre(2) post(2))
  qed
qed (simp add: sub_list_def)

lemma contiguous_slice_node:
  assumes "ok t" "a < b" "b \<le> length (text_of t)"
  shows "contiguous_slice_in_node ext cont t a b = Some None
       \<or> contiguous_slice_in_node ext cont t a b = Some (Some (sub_list a b (text_of t)))"
    and "b = Suc a \<Longrightarrow> contiguous_slice_in_node ext cont t a b = Some (Some (sub_list a b (text_of t)))"
proof -
  have "(contiguous_slice_in_node ext cont t a b = Some None \<and> b \<noteq> Suc a)
       \<or> contiguous_slice_in_node ext cont t a b = Some (Some (sub_list a b (text_of t)))"
    using assms
  proof (induction t arbitrary: a b)
    case (Node x p m l r)
    then have ok: "ok l" "ok r" and "good x" by auto
    from \<open>good x\<close> obtain bs where bs: "cont x = Some bs" "ext x = extent_from_emacs_bytes bs mb"
      by (rule good_itemE)
    note m = node_metrics_text [OF ok(1)]
    let ?n = "length (text_of l)" and ?e = "length (text_of l) + length bs"
    consider "b \<le> ?n" | "?n < b" "?e \<le> a" | "?n \<le> a" "b \<le> ?e" "a < ?e" | "?n < b" "a < ?e" "a < ?n \<or> ?e < b"
      using Node.prems(2) by linarith
    then show ?case
    proof cases
      case 1
      then show ?thesis using Node.IH(1) [OF ok(1) Node.prems(2)] bs m
        by (auto simp: sub_list_append sub_list_def min_def)
    next
      case 2
      then have "a - ?e < b - ?e" "b - ?e \<le> length (text_of r)" using Node.prems bs by auto
      from Node.IH(2) [OF ok(2) this] show ?thesis using 2 Node.prems(2) bs m
        by (auto simp: sub_list_append sub_list_def min_def Suc_diff_le)
    next
      case 3
      then show ?thesis using Node.prems(2) bs m
        by (auto simp: sub_list_append sub_list_def min_def)
    next
      case 4
      then show ?thesis using Node.prems(2) bs m by auto
    qed
  qed simp
  then show "contiguous_slice_in_node ext cont t a b = Some None
       \<or> contiguous_slice_in_node ext cont t a b = Some (Some (sub_list a b (text_of t)))"
    and "b = Suc a \<Longrightarrow> contiguous_slice_in_node ext cont t a b = Some (Some (sub_list a b (text_of t)))"
    by auto
qed

lemma treap_len_text [simp]: "ok t \<Longrightarrow> treap_len t = length (text_of t)"
  by (simp add: treap_len_def node_metrics_text)

lemma range_chunks_concat:
  assumes "ok t" "br_start rg \<le> br_end rg" "br_end rg \<le> length (text_of t)"
  shows "\<exists>cs. treap_range_chunks ext cont t rg = Some cs
           \<and> concat cs = sub_list (br_start rg) (br_end rg) (text_of t)"
  using for_each_range_node [OF assms] assms by (simp add: treap_range_chunks_def)

lemma copy_range_text:
  assumes "ok t" "br_start rg \<le> br_end rg" "br_end rg \<le> length (text_of t)"
  shows "treap_copy_range ext cont t rg = Some (sub_list (br_start rg) (br_end rg) (text_of t))"
  using range_chunks_concat [OF assms] assms
  by (auto simp: treap_copy_range_def foldl_append_concat)

lemma dump_text_text: "ok t \<Longrightarrow> treap_dump_text ext cont t = Some (text_of t)"
  by (simp add: treap_dump_text_def copy_range_text sub_list_def)

lemma byte_pos_to_char_pos_text:
  assumes "ok t" "is_emacs_char_boundary (text_of t) k mb"
  shows "treap_byte_pos_to_char_pos ext cont mb t k = Some (emacs_char_count_bytes (take k (text_of t)) mb)"
  using byte_to_char_node [OF assms] boundary_le [OF assms(2)] assms(1)
  by (simp add: treap_byte_pos_to_char_pos_def)

lemma char_pos_to_byte_pos_text:
  assumes "ok t"
  shows "\<exists>k. treap_char_pos_to_byte_pos ext cont mb t c = Some k
     \<and> (if c \<le> emacs_char_count_bytes (text_of t) mb then char_offset mb (text_of t) c k
        else k = length (text_of t))"
  using char_to_byte_node [OF assms, of c] node_metrics_text [OF assms]
  by (auto simp: treap_char_pos_to_byte_pos_def Let_def)

lemma byte_at_text:
  assumes "ok t" "pos < length (text_of t)"
  shows "treap_byte_at ext cont t pos = Some (text_of t ! pos)"
  using contiguous_slice_node(2) [OF assms(1), of pos "Suc pos"] assms
  by (simp add: treap_byte_at_def contiguous_slice_def sub_list_def)

lemma with_contiguous_text:
  assumes "ok t" "br_start rg \<le> br_end rg" "br_end rg \<le> length (text_of t)"
  shows "\<exists>found. treap_with_contiguous ext cont t rg = Some found
      \<and> treap_has_contiguous ext cont t rg = Some (found \<noteq> None)
      \<and> found \<in> {None, Some (sub_list (br_start rg) (br_end rg) (text_of t))}"
  using contiguous_slice_node(1) [OF assms(1), of "br_start rg" "br_end rg"] assms
  by (cases "br_start rg = br_end rg")
    (auto simp: treap_with_contiguous_def treap_has_contiguous_def contiguous_slice_def sub_list_def)

lemma char_code_at_text:
  assumes "ok t" "mb" "valid_codes cs" "text_of t = encode_text cs"
    "char_offset True (text_of t) i k" "i < length cs"
  shows "treap_char_code_at ext cont mb t k = Some (Some (cs ! i))"
proof -
  let ?t = "text_of t" and ?a = "min (length (text_of t) - k) MAX_MULTIBYTE_LENGTH"
  obtain e rest where e: "drop k ?t = e @ rest" "char_string (cs ! i) = Some e"
      "\<And>r. string_char (e @ r) = Some (cs ! i, length e)"
    by (rule encode_text_drop [OF assms(3) assms(5) [unfolded assms(4)] assms(6)]) (simp add: assms(4))
  have "cs ! i \<le> MAX_CHAR" using assms(3,6) by simp
  then obtain e' where "char_string (cs ! i) = Some e'" "length e' = char_bytes (cs ! i)" "e' \<noteq> []"
    by (rule char_string_form) blast
  then have le: "length e \<le> 5" "e \<noteq> []" using e(2) by (auto simp: char_bytes_def)
  have lt: "k < length ?t" using e(1) le(2) by (metis append_is_Nil_conv drop_all not_le)
  have bd: "is_emacs_char_boundary ?t k mb" using assms(2,5) by (simp add: char_offset_def)
  have end_le: "k + ?a \<le> length ?t" using lt by (auto simp: min_def)
  obtain ch where ch: "treap_range_chunks ext cont t (byte_range_from_start_len k ?a) = Some ch"
      "concat ch = sub_list k (k + ?a) ?t"
    using range_chunks_concat [OF assms(1), of "byte_range_from_start_len k ?a"] end_le
    by (auto simp: byte_range_from_start_len_def add_len_def)
  have "length (e @ rest) = length ?t - k" by (metis e(1) length_drop)
  then have sub: "sub_list k (k + ?a) ?t = e @ take (5 - length e) rest"
    using le by (auto simp: sub_list_def e(1) MAX_MULTIBYTE_LENGTH_def min_def)
  have "length (concat ch) = ?a" using ch(2) length_sub_list [OF end_le, of k] by simp
  then have "copy_chunks ?a ch [] = Some (concat ch)"
    using copy_chunks_all [of "[]" ch ?a] by simp
  then have "copy_chunks ?a ch [] = Some (e @ take (5 - length e) rest)"
    using ch(2) sub by simp
  then show ?thesis
    using ch(1) e(3) lt assms(1,2) byte_pos_to_char_pos_text [OF assms(1) bd]
    by (simp add: treap_char_code_at_def Let_def)
qed

end

subsection \<open>What cutting an item promises\<close>

locale treap_splitter = treap_items +
  fixes sever :: "'a severer"
  assumes sever_law:
    "good x \<Longrightarrow> cont x = Some bs \<Longrightarrow> treap_ok good ext l \<Longrightarrow> treap_ok good ext r \<Longrightarrow>
     0 < k \<Longrightarrow> k < length bs \<Longrightarrow> is_emacs_char_boundary bs k mb \<Longrightarrow>
     \<exists>t u s'. sever x k l r s = Some (t, u, s') \<and> treap_ok good ext t \<and> treap_ok good ext u
       \<and> treap_text cont t = treap_text cont l @ take k bs
       \<and> treap_text cont u = drop k bs @ treap_text cont r"
begin

lemma split_at_byte:
  assumes "ok t" "is_emacs_char_boundary (text_of t) k mb"
  shows "\<exists>u v s'. treap_split_at_byte ext sever t k s = Some (u, v, s') \<and> ok u \<and> ok v
           \<and> text_of u = take k (text_of t) \<and> text_of v = drop k (text_of t)"
  using assms
proof (induction t arbitrary: k)
  case (Node x p m l r)
  then have ok: "ok l" "ok r" and good: "good x"
    and meq: "m = add_metrics (add_extent (node_metrics l) (ext x)) (node_metrics r)" by auto
  from good obtain bs where bs: "cont x = Some bs" "bs \<noteq> []" "lead_ok mb bs"
    "ext x = extent_from_emacs_bytes bs mb" by (rule good_itemE)
  note b = boundary_in_node [OF ok bs(3,2)] and m = node_metrics_text [OF ok(1)] node_metrics_text [OF ok(2)]
  let ?n = "length (text_of l)"
  have bd: "is_emacs_char_boundary (text_of l @ bs @ text_of r) k mb" using Node.prems bs by simp
  have le: "k \<le> tm_bytes m" using boundary_le [OF bd] m bs meq by simp
  consider "k < ?n" | "k = ?n" | j where "k = ?n + j" "0 < j" "j < length bs" | "k = ?n + length bs"
    | j where "k = ?n + (length bs + j)" "0 < j"
    by (rule three_segments [where k = k and n = ?n and m = "length bs"]) (auto simp: le_less)
  then show ?case
  proof cases
    case 1
    then show ?thesis using Node.IH(1) [OF ok(1)] b(1) bd bs m(1) ok good le by fastforce
  next
    case 2
    then show ?thesis using bs m(1) ok good le by simp
  next
    case 3
    then have "is_emacs_char_boundary bs j mb" using b(2) bd by simp
    then show ?thesis using 3 sever_law [OF good bs(1) ok, of j s] bs m(1) le by auto
  next
    case 4
    then show ?thesis using bs m(1) ok good le by simp
  next
    case 5
    then have "is_emacs_char_boundary (text_of r) j mb" using b(3) bd by simp
    then obtain u v s' where "treap_split_at_byte ext sever r j s = Some (u, v, s')" "ok u" "ok v"
      "text_of u = take j (text_of r)" "text_of v = drop j (text_of r)"
      using Node.IH(2) [OF ok(2)] by blast
    then show ?thesis using 5 bs m(1) ok good le by simp
  qed
qed (auto dest: boundary_le)

end

end
