(* ===== verification/Piece_Tree.thy ===== *)
theory Piece_Tree
  imports Treap_Text
begin

text \<open>
  The piece-tree backend, \<open>src/crates/neovm-core/src/buffer/text/backend/piece_tree.rs\<close>: two
  backing vectors (the original text and an append-only vector of everything inserted since) and
  a treap of pieces that refer to slices of them. The tree functions are those of
  \<open>Treap_Text\<close> at the item type \<open>piece\<close>.

  The invariant \<open>piece_inv\<close> says that every piece denotes a non-empty slice of its vector that
  starts on a character and whose extent counts it, and that the cached metrics are right. The
  refinement lemmas are collected in the interpretation of \<open>text_backend\<close>.
\<close>

subsection \<open>Pieces\<close>

datatype piece_source = Original | Add

record piece =
  pc_source :: piece_source
  pc_start :: nat
  pc_extent :: text_extent

definition piece_new :: "piece_source \<Rightarrow> nat \<Rightarrow> text_extent \<Rightarrow> piece" where
  "piece_new src start extent = \<lparr>pc_source = src, pc_start = start, pc_extent = extent\<rparr>"

definition pc_len :: "piece \<Rightarrow> nat" where
  "pc_len p = te_bytes (pc_extent p)"

definition pc_source_end :: "piece \<Rightarrow> nat" where
  "pc_source_end p = pc_start p + pc_len p"

definition pc_is_empty :: "piece \<Rightarrow> bool" where
  "pc_is_empty p \<longleftrightarrow> pc_len p = 0"

definition pc_split_at_emacs_byte :: "nat \<Rightarrow> nat \<Rightarrow> piece \<Rightarrow> (piece \<times> piece) option" where
  "pc_split_at_emacs_byte local_byte chars_before p = do {
     panic_unless (0 < local_byte \<and> local_byte < pc_len p);
     chars_after \<leftarrow> chk_sub (te_chars (pc_extent p)) chars_before;
     bytes_after \<leftarrow> chk_sub (pc_len p) local_byte;
     Some (piece_new (pc_source p) (pc_start p) (extent_new chars_before local_byte),
           piece_new (pc_source p) (pc_start p + local_byte) (extent_new chars_after bytes_after))
   }"

subsection \<open>The backend\<close>

type_synonym piece_node = "piece treap"

record piece_tree =
  pt_original :: bytes
  pt_add :: bytes
  pt_multibyte :: bool
  pt_root :: piece_node
  pt_next_piece_serial :: u64

definition pt_piece_slice :: "piece_tree \<Rightarrow> piece \<Rightarrow> bytes option" where
  "pt_piece_slice b p =
     (case pc_source p of
        Original \<Rightarrow> slice (pt_original b) (pc_start p) (pc_source_end p)
      | Add \<Rightarrow> slice (pt_add b) (pc_start p) (pc_source_end p))"

definition pt_piece_byte_to_char :: "piece_tree \<Rightarrow> piece \<Rightarrow> nat \<Rightarrow> nat option" where
  "pt_piece_byte_to_char b p byte_pos = do {
     bs \<leftarrow> pt_piece_slice b p;
     emacs_byte_to_char_in_slice bs byte_pos (pt_multibyte b)
   }"

definition pt_node_for_piece :: "piece \<Rightarrow> u64 \<Rightarrow> piece_node \<times> u64" where
  "pt_node_for_piece p s =
     (if pc_is_empty p then (Tip, s)
      else let (prio, s) = next_priority s in (node_new pc_extent p prio, s))"

definition pt_merge :: "piece_node \<Rightarrow> piece_node \<Rightarrow> piece_node" where
  "pt_merge = treap_merge pc_extent"

definition pt_split_piece :: "piece_tree \<Rightarrow> piece \<Rightarrow> nat \<Rightarrow> (piece \<times> piece) option" where
  "pt_split_piece b p local_byte = do {
     panic_unless (0 < local_byte \<and> local_byte < pc_len p);
     chars_before \<leftarrow> pt_piece_byte_to_char b p local_byte;
     pc_split_at_emacs_byte local_byte chars_before p
   }"

definition pt_sever :: "piece_tree \<Rightarrow> piece severer" where
  "pt_sever b p local l r s = do {
     (left_piece, right_piece) \<leftarrow> pt_split_piece b p local;
     let (left_node, s) = pt_node_for_piece left_piece s;
     let left_tree = pt_merge l left_node;
     let (right_node, s) = pt_node_for_piece right_piece s;
     let right_tree = pt_merge right_node r;
     Some (left_tree, right_tree, s)
   }"

definition pt_split_at_byte ::
    "piece_node \<Rightarrow> nat \<Rightarrow> piece_tree \<Rightarrow> (piece_node \<times> piece_node \<times> piece_tree) option" where
  "pt_split_at_byte t byte_pos b = do {
     (l, r, s) \<leftarrow> treap_split_at_byte pc_extent (pt_sever b) t byte_pos (pt_next_piece_serial b);
     Some (l, r, b\<lparr>pt_next_piece_serial := s\<rparr>)
   }"

subsection \<open>Reading\<close>

definition pt_metrics :: "piece_tree \<Rightarrow> text_metrics" where
  "pt_metrics b = node_metrics (pt_root b)"

definition pt_len :: "piece_tree \<Rightarrow> nat" where
  "pt_len b = treap_len (pt_root b)"

definition pt_is_empty :: "piece_tree \<Rightarrow> bool" where
  "pt_is_empty b \<longleftrightarrow> pt_len b = 0"

definition pt_byte_at :: "nat \<Rightarrow> piece_tree \<Rightarrow> u8 option" where
  "pt_byte_at pos b = treap_byte_at pc_extent (pt_piece_slice b) (pt_root b) pos"

definition pt_emacs_byte_at :: "nat \<Rightarrow> piece_tree \<Rightarrow> u8 option option" where
  "pt_emacs_byte_at pos b = treap_emacs_byte_at pc_extent (pt_piece_slice b) (pt_root b) pos"

definition pt_char_code_at :: "nat \<Rightarrow> piece_tree \<Rightarrow> u32 option option" where
  "pt_char_code_at pos b =
     treap_char_code_at pc_extent (pt_piece_slice b) (pt_multibyte b) (pt_root b) pos"

definition pt_emacs_byte_pos_to_char_pos :: "nat \<Rightarrow> piece_tree \<Rightarrow> nat option" where
  "pt_emacs_byte_pos_to_char_pos byte_pos b =
     treap_byte_pos_to_char_pos pc_extent (pt_piece_slice b) (pt_multibyte b) (pt_root b) byte_pos"

definition pt_char_pos_to_emacs_byte_pos :: "nat \<Rightarrow> piece_tree \<Rightarrow> nat option" where
  "pt_char_pos_to_emacs_byte_pos char_pos b =
     treap_char_pos_to_byte_pos pc_extent (pt_piece_slice b) (pt_multibyte b) (pt_root b) char_pos"

definition pt_copy_emacs_byte_range_to :: "emacs_byte_range \<Rightarrow> piece_tree \<Rightarrow> bytes option" where
  "pt_copy_emacs_byte_range_to rg b = treap_copy_range pc_extent (pt_piece_slice b) (pt_root b) rg"

definition pt_for_each_emacs_byte_range_chunk :: "emacs_byte_range \<Rightarrow> piece_tree \<Rightarrow> bytes list option" where
  "pt_for_each_emacs_byte_range_chunk rg b =
     treap_range_chunks pc_extent (pt_piece_slice b) (pt_root b) rg"

definition pt_has_contiguous_emacs_byte_range :: "emacs_byte_range \<Rightarrow> piece_tree \<Rightarrow> bool option" where
  "pt_has_contiguous_emacs_byte_range rg b =
     treap_has_contiguous pc_extent (pt_piece_slice b) (pt_root b) rg"

definition pt_with_contiguous_emacs_byte_range ::
    "emacs_byte_range \<Rightarrow> piece_tree \<Rightarrow> bytes option option" where
  "pt_with_contiguous_emacs_byte_range rg b =
     treap_with_contiguous pc_extent (pt_piece_slice b) (pt_root b) rg"

definition pt_dump_text :: "piece_tree \<Rightarrow> bytes option" where
  "pt_dump_text b = treap_dump_text pc_extent (pt_piece_slice b) (pt_root b)"

subsection \<open>Building and editing\<close>

definition pt_new :: piece_tree where
  "pt_new = \<lparr>pt_original = [], pt_add = [], pt_multibyte = True, pt_root = Tip,
             pt_next_piece_serial = TREAP_SERIAL_FIRST\<rparr>"

definition pt_from_emacs_bytes :: "bytes \<Rightarrow> bool \<Rightarrow> piece_tree" where
  "pt_from_emacs_bytes bs multibyte =
     (let (root, s) = pt_node_for_piece (piece_new Original 0 (extent_from_emacs_bytes bs multibyte))
                        TREAP_SERIAL_FIRST
      in \<lparr>pt_original = bs, pt_add = [], pt_multibyte = multibyte, pt_root = root,
          pt_next_piece_serial = s\<rparr>)"

definition pt_insert_measured_emacs_bytes ::
    "nat \<Rightarrow> bytes \<Rightarrow> text_extent \<Rightarrow> piece_tree \<Rightarrow> piece_tree option" where
  "pt_insert_measured_emacs_bytes pos bs extent b = do {
     panic_unless (pos \<le> pt_len b);
     if bs = [] then Some b
     else do {
       panic_unless (te_bytes extent = length bs);
       panic_unless (te_chars extent = emacs_char_count_bytes bs (pt_multibyte b));
       _ \<leftarrow> pt_emacs_byte_pos_to_char_pos pos b;
       let add_start = length (pt_add b);
       let b = b\<lparr>pt_add := pt_add b @ bs\<rparr>;
       let (piece, s) = pt_node_for_piece (piece_new Add add_start extent) (pt_next_piece_serial b);
       let root = pt_root b;
       (left, right, b) \<leftarrow> pt_split_at_byte root pos (b\<lparr>pt_root := Tip, pt_next_piece_serial := s\<rparr>);
       Some (b\<lparr>pt_root := pt_merge (pt_merge left piece) right\<rparr>)
     }
   }"

definition pt_delete_measured_range :: "text_edit_range \<Rightarrow> piece_tree \<Rightarrow> piece_tree option" where
  "pt_delete_measured_range r b = do {
     let s = er_byte_start r;
     let e = er_byte_end r;
     panic_unless (s \<le> e);
     panic_unless (e \<le> pt_len b);
     if s = e then Some b
     else do {
       e_char \<leftarrow> pt_emacs_byte_pos_to_char_pos e b;
       s_char \<leftarrow> pt_emacs_byte_pos_to_char_pos s b;
       actual \<leftarrow> chk_sub e_char s_char;
       panic_unless (edit_range_char_len r = actual);
       let root = pt_root b;
       (left, rest, b) \<leftarrow> pt_split_at_byte root s (b\<lparr>pt_root := Tip\<rparr>);
       (deleted, right, b) \<leftarrow> pt_split_at_byte rest (e - s) b;
       Some (b\<lparr>pt_root := pt_merge left right\<rparr>)
     }
   }"

definition pt_replace_measured_range ::
    "text_replacement \<Rightarrow> bytes \<Rightarrow> piece_tree \<Rightarrow> piece_tree option" where
  "pt_replace_measured_range rep bs b =
     (let old_range = tr_old rep in
      if edit_range_is_empty old_range
      then pt_insert_measured_emacs_bytes (er_byte_start old_range) bs (tr_new rep) b
      else if bs = [] then pt_delete_measured_range old_range b
      else do {
        b \<leftarrow> pt_delete_measured_range old_range b;
        pt_insert_measured_emacs_bytes (er_byte_start old_range) bs (tr_new rep) b
      })"

definition pt_replace_same_len_measured_range ::
    "text_replacement \<Rightarrow> bytes \<Rightarrow> piece_tree \<Rightarrow> piece_tree option" where
  "pt_replace_same_len_measured_range rep bs b = do {
     let old_range = tr_old rep;
     let s = er_byte_start old_range;
     let e = er_byte_end old_range;
     panic_unless (s \<le> e);
     panic_unless (e \<le> pt_len b);
     panic_unless (length bs = e - s);
     panic_unless (te_bytes (tr_new rep) = length bs);
     if s = e then Some b
     else do {
       s_char \<leftarrow> pt_emacs_byte_pos_to_char_pos s b;
       panic_unless (er_char_start old_range = s_char);
       e_char \<leftarrow> pt_emacs_byte_pos_to_char_pos e b;
       panic_unless (er_char_end old_range = e_char);
       panic_unless (te_chars (tr_new rep) = te_chars (extent_from_emacs_bytes bs (pt_multibyte b)));
       pt_replace_measured_range rep bs b
     }
   }"

definition pt_rebuild_from_bytes :: "bytes \<Rightarrow> bool \<Rightarrow> piece_tree \<Rightarrow> piece_tree" where
  "pt_rebuild_from_bytes bs multibyte b =
     (let b = b\<lparr>pt_original := bs, pt_add := [], pt_multibyte := multibyte, pt_root := Tip,
                pt_next_piece_serial := TREAP_SERIAL_FIRST\<rparr>;
          (root, s) = pt_node_for_piece
             (piece_new Original 0 (extent_from_emacs_bytes (pt_original b) multibyte))
             (pt_next_piece_serial b)
      in b\<lparr>pt_root := root, pt_next_piece_serial := s\<rparr>)"

definition pt_set_multibyte :: "bool \<Rightarrow> piece_tree \<Rightarrow> piece_tree option" where
  "pt_set_multibyte multibyte b =
     (if pt_multibyte b = multibyte then Some b
      else do { bs \<leftarrow> pt_dump_text b; Some (pt_rebuild_from_bytes bs multibyte b) })"

subsection \<open>The invariant\<close>

definition piece_good :: "piece_tree \<Rightarrow> piece \<Rightarrow> bool" where
  "piece_good b p \<longleftrightarrow>
     (case pt_piece_slice b p of
        None \<Rightarrow> False
      | Some bs \<Rightarrow> bs \<noteq> [] \<and> lead_ok (pt_multibyte b) bs
                   \<and> pc_extent p = extent_from_emacs_bytes bs (pt_multibyte b))"

definition pt_text :: "piece_tree \<Rightarrow> bytes" where
  "pt_text b = treap_text (pt_piece_slice b) (pt_root b)"

definition piece_inv :: "piece_tree \<Rightarrow> bool" where
  "piece_inv b \<longleftrightarrow> treap_ok (piece_good b) pc_extent (pt_root b)"

interpretation pieces: treap_items "piece_good b" pc_extent "pt_piece_slice b" "pt_multibyte b" for b
  by unfold_locales (auto simp: piece_good_def split: option.splits)

lemma piece_new_simps [simp]:
  "pc_source (piece_new src st e) = src" "pc_start (piece_new src st e) = st"
  "pc_extent (piece_new src st e) = e" "pc_len (piece_new src st e) = te_bytes e"
  by (simp_all add: piece_new_def pc_len_def)

text \<open>The tree of a single piece.\<close>

lemma node_for_piece_good:
  assumes "pt_node_for_piece p s = (t, s')" "pt_piece_slice b p = Some bs" "lead_ok (pt_multibyte b) bs"
    "pc_extent p = extent_from_emacs_bytes bs (pt_multibyte b)"
  shows "treap_ok (piece_good b) pc_extent t" "treap_text (pt_piece_slice b) t = bs"
  using assms
  by (auto simp: pt_node_for_piece_def pc_is_empty_def pc_len_def piece_good_def next_priority_def
      split: if_splits)

lemma slice_in_two:
  assumes "slice xs a (a + n) = Some bs" "k \<le> n"
  shows "slice xs a (a + k) = Some (take k bs)" "slice xs (a + k) (a + n) = Some (drop k bs)"
  using assms by (auto simp: slice_def drop_take add.commute split: if_splits)

text \<open>Cutting a piece on a character boundary gives two good pieces.\<close>

lemma split_piece_good:
  assumes "piece_good b p" "pt_piece_slice b p = Some bs" "0 < k" "k < length bs"
    "is_emacs_char_boundary bs k (pt_multibyte b)"
  obtains l r where "pt_split_piece b p k = Some (l, r)"
    "pt_piece_slice b l = Some (take k bs)" "pt_piece_slice b r = Some (drop k bs)"
    "pc_extent l = extent_from_emacs_bytes (take k bs) (pt_multibyte b)"
    "pc_extent r = extent_from_emacs_bytes (drop k bs) (pt_multibyte b)"
proof -
  let ?mb = "pt_multibyte b"
  have e: "pc_extent p = extent_from_emacs_bytes bs ?mb" using assms by (simp add: piece_good_def)
  have len: "pc_len p = length bs" by (simp add: pc_len_def e)
  have cnt: "emacs_char_count_bytes bs ?mb
      = emacs_char_count_bytes (take k bs) ?mb + emacs_char_count_bytes (drop k bs) ?mb"
    by (metis append_take_drop_id char_count_append)
  let ?l = "piece_new (pc_source p) (pc_start p) (extent_new (emacs_char_count_bytes (take k bs) ?mb) k)"
  let ?r = "piece_new (pc_source p) (pc_start p + k)
      (extent_new (emacs_char_count_bytes (drop k bs) ?mb) (length bs - k))"
  have "pt_split_piece b p k = Some (?l, ?r)"
    using assms len e cnt byte_to_char_count [OF assms(5)]
    by (simp add: pt_split_piece_def pt_piece_byte_to_char_def pc_split_at_emacs_byte_def)
  moreover have "pt_piece_slice b ?l = Some (take k bs)" "pt_piece_slice b ?r = Some (drop k bs)"
    using assms(2-4) len slice_in_two [of _ "pc_start p" "length bs" bs k]
    by (auto simp: pt_piece_slice_def pc_source_end_def add.assoc split: piece_source.splits)
  ultimately show thesis using that assms by (simp add: extent_from_emacs_bytes_def)
qed

interpretation cut_pieces: treap_splitter "piece_good b" pc_extent "pt_piece_slice b" "pt_multibyte b"
  "pt_sever b" for b
proof
  fix x bs l r k s
  assume x: "piece_good b x" "pt_piece_slice b x = Some bs" and l: "treap_ok (piece_good b) pc_extent l"
    and r: "treap_ok (piece_good b) pc_extent r"
    and k: "0 < k" "k < length bs" "is_emacs_char_boundary bs k (pt_multibyte b)"
  obtain p q where pq: "pt_split_piece b x k = Some (p, q)"
    "pt_piece_slice b p = Some (take k bs)" "pt_piece_slice b q = Some (drop k bs)"
    "pc_extent p = extent_from_emacs_bytes (take k bs) (pt_multibyte b)"
    "pc_extent q = extent_from_emacs_bytes (drop k bs) (pt_multibyte b)"
    by (rule split_piece_good [OF x k])
  have lead: "lead_ok (pt_multibyte b) bs" using x by (simp add: piece_good_def)
  obtain tp s1 where tp: "pt_node_for_piece p s = (tp, s1)" by fastforce
  obtain tq s2 where tq: "pt_node_for_piece q s1 = (tq, s2)" by fastforce
  note gp = node_for_piece_good [OF tp pq(2) lead_ok_take [OF lead] pq(4)]
    and gq = node_for_piece_good [OF tq pq(3) boundary_drop_lead_ok [OF k(3) lead] pq(5)]
  show "\<exists>t u s'. pt_sever b x k l r s = Some (t, u, s') \<and> treap_ok (piece_good b) pc_extent t
      \<and> treap_ok (piece_good b) pc_extent u
      \<and> treap_text (pt_piece_slice b) t = treap_text (pt_piece_slice b) l @ take k bs
      \<and> treap_text (pt_piece_slice b) u = drop k bs @ treap_text (pt_piece_slice b) r"
    using pq(1) tp tq gp gq l r by (simp add: pt_sever_def pt_merge_def)
qed

subsection \<open>Every operation keeps the invariant and refines the list operation\<close>

text \<open>What a piece denotes depends on the two vectors only.\<close>

lemma piece_slice_update [simp]:
  "pt_piece_slice (b\<lparr>pt_root := t\<rparr>) = pt_piece_slice b"
  "pt_piece_slice (b\<lparr>pt_next_piece_serial := s\<rparr>) = pt_piece_slice b"
  by (simp_all add: pt_piece_slice_def fun_eq_iff split: piece_source.splits)

lemma piece_good_update [simp]:
  "piece_good (b\<lparr>pt_root := t\<rparr>) = piece_good b"
  "piece_good (b\<lparr>pt_next_piece_serial := s\<rparr>) = piece_good b"
  by (simp_all add: piece_good_def fun_eq_iff split: option.splits)

lemma piece_slice_append:
  "pt_piece_slice b p = Some bs \<Longrightarrow> pt_piece_slice (b\<lparr>pt_add := pt_add b @ ys\<rparr>) p = Some bs"
  by (auto simp: pt_piece_slice_def slice_def split: piece_source.splits if_splits)

lemma piece_good_append:
  assumes "piece_good b p"
  shows "piece_good (b\<lparr>pt_add := pt_add b @ ys\<rparr>) p"
    "pt_piece_slice (b\<lparr>pt_add := pt_add b @ ys\<rparr>) p = pt_piece_slice b p"
  using assms piece_slice_append [of b p _ ys] by (auto simp: piece_good_def split: option.splits)

lemma piece_append_tree:
  assumes "treap_ok (piece_good b) pc_extent t"
  shows "treap_ok (piece_good (b\<lparr>pt_add := pt_add b @ ys\<rparr>)) pc_extent t"
    "treap_text (pt_piece_slice (b\<lparr>pt_add := pt_add b @ ys\<rparr>)) t = treap_text (pt_piece_slice b) t"
  by (rule treap_ok_mono [OF assms piece_good_append(1)], assumption)
    (rule treap_text_mono [OF assms piece_good_append(2)], assumption)

lemma pt_split_correct:
  assumes "treap_ok (piece_good b) pc_extent t"
    "is_emacs_char_boundary (treap_text (pt_piece_slice b) t) k (pt_multibyte b)"
  obtains u v s where "pt_split_at_byte t k b = Some (u, v, b\<lparr>pt_next_piece_serial := s\<rparr>)"
    "treap_ok (piece_good b) pc_extent u" "treap_ok (piece_good b) pc_extent v"
    "treap_text (pt_piece_slice b) u = take k (treap_text (pt_piece_slice b) t)"
    "treap_text (pt_piece_slice b) v = drop k (treap_text (pt_piece_slice b) t)"
  using cut_pieces.split_at_byte [OF assms, of "pt_next_piece_serial b"] that
  by (auto simp: pt_split_at_byte_def)

lemma piece_inv_len [simp]: "piece_inv b \<Longrightarrow> pt_len b = length (pt_text b)"
  by (simp add: piece_inv_def pt_len_def pt_text_def)

lemma piece_inv_lead_ok: "piece_inv b \<Longrightarrow> lead_ok (pt_multibyte b) (pt_text b)"
  unfolding piece_inv_def pt_text_def by (rule pieces.text_lead_ok)

lemma pt_byte_to_char:
  assumes "piece_inv b" "is_emacs_char_boundary (pt_text b) k (pt_multibyte b)"
  shows "pt_emacs_byte_pos_to_char_pos k b = Some (emacs_char_count_bytes (take k (pt_text b)) (pt_multibyte b))"
  using assms unfolding piece_inv_def pt_text_def pt_emacs_byte_pos_to_char_pos_def
  by (rule pieces.byte_pos_to_char_pos_text)

lemma pt_char_to_byte:
  assumes "piece_inv b"
  shows "\<exists>k. pt_char_pos_to_emacs_byte_pos c b = Some k
     \<and> (if c \<le> emacs_char_count_bytes (pt_text b) (pt_multibyte b)
        then char_offset (pt_multibyte b) (pt_text b) c k else k = length (pt_text b))"
  using assms unfolding piece_inv_def pt_text_def pt_char_pos_to_emacs_byte_pos_def
  by (rule pieces.char_pos_to_byte_pos_text)

lemma pt_from_emacs_bytes_inv:
  assumes "lead_ok mb bs"
  shows "piece_inv (pt_from_emacs_bytes bs mb)" "pt_text (pt_from_emacs_bytes bs mb) = bs"
    "pt_multibyte (pt_from_emacs_bytes bs mb) = mb"
proof -
  let ?p = "piece_new Original 0 (extent_from_emacs_bytes bs mb)"
  obtain t s where t: "pt_node_for_piece ?p TREAP_SERIAL_FIRST = (t, s)" by fastforce
  let ?b = "\<lparr>pt_original = bs, pt_add = [], pt_multibyte = mb, pt_root = t, pt_next_piece_serial = s\<rparr>"
  have "pt_from_emacs_bytes bs mb = ?b" by (simp add: pt_from_emacs_bytes_def t)
  moreover have "pt_piece_slice ?b ?p = Some bs"
    by (simp add: pt_piece_slice_def pc_source_end_def)
  ultimately show "piece_inv (pt_from_emacs_bytes bs mb)" "pt_text (pt_from_emacs_bytes bs mb) = bs"
    "pt_multibyte (pt_from_emacs_bytes bs mb) = mb"
    using node_for_piece_good [OF t, of ?b bs] assms by (simp_all add: piece_inv_def pt_text_def)
qed

lemma pt_insert_inv:
  assumes inv: "piece_inv b" and p: "is_emacs_char_boundary (pt_text b) p (pt_multibyte b)"
    and bs: "measured_text (pt_multibyte b) bs e"
  obtains b' where "pt_insert_measured_emacs_bytes p bs e b = Some b'" "piece_inv b'"
    "pt_multibyte b' = pt_multibyte b" "pt_text b' = insert_at p bs (pt_text b)"
proof (cases "bs = []")
  case True
  then show ?thesis
    using that [of b] inv boundary_le [OF p] by (simp add: pt_insert_measured_emacs_bytes_def)
next
  case False
  let ?b1 = "b\<lparr>pt_add := pt_add b @ bs\<rparr>" and ?p = "piece_new Add (length (pt_add b)) e"
  have e: "e = extent_from_emacs_bytes bs (pt_multibyte b)" "lead_ok (pt_multibyte b) bs"
    using bs by (auto simp: measured_text_def)
  obtain t s where t: "pt_node_for_piece ?p (pt_next_piece_serial b) = (t, s)" by fastforce
  let ?b2 = "?b1\<lparr>pt_root := Tip, pt_next_piece_serial := s\<rparr>"
  have "pt_piece_slice ?b2 ?p = Some bs" by (simp add: pt_piece_slice_def pc_source_end_def e)
  then have t2: "treap_ok (piece_good ?b2) pc_extent t" "treap_text (pt_piece_slice ?b2) t = bs"
    using node_for_piece_good [OF t, of ?b2 bs] e by simp_all
  note old = piece_append_tree [of b "pt_root b" bs]
  have r2: "treap_ok (piece_good ?b2) pc_extent (pt_root b)" "treap_text (pt_piece_slice ?b2) (pt_root b) = pt_text b"
    using old inv by (simp_all add: piece_inv_def pt_text_def)
  obtain u v s' where uv: "pt_split_at_byte (pt_root b) p ?b2 = Some (u, v, ?b2\<lparr>pt_next_piece_serial := s'\<rparr>)"
    "treap_ok (piece_good ?b2) pc_extent u" "treap_ok (piece_good ?b2) pc_extent v"
    "treap_text (pt_piece_slice ?b2) u = take p (pt_text b)" "treap_text (pt_piece_slice ?b2) v = drop p (pt_text b)"
    by (rule pt_split_correct [OF r2(1), of p]) (use r2(2) p in simp_all)
  let ?b3 = "?b2\<lparr>pt_next_piece_serial := s', pt_root := pt_merge (pt_merge u t) v\<rparr>"
  have "pt_insert_measured_emacs_bytes p bs e b = Some ?b3"
    using False boundary_le [OF p] inv e t uv(1) pt_byte_to_char [OF inv p]
    by (simp add: pt_insert_measured_emacs_bytes_def Let_def)
  moreover have "piece_inv ?b3" "pt_text ?b3 = insert_at p bs (pt_text b)"
    using uv t2 by (simp_all add: piece_inv_def pt_text_def pt_merge_def insert_at_def)
  ultimately show ?thesis using that by simp
qed

lemma pt_delete_inv:
  assumes inv: "piece_inv b" and r: "measured_range (pt_multibyte b) (pt_text b) r"
  obtains b' where "pt_delete_measured_range r b = Some b'" "piece_inv b'"
    "pt_multibyte b' = pt_multibyte b" "pt_text b' = delete_range (er_byte_start r) (er_byte_end r) (pt_text b)"
proof (cases "er_byte_start r = er_byte_end r")
  case True
  then show ?thesis
    using that [of b] inv measured_rangeD [OF r] by (simp add: pt_delete_measured_range_def)
next
  case False
  let ?s = "er_byte_start r" and ?e = "er_byte_end r" and ?mb = "pt_multibyte b" and ?t = "pt_text b"
  let ?b0 = "b\<lparr>pt_root := Tip\<rparr>"
  note m = measured_rangeD [OF r] and lok = piece_inv_lead_ok [OF inv]
  have root: "treap_ok (piece_good ?b0) pc_extent (pt_root b)" "treap_text (pt_piece_slice ?b0) (pt_root b) = ?t"
    using inv by (simp_all add: piece_inv_def pt_text_def)
  obtain u v s1 where 1: "pt_split_at_byte (pt_root b) ?s ?b0 = Some (u, v, ?b0\<lparr>pt_next_piece_serial := s1\<rparr>)"
    "treap_ok (piece_good ?b0) pc_extent u" "treap_ok (piece_good ?b0) pc_extent v"
    "treap_text (pt_piece_slice ?b0) u = take ?s ?t" "treap_text (pt_piece_slice ?b0) v = drop ?s ?t"
    by (rule pt_split_correct [OF root(1), of ?s]) (use root(2) m in simp_all)
  let ?b1 = "?b0\<lparr>pt_next_piece_serial := s1\<rparr>"
  have bd: "is_emacs_char_boundary (drop ?s ?t) (?e - ?s) ?mb" using m lok by (simp add: boundary_drop)
  obtain d w s2 where 2: "pt_split_at_byte v (?e - ?s) ?b1 = Some (d, w, ?b1\<lparr>pt_next_piece_serial := s2\<rparr>)"
    "treap_ok (piece_good ?b1) pc_extent w" "treap_text (pt_piece_slice ?b1) w = drop ?e ?t"
    by (rule pt_split_correct [of ?b1 v "?e - ?s"]) (use 1 bd m in simp_all)
  let ?b2 = "?b1\<lparr>pt_next_piece_serial := s2, pt_root := pt_merge u w\<rparr>"
  have "er_char_start r \<le> er_char_end r" using measured_range_char_len(1) [OF r] by linarith
  then have "pt_delete_measured_range r b = Some ?b2"
    using False m inv 1(1) 2(1) pt_byte_to_char [OF inv m(1)] pt_byte_to_char [OF inv m(2)]
    by (simp add: pt_delete_measured_range_def Let_def char_offset_def edit_range_char_len_def)
  moreover have "piece_inv ?b2" "pt_text ?b2 = delete_range ?s ?e ?t"
    using 1 2 by (simp_all add: piece_inv_def pt_text_def pt_merge_def delete_range_def)
  ultimately show ?thesis using that by simp
qed

lemma pt_replace_inv:
  assumes inv: "piece_inv b" and r: "measured_range (pt_multibyte b) (pt_text b) (tr_old rep)"
    and bs: "measured_text (pt_multibyte b) bs (tr_new rep)"
  obtains b' where "pt_replace_measured_range rep bs b = Some b'" "piece_inv b'"
    "pt_multibyte b' = pt_multibyte b"
    "pt_text b' = replace_range (er_byte_start (tr_old rep)) (er_byte_end (tr_old rep)) bs (pt_text b)"
proof -
  let ?s = "er_byte_start (tr_old rep)" and ?e = "er_byte_end (tr_old rep)"
  note m = measured_rangeD [OF r]
  obtain b1 where 1: "pt_delete_measured_range (tr_old rep) b = Some b1" "piece_inv b1"
    "pt_multibyte b1 = pt_multibyte b" "pt_text b1 = delete_range ?s ?e (pt_text b)"
    by (rule pt_delete_inv [OF inv r])
  have bd: "is_emacs_char_boundary (pt_text b1) ?s (pt_multibyte b1)"
    unfolding 1 using m piece_inv_lead_ok [OF inv] by (intro boundary_delete_before) auto
  obtain b2 where 2: "pt_insert_measured_emacs_bytes ?s bs (tr_new rep) b1 = Some b2" "piece_inv b2"
    "pt_multibyte b2 = pt_multibyte b1" "pt_text b2 = insert_at ?s bs (pt_text b1)"
    by (rule pt_insert_inv [OF 1(2) bd]) (use bs 1 in simp_all)
  obtain b3 where 3: "pt_insert_measured_emacs_bytes ?s bs (tr_new rep) b = Some b3" "piece_inv b3"
    "pt_multibyte b3 = pt_multibyte b" "pt_text b3 = insert_at ?s bs (pt_text b)"
    by (rule pt_insert_inv [OF inv m(1) bs])
  show ?thesis
  proof (cases "edit_range_is_empty (tr_old rep)")
    case True
    then have "?s = ?e" using m by (simp add: edit_range_is_empty_def byte_range_is_empty_def)
    then show ?thesis using True 3 that by (simp add: pt_replace_measured_range_def)
  next
    case False
    then show ?thesis using 1 2 that
      by (cases "bs = []") (auto simp: pt_replace_measured_range_def replace_range_def)
  qed
qed

lemma pt_replace_same_len_inv:
  assumes inv: "piece_inv b" and r: "measured_range (pt_multibyte b) (pt_text b) (tr_old rep)"
    and bs: "measured_text (pt_multibyte b) bs (tr_new rep)"
    and len: "length bs = er_byte_end (tr_old rep) - er_byte_start (tr_old rep)"
  obtains b' where "pt_replace_same_len_measured_range rep bs b = Some b'" "piece_inv b'"
    "pt_multibyte b' = pt_multibyte b"
    "pt_text b' = replace_range (er_byte_start (tr_old rep)) (er_byte_end (tr_old rep)) bs (pt_text b)"
proof -
  note m = measured_rangeD [OF r]
  obtain b' where b': "pt_replace_measured_range rep bs b = Some b'" "piece_inv b'"
    "pt_multibyte b' = pt_multibyte b"
    "pt_text b' = replace_range (er_byte_start (tr_old rep)) (er_byte_end (tr_old rep)) bs (pt_text b)"
    by (rule pt_replace_inv [OF inv r bs])
  have e: "tr_new rep = extent_from_emacs_bytes bs (pt_multibyte b)" using bs by (simp add: measured_text_def)
  show ?thesis
    using m b' len e inv that pt_byte_to_char [OF inv m(1)] pt_byte_to_char [OF inv m(2)]
    by (cases "er_byte_start (tr_old rep) = er_byte_end (tr_old rep)")
      (auto simp: pt_replace_same_len_measured_range_def Let_def char_offset_def)
qed

lemma pt_dump: "piece_inv b \<Longrightarrow> pt_dump_text b = Some (pt_text b)"
  unfolding piece_inv_def pt_text_def pt_dump_text_def by (rule pieces.dump_text_text)

lemma pt_rebuild_eq: "pt_rebuild_from_bytes bs mb b = pt_from_emacs_bytes bs mb"
  by (simp add: pt_rebuild_from_bytes_def pt_from_emacs_bytes_def Let_def split: prod.splits)

lemma pt_set_multibyte_inv:
  assumes "piece_inv b" "lead_ok mb (pt_text b)"
  obtains b' where "pt_set_multibyte mb b = Some b'" "piece_inv b'" "pt_multibyte b' = mb" "pt_text b' = pt_text b"
  using that assms pt_from_emacs_bytes_inv [OF assms(2)]
  by (cases "pt_multibyte b = mb") (simp_all add: pt_set_multibyte_def pt_dump pt_rebuild_eq)

subsection \<open>The backend contract\<close>

text \<open>Lookups do not change the piece tree; the contract allows for backends that cache.\<close>

definition pt_byte_to_char_op :: "nat \<Rightarrow> piece_tree \<Rightarrow> (nat \<times> piece_tree) option" where
  "pt_byte_to_char_op k b = map_option (\<lambda>c. (c, b)) (pt_emacs_byte_pos_to_char_pos k b)"

definition pt_char_to_byte_op :: "nat \<Rightarrow> piece_tree \<Rightarrow> (nat \<times> piece_tree) option" where
  "pt_char_to_byte_op c b = map_option (\<lambda>k. (k, b)) (pt_char_pos_to_emacs_byte_pos c b)"

definition pt_metrics_op :: "piece_tree \<Rightarrow> text_metrics option" where
  "pt_metrics_op b = Some (pt_metrics b)"

interpretation piece_backend: text_backend piece_inv pt_text pt_multibyte pt_insert_measured_emacs_bytes
  pt_delete_measured_range pt_replace_measured_range pt_byte_to_char_op pt_char_to_byte_op
  pt_copy_emacs_byte_range_to pt_metrics_op lead_ok
proof
  show "lead_ok m bs \<Longrightarrow> lead_ok m bs" for m bs .
  show "lead_ok m bs \<Longrightarrow> is_emacs_char_boundary bs i m \<Longrightarrow> is_emacs_char_boundary bs j m \<Longrightarrow>
      lead_ok m (sub_list i j bs)" for m bs i j
    by (simp add: sub_list_def boundary_drop_lead_ok)
  show "piece_inv b \<Longrightarrow> lead_ok (pt_multibyte b) (pt_text b)" for b by (rule piece_inv_lead_ok)
  show "piece_inv b \<Longrightarrow> pt_metrics_op b = Some (metrics_from_lengths
      (emacs_char_count_bytes (pt_text b) (pt_multibyte b)) (length (pt_text b)))" for b
    unfolding piece_inv_def pt_text_def pt_metrics_op_def pt_metrics_def
    using pieces.node_metrics_text [of b "pt_root b"]
    by (simp add: metrics_from_lengths_def)
  show "piece_inv b \<Longrightarrow> br_start rg \<le> br_end rg \<Longrightarrow> br_end rg \<le> length (pt_text b) \<Longrightarrow>
      pt_copy_emacs_byte_range_to rg b = Some (sub_list (br_start rg) (br_end rg) (pt_text b))" for b rg
    unfolding piece_inv_def pt_text_def pt_copy_emacs_byte_range_to_def by (rule pieces.copy_range_text)
next
  fix b p bs e
  assume "piece_inv b" "is_emacs_char_boundary (pt_text b) p (pt_multibyte b)" "measured_text (pt_multibyte b) bs e"
    "lead_ok (pt_multibyte b) bs"
  from this(1-3) show "\<exists>b'. pt_insert_measured_emacs_bytes p bs e b = Some b' \<and> piece_inv b'
      \<and> pt_multibyte b' = pt_multibyte b \<and> pt_text b' = insert_at p bs (pt_text b)"
    by (rule pt_insert_inv) blast
next
  fix b r
  assume "piece_inv b" "measured_range (pt_multibyte b) (pt_text b) r"
  then show "\<exists>b'. pt_delete_measured_range r b = Some b' \<and> piece_inv b' \<and> pt_multibyte b' = pt_multibyte b
      \<and> pt_text b' = delete_range (er_byte_start r) (er_byte_end r) (pt_text b)"
    by (rule pt_delete_inv) blast
next
  fix b bs and rep :: text_replacement
  assume "piece_inv b" "measured_range (pt_multibyte b) (pt_text b) (tr_old rep)"
    "measured_text (pt_multibyte b) bs (tr_new rep)" "lead_ok (pt_multibyte b) bs"
  from this(1-3) show "\<exists>b'. pt_replace_measured_range rep bs b = Some b' \<and> piece_inv b' \<and> pt_multibyte b' = pt_multibyte b
      \<and> pt_text b' = replace_range (er_byte_start (tr_old rep)) (er_byte_end (tr_old rep)) bs (pt_text b)"
    by (rule pt_replace_inv) blast
next
  fix b k
  assume "piece_inv b" "is_emacs_char_boundary (pt_text b) k (pt_multibyte b)"
  then show "\<exists>c b'. pt_byte_to_char_op k b = Some (c, b') \<and> piece_inv b' \<and> pt_multibyte b' = pt_multibyte b
      \<and> pt_text b' = pt_text b \<and> char_offset (pt_multibyte b) (pt_text b) c k"
    by (simp add: pt_byte_to_char_op_def pt_byte_to_char char_offset_def)
next
  fix b c
  assume "piece_inv b"
  then show "\<exists>k b'. pt_char_to_byte_op c b = Some (k, b') \<and> piece_inv b' \<and> pt_multibyte b' = pt_multibyte b
      \<and> pt_text b' = pt_text b \<and> (if c \<le> emacs_char_count_bytes (pt_text b) (pt_multibyte b)
         then char_offset (pt_multibyte b) (pt_text b) c k else k = length (pt_text b))"
    using pt_char_to_byte [of b c] by (auto simp: pt_char_to_byte_op_def)
qed

subsection \<open>Properties\<close>

text \<open>C31: replacing a measured range of a piece tree succeeds, keeps the invariant (every piece
  denotes a non-empty slice whose cached extent counts it, every cached subtree metric is right)
  and replaces exactly that range of the text.\<close>

theorem piece_replace_refines:
  assumes "piece_inv b" "measured_range (pt_multibyte b) (pt_text b) (tr_old rep)"
    "measured_text (pt_multibyte b) bs (tr_new rep)"
  shows "\<exists>b'. pt_replace_measured_range rep bs b = Some b' \<and> piece_inv b'
     \<and> pt_text b' = replace_range (er_byte_start (tr_old rep)) (er_byte_end (tr_old rep)) bs (pt_text b)"
  using assms by (rule pt_replace_inv) blast

definition sample_piece_tree :: piece_tree where
  "sample_piece_tree = pt_from_emacs_bytes [0x61, 0xC3, 0xA9, 0x62] True"

lemma sample_piece_tree_inv: "piece_inv sample_piece_tree" "pt_text sample_piece_tree = [0x61, 0xC3, 0xA9, 0x62]"
  "pt_multibyte sample_piece_tree"
proof -
  have "lead_ok True [0x61, 0xC3, 0xA9, 0x62]" by code_simp
  then show "piece_inv sample_piece_tree" "pt_text sample_piece_tree = [0x61, 0xC3, 0xA9, 0x62]"
    "pt_multibyte sample_piece_tree"
    using pt_from_emacs_bytes_inv by (simp_all add: sample_piece_tree_def)
qed

definition sample_piece_edit :: text_replacement where
  "sample_piece_edit = replacement_new (edit_range_new (byte_range_new 1 3) 1 2) (extent_new 1 1)"

theorem piece_replace_refines_witness:
  "\<exists>b'. pt_replace_measured_range sample_piece_edit [0x78] sample_piece_tree = Some b' \<and> piece_inv b'
     \<and> pt_text b' = replace_range (er_byte_start (tr_old sample_piece_edit)) (er_byte_end (tr_old sample_piece_edit))
         [0x78] (pt_text sample_piece_tree)"
proof (rule piece_replace_refines)
  show "measured_range (pt_multibyte sample_piece_tree) (pt_text sample_piece_tree) (tr_old sample_piece_edit)"
    by code_simp
  show "measured_text (pt_multibyte sample_piece_tree) [0x78] (tr_new sample_piece_edit)" by code_simp
qed (rule sample_piece_tree_inv)

text \<open>An edit never rewrites stored bytes: the original vector is untouched and the add
  vector only grows at its end, by exactly the replacement bytes. This is what keeps the pieces of
  the rest of the text valid.\<close>

theorem piece_vectors_append_only:
  assumes "pt_replace_measured_range rep bs b = Some b'"
  shows "pt_original b' = pt_original b \<and> pt_multibyte b' = pt_multibyte b \<and> pt_add b' = pt_add b @ bs"
proof -
  have split: "pt_original y = pt_original x \<and> pt_multibyte y = pt_multibyte x \<and> pt_add y = pt_add x"
    if "pt_split_at_byte t k x = Some (u, v, y)" for t k u v x y
    using that by (auto simp: pt_split_at_byte_def bind_eq_Some_conv)
  have ins: "pt_original y = pt_original x \<and> pt_multibyte y = pt_multibyte x \<and> pt_add y = pt_add x @ bs"
    if "pt_insert_measured_emacs_bytes k bs e x = Some y" for k e x y
    using that by (auto simp: pt_insert_measured_emacs_bytes_def bind_eq_Some_conv Let_def
        split: if_splits prod.splits dest!: split)
  have del: "pt_original y = pt_original x \<and> pt_multibyte y = pt_multibyte x \<and> pt_add y = pt_add x"
    if "pt_delete_measured_range r x = Some y" for r x y
    using that by (auto simp: pt_delete_measured_range_def bind_eq_Some_conv Let_def
        split: if_splits dest!: split)
  show ?thesis
    using assms
    by (auto simp: pt_replace_measured_range_def bind_eq_Some_conv Let_def split: if_splits dest!: ins del)
qed

theorem piece_vectors_append_only_witness:
  "\<exists>b'. pt_replace_measured_range sample_piece_edit [0x78] sample_piece_tree = Some b'
     \<and> pt_original b' = pt_original sample_piece_tree \<and> pt_multibyte b' = pt_multibyte sample_piece_tree
     \<and> pt_add b' = pt_add sample_piece_tree @ [0x78]"
proof -
  have "measured_range (pt_multibyte sample_piece_tree) (pt_text sample_piece_tree) (tr_old sample_piece_edit)"
    "measured_text (pt_multibyte sample_piece_tree) [0x78] (tr_new sample_piece_edit)" by code_simp+
  then obtain b' where "pt_replace_measured_range sample_piece_edit [0x78] sample_piece_tree = Some b'"
    by (rule pt_replace_inv [OF sample_piece_tree_inv(1)])
  then show ?thesis using piece_vectors_append_only by blast
qed

end
