(* ===== verification/Rope_Text.thy ===== *)
theory Rope_Text
  imports Treap_Text
begin

text \<open>
  The rope backend, \<open>src/crates/neovm-core/src/buffer/text/backend/rope.rs\<close>: a treap whose nodes
  own chunks of at most \<open>MAX_LEAF_BYTES\<close> bytes. Splitting copies the two halves of a chunk, and
  joining two trees fuses the chunks at the seam when they fit into one leaf. The tree functions
  that the rope shares with the piece tree are those of \<open>Treap_Text\<close> at the item type
  \<open>rope_chunk\<close>.

  \<open>rt_merge_adjacent\<close> calls itself on its own result; it terminates because joining never adds
  nodes, which is proved along with it.
\<close>

subsection \<open>Chunks\<close>

definition MAX_LEAF_BYTES :: nat where "MAX_LEAF_BYTES = 1024"

record rope_chunk =
  rc_bytes :: bytes
  rc_extent :: text_extent

definition rc_new :: "bytes \<Rightarrow> bool \<Rightarrow> rope_chunk" where
  "rc_new bs multibyte = \<lparr>rc_bytes = bs, rc_extent = extent_from_emacs_bytes bs multibyte\<rparr>"

definition rc_len :: "rope_chunk \<Rightarrow> nat" where
  "rc_len c = te_bytes (rc_extent c)"

definition rc_split_at :: "nat \<Rightarrow> bool \<Rightarrow> rope_chunk \<Rightarrow> (rope_chunk \<times> rope_chunk) option" where
  "rc_split_at byte_pos multibyte c = do {
     panic_unless (0 < byte_pos \<and> byte_pos < rc_len c);
     panic_unless (is_emacs_char_boundary (rc_bytes c) byte_pos multibyte);
     left \<leftarrow> slice (rc_bytes c) 0 byte_pos;
     right \<leftarrow> slice (rc_bytes c) byte_pos (length (rc_bytes c));
     Some (rc_new left multibyte, rc_new right multibyte)
   }"

definition rc_content :: "rope_chunk \<Rightarrow> bytes option" where
  "rc_content c = Some (rc_bytes c)"

subsection \<open>The ends of a tree\<close>

type_synonym rope_node = "rope_chunk treap"

text \<open>The source takes a node, so the equation for the empty tree is never reached.\<close>

fun leftmost_chunk_len :: "rope_node \<Rightarrow> nat" where
  "leftmost_chunk_len Tip = 0"
| "leftmost_chunk_len (Node x p m l r) = (case l of Tip \<Rightarrow> rc_len x | Node _ _ _ _ _ \<Rightarrow> leftmost_chunk_len l)"

fun rightmost_chunk_len :: "rope_node \<Rightarrow> nat" where
  "rightmost_chunk_len Tip = 0"
| "rightmost_chunk_len (Node x p m l r) = (case r of Tip \<Rightarrow> rc_len x | Node _ _ _ _ _ \<Rightarrow> rightmost_chunk_len r)"

fun pop_leftmost :: "rope_node \<Rightarrow> (rope_chunk \<times> rope_node) option" where
  "pop_leftmost Tip = None"
| "pop_leftmost (Node x p m l r) =
     (case l of
        Tip \<Rightarrow> Some (x, r)
      | Node _ _ _ _ _ \<Rightarrow> do {
          (chunk, l) \<leftarrow> pop_leftmost l;
          Some (chunk, refresh rc_extent x p l r)
        })"

fun pop_rightmost :: "rope_node \<Rightarrow> (rope_node \<times> rope_chunk) option" where
  "pop_rightmost Tip = None"
| "pop_rightmost (Node x p m l r) =
     (case r of
        Tip \<Rightarrow> Some (l, x)
      | Node _ _ _ _ _ \<Rightarrow> do {
          (r, chunk) \<leftarrow> pop_rightmost r;
          Some (refresh rc_extent x p l r, chunk)
        })"

lemma leftmost_steps [simp]:
  "leftmost_chunk_len (Node x p m Tip r) = rc_len x"
  "l \<noteq> Tip \<Longrightarrow> leftmost_chunk_len (Node x p m l r) = leftmost_chunk_len l"
  "pop_leftmost (Node x p m Tip r) = Some (x, r)"
  "l \<noteq> Tip \<Longrightarrow> pop_leftmost (Node x p m l r) =
     do { (chunk, l) \<leftarrow> pop_leftmost l; Some (chunk, refresh rc_extent x p l r) }"
  by (simp, cases l, auto, cases l, auto)

lemma rightmost_steps [simp]:
  "rightmost_chunk_len (Node x p m l Tip) = rc_len x"
  "r \<noteq> Tip \<Longrightarrow> rightmost_chunk_len (Node x p m l r) = rightmost_chunk_len r"
  "pop_rightmost (Node x p m l Tip) = Some (l, x)"
  "r \<noteq> Tip \<Longrightarrow> pop_rightmost (Node x p m l r) =
     do { (r, chunk) \<leftarrow> pop_rightmost r; Some (refresh rc_extent x p l r, chunk) }"
  by (simp, cases r, auto, cases r, auto)

declare leftmost_chunk_len.simps(2) [simp del] rightmost_chunk_len.simps(2) [simp del]
  pop_leftmost.simps(2) [simp del] pop_rightmost.simps(2) [simp del]

lemma pop_leftmost_nodes: "pop_leftmost t = Some (c, u) \<Longrightarrow> treap_nodes t = Suc (treap_nodes u)"
proof (induction t arbitrary: u)
  case (Node x p m l r)
  then show ?case by (cases "l = Tip") (auto simp: bind_eq_Some_conv)
qed simp

lemma pop_rightmost_nodes: "pop_rightmost t = Some (u, c) \<Longrightarrow> treap_nodes t = Suc (treap_nodes u)"
proof (induction t arbitrary: u)
  case (Node x p m l r)
  then show ?case by (cases "r = Tip") (auto simp: bind_eq_Some_conv)
qed simp

lemmas pop_nodes = pop_leftmost_nodes pop_rightmost_nodes

subsection \<open>Joining trees\<close>

function rt_merge_adjacent :: "bool \<Rightarrow> rope_node \<Rightarrow> rope_node \<Rightarrow> u64 \<Rightarrow> (rope_node \<times> u64) option" where
  "rt_merge_adjacent mb Tip r s = Some (r, s)"
| "rt_merge_adjacent mb (Node x p m l r) Tip s = Some (Node x p m l r, s)"
| "rt_merge_adjacent mb (Node x p m l r) (Node x' p' m' l' r') s =
     (if rightmost_chunk_len (Node x p m l r) + leftmost_chunk_len (Node x' p' m' l' r') \<le> MAX_LEAF_BYTES
      then do {
        (left, left_chunk) \<leftarrow> pop_rightmost (Node x p m l r);
        (right_chunk, right) \<leftarrow> pop_leftmost (Node x' p' m' l' r');
        (merged_left, s) \<leftarrow> rt_merge_adjacent mb left
           (node_new rc_extent (rc_new (rc_bytes left_chunk @ rc_bytes right_chunk) mb) (fst (next_priority s)))
           (snd (next_priority s));
        rt_merge_adjacent mb merged_left right s
      }
      else Some (treap_merge rc_extent (Node x p m l r) (Node x' p' m' l' r'), s))"
  by pat_completeness auto

termination
proof -
  have nodes: "treap_nodes t \<le> treap_nodes l + treap_nodes r"
    if "rt_merge_adjacent_dom (mb, l, r, s)" "rt_merge_adjacent mb l r s = Some (t, s')" for mb l r s t s'
    using that
  proof (induction mb l r s arbitrary: t s' rule: rt_merge_adjacent.pinduct)
    case (3 mb x p m l r x' p' m' l' r' s)
    let ?L = "Node x p m l r" and ?R = "Node x' p' m' l' r'"
    show ?case
    proof (cases "rightmost_chunk_len ?L + leftmost_chunk_len ?R \<le> MAX_LEAF_BYTES")
      case True
      from 3(4) obtain u c d v w s1 where *: "pop_rightmost ?L = Some (u, c)" "pop_leftmost ?R = Some (d, v)"
        "rt_merge_adjacent mb u (node_new rc_extent (rc_new (rc_bytes c @ rc_bytes d) mb) (fst (next_priority s)))
           (snd (next_priority s)) = Some (w, s1)"
        "rt_merge_adjacent mb w v s1 = Some (t, s')"
        unfolding rt_merge_adjacent.psimps(3) [OF 3(1)] if_P [OF True]
        by (auto simp: bind_eq_Some_conv simp del: leftmost_steps rightmost_steps)
      have "treap_nodes w \<le> treap_nodes u + 1"
        using 3(2) [OF True *(1) refl *(2) refl *(3)] by simp
      moreover have "treap_nodes t \<le> treap_nodes w + treap_nodes v"
        by (rule 3(3) [OF True *(1) refl *(2) refl *(3) refl *(4)])
      ultimately show ?thesis using pop_nodes(2) [OF *(1)] pop_nodes(1) [OF *(2)] by simp
    next
      case False
      from 3(4) show ?thesis
        unfolding rt_merge_adjacent.psimps(3) [OF 3(1)] if_not_P [OF False] by auto
    qed
  qed (auto simp: rt_merge_adjacent.psimps)
  show ?thesis
  proof (relation "measure (\<lambda>(mb, l, r, s). treap_nodes l + treap_nodes r)", goal_cases)
    case (2 mb x p m l r x' p' m' l' r' s a u c a' d v)
    then have "treap_nodes (Node x p m l r) = Suc (treap_nodes u)" by (intro pop_nodes(2) [of _ u c]) simp
    then show ?case by simp
  next
    case (3 mb x p m l r x' p' m' l' r' s a u c a' d v e w s1)
    then have "treap_nodes (Node x p m l r) = Suc (treap_nodes u)"
      "treap_nodes (Node x' p' m' l' r') = Suc (treap_nodes v)"
      by (intro pop_nodes(2) [of _ u c] pop_nodes(1) [of _ d v]; simp)+
    moreover have "treap_nodes w \<le> treap_nodes u + 1"
      using nodes [OF 3(8), of w s1] 3(6,7) by simp
    ultimately show ?case by simp
  qed simp
qed

lemma merge_adjacent_nodes:
  "rt_merge_adjacent mb l r s = Some (t, s') \<Longrightarrow> treap_nodes t \<le> treap_nodes l + treap_nodes r"
proof (induction mb l r s arbitrary: t s' rule: rt_merge_adjacent.induct)
  case (3 mb x p m l r x' p' m' l' r' s)
  let ?L = "Node x p m l r" and ?R = "Node x' p' m' l' r'"
  show ?case
  proof (cases "rightmost_chunk_len ?L + leftmost_chunk_len ?R \<le> MAX_LEAF_BYTES")
    case True
    from 3(3) obtain u c d v w s1 where *: "pop_rightmost ?L = Some (u, c)" "pop_leftmost ?R = Some (d, v)"
      "rt_merge_adjacent mb u (node_new rc_extent (rc_new (rc_bytes c @ rc_bytes d) mb) (fst (next_priority s)))
         (snd (next_priority s)) = Some (w, s1)"
      "rt_merge_adjacent mb w v s1 = Some (t, s')"
      unfolding rt_merge_adjacent.simps(3) if_P [OF True]
      by (auto simp: bind_eq_Some_conv simp del: leftmost_steps rightmost_steps)
    have "treap_nodes w \<le> treap_nodes u + 1"
      using 3(1) [OF True *(1) refl *(2) refl *(3)] by simp
    moreover have "treap_nodes t \<le> treap_nodes w + treap_nodes v"
      by (rule 3(2) [OF True *(1) refl *(2) refl *(3) refl *(4)])
    ultimately show ?thesis using pop_nodes(2) [OF *(1)] pop_nodes(1) [OF *(2)] by simp
  next
    case False
    from 3(3) show ?thesis unfolding rt_merge_adjacent.simps(3) if_not_P [OF False] by auto
  qed
qed auto

subsection \<open>Cutting bytes into leaves\<close>

fun leaf_end :: "bytes \<Rightarrow> nat \<Rightarrow> nat" where
  "leaf_end bs 0 = 0"
| "leaf_end bs (Suc e) = (if is_emacs_char_boundary bs (Suc e) True then Suc e else leaf_end bs e)"

definition split_leaf_len :: "bytes \<Rightarrow> bool \<Rightarrow> nat option" where
  "split_leaf_len bs multibyte =
     (if length bs \<le> MAX_LEAF_BYTES then Some (length bs)
      else if \<not> multibyte then Some MAX_LEAF_BYTES
      else do {
        let e = leaf_end bs MAX_LEAF_BYTES;
        panic_unless (0 < e);
        Some e
      })"

lemma leaf_end_le: "leaf_end bs e \<le> e"
  by (induction bs e rule: leaf_end.induct) auto

lemma split_leaf_len_pos: "split_leaf_len bs mb = Some n \<Longrightarrow> bs \<noteq> [] \<Longrightarrow> 0 < n"
  by (auto simp: split_leaf_len_def MAX_LEAF_BYTES_def Let_def split: if_splits)

function rt_tree_loop :: "bool \<Rightarrow> rope_node \<Rightarrow> bytes \<Rightarrow> u64 \<Rightarrow> (rope_node \<times> u64) option" where
  "rt_tree_loop mb tree rest s =
     (if rest = [] then Some (tree, s)
      else do {
        n \<leftarrow> split_leaf_len rest mb;
        leaf \<leftarrow> slice rest 0 n;
        (tree, s) \<leftarrow> rt_merge_adjacent mb tree
            (node_new rc_extent (rc_new leaf mb) (fst (next_priority s))) (snd (next_priority s));
        rest \<leftarrow> slice rest n (length rest);
        rt_tree_loop mb tree rest s
      })"
  by pat_completeness auto
termination
  by (relation "measure (\<lambda>(mb, tree, rest, s). length rest)")
    (auto simp: slice_def dest: split_leaf_len_pos split: if_splits)

declare rt_tree_loop.simps [simp del]

subsection \<open>The backend\<close>

record rope =
  rt_root :: rope_node
  rt_multibyte :: bool
  rt_next_node_serial :: u64

definition rt_tree_for_bytes :: "bytes \<Rightarrow> rope \<Rightarrow> (rope_node \<times> rope) option" where
  "rt_tree_for_bytes bs b = do {
     (t, s) \<leftarrow> rt_tree_loop (rt_multibyte b) Tip bs (rt_next_node_serial b);
     Some (t, b\<lparr>rt_next_node_serial := s\<rparr>)
   }"

definition rt_merge_nodes :: "rope_node \<Rightarrow> rope_node \<Rightarrow> rope \<Rightarrow> (rope_node \<times> rope) option" where
  "rt_merge_nodes l r b = do {
     (t, s) \<leftarrow> rt_merge_adjacent (rt_multibyte b) l r (rt_next_node_serial b);
     Some (t, b\<lparr>rt_next_node_serial := s\<rparr>)
   }"

definition rt_sever :: "bool \<Rightarrow> rope_chunk severer" where
  "rt_sever mb c local l r s = do {
     (left_chunk, right_chunk) \<leftarrow> rc_split_at local mb c;
     let (prio, s) = next_priority s;
     let left_node = node_new rc_extent left_chunk prio;
     let (prio, s) = next_priority s;
     let right_node = node_new rc_extent right_chunk prio;
     (left_tree, s) \<leftarrow> rt_merge_adjacent mb l left_node s;
     (right_tree, s) \<leftarrow> rt_merge_adjacent mb right_node r s;
     Some (left_tree, right_tree, s)
   }"

definition rt_split_at_byte :: "rope_node \<Rightarrow> nat \<Rightarrow> rope \<Rightarrow> (rope_node \<times> rope_node \<times> rope) option" where
  "rt_split_at_byte t byte_pos b = do {
     (l, r, s) \<leftarrow> treap_split_at_byte rc_extent (rt_sever (rt_multibyte b)) t byte_pos (rt_next_node_serial b);
     Some (l, r, b\<lparr>rt_next_node_serial := s\<rparr>)
   }"

subsection \<open>Reading\<close>

definition rt_metrics :: "rope \<Rightarrow> text_metrics" where
  "rt_metrics b = node_metrics (rt_root b)"

definition rt_len :: "rope \<Rightarrow> nat" where
  "rt_len b = treap_len (rt_root b)"

definition rt_is_empty :: "rope \<Rightarrow> bool" where
  "rt_is_empty b \<longleftrightarrow> rt_len b = 0"

definition rt_byte_at :: "nat \<Rightarrow> rope \<Rightarrow> u8 option" where
  "rt_byte_at pos b = treap_byte_at rc_extent rc_content (rt_root b) pos"

definition rt_emacs_byte_at :: "nat \<Rightarrow> rope \<Rightarrow> u8 option option" where
  "rt_emacs_byte_at pos b = treap_emacs_byte_at rc_extent rc_content (rt_root b) pos"

definition rt_char_code_at :: "nat \<Rightarrow> rope \<Rightarrow> u32 option option" where
  "rt_char_code_at pos b = treap_char_code_at rc_extent rc_content (rt_multibyte b) (rt_root b) pos"

definition rt_emacs_byte_pos_to_char_pos :: "nat \<Rightarrow> rope \<Rightarrow> nat option" where
  "rt_emacs_byte_pos_to_char_pos byte_pos b =
     treap_byte_pos_to_char_pos rc_extent rc_content (rt_multibyte b) (rt_root b) byte_pos"

definition rt_char_pos_to_emacs_byte_pos :: "nat \<Rightarrow> rope \<Rightarrow> nat option" where
  "rt_char_pos_to_emacs_byte_pos char_pos b =
     treap_char_pos_to_byte_pos rc_extent rc_content (rt_multibyte b) (rt_root b) char_pos"

definition rt_copy_emacs_byte_range_to :: "emacs_byte_range \<Rightarrow> rope \<Rightarrow> bytes option" where
  "rt_copy_emacs_byte_range_to rg b = treap_copy_range rc_extent rc_content (rt_root b) rg"

definition rt_for_each_emacs_byte_range_chunk :: "emacs_byte_range \<Rightarrow> rope \<Rightarrow> bytes list option" where
  "rt_for_each_emacs_byte_range_chunk rg b = treap_range_chunks rc_extent rc_content (rt_root b) rg"

definition rt_has_contiguous_emacs_byte_range :: "emacs_byte_range \<Rightarrow> rope \<Rightarrow> bool option" where
  "rt_has_contiguous_emacs_byte_range rg b = treap_has_contiguous rc_extent rc_content (rt_root b) rg"

definition rt_with_contiguous_emacs_byte_range :: "emacs_byte_range \<Rightarrow> rope \<Rightarrow> bytes option option" where
  "rt_with_contiguous_emacs_byte_range rg b = treap_with_contiguous rc_extent rc_content (rt_root b) rg"

definition rt_dump_text :: "rope \<Rightarrow> bytes option" where
  "rt_dump_text b = treap_dump_text rc_extent rc_content (rt_root b)"

subsection \<open>Building and editing\<close>

definition rt_new :: rope where
  "rt_new = \<lparr>rt_root = Tip, rt_multibyte = True, rt_next_node_serial = TREAP_SERIAL_FIRST\<rparr>"

definition rt_from_emacs_bytes :: "bytes \<Rightarrow> bool \<Rightarrow> rope option" where
  "rt_from_emacs_bytes bs multibyte = do {
     (root, b) \<leftarrow> rt_tree_for_bytes bs
        \<lparr>rt_root = Tip, rt_multibyte = multibyte, rt_next_node_serial = TREAP_SERIAL_FIRST\<rparr>;
     Some (b\<lparr>rt_root := root\<rparr>)
   }"

definition rt_insert_measured_emacs_bytes :: "nat \<Rightarrow> bytes \<Rightarrow> text_extent \<Rightarrow> rope \<Rightarrow> rope option" where
  "rt_insert_measured_emacs_bytes pos bs extent b = do {
     panic_unless (pos \<le> rt_len b);
     if bs = [] then Some b
     else do {
       panic_unless (te_bytes extent = length bs);
       panic_unless (te_chars extent = emacs_char_count_bytes bs (rt_multibyte b));
       _ \<leftarrow> rt_emacs_byte_pos_to_char_pos pos b;
       (insertion, b) \<leftarrow> rt_tree_for_bytes bs b;
       let root = rt_root b;
       (left, right, b) \<leftarrow> rt_split_at_byte root pos (b\<lparr>rt_root := Tip\<rparr>);
       (merged, b) \<leftarrow> rt_merge_nodes left insertion b;
       (root, b) \<leftarrow> rt_merge_nodes merged right b;
       Some (b\<lparr>rt_root := root\<rparr>)
     }
   }"

definition rt_delete_measured_range :: "text_edit_range \<Rightarrow> rope \<Rightarrow> rope option" where
  "rt_delete_measured_range r b = do {
     let s = er_byte_start r;
     let e = er_byte_end r;
     panic_unless (s \<le> e);
     panic_unless (e \<le> rt_len b);
     if s = e then Some b
     else do {
       e_char \<leftarrow> rt_emacs_byte_pos_to_char_pos e b;
       s_char \<leftarrow> rt_emacs_byte_pos_to_char_pos s b;
       actual \<leftarrow> chk_sub e_char s_char;
       panic_unless (edit_range_char_len r = actual);
       let root = rt_root b;
       (left, rest, b) \<leftarrow> rt_split_at_byte root s (b\<lparr>rt_root := Tip\<rparr>);
       (deleted, right, b) \<leftarrow> rt_split_at_byte rest (e - s) b;
       (root, b) \<leftarrow> rt_merge_nodes left right b;
       Some (b\<lparr>rt_root := root\<rparr>)
     }
   }"

definition rt_replace_measured_range :: "text_replacement \<Rightarrow> bytes \<Rightarrow> rope \<Rightarrow> rope option" where
  "rt_replace_measured_range rep bs b = do {
     let old_range = tr_old rep;
     let s = er_byte_start old_range;
     let e = er_byte_end old_range;
     panic_unless (s \<le> e);
     panic_unless (e \<le> rt_len b);
     if edit_range_is_empty old_range \<and> bs = [] then Some b
     else do {
       panic_unless (te_bytes (tr_new rep) = length bs);
       panic_unless (te_chars (tr_new rep) = emacs_char_count_bytes bs (rt_multibyte b));
       _ \<leftarrow> rt_emacs_byte_pos_to_char_pos s b;
       _ \<leftarrow> rt_emacs_byte_pos_to_char_pos e b;
       let root = rt_root b;
       (left, rest, b) \<leftarrow> rt_split_at_byte root s (b\<lparr>rt_root := Tip\<rparr>);
       (deleted, right, b) \<leftarrow> rt_split_at_byte rest (e - s) b;
       (inserted, b) \<leftarrow> rt_tree_for_bytes bs b;
       (merged, b) \<leftarrow> rt_merge_nodes left inserted b;
       (root, b) \<leftarrow> rt_merge_nodes merged right b;
       Some (b\<lparr>rt_root := root\<rparr>)
     }
   }"

definition rt_replace_same_len_measured_range :: "text_replacement \<Rightarrow> bytes \<Rightarrow> rope \<Rightarrow> rope option" where
  "rt_replace_same_len_measured_range rep bs b = do {
     let old_range = tr_old rep;
     let s = er_byte_start old_range;
     let e = er_byte_end old_range;
     panic_unless (s \<le> e);
     panic_unless (e \<le> rt_len b);
     panic_unless (length bs = e - s);
     panic_unless (te_bytes (tr_new rep) = length bs);
     if s = e then Some b
     else do {
       s_char \<leftarrow> rt_emacs_byte_pos_to_char_pos s b;
       panic_unless (er_char_start old_range = s_char);
       e_char \<leftarrow> rt_emacs_byte_pos_to_char_pos e b;
       panic_unless (er_char_end old_range = e_char);
       panic_unless (te_chars (tr_new rep) = te_chars (extent_from_emacs_bytes bs (rt_multibyte b)));
       rt_replace_measured_range rep bs b
     }
   }"

definition rt_rebuild_from_bytes :: "bytes \<Rightarrow> bool \<Rightarrow> rope \<Rightarrow> rope option" where
  "rt_rebuild_from_bytes bs multibyte b = do {
     let b = b\<lparr>rt_root := Tip, rt_multibyte := multibyte, rt_next_node_serial := TREAP_SERIAL_FIRST\<rparr>;
     (root, b) \<leftarrow> rt_tree_for_bytes bs b;
     Some (b\<lparr>rt_root := root\<rparr>)
   }"

definition rt_set_multibyte :: "bool \<Rightarrow> rope \<Rightarrow> rope option" where
  "rt_set_multibyte multibyte b =
     (if rt_multibyte b = multibyte then Some b
      else do { bs \<leftarrow> rt_dump_text b; rt_rebuild_from_bytes bs multibyte b })"

subsection \<open>The invariant\<close>

text \<open>
  A chunk is not empty, fits into a leaf, starts on a character, and its cached extent counts it:
  the checks of \<open>assert_node_invariants\<close> other than the order of priorities.
\<close>

definition rope_good :: "bool \<Rightarrow> rope_chunk \<Rightarrow> bool" where
  "rope_good mb c \<longleftrightarrow> rc_bytes c \<noteq> [] \<and> lead_ok mb (rc_bytes c) \<and> length (rc_bytes c) \<le> MAX_LEAF_BYTES
     \<and> rc_extent c = extent_from_emacs_bytes (rc_bytes c) mb"

abbreviation rt_ok :: "bool \<Rightarrow> rope_node \<Rightarrow> bool" where
  "rt_ok mb \<equiv> treap_ok (rope_good mb) rc_extent"

abbreviation rt_node_text :: "rope_node \<Rightarrow> bytes" where
  "rt_node_text \<equiv> treap_text rc_content"

definition rt_text :: "rope \<Rightarrow> bytes" where
  "rt_text b = rt_node_text (rt_root b)"

definition rope_inv :: "rope \<Rightarrow> bool" where
  "rope_inv b \<longleftrightarrow> rt_ok (rt_multibyte b) (rt_root b)"

interpretation chunks: treap_items "rope_good mb" rc_extent rc_content mb for mb
  by unfold_locales (auto simp: rope_good_def rc_content_def)

lemma rc_new_good:
  "bs \<noteq> [] \<Longrightarrow> lead_ok mb bs \<Longrightarrow> length bs \<le> MAX_LEAF_BYTES \<Longrightarrow> rope_good mb (rc_new bs mb)"
  by (simp add: rope_good_def rc_new_def)

lemma rc_simps [simp]:
  "rc_bytes (rc_new bs mb) = bs" "rc_extent (rc_new bs mb) = extent_from_emacs_bytes bs mb" 
  "rc_content c = Some bs \<longleftrightarrow> bs = rc_bytes c"
  "(case rc_content c of Some bs \<Rightarrow> bs | None \<Rightarrow> []) = rc_bytes c"
  by (auto simp: rc_new_def rc_content_def)

lemma rope_good_len: "rope_good mb c \<Longrightarrow> rc_len c = length (rc_bytes c)"
  by (simp add: rope_good_def rc_len_def)

lemma pop_leftmost_ok:
  assumes "rt_ok mb t" "t \<noteq> Tip"
  shows "\<exists>c u. pop_leftmost t = Some (c, u) \<and> rope_good mb c \<and> rt_ok mb u
     \<and> rt_node_text t = rc_bytes c @ rt_node_text u \<and> length (rc_bytes c) = leftmost_chunk_len t"
  using assms
proof (induction t)
  case (Node x p m l r)
  then show ?case by (cases "l = Tip") (auto simp: rope_good_len)
qed simp

lemma pop_rightmost_ok:
  assumes "rt_ok mb t" "t \<noteq> Tip"
  shows "\<exists>c u. pop_rightmost t = Some (u, c) \<and> rope_good mb c \<and> rt_ok mb u
     \<and> rt_node_text t = rt_node_text u @ rc_bytes c \<and> length (rc_bytes c) = rightmost_chunk_len t"
  using assms
proof (induction t)
  case (Node x p m l r)
  then show ?case by (cases "r = Tip") (auto simp: rope_good_len)
qed simp

lemma merge_adjacent_ok:
  assumes "rt_ok mb l" "rt_ok mb r"
  shows "\<exists>t s'. rt_merge_adjacent mb l r s = Some (t, s') \<and> rt_ok mb t
     \<and> rt_node_text t = rt_node_text l @ rt_node_text r"
  using assms
proof (induction mb l r s rule: rt_merge_adjacent.induct)
  case (3 mb x p m l r x' p' m' l' r' s)
  let ?L = "Node x p m l r" and ?R = "Node x' p' m' l' r'"
  show ?case
  proof (cases "rightmost_chunk_len ?L + leftmost_chunk_len ?R \<le> MAX_LEAF_BYTES")
    case True
    obtain c u where c: "pop_rightmost ?L = Some (u, c)" "rope_good mb c" "rt_ok mb u"
      "rt_node_text ?L = rt_node_text u @ rc_bytes c" "length (rc_bytes c) = rightmost_chunk_len ?L"
      using pop_rightmost_ok [OF 3(3)] by auto
    obtain d v where d: "pop_leftmost ?R = Some (d, v)" "rope_good mb d" "rt_ok mb v"
      "rt_node_text ?R = rc_bytes d @ rt_node_text v" "length (rc_bytes d) = leftmost_chunk_len ?R"
      using pop_leftmost_ok [OF 3(4)] by auto
    let ?N = "node_new rc_extent (rc_new (rc_bytes c @ rc_bytes d) mb) (fst (next_priority s))"
    have N: "rt_ok mb ?N"
      using c(2,5) d(2,5) True
      by (simp add: rc_new_good lead_ok_append rope_good_def del: rightmost_steps leftmost_steps)
    from 3(1) [OF True c(1) refl d(1) refl c(3) N] obtain w s1 where
      w: "rt_merge_adjacent mb u ?N (snd (next_priority s)) = Some (w, s1)" "rt_ok mb w"
      "rt_node_text w = rt_node_text u @ rc_bytes c @ rc_bytes d" by auto
    from 3(2) [OF True c(1) refl d(1) refl w(1) refl w(2) d(3)] obtain t s2 where
      t: "rt_merge_adjacent mb w v s1 = Some (t, s2)" "rt_ok mb t" "rt_node_text t = rt_node_text w @ rt_node_text v"
      by auto
    show ?thesis
      using True c(1,4) d(1,4) w t
      by (simp del: rightmost_steps leftmost_steps treap_text.simps)
  next
    case False
    then show ?thesis using 3(3,4) by (simp del: treap_merge.simps rightmost_steps leftmost_steps)
  qed
qed auto

subsection \<open>Which texts fit into leaves\<close>

text \<open>
  A character longer than a leaf cannot be stored: \<open>split_leaf_len\<close> panics. What it needs is
  that every window of \<open>MAX_LEAF_BYTES\<close> bytes contains the start of a character.
\<close>

definition rope_storable :: "bool \<Rightarrow> bytes \<Rightarrow> bool" where
  "rope_storable mb bs \<longleftrightarrow> lead_ok mb bs \<and>
     (mb \<longrightarrow> (\<forall>i < Suc (length bs). i + MAX_LEAF_BYTES \<le> length bs \<longrightarrow>
        (\<exists>j \<in> {i ..< i + MAX_LEAF_BYTES}. char_head_p (bs ! j))))"

lemma rope_storable_lead_ok: "rope_storable mb bs \<Longrightarrow> lead_ok mb bs"
  by (simp add: rope_storable_def)

lemma rope_storable_False [simp]: "rope_storable False bs"
  by (simp add: rope_storable_def)

lemma rope_storable_window:
  assumes "rope_storable True bs" "i + MAX_LEAF_BYTES \<le> length bs"
  obtains j where "i \<le> j" "j < i + MAX_LEAF_BYTES" "char_head_p (bs ! j)"
proof -
  have "i < Suc (length bs)" using assms(2) by simp
  then have "\<exists>j \<in> {i ..< i + MAX_LEAF_BYTES}. char_head_p (bs ! j)"
    using assms unfolding rope_storable_def by blast
  then show thesis using that by auto
qed

lemma rope_storable_short: "lead_ok mb bs \<Longrightarrow> length bs < MAX_LEAF_BYTES \<Longrightarrow> rope_storable mb bs"
  by (auto simp: rope_storable_def)

lemma rope_storable_slice:
  assumes "rope_storable mb bs" "is_emacs_char_boundary bs a mb" "is_emacs_char_boundary bs b mb"
  shows "rope_storable mb (sub_list a b bs)"
proof (cases mb)
  case True
  have le: "b \<le> length bs" using boundary_le [OF assms(3)] .
  have "\<exists>j \<in> {i ..< i + MAX_LEAF_BYTES}. char_head_p (sub_list a b bs ! j)"
    if i: "i + MAX_LEAF_BYTES \<le> length (sub_list a b bs)" for i
  proof -
    have "a + i + MAX_LEAF_BYTES \<le> length bs" using i le by (simp add: MAX_LEAF_BYTES_def)
    then obtain j where j: "a + i \<le> j" "j < a + i + MAX_LEAF_BYTES" "char_head_p (bs ! j)"
      using rope_storable_window [of bs "a + i"] assms(1) True by auto
    then have "sub_list a b bs ! (j - a) = bs ! j" using i le by (subst nth_sub_list) auto
    then show ?thesis using j by (intro bexI [of _ "j - a"]) auto
  qed
  moreover have "lead_ok mb (sub_list a b bs)"
    using boundary_drop_lead_ok [OF assms(2) rope_storable_lead_ok [OF assms(1)]] by (simp add: sub_list_def)
  ultimately show ?thesis by (simp add: rope_storable_def)
qed simp

lemma rope_storable_append:
  assumes "rope_storable mb xs" "rope_storable mb ys"
  shows "rope_storable mb (xs @ ys)"
proof (cases mb)
  case True
  have "\<exists>j \<in> {i ..< i + MAX_LEAF_BYTES}. char_head_p ((xs @ ys) ! j)"
    if i: "i + MAX_LEAF_BYTES \<le> length (xs @ ys)" for i
  proof -
    consider "i + MAX_LEAF_BYTES \<le> length xs" | "i < length xs" "length xs < i + MAX_LEAF_BYTES"
      | "length xs \<le> i" by linarith
    then show ?thesis
    proof cases
      case 1
      then obtain j where "i \<le> j" "j < i + MAX_LEAF_BYTES" "char_head_p (xs ! j)"
        using rope_storable_window assms(1) True by auto
      then show ?thesis using 1 by (intro bexI [of _ j]) (auto simp: nth_append)
    next
      case 2
      then have "ys \<noteq> []" using i by auto
      then have "char_head_p (ys ! 0)"
        using rope_storable_lead_ok [OF assms(2)] True by (simp add: lead_ok_def hd_conv_nth)
      then show ?thesis using 2 by (intro bexI [of _ "length xs"]) (auto simp: nth_append)
    next
      case 3
      then have "i - length xs + MAX_LEAF_BYTES \<le> length ys" using i by simp
      then obtain j where "i - length xs \<le> j" "j < i - length xs + MAX_LEAF_BYTES" "char_head_p (ys ! j)"
        using rope_storable_window [of ys "i - length xs"] assms(2) True by auto
      then show ?thesis using 3 by (intro bexI [of _ "length xs + j"]) (auto simp: nth_append)
    qed
  qed
  moreover have "lead_ok mb (xs @ ys)" using assms by (intro lead_ok_append rope_storable_lead_ok) auto
  ultimately show ?thesis by (simp add: rope_storable_def)
qed simp

lemma rope_storable_take_drop:
  assumes "rope_storable mb bs" "is_emacs_char_boundary bs k mb"
  shows "rope_storable mb (take k bs)" "rope_storable mb (drop k bs)"
  using rope_storable_slice [OF assms(1) boundary_0 assms(2)]
    rope_storable_slice [OF assms(1,2) boundary_length] boundary_le [OF assms(2)]
  by (simp_all add: sub_list_def)

lemma rope_good_storable:
  assumes "rope_good mb c"
  shows "rope_storable mb (rc_bytes c)"
proof (cases "length (rc_bytes c) = MAX_LEAF_BYTES \<and> mb")
  case True
  then have "char_head_p (rc_bytes c ! 0)"
    using assms by (auto simp: rope_good_def lead_ok_def hd_conv_nth)
  moreover have "i = 0" if "i + MAX_LEAF_BYTES \<le> length (rc_bytes c)" for i using that True by simp
  moreover have "0 \<in> {0 ..< MAX_LEAF_BYTES}" by (simp add: MAX_LEAF_BYTES_def)
  ultimately show ?thesis using assms unfolding rope_storable_def rope_good_def by fastforce
next
  case False
  then show ?thesis using assms rope_storable_short [of mb "rc_bytes c"] by (cases mb) (auto simp: rope_good_def)
qed

lemma rt_ok_storable: "rt_ok mb t \<Longrightarrow> rope_storable mb (rt_node_text t)"
proof (induction t)
  case Tip
  then show ?case by (simp add: rope_storable_short MAX_LEAF_BYTES_def)
next
  case (Node x p m l r)
  then show ?case by (simp add: rope_storable_append rope_good_storable)
qed

subsection \<open>Leaves\<close>

lemma leaf_end_boundary: "0 < leaf_end bs e \<Longrightarrow> is_emacs_char_boundary bs (leaf_end bs e) True"
  by (induction bs e rule: leaf_end.induct) (auto split: if_splits)

lemma leaf_end_pos: "is_emacs_char_boundary bs k True \<Longrightarrow> 0 < k \<Longrightarrow> k \<le> e \<Longrightarrow> 0 < leaf_end bs e"
  by (induction bs e rule: leaf_end.induct) (auto simp: le_Suc_eq)

lemma split_leaf_len_ok:
  assumes "rope_storable mb bs" "bs \<noteq> []"
  obtains n where "split_leaf_len bs mb = Some n" "0 < n" "n \<le> length bs" "n \<le> MAX_LEAF_BYTES"
    "is_emacs_char_boundary bs n mb"
proof (cases "length bs \<le> MAX_LEAF_BYTES \<or> \<not> mb")
  case True
  then show thesis
    using that [of "min (length bs) MAX_LEAF_BYTES"] assms(2)
    by (cases "length bs \<le> MAX_LEAF_BYTES") (auto simp: split_leaf_len_def MAX_LEAF_BYTES_def min_def)
next
  case False
  then have "1 + MAX_LEAF_BYTES \<le> length bs" by simp
  then obtain j where j: "1 \<le> j" "j < 1 + MAX_LEAF_BYTES" "char_head_p (bs ! j)"
    using rope_storable_window [of bs 1] assms(1) False by auto
  then have "is_emacs_char_boundary bs j True" using False by (auto simp: is_emacs_char_boundary_def)
  then have pos: "0 < leaf_end bs MAX_LEAF_BYTES" using leaf_end_pos [of bs j] j by auto
  note bd = leaf_end_boundary [OF pos]
  show thesis
    using that [of "leaf_end bs MAX_LEAF_BYTES"] pos bd boundary_le [OF bd] leaf_end_le [of bs MAX_LEAF_BYTES] False
    by (simp add: split_leaf_len_def Let_def)
qed

lemma tree_loop_ok:
  assumes "rt_ok mb t" "rope_storable mb bs"
  shows "\<exists>u s'. rt_tree_loop mb t bs s = Some (u, s') \<and> rt_ok mb u \<and> rt_node_text u = rt_node_text t @ bs"
  using assms
proof (induction "length bs" arbitrary: bs t s rule: less_induct)
  case less
  show ?case
  proof (cases "bs = []")
    case True
    then show ?thesis using less.prems by (simp add: rt_tree_loop.simps)
  next
    case False
    obtain n where n: "split_leaf_len bs mb = Some n" "0 < n" "n \<le> length bs" "n \<le> MAX_LEAF_BYTES"
      "is_emacs_char_boundary bs n mb"
      by (rule split_leaf_len_ok [OF less.prems(2) False])
    let ?N = "node_new rc_extent (rc_new (take n bs) mb) (fst (next_priority s))"
    have N: "rt_ok mb ?N"
      using n False rope_storable_lead_ok [OF less.prems(2)] by (simp add: rope_good_def)
    obtain v s1 where v: "rt_merge_adjacent mb t ?N (snd (next_priority s)) = Some (v, s1)" "rt_ok mb v"
      "rt_node_text v = rt_node_text t @ take n bs"
      using merge_adjacent_ok [OF less.prems(1) N, of "snd (next_priority s)"] by auto
    have "length (drop n bs) < length bs" using n(2,3) by simp
    then obtain u s2 where "rt_tree_loop mb v (drop n bs) s1 = Some (u, s2)" "rt_ok mb u"
      "rt_node_text u = rt_node_text v @ drop n bs"
      using less.hyps [of "drop n bs" v s1] v(2) rope_storable_take_drop(2) [OF less.prems(2) n(5)] by auto
    then show ?thesis using False n v by (simp add: rt_tree_loop.simps [of mb t bs s])
  qed
qed

interpretation cut_chunks: treap_splitter "rope_good mb" rc_extent rc_content mb "rt_sever mb" for mb
proof
  fix x bs l r k s
  assume x: "rope_good mb x" "rc_content x = Some bs" and l: "rt_ok mb l" and r: "rt_ok mb r"
    and k: "0 < k" "k < length bs" "is_emacs_char_boundary bs k mb"
  have bs: "bs = rc_bytes x" using x by simp
  have g: "lead_ok mb bs" "length bs \<le> MAX_LEAF_BYTES" "rc_len x = length bs"
    using x bs by (auto simp: rope_good_def rc_len_def)
  have cut: "rc_split_at k mb x = Some (rc_new (take k bs) mb, rc_new (drop k bs) mb)"
    using k g(3) bs by (simp add: rc_split_at_def)
  have good: "rope_good mb (rc_new (take k bs) mb)" "rope_good mb (rc_new (drop k bs) mb)"
    using k g boundary_drop_lead_ok [OF k(3) g(1)] by (auto intro!: rc_new_good)
  let ?p = "node_new rc_extent (rc_new (take k bs) mb) (fst (next_priority s))"
  let ?q = "node_new rc_extent (rc_new (drop k bs) mb) (fst (next_priority (snd (next_priority s))))"
  obtain t s1 where t: "rt_merge_adjacent mb l ?p (snd (next_priority (snd (next_priority s)))) = Some (t, s1)"
    "rt_ok mb t" "rt_node_text t = rt_node_text l @ take k bs"
    using merge_adjacent_ok [OF l, of ?p] good by fastforce
  obtain u s2 where u: "rt_merge_adjacent mb ?q r s1 = Some (u, s2)"
    "rt_ok mb u" "rt_node_text u = drop k bs @ rt_node_text r"
    using merge_adjacent_ok [OF _ r, of ?q] good by fastforce
  show "\<exists>t u s'. rt_sever mb x k l r s = Some (t, u, s') \<and> rt_ok mb t \<and> rt_ok mb u
      \<and> rt_node_text t = rt_node_text l @ take k bs \<and> rt_node_text u = drop k bs @ rt_node_text r"
    using cut t u by (simp add: rt_sever_def case_prod_unfold)
qed

subsection \<open>Every operation keeps the invariant and refines the list operation\<close>

lemma rope_inv_len [simp]: "rope_inv b \<Longrightarrow> rt_len b = length (rt_text b)"
  by (simp add: rope_inv_def rt_len_def rt_text_def)

lemma rope_inv_storable: "rope_inv b \<Longrightarrow> rope_storable (rt_multibyte b) (rt_text b)"
  unfolding rope_inv_def rt_text_def by (rule rt_ok_storable)

lemmas rope_inv_lead_ok = rope_storable_lead_ok [OF rope_inv_storable]

lemma rt_byte_to_char:
  assumes "rope_inv b" "is_emacs_char_boundary (rt_text b) k (rt_multibyte b)"
  shows "rt_emacs_byte_pos_to_char_pos k b = Some (emacs_char_count_bytes (take k (rt_text b)) (rt_multibyte b))"
  using assms unfolding rope_inv_def rt_text_def rt_emacs_byte_pos_to_char_pos_def
  by (rule chunks.byte_pos_to_char_pos_text)

lemma rt_char_to_byte:
  assumes "rope_inv b"
  shows "\<exists>k. rt_char_pos_to_emacs_byte_pos c b = Some k
     \<and> (if c \<le> emacs_char_count_bytes (rt_text b) (rt_multibyte b)
        then char_offset (rt_multibyte b) (rt_text b) c k else k = length (rt_text b))"
  using assms unfolding rope_inv_def rt_text_def rt_char_pos_to_emacs_byte_pos_def
  by (rule chunks.char_pos_to_byte_pos_text)

text \<open>The three steps of an edit leave everything but the priority counter alone.\<close>

lemma rt_tree_for_bytes_correct:
  assumes "rope_storable (rt_multibyte b) bs"
  obtains t s where "rt_tree_for_bytes bs b = Some (t, b\<lparr>rt_next_node_serial := s\<rparr>)"
    "rt_ok (rt_multibyte b) t" "rt_node_text t = bs"
  using tree_loop_ok [of "rt_multibyte b" Tip bs "rt_next_node_serial b"] assms that
  by (auto simp: rt_tree_for_bytes_def)

lemma rt_merge_nodes_correct:
  assumes "rt_ok (rt_multibyte b) l" "rt_ok (rt_multibyte b) r"
  obtains t s where "rt_merge_nodes l r b = Some (t, b\<lparr>rt_next_node_serial := s\<rparr>)"
    "rt_ok (rt_multibyte b) t" "rt_node_text t = rt_node_text l @ rt_node_text r"
  using merge_adjacent_ok [OF assms, of "rt_next_node_serial b"] that
  by (auto simp: rt_merge_nodes_def)

lemma rt_split_correct:
  assumes "rt_ok (rt_multibyte b) t" "is_emacs_char_boundary (rt_node_text t) k (rt_multibyte b)"
  obtains u v s where "rt_split_at_byte t k b = Some (u, v, b\<lparr>rt_next_node_serial := s\<rparr>)"
    "rt_ok (rt_multibyte b) u" "rt_ok (rt_multibyte b) v"
    "rt_node_text u = take k (rt_node_text t)" "rt_node_text v = drop k (rt_node_text t)"
  using cut_chunks.split_at_byte [OF assms, of "rt_next_node_serial b"] that
  by (auto simp: rt_split_at_byte_def)

lemma rt_from_emacs_bytes_inv:
  assumes "rope_storable mb bs"
  obtains b where "rt_from_emacs_bytes bs mb = Some b" "rope_inv b" "rt_text b = bs" "rt_multibyte b = mb"
proof -
  let ?b = "\<lparr>rt_root = Tip, rt_multibyte = mb, rt_next_node_serial = TREAP_SERIAL_FIRST\<rparr>"
  obtain t s where "rt_tree_for_bytes bs ?b = Some (t, ?b\<lparr>rt_next_node_serial := s\<rparr>)" "rt_ok mb t" "rt_node_text t = bs"
    by (rule rt_tree_for_bytes_correct [of ?b bs]) (use assms in simp_all)
  then show thesis using that by (simp add: rt_from_emacs_bytes_def rope_inv_def rt_text_def)
qed

lemma rt_insert_inv:
  assumes inv: "rope_inv b" and p: "is_emacs_char_boundary (rt_text b) p (rt_multibyte b)"
    and bs: "measured_text (rt_multibyte b) bs e" "rope_storable (rt_multibyte b) bs"
  obtains b' where "rt_insert_measured_emacs_bytes p bs e b = Some b'" "rope_inv b'"
    "rt_multibyte b' = rt_multibyte b" "rt_text b' = insert_at p bs (rt_text b)"
proof (cases "bs = []")
  case True
  then show ?thesis
    using that [of b] inv boundary_le [OF p] by (simp add: rt_insert_measured_emacs_bytes_def)
next
  case False
  let ?mb = "rt_multibyte b"
  have e: "e = extent_from_emacs_bytes bs ?mb" using bs by (auto simp: measured_text_def)
  obtain t s1 where 1: "rt_tree_for_bytes bs b = Some (t, b\<lparr>rt_next_node_serial := s1\<rparr>)" "rt_ok ?mb t" "rt_node_text t = bs"
    by (rule rt_tree_for_bytes_correct [OF bs(2)])
  let ?b1 = "b\<lparr>rt_next_node_serial := s1, rt_root := Tip\<rparr>"
  obtain u v s2 where 2: "rt_split_at_byte (rt_root b) p ?b1 = Some (u, v, ?b1\<lparr>rt_next_node_serial := s2\<rparr>)"
    "rt_ok ?mb u" "rt_ok ?mb v" "rt_node_text u = take p (rt_text b)" "rt_node_text v = drop p (rt_text b)"
    by (rule rt_split_correct [of ?b1 "rt_root b" p]) (use inv p in \<open>simp_all add: rope_inv_def rt_text_def\<close>)
  let ?b2 = "?b1\<lparr>rt_next_node_serial := s2\<rparr>"
  obtain w s3 where 3: "rt_merge_nodes u t ?b2 = Some (w, ?b2\<lparr>rt_next_node_serial := s3\<rparr>)" "rt_ok ?mb w"
    "rt_node_text w = take p (rt_text b) @ bs"
    by (rule rt_merge_nodes_correct [of ?b2 u t]) (use 1 2 in simp_all)
  let ?b3 = "?b2\<lparr>rt_next_node_serial := s3\<rparr>"
  obtain x s4 where 4: "rt_merge_nodes w v ?b3 = Some (x, ?b3\<lparr>rt_next_node_serial := s4\<rparr>)" "rt_ok ?mb x"
    "rt_node_text x = take p (rt_text b) @ bs @ drop p (rt_text b)"
    by (rule rt_merge_nodes_correct [of ?b3 w v]) (use 2 3 in simp_all)
  have "rt_insert_measured_emacs_bytes p bs e b = Some (?b3\<lparr>rt_next_node_serial := s4, rt_root := x\<rparr>)"
    using False boundary_le [OF p] inv e 1(1) 2(1) 3(1) 4(1) rt_byte_to_char [OF inv p]
    by (simp add: rt_insert_measured_emacs_bytes_def Let_def)
  then show ?thesis using that 4 by (simp add: rope_inv_def rt_text_def insert_at_def)
qed

text \<open>The two splits that isolate a range, shared by deletion and replacement.\<close>

lemma rt_split_range:
  assumes inv: "rope_inv b" and r: "measured_range (rt_multibyte b) (rt_text b) r"
  obtains u d v w s1 s2 where
    "rt_split_at_byte (rt_root b) (er_byte_start r) (b\<lparr>rt_root := Tip\<rparr>)
       = Some (u, v, b\<lparr>rt_root := Tip, rt_next_node_serial := s1\<rparr>)"
    "rt_split_at_byte v (er_byte_end r - er_byte_start r) (b\<lparr>rt_root := Tip, rt_next_node_serial := s1\<rparr>)
       = Some (d, w, b\<lparr>rt_root := Tip, rt_next_node_serial := s2\<rparr>)"
    "rt_ok (rt_multibyte b) u" "rt_ok (rt_multibyte b) w"
    "rt_node_text u = take (er_byte_start r) (rt_text b)" "rt_node_text w = drop (er_byte_end r) (rt_text b)"
proof -
  let ?s = "er_byte_start r" and ?e = "er_byte_end r" and ?mb = "rt_multibyte b" and ?t = "rt_text b"
  let ?b0 = "b\<lparr>rt_root := Tip\<rparr>"
  note m = measured_rangeD [OF r] and lok = rope_inv_lead_ok [OF inv]
  obtain u v s1 where 1: "rt_split_at_byte (rt_root b) ?s ?b0 = Some (u, v, ?b0\<lparr>rt_next_node_serial := s1\<rparr>)"
    "rt_ok ?mb u" "rt_ok ?mb v" "rt_node_text u = take ?s ?t" "rt_node_text v = drop ?s ?t"
    by (rule rt_split_correct [of ?b0 "rt_root b" ?s]) (use inv m in \<open>simp_all add: rope_inv_def rt_text_def\<close>)
  let ?b1 = "?b0\<lparr>rt_next_node_serial := s1\<rparr>"
  have bd: "is_emacs_char_boundary (drop ?s ?t) (?e - ?s) ?mb" using m lok by (simp add: boundary_drop)
  obtain d w s2 where 2: "rt_split_at_byte v (?e - ?s) ?b1 = Some (d, w, ?b1\<lparr>rt_next_node_serial := s2\<rparr>)"
    "rt_ok ?mb w" "rt_node_text w = drop ?e ?t"
    by (rule rt_split_correct [of ?b1 v "?e - ?s"]) (use 1 bd m in simp_all)
  show thesis using that 1 2 by simp
qed

lemma rt_delete_inv:
  assumes inv: "rope_inv b" and r: "measured_range (rt_multibyte b) (rt_text b) r"
  obtains b' where "rt_delete_measured_range r b = Some b'" "rope_inv b'"
    "rt_multibyte b' = rt_multibyte b" "rt_text b' = delete_range (er_byte_start r) (er_byte_end r) (rt_text b)"
proof (cases "er_byte_start r = er_byte_end r")
  case True
  then show ?thesis
    using that [of b] inv measured_rangeD [OF r] by (simp add: rt_delete_measured_range_def)
next
  case False
  let ?s = "er_byte_start r" and ?e = "er_byte_end r" and ?mb = "rt_multibyte b" and ?t = "rt_text b"
  note m = measured_rangeD [OF r]
  obtain u d v w s1 s2 where 1:
    "rt_split_at_byte (rt_root b) ?s (b\<lparr>rt_root := Tip\<rparr>) = Some (u, v, b\<lparr>rt_root := Tip, rt_next_node_serial := s1\<rparr>)"
    "rt_split_at_byte v (?e - ?s) (b\<lparr>rt_root := Tip, rt_next_node_serial := s1\<rparr>)
       = Some (d, w, b\<lparr>rt_root := Tip, rt_next_node_serial := s2\<rparr>)"
    "rt_ok ?mb u" "rt_ok ?mb w" "rt_node_text u = take ?s ?t" "rt_node_text w = drop ?e ?t"
    by (rule rt_split_range [OF inv r])
  let ?b2 = "b\<lparr>rt_root := Tip, rt_next_node_serial := s2\<rparr>"
  obtain x s3 where 2: "rt_merge_nodes u w ?b2 = Some (x, ?b2\<lparr>rt_next_node_serial := s3\<rparr>)" "rt_ok ?mb x"
    "rt_node_text x = take ?s ?t @ drop ?e ?t"
    by (rule rt_merge_nodes_correct [of ?b2 u w]) (use 1 in simp_all)
  have "er_char_start r \<le> er_char_end r" using measured_range_char_len(1) [OF r] by linarith
  then have "rt_delete_measured_range r b = Some (?b2\<lparr>rt_next_node_serial := s3, rt_root := x\<rparr>)"
    using False m inv 1(1,2) 2(1) rt_byte_to_char [OF inv m(1)] rt_byte_to_char [OF inv m(2)]
    by (simp add: rt_delete_measured_range_def Let_def char_offset_def edit_range_char_len_def)
  then show ?thesis using that 2 by (simp add: rope_inv_def rt_text_def delete_range_def)
qed

lemma rt_replace_inv:
  assumes inv: "rope_inv b" and r: "measured_range (rt_multibyte b) (rt_text b) (tr_old rep)"
    and bs: "measured_text (rt_multibyte b) bs (tr_new rep)" "rope_storable (rt_multibyte b) bs"
  obtains b' where "rt_replace_measured_range rep bs b = Some b'" "rope_inv b'"
    "rt_multibyte b' = rt_multibyte b"
    "rt_text b' = replace_range (er_byte_start (tr_old rep)) (er_byte_end (tr_old rep)) bs (rt_text b)"
proof (cases "edit_range_is_empty (tr_old rep) \<and> bs = []")
  case True
  then show ?thesis
    using that [of b] inv measured_rangeD [OF r]
    by (simp add: rt_replace_measured_range_def edit_range_is_empty_def byte_range_is_empty_def Let_def)
next
  case False
  let ?r = "tr_old rep" and ?mb = "rt_multibyte b" and ?t = "rt_text b"
  let ?s = "er_byte_start ?r" and ?e = "er_byte_end ?r"
  note m = measured_rangeD [OF r]
  have e: "tr_new rep = extent_from_emacs_bytes bs ?mb" using bs by (auto simp: measured_text_def)
  obtain u d v w s1 s2 where 1:
    "rt_split_at_byte (rt_root b) ?s (b\<lparr>rt_root := Tip\<rparr>) = Some (u, v, b\<lparr>rt_root := Tip, rt_next_node_serial := s1\<rparr>)"
    "rt_split_at_byte v (?e - ?s) (b\<lparr>rt_root := Tip, rt_next_node_serial := s1\<rparr>)
       = Some (d, w, b\<lparr>rt_root := Tip, rt_next_node_serial := s2\<rparr>)"
    "rt_ok ?mb u" "rt_ok ?mb w" "rt_node_text u = take ?s ?t" "rt_node_text w = drop ?e ?t"
    by (rule rt_split_range [OF inv r])
  let ?b2 = "b\<lparr>rt_root := Tip, rt_next_node_serial := s2\<rparr>"
  obtain t s3 where 2: "rt_tree_for_bytes bs ?b2 = Some (t, ?b2\<lparr>rt_next_node_serial := s3\<rparr>)" "rt_ok ?mb t" "rt_node_text t = bs"
    by (rule rt_tree_for_bytes_correct [of ?b2 bs]) (use bs in simp_all)
  let ?b3 = "?b2\<lparr>rt_next_node_serial := s3\<rparr>"
  obtain x s4 where 3: "rt_merge_nodes u t ?b3 = Some (x, ?b3\<lparr>rt_next_node_serial := s4\<rparr>)" "rt_ok ?mb x"
    "rt_node_text x = take ?s ?t @ bs"
    by (rule rt_merge_nodes_correct [of ?b3 u t]) (use 1 2 in simp_all)
  let ?b4 = "?b3\<lparr>rt_next_node_serial := s4\<rparr>"
  obtain y s5 where 4: "rt_merge_nodes x w ?b4 = Some (y, ?b4\<lparr>rt_next_node_serial := s5\<rparr>)" "rt_ok ?mb y"
    "rt_node_text y = take ?s ?t @ bs @ drop ?e ?t"
    by (rule rt_merge_nodes_correct [of ?b4 x w]) (use 1 3 in simp_all)
  have "rt_replace_measured_range rep bs b = Some (?b4\<lparr>rt_next_node_serial := s5, rt_root := y\<rparr>)"
    using False m inv e 1(1,2) 2(1) 3(1) 4(1) rt_byte_to_char [OF inv m(1)] rt_byte_to_char [OF inv m(2)]
    by (simp only: rt_replace_measured_range_def Let_def if_not_P [OF False] if_False) simp
  then show ?thesis using that 4 m by (simp add: rope_inv_def rt_text_def replace_range_alt)
qed

lemma rt_replace_same_len_inv:
  assumes inv: "rope_inv b" and r: "measured_range (rt_multibyte b) (rt_text b) (tr_old rep)"
    and bs: "measured_text (rt_multibyte b) bs (tr_new rep)" "rope_storable (rt_multibyte b) bs"
    and len: "length bs = er_byte_end (tr_old rep) - er_byte_start (tr_old rep)"
  obtains b' where "rt_replace_same_len_measured_range rep bs b = Some b'" "rope_inv b'"
    "rt_multibyte b' = rt_multibyte b"
    "rt_text b' = replace_range (er_byte_start (tr_old rep)) (er_byte_end (tr_old rep)) bs (rt_text b)"
proof -
  note m = measured_rangeD [OF r]
  obtain b' where b': "rt_replace_measured_range rep bs b = Some b'" "rope_inv b'"
    "rt_multibyte b' = rt_multibyte b"
    "rt_text b' = replace_range (er_byte_start (tr_old rep)) (er_byte_end (tr_old rep)) bs (rt_text b)"
    by (rule rt_replace_inv [OF inv r bs])
  have e: "tr_new rep = extent_from_emacs_bytes bs (rt_multibyte b)" using bs by (simp add: measured_text_def)
  show ?thesis
    using m b' len e inv that rt_byte_to_char [OF inv m(1)] rt_byte_to_char [OF inv m(2)]
    by (cases "er_byte_start (tr_old rep) = er_byte_end (tr_old rep)")
      (auto simp: rt_replace_same_len_measured_range_def Let_def char_offset_def)
qed

lemma rt_dump: "rope_inv b \<Longrightarrow> rt_dump_text b = Some (rt_text b)"
  unfolding rope_inv_def rt_text_def rt_dump_text_def by (rule chunks.dump_text_text)

lemma rt_rebuild_eq: "rt_rebuild_from_bytes bs mb b = rt_from_emacs_bytes bs mb"
  by (cases b) (simp add: rt_rebuild_from_bytes_def rt_from_emacs_bytes_def)

lemma rt_set_multibyte_inv:
  assumes "rope_inv b" "rope_storable mb (rt_text b)"
  obtains b' where "rt_set_multibyte mb b = Some b'" "rope_inv b'" "rt_multibyte b' = mb" "rt_text b' = rt_text b"
proof (cases "rt_multibyte b = mb")
  case True
  then show thesis using that assms by (simp add: rt_set_multibyte_def)
next
  case False
  obtain b' where "rt_from_emacs_bytes (rt_text b) mb = Some b'" "rope_inv b'" "rt_text b' = rt_text b" "rt_multibyte b' = mb"
    by (rule rt_from_emacs_bytes_inv [OF assms(2)])
  then show thesis using that False assms by (simp add: rt_set_multibyte_def rt_dump rt_rebuild_eq)
qed

subsection \<open>The backend contract\<close>

definition rt_byte_to_char_op :: "nat \<Rightarrow> rope \<Rightarrow> (nat \<times> rope) option" where
  "rt_byte_to_char_op k b = map_option (\<lambda>c. (c, b)) (rt_emacs_byte_pos_to_char_pos k b)"

definition rt_char_to_byte_op :: "nat \<Rightarrow> rope \<Rightarrow> (nat \<times> rope) option" where
  "rt_char_to_byte_op c b = map_option (\<lambda>k. (k, b)) (rt_char_pos_to_emacs_byte_pos c b)"

definition rt_metrics_op :: "rope \<Rightarrow> text_metrics option" where
  "rt_metrics_op b = Some (rt_metrics b)"

interpretation rope_backend: text_backend rope_inv rt_text rt_multibyte rt_insert_measured_emacs_bytes
  rt_delete_measured_range rt_replace_measured_range rt_byte_to_char_op rt_char_to_byte_op
  rt_copy_emacs_byte_range_to rt_metrics_op rope_storable
proof
  show "rope_storable m bs \<Longrightarrow> lead_ok m bs" for m bs by (rule rope_storable_lead_ok)
  show "rope_storable m bs \<Longrightarrow> is_emacs_char_boundary bs i m \<Longrightarrow> is_emacs_char_boundary bs j m \<Longrightarrow>
      rope_storable m (sub_list i j bs)" for m bs i j by (rule rope_storable_slice)
  show "rope_inv b \<Longrightarrow> rope_storable (rt_multibyte b) (rt_text b)" for b by (rule rope_inv_storable)
  show "rope_inv b \<Longrightarrow> rt_metrics_op b = Some (metrics_from_lengths
      (emacs_char_count_bytes (rt_text b) (rt_multibyte b)) (length (rt_text b)))" for b
    unfolding rope_inv_def rt_text_def rt_metrics_op_def rt_metrics_def
    using chunks.node_metrics_text [of "rt_multibyte b" "rt_root b"]
    by (simp add: metrics_from_lengths_def)
  show "rope_inv b \<Longrightarrow> br_start rg \<le> br_end rg \<Longrightarrow> br_end rg \<le> length (rt_text b) \<Longrightarrow>
      rt_copy_emacs_byte_range_to rg b = Some (sub_list (br_start rg) (br_end rg) (rt_text b))" for b rg
    unfolding rope_inv_def rt_text_def rt_copy_emacs_byte_range_to_def by (rule chunks.copy_range_text)
next
  fix b p bs e
  assume "rope_inv b" "is_emacs_char_boundary (rt_text b) p (rt_multibyte b)" "measured_text (rt_multibyte b) bs e"
    "rope_storable (rt_multibyte b) bs"
  then show "\<exists>b'. rt_insert_measured_emacs_bytes p bs e b = Some b' \<and> rope_inv b'
      \<and> rt_multibyte b' = rt_multibyte b \<and> rt_text b' = insert_at p bs (rt_text b)"
    by (rule rt_insert_inv) blast
next
  fix b r
  assume "rope_inv b" "measured_range (rt_multibyte b) (rt_text b) r"
  then show "\<exists>b'. rt_delete_measured_range r b = Some b' \<and> rope_inv b' \<and> rt_multibyte b' = rt_multibyte b
      \<and> rt_text b' = delete_range (er_byte_start r) (er_byte_end r) (rt_text b)"
    by (rule rt_delete_inv) blast
next
  fix b bs and rep :: text_replacement
  assume "rope_inv b" "measured_range (rt_multibyte b) (rt_text b) (tr_old rep)"
    "measured_text (rt_multibyte b) bs (tr_new rep)" "rope_storable (rt_multibyte b) bs"
  then show "\<exists>b'. rt_replace_measured_range rep bs b = Some b' \<and> rope_inv b' \<and> rt_multibyte b' = rt_multibyte b
      \<and> rt_text b' = replace_range (er_byte_start (tr_old rep)) (er_byte_end (tr_old rep)) bs (rt_text b)"
    by (rule rt_replace_inv) blast
next
  fix b k
  assume "rope_inv b" "is_emacs_char_boundary (rt_text b) k (rt_multibyte b)"
  then show "\<exists>c b'. rt_byte_to_char_op k b = Some (c, b') \<and> rope_inv b' \<and> rt_multibyte b' = rt_multibyte b
      \<and> rt_text b' = rt_text b \<and> char_offset (rt_multibyte b) (rt_text b) c k"
    by (simp add: rt_byte_to_char_op_def rt_byte_to_char char_offset_def)
next
  fix b c
  assume "rope_inv b"
  then show "\<exists>k b'. rt_char_to_byte_op c b = Some (k, b') \<and> rope_inv b' \<and> rt_multibyte b' = rt_multibyte b
      \<and> rt_text b' = rt_text b \<and> (if c \<le> emacs_char_count_bytes (rt_text b) (rt_multibyte b)
         then char_offset (rt_multibyte b) (rt_text b) c k else k = length (rt_text b))"
    using rt_char_to_byte [of b c] by (auto simp: rt_char_to_byte_op_def)
qed

subsection \<open>A rope of five full leaves\<close>

text \<open>
  A unibyte text of 5120 zero bytes makes five full leaves, with the priorities of the serials 1
  to 5. Inserting a byte in the middle of the first leaf draws the serials 6 to 9.
\<close>

lemma splitmix_values:
  "splitmix64 1 = 0x910a2dec89025cc1" "splitmix64 2 = 0x975835de1c9756ce" "splitmix64 3 = 0x1d0b14e4db018fed"
  "splitmix64 4 = 0x6e73e372e2338aca" "splitmix64 5 = 0x63033b0ca389c35a" "splitmix64 6 = 0xbd64a5d9adefe000"
  "splitmix64 7 = 0x63cbe1e459320dd7" "splitmix64 8 = 0x9e5651b0ef953636" "splitmix64 9 = 0xaeaf52febe706064"
  by code_simp+

definition zero_leaf :: "nat \<Rightarrow> rope_chunk" where "zero_leaf n = rc_new (replicate n 0) False"

lemma zero_leaf_simps [simp]: "rc_new (replicate n 0) False = zero_leaf n" "rc_len (zero_leaf n) = n" "rc_bytes (zero_leaf n) = replicate n 0"
  "te_bytes (rc_extent (zero_leaf n)) = n" "te_chars (rc_extent (zero_leaf n)) = n"
  by (simp_all add: zero_leaf_def rc_len_def)

lemma split_leaf_replicate: "split_leaf_len (replicate n 0) False = Some (min n MAX_LEAF_BYTES)"
  by (auto simp: split_leaf_len_def min_def)

lemma leaf_extent [simp]: "rc_extent (zero_leaf n) = extent_new n n" "extent_from_emacs_bytes (replicate n 0) False = extent_new n n"
  by (simp_all add: zero_leaf_def extent_from_emacs_bytes_def del: zero_leaf_simps)

lemma metrics_lengths [simp]: "metrics_from_extent (extent_new c n) = metrics_from_lengths c n"
  "add_extent (metrics_from_lengths c n) (extent_new d m) = metrics_from_lengths (c + d) (n + m)"
  "add_extent metrics_zero (extent_new d m) = metrics_from_lengths d m"
  "add_metrics (metrics_from_lengths c n) (metrics_from_lengths d m) = metrics_from_lengths (c + d) (n + m)"
  "add_metrics (metrics_from_lengths c n) metrics_zero = metrics_from_lengths c n"
  by (simp_all add: metrics_from_extent_def metrics_from_lengths_def add_extent_def add_metrics_def metrics_zero_def)

lemmas leaf_eval = split_leaf_replicate MAX_LEAF_BYTES_def next_priority_def node_new_def slice_def
  splitmix_values refresh_def

abbreviation lnode :: "nat \<Rightarrow> u64 \<Rightarrow> nat \<Rightarrow> rope_node \<Rightarrow> rope_node \<Rightarrow> rope_node" where
  "lnode n p c l r \<equiv> Node (zero_leaf n) p (metrics_from_lengths c c) l r"

definition five_leaves :: rope where
  "five_leaves = \<lparr>rt_root = lnode 1024 0x975835de1c9756ce 5120 (lnode 1024 0x910a2dec89025cc1 1024 Tip Tip)
       (lnode 1024 0x6e73e372e2338aca 3072 (lnode 1024 0x1d0b14e4db018fed 1024 Tip Tip) (lnode 1024 0x63033b0ca389c35a 1024 Tip Tip)),
     rt_multibyte = False, rt_next_node_serial = 6\<rparr>"

definition six_leaves :: rope where
  "six_leaves = \<lparr>rt_root = lnode 513 0xaeaf52febe706064 5121 Tip (lnode 1024 0x975835de1c9756ce 4608 (lnode 512 0x9e5651b0ef953636 512 Tip Tip)
       (lnode 1024 0x6e73e372e2338aca 3072 (lnode 1024 0x1d0b14e4db018fed 1024 Tip Tip) (lnode 1024 0x63033b0ca389c35a 1024 Tip Tip))),
     rt_multibyte = False, rt_next_node_serial = 10\<rparr>"

lemma five_leaves_built: "rt_from_emacs_bytes (replicate 5120 0) False = Some five_leaves"
  by (simp add: rt_from_emacs_bytes_def rt_tree_for_bytes_def TREAP_SERIAL_FIRST_def rt_tree_loop.simps leaf_eval five_leaves_def)

lemma rc_len_new [simp]: "rc_len (rc_new bs mb) = length bs"
  by (simp add: rc_len_def)

lemma unibyte_byte_to_char: "emacs_byte_to_char_in_slice bs k False = Some (min k (length bs))"
  by (simp add: emacs_byte_to_char_in_slice_def)

lemma one_byte: "rc_new [0] False = zero_leaf 1" "split_leaf_len [0] False = Some 1"
  by (simp_all add: zero_leaf_def split_leaf_len_def MAX_LEAF_BYTES_def del: zero_leaf_simps)

lemma leaf_append:
  "rc_new (replicate n 0 @ [0]) False = zero_leaf (Suc n)"
  "extent_from_emacs_bytes (replicate n 0 @ [0]) False = extent_new (Suc n) (Suc n)"
  by (simp_all add: zero_leaf_def replicate_append_same extent_from_emacs_bytes_def del: zero_leaf_simps flip: replicate_Suc)

lemma six_leaves_built: "rt_insert_measured_emacs_bytes 512 [0] (extent_new 1 1) five_leaves = Some six_leaves"
  by (simp add: rt_insert_measured_emacs_bytes_def five_leaves_def six_leaves_def rt_len_def treap_len_def
     rt_emacs_byte_pos_to_char_pos_def treap_byte_pos_to_char_pos_def unibyte_byte_to_char rt_tree_for_bytes_def
     rt_tree_loop.simps leaf_eval rt_split_at_byte_def rt_merge_nodes_def rt_sever_def rc_split_at_def one_byte leaf_append rc_content_def)

lemma heap_order_lost: "treap_heap (rt_root five_leaves)" "\<not> treap_heap (rt_root six_leaves)"
  by (simp_all add: five_leaves_def six_leaves_def)

subsection \<open>Properties\<close>

fun collect_chunk_lengths :: "rope_node \<Rightarrow> nat list" where
  "collect_chunk_lengths Tip = []"
| "collect_chunk_lengths (Node x p m l r) = collect_chunk_lengths l @ rc_len x # collect_chunk_lengths r"

lemma chunk_lengths_bounds:
  assumes "rt_ok mb t"
  shows "list_all (\<lambda>n. 0 < n \<and> n \<le> MAX_LEAF_BYTES) (collect_chunk_lengths t)"
    "sum_list (collect_chunk_lengths t) = length (rt_node_text t)"
  using assms by (induction t) (auto simp: rope_good_len rope_good_def)

text \<open>C32: replacing a measured range of a rope by storable text succeeds, replaces exactly that
  range, and leaves a rope whose leaves are all non-empty and at most \<open>MAX_LEAF_BYTES\<close> long, with
  lengths that add up to the length of the text.\<close>

theorem rope_replace_refines:
  assumes "rope_inv b" "measured_range (rt_multibyte b) (rt_text b) (tr_old rep)"
    "measured_text (rt_multibyte b) bs (tr_new rep)" "rope_storable (rt_multibyte b) bs"
  shows "\<exists>b'. rt_replace_measured_range rep bs b = Some b' \<and> rope_inv b'
     \<and> rt_text b' = replace_range (er_byte_start (tr_old rep)) (er_byte_end (tr_old rep)) bs (rt_text b)
     \<and> list_all (\<lambda>n. 0 < n \<and> n \<le> MAX_LEAF_BYTES) (collect_chunk_lengths (rt_root b'))
     \<and> sum_list (collect_chunk_lengths (rt_root b')) = length (rt_text b')"
proof -
  obtain b' where b': "rt_replace_measured_range rep bs b = Some b'" "rope_inv b'"
    "rt_text b' = replace_range (er_byte_start (tr_old rep)) (er_byte_end (tr_old rep)) bs (rt_text b)"
    by (rule rt_replace_inv [OF assms])
  then have "rt_ok (rt_multibyte b') (rt_root b')" by (simp add: rope_inv_def)
  note chunk_lengths_bounds [OF this]
  with b' show ?thesis by (intro exI [of _ b']) (simp add: rt_text_def)
qed

lemma five_leaves_inv: "rope_inv five_leaves" "rt_text five_leaves = replicate 5120 0"
proof -
  obtain b where "rt_from_emacs_bytes (replicate 5120 0) False = Some b" "rope_inv b" "rt_text b = replicate 5120 0"
    by (rule rt_from_emacs_bytes_inv [OF rope_storable_False])
  then show "rope_inv five_leaves" "rt_text five_leaves = replicate 5120 0"
    using five_leaves_built by auto
qed

definition sample_rope_edit :: text_replacement where
  "sample_rope_edit = replacement_new (edit_range_new (byte_range_new 1000 1100) 1000 1100) (extent_new 2 2)"

theorem rope_replace_refines_witness:
  "\<exists>b'. rt_replace_measured_range sample_rope_edit [1, 2] five_leaves = Some b' \<and> rope_inv b'
     \<and> rt_text b' = replace_range (er_byte_start (tr_old sample_rope_edit)) (er_byte_end (tr_old sample_rope_edit))
         [1, 2] (rt_text five_leaves)
     \<and> list_all (\<lambda>n. 0 < n \<and> n \<le> MAX_LEAF_BYTES) (collect_chunk_lengths (rt_root b'))
     \<and> sum_list (collect_chunk_lengths (rt_root b')) = length (rt_text b')"
proof (rule rope_replace_refines)
  have mb: "rt_multibyte five_leaves = False" by (simp add: five_leaves_def)
  show "measured_range (rt_multibyte five_leaves) (rt_text five_leaves) (tr_old sample_rope_edit)"
    unfolding mb five_leaves_inv(2)
    by (simp add: measured_range_def sample_rope_edit_def replacement_new_def edit_range_new_def
        edit_range_start_anchor_def edit_range_end_anchor_def char_offset_def min_def)
  show "measured_text (rt_multibyte five_leaves) [1, 2] (tr_new sample_rope_edit)"
    unfolding mb by (simp add: measured_text_def sample_rope_edit_def replacement_new_def extent_from_emacs_bytes_def)
  show "rope_storable (rt_multibyte five_leaves) [1, 2]" by (simp add: mb)
qed (rule five_leaves_inv)

text \<open>C33: joining two well-formed trees ends although the function calls itself on its own result:
  it returns a well-formed tree of the concatenated text with no more nodes than the two had.\<close>

theorem rope_join_terminates:
  assumes "rt_ok mb l" "rt_ok mb r"
  shows "\<exists>t s'. rt_merge_adjacent mb l r s = Some (t, s') \<and> rt_ok mb t
     \<and> rt_node_text t = rt_node_text l @ rt_node_text r \<and> treap_nodes t \<le> treap_nodes l + treap_nodes r"
  using merge_adjacent_ok [OF assms, of s] merge_adjacent_nodes [of mb l r s] by blast

theorem rope_join_terminates_witness:
  "\<exists>t s'. rt_merge_adjacent False (rt_root five_leaves) (rt_root five_leaves) 6 = Some (t, s') \<and> rt_ok False t
     \<and> rt_node_text t = rt_node_text (rt_root five_leaves) @ rt_node_text (rt_root five_leaves)
     \<and> treap_nodes t \<le> treap_nodes (rt_root five_leaves) + treap_nodes (rt_root five_leaves)"
proof (rule rope_join_terminates)
  show "rt_ok False (rt_root five_leaves)" "rt_ok False (rt_root five_leaves)"
    using five_leaves_inv(1) by (simp_all add: rope_inv_def five_leaves_def)
qed

text \<open>Cutting bytes into leaves panics exactly when a multibyte text longer than a leaf has no
  character boundary within the first \<open>MAX_LEAF_BYTES\<close> bytes after its start.\<close>

theorem rope_rejects_long_character:
  "split_leaf_len bs mb = None \<longleftrightarrow>
     mb \<and> MAX_LEAF_BYTES < length bs
     \<and> \<not> (\<exists>k. 0 < k \<and> k \<le> MAX_LEAF_BYTES \<and> is_emacs_char_boundary bs k True)"
proof -
  have "0 < leaf_end bs MAX_LEAF_BYTES \<longleftrightarrow> (\<exists>k. 0 < k \<and> k \<le> MAX_LEAF_BYTES \<and> is_emacs_char_boundary bs k True)"
    using leaf_end_boundary [of bs MAX_LEAF_BYTES] leaf_end_pos [of bs _ MAX_LEAF_BYTES] leaf_end_le [of bs MAX_LEAF_BYTES]
    by blast
  moreover have "split_leaf_len bs mb = None \<longleftrightarrow> mb \<and> MAX_LEAF_BYTES < length bs \<and> \<not> 0 < leaf_end bs MAX_LEAF_BYTES"
    by (auto simp: split_leaf_len_def Let_def panic_unless_def)
  ultimately show ?thesis by blast
qed

text \<open>The order of priorities is not an invariant of the rope. Five full leaves built from a
  text respect it; one insertion in the first leaf gives a valid rope in which a child outranks
  its parent, since splitting hangs a freshly numbered half below an old node.\<close>

theorem rope_priority_order_lost:
  "\<exists>b b'. rt_from_emacs_bytes (replicate 5120 0) False = Some b \<and> treap_heap (rt_root b)
     \<and> rt_insert_measured_emacs_bytes 512 [0] (extent_new 1 1) b = Some b' \<and> \<not> treap_heap (rt_root b')"
  using five_leaves_built six_leaves_built heap_order_lost by blast

end
