(* ===== verification/Text_Backend.thy ===== *)
theory Text_Backend
  imports Gap_Buffer Piece_Tree Rope_Text
begin

text \<open>
  The enum that holds one of the three backends and dispatches every operation of
  \<open>PhysicalTextBackend\<close> to it: \<open>src/crates/neovm-core/src/buffer/text/backend/mod.rs\<close>, with the
  kinds of \<open>text/kind.rs\<close> and the snapshots of \<open>text/snapshot.rs\<close>.

  The enum satisfies the same contract as its members, so that any sequence of measured edits
  gives the same text, the same metrics and the same conversions whichever backend is selected.
\<close>

subsection \<open>Kinds and snapshots\<close>

datatype backend_kind = GapBuffer | PieceTree | Rope

definition is_gap_buffer :: "backend_kind \<Rightarrow> bool" where
  "is_gap_buffer k \<longleftrightarrow> (case k of GapBuffer \<Rightarrow> True | _ \<Rightarrow> False)"

record bytes_snapshot =
  sn_bytes :: bytes
  sn_multibyte :: bool

datatype backend = TB_Gap gap_buffer | TB_PieceTree piece_tree | TB_Rope rope

subsection \<open>Constructors\<close>

fun tb_new :: "backend_kind \<Rightarrow> backend" where
  "tb_new GapBuffer = TB_Gap gb_new"
| "tb_new PieceTree = TB_PieceTree pt_new"
| "tb_new Rope = TB_Rope rt_new"

fun tb_from_emacs_bytes :: "bytes \<Rightarrow> bool \<Rightarrow> backend_kind \<Rightarrow> backend option" where
  "tb_from_emacs_bytes bs mb GapBuffer = Some (TB_Gap (gb_from_emacs_bytes bs mb))"
| "tb_from_emacs_bytes bs mb PieceTree = Some (TB_PieceTree (pt_from_emacs_bytes bs mb))"
| "tb_from_emacs_bytes bs mb Rope = map_option TB_Rope (rt_from_emacs_bytes bs mb)"

fun tb_from_snapshot :: "bytes_snapshot \<Rightarrow> backend_kind \<Rightarrow> backend option" where
  "tb_from_snapshot sn GapBuffer = Some (TB_Gap (gb_from_dump (sn_bytes sn) (sn_multibyte sn)))"
| "tb_from_snapshot sn PieceTree = Some (TB_PieceTree (pt_from_emacs_bytes (sn_bytes sn) (sn_multibyte sn)))"
| "tb_from_snapshot sn Rope = map_option TB_Rope (rt_from_emacs_bytes (sn_bytes sn) (sn_multibyte sn))"

fun tb_from_snapshot_with_gap_compat_state ::
    "bytes_snapshot \<Rightarrow> backend_kind \<Rightarrow> gap_compat_state \<Rightarrow> backend option" where
  "tb_from_snapshot_with_gap_compat_state sn GapBuffer st =
     map_option TB_Gap (gb_from_emacs_bytes_with_gap_compat_state (sn_bytes sn) (sn_multibyte sn) st)"
| "tb_from_snapshot_with_gap_compat_state sn PieceTree st = tb_from_snapshot sn PieceTree"
| "tb_from_snapshot_with_gap_compat_state sn Rope st = tb_from_snapshot sn Rope"

subsection \<open>Dispatch of the read operations\<close>

fun tb_kind :: "backend \<Rightarrow> backend_kind" where
  "tb_kind (TB_Gap _) = GapBuffer"
| "tb_kind (TB_PieceTree _) = PieceTree"
| "tb_kind (TB_Rope _) = Rope"

fun tb_metrics :: "backend \<Rightarrow> text_metrics option" where
  "tb_metrics (TB_Gap g) = gb_metrics g"
| "tb_metrics (TB_PieceTree b) = Some (pt_metrics b)"
| "tb_metrics (TB_Rope b) = Some (rt_metrics b)"

fun tb_storage_position_hint :: "backend \<Rightarrow> text_position_hint" where
  "tb_storage_position_hint (TB_Gap g) = gb_storage_position_hint g"
| "tb_storage_position_hint (TB_PieceTree _) = None"
| "tb_storage_position_hint (TB_Rope _) = None"

fun tb_position_lookup :: "backend \<Rightarrow> text_position_lookup" where
  "tb_position_lookup (TB_Gap _) = AnchorScan"
| "tb_position_lookup (TB_PieceTree _) = BackendIndex"
| "tb_position_lookup (TB_Rope _) = BackendIndex"

fun tb_real_gap_compat_state :: "backend \<Rightarrow> gap_compat_state option option" where
  "tb_real_gap_compat_state (TB_Gap g) = map_option Some (gb_real_gap_compat_state g)"
| "tb_real_gap_compat_state (TB_PieceTree _) = Some None"
| "tb_real_gap_compat_state (TB_Rope _) = Some None"

fun tb_is_multibyte :: "backend \<Rightarrow> bool" where
  "tb_is_multibyte (TB_Gap g) = gb_multibyte g"
| "tb_is_multibyte (TB_PieceTree b) = pt_multibyte b"
| "tb_is_multibyte (TB_Rope b) = rt_multibyte b"

fun tb_byte_at :: "nat \<Rightarrow> backend \<Rightarrow> u8 option" where
  "tb_byte_at pos (TB_Gap g) = gb_byte_at pos g"
| "tb_byte_at pos (TB_PieceTree b) = pt_byte_at pos b"
| "tb_byte_at pos (TB_Rope b) = rt_byte_at pos b"

fun tb_emacs_byte_at :: "nat \<Rightarrow> backend \<Rightarrow> u8 option option" where
  "tb_emacs_byte_at pos (TB_Gap g) = gb_emacs_byte_at pos g"
| "tb_emacs_byte_at pos (TB_PieceTree b) = pt_emacs_byte_at pos b"
| "tb_emacs_byte_at pos (TB_Rope b) = rt_emacs_byte_at pos b"

fun tb_char_code_at :: "nat \<Rightarrow> backend \<Rightarrow> u32 option option" where
  "tb_char_code_at pos (TB_Gap g) = gb_char_code_at pos g"
| "tb_char_code_at pos (TB_PieceTree b) = pt_char_code_at pos b"
| "tb_char_code_at pos (TB_Rope b) = rt_char_code_at pos b"

fun tb_contiguous_window_at :: "nat \<Rightarrow> backend \<Rightarrow> (nat \<times> bytes) option option" where
  "tb_contiguous_window_at pos (TB_Gap g) = gb_contiguous_window_at pos g"
| "tb_contiguous_window_at pos (TB_PieceTree _) = Some None"
| "tb_contiguous_window_at pos (TB_Rope _) = Some None"

fun tb_contiguous_window_before :: "nat \<Rightarrow> backend \<Rightarrow> (nat \<times> bytes) option option" where
  "tb_contiguous_window_before e (TB_Gap g) = gb_contiguous_window_before e g"
| "tb_contiguous_window_before e (TB_PieceTree _) = Some None"
| "tb_contiguous_window_before e (TB_Rope _) = Some None"

text \<open>Conversions also return the backend, whose anchor ring they may update.\<close>

fun tb_emacs_byte_pos_to_char_pos :: "nat \<Rightarrow> backend \<Rightarrow> (nat \<times> backend) option" where
  "tb_emacs_byte_pos_to_char_pos k (TB_Gap g) =
     map_option (map_prod id TB_Gap) (gb_emacs_byte_pos_to_char_pos k g)"
| "tb_emacs_byte_pos_to_char_pos k (TB_PieceTree b) =
     map_option (\<lambda>c. (c, TB_PieceTree b)) (pt_emacs_byte_pos_to_char_pos k b)"
| "tb_emacs_byte_pos_to_char_pos k (TB_Rope b) =
     map_option (\<lambda>c. (c, TB_Rope b)) (rt_emacs_byte_pos_to_char_pos k b)"

fun tb_char_pos_to_emacs_byte_pos :: "nat \<Rightarrow> backend \<Rightarrow> (nat \<times> backend) option" where
  "tb_char_pos_to_emacs_byte_pos c (TB_Gap g) =
     map_option (map_prod id TB_Gap) (gb_char_pos_to_emacs_byte_pos c g)"
| "tb_char_pos_to_emacs_byte_pos c (TB_PieceTree b) =
     map_option (\<lambda>k. (k, TB_PieceTree b)) (pt_char_pos_to_emacs_byte_pos c b)"
| "tb_char_pos_to_emacs_byte_pos c (TB_Rope b) =
     map_option (\<lambda>k. (k, TB_Rope b)) (rt_char_pos_to_emacs_byte_pos c b)"

fun tb_copy_emacs_byte_range_to :: "emacs_byte_range \<Rightarrow> backend \<Rightarrow> bytes option" where
  "tb_copy_emacs_byte_range_to rg (TB_Gap g) = gb_copy_emacs_byte_range_to rg g"
| "tb_copy_emacs_byte_range_to rg (TB_PieceTree b) = pt_copy_emacs_byte_range_to rg b"
| "tb_copy_emacs_byte_range_to rg (TB_Rope b) = rt_copy_emacs_byte_range_to rg b"

fun tb_byte_range_chunks :: "emacs_byte_range \<Rightarrow> backend \<Rightarrow> bytes list option" where
  "tb_byte_range_chunks rg (TB_Gap g) = gb_byte_range_chunks rg g"
| "tb_byte_range_chunks rg (TB_PieceTree b) = pt_for_each_emacs_byte_range_chunk rg b"
| "tb_byte_range_chunks rg (TB_Rope b) = rt_for_each_emacs_byte_range_chunk rg b"

fun tb_has_contiguous_emacs_byte_range :: "emacs_byte_range \<Rightarrow> backend \<Rightarrow> bool option" where
  "tb_has_contiguous_emacs_byte_range rg (TB_Gap g) = gb_has_contiguous_emacs_byte_range rg g"
| "tb_has_contiguous_emacs_byte_range rg (TB_PieceTree b) = pt_has_contiguous_emacs_byte_range rg b"
| "tb_has_contiguous_emacs_byte_range rg (TB_Rope b) = rt_has_contiguous_emacs_byte_range rg b"

fun tb_with_contiguous_emacs_byte_range :: "emacs_byte_range \<Rightarrow> backend \<Rightarrow> bytes option option" where
  "tb_with_contiguous_emacs_byte_range rg (TB_Gap g) = gb_with_contiguous_emacs_byte_range rg g"
| "tb_with_contiguous_emacs_byte_range rg (TB_PieceTree b) = pt_with_contiguous_emacs_byte_range rg b"
| "tb_with_contiguous_emacs_byte_range rg (TB_Rope b) = rt_with_contiguous_emacs_byte_range rg b"

fun tb_dump_text :: "backend \<Rightarrow> bytes option" where
  "tb_dump_text (TB_Gap g) = gb_dump_text g"
| "tb_dump_text (TB_PieceTree b) = pt_dump_text b"
| "tb_dump_text (TB_Rope b) = rt_dump_text b"

definition tb_snapshot :: "backend \<Rightarrow> bytes_snapshot option" where
  "tb_snapshot b = do {
     bs \<leftarrow> tb_dump_text b;
     Some \<lparr>sn_bytes = bs, sn_multibyte = tb_is_multibyte b\<rparr>
   }"

subsection \<open>Dispatch of the operations that change the backend\<close>

fun tb_set_multibyte :: "bool \<Rightarrow> backend \<Rightarrow> backend option" where
  "tb_set_multibyte mb (TB_Gap g) = map_option TB_Gap (gb_set_multibyte mb g)"
| "tb_set_multibyte mb (TB_PieceTree b) = map_option TB_PieceTree (pt_set_multibyte mb b)"
| "tb_set_multibyte mb (TB_Rope b) = map_option TB_Rope (rt_set_multibyte mb b)"

fun tb_try_make_emacs_byte_range_contiguous :: "emacs_byte_range \<Rightarrow> backend \<Rightarrow> (bool \<times> backend) option" where
  "tb_try_make_emacs_byte_range_contiguous rg (TB_Gap g) =
     map_option (\<lambda>g. (True, TB_Gap g)) (gb_make_emacs_byte_range_contiguous rg g)"
| "tb_try_make_emacs_byte_range_contiguous rg (TB_PieceTree b) =
     map_option (\<lambda>c. (c, TB_PieceTree b)) (tb_has_contiguous_emacs_byte_range rg (TB_PieceTree b))"
| "tb_try_make_emacs_byte_range_contiguous rg (TB_Rope b) =
     map_option (\<lambda>c. (c, TB_Rope b)) (tb_has_contiguous_emacs_byte_range rg (TB_Rope b))"

fun tb_insert_measured_emacs_bytes :: "nat \<Rightarrow> bytes \<Rightarrow> text_extent \<Rightarrow> backend \<Rightarrow> backend option" where
  "tb_insert_measured_emacs_bytes pos bs e (TB_Gap g) =
     map_option TB_Gap (gb_insert_measured_emacs_bytes pos bs e g)"
| "tb_insert_measured_emacs_bytes pos bs e (TB_PieceTree b) =
     map_option TB_PieceTree (pt_insert_measured_emacs_bytes pos bs e b)"
| "tb_insert_measured_emacs_bytes pos bs e (TB_Rope b) =
     map_option TB_Rope (rt_insert_measured_emacs_bytes pos bs e b)"

fun tb_delete_measured_range :: "text_edit_range \<Rightarrow> backend \<Rightarrow> backend option" where
  "tb_delete_measured_range r (TB_Gap g) = map_option TB_Gap (gb_delete_measured_range r g)"
| "tb_delete_measured_range r (TB_PieceTree b) = map_option TB_PieceTree (pt_delete_measured_range r b)"
| "tb_delete_measured_range r (TB_Rope b) = map_option TB_Rope (rt_delete_measured_range r b)"

fun tb_replace_measured_range :: "text_replacement \<Rightarrow> bytes \<Rightarrow> backend \<Rightarrow> backend option" where
  "tb_replace_measured_range rep bs (TB_Gap g) = map_option TB_Gap (gb_replace_measured_range rep bs g)"
| "tb_replace_measured_range rep bs (TB_PieceTree b) =
     map_option TB_PieceTree (pt_replace_measured_range rep bs b)"
| "tb_replace_measured_range rep bs (TB_Rope b) = map_option TB_Rope (rt_replace_measured_range rep bs b)"

fun tb_replace_same_len_measured_range :: "text_replacement \<Rightarrow> bytes \<Rightarrow> backend \<Rightarrow> backend option" where
  "tb_replace_same_len_measured_range rep bs (TB_Gap g) =
     map_option TB_Gap (gb_replace_same_len_measured_range rep bs g)"
| "tb_replace_same_len_measured_range rep bs (TB_PieceTree b) =
     map_option TB_PieceTree (pt_replace_same_len_measured_range rep bs b)"
| "tb_replace_same_len_measured_range rep bs (TB_Rope b) =
     map_option TB_Rope (rt_replace_same_len_measured_range rep bs b)"

subsection \<open>Measuring a byte range with the backend, and editing it\<close>

definition tb_byte_range_to_char_range :: "emacs_byte_range \<Rightarrow> backend \<Rightarrow> (char_range \<times> backend) option" where
  "tb_byte_range_to_char_range rg b = do {
     (c, b) \<leftarrow> tb_emacs_byte_pos_to_char_pos (br_start rg) b;
     (d, b) \<leftarrow> tb_emacs_byte_pos_to_char_pos (br_end rg) b;
     Some (char_range_new c d, b)
   }"

definition tb_edit_range_for_emacs_byte_range ::
    "emacs_byte_range \<Rightarrow> backend \<Rightarrow> (text_edit_range \<times> backend) option" where
  "tb_edit_range_for_emacs_byte_range rg b = do {
     (cr, b) \<leftarrow> tb_byte_range_to_char_range rg b;
     Some (edit_range_from_start_end (anchor_new (cr_start cr) (br_start rg))
             (anchor_new (cr_end cr) (br_end rg)), b)
   }"

text \<open>An edit as a client performs it: measure the range, then replace it by measured bytes.\<close>

definition tb_edit :: "emacs_byte_range \<times> bytes \<Rightarrow> backend \<Rightarrow> backend option" where
  "tb_edit ed b = do {
     (r, b) \<leftarrow> tb_edit_range_for_emacs_byte_range (fst ed) b;
     tb_replace_measured_range
       (replacement_new r (extent_from_emacs_bytes (snd ed) (tb_is_multibyte b))) (snd ed) b
   }"

fun tb_edits :: "(emacs_byte_range \<times> bytes) list \<Rightarrow> backend \<Rightarrow> backend option" where
  "tb_edits [] b = Some b"
| "tb_edits (ed # eds) b = do { b \<leftarrow> tb_edit ed b; tb_edits eds b }"

subsection \<open>The contract\<close>

fun tb_text :: "backend \<Rightarrow> bytes" where
  "tb_text (TB_Gap g) = gb_text g"
| "tb_text (TB_PieceTree b) = pt_text b"
| "tb_text (TB_Rope b) = rt_text b"

fun tb_own_inv :: "backend \<Rightarrow> bool" where
  "tb_own_inv (TB_Gap g) \<longleftrightarrow> gap_inv g"
| "tb_own_inv (TB_PieceTree b) \<longleftrightarrow> piece_inv b"
| "tb_own_inv (TB_Rope b) \<longleftrightarrow> rope_inv b"

text \<open>
  Besides the invariant of the backend in use, the text must be storable in every backend, so
  that the buffer can be converted to any kind at any time.
\<close>

definition tb_inv :: "backend \<Rightarrow> bool" where
  "tb_inv b \<longleftrightarrow> tb_own_inv b \<and> rope_storable (tb_is_multibyte b) (tb_text b)"

lemma storable_insert:
  assumes "rope_storable m t" "rope_storable m bs" "is_emacs_char_boundary t p m"
  shows "rope_storable m (insert_at p bs t)"
  unfolding insert_at_def by (intro rope_storable_append rope_storable_take_drop assms)

lemma storable_delete:
  assumes "rope_storable m t" "is_emacs_char_boundary t a m" "is_emacs_char_boundary t b m"
  shows "rope_storable m (delete_range a b t)"
  unfolding delete_range_def
  using rope_storable_take_drop [OF assms(1,2)] rope_storable_take_drop [OF assms(1,3)]
  by (intro rope_storable_append)

lemma storable_replace:
  assumes "rope_storable m t" "rope_storable m bs" "measured_range m t r"
  shows "rope_storable m (replace_range (er_byte_start r) (er_byte_end r) bs t)"
proof -
  note d = measured_rangeD [OF assms(3)]
  have "er_byte_start r \<le> length t" using d by linarith
  then show ?thesis
    using rope_storable_take_drop [OF assms(1) d(1)] rope_storable_take_drop [OF assms(1) d(2)] assms(2)
    by (simp add: replace_range_alt rope_storable_append)
qed

lemma own_inv_lead_ok: "tb_own_inv b \<Longrightarrow> lead_ok (tb_is_multibyte b) (tb_text b)"
  by (cases b) (simp_all add: gap.text_lead_ok piece_backend.text_lead_ok rope_backend.text_lead_ok)

lemmas rope_lead = rope_storable_lead_ok

lemma tb_insert_own:
  assumes "tb_own_inv b" "is_emacs_char_boundary (tb_text b) p (tb_is_multibyte b)"
    "measured_text (tb_is_multibyte b) bs e" "rope_storable (tb_is_multibyte b) bs"
  shows "\<exists>b'. tb_insert_measured_emacs_bytes p bs e b = Some b' \<and> tb_own_inv b'
     \<and> tb_is_multibyte b' = tb_is_multibyte b \<and> tb_kind b' = tb_kind b \<and> tb_text b' = insert_at p bs (tb_text b)"
proof (cases b)
  case (TB_Gap g)
  then show ?thesis using gap.insert_law [of g p bs e] assms rope_lead by fastforce
next
  case (TB_PieceTree t)
  then show ?thesis using piece_backend.insert_law [of t p bs e] assms rope_lead by fastforce
next
  case (TB_Rope r)
  then show ?thesis using rope_backend.insert_law [of r p bs e] assms by fastforce
qed

lemma tb_delete_own:
  assumes "tb_own_inv b" "measured_range (tb_is_multibyte b) (tb_text b) r"
  shows "\<exists>b'. tb_delete_measured_range r b = Some b' \<and> tb_own_inv b'
     \<and> tb_is_multibyte b' = tb_is_multibyte b \<and> tb_kind b' = tb_kind b
     \<and> tb_text b' = delete_range (er_byte_start r) (er_byte_end r) (tb_text b)"
proof (cases b)
  case (TB_Gap g)
  then show ?thesis using gap.delete_law [of g r] assms by fastforce
next
  case (TB_PieceTree t)
  then show ?thesis using piece_backend.delete_law [of t r] assms by fastforce
next
  case (TB_Rope t)
  then show ?thesis using rope_backend.delete_law [of t r] assms by fastforce
qed

lemma tb_replace_own:
  assumes "tb_own_inv b" "measured_range (tb_is_multibyte b) (tb_text b) (tr_old rep)"
    "measured_text (tb_is_multibyte b) bs (tr_new rep)" "rope_storable (tb_is_multibyte b) bs"
  shows "\<exists>b'. tb_replace_measured_range rep bs b = Some b' \<and> tb_own_inv b'
     \<and> tb_is_multibyte b' = tb_is_multibyte b \<and> tb_kind b' = tb_kind b
     \<and> tb_text b' = replace_range (er_byte_start (tr_old rep)) (er_byte_end (tr_old rep)) bs (tb_text b)"
proof (cases b)
  case (TB_Gap g)
  then show ?thesis using gap.replace_law [of g rep bs] assms rope_lead by fastforce
next
  case (TB_PieceTree t)
  then show ?thesis using piece_backend.replace_law [of t rep bs] assms rope_lead by fastforce
next
  case (TB_Rope t)
  then show ?thesis using rope_backend.replace_law [of t rep bs] assms by fastforce
qed

lemma tb_byte_to_char_own:
  assumes "tb_own_inv b" "is_emacs_char_boundary (tb_text b) k (tb_is_multibyte b)"
  shows "\<exists>c b'. tb_emacs_byte_pos_to_char_pos k b = Some (c, b') \<and> tb_own_inv b'
     \<and> tb_is_multibyte b' = tb_is_multibyte b \<and> tb_kind b' = tb_kind b \<and> tb_text b' = tb_text b
     \<and> char_offset (tb_is_multibyte b) (tb_text b) c k"
proof (cases b)
  case (TB_Gap g)
  then show ?thesis using gap.byte_to_char_law [of g k] assms by fastforce
next
  case (TB_PieceTree t)
  then show ?thesis using assms by (simp add: pt_byte_to_char char_offset_def)
next
  case (TB_Rope t)
  then show ?thesis using assms by (simp add: rt_byte_to_char char_offset_def)
qed

lemma tb_char_to_byte_own:
  assumes "tb_own_inv b"
  shows "\<exists>k b'. tb_char_pos_to_emacs_byte_pos c b = Some (k, b') \<and> tb_own_inv b'
     \<and> tb_is_multibyte b' = tb_is_multibyte b \<and> tb_kind b' = tb_kind b \<and> tb_text b' = tb_text b
     \<and> (if c \<le> emacs_char_count_bytes (tb_text b) (tb_is_multibyte b)
        then char_offset (tb_is_multibyte b) (tb_text b) c k else k = length (tb_text b))"
proof (cases b)
  case (TB_Gap g)
  then obtain k g' where "gb_char_pos_to_emacs_byte_pos c g = Some (k, g')" "gap_inv g'"
      "gb_multibyte g' = gb_multibyte g" "gb_text g' = gb_text g"
      "if c \<le> emacs_char_count_bytes (gb_text g) (gb_multibyte g)
       then char_offset (gb_multibyte g) (gb_text g) c k else k = length (gb_text g)"
    using gap.char_to_byte_law [of g c] assms by auto
  then show ?thesis using TB_Gap by simp
next
  case (TB_PieceTree t)
  then show ?thesis using assms pt_char_to_byte [of t c] by auto
next
  case (TB_Rope t)
  then show ?thesis using assms rt_char_to_byte [of t c] by auto
qed

interpretation backend: text_backend tb_inv tb_text tb_is_multibyte tb_insert_measured_emacs_bytes
  tb_delete_measured_range tb_replace_measured_range tb_emacs_byte_pos_to_char_pos
  tb_char_pos_to_emacs_byte_pos tb_copy_emacs_byte_range_to tb_metrics rope_storable
proof
  show "rope_storable m bs \<Longrightarrow> lead_ok m bs" for m bs by (rule rope_storable_lead_ok)
  show "rope_storable m bs \<Longrightarrow> is_emacs_char_boundary bs i m \<Longrightarrow> is_emacs_char_boundary bs j m \<Longrightarrow>
      rope_storable m (sub_list i j bs)" for m bs i j by (rule rope_storable_slice)
  show "tb_inv b \<Longrightarrow> rope_storable (tb_is_multibyte b) (tb_text b)" for b by (simp add: tb_inv_def)
  show "tb_inv b \<Longrightarrow> tb_metrics b = Some (metrics_from_lengths
      (emacs_char_count_bytes (tb_text b) (tb_is_multibyte b)) (length (tb_text b)))" for b
    using gap.metrics_law piece_backend.metrics_law rope_backend.metrics_law
    by (cases b) (auto simp: tb_inv_def pt_metrics_op_def rt_metrics_op_def)
  show "tb_inv b \<Longrightarrow> br_start rg \<le> br_end rg \<Longrightarrow> br_end rg \<le> length (tb_text b) \<Longrightarrow>
      tb_copy_emacs_byte_range_to rg b = Some (sub_list (br_start rg) (br_end rg) (tb_text b))" for b rg
    by (cases b) (auto simp: tb_inv_def gap.copy_law piece_backend.copy_law rope_backend.copy_law)
next
  fix b p bs e
  assume b: "tb_inv b" and p: "is_emacs_char_boundary (tb_text b) p (tb_is_multibyte b)"
    and bs: "measured_text (tb_is_multibyte b) bs e" "rope_storable (tb_is_multibyte b) bs"
  then show "\<exists>b'. tb_insert_measured_emacs_bytes p bs e b = Some b' \<and> tb_inv b'
      \<and> tb_is_multibyte b' = tb_is_multibyte b \<and> tb_text b' = insert_at p bs (tb_text b)"
    using tb_insert_own [OF _ p bs] storable_insert [OF _ bs(2) p] by (auto simp: tb_inv_def)
next
  fix b r
  assume b: "tb_inv b" and r: "measured_range (tb_is_multibyte b) (tb_text b) r"
  then show "\<exists>b'. tb_delete_measured_range r b = Some b' \<and> tb_inv b' \<and> tb_is_multibyte b' = tb_is_multibyte b
      \<and> tb_text b' = delete_range (er_byte_start r) (er_byte_end r) (tb_text b)"
    using tb_delete_own [OF _ r] storable_delete measured_rangeD(1,2) [OF r] by (auto simp: tb_inv_def)
next
  fix b bs and rep :: text_replacement
  assume b: "tb_inv b" and r: "measured_range (tb_is_multibyte b) (tb_text b) (tr_old rep)"
    and bs: "measured_text (tb_is_multibyte b) bs (tr_new rep)" "rope_storable (tb_is_multibyte b) bs"
  then show "\<exists>b'. tb_replace_measured_range rep bs b = Some b' \<and> tb_inv b' \<and> tb_is_multibyte b' = tb_is_multibyte b
      \<and> tb_text b' = replace_range (er_byte_start (tr_old rep)) (er_byte_end (tr_old rep)) bs (tb_text b)"
    using tb_replace_own [OF _ r bs] storable_replace [OF _ bs(2) r] by (auto simp: tb_inv_def)
next
  fix b k
  assume "tb_inv b" and k: "is_emacs_char_boundary (tb_text b) k (tb_is_multibyte b)"
  then show "\<exists>c b'. tb_emacs_byte_pos_to_char_pos k b = Some (c, b') \<and> tb_inv b'
      \<and> tb_is_multibyte b' = tb_is_multibyte b \<and> tb_text b' = tb_text b
      \<and> char_offset (tb_is_multibyte b) (tb_text b) c k"
    using tb_byte_to_char_own [OF _ k] by (auto simp: tb_inv_def)
next
  fix b c
  assume "tb_inv b"
  then show "\<exists>k b'. tb_char_pos_to_emacs_byte_pos c b = Some (k, b') \<and> tb_inv b'
      \<and> tb_is_multibyte b' = tb_is_multibyte b \<and> tb_text b' = tb_text b
      \<and> (if c \<le> emacs_char_count_bytes (tb_text b) (tb_is_multibyte b)
         then char_offset (tb_is_multibyte b) (tb_text b) c k else k = length (tb_text b))"
    using tb_char_to_byte_own [of b c] by (fastforce simp: tb_inv_def)
qed

subsection \<open>Any backend, any sequence of edits\<close>

text \<open>The text a sequence of edits denotes, and when each of them is legal.\<close>

fun edited :: "(emacs_byte_range \<times> bytes) list \<Rightarrow> bytes \<Rightarrow> bytes" where
  "edited [] t = t"
| "edited ((rg, bs) # eds) t = edited eds (replace_range (br_start rg) (br_end rg) bs t)"

fun legal_edits :: "bool \<Rightarrow> (emacs_byte_range \<times> bytes) list \<Rightarrow> bytes \<Rightarrow> bool" where
  "legal_edits m [] t \<longleftrightarrow> True"
| "legal_edits m ((rg, bs) # eds) t \<longleftrightarrow>
     br_start rg \<le> br_end rg \<and> is_emacs_char_boundary t (br_start rg) m
     \<and> is_emacs_char_boundary t (br_end rg) m \<and> rope_storable m bs
     \<and> legal_edits m eds (replace_range (br_start rg) (br_end rg) bs t)"

lemma kind_kept:
  "tb_emacs_byte_pos_to_char_pos k b = Some (c, b') \<Longrightarrow> tb_kind b' = tb_kind b"
  "tb_replace_measured_range rep bs b = Some b' \<Longrightarrow> tb_kind b' = tb_kind b"
  by (cases b; auto)+

lemma tb_edit_inv:
  assumes "tb_inv b" "br_start rg \<le> br_end rg"
    "is_emacs_char_boundary (tb_text b) (br_start rg) (tb_is_multibyte b)"
    "is_emacs_char_boundary (tb_text b) (br_end rg) (tb_is_multibyte b)"
    "rope_storable (tb_is_multibyte b) bs"
  shows "\<exists>b'. tb_edit (rg, bs) b = Some b' \<and> tb_inv b' \<and> tb_is_multibyte b' = tb_is_multibyte b
     \<and> tb_kind b' = tb_kind b \<and> tb_text b' = replace_range (br_start rg) (br_end rg) bs (tb_text b)"
proof -
  obtain c d b1 b2 where 1: "tb_emacs_byte_pos_to_char_pos (br_start rg) b = Some (c, b1)"
      "tb_emacs_byte_pos_to_char_pos (br_end rg) b1 = Some (d, b2)"
      "tb_inv b2" "tb_is_multibyte b2 = tb_is_multibyte b" "tb_text b2 = tb_text b"
      "measured_range (tb_is_multibyte b) (tb_text b)
         (edit_range_from_start_end (anchor_new c (br_start rg)) (anchor_new d (br_end rg)))"
    using backend.measure_range [OF assms(1,3,4,2)] by blast
  let ?r = "edit_range_from_start_end (anchor_new c (br_start rg)) (anchor_new d (br_end rg))"
  let ?rep = "replacement_new ?r (extent_from_emacs_bytes bs (tb_is_multibyte b2))"
  obtain b3 where 2: "tb_replace_measured_range ?rep bs b2 = Some b3" "tb_inv b3"
      "tb_is_multibyte b3 = tb_is_multibyte b2"
      "tb_text b3 = replace_range (br_start rg) (br_end rg) bs (tb_text b2)"
    using backend.replace_law [OF 1(3), of ?rep bs] 1(4-6) assms(5) rope_lead [OF assms(5)]
    by (auto simp: replacement_new_def measured_text_def)
  have "tb_edit (rg, bs) b = Some b3"
    using 1(1,2) 2(1)
    by (simp add: tb_edit_def tb_edit_range_for_emacs_byte_range_def tb_byte_range_to_char_range_def char_range_new_def)
  moreover have "tb_kind b3 = tb_kind b" using kind_kept 1(1,2) 2(1) by metis
  ultimately show ?thesis using 1 2 by auto
qed

lemma tb_edits_inv:
  assumes "tb_inv b" "legal_edits (tb_is_multibyte b) eds (tb_text b)"
  shows "\<exists>b'. tb_edits eds b = Some b' \<and> tb_inv b' \<and> tb_is_multibyte b' = tb_is_multibyte b
     \<and> tb_kind b' = tb_kind b \<and> tb_text b' = edited eds (tb_text b)"
  using assms
proof (induction eds arbitrary: b)
  case (Cons ed eds)
  obtain rg bs where ed: "ed = (rg, bs)" by (cases ed)
  obtain b1 where b1: "tb_edit ed b = Some b1" "tb_inv b1" "tb_is_multibyte b1 = tb_is_multibyte b"
      "tb_kind b1 = tb_kind b" "tb_text b1 = replace_range (br_start rg) (br_end rg) bs (tb_text b)"
    using tb_edit_inv [of b rg bs] Cons.prems by (auto simp: ed)
  obtain b2 where "tb_edits eds b1 = Some b2" "tb_inv b2" "tb_is_multibyte b2 = tb_is_multibyte b1"
      "tb_kind b2 = tb_kind b1" "tb_text b2 = edited eds (tb_text b1)"
    using Cons.IH [OF b1(2)] b1(3,5) Cons.prems(2) by (auto simp: ed)
  then show ?case using b1 by (simp add: ed)
qed simp

lemma tb_dump: "tb_own_inv b \<Longrightarrow> tb_dump_text b = Some (tb_text b)"
  by (cases b) (simp_all add: gb_dump_text_wf gap_inv_wf pt_dump rt_dump)

lemma tb_from_emacs_bytes_inv:
  assumes "rope_storable m bs"
  obtains b where "tb_from_emacs_bytes bs m k = Some b" "tb_inv b" "tb_kind b = k" "tb_is_multibyte b = m" "tb_text b = bs"
proof (cases k)
  case GapBuffer
  then show thesis using that [of "TB_Gap (gb_from_emacs_bytes bs m)"] gb_from_emacs_bytes_inv [OF rope_lead [OF assms]] assms
    by (simp add: tb_inv_def)
next
  case PieceTree
  then show thesis using that [of "TB_PieceTree (pt_from_emacs_bytes bs m)"] pt_from_emacs_bytes_inv [OF rope_lead [OF assms]] assms
    by (simp add: tb_inv_def)
next
  case Rope
  obtain r where "rt_from_emacs_bytes bs m = Some r" "rope_inv r" "rt_text r = bs" "rt_multibyte r = m"
    by (rule rt_from_emacs_bytes_inv [OF assms])
  then show thesis using that [of "TB_Rope r"] Rope assms by (simp add: tb_inv_def)
qed

subsection \<open>Properties\<close>

text \<open>C7: whichever backend kind is chosen, a buffer built from a text and put through any sequence
  of legal replacements (each range measured by the backend itself) never panics, keeps its
  invariant and kind, and ends with exactly the text that the list operations give; its dump and
  its metrics are those of that text. All backends are therefore interchangeable.\<close>

theorem backends_agree:
  assumes "rope_storable m bs" "legal_edits m eds bs"
  shows "\<exists>b0 b. tb_from_emacs_bytes bs m k = Some b0 \<and> tb_edits eds b0 = Some b \<and> tb_inv b
     \<and> tb_kind b = k \<and> tb_dump_text b = Some (edited eds bs)
     \<and> tb_metrics b = Some (metrics_from_lengths (emacs_char_count_bytes (edited eds bs) m) (length (edited eds bs)))"
proof -
  obtain b0 where b0: "tb_from_emacs_bytes bs m k = Some b0" "tb_inv b0" "tb_kind b0 = k"
      "tb_is_multibyte b0 = m" "tb_text b0 = bs"
    by (rule tb_from_emacs_bytes_inv [OF assms(1)])
  obtain b where b: "tb_edits eds b0 = Some b" "tb_inv b" "tb_is_multibyte b = m" "tb_kind b = k"
      "tb_text b = edited eds bs"
    using tb_edits_inv [OF b0(2), of eds] b0 assms(2) by auto
  have "tb_own_inv b" using b(2) by (simp add: tb_inv_def)
  then show ?thesis using b0(1) b tb_dump backend.metrics_law [OF b(2)] by auto
qed

theorem backends_agree_witness:
  "\<exists>b0 b. tb_from_emacs_bytes sample_text True Rope = Some b0
     \<and> tb_edits [(byte_range_new 1 3, [0x78, 0xC3, 0xA8])] b0 = Some b \<and> tb_inv b \<and> tb_kind b = Rope
     \<and> tb_dump_text b = Some (edited [(byte_range_new 1 3, [0x78, 0xC3, 0xA8])] sample_text)
     \<and> tb_metrics b = Some (metrics_from_lengths
          (emacs_char_count_bytes (edited [(byte_range_new 1 3, [0x78, 0xC3, 0xA8])] sample_text) True)
          (length (edited [(byte_range_new 1 3, [0x78, 0xC3, 0xA8])] sample_text)))"
proof (rule backends_agree)
  show "rope_storable True sample_text" by (rule rope_storable_short) code_simp+
  have "rope_storable True [0x78, 0xC3, 0xA8]" by (rule rope_storable_short) code_simp+
  moreover have "is_emacs_char_boundary sample_text 1 True" "is_emacs_char_boundary sample_text 3 True"
    by code_simp+
  ultimately show "legal_edits True [(byte_range_new 1 3, [0x78, 0xC3, 0xA8])] sample_text"
    by (simp del: One_nat_def)
qed

text \<open>Taking an edit back. After replacing a measured range in any backend, replacing the
  inserted extent by the bytes that were there succeeds and restores the text: what undo relies on.\<close>

theorem backend_take_back:
  assumes "tb_inv b" "measured_range (tb_is_multibyte b) (tb_text b) (tr_old rep)"
    "measured_text (tb_is_multibyte b) bs (tr_new rep)" "rope_storable (tb_is_multibyte b) bs"
  shows "\<exists>b1 b2. tb_replace_measured_range rep bs b = Some b1 \<and>
     tb_replace_measured_range
       (replacement_new
          (edit_range_from_start_extent (er_byte_start (tr_old rep)) (er_char_start (tr_old rep)) (tr_new rep))
          (edit_range_extent (tr_old rep)))
       (sub_list (er_byte_start (tr_old rep)) (er_byte_end (tr_old rep)) (tb_text b)) b1 = Some b2
     \<and> tb_inv b2 \<and> tb_text b2 = tb_text b"
  using assms by (rule backend.replace_take_back)

definition sample_backend :: backend where
  "sample_backend = TB_PieceTree (pt_from_emacs_bytes sample_text True)"

definition sample_replacement :: text_replacement where
  "sample_replacement = replacement_new (edit_range_new (byte_range_new 1 3) 1 2) (extent_new 2 2)"

theorem backend_take_back_witness:
  "\<exists>b1 b2. tb_replace_measured_range sample_replacement [0x78, 0x79] sample_backend = Some b1 \<and>
     tb_replace_measured_range
       (replacement_new
          (edit_range_from_start_extent (er_byte_start (tr_old sample_replacement))
             (er_char_start (tr_old sample_replacement)) (tr_new sample_replacement))
          (edit_range_extent (tr_old sample_replacement)))
       (sub_list (er_byte_start (tr_old sample_replacement)) (er_byte_end (tr_old sample_replacement))
          (tb_text sample_backend)) b1 = Some b2
     \<and> tb_inv b2 \<and> tb_text b2 = tb_text sample_backend"
proof (rule backend_take_back)
  have "rope_storable True sample_text" by (rule rope_storable_short) code_simp+
  then show "tb_inv sample_backend"
    using pt_from_emacs_bytes_inv [of True sample_text] rope_lead
    by (simp add: sample_backend_def tb_inv_def)
  show "measured_range (tb_is_multibyte sample_backend) (tb_text sample_backend) (tr_old sample_replacement)"
    by code_simp
  show "measured_text (tb_is_multibyte sample_backend) [0x78, 0x79] (tr_new sample_replacement)" by code_simp
  show "rope_storable (tb_is_multibyte sample_backend) [0x78, 0x79]" by (rule rope_storable_short) code_simp+
qed

text \<open>Every backend reads the same characters: at the offset of the i-th character of a
  well-formed text, \<open>char_code_at_emacs_byte_pos\<close> returns that character.\<close>

theorem backend_char_code_at:
  assumes "tb_own_inv b" "tb_is_multibyte b" "valid_codes cs" "tb_text b = encode_text cs"
    "char_offset True (tb_text b) i k" "i < length cs"
  shows "tb_char_code_at k b = Some (Some (cs ! i))"
proof (cases b)
  case (TB_Gap g)
  then show ?thesis using assms gb_char_code_at_inv [of g cs i k] by simp
next
  case (TB_PieceTree t)
  then show ?thesis using assms pieces.char_code_at_text [of t "pt_root t" cs i k]
    by (simp add: pt_char_code_at_def piece_inv_def pt_text_def)
next
  case (TB_Rope t)
  then show ?thesis using assms chunks.char_code_at_text [of True "rt_root t" cs i k]
    by (simp add: rt_char_code_at_def rope_inv_def rt_text_def)
qed

theorem backend_char_code_at_witness: "tb_char_code_at 1 sample_backend = Some (Some ([0x61, 0xE9, 0x62] ! 1))"
proof (rule backend_char_code_at)
  have "lead_ok True sample_text" by code_simp
  then show "tb_own_inv sample_backend"
    using pt_from_emacs_bytes_inv [of True sample_text] by (simp add: sample_backend_def)
  show "valid_codes [0x61, 0xE9, 0x62]" by (simp add: MAX_CHAR_def)
  show "tb_text sample_backend = encode_text [0x61, 0xE9, 0x62]" by code_simp
  show "char_offset True (tb_text sample_backend) 1 1" by code_simp
  show "tb_is_multibyte sample_backend" by code_simp
qed simp

end
