(* ===== verification/Position_Scan.thy ===== *)
theory Position_Scan
  imports Text_Backend
begin

text \<open>
  The scans that convert between character and byte positions from a known anchor: the last part of
  \<open>src/crates/neovm-core/src/buffer/buffer_text.rs\<close> (\<open>ForwardMultibytePositionScan\<close>,
  \<open>scan_forward\<close>, \<open>scan_backward\<close>, \<open>scan_forward_bytes\<close>, \<open>scan_backward_bytes\<close>).

  The forward character scan decodes the text chunk by chunk and carries an incomplete character
  over a chunk edge; the other three count character heads. On well-formed text they all compute the
  position that the text defines, whatever the chunks are. Inside a character the two byte scans
  differ: the forward one answers the next character, the backward one the character itself.
\<close>

subsection \<open>Forward to a character\<close>

definition emacs_multibyte_candidate_len :: "u8 \<Rightarrow> nat" where
  "emacs_multibyte_candidate_len lead =
     (if lead < 0x80 \<or> (0x80 \<le> lead \<and> lead < 0xC0) then 1
      else if lead < 0xE0 then 2
      else if lead < 0xF0 then 3
      else if lead < 0xF8 then 4
      else if lead = 0xF8 then MAX_MULTIBYTE_LENGTH
      else 1)"

text \<open>
  \<open>fs_pending\<close> is the used part of the array \<open>pending\<close>, whose capacity is
  \<open>MAX_MULTIBYTE_LENGTH\<close>; writing past it panics.
\<close>

record forward_scan =
  fs_byte :: emacs_byte_pos
  fs_char :: char_pos0
  fs_pending :: bytes

definition forward_scan_new :: "text_position_anchor \<Rightarrow> forward_scan" where
  "forward_scan_new a = \<lparr>fs_byte = ta_byte a, fs_char = ta_char a, fs_pending = []\<rparr>"

definition finish_pending_char :: "bytes \<Rightarrow> forward_scan \<Rightarrow> (bool \<times> nat \<times> forward_scan) option" where
  "finish_pending_char chunk f = (case fs_pending f of
       [] \<Rightarrow> Some (True, 0, f)
     | lead # _ \<Rightarrow> do {
         let expected = emacs_multibyte_candidate_len lead;
         let n = min (expected - length (fs_pending f)) (length chunk);
         panic_unless (length (fs_pending f) + n \<le> MAX_MULTIBYTE_LENGTH);
         let pending = fs_pending f @ take n chunk;
         let f = f\<lparr>fs_pending := pending, fs_byte := fs_byte f + n\<rparr>;
         if length pending < expected then Some (False, n, f)
         else do {
           form \<leftarrow> slice pending 0 expected;
           (_, len) \<leftarrow> string_char form;
           panic_unless (len = expected);
           Some (True, n, f\<lparr>fs_pending := [], fs_char := fs_char f + 1\<rparr>)
         }
       })"

definition ascii_run :: "bytes \<Rightarrow> nat" where
  "ascii_run bs = length (takeWhile (\<lambda>b. \<not> 0x80 \<le> b) bs)"

text \<open>The loop over the rest of a chunk: \<open>Inl\<close> is the answer, \<open>Inr\<close> the scan at the end of the chunk.\<close>

function consume_rest :: "bytes \<Rightarrow> char_pos0 \<Rightarrow> forward_scan \<Rightarrow> (emacs_byte_pos + forward_scan) option" where
  "consume_rest rest target f =
     (case rest of
        [] \<Rightarrow> Some (Inr f)
      | b # _ \<Rightarrow>
          if b < 0x80 then do {
            needed \<leftarrow> chk_sub target (fs_char f);
            let window = min needed (length rest);
            let run = ascii_run (take window rest);
            let f = f\<lparr>fs_byte := fs_byte f + run, fs_char := fs_char f + run\<rparr>;
            if target \<le> fs_char f then Some (Inl (fs_byte f))
            else consume_rest (drop run rest) target f
          }
          else do {
            let expected = emacs_multibyte_candidate_len b;
            if length rest < expected then do {
              panic_unless (length rest \<le> MAX_MULTIBYTE_LENGTH);
              Some (Inr (f\<lparr>fs_pending := rest, fs_byte := fs_byte f + length rest\<rparr>))
            }
            else do {
              (_, len) \<leftarrow> string_char (take expected rest);
              let f = f\<lparr>fs_byte := fs_byte f + len, fs_char := fs_char f + 1\<rparr>;
              if target \<le> fs_char f then Some (Inl (fs_byte f))
              else consume_rest (drop len rest) target f
            }
          })"
  by pat_completeness auto
termination
proof (relation "measure (\<lambda>(rest, target, f). length rest)", goal_cases)
  case (2 rest target f b bs needed window run f')
  then have "\<not> needed = 0" by (auto simp: chk_sub_def split: if_splits)
  then have "0 < window" using 2 by simp
  then obtain w where w: "window = Suc w" using gr0_implies_Suc by blast
  have "run = ascii_run (take window rest)" using 2 by simp
  then have "0 < run" using 2(1,2) by (simp add: w ascii_run_def)
  then show ?case using 2(1) by simp
next
  case (3 rest target f b bs expected x code len f')
  then have "0 < len" by (auto simp: string_char_def split: list.splits if_splits)
  then show ?case using 3(1) by simp
qed simp

declare consume_rest.simps [simp del]

definition consume_chunk_until_char ::
    "bytes \<Rightarrow> char_pos0 \<Rightarrow> forward_scan \<Rightarrow> (emacs_byte_pos + forward_scan) option" where
  "consume_chunk_until_char chunk target f = do {
     (complete, offset, f) \<leftarrow> finish_pending_char chunk f;
     if \<not> complete then Some (Inr f)
     else if target \<le> fs_char f then Some (Inl (fs_byte f))
     else consume_rest (drop offset chunk) target f
   }"

fun consume_chunks :: "bytes list \<Rightarrow> char_pos0 \<Rightarrow> forward_scan \<Rightarrow> emacs_byte_pos option" where
  "consume_chunks [] target f = Some (fs_byte f)"
| "consume_chunks (chunk # chunks) target f = do {
     r \<leftarrow> consume_chunk_until_char chunk target f;
     case r of Inl p \<Rightarrow> Some p | Inr f \<Rightarrow> consume_chunks chunks target f
   }"

definition scan_forward :: "backend \<Rightarrow> text_position_anchor \<Rightarrow> char_pos0 \<Rightarrow> emacs_byte_pos option" where
  "scan_forward b a target =
     (if target \<le> ta_char a then Some (ta_byte a)
      else if \<not> tb_is_multibyte b then Some (ta_byte a + saturating_offset_from target (ta_char a))
      else do {
        m \<leftarrow> tb_metrics b;
        chunks \<leftarrow> tb_byte_range_chunks (byte_range_new (ta_byte a) (tm_bytes m)) b;
        consume_chunks chunks target (forward_scan_new a)
      })"

subsection \<open>Backward to a character\<close>

text \<open>The walk over one window from its end; the argument is the reversed window.\<close>

fun back_heads :: "bytes \<Rightarrow> nat \<Rightarrow> nat + nat" where
  "back_heads [] remaining = Inr remaining"
| "back_heads (b # rb) remaining =
     (if b AND 0xC0 \<noteq> 0x80
      then (if remaining - 1 = 0 then Inl (length rb) else back_heads rb (remaining - 1))
      else back_heads rb remaining)"

definition count_heads :: "bytes \<Rightarrow> nat" where
  "count_heads bs = length (filter (\<lambda>b. b AND 0xC0 \<noteq> 0x80) bs)"

text \<open>The position of the head number \<open>wanted\<close> of a list of bytes that starts at \<open>pos\<close>.\<close>

fun nth_head_pos :: "bytes \<Rightarrow> nat \<Rightarrow> nat \<Rightarrow> nat option" where
  "nth_head_pos [] wanted pos = None"
| "nth_head_pos (b # bs) wanted pos =
     (if b AND 0xC0 \<noteq> 0x80
      then (if wanted = 0 then Some pos else nth_head_pos bs (wanted - 1) (pos + 1))
      else nth_head_pos bs wanted (pos + 1))"

definition WINDOW :: nat where
  "WINDOW = 4096"

lemma window_before_less: "tb_contiguous_window_before e b = Some (Some (st, w)) \<Longrightarrow> st < e"
  by (cases b) (auto simp: gb_contiguous_window_before_def bind_eq_Some_conv split: if_splits)

function scan_backward_loop :: "backend \<Rightarrow> nat \<Rightarrow> emacs_byte_pos \<Rightarrow> emacs_byte_pos option" where
  "scan_backward_loop b remaining bp =
     (if remaining = 0 then Some bp
      else do {
        win \<leftarrow> tb_contiguous_window_before bp b;
        case win of
          Some (st, chunk) \<Rightarrow>
            (case back_heads (rev chunk) remaining of
               Inl offset \<Rightarrow> Some (st + offset)
             | Inr remaining \<Rightarrow> scan_backward_loop b remaining st)
        | None \<Rightarrow> do {
            let span = min (remaining * MAX_MULTIBYTE_LENGTH) WINDOW;
            let win_start = bp - span;
            chunks \<leftarrow> tb_byte_range_chunks (byte_range_new win_start bp) b;
            let count = sum_list (map count_heads chunks);
            if remaining \<le> count
            then (case nth_head_pos (concat chunks) (count - remaining) win_start of
                    Some pos \<Rightarrow> Some pos
                  | None \<Rightarrow> Some win_start)
            else if win_start = 0 then Some win_start
            else scan_backward_loop b (remaining - count) win_start
          }
      })"
  by pat_completeness auto
termination
  by (relation "measure (\<lambda>(b, remaining, bp). bp)")
    (auto dest: window_before_less simp: MAX_MULTIBYTE_LENGTH_def WINDOW_def)

declare scan_backward_loop.simps [simp del]

definition scan_backward :: "backend \<Rightarrow> text_position_anchor \<Rightarrow> char_pos0 \<Rightarrow> emacs_byte_pos option" where
  "scan_backward b a target =
     (if ta_char a \<le> target then Some (ta_byte a)
      else if \<not> tb_is_multibyte b
      then Some (saturating_sub_len (ta_byte a) (saturating_offset_from (ta_char a) target))
      else scan_backward_loop b (saturating_offset_from (ta_char a) target) (ta_byte a))"

subsection \<open>To a byte\<close>

definition scan_forward_bytes :: "backend \<Rightarrow> text_position_anchor \<Rightarrow> emacs_byte_pos \<Rightarrow> char_pos0 option" where
  "scan_forward_bytes b a target =
     (if target \<le> ta_byte a then Some (ta_char a)
      else if \<not> tb_is_multibyte b then Some (ta_char a + saturating_offset_from target (ta_byte a))
      else do {
        m \<leftarrow> tb_metrics b;
        chunks \<leftarrow> tb_byte_range_chunks (byte_range_new (ta_byte a) (min target (tm_bytes m))) b;
        Some (ta_char a + sum_list (map count_heads chunks))
      })"

definition scan_backward_bytes :: "backend \<Rightarrow> text_position_anchor \<Rightarrow> emacs_byte_pos \<Rightarrow> char_pos0 option" where
  "scan_backward_bytes b a target =
     (if ta_byte a \<le> target then Some (ta_char a)
      else if \<not> tb_is_multibyte b
      then Some (saturating_sub_len (ta_char a) (saturating_offset_from (ta_byte a) target))
      else do {
        chunks \<leftarrow> tb_byte_range_chunks (byte_range_new target (ta_byte a)) b;
        at \<leftarrow> tb_emacs_byte_at target b;
        let inside_char = (case at of Some x \<Rightarrow> x AND 0xC0 = 0x80 | None \<Rightarrow> False);
        Some (saturating_sub_len (ta_char a) (sum_list (map count_heads chunks) + of_bool inside_char))
      })"

subsection \<open>Reading a backend in chunks\<close>

lemma tb_chunks:
  assumes "tb_own_inv b" "br_start rg \<le> br_end rg" "br_end rg \<le> length (tb_text b)"
  shows "\<exists>cs. tb_byte_range_chunks rg b = Some cs \<and> concat cs = sub_list (br_start rg) (br_end rg) (tb_text b)"
proof (cases b)
  case (TB_Gap g)
  then show ?thesis using assms gb_chunks_wf gap_inv_wf by auto
next
  case (TB_PieceTree t)
  then show ?thesis using assms pieces.range_chunks_concat [of t "pt_root t" rg]
    by (simp add: pt_for_each_emacs_byte_range_chunk_def piece_inv_def pt_text_def)
next
  case (TB_Rope t)
  then show ?thesis using assms chunks.range_chunks_concat [of "rt_multibyte t" "rt_root t" rg]
    by (simp add: rt_for_each_emacs_byte_range_chunk_def rope_inv_def rt_text_def)
qed

lemma tb_emacs_byte_at_text:
  assumes "tb_own_inv b"
  shows "tb_emacs_byte_at pos b = Some (if pos < length (tb_text b) then Some (tb_text b ! pos) else None)"
proof (cases b)
  case (TB_Gap g)
  then show ?thesis using assms gap_inv_wf [of g] by (auto simp: gb_emacs_byte_at_def gb_wf_def)
next
  case (TB_PieceTree t)
  then show ?thesis using assms pieces.byte_at_text [of t "pt_root t" pos] pieces.treap_len_text [of t "pt_root t"]
    by (auto simp: pt_emacs_byte_at_def treap_emacs_byte_at_def piece_inv_def pt_text_def)
next
  case (TB_Rope t)
  then show ?thesis
    using assms chunks.byte_at_text [of "rt_multibyte t" "rt_root t" pos] chunks.treap_len_text [of "rt_multibyte t" "rt_root t"]
    by (auto simp: rt_emacs_byte_at_def treap_emacs_byte_at_def rope_inv_def rt_text_def)
qed

lemma gb_window_before:
  assumes "gb_wf g" "0 < e" "e \<le> length (gb_text g)"
  shows "\<exists>st. gb_contiguous_window_before e g = Some (Some (st, sub_list st e (gb_text g))) \<and> st < e"
proof -
  let ?G = "gb_gap_start g"
  have wf: "?G \<le> gb_gap_end g" "gb_gap_end g \<le> length (gb_buf g)" using assms(1) by (auto simp: gb_wf_def)
  have tx: "gb_text g = take ?G (gb_buf g) @ drop (gb_gap_end g) (gb_buf g)" by (simp add: gb_text_def)
  have len: "gb_len g = Some (length (gb_text g))" using assms(1) by simp
  show ?thesis
  proof (cases "e \<le> ?G")
    case True
    have "sub_list 0 e (gb_text g) = take e (gb_buf g)"
      using True wf by (simp add: sub_list_def tx min_absorb1)
    then show ?thesis using True assms wf len
      by (auto simp: gb_contiguous_window_before_def slice_def sub_list_def)
  next
    case False
    have "sub_list ?G e (gb_text g) = take (e - ?G) (drop (gb_gap_end g) (gb_buf g))"
      using False wf by (simp add: sub_list_def tx)
    moreover have "gb_gap_end g + e - ?G - gb_gap_end g = e - ?G" "gb_gap_end g + e - ?G \<le> length (gb_buf g)"
      using False wf assms(3) tx by auto
    ultimately show ?thesis using False assms wf len
      by (auto simp: gb_contiguous_window_before_def slice_def chk_sub_def)
  qed
qed

lemma count_heads_leads: "count_heads bs = emacs_char_count_bytes bs True"
  by (simp add: count_heads_def char_count_True count_lead_bytes_def char_head_p_def [abs_def])

lemma sum_heads: "sum_list (map count_heads cs) = emacs_char_count_bytes (concat cs) True"
  by (induction cs) (simp_all add: count_heads_leads)

subsection \<open>Scans to a byte\<close>

lemma scan_forward_bytes_count:
  assumes inv: "tb_inv b" and a: "valid_anchor (tb_is_multibyte b) (tb_text b) a"
    and t: "ta_byte a \<le> target" "target \<le> length (tb_text b)"
  shows "scan_forward_bytes b a target = Some (emacs_char_count_bytes (take target (tb_text b)) (tb_is_multibyte b))"
proof (cases "ta_byte a = target \<or> \<not> tb_is_multibyte b")
  case True
  then show ?thesis using a t by (auto simp: scan_forward_bytes_def char_offset_def saturating_offset_from_def)
next
  case False
  have own: "tb_own_inv b" using inv by (simp add: tb_inv_def)
  obtain cs where cs: "tb_byte_range_chunks (byte_range_new (ta_byte a) target) b = Some cs"
      "concat cs = sub_list (ta_byte a) target (tb_text b)"
    using tb_chunks [OF own, of "byte_range_new (ta_byte a) target"] t by auto
  have "tb_metrics b = Some (metrics_from_lengths
      (emacs_char_count_bytes (tb_text b) (tb_is_multibyte b)) (length (tb_text b)))"
    by (rule backend.metrics_law [OF inv])
  then show ?thesis
    using False a t cs char_count_take_sub [of "ta_byte a" target "tb_text b" True]
    by (auto simp: scan_forward_bytes_def char_offset_def sum_heads metrics_from_lengths_def min_absorb1)
qed

definition inside_char :: "bool \<Rightarrow> bytes \<Rightarrow> nat \<Rightarrow> bool" where
  "inside_char mb tx k \<longleftrightarrow> mb \<and> k < length tx \<and> \<not> char_head_p (tx ! k)"

lemma inside_char_boundary:
  "lead_ok mb tx \<Longrightarrow> k \<le> length tx \<Longrightarrow> inside_char mb tx k \<longleftrightarrow> \<not> is_emacs_char_boundary tx k mb"
  by (auto simp: inside_char_def is_emacs_char_boundary_def lead_ok_def hd_conv_nth)

lemma scan_backward_bytes_count:
  assumes own: "tb_own_inv b" and a: "valid_anchor (tb_is_multibyte b) (tb_text b) a" and t: "target \<le> ta_byte a"
  shows "scan_backward_bytes b a target = Some
    (emacs_char_count_bytes (take target (tb_text b)) (tb_is_multibyte b)
      - of_bool (inside_char (tb_is_multibyte b) (tb_text b) target))"
proof -
  have le: "ta_byte a \<le> length (tb_text b)" using a boundary_le by (auto simp: char_offset_def)
  have cp: "ta_char a = emacs_char_count_bytes (take target (tb_text b)) (tb_is_multibyte b)
      + emacs_char_count_bytes (sub_list target (ta_byte a) (tb_text b)) (tb_is_multibyte b)"
    using a t char_count_take_sub [of target "ta_byte a" "tb_text b"] by (simp add: char_offset_def)
  consider "target = ta_byte a" | "\<not> tb_is_multibyte b" "target < ta_byte a" | "tb_is_multibyte b" "target < ta_byte a"
    using t by linarith
  then show ?thesis
  proof cases
    case 1
    then have "\<not> inside_char (tb_is_multibyte b) (tb_text b) target"
      using a le own_inv_lead_ok [OF own] by (simp add: inside_char_boundary char_offset_def)
    then show ?thesis using 1 a by (simp add: scan_backward_bytes_def char_offset_def)
  next
    case 2
    then show ?thesis using cp le
      by (simp add: scan_backward_bytes_def saturating_sub_len_def saturating_offset_from_def inside_char_def)
  next
    case 3
    obtain cs where "tb_byte_range_chunks (byte_range_new target (ta_byte a)) b = Some cs"
        "concat cs = sub_list target (ta_byte a) (tb_text b)"
      using tb_chunks [OF own, of "byte_range_new target (ta_byte a)"] t le by auto
    then show ?thesis
      using 3 cp le tb_emacs_byte_at_text [OF own, of target]
      by (simp add: scan_backward_bytes_def saturating_sub_len_def sum_heads inside_char_def char_head_p_def)
  qed
qed

subsection \<open>Scans to a character\<close>

lemma back_heads_spec:
  assumes "0 < n"
  shows "case back_heads (rev w) n of
      Inl k \<Rightarrow> k < length w \<and> char_head_p (w ! k) \<and> emacs_char_count_bytes (drop k w) True = n
    | Inr m \<Rightarrow> 0 < m \<and> m + emacs_char_count_bytes w True = n"
  using assms
proof (induction w arbitrary: n rule: rev_induct)
  case (snoc b w)
  show ?case
  proof (cases "char_head_p b")
    case False
    then show ?thesis using snoc.IH [OF snoc.prems] snoc.prems
      by (auto simp: char_head_p_def nth_append split: sum.splits)
  next
    case True
    show ?thesis
    proof (cases "n = 1")
      case False
      then show ?thesis using True snoc.IH [of "n - 1"] snoc.prems
        by (auto simp: char_head_p_def nth_append split: sum.splits)
    qed (use True in \<open>simp add: char_head_p_def\<close>)
  qed
qed simp

lemma scan_backward_loop_gap:
  assumes inv: "gap_inv g" and "0 < n" "bp \<le> length (gb_text g)" "n \<le> emacs_char_count_bytes (take bp (gb_text g)) True"
  shows "\<exists>k. scan_backward_loop (TB_Gap g) n bp = Some k \<and> k < bp \<and> char_head_p (gb_text g ! k)
    \<and> emacs_char_count_bytes (take k (gb_text g)) True + n = emacs_char_count_bytes (take bp (gb_text g)) True"
  using assms(2-4)
proof (induction bp arbitrary: n rule: less_induct)
  case (less bp)
  let ?tx = "gb_text g"
  have "0 < bp" using less.prems by (cases bp) auto
  then obtain st where st: "gb_contiguous_window_before bp g = Some (Some (st, sub_list st bp ?tx))" "st < bp"
    using gb_window_before [OF gap_inv_wf [OF inv]] less.prems by blast
  have split: "emacs_char_count_bytes (take bp ?tx) True
      = emacs_char_count_bytes (take j ?tx) True + emacs_char_count_bytes (sub_list j bp ?tx) True" if "j \<le> bp" for j
    using char_count_take_sub [OF that, of ?tx True] by simp
  note spec = back_heads_spec [OF less.prems(1), of "sub_list st bp ?tx"]
  show ?case
  proof (cases "back_heads (rev (sub_list st bp ?tx)) n")
    case (Inl k)
    have k: "k < bp - st" using spec Inl less.prems(2) st(2) by simp
    then have "drop k (sub_list st bp ?tx) = sub_list (st + k) bp ?tx"
      using sub_list_drop by (simp add: sub_list_def drop_take add.commute)
    moreover have "?tx ! (st + k) = sub_list st bp ?tx ! k" using k less.prems(2) by (simp add: nth_sub_list)
    ultimately show ?thesis
      using Inl spec st k less.prems(1) split [of "st + k"]
      by (subst scan_backward_loop.simps) auto
  next
    case (Inr m)
    have m: "0 < m" "m + emacs_char_count_bytes (sub_list st bp ?tx) True = n" using spec Inr by auto
    then have "m \<le> emacs_char_count_bytes (take st ?tx) True" "st \<le> length ?tx"
      using split [of st] less.prems st(2) by auto
    from less.IH [OF st(2) m(1) this(2,1)] show ?thesis
      using Inr st less.prems(1) m split [of st] by (subst scan_backward_loop.simps) auto
  qed
qed

lemma scan_backward_offset:
  assumes inv: "gap_inv g" and a: "valid_anchor (gb_multibyte g) (gb_text g) a" and t: "target \<le> ta_char a"
  shows "\<exists>k. scan_backward (TB_Gap g) a target = Some k \<and> char_offset (gb_multibyte g) (gb_text g) target k"
proof (cases "target = ta_char a \<or> \<not> gb_multibyte g")
  case True
  then show ?thesis using a t
    by (auto simp: scan_backward_def char_offset_def saturating_sub_len_def saturating_offset_from_def)
next
  case False
  have le: "ta_byte a \<le> length (gb_text g)" using a boundary_le by (auto simp: char_offset_def)
  obtain k where "scan_backward_loop (TB_Gap g) (ta_char a - target) (ta_byte a) = Some k" "k < ta_byte a"
      "char_head_p (gb_text g ! k)"
      "emacs_char_count_bytes (take k (gb_text g)) True + (ta_char a - target)
         = emacs_char_count_bytes (take (ta_byte a) (gb_text g)) True"
    using scan_backward_loop_gap [OF inv, of "ta_char a - target" "ta_byte a"] False t a le
    by (auto simp: char_offset_def)
  then show ?thesis using False t a le
    by (auto simp: scan_backward_def saturating_offset_from_def char_offset_def is_emacs_char_boundary_def)
qed

text \<open>The forward scan: one encoded character and its candidate length.\<close>

lemma candidate_len_unat:
  "emacs_multibyte_candidate_len b =
     (if unat b < 192 then 1 else if unat b < 224 then 2 else if unat b < 240 then 3
      else if unat b < 248 then 4 else if unat b = 248 then 5 else 1)"
proof -
  have "b = 0xF8 \<longleftrightarrow> unat b = 248" by (simp add: word_unat_eq_iff)
  then show ?thesis
    by (simp add: emacs_multibyte_candidate_len_def word_less_nat_alt word_le_nat_alt MAX_MULTIBYTE_LENGTH_def not_less)
qed

lemma candidate_len_enc:
  assumes "c \<le> MAX_CHAR" "char_string c = Some e"
  shows "emacs_multibyte_candidate_len (hd e) = length e"
proof -
  let ?n = "unat c"
  have e: "map unat e = enc ?n" using char_string_enc [OF assms(1)] assms(2) by simp
  have lt: "?n < 4194304" using assms(1) by (simp add: MAX_CHAR_def word_le_nat_alt)
  have len: "length e = length (enc ?n)" using e by (metis length_map)
  have hd: "unat (hd e) = hd (enc ?n)" using e by (cases e) (auto simp: enc_def split: if_splits)
  consider "?n < 128" | "128 \<le> ?n" "?n < 2048" | "2048 \<le> ?n" "?n < 65536" | "65536 \<le> ?n" "?n < 2097152"
    | "2097152 \<le> ?n" "?n < 4194176" | "4194176 \<le> ?n" by linarith
  then show ?thesis
  proof cases
    case 2
    then have "?n div 64 < 32" by (intro less_mult_imp_div_less) simp
    then show ?thesis using 2 by (simp add: candidate_len_unat hd len enc_def)
  next
    case 3
    then have "?n div 4096 < 16" by (intro less_mult_imp_div_less) simp
    then show ?thesis using 3 by (simp add: candidate_len_unat hd len enc_def)
  next
    case 4
    then have "?n div 262144 < 8" by (intro less_mult_imp_div_less) simp
    then show ?thesis using 4 by (simp add: candidate_len_unat hd len enc_def)
  next
    case 6
    then have "(?n - 4194176) div 64 < 2" using lt by (intro less_mult_imp_div_less) simp
    then show ?thesis using 6 by (simp add: candidate_len_unat hd len enc_def)
  qed (simp_all add: candidate_len_unat hd len enc_def)
qed

lemma encode_text_Cons_split:
  assumes "valid_codes ds" "encode_text ds = xs @ ahead" "xs \<noteq> []"
  obtains c ds' e where "ds = c # ds'" "valid_codes ds'" "encode_text ds = e @ encode_text ds'" "e \<noteq> []"
    "hd e = hd xs" "emacs_multibyte_candidate_len (hd xs) = length e" "length e \<le> MAX_MULTIBYTE_LENGTH"
    "\<And>rest. string_char (e @ rest) = Some (c, length e)"
proof (cases ds)
  case Nil
  then show thesis using assms by simp
next
  case (Cons c ds')
  then have "c \<le> MAX_CHAR" using assms(1) by simp
  then obtain e where e: "char_string c = Some e" "length e = char_bytes c" "e \<noteq> []"
      "\<And>rest. string_char (e @ rest) = Some (c, length e)"
    by (rule char_string_form) blast
  have enc: "encode_text ds = e @ encode_text ds'" using Cons e(1) by simp
  then have hd: "hd e = hd xs" using e(3) assms(2,3) by (metis hd_append2)
  have "emacs_multibyte_candidate_len (hd e) = length e"
    using candidate_len_enc [OF _ e(1)] assms(1) Cons by simp
  moreover have "length e \<le> MAX_MULTIBYTE_LENGTH" by (simp add: e(2) char_bytes_def MAX_MULTIBYTE_LENGTH_def)
  ultimately show thesis using that [OF Cons _ enc e(3) hd] e(4) assms(1) Cons hd by auto
qed

text \<open>A run of bytes below \<open>0x80\<close> is as many characters.\<close>

lemma encode_text_ascii_run:
  assumes "valid_codes ds" "n \<le> length (encode_text ds)" "\<forall>b \<in> set (take n (encode_text ds)). b < 0x80"
  shows "n \<le> length ds \<and> encode_text (take n ds) = take n (encode_text ds)
    \<and> encode_text (drop n ds) = drop n (encode_text ds)"
  using assms
proof (induction n arbitrary: ds)
  case (Suc n)
  then have ne: "encode_text ds \<noteq> []" by auto
  obtain c ds' e where d: "ds = c # ds'" "valid_codes ds'" "encode_text ds = e @ encode_text ds'" "e \<noteq> []"
      "emacs_multibyte_candidate_len (hd e) = length e"
    by (rule encode_text_Cons_split [OF Suc.prems(1), of "encode_text ds" "[]"]) (use ne in auto)
  obtain b e' where e: "e = b # e'" using d(4) by (cases e) auto
  have "b < 0x80" using Suc.prems(3) d(3) by (simp add: e)
  then have "emacs_multibyte_candidate_len b = 1" by (simp add: emacs_multibyte_candidate_len_def)
  then have "e = [b]" using d(5) e by simp
  then show ?case using Suc.IH [OF d(2)] Suc.prems(2,3) d(1,3) by auto
qed simp

lemma ascii_run_props:
  assumes "n = ascii_run xs"
  shows "n \<le> length xs" "\<forall>b \<in> set (take n xs). b < 0x80"
  using assms
  by (auto simp: ascii_run_def length_takeWhile_le takeWhile_eq_take [symmetric] not_le dest: set_takeWhileD)

definition pending_ok :: "forward_scan \<Rightarrow> bool" where
  "pending_ok f \<longleftrightarrow> (fs_pending f \<noteq> [] \<longrightarrow> length (fs_pending f) < emacs_multibyte_candidate_len (hd (fs_pending f)))"

text \<open>What consuming \<open>n\<close> bytes in front of \<open>ahead\<close> gives, when \<open>ds\<close> are the characters from the pending one on.\<close>

definition scan_result :: "u32 list \<Rightarrow> bytes \<Rightarrow> nat \<Rightarrow> char_pos0 \<Rightarrow> forward_scan \<Rightarrow> emacs_byte_pos + forward_scan \<Rightarrow> bool" where
  "scan_result ds ahead n target f r \<longleftrightarrow> (case r of
      Inl p \<Rightarrow> p + length (fs_pending f) = fs_byte f + length (encode_text (take (target - fs_char f) ds))
    | Inr f' \<Rightarrow> fs_byte f' = fs_byte f + n \<and> pending_ok f' \<and> (\<exists>k < target - fs_char f. fs_char f' = fs_char f + k
        \<and> encode_text (drop k ds) = fs_pending f' @ ahead))"

lemma scan_result_step:
  assumes "scan_result (drop j ds) ahead m target g r" "fs_char g = fs_char f + j" "fs_pending g = []"
    "fs_byte g + length (fs_pending f) = fs_byte f + length (encode_text (take j ds))"
    "fs_byte f + n = fs_byte g + m" "j \<le> target - fs_char f"
  shows "scan_result ds ahead n target f r"
proof (cases r)
  case (Inl p)
  have "take (target - fs_char f) ds = take j ds @ take (target - fs_char f - j) (drop j ds)"
    using assms(6) by (metis take_add le_add_diff_inverse)
  then show ?thesis using assms Inl by (simp add: scan_result_def)
next
  case (Inr f')
  obtain k where k: "k < target - fs_char g" "fs_char f' = fs_char g + k" "encode_text (drop k (drop j ds)) = fs_pending f' @ ahead"
    using assms(1) Inr by (auto simp: scan_result_def)
  then have "j + k < target - fs_char f" "fs_char f' = fs_char f + (j + k)" "encode_text (drop (j + k) ds) = fs_pending f' @ ahead"
    using assms(2) by (simp_all add: add.commute [of k j])
  moreover have "fs_byte f' = fs_byte g + m" "pending_ok f'" using assms(1) Inr by (auto simp: scan_result_def)
  ultimately show ?thesis
    unfolding scan_result_def Inr sum.case using assms(5) by (intro conjI exI [of _ "j + k"]) simp_all
qed

text \<open>One round of the loop advances over \<open>j\<close> characters that take \<open>n\<close> bytes.\<close>

definition advances :: "u32 list \<Rightarrow> bytes \<Rightarrow> bytes \<Rightarrow> char_pos0 \<Rightarrow> forward_scan \<Rightarrow> nat \<Rightarrow> nat \<Rightarrow> bool" where
  "advances ds rest ahead target f j n \<longleftrightarrow> 0 < n \<and> n \<le> length rest \<and> j \<le> target - fs_char f
     \<and> length (encode_text (take j ds)) = n \<and> encode_text (drop j ds) = drop n rest @ ahead
     \<and> consume_rest rest target f =
         (let g = f\<lparr>fs_byte := fs_byte f + n, fs_char := fs_char f + j\<rparr>
          in if target \<le> fs_char g then Some (Inl (fs_byte g)) else consume_rest (drop n rest) target g)"

lemma consume_rest_ascii:
  assumes "encode_text ds = rest @ ahead" "valid_codes ds" "fs_char f < target" "rest = b # bs" "b < 0x80"
  shows "\<exists>n. advances ds rest ahead target f n n"
proof -
  define needed where "needed = target - fs_char f"
  define run where "run = ascii_run (take (min needed (length rest)) rest)"
  have run: "run \<le> needed" "run \<le> length rest" "\<forall>x \<in> set (take run rest). x < 0x80"
    using ascii_run_props [of run "take (min needed (length rest)) rest"] by (auto simp: run_def min_def split: if_splits)
  have "0 < min needed (length rest)" using assms(3,4) by (simp add: needed_def)
  then obtain w where "min needed (length rest) = Suc w" using gr0_implies_Suc by blast
  then have pos: "0 < run" using assms(4,5) by (simp add: run_def ascii_run_def)
  have enc: "run \<le> length ds" "encode_text (take run ds) = take run rest" "encode_text (drop run ds) = drop run rest @ ahead"
    using encode_text_ascii_run [OF assms(2), of run] run(2,3) assms(1) by auto
  have "consume_rest rest target f =
      (let g = f\<lparr>fs_byte := fs_byte f + run, fs_char := fs_char f + run\<rparr>
       in if target \<le> fs_char g then Some (Inl (fs_byte g)) else consume_rest (drop run rest) target g)"
    using assms(3-5)
    by (subst consume_rest.simps) (simp add: run_def needed_def Let_def del: take_Cons' drop_Cons')
  then have "advances ds rest ahead target f run run"
    using enc run pos by (simp add: advances_def needed_def)
  then show ?thesis by blast
qed

lemma consume_rest_form:
  assumes "encode_text ds = rest @ ahead" "valid_codes ds" "fs_char f < target" "rest = b # bs" "\<not> b < 0x80"
    "\<not> length rest < emacs_multibyte_candidate_len b"
  shows "\<exists>n. advances ds rest ahead target f 1 n"
proof -
  have ne: "rest \<noteq> []" using assms(4) by simp
  obtain c ds' e where d: "ds = c # ds'" "encode_text ds = e @ encode_text ds'" "e \<noteq> []"
      "emacs_multibyte_candidate_len (hd rest) = length e" "\<And>r. string_char (e @ r) = Some (c, length e)"
    by (rule encode_text_Cons_split [OF assms(2,1) ne]) blast
  have long: "length e \<le> length rest" using assms(4,6) d(4) by simp
  have "take (length e) (rest @ ahead) = e" "drop (length e) (rest @ ahead) = encode_text ds'"
    unfolding assms(1) [symmetric] d(2) by simp_all
  then have split: "take (length e) rest = e" "encode_text ds' = drop (length e) rest @ ahead"
    using long by simp_all
  have "consume_rest rest target f =
      (let g = f\<lparr>fs_byte := fs_byte f + length e, fs_char := fs_char f + 1\<rparr>
       in if target \<le> fs_char g then Some (Inl (fs_byte g)) else consume_rest (drop (length e) rest) target g)"
    using assms(4-6) d(4) d(5) [of "[]"] split(1)
    by (subst consume_rest.simps) (simp add: Let_def del: take_Cons' drop_Cons')
  then have "advances ds rest ahead target f 1 (length e)"
    using split d(1-3) long assms(3) by (simp add: advances_def)
  then show ?thesis by blast
qed

lemma consume_rest_spec:
  assumes "encode_text ds = rest @ ahead" "valid_codes ds" "fs_char f < target" "fs_pending f = []"
  shows "\<exists>r. consume_rest rest target f = Some r \<and> scan_result ds ahead (length rest) target f r"
  using assms
proof (induction "length rest" arbitrary: rest ds f rule: less_induct)
  case less
  consider (Nil) "rest = []" | (short) b bs where "rest = b # bs" "\<not> b < 0x80" "length rest < emacs_multibyte_candidate_len b"
    | (step) j n where "advances ds rest ahead target f j n"
    using consume_rest_ascii [OF less.prems(1-3)] consume_rest_form [OF less.prems(1-3)] by (metis neq_Nil_conv)
  then show ?case
  proof cases
    case Nil
    then have "scan_result ds ahead 0 target f (Inr f)"
      using less.prems by (auto simp: scan_result_def pending_ok_def intro!: exI [of _ 0])
    then show ?thesis using Nil by (subst consume_rest.simps) simp
  next
    case short
    have "emacs_multibyte_candidate_len b \<le> MAX_MULTIBYTE_LENGTH"
      by (simp add: candidate_len_unat MAX_MULTIBYTE_LENGTH_def)
    moreover have "scan_result ds ahead (length rest) target f (Inr (f\<lparr>fs_pending := rest, fs_byte := fs_byte f + length rest\<rparr>))"
      using less.prems short by (auto simp: scan_result_def pending_ok_def intro!: exI [of _ 0])
    ultimately show ?thesis using short by (subst consume_rest.simps) (simp add: Let_def)
  next
    case step
    define g where "g = f\<lparr>fs_byte := fs_byte f + n, fs_char := fs_char f + j\<rparr>"
    have a: "0 < n" "n \<le> length rest" "j \<le> target - fs_char f" "length (encode_text (take j ds)) = n"
        "encode_text (drop j ds) = drop n rest @ ahead"
        "consume_rest rest target f = (if target \<le> fs_char g then Some (Inl (fs_byte g)) else consume_rest (drop n rest) target g)"
      using step by (auto simp: advances_def g_def Let_def)
    show ?thesis
    proof (cases "target \<le> fs_char g")
      case True
      then have "target - fs_char f = j" using a(3) less.prems(3) by (simp add: g_def)
      then have "scan_result ds ahead (length rest) target f (Inl (fs_byte g))"
        using a(4) less.prems(4) by (simp add: scan_result_def g_def)
      then show ?thesis using a(6) True by simp
    next
      case False
      have "length (drop n rest) < length rest" using a(1,2) by simp
      moreover have "valid_codes (drop j ds)" using less.prems(2) by (auto dest: in_set_dropD)
      moreover have "fs_char g < target" "fs_pending g = []" using False less.prems(4) by (simp_all add: g_def)
      ultimately obtain r where r: "consume_rest (drop n rest) target g = Some r"
          "scan_result (drop j ds) ahead (length (drop n rest)) target g r"
        using less.hyps [OF _ a(5)] by blast
      have "scan_result ds ahead (length rest) target f r"
        by (rule scan_result_step [OF r(2)]) (use a less.prems(4) in \<open>auto simp: g_def\<close>)
      then show ?thesis using a(6) False r(1) by simp
    qed
  qed
qed

lemma finish_pending_spec:
  assumes "encode_text ds = fs_pending f @ chunk @ ahead" "valid_codes ds" "pending_ok f" "fs_pending f \<noteq> []"
  obtains (short) "finish_pending_char chunk f
      = Some (False, length chunk, f\<lparr>fs_pending := fs_pending f @ chunk, fs_byte := fs_byte f + length chunk\<rparr>)"
      "length (fs_pending f @ chunk) < emacs_multibyte_candidate_len (hd (fs_pending f @ chunk))"
    | (full) n where "finish_pending_char chunk f
      = Some (True, n, f\<lparr>fs_pending := [], fs_byte := fs_byte f + n, fs_char := fs_char f + 1\<rparr>)"
      "n \<le> length chunk" "length (encode_text (take 1 ds)) = length (fs_pending f) + n"
      "encode_text (drop 1 ds) = drop n chunk @ ahead"
proof -
  let ?p = "fs_pending f"
  obtain c ds' e where d: "ds = c # ds'" "encode_text ds = e @ encode_text ds'" "hd e = hd ?p"
      "emacs_multibyte_candidate_len (hd ?p) = length e" "length e \<le> MAX_MULTIBYTE_LENGTH"
      "\<And>r. string_char (e @ r) = Some (c, length e)"
    by (rule encode_text_Cons_split [OF assms(2,1,4)]) blast
  obtain lead p' where p: "?p = lead # p'" using assms(4) by (cases ?p) auto
  have lt: "length ?p < length e" using assms(3,4) d(4) by (simp add: pending_ok_def)
  show thesis
  proof (cases "length ?p + length chunk < length e")
    case True
    then show thesis using short p d(4,5) by (simp add: finish_pending_char_def Let_def)
  next
    case False
    define n where "n = length e - length ?p"
    have n: "n \<le> length chunk" "length ?p + n = length e" using False lt by (auto simp: n_def)
    have "take (length e) (?p @ chunk @ ahead) = e" "drop (length e) (?p @ chunk @ ahead) = encode_text ds'"
      unfolding assms(1) [symmetric] d(2) by simp_all
    then have e: "?p @ take n chunk = e" "encode_text ds' = drop n chunk @ ahead" using n lt by (simp_all add: n_def)
    have "finish_pending_char chunk f
        = Some (True, n, f\<lparr>fs_pending := [], fs_byte := fs_byte f + n, fs_char := fs_char f + 1\<rparr>)"
      using p d(4,5) d(6) [of "[]"] n e(1)
      by (simp add: finish_pending_char_def Let_def slice_def n_def min_absorb1)
    then show thesis using full n e d(1,2) by simp
  qed
qed

lemma consume_chunk_spec:
  assumes "encode_text ds = fs_pending f @ chunk @ ahead" "valid_codes ds" "fs_char f < target" "pending_ok f"
  shows "\<exists>r. consume_chunk_until_char chunk target f = Some r \<and> scan_result ds ahead (length chunk) target f r"
proof (cases "fs_pending f = []")
  case True
  then show ?thesis
    using consume_rest_spec [of ds chunk ahead f target] assms
    by (simp add: consume_chunk_until_char_def finish_pending_char_def)
next
  case False
  show ?thesis
  proof (rule finish_pending_spec [OF assms(1,2,4) False])
    let ?g = "f\<lparr>fs_pending := fs_pending f @ chunk, fs_byte := fs_byte f + length chunk\<rparr>"
    assume *: "finish_pending_char chunk f = Some (False, length chunk, ?g)"
      "length (fs_pending f @ chunk) < emacs_multibyte_candidate_len (hd (fs_pending f @ chunk))"
    then have "scan_result ds ahead (length chunk) target f (Inr ?g)"
      using assms by (auto simp: scan_result_def pending_ok_def intro!: exI [of _ 0])
    then show ?thesis using * by (simp add: consume_chunk_until_char_def)
  next
    fix n
    let ?g = "f\<lparr>fs_pending := [], fs_byte := fs_byte f + n, fs_char := fs_char f + 1\<rparr>"
    assume *: "finish_pending_char chunk f = Some (True, n, ?g)" "n \<le> length chunk"
      "length (encode_text (take 1 ds)) = length (fs_pending f) + n" "encode_text (drop 1 ds) = drop n chunk @ ahead"
    show ?thesis
    proof (cases "target \<le> fs_char ?g")
      case True
      then have "target - fs_char f = 1" using assms(3) by simp
      then show ?thesis using True * by (simp add: consume_chunk_until_char_def scan_result_def)
    next
      case False
      have "valid_codes (drop 1 ds)" using assms(2) by (auto dest: in_set_dropD)
      then obtain r where r: "consume_rest (drop n chunk) target ?g = Some r"
          "scan_result (drop 1 ds) ahead (length (drop n chunk)) target ?g r"
        using consume_rest_spec [OF *(4), of ?g target] False by auto
      have "scan_result ds ahead (length chunk) target f r"
        by (rule scan_result_step [OF r(2)]) (use * assms(3) in auto)
      then show ?thesis using False * r(1) by (simp add: consume_chunk_until_char_def)
    qed
  qed
qed

lemma consume_chunks_spec:
  assumes "encode_text ds = fs_pending f @ concat chunks" "valid_codes ds" "fs_char f < target"
    "target - fs_char f \<le> length ds" "pending_ok f"
  shows "\<exists>p. consume_chunks chunks target f = Some p
    \<and> p + length (fs_pending f) = fs_byte f + length (encode_text (take (target - fs_char f) ds))"
  using assms
proof (induction chunks arbitrary: ds f)
  case Nil
  have "ds \<noteq> []" using Nil.prems(3,4) by auto
  moreover have False if ne: "fs_pending f \<noteq> []"
  proof -
    have "encode_text ds = fs_pending f @ []" using Nil.prems(1) by simp
    then obtain ds' e where "encode_text ds = e @ encode_text ds'" "emacs_multibyte_candidate_len (hd (fs_pending f)) = length e"
      by (rule encode_text_Cons_split [OF Nil.prems(2) _ ne]) blast
    then have "length e \<le> length (fs_pending f)" using Nil.prems(1) by (metis append_Nil2 concat.simps(1) le_add1 length_append)
    then show False using Nil.prems(5) ne \<open>_ = length e\<close> by (simp add: pending_ok_def)
  qed
  moreover have "encode_text ds \<noteq> []"
    using encode_text_count [OF Nil.prems(2)] \<open>ds \<noteq> []\<close> by (auto simp: chars_in_multibyte_def)
  ultimately show ?case using Nil.prems(1) by auto
next
  case (Cons chunk chunks)
  obtain r where r: "consume_chunk_until_char chunk target f = Some r" "scan_result ds (concat chunks) (length chunk) target f r"
    using consume_chunk_spec [of ds f chunk "concat chunks" target] Cons.prems by auto
  show ?case
  proof (cases r)
    case (Inl p)
    then show ?thesis using r by (simp add: scan_result_def)
  next
    case (Inr g)
    obtain k where k: "k < target - fs_char f" "fs_char g = fs_char f + k" "encode_text (drop k ds) = fs_pending g @ concat chunks"
        "fs_byte g = fs_byte f + length chunk" "pending_ok g"
      using r(2) Inr by (auto simp: scan_result_def)
    have "valid_codes (drop k ds)" using Cons.prems(2) by (auto dest: in_set_dropD)
    then obtain p where p: "consume_chunks chunks target g = Some p"
        "p + length (fs_pending g) = fs_byte g + length (encode_text (take (target - fs_char g) (drop k ds)))"
      using Cons.IH [OF k(3)] k Cons.prems(4) by fastforce
    have "take (target - fs_char f) ds = take k ds @ take (target - fs_char g) (drop k ds)"
      using k(1,2) by (metis diff_diff_left le_add_diff_inverse less_imp_le take_add)
    moreover have "length (fs_pending f) + length chunk = length (encode_text (take k ds)) + length (fs_pending g)"
      using arg_cong [OF Cons.prems(1), of length] arg_cong [OF k(3), of length]
        arg_cong [OF encode_text_append [of "take k ds" "drop k ds"], of length] by simp
    ultimately show ?thesis using p k(4) r(1) Inr by simp
  qed
qed

text \<open>The text of a multibyte buffer as a sequence of characters.\<close>

definition well_formed :: "bool \<Rightarrow> bytes \<Rightarrow> bool" where
  "well_formed mb tx \<longleftrightarrow> (mb \<longrightarrow> (\<exists>cs. valid_codes cs \<and> tx = encode_text cs))"

lemma scan_forward_offset:
  assumes inv: "tb_inv b" and wf: "well_formed (tb_is_multibyte b) (tb_text b)"
    and a: "valid_anchor (tb_is_multibyte b) (tb_text b) a"
    and t: "ta_char a \<le> target" "target \<le> emacs_char_count_bytes (tb_text b) (tb_is_multibyte b)"
  shows "\<exists>k. scan_forward b a target = Some k \<and> char_offset (tb_is_multibyte b) (tb_text b) target k"
proof (cases "target = ta_char a \<or> \<not> tb_is_multibyte b")
  case True
  then show ?thesis using a t by (auto simp: scan_forward_def char_offset_def saturating_offset_from_def)
next
  case False
  have own: "tb_own_inv b" using inv by (simp add: tb_inv_def)
  obtain cs where cs: "valid_codes cs" "tb_text b = encode_text cs" using wf False by (auto simp: well_formed_def)
  have bd: "is_emacs_char_boundary (encode_text cs) (ta_byte a) True" and le: "ta_byte a \<le> length (encode_text cs)"
    using a False cs boundary_le by (auto simp: char_offset_def)
  obtain i where i: "i \<le> length cs" "ta_byte a = length (encode_text (take i cs))" "char_offset True (encode_text cs) i (ta_byte a)"
    by (rule encode_text_boundary [OF cs(1) bd])
  have ic: "ta_char a = i" using i(3) a False cs(2) by (auto simp: char_offset_def)
  have tl: "target \<le> length cs" using t(2) False cs encode_text_count [OF cs(1)] by (simp add: emacs_char_count_bytes_def)
  obtain chunks where ch: "tb_byte_range_chunks (byte_range_new (ta_byte a) (length (tb_text b))) b = Some chunks"
      "concat chunks = sub_list (ta_byte a) (length (tb_text b)) (tb_text b)"
    using tb_chunks [OF own, of "byte_range_new (ta_byte a) (length (tb_text b))"] le cs(2) by auto
  have split: "encode_text cs = encode_text (take i cs) @ encode_text (drop i cs)"
    by (metis append_take_drop_id encode_text_append)
  have "encode_text (drop i cs) = concat chunks"
    using ch(2) cs(2) i(2) by (simp add: sub_list_def split)
  moreover have "valid_codes (drop i cs)" using cs(1) by (auto dest: in_set_dropD)
  ultimately obtain p where p: "consume_chunks chunks target (forward_scan_new a) = Some p"
      "p = ta_byte a + length (encode_text (take (target - i) (drop i cs)))"
    using consume_chunks_spec [of "drop i cs" "forward_scan_new a" chunks target] False t(1) tl ic
    by (auto simp: forward_scan_new_def pending_ok_def)
  have "take target cs = take i cs @ take (target - i) (drop i cs)"
    using t(1) ic by (metis le_add_diff_inverse take_add)
  then have "p = length (encode_text (take target cs))" using p(2) i(2) by simp
  then have "char_offset True (encode_text cs) target p" using encode_text_offset [OF cs(1) tl] by simp
  then show ?thesis
    using p(1) ch(1) backend.metrics_law [OF inv] False t(1) cs(2)
    by (auto simp: scan_forward_def metrics_from_lengths_def)
qed

end
