(* ===== verification/Fenwick_Sums.thy ===== *)
theory Fenwick_Sums
  imports Position_Scan
begin

text \<open>
  The tree of prefix sums inside the line index: \<open>LineSums\<close> and the Fenwick tree of
  \<open>src/crates/neovm-core/src/buffer/text_index.rs\<close>.

  Sums are \<open>u64\<close> in the code and natural numbers here; a subtraction below zero is a panic. An index
  into the tree is a \<open>usize\<close>. The loops over the tree are partial functions, so that a loop that does
  not end is the value \<open>None\<close>, like a panic; that they end is part of what is proved.
\<close>

unbundle bit_operations_syntax

subsection \<open>Sums\<close>

datatype line_sums = Line_Sums (lx_bytes: nat) (lx_chars: nat) (lx_newlines: nat) (lx_crs: nat)

datatype line_end = Newline | NewlineOrCarriageReturn

definition line_sums_add :: "line_sums \<Rightarrow> line_sums \<Rightarrow> line_sums" where
  "line_sums_add a b = Line_Sums (lx_bytes a + lx_bytes b) (lx_chars a + lx_chars b) (lx_newlines a + lx_newlines b) (lx_crs a + lx_crs b)"

instantiation line_sums :: comm_monoid_add
begin

definition zero_line_sums :: line_sums where
  "zero_line_sums = Line_Sums 0 0 0 0"

definition plus_line_sums :: "line_sums \<Rightarrow> line_sums \<Rightarrow> line_sums" where
  "plus_line_sums = line_sums_add"

instance
  by standard (auto simp: zero_line_sums_def plus_line_sums_def line_sums_add_def)

end

definition sums_sub :: "line_sums \<Rightarrow> line_sums \<Rightarrow> line_sums option" where
  "sums_sub a b = do {
     bytes \<leftarrow> chk_sub (lx_bytes a) (lx_bytes b);
     chars \<leftarrow> chk_sub (lx_chars a) (lx_chars b);
     newlines \<leftarrow> chk_sub (lx_newlines a) (lx_newlines b);
     crs \<leftarrow> chk_sub (lx_crs a) (lx_crs b);
     Some (Line_Sums bytes chars newlines crs)
   }"

definition sums_of_bytes :: "bool \<Rightarrow> bytes \<Rightarrow> line_sums" where
  "sums_of_bytes mb bs =
     (let chars = (if mb then length (filter (\<lambda>b. b AND 0xC0 \<noteq> 0x80) bs) else length bs)
      in Line_Sums (length bs) chars (length (filter (\<lambda>b. b = 10) bs)) (length (filter (\<lambda>b. b = 13) bs)))"

definition line_ends :: "line_end \<Rightarrow> line_sums \<Rightarrow> nat" where
  "line_ends e s = (case e of Newline \<Rightarrow> lx_newlines s | NewlineOrCarriageReturn \<Rightarrow> lx_newlines s + lx_crs s)"

subsection \<open>The tree\<close>

text \<open>\<open>i & i.wrapping_neg()\<close>: on a machine word the negation has the low bits of the integer \<open>- i\<close>.\<close>

definition lowest_bit :: "nat \<Rightarrow> nat" where
  "lowest_bit i = nat (int i AND - int i)"

definition rebuild_step :: "nat \<Rightarrow> nat \<Rightarrow> line_sums list \<Rightarrow> line_sums list" where
  "rebuild_step n i t =
     (let parent = i + lowest_bit i
      in if parent \<le> n then t[parent := t ! parent + t ! i] else t)"

definition rebuilt_tree :: "line_sums list \<Rightarrow> line_sums list" where
  "rebuilt_tree chunks = fold (rebuild_step (length chunks)) [1..<length chunks + 1] (0 # chunks)"

partial_function (option) tree_add_loop :: "line_sums \<Rightarrow> nat \<Rightarrow> line_sums list \<Rightarrow> line_sums list option" where
  "tree_add_loop delta i t =
     (if i < length t then tree_add_loop delta (i + lowest_bit i) (t[i := t ! i + delta]) else Some t)"

partial_function (option) tree_sub_loop :: "line_sums \<Rightarrow> nat \<Rightarrow> line_sums list \<Rightarrow> line_sums list option" where
  "tree_sub_loop delta i t =
     (if i < length t
      then case sums_sub (t ! i) delta of
          None \<Rightarrow> None
        | Some v \<Rightarrow> tree_sub_loop delta (i + lowest_bit i) (t[i := v])
      else Some t)"

partial_function (option) prefix_loop :: "line_sums list \<Rightarrow> nat \<Rightarrow> line_sums \<Rightarrow> line_sums option" where
  "prefix_loop t i sums =
     (if 0 < i
      then if i < length t then prefix_loop t (i - lowest_bit i) (sums + t ! i) else None
      else Some sums)"

text \<open>The descent: \<open>step\<close> is a power of two and is halved until it is zero.\<close>

function descend_loop :: "(line_sums \<Rightarrow> bool) \<Rightarrow> line_sums list \<Rightarrow> nat \<Rightarrow> nat \<Rightarrow> nat \<Rightarrow> line_sums \<Rightarrow> (nat \<times> line_sums) option" where
  "descend_loop fits t n step pos acc =
     (if step = 0 then Some (pos, acc)
      else if pos + step \<le> n \<and> length t \<le> pos + step then None
      else if pos + step \<le> n \<and> fits (acc + t ! (pos + step))
      then descend_loop fits t n (step div 2) (pos + step) (acc + t ! (pos + step))
      else descend_loop fits t n (step div 2) pos acc)"
  by pat_completeness auto
termination
  by (relation "measure (\<lambda>(fits, t, n, step, pos, acc). step)") auto

declare descend_loop.simps [simp del]

fun highest_bit :: "nat \<Rightarrow> nat" where
  "highest_bit n = (if n < 2 then n else 2 * highest_bit (n div 2))"

declare highest_bit.simps [simp del]

definition descend_tree :: "(line_sums \<Rightarrow> bool) \<Rightarrow> nat \<Rightarrow> line_sums list \<Rightarrow> (nat \<times> line_sums) option" where
  "descend_tree fits n t = descend_loop fits t n (highest_bit n) 0 0"

subsection \<open>The lowest bit\<close>

lemma lowest_bit_double: "lowest_bit (2 * i) = 2 * lowest_bit i"
proof -
  have "- (2 * int i) div 2 = - int i" by presburger
  then have "int (2 * i) AND - int (2 * i) = 2 * (int i AND - int i)"
    by (subst and_rec) simp
  then show ?thesis by (simp add: lowest_bit_def nat_mult_distrib)
qed

lemma lowest_bit_odd: "lowest_bit (2 * i + 1) = 1"
proof -
  have "- int (2 * i + 1) div 2 = NOT (int i)" by (simp add: not_int_def)
  then have "int (2 * i + 1) AND - int (2 * i + 1) = 1"
    by (subst and_rec) simp
  then show ?thesis by (simp add: lowest_bit_def)
qed

lemma lowest_bit_form:
  assumes "0 < i"
  obtains a m where "i = 2 ^ a * (2 * m + 1)" "lowest_bit i = 2 ^ a"
proof -
  have "\<exists>a m. i = 2 ^ a * (2 * m + 1) \<and> lowest_bit i = 2 ^ a"
    using assms
  proof (induction i rule: less_induct)
    case (less i)
    show ?case
    proof (cases "even i")
      case True
      then obtain j where j: "i = 2 * j" by (elim evenE)
      then have "\<exists>a m. j = 2 ^ a * (2 * m + 1) \<and> lowest_bit j = 2 ^ a" using less by simp
      then obtain a m where "j = 2 ^ a * (2 * m + 1)" "lowest_bit j = 2 ^ a" by blast
      moreover have "lowest_bit i = 2 * lowest_bit j" unfolding j by (rule lowest_bit_double)
      ultimately have "i = 2 ^ Suc a * (2 * m + 1)" "lowest_bit i = 2 ^ Suc a" unfolding j by simp_all
      then show ?thesis by blast
    next
      case False
      then obtain m where "i = 2 * m + 1" by (elim oddE)
      then have "i = 2 ^ 0 * (2 * m + 1) \<and> lowest_bit i = 2 ^ 0" using lowest_bit_odd by simp
      then show ?thesis by blast
    qed
  qed
  then show thesis using that by blast
qed

lemma lowest_bit_bounds: "0 < i \<Longrightarrow> 0 < lowest_bit i \<and> lowest_bit i \<le> i"
  by (erule lowest_bit_form) simp

lemma dvd_gap: "d dvd x \<Longrightarrow> d dvd y \<Longrightarrow> x < y \<Longrightarrow> x + d \<le> (y :: nat)"
  by (metis add_less_cancel_left dvd_diff_nat dvd_imp_le le_add_diff_inverse less_imp_le_nat nat_add_left_cancel_le zero_less_diff)

text \<open>Tree entry \<open>p\<close> sums the chunks \<open>p - lowest_bit p < i \<le> p\<close>; the entries that contain chunk \<open>i\<close> are
  \<open>i\<close> and those that contain \<open>i + lowest_bit i\<close>.\<close>

definition covers :: "nat \<Rightarrow> nat \<Rightarrow> bool" where
  "covers p i \<longleftrightarrow> p - lowest_bit p < i \<and> i \<le> p"

lemma covers_self: "0 < p \<Longrightarrow> covers p p"
  using lowest_bit_bounds [of p] by (simp add: covers_def)

lemma covers_step:
  assumes "0 < i" "0 < p" "p \<noteq> i"
  shows "covers p i \<longleftrightarrow> covers p (i + lowest_bit i)"
proof -
  obtain a m where i: "i = 2 ^ a * (2 * m + 1)" "lowest_bit i = 2 ^ a" by (rule lowest_bit_form [OF assms(1)])
  obtain k n where p: "p = 2 ^ k * (2 * n + 1)" "lowest_bit p = 2 ^ k" by (rule lowest_bit_form [OF assms(2)])
  let ?s = "2 ^ k * (2 * n) :: nat"
  have s: "p = ?s + 2 ^ k" "p - lowest_bit p = ?s" using p by (simp_all add: algebra_simps)
  have "i + 2 ^ a = 2 ^ Suc a * (m + 1)" by (subst i(1)) (simp add: algebra_simps)
  then have next_dvd: "2 ^ Suc a dvd i + lowest_bit i" unfolding i(2) by simp
  show ?thesis
  proof
    assume c: "covers p i"
    then have "?s < i" "i < p" using s(2) assms(3) by (simp_all add: covers_def)
    have "a < k"
    proof (rule ccontr)
      assume "\<not> a < k"
      then have "2 ^ k dvd i" unfolding i by (simp add: le_imp_power_dvd)
      then have "?s + 2 ^ k \<le> i" using dvd_gap [of "2 ^ k" ?s i] \<open>?s < i\<close> by simp
      then show False using \<open>i < p\<close> s(1) by simp
    qed
    then have "2 ^ a dvd p" unfolding p by (simp add: le_imp_power_dvd)
    moreover have "2 ^ a dvd i" unfolding i by simp
    ultimately have "i + 2 ^ a \<le> p" using dvd_gap [of "2 ^ a" i p] \<open>i < p\<close> by simp
    then show "covers p (i + lowest_bit i)" using \<open>?s < i\<close> s(2) i(2) by (simp add: covers_def)
  next
    assume "covers p (i + lowest_bit i)"
    then have c: "?s < i + 2 ^ a" "i + 2 ^ a \<le> p" using s(2) i(2) by (simp_all add: covers_def)
    have "?s < i"
    proof (rule ccontr)
      assume "\<not> ?s < i"
      then have le: "i \<le> ?s" by simp
      show False
      proof (cases "Suc k \<le> a")
        case True
        then have "2 ^ Suc k dvd i + 2 ^ a" using next_dvd i(2) by (metis dvd_trans le_SucI le_imp_power_dvd)
        moreover have "2 ^ Suc k dvd ?s" by simp
        ultimately have "?s + 2 ^ Suc k \<le> i + 2 ^ a" using dvd_gap c(1) by blast
        moreover have "(0 :: nat) < 2 ^ k" by simp
        ultimately show False using c(2) s(1) by simp
      next
        case False
        then have d: "2 ^ a dvd ?s" by (simp add: le_imp_power_dvd)
        have "2 ^ a dvd i" unfolding i by simp
        show False
        proof (cases "i = ?s")
          case True
          then have "2 ^ Suc k dvd i" "0 < i" using assms(1) by simp_all
          moreover have "\<not> 2 ^ a * 2 dvd 2 ^ a * (2 * m + 1)" by (subst nat_mult_dvd_cancel1) simp_all
          then have "\<not> 2 ^ Suc a dvd i" unfolding i(1) power_Suc2 .
          ultimately show False using False by (metis le_imp_power_dvd dvd_trans not_less_eq_eq)
        next
          case False
          then show False using dvd_gap [OF \<open>2 ^ a dvd i\<close> d] le c(1) by simp
        qed
      qed
    qed
    then show "covers p i" using s(2) c(2) by (simp add: covers_def)
  qed
qed

lemma lowest_bit_step: "2 ^ Suc e dvd pos \<Longrightarrow> lowest_bit (pos + 2 ^ e) = 2 ^ e"
proof (induction e arbitrary: pos)
  case 0
  then obtain m where "pos = 2 * m" by (auto elim: dvdE)
  then show ?case using lowest_bit_odd [of m] by simp
next
  case (Suc e)
  then obtain m where m: "pos = 2 * m" "2 ^ Suc e dvd m" by (auto elim!: dvdE simp: mult.assoc)
  have "pos + 2 ^ Suc e = 2 * (m + 2 ^ e)" using m(1) by simp
  then show ?case using Suc.IH [OF m(2)] lowest_bit_double [of "m + 2 ^ e"] by simp
qed

subsection \<open>What the tree holds\<close>

definition prefix_sum :: "line_sums list \<Rightarrow> nat \<Rightarrow> line_sums" where
  "prefix_sum cs k = sum ((!) cs) {..<k}"

definition node_sum :: "line_sums list \<Rightarrow> nat \<Rightarrow> line_sums" where
  "node_sum cs p = sum ((!) cs) {p - lowest_bit p..<p}"

definition tree_ok :: "line_sums list \<Rightarrow> line_sums list \<Rightarrow> bool" where
  "tree_ok cs t \<longleftrightarrow> length t = length cs + 1 \<and> (\<forall>p. 0 < p \<and> p \<le> length cs \<longrightarrow> t ! p = node_sum cs p)"

lemma prefix_sum_0 [simp]: "prefix_sum cs 0 = 0"
  by (simp add: prefix_sum_def)

lemma prefix_sum_node:
  assumes "0 < k"
  shows "prefix_sum cs k = prefix_sum cs (k - lowest_bit k) + node_sum cs k"
proof -
  have "{..<k} = {..<k - lowest_bit k} \<union> {k - lowest_bit k..<k}" by auto
  then show ?thesis
    unfolding prefix_sum_def node_sum_def by (simp add: sum.union_disjoint ivl_disj_int_one(2))
qed

lemma prefix_loop_sum:
  assumes "tree_ok cs t" "k \<le> length cs"
  shows "prefix_loop t k acc = Some (acc + prefix_sum cs k)"
  using assms(2)
proof (induction k arbitrary: acc rule: less_induct)
  case (less k)
  show ?case
  proof (cases "k = 0")
    case False
    then have lb: "0 < lowest_bit k" "lowest_bit k \<le> k" using lowest_bit_bounds by auto
    have "t ! k = node_sum cs k" "k < length t" using assms(1) less.prems False by (auto simp: tree_ok_def)
    then show ?thesis
      using False lb less.IH [of "k - lowest_bit k" "acc + node_sum cs k"] less.prems prefix_sum_node [of k cs]
      by (subst prefix_loop.simps) (simp add: add_ac)
  qed (simp add: prefix_loop.simps)
qed

subsection \<open>Adding and subtracting\<close>

lemma not_covers_above: "p < i \<Longrightarrow> \<not> covers p i"
  by (simp add: covers_def)

lemma tree_add_loop_entries:
  assumes "0 < i"
  shows "\<exists>t'. tree_add_loop d i t = Some t' \<and> length t' = length t
    \<and> (\<forall>p < length t. 0 < p \<longrightarrow> t' ! p = (if covers p i then t ! p + d else t ! p))"
  using assms
proof (induction "length t - i" arbitrary: i t rule: less_induct)
  case less
  show ?case
  proof (cases "i < length t")
    case True
    let ?t = "t[i := t ! i + d]"
    have lb: "0 < lowest_bit i" using lowest_bit_bounds [OF less.prems] by simp
    have "\<exists>t'. tree_add_loop d (i + lowest_bit i) ?t = Some t' \<and> length t' = length t
        \<and> (\<forall>p < length t. 0 < p \<longrightarrow> t' ! p = (if covers p (i + lowest_bit i) then ?t ! p + d else ?t ! p))"
      by (rule less.hyps [of ?t "i + lowest_bit i", unfolded length_list_update]) (use True lb less.prems in auto)
    then obtain t' where t': "tree_add_loop d (i + lowest_bit i) ?t = Some t'" "length t' = length t"
        "\<And>p. p < length t \<Longrightarrow> 0 < p \<Longrightarrow> t' ! p = (if covers p (i + lowest_bit i) then ?t ! p + d else ?t ! p)"
      by blast
    have "t' ! p = (if covers p i then t ! p + d else t ! p)" if "p < length t" "0 < p" for p
    proof (cases "p = i")
      case True
      then show ?thesis using t'(3) [OF that] that covers_self [of i] lb not_covers_above [of i] by simp
    next
      case False
      then show ?thesis using t'(3) [OF that] covers_step [OF less.prems that(2) False] by simp
    qed
    then show ?thesis using t'(1,2) True by (subst tree_add_loop.simps) auto
  next
    case False
    then show ?thesis using not_covers_above by (subst tree_add_loop.simps) auto
  qed
qed

lemma sums_sub_add: "sums_sub (a + d) d = Some a"
  by (simp add: sums_sub_def plus_line_sums_def line_sums_add_def)

lemma tree_sub_loop_entries:
  assumes "0 < i" "length t = length t'" "\<And>p. p < length t \<Longrightarrow> t ! p = (if covers p i then t' ! p + d else t' ! p)"
  shows "tree_sub_loop d i t = Some t'"
  using assms
proof (induction "length t - i" arbitrary: i t rule: less_induct)
  case less
  show ?case
  proof (cases "i < length t")
    case True
    let ?t = "t[i := t' ! i]"
    have lb: "0 < lowest_bit i" using lowest_bit_bounds [OF less.prems(1)] by simp
    have "?t ! p = (if covers p (i + lowest_bit i) then t' ! p + d else t' ! p)" if "p < length ?t" for p
    proof (cases "p = i")
      case True
      then show ?thesis using that lb not_covers_above [of i] by simp
    next
      case False
      have "covers p i = covers p (i + lowest_bit i)"
        using covers_step [OF less.prems(1) _ False] less.prems(1) by (cases "p = 0") (auto simp: covers_def)
      then show ?thesis using less.prems(3) [of p] that False by simp
    qed
    then have "tree_sub_loop d (i + lowest_bit i) ?t = Some t'"
      using less.hyps [of ?t "i + lowest_bit i"] True lb less.prems(1,2) by auto
    moreover have "sums_sub (t ! i) d = Some (t' ! i)"
      using less.prems(3) [OF True] covers_self [OF less.prems(1)] by (simp add: sums_sub_add)
    ultimately show ?thesis using True by (subst tree_sub_loop.simps) simp
  next
    case False
    have "t = t'"
      using less.prems False not_covers_above by (intro nth_equalityI) auto
    then show ?thesis using False by (subst tree_sub_loop.simps) simp
  qed
qed

text \<open>Changing one chunk changes the entries that contain it.\<close>

lemma covers_chunk: "covers p (Suc k) \<longleftrightarrow> k \<in> {p - lowest_bit p..<p}"
  by (auto simp: covers_def)

lemma sum_update:
  fixes cs :: "line_sums list"
  assumes "finite A" "k < length cs"
  shows "sum ((!) (cs[k := cs ! k + d])) A = (if k \<in> A then sum ((!) cs) A + d else sum ((!) cs) A)"
proof (cases "k \<in> A")
  case True
  have "sum ((!) (cs[k := cs ! k + d])) (A - {k}) = sum ((!) cs) (A - {k})" by (rule sum.cong) auto
  then show ?thesis using True assms by (simp add: sum.remove [of A k] add_ac)
next
  case False
  then have "sum ((!) (cs[k := cs ! k + d])) A = sum ((!) cs) A" by (intro sum.cong refl) (metis nth_list_update_neq)
  then show ?thesis using False by simp
qed

lemma node_sum_update:
  "k < length cs \<Longrightarrow> node_sum (cs[k := cs ! k + d]) p = (if covers p (Suc k) then node_sum cs p + d else node_sum cs p)"
  unfolding node_sum_def covers_chunk by (rule sum_update) simp_all

lemma tree_add_ok:
  assumes "tree_ok cs t" "k < length cs"
  shows "\<exists>t'. tree_add_loop d (k + 1) t = Some t' \<and> tree_ok (cs[k := cs ! k + d]) t'"
proof -
  obtain t' where "tree_add_loop d (k + 1) t = Some t'" "length t' = length t"
      "\<forall>p < length t. 0 < p \<longrightarrow> t' ! p = (if covers p (k + 1) then t ! p + d else t ! p)"
    using tree_add_loop_entries [of "k + 1" d t] by auto
  then show ?thesis using assms by (auto simp: tree_ok_def node_sum_update)
qed

lemma tree_sub_ok:
  assumes "tree_ok cs t" "k < length cs" "cs ! k = c + d"
  shows "\<exists>t'. tree_sub_loop d (k + 1) t = Some t' \<and> tree_ok (cs[k := c]) t'"
proof -
  let ?cs = "cs[k := c]"
  define t' where "t' = map (\<lambda>p. if p = 0 then t ! 0 else node_sum ?cs p) [0..<length t]"
  have t': "length t' = length t" "\<And>p. p < length t \<Longrightarrow> t' ! p = (if p = 0 then t ! 0 else node_sum ?cs p)"
    by (simp_all add: t'_def)
  have undo: "?cs[k := ?cs ! k + d] = cs" using assms(2,3) by (metis length_list_update list_update_id list_update_overwrite nth_list_update_eq)
  have same: "cs[k := c + d] = cs" using assms(3) by (metis list_update_id)
  have "t ! p = (if covers p (k + 1) then t' ! p + d else t' ! p)" if "p < length t" for p
    using that assms(1,2) t'(2) [OF that] node_sum_update [of k ?cs d p]
    by (cases "p = 0") (auto simp: tree_ok_def undo same covers_def)
  then have "tree_sub_loop d (k + 1) t = Some t'" by (intro tree_sub_loop_entries) (simp_all add: t'(1))
  moreover have "tree_ok ?cs t'" using assms(1) t' by (auto simp: tree_ok_def)
  ultimately show ?thesis by blast
qed

subsection \<open>Rebuilding\<close>

text \<open>The chunks that entry \<open>p\<close> sums once the entries below \<open>j\<close> have been added to their parents.\<close>

definition gathered :: "nat \<Rightarrow> nat \<Rightarrow> nat set" where
  "gathered j p = {i. i = p \<or> (\<exists>c. 0 < c \<and> c < j \<and> c + lowest_bit c = p \<and> covers c i)}"

lemma covered_child:
  assumes "covers p i" "0 < i" "i \<noteq> p"
  shows "\<exists>c. 0 < c \<and> c < p \<and> c + lowest_bit c = p \<and> covers c i"
  using assms
proof (induction "p - i" arbitrary: i rule: less_induct)
  case less
  have i: "i < p" "0 < lowest_bit i" using less.prems lowest_bit_bounds [of i] by (auto simp: covers_def)
  have up: "covers p (i + lowest_bit i)" using less.prems covers_step [of i p] i(1) by auto
  show ?case
  proof (cases "i + lowest_bit i = p")
    case True
    then show ?thesis using less.prems(2) i covers_self by (intro exI [of _ i]) auto
  next
    case False
    have "\<exists>c. 0 < c \<and> c < p \<and> c + lowest_bit c = p \<and> covers c (i + lowest_bit i)"
      by (rule less.hyps [OF _ up _ False]) (use i in simp_all)
    then obtain c where c: "0 < c" "c < p" "c + lowest_bit c = p" "covers c (i + lowest_bit i)" by blast
    then have "c \<noteq> i" using i(2) not_covers_above [of c] by auto
    then show ?thesis using c covers_step [of i c] less.prems(2) by auto
  qed
qed

lemma gathered_all:
  assumes "0 < p" "p \<le> j"
  shows "gathered j p = {p - lowest_bit p<..p}"
proof -
  have "i \<in> gathered j p \<longleftrightarrow> covers p i" for i
  proof
    assume "i \<in> gathered j p"
    then consider "i = p" | c where "0 < c" "c + lowest_bit c = p" "covers c i" by (auto simp: gathered_def)
    then show "covers p i"
    proof cases
      case 2
      have c: "covers p c" using covers_step [of c p] covers_self [of p] 2(1,2) lowest_bit_bounds [of c] assms(1) by auto
      show ?thesis
      proof (cases "i = c")
        case False
        have "p - lowest_bit p \<le> c - lowest_bit c"
        proof -
          obtain a m where a: "c = 2 ^ a * (2 * m + 1)" "lowest_bit c = 2 ^ a" by (rule lowest_bit_form [OF 2(1)])
          obtain k n where k: "p = 2 ^ k * (2 * n + 1)" "lowest_bit p = 2 ^ k" by (rule lowest_bit_form [OF assms(1)])
          have "p = 2 ^ Suc a * (m + 1)" using 2(2) a by (simp add: algebra_simps)
          then have dp: "2 ^ Suc a dvd p" by simp
          have "Suc a \<le> k"
          proof (rule ccontr)
            assume "\<not> Suc a \<le> k"
            then have "2 ^ k * 2 dvd p" using dp by (metis dvd_trans le_imp_power_dvd not_less_eq_eq power_Suc2)
            moreover have "\<not> 2 ^ k * 2 dvd 2 ^ k * (2 * n + 1)" by (subst nat_mult_dvd_cancel1) simp_all
            ultimately show False using k(1) by simp
          qed
          then have "2 ^ Suc a \<le> (2 ^ k :: nat)" by (intro power_increasing) simp_all
          then show ?thesis using 2(2) a(2) k(2) by simp
        qed
        then show ?thesis using 2(3) c unfolding covers_def by linarith
      qed (use c in simp)
    qed (use covers_self assms(1) in simp)
  next
    assume c: "covers p i"
    then have "0 < i" by (simp add: covers_def)
    then show "i \<in> gathered j p"
    proof (cases "i = p")
      case False
      then obtain c' where "0 < c'" "c' < p" "c' + lowest_bit c' = p" "covers c' i"
        using covered_child [OF c \<open>0 < i\<close>] by blast
      then have "0 < c' \<and> c' < j \<and> c' + lowest_bit c' = p \<and> covers c' i" using assms(2) by simp
      then show ?thesis unfolding gathered_def by blast
    qed (simp add: gathered_def)
  qed
  then show ?thesis unfolding covers_def by (intro set_eqI) (simp only: greaterThanAtMost_iff)
qed

lemma gathered_Suc:
  assumes "0 < j"
  shows "gathered (Suc j) p = (if p = j + lowest_bit j then gathered j p \<union> {j - lowest_bit j<..j} else gathered j p)"
    "gathered j (j + lowest_bit j) \<inter> {j - lowest_bit j<..j} = {}"
proof -
  have "\<And>i. covers j i \<longleftrightarrow> i \<in> {j - lowest_bit j<..j}" by (auto simp: covers_def)
  then show "gathered (Suc j) p = (if p = j + lowest_bit j then gathered j p \<union> {j - lowest_bit j<..j} else gathered j p)"
    using assms by (auto simp: gathered_def less_Suc_eq)
  show "gathered j (j + lowest_bit j) \<inter> {j - lowest_bit j<..j} = {}"
  proof (rule ccontr)
    assume "gathered j (j + lowest_bit j) \<inter> {j - lowest_bit j<..j} \<noteq> {}"
    then obtain i where i: "i \<in> gathered j (j + lowest_bit j)" "j - lowest_bit j < i" "i \<le> j" by auto
    have "i \<noteq> j + lowest_bit j" using i(3) lowest_bit_bounds [OF assms] by simp
    then obtain c where c: "0 < c" "c < j" "c + lowest_bit c = j + lowest_bit j" "covers c i"
      using i(1) by (auto simp: gathered_def)
    then have "covers j c" using i(2,3) by (auto simp: covers_def)
    then have "covers j (c + lowest_bit c)" using covers_step [of c j] c(1,2) assms by simp
    then show False using c(3) lowest_bit_bounds [OF assms] by (simp add: covers_def)
  qed
qed

lemma gathered_bounds: "0 < p \<Longrightarrow> i \<in> gathered j p \<Longrightarrow> 0 < i \<and> i \<le> p"
  by (auto simp: gathered_def covers_def)

lemma rebuilt_tree_stage:
  assumes "j \<le> length cs"
  shows "let t = fold (rebuild_step (length cs)) [1..<j + 1] (0 # cs)
    in length t = length cs + 1 \<and> (\<forall>p. 0 < p \<and> p \<le> length cs \<longrightarrow> t ! p = (\<Sum>i\<in>gathered (j + 1) p. cs ! (i - 1)))"
  using assms
proof (induction j)
  case 0
  have "gathered 1 p = {p}" for p by (auto simp: gathered_def)
  then show ?case by simp
next
  case (Suc j)
  let ?f = "\<lambda>i. cs ! (i - 1)"
  define t where "t = fold (rebuild_step (length cs)) [1..<j + 1] (0 # cs)"
  have t: "length t = length cs + 1" "\<And>p. 0 < p \<Longrightarrow> p \<le> length cs \<Longrightarrow> t ! p = sum ?f (gathered (j + 1) p)"
    using Suc by (simp_all add: t_def Let_def)
  let ?q = "Suc j + lowest_bit (Suc j)"
  have full: "t ! Suc j = sum ?f {Suc j - lowest_bit (Suc j)<..Suc j}"
    using t(2) [of "Suc j"] Suc.prems gathered_all [of "Suc j" "j + 1"] by simp
  have fin: "finite (gathered (Suc j) p)" if "0 < p" for p
    using gathered_bounds [OF that] by (meson atMost_iff finite_atMost finite_subset subsetI)
  have "rebuild_step (length cs) (Suc j) t ! p = sum ?f (gathered (Suc (Suc j)) p)" if "0 < p" "p \<le> length cs" for p
  proof (cases "p = ?q")
    case True
    then show ?thesis
      using that t full gathered_Suc [of "Suc j"] fin [OF that(1)]
      by (simp add: rebuild_step_def Let_def sum.union_disjoint)
  next
    case False
    then show ?thesis using that t gathered_Suc(1) [of "Suc j" p] by (simp add: rebuild_step_def Let_def)
  qed
  moreover have "fold (rebuild_step (length cs)) [1..<Suc j + 1] (0 # cs) = rebuild_step (length cs) (Suc j) t"
    by (simp add: t_def)
  moreover have "length (rebuild_step (length cs) (Suc j) t) = length cs + 1" using t(1) by (simp add: rebuild_step_def Let_def)
  ultimately show ?case by (simp add: Let_def)
qed

lemma rebuilt_tree_ok: "tree_ok cs (rebuilt_tree cs)"
proof -
  have "(\<Sum>i\<in>{p - lowest_bit p<..p}. cs ! (i - 1)) = node_sum cs p" if "0 < p" for p
    unfolding node_sum_def
    by (rule sum.reindex_bij_witness [of _ Suc "\<lambda>i. i - 1"]) (use lowest_bit_bounds [OF that] in auto)
  then show ?thesis
    using rebuilt_tree_stage [of "length cs" cs] gathered_all by (simp add: tree_ok_def rebuilt_tree_def Let_def)
qed

subsection \<open>The descent\<close>

lemma descend_loop_finds:
  assumes t: "tree_ok cs t" and mono: "\<And>i j. i \<le> j \<Longrightarrow> fits (prefix_sum cs j) \<Longrightarrow> fits (prefix_sum cs i)"
    and pos: "2 ^ Suc e dvd pos" "pos \<le> length cs" "pos = 0 \<or> fits (prefix_sum cs pos)"
      "length cs < pos + 2 ^ Suc e \<or> \<not> fits (prefix_sum cs (pos + 2 ^ Suc e))"
  shows "\<exists>k. descend_loop fits t (length cs) (2 ^ e) pos (prefix_sum cs pos) = Some (k, prefix_sum cs k) \<and> k \<le> length cs
    \<and> (k = 0 \<or> fits (prefix_sum cs k)) \<and> (k = length cs \<or> \<not> fits (prefix_sum cs (k + 1)))"
  using pos
proof (induction e arbitrary: pos)
  case 0
  have len: "length t = length cs + 1" using t by (simp add: tree_ok_def)
  have node: "prefix_sum cs (pos + 1) = prefix_sum cs pos + node_sum cs (pos + 1)"
    using prefix_sum_node [of "pos + 1" cs] lowest_bit_step [of 0 pos] 0(1) by simp
  have entry: "pos + 1 \<le> length cs \<Longrightarrow> t ! (pos + 1) = node_sum cs (pos + 1)" using t by (simp add: tree_ok_def)
  have last: "descend_loop fits t (length cs) 0 k acc = Some (k, acc)" for k acc by (simp add: descend_loop.simps)
  show ?case
  proof (cases "pos + 1 \<le> length cs \<and> fits (prefix_sum cs (pos + 1))")
    case True
    then have "descend_loop fits t (length cs) (2 ^ 0) pos (prefix_sum cs pos) = Some (pos + 1, prefix_sum cs (pos + 1))"
      using node entry last len by (subst descend_loop.simps) simp
    moreover have "pos + 1 = length cs \<or> \<not> fits (prefix_sum cs (pos + 1 + 1))" using 0(4) True by (auto simp: numeral_2_eq_2)
    ultimately show ?thesis using True by blast
  next
    case False
    then have "descend_loop fits t (length cs) (2 ^ 0) pos (prefix_sum cs pos) = Some (pos, prefix_sum cs pos)"
      using node entry last len by (subst descend_loop.simps) auto
    moreover have "pos = length cs \<or> \<not> fits (prefix_sum cs (pos + 1))" using False 0(2) by linarith
    ultimately show ?thesis using 0(2,3) by blast
  qed
next
  case (Suc e)
  let ?s = "2 ^ Suc e :: nat"
  have len: "length t = length cs + 1" using t by (simp add: tree_ok_def)
  have half: "?s div 2 = 2 ^ e" "2 ^ Suc e dvd pos" "2 ^ Suc e dvd pos + ?s"
    using Suc.prems(1) by (auto intro: dvd_trans [of _ "2 ^ Suc (Suc e)"] dvd_add)
  have node: "prefix_sum cs (pos + ?s) = prefix_sum cs pos + node_sum cs (pos + ?s)"
    using prefix_sum_node [of "pos + ?s" cs] lowest_bit_step [OF Suc.prems(1)] by simp
  have entry: "pos + ?s \<le> length cs \<Longrightarrow> t ! (pos + ?s) = node_sum cs (pos + ?s)" using t by (simp add: tree_ok_def)
  show ?case
  proof (cases "pos + ?s \<le> length cs \<and> fits (prefix_sum cs (pos + ?s))")
    case True
    have "descend_loop fits t (length cs) ?s pos (prefix_sum cs pos)
        = descend_loop fits t (length cs) (2 ^ e) (pos + ?s) (prefix_sum cs (pos + ?s))"
      using True node entry len half(1) by (subst descend_loop.simps) simp
    then show ?thesis using Suc.IH [OF half(3)] True Suc.prems(4) by (simp add: mult_2 add.assoc)
  next
    case False
    have "descend_loop fits t (length cs) ?s pos (prefix_sum cs pos)
        = descend_loop fits t (length cs) (2 ^ e) pos (prefix_sum cs pos)"
      using False node entry len half(1) by (subst descend_loop.simps) auto
    then show ?thesis using Suc.IH [OF half(2)] False Suc.prems(2,3) by auto
  qed
qed

lemma highest_bit_power: "0 < n \<Longrightarrow> \<exists>e. highest_bit n = 2 ^ e \<and> n < 2 ^ Suc e"
proof (induction n rule: highest_bit.induct)
  case (1 n)
  show ?case
  proof (cases "n < 2")
    case True
    then have "n = 1" using 1(2) by simp
    then show ?thesis by (intro exI [of _ 0]) (simp add: highest_bit.simps)
  next
    case False
    then obtain e where "highest_bit (n div 2) = 2 ^ e" "n div 2 < 2 ^ Suc e" using 1 by auto
    then show ?thesis using False by (intro exI [of _ "Suc e"]) (simp add: highest_bit.simps [of n])
  qed
qed

text \<open>The chunk the descent finds, for a test that holds for a prefix of the chunks.\<close>

lemma descend_tree_finds:
  assumes t: "tree_ok cs t" and mono: "\<And>i j. i \<le> j \<Longrightarrow> fits (prefix_sum cs j) \<Longrightarrow> fits (prefix_sum cs i)"
    and stop: "\<not> fits (prefix_sum cs (length cs))"
  shows "\<exists>k. descend_tree fits (length cs) t = Some (k, prefix_sum cs k) \<and> (k = 0 \<or> fits (prefix_sum cs k))
    \<and> (k < length cs \<longrightarrow> \<not> fits (prefix_sum cs (k + 1))) \<and> (0 < length cs \<longrightarrow> k < length cs)"
proof (cases "length cs = 0")
  case True
  then show ?thesis by (simp add: descend_tree_def highest_bit.simps descend_loop.simps)
next
  case False
  then obtain e where "highest_bit (length cs) = 2 ^ e" "length cs < 2 ^ Suc e" using highest_bit_power by blast
  then obtain k where "descend_tree fits (length cs) t = Some (k, prefix_sum cs k)" "k \<le> length cs"
      "k = 0 \<or> fits (prefix_sum cs k)" "k = length cs \<or> \<not> fits (prefix_sum cs (k + 1))"
    using descend_loop_finds [where cs = cs and t = t and fits = fits and e = e and pos = 0] t mono by (auto simp: descend_tree_def)
  moreover have "k \<noteq> length cs" using calculation(3) stop False by auto
  ultimately show ?thesis by auto
qed

subsection \<open>A run of updates\<close>

fun tree_updates :: "(nat \<times> line_sums) list \<Rightarrow> line_sums list \<Rightarrow> line_sums list option" where
  "tree_updates [] t = Some t"
| "tree_updates ((k, d) # us) t = do { t \<leftarrow> tree_add_loop d (k + 1) t; tree_updates us t }"

fun chunk_updates :: "(nat \<times> line_sums) list \<Rightarrow> line_sums list \<Rightarrow> line_sums list" where
  "chunk_updates [] cs = cs"
| "chunk_updates ((k, d) # us) cs = chunk_updates us (cs[k := cs ! k + d])"

lemma tree_updates_ok:
  assumes "tree_ok cs t" "list_all (\<lambda>(k, d). k < length cs) us"
  shows "\<exists>t'. tree_updates us t = Some t' \<and> tree_ok (chunk_updates us cs) t' \<and> length (chunk_updates us cs) = length cs"
  using assms
proof (induction us arbitrary: cs t)
  case (Cons u us)
  obtain k d where u: "u = (k, d)" by (cases u)
  obtain t1 where t1: "tree_add_loop d (k + 1) t = Some t1" "tree_ok (cs[k := cs ! k + d]) t1"
    using tree_add_ok [OF Cons.prems(1), of k d] Cons.prems(2) u by auto
  have "list_all (\<lambda>(k, d). k < length (cs[k := cs ! k + d])) us" using Cons.prems(2) by simp
  then show ?case using Cons.IH [OF t1(2)] t1(1) Cons.prems(2) u by simp
qed simp

text \<open>C27: the Fenwick tree answers prefix sums. Build the tree over any chunks and add to any of them, any number of
  times: no loop over the tree runs forever or leaves it, the sum the tree gives before each chunk is that of the
  updated chunks, and descending by bytes to an offset inside the text finds the chunk that holds it, with
  the sums before it.\<close>

theorem fenwick_tree_exact:
  assumes "list_all (\<lambda>(k, d). k < length cs) us" "j \<le> length cs"
    "b < lx_bytes (prefix_sum (chunk_updates us cs) (length cs))"
  shows "\<exists>t k. tree_updates us (rebuilt_tree cs) = Some t
    \<and> prefix_loop t j 0 = Some (prefix_sum (chunk_updates us cs) j)
    \<and> descend_tree (\<lambda>sums. lx_bytes sums \<le> b) (length cs) t = Some (k, prefix_sum (chunk_updates us cs) k)
    \<and> k < length cs \<and> lx_bytes (prefix_sum (chunk_updates us cs) k) \<le> b
    \<and> b < lx_bytes (prefix_sum (chunk_updates us cs) (k + 1))"
proof -
  let ?cs = "chunk_updates us cs"
  obtain t where t: "tree_updates us (rebuilt_tree cs) = Some t" "tree_ok ?cs t" and n: "length ?cs = length cs"
    using tree_updates_ok [OF rebuilt_tree_ok assms(1)] by blast
  have grow: "lx_bytes (prefix_sum ?cs i) \<le> lx_bytes (prefix_sum ?cs j)" if "i \<le> j" for i j
    using that by (induction j rule: dec_induct) (simp_all add: prefix_sum_def plus_line_sums_def line_sums_add_def)
  have "\<exists>k. descend_tree (\<lambda>sums. lx_bytes sums \<le> b) (length ?cs) t = Some (k, prefix_sum ?cs k)
      \<and> (k = 0 \<or> lx_bytes (prefix_sum ?cs k) \<le> b)
      \<and> (k < length ?cs \<longrightarrow> \<not> lx_bytes (prefix_sum ?cs (k + 1)) \<le> b) \<and> (0 < length ?cs \<longrightarrow> k < length ?cs)"
  proof (rule descend_tree_finds [OF t(2)])
    show "lx_bytes (prefix_sum ?cs i) \<le> b" if "i \<le> j" "lx_bytes (prefix_sum ?cs j) \<le> b" for i j using grow [OF that(1)] that(2) by simp
  qed (use assms(3) n in simp)
  then obtain k where k: "descend_tree (\<lambda>sums. lx_bytes sums \<le> b) (length cs) t = Some (k, prefix_sum ?cs k)"
      "k = 0 \<or> lx_bytes (prefix_sum ?cs k) \<le> b" "k < length cs \<longrightarrow> \<not> lx_bytes (prefix_sum ?cs (k + 1)) \<le> b" "0 < length cs \<longrightarrow> k < length cs"
    unfolding n by blast
  have "lx_bytes (prefix_sum ?cs 0) = 0" by (simp add: zero_line_sums_def)
  then have "0 < length cs" using assms(3) by (cases cs) auto
  then have "k < length cs" "lx_bytes (prefix_sum ?cs k) \<le> b" "b < lx_bytes (prefix_sum ?cs (k + 1))"
    using k \<open>lx_bytes (prefix_sum ?cs 0) = 0\<close> by auto
  moreover have "prefix_loop t j 0 = Some (prefix_sum ?cs j)" using prefix_loop_sum [OF t(2), of j 0] assms(2) n by simp
  ultimately show ?thesis using t(1) k(1) by blast
qed

definition sample_sums :: "line_sums list" where
  "sample_sums = [Line_Sums 8 8 1 0, Line_Sums 4 2 0 0, Line_Sums 8 7 3 1, Line_Sums 1 1 0 0, Line_Sums 6 6 2 0]"

declare tree_add_loop.simps [code] tree_sub_loop.simps [code] prefix_loop.simps [code] descend_loop.simps [code]

theorem fenwick_tree_exact_witness:
  "\<exists>t k. tree_updates [(2, Line_Sums 2 2 1 0)] (rebuilt_tree sample_sums) = Some t
    \<and> prefix_loop t 3 0 = Some (Line_Sums 22 19 5 1)
    \<and> descend_tree (\<lambda>sums. lx_bytes sums \<le> 21) 5 t = Some (k, prefix_sum (chunk_updates [(2, Line_Sums 2 2 1 0)] sample_sums) k) \<and> k < 5"
proof -
  have n: "length sample_sums = 5" "prefix_sum (chunk_updates [(2, Line_Sums 2 2 1 0)] sample_sums) 3 = Line_Sums 22 19 5 1"
    "lx_bytes (prefix_sum (chunk_updates [(2, Line_Sums 2 2 1 0)] sample_sums) 5) = 29"
    by code_simp+
  show ?thesis
    using fenwick_tree_exact [of sample_sums "[(2, Line_Sums 2 2 1 0)]" 3 21] n by auto
qed

end
