(* ===== verification/Line_Index.thy ===== *)
theory Line_Index
  imports Fenwick_Sums
begin

text \<open>
  The text line index: \<open>src/crates/neovm-core/src/buffer/text_index.rs\<close>.

  The index cuts the text into chunks, keeps the bytes, characters, newlines and carriage returns of
  each, and a tree of their prefix sums (theory \<open>Fenwick_Sums\<close>). It is built from the text, kept up
  to date by \<open>note_insert\<close> (after the text changed) and \<open>note_delete\<close> (before it does), and answers how
  many lines end before a byte and where the n-th newline is. The theory shows that the index stays
  the summary of its text under every edit and that its answers are those of a scan of the text.

  The trait \<open>IndexedText\<close> is the record \<open>text_view\<close>; the locale \<open>indexed_text\<close> states what the index
  relies on, and is interpreted on the view of a text backend. The event counters of
  \<open>NEOVM_TEXT_LINE_INDEX_STATS\<close> and the reading of the settings are not modelled.
\<close>

subsection \<open>The text an index describes\<close>

record text_view =
  tv_multibyte :: bool
  tv_byte_len :: nat
  tv_pieces :: "nat \<Rightarrow> nat \<Rightarrow> bytes list option"

definition backend_view :: "backend \<Rightarrow> text_view" where
  "backend_view b =
     \<lparr>tv_multibyte = tb_is_multibyte b,
      tv_byte_len = (case tb_metrics b of Some m \<Rightarrow> tm_bytes m | None \<Rightarrow> 0),
      tv_pieces = (\<lambda>start e. if e \<le> start then Some [] else tb_byte_range_chunks (byte_range_new start e) b)\<rparr>"

definition sums_in :: "text_view \<Rightarrow> nat \<Rightarrow> nat \<Rightarrow> line_sums option" where
  "sums_in v start e = do {
     pieces \<leftarrow> tv_pieces v start e;
     Some (fold (\<lambda>piece sums. sums + sums_of_bytes (tv_multibyte v) piece) pieces 0)
   }"

definition ends_line :: "line_end \<Rightarrow> u8 \<Rightarrow> bool" where
  "ends_line e b = (case e of Newline \<Rightarrow> b = 10 | NewlineOrCarriageReturn \<Rightarrow> b = 10 \<or> b = 13)"

definition line_ends_in :: "text_view \<Rightarrow> nat \<Rightarrow> nat \<Rightarrow> line_end \<Rightarrow> nat option" where
  "line_ends_in v start stop e = do {
     pieces \<leftarrow> tv_pieces v start stop;
     Some (fold (\<lambda>piece count. count + length (filter (ends_line e) piece)) pieces 0)
   }"

text \<open>The offsets \<open>memchr_iter\<close> yields for a byte.\<close>

definition hits :: "u8 \<Rightarrow> bytes \<Rightarrow> nat list" where
  "hits c bs = filter (\<lambda>i. bs ! i = c) [0..<length bs]"

fun nth_newline_scan :: "nat \<Rightarrow> nat \<Rightarrow> bytes list \<Rightarrow> nat option option" where
  "nth_newline_scan base remaining [] = Some None"
| "nth_newline_scan base remaining (piece # pieces) =
     (let in_piece = length (filter (\<lambda>b. b = 10) piece)
      in if in_piece < remaining then nth_newline_scan (base + length piece) (remaining - in_piece) pieces
         else do {
           nth \<leftarrow> chk_sub remaining 1;
           at \<leftarrow> index_at (hits 10 piece) nth;
           Some (Some (base + at))
         })"

definition nth_newline_in :: "text_view \<Rightarrow> nat \<Rightarrow> nat \<Rightarrow> nat \<Rightarrow> nat option option" where
  "nth_newline_in v start e n = do {
     panic_unless (1 \<le> n);
     pieces \<leftarrow> tv_pieces v start e;
     nth_newline_scan start n pieces
   }"

subsection \<open>The index\<close>

definition MIN_CHUNK_BYTES :: nat where "MIN_CHUNK_BYTES = 8"

record chunk_geometry =
  cg_target :: nat
  cg_max :: nat
  cg_min :: nat

definition geometry_new :: "nat \<Rightarrow> chunk_geometry option" where
  "geometry_new chunk_bytes =
     (let target = max chunk_bytes MIN_CHUNK_BYTES
      in if target * 2 < 2 ^ 64 then Some \<lparr>cg_target = target, cg_max = target * 2, cg_min = target div 4\<rparr> else None)"

record line_index =
  li_chunks :: "line_sums list"
  li_tree :: "line_sums list"
  li_total :: line_sums
  li_multibyte :: bool
  li_geometry :: chunk_geometry

partial_function (option) cut_piece :: "bool \<Rightarrow> nat \<Rightarrow> bytes \<Rightarrow> line_sums list \<Rightarrow> line_sums \<Rightarrow> (line_sums list \<times> line_sums) option" where
  "cut_piece mb target piece chunks current =
     (if piece = [] then Some (chunks, current)
      else do {
        room \<leftarrow> chk_sub target (lx_bytes current);
        let taken = min room (length piece);
        let current' = current + sums_of_bytes mb (take taken piece);
        if lx_bytes current' = target
        then cut_piece mb target (drop taken piece) (chunks @ [current']) 0
        else cut_piece mb target (drop taken piece) chunks current'
      })"

fun cut_pieces :: "bool \<Rightarrow> nat \<Rightarrow> bytes list \<Rightarrow> line_sums list \<Rightarrow> line_sums \<Rightarrow> (line_sums list \<times> line_sums) option" where
  "cut_pieces mb target [] chunks current = Some (chunks, current)"
| "cut_pieces mb target (piece # pieces) chunks current = do {
     (chunks', current') \<leftarrow> cut_piece mb target piece chunks current;
     cut_pieces mb target pieces chunks' current'
   }"

definition cut_chunks :: "text_view \<Rightarrow> nat \<Rightarrow> nat \<Rightarrow> nat \<Rightarrow> bool \<Rightarrow> line_sums list option" where
  "cut_chunks v start e target mb = do {
     _ \<leftarrow> chk_sub e start;
     panic_unless (target \<noteq> 0);
     pieces \<leftarrow> tv_pieces v start e;
     (chunks, current) \<leftarrow> cut_pieces mb target pieces [] 0;
     Some (if 0 < lx_bytes current then chunks @ [current] else chunks)
   }"

definition rebuild_tree :: "line_index \<Rightarrow> line_index" where
  "rebuild_tree ix = ix\<lparr>li_tree := rebuilt_tree (li_chunks ix), li_total := fold (\<lambda>c sum. sum + c) (li_chunks ix) 0\<rparr>"

definition build :: "text_view \<Rightarrow> nat \<Rightarrow> line_index option" where
  "build v chunk_bytes = do {
     geometry \<leftarrow> geometry_new chunk_bytes;
     chunks \<leftarrow> cut_chunks v 0 (tv_byte_len v) (cg_target geometry) (tv_multibyte v);
     Some (rebuild_tree \<lparr>li_chunks = chunks, li_tree = [], li_total = 0, li_multibyte = tv_multibyte v, li_geometry = geometry\<rparr>)
   }"

definition tree_add :: "nat \<Rightarrow> line_sums \<Rightarrow> line_index \<Rightarrow> line_index option" where
  "tree_add chunk delta ix = do {
     tree \<leftarrow> tree_add_loop delta (chunk + 1) (li_tree ix);
     Some (ix\<lparr>li_tree := tree, li_total := li_total ix + delta\<rparr>)
   }"

definition tree_sub :: "nat \<Rightarrow> line_sums \<Rightarrow> line_index \<Rightarrow> line_index option" where
  "tree_sub chunk delta ix = do {
     tree \<leftarrow> tree_sub_loop delta (chunk + 1) (li_tree ix);
     total \<leftarrow> sums_sub (li_total ix) delta;
     Some (ix\<lparr>li_tree := tree, li_total := total\<rparr>)
   }"

definition sums_before_chunk :: "nat \<Rightarrow> line_index \<Rightarrow> line_sums option" where
  "sums_before_chunk k ix = prefix_loop (li_tree ix) k 0"

definition descend :: "(line_sums \<Rightarrow> bool) \<Rightarrow> line_index \<Rightarrow> (nat \<times> line_sums) option" where
  "descend fits ix = descend_tree fits (length (li_chunks ix)) (li_tree ix)"

definition locate_byte :: "nat \<Rightarrow> line_index \<Rightarrow> (nat \<times> line_sums) option" where
  "locate_byte b ix = do {
     panic_unless (b < lx_bytes (li_total ix));
     descend (\<lambda>sums. lx_bytes sums \<le> b) ix
   }"

definition locate_newline :: "nat \<Rightarrow> line_index \<Rightarrow> (nat \<times> line_sums) option" where
  "locate_newline t ix = do {
     panic_unless (1 \<le> t \<and> t \<le> lx_newlines (li_total ix));
     descend (\<lambda>sums. lx_newlines sums < t) ix
   }"

subsection \<open>Queries\<close>

definition line_ends_before :: "text_view \<Rightarrow> nat \<Rightarrow> line_end \<Rightarrow> line_index \<Rightarrow> nat option" where
  "line_ends_before v b e ix =
     (if lx_bytes (li_total ix) \<le> b then Some (line_ends e (li_total ix))
      else do {
        (k, before) \<leftarrow> locate_byte b ix;
        offset \<leftarrow> chk_sub b (lx_bytes before);
        if offset = 0 then Some (line_ends e before)
        else do {
          chunk \<leftarrow> index_at (li_chunks ix) k;
          if offset \<le> lx_bytes chunk div 2
          then do {
            n \<leftarrow> line_ends_in v (lx_bytes before) b e;
            Some (line_ends e before + n)
          }
          else do {
            n \<leftarrow> line_ends_in v b (lx_bytes before + lx_bytes chunk) e;
            chk_sub (line_ends e before + line_ends e chunk) n
          }
        }
      })"

definition newline_position :: "text_view \<Rightarrow> nat \<Rightarrow> line_index \<Rightarrow> nat option option" where
  "newline_position v t ix =
     (if t = 0 \<or> lx_newlines (li_total ix) < t then Some None
      else do {
        (k, before) \<leftarrow> locate_newline t ix;
        chunk \<leftarrow> index_at (li_chunks ix) k;
        nth \<leftarrow> chk_sub t (lx_newlines before);
        nth_newline_in v (lx_bytes before) (lx_bytes before + lx_bytes chunk) nth
      })"

subsection \<open>Maintenance\<close>

definition splice :: "nat \<Rightarrow> nat \<Rightarrow> 'a list \<Rightarrow> 'a list \<Rightarrow> 'a list option" where
  "splice i j new xs = (if i \<le> j + 1 \<and> j < length xs then Some (take i xs @ new @ drop (j + 1) xs) else None)"

definition split_chunk :: "text_view \<Rightarrow> nat \<Rightarrow> line_index \<Rightarrow> line_index option" where
  "split_chunk v k ix = do {
     before \<leftarrow> sums_before_chunk k ix;
     chunk \<leftarrow> index_at (li_chunks ix) k;
     pieces \<leftarrow> cut_chunks v (lx_bytes before) (lx_bytes before + lx_bytes chunk) (cg_target (li_geometry ix)) (li_multibyte ix);
     chunks \<leftarrow> splice k k pieces (li_chunks ix);
     Some (rebuild_tree (ix\<lparr>li_chunks := chunks\<rparr>))
   }"

definition remove_nth :: "nat \<Rightarrow> 'a list \<Rightarrow> 'a list" where
  "remove_nth k xs = take k xs @ drop (k + 1) xs"

definition merge_into :: "nat \<Rightarrow> nat \<Rightarrow> line_index \<Rightarrow> line_index" where
  "merge_into k into ix =
     (let chunks = li_chunks ix
      in ix\<lparr>li_chunks := remove_nth k (chunks[into := chunks ! into + chunks ! k])\<rparr>)"

definition merge_small :: "nat \<Rightarrow> line_index \<Rightarrow> line_index \<times> bool" where
  "merge_small k ix =
     (let chunks = li_chunks ix; size = lx_bytes (chunks ! k);
          fits = (\<lambda>other. size + lx_bytes (chunks ! other) \<le> cg_max (li_geometry ix));
          left = (if 1 \<le> k \<and> fits (k - 1) then Some (k - 1) else None);
          right = (if k + 1 < length chunks \<and> fits (k + 1) then Some (k + 1) else None)
      in if length chunks \<le> k then (ix, False)
         else if size = 0 then (ix\<lparr>li_chunks := remove_nth k chunks\<rparr>, True)
         else if cg_min (li_geometry ix) \<le> size then (ix, False)
         else case (left, right) of
             (Some l, Some r) \<Rightarrow> (merge_into k (if lx_bytes (chunks ! l) \<le> lx_bytes (chunks ! r) then l else r) ix, True)
           | (Some l, None) \<Rightarrow> (merge_into k l ix, True)
           | (None, Some r) \<Rightarrow> (merge_into k r ix, True)
           | (None, None) \<Rightarrow> (ix, False))"

definition note_insert :: "text_view \<Rightarrow> nat \<Rightarrow> bytes \<Rightarrow> line_index \<Rightarrow> line_index option" where
  "note_insert v at inserted ix =
     (if inserted = [] then Some ix
      else do {
        let added = sums_of_bytes (li_multibyte ix) inserted;
        (k, ix1) \<leftarrow>
          (if li_chunks ix = [] then Some (0, rebuild_tree (ix\<lparr>li_chunks := [0]\<rparr>))
           else if at = 0 then Some (0, ix)
           else do {
             (k, _) \<leftarrow> locate_byte (at - 1) ix;
             Some (k, ix)
           });
        chunk \<leftarrow> index_at (li_chunks ix1) k;
        ix2 \<leftarrow> tree_add k added (ix1\<lparr>li_chunks := (li_chunks ix1)[k := chunk + added]\<rparr>);
        if cg_max (li_geometry ix2) < lx_bytes (chunk + added) then split_chunk v k ix2 else Some ix2
      })"

definition note_delete :: "text_view \<Rightarrow> nat \<Rightarrow> nat \<Rightarrow> line_index \<Rightarrow> line_index option" where
  "note_delete v start e ix =
     (if e \<le> start then Some ix
      else do {
        panic_unless (e \<le> lx_bytes (li_total ix));
        (first, before_first) \<leftarrow> locate_byte start ix;
        (last, before_last) \<leftarrow> locate_byte (e - 1) ix;
        first_chunk \<leftarrow> index_at (li_chunks ix) first;
        last_chunk \<leftarrow> index_at (li_chunks ix) last;
        if first = last
        then do {
          doomed \<leftarrow> sums_in v start e;
          rest \<leftarrow> sums_sub first_chunk doomed;
          ix1 \<leftarrow> tree_sub first doomed (ix\<lparr>li_chunks := (li_chunks ix)[first := rest]\<rparr>);
          Some (if lx_bytes rest < cg_min (li_geometry ix1)
                then let (ix2, merged) = merge_small first ix1 in if merged then rebuild_tree ix2 else ix2
                else ix1)
        }
        else do {
          doomed_head \<leftarrow> sums_in v start (lx_bytes before_first + lx_bytes first_chunk);
          head \<leftarrow> sums_sub first_chunk doomed_head;
          doomed_tail \<leftarrow> sums_in v (lx_bytes before_last) e;
          tail \<leftarrow> sums_sub last_chunk doomed_tail;
          let survivors = filter (\<lambda>sums. 0 < lx_bytes sums) [head, tail];
          chunks \<leftarrow> splice first last survivors (li_chunks ix);
          let ix1 = ix\<lparr>li_chunks := chunks\<rparr>;
          let ix2 = (if length survivors = 2 then fst (merge_small (first + 1) ix1) else ix1);
          let ix3 = (if 1 \<le> length survivors then fst (merge_small first ix2) else ix2);
          Some (rebuild_tree ix3)
        }
      })"

subsection \<open>Checking\<close>

datatype index_error = Lengths_Differ nat nat | Chunk_Differs nat nat nat line_sums line_sums

definition check_chunk :: "text_view \<Rightarrow> nat \<Rightarrow> line_index \<Rightarrow> (index_error + unit) option" where
  "check_chunk v k ix = do {
     before \<leftarrow> sums_before_chunk k ix;
     chunk \<leftarrow> index_at (li_chunks ix) k;
     counted \<leftarrow> sums_in v (lx_bytes before) (lx_bytes before + lx_bytes chunk);
     Some (if counted \<noteq> chunk then Inl (Chunk_Differs k (lx_bytes before) (lx_bytes before + lx_bytes chunk) chunk counted)
           else Inr ())
   }"

fun check_chunks :: "text_view \<Rightarrow> nat list \<Rightarrow> line_index \<Rightarrow> (index_error + unit) option" where
  "check_chunks v [] ix = Some (Inr ())"
| "check_chunks v (k # ks) ix = do {
     checked \<leftarrow> check_chunk v k ix;
     case checked of Inl e \<Rightarrow> Some (Inl e) | Inr _ \<Rightarrow> check_chunks v ks ix
   }"

definition check_around :: "text_view \<Rightarrow> nat \<Rightarrow> line_index \<Rightarrow> (index_error + unit) option" where
  "check_around v at ix =
     (if lx_bytes (li_total ix) \<noteq> tv_byte_len v then Some (Inl (Lengths_Differ (lx_bytes (li_total ix)) (tv_byte_len v)))
      else if li_chunks ix = [] then Some (Inr ())
      else do {
        (k, _) \<leftarrow> locate_byte (min at (lx_bytes (li_total ix) - 1)) ix;
        check_chunks v [k - 1..<min (k + 1) (length (li_chunks ix) - 1) + 1] ix
      })"

subsection \<open>Sums of bytes\<close>

lemma line_sums_simps [simp]:
  "lx_bytes 0 = 0" "lx_chars 0 = 0" "lx_newlines 0 = 0" "lx_crs 0 = 0"
  "lx_bytes (a + b) = lx_bytes a + lx_bytes b" "lx_chars (a + b) = lx_chars a + lx_chars b"
  "lx_newlines (a + b) = lx_newlines a + lx_newlines b" "lx_crs (a + b) = lx_crs a + lx_crs b"
  by (simp_all add: zero_line_sums_def plus_line_sums_def line_sums_add_def)

lemma sums_of_Nil [simp]: "sums_of_bytes mb [] = 0"
  by (simp add: sums_of_bytes_def zero_line_sums_def)

lemma sums_of_append [simp]: "sums_of_bytes mb (xs @ ys) = sums_of_bytes mb xs + sums_of_bytes mb ys"
  by (simp add: sums_of_bytes_def plus_line_sums_def line_sums_add_def Let_def)

lemma lx_bytes_sums [simp]: "lx_bytes (sums_of_bytes mb bs) = length bs"
  by (simp add: sums_of_bytes_def Let_def)

lemma lx_newlines_sums [simp]: "lx_newlines (sums_of_bytes mb bs) = length (filter (\<lambda>b. b = 10) bs)"
  by (simp add: sums_of_bytes_def Let_def)

lemma sums_of_concat: "sums_of_bytes mb (concat bss) = sum_list (map (sums_of_bytes mb) bss)"
  by (induction bss) simp_all

lemma fold_add_sum_list: "fold (\<lambda>x acc. acc + f x) xs (a :: 'a :: comm_monoid_add) = a + sum_list (map f xs)"
  by (induction xs arbitrary: a) (simp_all add: add.assoc)

lemma line_ends_sums [simp]: "line_ends e (sums_of_bytes mb bs) = length (filter (ends_line e) bs)"
  by (induction bs) (auto simp: line_ends_def sums_of_bytes_def ends_line_def split: line_end.splits)

lemma line_ends_add [simp]: "line_ends e (a + b) = line_ends e a + line_ends e b"
  by (simp add: line_ends_def split: line_end.splits)

lemma line_ends_0 [simp]: "line_ends e 0 = 0"
  by (simp add: line_ends_def split: line_end.splits)

lemma sums_sub_sums [simp]: "sums_sub (a + d) d = Some a" "sums_sub (d + a) d = Some a"
  using sums_sub_add [of a d] by (simp_all add: add.commute)

lemma length_hits [simp]: "length (hits c bs) = length (filter (\<lambda>b. b = c) bs)"
  unfolding hits_def by (subst (2) map_nth [symmetric]) (simp add: filter_map comp_def del: map_nth)

lemma hits_append: "hits c (xs @ ys) = hits c xs @ map ((+) (length xs)) (hits c ys)"
proof -
  have "[0..<length (xs @ ys)] = [0..<length xs] @ map ((+) (length xs)) [0..<length ys]"
    by (intro nth_equalityI) (simp_all add: nth_append)
  then show ?thesis
    by (auto simp: hits_def filter_map comp_def nth_append intro!: arg_cong2 [where f = "(@)"] filter_cong)
qed

lemma nth_newline_scan_exact:
  "1 \<le> n \<Longrightarrow> nth_newline_scan base n ps
     = Some (if n \<le> length (hits 10 (concat ps)) then Some (base + hits 10 (concat ps) ! (n - 1)) else None)"
proof (induction ps arbitrary: base n)
  case (Cons p ps)
  show ?case
  proof (cases "length (hits 10 p) < n")
    case True
    then show ?thesis
      using Cons.IH [of "n - length (hits 10 p)" "base + length p"] Cons.prems
      by (auto simp: hits_append nth_append Let_def)
  next
    case False
    then show ?thesis using Cons.prems by (auto simp: hits_append nth_append Let_def)
  qed
qed (simp add: hits_def)

subsection \<open>Cutting\<close>

lemma cut_piece_blocks:
  assumes "length cur < target"
  shows "\<exists>bss rest. cut_piece mb target piece chunks (sums_of_bytes mb cur) = Some (chunks @ map (sums_of_bytes mb) bss, sums_of_bytes mb rest)
    \<and> concat bss @ rest = cur @ piece \<and> (\<forall>bs \<in> set bss. length bs = target) \<and> length rest < target"
  using assms
proof (induction "length piece" arbitrary: piece chunks cur rule: less_induct)
  case less
  show ?case
  proof (cases "piece = []")
    case True
    then show ?thesis using less.prems by (intro exI [of _ "[]"] exI [of _ cur]) (simp add: cut_piece.simps)
  next
    case False
    let ?n = "min (target - length cur) (length piece)"
    let ?cur = "cur @ take ?n piece"
    have shorter: "length (drop ?n piece) < length piece" using False less.prems by auto
    have len: "length ?cur \<le> target" using less.prems by simp
    have cur: "sums_of_bytes mb cur + sums_of_bytes mb (take ?n piece) = sums_of_bytes mb ?cur" by simp
    show ?thesis
    proof (cases "length ?cur = target")
      case True
      have "\<exists>bss rest. cut_piece mb target (drop ?n piece) (chunks @ [sums_of_bytes mb ?cur]) (sums_of_bytes mb [])
          = Some ((chunks @ [sums_of_bytes mb ?cur]) @ map (sums_of_bytes mb) bss, sums_of_bytes mb rest)
        \<and> concat bss @ rest = [] @ drop ?n piece \<and> (\<forall>bs \<in> set bss. length bs = target) \<and> length rest < target"
        by (rule less.hyps [OF shorter]) (use less.prems in simp)
      then obtain bss rest where r: "cut_piece mb target (drop ?n piece) (chunks @ [sums_of_bytes mb ?cur]) 0
          = Some ((chunks @ [sums_of_bytes mb ?cur]) @ map (sums_of_bytes mb) bss, sums_of_bytes mb rest)"
          "concat bss @ rest = drop ?n piece" "\<forall>bs \<in> set bss. length bs = target" "length rest < target"
        by auto
      have "cut_piece mb target piece chunks (sums_of_bytes mb cur) = Some (chunks @ map (sums_of_bytes mb) (?cur # bss), sums_of_bytes mb rest)"
        using False less.prems True r(1) by (subst cut_piece.simps) (simp add: Let_def)
      moreover have "concat (?cur # bss) @ rest = cur @ piece" using r(2) by simp
      ultimately show ?thesis using r(3,4) True by (intro exI [of _ "?cur # bss"] exI [of _ rest]) simp
    next
      case ne: False
      have "\<exists>bss rest. cut_piece mb target (drop ?n piece) chunks (sums_of_bytes mb ?cur)
          = Some (chunks @ map (sums_of_bytes mb) bss, sums_of_bytes mb rest)
        \<and> concat bss @ rest = ?cur @ drop ?n piece \<and> (\<forall>bs \<in> set bss. length bs = target) \<and> length rest < target"
        by (rule less.hyps [OF shorter]) (use len ne in simp)
      moreover have "?cur @ drop ?n piece = cur @ piece" by simp
      moreover have "cut_piece mb target piece chunks (sums_of_bytes mb cur) = cut_piece mb target (drop ?n piece) chunks (sums_of_bytes mb ?cur)"
        using False less.prems ne by (subst cut_piece.simps) (simp only: cur Let_def lx_bytes_sums if_False chk_sub_Some less_imp_le bind.bind_lunit)
      ultimately show ?thesis by metis
    qed
  qed
qed

lemma cut_pieces_blocks:
  assumes "length cur < target"
  shows "\<exists>bss rest. cut_pieces mb target ps chunks (sums_of_bytes mb cur) = Some (chunks @ map (sums_of_bytes mb) bss, sums_of_bytes mb rest)
    \<and> concat bss @ rest = cur @ concat ps \<and> (\<forall>bs \<in> set bss. length bs = target) \<and> length rest < target"
  using assms
proof (induction ps arbitrary: chunks cur)
  case Nil
  then show ?case by (intro exI [of _ "[]"] exI [of _ cur]) simp
next
  case (Cons p ps)
  obtain bss1 rest1 where 1: "cut_piece mb target p chunks (sums_of_bytes mb cur) = Some (chunks @ map (sums_of_bytes mb) bss1, sums_of_bytes mb rest1)"
      "concat bss1 @ rest1 = cur @ p" "\<forall>bs \<in> set bss1. length bs = target" "length rest1 < target"
    using cut_piece_blocks [OF Cons.prems] by metis
  obtain bss2 rest2 where 2: "cut_pieces mb target ps (chunks @ map (sums_of_bytes mb) bss1) (sums_of_bytes mb rest1)
        = Some ((chunks @ map (sums_of_bytes mb) bss1) @ map (sums_of_bytes mb) bss2, sums_of_bytes mb rest2)"
      "concat bss2 @ rest2 = rest1 @ concat ps" "\<forall>bs \<in> set bss2. length bs = target" "length rest2 < target"
    using Cons.IH [OF 1(4)] by metis
  have "concat (bss1 @ bss2) @ rest2 = cur @ concat (p # ps)" using 1(2) 2(2) by (metis append_assoc concat.simps(2) concat_append)
  then show ?case using 1 2 by (intro exI [of _ "bss1 @ bss2"] exI [of _ rest2]) auto
qed

subsection \<open>The contract of a text view\<close>

definition block_ok :: "nat \<Rightarrow> bytes \<Rightarrow> bool" where
  "block_ok m bs \<longleftrightarrow> bs \<noteq> [] \<and> length bs \<le> m"

locale indexed_text =
  fixes view :: "'a \<Rightarrow> text_view"
    and text_of :: "'a \<Rightarrow> bytes"
    and ok :: "'a \<Rightarrow> bool"
  assumes byte_len: "ok x \<Longrightarrow> tv_byte_len (view x) = length (text_of x)"
    and pieces: "ok x \<Longrightarrow> s \<le> e \<Longrightarrow> e \<le> length (text_of x) \<Longrightarrow>
      \<exists>ps. tv_pieces (view x) s e = Some ps \<and> concat ps = sub_list s e (text_of x)"
begin

lemma sums_in_exact:
  assumes "ok x" "s \<le> e" "e \<le> length (text_of x)"
  shows "sums_in (view x) s e = Some (sums_of_bytes (tv_multibyte (view x)) (sub_list s e (text_of x)))"
  using pieces [OF assms] by (auto simp: sums_in_def fold_add_sum_list simp flip: sums_of_concat)

lemma line_ends_in_exact:
  assumes "ok x" "s \<le> e" "e \<le> length (text_of x)"
  shows "line_ends_in (view x) s e le = Some (length (filter (ends_line le) (sub_list s e (text_of x))))"
proof -
  obtain ps where ps: "tv_pieces (view x) s e = Some ps" "concat ps = sub_list s e (text_of x)" using pieces [OF assms] by blast
  have "length (filter (ends_line le) (concat ps)) = (\<Sum>p\<leftarrow>ps. length (filter (ends_line le) p))" by (induction ps) simp_all
  then show ?thesis using ps by (simp add: line_ends_in_def fold_add_sum_list)
qed

lemma nth_newline_in_exact:
  assumes "ok x" "s \<le> e" "e \<le> length (text_of x)" "1 \<le> n"
  shows "nth_newline_in (view x) s e n
    = Some (let at = hits 10 (sub_list s e (text_of x)) in if n \<le> length at then Some (s + at ! (n - 1)) else None)"
  using pieces [OF assms(1-3)] nth_newline_scan_exact [OF assms(4), of s]
  by (auto simp: nth_newline_in_def Let_def assms(4) [unfolded One_nat_def])

lemma cut_chunks_blocks:
  assumes "ok x" "s \<le> e" "e \<le> length (text_of x)" "0 < target"
  shows "\<exists>bss. cut_chunks (view x) s e target mb = Some (map (sums_of_bytes mb) bss)
    \<and> concat bss = sub_list s e (text_of x) \<and> list_all (block_ok target) bss"
proof -
  obtain ps where ps: "tv_pieces (view x) s e = Some ps" "concat ps = sub_list s e (text_of x)" using pieces [OF assms(1-3)] by blast
  obtain bss rest where r: "cut_pieces mb target ps [] 0 = Some (map (sums_of_bytes mb) bss, sums_of_bytes mb rest)"
      "concat bss @ rest = concat ps" "\<forall>bs \<in> set bss. length bs = target" "length rest < target"
    using cut_pieces_blocks [of "[]" target mb ps "[]"] assms(4) by auto
  have full: "list_all (block_ok target) bss" using r(3) assms(4) by (auto simp: list_all_iff block_ok_def)
  show ?thesis
  proof (cases "rest = []")
    case True
    then show ?thesis using ps r full assms by (intro exI [of _ bss]) (simp add: cut_chunks_def)
  next
    case False
    then show ?thesis using ps r full assms by (intro exI [of _ "bss @ [rest]"]) (simp add: cut_chunks_def block_ok_def)
  qed
qed

end

interpretation backend_text: indexed_text backend_view tb_text tb_inv
proof
  fix b s e
  assume inv: "tb_inv b"
  then have own: "tb_own_inv b" by (simp add: tb_inv_def)
  show "tv_byte_len (backend_view b) = length (tb_text b)"
    using backend.metrics_law [OF inv] by (simp add: backend_view_def metrics_from_lengths_def)
  assume "s \<le> e" "e \<le> length (tb_text b)"
  then show "\<exists>ps. tv_pieces (backend_view b) s e = Some ps \<and> concat ps = sub_list s e (tb_text b)"
    using tb_chunks [OF own, of "byte_range_new s e"] by (auto simp: backend_view_def byte_range_new_def sub_list_def)
qed

subsection \<open>The index as a partition of the text\<close>

definition geometry_ok :: "chunk_geometry \<Rightarrow> bool" where
  "geometry_ok g \<longleftrightarrow> 0 < cg_target g \<and> cg_target g \<le> cg_max g \<and> 0 < cg_min g"

text \<open>The chunks of the index are the sums of the blocks, in order.\<close>

definition sums_blocks :: "line_index \<Rightarrow> bytes list \<Rightarrow> bool" where
  "sums_blocks ix bss \<longleftrightarrow> li_chunks ix = map (sums_of_bytes (li_multibyte ix)) bss"

definition index_blocks :: "line_index \<Rightarrow> bytes list \<Rightarrow> bool" where
  "index_blocks ix bss \<longleftrightarrow> sums_blocks ix bss \<and> tree_ok (li_chunks ix) (li_tree ix)
     \<and> li_total ix = sums_of_bytes (li_multibyte ix) (concat bss)"

definition line_index_ok :: "bool \<Rightarrow> bytes \<Rightarrow> line_index \<Rightarrow> bool" where
  "line_index_ok mb txt ix \<longleftrightarrow> li_multibyte ix = mb \<and> geometry_ok (li_geometry ix)
     \<and> (\<exists>bss. index_blocks ix bss \<and> concat bss = txt \<and> list_all (block_ok (cg_max (li_geometry ix))) bss)"

lemma index_blocksD:
  assumes "index_blocks ix bss"
  shows "li_chunks ix = map (sums_of_bytes (li_multibyte ix)) bss" "tree_ok (li_chunks ix) (li_tree ix)"
    "li_total ix = sums_of_bytes (li_multibyte ix) (concat bss)"
  using assms unfolding index_blocks_def sums_blocks_def by blast+

lemma rebuild_tree_simps [simp]:
  "li_chunks (rebuild_tree ix) = li_chunks ix" "li_multibyte (rebuild_tree ix) = li_multibyte ix"
  "li_geometry (rebuild_tree ix) = li_geometry ix"
  by (simp_all add: rebuild_tree_def)

lemma rebuild_tree_blocks: "sums_blocks ix bss \<Longrightarrow> index_blocks (rebuild_tree ix) bss"
  using fold_add_sum_list [of "\<lambda>c. c" "li_chunks ix" 0]
  by (simp add: index_blocks_def sums_blocks_def rebuild_tree_def rebuilt_tree_ok sums_of_concat)

lemma prefix_sum_blocks:
  "k \<le> length bss \<Longrightarrow> prefix_sum (map (sums_of_bytes mb) bss) k = sums_of_bytes mb (concat (take k bss))"
proof (induction k)
  case (Suc k)
  then show ?case by (simp add: prefix_sum_def take_Suc_conv_app_nth)
qed simp

lemma prefix_sum_mono:
  assumes "i \<le> j"
  shows "lx_bytes (prefix_sum cs i) \<le> lx_bytes (prefix_sum cs j)" "lx_newlines (prefix_sum cs i) \<le> lx_newlines (prefix_sum cs j)"
  using assms by (induction j rule: dec_induct) (simp_all add: prefix_sum_def)

lemma sums_before_chunk_blocks:
  assumes "index_blocks ix bss" "k \<le> length bss"
  shows "sums_before_chunk k ix = Some (sums_of_bytes (li_multibyte ix) (concat (take k bss)))"
  using prefix_loop_sum [OF index_blocksD(2) [OF assms(1)], of k 0] index_blocksD(1) [OF assms(1)] assms(2)
  by (simp add: sums_before_chunk_def prefix_sum_blocks)

lemma descend_blocks:
  assumes ix: "index_blocks ix bss"
    and mono: "\<And>i j. i \<le> j \<Longrightarrow> fits (prefix_sum (li_chunks ix) j) \<Longrightarrow> fits (prefix_sum (li_chunks ix) i)"
    and start: "fits 0" and stop: "\<not> fits (sums_of_bytes (li_multibyte ix) (concat bss))"
  shows "\<exists>k. k < length bss \<and> descend fits ix = Some (k, sums_of_bytes (li_multibyte ix) (concat (take k bss)))
    \<and> fits (sums_of_bytes (li_multibyte ix) (concat (take k bss)))
    \<and> \<not> fits (sums_of_bytes (li_multibyte ix) (concat (take (Suc k) bss)))"
proof -
  let ?S = "sums_of_bytes (li_multibyte ix)"
  note ch = index_blocksD(1) [OF ix]
  have pre: "prefix_sum (li_chunks ix) k = ?S (concat (take k bss))" if "k \<le> length bss" for k
    unfolding ch by (rule prefix_sum_blocks [OF that])
  have "bss \<noteq> []" using start stop by auto
  have n: "length (li_chunks ix) = length bss" using ch by simp
  have stop': "\<not> fits (prefix_sum (li_chunks ix) (length (li_chunks ix)))" using stop pre [of "length bss"] n by simp
  have "\<exists>k. descend_tree fits (length (li_chunks ix)) (li_tree ix) = Some (k, prefix_sum (li_chunks ix) k)
      \<and> (k = 0 \<or> fits (prefix_sum (li_chunks ix) k))
      \<and> (k < length (li_chunks ix) \<longrightarrow> \<not> fits (prefix_sum (li_chunks ix) (k + 1)))
      \<and> (0 < length (li_chunks ix) \<longrightarrow> k < length (li_chunks ix))"
  proof (rule descend_tree_finds [where fits = fits])
    show "tree_ok (li_chunks ix) (li_tree ix)" by (rule index_blocksD(2) [OF ix])
    show "fits (prefix_sum (li_chunks ix) i)" if "i \<le> j" "fits (prefix_sum (li_chunks ix) j)" for i j by (rule mono [OF that])
  qed (rule stop')
  then obtain k where "descend_tree fits (length bss) (li_tree ix) = Some (k, prefix_sum (li_chunks ix) k)"
      "k = 0 \<or> fits (prefix_sum (li_chunks ix) k)" "k < length bss \<longrightarrow> \<not> fits (prefix_sum (li_chunks ix) (k + 1))"
      "0 < length bss \<longrightarrow> k < length bss"
    unfolding n by blast
  then show ?thesis using \<open>bss \<noteq> []\<close> pre [of k] pre [of "Suc k"] n start
    by (intro exI [of _ k]) (auto simp: descend_def)
qed

lemma locate_byte_finds:
  assumes "index_blocks ix bss" "b < length (concat bss)"
  obtains k where "k < length bss" "locate_byte b ix = Some (k, sums_of_bytes (li_multibyte ix) (concat (take k bss)))"
    "length (concat (take k bss)) \<le> b" "b < length (concat (take (Suc k) bss))"
proof -
  have "\<exists>k. k < length bss \<and> descend (\<lambda>s. lx_bytes s \<le> b) ix = Some (k, sums_of_bytes (li_multibyte ix) (concat (take k bss)))
      \<and> lx_bytes (sums_of_bytes (li_multibyte ix) (concat (take k bss))) \<le> b
      \<and> \<not> lx_bytes (sums_of_bytes (li_multibyte ix) (concat (take (Suc k) bss))) \<le> b"
    by (rule descend_blocks [OF assms(1)]) (use assms(2) prefix_sum_mono(1) in \<open>auto intro: le_trans\<close>)
  then show thesis using that assms index_blocksD(3) [OF assms(1)] by (auto simp: locate_byte_def)
qed

lemma locate_newline_finds:
  assumes "index_blocks ix bss" "1 \<le> t" "t \<le> length (hits 10 (concat bss))"
  obtains k where "k < length bss" "locate_newline t ix = Some (k, sums_of_bytes (li_multibyte ix) (concat (take k bss)))"
    "length (hits 10 (concat (take k bss))) < t" "t \<le> length (hits 10 (concat (take (Suc k) bss)))"
proof -
  have "\<exists>k. k < length bss \<and> descend (\<lambda>s. lx_newlines s < t) ix = Some (k, sums_of_bytes (li_multibyte ix) (concat (take k bss)))
      \<and> lx_newlines (sums_of_bytes (li_multibyte ix) (concat (take k bss))) < t
      \<and> \<not> lx_newlines (sums_of_bytes (li_multibyte ix) (concat (take (Suc k) bss))) < t"
    by (rule descend_blocks [OF assms(1)]) (use assms(2,3) prefix_sum_mono(2) in \<open>auto intro: le_less_trans\<close>)
  then show thesis using that assms index_blocksD(3) [OF assms(1)] by (auto simp: locate_newline_def)
qed

subsection \<open>The queries\<close>

lemma take_block: "k < length bss \<Longrightarrow> concat (take (Suc k) bss) = concat (take k bss) @ bss ! k"
  by (simp add: take_Suc_conv_app_nth)

lemma concat_block:
  assumes "k < length bss"
  shows "concat bss = concat (take k bss) @ bss ! k @ concat (drop (Suc k) bss)"
  by (subst id_take_nth_drop [OF assms]) simp

lemma chunk_of_block:
  assumes "index_blocks ix bss" "k < length bss"
  shows "index_at (li_chunks ix) k = Some (sums_of_bytes (li_multibyte ix) (bss ! k))"
  using index_blocksD(1) [OF assms(1)] assms(2) by simp

lemma sub_list_middle: "sub_list (length a) (length a + length b) (a @ b @ c) = b"
  by (simp add: sub_list_def)

context indexed_text
begin

lemma line_ends_before_exact:
  assumes x: "ok x" and ix: "line_index_ok (tv_multibyte (view x)) (text_of x) ix"
  shows "line_ends_before (view x) p e ix = Some (length (filter (ends_line e) (take p (text_of x))))"
proof -
  obtain bss where bss: "index_blocks ix bss" "concat bss = text_of x" using ix by (auto simp: line_index_ok_def)
  note total = index_blocksD(3) [OF bss(1)]
  show ?thesis
  proof (cases "length (text_of x) \<le> p")
    case True
    then show ?thesis using total bss(2) by (simp add: line_ends_before_def)
  next
    case False
    then obtain k where k: "k < length bss" "locate_byte p ix = Some (k, sums_of_bytes (li_multibyte ix) (concat (take k bss)))"
        "length (concat (take k bss)) \<le> p" "p < length (concat (take (Suc k) bss))"
      using locate_byte_finds [OF bss(1), of p] bss(2) by auto
    define before where "before = concat (take k bss)"
    define blk where "blk = bss ! k"
    define after where "after = concat (drop (Suc k) bss)"
    have whole: "text_of x = before @ blk @ after" using concat_block [OF k(1)] bss(2) by (simp add: before_def blk_def after_def)
    have p: "length before \<le> p" "p < length before + length blk" using k(3,4) take_block [OF k(1)] by (simp_all add: before_def blk_def)
    define o' where "o' = p - length before"
    have p': "p = length before + o'" "o' < length blk" using p by (simp_all add: o'_def)
    have head: "line_ends_in (view x) (length before) p e = Some (length (filter (ends_line e) (take o' blk)))"
      using line_ends_in_exact [OF x, of "length before" p e] p p' whole by (simp add: sub_list_def)
    have tail: "line_ends_in (view x) p (length before + length blk) e = Some (length (filter (ends_line e) (drop o' blk)))"
      using line_ends_in_exact [OF x, of p "length before + length blk" e] p p' whole by (simp add: sub_list_def)
    have "filter (ends_line e) blk = filter (ends_line e) (take o' blk) @ filter (ends_line e) (drop o' blk)"
      by (metis append_take_drop_id filter_append)
    then have split: "length (filter (ends_line e) blk) = length (filter (ends_line e) (take o' blk)) + length (filter (ends_line e) (drop o' blk))"
      by simp
    have "take p (text_of x) = before @ take o' blk" using whole p' by simp
    then show ?thesis
      using False total bss(2) k(2) chunk_of_block [OF bss(1) k(1)] head tail p' split
      by (auto simp: line_ends_before_def simp flip: before_def blk_def)
  qed
qed

lemma newline_position_exact:
  assumes x: "ok x" and ix: "line_index_ok (tv_multibyte (view x)) (text_of x) ix"
  shows "newline_position (view x) t ix
    = Some (if 1 \<le> t \<and> t \<le> length (hits 10 (text_of x)) then Some (hits 10 (text_of x) ! (t - 1)) else None)"
proof -
  obtain bss where bss: "index_blocks ix bss" "concat bss = text_of x" using ix by (auto simp: line_index_ok_def)
  have total: "lx_newlines (li_total ix) = length (hits 10 (text_of x))" using index_blocksD(3) [OF bss(1)] bss(2) by simp
  show ?thesis
  proof (cases "1 \<le> t \<and> t \<le> length (hits 10 (text_of x))")
    case False
    then show ?thesis using total by (auto simp: newline_position_def)
  next
    case True
    then obtain k where k: "k < length bss" "locate_newline t ix = Some (k, sums_of_bytes (li_multibyte ix) (concat (take k bss)))"
        "length (hits 10 (concat (take k bss))) < t" "t \<le> length (hits 10 (concat (take (Suc k) bss)))"
      using locate_newline_finds [OF bss(1), of t] bss(2) by auto
    define before where "before = concat (take k bss)"
    define blk where "blk = bss ! k"
    define after where "after = concat (drop (Suc k) bss)"
    have whole: "text_of x = before @ blk @ after" using concat_block [OF k(1)] bss(2) by (simp add: before_def blk_def after_def)
    have t: "length (hits 10 before) < t" "t \<le> length (hits 10 before) + length (hits 10 blk)"
      using k(3,4) take_block [OF k(1)] by (simp_all add: before_def blk_def hits_append)
    define n where "n = t - length (hits 10 before)"
    have n: "1 \<le> n" "n \<le> length (hits 10 blk)" "t = length (hits 10 before) + n" using t by (simp_all add: n_def)
    have "sub_list (length before) (length before + length blk) (text_of x) = blk" using whole by (simp add: sub_list_middle)
    then have found: "nth_newline_in (view x) (length before) (length before + length blk) n = Some (Some (length before + hits 10 blk ! (n - 1)))"
      using nth_newline_in_exact [OF x, of "length before" "length before + length blk" n] n whole by simp
    have at: "hits 10 (text_of x) ! (t - 1) = length before + hits 10 blk ! (n - 1)"
      using n by (cases n) (simp_all add: whole hits_append nth_append del: length_hits)
    have "newline_position (view x) t ix = nth_newline_in (view x) (length before) (length before + length blk) (t - length (hits 10 before))"
      using True total k(2) chunk_of_block [OF bss(1) k(1)] t(1)
      by (auto simp: newline_position_def simp flip: before_def blk_def)
    then show ?thesis using found True at by (simp add: n_def)
  qed
qed

lemma build_ok:
  assumes "ok x" "2 * max chunk_bytes 8 < 2 ^ 64"
  shows "\<exists>ix. build (view x) chunk_bytes = Some ix \<and> line_index_ok (tv_multibyte (view x)) (text_of x) ix"
proof -
  let ?t = "max chunk_bytes 8"
  let ?g = "\<lparr>cg_target = ?t, cg_max = ?t * 2, cg_min = ?t div 4\<rparr>"
  have g: "geometry_new chunk_bytes = Some ?g" using assms(2) by (simp add: geometry_new_def MIN_CHUNK_BYTES_def Let_def mult.commute)
  obtain bss where bss: "cut_chunks (view x) 0 (length (text_of x)) ?t (tv_multibyte (view x)) = Some (map (sums_of_bytes (tv_multibyte (view x))) bss)"
      "concat bss = text_of x" "list_all (block_ok ?t) bss"
    using cut_chunks_blocks [OF assms(1), of 0 "length (text_of x)" ?t "tv_multibyte (view x)"] by (auto simp: sub_list_def less_max_iff_disj)
  let ?ix = "\<lparr>li_chunks = map (sums_of_bytes (tv_multibyte (view x))) bss, li_tree = [], li_total = 0,
      li_multibyte = tv_multibyte (view x), li_geometry = ?g\<rparr>"
  have "build (view x) chunk_bytes = Some (rebuild_tree ?ix)"
    unfolding build_def g byte_len [OF assms(1)] by (simp add: bss(1))
  moreover have "list_all (block_ok (?t * 2)) bss" using bss(3) by (auto simp: list_all_iff block_ok_def)
  moreover have "geometry_ok ?g" by (auto simp: geometry_ok_def)
  moreover have "index_blocks (rebuild_tree ?ix) bss" by (rule rebuild_tree_blocks) (simp add: sums_blocks_def)
  ultimately show ?thesis using bss(2) by (auto simp: line_index_ok_def)
qed

end

subsection \<open>Merging and splitting\<close>

lemma remove_nth_middle: "length a = k \<Longrightarrow> remove_nth k (a @ x # b) = a @ b"
  by (auto simp: remove_nth_def)

lemma merge_into_blocks:
  assumes "sums_blocks ix bss" "i + 1 < length bss" "(k = i \<and> into = i + 1) \<or> (k = i + 1 \<and> into = i)"
  shows "sums_blocks (merge_into k into ix) (take i bss @ [bss ! i @ bss ! (i + 1)] @ drop (i + 2) bss)"
proof -
  let ?S = "sums_of_bytes (li_multibyte ix)"
  define a where "a = map ?S (take i bss)"
  define b where "b = map ?S (drop (i + 2) bss)"
  have "bss = take i bss @ bss ! i # bss ! (i + 1) # drop (i + 2) bss"
    using assms(2) by (metis Cons_nth_drop_Suc Suc_eq_plus1 add_2_eq_Suc' add_lessD1 append_take_drop_id)
  then have "map ?S bss = a @ ?S (bss ! i) # ?S (bss ! (i + 1)) # b" unfolding a_def b_def by (metis list.simps(9) map_append)
  then have ch: "li_chunks ix = a @ ?S (bss ! i) # ?S (bss ! (i + 1)) # b" using assms(1) by (simp add: sums_blocks_def)
  have a: "length a = i" using assms(2) by (simp add: a_def)
  have "remove_nth k ((li_chunks ix)[into := li_chunks ix ! into + li_chunks ix ! k]) = a @ (?S (bss ! i) + ?S (bss ! (i + 1))) # b"
    using assms(3) remove_nth_middle [OF a, of _ "_ # b"] remove_nth_middle [of "a @ [?S (bss ! i) + ?S (bss ! (i + 1))]" "i + 1" _ b]
    by (auto simp: ch nth_append list_update_append a add.commute split: nat.splits)
  then show ?thesis by (simp add: sums_blocks_def merge_into_def a_def b_def Let_def)
qed

lemma merge_into_simps [simp]: "li_multibyte (merge_into k i ix) = li_multibyte ix" "li_geometry (merge_into k i ix) = li_geometry ix"
  by (simp_all add: merge_into_def Let_def)

lemma concat_merged:
  assumes "i + 1 < length bss"
  shows "concat (take i bss @ [bss ! i @ bss ! (i + 1)] @ drop (i + 2) bss) = concat bss"
proof -
  have "bss = take i bss @ bss ! i # bss ! (i + 1) # drop (i + 2) bss"
    using assms by (metis Cons_nth_drop_Suc Suc_eq_plus1 add_2_eq_Suc' add_lessD1 append_take_drop_id)
  then have "concat bss = concat (take i bss @ bss ! i # bss ! (i + 1) # drop (i + 2) bss)" by simp
  then show ?thesis by simp
qed

lemma concat_take_mono: "i \<le> j \<Longrightarrow> length (concat (take i bss)) \<le> length (concat (take j bss))"
  by (metis concat_append le_add1 le_add_diff_inverse length_append take_add)

text \<open>Merging keeps the text and the size limits, and removes an empty block.\<close>

definition blocks_fit :: "nat \<Rightarrow> nat \<Rightarrow> bytes list \<Rightarrow> bool" where
  "blocks_fit m k bss \<longleftrightarrow> (\<forall>i < length bss. length (bss ! i) \<le> m \<and> (i \<noteq> k \<longrightarrow> bss ! i \<noteq> []))"

lemma blocks_fit_all: "list_all (block_ok m) bss \<Longrightarrow> blocks_fit m k bss"
  by (auto simp: blocks_fit_def block_ok_def list_all_length)

lemma blocks_fit_update: "blocks_fit m k bss \<Longrightarrow> length bs \<le> m \<Longrightarrow> blocks_fit m k (bss[k := bs])"
  unfolding blocks_fit_def by (metis length_list_update nth_list_update_eq nth_list_update_neq)

lemma length_delete_range_le: "i \<le> j \<Longrightarrow> length (delete_range i j xs) \<le> length xs"
  by (simp add: delete_range_def min_def) linarith

lemma list_all_takeI: "list_all P (take i xs) \<and> list_all P (drop j xs) \<and> P y \<Longrightarrow> list_all P (take i xs @ [y] @ drop j xs)"
  by simp

lemma merged_fit:
  assumes "blocks_fit m k bss" "i + 1 < length bss" "k = i \<or> k = i + 1" "length (bss ! i) + length (bss ! (i + 1)) \<le> m"
  shows "list_all (block_ok m) (take i bss @ [bss ! i @ bss ! (i + 1)] @ drop (i + 2) bss)"
proof (rule list_all_takeI, intro conjI)
  show "list_all (block_ok m) (take i bss)" "list_all (block_ok m) (drop (i + 2) bss)"
    using assms(1-3) by (auto simp: list_all_length blocks_fit_def block_ok_def)
  show "block_ok m (bss ! i @ bss ! (i + 1))" using assms by (auto simp: block_ok_def blocks_fit_def)
qed

lemma merge_small_blocks:
  assumes "sums_blocks ix bss" "blocks_fit (cg_max (li_geometry ix)) k bss"
  obtains bss' where "sums_blocks (fst (merge_small k ix)) bss'" "concat bss' = concat bss"
    "list_all (block_ok (cg_max (li_geometry ix))) bss'"
    "li_multibyte (fst (merge_small k ix)) = li_multibyte ix" "li_geometry (fst (merge_small k ix)) = li_geometry ix"
    "\<not> snd (merge_small k ix) \<Longrightarrow> fst (merge_small k ix) = ix \<and> bss' = bss"
proof -
  let ?m = "cg_max (li_geometry ix)"
  have n: "length (li_chunks ix) = length bss" using assms(1) by (simp add: sums_blocks_def)
  have sz: "lx_bytes (li_chunks ix ! i) = length (bss ! i)" if "i < length bss" for i using assms(1) that by (simp add: sums_blocks_def)
  have same: "list_all (block_ok ?m) bss" if "length bss \<le> k \<or> bss ! k \<noteq> []"
    using assms(2) that by (auto simp: blocks_fit_def block_ok_def list_all_length)
  consider (off) "length bss \<le> k" | (empty) "k < length bss" "bss ! k = []"
    | (keep) "k < length bss" "bss ! k \<noteq> []" "merge_small k ix = (ix, False)"
    | (merge) i into where "k < length bss" "i + 1 < length bss" "(k = i \<and> into = i + 1) \<or> (k = i + 1 \<and> into = i)"
        "length (bss ! i) + length (bss ! (i + 1)) \<le> ?m" "merge_small k ix = (merge_into k into ix, True)"
  proof (cases "k < length bss \<and> bss ! k \<noteq> [] \<and> length (bss ! k) < cg_min (li_geometry ix)")
    case True
    then have k: "k < length bss" "bss ! k \<noteq> []" by simp_all
    have cases: "merge_small k ix = (ix, False)
        \<or> (1 \<le> k \<and> length (bss ! k) + length (bss ! (k - 1)) \<le> ?m \<and> merge_small k ix = (merge_into k (k - 1) ix, True))
        \<or> (k + 1 < length bss \<and> length (bss ! k) + length (bss ! (k + 1)) \<le> ?m \<and> merge_small k ix = (merge_into k (k + 1) ix, True))"
      using True by (auto simp: merge_small_def Let_def n sz)
    then show ?thesis
      using that(3) [OF k] that(4) [of "k - 1" "k - 1"] that(4) [of k "k + 1"] k
      by (elim disjE conjE) (simp_all add: add.commute)
  next
    case False
    then show ?thesis using that(1,2,3) by (cases "k < length bss"; cases "bss ! k = []") (auto simp: merge_small_def Let_def n sz)
  qed
  then show thesis
  proof cases
    case off
    then have "merge_small k ix = (ix, False)" by (simp add: merge_small_def n Let_def)
    then show thesis using that [of bss] assms(1) same off by simp
  next
    case empty
    let ?b = "take k bss @ drop (k + 1) bss"
    have r: "merge_small k ix = (ix\<lparr>li_chunks := remove_nth k (li_chunks ix)\<rparr>, True)"
      using empty by (simp add: merge_small_def n sz Let_def)
    have "concat ?b = concat bss" using concat_block [OF empty(1)] empty(2) by simp
    moreover have "list_all (block_ok ?m) (take k bss)" "list_all (block_ok ?m) (drop (k + 1) bss)"
      using assms(2) by (auto simp: blocks_fit_def block_ok_def list_all_length)
    then have "list_all (block_ok ?m) ?b" by simp
    moreover have "sums_blocks (fst (merge_small k ix)) ?b"
      using assms(1) unfolding r by (simp add: sums_blocks_def remove_nth_def take_map drop_map)
    ultimately show thesis using that [of ?b] r by simp
  next
    case keep
    then show thesis using that [of bss] assms(1) same by simp
  next
    case merge
    show thesis
      by (rule that [OF _ concat_merged [OF merge(2)] merged_fit [OF assms(2) merge(2) _ merge(4)]])
        (use merge merge_into_blocks [OF assms(1) merge(2,3)] in auto)
  qed
qed

lemma merge_small_fit:
  assumes "sums_blocks ix bss" "list_all (block_ok (cg_max (li_geometry ix))) bss"
  shows "\<exists>bss'. sums_blocks (fst (merge_small k ix)) bss' \<and> concat bss' = concat bss
    \<and> list_all (block_ok (cg_max (li_geometry ix))) bss'
    \<and> li_multibyte (fst (merge_small k ix)) = li_multibyte ix \<and> li_geometry (fst (merge_small k ix)) = li_geometry ix"
  by (rule merge_small_blocks [OF assms(1) blocks_fit_all [OF assms(2), of k]]) blast

subsection \<open>Edits\<close>

lemma sums_of_insert_at: "sums_of_bytes mb (insert_at i ins bs) = sums_of_bytes mb bs + sums_of_bytes mb ins"
proof -
  have "sums_of_bytes mb bs = sums_of_bytes mb (take i bs) + sums_of_bytes mb (drop i bs)"
    by (metis append_take_drop_id sums_of_append)
  then show ?thesis by (simp add: insert_at_def add_ac)
qed

lemma sums_of_delete_range:
  assumes "i \<le> j"
  shows "sums_of_bytes mb bs = sums_of_bytes mb (delete_range i j bs) + sums_of_bytes mb (sub_list i j bs)"
proof -
  have "bs = take i bs @ sub_list i j bs @ drop j bs" using assms by (simp add: sub_list_drop)
  then have "sums_of_bytes mb bs = sums_of_bytes mb (take i bs) + (sums_of_bytes mb (sub_list i j bs) + sums_of_bytes mb (drop j bs))"
    by (metis sums_of_append)
  then show ?thesis by (simp add: delete_range_def add_ac)
qed

lemma concat_update:
  "k < length bss \<Longrightarrow> concat (bss[k := bs]) = concat (take k bss) @ bs @ concat (drop (Suc k) bss)"
  by (simp add: upd_conv_take_nth_drop)

lemma map_sums_update:
  "sums_blocks ix bss \<Longrightarrow> (li_chunks ix)[k := sums_of_bytes (li_multibyte ix) bs] = map (sums_of_bytes (li_multibyte ix)) (bss[k := bs])"
  by (simp add: sums_blocks_def map_update)

lemma grow_chunk:
  assumes ix: "index_blocks ix bss" and k: "k < length bss"
  obtains ix' where "tree_add k (sums_of_bytes (li_multibyte ix) ins)
      (ix\<lparr>li_chunks := (li_chunks ix)[k := sums_of_bytes (li_multibyte ix) (bss ! k) + sums_of_bytes (li_multibyte ix) ins]\<rparr>) = Some ix'"
    "index_blocks ix' (bss[k := insert_at i ins (bss ! k)])" "li_multibyte ix' = li_multibyte ix" "li_geometry ix' = li_geometry ix"
proof -
  let ?S = "sums_of_bytes (li_multibyte ix)"
  note d = index_blocksD [OF ix]
  have kc: "k < length (li_chunks ix)" "li_chunks ix ! k = ?S (bss ! k)" using d(1) k by simp_all
  obtain t where t: "tree_add_loop (?S ins) (k + 1) (li_tree ix) = Some t" "tree_ok ((li_chunks ix)[k := ?S (bss ! k) + ?S ins]) t"
    using tree_add_ok [OF d(2) kc(1), of "?S ins"] kc(2) by auto
  have "?S (concat (bss[k := insert_at i ins (bss ! k)])) = ?S (concat bss) + ?S ins"
    using concat_block [OF k] by (simp add: concat_update [OF k] sums_of_insert_at add_ac)
  moreover have "sums_blocks ix bss" using ix by (simp add: index_blocks_def)
  ultimately show thesis
    using t d(3) map_sums_update [of ix bss k "insert_at i ins (bss ! k)"]
      that [of "ix\<lparr>li_chunks := (li_chunks ix)[k := ?S (bss ! k) + ?S ins], li_tree := t, li_total := li_total ix + ?S ins\<rparr>"]
    by (auto simp: tree_add_def index_blocks_def sums_blocks_def sums_of_insert_at)
qed

lemma shrink_chunk:
  assumes ix: "index_blocks ix bss" and k: "k < length bss" and ij: "i \<le> j"
  obtains ix' where "tree_sub k (sums_of_bytes (li_multibyte ix) (sub_list i j (bss ! k)))
      (ix\<lparr>li_chunks := (li_chunks ix)[k := sums_of_bytes (li_multibyte ix) (delete_range i j (bss ! k))]\<rparr>) = Some ix'"
    "index_blocks ix' (bss[k := delete_range i j (bss ! k)])" "li_multibyte ix' = li_multibyte ix" "li_geometry ix' = li_geometry ix"
proof -
  let ?S = "sums_of_bytes (li_multibyte ix)"
  let ?new = "?S (delete_range i j (bss ! k))" and ?del = "?S (sub_list i j (bss ! k))"
  note d = index_blocksD [OF ix]
  have blk: "?S (bss ! k) = ?new + ?del" by (rule sums_of_delete_range [OF ij])
  have kc: "k < length (li_chunks ix)" "li_chunks ix ! k = ?new + ?del" using d(1) k blk by simp_all
  obtain t where t: "tree_sub_loop ?del (k + 1) (li_tree ix) = Some t" "tree_ok ((li_chunks ix)[k := ?new]) t"
    using tree_sub_ok [OF d(2) kc] by auto
  have "?S (concat bss) = ?S (concat (bss[k := delete_range i j (bss ! k)])) + ?del"
    using concat_block [OF k] by (simp add: concat_update [OF k] blk add_ac)
  moreover have "sums_blocks ix bss" using ix by (simp add: index_blocks_def)
  ultimately show thesis
    using t d(3) map_sums_update [of ix bss k "delete_range i j (bss ! k)"]
      that [of "ix\<lparr>li_chunks := (li_chunks ix)[k := ?new], li_tree := t, li_total := ?S (concat (bss[k := delete_range i j (bss ! k)]))\<rparr>"]
    by (auto simp: tree_sub_def index_blocks_def sums_blocks_def)
qed

lemma insert_at_middle:
  assumes "length a \<le> p" "p \<le> length a + length b"
  shows "insert_at p ins (a @ b @ c) = a @ insert_at (p - length a) ins b @ c"
  using assms by (simp add: insert_at_def)

lemma delete_range_middle:
  assumes "length a \<le> p" "p \<le> q" "q \<le> length a + length b"
  shows "delete_range p q (a @ b @ c) = a @ delete_range (p - length a) (q - length a) b @ c"
  using assms by (simp add: delete_range_def)

lemma sub_list_inside:
  assumes "length a \<le> p" "p \<le> q" "q \<le> length a + length b"
  shows "sub_list p q (a @ b @ c) = sub_list (p - length a) (q - length a) b"
  using assms by (simp add: sub_list_def)

lemma list_all_update: "list_all P xs \<Longrightarrow> P y \<Longrightarrow> list_all P (xs[k := y])"
  by (auto simp: list_all_iff dest: set_update_subset_insert [THEN subsetD])

context indexed_text
begin

lemma split_chunk_ok:
  assumes x: "ok x" and ix: "index_blocks ix bss" "concat bss = text_of x" and k: "k < length bss"
    and g: "geometry_ok (li_geometry ix)"
    and fit: "list_all (block_ok (cg_max (li_geometry ix))) (take k bss)" "list_all (block_ok (cg_max (li_geometry ix))) (drop (Suc k) bss)"
  shows "\<exists>ix'. split_chunk (view x) k ix = Some ix' \<and> line_index_ok (li_multibyte ix) (text_of x) ix'"
proof -
  let ?S = "sums_of_bytes (li_multibyte ix)"
  let ?s = "length (concat (take k bss))"
  have whole: "text_of x = concat (take k bss) @ bss ! k @ concat (drop (Suc k) bss)" using concat_block [OF k] ix(2) by simp
  have g': "0 < cg_target (li_geometry ix)" "cg_target (li_geometry ix) \<le> cg_max (li_geometry ix)" using g by (simp_all add: geometry_ok_def)
  obtain new where new: "cut_chunks (view x) ?s (?s + length (bss ! k)) (cg_target (li_geometry ix)) (li_multibyte ix) = Some (map ?S new)"
      "concat new = bss ! k" "list_all (block_ok (cg_target (li_geometry ix))) new"
    using cut_chunks_blocks [OF x, of ?s "?s + length (bss ! k)" "cg_target (li_geometry ix)" "li_multibyte ix"] g' whole
    by (auto simp: sub_list_middle simp del: length_concat)
  let ?b = "take k bss @ new @ drop (Suc k) bss"
  let ?ix = "ix\<lparr>li_chunks := map ?S ?b\<rparr>"
  have "splice k k (map ?S new) (li_chunks ix) = Some (map ?S ?b)"
    using index_blocksD(1) [OF ix(1)] k by (simp add: splice_def take_map drop_map)
  then have "split_chunk (view x) k ix = Some (rebuild_tree ?ix)"
    using sums_before_chunk_blocks [OF ix(1), of k] chunk_of_block [OF ix(1) k] k new(1)
    by (simp add: split_chunk_def del: length_concat map_append)
  moreover have "list_all (block_ok (cg_max (li_geometry ix))) new" using new(3) g'(2) by (auto simp: list_all_iff block_ok_def)
  moreover have "index_blocks (rebuild_tree ?ix) ?b" by (rule rebuild_tree_blocks) (simp add: sums_blocks_def)
  moreover have "concat ?b = text_of x" using whole new(2) by simp
  ultimately show ?thesis using g fit by (auto simp: line_index_ok_def simp del: map_append concat_append)
qed

lemma note_insert_ok:
  assumes x: "ok x" and ix: "line_index_ok mb old ix" and at: "p \<le> length old" "text_of x = insert_at p ins old"
  shows "\<exists>ix'. note_insert (view x) p ins ix = Some ix' \<and> line_index_ok mb (text_of x) ix'"
proof (cases "ins = []")
  case True
  then show ?thesis using ix at(2) by (simp add: note_insert_def)
next
  case False
  let ?S = "sums_of_bytes (li_multibyte ix)"
  let ?m = "cg_max (li_geometry ix)"
  obtain bss0 where b0: "index_blocks ix bss0" "concat bss0 = old" "list_all (block_ok ?m) bss0"
    and mb: "li_multibyte ix = mb" and g: "geometry_ok (li_geometry ix)" using ix by (auto simp: line_index_ok_def)
  have "\<exists>k ix1 bss. (if li_chunks ix = [] then Some (0, rebuild_tree (ix\<lparr>li_chunks := [0]\<rparr>))
        else if p = 0 then Some (0, ix) else do { (k, _) \<leftarrow> locate_byte (p - 1) ix; Some (k, ix) }) = Some (k, ix1)
      \<and> index_blocks ix1 bss \<and> concat bss = old \<and> k < length bss
      \<and> length (concat (take k bss)) \<le> p \<and> p \<le> length (concat (take (Suc k) bss))
      \<and> li_multibyte ix1 = li_multibyte ix \<and> li_geometry ix1 = li_geometry ix
      \<and> list_all (block_ok ?m) (take k bss) \<and> list_all (block_ok ?m) (drop (Suc k) bss)"
  proof (cases "bss0 = []")
    case True
    have "index_blocks (rebuild_tree (ix\<lparr>li_chunks := [0]\<rparr>)) [[]]" by (rule rebuild_tree_blocks) (simp add: sums_blocks_def)
    moreover have "li_chunks ix = []" "old = []" using index_blocksD(1) [OF b0(1)] b0(2) True by simp_all
    ultimately show ?thesis using at(1) by (intro exI [of _ 0] exI [of _ "rebuild_tree (ix\<lparr>li_chunks := [0]\<rparr>)"] exI [of _ "[[]]"]) simp
  next
    case ne: False
    have ch: "li_chunks ix \<noteq> []" using ne index_blocksD(1) [OF b0(1)] by simp
    have "\<exists>k. (if p = 0 then Some (0, ix) else do { (k, _) \<leftarrow> locate_byte (p - 1) ix; Some (k, ix) }) = Some (k, ix)
        \<and> k < length bss0 \<and> length (concat (take k bss0)) \<le> p \<and> p \<le> length (concat (take (Suc k) bss0))"
    proof (cases "p = 0")
      case False
      then have "p - 1 < length (concat bss0)" using at(1) b0(2) by simp
      then obtain k where "k < length bss0" "locate_byte (p - 1) ix = Some (k, ?S (concat (take k bss0)))"
          "length (concat (take k bss0)) \<le> p - 1" "p - 1 < length (concat (take (Suc k) bss0))"
        by (rule locate_byte_finds [OF b0(1)])
      then show ?thesis using False by (intro exI [of _ k] conjI; simp del: length_concat; linarith)
    qed (use ne in simp)
    then obtain k where k: "(if p = 0 then Some (0, ix) else do { (k, _) \<leftarrow> locate_byte (p - 1) ix; Some (k, ix) }) = Some (k, ix)"
        "k < length bss0" "length (concat (take k bss0)) \<le> p" "p \<le> length (concat (take (Suc k) bss0))" by blast
    moreover have "list_all (block_ok ?m) (take k bss0)" "list_all (block_ok ?m) (drop (Suc k) bss0)"
      using b0(3) by (auto simp: list_all_iff dest: in_set_takeD in_set_dropD)
    ultimately show ?thesis using b0(1,2) ch
      by (intro exI [of _ k] exI [of _ ix] exI [of _ bss0] conjI) (simp_all only: if_False refl)
  qed
  then obtain k ix1 bss where found: "(if li_chunks ix = [] then Some (0, rebuild_tree (ix\<lparr>li_chunks := [0]\<rparr>))
        else if p = 0 then Some (0, ix) else do { (k, _) \<leftarrow> locate_byte (p - 1) ix; Some (k, ix) }) = Some (k, ix1)"
    and b: "index_blocks ix1 bss" "concat bss = old" and k: "k < length bss"
      "length (concat (take k bss)) \<le> p" "p \<le> length (concat (take (Suc k) bss))"
    and same: "li_multibyte ix1 = li_multibyte ix" "li_geometry ix1 = li_geometry ix"
    and fit: "list_all (block_ok ?m) (take k bss)" "list_all (block_ok ?m) (drop (Suc k) bss)" by blast
  let ?i = "p - length (concat (take k bss))"
  let ?blk = "insert_at ?i ins (bss ! k)"
  let ?b = "bss[k := ?blk]"
  obtain ix2 where ix2: "tree_add k (?S ins) (ix1\<lparr>li_chunks := (li_chunks ix1)[k := ?S (bss ! k) + ?S ins]\<rparr>) = Some ix2"
      "index_blocks ix2 ?b" "li_multibyte ix2 = li_multibyte ix" "li_geometry ix2 = li_geometry ix"
    using grow_chunk [OF b(1) k(1), of ins ?i] same by auto
  have grown: "concat ?b = text_of x"
    using k(2,3) take_block [OF k(1)] concat_block [OF k(1)] b(2) at(2)
    by (simp add: concat_update [OF k(1)] insert_at_middle del: length_concat)
  have run: "note_insert (view x) p ins ix = (if ?m < length ?blk then split_chunk (view x) k ix2 else Some ix2)"
    using False found chunk_of_block [OF b(1) k(1)] ix2(1,4) same(1) k(2)
    by (simp add: note_insert_def Let_def add.commute del: length_concat)
  have ne: "?blk \<noteq> []" using False by (simp add: insert_at_def)
  show ?thesis
  proof (cases "?m < length ?blk")
    case True
    have "\<exists>ix'. split_chunk (view x) k ix2 = Some ix' \<and> line_index_ok (li_multibyte ix2) (text_of x) ix'"
      by (rule split_chunk_ok [OF x ix2(2) grown]) (use k(1) g fit ix2(4) in simp_all)
    then show ?thesis using run True ix2(3) mb by simp
  next
    case fits: False
    have "list_all (block_ok ?m) ?b"
      using fits ne fit by (simp add: upd_conv_take_nth_drop [OF k(1)] block_ok_def)
    then show ?thesis using run fits ix2 grown mb g by (auto simp: line_index_ok_def)
  qed
qed

lemma note_delete_ok:
  assumes x: "ok x" and ix: "line_index_ok (tv_multibyte (view x)) (text_of x) ix" and q: "q \<le> length (text_of x)"
  shows "\<exists>ix'. note_delete (view x) p q ix = Some ix' \<and> line_index_ok (tv_multibyte (view x)) (delete_range p (max p q) (text_of x)) ix'"
proof (cases "q \<le> p")
  case True
  then show ?thesis using ix by (simp add: note_delete_def max_absorb1)
next
  case False
  let ?mb = "tv_multibyte (view x)"
  let ?S = "sums_of_bytes ?mb"
  let ?m = "cg_max (li_geometry ix)"
  let ?new = "delete_range p q (text_of x)"
  obtain bss where b: "index_blocks ix bss" "concat bss = text_of x" and fit: "list_all (block_ok ?m) bss"
    and mb: "li_multibyte ix = ?mb" and g: "geometry_ok (li_geometry ix)" using ix by (auto simp: line_index_ok_def)
  have total: "lx_bytes (li_total ix) = length (text_of x)" using index_blocksD(3) [OF b(1)] b(2) by simp
  have "p < length (concat bss)" using b(2) q False by simp
  then obtain j where j: "j < length bss" "locate_byte p ix = Some (j, ?S (concat (take j bss)))"
      "length (concat (take j bss)) \<le> p" "p < length (concat (take (Suc j) bss))"
    by (rule locate_byte_finds [OF b(1), unfolded mb])
  have "q - 1 < length (concat bss)" using b(2) q False by simp
  then obtain k where k: "k < length bss" "locate_byte (q - 1) ix = Some (k, ?S (concat (take k bss)))"
      "length (concat (take k bss)) \<le> q - 1" "q - 1 < length (concat (take (Suc k) bss))"
    by (rule locate_byte_finds [OF b(1), unfolded mb])
  note chunk = chunk_of_block [OF b(1) j(1), unfolded mb] chunk_of_block [OF b(1) k(1), unfolded mb]
  let ?a = "concat (take j bss)" and ?z = "concat (take k bss)"
  let ?i1 = "p - length ?a" and ?i2 = "q - length ?z"
  have wj: "text_of x = ?a @ bss ! j @ concat (drop (Suc j) bss)" using concat_block [OF j(1)] b(2) by simp
  have wk: "text_of x = ?z @ bss ! k @ concat (drop (Suc k) bss)" using concat_block [OF k(1)] b(2) by simp
  have pj: "length ?a \<le> p" "p < length ?a + length (bss ! j)" using j(3,4) take_block [OF j(1)] by (simp_all del: length_concat)
  have qk: "length ?z < q" "q \<le> length ?z + length (bss ! k)" using k(3,4) False unfolding take_block [OF k(1)] length_append by linarith+
  have "\<exists>ix'. note_delete (view x) p q ix = Some ix' \<and> line_index_ok ?mb ?new ix'"
  proof (cases "j = k")
    case True
    let ?rest = "delete_range ?i1 ?i2 (bss ! j)"
    let ?b = "bss[j := ?rest]"
    have ij: "?i1 \<le> ?i2" using False True by simp
    have sub: "sub_list p q (text_of x) = sub_list ?i1 ?i2 (bss ! j)"
      using sub_list_inside [of ?a p q "bss ! j"] pj qk False True wj by (simp del: length_concat)
    have new: "concat ?b = ?new"
      using delete_range_middle [of ?a p q "bss ! j"] pj qk False True wj by (simp add: concat_update [OF k(1)] del: length_concat)
    obtain ix1 where ix1: "tree_sub j (?S (sub_list ?i1 ?i2 (bss ! j))) (ix\<lparr>li_chunks := (li_chunks ix)[j := ?S ?rest]\<rparr>) = Some ix1"
        "index_blocks ix1 ?b" "li_multibyte ix1 = ?mb" "li_geometry ix1 = li_geometry ix"
      using shrink_chunk [OF b(1) j(1) ij] mb by auto
    have "length (bss ! j) \<le> ?m" using blocks_fit_all [OF fit, of j] j(1) by (simp add: blocks_fit_def)
    then have short: "length ?rest \<le> ?m" using length_delete_range_le [OF ij, of "bss ! j"] by simp
    have doomed: "sums_in (view x) p q = Some (?S (sub_list ?i1 ?i2 (bss ! j)))"
      using sums_in_exact [OF x, of p q] q False sub by simp
    have rest: "sums_sub (?S (bss ! j)) (?S (sub_list ?i1 ?i2 (bss ! j))) = Some (?S ?rest)"
      using sums_of_delete_range [OF ij, of ?mb "bss ! j"] by (simp only: sums_sub_sums)
    have run: "note_delete (view x) p q ix = Some (if length ?rest < cg_min (li_geometry ix)
        then let (ix2, merged) = merge_small j ix1 in if merged then rebuild_tree ix2 else ix2 else ix1)"
      using False q total j(2) k(2) True chunk(1) doomed rest ix1(1,4)
      by (simp add: note_delete_def Let_def mb del: length_concat)
    show ?thesis
    proof (cases "length ?rest < cg_min (li_geometry ix)")
      case True
      have small: "blocks_fit (cg_max (li_geometry ix1)) j ?b"
        using blocks_fit_update [OF blocks_fit_all [OF fit, of j] short] ix1(4) by simp
      have sb: "sums_blocks ix1 ?b" using ix1(2) by (simp add: index_blocks_def)
      obtain bss' where m: "sums_blocks (fst (merge_small j ix1)) bss'" "concat bss' = ?new" "list_all (block_ok ?m) bss'"
          "li_multibyte (fst (merge_small j ix1)) = ?mb" "li_geometry (fst (merge_small j ix1)) = li_geometry ix"
          "\<not> snd (merge_small j ix1) \<Longrightarrow> fst (merge_small j ix1) = ix1 \<and> bss' = ?b"
        using merge_small_blocks [OF sb small] new ix1(3,4) by metis
      show ?thesis
      proof (cases "snd (merge_small j ix1)")
        case merged: True
        then show ?thesis using run True m rebuild_tree_blocks [OF m(1)] g by (auto simp: line_index_ok_def split_beta)
      next
        case kept: False
        then show ?thesis using run True m(2-6) ix1 g by (auto simp: line_index_ok_def split_beta)
      qed
    next
      case large: False
      have "0 < cg_min (li_geometry ix)" using g by (simp add: geometry_ok_def)
      then have "?rest \<noteq> []" using large by auto
      then have "list_all (block_ok ?m) ?b" using list_all_update [OF fit] short by (simp add: block_ok_def)
      then show ?thesis using run large ix1 new g by (auto simp: line_index_ok_def)
    qed
  next
    case two: False
    have less: "j < k"
    proof (rule ccontr)
      assume "\<not> j < k"
      then have "length (concat (take (Suc k) bss)) \<le> length ?a" using two concat_take_mono [of "Suc k" j bss] by simp
      then show False using k(4) pj(1) False by (simp del: length_concat)
    qed
    let ?hd = "take ?i1 (bss ! j)" and ?tl = "drop ?i2 (bss ! k)"
    let ?surv = "filter (\<lambda>bs. bs \<noteq> []) [?hd, ?tl]"
    let ?b = "take j bss @ ?surv @ drop (Suc k) bss"
    let ?ix = "ix\<lparr>li_chunks := map ?S ?b\<rparr>"
    have new: "concat ?b = ?new"
    proof -
      have "take p (text_of x) = ?a @ ?hd" using wj pj by simp
      moreover have "drop q (text_of x) = ?tl @ concat (drop (Suc k) bss)" using wk qk by simp
      moreover have "concat ?surv = ?hd @ ?tl" by simp
      ultimately show ?thesis by (simp add: delete_range_def)
    qed
    have ends: "length ?a + length (bss ! j) \<le> length (text_of x)" "length ?z \<le> length (text_of x)"
      using arg_cong [OF wj, of length] arg_cong [OF wk, of length] by (simp_all del: length_concat)
    have "sub_list p (length ?a + length (bss ! j)) (text_of x) = drop ?i1 (bss ! j)"
      using sub_list_inside [of ?a p "length ?a + length (bss ! j)" "bss ! j"] pj wj by (simp add: sub_list_def del: length_concat)
    then have doomed1: "sums_in (view x) p (length ?a + length (bss ! j)) = Some (?S (drop ?i1 (bss ! j)))"
      using sums_in_exact [OF x, of p "length ?a + length (bss ! j)"] pj ends(1) by simp
    have "sub_list (length ?z) q (text_of x) = take ?i2 (bss ! k)"
      using sub_list_inside [of ?z "length ?z" q "bss ! k"] qk wk by (simp add: sub_list_def del: length_concat)
    then have doomed2: "sums_in (view x) (length ?z) q = Some (?S (take ?i2 (bss ! k)))"
      using sums_in_exact [OF x, of "length ?z" q] qk q by simp
    have rest1: "sums_sub (?S (bss ! j)) (?S (drop ?i1 (bss ! j))) = Some (?S ?hd)"
      by (metis append_take_drop_id sums_of_append sums_sub_sums(1))
    have rest2: "sums_sub (?S (bss ! k)) (?S (take ?i2 (bss ! k))) = Some (?S ?tl)"
      by (metis append_take_drop_id sums_of_append sums_sub_sums(2))
    have surv: "filter (\<lambda>s. 0 < lx_bytes s) [?S ?hd, ?S ?tl] = map ?S ?surv" by simp
    have spl: "splice j k (map ?S ?surv) (li_chunks ix) = Some (map ?S ?b)"
      using index_blocksD(1) [OF b(1)] less k(1) mb by (simp add: splice_def take_map drop_map)
    let ?ix2 = "if length ?surv = 2 then fst (merge_small (j + 1) ?ix) else ?ix"
    let ?ix3 = "if 1 \<le> length ?surv then fst (merge_small j ?ix2) else ?ix2"
    have run: "note_delete (view x) p q ix = Some (rebuild_tree ?ix3)"
    proof -
      have "note_delete (view x) p q ix = do {
          chunks \<leftarrow> splice j k (filter (\<lambda>s. 0 < lx_bytes s) [?S ?hd, ?S ?tl]) (li_chunks ix);
          let survivors = filter (\<lambda>s. 0 < lx_bytes s) [?S ?hd, ?S ?tl];
          let ix1 = ix\<lparr>li_chunks := chunks\<rparr>;
          let ix2 = (if length survivors = 2 then fst (merge_small (j + 1) ix1) else ix1);
          Some (rebuild_tree (if 1 \<le> length survivors then fst (merge_small j ix2) else ix2)) }"
        using False q total j(2) k(2) two chunk doomed1 doomed2 rest1 rest2
        by (simp add: note_delete_def Let_def del: length_concat filter.simps)
      then show ?thesis unfolding surv spl by (simp only: Let_def bind.bind_lunit length_map)
    qed
    have s1: "sums_blocks ?ix ?b" using mb by (simp add: sums_blocks_def)
    have fit1: "list_all (block_ok ?m) ?b"
    proof -
      have "length ?hd \<le> ?m" "length ?tl \<le> ?m"
        using blocks_fit_all [OF fit, of j] j(1) k(1) by (auto simp: blocks_fit_def min_def)
      then have "list_all (block_ok ?m) ?surv" by (simp add: block_ok_def)
      moreover have "list_all (block_ok ?m) (take j bss)" "list_all (block_ok ?m) (drop (Suc k) bss)"
        using fit by (auto simp: list_all_iff dest: in_set_takeD in_set_dropD)
      ultimately show ?thesis by (simp only: list_all_append)
    qed
    have "\<exists>b2. sums_blocks ?ix2 b2 \<and> concat b2 = ?new \<and> list_all (block_ok ?m) b2 \<and> li_multibyte ?ix2 = ?mb \<and> li_geometry ?ix2 = li_geometry ix"
      using merge_small_fit [OF s1, of "j + 1"] s1 fit1 new mb by (cases "length ?surv = 2") auto
    then obtain b2 where b2: "sums_blocks ?ix2 b2" "concat b2 = ?new" "list_all (block_ok ?m) b2" "li_multibyte ?ix2 = ?mb" "li_geometry ?ix2 = li_geometry ix"
      by blast
    then have "\<exists>b3. sums_blocks ?ix3 b3 \<and> concat b3 = ?new \<and> list_all (block_ok ?m) b3 \<and> li_multibyte ?ix3 = ?mb \<and> li_geometry ?ix3 = li_geometry ix"
      using merge_small_fit [OF b2(1), of j] by (cases "1 \<le> length ?surv") auto
    then obtain b3 where b3: "sums_blocks ?ix3 b3" "concat b3 = ?new" "list_all (block_ok ?m) b3" "li_multibyte ?ix3 = ?mb" "li_geometry ?ix3 = li_geometry ix"
      by blast
    then show ?thesis using run rebuild_tree_blocks [OF b3(1)] g by (auto simp: line_index_ok_def)
  qed
  then show ?thesis using False by (simp add: max_absorb2)
qed

text \<open>The checks of verify mode pass.\<close>

lemma check_chunk_ok:
  assumes x: "ok x" and b: "index_blocks ix bss" "concat bss = text_of x" "li_multibyte ix = tv_multibyte (view x)" and k: "k < length bss"
  shows "check_chunk (view x) k ix = Some (Inr ())"
proof -
  let ?a = "concat (take k bss)"
  have whole: "text_of x = ?a @ bss ! k @ concat (drop (Suc k) bss)" using concat_block [OF k] b(2) by simp
  have "sums_in (view x) (length ?a) (length ?a + length (bss ! k)) = Some (sums_of_bytes (li_multibyte ix) (bss ! k))"
    using sums_in_exact [OF x, of "length ?a" "length ?a + length (bss ! k)"] whole b(3)
    by (simp add: sub_list_middle del: length_concat)
  then show ?thesis
    using sums_before_chunk_blocks [OF b(1), of k] chunk_of_block [OF b(1) k] k by (simp add: check_chunk_def del: length_concat)
qed

lemma check_around_ok:
  assumes x: "ok x" and ix: "line_index_ok (tv_multibyte (view x)) (text_of x) ix"
  shows "check_around (view x) p ix = Some (Inr ())"
proof -
  obtain bss where b: "index_blocks ix bss" "concat bss = text_of x" "li_multibyte ix = tv_multibyte (view x)"
    and fit: "list_all (block_ok (cg_max (li_geometry ix))) bss"
    using ix by (auto simp: line_index_ok_def)
  have total: "lx_bytes (li_total ix) = length (text_of x)" using index_blocksD(3) [OF b(1)] b(2) by simp
  have n: "length (li_chunks ix) = length bss" using index_blocksD(1) [OF b(1)] by simp
  have all: "check_chunks (view x) ks ix = Some (Inr ())" if "\<forall>k \<in> set ks. k < length bss" for ks
    using that by (induction ks) (simp_all add: check_chunk_ok [OF x b])
  show ?thesis
  proof (cases "text_of x = []")
    case False
    then have "min p (length (text_of x) - 1) < length (concat bss)" using b(2) by (simp add: min_less_iff_disj)
    then obtain k where k: "k < length bss" "locate_byte (min p (length (text_of x) - 1)) ix = Some (k, sums_of_bytes (li_multibyte ix) (concat (take k bss)))"
      by (rule locate_byte_finds [OF b(1)])
    then have "check_chunks (view x) [k - 1..<min (k + 1) (length bss - 1) + 1] ix = Some (Inr ())" by (intro all) auto
    then show ?thesis using k total byte_len [OF x] n by (auto simp: check_around_def)
  next
    case True
    then have "bss = []" using b(2) fit by (cases bss) (simp_all add: block_ok_def)
    then show ?thesis using True total byte_len [OF x] n by (simp add: check_around_def)
  qed
qed

end

end
