(* ===== verification/Buffer_Markers.thy ===== *)
theory Buffer_Markers
  imports Text_Backend_Spec
begin

text \<open>
  Markers and the intrusive marker chains of the buffer texts: the marker part of
  \<open>src/crates/neovm-core/src/buffer/buffer_text.rs\<close>, \<open>buffer/marker_data.rs\<close>, the struct
  \<open>LispMarker\<close> of \<open>heap_types.rs\<close> and \<open>unchain_dead_markers\<close> of \<open>tagged/gc.rs\<close>.

  A marker is an object of the garbage-collected heap that Lisp code holds and that is linked,
  through a raw pointer in the object itself, into the chain of the text it points into. The
  model keeps this aliasing: one store maps addresses to markers, every text object has a head
  slot, and the operations follow and rewrite the \<open>next_marker\<close> links as the code does. A null
  pointer is \<open>None\<close>; reading an address where no marker is allocated is undefined behaviour in
  the source and a panic here. The pointer loops need not end on an arbitrary store (a link may
  close a cycle), so they are partial functions, and the lemmas show that they return on every
  store that satisfies the invariant.

  The invariant says that the chains are finite, without repetition, pairwise disjoint, and that
  the \<open>chained\<close> bit of a marker summarises its membership. It holds in every store that a
  sequence of allocations, chain operations and garbage collections can reach. The adjustment
  operations keep every marker on a valid position of the edited text.
\<close>

subsection \<open>Markers and the store\<close>

record lisp_marker =
  mk_buffer :: "nat option"
  mk_insertion_type :: bool
  mk_marker_id :: "nat option"
  mk_bytepos :: nat
  mk_charpos :: nat
  mk_last_position_valid :: bool
  mk_next :: "nat option"
  mk_chained :: bool

type_synonym marker_heap = "nat \<Rightarrow> lisp_marker option"

record marker_store =
  ms_heads :: "nat \<Rightarrow> nat option"
  ms_heap :: marker_heap

datatype insertion_type = Before | After

definition marker_data_anchor :: "lisp_marker \<Rightarrow> text_position_anchor" where
  "marker_data_anchor m = anchor_new (mk_charpos m) (mk_bytepos m)"

definition set_marker_data_anchor :: "lisp_marker \<Rightarrow> text_position_anchor \<Rightarrow> lisp_marker" where
  "set_marker_data_anchor m a = m\<lparr>mk_bytepos := ta_byte a, mk_charpos := ta_char a\<rparr>"

definition apply_marker_data_delta :: "lisp_marker \<Rightarrow> text_extent_delta \<Rightarrow> lisp_marker option" where
  "apply_marker_data_delta m d = do {
     a \<leftarrow> apply_to_anchor d (marker_data_anchor m);
     Some (set_marker_data_anchor m a)
   }"

definition positioned_marker_data ::
    "nat \<Rightarrow> nat \<Rightarrow> text_position_anchor \<Rightarrow> insertion_type \<Rightarrow> lisp_marker" where
  "positioned_marker_data buf mid a it =
     set_marker_data_anchor
       \<lparr>mk_buffer = Some buf, mk_insertion_type = (it = After), mk_marker_id = Some mid, mk_bytepos = 0,
        mk_charpos = 0, mk_last_position_valid = True, mk_next = None, mk_chained = False\<rparr> a"

text \<open>A slot that holds a chain pointer: the head of a text, or the link of a marker.\<close>

datatype marker_slot = HeadSlot nat | NextSlot nat

fun read_slot :: "marker_slot \<Rightarrow> marker_store \<Rightarrow> nat option option" where
  "read_slot (HeadSlot t) s = Some (ms_heads s t)"
| "read_slot (NextSlot p) s = map_option mk_next (ms_heap s p)"

fun write_slot :: "marker_slot \<Rightarrow> nat option \<Rightarrow> marker_store \<Rightarrow> marker_store option" where
  "write_slot (HeadSlot t) q s = Some (s\<lparr>ms_heads := (ms_heads s)(t := q)\<rparr>)"
| "write_slot (NextSlot p) q s = do {
     m \<leftarrow> ms_heap s p;
     Some (s\<lparr>ms_heap := (ms_heap s)(p \<mapsto> m\<lparr>mk_next := q\<rparr>)\<rparr>)
   }"

subsection \<open>Linking\<close>

definition chain_splice_at_head :: "nat \<Rightarrow> nat \<Rightarrow> marker_store \<Rightarrow> marker_store option" where
  "chain_splice_at_head t p s = do {
     m \<leftarrow> ms_heap s p;
     panic_unless (mk_next m = None);
     panic_unless (\<not> mk_chained m);
     let m = m\<lparr>mk_next := ms_heads s t, mk_chained := True\<rparr>;
     Some (s\<lparr>ms_heads := (ms_heads s)(t \<mapsto> p), ms_heap := (ms_heap s)(p \<mapsto> m)\<rparr>)
   }"

definition register_marker ::
    "nat \<Rightarrow> nat \<Rightarrow> nat \<Rightarrow> nat \<Rightarrow> text_position_anchor \<Rightarrow> insertion_type \<Rightarrow> marker_store \<Rightarrow> marker_store option" where
  "register_marker t p buf mid a it s = do {
     m \<leftarrow> ms_heap s p;
     let m = m\<lparr>mk_buffer := Some buf, mk_marker_id := Some mid\<rparr>;
     let m = (set_marker_data_anchor m a)\<lparr>mk_last_position_valid := True, mk_insertion_type := (it = After)\<rparr>;
     chain_splice_at_head t p (s\<lparr>ms_heap := (ms_heap s)(p \<mapsto> m)\<rparr>)
   }"

text \<open>
  The loop of \<open>chain_unlink\<close> and \<open>remove_marker\<close>: walk the slots, splice the first selected marker
  out, reset it and return. The loop of \<open>remove_markers_for_buffers\<close> and \<open>unchain_dead_markers\<close>
  goes on from the same slot instead.
\<close>

partial_function (option) unchain_first ::
    "(nat \<Rightarrow> lisp_marker \<Rightarrow> bool) \<Rightarrow> (lisp_marker \<Rightarrow> lisp_marker) \<Rightarrow> marker_slot \<Rightarrow> marker_store \<Rightarrow> marker_store option" where
  "unchain_first sel reset slot s =
     Option.bind (read_slot slot s) (\<lambda>cur. case cur of
       None \<Rightarrow> Some s
     | Some p \<Rightarrow> Option.bind (ms_heap s p) (\<lambda>m.
         if sel p m
         then map_option (\<lambda>s. s\<lparr>ms_heap := (ms_heap s)(p \<mapsto> reset m)\<rparr>) (write_slot slot (mk_next m) s)
         else unchain_first sel reset (NextSlot p) s))"

partial_function (option) unchain_all ::
    "(nat \<Rightarrow> lisp_marker \<Rightarrow> bool) \<Rightarrow> (lisp_marker \<Rightarrow> lisp_marker) \<Rightarrow> marker_slot \<Rightarrow> marker_store \<Rightarrow> marker_store option" where
  "unchain_all sel reset slot s =
     Option.bind (read_slot slot s) (\<lambda>cur. case cur of
       None \<Rightarrow> Some s
     | Some p \<Rightarrow> Option.bind (ms_heap s p) (\<lambda>m.
         if sel p m
         then Option.bind (write_slot slot (mk_next m) s) (\<lambda>s.
                unchain_all sel reset slot (s\<lparr>ms_heap := (ms_heap s)(p \<mapsto> reset m)\<rparr>))
         else unchain_all sel reset (NextSlot p) s))"

definition unchained :: "lisp_marker \<Rightarrow> lisp_marker" where
  "unchained m = m\<lparr>mk_next := None, mk_chained := False\<rparr>"

definition detached :: "lisp_marker \<Rightarrow> lisp_marker" where
  "detached m = m\<lparr>mk_next := None, mk_chained := False, mk_buffer := None\<rparr>"

definition chain_unlink :: "nat \<Rightarrow> nat \<Rightarrow> marker_store \<Rightarrow> marker_store option" where
  "chain_unlink t marker s = unchain_first (\<lambda>p m. p = marker) unchained (HeadSlot t) s"

definition remove_marker :: "nat \<Rightarrow> nat \<Rightarrow> marker_store \<Rightarrow> marker_store option" where
  "remove_marker t mid s = unchain_first (\<lambda>p m. mk_marker_id m = Some mid) detached (HeadSlot t) s"

definition belongs_to_killed :: "nat set \<Rightarrow> lisp_marker \<Rightarrow> bool" where
  "belongs_to_killed killed m \<longleftrightarrow> (case mk_buffer m of Some b \<Rightarrow> b \<in> killed | None \<Rightarrow> False)"

definition remove_markers_for_buffers :: "nat \<Rightarrow> nat set \<Rightarrow> marker_store \<Rightarrow> marker_store option" where
  "remove_markers_for_buffers t killed s =
     unchain_all (\<lambda>p m. belongs_to_killed killed m) detached (HeadSlot t) s"

text \<open>
  The collector walks every installed head slot and splices the dead markers out. \<open>live\<close> stands
  for the test on the address range of the dumped image and on the mark bits of the object header.
\<close>

fun unchain_dead_markers :: "(nat \<Rightarrow> bool) \<Rightarrow> nat list \<Rightarrow> marker_store \<Rightarrow> marker_store option" where
  "unchain_dead_markers live [] s = Some s"
| "unchain_dead_markers live (t # ts) s = do {
     s \<leftarrow> unchain_all (\<lambda>p m. \<not> live p) unchained (HeadSlot t) s;
     unchain_dead_markers live ts s
   }"

subsection \<open>Searching\<close>

partial_function (option) chain_find :: "(lisp_marker \<Rightarrow> bool) \<Rightarrow> nat option \<Rightarrow> marker_heap \<Rightarrow> nat option option" where
  "chain_find sel cur h = (case cur of
       None \<Rightarrow> Some None
     | Some p \<Rightarrow> Option.bind (h p) (\<lambda>m. if sel m then Some (Some p) else chain_find sel (mk_next m) h))"

definition chain_find_by_id :: "nat \<Rightarrow> nat \<Rightarrow> marker_store \<Rightarrow> nat option option" where
  "chain_find_by_id t mid s = chain_find (\<lambda>m. mk_marker_id m = Some mid) (ms_heads s t) (ms_heap s)"

definition has_marker :: "nat \<Rightarrow> nat \<Rightarrow> marker_store \<Rightarrow> bool option" where
  "has_marker t mid s = do { r \<leftarrow> chain_find_by_id t mid s; Some (r \<noteq> None) }"

definition marker_chain_anchor_lookup ::
    "nat \<Rightarrow> nat \<Rightarrow> marker_store \<Rightarrow> (text_position_anchor \<times> insertion_type) option option" where
  "marker_chain_anchor_lookup t mid s = do {
     r \<leftarrow> chain_find_by_id t mid s;
     case r of
       None \<Rightarrow> Some None
     | Some p \<Rightarrow> do {
         m \<leftarrow> ms_heap s p;
         Some (Some (marker_data_anchor m, if mk_insertion_type m then After else Before))
       }
   }"

definition move_marker_to_anchor :: "nat \<Rightarrow> nat \<Rightarrow> text_position_anchor \<Rightarrow> marker_store \<Rightarrow> marker_store option" where
  "move_marker_to_anchor t mid a s = do {
     r \<leftarrow> chain_find_by_id t mid s;
     case r of
       None \<Rightarrow> Some s
     | Some p \<Rightarrow> do {
         m \<leftarrow> ms_heap s p;
         Some (s\<lparr>ms_heap := (ms_heap s)(p \<mapsto> set_marker_data_anchor m a)\<rparr>)
       }
   }"

definition move_marker_ptr_to_anchor :: "nat \<Rightarrow> text_position_anchor \<Rightarrow> marker_store \<Rightarrow> marker_store option" where
  "move_marker_ptr_to_anchor p a s = do {
     m \<leftarrow> ms_heap s p;
     Some (s\<lparr>ms_heap := (ms_heap s)(p \<mapsto> (set_marker_data_anchor m a)\<lparr>mk_last_position_valid := True\<rparr>)\<rparr>)
   }"

subsection \<open>Adjusting the markers of a chain\<close>

partial_function (option) chain_walk_mut ::
    "(lisp_marker \<Rightarrow> lisp_marker option) \<Rightarrow> nat option \<Rightarrow> marker_heap \<Rightarrow> marker_heap option" where
  "chain_walk_mut f cur h = (case cur of
       None \<Rightarrow> Some h
     | Some p \<Rightarrow> Option.bind (h p) (\<lambda>m. Option.bind (f m) (\<lambda>m.
         chain_walk_mut f (mk_next m) (h(p \<mapsto> m)))))"

definition chain_update :: "(lisp_marker \<Rightarrow> lisp_marker option) \<Rightarrow> nat \<Rightarrow> marker_store \<Rightarrow> marker_store option" where
  "chain_update f t s = do {
     h \<leftarrow> chain_walk_mut f (ms_heads s t) (ms_heap s);
     Some (s\<lparr>ms_heap := h\<rparr>)
   }"

definition retarget_marker :: "nat \<Rightarrow> nat \<Rightarrow> lisp_marker \<Rightarrow> lisp_marker option" where
  "retarget_marker from to m = Some (if mk_buffer m = Some from then m\<lparr>mk_buffer := Some to\<rparr> else m)"

definition retarget_markers_for_buffer_swap :: "nat \<Rightarrow> nat \<Rightarrow> nat \<Rightarrow> marker_store \<Rightarrow> marker_store option" where
  "retarget_markers_for_buffer_swap t from to s = chain_update (retarget_marker from to) t s"

definition marker_after_insert :: "emacs_byte_pos \<Rightarrow> text_extent \<Rightarrow> lisp_marker \<Rightarrow> lisp_marker option" where
  "marker_after_insert pos e m =
     (let insert_delta = extent_delta_insertion e
      in if pos < mk_bytepos m then apply_marker_data_delta m insert_delta
         else if mk_bytepos m = pos \<and> mk_insertion_type m then apply_marker_data_delta m insert_delta
         else Some m)"

definition adjust_markers_for_insert_extent :: "nat \<Rightarrow> emacs_byte_pos \<Rightarrow> text_extent \<Rightarrow> marker_store \<Rightarrow> marker_store option" where
  "adjust_markers_for_insert_extent t pos e s =
     (if te_bytes e = 0 then Some s else chain_update (marker_after_insert pos e) t s)"

definition marker_after_insert_strict :: "emacs_byte_pos \<Rightarrow> text_extent \<Rightarrow> lisp_marker \<Rightarrow> lisp_marker option" where
  "marker_after_insert_strict pos e m =
     (if pos < mk_bytepos m then apply_marker_data_delta m (extent_delta_insertion e) else Some m)"

definition adjust_markers_for_insert_extent_strict_after ::
    "nat \<Rightarrow> emacs_byte_pos \<Rightarrow> text_extent \<Rightarrow> marker_store \<Rightarrow> marker_store option" where
  "adjust_markers_for_insert_extent_strict_after t pos e s =
     (if te_bytes e = 0 then Some s else chain_update (marker_after_insert_strict pos e) t s)"

definition marker_after_delete :: "text_edit_range \<Rightarrow> lisp_marker \<Rightarrow> lisp_marker option" where
  "marker_after_delete r m =
     (if er_byte_end r \<le> mk_bytepos m then apply_marker_data_delta m (extent_delta_deletion (edit_range_extent r))
      else if er_byte_start r < mk_bytepos m then Some (set_marker_data_anchor m (edit_range_start_anchor r))
      else Some m)"

definition adjust_markers_for_delete_range :: "nat \<Rightarrow> text_edit_range \<Rightarrow> marker_store \<Rightarrow> marker_store option" where
  "adjust_markers_for_delete_range t r s =
     (if edit_range_is_empty r then Some s else chain_update (marker_after_delete r) t s)"

definition marker_after_replace :: "text_edit_range \<Rightarrow> text_extent \<Rightarrow> lisp_marker \<Rightarrow> lisp_marker option" where
  "marker_after_replace r e m =
     (if er_byte_end r \<le> mk_bytepos m
      then apply_marker_data_delta m (extent_delta_replacement (edit_range_extent r) e)
      else if er_byte_start r < mk_bytepos m then Some (set_marker_data_anchor m (edit_range_start_anchor r))
      else Some m)"

definition adjust_markers_for_replace_range ::
    "nat \<Rightarrow> text_edit_range \<Rightarrow> text_extent \<Rightarrow> marker_store \<Rightarrow> marker_store option" where
  "adjust_markers_for_replace_range t r e s =
     (if edit_range_is_empty r then adjust_markers_for_insert_extent t (er_byte_start r) e s
      else chain_update (marker_after_replace r e) t s)"

definition marker_at_position_advanced :: "emacs_byte_pos \<Rightarrow> text_extent \<Rightarrow> lisp_marker \<Rightarrow> lisp_marker option" where
  "marker_at_position_advanced pos e m =
     (if mk_bytepos m = pos then apply_marker_data_delta m (extent_delta_insertion e) else Some m)"

definition advance_markers_at_position :: "nat \<Rightarrow> emacs_byte_pos \<Rightarrow> text_extent \<Rightarrow> marker_store \<Rightarrow> marker_store option" where
  "advance_markers_at_position t pos e s =
     (if te_bytes e = 0 then Some s else chain_update (marker_at_position_advanced pos e) t s)"

text \<open>
  The undo entries for the markers in a range that is about to be deleted: each marker with the
  distance it will have to move back.
\<close>

partial_function (option) delete_adjustments_loop ::
    "int \<Rightarrow> int \<Rightarrow> nat option \<Rightarrow> marker_heap \<Rightarrow> (nat \<times> int) list \<Rightarrow> (nat \<times> int) list option" where
  "delete_adjustments_loop from1 to1 cur h acc = (case cur of
       None \<Rightarrow> Some acc
     | Some p \<Rightarrow> Option.bind (h p) (\<lambda>m.
         let charpos1 = char_pos0_to_lisp (mk_charpos m);
             target = (if mk_insertion_type m then to1 else from1);
             adjustment = target - charpos1
         in delete_adjustments_loop from1 to1 (mk_next m) h
              (if from1 \<le> charpos1 \<and> charpos1 \<le> to1 \<and> adjustment \<noteq> 0 then acc @ [(p, adjustment)] else acc)))"

definition marker_adjustments_for_delete :: "nat \<Rightarrow> text_edit_range \<Rightarrow> marker_store \<Rightarrow> (nat \<times> int) list option" where
  "marker_adjustments_for_delete t r s =
     delete_adjustments_loop (char_pos0_to_lisp (er_char_start r)) (char_pos0_to_lisp (er_char_end r))
       (ms_heads s t) (ms_heap s) []"

subsection \<open>Chains\<close>

fun chain :: "marker_heap \<Rightarrow> nat option \<Rightarrow> nat list \<Rightarrow> bool" where
  "chain h q [] \<longleftrightarrow> q = None"
| "chain h q (p # ps) \<longleftrightarrow> q = Some p \<and> (case h p of None \<Rightarrow> False | Some m \<Rightarrow> chain h (mk_next m) ps)"

lemma chain_Cons: "chain h q (p # ps) \<longleftrightarrow> q = Some p \<and> (\<exists>m. h p = Some m \<and> chain h (mk_next m) ps)"
  by (auto split: option.splits)

declare chain.simps(2) [simp del]

lemma chain_None [simp]: "chain h None ps \<longleftrightarrow> ps = []"
  by (cases ps) (auto simp: chain_Cons)

lemma chain_Some: "chain h (Some p) ps \<Longrightarrow> \<exists>m qs. ps = p # qs \<and> h p = Some m \<and> chain h (mk_next m) qs"
  by (cases ps) (auto simp: chain_Cons)

lemma chain_cong:
  assumes "\<And>p. p \<in> set ps \<Longrightarrow> map_option mk_next (h' p) = map_option mk_next (h p)"
  shows "chain h' q ps = chain h q ps"
  using assms
proof (induction ps arbitrary: q)
  case (Cons p ps)
  have "map_option mk_next (h' p) = map_option mk_next (h p)" using Cons.prems by simp
  then show ?case using Cons.IH Cons.prems
    by (cases "h p"; cases "h' p") (auto simp: chain_Cons)
qed simp

lemma chain_update_outside: "p \<notin> set ps \<Longrightarrow> chain (h(p := x)) q ps = chain h q ps"
  by (rule chain_cong) auto

lemma chain_alloc: "chain h q ps \<Longrightarrow> p \<in> set ps \<Longrightarrow> \<exists>m. h p = Some m"
  by (induction ps arbitrary: q) (auto simp: chain_Cons)

lemma chain_unique: "chain h q ps \<Longrightarrow> chain h q qs \<Longrightarrow> ps = qs"
proof (induction ps arbitrary: q qs)
  case (Cons p ps)
  then show ?case using chain_Some [of h p qs] by (auto simp: chain_Cons)
qed simp

subsection \<open>The loops return\<close>

lemma chain_find_chain:
  assumes "chain h q ps"
  shows "chain_find sel q h = Some (List.find (\<lambda>p. sel (the (h p))) ps)"
  using assms
proof (induction ps arbitrary: q)
  case Nil
  then show ?case by (simp add: chain_find.simps)
next
  case (Cons p ps)
  then show ?case by (subst chain_find.simps) (auto simp: chain_Cons)
qed

lemma chain_walk_mut_chain:
  assumes "chain h q ps" "distinct ps"
    "\<And>p m. p \<in> set ps \<Longrightarrow> h p = Some m \<Longrightarrow> \<exists>m'. f m = Some m' \<and> mk_next m' = mk_next m"
  shows "chain_walk_mut f q h = Some (\<lambda>p. if p \<in> set ps then Option.bind (h p) f else h p)"
  using assms
proof (induction ps arbitrary: q h)
  case Nil
  then show ?case by (simp add: chain_walk_mut.simps)
next
  case (Cons p ps)
  obtain m where m: "q = Some p" "h p = Some m" "chain h (mk_next m) ps" using Cons.prems(1) by (auto simp: chain_Cons)
  obtain m' where m': "f m = Some m'" "mk_next m' = mk_next m" using Cons.prems(3) [of p m] m by auto
  have "chain_walk_mut f (mk_next m') (h(p \<mapsto> m'))
      = Some (\<lambda>x. if x \<in> set ps then Option.bind ((h(p \<mapsto> m')) x) f else (h(p \<mapsto> m')) x)"
  proof (rule Cons.IH)
    show "chain (h(p \<mapsto> m')) (mk_next m') ps" using Cons.prems(2) m(3) m'(2) by (simp add: chain_update_outside)
  qed (use Cons.prems(2,3) in \<open>auto split: if_splits\<close>)
  then show ?case
    using m m' Cons.prems(2) by (subst chain_walk_mut.simps) (auto simp: fun_eq_iff)
qed

text \<open>
  Splicing markers out. \<open>spliced R s s'\<close> says what the loops leave alone: every marker outside
  \<open>R\<close> keeps all of its data, up to its link; those in \<open>R\<close> are reset.
\<close>

definition spliced :: "(lisp_marker \<Rightarrow> lisp_marker) \<Rightarrow> nat set \<Rightarrow> marker_heap \<Rightarrow> marker_heap \<Rightarrow> bool" where
  "spliced reset R h h' \<longleftrightarrow>
     (\<forall>p. if p \<in> R then h' p = map_option reset (h p)
          else map_option (mk_next_update (\<lambda>_. None)) (h' p) = map_option (mk_next_update (\<lambda>_. None)) (h p))"

primrec without_first :: "('a \<Rightarrow> bool) \<Rightarrow> 'a list \<Rightarrow> 'a list" where
  "without_first P [] = []"
| "without_first P (x # xs) = (if P x then xs else x # without_first P xs)"

lemma set_without_first: "set (without_first P xs) \<subseteq> set xs"
  by (induction xs) auto

lemma distinct_without_first: "distinct xs \<Longrightarrow> distinct (without_first P xs)"
  using set_without_first by (induction xs) fastforce+

lemma without_first_eq: "distinct xs \<Longrightarrow> without_first (\<lambda>p. p = x) xs = filter (\<lambda>p. p \<noteq> x) xs"
  by (induction xs) (auto intro!: filter_True [symmetric])

text \<open>A slot whose chain is \<open>ps\<close>, itself not a link of that chain.\<close>

definition slot_chain :: "marker_slot \<Rightarrow> nat list \<Rightarrow> marker_store \<Rightarrow> bool" where
  "slot_chain slot ps s \<longleftrightarrow> distinct ps \<and> (\<forall>p. slot = NextSlot p \<longrightarrow> p \<notin> set ps)
     \<and> (\<exists>q. read_slot slot s = Some q \<and> chain (ms_heap s) q ps)"

lemma slot_chain_Nil: "slot_chain slot [] s \<longleftrightarrow> read_slot slot s = Some None"
  by (auto simp: slot_chain_def)

lemma slot_chain_Cons:
  "slot_chain slot (p # ps) s \<longleftrightarrow> read_slot slot s = Some (Some p) \<and> slot \<noteq> NextSlot p \<and> p \<notin> set ps
     \<and> (\<forall>p. slot = NextSlot p \<longrightarrow> p \<notin> set ps) \<and> slot_chain (NextSlot p) ps s \<and> (\<exists>m. ms_heap s p = Some m)"
  by (auto simp: slot_chain_def chain_Cons)

text \<open>Splicing the first marker of a slot out.\<close>

lemma splice_out:
  assumes "slot_chain slot (p # ps) s" "ms_heap s p = Some m"
  obtains s' where "write_slot slot (mk_next m) s = Some s'"
    "slot_chain slot ps (s'\<lparr>ms_heap := (ms_heap s')(p := Some x)\<rparr>)"
    "\<And>u. slot \<noteq> HeadSlot u \<Longrightarrow> ms_heads s' u = ms_heads s u"
    "\<And>r. slot \<noteq> NextSlot r \<Longrightarrow> ms_heap s' r = ms_heap s r"
    "\<And>r. map_option (mk_next_update (\<lambda>_. None)) (ms_heap s' r) = map_option (mk_next_update (\<lambda>_. None)) (ms_heap s r)"
proof (cases slot)
  case (HeadSlot t)
  have "chain ((ms_heap s)(p := Some x)) (mk_next m) ps"
    using assms HeadSlot by (auto simp: slot_chain_def chain_Cons chain_update_outside)
  then show thesis
    using that [of "s\<lparr>ms_heads := (ms_heads s)(t := mk_next m)\<rparr>"] assms HeadSlot
    by (auto simp: slot_chain_def chain_Cons)
next
  case (NextSlot r)
  obtain k where k: "ms_heap s r = Some k" using assms(1) NextSlot by (auto simp: slot_chain_def)
  have "chain ((ms_heap s)(r \<mapsto> k\<lparr>mk_next := mk_next m\<rparr>, p := Some x)) (mk_next m) ps"
    using assms NextSlot by (auto simp: slot_chain_def chain_Cons chain_update_outside)
  then show thesis
    using that [of "s\<lparr>ms_heap := (ms_heap s)(r \<mapsto> k\<lparr>mk_next := mk_next m\<rparr>)\<rparr>"] assms NextSlot k
    by (auto simp: slot_chain_def)
qed

lemma read_slot_frame:
  assumes "\<And>u. slot = HeadSlot u \<Longrightarrow> ms_heads s' u = ms_heads s u"
    "\<And>r. slot = NextSlot r \<Longrightarrow> ms_heap s' r = ms_heap s r"
  shows "read_slot slot s' = read_slot slot s"
  using assms by (cases slot) auto

text \<open>What a splicing loop on the chain \<open>ps\<close> of a slot guarantees: the new chain is \<open>qs\<close>.\<close>

definition unchains :: "(lisp_marker \<Rightarrow> lisp_marker) \<Rightarrow> marker_slot \<Rightarrow> nat list \<Rightarrow> nat list \<Rightarrow> marker_store \<Rightarrow> marker_store \<Rightarrow> bool" where
  "unchains reset slot ps qs s s' \<longleftrightarrow> slot_chain slot qs s' \<and> set qs \<subseteq> set ps
     \<and> (\<forall>u. slot \<noteq> HeadSlot u \<longrightarrow> ms_heads s' u = ms_heads s u)
     \<and> (\<forall>r. r \<notin> set ps \<longrightarrow> slot \<noteq> NextSlot r \<longrightarrow> ms_heap s' r = ms_heap s r)
     \<and> spliced reset (set ps - set qs) (ms_heap s) (ms_heap s')"

lemma unchains_keep:
  assumes "slot_chain slot (p # ps) s" "unchains reset (NextSlot p) ps qs s s'"
  shows "unchains reset slot (p # ps) (p # qs) s s'"
proof -
  have eq: "read_slot slot s' = read_slot slot s"
    using assms by (intro read_slot_frame) (auto simp: unchains_def slot_chain_Cons)
  have "spliced reset (set (p # ps) - set (p # qs)) (ms_heap s) (ms_heap s')"
  proof -
    have "set (p # ps) - set (p # qs) = set ps - set qs"
      using assms by (auto simp: slot_chain_Cons unchains_def)
    then show ?thesis using assms(2) by (simp add: unchains_def)
  qed
  moreover have "\<exists>m. ms_heap s' p = Some m" using assms(2) by (auto simp: unchains_def slot_chain_def)
  ultimately show ?thesis
    using assms eq unfolding unchains_def by (auto simp: slot_chain_Cons)
qed

lemma unchains_refl: "slot_chain slot ps s \<Longrightarrow> unchains reset slot ps ps s s"
  by (auto simp: unchains_def spliced_def)

lemma unchains_splice:
  assumes "slot_chain slot (p # ps) s" "ms_heap s p = Some m"
  obtains s' where "write_slot slot (mk_next m) s = Some s'"
    "unchains reset slot (p # ps) ps s (s'\<lparr>ms_heap := (ms_heap s')(p \<mapsto> reset m)\<rparr>)"
    "\<And>r. r \<in> set ps \<Longrightarrow> ms_heap (s'\<lparr>ms_heap := (ms_heap s')(p \<mapsto> reset m)\<rparr>) r = ms_heap s r"
proof -
  obtain s' where s': "write_slot slot (mk_next m) s = Some s'"
    "slot_chain slot ps (s'\<lparr>ms_heap := (ms_heap s')(p := Some (reset m))\<rparr>)"
    "\<And>u. slot \<noteq> HeadSlot u \<Longrightarrow> ms_heads s' u = ms_heads s u"
    "\<And>r. slot \<noteq> NextSlot r \<Longrightarrow> ms_heap s' r = ms_heap s r"
    "\<And>r. map_option (mk_next_update (\<lambda>_. None)) (ms_heap s' r) = map_option (mk_next_update (\<lambda>_. None)) (ms_heap s r)"
    by (rule splice_out [OF assms, where x = "reset m"]) blast
  have "p \<notin> set ps" using assms(1) by (simp add: slot_chain_Cons)
  then have "set (p # ps) - set ps = {p}" by auto
  then have "unchains reset slot (p # ps) ps s (s'\<lparr>ms_heap := (ms_heap s')(p \<mapsto> reset m)\<rparr>)"
    using s' assms(2) by (auto simp: unchains_def spliced_def)
  moreover have "ms_heap (s'\<lparr>ms_heap := (ms_heap s')(p \<mapsto> reset m)\<rparr>) r = ms_heap s r" if "r \<in> set ps" for r
    using that s'(4) assms(1) by (auto simp: slot_chain_Cons)
  ultimately show thesis by (rule that [OF s'(1)])
qed

lemma unchain_first_chain:
  assumes "slot_chain slot ps s"
  shows "\<exists>s'. unchain_first sel reset slot s = Some s'
    \<and> unchains reset slot ps (without_first (\<lambda>p. sel p (the (ms_heap s p))) ps) s s'"
  using assms
proof (induction ps arbitrary: slot)
  case Nil
  then show ?case using unchains_refl [OF Nil] by (subst unchain_first.simps) (auto simp: slot_chain_Nil)
next
  case (Cons p ps)
  obtain m where m: "ms_heap s p = Some m" "read_slot slot s = Some (Some p)" "slot_chain (NextSlot p) ps s"
    using Cons.prems by (auto simp: slot_chain_Cons)
  show ?case
  proof (cases "sel p m")
    case True
    obtain s' where "write_slot slot (mk_next m) s = Some s'"
      "unchains reset slot (p # ps) ps s (s'\<lparr>ms_heap := (ms_heap s')(p \<mapsto> reset m)\<rparr>)"
      by (rule unchains_splice [OF Cons.prems m(1)])
    then show ?thesis using True m by (subst unchain_first.simps) auto
  next
    case False
    then show ?thesis using Cons.IH [OF m(3)] unchains_keep [OF Cons.prems] m
      by (subst unchain_first.simps) auto
  qed
qed

lemma unchains_trans:
  assumes "unchains reset slot (p # ps) ps s s1" "unchains reset slot ps qs s1 s'" "p \<notin> set ps"
    "\<And>r. r \<in> set ps \<Longrightarrow> ms_heap s1 r = ms_heap s r" "slot \<noteq> NextSlot p"
  shows "unchains reset slot (p # ps) qs s s'"
proof -
  have "ms_heap s' p = ms_heap s1 p" using assms(2,3,5) by (auto simp: unchains_def)
  then have "spliced reset (set (p # ps) - set qs) (ms_heap s) (ms_heap s')"
    using assms by (auto simp: unchains_def spliced_def)
  then show ?thesis using assms unfolding unchains_def by auto
qed

lemma unchain_all_chain:
  assumes "slot_chain slot ps s"
  shows "\<exists>s'. unchain_all sel reset slot s = Some s'
    \<and> unchains reset slot ps (filter (\<lambda>p. \<not> sel p (the (ms_heap s p))) ps) s s'"
  using assms
proof (induction ps arbitrary: slot s)
  case Nil
  then show ?case using unchains_refl [OF Nil] by (subst unchain_all.simps) (auto simp: slot_chain_Nil)
next
  case (Cons p ps)
  obtain m where m: "ms_heap s p = Some m" "read_slot slot s = Some (Some p)" "slot_chain (NextSlot p) ps s"
      "slot \<noteq> NextSlot p" "p \<notin> set ps"
    using Cons.prems by (auto simp: slot_chain_Cons)
  show ?case
  proof (cases "sel p m")
    case True
    obtain s' where s': "write_slot slot (mk_next m) s = Some s'"
      "unchains reset slot (p # ps) ps s (s'\<lparr>ms_heap := (ms_heap s')(p \<mapsto> reset m)\<rparr>)" (is "unchains _ _ _ _ _ ?s1")
      "\<And>r. r \<in> set ps \<Longrightarrow> ms_heap (s'\<lparr>ms_heap := (ms_heap s')(p \<mapsto> reset m)\<rparr>) r = ms_heap s r"
      by (rule unchains_splice [OF Cons.prems m(1), where reset = reset]) blast
    have f: "filter (\<lambda>p. \<not> sel p (the (ms_heap ?s1 p))) ps = filter (\<lambda>p. \<not> sel p (the (ms_heap s p))) ps"
      by (rule filter_cong [OF refl]) (simp only: s'(3))
    have "slot_chain slot ps ?s1" using s'(2) by (simp add: unchains_def)
    then obtain s2 where "unchain_all sel reset slot ?s1 = Some s2"
      "unchains reset slot ps (filter (\<lambda>p. \<not> sel p (the (ms_heap s p))) ps) ?s1 s2"
      using Cons.IH [of slot ?s1] unfolding f by blast
    then show ?thesis
      using True m s'(1) unchains_trans [OF s'(2) _ m(5) s'(3) m(4)] by (subst unchain_all.simps) auto
  next
    case False
    then show ?thesis using Cons.IH [OF m(3)] unchains_keep [OF Cons.prems] m
      by (subst unchain_all.simps) auto
  qed
qed

subsection \<open>The invariant of the store\<close>

text \<open>\<open>cs t\<close> is the list of markers on the chain of text \<open>t\<close>.\<close>

definition store_inv :: "(nat \<Rightarrow> nat list) \<Rightarrow> marker_store \<Rightarrow> bool" where
  "store_inv cs s \<longleftrightarrow>
     (\<forall>t. distinct (cs t) \<and> chain (ms_heap s) (ms_heads s t) (cs t))
     \<and> (\<forall>t u. t \<noteq> u \<longrightarrow> set (cs t) \<inter> set (cs u) = {})
     \<and> (\<forall>p m. ms_heap s p = Some m \<longrightarrow>
          (mk_chained m \<longleftrightarrow> (\<exists>t. p \<in> set (cs t))) \<and> (\<not> mk_chained m \<longrightarrow> mk_next m = None))"

lemma store_invD:
  assumes "store_inv cs s"
  shows "distinct (cs t)" "chain (ms_heap s) (ms_heads s t) (cs t)" "slot_chain (HeadSlot t) (cs t) s"
    "p \<in> set (cs t) \<Longrightarrow> p \<in> set (cs u) \<Longrightarrow> t = u"
    "ms_heap s p = Some m \<Longrightarrow> mk_chained m \<longleftrightarrow> (\<exists>t. p \<in> set (cs t))"
    "ms_heap s p = Some m \<Longrightarrow> \<not> mk_chained m \<Longrightarrow> mk_next m = None"
  using assms by (auto simp: store_inv_def slot_chain_def)

lemma store_invI:
  assumes "\<And>t. distinct (cs t)" "\<And>t. chain (ms_heap s) (ms_heads s t) (cs t)"
    "\<And>t u p. p \<in> set (cs t) \<Longrightarrow> p \<in> set (cs u) \<Longrightarrow> t = u"
    "\<And>p m. ms_heap s p = Some m \<Longrightarrow> mk_chained m \<longleftrightarrow> (\<exists>t. p \<in> set (cs t))"
    "\<And>p m. ms_heap s p = Some m \<Longrightarrow> \<not> mk_chained m \<Longrightarrow> mk_next m = None"
  shows "store_inv cs s"
  using assms unfolding store_inv_def by blast

text \<open>Splicing markers out of one chain.\<close>

lemma spliced_keeps:
  assumes "spliced reset R h h'" "p \<notin> R" "h' p = Some m'"
  obtains m where "h p = Some m" "mk_chained m' = mk_chained m" "mk_bytepos m' = mk_bytepos m" "mk_charpos m' = mk_charpos m"
proof -
  have "map_option (mk_next_update (\<lambda>_. None)) (h' p) = map_option (mk_next_update (\<lambda>_. None)) (h p)"
    using assms(1,2) by (auto simp: spliced_def)
  then obtain m where "h p = Some m" "m\<lparr>mk_next := None\<rparr> = m'\<lparr>mk_next := None\<rparr>"
    using assms(3) by (cases "h p") auto
  then show thesis using that [of m] by (cases m; cases m') simp
qed

lemma unchains_inv:
  assumes inv: "store_inv cs s" and un: "unchains reset (HeadSlot t) (cs t) qs s s'"
    and reset: "\<And>m. \<not> mk_chained (reset m) \<and> mk_next (reset m) = None"
  shows "store_inv (cs(t := qs)) s'"
proof -
  note d = store_invD [OF inv]
  have qs: "distinct qs" "chain (ms_heap s') (ms_heads s' t) qs" "set qs \<subseteq> set (cs t)"
    and heads: "u \<noteq> t \<Longrightarrow> ms_heads s' u = ms_heads s u"
    and frame: "p \<notin> set (cs t) \<Longrightarrow> ms_heap s' p = ms_heap s p"
    and spl: "spliced reset (set (cs t) - set qs) (ms_heap s) (ms_heap s')" for u p
    using un by (auto simp: unchains_def slot_chain_def)
  show ?thesis
  proof (rule store_invI)
    show "distinct ((cs(t := qs)) u)" for u using d(1) qs(1) by simp
    show "chain (ms_heap s') (ms_heads s' u) ((cs(t := qs)) u)" for u
    proof (cases "u = t")
      case False
      then have "chain (ms_heap s') (ms_heads s u) (cs u) = chain (ms_heap s) (ms_heads s u) (cs u)"
        using d(4) frame by (intro chain_cong) metis
      then show ?thesis using False heads d(2) by simp
    qed (simp add: qs)
    show "u = v" if "p \<in> set ((cs(t := qs)) u)" "p \<in> set ((cs(t := qs)) v)" for u v p
      using that d(4) qs(3) by (metis fun_upd_apply subsetD)
  next
    fix p m' assume m': "ms_heap s' p = Some m'"
    have "(mk_chained m' \<longleftrightarrow> (\<exists>u. p \<in> set ((cs(t := qs)) u))) \<and> (\<not> mk_chained m' \<longrightarrow> mk_next m' = None)"
    proof (cases "p \<in> set (cs t) - set qs")
      case True
      then have "map_option reset (ms_heap s p) = Some m'" using spl m' by (auto simp: spliced_def)
      then show ?thesis using reset True d(4) by auto
    next
      case False
      then obtain m where m: "ms_heap s p = Some m" "mk_chained m' = mk_chained m"
        by (rule spliced_keeps [OF spl _ m'])
      have "mk_chained m' \<longleftrightarrow> (\<exists>u. p \<in> set ((cs(t := qs)) u))"
        using False m d(5) [OF m(1)] qs(3) by auto
      moreover have "mk_next m' = None" if "\<not> mk_chained m'"
      proof -
        have "p \<notin> set (cs t)" using that m d(5) by blast
        then have "m' = m" using frame m' m(1) by simp
        then show ?thesis using that m d(6) by simp
      qed
      ultimately show ?thesis by blast
    qed
    then show "mk_chained m' \<longleftrightarrow> (\<exists>u. p \<in> set ((cs(t := qs)) u))"
      "\<not> mk_chained m' \<Longrightarrow> mk_next m' = None" by blast+
  qed
qed

lemma unchained_reset: "\<not> mk_chained (unchained m) \<and> mk_next (unchained m) = None"
  by (simp add: unchained_def)

lemma detached_reset: "\<not> mk_chained (detached m) \<and> mk_next (detached m) = None"
  by (simp add: detached_def)

lemma chain_unlink_inv:
  assumes "store_inv cs s"
  obtains s' where "chain_unlink t p s = Some s'" "store_inv (cs(t := filter (\<lambda>q. q \<noteq> p) (cs t))) s'"
    "unchains unchained (HeadSlot t) (cs t) (filter (\<lambda>q. q \<noteq> p) (cs t)) s s'"
proof -
  have "without_first (\<lambda>q. q = p) (cs t) = filter (\<lambda>q. q \<noteq> p) (cs t)"
    by (rule without_first_eq [OF store_invD(1) [OF assms]])
  then obtain s' where "chain_unlink t p s = Some s'"
      "unchains unchained (HeadSlot t) (cs t) (filter (\<lambda>q. q \<noteq> p) (cs t)) s s'"
    using unchain_first_chain [OF store_invD(3) [OF assms, of t], where sel = "\<lambda>q m. q = p" and reset = unchained]
    by (auto simp: chain_unlink_def)
  then show thesis using that unchains_inv [OF assms] unchained_reset by blast
qed

lemma remove_marker_inv:
  assumes "store_inv cs s"
  obtains s' where "remove_marker t mid s = Some s'"
    "store_inv (cs(t := without_first (\<lambda>q. mk_marker_id (the (ms_heap s q)) = Some mid) (cs t))) s'"
    "unchains detached (HeadSlot t) (cs t)
       (without_first (\<lambda>q. mk_marker_id (the (ms_heap s q)) = Some mid) (cs t)) s s'"
  using unchain_first_chain [OF store_invD(3) [OF assms, of t],
      where sel = "\<lambda>q m. mk_marker_id m = Some mid" and reset = detached]
    unchains_inv [OF assms] detached_reset
  unfolding remove_marker_def by blast

lemma remove_markers_for_buffers_inv:
  assumes "store_inv cs s"
  obtains s' where "remove_markers_for_buffers t killed s = Some s'"
    "store_inv (cs(t := filter (\<lambda>q. \<not> belongs_to_killed killed (the (ms_heap s q))) (cs t))) s'"
    "unchains detached (HeadSlot t) (cs t)
       (filter (\<lambda>q. \<not> belongs_to_killed killed (the (ms_heap s q))) (cs t)) s s'"
  using unchain_all_chain [OF store_invD(3) [OF assms, of t],
      where sel = "\<lambda>q m. belongs_to_killed killed m" and reset = detached]
    unchains_inv [OF assms] detached_reset
  unfolding remove_markers_for_buffers_def by blast

lemma unchain_dead_markers_inv:
  assumes "store_inv cs s"
  shows "\<exists>s'. unchain_dead_markers live ts s = Some s'
    \<and> store_inv (\<lambda>t. if t \<in> set ts then filter live (cs t) else cs t) s' \<and> dom (ms_heap s') = dom (ms_heap s)"
  using assms
proof (induction ts arbitrary: cs s)
  case (Cons t ts)
  obtain s1 where s1: "unchain_all (\<lambda>p m. \<not> live p) unchained (HeadSlot t) s = Some s1"
      "unchains unchained (HeadSlot t) (cs t) (filter live (cs t)) s s1"
    using unchain_all_chain [OF store_invD(3) [OF Cons.prems, of t], where sel = "\<lambda>p m. \<not> live p" and reset = unchained]
    by auto
  have inv1: "store_inv (cs(t := filter live (cs t))) s1"
    by (rule unchains_inv [OF Cons.prems s1(2) unchained_reset])
  have "(ms_heap s1 p = None) = (ms_heap s p = None)" for p
  proof -
    have "p \<in> set (cs t) - set (filter live (cs t)) \<Longrightarrow> ms_heap s1 p = map_option unchained (ms_heap s p)"
      "p \<notin> set (cs t) - set (filter live (cs t)) \<Longrightarrow>
        map_option (mk_next_update (\<lambda>_. None)) (ms_heap s1 p) = map_option (mk_next_update (\<lambda>_. None)) (ms_heap s p)"
      using s1(2) by (auto simp: unchains_def spliced_def)
    then show ?thesis by (metis map_option_is_None)
  qed
  then have dom: "dom (ms_heap s1) = dom (ms_heap s)" by (auto simp: dom_def)
  obtain s2 where s2: "unchain_dead_markers live ts s1 = Some s2"
      "store_inv (\<lambda>u. if u \<in> set ts then filter live ((cs(t := filter live (cs t))) u) else (cs(t := filter live (cs t))) u) s2"
      "dom (ms_heap s2) = dom (ms_heap s1)"
    using Cons.IH [OF inv1] by blast
  have "(\<lambda>u. if u \<in> set ts then filter live ((cs(t := filter live (cs t))) u) else (cs(t := filter live (cs t))) u)
      = (\<lambda>u. if u \<in> set (t # ts) then filter live (cs u) else cs u)"
    by (auto simp: fun_eq_iff)
  then show ?case using s1(1) s2 dom by simp
qed simp

text \<open>Linking a marker in.\<close>

lemma chain_splice_inv:
  assumes inv: "store_inv cs s" and m: "ms_heap s p = Some m" "\<not> mk_chained m"
  obtains s' where "chain_splice_at_head t p s = Some s'" "store_inv (cs(t := p # cs t)) s'"
proof -
  note d = store_invD [OF inv]
  let ?m = "m\<lparr>mk_next := ms_heads s t, mk_chained := True\<rparr>"
  let ?s = "s\<lparr>ms_heads := (ms_heads s)(t \<mapsto> p), ms_heap := (ms_heap s)(p \<mapsto> ?m)\<rparr>"
  have out: "p \<notin> set (cs u)" for u using m d(5) by blast
  have "store_inv (cs(t := p # cs t)) ?s"
  proof (rule store_invI)
    show "chain (ms_heap ?s) (ms_heads ?s u) ((cs(t := p # cs t)) u)" for u
      using d(2) out by (simp add: chain_Cons chain_update_outside)
    show "u = v" if "q \<in> set ((cs(t := p # cs t)) u)" "q \<in> set ((cs(t := p # cs t)) v)" for u v q
      using that d(4) out by (auto split: if_splits)
    show "mk_chained m' \<longleftrightarrow> (\<exists>u. q \<in> set ((cs(t := p # cs t)) u))" if "ms_heap ?s q = Some m'" for q m'
      using that d(5) [of q] by (auto split: if_splits)
  qed (use d(1,6) out in \<open>auto split: if_splits\<close>)
  then show thesis using that m d(6) by (simp add: chain_splice_at_head_def)
qed

text \<open>Changing the data of the markers of a chain.\<close>

definition keeps_links :: "(lisp_marker \<Rightarrow> lisp_marker option) \<Rightarrow> bool" where
  "keeps_links f \<longleftrightarrow> (\<forall>m m'. f m = Some m' \<longrightarrow> mk_next m' = mk_next m \<and> mk_chained m' = mk_chained m)"

lemma store_inv_same_links:
  assumes "store_inv cs s" "ms_heads s' = ms_heads s"
    "\<And>p. map_option (\<lambda>m. (mk_next m, mk_chained m)) (ms_heap s' p) = map_option (\<lambda>m. (mk_next m, mk_chained m)) (ms_heap s p)"
  shows "store_inv cs s'"
proof -
  note d = store_invD [OF assms(1)]
  have "map_option mk_next (ms_heap s' p) = map_option mk_next (ms_heap s p)" for p
    using assms(3) [of p] by (cases "ms_heap s p"; cases "ms_heap s' p") auto
  then have "chain (ms_heap s') (ms_heads s' t) (cs t)" for t
    using d(2) assms(2) chain_cong [of "cs t" "ms_heap s'" "ms_heap s"] by simp
  moreover have "\<exists>m. ms_heap s p = Some m \<and> mk_next m = mk_next m' \<and> mk_chained m = mk_chained m'"
    if "ms_heap s' p = Some m'" for p m'
    using assms(3) [of p] that by (cases "ms_heap s p") auto
  ultimately show ?thesis using d by (intro store_invI) (blast | metis)+
qed

lemma chain_update_inv:
  assumes inv: "store_inv cs s" and links: "keeps_links f"
    and def: "\<And>p m. p \<in> set (cs t) \<Longrightarrow> ms_heap s p = Some m \<Longrightarrow> \<exists>m'. f m = Some m'"
  obtains s' where "chain_update f t s = Some s'" "store_inv cs s'" "ms_heads s' = ms_heads s"
    "ms_heap s' = (\<lambda>p. if p \<in> set (cs t) then Option.bind (ms_heap s p) f else ms_heap s p)"
proof -
  let ?h = "\<lambda>p. if p \<in> set (cs t) then Option.bind (ms_heap s p) f else ms_heap s p"
  have "chain_walk_mut f (ms_heads s t) (ms_heap s) = Some ?h"
    using def links by (intro chain_walk_mut_chain store_invD [OF inv]) (unfold keeps_links_def, blast)
  then have "chain_update f t s = Some (s\<lparr>ms_heap := ?h\<rparr>)" by (simp add: chain_update_def)
  moreover have "store_inv cs (s\<lparr>ms_heap := ?h\<rparr>)"
  proof (rule store_inv_same_links [OF inv])
    show "map_option (\<lambda>m. (mk_next m, mk_chained m)) (ms_heap (s\<lparr>ms_heap := ?h\<rparr>) p)
        = map_option (\<lambda>m. (mk_next m, mk_chained m)) (ms_heap s p)" for p
      using def links by (cases "ms_heap s p") (fastforce simp: keeps_links_def)+
  qed simp
  ultimately show thesis using that by simp
qed

lemma set_anchor_links [simp]:
  "mk_next (set_marker_data_anchor m a) = mk_next m" "mk_chained (set_marker_data_anchor m a) = mk_chained m"
  "mk_marker_id (set_marker_data_anchor m a) = mk_marker_id m"
  "mk_insertion_type (set_marker_data_anchor m a) = mk_insertion_type m"
  "mk_charpos (set_marker_data_anchor m a) = ta_char a" "mk_bytepos (set_marker_data_anchor m a) = ta_byte a"
  "marker_data_anchor (set_marker_data_anchor m a) = a"
  by (simp_all add: set_marker_data_anchor_def marker_data_anchor_def anchor_new_def)

lemma keeps_links_adjust [simp]:
  "keeps_links (retarget_marker from to)" "keeps_links (marker_after_insert pos e)"
  "keeps_links (marker_after_insert_strict pos e)" "keeps_links (marker_after_delete r)"
  "keeps_links (marker_after_replace r e)" "keeps_links (marker_at_position_advanced pos e)"
  by (auto simp: keeps_links_def retarget_marker_def marker_after_insert_def marker_after_insert_strict_def
      marker_after_delete_def marker_after_replace_def marker_at_position_advanced_def
      apply_marker_data_delta_def Let_def bind_eq_Some_conv split: if_splits)

subsection \<open>Markers stay on positions of the text\<close>

definition markers_valid :: "bool \<Rightarrow> bytes \<Rightarrow> nat list \<Rightarrow> marker_heap \<Rightarrow> bool" where
  "markers_valid mb tx ps h \<longleftrightarrow>
     (\<forall>p \<in> set ps. case h p of None \<Rightarrow> False | Some m \<Rightarrow> valid_anchor mb tx (marker_data_anchor m))"

lemma markers_valid_iff:
  "markers_valid mb tx ps h \<longleftrightarrow>
     (\<forall>p \<in> set ps. \<exists>m. h p = Some m \<and> valid_anchor mb tx (marker_data_anchor m))"
  unfolding markers_valid_def by (intro ball_cong refl) (auto split: option.splits)

text \<open>What an adjustment of the chain of \<open>t\<close> guarantees when the text becomes \<open>tx'\<close>.\<close>

definition adjusted :: "(nat \<Rightarrow> nat list) \<Rightarrow> nat \<Rightarrow> bool \<Rightarrow> bytes \<Rightarrow> marker_store \<Rightarrow> marker_store \<Rightarrow> bool" where
  "adjusted cs t mb tx' s s' \<longleftrightarrow> store_inv cs s' \<and> ms_heads s' = ms_heads s
     \<and> markers_valid mb tx' (cs t) (ms_heap s') \<and> (\<forall>p. p \<notin> set (cs t) \<longrightarrow> ms_heap s' p = ms_heap s p)"

lemma adjusted_refl: "store_inv cs s \<Longrightarrow> markers_valid mb tx (cs t) (ms_heap s) \<Longrightarrow> adjusted cs t mb tx s s"
  by (simp add: adjusted_def)

lemma chain_update_valid:
  assumes inv: "store_inv cs s" and links: "keeps_links f" and v: "markers_valid mb tx (cs t) (ms_heap s)"
    and f: "\<And>m. valid_anchor mb tx (marker_data_anchor m) \<Longrightarrow>
              \<exists>m'. f m = Some m' \<and> valid_anchor mb tx' (marker_data_anchor m')"
  shows "\<exists>s'. chain_update f t s = Some s' \<and> adjusted cs t mb tx' s s'"
proof -
  have "\<exists>m'. f m = Some m'" if "p \<in> set (cs t)" "ms_heap s p = Some m" for p m
  proof -
    have "valid_anchor mb tx (marker_data_anchor m)" using v that unfolding markers_valid_iff by fastforce
    then show ?thesis using f by blast
  qed
  then obtain s' where s': "chain_update f t s = Some s'" "store_inv cs s'" "ms_heads s' = ms_heads s"
      "ms_heap s' = (\<lambda>p. if p \<in> set (cs t) then Option.bind (ms_heap s p) f else ms_heap s p)"
    by (rule chain_update_inv [OF inv links])
  have "markers_valid mb tx' (cs t) (ms_heap s')"
    using v f unfolding markers_valid_iff s'(4) by fastforce
  with s' show ?thesis by (simp add: adjusted_def)
qed

lemma marker_anchor_simps [simp]: "ta_char (marker_data_anchor m) = mk_charpos m" "ta_byte (marker_data_anchor m) = mk_bytepos m"
  by (simp_all add: marker_data_anchor_def)

lemma measured_textD:
  "measured_text mb bs e \<Longrightarrow> te_bytes e = length bs" "measured_text mb bs e \<Longrightarrow> te_chars e = emacs_char_count_bytes bs mb"
  "measured_text mb bs e \<Longrightarrow> lead_ok mb bs"
  by (auto simp: measured_text_def)

lemma marker_shift_insert:
  assumes "is_emacs_char_boundary tx pos mb" "lead_ok mb tx" "measured_text mb bs e"
    "valid_anchor mb tx (marker_data_anchor m)" "pos \<le> mk_bytepos m"
  shows "\<exists>m'. apply_marker_data_delta m (extent_delta_insertion e) = Some m'
    \<and> valid_anchor mb (insert_at pos bs tx) (marker_data_anchor m')"
  using char_offset_insert_after [OF assms(1,2), of "mk_charpos m" "mk_bytepos m" bs] assms(4,5)
    measured_textD [OF assms(3)]
  by (simp add: apply_marker_data_delta_def signed_delta_insertion)

lemma marker_stay_insert:
  assumes "is_emacs_char_boundary tx pos mb" "lead_ok mb tx" "measured_text mb bs e"
    "valid_anchor mb tx (marker_data_anchor m)" "mk_bytepos m \<le> pos"
  shows "valid_anchor mb (insert_at pos bs tx) (marker_data_anchor m)"
  using char_offset_insert_before [OF assms(1,2) measured_textD(3) [OF assms(3)]] assms(4,5) by simp

lemma marker_after_insert_valid:
  assumes "is_emacs_char_boundary tx pos mb" "lead_ok mb tx" "measured_text mb bs e"
    "valid_anchor mb tx (marker_data_anchor m)"
  shows "\<exists>m'. marker_after_insert pos e m = Some m' \<and> valid_anchor mb (insert_at pos bs tx) (marker_data_anchor m')"
    "\<exists>m'. marker_after_insert_strict pos e m = Some m' \<and> valid_anchor mb (insert_at pos bs tx) (marker_data_anchor m')"
  using marker_shift_insert [OF assms] marker_stay_insert [OF assms]
  by (auto simp: marker_after_insert_def marker_after_insert_strict_def Let_def)

lemma marker_after_replace_valid:
  assumes r: "measured_range mb tx r" and "lead_ok mb tx" "measured_text mb bs e"
    "valid_anchor mb tx (marker_data_anchor m)"
  shows "\<exists>m'. marker_after_replace r e m = Some m'
    \<and> valid_anchor mb (replace_range (er_byte_start r) (er_byte_end r) bs tx) (marker_data_anchor m')"
proof -
  note d = measured_rangeD [OF r] and b = measured_textD [OF assms(3)]
  let ?s = "er_byte_start r" and ?e = "er_byte_end r"
  have ext: "edit_range_extent r = extent_from_emacs_bytes (sub_list ?s ?e tx) mb" "e = extent_from_emacs_bytes bs mb"
    using measured_range_char_len(2) [OF r] d assms(3)
    by (simp_all add: edit_range_extent_def extent_from_emacs_bytes_def edit_range_byte_len_def byte_range_len_def measured_text_def)
  have del: "is_emacs_char_boundary (delete_range ?s ?e tx) ?s mb" "lead_ok mb (delete_range ?s ?e tx)"
    using d assms(2) by (auto intro: boundary_delete_before lead_ok_delete)
  have before: "valid_anchor mb (replace_range ?s ?e bs tx) a" if "valid_anchor mb tx a" "ta_byte a \<le> ?s" for a
    unfolding replace_range_def using that d assms(2) del b(3)
    by (intro char_offset_insert_before char_offset_delete_before)
  show ?thesis
  proof (cases "?e \<le> mk_bytepos m")
    case True
    then obtain a where "apply_to_anchor (extent_delta_replacement (edit_range_extent r) e) (marker_data_anchor m) = Some a"
      "valid_anchor mb (replace_range ?s ?e bs tx) a"
      using apply_to_anchor_replacement [OF d(1,2) assms(2) b(3) assms(4) d(5)]
      by (auto simp: ext replace_range_def)
    then show ?thesis using True by (auto simp: marker_after_replace_def apply_marker_data_delta_def)
  next
    case False
    then show ?thesis using before [of "edit_range_start_anchor r"] before [of "marker_data_anchor m"] assms(4) r
      by (auto simp: marker_after_replace_def measured_range_def edit_range_start_anchor_def)
  qed
qed

lemma marker_after_delete_replace: "marker_after_delete r = marker_after_replace r extent_zero"
  by (simp add: fun_eq_iff marker_after_delete_def marker_after_replace_def extent_delta_deletion_def
      extent_delta_replacement_def delta_deletion_def delta_replacement_def extent_zero_def)

lemma measured_empty: "measured_text mb [] extent_zero"
  by (simp add: measured_text_def extent_from_emacs_bytes_def extent_new_def extent_zero_def)

lemma markers_insert_valid:
  assumes inv: "store_inv cs s" "markers_valid mb tx (cs t) (ms_heap s)"
    and ed: "is_emacs_char_boundary tx pos mb" "lead_ok mb tx" "measured_text mb bs e"
  shows "\<exists>s'. adjust_markers_for_insert_extent t pos e s = Some s' \<and> adjusted cs t mb (insert_at pos bs tx) s s'"
proof (cases "te_bytes e = 0")
  case True
  then have "insert_at pos bs tx = tx" using measured_textD(1) [OF ed(3)] by simp
  then show ?thesis using True adjusted_refl [OF inv] by (simp add: adjust_markers_for_insert_extent_def)
next
  case False
  then show ?thesis
    using chain_update_valid [OF inv(1) keeps_links_adjust(2) inv(2) marker_after_insert_valid(1) [OF ed]]
    by (simp add: adjust_markers_for_insert_extent_def)
qed

lemma markers_insert_strict_valid:
  assumes inv: "store_inv cs s" "markers_valid mb tx (cs t) (ms_heap s)"
    and ed: "is_emacs_char_boundary tx pos mb" "lead_ok mb tx" "measured_text mb bs e"
  shows "\<exists>s'. adjust_markers_for_insert_extent_strict_after t pos e s = Some s' \<and> adjusted cs t mb (insert_at pos bs tx) s s'"
proof (cases "te_bytes e = 0")
  case True
  then have "insert_at pos bs tx = tx" using measured_textD(1) [OF ed(3)] by simp
  then show ?thesis using True adjusted_refl [OF inv] by (simp add: adjust_markers_for_insert_extent_strict_after_def)
next
  case False
  then show ?thesis
    using chain_update_valid [OF inv(1) keeps_links_adjust(3) inv(2) marker_after_insert_valid(2) [OF ed]]
    by (simp add: adjust_markers_for_insert_extent_strict_after_def)
qed

lemma markers_replace_valid:
  assumes inv: "store_inv cs s" "markers_valid mb tx (cs t) (ms_heap s)"
    and ed: "measured_range mb tx r" "lead_ok mb tx" "measured_text mb bs e"
  shows "\<exists>s'. adjust_markers_for_replace_range t r e s = Some s' \<and> adjusted cs t mb (replace_range (er_byte_start r) (er_byte_end r) bs tx) s s'"
proof (cases "edit_range_is_empty r")
  case True
  then have "er_byte_end r = er_byte_start r" "is_emacs_char_boundary tx (er_byte_start r) mb"
    using measured_rangeD [OF ed(1)] by (auto simp: edit_range_is_empty_def byte_range_is_empty_def)
  then show ?thesis
    using markers_insert_valid [OF inv _ ed(2,3), of "er_byte_start r"] True
    by (simp add: adjust_markers_for_replace_range_def)
next
  case False
  then show ?thesis
    using chain_update_valid [OF inv(1) keeps_links_adjust(5) inv(2) marker_after_replace_valid [OF ed]]
    by (simp add: adjust_markers_for_replace_range_def)
qed

lemma markers_delete_valid:
  assumes inv: "store_inv cs s" "markers_valid mb tx (cs t) (ms_heap s)"
    and ed: "measured_range mb tx r" "lead_ok mb tx"
  shows "\<exists>s'. adjust_markers_for_delete_range t r s = Some s' \<and> adjusted cs t mb (delete_range (er_byte_start r) (er_byte_end r) tx) s s'"
proof (cases "edit_range_is_empty r")
  case True
  then have "er_byte_end r = er_byte_start r"
    using measured_rangeD [OF ed(1)] by (auto simp: edit_range_is_empty_def byte_range_is_empty_def)
  then show ?thesis using True adjusted_refl [OF inv] by (simp add: adjust_markers_for_delete_range_def)
next
  case False
  then show ?thesis
    using chain_update_valid [OF inv(1) keeps_links_adjust(5) inv(2) marker_after_replace_valid [OF ed measured_empty]]
    by (simp add: adjust_markers_for_delete_range_def marker_after_delete_replace)
qed

text \<open>Advancing the markers that an insertion left in front of the new text.\<close>

lemma markers_advance_valid:
  assumes inv: "store_inv cs s" "markers_valid mb (insert_at pos bs tx) (cs t) (ms_heap s)"
    and ed: "is_emacs_char_boundary tx pos mb" "lead_ok mb tx" "measured_text mb bs e"
  shows "\<exists>s'. advance_markers_at_position t pos e s = Some s' \<and> adjusted cs t mb (insert_at pos bs tx) s s'"
proof (cases "te_bytes e = 0")
  case True
  then show ?thesis using adjusted_refl [OF inv] by (simp add: advance_markers_at_position_def)
next
  case False
  let ?tx = "insert_at pos bs tx"
  note b = measured_textD [OF ed(3)]
  have st: "char_offset mb tx (emacs_char_count_bytes (take pos tx) mb) pos" using ed(1) by (simp add: char_offset_def)
  have "\<exists>m'. marker_at_position_advanced pos e m = Some m' \<and> valid_anchor mb ?tx (marker_data_anchor m')"
    if v: "valid_anchor mb ?tx (marker_data_anchor m)" for m
  proof (cases "mk_bytepos m = pos")
    case True
    have "char_offset mb ?tx (emacs_char_count_bytes (take pos tx) mb) pos"
      using ed b st by (intro char_offset_insert_before) auto
    then have "mk_charpos m = emacs_char_count_bytes (take pos tx) mb" using v True by (auto simp: char_offset_def)
    moreover have "char_offset mb ?tx (emacs_char_count_bytes (take pos tx) mb + emacs_char_count_bytes bs mb) (pos + length bs)"
      using ed st by (intro char_offset_insert_after) auto
    ultimately show ?thesis
      using True b by (simp add: marker_at_position_advanced_def apply_marker_data_delta_def signed_delta_insertion)
  qed (use v in \<open>simp add: marker_at_position_advanced_def\<close>)
  then show ?thesis
    using chain_update_valid [OF inv(1) keeps_links_adjust(6) inv(2)] False
    by (simp add: advance_markers_at_position_def)
qed

subsection \<open>Deletion, undone\<close>

definition delete_adjustment :: "int \<Rightarrow> int \<Rightarrow> lisp_marker \<Rightarrow> int" where
  "delete_adjustment from1 to1 m =
     (let charpos1 = char_pos0_to_lisp (mk_charpos m)
      in if from1 \<le> charpos1 \<and> charpos1 \<le> to1 then (if mk_insertion_type m then to1 else from1) - charpos1 else 0)"

lemma delete_adjustments_chain:
  assumes "chain h q ps"
  shows "delete_adjustments_loop from1 to1 q h acc
    = Some (acc @ map (\<lambda>p. (p, delete_adjustment from1 to1 (the (h p))))
        (filter (\<lambda>p. delete_adjustment from1 to1 (the (h p)) \<noteq> 0) ps))"
  using assms
proof (induction ps arbitrary: q acc)
  case Nil
  then show ?case by (simp add: delete_adjustments_loop.simps)
next
  case (Cons p ps)
  then show ?case
    by (subst delete_adjustments_loop.simps) (auto simp: chain_Cons delete_adjustment_def Let_def)
qed

lemma map_of_adjustments:
  "map_of (map (\<lambda>p. (p, f p)) (filter (\<lambda>p. f p \<noteq> 0) ps)) p = (if p \<in> set ps \<and> f p \<noteq> 0 then Some (f p) else None)"
  by (simp add: map_of_map_restrict restrict_map_def)

text \<open>One marker through a deletion and the insertion of the same extent.\<close>

lemma marker_delete_insert:
  assumes r: "measured_range mb tx r" "lead_ok mb tx" "er_byte_start r < er_byte_end r"
    and v: "valid_anchor mb tx (marker_data_anchor m)"
    and m1: "marker_after_delete r m = Some m1"
    and m2: "marker_after_insert (er_byte_start r) (edit_range_extent r) m1 = Some m2"
  shows "int (mk_charpos m2)
     = int (mk_charpos m) + delete_adjustment (char_pos0_to_lisp (er_char_start r)) (char_pos0_to_lisp (er_char_end r)) m"
proof -
  note d = measured_rangeD [OF r(1)]
  let ?s = "er_byte_start r" and ?e = "er_byte_end r"
  have vm: "char_offset mb tx (mk_charpos m) (mk_bytepos m)" using v by simp
  have cmp: "mk_bytepos m < ?s \<longleftrightarrow> mk_charpos m < er_char_start r" "mk_bytepos m \<le> ?s \<longleftrightarrow> mk_charpos m \<le> er_char_start r"
    "mk_bytepos m < ?e \<longleftrightarrow> mk_charpos m < er_char_end r" "mk_bytepos m \<le> ?e \<longleftrightarrow> mk_charpos m \<le> er_char_end r"
    using char_offset_mono [OF r(2) vm d(3)] char_offset_mono [OF r(2) d(3) vm]
      char_offset_mono [OF r(2) vm d(4)] char_offset_mono [OF r(2) d(4) vm] by (auto simp: not_le [symmetric])
  have len: "er_char_start r + edit_range_char_len r = er_char_end r" "edit_range_byte_len r = ?e - ?s"
    using measured_range_char_len [OF r(1)] by (simp_all add: edit_range_byte_len_def byte_range_len_def)
  have ext: "te_chars (edit_range_extent r) = edit_range_char_len r" "te_bytes (edit_range_extent r) = ?e - ?s"
    using len by (simp_all add: edit_range_extent_def extent_new_def)
  consider "mk_bytepos m < ?s" | "mk_bytepos m = ?s" | "?s < mk_bytepos m" "mk_bytepos m < ?e"
    | "mk_bytepos m = ?e" | "?e < mk_bytepos m" by linarith
  then show ?thesis
  proof cases
    case 4
    then have "mk_charpos m = er_char_end r" using vm d(4) by (simp add: char_offset_def)
    then show ?thesis
      using 4 m1 m2 r(3) len ext
      by (auto simp: marker_after_delete_def marker_after_insert_def apply_marker_data_delta_def signed_delta_insertion
          signed_delta_deletion delete_adjustment_def char_pos0_to_lisp_def Let_def split: if_splits)
  next
    case 5
    then have "er_char_end r < mk_charpos m" using cmp by auto
    then show ?thesis
      using 5 m1 m2 r(3) len ext
      by (auto simp: marker_after_delete_def marker_after_insert_def apply_marker_data_delta_def signed_delta_insertion
          signed_delta_deletion delete_adjustment_def char_pos0_to_lisp_def Let_def split: if_splits)
  qed (use m1 m2 r(3) len ext cmp in \<open>auto simp: marker_after_delete_def marker_after_insert_def apply_marker_data_delta_def
      signed_delta_insertion delete_adjustment_def char_pos0_to_lisp_def Let_def edit_range_start_anchor_def split: if_splits\<close>)
qed

subsection \<open>Reachable stores\<close>

definition empty_store :: marker_store where
  "empty_store = \<lparr>ms_heads = (\<lambda>_. None), ms_heap = (\<lambda>_. None)\<rparr>"

text \<open>The sweep that follows \<open>unchain_dead_markers\<close> frees the markers that are not live.\<close>

definition sweep_markers :: "(nat \<Rightarrow> bool) \<Rightarrow> marker_store \<Rightarrow> marker_store" where
  "sweep_markers live s = s\<lparr>ms_heap := (\<lambda>p. if live p then ms_heap s p else None)\<rparr>"

inductive marker_step :: "marker_store \<Rightarrow> marker_store \<Rightarrow> bool" where
  alloc: "ms_heap s p = None \<Longrightarrow> mk_next m = None \<Longrightarrow> \<not> mk_chained m \<Longrightarrow>
    marker_step s (s\<lparr>ms_heap := (ms_heap s)(p \<mapsto> m)\<rparr>)"
| register: "ms_heap s p = Some m \<Longrightarrow> \<not> mk_chained m \<Longrightarrow> register_marker t p buf mid a it s = Some s' \<Longrightarrow>
    marker_step s s'"
| unlink: "chain_unlink t p s = Some s' \<Longrightarrow> marker_step s s'"
| remove: "remove_marker t mid s = Some s' \<Longrightarrow> marker_step s s'"
| kill: "remove_markers_for_buffers t killed s = Some s' \<Longrightarrow> marker_step s s'"
| retarget: "retarget_markers_for_buffer_swap t from to s = Some s' \<Longrightarrow> marker_step s s'"
| move: "move_marker_to_anchor t mid a s = Some s' \<Longrightarrow> marker_step s s'"
| move_ptr: "move_marker_ptr_to_anchor p a s = Some s' \<Longrightarrow> marker_step s s'"
| insert: "adjust_markers_for_insert_extent t pos e s = Some s' \<Longrightarrow> marker_step s s'"
| insert_strict: "adjust_markers_for_insert_extent_strict_after t pos e s = Some s' \<Longrightarrow> marker_step s s'"
| delete: "adjust_markers_for_delete_range t r s = Some s' \<Longrightarrow> marker_step s s'"
| replace: "adjust_markers_for_replace_range t r e s = Some s' \<Longrightarrow> marker_step s s'"
| advance: "advance_markers_at_position t pos e s = Some s' \<Longrightarrow> marker_step s s'"
| collect: "unchain_dead_markers live ts s = Some s' \<Longrightarrow> (\<forall>t. ms_heads s t \<noteq> None \<longrightarrow> t \<in> set ts) \<Longrightarrow>
    marker_step s (sweep_markers live s')"

inductive marker_reachable :: "marker_store \<Rightarrow> bool" where
  start: "marker_reachable empty_store"
| step: "marker_reachable s \<Longrightarrow> marker_step s s' \<Longrightarrow> marker_reachable s'"

lemma store_inv_empty: "store_inv (\<lambda>_. []) empty_store"
  by (simp add: store_inv_def empty_store_def)

lemma store_inv_data:
  assumes "store_inv cs s" "ms_heap s p = Some m" "mk_next m' = mk_next m" "mk_chained m' = mk_chained m"
  shows "store_inv cs (s\<lparr>ms_heap := (ms_heap s)(p \<mapsto> m')\<rparr>)"
  by (rule store_inv_same_links [OF assms(1)]) (use assms in auto)

lemma store_inv_alloc:
  assumes inv: "store_inv cs s" and m: "ms_heap s p = None" "mk_next m = None" "\<not> mk_chained m"
  shows "store_inv cs (s\<lparr>ms_heap := (ms_heap s)(p \<mapsto> m)\<rparr>)"
proof -
  note d = store_invD [OF inv]
  have out: "p \<notin> set (cs t)" for t using chain_alloc [OF d(2)] m(1) by fastforce
  show ?thesis
  proof (rule store_invI)
    show "chain (ms_heap (s\<lparr>ms_heap := (ms_heap s)(p \<mapsto> m)\<rparr>)) (ms_heads (s\<lparr>ms_heap := (ms_heap s)(p \<mapsto> m)\<rparr>) t) (cs t)" for t
      using d(2) out by (simp add: chain_update_outside)
  qed (use d(1,4,5,6) m out in \<open>auto split: if_splits\<close>)
qed

lemma store_inv_sweep:
  assumes inv: "store_inv cs s" and live: "\<And>t p. p \<in> set (cs t) \<Longrightarrow> live p"
  shows "store_inv cs (sweep_markers live s)"
proof -
  note d = store_invD [OF inv]
  show ?thesis
  proof (rule store_invI)
    show "chain (ms_heap (sweep_markers live s)) (ms_heads (sweep_markers live s) t) (cs t)" for t
      using d(2) live chain_cong [of "cs t" "ms_heap (sweep_markers live s)" "ms_heap s"]
      by (simp add: sweep_markers_def)
  qed (use d(1,4,5,6) in \<open>auto simp: sweep_markers_def split: if_splits\<close>)
qed

lemma chain_update_Some_inv:
  assumes inv: "store_inv cs s" and links: "keeps_links f" and eq: "chain_update f t s = Some s'"
  shows "store_inv cs s'"
proof -
  have walk: "map_option (\<lambda>m. (mk_next m, mk_chained m)) (h' p) = map_option (\<lambda>m. (mk_next m, mk_chained m)) (h p)"
    if "chain h q ps" "chain_walk_mut f q h = Some h'" "distinct ps" for h q ps h' p
    using that
  proof (induction ps arbitrary: q h)
    case Nil
    then show ?case by (simp add: chain_walk_mut.simps)
  next
    case (Cons r ps)
    obtain m where m: "q = Some r" "h r = Some m" "chain h (mk_next m) ps" using Cons.prems(1) by (auto simp: chain_Cons)
    obtain m' where m': "f m = Some m'" "chain_walk_mut f (mk_next m') (h(r \<mapsto> m')) = Some h'"
      using Cons.prems(2) m by (subst (asm) chain_walk_mut.simps) (auto simp: bind_eq_Some_conv)
    have l: "mk_next m' = mk_next m" "mk_chained m' = mk_chained m" using links m'(1) by (auto simp: keeps_links_def)
    have c: "chain (h(r \<mapsto> m')) (mk_next m') ps" using m(3) Cons.prems(3) l by (simp add: chain_update_outside)
    show ?case using Cons.IH [OF c m'(2)] Cons.prems(3) m l by simp
  qed
  obtain h' where h': "chain_walk_mut f (ms_heads s t) (ms_heap s) = Some h'" "s' = s\<lparr>ms_heap := h'\<rparr>"
    using eq by (auto simp: chain_update_def bind_eq_Some_conv)
  show ?thesis
    using h'(2) walk [OF store_invD(2) [OF inv] h'(1) store_invD(1) [OF inv]]
    by (intro store_inv_same_links [OF inv]) simp_all
qed

lemma chain_find_alloc:
  assumes "store_inv cs s"
  shows "chain_find_by_id t mid s = Some (List.find (\<lambda>p. mk_marker_id (the (ms_heap s p)) = Some mid) (cs t))"
  using chain_find_chain [OF store_invD(2) [OF assms]] by (simp add: chain_find_by_id_def)

lemma move_marker_inv:
  assumes "store_inv cs s" "move_marker_to_anchor t mid a s = Some s'"
  shows "store_inv cs s'"
  using assms chain_find_alloc [OF assms(1), of t mid]
  by (auto simp: move_marker_to_anchor_def bind_eq_Some_conv split: option.splits intro: store_inv_data)

lemma register_marker_inv:
  assumes "store_inv cs s" "ms_heap s p = Some m" "\<not> mk_chained m"
  obtains s' where "register_marker t p buf mid a it s = Some s'" "store_inv (cs(t := p # cs t)) s'"
proof -
  let ?m = "(set_marker_data_anchor (m\<lparr>mk_buffer := Some buf, mk_marker_id := Some mid\<rparr>) a)
    \<lparr>mk_last_position_valid := True, mk_insertion_type := (it = After)\<rparr>"
  have "store_inv cs (s\<lparr>ms_heap := (ms_heap s)(p \<mapsto> ?m)\<rparr>)" using assms by (intro store_inv_data) auto
  then obtain s' where "chain_splice_at_head t p (s\<lparr>ms_heap := (ms_heap s)(p \<mapsto> ?m)\<rparr>) = Some s'"
      "store_inv (cs(t := p # cs t)) s'"
    by (rule chain_splice_inv [where t = t and m = ?m and p = p]) (use assms in auto)
  then show thesis using that assms(2) by (simp add: register_marker_def Let_def)
qed

lemma collect_inv:
  assumes inv: "store_inv cs s" and eq: "unchain_dead_markers live ts s = Some s'"
    and all: "\<forall>t. ms_heads s t \<noteq> None \<longrightarrow> t \<in> set ts"
  shows "\<exists>cs. store_inv cs (sweep_markers live s')"
proof -
  let ?cs = "\<lambda>t. if t \<in> set ts then filter live (cs t) else cs t"
  have "store_inv ?cs s'" using unchain_dead_markers_inv [OF inv, of live ts] eq by auto
  moreover have "live p" if "p \<in> set (?cs t)" for t p
  proof (cases "t \<in> set ts")
    case False
    then have "ms_heads s t = None" using all by blast
    then have "chain (ms_heap s) None (cs t)" using store_invD(2) [OF inv, of t] by simp
    then show ?thesis using that False by simp
  qed (use that in simp)
  ultimately show ?thesis using store_inv_sweep by blast
qed

lemma marker_step_inv: "marker_step s s' \<Longrightarrow> store_inv cs s \<Longrightarrow> \<exists>cs'. store_inv cs' s'"
proof (induction rule: marker_step.induct)
  case (register s p m t buf mid a it s')
  then show ?case using register_marker_inv [of cs s p m t buf mid a it] by fastforce
next
  case (unlink t p s s')
  then show ?case using chain_unlink_inv [of cs s t p] by fastforce
next
  case (remove t mid s s')
  then show ?case using remove_marker_inv [of cs s t mid] by fastforce
next
  case (kill t killed s s')
  then show ?case using remove_markers_for_buffers_inv [of cs s t killed] by fastforce
next
  case (collect live ts s s')
  then show ?case using collect_inv by blast
next
  case (move_ptr p a s s')
  then show ?case by (auto simp: move_marker_ptr_to_anchor_def bind_eq_Some_conv intro!: exI store_inv_data)
qed (auto simp: retarget_markers_for_buffer_swap_def adjust_markers_for_insert_extent_def
      adjust_markers_for_insert_extent_strict_after_def adjust_markers_for_delete_range_def
      adjust_markers_for_replace_range_def advance_markers_at_position_def
      intro: store_inv_alloc move_marker_inv chain_update_Some_inv keeps_links_adjust split: if_splits)

lemma reachable_inv: "marker_reachable s \<Longrightarrow> \<exists>cs. store_inv cs s"
proof (induction rule: marker_reachable.induct)
  case start
  show ?case using store_inv_empty by blast
next
  case (step s s')
  then show ?case using marker_step_inv by blast
qed

subsection \<open>Properties\<close>

text \<open>C18: memory safety of the marker chains. In every store that allocation, registration, removal, buffer
  killing, retargeting, moving, the edit adjustments and garbage collection can reach, the chain of
  every text is a finite list of allocated markers without repetition (no link dangles, none closes
  a cycle), no marker is on two chains, and the \<open>chained\<close> bit of every allocated marker tells
  exactly whether it is on one.\<close>

theorem marker_chains_sound:
  assumes "marker_reachable s"
  shows "\<exists>cs. store_inv cs s"
  using assms by (rule reachable_inv)

definition fresh_marker :: lisp_marker where
  "fresh_marker = \<lparr>mk_buffer = None, mk_insertion_type = False, mk_marker_id = None, mk_bytepos = 0, mk_charpos = 0,
     mk_last_position_valid = False, mk_next = None, mk_chained = False\<rparr>"

definition sample_allocated :: marker_store where
  "sample_allocated = empty_store\<lparr>ms_heap := (ms_heap empty_store)(7 \<mapsto> fresh_marker)\<rparr>"

definition sample_registered :: marker_store where
  "sample_registered = the (register_marker 0 7 1 5 (anchor_new 2 3) After sample_allocated)"

lemma sample_reachable: "marker_reachable sample_registered"
proof (rule marker_reachable.step)
  show "marker_reachable sample_allocated"
    unfolding sample_allocated_def
    by (rule marker_reachable.step [OF marker_reachable.start marker_step.alloc])
      (simp_all add: empty_store_def fresh_marker_def)
  show "marker_step sample_allocated sample_registered"
  proof (rule marker_step.register)
    show "ms_heap sample_allocated 7 = Some fresh_marker" by (simp add: sample_allocated_def)
    show "\<not> mk_chained fresh_marker" by (simp add: fresh_marker_def)
    show "register_marker 0 7 1 5 (anchor_new 2 3) After sample_allocated = Some sample_registered"
      by (simp add: sample_registered_def sample_allocated_def register_marker_def chain_splice_at_head_def
          fresh_marker_def empty_store_def set_marker_data_anchor_def)
  qed
qed

theorem marker_chains_sound_witness:
  "\<exists>cs. store_inv cs sample_registered"
  by (rule marker_chains_sound [OF sample_reachable])

text \<open>C30: the pointer loops end. In every reachable store, unlinking a marker from a chain, searching a
  marker by its id and unchaining the dead markers return; unlinking removes exactly that marker
  from the chain of that text and leaves the chains of all other texts as they are, and a marker is
  found exactly when it is on the chain.\<close>

theorem marker_loops_return:
  assumes "marker_reachable s"
  shows "\<exists>cs. store_inv cs s
     \<and> (\<exists>s'. chain_unlink t p s = Some s' \<and> store_inv (cs(t := filter (\<lambda>q. q \<noteq> p) (cs t))) s')
     \<and> has_marker t mid s = Some (\<exists>p. p \<in> set (cs t) \<and> mk_marker_id (the (ms_heap s p)) = Some mid)
     \<and> (\<exists>s'. unchain_dead_markers live ts s = Some s'
          \<and> store_inv (\<lambda>u. if u \<in> set ts then filter live (cs u) else cs u) s')"
proof -
  obtain cs where cs: "store_inv cs s" using reachable_inv [OF assms] by blast
  have "has_marker t mid s = Some (\<exists>p. p \<in> set (cs t) \<and> mk_marker_id (the (ms_heap s p)) = Some mid)"
    using chain_find_alloc [OF cs, of t mid] find_None_iff [of "\<lambda>p. mk_marker_id (the (ms_heap s p)) = Some mid" "cs t"]
    by (auto simp: has_marker_def simp del: not_None_eq)
  moreover obtain s' where "chain_unlink t p s = Some s'" "store_inv (cs(t := filter (\<lambda>q. q \<noteq> p) (cs t))) s'"
    by (rule chain_unlink_inv [OF cs])
  ultimately show ?thesis using cs unchain_dead_markers_inv [OF cs, of live ts] by blast
qed

theorem marker_loops_return_witness:
  "\<exists>cs. store_inv cs sample_registered
     \<and> (\<exists>s'. chain_unlink 0 7 sample_registered = Some s' \<and> store_inv (cs(0 := filter (\<lambda>q. q \<noteq> 7) (cs 0))) s')
     \<and> has_marker 0 5 sample_registered
         = Some (\<exists>p. p \<in> set (cs 0) \<and> mk_marker_id (the (ms_heap sample_registered p)) = Some 5)
     \<and> (\<exists>s'. unchain_dead_markers (\<lambda>p. p = 9) [0] sample_registered = Some s'
          \<and> store_inv (\<lambda>u. if u \<in> set [0] then filter (\<lambda>p. p = 9) (cs u) else cs u) s')"
  by (rule marker_loops_return [OF sample_reachable])

text \<open>C19: markers follow the text. When a measured range of the text is replaced by measured bytes and
  every marker on the chain of the text stands on a character position, then adjusting the markers
  for the replacement returns, leaves every marker on a character position of the new text, keeps the
  chains, and touches no marker of another text.\<close>

theorem markers_follow_replacement:
  assumes "store_inv cs s" "markers_valid mb tx (cs t) (ms_heap s)"
    "measured_range mb tx r" "lead_ok mb tx" "measured_text mb bs e"
  shows "\<exists>s'. adjust_markers_for_replace_range t r e s = Some s'
     \<and> adjusted cs t mb (replace_range (er_byte_start r) (er_byte_end r) bs tx) s s'"
  using assms by (rule markers_replace_valid)

definition sample_marker :: "nat \<Rightarrow> nat \<Rightarrow> bool \<Rightarrow> nat option \<Rightarrow> lisp_marker" where
  "sample_marker c b it nxt = fresh_marker\<lparr>mk_charpos := c, mk_bytepos := b, mk_insertion_type := it, mk_next := nxt,
     mk_chained := True\<rparr>"

definition sample_markers :: marker_store where
  "sample_markers = \<lparr>ms_heads = (\<lambda>_. None)(0 := Some 7),
     ms_heap = (\<lambda>_. None)(7 := Some (sample_marker 2 3 True (Some 9)), 9 := Some (sample_marker 1 1 False None))\<rparr>"

definition sample_chains :: "nat \<Rightarrow> nat list" where
  "sample_chains = (\<lambda>_. [])(0 := [7, 9])"

lemma sample_markers_inv: "store_inv sample_chains sample_markers"
  by (auto simp: store_inv_def sample_chains_def sample_markers_def sample_marker_def fresh_marker_def chain_Cons)

definition sample_edit_range :: text_edit_range where
  "sample_edit_range = edit_range_new (byte_range_new 1 3) 1 2"

lemma sample_edit:
  "markers_valid True [0x61, 0xC3, 0xA9, 0x62] (sample_chains 0) (ms_heap sample_markers)"
  "measured_range True [0x61, 0xC3, 0xA9, 0x62] sample_edit_range"
  "lead_ok True [0x61, 0xC3, 0xA9, 0x62]"
  by code_simp+

theorem markers_follow_replacement_witness:
  "\<exists>s'. adjust_markers_for_replace_range 0 sample_edit_range (extent_new 2 2) sample_markers = Some s'
     \<and> adjusted sample_chains 0 True (replace_range (er_byte_start sample_edit_range) (er_byte_end sample_edit_range)
          [0x78, 0x79] [0x61, 0xC3, 0xA9, 0x62]) sample_markers s'"
proof (rule markers_follow_replacement [OF sample_markers_inv sample_edit])
  show "measured_text True [0x78, 0x79] (extent_new 2 2)" by code_simp
qed

text \<open>C29: undoing a deletion puts the markers back. The adjustments recorded for a measured, non-empty range
  before it is deleted are exactly what distinguishes the markers after the deletion and the
  reinsertion of the same extent from where they were: taking the recorded adjustment off the character
  position of a marker (nothing, when none is recorded for it) gives its original position.\<close>

theorem marker_undo_restores:
  assumes "store_inv cs s" "markers_valid mb tx (cs t) (ms_heap s)" "measured_range mb tx r" "lead_ok mb tx"
    "er_byte_start r < er_byte_end r" "p \<in> set (cs t)"
  shows "\<exists>adj s1 s2 m m2. marker_adjustments_for_delete t r s = Some adj
     \<and> adjust_markers_for_delete_range t r s = Some s1
     \<and> adjust_markers_for_insert_extent t (er_byte_start r) (edit_range_extent r) s1 = Some s2
     \<and> ms_heap s p = Some m \<and> ms_heap s2 p = Some m2
     \<and> int (mk_charpos m2) - (case map_of adj p of Some d \<Rightarrow> d | None \<Rightarrow> 0) = int (mk_charpos m)"
proof -
  let ?from = "char_pos0_to_lisp (er_char_start r)" and ?to = "char_pos0_to_lisp (er_char_end r)"
  let ?s = "er_byte_start r" and ?e = "er_byte_end r"
  let ?adj = "\<lambda>p. delete_adjustment ?from ?to (the (ms_heap s p))"
  have ne: "\<not> edit_range_is_empty r" "te_bytes (edit_range_extent r) \<noteq> 0"
    using assms(5) by (auto simp: edit_range_is_empty_def byte_range_is_empty_def edit_range_extent_def extent_new_def
        edit_range_byte_len_def byte_range_len_def)
  obtain m where m: "ms_heap s p = Some m" "valid_anchor mb tx (marker_data_anchor m)"
    using assms(2,6) by (auto simp: markers_valid_iff)
  have def: "\<exists>m'. marker_after_delete r k = Some m'" if "q \<in> set (cs t)" "ms_heap s q = Some k" for q k
    using assms(2) that marker_after_replace_valid [OF assms(3,4) measured_empty, of k]
    unfolding markers_valid_iff marker_after_delete_replace by fastforce
  obtain s1 where s1: "chain_update (marker_after_delete r) t s = Some s1" "store_inv cs s1"
      "ms_heap s1 = (\<lambda>p. if p \<in> set (cs t) then Option.bind (ms_heap s p) (marker_after_delete r) else ms_heap s p)"
    by (rule chain_update_inv [OF assms(1) keeps_links_adjust(4), where t = t]) (use def in auto)
  have tot: "\<exists>m'. marker_after_insert ?s (edit_range_extent r) k = Some m'" for k
    by (simp add: marker_after_insert_def apply_marker_data_delta_def signed_delta_insertion Let_def)
  obtain s2 where s2: "chain_update (marker_after_insert ?s (edit_range_extent r)) t s1 = Some s2"
      "ms_heap s2 = (\<lambda>p. if p \<in> set (cs t) then Option.bind (ms_heap s1 p) (marker_after_insert ?s (edit_range_extent r)) else ms_heap s1 p)"
    by (rule chain_update_inv [OF s1(2) keeps_links_adjust(2), where t = t]) (use tot in auto)
  obtain m1 m2 where m12: "marker_after_delete r m = Some m1" "marker_after_insert ?s (edit_range_extent r) m1 = Some m2"
    using def [OF assms(6) m(1)] tot by blast
  have "marker_adjustments_for_delete t r s = Some (map (\<lambda>p. (p, ?adj p)) (filter (\<lambda>p. ?adj p \<noteq> 0) (cs t)))"
    using delete_adjustments_chain [OF store_invD(2) [OF assms(1)], of ?from ?to t "[]"]
    by (simp add: marker_adjustments_for_delete_def)
  then show ?thesis
    using s1(1) s2(1) ne m m12 s1(3) s2(2) assms(6) marker_delete_insert [OF assms(3-5) m(2) m12]
    by (simp add: adjust_markers_for_delete_range_def adjust_markers_for_insert_extent_def map_of_adjustments)
qed

theorem marker_undo_restores_witness:
  "\<exists>adj s1 s2 m m2. marker_adjustments_for_delete 0 sample_edit_range sample_markers = Some adj
     \<and> adjust_markers_for_delete_range 0 sample_edit_range sample_markers = Some s1
     \<and> adjust_markers_for_insert_extent 0 (er_byte_start sample_edit_range) (edit_range_extent sample_edit_range) s1 = Some s2
     \<and> ms_heap sample_markers 7 = Some m \<and> ms_heap s2 7 = Some m2
     \<and> int (mk_charpos m2) - (case map_of adj 7 of Some d \<Rightarrow> d | None \<Rightarrow> 0) = int (mk_charpos m)"
proof (rule marker_undo_restores [OF sample_markers_inv sample_edit])
  show "er_byte_start sample_edit_range < er_byte_end sample_edit_range" "7 \<in> set (sample_chains 0)" by code_simp+
qed

end
