(* ===== verification/Gap_Compat.thy ===== *)
theory Gap_Compat
  imports Text_Backend
begin

text \<open>
  The gap that a buffer reports to Lisp (\<open>gap-position\<close>, \<open>gap-size\<close>). \<open>gap_after\<close> says how one
  replacement changes the reported gap, in terms of the edit alone. This theory shows that the real
  gap of the gap buffer follows it; \<open>Buffer_Text\<close> shows the same of the virtual gap that is kept
  for the other backends.
\<close>

definition gap_consume :: "nat \<Rightarrow> gap_compat_state \<Rightarrow> gap_compat_state" where
  "gap_consume n g =
     (let size = gc_byte_len g; size = (if size < n then size + ((n - size) + GAP_BYTES_DFL) else size)
      in g\<lparr>gc_byte_len := size - n\<rparr>)"

definition gap_after :: "text_edit_range \<Rightarrow> text_extent \<Rightarrow> gap_compat_state \<Rightarrow> gap_compat_state" where
  "gap_after r e g =
     gap_consume (te_bytes e) \<lparr>gc_pos = er_char_start r + te_chars e, gc_byte_len = gc_byte_len g + edit_range_byte_len r\<rparr>"

lemma gap_after_delete:
  "gap_after r extent_zero g = \<lparr>gc_pos = er_char_start r, gc_byte_len = gc_byte_len g + edit_range_byte_len r\<rparr>"
  by (simp add: gap_after_def gap_consume_def extent_zero_def)

lemma real_gap:
  "gap_inv g \<Longrightarrow> gb_real_gap_compat_state g
     = Some \<lparr>gc_pos = emacs_char_count_bytes (take (gb_gap_start g) (gb_text g)) (gb_multibyte g),
             gc_byte_len = gb_gap_end g - gb_gap_start g\<rparr>"
  by (simp add: gb_real_gap_compat_state_def gap_inv_wf) (simp add: gap_inv_def char_offset_def)

lemma gb_insert_gap:
  assumes inv: "gap_inv g" and p: "is_emacs_char_boundary (gb_text g) p (gb_multibyte g)"
    and e: "measured_text (gb_multibyte g) bs e" "bs \<noteq> []"
    and eq: "gb_insert_measured_emacs_bytes p bs e g = Some g'"
  shows "gb_gap_start g' = p + length bs"
    "gb_gap_end g' - gb_gap_start g'
       = gc_byte_len (gap_consume (te_bytes e) \<lparr>gc_pos = x, gc_byte_len = gb_gap_end g - gb_gap_start g\<rparr>)"
proof -
  obtain g1 where g1: "gb_move_gap_to p g = Some g1" "gap_inv g1" "gb_gap_start g1 = p"
      "gb_gap_end g1 - gb_gap_start g1 = gb_gap_end g - gb_gap_start g"
    by (rule gb_move_gap_to_inv [OF inv p])
  obtain g2 where g2: "gb_ensure_gap (length bs) g1 = Some g2" "gap_inv g2" "gb_gap_start g2 = p"
    by (rule gb_ensure_gap_inv [OF g1(2), of "length bs"]) (simp add: g1(3))
  have le: "gb_gap_start g1 \<le> gb_gap_end g1" using gap_inv_wf [OF g1(2)] by (simp add: gb_wf_def)
  have g2e: "gb_gap_end g2 = (if length bs \<le> gb_gap_end g1 - gb_gap_start g1 then gb_gap_end g1
      else gb_gap_end g1 + (length bs - (gb_gap_end g1 - gb_gap_start g1) + GAP_BYTES_DFL))"
    using g2(1) g1(2)
    by (auto simp: gb_ensure_gap_def gap_inv_wf Let_def bind_eq_Some_conv chk_sub_def split: if_splits)
  have te: "te_bytes e = length bs" using e(1) by (simp add: measured_text_def)
  have g': "gb_gap_start g' = gb_gap_start g2 + length bs" "gb_gap_end g' = gb_gap_end g2"
    using eq e(2) g1(1) g2(1)
    by (auto simp: gb_insert_measured_emacs_bytes_def Let_def bind_eq_Some_conv
        gb_adjust_position_anchors_for_insert_def panic_unless_def split: if_splits)
  show "gb_gap_start g' = p + length bs" using g' g2(3) by simp
  show "gb_gap_end g' - gb_gap_start g'
       = gc_byte_len (gap_consume (te_bytes e) \<lparr>gc_pos = x, gc_byte_len = gb_gap_end g - gb_gap_start g\<rparr>)"
    using le by (simp add: g' g2(3) g2e te gap_consume_def g1(3) g1(4) [symmetric] not_le Let_def)
qed
lemma gb_delete_gap:
  assumes inv: "gap_inv g" and r: "measured_range (gb_multibyte g) (gb_text g) r" "er_byte_start r < er_byte_end r"
    and eq: "gb_delete_measured_range r g = Some g'"
  shows "gb_gap_start g' = er_byte_start r"
    "gb_gap_end g' - gb_gap_start g' = gb_gap_end g - gb_gap_start g + (er_byte_end r - er_byte_start r)"
proof -
  let ?s = "er_byte_start r" and ?e = "er_byte_end r"
  note m = measured_rangeD [OF r(1)]
  obtain g1 where g1: "gb_emacs_byte_pos_to_char_pos ?e g = Some (er_char_end r, g1)" "gap_inv g1"
    "gb_text g1 = gb_text g" "gb_multibyte g1 = gb_multibyte g" "gb_gap_start g1 = gb_gap_start g" "gb_gap_end g1 = gb_gap_end g"
    using gb_byte_to_char_inv [OF inv m(2)] m(4) by (auto simp: char_offset_def)
  obtain g2 where g2: "gb_emacs_byte_pos_to_char_pos ?s g1 = Some (er_char_start r, g2)" "gap_inv g2"
    "gb_text g2 = gb_text g" "gb_multibyte g2 = gb_multibyte g" "gb_gap_start g2 = gb_gap_start g" "gb_gap_end g2 = gb_gap_end g"
    using gb_byte_to_char_inv [OF g1(2), of ?s] m(1,3) g1 by (auto simp: char_offset_def)
  obtain g3 where g3: "gb_move_gap_both ?s (er_char_start r) g2 = Some g3" "gap_inv g3" "gb_gap_start g3 = ?s"
    "gb_gap_end g3 - gb_gap_start g3 = gb_gap_end g - gb_gap_start g"
    using gb_move_gap_both_inv [OF g2(2) m(3) [folded g2(3,4)]] g2(5,6) by metis
  have le: "gb_gap_start g3 \<le> gb_gap_end g3" using gap_inv_wf [OF g3(2)] by (simp add: gb_wf_def)
  have "gb_gap_start g' = gb_gap_start g3" "gb_gap_end g' = gb_gap_end g3 + (?e - ?s)"
    using eq r(2) g1(1) g2(1) g3(1)
    by (auto simp: gb_delete_measured_range_def Let_def bind_eq_Some_conv gb_adjust_position_anchors_for_delete_def
        panic_unless_def split: if_splits)
  then show "gb_gap_start g' = ?s" "gb_gap_end g' - gb_gap_start g' = gb_gap_end g - gb_gap_start g + (?e - ?s)"
    using g3 le by auto
qed

lemma char_count_take_insert:
  assumes "p \<le> length tx"
  shows "emacs_char_count_bytes (take (p + length bs) (insert_at p bs tx)) mb
     = emacs_char_count_bytes (take p tx) mb + emacs_char_count_bytes bs mb"
  using assms by (simp add: insert_at_def min_absorb1)

lemma gb_insert_reports:
  assumes inv: "gap_inv g" and p: "char_offset (gb_multibyte g) (gb_text g) c p"
    and e: "measured_text (gb_multibyte g) bs e" "bs \<noteq> []"
    and eq: "gb_insert_measured_emacs_bytes p bs e g = Some g'" and real: "gb_real_gap_compat_state g = Some st"
  shows "gb_real_gap_compat_state g' = Some (gap_consume (te_bytes e) (st\<lparr>gc_pos := c + te_chars e\<rparr>))"
proof -
  have b: "is_emacs_char_boundary (gb_text g) p (gb_multibyte g)" using p by (simp add: char_offset_def)
  obtain g2 where g2: "gb_insert_measured_emacs_bytes p bs e g = Some g2" "gap_inv g2"
      "gb_multibyte g2 = gb_multibyte g" "gb_text g2 = insert_at p bs (gb_text g)"
    by (rule gb_insert_inv [OF inv b e(1)])
  then have g': "gap_inv g'" "gb_multibyte g' = gb_multibyte g" "gb_text g' = insert_at p bs (gb_text g)"
    using eq by simp_all
  have "emacs_char_count_bytes (take (gb_gap_start g') (gb_text g')) (gb_multibyte g') = c + te_chars e"
    using gb_insert_gap(1) [OF inv b e eq] g' char_count_take_insert [OF boundary_le [OF b]] p e(1)
    by (simp add: char_offset_def measured_text_def)
  then show ?thesis
    using real_gap [OF g'(1)] real_gap [OF inv] real gb_insert_gap(2) [OF inv b e eq]
    by (auto simp: gap_consume_def Let_def)
qed

lemma gb_delete_reports:
  assumes inv: "gap_inv g" and r: "measured_range (gb_multibyte g) (gb_text g) r" "er_byte_start r < er_byte_end r"
    and eq: "gb_delete_measured_range r g = Some g'" and real: "gb_real_gap_compat_state g = Some st"
  shows "gb_real_gap_compat_state g' = Some (gap_after r extent_zero st)"
proof -
  note m = measured_rangeD [OF r(1)]
  obtain g2 where "gb_delete_measured_range r g = Some g2" "gap_inv g2"
      "gb_multibyte g2 = gb_multibyte g" "gb_text g2 = delete_range (er_byte_start r) (er_byte_end r) (gb_text g)"
    by (rule gb_delete_inv [OF inv r(1)])
  then have g': "gap_inv g'" "gb_multibyte g' = gb_multibyte g"
      "gb_text g' = delete_range (er_byte_start r) (er_byte_end r) (gb_text g)"
    using eq by simp_all
  have "take (er_byte_start r) (gb_text g') = take (er_byte_start r) (gb_text g)"
    using m(5,6) by (simp add: g' delete_range_def min_absorb1)
  then show ?thesis
    using real_gap [OF g'(1)] real_gap [OF inv] real gb_delete_gap [OF inv r eq] g' m(3)
    by (simp add: gap_after_delete char_offset_def edit_range_byte_len_def byte_range_len_def)
qed

lemma gb_replace_reports:
  assumes inv: "gap_inv g" and r: "measured_range (gb_multibyte g) (gb_text g) (tr_old rep)"
    and e: "measured_text (gb_multibyte g) bs (tr_new rep)"
    and ne: "\<not> (edit_range_is_empty (tr_old rep) \<and> bs = [])"
    and eq: "gb_replace_measured_range rep bs g = Some g'" and real: "gb_real_gap_compat_state g = Some st"
  shows "gb_real_gap_compat_state g' = Some (gap_after (tr_old rep) (tr_new rep) st)"
proof -
  let ?r = "tr_old rep"
  note m = measured_rangeD [OF r]
  consider (ins) "edit_range_is_empty ?r" "bs \<noteq> []" | (del) "\<not> edit_range_is_empty ?r" "bs = []"
    | (both) "\<not> edit_range_is_empty ?r" "bs \<noteq> []" using ne by blast
  then show ?thesis
  proof cases
    case ins
    then have "edit_range_byte_len ?r = 0"
      by (simp add: edit_range_is_empty_def byte_range_is_empty_def edit_range_byte_len_def byte_range_len_def)
    then show ?thesis
      using gb_insert_reports [OF inv m(3) e ins(2) _ real] eq ins
      by (cases st) (simp add: gb_replace_measured_range_def gap_after_def)
  next
    case del
    then have "tr_new rep = extent_zero" "er_byte_start ?r < er_byte_end ?r"
      using e by (auto simp: measured_text_def extent_from_emacs_bytes_def extent_new_def extent_zero_def
          edit_range_is_empty_def byte_range_is_empty_def)
    then show ?thesis using gb_delete_reports [OF inv r _ _ real] eq del by (simp add: gb_replace_measured_range_def)
  next
    case both
    then have lt: "er_byte_start ?r < er_byte_end ?r" by (auto simp: edit_range_is_empty_def byte_range_is_empty_def)
    obtain g1 where g1: "gb_delete_measured_range ?r g = Some g1" "gap_inv g1" "gb_multibyte g1 = gb_multibyte g"
        "gb_text g1 = delete_range (er_byte_start ?r) (er_byte_end ?r) (gb_text g)"
      by (rule gb_delete_inv [OF inv r])
    have off: "char_offset (gb_multibyte g1) (gb_text g1) (er_char_start ?r) (er_byte_start ?r)"
      unfolding g1 using m inv by (intro char_offset_delete_before) (auto simp: gap_inv_def)
    have eq2: "gb_insert_measured_emacs_bytes (er_byte_start ?r) bs (tr_new rep) g1 = Some g'"
      using eq both g1(1) by (simp add: gb_replace_measured_range_def Let_def)
    show ?thesis
      using gb_insert_reports [OF g1(2) off _ both(2) eq2 gb_delete_reports [OF inv r lt g1(1) real]] e g1(3)
      by (simp add: gap_after_delete) (simp add: gap_after_def)
  qed
qed

end
