(* ===== verification/Buffer_Text.thy ===== *)
theory Buffer_Text
  imports Position_Scan Buffer_Markers Gap_Compat
begin

text \<open>
  The text object of a buffer, \<open>BufferText\<close> and \<open>BufferTextStorage\<close> of
  \<open>src/crates/neovm-core/src/buffer/buffer_text.rs\<close>: the backend, its metrics, the content epoch, the
  virtual gap that backends without a gap report, and the caches that make position conversion fast
  (the last conversion, a span proven to be single-byte, a sorted table of scan anchors), together
  with the conversions that use the caches and the edits that keep them up to date.

  The storage record has the fields of the struct that these operations use. The copy-on-write
  sharing of the backend is not visible in its value; the syntax memos, the line index, the text
  properties and the modification ticks are not modelled. The markers of the text are those on the
  chain \<open>st_markers\<close> of a marker store. Conversions return the storage as well, since they update
  the caches.
\<close>

subsection \<open>Edits seen by an anchor\<close>

record position_edit =
  pe_at_byte :: emacs_byte_pos
  pe_at_char :: "char_pos0 option"
  pe_old :: text_extent
  pe_new :: text_extent

definition position_edit_insert :: "emacs_byte_pos \<Rightarrow> text_extent \<Rightarrow> position_edit" where
  "position_edit_insert at e = \<lparr>pe_at_byte = at, pe_at_char = None, pe_old = extent_zero, pe_new = e\<rparr>"

definition position_edit_replace :: "text_edit_range \<Rightarrow> text_extent \<Rightarrow> position_edit" where
  "position_edit_replace r e =
     \<lparr>pe_at_byte = er_byte_start r, pe_at_char = Some (er_char_start r),
      pe_old = extent_new (saturating_offset_from (er_char_end r) (er_char_start r)) (edit_range_byte_len r),
      pe_new = e\<rparr>"

text \<open>The signed shift is computed in \<open>i64\<close> and cast back to \<open>usize\<close>.\<close>

definition position_edit_adjust :: "position_edit \<Rightarrow> text_position_anchor \<Rightarrow> text_position_anchor option" where
  "position_edit_adjust ed a =
     (let at = pe_at_byte ed; old_end = at + te_bytes (pe_old ed)
      in if ta_byte a \<le> at then Some a
         else if ta_byte a < old_end then None
         else if ta_byte a = old_end then do {
           at_char \<leftarrow> pe_at_char ed;
           Some (anchor_new (at_char + te_chars (pe_new ed)) (at + te_bytes (pe_new ed)))
         }
         else Some (anchor_new
           (nat ((int (ta_char a) + int (te_chars (pe_new ed)) - int (te_chars (pe_old ed))) mod 2 ^ 64))
           (nat ((int (ta_byte a) + int (te_bytes (pe_new ed)) - int (te_bytes (pe_old ed))) mod 2 ^ 64))))"

subsection \<open>Caches\<close>

record position_cache =
  ca_epoch :: u64
  ca_anchor :: text_position_anchor

definition position_cache_default :: position_cache where
  "position_cache_default = \<lparr>ca_epoch = 0, ca_anchor = anchor_zero\<rparr>"

definition cache_is_valid_for :: "position_cache \<Rightarrow> u64 \<Rightarrow> bool" where
  "cache_is_valid_for c content_epoch \<longleftrightarrow> ca_epoch c \<noteq> 0 \<and> ca_epoch c = content_epoch"

record single_byte_position_span =
  sp_epoch :: u64
  sp_start :: text_position_anchor
  sp_len :: emacs_byte_len

definition span_default :: single_byte_position_span where
  "span_default = \<lparr>sp_epoch = 0, sp_start = anchor_zero, sp_len = 0\<rparr>"

definition span_from_bounds :: "u64 \<Rightarrow> text_position_bounds \<Rightarrow> single_byte_position_span option option" where
  "span_from_bounds epoch bounds = do {
     nbytes \<leftarrow> chk_sub (ta_byte (tb_above bounds)) (ta_byte (tb_below bounds));
     chars \<leftarrow> chk_sub (ta_char (tb_above bounds)) (ta_char (tb_below bounds));
     Some (if nbytes \<noteq> 0 \<and> nbytes = chars
           then Some \<lparr>sp_epoch = epoch, sp_start = tb_below bounds, sp_len = nbytes\<rparr> else None)
   }"

definition span_char_to_byte :: "single_byte_position_span \<Rightarrow> u64 \<Rightarrow> char_pos0 \<Rightarrow> emacs_byte_pos option" where
  "span_char_to_byte sp epoch target =
     (if sp_epoch sp = 0 \<or> sp_epoch sp \<noteq> epoch then None
      else do {
        offset \<leftarrow> chk_sub target (ta_char (sp_start sp));
        if offset \<le> sp_len sp then Some (ta_byte (sp_start sp) + offset) else None
      })"

definition span_byte_to_char :: "single_byte_position_span \<Rightarrow> u64 \<Rightarrow> emacs_byte_pos \<Rightarrow> char_pos0 option" where
  "span_byte_to_char sp epoch target =
     (if sp_epoch sp = 0 \<or> sp_epoch sp \<noteq> epoch then None
      else do {
        offset \<leftarrow> chk_sub target (ta_byte (sp_start sp));
        if offset \<le> sp_len sp then Some (ta_char (sp_start sp) + offset) else None
      })"

subsection \<open>The storage\<close>

record buffer_storage =
  st_metrics :: text_metrics
  st_backend :: backend
  st_content_epoch :: u64
  st_virtual_gap :: gap_compat_state
  st_markers :: nat
  st_pos_cache :: position_cache
  st_single_byte_span :: single_byte_position_span
  st_anchor_cache :: "text_position_anchor list"
  st_anchor_cache_key :: u64
  st_anchor_cache_cursor :: nat

definition st_gap_compat_state :: "buffer_storage \<Rightarrow> gap_compat_state option" where
  "st_gap_compat_state s = do {
     real \<leftarrow> tb_real_gap_compat_state (st_backend s);
     Some (case real of Some g \<Rightarrow> g | None \<Rightarrow> st_virtual_gap s)
   }"

definition st_uses_virtual_gap :: "buffer_storage \<Rightarrow> bool option" where
  "st_uses_virtual_gap s = do {
     real \<leftarrow> tb_real_gap_compat_state (st_backend s);
     Some (real = None)
   }"

definition st_from_backend :: "nat \<Rightarrow> backend \<Rightarrow> buffer_storage option" where
  "st_from_backend t b = do {
     metrics \<leftarrow> tb_metrics b;
     real \<leftarrow> tb_real_gap_compat_state b;
     let virtual_gap = (case real of Some g \<Rightarrow> g | None \<Rightarrow> \<lparr>gc_pos = tm_chars metrics, gc_byte_len = GAP_BYTES_MIN\<rparr>);
     Some \<lparr>st_metrics = metrics, st_backend = b, st_content_epoch = 1, st_virtual_gap = virtual_gap, st_markers = t,
           st_pos_cache = position_cache_default, st_single_byte_span = span_default, st_anchor_cache = [],
           st_anchor_cache_key = 0, st_anchor_cache_cursor = 0\<rparr>
   }"

subsection \<open>After a mutation\<close>

definition refresh_backend_metrics :: "buffer_storage \<Rightarrow> buffer_storage option" where
  "refresh_backend_metrics s = do { m \<leftarrow> tb_metrics (st_backend s); Some (s\<lparr>st_metrics := m\<rparr>) }"

definition invalidate_position_caches :: "buffer_storage \<Rightarrow> buffer_storage" where
  "invalidate_position_caches s =
     s\<lparr>st_pos_cache := position_cache_default, st_single_byte_span := span_default, st_anchor_cache := [],
       st_anchor_cache_key := 0\<rparr>"

definition next_epoch :: "u64 \<Rightarrow> u64" where
  "next_epoch e = max (e + 1) 1"

definition finish_backend_content_mutation :: "buffer_storage \<Rightarrow> buffer_storage option" where
  "finish_backend_content_mutation s = do {
     s \<leftarrow> refresh_backend_metrics s;
     let s = s\<lparr>st_content_epoch := next_epoch (st_content_epoch s)\<rparr>;
     Some (invalidate_position_caches s)
   }"

definition position_cache_after_edit :: "position_edit \<Rightarrow> u64 \<Rightarrow> position_cache \<Rightarrow> position_cache" where
  "position_cache_after_edit ed epoch cached =
     (case position_edit_adjust ed (ca_anchor cached) of
        Some a \<Rightarrow> if ca_epoch cached \<noteq> 0 then \<lparr>ca_epoch = epoch, ca_anchor = a\<rparr> else position_cache_default
      | None \<Rightarrow> position_cache_default)"

definition finish_backend_content_mutation_with_edit :: "position_edit \<Rightarrow> buffer_storage \<Rightarrow> buffer_storage option" where
  "finish_backend_content_mutation_with_edit ed s = do {
     s \<leftarrow> refresh_backend_metrics s;
     let epoch = next_epoch (st_content_epoch s);
     let s = s\<lparr>st_content_epoch := epoch, st_single_byte_span := span_default\<rparr>;
     let s = s\<lparr>st_pos_cache := position_cache_after_edit ed epoch (st_pos_cache s)\<rparr>;
     let ring_was_current = (st_anchor_cache_key s = epoch - 1 \<and> epoch - 1 \<noteq> 0);
     if ring_was_current then do {
       let ring = List.map_filter (position_edit_adjust ed) (st_anchor_cache s);
       Some (s\<lparr>st_anchor_cache := ring,
               st_anchor_cache_cursor := (if length ring \<le> st_anchor_cache_cursor s then 0 else st_anchor_cache_cursor s),
               st_anchor_cache_key := epoch\<rparr>)
     }
     else Some (s\<lparr>st_anchor_cache := [], st_anchor_cache_key := 0\<rparr>)
   }"

definition finish_backend_shape_change :: "buffer_storage \<Rightarrow> buffer_storage option" where
  "finish_backend_shape_change s = do {
     s \<leftarrow> refresh_backend_metrics s;
     Some (invalidate_position_caches s)
   }"

subsection \<open>The virtual gap\<close>

definition virtual_gap_consume_bytes :: "emacs_byte_len \<Rightarrow> buffer_storage \<Rightarrow> buffer_storage" where
  "virtual_gap_consume_bytes n s =
     (let size = gc_byte_len (st_virtual_gap s);
          size = (if size < n then size + ((n - size) + GAP_BYTES_DFL) else size)
      in s\<lparr>st_virtual_gap := (st_virtual_gap s)\<lparr>gc_byte_len := size - n\<rparr>\<rparr>)"

definition note_virtual_gap_insert :: "emacs_byte_pos \<Rightarrow> text_extent \<Rightarrow> buffer_storage \<Rightarrow> buffer_storage option" where
  "note_virtual_gap_insert pos e s = do {
     virtual \<leftarrow> st_uses_virtual_gap s;
     if \<not> virtual then Some s
     else do {
       (start_char, b) \<leftarrow> tb_emacs_byte_pos_to_char_pos pos (st_backend s);
       let s = s\<lparr>st_backend := b, st_virtual_gap := (st_virtual_gap s)\<lparr>gc_pos := start_char + te_chars e\<rparr>\<rparr>;
       Some (virtual_gap_consume_bytes (te_bytes e) s)
     }
   }"

definition note_virtual_gap_delete :: "text_edit_range \<Rightarrow> buffer_storage \<Rightarrow> buffer_storage option" where
  "note_virtual_gap_delete r s = do {
     virtual \<leftarrow> st_uses_virtual_gap s;
     Some (if \<not> virtual then s
           else s\<lparr>st_virtual_gap :=
             \<lparr>gc_pos = er_char_start r, gc_byte_len = gc_byte_len (st_virtual_gap s) + edit_range_byte_len r\<rparr>\<rparr>)
   }"

definition note_virtual_gap_replace :: "text_replacement \<Rightarrow> buffer_storage \<Rightarrow> buffer_storage option" where
  "note_virtual_gap_replace rep s = do {
     virtual \<leftarrow> st_uses_virtual_gap s;
     if \<not> virtual then Some s
     else do {
       let s = s\<lparr>st_virtual_gap :=
         \<lparr>gc_pos = er_char_start (tr_old rep) + te_chars (tr_new rep),
          gc_byte_len = gc_byte_len (st_virtual_gap s) + edit_range_byte_len (tr_old rep)\<rparr>\<rparr>;
       Some (virtual_gap_consume_bytes (te_bytes (tr_new rep)) s)
     }
   }"

definition note_virtual_gap_same_len_replace :: "text_replacement \<Rightarrow> bytes \<Rightarrow> buffer_storage \<Rightarrow> buffer_storage option" where
  "note_virtual_gap_same_len_replace rep bs s = do {
     virtual \<leftarrow> st_uses_virtual_gap s;
     if \<not> virtual then Some s
     else do {
       let r = tr_old rep;
       (gap_byte, b) \<leftarrow> tb_char_pos_to_emacs_byte_pos (gc_pos (st_virtual_gap s)) (st_backend s);
       let s = s\<lparr>st_backend := b\<rparr>;
       let before_gap_len = (if er_byte_start r < gap_byte
                             then saturating_offset_from (min (er_byte_end r) gap_byte) (er_byte_start r) else 0);
       if before_gap_len = 0 then Some s
       else do {
         (split_char, b) \<leftarrow> (if before_gap_len = edit_range_byte_len r then Some (er_char_end r, st_backend s)
                             else tb_emacs_byte_pos_to_char_pos (er_byte_start r + before_gap_len) (st_backend s));
         let s = s\<lparr>st_backend := b\<rparr>;
         let old_before_chars = saturating_offset_from split_char (er_char_start r);
         prefix \<leftarrow> slice bs 0 before_gap_len;
         let new_before_chars = te_chars (extent_from_emacs_bytes prefix (tb_is_multibyte (st_backend s)));
         Some (if old_before_chars \<noteq> new_before_chars
               then s\<lparr>st_virtual_gap := (st_virtual_gap s)\<lparr>gc_pos :=
                 saturating_add_signed (gc_pos (st_virtual_gap s)) (int new_before_chars - int old_before_chars)\<rparr>\<rparr>
               else s)
       }
     }
   }"

subsection \<open>Edits\<close>

definition st_insert_measured_emacs_bytes ::
    "emacs_byte_pos \<Rightarrow> bytes \<Rightarrow> text_extent \<Rightarrow> buffer_storage \<Rightarrow> buffer_storage option" where
  "st_insert_measured_emacs_bytes pos bs e s =
     (if bs = [] then Some s
      else do {
        s \<leftarrow> note_virtual_gap_insert pos e s;
        b \<leftarrow> tb_insert_measured_emacs_bytes pos bs e (st_backend s);
        finish_backend_content_mutation_with_edit (position_edit_insert pos e) (s\<lparr>st_backend := b\<rparr>)
      })"

definition st_delete_measured_range :: "text_edit_range \<Rightarrow> buffer_storage \<Rightarrow> buffer_storage option" where
  "st_delete_measured_range r s =
     (if edit_range_is_empty r then Some s
      else do {
        s \<leftarrow> note_virtual_gap_delete r s;
        b \<leftarrow> tb_delete_measured_range r (st_backend s);
        finish_backend_content_mutation_with_edit (position_edit_replace r extent_zero) (s\<lparr>st_backend := b\<rparr>)
      })"

definition st_replace_measured_range :: "text_replacement \<Rightarrow> bytes \<Rightarrow> buffer_storage \<Rightarrow> buffer_storage option" where
  "st_replace_measured_range rep bs s =
     (if edit_range_is_empty (tr_old rep) \<and> bs = [] then Some s
      else do {
        s \<leftarrow> note_virtual_gap_replace rep s;
        b \<leftarrow> tb_replace_measured_range rep bs (st_backend s);
        finish_backend_content_mutation_with_edit (position_edit_replace (tr_old rep) (tr_new rep)) (s\<lparr>st_backend := b\<rparr>)
      })"

definition st_replace_same_len_measured_range :: "text_replacement \<Rightarrow> bytes \<Rightarrow> buffer_storage \<Rightarrow> buffer_storage option" where
  "st_replace_same_len_measured_range rep bs s =
     (if edit_range_is_empty (tr_old rep) then Some s
      else do {
        panic_unless (edit_range_byte_len (tr_old rep) = te_bytes (tr_new rep));
        s \<leftarrow> note_virtual_gap_same_len_replace rep bs s;
        b \<leftarrow> tb_replace_same_len_measured_range rep bs (st_backend s);
        finish_backend_content_mutation_with_edit (position_edit_replace (tr_old rep) (tr_new rep)) (s\<lparr>st_backend := b\<rparr>)
      })"

definition st_set_multibyte :: "bool \<Rightarrow> buffer_storage \<Rightarrow> buffer_storage option" where
  "st_set_multibyte mb s =
     (if tb_is_multibyte (st_backend s) = mb then Some s
      else do {
        b \<leftarrow> tb_set_multibyte mb (st_backend s);
        finish_backend_content_mutation (s\<lparr>st_backend := b\<rparr>)
      })"

definition st_convert_backend_kind :: "backend_kind \<Rightarrow> buffer_storage \<Rightarrow> buffer_storage option" where
  "st_convert_backend_kind kind s =
     (if tb_kind (st_backend s) = kind then Some s
      else do {
        gap_compat \<leftarrow> st_gap_compat_state s;
        sn \<leftarrow> tb_snapshot (st_backend s);
        b \<leftarrow> tb_from_snapshot_with_gap_compat_state sn kind gap_compat;
        finish_backend_shape_change (s\<lparr>st_backend := b, st_virtual_gap := gap_compat\<rparr>)
      })"

definition gap_position_lisp :: "buffer_storage \<Rightarrow> int option" where
  "gap_position_lisp s = do { g \<leftarrow> st_gap_compat_state s; Some (gap_lisp_position g) }"

definition gap_size_lisp :: "buffer_storage \<Rightarrow> int option" where
  "gap_size_lisp s = do { g \<leftarrow> st_gap_compat_state s; Some (gap_lisp_size g) }"

subsection \<open>The table of scan anchors\<close>

definition POSITION_DISTANCE_BASE :: nat where "POSITION_DISTANCE_BASE = 50"
definition POSITION_DISTANCE_INCR :: nat where "POSITION_DISTANCE_INCR = 50"
definition POSITION_ANCHOR_STRIDE :: nat where "POSITION_ANCHOR_STRIDE = 512"
definition POSITION_ANCHOR_TABLE_CAP :: nat where "POSITION_ANCHOR_TABLE_CAP = 4096"

text \<open>
  \<open>partition_point\<close> of the standard library, a binary search that expects the slice to be
  partitioned by the predicate; the table is sorted, which the invariant below maintains.
\<close>

definition partition_point :: "('a \<Rightarrow> bool) \<Rightarrow> 'a list \<Rightarrow> nat" where
  "partition_point P xs = length (takeWhile P xs)"

fun every_second :: "'a list \<Rightarrow> 'a list" where
  "every_second (x # y # xs) = y # every_second xs"
| "every_second xs = []"

definition remember_scan_anchor :: "text_position_anchor \<Rightarrow> buffer_storage \<Rightarrow> buffer_storage option" where
  "remember_scan_anchor a s = do {
     let cache = st_anchor_cache s;
     let idx = partition_point (\<lambda>x. ta_byte x < ta_byte a) cache;
     let near = POSITION_ANCHOR_STRIDE div 2;
     near_above \<leftarrow> (if idx < length cache then do { d \<leftarrow> chk_sub (ta_byte (cache ! idx)) (ta_byte a); Some (d < near) }
                     else Some False);
     if near_above then Some s
     else do {
       near_below \<leftarrow> (if 0 < idx then do { d \<leftarrow> chk_sub (ta_byte a) (ta_byte (cache ! (idx - 1))); Some (d < near) }
                       else Some False);
       if near_below then Some s
       else if POSITION_ANCHOR_TABLE_CAP \<le> length cache then do {
         let cache = every_second cache;
         let idx = partition_point (\<lambda>x. ta_byte x < ta_byte a) cache;
         Some (s\<lparr>st_anchor_cache := insert_at idx [a] cache\<rparr>)
       }
       else Some (s\<lparr>st_anchor_cache := insert_at idx [a] cache\<rparr>)
     }
   }"

definition ensure_position_anchor_cache_current :: "buffer_storage \<Rightarrow> buffer_storage" where
  "ensure_position_anchor_cache_current s =
     (if st_anchor_cache_key s \<noteq> st_content_epoch s
      then s\<lparr>st_anchor_cache := [], st_anchor_cache_key := st_content_epoch s\<rparr> else s)"

definition remember_single_byte_span :: "text_position_bounds \<Rightarrow> buffer_storage \<Rightarrow> buffer_storage option" where
  "remember_single_byte_span bounds s = do {
     found \<leftarrow> span_from_bounds (st_content_epoch s) bounds;
     Some (case found of Some sp \<Rightarrow> s\<lparr>st_single_byte_span := sp\<rparr> | None \<Rightarrow> s)
   }"

definition set_pos_cache :: "text_position_anchor \<Rightarrow> buffer_storage \<Rightarrow> buffer_storage" where
  "set_pos_cache a s = s\<lparr>st_pos_cache := \<lparr>ca_epoch = st_content_epoch s, ca_anchor = a\<rparr>\<rparr>"

subsection \<open>Bracketing a position\<close>

partial_function (option) marker_char_bounds ::
    "char_pos0 \<Rightarrow> char_len \<Rightarrow> nat option \<Rightarrow> marker_heap \<Rightarrow> text_position_bounds \<Rightarrow> text_position_bounds option" where
  "marker_char_bounds target distance cur h bounds = (case cur of
       None \<Rightarrow> Some bounds
     | Some p \<Rightarrow> Option.bind (h p) (\<lambda>m.
         let bounds = consider_char_anchor target (marker_data_anchor m) bounds
         in if char_target_is_near bounds target distance then Some bounds
            else marker_char_bounds target (distance + POSITION_DISTANCE_INCR) (mk_next m) h bounds))"

partial_function (option) marker_byte_bounds ::
    "emacs_byte_pos \<Rightarrow> emacs_byte_len \<Rightarrow> nat option \<Rightarrow> marker_heap \<Rightarrow> text_position_bounds \<Rightarrow> text_position_bounds option" where
  "marker_byte_bounds target distance cur h bounds = (case cur of
       None \<Rightarrow> Some bounds
     | Some p \<Rightarrow> Option.bind (h p) (\<lambda>m.
         let bounds = consider_byte_anchor target (marker_data_anchor m) bounds
         in if byte_target_is_near bounds target distance then Some bounds
            else marker_byte_bounds target (distance + POSITION_DISTANCE_INCR) (mk_next m) h bounds))"

lemma marker_char_bounds_code [code]:
  "marker_char_bounds c d None h bs = Some bs"
  "marker_char_bounds c d (Some p) h bs = (case h p of None \<Rightarrow> None | Some m \<Rightarrow>
     (let bs = consider_char_anchor c (marker_data_anchor m) bs
      in if char_target_is_near bs c d then Some bs
         else marker_char_bounds c (d + POSITION_DISTANCE_INCR) (mk_next m) h bs))"
  by (subst marker_char_bounds.simps; simp split: option.split)+

lemma marker_byte_bounds_code [code]:
  "marker_byte_bounds k d None h bs = Some bs"
  "marker_byte_bounds k d (Some p) h bs = (case h p of None \<Rightarrow> None | Some m \<Rightarrow>
     (let bs = consider_byte_anchor k (marker_data_anchor m) bs
      in if byte_target_is_near bs k d then Some bs
         else marker_byte_bounds k (d + POSITION_DISTANCE_INCR) (mk_next m) h bs))"
  by (subst marker_byte_bounds.simps; simp split: option.split)+

text \<open>The bracket from the ends of the text, the hint of the backend and the last conversion.\<close>

definition mini_char_bounds :: "buffer_storage \<Rightarrow> char_pos0 \<Rightarrow> text_position_bounds" where
  "mini_char_bounds s target =
     (let bounds = bounds_new (anchor_new (tm_chars (st_metrics s)) (tm_bytes (st_metrics s)));
          bounds = hint_consider_char_anchor (tb_storage_position_hint (st_backend s)) bounds target
      in if cache_is_valid_for (st_pos_cache s) (st_content_epoch s)
         then consider_char_anchor target (ca_anchor (st_pos_cache s)) bounds else bounds)"

definition mini_byte_bounds :: "buffer_storage \<Rightarrow> emacs_byte_pos \<Rightarrow> text_position_bounds" where
  "mini_byte_bounds s target =
     (let bounds = bounds_new (anchor_new (tm_chars (st_metrics s)) (tm_bytes (st_metrics s)));
          bounds = hint_consider_byte_anchor (tb_storage_position_hint (st_backend s)) bounds target
      in if cache_is_valid_for (st_pos_cache s) (st_content_epoch s)
         then consider_byte_anchor target (ca_anchor (st_pos_cache s)) bounds else bounds)"

definition char_position_bounds :: "marker_store \<Rightarrow> buffer_storage \<Rightarrow> char_pos0 \<Rightarrow> text_position_bounds option" where
  "char_position_bounds ms s target = do {
     let bounds = mini_char_bounds s target;
     let cache = st_anchor_cache s;
     let idx = partition_point (\<lambda>a. ta_char a < target) cache;
     let bounds = (if idx < length cache then consider_char_anchor target (cache ! idx) bounds else bounds);
     let bounds = (if 0 < idx then consider_char_anchor target (cache ! (idx - 1)) bounds else bounds);
     marker_char_bounds target POSITION_DISTANCE_BASE (ms_heads ms (st_markers s)) (ms_heap ms) bounds
   }"

definition byte_position_bounds :: "marker_store \<Rightarrow> buffer_storage \<Rightarrow> emacs_byte_pos \<Rightarrow> text_position_bounds option" where
  "byte_position_bounds ms s target = do {
     let bounds = mini_byte_bounds s target;
     let cache = st_anchor_cache s;
     let idx = partition_point (\<lambda>a. ta_byte a < target) cache;
     let bounds = (if idx < length cache then consider_byte_anchor target (cache ! idx) bounds else bounds);
     let bounds = (if 0 < idx then consider_byte_anchor target (cache ! (idx - 1)) bounds else bounds);
     marker_byte_bounds target POSITION_DISTANCE_BASE (ms_heads ms (st_markers s)) (ms_heap ms) bounds
   }"

subsection \<open>Converting positions\<close>

definition st_char_to_byte_scan :: "marker_store \<Rightarrow> char_pos0 \<Rightarrow> buffer_storage \<Rightarrow> (emacs_byte_pos \<times> buffer_storage) option" where
  "st_char_to_byte_scan ms target s = do {
     bounds \<leftarrow> char_position_bounds ms s target;
     found \<leftarrow> interpolate_char bounds target;
     case found of
       Some result \<Rightarrow> do {
         s \<leftarrow> remember_single_byte_span bounds s;
         Some (result, set_pos_cache (anchor_new target result) s)
       }
     | None \<Rightarrow> do {
         let nearest = nearest_char_anchor bounds target;
         result \<leftarrow> (if ta_char nearest \<le> target then scan_forward (st_backend s) nearest target
                    else scan_backward (st_backend s) nearest target);
         s \<leftarrow> (if POSITION_ANCHOR_STRIDE < min_char_walk bounds target
               then remember_scan_anchor (anchor_new target result) s else Some s);
         Some (result, set_pos_cache (anchor_new target result) s)
       }
   }"

definition st_char_pos_to_emacs_byte_pos_multibyte ::
    "marker_store \<Rightarrow> char_pos0 \<Rightarrow> buffer_storage \<Rightarrow> (emacs_byte_pos \<times> buffer_storage) option" where
  "st_char_pos_to_emacs_byte_pos_multibyte ms target s =
     (if tm_chars (st_metrics s) \<le> target then Some (tm_bytes (st_metrics s), s)
      else if tm_chars (st_metrics s) = tm_bytes (st_metrics s) then Some (target, s)
      else if uses_backend_index (tb_position_lookup (st_backend s)) then do {
        (result, b) \<leftarrow> tb_char_pos_to_emacs_byte_pos target (st_backend s);
        Some (result, set_pos_cache (anchor_new target result) (s\<lparr>st_backend := b\<rparr>))
      }
      else (case span_char_to_byte (st_single_byte_span s) (st_content_epoch s) target of
          Some result \<Rightarrow> Some (result, set_pos_cache (anchor_new target result) s)
        | None \<Rightarrow> do {
            let s = ensure_position_anchor_cache_current s;
            let mini = mini_char_bounds s target;
            found \<leftarrow> interpolate_char mini target;
            case found of
              Some result \<Rightarrow> do {
                s \<leftarrow> remember_single_byte_span mini s;
                Some (result, set_pos_cache (anchor_new target result) s)
              }
            | None \<Rightarrow> st_char_to_byte_scan ms target s
          }))"

definition st_char_pos_to_emacs_byte_pos ::
    "marker_store \<Rightarrow> char_pos0 \<Rightarrow> buffer_storage \<Rightarrow> (emacs_byte_pos \<times> buffer_storage) option" where
  "st_char_pos_to_emacs_byte_pos ms target s =
     (if tm_chars (st_metrics s) = tm_bytes (st_metrics s)
      then Some (if tm_chars (st_metrics s) \<le> target then tm_bytes (st_metrics s) else target, s)
      else st_char_pos_to_emacs_byte_pos_multibyte ms target s)"

definition target_is_char_boundary :: "backend \<Rightarrow> emacs_byte_pos \<Rightarrow> bool option" where
  "target_is_char_boundary b target = do {
     at \<leftarrow> tb_emacs_byte_at target b;
     Some (case at of Some x \<Rightarrow> x AND 0xC0 \<noteq> 0x80 | None \<Rightarrow> True)
   }"

definition st_byte_to_char_scan :: "marker_store \<Rightarrow> emacs_byte_pos \<Rightarrow> buffer_storage \<Rightarrow> (char_pos0 \<times> buffer_storage) option" where
  "st_byte_to_char_scan ms target s = do {
     bounds \<leftarrow> byte_position_bounds ms s target;
     found \<leftarrow> interpolate_byte bounds target;
     case found of
       Some result \<Rightarrow> do {
         s \<leftarrow> remember_single_byte_span bounds s;
         Some (result, set_pos_cache (anchor_new result target) s)
       }
     | None \<Rightarrow> do {
         let nearest = nearest_byte_anchor bounds target;
         result \<leftarrow> (if ta_byte nearest \<le> target then scan_forward_bytes (st_backend s) nearest target
                    else scan_backward_bytes (st_backend s) nearest target);
         boundary \<leftarrow> target_is_char_boundary (st_backend s) target;
         if boundary then do {
           s \<leftarrow> (if POSITION_ANCHOR_STRIDE < min_byte_walk bounds target
                 then remember_scan_anchor (anchor_new result target) s else Some s);
           Some (result, set_pos_cache (anchor_new result target) s)
         }
         else Some (result, s)
       }
   }"

definition st_emacs_byte_pos_to_char_pos_multibyte ::
    "marker_store \<Rightarrow> emacs_byte_pos \<Rightarrow> buffer_storage \<Rightarrow> (char_pos0 \<times> buffer_storage) option" where
  "st_emacs_byte_pos_to_char_pos_multibyte ms target s =
     (if tm_bytes (st_metrics s) \<le> target then Some (tm_chars (st_metrics s), s)
      else if tm_chars (st_metrics s) = tm_bytes (st_metrics s) then Some (target, s)
      else do {
        indexed \<leftarrow> (if uses_backend_index (tb_position_lookup (st_backend s))
                     then target_is_char_boundary (st_backend s) target else Some False);
        if indexed then do {
          (result, b) \<leftarrow> tb_emacs_byte_pos_to_char_pos target (st_backend s);
          Some (result, set_pos_cache (anchor_new result target) (s\<lparr>st_backend := b\<rparr>))
        }
        else (case span_byte_to_char (st_single_byte_span s) (st_content_epoch s) target of
            Some result \<Rightarrow> Some (result, set_pos_cache (anchor_new result target) s)
          | None \<Rightarrow> do {
              let s = ensure_position_anchor_cache_current s;
              let mini = mini_byte_bounds s target;
              found \<leftarrow> interpolate_byte mini target;
              case found of
                Some result \<Rightarrow> do {
                  s \<leftarrow> remember_single_byte_span mini s;
                  Some (result, set_pos_cache (anchor_new result target) s)
                }
              | None \<Rightarrow> st_byte_to_char_scan ms target s
            })
      })"

definition st_emacs_byte_pos_to_char_pos ::
    "marker_store \<Rightarrow> emacs_byte_pos \<Rightarrow> buffer_storage \<Rightarrow> (char_pos0 \<times> buffer_storage) option" where
  "st_emacs_byte_pos_to_char_pos ms target s =
     (if tm_chars (st_metrics s) = tm_bytes (st_metrics s)
      then Some (if tm_bytes (st_metrics s) \<le> target then tm_chars (st_metrics s) else target, s)
      else st_emacs_byte_pos_to_char_pos_multibyte ms target s)"

definition single_byte_chars_end :: "buffer_storage \<Rightarrow> emacs_byte_pos option" where
  "single_byte_chars_end s =
     (if tm_chars (st_metrics s) = tm_bytes (st_metrics s) then Some (tm_bytes (st_metrics s)) else None)"

definition st_byte_range_to_char_range :: "marker_store \<Rightarrow> emacs_byte_range \<Rightarrow> buffer_storage \<Rightarrow> (char_range \<times> buffer_storage) option" where
  "st_byte_range_to_char_range ms r s = do {
     (c, s) \<leftarrow> st_emacs_byte_pos_to_char_pos ms (br_start r) s;
     (d, s) \<leftarrow> st_emacs_byte_pos_to_char_pos ms (br_end r) s;
     Some (char_range_new c d, s)
   }"

definition st_edit_range_for_emacs_byte_range ::
    "marker_store \<Rightarrow> emacs_byte_range \<Rightarrow> buffer_storage \<Rightarrow> (text_edit_range \<times> buffer_storage) option" where
  "st_edit_range_for_emacs_byte_range ms r s = do {
     (cr, s) \<leftarrow> st_byte_range_to_char_range ms r s;
     Some (edit_range_from_start_end (anchor_new (cr_start cr) (br_start r)) (anchor_new (cr_end cr) (br_end r)), s)
   }"

definition st_edit_range_for_char_range ::
    "marker_store \<Rightarrow> char_range \<Rightarrow> buffer_storage \<Rightarrow> (text_edit_range \<times> buffer_storage) option" where
  "st_edit_range_for_char_range ms r s = do {
     (a, s) \<leftarrow> st_char_pos_to_emacs_byte_pos ms (cr_start r) s;
     (b, s) \<leftarrow> st_char_pos_to_emacs_byte_pos ms (cr_end r) s;
     Some (edit_range_from_start_end (anchor_new (cr_start r) a) (anchor_new (cr_end r) b), s)
   }"

definition st_edit_range_at_emacs_byte_pos ::
    "marker_store \<Rightarrow> emacs_byte_pos \<Rightarrow> buffer_storage \<Rightarrow> (text_edit_range \<times> buffer_storage) option" where
  "st_edit_range_at_emacs_byte_pos ms pos s = do {
     (c, s) \<leftarrow> st_emacs_byte_pos_to_char_pos ms pos s;
     Some (edit_range_empty_at pos c, s)
   }"

subsection \<open>Anchors survive edits\<close>

lemma edit_insert_replace:
  "position_edit_adjust (position_edit_insert pos e) = position_edit_adjust (position_edit_replace (edit_range_empty_at pos c) e)"
  by (rule ext) (simp add: position_edit_adjust_def position_edit_insert_def position_edit_replace_def edit_range_empty_at_def
      edit_range_new_def edit_range_byte_len_def byte_range_len_def extent_new_def extent_zero_def Let_def
      saturating_offset_from_def)

lemma cast_shift:
  assumes "m \<le> v" "v - m + n < 2 ^ 63"
  shows "nat ((int v + int n - int m) mod 2 ^ 64) = v - m + n"
proof -
  have "int v + int n - int m = int (v - m + n)" using assms(1) by simp
  moreover have "int (v - m + n) mod 2 ^ 64 = int (v - m + n)"
    using assms(2) by (intro mod_pos_pos_trivial) auto
  ultimately show ?thesis by (simp only: nat_int)
qed

text \<open>A measured edit of a text whose result can be allocated, as the anchors see it.\<close>

definition measured_edit :: "bool \<Rightarrow> bytes \<Rightarrow> bytes \<Rightarrow> text_edit_range \<Rightarrow> text_extent \<Rightarrow> bool" where
  "measured_edit mb tx bs r e \<longleftrightarrow> measured_range mb tx r \<and> lead_ok mb tx \<and> measured_text mb bs e
     \<and> length (replace_range (er_byte_start r) (er_byte_end r) bs tx) < 2 ^ 63"

lemma measured_editD:
  assumes "measured_edit mb tx bs r e"
  shows "measured_range mb tx r" "lead_ok mb tx" "measured_text mb bs e"
    "length (replace_range (er_byte_start r) (er_byte_end r) bs tx) < 2 ^ 63"
  using assms by (auto simp: measured_edit_def)

lemma edit_behind:
  assumes "measured_edit mb tx bs r e" "valid_anchor mb tx a" "er_byte_end r \<le> ta_byte a"
  shows "edit_range_char_len r \<le> ta_char a"
    "ta_char a - edit_range_char_len r + te_chars e < 2 ^ 63"
    "ta_byte a - (er_byte_end r - er_byte_start r) + te_bytes e < 2 ^ 63"
    "valid_anchor mb (replace_range (er_byte_start r) (er_byte_end r) bs tx)
       (anchor_new (ta_char a - edit_range_char_len r + te_chars e) (ta_byte a - (er_byte_end r - er_byte_start r) + te_bytes e))"
proof -
  note d = measured_rangeD [OF measured_editD(1) [OF assms(1)]] and t = measured_textD [OF measured_editD(3) [OF assms(1)]]
  show le: "edit_range_char_len r \<le> ta_char a"
    unfolding measured_range_char_len(2) [OF measured_editD(1) [OF assms(1)]]
    by (rule char_offset_delete_after(2) [OF d(1,2) measured_editD(2) [OF assms(1)] assms(2) d(5) assms(3)])
  have "char_offset mb (delete_range (er_byte_start r) (er_byte_end r) tx) (ta_char a - edit_range_char_len r)
      (ta_byte a - (er_byte_end r - er_byte_start r))"
    unfolding measured_range_char_len(2) [OF measured_editD(1) [OF assms(1)]]
    by (rule char_offset_delete_after(1) [OF d(1,2) measured_editD(2) [OF assms(1)] assms(2) d(5) assms(3)])
  then show v: "valid_anchor mb (replace_range (er_byte_start r) (er_byte_end r) bs tx)
       (anchor_new (ta_char a - edit_range_char_len r + te_chars e) (ta_byte a - (er_byte_end r - er_byte_start r) + te_bytes e))"
    unfolding replace_range_def t(1,2) anchor_new_simps using d measured_editD(2) [OF assms(1)] assms(3)
    by (intro char_offset_insert_after boundary_delete_before lead_ok_delete) auto
  show "ta_char a - edit_range_char_len r + te_chars e < 2 ^ 63"
    "ta_byte a - (er_byte_end r - er_byte_start r) + te_bytes e < 2 ^ 63"
    using char_offset_le [OF v] measured_editD(4) [OF assms(1)] char_count_le_length [of "replace_range (er_byte_start r) (er_byte_end r) bs tx" mb]
    by auto
qed

lemma edit_adjust_eq:
  assumes "measured_edit mb tx bs r e" "valid_anchor mb tx a"
  shows "position_edit_adjust (position_edit_replace r e) a =
    (if ta_byte a \<le> er_byte_start r then Some a
     else if ta_byte a < er_byte_end r then None
     else Some (anchor_new (ta_char a - edit_range_char_len r + te_chars e)
            (ta_byte a - (er_byte_end r - er_byte_start r) + te_bytes e)))"
proof -
  note d = measured_rangeD [OF measured_editD(1) [OF assms(1)]]
  have len: "er_byte_start r + edit_range_byte_len r = er_byte_end r"
    using d(5) by (simp add: edit_range_byte_len_def byte_range_len_def)
  have pe: "te_chars (pe_old (position_edit_replace r e)) = edit_range_char_len r"
    "te_bytes (pe_old (position_edit_replace r e)) = edit_range_byte_len r"
    "pe_at_byte (position_edit_replace r e) = er_byte_start r" "pe_new (position_edit_replace r e) = e"
    "pe_at_char (position_edit_replace r e) = Some (er_char_start r)"
    by (simp_all add: position_edit_replace_def extent_new_def saturating_offset_from_def edit_range_char_len_def)
  have bl: "edit_range_byte_len r = er_byte_end r - er_byte_start r"
    by (simp add: edit_range_byte_len_def byte_range_len_def)
  consider "ta_byte a < er_byte_end r \<or> ta_byte a \<le> er_byte_start r"
    | "ta_byte a = er_byte_end r" "er_byte_start r < ta_byte a" | "er_byte_end r < ta_byte a" "er_byte_start r < ta_byte a"
    by linarith
  then show ?thesis
  proof cases
    case 1
    then show ?thesis by (auto simp: position_edit_adjust_def pe len Let_def)
  next
    case 2
    then have "ta_char a = er_char_end r" using assms(2) d(4) by (simp add: char_offset_def)
    then have "er_char_start r = ta_char a - edit_range_char_len r" using measured_range_char_len [OF measured_editD(1) [OF assms(1)]] by simp
    then show ?thesis using 2 d(5) by (simp add: position_edit_adjust_def pe len Let_def)
  next
    case 3
    then have le: "edit_range_byte_len r \<le> ta_byte a" using len by simp
    note b = edit_behind [OF assms(1,2) less_imp_le [OF 3(1)]]
    have "nat ((int (ta_char a) + int (te_chars e) - int (edit_range_char_len r)) mod 2 ^ 64)
        = ta_char a - edit_range_char_len r + te_chars e" by (rule cast_shift [OF b(1,2)])
    moreover have "nat ((int (ta_byte a) + int (te_bytes e) - int (edit_range_byte_len r)) mod 2 ^ 64)
        = ta_byte a - edit_range_byte_len r + te_bytes e" by (rule cast_shift [OF le b(3) [folded bl]])
    ultimately show ?thesis
      using 3 unfolding position_edit_adjust_def Let_def pe len bl [symmetric] by simp
  qed
qed

lemma edit_adjust_valid:
  assumes "measured_edit mb tx bs r e" "valid_anchor mb tx a" "position_edit_adjust (position_edit_replace r e) a = Some a'"
  shows "valid_anchor mb (replace_range (er_byte_start r) (er_byte_end r) bs tx) a'"
proof (cases "ta_byte a \<le> er_byte_start r")
  case True
  then have "a' = a" using assms edit_adjust_eq [OF assms(1,2)] by simp
  then show ?thesis
    using True assms(2) measured_editD(2) [OF assms(1)] measured_rangeD [OF measured_editD(1) [OF assms(1)]] measured_textD [OF measured_editD(3) [OF assms(1)]]
    by (simp add: replace_range_def char_offset_insert_before boundary_delete_before lead_ok_delete char_offset_delete_before)
next
  case False
  then show ?thesis using assms(3) edit_behind(4) [OF assms(1,2)] unfolding edit_adjust_eq [OF assms(1,2)] by (auto split: if_splits)
qed

lemma edit_adjust_mono:
  assumes "measured_edit mb tx bs r e" "valid_anchor mb tx a" "valid_anchor mb tx c" "ta_byte a \<le> ta_byte c"
    "position_edit_adjust (position_edit_replace r e) a = Some a'" "position_edit_adjust (position_edit_replace r e) c = Some c'"
  shows "ta_byte a' \<le> ta_byte c'"
  using assms(4-6) measured_rangeD(5) [OF measured_editD(1) [OF assms(1)]] unfolding edit_adjust_eq [OF assms(1,2)] edit_adjust_eq [OF assms(1,3)]
  by (auto split: if_splits)

subsection \<open>The invariant of the storage\<close>

abbreviation st_text :: "buffer_storage \<Rightarrow> bytes" where
  "st_text s \<equiv> tb_text (st_backend s)"

abbreviation st_mb :: "buffer_storage \<Rightarrow> bool" where
  "st_mb s \<equiv> tb_is_multibyte (st_backend s)"

definition text_metrics_of :: "bool \<Rightarrow> bytes \<Rightarrow> text_metrics" where
  "text_metrics_of mb tx = metrics_from_lengths (emacs_char_count_bytes tx mb) (length tx)"

lemma text_metrics_of_simps [simp]:
  "tm_chars (text_metrics_of mb tx) = emacs_char_count_bytes tx mb" "tm_bytes (text_metrics_of mb tx) = length tx"
  by (simp_all add: text_metrics_of_def metrics_from_lengths_def)

definition anchor_table_ok :: "bool \<Rightarrow> bytes \<Rightarrow> text_position_anchor list \<Rightarrow> bool" where
  "anchor_table_ok mb tx as \<longleftrightarrow> (\<forall>a \<in> set as. valid_anchor mb tx a) \<and> sorted (map ta_byte as)"

definition span_ok :: "bool \<Rightarrow> bytes \<Rightarrow> single_byte_position_span \<Rightarrow> bool" where
  "span_ok mb tx sp \<longleftrightarrow> valid_anchor mb tx (sp_start sp)
     \<and> char_offset mb tx (ta_char (sp_start sp) + sp_len sp) (ta_byte (sp_start sp) + sp_len sp)"

definition storage_inv :: "buffer_storage \<Rightarrow> bool" where
  "storage_inv s \<longleftrightarrow> tb_inv (st_backend s) \<and> st_metrics s = text_metrics_of (st_mb s) (st_text s)
     \<and> st_content_epoch s \<noteq> 0
     \<and> (ca_epoch (st_pos_cache s) \<noteq> 0 \<longrightarrow> ca_epoch (st_pos_cache s) = st_content_epoch s
          \<and> valid_anchor (st_mb s) (st_text s) (ca_anchor (st_pos_cache s)))
     \<and> (sp_epoch (st_single_byte_span s) \<noteq> 0 \<longrightarrow> sp_epoch (st_single_byte_span s) = st_content_epoch s
          \<and> span_ok (st_mb s) (st_text s) (st_single_byte_span s))
     \<and> (st_anchor_cache_key s = st_content_epoch s \<longrightarrow> anchor_table_ok (st_mb s) (st_text s) (st_anchor_cache s))
     \<and> length (st_anchor_cache s) \<le> POSITION_ANCHOR_TABLE_CAP"

lemma next_epoch: "next_epoch e \<noteq> 0" "next_epoch e - 1 \<noteq> 0 \<Longrightarrow> next_epoch e - 1 = e"
proof -
  show "next_epoch e \<noteq> 0" by (auto simp: next_epoch_def max_def)
  have "x \<noteq> 0 \<Longrightarrow> 1 \<le> x" for x :: u64 by (simp add: word_le_nat_alt Suc_le_eq unat_gt_0)
  then have "e + 1 \<noteq> 0 \<Longrightarrow> 1 \<le> e + 1" by blast
  then show "next_epoch e - 1 \<noteq> 0 \<Longrightarrow> next_epoch e - 1 = e"
    by (cases "e + 1 = 0") (auto simp: next_epoch_def max_def)
qed

lemma invalidated_inv:
  assumes "tb_inv (st_backend s)" "st_metrics s = text_metrics_of (st_mb s) (st_text s)" "st_content_epoch s \<noteq> 0"
  shows "storage_inv (invalidate_position_caches s)"
  using assms
  by (simp add: storage_inv_def invalidate_position_caches_def position_cache_default_def span_default_def)

lemma refreshed:
  "tb_inv (st_backend s) \<Longrightarrow> refresh_backend_metrics s = Some (s\<lparr>st_metrics := text_metrics_of (st_mb s) (st_text s)\<rparr>)"
  by (simp add: refresh_backend_metrics_def backend.metrics_law text_metrics_of_def)

lemma map_filter_sorted:
  assumes "sorted (map g xs)" "\<And>x y x' y'. x \<in> set xs \<Longrightarrow> y \<in> set xs \<Longrightarrow> g x \<le> g y \<Longrightarrow> f x = Some x' \<Longrightarrow> f y = Some y' \<Longrightarrow> h x' \<le> h y'"
  shows "sorted (map h (List.map_filter f xs))"
  using assms
proof (induction xs)
  case (Cons x xs)
  have "sorted (map h (List.map_filter f xs))" using Cons by auto
  moreover have "h x' \<le> h y'" if x': "f x = Some x'" and y': "y' \<in> set (List.map_filter f xs)" for x' y'
  proof -
    obtain y where "y \<in> set xs" "f y = Some y'" using y' by (auto simp: map_filter_def)
    then show ?thesis using Cons.prems(1) Cons.prems(2) [of x y x' y'] x' by simp
  qed
  ultimately show ?case by (auto simp: map_filter_simps split: option.splits)
qed (simp add: map_filter_simps)

lemma length_map_filter: "length (List.map_filter f xs) \<le> length xs"
  by (simp add: map_filter_def)

subsection \<open>Edits keep the invariant\<close>

lemma finish_cong:
  assumes "position_edit_adjust ed = position_edit_adjust ed'"
  shows "finish_backend_content_mutation_with_edit ed s = finish_backend_content_mutation_with_edit ed' s"
  unfolding finish_backend_content_mutation_with_edit_def position_cache_after_edit_def assms ..

lemma table_ok_adjust:
  assumes ed: "measured_edit mb tx bs r e" and ok: "anchor_table_ok mb tx as"
  shows "anchor_table_ok mb (replace_range (er_byte_start r) (er_byte_end r) bs tx)
    (List.map_filter (position_edit_adjust (position_edit_replace r e)) as)"
proof -
  have "sorted (map ta_byte (List.map_filter (position_edit_adjust (position_edit_replace r e)) as))"
    by (rule map_filter_sorted [where g = ta_byte])
      (use ok in \<open>auto simp: anchor_table_ok_def intro: edit_adjust_mono [OF ed]\<close>)
  then show ?thesis
    using ok edit_adjust_valid [OF ed] by (auto simp: anchor_table_ok_def map_filter_def)
qed

lemma finish_with_edit_inv:
  assumes inv: "storage_inv s" and ed: "measured_edit (st_mb s) (st_text s) bs r e"
    and b: "tb_inv b" "tb_is_multibyte b = st_mb s"
      "tb_text b = replace_range (er_byte_start r) (er_byte_end r) bs (st_text s)"
  obtains s' where
    "finish_backend_content_mutation_with_edit (position_edit_replace r e) (s\<lparr>st_virtual_gap := vg, st_backend := b\<rparr>) = Some s'"
    "storage_inv s'" "st_backend s' = b" "st_virtual_gap s' = vg" "st_markers s' = st_markers s"
proof -
  let ?adj = "position_edit_adjust (position_edit_replace r e)"
  let ?epoch = "next_epoch (st_content_epoch s)"
  let ?cache = "position_cache_after_edit (position_edit_replace r e) ?epoch (st_pos_cache s)"
  let ?current = "st_anchor_cache_key s = ?epoch - 1 \<and> ?epoch - 1 \<noteq> 0"
  let ?ring = "List.map_filter ?adj (st_anchor_cache s)"
  let ?s = "s\<lparr>st_virtual_gap := vg, st_backend := b, st_metrics := text_metrics_of (st_mb s) (tb_text b), st_content_epoch := ?epoch,
    st_single_byte_span := span_default, st_pos_cache := ?cache\<rparr>"
  define s' where "s' = (if ?current then ?s\<lparr>st_anchor_cache := ?ring,
      st_anchor_cache_cursor := (if length ?ring \<le> st_anchor_cache_cursor s then 0 else st_anchor_cache_cursor s),
      st_anchor_cache_key := ?epoch\<rparr> else ?s\<lparr>st_anchor_cache := [], st_anchor_cache_key := 0\<rparr>)"
  have eq: "finish_backend_content_mutation_with_edit (position_edit_replace r e) (s\<lparr>st_virtual_gap := vg, st_backend := b\<rparr>) = Some s'"
    using b by (simp add: finish_backend_content_mutation_with_edit_def refreshed s'_def Let_def)
  have cache: "ca_epoch ?cache \<noteq> 0 \<Longrightarrow> ca_epoch ?cache = ?epoch \<and> valid_anchor (st_mb s) (tb_text b) (ca_anchor ?cache)"
    using inv edit_adjust_valid [OF ed, of "ca_anchor (st_pos_cache s)"] unfolding b(3) storage_inv_def
    by (auto simp: position_cache_after_edit_def position_cache_default_def split: option.splits if_splits)
  have ring: "anchor_table_ok (st_mb s) (tb_text b) ?ring" if "?current"
    using that inv next_epoch(2) [of "st_content_epoch s"] table_ok_adjust [OF ed]
    unfolding b(3) storage_inv_def by auto
  have len: "length ?ring \<le> POSITION_ANCHOR_TABLE_CAP"
    using inv length_map_filter [of ?adj "st_anchor_cache s"] by (simp add: storage_inv_def)
  have "storage_inv s'"
  proof (cases ?current)
    case True
    then show ?thesis
      using b(1,2) next_epoch(1) cache ring len unfolding storage_inv_def s'_def by (simp add: span_default_def)
  next
    case False
    then show ?thesis
      using b(1,2) next_epoch(1) [of "st_content_epoch s"] cache unfolding storage_inv_def s'_def if_not_P [OF False]
      by (simp add: span_default_def)
  qed
  then show thesis by (rule that [OF eq]) (simp_all add: s'_def)
qed

subsection \<open>Edits of the storage\<close>

lemma virtual_gap_consume:
  "virtual_gap_consume_bytes n s = s\<lparr>st_virtual_gap := gap_consume n (st_virtual_gap s)\<rparr>"
  by (simp add: virtual_gap_consume_bytes_def gap_consume_def Let_def)

lemma real_gap_kind:
  assumes "tb_own_inv b"
  obtains g st where "b = TB_Gap g" "gap_inv g" "tb_real_gap_compat_state b = Some (Some st)"
      "gb_real_gap_compat_state g = Some st"
  | "tb_kind b \<noteq> GapBuffer" "tb_real_gap_compat_state b = Some None"
      "\<And>k. tb_emacs_byte_pos_to_char_pos k b = map_option (\<lambda>(c, _). (c, b)) (tb_emacs_byte_pos_to_char_pos k b)"
  using assms
  by (cases b) (auto simp: real_gap option.map_comp comp_def)

text \<open>What an edit does to the storage: the text, the reported gap, and nothing else that matters.\<close>

definition edits_storage :: "text_edit_range \<Rightarrow> text_extent \<Rightarrow> bytes \<Rightarrow> buffer_storage \<Rightarrow> buffer_storage \<Rightarrow> bool" where
  "edits_storage r e bs s s' \<longleftrightarrow> storage_inv s' \<and> st_mb s' = st_mb s \<and> tb_kind (st_backend s') = tb_kind (st_backend s)
     \<and> st_markers s' = st_markers s
     \<and> st_text s' = replace_range (er_byte_start r) (er_byte_end r) bs (st_text s)
     \<and> st_gap_compat_state s' = map_option (gap_after r e) (st_gap_compat_state s)"

lemma storage_invD:
  assumes "storage_inv s"
  shows "tb_inv (st_backend s)" "tb_own_inv (st_backend s)" "lead_ok (st_mb s) (st_text s)"
    "st_metrics s = text_metrics_of (st_mb s) (st_text s)"
  using assms by (simp_all add: storage_inv_def tb_inv_def own_inv_lead_ok)

lemma kind_kept_edit:
  "tb_insert_measured_emacs_bytes p bs e b = Some b' \<Longrightarrow> tb_kind b' = tb_kind b"
  "tb_delete_measured_range r b = Some b' \<Longrightarrow> tb_kind b' = tb_kind b"
  by (cases b; auto)+

text \<open>
  One mutation, whatever the operation: it suffices that the backend was edited as the range and the
  extent say, that a real gap followed the edit, and that a virtual gap was noted.
\<close>

lemma edit_storage:
  assumes inv: "storage_inv s" and ed: "measured_edit (st_mb s) (st_text s) bs r e"
    and b: "tb_inv b" "tb_is_multibyte b = st_mb s" "tb_kind b = tb_kind (st_backend s)"
      "tb_text b = replace_range (er_byte_start r) (er_byte_end r) bs (st_text s)"
    and gap: "\<And>g st. st_backend s = TB_Gap g \<Longrightarrow> gb_real_gap_compat_state g = Some st \<Longrightarrow>
        tb_real_gap_compat_state b = Some (Some (gap_after r e st))"
    and vg: "tb_kind (st_backend s) \<noteq> GapBuffer \<Longrightarrow> vg = gap_after r e (st_virtual_gap s)"
  shows "\<exists>s'. finish_backend_content_mutation_with_edit (position_edit_replace r e)
      (s\<lparr>st_virtual_gap := vg, st_backend := b\<rparr>) = Some s' \<and> edits_storage r e bs s s'"
proof -
  obtain s' where s': "finish_backend_content_mutation_with_edit (position_edit_replace r e)
      (s\<lparr>st_virtual_gap := vg, st_backend := b\<rparr>) = Some s'"
      "storage_inv s'" "st_backend s' = b" "st_virtual_gap s' = vg" "st_markers s' = st_markers s"
    by (rule finish_with_edit_inv [OF inv ed b(1,2,4)])
  have own: "tb_own_inv (st_backend s)" "tb_own_inv b" using storage_invD [OF inv] b(1) by (auto simp: tb_inv_def)
  have "st_gap_compat_state s' = map_option (gap_after r e) (st_gap_compat_state s)"
  proof (rule real_gap_kind [OF own(1)])
    fix g st assume "st_backend s = TB_Gap g" "tb_real_gap_compat_state (st_backend s) = Some (Some st)"
      "gb_real_gap_compat_state g = Some st"
    then show ?thesis using gap s'(3) by (simp add: st_gap_compat_state_def)
  next
    assume k: "tb_kind (st_backend s) \<noteq> GapBuffer" "tb_real_gap_compat_state (st_backend s) = Some None"
    then have "tb_real_gap_compat_state b = Some None" using b(3) by (cases b) auto
    then show ?thesis using k vg s'(3,4) by (simp add: st_gap_compat_state_def)
  qed
  then show ?thesis using s' b by (auto simp: edits_storage_def)
qed

lemma note_replace:
  assumes "tb_own_inv (st_backend s)"
  shows "\<exists>vg. note_virtual_gap_replace rep s = Some (s\<lparr>st_virtual_gap := vg\<rparr>)
    \<and> (tb_kind (st_backend s) \<noteq> GapBuffer \<longrightarrow> vg = gap_after (tr_old rep) (tr_new rep) (st_virtual_gap s))"
  using assms
proof (rule real_gap_kind)
  fix g st assume "st_backend s = TB_Gap g" "tb_real_gap_compat_state (st_backend s) = Some (Some st)"
  then show ?thesis
    by (intro exI [of _ "st_virtual_gap s"]) (simp add: note_virtual_gap_replace_def st_uses_virtual_gap_def)
next
  assume "tb_real_gap_compat_state (st_backend s) = Some None"
  then show ?thesis
    by (intro exI [of _ "gap_after (tr_old rep) (tr_new rep) (st_virtual_gap s)"])
      (simp add: note_virtual_gap_replace_def st_uses_virtual_gap_def virtual_gap_consume gap_after_def)
qed

lemma note_delete:
  assumes "tb_own_inv (st_backend s)"
  shows "\<exists>vg. note_virtual_gap_delete r s = Some (s\<lparr>st_virtual_gap := vg\<rparr>)
    \<and> (tb_kind (st_backend s) \<noteq> GapBuffer \<longrightarrow> vg = gap_after r extent_zero (st_virtual_gap s))"
  using assms
proof (rule real_gap_kind)
  fix g st assume "st_backend s = TB_Gap g" "tb_real_gap_compat_state (st_backend s) = Some (Some st)"
  then show ?thesis
    by (intro exI [of _ "st_virtual_gap s"]) (simp add: note_virtual_gap_delete_def st_uses_virtual_gap_def)
next
  assume "tb_real_gap_compat_state (st_backend s) = Some None"
  then show ?thesis
    by (intro exI [of _ "gap_after r extent_zero (st_virtual_gap s)"])
      (simp add: note_virtual_gap_delete_def st_uses_virtual_gap_def gap_after_delete)
qed

lemma note_insert:
  assumes inv: "tb_inv (st_backend s)" and p: "char_offset (st_mb s) (st_text s) c pos"
  shows "\<exists>vg. note_virtual_gap_insert pos e s = Some (s\<lparr>st_virtual_gap := vg\<rparr>)
    \<and> (tb_kind (st_backend s) \<noteq> GapBuffer \<longrightarrow> vg = gap_after (edit_range_empty_at pos c) e (st_virtual_gap s))"
proof -
  have own: "tb_own_inv (st_backend s)" using inv by (simp add: tb_inv_def)
  show ?thesis
    using own
  proof (rule real_gap_kind)
    fix g st assume "st_backend s = TB_Gap g" "tb_real_gap_compat_state (st_backend s) = Some (Some st)"
    then show ?thesis
      by (intro exI [of _ "st_virtual_gap s"]) (simp add: note_virtual_gap_insert_def st_uses_virtual_gap_def)
  next
    assume k: "tb_kind (st_backend s) \<noteq> GapBuffer" "tb_real_gap_compat_state (st_backend s) = Some None"
      "\<And>k. tb_emacs_byte_pos_to_char_pos k (st_backend s)
          = map_option (\<lambda>(c, _). (c, st_backend s)) (tb_emacs_byte_pos_to_char_pos k (st_backend s))"
    obtain c' b' where 1: "tb_emacs_byte_pos_to_char_pos pos (st_backend s) = Some (c', b')" "char_offset (st_mb s) (st_text s) c' pos"
      using backend.byte_to_char_law [OF inv, of pos] p by (auto simp: char_offset_def)
    have "b' = st_backend s" using k(3) [of pos] 1(1) by simp
    moreover have "c' = c" using 1(2) p by (simp add: char_offset_def)
    ultimately have "note_virtual_gap_insert pos e s
        = Some (s\<lparr>st_virtual_gap := gap_after (edit_range_empty_at pos c) e (st_virtual_gap s)\<rparr>)"
      using 1(1) k(2)
      by (cases "st_virtual_gap s") (simp add: note_virtual_gap_insert_def st_uses_virtual_gap_def virtual_gap_consume gap_after_def
          edit_range_empty_at_def edit_range_new_def edit_range_byte_len_def byte_range_len_def)
    then show ?thesis by blast
  qed
qed

lemma replace_is_gap_after:
  assumes "gap_inv g" "tb_replace_measured_range rep bs (TB_Gap g) = Some b" "gb_real_gap_compat_state g = Some st"
    "measured_range (gb_multibyte g) (gb_text g) (tr_old rep)" "measured_text (gb_multibyte g) bs (tr_new rep)"
    "\<not> (edit_range_is_empty (tr_old rep) \<and> bs = [])"
  shows "tb_real_gap_compat_state b = Some (Some (gap_after (tr_old rep) (tr_new rep) st))"
  using assms gb_replace_reports [OF assms(1,4,5,6) _ assms(3)] by auto

lemma st_replace_inv:
  assumes inv: "storage_inv s" and ed: "measured_edit (st_mb s) (st_text s) bs (tr_old rep) (tr_new rep)"
    and st: "rope_storable (st_mb s) bs" and ne: "\<not> (edit_range_is_empty (tr_old rep) \<and> bs = [])"
  shows "\<exists>s'. st_replace_measured_range rep bs s = Some s' \<and> edits_storage (tr_old rep) (tr_new rep) bs s s'"
proof -
  note i = storage_invD [OF inv] and e = measured_editD [OF ed]
  obtain vg where vg: "note_virtual_gap_replace rep s = Some (s\<lparr>st_virtual_gap := vg\<rparr>)"
      "tb_kind (st_backend s) \<noteq> GapBuffer \<longrightarrow> vg = gap_after (tr_old rep) (tr_new rep) (st_virtual_gap s)"
    using note_replace [OF i(2)] by blast
  obtain b where b: "tb_replace_measured_range rep bs (st_backend s) = Some b" "tb_inv b" "tb_is_multibyte b = st_mb s"
      "tb_text b = replace_range (er_byte_start (tr_old rep)) (er_byte_end (tr_old rep)) bs (st_text s)"
    using backend.replace_law [OF i(1) e(1,3) st] by blast
  have "tb_real_gap_compat_state b = Some (Some (gap_after (tr_old rep) (tr_new rep) st))"
    if "st_backend s = TB_Gap g" "gb_real_gap_compat_state g = Some st" for g st
    using replace_is_gap_after [of g rep bs b st] that b(1) i(2) e(1,3) ne by simp
  then obtain s' where "finish_backend_content_mutation_with_edit (position_edit_replace (tr_old rep) (tr_new rep))
      (s\<lparr>st_virtual_gap := vg, st_backend := b\<rparr>) = Some s'" "edits_storage (tr_old rep) (tr_new rep) bs s s'"
    using edit_storage [OF inv ed b(2,3) kind_kept(2) [OF b(1)] b(4)] vg(2) by metis
  then show ?thesis using vg(1) b(1) ne by (auto simp: st_replace_measured_range_def)
qed

lemma st_delete_inv:
  assumes inv: "storage_inv s" and r: "measured_range (st_mb s) (st_text s) r" "\<not> edit_range_is_empty r"
    and alloc: "length (st_text s) < 2 ^ 63"
  shows "\<exists>s'. st_delete_measured_range r s = Some s' \<and> edits_storage r extent_zero [] s s'"
proof -
  note i = storage_invD [OF inv] and m = measured_rangeD [OF r(1)]
  have "length (delete_range (er_byte_start r) (er_byte_end r) (st_text s)) < 2 ^ 63"
    using alloc m(5,6) by simp
  then have ed: "measured_edit (st_mb s) (st_text s) [] r extent_zero"
    using r(1) i(3) measured_empty by (simp add: measured_edit_def)
  have lt: "er_byte_start r < er_byte_end r"
    using r(2) by (simp add: edit_range_is_empty_def byte_range_is_empty_def)
  obtain vg where vg: "note_virtual_gap_delete r s = Some (s\<lparr>st_virtual_gap := vg\<rparr>)"
      "tb_kind (st_backend s) \<noteq> GapBuffer \<longrightarrow> vg = gap_after r extent_zero (st_virtual_gap s)"
    using note_delete [OF i(2)] by blast
  obtain b where b: "tb_delete_measured_range r (st_backend s) = Some b" "tb_inv b" "tb_is_multibyte b = st_mb s"
      "tb_text b = delete_range (er_byte_start r) (er_byte_end r) (st_text s)"
    using backend.delete_law [OF i(1) r(1)] by blast
  have "tb_real_gap_compat_state b = Some (Some (gap_after r extent_zero st))"
    if "st_backend s = TB_Gap g" "gb_real_gap_compat_state g = Some st" for g st
    using gb_delete_reports [of g r _ st] that b(1) i(2) r(1) lt by auto
  then obtain s' where "finish_backend_content_mutation_with_edit (position_edit_replace r extent_zero)
      (s\<lparr>st_virtual_gap := vg, st_backend := b\<rparr>) = Some s'" "edits_storage r extent_zero [] s s'"
    using edit_storage [OF inv ed b(2,3) kind_kept_edit(2) [OF b(1)], of vg] vg(2) b(4) by auto
  then show ?thesis using vg(1) b(1) r(2) by (auto simp: st_delete_measured_range_def)
qed

lemma measured_range_empty: "char_offset mb tx c p \<Longrightarrow> measured_range mb tx (edit_range_empty_at p c)"
  by (simp add: measured_range_def edit_range_empty_at_def edit_range_new_def edit_range_start_anchor_def
      edit_range_end_anchor_def)

lemma edit_range_empty_at_simps [simp]:
  "er_bytes (edit_range_empty_at p c) = byte_range_new p p" "er_char_start (edit_range_empty_at p c) = c"
  "er_char_end (edit_range_empty_at p c) = c"
  by (simp_all add: edit_range_empty_at_def edit_range_new_def)

lemma st_insert_inv:
  assumes inv: "storage_inv s" and p: "char_offset (st_mb s) (st_text s) c p"
    and e: "measured_text (st_mb s) bs e" "rope_storable (st_mb s) bs" "bs \<noteq> []"
    and alloc: "length (st_text s) + length bs < 2 ^ 63"
  shows "\<exists>s'. st_insert_measured_emacs_bytes p bs e s = Some s' \<and> edits_storage (edit_range_empty_at p c) e bs s s'"
proof -
  let ?r = "edit_range_empty_at p c"
  note i = storage_invD [OF inv]
  have bd: "is_emacs_char_boundary (st_text s) p (st_mb s)" using p by (simp add: char_offset_def)
  have ed: "measured_edit (st_mb s) (st_text s) bs ?r e"
    using measured_range_empty [OF p] i(3) e(1) alloc by (simp add: measured_edit_def add.commute)
  obtain vg where vg: "note_virtual_gap_insert p e s = Some (s\<lparr>st_virtual_gap := vg\<rparr>)"
      "tb_kind (st_backend s) \<noteq> GapBuffer \<longrightarrow> vg = gap_after ?r e (st_virtual_gap s)"
    using note_insert [OF i(1) p] by blast
  obtain b where b: "tb_insert_measured_emacs_bytes p bs e (st_backend s) = Some b" "tb_inv b" "tb_is_multibyte b = st_mb s"
      "tb_text b = insert_at p bs (st_text s)"
    using backend.insert_law [OF i(1) bd e(1,2)] by blast
  have "tb_real_gap_compat_state b = Some (Some (gap_after ?r e st))"
    if "st_backend s = TB_Gap g" "gb_real_gap_compat_state g = Some st" for g st
    using gb_insert_reports [of g c p bs e _ st] that b(1) i(2) p e(1,3)
    by (cases st) (auto simp: gap_after_def edit_range_byte_len_def byte_range_len_def)
  then obtain s' where "finish_backend_content_mutation_with_edit (position_edit_replace ?r e)
      (s\<lparr>st_virtual_gap := vg, st_backend := b\<rparr>) = Some s'" "edits_storage ?r e bs s s'"
    using edit_storage [OF inv ed b(2,3) kind_kept_edit(1) [OF b(1)], of vg] vg(2) b(4) by auto
  then show ?thesis
    using vg(1) b(1) e(3) finish_cong [OF edit_insert_replace] by (auto simp: st_insert_measured_emacs_bytes_def)
qed

subsection \<open>Conversions only touch the caches\<close>

definition same_text :: "buffer_storage \<Rightarrow> buffer_storage \<Rightarrow> bool" where
  "same_text s s' \<longleftrightarrow> st_backend s' = st_backend s \<and> st_metrics s' = st_metrics s
     \<and> st_content_epoch s' = st_content_epoch s \<and> st_virtual_gap s' = st_virtual_gap s \<and> st_markers s' = st_markers s"

lemma same_text_refl [simp]: "same_text s s"
  by (simp add: same_text_def)

lemma same_text_trans: "same_text s s1 \<Longrightarrow> same_text s1 s2 \<Longrightarrow> same_text s s2"
  by (simp add: same_text_def)

lemma set_pos_cache_inv:
  "storage_inv s \<Longrightarrow> valid_anchor (st_mb s) (st_text s) a \<Longrightarrow> storage_inv (set_pos_cache a s)"
  "same_text s (set_pos_cache a s)"
  by (auto simp: set_pos_cache_def storage_inv_def same_text_def)

lemma ensure_current_inv:
  assumes "storage_inv s"
  shows "storage_inv (ensure_position_anchor_cache_current s)" "same_text s (ensure_position_anchor_cache_current s)"
    "st_anchor_cache_key (ensure_position_anchor_cache_current s) = st_content_epoch s"
  using assms by (auto simp: ensure_position_anchor_cache_current_def storage_inv_def same_text_def anchor_table_ok_def)

lemma bracket_span:
  assumes "valid_anchor mb tx (tb_below bs)" "valid_anchor mb tx (tb_above bs)"
    "ta_byte (tb_below bs) \<le> ta_byte (tb_above bs)" "ta_char (tb_below bs) \<le> ta_char (tb_above bs)"
  shows "\<exists>r. span_from_bounds epoch bs = Some r \<and> (\<forall>sp. r = Some sp \<longrightarrow> sp_epoch sp = epoch \<and> span_ok mb tx sp)"
proof -
  let ?nb = "ta_byte (tb_above bs) - ta_byte (tb_below bs)" and ?nc = "ta_char (tb_above bs) - ta_char (tb_below bs)"
  have "ta_byte (tb_below bs) + ?nb = ta_byte (tb_above bs)" "ta_char (tb_below bs) + ?nc = ta_char (tb_above bs)"
    using assms(3,4) by simp_all
  then have "?nb = ?nc \<Longrightarrow> span_ok mb tx \<lparr>sp_epoch = epoch, sp_start = tb_below bs, sp_len = ?nb\<rparr>"
    using assms(1,2) by (simp add: span_ok_def)
  then show ?thesis using assms(3,4) by (simp add: span_from_bounds_def)
qed

lemma remember_span_inv:
  assumes inv: "storage_inv s" and "valid_anchor (st_mb s) (st_text s) (tb_below bs)" "valid_anchor (st_mb s) (st_text s) (tb_above bs)"
    "ta_byte (tb_below bs) \<le> ta_byte (tb_above bs)" "ta_char (tb_below bs) \<le> ta_char (tb_above bs)"
  shows "\<exists>s'. remember_single_byte_span bs s = Some s' \<and> storage_inv s' \<and> same_text s s'
    \<and> st_anchor_cache_key s' = st_anchor_cache_key s"
proof -
  obtain r where r: "span_from_bounds (st_content_epoch s) bs = Some r"
      "\<And>sp. r = Some sp \<Longrightarrow> sp_epoch sp = st_content_epoch s \<and> span_ok (st_mb s) (st_text s) sp"
    using bracket_span [OF assms(2-5)] by blast
  then show ?thesis
    using inv by (cases r) (auto simp: remember_single_byte_span_def storage_inv_def same_text_def)
qed

lemma span_exact:
  assumes inv: "storage_inv s"
  shows "span_char_to_byte (st_single_byte_span s) (st_content_epoch s) c = Some k \<Longrightarrow> char_offset (st_mb s) (st_text s) c k"
    "span_byte_to_char (st_single_byte_span s) (st_content_epoch s) k = Some c \<Longrightarrow> char_offset (st_mb s) (st_text s) c k"
proof -
  let ?sp = "st_single_byte_span s"
  have exact: "char_offset (st_mb s) (st_text s) (ta_char (sp_start ?sp) + j) (ta_byte (sp_start ?sp) + j)"
    if "sp_epoch ?sp \<noteq> 0" "j \<le> sp_len ?sp" for j
    using inv that storage_invD(3) [OF inv]
      single_byte_span [of "st_mb s" "st_text s" "ta_char (sp_start ?sp)" "ta_byte (sp_start ?sp)"
        "ta_char (sp_start ?sp) + sp_len ?sp" "ta_byte (sp_start ?sp) + sp_len ?sp" "ta_byte (sp_start ?sp) + j"]
    by (simp add: storage_inv_def span_ok_def)
  show "char_offset (st_mb s) (st_text s) c k" if "span_char_to_byte ?sp (st_content_epoch s) c = Some k"
    using that exact [of "c - ta_char (sp_start ?sp)"]
    by (auto simp: span_char_to_byte_def chk_sub_def split: if_splits)
  show "char_offset (st_mb s) (st_text s) c k" if "span_byte_to_char ?sp (st_content_epoch s) k = Some c"
    using that exact [of "k - ta_byte (sp_start ?sp)"]
    by (auto simp: span_byte_to_char_def chk_sub_def split: if_splits)
qed

subsection \<open>The table of scan anchors stays sorted\<close>

lemma partition_point_props:
  "partition_point P xs \<le> length xs"
  "partition_point P xs < length xs \<Longrightarrow> \<not> P (xs ! partition_point P xs)"
  "0 < partition_point P xs \<Longrightarrow> P (xs ! (partition_point P xs - 1))"
  "take (partition_point P xs) xs = takeWhile P xs" "drop (partition_point P xs) xs = dropWhile P xs"
proof -
  show "partition_point P xs \<le> length xs" by (simp add: partition_point_def length_takeWhile_le)
  show "partition_point P xs < length xs \<Longrightarrow> \<not> P (xs ! partition_point P xs)"
    by (simp add: partition_point_def nth_length_takeWhile)
  show "0 < partition_point P xs \<Longrightarrow> P (xs ! (partition_point P xs - 1))"
    using set_takeWhileD [OF nth_mem, of "length (takeWhile P xs) - 1" P xs] takeWhile_nth [of "length (takeWhile P xs) - 1" P xs]
    by (simp add: partition_point_def)
qed (simp_all add: partition_point_def takeWhile_eq_take [symmetric] dropWhile_eq_drop [symmetric])

lemma insert_sorted_at:
  assumes "sorted (map f xs)"
  shows "sorted (map f (insert_at (partition_point (\<lambda>x. f x < f a) xs) [a] xs))"
proof -
  let ?P = "\<lambda>x. f x < f a"
  have eq: "insert_at (partition_point ?P xs) [a] xs = takeWhile ?P xs @ a # dropWhile ?P xs"
    by (simp add: insert_at_def partition_point_props)
  have s: "sorted (map f (takeWhile ?P xs @ dropWhile ?P xs))" using assms by simp
  have "f a \<le> f y" if "y \<in> set (dropWhile ?P xs)" for y
  proof (cases "dropWhile ?P xs")
    case Nil
    then show ?thesis using that by (simp only: list.set empty_iff)
  next
    case (Cons z zs)
    then have "\<not> ?P z" using hd_dropWhile [of ?P xs] by simp
    moreover have "f z \<le> f y" using s that Cons by (auto simp: sorted_append)
    ultimately show ?thesis by simp
  qed
  then show ?thesis
    unfolding eq using s [unfolded map_append sorted_append]
    by (auto simp: sorted_append dest: set_takeWhileD)
qed

lemma every_second_props:
  "set (every_second xs) \<subseteq> set xs" "length (every_second xs) = length xs div 2"
  "sorted (map f xs) \<Longrightarrow> sorted (map f (every_second xs))"
proof -
  show sub: "set (every_second xs) \<subseteq> set xs" for xs :: "'a list" by (induction xs rule: every_second.induct) auto
  show "length (every_second xs) = length xs div 2" by (induction xs rule: every_second.induct) auto
  show "sorted (map f xs) \<Longrightarrow> sorted (map f (every_second xs))"
  proof (induction xs rule: every_second.induct)
    case (1 x y xs)
    then show ?case using sub [of xs] by auto
  qed auto
qed

lemma table_insert_ok:
  assumes "anchor_table_ok mb tx as" "valid_anchor mb tx a"
  shows "anchor_table_ok mb tx (insert_at (partition_point (\<lambda>x. ta_byte x < ta_byte a) as) [a] as)"
proof -
  have "set (insert_at n [a] as) \<subseteq> insert a (set as)" for n
    by (auto simp: insert_at_def dest: in_set_takeD in_set_dropD)
  then show ?thesis using assms insert_sorted_at [of ta_byte as a] unfolding anchor_table_ok_def by blast
qed

lemma remember_scan_anchor_inv:
  assumes inv: "storage_inv s" and key: "st_anchor_cache_key s = st_content_epoch s"
    and a: "valid_anchor (st_mb s) (st_text s) a"
  shows "\<exists>s'. remember_scan_anchor a s = Some s' \<and> storage_inv s' \<and> same_text s s'"
proof -
  let ?as = "st_anchor_cache s" and ?ins = "\<lambda>as. insert_at (partition_point (\<lambda>x. ta_byte x < ta_byte a) as) [a] as"
  have ok: "anchor_table_ok (st_mb s) (st_text s) ?as" and len: "length ?as \<le> POSITION_ANCHOR_TABLE_CAP"
    using inv key by (auto simp: storage_inv_def)
  have ins: "storage_inv (s\<lparr>st_anchor_cache := ?ins as\<rparr>)"
    if "anchor_table_ok (st_mb s) (st_text s) as" "length as < POSITION_ANCHOR_TABLE_CAP" for as
    using inv that table_insert_ok [OF that(1) a] by (simp add: storage_inv_def)
  have half: "anchor_table_ok (st_mb s) (st_text s) (every_second ?as)" "length (every_second ?as) < POSITION_ANCHOR_TABLE_CAP"
    using ok len every_second_props [where xs = ?as] by (auto simp: anchor_table_ok_def POSITION_ANCHOR_TABLE_CAP_def)
  have idx: "partition_point (\<lambda>x. ta_byte x < ta_byte a) ?as < length ?as \<Longrightarrow>
      ta_byte a \<le> ta_byte (?as ! partition_point (\<lambda>x. ta_byte x < ta_byte a) ?as)"
    "0 < partition_point (\<lambda>x. ta_byte x < ta_byte a) ?as \<Longrightarrow>
      ta_byte (?as ! (partition_point (\<lambda>x. ta_byte x < ta_byte a) ?as - 1)) \<le> ta_byte a"
    using partition_point_props(2,3) [of "\<lambda>x. ta_byte x < ta_byte a" ?as] by auto
  have "\<exists>s'. remember_scan_anchor a s = Some s' \<and>
      (s' = s \<or> s' = s\<lparr>st_anchor_cache := ?ins ?as\<rparr> \<and> length ?as < POSITION_ANCHOR_TABLE_CAP
       \<or> s' = s\<lparr>st_anchor_cache := ?ins (every_second ?as)\<rparr>)"
    using idx by (auto simp: remember_scan_anchor_def Let_def not_le)
  then show ?thesis using inv ins [OF ok] ins [OF half] by (auto simp: same_text_def)
qed

subsection \<open>The brackets are brackets\<close>

lemma hint_valid:
  "tb_own_inv b \<Longrightarrow> tb_storage_position_hint b = Some a \<Longrightarrow> valid_anchor (tb_is_multibyte b) (tb_text b) a"
  by (cases b) (auto simp: gb_storage_position_hint_def gap_inv_def gb_wf_def)

lemma cached_valid:
  "storage_inv s \<Longrightarrow> cache_is_valid_for (st_pos_cache s) (st_content_epoch s) \<Longrightarrow>
   valid_anchor (st_mb s) (st_text s) (ca_anchor (st_pos_cache s))"
  by (simp add: storage_inv_def cache_is_valid_for_def)

lemma mini_brackets:
  assumes "storage_inv s"
  shows "c \<le> emacs_char_count_bytes (st_text s) (st_mb s) \<Longrightarrow> char_bracket (st_mb s) (st_text s) c (mini_char_bounds s c)"
    "k \<le> length (st_text s) \<Longrightarrow> byte_bracket (st_mb s) (st_text s) k (mini_byte_bounds s k)"
  using storage_invD(4) [OF assms] hint_valid [OF storage_invD(2) [OF assms]] cached_valid [OF assms]
  by (auto simp: mini_char_bounds_def mini_byte_bounds_def hint_consider_char_anchor_def hint_consider_byte_anchor_def Let_def
      bracket_new intro!: consider_keeps_bracket split: option.splits)

lemma marker_bounds_bracket:
  assumes "chain h q ps" "markers_valid mb tx ps h"
  shows "char_bracket mb tx c bs \<Longrightarrow> \<exists>bs'. marker_char_bounds c d q h bs = Some bs' \<and> char_bracket mb tx c bs'"
    "byte_bracket mb tx k bs \<Longrightarrow> \<exists>bs'. marker_byte_bounds k d q h bs = Some bs' \<and> byte_bracket mb tx k bs'"
  using assms
proof (induction ps arbitrary: q bs d)
  case Nil
  {
    case 1
    then show ?case by (subst marker_char_bounds.simps) simp
  next
    case 2
    then show ?case by (subst marker_byte_bounds.simps) simp
  }
next
  case (Cons p ps)
  {
    case 1
    then obtain m where m: "q = Some p" "h p = Some m" "chain h (mk_next m) ps" "valid_anchor mb tx (marker_data_anchor m)"
        "markers_valid mb tx ps h"
      by (auto simp: chain_Cons markers_valid_iff)
    then have "char_bracket mb tx c (consider_char_anchor c (marker_data_anchor m) bs)"
      using 1 by (intro consider_keeps_bracket) auto
    then show ?case using m Cons.IH(1) by (subst marker_char_bounds.simps) (simp add: Let_def)
  next
    case 2
    then obtain m where m: "q = Some p" "h p = Some m" "chain h (mk_next m) ps" "valid_anchor mb tx (marker_data_anchor m)"
        "markers_valid mb tx ps h"
      by (auto simp: chain_Cons markers_valid_iff)
    then have "byte_bracket mb tx k (consider_byte_anchor k (marker_data_anchor m) bs)"
      using 2 by (intro consider_keeps_bracket) auto
    then show ?case using m Cons.IH(2) by (subst marker_byte_bounds.simps) (simp add: Let_def)
  }
qed

text \<open>The markers of the text are on its positions.\<close>

definition text_markers_ok :: "(nat \<Rightarrow> nat list) \<Rightarrow> marker_store \<Rightarrow> buffer_storage \<Rightarrow> bool" where
  "text_markers_ok cs ms s \<longleftrightarrow> store_inv cs ms \<and> markers_valid (st_mb s) (st_text s) (cs (st_markers s)) (ms_heap ms)"

lemma text_markers_same: "same_text s s' \<Longrightarrow> text_markers_ok cs ms s' \<longleftrightarrow> text_markers_ok cs ms s"
  by (simp add: text_markers_ok_def same_text_def)

lemma table_neighbours:
  assumes "anchor_table_ok mb tx as" "n < length as"
  shows "valid_anchor mb tx (as ! n)"
  using assms by (auto simp: anchor_table_ok_def)

lemma position_bounds_bracket:
  assumes inv: "storage_inv s" and key: "st_anchor_cache_key s = st_content_epoch s" and ms: "text_markers_ok cs ms s"
  shows "c \<le> emacs_char_count_bytes (st_text s) (st_mb s) \<Longrightarrow>
      \<exists>bs. char_position_bounds ms s c = Some bs \<and> char_bracket (st_mb s) (st_text s) c bs"
    "k \<le> length (st_text s) \<Longrightarrow>
      \<exists>bs. byte_position_bounds ms s k = Some bs \<and> byte_bracket (st_mb s) (st_text s) k bs"
proof -
  have tab: "anchor_table_ok (st_mb s) (st_text s) (st_anchor_cache s)" using inv key by (simp add: storage_inv_def)
  have nb: "valid_anchor (st_mb s) (st_text s) (st_anchor_cache s ! n)" if "n < length (st_anchor_cache s)" for n
    by (rule table_neighbours [OF tab that])
  have less: "partition_point P xs - Suc 0 < length xs" if "0 < partition_point P xs" for P :: "text_position_anchor \<Rightarrow> bool" and xs
    using that partition_point_props(1) [of P xs] by linarith
  have behind: "valid_anchor (st_mb s) (st_text s) (st_anchor_cache s ! (partition_point P (st_anchor_cache s) - Suc 0))"
    if "0 < partition_point P (st_anchor_cache s)" for P
    by (rule nb [OF less [OF that]])
  have empty: "partition_point P [] = 0" for P :: "text_position_anchor \<Rightarrow> bool"
    using partition_point_props(1) [of P "[]"] by simp
  have ch: "chain (ms_heap ms) (ms_heads ms (st_markers s)) (cs (st_markers s))"
      "markers_valid (st_mb s) (st_text s) (cs (st_markers s)) (ms_heap ms)"
    using ms by (auto simp: text_markers_ok_def store_inv_def)
  show "\<exists>bs. char_position_bounds ms s c = Some bs \<and> char_bracket (st_mb s) (st_text s) c bs"
    if "c \<le> emacs_char_count_bytes (st_text s) (st_mb s)"
    unfolding char_position_bounds_def Let_def
    by (intro marker_bounds_bracket(1) [OF ch]) (auto intro!: consider_keeps_bracket(1) mini_brackets(1) [OF inv that] nb less behind simp: empty)
  show "\<exists>bs. byte_position_bounds ms s k = Some bs \<and> byte_bracket (st_mb s) (st_text s) k bs"
    if "k \<le> length (st_text s)"
    unfolding byte_position_bounds_def Let_def
    by (intro marker_bounds_bracket(2) [OF ch]) (auto intro!: consider_keeps_bracket(2) mini_brackets(2) [OF inv that] nb less behind simp: empty)
qed

subsection \<open>Conversions are exact\<close>

text \<open>What a conversion of \<open>s\<close> may return: a result that satisfies \<open>P\<close>, and a storage with other caches.\<close>

definition converts :: "('a \<Rightarrow> bool) \<Rightarrow> buffer_storage \<Rightarrow> ('a \<times> buffer_storage) option \<Rightarrow> bool" where
  "converts P s r \<longleftrightarrow> (\<exists>x s'. r = Some (x, s') \<and> P x \<and> storage_inv s' \<and> same_text s s')"

lemma converts_set_cache:
  assumes "storage_inv s" "same_text s0 s" "valid_anchor (st_mb s) (st_text s) a" "P x"
  shows "converts P s0 (Some (x, set_pos_cache a s))"
  using assms set_pos_cache_inv by (auto simp: converts_def intro: same_text_trans)

lemma converts_span:
  assumes inv: "storage_inv s" and br: "char_bracket (st_mb s) (st_text s) c bs \<or> byte_bracket (st_mb s) (st_text s) k bs"
    and a: "valid_anchor (st_mb s) (st_text s) a" and P: "P x"
  shows "converts P s (do { s \<leftarrow> remember_single_byte_span bs s; Some (x, set_pos_cache a s) })"
proof -
  have "valid_anchor (st_mb s) (st_text s) (tb_below bs)" "valid_anchor (st_mb s) (st_text s) (tb_above bs)"
    "ta_byte (tb_below bs) \<le> ta_byte (tb_above bs)" "ta_char (tb_below bs) \<le> ta_char (tb_above bs)"
    using br storage_invD(3) [OF inv] char_bracket_bytes [of "st_mb s" "st_text s" c bs]
      byte_bracket_chars [of "st_mb s" "st_text s" k bs]
    by (auto simp: char_bracket_def byte_bracket_def)
  then obtain s' where s': "remember_single_byte_span bs s = Some s'" "storage_inv s'" "same_text s s'"
    using remember_span_inv [OF inv] by blast
  then show ?thesis using converts_set_cache [of s' s a P x] a P by (simp add: same_text_def)
qed

lemma converts_scan:
  assumes inv: "storage_inv s" and key: "st_anchor_cache_key s = st_content_epoch s"
    and a: "valid_anchor (st_mb s) (st_text s) a" and P: "P x"
  shows "converts P s (do { s \<leftarrow> (if far then remember_scan_anchor a s else Some s); Some (x, set_pos_cache a s) })"
proof -
  obtain s' where s': "(if far then remember_scan_anchor a s else Some s) = Some s'" "storage_inv s'" "same_text s s'"
    using remember_scan_anchor_inv [OF inv key a] inv by (cases far) auto
  then show ?thesis using converts_set_cache [of s' s a P x] a P by (simp add: same_text_def)
qed

lemma converts_same: "converts P s' r \<Longrightarrow> same_text s s' \<Longrightarrow> converts P s r"
  by (auto simp: converts_def intro: same_text_trans)

lemma anchor_scan_gap: "\<not> uses_backend_index (tb_position_lookup b) \<Longrightarrow> \<exists>g. b = TB_Gap g"
  by (cases b) (auto simp: uses_backend_index_def)

lemma char_scan_exact:
  assumes inv: "tb_inv b" "well_formed (tb_is_multibyte b) (tb_text b)" and gap: "\<not> uses_backend_index (tb_position_lookup b)"
    and br: "char_bracket (tb_is_multibyte b) (tb_text b) c bs" "c \<le> emacs_char_count_bytes (tb_text b) (tb_is_multibyte b)"
  shows "\<exists>k. (if ta_char (nearest_char_anchor bs c) \<le> c then scan_forward b (nearest_char_anchor bs c) c
     else scan_backward b (nearest_char_anchor bs c) c) = Some k \<and> char_offset (tb_is_multibyte b) (tb_text b) c k"
proof -
  have v: "valid_anchor (tb_is_multibyte b) (tb_text b) (nearest_char_anchor bs c)"
    using br(1) by (auto simp: char_bracket_def nearest_char_anchor_def)
  obtain g where g: "b = TB_Gap g" using anchor_scan_gap [OF gap] by blast
  have own: "gap_inv g" using inv(1) g by (simp add: tb_inv_def)
  show ?thesis
  proof (cases "ta_char (nearest_char_anchor bs c) \<le> c")
    case True
    then show ?thesis using scan_forward_offset [OF inv v _ br(2)] by simp
  next
    case False
    then show ?thesis using scan_backward_offset [OF own, of "nearest_char_anchor bs c" c] v g by simp
  qed
qed


lemma indexed_same:
  assumes "uses_backend_index (tb_position_lookup b)"
  shows "tb_char_pos_to_emacs_byte_pos c b = Some (k, b') \<Longrightarrow> b' = b"
    "tb_emacs_byte_pos_to_char_pos k b = Some (c, b') \<Longrightarrow> b' = b"
  using assms by (cases b; auto simp: uses_backend_index_def)+

lemma all_single_byte:
  assumes "lead_ok mb tx" "emacs_char_count_bytes tx mb = length tx" "k \<le> length tx"
  shows "char_offset mb tx k k"
  using single_byte_span [OF char_offset_0 char_offset_end assms(1), of k] assms(2,3) by simp

text \<open>The result that a conversion to bytes and one to characters must have.\<close>

definition byte_of_char :: "bool \<Rightarrow> bytes \<Rightarrow> char_pos0 \<Rightarrow> emacs_byte_pos \<Rightarrow> bool" where
  "byte_of_char mb tx c k \<longleftrightarrow>
     (if c \<le> emacs_char_count_bytes tx mb then char_offset mb tx c k else k = length tx)"

definition char_of_byte :: "bool \<Rightarrow> bytes \<Rightarrow> emacs_byte_pos \<Rightarrow> char_pos0 \<Rightarrow> bool" where
  "char_of_byte mb tx k c \<longleftrightarrow>
     (if length tx \<le> k then c = emacs_char_count_bytes tx mb
      else if inside_char mb tx k
      then c = emacs_char_count_bytes (take k tx) mb \<or> c = emacs_char_count_bytes (take k tx) mb - 1
      else char_offset mb tx c k)"

lemma converts_mini_char:
  assumes inv: "storage_inv s" and br: "char_bracket (st_mb s) (st_text s) c bs"
    and more: "converts (char_offset (st_mb s) (st_text s) c) s r0"
  shows "converts (char_offset (st_mb s) (st_text s) c) s (do {
      found \<leftarrow> interpolate_char bs c;
      case found of
        Some result \<Rightarrow> do {
          s \<leftarrow> remember_single_byte_span bs s;
          Some (result, set_pos_cache (anchor_new c result) s)
        }
      | None \<Rightarrow> r0 })"
proof -
  obtain r where r: "interpolate_char bs c = Some r" "\<And>b. r = Some b \<Longrightarrow> char_offset (st_mb s) (st_text s) c b"
    using interpolate_char_bracket [OF br storage_invD(3) [OF inv]] by blast
  show ?thesis
  proof (cases r)
    case None
    then show ?thesis using r(1) more by simp
  next
    case (Some k)
    then show ?thesis using r converts_span [OF inv, of c bs 0 "anchor_new c k" "char_offset (st_mb s) (st_text s) c" k] br by simp
  qed
qed

lemma char_scan_converts:
  assumes inv: "storage_inv s" and key: "st_anchor_cache_key s = st_content_epoch s" and ms: "text_markers_ok cs ms s"
    and wf: "well_formed (st_mb s) (st_text s)" and gap: "\<not> uses_backend_index (tb_position_lookup (st_backend s))"
    and c: "c \<le> emacs_char_count_bytes (st_text s) (st_mb s)"
  shows "converts (char_offset (st_mb s) (st_text s) c) s (st_char_to_byte_scan ms c s)"
proof -
  obtain bs where bs: "char_position_bounds ms s c = Some bs" "char_bracket (st_mb s) (st_text s) c bs"
    using position_bounds_bracket(1) [OF inv key ms c] by blast
  obtain k where k: "(if ta_char (nearest_char_anchor bs c) \<le> c then scan_forward (st_backend s) (nearest_char_anchor bs c) c
     else scan_backward (st_backend s) (nearest_char_anchor bs c) c) = Some k" "char_offset (st_mb s) (st_text s) c k"
    using char_scan_exact [OF storage_invD(1) [OF inv] wf gap bs(2) c] by blast
  have scan: "converts (char_offset (st_mb s) (st_text s) c) s (do {
      s \<leftarrow> (if POSITION_ANCHOR_STRIDE < min_char_walk bs c then remember_scan_anchor (anchor_new c k) s else Some s);
      Some (k, set_pos_cache (anchor_new c k) s) })"
    using converts_scan [OF inv key, of "anchor_new c k" "char_offset (st_mb s) (st_text s) c" k] k(2) by simp
  show ?thesis
    unfolding st_char_to_byte_scan_def bs(1) Let_def bind.bind_lunit
    by (rule converts_mini_char [OF inv bs(2)]) (use scan k(1) in simp)
qed


lemma multibyte_of_metrics:
  "tm_chars (text_metrics_of mb tx) \<noteq> tm_bytes (text_metrics_of mb tx) \<Longrightarrow> mb"
  by (cases mb) (auto simp: emacs_char_count_bytes_def)

lemma char_to_byte_converts:
  assumes inv: "storage_inv s" and ms: "text_markers_ok cs ms s" and wf: "well_formed (st_mb s) (st_text s)"
  shows "converts (byte_of_char (st_mb s) (st_text s) c) s (st_char_pos_to_emacs_byte_pos ms c s)"
proof (cases "emacs_char_count_bytes (st_text s) (st_mb s) \<le> c \<or> emacs_char_count_bytes (st_text s) (st_mb s) = length (st_text s)")
  case True
  have "byte_of_char (st_mb s) (st_text s) c (if emacs_char_count_bytes (st_text s) (st_mb s) \<le> c then length (st_text s) else c)"
    using True all_single_byte [OF storage_invD(3) [OF inv], of c] by (auto simp: byte_of_char_def le_antisym)
  then show ?thesis
    using True inv storage_invD(4) [OF inv]
    by (auto simp: converts_def st_char_pos_to_emacs_byte_pos_def st_char_pos_to_emacs_byte_pos_multibyte_def)
next
  case False
  let ?P = "char_offset (st_mb s) (st_text s) c"
  have P: "byte_of_char (st_mb s) (st_text s) c = ?P" and le: "c \<le> emacs_char_count_bytes (st_text s) (st_mb s)"
    using False by (auto simp: byte_of_char_def fun_eq_iff)
  note own = storage_invD [OF inv]
  show ?thesis
  proof (cases "uses_backend_index (tb_position_lookup (st_backend s))")
    case index: True
    obtain k b' where k: "tb_char_pos_to_emacs_byte_pos c (st_backend s) = Some (k, b')" "?P k"
      using tb_char_to_byte_own [OF own(2), of c] le by auto
    have "b' = st_backend s" by (rule indexed_same(1) [OF index k(1)])
    then show ?thesis
      using k False index own(4) converts_set_cache [OF inv same_text_refl, of "anchor_new c k" ?P k] unfolding P
      by (simp add: st_char_pos_to_emacs_byte_pos_def st_char_pos_to_emacs_byte_pos_multibyte_def)
  next
    case gap: False
    let ?s = "ensure_position_anchor_cache_current s"
    note cur = ensure_current_inv [OF inv]
    have same: "st_backend ?s = st_backend s" "st_content_epoch ?s = st_content_epoch s"
      using cur(2) by (auto simp: same_text_def)
    have slow: "converts ?P s (do {
        found \<leftarrow> interpolate_char (mini_char_bounds ?s c) c;
        case found of
          Some result \<Rightarrow> do {
            s \<leftarrow> remember_single_byte_span (mini_char_bounds ?s c) ?s;
            Some (result, set_pos_cache (anchor_new c result) s)
          }
        | None \<Rightarrow> st_char_to_byte_scan ms c ?s })"
      (is "converts _ _ ?slow")
    proof (rule converts_same [OF _ cur(2)])
      have "converts (char_offset (st_mb ?s) (st_text ?s) c) ?s ?slow"
        by (intro converts_mini_char [OF cur(1)] mini_brackets(1) [OF cur(1)] char_scan_converts [OF cur(1), of cs])
          (use cur(3) text_markers_same [OF cur(2)] ms wf gap le in \<open>simp_all add: same\<close>)
      then show "converts ?P ?s ?slow" by (simp only: same)
    qed
    have hit: "converts ?P s (Some (k, set_pos_cache (anchor_new c k) s))"
      if "span_char_to_byte (st_single_byte_span s) (st_content_epoch s) c = Some k" for k
      using converts_set_cache [OF inv same_text_refl, of "anchor_new c k" ?P k] span_exact(1) [OF inv that] by simp
    show ?thesis
      using False gap own(4) slow hit unfolding P
      by (auto simp: st_char_pos_to_emacs_byte_pos_def st_char_pos_to_emacs_byte_pos_multibyte_def Let_def split: option.split)
  qed
qed


lemma boundary_test:
  assumes own: "tb_own_inv b" and mb: "tb_is_multibyte b" and k: "k \<le> length (tb_text b)"
  shows "target_is_char_boundary b k = Some (\<not> inside_char (tb_is_multibyte b) (tb_text b) k)"
  using tb_emacs_byte_at_text [OF own, of k] mb
  by (simp add: target_is_char_boundary_def inside_char_def char_head_p_def)

lemma char_of_byte_offset:
  assumes "lead_ok mb tx" "char_offset mb tx c k"
  shows "char_of_byte mb tx k c"
  using assms boundary_le [of tx k mb] inside_char_boundary [OF assms(1), of k]
  by (auto simp: char_of_byte_def char_offset_def)

lemma byte_scan_value:
  assumes inv: "tb_inv b" and v: "valid_anchor (tb_is_multibyte b) (tb_text b) a" and k: "k \<le> length (tb_text b)"
  shows "\<exists>c. (if ta_byte a \<le> k then scan_forward_bytes b a k else scan_backward_bytes b a k) = Some c
    \<and> char_of_byte (tb_is_multibyte b) (tb_text b) k c
    \<and> (\<not> inside_char (tb_is_multibyte b) (tb_text b) k \<longrightarrow> char_offset (tb_is_multibyte b) (tb_text b) c k)"
proof -
  have own: "tb_own_inv b" using inv by (simp add: tb_inv_def)
  have in_lt: "inside_char (tb_is_multibyte b) (tb_text b) k \<Longrightarrow> k < length (tb_text b)" by (simp add: inside_char_def)
  have off: "char_offset (tb_is_multibyte b) (tb_text b) (emacs_char_count_bytes (take k (tb_text b)) (tb_is_multibyte b)) k"
    if "\<not> inside_char (tb_is_multibyte b) (tb_text b) k"
    using that inside_char_boundary [OF own_inv_lead_ok [OF own] k] by (simp add: char_offset_def)
  have ok: "char_of_byte (tb_is_multibyte b) (tb_text b) k (emacs_char_count_bytes (take k (tb_text b)) (tb_is_multibyte b) - n)"
    if "n = 0 \<or> n = of_bool (inside_char (tb_is_multibyte b) (tb_text b) k)" for n
    using that in_lt off char_of_byte_offset [OF own_inv_lead_ok [OF own] off]
    by (cases "inside_char (tb_is_multibyte b) (tb_text b) k") (auto simp: char_of_byte_def)
  show ?thesis
  proof (cases "ta_byte a \<le> k")
    case True
    then show ?thesis using scan_forward_bytes_count [OF inv v True k] off ok [of 0] by simp
  next
    case False
    then show ?thesis
      using scan_backward_bytes_count [OF own v, of k] off ok [of "of_bool (inside_char (tb_is_multibyte b) (tb_text b) k)"] by auto
  qed
qed

lemma converts_mini_byte:
  assumes inv: "storage_inv s" and br: "byte_bracket (st_mb s) (st_text s) k bs"
    and more: "converts (char_of_byte (st_mb s) (st_text s) k) s r0"
  shows "converts (char_of_byte (st_mb s) (st_text s) k) s (do {
      found \<leftarrow> interpolate_byte bs k;
      case found of
        Some result \<Rightarrow> do {
          s \<leftarrow> remember_single_byte_span bs s;
          Some (result, set_pos_cache (anchor_new result k) s)
        }
      | None \<Rightarrow> r0 })"
proof -
  obtain r where r: "interpolate_byte bs k = Some r" "\<And>c. r = Some c \<Longrightarrow> char_offset (st_mb s) (st_text s) c k"
    using interpolate_byte_bracket [OF br storage_invD(3) [OF inv]] by blast
  show ?thesis
  proof (cases r)
    case None
    then show ?thesis using r(1) more by simp
  next
    case (Some c)
    then show ?thesis
      using r converts_span [OF inv, of 0 bs k "anchor_new c k" "char_of_byte (st_mb s) (st_text s) k" c] br
        char_of_byte_offset [OF storage_invD(3) [OF inv], of c k] by simp
  qed
qed

lemma byte_scan_converts:
  assumes inv: "storage_inv s" and key: "st_anchor_cache_key s = st_content_epoch s" and ms: "text_markers_ok cs ms s"
    and mb: "st_mb s" and k: "k \<le> length (st_text s)"
  shows "converts (char_of_byte (st_mb s) (st_text s) k) s (st_byte_to_char_scan ms k s)"
proof -
  let ?P = "char_of_byte (st_mb s) (st_text s) k"
  obtain bs where bs: "byte_position_bounds ms s k = Some bs" "byte_bracket (st_mb s) (st_text s) k bs"
    using position_bounds_bracket(2) [OF inv key ms k] by blast
  have v: "valid_anchor (st_mb s) (st_text s) (nearest_byte_anchor bs k)"
    using bs(2) by (auto simp: byte_bracket_def nearest_byte_anchor_def)
  obtain c where c: "(if ta_byte (nearest_byte_anchor bs k) \<le> k then scan_forward_bytes (st_backend s) (nearest_byte_anchor bs k) k
     else scan_backward_bytes (st_backend s) (nearest_byte_anchor bs k) k) = Some c" "?P c"
    "\<not> inside_char (st_mb s) (st_text s) k \<Longrightarrow> char_offset (st_mb s) (st_text s) c k"
    using byte_scan_value [OF storage_invD(1) [OF inv] v k] by blast
  have test: "target_is_char_boundary (st_backend s) k = Some (\<not> inside_char (st_mb s) (st_text s) k)"
    by (rule boundary_test [OF storage_invD(2) [OF inv] mb k])
  have far: "converts ?P s (do {
      s \<leftarrow> (if POSITION_ANCHOR_STRIDE < min_byte_walk bs k then remember_scan_anchor (anchor_new c k) s else Some s);
      Some (c, set_pos_cache (anchor_new c k) s) })" if "\<not> inside_char (st_mb s) (st_text s) k"
    using converts_scan [OF inv key, of "anchor_new c k" ?P c] c(2,3) that by simp
  have same: "converts ?P s (Some (c, s))" using inv c(2) by (simp add: converts_def)
  show ?thesis
    unfolding st_byte_to_char_scan_def bs(1) Let_def bind.bind_lunit
    by (rule converts_mini_byte [OF inv bs(2)])
      (use far same c(1) test in \<open>cases "inside_char (st_mb s) (st_text s) k"; simp\<close>)
qed


lemma byte_to_char_converts:
  assumes inv: "storage_inv s" and ms: "text_markers_ok cs ms s"
  shows "converts (char_of_byte (st_mb s) (st_text s) k) s (st_emacs_byte_pos_to_char_pos ms k s)"
proof (cases "length (st_text s) \<le> k \<or> emacs_char_count_bytes (st_text s) (st_mb s) = length (st_text s)")
  case True
  have "char_of_byte (st_mb s) (st_text s) k (if length (st_text s) \<le> k then emacs_char_count_bytes (st_text s) (st_mb s) else k)"
    using True char_of_byte_offset [OF storage_invD(3) [OF inv] all_single_byte [OF storage_invD(3) [OF inv]], of k]
    by (auto simp: char_of_byte_def)
  then show ?thesis
    using True inv storage_invD(4) [OF inv]
    by (auto simp: converts_def st_emacs_byte_pos_to_char_pos_def st_emacs_byte_pos_to_char_pos_multibyte_def)
next
  case False
  let ?P = "char_of_byte (st_mb s) (st_text s) k" and ?s = "ensure_position_anchor_cache_current s"
  note own = storage_invD [OF inv] and cur = ensure_current_inv [OF inv]
  have mb: "st_mb s" and le: "k \<le> length (st_text s)"
    using False multibyte_of_metrics [of "st_mb s" "st_text s"] by auto
  have same: "st_backend ?s = st_backend s" "st_content_epoch ?s = st_content_epoch s"
    using cur(2) by (auto simp: same_text_def)
  have test: "target_is_char_boundary (st_backend s) k = Some (\<not> inside_char (st_mb s) (st_text s) k)"
    by (rule boundary_test [OF own(2) mb le])
  have slow: "converts ?P s (do {
      found \<leftarrow> interpolate_byte (mini_byte_bounds ?s k) k;
      case found of
        Some result \<Rightarrow> do {
          s \<leftarrow> remember_single_byte_span (mini_byte_bounds ?s k) ?s;
          Some (result, set_pos_cache (anchor_new result k) s)
        }
      | None \<Rightarrow> st_byte_to_char_scan ms k ?s })" (is "converts _ _ ?slow")
  proof (rule converts_same [OF _ cur(2)])
    have "converts (char_of_byte (st_mb ?s) (st_text ?s) k) ?s ?slow"
      by (intro converts_mini_byte [OF cur(1)] mini_brackets(2) [OF cur(1)] byte_scan_converts [OF cur(1), of cs])
        (use cur(3) text_markers_same [OF cur(2)] ms mb le in \<open>simp_all add: same\<close>)
    then show "converts ?P ?s ?slow" by (simp only: same)
  qed
  have hit: "converts ?P s (Some (c, set_pos_cache (anchor_new c k) s))"
    if "span_byte_to_char (st_single_byte_span s) (st_content_epoch s) k = Some c" for c
    using converts_set_cache [OF inv same_text_refl, of "anchor_new c k" ?P c] span_exact(2) [OF inv that]
      char_of_byte_offset [OF own(3), of c k] by simp
  have indexed: "\<exists>c. tb_emacs_byte_pos_to_char_pos k (st_backend s) = Some (c, st_backend s)
      \<and> converts ?P s (Some (c, set_pos_cache (anchor_new c k) s))"
    if i: "uses_backend_index (tb_position_lookup (st_backend s))" "\<not> inside_char (st_mb s) (st_text s) k"
  proof -
    obtain c b' where c: "tb_emacs_byte_pos_to_char_pos k (st_backend s) = Some (c, b')"
        "char_offset (st_mb s) (st_text s) c k"
      using tb_byte_to_char_own [OF own(2), of k] inside_char_boundary [OF own(3) le] i(2) by auto
    then show ?thesis
      using indexed_same(2) [OF i(1) c(1)] converts_set_cache [OF inv same_text_refl, of "anchor_new c k" ?P c]
        char_of_byte_offset [OF own(3) c(2)] by simp
  qed
  consider (index) "uses_backend_index (tb_position_lookup (st_backend s))" "\<not> inside_char (st_mb s) (st_text s) k"
    | (span) c where "\<not> (uses_backend_index (tb_position_lookup (st_backend s)) \<and> \<not> inside_char (st_mb s) (st_text s) k)"
        "span_byte_to_char (st_single_byte_span s) (st_content_epoch s) k = Some c"
    | (scan) "\<not> (uses_backend_index (tb_position_lookup (st_backend s)) \<and> \<not> inside_char (st_mb s) (st_text s) k)"
        "span_byte_to_char (st_single_byte_span s) (st_content_epoch s) k = None"
    by (cases "span_byte_to_char (st_single_byte_span s) (st_content_epoch s) k") blast+
  then show ?thesis
  proof cases
    case index
    then show ?thesis
      using indexed False own(4) test
      by (auto simp: st_emacs_byte_pos_to_char_pos_def st_emacs_byte_pos_to_char_pos_multibyte_def)
  next
    case span
    then show ?thesis
      using hit False own(4) test
      by (auto simp: st_emacs_byte_pos_to_char_pos_def st_emacs_byte_pos_to_char_pos_multibyte_def)
  next
    case scan
    then show ?thesis
      using slow False own(4) test
      by (auto simp: st_emacs_byte_pos_to_char_pos_def st_emacs_byte_pos_to_char_pos_multibyte_def Let_def)
  qed
qed

end
