(* ===== verification/Buffer_Storage.thy ===== *)
theory Buffer_Storage
  imports Buffer_Text
begin

text \<open>
  What the text object of a buffer promises to its callers, over the definitions of \<open>Buffer_Text\<close>:
  construction and conversion of the backend, exact position conversion through the caches, and
  edits that keep the caches, the reported gap and the text together whatever the backend is. Two
  theorems show behaviour of the code that depends on more than the text: a virtual gap that
  outlives a change of representation, and the position inside a character.
\<close>

subsection \<open>Construction\<close>

lemma st_from_backend_inv:
  assumes "tb_inv b"
  shows "\<exists>s. st_from_backend t b = Some s \<and> storage_inv s \<and> st_backend s = b \<and> st_markers s = t"
proof -
  have own: "tb_own_inv b" using assms by (simp add: tb_inv_def)
  have m: "tb_metrics b = Some (text_metrics_of (tb_is_multibyte b) (tb_text b))"
    using backend.metrics_law [OF assms] by (simp add: text_metrics_of_def)
  obtain r where "tb_real_gap_compat_state b = Some r"
    using real_gap_kind [OF own] by metis
  then show ?thesis
    using assms m
    by (simp add: st_from_backend_def storage_inv_def position_cache_default_def span_default_def)
qed

definition sample_storage :: "backend_kind \<Rightarrow> buffer_storage" where
  "sample_storage k = the (Option.bind (tb_from_emacs_bytes sample_text True k) (st_from_backend 0))"

lemma sample_storage_inv:
  "storage_inv (sample_storage k)" "st_text (sample_storage k) = sample_text" "st_mb (sample_storage k)"
  "tb_kind (st_backend (sample_storage k)) = k" "text_markers_ok sample_chains sample_markers (sample_storage k)"
proof -
  have st: "rope_storable True sample_text" by (rule rope_storable_short) code_simp+
  obtain b where b: "tb_from_emacs_bytes sample_text True k = Some b" "tb_inv b" "tb_kind b = k" "tb_is_multibyte b = True"
      "tb_text b = sample_text"
    by (rule tb_from_emacs_bytes_inv [OF st])
  obtain s where s: "st_from_backend 0 b = Some s" "storage_inv s" "st_backend s = b" "st_markers s = 0"
    using st_from_backend_inv [OF b(2)] by blast
  have "sample_storage k = s" using b(1) s(1) by (simp add: sample_storage_def)
  moreover have "text_markers_ok sample_chains sample_markers s"
    using sample_markers_inv sample_edit(1) s(3,4) b(4,5) by (simp add: text_markers_ok_def sample_text_def)
  ultimately show "storage_inv (sample_storage k)" "st_text (sample_storage k) = sample_text" "st_mb (sample_storage k)"
    "tb_kind (st_backend (sample_storage k)) = k" "text_markers_ok sample_chains sample_markers (sample_storage k)"
    using b s by simp_all
qed

lemma sample_measured_edit:
  "measured_edit True sample_text [0x78, 0x79] (tr_old sample_replacement) (tr_new sample_replacement)"
proof -
  have "measured_range True sample_text (tr_old sample_replacement)" "lead_ok True sample_text"
    "measured_text True [0x78, 0x79] (tr_new sample_replacement)"
    "length (replace_range (er_byte_start (tr_old sample_replacement)) (er_byte_end (tr_old sample_replacement))
       [0x78, 0x79] sample_text) = 4"
    by code_simp+
  then show ?thesis by (simp add: measured_edit_def)
qed

subsection \<open>Position conversion\<close>

text \<open>C16: characters to bytes through the caches. Whatever the last conversion, the proven single-byte
  span, the table of scan anchors and the markers of the text hold, as long as each of them stands on a
  position of the text, converting a character position returns its byte position (the end of the text
  past the last character), and leaves caches that still hold only positions of that same text.\<close>

theorem char_to_byte_exact:
  assumes "storage_inv s" "text_markers_ok cs ms s" "well_formed (st_mb s) (st_text s)"
  shows "\<exists>k s'. st_char_pos_to_emacs_byte_pos ms c s = Some (k, s')
     \<and> (if c \<le> emacs_char_count_bytes (st_text s) (st_mb s) then char_offset (st_mb s) (st_text s) c k
        else k = length (st_text s))
     \<and> storage_inv s' \<and> same_text s s'"
  using char_to_byte_converts [OF assms, of c] by (simp add: converts_def byte_of_char_def)

theorem char_to_byte_exact_witness:
  "\<exists>k s'. st_char_pos_to_emacs_byte_pos sample_markers 2 (sample_storage GapBuffer) = Some (k, s')
     \<and> (if 2 \<le> emacs_char_count_bytes (st_text (sample_storage GapBuffer)) (st_mb (sample_storage GapBuffer))
        then char_offset (st_mb (sample_storage GapBuffer)) (st_text (sample_storage GapBuffer)) 2 k
        else k = length (st_text (sample_storage GapBuffer)))
     \<and> storage_inv s' \<and> same_text (sample_storage GapBuffer) s'"
proof (rule char_to_byte_exact [OF sample_storage_inv(1,5)])
  have "sample_text = encode_text [0x61, 0xE9, 0x62]" by code_simp
  then show "well_formed (st_mb (sample_storage GapBuffer)) (st_text (sample_storage GapBuffer))"
    unfolding well_formed_def sample_storage_inv
    by (intro impI exI [of _ "[0x61, 0xE9, 0x62]"]) (simp add: MAX_CHAR_def)
qed

text \<open>C17: bytes to characters through the caches. Under the same conditions, converting a byte position
  returns: past the text, the number of characters; at a character, its position; at a byte in the
  middle of a character, the position of that character or of the next one. The caches stay right.\<close>

theorem byte_to_char_exact:
  assumes "storage_inv s" "text_markers_ok cs ms s"
  shows "\<exists>c s'. st_emacs_byte_pos_to_char_pos ms k s = Some (c, s') \<and> char_of_byte (st_mb s) (st_text s) k c
     \<and> storage_inv s' \<and> same_text s s'"
  using byte_to_char_converts [OF assms, of k] by (simp add: converts_def)

theorem byte_to_char_exact_witness:
  "\<exists>c s'. st_emacs_byte_pos_to_char_pos sample_markers 3 (sample_storage GapBuffer) = Some (c, s')
     \<and> char_of_byte (st_mb (sample_storage GapBuffer)) (st_text (sample_storage GapBuffer)) 3 c
     \<and> storage_inv s' \<and> same_text (sample_storage GapBuffer) s'"
  by (rule byte_to_char_exact [OF sample_storage_inv(1,5)])

subsection \<open>Edits\<close>

text \<open>C15: edits of the storage. Replacing a measured range, deleting it, and inserting at its start all
  return on every backend; the text changes as the list operations say, the reported gap moves as the
  edit says, and the shifted caches hold only positions of the new text.\<close>

theorem storage_edits_sound:
  assumes "storage_inv s" "measured_edit (st_mb s) (st_text s) bs (tr_old rep) (tr_new rep)"
    "rope_storable (st_mb s) bs" "\<not> edit_range_is_empty (tr_old rep)" "bs \<noteq> []"
    "length (st_text s) + length bs < 2 ^ 63"
  shows "(\<exists>s'. st_replace_measured_range rep bs s = Some s' \<and> edits_storage (tr_old rep) (tr_new rep) bs s s')
     \<and> (\<exists>s'. st_delete_measured_range (tr_old rep) s = Some s' \<and> edits_storage (tr_old rep) extent_zero [] s s')
     \<and> (\<exists>s'. st_insert_measured_emacs_bytes (er_byte_start (tr_old rep)) bs (tr_new rep) s = Some s'
          \<and> edits_storage (edit_range_empty_at (er_byte_start (tr_old rep)) (er_char_start (tr_old rep))) (tr_new rep) bs s s')"
proof -
  note e = measured_editD [OF assms(2)]
  have "length (st_text s) < 2 ^ 63" using assms(6) by linarith
  then show ?thesis
    using st_replace_inv [OF assms(1-3)] st_delete_inv [OF assms(1) e(1) assms(4)]
      st_insert_inv [OF assms(1) measured_rangeD(3) [OF e(1)] e(3) assms(3,5,6)] assms(4) by blast
qed

theorem storage_edits_sound_witness:
  "(\<exists>s'. st_replace_measured_range sample_replacement [0x78, 0x79] (sample_storage Rope) = Some s'
       \<and> edits_storage (tr_old sample_replacement) (tr_new sample_replacement) [0x78, 0x79] (sample_storage Rope) s')
     \<and> (\<exists>s'. st_delete_measured_range (tr_old sample_replacement) (sample_storage Rope) = Some s'
          \<and> edits_storage (tr_old sample_replacement) extent_zero [] (sample_storage Rope) s')
     \<and> (\<exists>s'. st_insert_measured_emacs_bytes (er_byte_start (tr_old sample_replacement)) [0x78, 0x79] (tr_new sample_replacement)
             (sample_storage Rope) = Some s'
          \<and> edits_storage (edit_range_empty_at (er_byte_start (tr_old sample_replacement)) (er_char_start (tr_old sample_replacement)))
              (tr_new sample_replacement) [0x78, 0x79] (sample_storage Rope) s')"
proof (rule storage_edits_sound [OF sample_storage_inv(1)])
  show "measured_edit (st_mb (sample_storage Rope)) (st_text (sample_storage Rope)) [0x78, 0x79]
      (tr_old sample_replacement) (tr_new sample_replacement)"
    using sample_measured_edit by (simp add: sample_storage_inv)
  show "rope_storable (st_mb (sample_storage Rope)) [0x78, 0x79]"
    unfolding sample_storage_inv by (rule rope_storable_short) code_simp+
  show "\<not> edit_range_is_empty (tr_old sample_replacement)" by code_simp
  show "length (st_text (sample_storage Rope)) + length ([0x78, 0x79] :: bytes) < 2 ^ 63"
    by (simp add: sample_storage_inv sample_text_def)
qed simp

text \<open>C38: the gap that Lisp sees does not depend on the backend. Two storages of any kinds with the same
  text, the same representation and the same reported gap still agree on all of these, and on
  their metrics, after the same replacement.\<close>

theorem reported_gap_independent:
  assumes "storage_inv s1" "storage_inv s2" "st_text s1 = st_text s2" "st_mb s1 = st_mb s2"
    "st_gap_compat_state s1 = st_gap_compat_state s2"
    "measured_edit (st_mb s1) (st_text s1) bs (tr_old rep) (tr_new rep)" "rope_storable (st_mb s1) bs"
    "\<not> (edit_range_is_empty (tr_old rep) \<and> bs = [])"
  shows "\<exists>t1 t2. st_replace_measured_range rep bs s1 = Some t1 \<and> st_replace_measured_range rep bs s2 = Some t2
     \<and> st_text t1 = st_text t2 \<and> st_metrics t1 = st_metrics t2
     \<and> gap_position_lisp t1 = gap_position_lisp t2 \<and> gap_size_lisp t1 = gap_size_lisp t2"
proof -
  obtain t1 where t1: "st_replace_measured_range rep bs s1 = Some t1" "edits_storage (tr_old rep) (tr_new rep) bs s1 t1"
    using st_replace_inv [OF assms(1,6,7,8)] by blast
  obtain t2 where t2: "st_replace_measured_range rep bs s2 = Some t2" "edits_storage (tr_old rep) (tr_new rep) bs s2 t2"
    using st_replace_inv [OF assms(2) _ _ assms(8)] assms(3,4,6,7) by auto
  have "st_gap_compat_state t1 = st_gap_compat_state t2" "st_metrics t1 = st_metrics t2" "st_text t1 = st_text t2"
    using t1(2) t2(2) assms(3-5) by (auto simp: edits_storage_def storage_inv_def)
  then show ?thesis using t1(1) t2(1) by (auto simp: gap_position_lisp_def gap_size_lisp_def)
qed


theorem reported_gap_independent_witness:
  "\<exists>t1 t2. st_replace_measured_range sample_replacement [0x78, 0x79] (sample_storage PieceTree) = Some t1
     \<and> st_replace_measured_range sample_replacement [0x78, 0x79] (sample_storage Rope) = Some t2
     \<and> st_text t1 = st_text t2 \<and> st_metrics t1 = st_metrics t2
     \<and> gap_position_lisp t1 = gap_position_lisp t2 \<and> gap_size_lisp t1 = gap_size_lisp t2"
proof (rule reported_gap_independent [OF sample_storage_inv(1,1)])
  show "st_text (sample_storage PieceTree) = st_text (sample_storage Rope)" "st_mb (sample_storage PieceTree) = st_mb (sample_storage Rope)"
    by (simp_all add: sample_storage_inv)
  show "st_gap_compat_state (sample_storage PieceTree) = st_gap_compat_state (sample_storage Rope)" by code_simp
  show "measured_edit (st_mb (sample_storage PieceTree)) (st_text (sample_storage PieceTree)) [0x78, 0x79]
      (tr_old sample_replacement) (tr_new sample_replacement)"
    using sample_measured_edit by (simp add: sample_storage_inv)
  show "rope_storable (st_mb (sample_storage PieceTree)) [0x78, 0x79]"
    unfolding sample_storage_inv by (rule rope_storable_short) code_simp+
  show "\<not> (edit_range_is_empty (tr_old sample_replacement) \<and> [0x78, 0x79 :: u8] = [])" by simp
qed

subsection \<open>Changing the backend\<close>

lemma st_convert_backend_inv:
  assumes "storage_inv s" "st_gap_compat_state s = Some g" "gc_pos g \<le> emacs_char_count_bytes (st_text s) (st_mb s)"
  shows "\<exists>s'. st_convert_backend_kind k s = Some s' \<and> storage_inv s' \<and> tb_kind (st_backend s') = k
     \<and> st_text s' = st_text s \<and> st_mb s' = st_mb s \<and> st_metrics s' = st_metrics s \<and> st_gap_compat_state s' = Some g"
proof (cases "tb_kind (st_backend s) = k")
  case True
  then show ?thesis using assms by (simp add: st_convert_backend_kind_def)
next
  case False
  note i = storage_invD [OF assms(1)]
  let ?sn = "\<lparr>sn_bytes = st_text s, sn_multibyte = st_mb s\<rparr>"
  have st: "rope_storable (st_mb s) (st_text s)" using i(1) by (simp add: tb_inv_def)
  obtain b where b: "tb_from_snapshot_with_gap_compat_state ?sn k g = Some b" "tb_inv b" "tb_kind b = k"
      "tb_is_multibyte b = st_mb s" "tb_text b = st_text s"
      "tb_real_gap_compat_state b = Some (if k = GapBuffer then Some g else None)"
  proof (cases k)
    case GapBuffer
    obtain h where "gb_from_emacs_bytes_with_gap_compat_state (st_text s) (st_mb s) g = Some h" "gap_inv h"
      "gb_text h = st_text s" "gb_multibyte h = st_mb s" "gb_real_gap_compat_state h = Some g"
      by (rule gb_from_gap_compat_inv [OF i(3) assms(3)])
    then show ?thesis using that [of "TB_Gap h"] GapBuffer st by (simp add: tb_inv_def)
  next
    case PieceTree
    obtain b where "tb_from_emacs_bytes (st_text s) (st_mb s) k = Some b" "tb_inv b" "tb_kind b = k"
        "tb_is_multibyte b = st_mb s" "tb_text b = st_text s"
      by (rule tb_from_emacs_bytes_inv [OF st])
    then show ?thesis using that [of b] PieceTree by (cases b) auto
  next
    case Rope
    obtain b where "tb_from_emacs_bytes (st_text s) (st_mb s) k = Some b" "tb_inv b" "tb_kind b = k"
        "tb_is_multibyte b = st_mb s" "tb_text b = st_text s"
      by (rule tb_from_emacs_bytes_inv [OF st])
    then show ?thesis using that [of b] Rope by (cases b) auto
  qed
  let ?s = "s\<lparr>st_backend := b, st_virtual_gap := g, st_metrics := text_metrics_of (st_mb s) (st_text s)\<rparr>"
  have "st_convert_backend_kind k s = Some (invalidate_position_caches ?s)"
    using False assms(2) b(1,2,4,5) tb_dump [OF i(2)]
    by (simp add: st_convert_backend_kind_def tb_snapshot_def finish_backend_shape_change_def refreshed)
  moreover have "storage_inv (invalidate_position_caches ?s)"
    using b assms(1) by (intro invalidated_inv) (simp_all add: storage_inv_def)
  ultimately show ?thesis
    using b i(4) by (auto simp: invalidate_position_caches_def st_gap_compat_state_def)
qed

text \<open>C39: converting the backend. As long as the reported gap is at a character of the text, converting a
  storage to any kind returns, keeps the text, its representation, the metrics and the reported
  gap, and its caches hold only positions of the text.\<close>

theorem convert_backend_keeps_text:
  assumes "storage_inv s" "st_gap_compat_state s = Some g" "gc_pos g \<le> emacs_char_count_bytes (st_text s) (st_mb s)"
  shows "\<exists>s'. st_convert_backend_kind k s = Some s' \<and> storage_inv s' \<and> tb_kind (st_backend s') = k
     \<and> st_text s' = st_text s \<and> st_mb s' = st_mb s \<and> st_metrics s' = st_metrics s \<and> st_gap_compat_state s' = Some g"
  using assms by (rule st_convert_backend_inv)

theorem convert_backend_keeps_text_witness:
  "\<exists>s'. st_convert_backend_kind GapBuffer (sample_storage PieceTree) = Some s' \<and> storage_inv s' \<and> tb_kind (st_backend s') = GapBuffer
     \<and> st_text s' = st_text (sample_storage PieceTree) \<and> st_mb s' = st_mb (sample_storage PieceTree)
     \<and> st_metrics s' = st_metrics (sample_storage PieceTree)
     \<and> st_gap_compat_state s' = Some \<lparr>gc_pos = 3, gc_byte_len = GAP_BYTES_MIN\<rparr>"
proof (rule convert_backend_keeps_text [OF sample_storage_inv(1)])
  show "st_gap_compat_state (sample_storage PieceTree) = Some \<lparr>gc_pos = 3, gc_byte_len = GAP_BYTES_MIN\<rparr>" by code_simp
  show "gc_pos \<lparr>gc_pos = 3, gc_byte_len = GAP_BYTES_MIN\<rparr>
      \<le> emacs_char_count_bytes (st_text (sample_storage PieceTree)) (st_mb (sample_storage PieceTree))"
    unfolding sample_storage_inv by code_simp
qed

subsection \<open>Behaviour that depends on more than the text\<close>

text \<open>A conversion to a gap buffer is impossible when the reported gap is past the text.\<close>

lemma stranded_gap_panics:
  assumes "tb_kind (st_backend s) \<noteq> GapBuffer" "tb_own_inv (st_backend s)" "st_gap_compat_state s = Some g"
    "emacs_char_count_bytes (st_text s) (st_mb s) < gc_pos g"
  shows "st_convert_backend_kind GapBuffer s = None"
  using assms tb_dump [OF assms(2)]
  by (simp add: st_convert_backend_kind_def tb_snapshot_def gb_from_emacs_bytes_with_gap_compat_state_def)

text \<open>Changing the representation, on either tree backend, leaves the gap it reports where it was.\<close>

lemma st_set_multibyte_inv:
  assumes "storage_inv s" "tb_kind (st_backend s) \<noteq> GapBuffer" "rope_storable mb (st_text s)" "st_gap_compat_state s = Some g"
  obtains s' where "st_set_multibyte mb s = Some s'" "storage_inv s'" "tb_kind (st_backend s') = tb_kind (st_backend s)"
    "st_text s' = st_text s" "st_mb s' = mb" "st_gap_compat_state s' = Some g"
proof (cases "st_mb s = mb")
  case True
  then show thesis using that [of s] assms by (simp add: st_set_multibyte_def)
next
  case False
  note i = storage_invD [OF assms(1)]
  obtain b where b: "tb_set_multibyte mb (st_backend s) = Some b" "tb_inv b" "tb_kind b = tb_kind (st_backend s)"
      "tb_is_multibyte b = mb" "tb_text b = st_text s" "tb_real_gap_compat_state b = Some None"
  proof (cases "st_backend s")
    case (TB_Gap g)
    then show ?thesis using assms(2) by simp
  next
    case (TB_PieceTree p)
    then have "piece_inv p" "lead_ok mb (pt_text p)" using i(2) assms(3) rope_storable_lead_ok by auto
    then obtain q where "pt_set_multibyte mb p = Some q" "piece_inv q" "pt_multibyte q = mb" "pt_text q = pt_text p"
      by (rule pt_set_multibyte_inv)
    then show ?thesis using that [of "TB_PieceTree q"] TB_PieceTree assms(3) by (simp add: tb_inv_def)
  next
    case (TB_Rope p)
    then have "rope_inv p" "rope_storable mb (rt_text p)" using i(2) assms(3) by auto
    then obtain q where "rt_set_multibyte mb p = Some q" "rope_inv q" "rt_multibyte q = mb" "rt_text q = rt_text p"
      by (rule rt_set_multibyte_inv)
    then show ?thesis using that [of "TB_Rope q"] TB_Rope assms(3) by (simp add: tb_inv_def)
  qed
  let ?s = "s\<lparr>st_backend := b, st_metrics := text_metrics_of (st_mb (s\<lparr>st_backend := b\<rparr>)) (tb_text b),
     st_content_epoch := next_epoch (st_content_epoch s)\<rparr>"
  have run: "st_set_multibyte mb s = Some (invalidate_position_caches ?s)"
    using False b(1,2) refreshed [of "s\<lparr>st_backend := b\<rparr>"] by (simp add: st_set_multibyte_def finish_backend_content_mutation_def)
  have "st_virtual_gap s = g"
    using assms(2,4) by (cases "st_backend s") (auto simp: st_gap_compat_state_def)
  then show thesis
    using that [OF run] b invalidated_inv [of ?s] next_epoch(1)
    by (simp add: invalidate_position_caches_def st_gap_compat_state_def)
qed

text \<open>C37: a change of representation strands the virtual gap. On a tree backend, \<open>set_multibyte\<close> with
  any text that is storable in the new representation returns and keeps the text, but leaves the
  gap that the backend reports at its old character position. If the text has fewer characters than
  that in the new representation, and only then, converting the buffer to a gap buffer panics, at
  the assertion of the constructor.\<close>

theorem set_multibyte_strands_gap:
  assumes "storage_inv s" "tb_kind (st_backend s) \<noteq> GapBuffer" "rope_storable mb (st_text s)" "st_gap_compat_state s = Some g"
  shows "\<exists>s'. st_set_multibyte mb s = Some s' \<and> storage_inv s' \<and> tb_kind (st_backend s') = tb_kind (st_backend s)
     \<and> st_text s' = st_text s \<and> st_mb s' = mb \<and> st_gap_compat_state s' = Some g
     \<and> (st_convert_backend_kind GapBuffer s' = None \<longleftrightarrow> emacs_char_count_bytes (st_text s) mb < gc_pos g)"
proof -
  obtain s' where s: "st_set_multibyte mb s = Some s'" "storage_inv s'" "tb_kind (st_backend s') = tb_kind (st_backend s)"
    "st_text s' = st_text s" "st_mb s' = mb" "st_gap_compat_state s' = Some g"
    by (rule st_set_multibyte_inv [OF assms])
  have "st_convert_backend_kind GapBuffer s' = None" if "emacs_char_count_bytes (st_text s) mb < gc_pos g"
    using stranded_gap_panics [OF _ storage_invD(2) [OF s(2)] s(6)] that s assms(2) by simp
  moreover have "st_convert_backend_kind GapBuffer s' \<noteq> None" if "\<not> emacs_char_count_bytes (st_text s) mb < gc_pos g"
    using st_convert_backend_inv [OF s(2,6), of GapBuffer] that s by auto
  ultimately have "st_convert_backend_kind GapBuffer s' = None \<longleftrightarrow> emacs_char_count_bytes (st_text s) mb < gc_pos g" by blast
  then show ?thesis by (intro exI [of _ s'] conjI s)
qed

definition unibyte_storage :: buffer_storage where
  "unibyte_storage = the (st_from_backend 0 (the (tb_from_emacs_bytes [0xC3, 0xA9] False PieceTree)))"

lemma unibyte_storage_facts:
  "storage_inv unibyte_storage" "tb_kind (st_backend unibyte_storage) = PieceTree" "st_text unibyte_storage = [0xC3, 0xA9]"
proof -
  have st: "rope_storable False [0xC3, 0xA9]" by (rule rope_storable_short) code_simp+
  obtain b where b: "tb_from_emacs_bytes [0xC3, 0xA9] False PieceTree = Some b" "tb_inv b" "tb_kind b = PieceTree"
      "tb_is_multibyte b = False" "tb_text b = [0xC3, 0xA9]"
    by (rule tb_from_emacs_bytes_inv [OF st])
  obtain s where "st_from_backend 0 b = Some s" "storage_inv s" "st_backend s = b" "st_markers s = 0"
    using st_from_backend_inv [OF b(2)] by blast
  then show "storage_inv unibyte_storage" "tb_kind (st_backend unibyte_storage) = PieceTree" "st_text unibyte_storage = [0xC3, 0xA9]"
    using b by (simp_all add: unibyte_storage_def)
qed

theorem set_multibyte_strands_gap_witness:
  "\<exists>s'. st_set_multibyte True unibyte_storage = Some s' \<and> storage_inv s'
     \<and> tb_kind (st_backend s') = tb_kind (st_backend unibyte_storage)
     \<and> st_text s' = st_text unibyte_storage \<and> st_mb s' = True \<and> st_gap_compat_state s' = Some \<lparr>gc_pos = 2, gc_byte_len = GAP_BYTES_MIN\<rparr>
     \<and> (st_convert_backend_kind GapBuffer s' = None
          \<longleftrightarrow> emacs_char_count_bytes (st_text unibyte_storage) True < gc_pos \<lparr>gc_pos = 2, gc_byte_len = GAP_BYTES_MIN\<rparr>)"
proof (rule set_multibyte_strands_gap [OF unibyte_storage_facts(1)])
  show "tb_kind (st_backend unibyte_storage) \<noteq> GapBuffer" by (simp add: unibyte_storage_facts)
  show "rope_storable True (st_text unibyte_storage)"
    unfolding unibyte_storage_facts by (rule rope_storable_short) code_simp+
  show "st_gap_compat_state unibyte_storage = Some \<lparr>gc_pos = 2, gc_byte_len = GAP_BYTES_MIN\<rparr>" by code_simp
qed

definition no_markers :: marker_store where
  "no_markers = \<lparr>ms_heads = (\<lambda>_. None), ms_heap = (\<lambda>_. None)\<rparr>"

text \<open>The character of a byte in the middle of a character depends on what was converted before. The
  same byte of the same text converts to the next character on a fresh storage, and to the
  character that contains it after the end of that character was converted.\<close>

theorem mid_char_conversion_varies:
  "map_option fst (st_emacs_byte_pos_to_char_pos no_markers 2 (sample_storage GapBuffer)) = Some 2
     \<and> map_option fst (Option.bind (st_emacs_byte_pos_to_char_pos no_markers 3 (sample_storage GapBuffer))
         (\<lambda>(_, s). st_emacs_byte_pos_to_char_pos no_markers 2 s)) = Some 1"
  by code_simp


end
