(* ===== verification/Line_Scan.thy ===== *)
theory Line_Scan
  imports Line_Index Buffer_Storage
begin

text \<open>
  Finding newlines by scanning: the line queries of
  \<open>src/crates/neovm-core/src/buffer/buffer_text.rs\<close> that read the chunks of the backend, and the
  line-by-line walk backwards of \<open>buffer_text/line_index.rs\<close>.

  Each scan is shown to return, and to return what the list of newline positions of the text says.
\<close>

subsection \<open>Searching a chunk\<close>

definition memchr :: "u8 \<Rightarrow> bytes \<Rightarrow> nat option" where
  "memchr c bs = (case hits c bs of [] \<Rightarrow> None | h # _ \<Rightarrow> Some h)"

definition memrchr :: "u8 \<Rightarrow> bytes \<Rightarrow> nat option" where
  "memrchr c bs = (if hits c bs = [] then None else Some (List.last (hits c bs)))"

definition emacs_byte_end_pos :: "buffer_storage \<Rightarrow> emacs_byte_pos" where
  "emacs_byte_end_pos s = tm_bytes (st_metrics s)"

definition range_chunks :: "buffer_storage \<Rightarrow> emacs_byte_pos \<Rightarrow> emacs_byte_pos \<Rightarrow> bytes list option" where
  "range_chunks s start limit = tb_byte_range_chunks (byte_range_new start limit) (st_backend s)"

subsection \<open>Forward\<close>

fun next_newline_scan :: "emacs_byte_pos \<Rightarrow> bytes list \<Rightarrow> emacs_byte_pos option" where
  "next_newline_scan base [] = None"
| "next_newline_scan base (chunk # chunks) =
     (case memchr 10 chunk of
        Some off \<Rightarrow> Some (base + off)
      | None \<Rightarrow> next_newline_scan (base + length chunk) chunks)"

definition next_newline_emacs_byte :: "emacs_byte_pos \<Rightarrow> emacs_byte_pos \<Rightarrow> buffer_storage \<Rightarrow> emacs_byte_pos option option" where
  "next_newline_emacs_byte start limit s =
     (let total = emacs_byte_end_pos s; start = min start total; limit = min limit total
      in if limit \<le> start then Some None
         else do {
           chunks \<leftarrow> range_chunks s start limit;
           Some (next_newline_scan start chunks)
         })"

text \<open>The inner loop over one chunk: whether the \<open>n\<close>-th newline was reached, the count so far, and the
  position past the last newline crossed.\<close>

partial_function (option) nth_newline_chunk ::
    "nat \<Rightarrow> emacs_byte_pos \<Rightarrow> bytes \<Rightarrow> nat \<Rightarrow> nat \<Rightarrow> emacs_byte_pos \<Rightarrow> (bool \<times> nat \<times> emacs_byte_pos) option" where
  "nth_newline_chunk n base chunk off crossed past_last =
     (if off \<le> length chunk
      then case memchr 10 (drop off chunk) of
          None \<Rightarrow> Some (False, crossed, past_last)
        | Some hit \<Rightarrow>
            let k = off + hit; crossed = crossed + 1; past_last = base + (k + 1)
            in if crossed = n then Some (True, crossed, past_last)
               else if length chunk \<le> k + 1 then Some (False, crossed, past_last)
               else nth_newline_chunk n base chunk (k + 1) crossed past_last
      else None)"

fun nth_newline_chunks :: "nat \<Rightarrow> emacs_byte_pos \<Rightarrow> bytes list \<Rightarrow> nat \<Rightarrow> emacs_byte_pos \<Rightarrow> (emacs_byte_pos \<times> nat) option" where
  "nth_newline_chunks n base [] crossed past_last = Some (past_last, crossed)"
| "nth_newline_chunks n base (chunk # chunks) crossed past_last = do {
     (reached, crossed, past_last) \<leftarrow> nth_newline_chunk n base chunk 0 crossed past_last;
     if reached then Some (past_last, crossed)
     else nth_newline_chunks n (base + length chunk) chunks crossed past_last
   }"

definition scan_nth_newline_emacs_byte ::
    "emacs_byte_pos \<Rightarrow> emacs_byte_pos \<Rightarrow> nat \<Rightarrow> buffer_storage \<Rightarrow> (emacs_byte_pos \<times> nat) option" where
  "scan_nth_newline_emacs_byte start limit n s = do {
     chunks \<leftarrow> range_chunks s start limit;
     nth_newline_chunks n start chunks 0 start
   }"

definition scan_line_ends_emacs_byte :: "emacs_byte_pos \<Rightarrow> emacs_byte_pos \<Rightarrow> line_end \<Rightarrow> buffer_storage \<Rightarrow> nat option" where
  "scan_line_ends_emacs_byte start limit e s = do {
     chunks \<leftarrow> range_chunks s start limit;
     Some (fold (\<lambda>chunk count. count + length (filter (ends_line e) chunk)) chunks 0)
   }"

subsection \<open>Backward\<close>

fun last_newline_scan :: "emacs_byte_pos \<Rightarrow> bytes list \<Rightarrow> emacs_byte_pos option \<Rightarrow> emacs_byte_pos option" where
  "last_newline_scan base [] found = found"
| "last_newline_scan base (chunk # chunks) found =
     last_newline_scan (base + length chunk) chunks
       (case memrchr 10 chunk of Some off \<Rightarrow> Some (base + off) | None \<Rightarrow> found)"

partial_function (option) prev_newline_loop ::
    "buffer_storage \<Rightarrow> emacs_byte_pos \<Rightarrow> emacs_byte_pos \<Rightarrow> emacs_byte_len \<Rightarrow> emacs_byte_pos option option" where
  "prev_newline_loop s lower hi window =
     (if lower < hi
      then let lo = max (hi - window) lower
           in case range_chunks s lo hi of
               None \<Rightarrow> None
             | Some chunks \<Rightarrow>
                 (case last_newline_scan lo chunks None of
                    Some p \<Rightarrow> Some (Some p)
                  | None \<Rightarrow> if lo = lower then Some None else prev_newline_loop s lower lo (window + window))
      else Some None)"

definition prev_newline_emacs_byte :: "emacs_byte_pos \<Rightarrow> emacs_byte_pos \<Rightarrow> buffer_storage \<Rightarrow> emacs_byte_pos option option" where
  "prev_newline_emacs_byte start lower s =
     (let total = emacs_byte_end_pos s; start = min start total; lower = min lower total
      in if start \<le> lower then Some None else prev_newline_loop s lower start 256)"

definition line_start :: "buffer_storage \<Rightarrow> emacs_byte_pos \<Rightarrow> emacs_byte_pos \<Rightarrow> emacs_byte_pos option" where
  "line_start s lower pos = do {
     newline \<leftarrow> prev_newline_emacs_byte pos lower s;
     Some (case newline of None \<Rightarrow> lower | Some p \<Rightarrow> p + 1)
   }"

fun lines_backward_loop ::
    "buffer_storage \<Rightarrow> emacs_byte_pos \<Rightarrow> nat \<Rightarrow> emacs_byte_pos \<Rightarrow> nat \<Rightarrow> (emacs_byte_pos \<times> nat) option" where
  "lines_backward_loop s lower 0 pos moved = Some (pos, moved)"
| "lines_backward_loop s lower (Suc n) pos moved = do {
     start \<leftarrow> line_start s lower pos;
     if start \<le> lower then Some (lower, moved)
     else do {
       newline \<leftarrow> chk_sub start 1;
       pos \<leftarrow> line_start s lower newline;
       lines_backward_loop s lower n pos (moved + 1)
     }
   }"

definition scan_lines_backward_emacs_byte ::
    "emacs_byte_pos \<Rightarrow> emacs_byte_pos \<Rightarrow> nat \<Rightarrow> buffer_storage \<Rightarrow> (emacs_byte_pos \<times> nat) option" where
  "scan_lines_backward_emacs_byte start lower n s = lines_backward_loop s lower n start 0"

subsection \<open>The newlines of a text\<close>

definition newlines_at :: "bytes \<Rightarrow> nat \<Rightarrow> nat \<Rightarrow> nat list" where
  "newlines_at tx a b = filter (\<lambda>i. tx ! i = 10) [a..<b]"

definition forward_lines :: "bytes \<Rightarrow> nat \<Rightarrow> nat \<Rightarrow> nat \<Rightarrow> nat \<times> nat" where
  "forward_lines tx start limit n =
     (let crossed = take n (newlines_at tx start limit)
      in (if crossed = [] then start else List.last crossed + 1, length crossed))"

definition backward_lines :: "bytes \<Rightarrow> nat \<Rightarrow> nat \<Rightarrow> nat \<Rightarrow> nat \<times> nat" where
  "backward_lines tx start lower n =
     (let nl = newlines_at tx lower start; above = take (length nl - n) nl
      in (if above = [] then lower else List.last above + 1, length nl - length above))"

definition line_end_count :: "line_end \<Rightarrow> bytes \<Rightarrow> nat \<Rightarrow> nat \<Rightarrow> nat" where
  "line_end_count e tx a b = length (filter (ends_line e) (sub_list a b tx))"

lemma newlines_at_Nil [simp]: "b \<le> a \<Longrightarrow> newlines_at tx a b = []"
  by (simp add: newlines_at_def)

lemma newlines_at_append:
  assumes "a \<le> b" "b \<le> c"
  shows "newlines_at tx a c = newlines_at tx a b @ newlines_at tx b c"
  using upt_add_eq_append [OF assms(1), of "c - b"] assms(2) by (simp add: newlines_at_def)

lemma hits_newlines: "hits 10 tx = newlines_at tx 0 (length tx)"
  by (simp add: hits_def newlines_at_def)

lemma hits_sub_list:
  assumes "b \<le> length tx"
  shows "map ((+) a) (hits 10 (sub_list a b tx)) = newlines_at tx a b"
proof (cases "a \<le> b")
  case True
  then have "[a..<b] = map ((+) a) [0..<b - a]" by (intro nth_equalityI) simp_all
  then show ?thesis using assms True
    by (auto simp: newlines_at_def hits_def filter_map comp_def nth_sub_list intro!: filter_cong)
qed (simp add: sub_list_def hits_def)

lemma length_newlines: "b \<le> length tx \<Longrightarrow> length (newlines_at tx a b) = line_end_count Newline tx a b"
proof -
  assume "b \<le> length tx"
  then have "length (newlines_at tx a b) = length (hits 10 (sub_list a b tx))"
    by (metis hits_sub_list length_map)
  moreover have "ends_line Newline = (\<lambda>b. b = 10)" by (rule ext) (simp add: ends_line_def)
  ultimately show ?thesis by (simp add: line_end_count_def)
qed

lemma newlines_at_nth:
  assumes "r < length (newlines_at tx a b)"
  shows "newlines_at tx a (newlines_at tx a b ! r) = take r (newlines_at tx a b)"
    "a \<le> newlines_at tx a b ! r" "newlines_at tx a b ! r < b" "tx ! (newlines_at tx a b ! r) = 10"
proof -
  let ?q = "newlines_at tx a b ! r"
  have q: "?q \<in> set (newlines_at tx a b)" using assms by simp
  then show 1: "a \<le> ?q" "?q < b" "tx ! ?q = 10" by (auto simp: newlines_at_def)
  then have cut: "newlines_at tx a b = newlines_at tx a ?q @ ?q # newlines_at tx (Suc ?q) b"
    using newlines_at_append [of a ?q b tx] newlines_at_append [of ?q "Suc ?q" b tx] by (simp add: newlines_at_def)
  have "distinct (newlines_at tx a b)" by (simp add: newlines_at_def)
  moreover have "newlines_at tx a b ! length (newlines_at tx a ?q) = ?q" by (subst cut) simp
  moreover have "length (newlines_at tx a ?q) < length (newlines_at tx a b)" by (subst (2) cut) simp
  ultimately have "r = length (newlines_at tx a ?q)" using assms by (simp add: nth_eq_iff_index_eq)
  then show "newlines_at tx a ?q = take r (newlines_at tx a b)" by (metis append_eq_conv_conj cut)
qed

declare length_hits [simp del]

lemma hits_Cons: "hits c (x # xs) = (if x = c then [0] else []) @ map Suc (hits c xs)"
  using hits_append [of c "[x]" xs] by (simp add: hits_def)

lemma hits_split:
  "hits c xs = h # t \<Longrightarrow> h < length xs \<and> t = map ((+) (Suc h)) (hits c (drop (Suc h) xs))"
proof (induction xs arbitrary: h t)
  case (Cons x xs)
  show ?case
  proof (cases "x = c")
    case True
    then show ?thesis using Cons.prems by (auto simp: hits_Cons)
  next
    case False
    then obtain h' t' where h: "hits c xs = h' # t'" "h = Suc h'" "t = map Suc t'" using Cons.prems by (auto simp: hits_Cons)
    then show ?thesis using Cons.IH [OF h(1)] by simp
  qed
qed (simp add: hits_def)

lemma hits_bound: "i \<in> set (hits c xs) \<Longrightarrow> i < length xs"
  by (simp add: hits_def)

subsection \<open>The scans are exact\<close>

lemma storage_chunks_concat:
  assumes "storage_inv s" "a \<le> b" "b \<le> length (st_text s)"
  obtains cs where "range_chunks s a b = Some cs" "concat cs = sub_list a b (st_text s)"
  using tb_chunks [OF storage_invD(2) [OF assms(1)], of "byte_range_new a b"] assms(2,3)
  by (auto simp: range_chunks_def byte_range_new_def)

lemma end_pos_length: "storage_inv s \<Longrightarrow> emacs_byte_end_pos s = length (st_text s)"
  by (simp add: emacs_byte_end_pos_def storage_invD(4))

lemma next_newline_scan_hits:
  "next_newline_scan base cs = (case hits 10 (concat cs) of [] \<Rightarrow> None | h # _ \<Rightarrow> Some (base + h))"
  by (induction cs arbitrary: base) (auto simp: hits_append memchr_def hits_def [of _ "[]"] split: list.splits)

lemma next_newline_exact:
  assumes "storage_inv s" "a \<le> b" "b \<le> length (st_text s)"
  shows "next_newline_emacs_byte a b s = Some (case newlines_at (st_text s) a b of [] \<Rightarrow> None | p # _ \<Rightarrow> Some p)"
proof (cases "a < b")
  case True
  obtain cs where "range_chunks s a b = Some cs" "concat cs = sub_list a b (st_text s)" by (rule storage_chunks_concat [OF assms])
  then show ?thesis using True assms(3) end_pos_length [OF assms(1)]
    by (auto simp: next_newline_emacs_byte_def next_newline_scan_hits split: list.splits simp flip: hits_sub_list [OF assms(3), of a])
next
  case False
  then have "min b (emacs_byte_end_pos s) \<le> a" "min b (emacs_byte_end_pos s) \<le> min a (emacs_byte_end_pos s)" by auto
  then show ?thesis using False by (simp add: next_newline_emacs_byte_def Let_def)
qed

lemma nth_newline_chunk_hits:
  assumes "off \<le> length chunk" "crossed < n"
  shows "nth_newline_chunk n base chunk off crossed past
    = (let hs = take (n - crossed) (hits 10 (drop off chunk))
       in Some (length hs = n - crossed, crossed + length hs, if hs = [] then past else base + off + List.last hs + 1))"
  using assms
proof (induction "length chunk - off" arbitrary: off crossed past rule: less_induct)
  case less
  show ?case
  proof (cases "hits 10 (drop off chunk)")
    case Nil
    then show ?thesis using less.prems by (simp add: nth_newline_chunk.simps memchr_def)
  next
    case (Cons h t)
    note h = hits_split [OF Cons]
    let ?k = "off + h"
    let ?hs = "take (n - (crossed + 1)) (hits 10 (drop (?k + 1) chunk))"
    have k: "?k < length chunk" "t = map ((+) (Suc h)) (hits 10 (drop (?k + 1) chunk))" using h by (auto simp: add.commute add.left_commute)
    have first: "take (n - crossed) (h # t) = h # map ((+) (Suc h)) ?hs"
      using less.prems(2) k(2) by (simp add: take_Cons' take_map)
    show ?thesis
    proof (cases "crossed + 1 < n \<and> ?k + 1 < length chunk")
      case False
      then have "?hs = []" by (auto simp: hits_def)
      then show ?thesis using False less.prems Cons first by (auto simp: nth_newline_chunk.simps memchr_def Let_def)
    next
      case True
      have "nth_newline_chunk n base chunk off crossed past = nth_newline_chunk n base chunk (?k + 1) (crossed + 1) (base + (?k + 1))"
        using less.prems Cons True by (subst nth_newline_chunk.simps) (simp add: memchr_def Let_def)
      also have "\<dots> = (let hs = ?hs in Some (length hs = n - (crossed + 1), crossed + 1 + length hs,
            if hs = [] then base + (?k + 1) else base + (?k + 1) + List.last hs + 1))"
        by (rule less.hyps) (use less.prems True in auto)
      finally show ?thesis using Cons first less.prems(2) by (auto simp: Let_def last_map)
    qed
  qed
qed

lemma nth_newline_chunks_hits:
  assumes "crossed < n"
  shows "nth_newline_chunks n base cs crossed past
    = (let hs = take (n - crossed) (hits 10 (concat cs))
       in Some (if hs = [] then past else base + List.last hs + 1, crossed + length hs))"
  using assms
proof (induction cs arbitrary: base crossed past)
  case Nil
  then show ?case by (simp add: hits_def)
next
  case (Cons c cs)
  let ?h = "hits 10 c"
  note chunk = nth_newline_chunk_hits [of 0 c crossed n base past]
  show ?case
  proof (cases "n - crossed \<le> length ?h")
    case True
    then show ?thesis using Cons.prems chunk by (simp add: Let_def hits_append)
  next
    case False
    then have "crossed + length ?h < n" by simp
    note IH = Cons.IH [OF this]
    have "nth_newline_chunk n base c 0 crossed past = Some (False, crossed + length ?h, if ?h = [] then past else base + List.last ?h + 1)"
      using False Cons.prems chunk by (simp add: Let_def)
    then show ?thesis using False IH by (auto simp: Let_def hits_append take_map last_map)
  qed
qed

lemma scan_nth_newline_exact:
  assumes "storage_inv s" "a \<le> b" "b \<le> length (st_text s)" "0 < n"
  shows "scan_nth_newline_emacs_byte a b n s = Some (forward_lines (st_text s) a b n)"
proof -
  obtain cs where cs: "range_chunks s a b = Some cs" "concat cs = sub_list a b (st_text s)" by (rule storage_chunks_concat [OF assms(1-3)])
  then show ?thesis using nth_newline_chunks_hits [OF assms(4), of a cs a]
    by (auto simp: scan_nth_newline_emacs_byte_def forward_lines_def Let_def take_map last_map simp flip: hits_sub_list [OF assms(3), of a])
qed

lemma scan_line_ends_exact:
  assumes "storage_inv s" "a \<le> b" "b \<le> length (st_text s)"
  shows "scan_line_ends_emacs_byte a b e s = Some (line_end_count e (st_text s) a b)"
proof -
  obtain cs where cs: "range_chunks s a b = Some cs" "concat cs = sub_list a b (st_text s)" by (rule storage_chunks_concat [OF assms])
  have "length (filter (ends_line e) (concat cs)) = (\<Sum>p\<leftarrow>cs. length (filter (ends_line e) p))" by (induction cs) simp_all
  then show ?thesis using cs by (simp add: scan_line_ends_emacs_byte_def fold_add_sum_list line_end_count_def)
qed

lemma last_newline_scan_hits:
  "last_newline_scan base cs found = (let hs = hits 10 (concat cs) in if hs = [] then found else Some (base + List.last hs))"
  by (induction cs arbitrary: base found)
    (auto simp: hits_append memrchr_def hits_def [of _ "[]"] last_map Let_def)

lemma prev_newline_loop_exact:
  assumes s: "storage_inv s" and b: "lower \<le> hi" "hi \<le> length (st_text s)" "0 < window"
  shows "prev_newline_loop s lower hi window
    = Some (let nl = newlines_at (st_text s) lower hi in if nl = [] then None else Some (List.last nl))"
  using b
proof (induction "hi - lower" arbitrary: hi window rule: less_induct)
  case less
  show ?case
  proof (cases "lower < hi")
    case True
    let ?lo = "max (hi - window) lower"
    have lo: "lower \<le> ?lo" "?lo < hi" using True less.prems by auto
    obtain cs where cs: "range_chunks s ?lo hi = Some cs" "concat cs = sub_list ?lo hi (st_text s)"
      using storage_chunks_concat [OF s, of ?lo hi] lo less.prems by auto
    note nl = hits_sub_list [OF less.prems(2), of ?lo]
    have split: "newlines_at (st_text s) lower hi = newlines_at (st_text s) lower ?lo @ newlines_at (st_text s) ?lo hi"
      using lo by (intro newlines_at_append) auto
    show ?thesis
    proof (cases "newlines_at (st_text s) ?lo hi = []")
      case False
      then have "hits 10 (concat cs) \<noteq> []" using cs(2) nl by auto
      then show ?thesis using True cs split
        by (subst prev_newline_loop.simps) (simp add: last_newline_scan_hits Let_def last_map flip: nl)
    next
      case none: True
      then have "last_newline_scan ?lo cs None = None" unfolding last_newline_scan_hits cs(2) by (metis Nil_is_map_conv nl)
      then have step: "prev_newline_loop s lower hi window = (if ?lo = lower then Some None else prev_newline_loop s lower ?lo (window + window))"
        using True cs(1) by (subst prev_newline_loop.simps) (simp add: Let_def)
      show ?thesis
      proof (cases "?lo = lower")
        case True
        then show ?thesis using step split none by (simp add: Let_def)
      next
        case False
        have "prev_newline_loop s lower ?lo (window + window)
            = Some (let nl = newlines_at (st_text s) lower ?lo in if nl = [] then None else Some (List.last nl))"
          by (rule less.hyps) (use less.prems lo True in auto)
        then show ?thesis using step split none False by (simp only: append_Nil2 if_False)
      qed
    qed
  next
    case False
    then show ?thesis by (subst prev_newline_loop.simps) simp
  qed
qed

lemma prev_newline_exact:
  assumes "storage_inv s" "lower \<le> a" "a \<le> length (st_text s)"
  shows "prev_newline_emacs_byte a lower s
    = Some (let nl = newlines_at (st_text s) lower a in if nl = [] then None else Some (List.last nl))"
  using prev_newline_loop_exact [OF assms, of 256] assms end_pos_length [OF assms(1)]
  by (simp add: prev_newline_emacs_byte_def Let_def)

lemma line_start_exact:
  assumes "storage_inv s" "lower \<le> a" "a \<le> length (st_text s)"
  shows "line_start s lower a
    = Some (let nl = newlines_at (st_text s) lower a in if nl = [] then lower else List.last nl + 1)"
  using prev_newline_exact [OF assms] by (simp add: line_start_def Let_def)

lemma newlines_at_line_start:
  assumes "r \<le> length (newlines_at tx a b)"
  defines "hs \<equiv> take r (newlines_at tx a b)"
  shows "newlines_at tx a (if hs = [] then a else List.last hs + 1) = hs"
proof (cases r)
  case (Suc k)
  let ?nl = "newlines_at tx a b"
  have k: "k < length ?nl" using assms(1) Suc by simp
  note q = newlines_at_nth [OF k]
  have hs: "hs = take k ?nl @ [?nl ! k]" using Suc k by (simp add: hs_def take_Suc_conv_app_nth)
  have "newlines_at tx (?nl ! k) (?nl ! k + 1) = [?nl ! k]" using q(4) by (simp add: newlines_at_def)
  then have "newlines_at tx a (?nl ! k + 1) = hs"
    using newlines_at_append [of a "?nl ! k" "?nl ! k + 1" tx] q(1,2) hs by simp
  then show ?thesis using hs by simp
qed (simp add: hs_def)

lemma lines_backward_loop_exact:
  assumes s: "storage_inv s" and b: "lower \<le> pos" "pos \<le> length (st_text s)"
  shows "lines_backward_loop s lower n pos moved
    = Some (let nl = newlines_at (st_text s) lower pos; above = take (length nl - n) nl
            in (if n = 0 then pos else if above = [] then lower else List.last above + 1, moved + (length nl - length above)))"
  using b
proof (induction n arbitrary: pos moved)
  case (Suc n)
  let ?nl = "newlines_at (st_text s) lower pos"
  note start = line_start_exact [OF s Suc.prems]
  show ?case
  proof (cases "?nl = []")
    case True
    then show ?thesis using start by simp
  next
    case False
    then obtain r where r: "length ?nl = Suc r" by (cases "length ?nl") simp_all
    then have k: "r < length ?nl" by simp
    note q = newlines_at_nth [OF k]
    have last: "List.last ?nl = ?nl ! r" using False r by (simp add: last_conv_nth)
    let ?above = "take r ?nl"
    let ?pos = "if ?above = [] then lower else List.last ?above + 1"
    have nl': "newlines_at (st_text s) lower ?pos = ?above" using newlines_at_line_start [of r "st_text s" lower pos] k by simp
    have line: "line_start s lower (?nl ! r) = Some ?pos"
      using line_start_exact [OF s q(2)] q(1,3) Suc.prems(2) by (simp add: Let_def)
    have "?above \<noteq> [] \<Longrightarrow> List.last ?above \<in> set ?nl" by (metis in_set_takeD last_in_set)
    then have pos: "lower \<le> ?pos" "?pos \<le> length (st_text s)" using Suc.prems by (auto simp: newlines_at_def)
    have "lines_backward_loop s lower (Suc n) pos moved = lines_backward_loop s lower n ?pos (moved + 1)"
      using start False last line q(2) by (simp add: Let_def)
    also have "\<dots> = Some (let above = take (r - n) ?above
        in (if n = 0 then ?pos else if above = [] then lower else List.last above + 1, moved + 1 + (r - length above)))"
      using Suc.IH [OF pos, of "moved + 1"] nl' r by (simp only: Let_def length_take min_absorb2 lessI less_imp_le)
    also have "\<dots> = Some (let above = take (length ?nl - Suc n) ?nl
        in (if above = [] then lower else List.last above + 1, moved + (length ?nl - length above)))"
      using r by (cases n) (auto simp: Let_def min_def)
    finally show ?thesis by (simp add: Let_def)
  qed
qed simp

lemma scan_lines_backward_exact:
  assumes "storage_inv s" "lower \<le> a" "a \<le> length (st_text s)" "0 < n"
  shows "scan_lines_backward_emacs_byte a lower n s = Some (backward_lines (st_text s) a lower n)"
  using lines_backward_loop_exact [OF assms(1-3), of n 0] assms(4)
  by (simp add: scan_lines_backward_emacs_byte_def backward_lines_def Let_def)

end
