(* ===== verification/Line_Queries.thy ===== *)
theory Line_Queries
  imports Line_Scan
begin

text \<open>
  The line index of a buffer text: \<open>src/crates/neovm-core/src/buffer/buffer_text/line_index.rs\<close> and
  the line queries and measured edits of \<open>buffer_text.rs\<close> that use it.

  A text keeps its index in a slot beside the storage. A line query builds the index when the settings
  allow it and the query pays for it; an edit counts what it deletes before the storage loses it, and
  what it inserts after, or drops the index when it is too large; every wholesale mutation drops it.
  The slot holds the index by value: the code shares it by reference count and copies it before an
  edit. The flag by which a snapshot demands an index is one cell shared with the live text; the
  operations return it with the text they ran on. A disagreement found in verify mode panics, as
  in a development build. Nothing else borrows the slot while an operation runs.

  What is shown: no setting and no state of the index changes the answer of a line query, the checks of
  verify mode never fail, and edits and wholesale mutations keep the index a summary of the text.
\<close>

subsection \<open>Settings\<close>

datatype text_line_index_mode = Index_Off | Index_On | Index_Verify

record text_line_index_config =
  lc_mode :: text_line_index_mode
  lc_min_buffer_bytes :: nat
  lc_chunk_bytes :: nat
  lc_min_query_bytes :: nat
  lc_min_query_lines :: nat

definition index_enabled :: "text_line_index_config \<Rightarrow> bool" where
  "index_enabled c \<longleftrightarrow> lc_mode c \<noteq> Index_Off"

definition index_verifies :: "text_line_index_config \<Rightarrow> bool" where
  "index_verifies c \<longleftrightarrow> lc_mode c = Index_Verify"

datatype line_index_role = Live_Text | Text_Snapshot

datatype index_build = Build_Never | Build_IfLarge

definition build_for_count :: "nat \<Rightarrow> text_line_index_config \<Rightarrow> index_build" where
  "build_for_count range_bytes c = (if lc_min_buffer_bytes c \<le> range_bytes then Build_IfLarge else Build_Never)"

definition DROP_EDIT_BYTES :: nat where "DROP_EDIT_BYTES = 256 * 1024"

definition edit_drops_index :: "nat \<Rightarrow> nat \<Rightarrow> bool" where
  "edit_drops_index edit_bytes text_bytes \<longleftrightarrow> max DROP_EDIT_BYTES (text_bytes div 4) < edit_bytes"

subsection \<open>The slot\<close>

record line_text =
  lt_storage :: buffer_storage
  lt_index :: "line_index option"
  lt_demand :: "bool option"
  lt_role :: line_index_role

abbreviation lt_view :: "line_text \<Rightarrow> text_view" where
  "lt_view t \<equiv> backend_view (st_backend (lt_storage t))"

definition build_line_index :: "text_line_index_config \<Rightarrow> line_text \<Rightarrow> (line_index option \<times> line_text) option" where
  "build_line_index c t = do {
     ix \<leftarrow> build (lt_view t) (lc_chunk_bytes c);
     Some (Some ix, t\<lparr>lt_index := Some ix\<rparr>)
   }"

definition line_index_of :: "text_line_index_config \<Rightarrow> index_build \<Rightarrow> line_text \<Rightarrow> (line_index option \<times> line_text) option" where
  "line_index_of c b t =
     (case lt_index t of
        Some ix \<Rightarrow> Some (Some ix, t)
      | None \<Rightarrow>
          if b = Build_Never \<or> tm_bytes (st_metrics (lt_storage t)) < lc_min_buffer_bytes c then Some (None, t)
          else case lt_role t of
              Live_Text \<Rightarrow> build_line_index c t
            | Text_Snapshot \<Rightarrow> Some (None, t\<lparr>lt_demand := map_option (\<lambda>_. True) (lt_demand t)\<rparr>))"

definition line_index_for_clone :: "text_line_index_config \<Rightarrow> line_text \<Rightarrow> ((line_index option \<times> bool option) \<times> line_text) option" where
  "line_index_for_clone c t =
     (if \<not> index_enabled c then Some ((None, None), t)
      else do {
        let demand = (case lt_demand t of Some d \<Rightarrow> d | None \<Rightarrow> False);
        let t = t\<lparr>lt_demand := Some demand\<rparr>;
        t \<leftarrow> (if demand \<and> lt_role t = Live_Text
             then do {
               (_, t) \<leftarrow> line_index_of c Build_IfLarge (t\<lparr>lt_demand := Some False\<rparr>);
               Some t
             }
             else Some t);
        Some ((lt_index t, lt_demand t), t)
      })"

text \<open>A snapshot of a text: its own chain of markers, an empty table of scan anchors unless \<open>copied\<close>, and
  the index and flag of the text.\<close>

definition clone_text :: "text_line_index_config \<Rightarrow> bool \<Rightarrow> nat \<Rightarrow> line_text \<Rightarrow> (line_text \<times> line_text) option" where
  "clone_text c copied markers t = do {
     ((ix, demand), t) \<leftarrow> line_index_for_clone c t;
     let s = (lt_storage t)\<lparr>st_markers := markers\<rparr>;
     let s = (if copied then s else s\<lparr>st_anchor_cache := [], st_anchor_cache_key := 0, st_anchor_cache_cursor := 0\<rparr>);
     Some (\<lparr>lt_storage = s, lt_index = ix, lt_demand = demand, lt_role = Text_Snapshot\<rparr>, t)
   }"

definition drop_line_index :: "line_text \<Rightarrow> line_text" where
  "drop_line_index t = t\<lparr>lt_index := None\<rparr>"

subsection \<open>Edits\<close>

definition check_line_index_edit :: "emacs_byte_pos \<Rightarrow> line_text \<Rightarrow> line_text option" where
  "check_line_index_edit at t =
     (case lt_index t of
        None \<Rightarrow> Some t
      | Some ix \<Rightarrow>
          if li_multibyte ix \<noteq> st_mb (lt_storage t) then None
          else do {
            checked \<leftarrow> check_around (lt_view t) at ix;
            case checked of Inr _ \<Rightarrow> Some t | Inl _ \<Rightarrow> None
          })"

definition line_index_before_delete :: "emacs_byte_range \<Rightarrow> line_text \<Rightarrow> line_text option" where
  "line_index_before_delete r t =
     (case lt_index t of
        None \<Rightarrow> Some t
      | Some ix \<Rightarrow>
          let len = byte_range_len r
          in if len = 0 then Some t
             else if edit_drops_index len (tv_byte_len (lt_view t)) then Some (t\<lparr>lt_index := None\<rparr>)
             else do {
               ix \<leftarrow> note_delete (lt_view t) (br_start r) (br_end r) ix;
               Some (t\<lparr>lt_index := Some ix\<rparr>)
             })"

definition line_index_after_insert :: "text_line_index_config \<Rightarrow> emacs_byte_pos \<Rightarrow> bytes \<Rightarrow> line_text \<Rightarrow> line_text option" where
  "line_index_after_insert c at bs t =
     (case lt_index t of
        None \<Rightarrow> Some t
      | Some ix \<Rightarrow> do {
          (dropped, t) \<leftarrow>
            (if bs = [] then Some (False, t)
             else do {
               text_bytes \<leftarrow> chk_sub (tv_byte_len (lt_view t)) (length bs);
               if edit_drops_index (length bs) text_bytes then Some (True, t\<lparr>lt_index := None\<rparr>)
               else do {
                 ix \<leftarrow> note_insert (lt_view t) at bs ix;
                 Some (False, t\<lparr>lt_index := Some ix\<rparr>)
               }
             });
          if \<not> dropped \<and> index_verifies c then check_line_index_edit at t else Some t
        })"

definition line_index_after_delete :: "text_line_index_config \<Rightarrow> emacs_byte_pos \<Rightarrow> line_text \<Rightarrow> line_text option" where
  "line_index_after_delete c at t = (if index_verifies c then check_line_index_edit at t else Some t)"

definition lt_insert_measured_emacs_bytes ::
    "text_line_index_config \<Rightarrow> emacs_byte_pos \<Rightarrow> bytes \<Rightarrow> text_extent \<Rightarrow> line_text \<Rightarrow> line_text option" where
  "lt_insert_measured_emacs_bytes c pos bs e t =
     (if bs = [] then Some t
      else do {
        s \<leftarrow> st_insert_measured_emacs_bytes pos bs e (lt_storage t);
        line_index_after_insert c pos bs (t\<lparr>lt_storage := s\<rparr>)
      })"

definition lt_delete_measured_range :: "text_line_index_config \<Rightarrow> text_edit_range \<Rightarrow> line_text \<Rightarrow> line_text option" where
  "lt_delete_measured_range c r t =
     (if edit_range_is_empty r then Some t
      else do {
        t \<leftarrow> line_index_before_delete (er_bytes r) t;
        s \<leftarrow> st_delete_measured_range r (lt_storage t);
        line_index_after_delete c (er_byte_start r) (t\<lparr>lt_storage := s\<rparr>)
      })"

definition lt_replace_measured_range :: "text_line_index_config \<Rightarrow> text_replacement \<Rightarrow> bytes \<Rightarrow> line_text \<Rightarrow> line_text option" where
  "lt_replace_measured_range c rep bs t =
     (if edit_range_is_empty (tr_old rep) \<and> bs = [] then Some t
      else do {
        t \<leftarrow> line_index_before_delete (er_bytes (tr_old rep)) t;
        s \<leftarrow> st_replace_measured_range rep bs (lt_storage t);
        line_index_after_insert c (er_byte_start (tr_old rep)) bs (t\<lparr>lt_storage := s\<rparr>)
      })"

definition lt_replace_same_len_measured_range ::
    "text_line_index_config \<Rightarrow> text_replacement \<Rightarrow> bytes \<Rightarrow> line_text \<Rightarrow> line_text option" where
  "lt_replace_same_len_measured_range c rep bs t =
     (if edit_range_is_empty (tr_old rep) then Some t
      else do {
        panic_unless (edit_range_byte_len (tr_old rep) = te_bytes (tr_new rep));
        t \<leftarrow> line_index_before_delete (er_bytes (tr_old rep)) t;
        s \<leftarrow> st_replace_same_len_measured_range rep bs (lt_storage t);
        line_index_after_insert c (er_byte_start (tr_old rep)) bs (t\<lparr>lt_storage := s\<rparr>)
      })"

definition lt_set_multibyte :: "bool \<Rightarrow> line_text \<Rightarrow> line_text option" where
  "lt_set_multibyte mb t =
     (if st_mb (lt_storage t) = mb then Some t
      else do {
        s \<leftarrow> st_set_multibyte mb (lt_storage t);
        Some (drop_line_index (t\<lparr>lt_storage := s\<rparr>))
      })"

definition lt_convert_backend_kind :: "backend_kind \<Rightarrow> line_text \<Rightarrow> line_text option" where
  "lt_convert_backend_kind k t =
     (if tb_kind (st_backend (lt_storage t)) = k then Some t
      else do {
        s \<leftarrow> st_convert_backend_kind k (lt_storage t);
        Some (drop_line_index (t\<lparr>lt_storage := s\<rparr>))
      })"

subsection \<open>Queries\<close>

definition indexed_line_end_count ::
    "text_line_index_config \<Rightarrow> emacs_byte_pos \<Rightarrow> emacs_byte_pos \<Rightarrow> line_end \<Rightarrow> line_text \<Rightarrow> (nat option \<times> line_text) option" where
  "indexed_line_end_count c start limit e t = do {
     range_bytes \<leftarrow> chk_sub limit start;
     (index, t) \<leftarrow> line_index_of c (build_for_count range_bytes c) t;
     case index of
       None \<Rightarrow> Some (None, t)
     | Some ix \<Rightarrow> do {
         upto_limit \<leftarrow> line_ends_before (lt_view t) limit e ix;
         upto_start \<leftarrow> line_ends_before (lt_view t) start e ix;
         count \<leftarrow> chk_sub upto_limit upto_start;
         if index_verifies c
         then do {
           scanned \<leftarrow> scan_line_ends_emacs_byte start limit e (lt_storage t);
           panic_unless (scanned = count);
           Some (Some count, t)
         }
         else Some (Some count, t)
       }
   }"

definition line_index_count ::
    "text_line_index_config \<Rightarrow> emacs_byte_pos \<Rightarrow> emacs_byte_pos \<Rightarrow> line_end \<Rightarrow> line_text \<Rightarrow> (nat option \<times> line_text) option" where
  "line_index_count c start limit e t =
     (if \<not> index_enabled c then Some (None, t)
      else do {
        range_bytes \<leftarrow> chk_sub limit start;
        if range_bytes < lc_min_query_bytes c then Some (None, t)
        else indexed_line_end_count c start limit e t
      })"

definition count_line_ends_emacs_byte ::
    "text_line_index_config \<Rightarrow> emacs_byte_pos \<Rightarrow> emacs_byte_pos \<Rightarrow> line_end \<Rightarrow> line_text \<Rightarrow> (nat \<times> line_text) option" where
  "count_line_ends_emacs_byte c start limit e t =
     (let total = emacs_byte_end_pos (lt_storage t); start = min start total; limit = min limit total
      in if limit \<le> start then Some (0, t)
         else do {
           (count, t) \<leftarrow> line_index_count c start limit e t;
           case count of
             Some n \<Rightarrow> Some (n, t)
           | None \<Rightarrow> do {
               n \<leftarrow> scan_line_ends_emacs_byte start limit e (lt_storage t);
               Some (n, t)
             }
         })"

definition count_newlines_emacs_byte ::
    "text_line_index_config \<Rightarrow> emacs_byte_pos \<Rightarrow> emacs_byte_pos \<Rightarrow> line_text \<Rightarrow> (nat \<times> line_text) option" where
  "count_newlines_emacs_byte c start limit t = count_line_ends_emacs_byte c start limit Newline t"

definition indexed_newline_count ::
    "text_line_index_config \<Rightarrow> emacs_byte_pos \<Rightarrow> emacs_byte_pos \<Rightarrow> line_text \<Rightarrow> (nat option \<times> line_text) option" where
  "indexed_newline_count c start limit t =
     (let total = emacs_byte_end_pos (lt_storage t); start = min start total; limit = min limit total
      in if limit \<le> start then Some (None, t) else line_index_count c start limit Newline t)"

definition indexed_nth_newline ::
    "text_line_index_config \<Rightarrow> emacs_byte_pos \<Rightarrow> emacs_byte_pos \<Rightarrow> nat \<Rightarrow> line_text
      \<Rightarrow> ((emacs_byte_pos \<times> nat) option \<times> line_text) option" where
  "indexed_nth_newline c start limit n t = do {
     (index, t) \<leftarrow> line_index_of c Build_IfLarge t;
     case index of
       None \<Rightarrow> Some (None, t)
     | Some ix \<Rightarrow> do {
         base \<leftarrow> line_ends_before (lt_view t) start Newline ix;
         nth_at \<leftarrow> newline_position (lt_view t) (base + n) ix;
         found \<leftarrow>
           (case nth_at of
              Some at \<Rightarrow> Some (if at < limit then Some (at + 1, n) else None)
            | None \<Rightarrow> Some None);
         found \<leftarrow>
           (case found of
              Some r \<Rightarrow> Some (Some r)
            | None \<Rightarrow> do {
                before_limit \<leftarrow> line_ends_before (lt_view t) limit Newline ix;
                crossed \<leftarrow> chk_sub before_limit base;
                if crossed = 0 then Some (Some (start, 0))
                else do {
                  last_at \<leftarrow> newline_position (lt_view t) before_limit ix;
                  Some (map_option (\<lambda>at. (at + 1, crossed)) last_at)
                }
              });
         case found of
           None \<Rightarrow> Some (None, t)
         | Some r \<Rightarrow>
             if index_verifies c
             then do {
               scanned \<leftarrow> scan_nth_newline_emacs_byte start limit n (lt_storage t);
               panic_unless (scanned = r);
               Some (Some r, t)
             }
             else Some (Some r, t)
       }
   }"

definition line_index_nth_newline ::
    "text_line_index_config \<Rightarrow> emacs_byte_pos \<Rightarrow> emacs_byte_pos \<Rightarrow> nat \<Rightarrow> line_text
      \<Rightarrow> ((emacs_byte_pos \<times> nat) option \<times> line_text) option" where
  "line_index_nth_newline c start limit n t =
     (if \<not> index_enabled c \<or> n \<le> lc_min_query_lines c then Some (None, t) else indexed_nth_newline c start limit n t)"

definition nth_newline_emacs_byte ::
    "text_line_index_config \<Rightarrow> emacs_byte_pos \<Rightarrow> emacs_byte_pos \<Rightarrow> nat \<Rightarrow> line_text \<Rightarrow> ((emacs_byte_pos \<times> nat) \<times> line_text) option" where
  "nth_newline_emacs_byte c start limit n t =
     (let total = emacs_byte_end_pos (lt_storage t); start = min start total; limit = min limit total
      in if n = 0 \<or> limit \<le> start then Some ((start, 0), t)
         else do {
           (found, t) \<leftarrow> line_index_nth_newline c start limit n t;
           case found of
             Some r \<Rightarrow> Some (r, t)
           | None \<Rightarrow> do {
               r \<leftarrow> scan_nth_newline_emacs_byte start limit n (lt_storage t);
               Some (r, t)
             }
         })"

definition indexed_lines_backward ::
    "text_line_index_config \<Rightarrow> emacs_byte_pos \<Rightarrow> emacs_byte_pos \<Rightarrow> nat \<Rightarrow> line_text
      \<Rightarrow> ((emacs_byte_pos \<times> nat) option \<times> line_text) option" where
  "indexed_lines_backward c start lower n t = do {
     let start = min start (emacs_byte_end_pos (lt_storage t));
     let lower = min lower start;
     (index, t) \<leftarrow> line_index_of c Build_IfLarge t;
     case index of
       None \<Rightarrow> Some (None, t)
     | Some ix \<Rightarrow> do {
         base \<leftarrow> line_ends_before (lt_view t) lower Newline ix;
         upto_start \<leftarrow> line_ends_before (lt_view t) start Newline ix;
         lines_above \<leftarrow> chk_sub upto_start base;
         let moved = min lines_above n;
         found \<leftarrow>
           (if moved < lines_above
            then do {
              newline \<leftarrow> newline_position (lt_view t) (base + lines_above - moved) ix;
              Some (map_option (\<lambda>at. (at + 1, moved)) newline)
            }
            else Some (Some (lower, moved)));
         case found of
           None \<Rightarrow> Some (None, t)
         | Some r \<Rightarrow>
             if index_verifies c
             then do {
               scanned \<leftarrow> scan_lines_backward_emacs_byte start lower n (lt_storage t);
               panic_unless (scanned = r);
               Some (Some r, t)
             }
             else Some (Some r, t)
       }
   }"

definition lines_backward_emacs_byte ::
    "text_line_index_config \<Rightarrow> emacs_byte_pos \<Rightarrow> emacs_byte_pos \<Rightarrow> nat \<Rightarrow> line_text
      \<Rightarrow> ((emacs_byte_pos \<times> nat) option \<times> line_text) option" where
  "lines_backward_emacs_byte c start lower n t =
     (if \<not> index_enabled c \<or> n \<le> lc_min_query_lines c then Some (None, t) else indexed_lines_backward c start lower n t)"

subsection \<open>A text and its index\<close>

definition index_describes :: "bytes \<Rightarrow> line_text \<Rightarrow> bool" where
  "index_describes tx t \<longleftrightarrow> pred_option (line_index_ok (st_mb (lt_storage t)) tx) (lt_index t)"

definition line_text_ok :: "line_text \<Rightarrow> bool" where
  "line_text_ok t \<longleftrightarrow> storage_inv (lt_storage t) \<and> index_describes (st_text (lt_storage t)) t"

definition config_ok :: "text_line_index_config \<Rightarrow> bool" where
  "config_ok c \<longleftrightarrow> 2 * max (lc_chunk_bytes c) 8 < 2 ^ 64"

lemma line_text_okD:
  assumes "line_text_ok t"
  shows "storage_inv (lt_storage t)" "tb_inv (st_backend (lt_storage t))"
    "lt_index t = Some ix \<Longrightarrow> line_index_ok (st_mb (lt_storage t)) (st_text (lt_storage t)) ix"
  using assms by (auto simp: line_text_ok_def index_describes_def storage_invD)

lemma lt_view_multibyte [simp]: "tv_multibyte (backend_view b) = tb_is_multibyte b"
  by (simp add: backend_view_def)

text \<open>An answer to a query: the storage stays, and the index still describes the text.\<close>

definition answers :: "('r \<Rightarrow> bool) \<Rightarrow> line_text \<Rightarrow> ('r \<times> line_text) option \<Rightarrow> bool" where
  "answers P t res \<longleftrightarrow> (\<exists>r t'. res = Some (r, t') \<and> P r \<and> line_text_ok t' \<and> lt_storage t' = lt_storage t)"

lemma answersI: "res = Some (r, t') \<Longrightarrow> P r \<Longrightarrow> line_text_ok t' \<Longrightarrow> lt_storage t' = lt_storage t \<Longrightarrow> answers P t res"
  by (auto simp: answers_def)

lemma line_index_of_answers:
  assumes t: "line_text_ok t" and c: "config_ok c"
  shows "answers (\<lambda>r. \<forall>ix. r = Some ix \<longrightarrow> line_index_ok (st_mb (lt_storage t)) (st_text (lt_storage t)) ix) t (line_index_of c b t)"
proof (cases "lt_index t")
  case (Some ix)
  then show ?thesis using t line_text_okD(3) [OF t, of ix] by (simp add: answers_def line_index_of_def)
next
  case None
  obtain ix where ix: "build (lt_view t) (lc_chunk_bytes c) = Some ix" "line_index_ok (st_mb (lt_storage t)) (st_text (lt_storage t)) ix"
    using backend_text.build_ok [OF line_text_okD(2) [OF t], of "lc_chunk_bytes c"] c by (auto simp: config_ok_def)
  then show ?thesis using None t
    by (auto simp: answers_def line_index_of_def build_line_index_def line_text_ok_def index_describes_def split: line_index_role.splits)
qed

lemma line_ends_before_lt:
  assumes "line_text_ok t" "line_index_ok (st_mb (lt_storage t)) (st_text (lt_storage t)) ix"
  shows "line_ends_before (lt_view t) p e ix = Some (line_end_count e (st_text (lt_storage t)) 0 p)"
  using backend_text.line_ends_before_exact [OF line_text_okD(2) [OF assms(1)], of ix p e] assms(2)
  by (simp add: line_end_count_def sub_list_def)

lemma newline_position_lt:
  assumes "line_text_ok t" "line_index_ok (st_mb (lt_storage t)) (st_text (lt_storage t)) ix"
  shows "newline_position (lt_view t) k ix = Some
     (let nl = newlines_at (st_text (lt_storage t)) 0 (length (st_text (lt_storage t)))
      in if 1 \<le> k \<and> k \<le> length nl then Some (nl ! (k - 1)) else None)"
  using backend_text.newline_position_exact [OF line_text_okD(2) [OF assms(1)], of ix k] assms(2)
  by (simp add: Let_def hits_newlines)

lemma line_end_count_split:
  assumes "a \<le> b"
  shows "line_end_count e tx 0 b = line_end_count e tx 0 a + line_end_count e tx a b"
proof -
  have "sub_list 0 b tx = sub_list 0 a tx @ sub_list a b tx" using assms by (simp add: sub_list_glue)
  then show ?thesis by (simp add: line_end_count_def)
qed

subsection \<open>Counting\<close>

lemma indexed_line_end_count_answers:
  assumes t: "line_text_ok t" and c: "config_ok c" and b: "a \<le> b" "b \<le> length (st_text (lt_storage t))"
  shows "answers (\<lambda>r. r = None \<or> r = Some (line_end_count e (st_text (lt_storage t)) a b)) t (indexed_line_end_count c a b e t)"
proof -
  obtain r t' where r: "line_index_of c (build_for_count (b - a) c) t = Some (r, t')"
      "\<forall>ix. r = Some ix \<longrightarrow> line_index_ok (st_mb (lt_storage t)) (st_text (lt_storage t)) ix"
      "line_text_ok t'" "lt_storage t' = lt_storage t"
    using line_index_of_answers [OF t c, of "build_for_count (b - a) c"] by (auto simp: answers_def)
  show ?thesis
  proof (cases r)
    case None
    then show ?thesis using r b by (simp add: answers_def indexed_line_end_count_def)
  next
    case (Some ix)
    then have ix: "line_index_ok (st_mb (lt_storage t')) (st_text (lt_storage t')) ix" using r(2,4) by simp
    have scan: "scan_line_ends_emacs_byte a b e (lt_storage t') = Some (line_end_count e (st_text (lt_storage t)) a b)"
      using scan_line_ends_exact [OF line_text_okD(1) [OF r(3)], of a b e] b r(4) by simp
    show ?thesis
      by (rule answersI [OF _ _ r(3,4), of _ "Some (line_end_count e (st_text (lt_storage t)) a b)"])
        (use b(1) r(1,4) Some line_ends_before_lt [OF r(3) ix] line_end_count_split [OF b(1), of e "st_text (lt_storage t)"] scan
         in \<open>simp_all add: indexed_line_end_count_def\<close>)
  qed
qed

lemma line_index_count_answers:
  assumes t: "line_text_ok t" and c: "config_ok c" and b: "a \<le> b" "b \<le> length (st_text (lt_storage t))"
  shows "answers (\<lambda>r. r = None \<or> r = Some (line_end_count e (st_text (lt_storage t)) a b)) t (line_index_count c a b e t)"
proof (cases "index_enabled c \<and> lc_min_query_bytes c \<le> b - a")
  case True
  then have "line_index_count c a b e t = indexed_line_end_count c a b e t" using b(1) by (simp add: line_index_count_def)
  then show ?thesis using indexed_line_end_count_answers [OF t c b, of e] by simp
next
  case False
  then show ?thesis using t b(1) by (intro answersI [of _ None t]) (auto simp: line_index_count_def)
qed

lemma line_end_count_empty: "b \<le> a \<Longrightarrow> line_end_count e tx a b = 0"
  by (simp add: line_end_count_def sub_list_def)

lemma count_line_ends_answers:
  assumes t: "line_text_ok t" and c: "config_ok c"
  shows "answers (\<lambda>n. n = line_end_count e (st_text (lt_storage t)) (min a (length (st_text (lt_storage t)))) (min b (length (st_text (lt_storage t)))))
    t (count_line_ends_emacs_byte c a b e t)"
proof -
  let ?n = "length (st_text (lt_storage t))"
  let ?a = "min a ?n" and ?b = "min b ?n"
  note end_pos = end_pos_length [OF line_text_okD(1) [OF t]]
  show ?thesis
  proof (cases "?a < ?b")
    case True
    then have ab: "?a \<le> ?b" "?b \<le> ?n" by auto
    obtain r t' where r: "line_index_count c ?a ?b e t = Some (r, t')" "line_text_ok t'" "lt_storage t' = lt_storage t"
        "r = None \<or> r = Some (line_end_count e (st_text (lt_storage t)) ?a ?b)"
      using line_index_count_answers [OF t c ab, of e] by (auto simp: answers_def)
    have scan: "scan_line_ends_emacs_byte ?a ?b e (lt_storage t) = Some (line_end_count e (st_text (lt_storage t)) ?a ?b)"
      by (rule scan_line_ends_exact [OF line_text_okD(1) [OF t] ab])
    have "count_line_ends_emacs_byte c a b e t = Some (line_end_count e (st_text (lt_storage t)) ?a ?b, t')"
      unfolding count_line_ends_emacs_byte_def Let_def end_pos using True r scan by auto
    then show ?thesis using r(2,3) by (simp add: answers_def)
  next
    case False
    then have "count_line_ends_emacs_byte c a b e t = Some (0, t)"
      unfolding count_line_ends_emacs_byte_def Let_def end_pos by auto
    moreover have "line_end_count e (st_text (lt_storage t)) ?a ?b = 0" using False by (intro line_end_count_empty leI) blast
    ultimately show ?thesis using t by (simp add: answers_def)
  qed
qed

subsection \<open>Moving forward\<close>

lemma forward_lines_stop:
  assumes "length (newlines_at tx a b) < n" "newlines_at tx a b \<noteq> []"
  shows "forward_lines tx a b n = (List.last (newlines_at tx a b) + 1, length (newlines_at tx a b))"
  using assms by (simp add: forward_lines_def Let_def)

lemma forward_lines_reach:
  assumes "k < length (newlines_at tx a b)"
  shows "forward_lines tx a b (k + 1) = (newlines_at tx a b ! k + 1, k + 1)"
  using assms by (simp add: forward_lines_def Let_def take_Suc_conv_app_nth)

text \<open>The newlines of the whole text, cut at two positions.\<close>

lemma newlines_cut:
  assumes "a \<le> b" "b \<le> length tx"
  shows "newlines_at tx 0 (length tx) = newlines_at tx 0 a @ newlines_at tx a b @ newlines_at tx b (length tx)"
  using assms newlines_at_append [of 0 a "length tx" tx] newlines_at_append [of a b "length tx" tx] by simp

lemma newlines_before_count: "a \<le> length tx \<Longrightarrow> line_end_count Newline tx 0 a = length (newlines_at tx 0 a)"
  by (rule length_newlines [symmetric])

lemma newlines_at_below: "p \<in> set (newlines_at tx a b) \<Longrightarrow> a \<le> p \<and> p < b"
  by (simp add: newlines_at_def)

lemma indexed_nth_newline_answers:
  assumes t: "line_text_ok t" and c: "config_ok c" and b: "a \<le> b" "b \<le> length (st_text (lt_storage t))" and n: "0 < n"
  shows "answers (\<lambda>r. r = None \<or> r = Some (forward_lines (st_text (lt_storage t)) a b n)) t (indexed_nth_newline c a b n t)"
proof -
  let ?tx = "st_text (lt_storage t)"
  obtain r t' where r: "line_index_of c Build_IfLarge t = Some (r, t')"
      "\<forall>ix. r = Some ix \<longrightarrow> line_index_ok (st_mb (lt_storage t)) ?tx ix"
      "line_text_ok t'" "lt_storage t' = lt_storage t"
    using line_index_of_answers [OF t c, of Build_IfLarge] by (auto simp: answers_def)
  show ?thesis
  proof (cases r)
    case None
    then show ?thesis using r by (simp add: answers_def indexed_nth_newline_def)
  next
    case (Some ix)
    then have ix: "line_index_ok (st_mb (lt_storage t')) (st_text (lt_storage t')) ix" using r(2,4) by simp
    have scan: "scan_nth_newline_emacs_byte a b n (lt_storage t) = Some (forward_lines ?tx a b n)"
      by (rule scan_nth_newline_exact [OF line_text_okD(1) [OF t] b n])
    let ?before = "newlines_at ?tx 0 a" and ?nl = "newlines_at ?tx a b"
    have base: "line_ends_before (lt_view t') a Newline ix = Some (length ?before)"
      using line_ends_before_lt [OF r(3) ix, of a Newline] newlines_before_count [of a ?tx] b r(4) by simp
    have limit: "line_ends_before (lt_view t') b Newline ix = Some (length ?before + length ?nl)"
      using line_ends_before_lt [OF r(3) ix, of b Newline] newlines_before_count [of a ?tx] length_newlines [OF b(2), of a]
        line_end_count_split [OF b(1), of Newline ?tx] b r(4) by simp
    have pos: "newline_position (lt_view t') k ix = Some
        (let nl = newlines_at ?tx 0 (length ?tx) in if 1 \<le> k \<and> k \<le> length nl then Some (nl ! (k - 1)) else None)" for k
      using newline_position_lt [OF r(3) ix, of k] by (simp only: r(4))
    note whole = newlines_cut [OF b]
    have found: "\<exists>nth_at. newline_position (lt_view t') (length ?before + n) ix = Some nth_at
        \<and> (case nth_at of Some at \<Rightarrow> at < b \<longrightarrow> n \<le> length ?nl \<and> at = ?nl ! (n - 1) | None \<Rightarrow> length ?nl < n)
        \<and> (n \<le> length ?nl \<longrightarrow> nth_at = Some (?nl ! (n - 1)))"
    proof (cases "n \<le> length ?nl")
      case True
      then have "newlines_at ?tx 0 (length ?tx) ! (length ?before + n - 1) = ?nl ! (n - 1)"
        using n by (cases n) (simp_all add: whole nth_append)
      then show ?thesis using True n pos [of "length ?before + n"] whole by (simp add: Let_def)
    next
      case False
      then have "at \<in> set (newlines_at ?tx b (length ?tx))"
        if "newlines_at ?tx 0 (length ?tx) ! (length ?before + n - 1) = at" "length ?before + n \<le> length (newlines_at ?tx 0 (length ?tx))" for at
        using that n by (cases n) (auto simp: whole nth_append)
      then show ?thesis using False n pos [of "length ?before + n"] newlines_at_below [of _ ?tx b "length ?tx"]
        by (auto simp: Let_def dest: leD)
    qed
    show ?thesis
    proof (cases "n \<le> length ?nl")
      case True
      have "?nl ! (n - 1) \<in> set ?nl" using True n by simp
      then have "?nl ! (n - 1) < b" using newlines_at_below by blast
      moreover have "forward_lines ?tx a b n = (?nl ! (n - 1) + 1, n)"
        using forward_lines_reach [of "n - 1" ?tx a b] True n by simp
      ultimately show ?thesis
        using found True r Some base scan by (auto simp: answers_def indexed_nth_newline_def)
    next
      case False
      obtain nth_at where past: "newline_position (lt_view t') (length ?before + n) ix = Some nth_at"
          "case nth_at of Some at \<Rightarrow> \<not> at < b | None \<Rightarrow> True"
        using found False by (auto split: option.splits)
      have last_at: "newline_position (lt_view t') (length ?before + length ?nl) ix = Some (Some (List.last ?nl))" if ne: "?nl \<noteq> []"
      proof -
        obtain k where "length ?nl = Suc k" using ne by (cases "length ?nl") simp_all
        then show ?thesis using ne pos [of "length ?before + length ?nl"] whole by (simp add: Let_def nth_append last_conv_nth)
      qed
      show ?thesis
      proof (cases "?nl = []")
        case True
        then have "forward_lines ?tx a b n = (a, 0)" by (simp add: forward_lines_def)
        then show ?thesis using past r Some base limit scan True
          by (cases nth_at) (simp_all add: answers_def indexed_nth_newline_def)
      next
        case ne: False
        then have "forward_lines ?tx a b n = (List.last ?nl + 1, length ?nl)" using False by (intro forward_lines_stop) simp_all
        then show ?thesis using past r Some base limit scan ne last_at
          by (cases nth_at) (simp_all add: answers_def indexed_nth_newline_def)
      qed
    qed
  qed
qed

lemma nth_newline_answers:
  assumes t: "line_text_ok t" and c: "config_ok c"
  shows "answers (\<lambda>r. r = forward_lines (st_text (lt_storage t)) (min a (length (st_text (lt_storage t)))) (min b (length (st_text (lt_storage t)))) n)
    t (nth_newline_emacs_byte c a b n t)"
proof -
  let ?n = "length (st_text (lt_storage t))"
  let ?a = "min a ?n" and ?b = "min b ?n"
  note end_pos = end_pos_length [OF line_text_okD(1) [OF t]]
  show ?thesis
  proof (cases "?a < ?b \<and> 0 < n")
    case True
    then have ab: "?a \<le> ?b" "?b \<le> ?n" "0 < n" by auto
    have "answers (\<lambda>r. r = None \<or> r = Some (forward_lines (st_text (lt_storage t)) ?a ?b n)) t (line_index_nth_newline c ?a ?b n t)"
      using indexed_nth_newline_answers [OF t c ab] t by (auto simp: line_index_nth_newline_def answers_def)
    then obtain r t' where r: "line_index_nth_newline c ?a ?b n t = Some (r, t')" "line_text_ok t'" "lt_storage t' = lt_storage t"
        "r = None \<or> r = Some (forward_lines (st_text (lt_storage t)) ?a ?b n)"
      by (auto simp: answers_def)
    have scan: "scan_nth_newline_emacs_byte ?a ?b n (lt_storage t) = Some (forward_lines (st_text (lt_storage t)) ?a ?b n)"
      by (rule scan_nth_newline_exact [OF line_text_okD(1) [OF t] ab])
    have "nth_newline_emacs_byte c a b n t = Some (forward_lines (st_text (lt_storage t)) ?a ?b n, t')"
      unfolding nth_newline_emacs_byte_def Let_def end_pos using True r scan by auto
    then show ?thesis using r(2,3) by (simp add: answers_def)
  next
    case False
    then have "forward_lines (st_text (lt_storage t)) ?a ?b n = (?a, 0)" by (auto simp: forward_lines_def)
    moreover have "nth_newline_emacs_byte c a b n t = Some ((?a, 0), t)"
      unfolding nth_newline_emacs_byte_def Let_def end_pos using False by auto
    ultimately show ?thesis using t by (simp add: answers_def)
  qed
qed

subsection \<open>Moving backward\<close>

lemma lines_backward_answers:
  assumes t: "line_text_ok t" and c: "config_ok c"
  shows "answers (\<lambda>r. r = None
      \<or> r = Some (backward_lines (st_text (lt_storage t)) (min a (length (st_text (lt_storage t)))) (min low (min a (length (st_text (lt_storage t))))) n))
    t (lines_backward_emacs_byte c a low n t)"
proof (cases "index_enabled c \<and> lc_min_query_lines c < n")
  case False
  then have "lines_backward_emacs_byte c a low n t = Some (None, t)" by (auto simp: lines_backward_emacs_byte_def)
  then show ?thesis using t by (simp add: answers_def)
next
  case True
  let ?tx = "st_text (lt_storage t)"
  define A where "A = min a (length ?tx)"
  define L where "L = min low A"
  have b: "L \<le> A" "A \<le> length ?tx" unfolding L_def A_def by (rule min.cobounded2)+
  note end_pos = end_pos_length [OF line_text_okD(1) [OF t]]
  obtain r t' where r: "line_index_of c Build_IfLarge t = Some (r, t')"
      "\<forall>ix. r = Some ix \<longrightarrow> line_index_ok (st_mb (lt_storage t)) ?tx ix"
      "line_text_ok t'" "lt_storage t' = lt_storage t"
    using line_index_of_answers [OF t c, of Build_IfLarge] by (auto simp: answers_def)
  have run: "lines_backward_emacs_byte c a low n t = indexed_lines_backward c a low n t"
    using True by (simp add: lines_backward_emacs_byte_def)
  show ?thesis
  proof (cases r)
    case None
    then show ?thesis using r unfolding run by (simp add: answers_def indexed_lines_backward_def Let_def)
  next
    case (Some ix)
    then have ix: "line_index_ok (st_mb (lt_storage t')) (st_text (lt_storage t')) ix" using r(2,4) by simp
    have scan: "scan_lines_backward_emacs_byte A L n (lt_storage t) = Some (backward_lines ?tx A L n)"
      using scan_lines_backward_exact [OF line_text_okD(1) [OF t] b] True by simp
    define before where "before = newlines_at ?tx 0 L"
    define nl where "nl = newlines_at ?tx L A"
    have base: "line_ends_before (lt_view t') L Newline ix = Some (length before)"
      using line_ends_before_lt [OF r(3) ix, of L Newline] newlines_before_count [of L ?tx] r(4) b by (simp add: before_def)
    have upto: "line_ends_before (lt_view t') A Newline ix = Some (length before + length nl)"
      using line_ends_before_lt [OF r(3) ix, of A Newline] newlines_before_count [of L ?tx] length_newlines [OF b(2), of L]
        line_end_count_split [OF b(1), of Newline ?tx] r(4) b by (simp add: before_def nl_def)
    have whole: "newlines_at ?tx 0 (length ?tx) = before @ nl @ newlines_at ?tx A (length ?tx)"
      unfolding before_def nl_def by (rule newlines_cut [OF b])
    define m where "m = min (length nl) n"
    have moves: "backward_lines ?tx A L n
        = (if m < length nl then nl ! (length nl - m - 1) + 1 else L, m)"
      using True by (auto simp: backward_lines_def Let_def nl_def [symmetric] m_def min_def last_conv_nth)
    have newline: "newline_position (lt_view t') (length before + length nl - m) ix
        = Some (Some (nl ! (length nl - m - 1)))" if less: "m < length nl"
    proof -
      obtain k where k: "length nl - m = Suc k" using less by (metis Suc_diff_Suc)
      then have sum: "length before + length nl - m = length before + Suc k" using less by simp
      have "k < length nl" using k by simp
      then have "newlines_at ?tx 0 (length ?tx) ! (length before + k) = nl ! k" by (simp add: whole nth_append)
      then show ?thesis
        unfolding sum k newline_position_lt [OF r(3) ix] using \<open>k < length nl\<close> r(4) by (simp add: Let_def whole nth_append)
    qed
    show ?thesis
      using r Some base upto newline scan moves unfolding run
      by (cases "m < length nl")
        (simp_all add: answers_def indexed_lines_backward_def Let_def end_pos flip: A_def L_def m_def)
  qed
qed

subsection \<open>Edits keep the index\<close>

lemma before_delete_describes:
  assumes t: "line_text_ok t" and r: "br_start r \<le> br_end r" "br_end r \<le> length (st_text (lt_storage t))"
  shows "\<exists>t'. line_index_before_delete r t = Some t' \<and> lt_storage t' = lt_storage t
    \<and> index_describes (delete_range (br_start r) (br_end r) (st_text (lt_storage t))) t'"
proof (cases "lt_index t")
  case None
  then show ?thesis by (simp add: line_index_before_delete_def index_describes_def)
next
  case (Some ix)
  note inv = line_text_okD [OF t]
  obtain ix' where ix': "note_delete (lt_view t) (br_start r) (br_end r) ix = Some ix'"
      "line_index_ok (st_mb (lt_storage t)) (delete_range (br_start r) (br_end r) (st_text (lt_storage t))) ix'"
    using backend_text.note_delete_ok [OF inv(2), of ix "br_end r" "br_start r"] inv(3) [OF Some] r by (auto simp: max_absorb2)
  have "byte_range_len r = 0 \<Longrightarrow> br_end r = br_start r" using r(1) by (simp add: byte_range_len_def)
  then show ?thesis
    using Some ix' inv(3) [OF Some] by (auto simp: line_index_before_delete_def Let_def index_describes_def)
qed

lemma check_line_index_edit_ok:
  assumes "line_text_ok t"
  shows "check_line_index_edit p t = Some t"
proof (cases "lt_index t")
  case (Some ix)
  note inv = line_text_okD [OF assms]
  have "li_multibyte ix = st_mb (lt_storage t)" using inv(3) [OF Some] by (simp add: line_index_ok_def)
  then show ?thesis using backend_text.check_around_ok [OF inv(2), of ix p] inv(3) [OF Some] Some
    by (simp add: check_line_index_edit_def)
qed (simp add: check_line_index_edit_def)

lemma after_insert_describes:
  assumes inv: "storage_inv (lt_storage t)" and p: "p \<le> length old" "st_text (lt_storage t) = insert_at p bs old"
    and ix: "index_describes old t"
  shows "\<exists>t'. line_index_after_insert c p bs t = Some t' \<and> lt_storage t' = lt_storage t \<and> line_text_ok t'"
proof (cases "lt_index t")
  case None
  then show ?thesis using inv by (simp add: line_index_after_insert_def line_text_ok_def index_describes_def)
next
  case (Some ix)
  have tb: "tb_inv (st_backend (lt_storage t))" using storage_invD [OF inv] by simp
  have len: "tv_byte_len (lt_view t) = length old + length bs" using backend_text.byte_len [OF tb] p(2) by simp
  obtain ix' where ix': "note_insert (lt_view t) p bs ix = Some ix'"
      "line_index_ok (st_mb (lt_storage t)) (st_text (lt_storage t)) ix'"
    using backend_text.note_insert_ok [OF tb _ p, of "st_mb (lt_storage t)" ix] ix Some by (auto simp: index_describes_def)
  let ?t = "t\<lparr>lt_index := Some ix'\<rparr>"
  have ok: "line_text_ok ?t" using inv ix'(2) by (simp add: line_text_ok_def index_describes_def)
  have none: "line_text_ok (t\<lparr>lt_index := None\<rparr>)" using inv by (simp add: line_text_ok_def index_describes_def)
  show ?thesis
  proof (cases "bs = []")
    case True
    then have "line_text_ok t" using inv ix p(2) by (simp add: line_text_ok_def)
    then show ?thesis using True Some check_line_index_edit_ok by (auto simp: line_index_after_insert_def)
  next
    case False
    then show ?thesis using Some len ix'(1) ok none check_line_index_edit_ok [OF ok, of p]
      by (auto simp: line_index_after_insert_def)
  qed
qed

text \<open>What an edit of the text and its index must do: what the storage does, and keep the index right.\<close>

definition edits_line_text :: "buffer_storage option \<Rightarrow> line_text option \<Rightarrow> bool" where
  "edits_line_text s res \<longleftrightarrow> (\<exists>t'. res = Some t' \<and> s = Some (lt_storage t') \<and> line_text_ok t')"

lemma index_describes_storage: "st_mb s = st_mb (lt_storage t) \<Longrightarrow> index_describes tx (t\<lparr>lt_storage := s\<rparr>) = index_describes tx t"
  by (cases "lt_index t") (simp_all add: index_describes_def)

lemma replace_step:
  assumes t: "line_text_ok t" and r: "measured_range (st_mb (lt_storage t)) (st_text (lt_storage t)) r"
    and s: "storage_inv s" "st_mb s = st_mb (lt_storage t)"
      "st_text s = replace_range (er_byte_start r) (er_byte_end r) bs (st_text (lt_storage t))"
  shows "\<exists>t1 t2. line_index_before_delete (er_bytes r) t = Some t1 \<and> lt_storage t1 = lt_storage t
    \<and> line_index_after_insert c (er_byte_start r) bs (t1\<lparr>lt_storage := s\<rparr>) = Some t2 \<and> lt_storage t2 = s \<and> line_text_ok t2"
proof -
  let ?tx = "st_text (lt_storage t)"
  have r': "br_start (er_bytes r) \<le> br_end (er_bytes r)" "br_end (er_bytes r) \<le> length ?tx"
    using measured_rangeD(5,6) [OF r] by simp_all
  obtain t1 where t1: "line_index_before_delete (er_bytes r) t = Some t1" "lt_storage t1 = lt_storage t"
      "index_describes (delete_range (br_start (er_bytes r)) (br_end (er_bytes r)) ?tx) t1"
    using before_delete_describes [OF t r'] by blast
  have "\<exists>t2. line_index_after_insert c (er_byte_start r) bs (t1\<lparr>lt_storage := s\<rparr>) = Some t2
      \<and> lt_storage t2 = lt_storage (t1\<lparr>lt_storage := s\<rparr>) \<and> line_text_ok t2"
    by (rule after_insert_describes [where old = "delete_range (br_start (er_bytes r)) (br_end (er_bytes r)) ?tx"])
      (use s t1 r' in \<open>auto simp: replace_range_def index_describes_storage\<close>)
  then show ?thesis using t1 by auto
qed

lemma lt_replace_ok:
  assumes t: "line_text_ok t" and ed: "measured_edit (st_mb (lt_storage t)) (st_text (lt_storage t)) bs (tr_old rep) (tr_new rep)"
    and st: "rope_storable (st_mb (lt_storage t)) bs"
  shows "edits_line_text (st_replace_measured_range rep bs (lt_storage t)) (lt_replace_measured_range c rep bs t)"
proof (cases "edit_range_is_empty (tr_old rep) \<and> bs = []")
  case True
  then show ?thesis using t by (simp add: edits_line_text_def st_replace_measured_range_def lt_replace_measured_range_def)
next
  case False
  obtain s where s: "st_replace_measured_range rep bs (lt_storage t) = Some s"
      "edits_storage (tr_old rep) (tr_new rep) bs (lt_storage t) s"
    using st_replace_inv [OF line_text_okD(1) [OF t] ed st False] by blast
  then show ?thesis
    using replace_step [OF t measured_editD(1) [OF ed], of s bs c] False
    by (auto simp: edits_line_text_def edits_storage_def lt_replace_measured_range_def)
qed

lemma lt_replace_same_len_ok:
  assumes t: "line_text_ok t" and r: "measured_range (st_mb (lt_storage t)) (st_text (lt_storage t)) (tr_old rep)"
    and len: "edit_range_byte_len (tr_old rep) = te_bytes (tr_new rep)"
    and s: "st_replace_same_len_measured_range rep bs (lt_storage t) = Some s" "storage_inv s" "st_mb s = st_mb (lt_storage t)"
      "st_text s = replace_range (er_byte_start (tr_old rep)) (er_byte_end (tr_old rep)) bs (st_text (lt_storage t))"
  shows "edits_line_text (st_replace_same_len_measured_range rep bs (lt_storage t)) (lt_replace_same_len_measured_range c rep bs t)"
proof (cases "edit_range_is_empty (tr_old rep)")
  case True
  then show ?thesis using t by (simp add: edits_line_text_def st_replace_same_len_measured_range_def lt_replace_same_len_measured_range_def)
next
  case False
  then show ?thesis
    using replace_step [OF t r s(2-4), of c] s(1) len by (auto simp: edits_line_text_def lt_replace_same_len_measured_range_def)
qed

lemma lt_delete_ok:
  assumes t: "line_text_ok t" and r: "measured_range (st_mb (lt_storage t)) (st_text (lt_storage t)) r"
    and alloc: "length (st_text (lt_storage t)) < 2 ^ 63"
  shows "edits_line_text (st_delete_measured_range r (lt_storage t)) (lt_delete_measured_range c r t)"
proof (cases "edit_range_is_empty r")
  case True
  then show ?thesis using t by (simp add: edits_line_text_def st_delete_measured_range_def lt_delete_measured_range_def)
next
  case False
  obtain s where s: "st_delete_measured_range r (lt_storage t) = Some s" "edits_storage r extent_zero [] (lt_storage t) s"
    using st_delete_inv [OF line_text_okD(1) [OF t] r False alloc] by blast
  have r': "br_start (er_bytes r) \<le> br_end (er_bytes r)" "br_end (er_bytes r) \<le> length (st_text (lt_storage t))"
    using measured_rangeD(5,6) [OF r] by simp_all
  obtain t1 where t1: "line_index_before_delete (er_bytes r) t = Some t1" "lt_storage t1 = lt_storage t"
      "index_describes (delete_range (br_start (er_bytes r)) (br_end (er_bytes r)) (st_text (lt_storage t))) t1"
    using before_delete_describes [OF t r'] by blast
  have "line_text_ok (t1\<lparr>lt_storage := s\<rparr>)"
    using s(2) t1 r' by (auto simp: line_text_ok_def edits_storage_def replace_range_def index_describes_storage)
  then show ?thesis
    using s(1) t1 False check_line_index_edit_ok by (auto simp: edits_line_text_def lt_delete_measured_range_def line_index_after_delete_def)
qed

lemma lt_insert_ok:
  assumes t: "line_text_ok t" and p: "char_offset (st_mb (lt_storage t)) (st_text (lt_storage t)) k p"
    and e: "measured_text (st_mb (lt_storage t)) bs e" "rope_storable (st_mb (lt_storage t)) bs"
    and alloc: "length (st_text (lt_storage t)) + length bs < 2 ^ 63"
  shows "edits_line_text (st_insert_measured_emacs_bytes p bs e (lt_storage t)) (lt_insert_measured_emacs_bytes c p bs e t)"
proof (cases "bs = []")
  case True
  then show ?thesis using t by (simp add: edits_line_text_def st_insert_measured_emacs_bytes_def lt_insert_measured_emacs_bytes_def)
next
  case False
  obtain s where s: "st_insert_measured_emacs_bytes p bs e (lt_storage t) = Some s"
      "edits_storage (edit_range_empty_at p k) e bs (lt_storage t) s"
    using st_insert_inv [OF line_text_okD(1) [OF t] p e False alloc] by blast
  have pl: "p \<le> length (st_text (lt_storage t))" using p boundary_le [of "st_text (lt_storage t)" p "st_mb (lt_storage t)"] by (simp add: char_offset_def)
  have "\<exists>t2. line_index_after_insert c p bs (t\<lparr>lt_storage := s\<rparr>) = Some t2 \<and> lt_storage t2 = lt_storage (t\<lparr>lt_storage := s\<rparr>) \<and> line_text_ok t2"
    by (rule after_insert_describes [OF _ pl])
      (use s(2) t pl in \<open>auto simp: edits_storage_def replace_range_def line_text_ok_def index_describes_storage\<close>)
  then show ?thesis using s(1) False by (auto simp: edits_line_text_def lt_insert_measured_emacs_bytes_def)
qed

subsection \<open>Snapshots\<close>

lemma clone_for_index:
  assumes t: "line_text_ok t" and c: "config_ok c"
  shows "\<exists>d t'. line_index_for_clone c t = Some ((if index_enabled c then lt_index t' else None, d), t')
    \<and> line_text_ok t' \<and> lt_storage t' = lt_storage t \<and> lt_role t' = lt_role t"
proof (cases "index_enabled c")
  case False
  then show ?thesis using t by (simp add: line_index_for_clone_def)
next
  case True
  have flag: "line_text_ok (t\<lparr>lt_demand := d\<rparr>)" for d using t by (simp add: line_text_ok_def index_describes_def)
  obtain r t' where "line_index_of c Build_IfLarge (t\<lparr>lt_demand := Some False\<rparr>) = Some (r, t')" "line_text_ok t'" "lt_storage t' = lt_storage t"
    using line_index_of_answers [OF flag c, of "Some False" Build_IfLarge] by (auto simp: answers_def)
  moreover have "lt_role t' = lt_role t"
    using calculation(1) by (auto simp: line_index_of_def build_line_index_def split: option.splits if_splits line_index_role.splits Option.bind_splits)
  ultimately show ?thesis using True flag
    by (auto simp: line_index_for_clone_def Let_def split: option.splits)
qed

lemma snapshot_storage_inv:
  assumes "storage_inv s"
  shows "storage_inv (s\<lparr>st_markers := m\<rparr>)"
    "storage_inv (s\<lparr>st_markers := m, st_anchor_cache := [], st_anchor_cache_key := 0, st_anchor_cache_cursor := 0\<rparr>)"
  using assms by (auto simp: storage_inv_def)

lemma clone_text_ok:
  assumes t: "line_text_ok t" and c: "config_ok c"
  obtains sn t' where "clone_text c copied m t = Some (sn, t')" "line_text_ok sn" "line_text_ok t'"
    "lt_storage t' = lt_storage t" "st_backend (lt_storage sn) = st_backend (lt_storage t)"
    "st_metrics (lt_storage sn) = st_metrics (lt_storage t)" "lt_role sn = Text_Snapshot" "lt_role t' = lt_role t"
    "lt_index sn = (if index_enabled c then lt_index t' else None)"
proof -
  obtain d t' where t': "line_index_for_clone c t = Some ((if index_enabled c then lt_index t' else None, d), t')"
      "line_text_ok t'" "lt_storage t' = lt_storage t" "lt_role t' = lt_role t"
    using clone_for_index [OF t c] by blast
  let ?s = "(lt_storage t')\<lparr>st_markers := m\<rparr>"
  let ?sn = "\<lparr>lt_storage = if copied then ?s else ?s\<lparr>st_anchor_cache := [], st_anchor_cache_key := 0, st_anchor_cache_cursor := 0\<rparr>,
      lt_index = (if index_enabled c then lt_index t' else None), lt_demand = d, lt_role = Text_Snapshot\<rparr>"
  have "line_text_ok ?sn"
    using t'(2) snapshot_storage_inv [OF line_text_okD(1) [OF t'(2)], of m] by (auto simp: line_text_ok_def index_describes_def)
  moreover have "clone_text c copied m t = Some (?sn, t')" using t'(1) by (simp add: clone_text_def Let_def)
  ultimately show thesis using that [of ?sn t'] t'(2-4) by simp
qed

subsection \<open>Sessions\<close>

datatype line_command =
    Line_Insert emacs_byte_pos bytes text_extent
  | Line_Delete text_edit_range
  | Line_Replace text_replacement bytes
  | Line_Count emacs_byte_pos emacs_byte_pos line_end
  | Line_Forward emacs_byte_pos emacs_byte_pos nat

datatype line_answer = Edited | Counted nat | Moved emacs_byte_pos nat

fun line_command_run :: "text_line_index_config \<Rightarrow> line_command \<Rightarrow> line_text \<Rightarrow> (line_answer \<times> line_text) option" where
  "line_command_run c (Line_Insert p bs e) t = map_option (Pair Edited) (lt_insert_measured_emacs_bytes c p bs e t)"
| "line_command_run c (Line_Delete r) t = map_option (Pair Edited) (lt_delete_measured_range c r t)"
| "line_command_run c (Line_Replace rep bs) t = map_option (Pair Edited) (lt_replace_measured_range c rep bs t)"
| "line_command_run c (Line_Count a b e) t = map_option (apfst Counted) (count_line_ends_emacs_byte c a b e t)"
| "line_command_run c (Line_Forward a b n) t = map_option (apfst (\<lambda>(p, k). Moved p k)) (nth_newline_emacs_byte c a b n t)"

fun line_session :: "text_line_index_config \<Rightarrow> line_command list \<Rightarrow> line_text \<Rightarrow> (line_answer list \<times> line_text) option" where
  "line_session c [] t = Some ([], t)"
| "line_session c (cmd # cmds) t = do {
     (r, t) \<leftarrow> line_command_run c cmd t;
     (rs, t) \<leftarrow> line_session c cmds t;
     Some (r # rs, t)
   }"

text \<open>The same session on the bytes alone.\<close>

fun plain_command :: "line_command \<Rightarrow> bytes \<Rightarrow> line_answer \<times> bytes" where
  "plain_command (Line_Insert p bs e) tx = (Edited, insert_at p bs tx)"
| "plain_command (Line_Delete r) tx = (Edited, delete_range (er_byte_start r) (er_byte_end r) tx)"
| "plain_command (Line_Replace rep bs) tx = (Edited, replace_range (er_byte_start (tr_old rep)) (er_byte_end (tr_old rep)) bs tx)"
| "plain_command (Line_Count a b e) tx = (Counted (line_end_count e tx (min a (length tx)) (min b (length tx))), tx)"
| "plain_command (Line_Forward a b n) tx =
     (case forward_lines tx (min a (length tx)) (min b (length tx)) n of (p, k) \<Rightarrow> (Moved p k, tx))"

fun plain_session :: "line_command list \<Rightarrow> bytes \<Rightarrow> line_answer list \<times> bytes" where
  "plain_session [] tx = ([], tx)"
| "plain_session (cmd # cmds) tx =
     (let (r, tx) = plain_command cmd tx; (rs, tx) = plain_session cmds tx in (r # rs, tx))"

text \<open>An edit names positions of the text it runs on, and measures its bytes.\<close>

fun legal_command :: "bool \<Rightarrow> bytes \<Rightarrow> line_command \<Rightarrow> bool" where
  "legal_command mb tx (Line_Insert p bs e) \<longleftrightarrow> is_emacs_char_boundary tx p mb \<and> measured_text mb bs e \<and> rope_storable mb bs
     \<and> length tx + length bs < 2 ^ 63"
| "legal_command mb tx (Line_Delete r) \<longleftrightarrow> measured_range mb tx r \<and> length tx < 2 ^ 63"
| "legal_command mb tx (Line_Replace rep bs) \<longleftrightarrow> measured_edit mb tx bs (tr_old rep) (tr_new rep) \<and> rope_storable mb bs"
| "legal_command mb tx (Line_Count a b e) \<longleftrightarrow> True"
| "legal_command mb tx (Line_Forward a b n) \<longleftrightarrow> True"

fun legal_session :: "bool \<Rightarrow> bytes \<Rightarrow> line_command list \<Rightarrow> bool" where
  "legal_session mb tx [] \<longleftrightarrow> True"
| "legal_session mb tx (cmd # cmds) \<longleftrightarrow> legal_command mb tx cmd \<and> legal_session mb (snd (plain_command cmd tx)) cmds"

lemma st_edit_text:
  assumes "storage_inv s" "st_mb s = mb" "st_text s = tx"
  shows "legal_command mb tx (Line_Insert p bs e) \<Longrightarrow> st_insert_measured_emacs_bytes p bs e s = Some s'
      \<Longrightarrow> st_text s' = insert_at p bs tx \<and> st_mb s' = mb"
    "legal_command mb tx (Line_Delete r) \<Longrightarrow> st_delete_measured_range r s = Some s'
      \<Longrightarrow> st_text s' = delete_range (er_byte_start r) (er_byte_end r) tx \<and> st_mb s' = mb"
    "legal_command mb tx (Line_Replace rep bs) \<Longrightarrow> st_replace_measured_range rep bs s = Some s'
      \<Longrightarrow> st_text s' = replace_range (er_byte_start (tr_old rep)) (er_byte_end (tr_old rep)) bs tx \<and> st_mb s' = mb"
proof -
  assume p: "legal_command mb tx (Line_Insert p bs e)" and s': "st_insert_measured_emacs_bytes p bs e s = Some s'"
  show "st_text s' = insert_at p bs tx \<and> st_mb s' = mb"
  proof (cases "bs = []")
    case False
    then have "edits_storage (edit_range_empty_at p (emacs_char_count_bytes (take p tx) mb)) e bs s s'"
      using st_insert_inv [OF assms(1), of "emacs_char_count_bytes (take p tx) mb" p bs e] p assms s' by (auto simp: char_offset_def)
    then show ?thesis using assms by (simp add: edits_storage_def replace_range_def)
  qed (use s' assms in \<open>simp add: st_insert_measured_emacs_bytes_def\<close>)
next
  assume p: "legal_command mb tx (Line_Delete r)" and s': "st_delete_measured_range r s = Some s'"
  show "st_text s' = delete_range (er_byte_start r) (er_byte_end r) tx \<and> st_mb s' = mb"
  proof (cases "edit_range_is_empty r")
    case False
    then have "edits_storage r extent_zero [] s s'" using st_delete_inv [OF assms(1), of r] p assms s' by auto
    then show ?thesis using assms by (simp add: edits_storage_def replace_range_def)
  next
    case True
    have "measured_range mb tx r" using p by simp
    then have "er_byte_start r = er_byte_end r"
      using True measured_rangeD(5) by (auto simp: edit_range_is_empty_def byte_range_is_empty_def dest: le_antisym)
    then show ?thesis using s' assms True by (simp add: st_delete_measured_range_def)
  qed
next
  assume p: "legal_command mb tx (Line_Replace rep bs)" and s': "st_replace_measured_range rep bs s = Some s'"
  show "st_text s' = replace_range (er_byte_start (tr_old rep)) (er_byte_end (tr_old rep)) bs tx \<and> st_mb s' = mb"
  proof (cases "edit_range_is_empty (tr_old rep) \<and> bs = []")
    case False
    then have "edits_storage (tr_old rep) (tr_new rep) bs s s'" using st_replace_inv [OF assms(1), of bs rep] p assms s' by auto
    then show ?thesis using assms by (simp add: edits_storage_def)
  next
    case True
    have "measured_range mb tx (tr_old rep)" using p by (simp add: measured_edit_def)
    then have "er_byte_start (tr_old rep) = er_byte_end (tr_old rep)"
      using True measured_rangeD(5) by (auto simp: edit_range_is_empty_def byte_range_is_empty_def dest: le_antisym)
    then show ?thesis using s' assms True by (simp add: st_replace_measured_range_def replace_range_def)
  qed
qed

lemma line_command_exact:
  assumes t: "line_text_ok t" and c: "config_ok c" and legal: "legal_command (st_mb (lt_storage t)) (st_text (lt_storage t)) cmd"
  shows "\<exists>t'. line_command_run c cmd t = Some (fst (plain_command cmd (st_text (lt_storage t))), t') \<and> line_text_ok t'
    \<and> st_text (lt_storage t') = snd (plain_command cmd (st_text (lt_storage t))) \<and> st_mb (lt_storage t') = st_mb (lt_storage t)"
proof (cases cmd)
  case (Line_Insert p bs e)
  have "edits_line_text (st_insert_measured_emacs_bytes p bs e (lt_storage t)) (lt_insert_measured_emacs_bytes c p bs e t)"
    by (rule lt_insert_ok [OF t, of "emacs_char_count_bytes (take p (st_text (lt_storage t))) (st_mb (lt_storage t))"])
      (use legal Line_Insert in \<open>simp_all add: char_offset_def\<close>)
  then obtain t' where t': "lt_insert_measured_emacs_bytes c p bs e t = Some t'" "line_text_ok t'" "st_insert_measured_emacs_bytes p bs e (lt_storage t) = Some (lt_storage t')"
    by (auto simp: edits_line_text_def)
  from st_edit_text(1) [OF line_text_okD(1) [OF t] refl refl legal [unfolded Line_Insert] t'(3)] show ?thesis
    using t'(1,2) Line_Insert by simp
next
  case (Line_Delete r)
  then have "edits_line_text (st_delete_measured_range r (lt_storage t)) (lt_delete_measured_range c r t)"
    using lt_delete_ok [OF t] legal by simp
  then obtain t' where t': "lt_delete_measured_range c r t = Some t'" "line_text_ok t'" "st_delete_measured_range r (lt_storage t) = Some (lt_storage t')"
    by (auto simp: edits_line_text_def)
  from st_edit_text(2) [OF line_text_okD(1) [OF t] refl refl legal [unfolded Line_Delete] t'(3)] show ?thesis
    using t'(1,2) Line_Delete by simp
next
  case (Line_Replace rep bs)
  then have "edits_line_text (st_replace_measured_range rep bs (lt_storage t)) (lt_replace_measured_range c rep bs t)"
    using lt_replace_ok [OF t] legal by simp
  then obtain t' where t': "lt_replace_measured_range c rep bs t = Some t'" "line_text_ok t'" "st_replace_measured_range rep bs (lt_storage t) = Some (lt_storage t')"
    by (auto simp: edits_line_text_def)
  from st_edit_text(3) [OF line_text_okD(1) [OF t] refl refl legal [unfolded Line_Replace] t'(3)] show ?thesis
    using t'(1,2) Line_Replace by simp
next
  case (Line_Count a b e)
  then show ?thesis using count_line_ends_answers [OF t c, of e a b] by (auto simp: answers_def)
next
  case (Line_Forward a b n)
  then show ?thesis using nth_newline_answers [OF t c, of a b n] by (auto simp: answers_def split: prod.splits)
qed

subsection \<open>The answers do not depend on the index\<close>

definition lined_text :: bytes where
  "lined_text = [0x61, 0x62, 0x0A, 0xC3, 0xA9, 0x0A, 0x63, 0x0D, 0x64, 0x0A]"

definition lined_storage :: "backend_kind \<Rightarrow> buffer_storage" where
  "lined_storage k = the (Option.bind (tb_from_emacs_bytes lined_text True k) (st_from_backend 0))"

definition lined :: "backend_kind \<Rightarrow> line_text" where
  "lined k = \<lparr>lt_storage = lined_storage k, lt_index = None, lt_demand = None, lt_role = Live_Text\<rparr>"

text \<open>Settings that make every text and every query use the index, with the smallest chunks.\<close>

definition eager_config :: "text_line_index_mode \<Rightarrow> text_line_index_config" where
  "eager_config m = \<lparr>lc_mode = m, lc_min_buffer_bytes = 0, lc_chunk_bytes = 8, lc_min_query_bytes = 0, lc_min_query_lines = 0\<rparr>"

lemma lined_ok:
  "storage_inv (lined_storage k)" "st_text (lined_storage k) = lined_text" "st_mb (lined_storage k)" "line_text_ok (lined k)"
  "lt_storage (lined k) = lined_storage k"
proof -
  have st: "rope_storable True lined_text" by (rule rope_storable_short) code_simp+
  obtain b where b: "tb_from_emacs_bytes lined_text True k = Some b" "tb_inv b" "tb_is_multibyte b = True" "tb_text b = lined_text"
    by (rule tb_from_emacs_bytes_inv [OF st])
  obtain s where s: "st_from_backend 0 b = Some s" "storage_inv s" "st_backend s = b"
    using st_from_backend_inv [OF b(2)] by blast
  have "lined_storage k = s" using b(1) s(1) by (simp add: lined_storage_def)
  then show "storage_inv (lined_storage k)" "st_text (lined_storage k) = lined_text" "st_mb (lined_storage k)" "line_text_ok (lined k)"
    using b s by (simp_all add: lined_def line_text_ok_def index_describes_def)
qed (simp add: lined_def)

lemma eager_config_ok: "config_ok (eager_config m)"
  by (simp add: config_ok_def eager_config_def)

text \<open>C6: line sessions. Start from a text with a sound index, or none, under any settings, and run any sequence of
  insertions, deletions, replacements, line counts and line motions, each edit at positions of the text it finds.
  The session returns, in verify mode too; it answers what a reference interpreter answers that keeps
  nothing but the bytes; and the index still describes the text.\<close>

theorem line_session_exact:
  assumes "line_text_ok t" "config_ok c" "legal_session (st_mb (lt_storage t)) (st_text (lt_storage t)) cmds"
  shows "\<exists>t'. line_session c cmds t = Some (fst (plain_session cmds (st_text (lt_storage t))), t')
    \<and> st_text (lt_storage t') = snd (plain_session cmds (st_text (lt_storage t))) \<and> line_text_ok t'"
  using assms(1,3)
proof (induction cmds arbitrary: t)
  case (Cons cmd cmds)
  let ?r = "plain_command cmd (st_text (lt_storage t))"
  obtain t1 where t1: "line_command_run c cmd t = Some (fst ?r, t1)" "line_text_ok t1" "st_text (lt_storage t1) = snd ?r"
      "st_mb (lt_storage t1) = st_mb (lt_storage t)"
    using line_command_exact [OF Cons.prems(1) assms(2)] Cons.prems(2) by auto
  have "legal_session (st_mb (lt_storage t1)) (st_text (lt_storage t1)) cmds" using Cons.prems(2) t1(3,4) by simp
  then show ?case using Cons.IH [OF t1(2)] t1(1,3) by (auto simp: split_beta Let_def)
qed simp

definition line_script :: "line_command list" where
  "line_script =
     [Line_Forward 0 10 2,
      Line_Replace (replacement_new (edit_range_new (byte_range_new 3 5) 3 4) (extent_new 2 2)) [0x0A, 0x78],
      Line_Count 0 10 Newline,
      Line_Insert 10 [0x0A, 0x79] (extent_new 2 2),
      Line_Delete (edit_range_new (byte_range_new 1 3) 1 3),
      Line_Count 0 99 NewlineOrCarriageReturn,
      Line_Forward 1 99 7]"

lemma line_script_legal: "legal_session True lined_text line_script"
proof -
  let ?t1 = "replace_range 3 5 [0x0A, 0x78] lined_text"
  let ?t2 = "insert_at 10 [0x0A, 0x79] ?t1"
  have small: "n < 32 \<Longrightarrow> n < (2 :: nat) ^ 63" for n by simp
  have st: "rope_storable True [0x0A, 0x78]" "rope_storable True [0x0A, 0x79]" by (rule rope_storable_short; code_simp)+
  have "measured_range True lined_text (edit_range_new (byte_range_new 3 5) 3 4)" "lead_ok True lined_text"
    "measured_text True [0x0A, 0x78] (extent_new 2 2)" "measured_text True [0x0A, 0x79] (extent_new 2 2)"
    "is_emacs_char_boundary ?t1 10 True" "measured_range True ?t2 (edit_range_new (byte_range_new 1 3) 1 3)"
    "length ?t1 < 16" "length ?t1 + 2 < 32" "length ?t2 < 32"
    by code_simp+
  then show ?thesis
    using st small by (simp add: line_script_def measured_edit_def replacement_new_def edit_range_new_def byte_range_new_def split_beta)
qed

theorem line_session_exact_witness:
  "\<exists>t'. line_session (eager_config Index_Verify) line_script (lined Rope)
      = Some ([Moved 6 2, Edited, Counted 4, Edited, Edited, Counted 5, Moved 9 4], t')
    \<and> st_text (lt_storage t') = [0x61, 0x0A, 0x78, 0x0A, 0x63, 0x0D, 0x64, 0x0A, 0x0A, 0x79] \<and> line_text_ok t'"
proof -
  have "fst (plain_session line_script lined_text) = [Moved 6 2, Edited, Counted 4, Edited, Edited, Counted 5, Moved 9 4]"
    "snd (plain_session line_script lined_text) = [0x61, 0x0A, 0x78, 0x0A, 0x63, 0x0D, 0x64, 0x0A, 0x0A, 0x79]"
    by code_simp+
  then show ?thesis
    using line_session_exact [OF lined_ok(4) eager_config_ok, of Rope line_script Index_Verify] line_script_legal lined_ok(2,3,5)
    by simp
qed

text \<open>C20: line queries. Counting the line ends of a range, moving forward and moving backward by lines return what the
  list of newline positions of the text says, whatever the settings and whatever index the text has or
  builds; moving backward may decline, and then the caller walks back line by line. The storage stays as
  it is, and the index, built or kept, describes the text.\<close>

theorem line_queries_exact:
  assumes "line_text_ok t" "config_ok c"
  shows "let tx = st_text (lt_storage t); start = min a (length tx); stop = min b (length tx); lowest = min low start in
    answers (\<lambda>n. n = line_end_count e tx start stop) t (count_line_ends_emacs_byte c a b e t)
    \<and> answers (\<lambda>r. r = forward_lines tx start stop n) t (nth_newline_emacs_byte c a b n t)
    \<and> answers (\<lambda>r. r = None \<or> r = Some (backward_lines tx start lowest n)) t (lines_backward_emacs_byte c a low n t)"
  using count_line_ends_answers [OF assms(1,2), of e a b] nth_newline_answers [OF assms(1,2), of a b n]
    lines_backward_answers [OF assms(1,2), of a low n]
  by (simp add: Let_def)

theorem line_queries_exact_witness:
  "answers (\<lambda>n. n = 4) (lined PieceTree) (count_line_ends_emacs_byte (eager_config Index_On) 0 99 NewlineOrCarriageReturn (lined PieceTree))
    \<and> answers (\<lambda>r. r = (6, 2)) (lined PieceTree) (nth_newline_emacs_byte (eager_config Index_On) 0 99 2 (lined PieceTree))
    \<and> answers (\<lambda>r. r = None \<or> r = Some (3, 1)) (lined PieceTree) (lines_backward_emacs_byte (eager_config Index_On) 8 0 1 (lined PieceTree))"
proof -
  have l: "length lined_text = 10" by code_simp
  have "line_end_count NewlineOrCarriageReturn lined_text 0 10 = 4" by code_simp
  moreover have "forward_lines lined_text 0 10 2 = (6, 2)" "backward_lines lined_text 8 0 1 = (3, 1)" by code_simp+
  ultimately show ?thesis
    using line_queries_exact [OF lined_ok(4) [of PieceTree] eager_config_ok [of Index_On], where a = 0 and b = 99 and e = NewlineOrCarriageReturn and n = 2 and low = 0]
      line_queries_exact [OF lined_ok(4) [of PieceTree] eager_config_ok [of Index_On], where a = 8 and b = 99 and e = NewlineOrCarriageReturn and n = 1 and low = 0]
      lined_ok(2,5) l by (simp add: Let_def)
qed

text \<open>C26: newline scans. On every backend, the scans for the next and the previous newline, for the \<open>n\<close>-th newline, for
  the number of line ends and for the \<open>n\<close>-th line above return (the scan backwards doubles its window until it
  finds a newline or reaches the limit), and find what the list of newline positions of the range says.\<close>

theorem newline_scans_exact:
  assumes "storage_inv s" "a \<le> b" "b \<le> length (st_text s)" "0 < n"
  shows "let nl = newlines_at (st_text s) a b in
      next_newline_emacs_byte a b s = Some (if nl = [] then None else Some (hd nl))
    \<and> prev_newline_emacs_byte b a s = Some (if nl = [] then None else Some (List.last nl))
    \<and> scan_nth_newline_emacs_byte a b n s = Some (forward_lines (st_text s) a b n)
    \<and> scan_line_ends_emacs_byte a b e s = Some (line_end_count e (st_text s) a b)
    \<and> scan_lines_backward_emacs_byte b a n s = Some (backward_lines (st_text s) b a n)"
  using next_newline_exact [OF assms(1-3)] prev_newline_exact [OF assms(1-3)] scan_nth_newline_exact [OF assms]
    scan_line_ends_exact [OF assms(1-3), of e] scan_lines_backward_exact [OF assms]
  by (cases "newlines_at (st_text s) a b") (simp_all add: Let_def)

theorem newline_scans_exact_witness:
  "next_newline_emacs_byte 3 9 (lined_storage GapBuffer) = Some (Some 5)
    \<and> prev_newline_emacs_byte 9 3 (lined_storage GapBuffer) = Some (Some 5)
    \<and> scan_nth_newline_emacs_byte 3 9 2 (lined_storage GapBuffer) = Some (6, 1)
    \<and> scan_line_ends_emacs_byte 3 9 NewlineOrCarriageReturn (lined_storage GapBuffer) = Some 2
    \<and> scan_lines_backward_emacs_byte 9 3 2 (lined_storage GapBuffer) = Some (3, 1)"
proof -
  have "newlines_at lined_text 3 9 = [5]" "forward_lines lined_text 3 9 2 = (6, 1)" "backward_lines lined_text 9 3 2 = (3, 1)"
    "line_end_count NewlineOrCarriageReturn lined_text 3 9 = 2" "length lined_text = 10"
    by code_simp+
  then show ?thesis
    using newline_scans_exact [OF lined_ok(1) [of GapBuffer], of 3 9 2 NewlineOrCarriageReturn] lined_ok(2) [of GapBuffer]
    by (simp add: Let_def)
qed

text \<open>C28: a snapshot gets its index. A live text without an index is copied; a line motion on the copy that the index would
  have served raises the flag the two share, and is answered by a scan; the next copy of the live text then
  builds the index, holds it, and lowers the flag.\<close>

theorem snapshot_demand_builds:
  assumes "line_text_ok t" "config_ok c" "index_enabled c" "lt_role t = Live_Text" "lt_index t = None" "lt_demand t = None"
    "a < b" "b \<le> length (st_text (lt_storage t))" "lc_min_query_lines c < n" "lc_min_buffer_bytes c \<le> length (st_text (lt_storage t))"
  shows "\<exists>sn t1 sn1 sn2 t2. clone_text c copied m t = Some (sn, t1)
    \<and> nth_newline_emacs_byte c a b n sn = Some (forward_lines (st_text (lt_storage t)) a b n, sn1)
    \<and> lt_index sn1 = None \<and> lt_demand sn1 = Some True
    \<and> clone_text c copied m (t1\<lparr>lt_demand := lt_demand sn1\<rparr>) = Some (sn2, t2)
    \<and> lt_index sn2 \<noteq> None \<and> lt_index t2 = lt_index sn2 \<and> lt_demand t2 = Some False \<and> line_text_ok sn2 \<and> line_text_ok t2"
proof -
  let ?tx = "st_text (lt_storage t)"
  let ?t1 = "t\<lparr>lt_demand := Some False\<rparr>"
  let ?flag = "t\<lparr>lt_demand := Some True\<rparr>"
  obtain sn where sn: "clone_text c copied m t = Some (sn, ?t1)" "line_text_ok sn" "st_backend (lt_storage sn) = st_backend (lt_storage t)"
      "st_metrics (lt_storage sn) = st_metrics (lt_storage t)" "lt_index sn = None" "lt_demand sn = Some False" "lt_role sn = Text_Snapshot"
  proof -
    have run: "line_index_for_clone c t = Some ((None, Some False), ?t1)"
      using assms(3,5,6) by (simp add: line_index_for_clone_def)
    then have c1: "\<exists>sn. clone_text c copied m t = Some (sn, ?t1) \<and> lt_demand sn = Some False" by (simp add: clone_text_def Let_def)
    obtain sn t1 where sn: "clone_text c copied m t = Some (sn, t1)" "line_text_ok sn" "st_backend (lt_storage sn) = st_backend (lt_storage t)"
        "st_metrics (lt_storage sn) = st_metrics (lt_storage t)" "lt_role sn = Text_Snapshot" "lt_index sn = (if index_enabled c then lt_index t1 else None)"
      by (rule clone_text_ok [OF assms(1,2)])
    then show thesis using that [of sn] c1 assms(5) by auto
  qed
  have len: "tm_bytes (st_metrics (lt_storage t)) = length ?tx" using storage_invD(4) [OF line_text_okD(1) [OF assms(1)]] by simp
  have tx: "st_text (lt_storage sn) = ?tx" using sn(3) by simp
  let ?sn1 = "sn\<lparr>lt_demand := Some True\<rparr>"
  have "line_index_of c Build_IfLarge sn = Some (None, ?sn1)"
    using sn(4-7) len assms(10) by (simp add: line_index_of_def)
  then have decline: "line_index_nth_newline c a b n sn = Some (None, ?sn1)"
    using assms(3,9) by (simp add: line_index_nth_newline_def indexed_nth_newline_def)
  have scan: "scan_nth_newline_emacs_byte a b n (lt_storage sn) = Some (forward_lines ?tx a b n)"
    using scan_nth_newline_exact [OF line_text_okD(1) [OF sn(2)], of a b n] assms(7-9) tx by simp
  have motion: "nth_newline_emacs_byte c a b n sn = Some (forward_lines ?tx a b n, ?sn1)"
    using assms(7-9) decline scan sn(4) len by (simp add: nth_newline_emacs_byte_def emacs_byte_end_pos_def Let_def min_absorb1)
  have flag: "line_text_ok ?flag" using assms(1) by (simp add: line_text_ok_def index_describes_def)
  obtain ix where ix: "build (lt_view t) (lc_chunk_bytes c) = Some ix"
    using backend_text.build_ok [OF line_text_okD(2) [OF assms(1)], of "lc_chunk_bytes c"] assms(2) by (auto simp: config_ok_def)
  have built: "line_index_for_clone c ?flag = Some ((Some ix, Some False), t\<lparr>lt_demand := Some False, lt_index := Some ix\<rparr>)"
    using assms(3-5,10) len ix by (simp add: line_index_for_clone_def line_index_of_def build_line_index_def Let_def)
  obtain sn2 t2 where 2: "clone_text c copied m ?flag = Some (sn2, t2)" "line_text_ok sn2" "line_text_ok t2"
      "lt_index sn2 = (if index_enabled c then lt_index t2 else None)"
    by (rule clone_text_ok [OF flag assms(2)])
  have "t2 = t\<lparr>lt_demand := Some False, lt_index := Some ix\<rparr>" using 2(1) built by (simp add: clone_text_def Let_def)
  then show ?thesis using sn(1,5) motion 2 assms(3) by (intro exI [of _ sn] exI [of _ ?t1] exI [of _ ?sn1] exI [of _ sn2] exI [of _ t2]) simp
qed

theorem snapshot_demand_builds_witness:
  "\<exists>sn t1 sn1 sn2 t2. clone_text (eager_config Index_On) False 1 (lined Rope) = Some (sn, t1)
    \<and> nth_newline_emacs_byte (eager_config Index_On) 0 9 2 sn = Some ((6, 2), sn1)
    \<and> lt_index sn1 = None \<and> lt_demand sn1 = Some True
    \<and> clone_text (eager_config Index_On) False 1 (t1\<lparr>lt_demand := lt_demand sn1\<rparr>) = Some (sn2, t2)
    \<and> lt_index sn2 \<noteq> None \<and> lt_index t2 = lt_index sn2 \<and> lt_demand t2 = Some False \<and> line_text_ok sn2 \<and> line_text_ok t2"
proof -
  have f: "forward_lines lined_text 0 9 2 = (6, 2)" and l: "length lined_text = 10" by code_simp+
  have "\<exists>sn t1 sn1 sn2 t2. clone_text (eager_config Index_On) False 1 (lined Rope) = Some (sn, t1)
    \<and> nth_newline_emacs_byte (eager_config Index_On) 0 9 2 sn = Some (forward_lines (st_text (lt_storage (lined Rope))) 0 9 2, sn1)
    \<and> lt_index sn1 = None \<and> lt_demand sn1 = Some True
    \<and> clone_text (eager_config Index_On) False 1 (t1\<lparr>lt_demand := lt_demand sn1\<rparr>) = Some (sn2, t2)
    \<and> lt_index sn2 \<noteq> None \<and> lt_index t2 = lt_index sn2 \<and> lt_demand t2 = Some False \<and> line_text_ok sn2 \<and> line_text_ok t2"
    by (rule snapshot_demand_builds [OF lined_ok(4) eager_config_ok])
      (use l lined_ok(2) in \<open>simp_all add: lined_def eager_config_def index_enabled_def\<close>)
  then show ?thesis using lined_ok(2,5) f by simp
qed

end
