(* ===== verification/Undo_List.thy ===== *)
theory Undo_List
  imports Text_Backend_Spec
begin

text \<open>
  Undo recording: \<open>src/crates/neovm-core/src/buffer/undo.rs\<close>. The value of \<open>buffer-undo-list\<close> is the
  symbol \<open>t\<close> (recording is off) or a list of records, newest first; the records that the code
  builds or inspects are the constructors below, anything else that Lisp may put into the list is
  \<open>Undo_Other\<close> with the information whether it is a cons. Lisp values and property tables are type
  parameters.

  The code conses onto the list and, in one case, writes the cdr of the newest record; as the model
  returns the new list this is a new head. \<open>truncate_undo_list\<close> cuts by writing the cdr of a cell it
  remembers; the model remembers how many cells there are up to that cell.

  What undoing a record means for the text is taken from \<open>primitive-undo\<close> of \<open>src/lisp/simple.el\<close>
  and stated here as a specification; the main theorem is that replaying what was recorded
  restores the text.
\<close>

subsection \<open>Records\<close>

record 'p lisp_string =
  ls_bytes :: bytes
  ls_multibyte :: bool
  ls_intervals :: 'p

definition schars :: "'p lisp_string \<Rightarrow> nat" where
  "schars s = emacs_char_count_bytes (ls_bytes s) (ls_multibyte s)"

datatype ('p, 'v) undo_entry =
  Undo_Boundary
| Undo_Point int
| Undo_Insert int int
| Undo_Delete "'p lisp_string" int
| Undo_Marker nat int
| Undo_Property 'v 'v int int
| Undo_First_Change 'v
| Undo_Other 'v bool

datatype ('p, 'v) undo_list = Undo_T | Undo_List "('p, 'v) undo_entry list"

datatype undo_recording = Disabled | Enabled

fun undo_recording_of :: "('p, 'v) undo_list \<Rightarrow> undo_recording" where
  "undo_recording_of Undo_T = Disabled"
| "undo_recording_of (Undo_List _) = Enabled"

definition undo_list_is_disabled :: "('p, 'v) undo_list \<Rightarrow> bool" where
  "undo_list_is_disabled ul \<longleftrightarrow> (case undo_recording_of ul of Disabled \<Rightarrow> True | Enabled \<Rightarrow> False)"

fun undo_list_at_boundary :: "('p, 'v) undo_list \<Rightarrow> bool" where
  "undo_list_at_boundary (Undo_List []) = True"
| "undo_list_at_boundary (Undo_List (Undo_Boundary # _)) = True"
| "undo_list_at_boundary _ = False"

fun prepend_undo_entry :: "('p, 'v) undo_entry \<Rightarrow> ('p, 'v) undo_list \<Rightarrow> ('p, 'v) undo_list" where
  "prepend_undo_entry e (Undo_List es) = Undo_List (e # es)"
| "prepend_undo_entry e Undo_T = Undo_T"

subsection \<open>Recording\<close>

text \<open>An insertion is merged into the newest record only when that is an insertion which ends where it begins.\<close>

fun merges_into_head :: "int \<Rightarrow> ('p, 'v) undo_list \<Rightarrow> bool" where
  "merges_into_head beg1 (Undo_List (Undo_Insert _ prev_end # _)) \<longleftrightarrow> prev_end = beg1"
| "merges_into_head _ _ \<longleftrightarrow> False"

fun extend_head_insert :: "int \<Rightarrow> ('p, 'v) undo_list \<Rightarrow> ('p, 'v) undo_list" where
  "extend_head_insert n (Undo_List (Undo_Insert prev_beg prev_end # es)) =
     Undo_List (Undo_Insert prev_beg (prev_end + n) # es)"
| "extend_head_insert _ ul = ul"

definition undo_list_record_insert :: "char_pos0 \<Rightarrow> char_len \<Rightarrow> ('p, 'v) undo_list \<Rightarrow> ('p, 'v) undo_list" where
  "undo_list_record_insert beg len ul =
     (if undo_list_is_disabled ul then ul
      else let beg1 = char_pos0_to_lisp beg; end1 = char_pos0_to_lisp (beg + len)
           in if merges_into_head beg1 ul then extend_head_insert (int len) ul
              else prepend_undo_entry (Undo_Insert beg1 end1) ul)"

definition undo_list_record_delete ::
    "char_pos0 \<Rightarrow> 'p lisp_string \<Rightarrow> char_pos0 \<Rightarrow> ('p, 'v) undo_list \<Rightarrow> ('p, 'v) undo_list" where
  "undo_list_record_delete beg str pt ul =
     (if undo_list_is_disabled ul then ul
      else let pos1 = char_pos0_to_lisp beg;
               stored_pos = (if pt = beg + schars str then - pos1 else pos1)
           in prepend_undo_entry (Undo_Delete str stored_pos) ul)"

definition undo_list_record_marker_adjustment :: "nat \<Rightarrow> int \<Rightarrow> ('p, 'v) undo_list \<Rightarrow> ('p, 'v) undo_list" where
  "undo_list_record_marker_adjustment marker adjustment ul =
     (if undo_list_is_disabled ul \<or> adjustment = 0 then ul else prepend_undo_entry (Undo_Marker marker adjustment) ul)"

fun head_is_point :: "int \<Rightarrow> ('p, 'v) undo_list \<Rightarrow> bool" where
  "head_is_point pt1 (Undo_List (Undo_Point q # _)) \<longleftrightarrow> q = pt1"
| "head_is_point _ _ \<longleftrightarrow> False"

definition undo_list_record_point :: "char_pos0 \<Rightarrow> ('p, 'v) undo_list \<Rightarrow> ('p, 'v) undo_list" where
  "undo_list_record_point pt ul =
     (if undo_list_is_disabled ul then ul
      else let pt1 = char_pos0_to_lisp pt
           in if head_is_point pt1 ul then ul else prepend_undo_entry (Undo_Point pt1) ul)"

definition undo_list_record_property_change ::
    "'v \<Rightarrow> 'v \<Rightarrow> char_range \<Rightarrow> ('p, 'v) undo_list \<Rightarrow> ('p, 'v) undo_list" where
  "undo_list_record_property_change prop val r ul =
     (if undo_list_is_disabled ul \<or> char_range_is_empty r then ul
      else prepend_undo_entry
        (Undo_Property prop val (char_pos0_to_lisp (cr_start r)) (char_pos0_to_lisp (cr_end r))) ul)"

definition undo_list_record_first_change :: "'v \<Rightarrow> ('p, 'v) undo_list \<Rightarrow> ('p, 'v) undo_list" where
  "undo_list_record_first_change modtime ul =
     (if undo_list_is_disabled ul then ul else prepend_undo_entry (Undo_First_Change modtime) ul)"

fun undo_list_contains_first_change :: "('p, 'v) undo_list \<Rightarrow> bool" where
  "undo_list_contains_first_change (Undo_List es) = list_ex (\<lambda>e. case e of Undo_First_Change _ \<Rightarrow> True | _ \<Rightarrow> False) es"
| "undo_list_contains_first_change Undo_T = False"

fun undo_list_has_trailing_boundary :: "('p, 'v) undo_list \<Rightarrow> bool" where
  "undo_list_has_trailing_boundary (Undo_List (Undo_Boundary # _)) = True"
| "undo_list_has_trailing_boundary _ = False"

definition undo_list_boundary :: "('p, 'v) undo_list \<Rightarrow> ('p, 'v) undo_list" where
  "undo_list_boundary ul =
     (if undo_list_is_disabled ul then ul
      else if undo_list_at_boundary ul then ul
      else prepend_undo_entry Undo_Boundary ul)"

subsection \<open>Sizes and limits\<close>

definition GNU_CONS_BYTES :: int where "GNU_CONS_BYTES = 16"
definition GNU_STRING_HEADER_BYTES :: int where "GNU_STRING_HEADER_BYTES = 31"

fun entry_is_cons :: "('p, 'v) undo_entry \<Rightarrow> bool" where
  "entry_is_cons Undo_Boundary = False"
| "entry_is_cons (Undo_Point _) = False"
| "entry_is_cons (Undo_Other _ is_cons) = is_cons"
| "entry_is_cons _ = True"

definition undo_element_bytes :: "('p, 'v) undo_entry \<Rightarrow> int" where
  "undo_element_bytes e =
     GNU_CONS_BYTES + (if entry_is_cons e then GNU_CONS_BYTES else 0)
       + (case e of Undo_Delete str _ \<Rightarrow> GNU_STRING_HEADER_BYTES + int (schars str) | _ \<Rightarrow> 0)"

text \<open>The Lisp values a limit variable can hold, as far as the readers distinguish them.\<close>

datatype 'v limit_value = LV_Fixnum int | LV_Bignum int | LV_Nil | LV_Value 'v

datatype gnu_int_variable = GnuInt int | NotAnIntSlotValue

definition fits_i64 :: "int \<Rightarrow> bool" where
  "fits_i64 n \<longleftrightarrow> - (2 ^ 63) \<le> n \<and> n < 2 ^ 63"

fun gnu_int_variable_of :: "'v limit_value \<Rightarrow> gnu_int_variable" where
  "gnu_int_variable_of (LV_Fixnum n) = GnuInt n"
| "gnu_int_variable_of (LV_Bignum n) = (if fits_i64 n then GnuInt n else NotAnIntSlotValue)"
| "gnu_int_variable_of _ = NotAnIntSlotValue"

datatype outer_undo_limit = NoLimit | LimitBytes int | AlwaysExceeded

fun outer_undo_limit_of :: "'v limit_value \<Rightarrow> outer_undo_limit" where
  "outer_undo_limit_of (LV_Fixnum n) = LimitBytes n"
| "outer_undo_limit_of (LV_Bignum n) = (if n < 0 then AlwaysExceeded else NoLimit)"
| "outer_undo_limit_of _ = NoLimit"

fun is_exceeded_by :: "outer_undo_limit \<Rightarrow> int \<Rightarrow> bool" where
  "is_exceeded_by NoLimit _ = False"
| "is_exceeded_by (LimitBytes limit) size_so_far \<longleftrightarrow> limit < size_so_far"
| "is_exceeded_by AlwaysExceeded _ = True"

record 'v undo_limit_bindings =
  lb_undo_limit :: "'v limit_value"
  lb_undo_strong_limit :: "'v limit_value"
  lb_undo_outer_limit :: "'v limit_value"
  lb_undo_outer_limit_function :: "'v limit_value"

record 'v undo_limits =
  ul_limit :: int
  ul_strong_limit :: int
  ul_outer :: outer_undo_limit
  ul_outer_function :: "'v limit_value"

definition undo_limits_read :: "'v undo_limit_bindings \<Rightarrow> 'v undo_limits option" where
  "undo_limits_read b =
     (case (gnu_int_variable_of (lb_undo_limit b), gnu_int_variable_of (lb_undo_strong_limit b)) of
        (GnuInt limit, GnuInt strong_limit) \<Rightarrow>
          Some \<lparr>ul_limit = limit, ul_strong_limit = strong_limit,
                ul_outer = outer_undo_limit_of (lb_undo_outer_limit b),
                ul_outer_function = lb_undo_outer_limit_function b\<rparr>
      | _ \<Rightarrow> None)"

definition outer_limit_function_for :: "'v undo_limits \<Rightarrow> int \<Rightarrow> 'v limit_value option" where
  "outer_limit_function_for lim first_group_bytes =
     (if \<not> is_exceeded_by (ul_outer lim) first_group_bytes then None
      else case ul_outer_function lim of LV_Nil \<Rightarrow> None | f \<Rightarrow> Some f)"

subsection \<open>Truncation\<close>

fun skip_boundary :: "('p, 'v) undo_entry list \<Rightarrow> int \<times> nat \<times> ('p, 'v) undo_entry list" where
  "skip_boundary (Undo_Boundary # next) = (GNU_CONS_BYTES, 1, next)"
| "skip_boundary next = (0, 0, next)"

fun walk_first_group :: "int \<Rightarrow> nat \<Rightarrow> ('p, 'v) undo_entry list \<Rightarrow> int \<times> nat \<times> ('p, 'v) undo_entry list" where
  "walk_first_group size_so_far prev [] = (size_so_far, prev, [])"
| "walk_first_group size_so_far prev (e # next) =
     (case e of
        Undo_Boundary \<Rightarrow> (size_so_far, prev, e # next)
      | _ \<Rightarrow> walk_first_group (size_so_far + undo_element_bytes e) (prev + 1) next)"

definition undo_first_group_bytes :: "('p, 'v) undo_entry list \<Rightarrow> int" where
  "undo_first_group_bytes es =
     (case skip_boundary es of (size_so_far, prev, next) \<Rightarrow> fst (walk_first_group size_so_far prev next))"

text \<open>Cells are counted from the front; cell 0 is \<open>nil\<close>.\<close>

fun walk_groups :: "'v undo_limits \<Rightarrow> int \<Rightarrow> nat \<Rightarrow> nat \<Rightarrow> ('p, 'v) undo_entry list \<Rightarrow> nat \<times> ('p, 'v) undo_entry list" where
  "walk_groups lim size_so_far prev last_boundary [] = (last_boundary, [])"
| "walk_groups lim size_so_far prev last_boundary (e # next) =
     (case e of
        Undo_Boundary \<Rightarrow>
          if ul_strong_limit lim < size_so_far then (last_boundary, e # next)
          else if ul_limit lim < size_so_far then (prev, e # next)
          else walk_groups lim (size_so_far + undo_element_bytes e) (prev + 1) prev next
      | _ \<Rightarrow> walk_groups lim (size_so_far + undo_element_bytes e) (prev + 1) last_boundary next)"

definition truncate_undo_list :: "'v undo_limits \<Rightarrow> ('p, 'v) undo_entry list \<Rightarrow> ('p, 'v) undo_entry list" where
  "truncate_undo_list lim es =
     (case skip_boundary es of (size_so_far, prev, next) \<Rightarrow>
      case walk_first_group size_so_far prev next of (size_so_far, prev, next) \<Rightarrow>
        let last_boundary = (if next \<noteq> [] then prev else 0)
        in case walk_groups lim size_so_far prev last_boundary next of (last_boundary, next) \<Rightarrow>
          if next = [] then es
          else if last_boundary \<noteq> 0 then take last_boundary es
          else [])"

subsection \<open>What truncation keeps\<close>

definition undo_bytes :: "('p, 'v) undo_entry list \<Rightarrow> int" where
  "undo_bytes es = sum_list (map undo_element_bytes es)"

text \<open>How many records the newest command takes, with the boundary in front of it.\<close>

definition first_group_len :: "('p, 'v) undo_entry list \<Rightarrow> nat" where
  "first_group_len es =
     (case skip_boundary es of (_, prev, next) \<Rightarrow> prev + length (takeWhile (\<lambda>e. e \<noteq> Undo_Boundary) next))"

lemma undo_bytes_simps [simp]:
  "undo_bytes [] = 0" "undo_bytes (e # es) = undo_element_bytes e + undo_bytes es"
  "undo_bytes (xs @ ys) = undo_bytes xs + undo_bytes ys"
  by (simp_all add: undo_bytes_def)

lemma undo_bytes_boundary [simp]: "undo_element_bytes Undo_Boundary = GNU_CONS_BYTES"
  by (simp add: undo_element_bytes_def)

lemma walk_first_group_eq:
  "walk_first_group sz prev es =
     (sz + undo_bytes (takeWhile (\<lambda>e. e \<noteq> Undo_Boundary) es), prev + length (takeWhile (\<lambda>e. e \<noteq> Undo_Boundary) es),
      dropWhile (\<lambda>e. e \<noteq> Undo_Boundary) es)"
  by (induction es arbitrary: sz prev) (auto split: undo_entry.split)

lemma skip_boundary_eq:
  "skip_boundary es = (undo_bytes (take n es), n, drop n es)"
  if "n = (case es of Undo_Boundary # _ \<Rightarrow> 1 | _ \<Rightarrow> 0)"
  using that by (cases es rule: skip_boundary.cases) auto

lemma first_group_eq:
  fixes es :: "('p, 'v) undo_entry list"
  defines "n \<equiv> first_group_len es"
  shows "(case skip_boundary es of (sz, prev, next) \<Rightarrow> walk_first_group sz prev next) = (undo_bytes (take n es), n, drop n es)"
    "drop n es \<noteq> [] \<Longrightarrow> es ! n = Undo_Boundary \<and> 0 < n"
proof -
  define k where "k = (case es of Undo_Boundary # _ \<Rightarrow> 1 | _ \<Rightarrow> (0::nat))"
  let ?g = "takeWhile (\<lambda>e. e \<noteq> Undo_Boundary) (drop k es)"
  have sk: "skip_boundary es = (undo_bytes (take k es), k, drop k es)" by (rule skip_boundary_eq [OF k_def])
  have n: "n = k + length ?g" by (simp add: n_def first_group_len_def sk)
  have tk: "take n es = take k es @ ?g"
    by (simp add: n take_add takeWhile_eq_take [symmetric])
  have dr: "drop n es = dropWhile (\<lambda>e. e \<noteq> Undo_Boundary) (drop k es)"
    by (simp add: n dropWhile_eq_drop add.commute)
  show "(case skip_boundary es of (sz, prev, next) \<Rightarrow> walk_first_group sz prev next) = (undo_bytes (take n es), n, drop n es)"
    by (simp only: sk prod.case walk_first_group_eq n [symmetric] dr [symmetric] tk undo_bytes_simps)
  assume "drop n es \<noteq> []"
  then have "es ! n = Undo_Boundary" using hd_dropWhile [of "\<lambda>e. e \<noteq> Undo_Boundary" "drop k es"]
    by (simp add: dr [symmetric] hd_drop_conv_nth)
  moreover have "0 < n"
  proof (rule ccontr)
    assume "\<not> 0 < n"
    then have "n = 0" "k = 0" using n by auto
    then show False using \<open>es ! n = Undo_Boundary\<close> \<open>drop n es \<noteq> []\<close> by (cases es) (auto simp: k_def)
  qed
  ultimately show "es ! n = Undo_Boundary \<and> 0 < n" by blast
qed

lemma list_drop_Cons: "drop n xs = y # ys \<Longrightarrow> n < length xs \<and> xs ! n = y \<and> ys = drop (Suc n) xs"
  by (metis Cons_nth_drop_Suc drop_eq_Nil leI list.distinct(1) list.inject)

text \<open>A place where truncation may cut.\<close>

definition cut_ok :: "'v undo_limits \<Rightarrow> ('p, 'v) undo_entry list \<Rightarrow> nat \<Rightarrow> bool" where
  "cut_ok lim es n \<longleftrightarrow> first_group_len es \<le> n \<and> n < length es \<and> es ! n = Undo_Boundary
     \<and> (n = first_group_len es \<or> undo_bytes (take n es) \<le> ul_strong_limit lim)"

lemma walk_groups_cut:
  assumes "first_group_len es \<le> prev" "next = drop prev es" "sz = undo_bytes (take prev es)" "next \<noteq> [] \<Longrightarrow> cut_ok lim es lb"
    "walk_groups lim sz prev lb next = (lb', next')" "next' \<noteq> []"
  shows "cut_ok lim es lb'"
  using assms
proof (induction lim sz prev lb "next" rule: walk_groups.induct)
  case (2 lim sz prev lb e "next")
  have prev: "prev < length es" "es ! prev = e" "next = drop (Suc prev) es"
    using list_drop_Cons [OF "2.prems"(2) [symmetric]] by simp_all
  have sz: "sz + undo_element_bytes e = undo_bytes (take (prev + 1) es)"
    using prev "2.prems"(3) by (simp add: take_Suc_conv_app_nth)
  have w: "walk_groups lim sz prev lb (e # next) = (lb', next')" and lb: "cut_ok lim es lb"
    using "2.prems"(4,5) by auto
  have next_ok: "first_group_len es \<le> prev + 1" "next = drop (prev + 1) es" "sz + undo_element_bytes e = undo_bytes (take (prev + 1) es)"
    using "2.prems"(1) prev(3) sz by simp_all
  show ?case
  proof (cases "e = Undo_Boundary")
    case True
    have here: "ul_strong_limit lim < sz \<or> cut_ok lim es prev"
      using "2.prems"(1,3) prev True by (auto simp: cut_ok_def)
    consider "ul_strong_limit lim < sz" | "\<not> ul_strong_limit lim < sz" "ul_limit lim < sz"
      | "\<not> ul_strong_limit lim < sz" "\<not> ul_limit lim < sz" by blast
    then show ?thesis
    proof cases
      case 1
      then show ?thesis using w lb True by simp
    next
      case 2
      then show ?thesis using w here True by simp
    next
      case 3
      then show ?thesis using "2.IH"(1) [OF True 3 next_ok(1,2,3)] w here True "2.prems"(6) by simp
    qed
  next
    case False
    then have "walk_groups lim (sz + undo_element_bytes e) (prev + 1) lb next = (lb', next')"
      using w by (cases e) simp_all
    then show ?thesis using "2.IH"(2-) [OF _ next_ok(1,2,3) lb _ "2.prems"(6)] False by (cases e) simp_all
  qed
qed simp

text \<open>
  Where truncation may cut: in front of a boundary that ends a command's records, the newest
  command's or an older one's. The reference for the cut reads the whole list: nothing is dropped
  while every end is within the limits; otherwise the cut is at the first end that is not, or, when
  even \<open>undo-strong-limit\<close> is exceeded there, at the end before it, if there is one.
\<close>

definition group_ends :: "('p, 'v) undo_entry list \<Rightarrow> nat list" where
  "group_ends es = filter (\<lambda>k. es ! k = Undo_Boundary) [first_group_len es..<length es]"

definition over_limit :: "'v undo_limits \<Rightarrow> ('p, 'v) undo_entry list \<Rightarrow> nat \<Rightarrow> bool" where
  "over_limit lim es k \<longleftrightarrow> ul_strong_limit lim < undo_bytes (take k es) \<or> ul_limit lim < undo_bytes (take k es)"

definition truncation_cut :: "'v undo_limits \<Rightarrow> ('p, 'v) undo_entry list \<Rightarrow> nat option" where
  "truncation_cut lim es =
     (case find (over_limit lim es) (group_ends es) of
        None \<Rightarrow> None
      | Some k \<Rightarrow>
          let earlier = filter (\<lambda>j. j < k) (group_ends es)
          in Some (if ul_strong_limit lim < undo_bytes (take k es) \<and> earlier \<noteq> [] then last earlier else k))"

lemma find_Some_mem: "find P xs = Some x \<Longrightarrow> x \<in> set xs"
  by (auto simp: find_Some_iff)

lemma walk_groups_exact:
  assumes "next = drop prev es" "sz = undo_bytes (take prev es)"
  defines "ks \<equiv> filter (\<lambda>k. es ! k = Undo_Boundary) [prev..<length es]"
  shows "walk_groups lim sz prev lb next =
    (case find (over_limit lim es) ks of
       None \<Rightarrow> (last (lb # ks), [])
     | Some k \<Rightarrow> (if ul_strong_limit lim < undo_bytes (take k es) then last (lb # filter (\<lambda>j. j < k) ks) else k, drop k es))"
  using assms(1,2) unfolding ks_def
proof (induction lim sz prev lb "next" rule: walk_groups.induct)
  case (1 lim sz prev lb)
  then show ?case by simp
next
  case (2 lim sz prev lb e "next")
  have prev: "prev < length es" "es ! prev = e" "next = drop (prev + 1) es"
    using list_drop_Cons [OF "2.prems"(1) [symmetric]] by simp_all
  have sz: "sz + undo_element_bytes e = undo_bytes (take (prev + 1) es)"
    using prev "2.prems"(2) by (simp add: take_Suc_conv_app_nth)
  let ?ks = "filter (\<lambda>k. es ! k = Undo_Boundary) [prev + 1..<length es]"
  have up: "[prev..<length es] = prev # [prev + 1..<length es]" using prev(1) by (simp add: upt_conv_Cons)
  have later: "prev < k" if "find (over_limit lim es) ?ks = Some k" for k
    using find_Some_mem [OF that] by simp
  show ?case
  proof (cases "e = Undo_Boundary")
    case True
    have ks: "filter (\<lambda>k. es ! k = Undo_Boundary) [prev..<length es] = prev # ?ks" using True prev(2) by (simp add: up)
    have dr: "drop prev es = Undo_Boundary # next" using "2.prems"(1) True by simp
    have over: "over_limit lim es prev \<longleftrightarrow> ul_strong_limit lim < sz \<or> ul_limit lim < sz"
      using "2.prems"(2) by (simp add: over_limit_def)
    consider "ul_strong_limit lim < sz" | "\<not> ul_strong_limit lim < sz" "ul_limit lim < sz"
      | "\<not> ul_strong_limit lim < sz" "\<not> ul_limit lim < sz" by blast
    then show ?thesis
    proof cases
      case 3
      then have "walk_groups lim sz prev lb (e # next) = walk_groups lim (sz + undo_element_bytes e) (prev + 1) prev next"
        using True by simp
      then show ?thesis
        using "2.IH"(1) [OF True 3 prev(3) sz] 3 over later by (auto simp: ks split: option.split)
    qed (use True "2.prems"(2) dr over ks in \<open>simp_all add: filter_False\<close>)
  next
    case False
    have w: "walk_groups lim sz prev lb (e # next) = walk_groups lim (sz + undo_element_bytes e) (prev + 1) lb next"
      using False by (cases e) simp_all
    have ks: "filter (\<lambda>k. es ! k = Undo_Boundary) [prev..<length es] = ?ks" using False prev(2) by (simp add: up)
    have ih: "walk_groups lim (sz + undo_element_bytes e) (prev + 1) lb next =
      (case find (over_limit lim es) ?ks of
         None \<Rightarrow> (last (lb # ?ks), [])
       | Some k \<Rightarrow> (if ul_strong_limit lim < undo_bytes (take k es) then last (lb # filter (\<lambda>j. j < k) ?ks) else k, drop k es))"
      using False by (cases e) (rule "2.IH"(2-) [OF _ prev(3) sz] | simp)+
    show ?thesis unfolding w ks by (rule ih)
  qed
qed

lemma truncate_cut_whole:
  "truncate_undo_list lim es = es
     \<or> (\<exists>n. first_group_len es \<le> n \<and> n < length es \<and> es ! n = Undo_Boundary
          \<and> truncate_undo_list lim es = take n es
          \<and> (n = first_group_len es \<or> undo_bytes (take n es) \<le> ul_strong_limit lim))"
proof -
  let ?n = "first_group_len es"
  obtain sz prev "next" where sk: "skip_boundary es = (sz, prev, next)" by (metis prod_cases3)
  have fg: "walk_first_group sz prev next = (undo_bytes (take ?n es), ?n, drop ?n es)"
    using first_group_eq(1) [of es] sk by simp
  let ?lb = "if drop ?n es \<noteq> [] then ?n else 0"
  obtain lb' next' where w: "walk_groups lim (undo_bytes (take ?n es)) ?n ?lb (drop ?n es) = (lb', next')"
    by (metis prod.exhaust)
  have tr: "truncate_undo_list lim es = (if next' = [] then es else if lb' \<noteq> 0 then take lb' es else [])"
    using sk fg w by (simp add: truncate_undo_list_def Let_def)
  show ?thesis
  proof (cases "next' = []")
    case False
    have "drop ?n es \<noteq> []" using w False by (cases "drop ?n es") auto
    moreover have "cut_ok lim es ?n" if "drop ?n es \<noteq> []"
      using that first_group_eq(2) [of es] by (simp add: cut_ok_def)
    ultimately have "cut_ok lim es lb'" "0 < ?n"
      using walk_groups_cut [OF order_refl refl refl _ w False] first_group_eq(2) [of es] by auto
    then show ?thesis using tr False by (auto simp: cut_ok_def)
  qed (simp add: tr)
qed

lemma truncate_at_cut:
  "truncate_undo_list lim es = (case truncation_cut lim es of None \<Rightarrow> es | Some n \<Rightarrow> take n es)"
proof -
  let ?n = "first_group_len es"
  obtain sz prev "next" where sk: "skip_boundary es = (sz, prev, next)" by (metis prod_cases3)
  have fg: "walk_first_group sz prev next = (undo_bytes (take ?n es), ?n, drop ?n es)"
    using first_group_eq(1) [of es] sk by simp
  let ?lb = "if drop ?n es \<noteq> [] then ?n else 0"
  note w = walk_groups_exact [OF refl refl, where lim = lim and lb = ?lb and prev = ?n and es = es, folded group_ends_def]
  show ?thesis
  proof (cases "find (over_limit lim es) (group_ends es)")
    case None
    then show ?thesis using sk fg w by (simp add: truncate_undo_list_def Let_def truncation_cut_def)
  next
    case (Some k)
    have k: "?n \<le> k" "k < length es" "k \<in> set (group_ends es)"
      using find_Some_mem [OF Some] by (auto simp: group_ends_def)
    have n: "es ! ?n = Undo_Boundary" "0 < ?n" using first_group_eq(2) [of es] k by auto
    have ends: "group_ends es = ?n # filter (\<lambda>k. es ! k = Undo_Boundary) [?n + 1..<length es]"
      using k n by (simp add: group_ends_def upt_conv_Cons)
    have lb: "?lb = ?n" using k by simp
    let ?e = "filter (\<lambda>j. j < k) (group_ends es)"
    have "last (?lb # ?e) = (if ?e \<noteq> [] then last ?e else k)"
    proof (cases "?e = []")
      case True
      then have "k = ?n" using k(1) by (auto simp: ends split: if_splits)
      then show ?thesis using True lb by simp
    qed simp
    moreover have "last (?lb # ?e) \<noteq> 0" "k \<noteq> 0"
      using n k(1) lb last_in_set [of "?lb # ?e"] by (auto simp: group_ends_def)
    ultimately show ?thesis using sk fg w Some k(2)
      by (simp add: truncate_undo_list_def Let_def truncation_cut_def del: last.simps)
  qed
qed

text \<open>C23: truncation of an undo list, against a reference that reads the whole list. While the
  records up to every command's end are within both limits, nothing is dropped. Otherwise the list
  is cut in front of the boundary at the first end that exceeds a limit, or, if it exceeds
  \<open>undo-strong-limit\<close> and an earlier end fits, at the last earlier end. So no command loses only part
  of its records, the records of the newest command are always kept, and if more is kept then what is
  kept is within \<open>undo-strong-limit\<close>.\<close>

theorem truncate_keeps_whole_groups:
  "truncate_undo_list lim es = (case truncation_cut lim es of None \<Rightarrow> es | Some n \<Rightarrow> take n es)
     \<and> (truncate_undo_list lim es = es
     \<or> (\<exists>n. first_group_len es \<le> n \<and> n < length es \<and> es ! n = Undo_Boundary
          \<and> truncate_undo_list lim es = take n es
          \<and> (n = first_group_len es \<or> undo_bytes (take n es) \<le> ul_strong_limit lim)))"
  using truncate_at_cut [of lim es] truncate_cut_whole [of lim es] by blast


subsection \<open>What undoing a record does to the text\<close>

text \<open>
  The effect of \<open>primitive-undo\<close> on the text of a buffer that is not narrowed. A record whose
  positions are outside the text is an error; records that do not concern the text leave it alone.
  A deleted string has the representation of the buffer it was deleted from.
\<close>

definition lisp_pos_byte :: "bool \<Rightarrow> bytes \<Rightarrow> int \<Rightarrow> nat" where
  "lisp_pos_byte mb tx p = emacs_char_to_byte_in_slice tx (char_pos0_from_lisp p) mb"

definition lisp_pos_in :: "bool \<Rightarrow> bytes \<Rightarrow> int \<Rightarrow> bool" where
  "lisp_pos_in mb tx p \<longleftrightarrow> 1 \<le> p \<and> p \<le> int (emacs_char_count_bytes tx mb) + 1"

fun undo_entry_text :: "bool \<Rightarrow> ('p, 'v) undo_entry \<Rightarrow> bytes \<Rightarrow> bytes option" where
  "undo_entry_text mb (Undo_Insert b e) tx =
     (if lisp_pos_in mb tx b \<and> lisp_pos_in mb tx e \<and> b \<le> e
      then Some (delete_range (lisp_pos_byte mb tx b) (lisp_pos_byte mb tx e) tx) else None)"
| "undo_entry_text mb (Undo_Delete str p) tx =
     (if lisp_pos_in mb tx \<bar>p\<bar> \<and> ls_multibyte str = mb
      then Some (insert_at (lisp_pos_byte mb tx \<bar>p\<bar>) (ls_bytes str) tx) else None)"
| "undo_entry_text mb _ tx = Some tx"

fun undo_entries_text :: "bool \<Rightarrow> ('p, 'v) undo_entry list \<Rightarrow> bytes \<Rightarrow> bytes option" where
  "undo_entries_text mb [] tx = Some tx"
| "undo_entries_text mb (e # es) tx = Option.bind (undo_entry_text mb e tx) (undo_entries_text mb es)"

text \<open>The whole list, replayed on \<open>tx\<close>, gives \<open>tx0\<close>; a disabled list promises nothing.\<close>

fun undo_restores :: "bool \<Rightarrow> bytes \<Rightarrow> ('p, 'v) undo_list \<Rightarrow> bytes \<Rightarrow> bool" where
  "undo_restores mb tx0 (Undo_List es) tx \<longleftrightarrow> undo_entries_text mb es tx = Some tx0"
| "undo_restores mb tx0 Undo_T tx \<longleftrightarrow> True"

lemma lisp_pos_offset:
  assumes "lead_ok mb tx" "char_offset mb tx c k"
  shows "lisp_pos_byte mb tx (int c + 1) = k" "lisp_pos_in mb tx (int c + 1)"
proof -
  have c: "c \<le> emacs_char_count_bytes tx mb" using char_offset_le [OF assms(2)] by blast
  have "char_pos0_from_lisp (int c + 1) = c" by (simp add: char_pos0_from_lisp_def)
  then show "lisp_pos_byte mb tx (int c + 1) = k"
    unfolding lisp_pos_byte_def
    using char_offset_unique [OF assms(1) emacs_char_to_byte_in_slice_offset [OF c] assms(2)] by simp
  show "lisp_pos_in mb tx (int c + 1)" using c by (simp add: lisp_pos_in_def)
qed

lemma lisp_pos_offset_ex:
  assumes "lisp_pos_in mb tx p"
  obtains c k where "p = int c + 1" "char_offset mb tx c k"
proof -
  have "char_pos0_from_lisp p \<le> emacs_char_count_bytes tx mb"
    using assms by (auto simp: lisp_pos_in_def char_pos0_from_lisp_def)
  then have "char_offset mb tx (char_pos0_from_lisp p) (emacs_char_to_byte_in_slice tx (char_pos0_from_lisp p) mb)"
    by (rule emacs_char_to_byte_in_slice_offset)
  moreover have "p = int (char_pos0_from_lisp p) + 1"
    using assms by (auto simp: lisp_pos_in_def char_pos0_from_lisp_def)
  ultimately show thesis using that by blast
qed

text \<open>Undoing an insertion, also one that was merged with the insertion in front of it.\<close>

lemma undo_insert_entry:
  assumes ok: "lead_ok mb tx" "lead_ok mb bs" and a: "char_offset mb tx a j" and c: "char_offset mb tx c k" and le: "a \<le> c"
  shows "undo_entry_text mb (Undo_Insert (int a + 1) (int c + int (emacs_char_count_bytes bs mb) + 1)) (insert_at k bs tx)
    = Some (delete_range j k tx)"
proof -
  let ?t = "insert_at k bs tx"
  have bd: "is_emacs_char_boundary tx k mb" and jk: "j \<le> k" "k \<le> length tx"
    using c a le char_offset_mono(2) [OF ok(1) a c] char_offset_le [OF c] by (auto simp: char_offset_def)
  have t: "lead_ok mb ?t" by (rule lead_ok_insert [OF bd ok])
  have "char_offset mb ?t a j" by (rule char_offset_insert_before [OF bd ok a jk(1)])
  moreover have "char_offset mb ?t (c + emacs_char_count_bytes bs mb) (k + length bs)"
    by (rule char_offset_insert_after [OF bd ok(1) c order_refl])
  ultimately have p: "lisp_pos_byte mb ?t (int a + 1) = j" "lisp_pos_in mb ?t (int a + 1)"
    "lisp_pos_byte mb ?t (int (c + emacs_char_count_bytes bs mb) + 1) = k + length bs"
    "lisp_pos_in mb ?t (int (c + emacs_char_count_bytes bs mb) + 1)"
    using lisp_pos_offset [OF t] by blast+
  have "delete_range j (k + length bs) ?t = delete_range j k tx"
    using jk by (simp add: delete_range_def insert_at_def min_absorb1)
  then show ?thesis using p le by simp
qed

lemma record_insert_restores:
  assumes "undo_restores mb tx0 ul tx" "char_offset mb tx c k" "lead_ok mb tx" "lead_ok mb bs" "n = emacs_char_count_bytes bs mb"
  shows "undo_restores mb tx0 (undo_list_record_insert c n ul) (insert_at k bs tx)"
proof (cases ul)
  case (Undo_List es)
  show ?thesis
  proof (cases "merges_into_head (int c + 1) ul")
    case True
    then obtain b rest where es: "es = Undo_Insert b (int c + 1) # rest"
      using Undo_List by (auto elim!: merges_into_head.elims)
    have h: "lisp_pos_in mb tx b" "b \<le> int c + 1"
      "undo_entries_text mb rest (delete_range (lisp_pos_byte mb tx b) (lisp_pos_byte mb tx (int c + 1)) tx) = Some tx0"
      using assms(1) Undo_List es by (auto split: if_splits)
    obtain a j where a: "b = int a + 1" "char_offset mb tx a j" by (rule lisp_pos_offset_ex [OF h(1)])
    have "undo_entries_text mb rest (delete_range j k tx) = Some tx0"
      using h(3) lisp_pos_offset(1) [OF assms(3)] a assms(2) by simp
    moreover have "undo_list_record_insert c n ul = Undo_List (Undo_Insert (int a + 1) (int (c + n) + 1) # rest)"
      using Undo_List es a True
      by (simp add: undo_list_record_insert_def undo_list_is_disabled_def char_pos0_to_lisp_def add_ac)
    ultimately show ?thesis
      using h(2) a(1)
      by (simp add: assms(5) undo_insert_entry [OF assms(3,4) a(2) assms(2)] del: undo_entry_text.simps)
  next
    case False
    then have "undo_list_record_insert c n ul = Undo_List (Undo_Insert (int c + 1) (int (c + n) + 1) # es)"
      using Undo_List
      by (simp add: undo_list_record_insert_def undo_list_is_disabled_def char_pos0_to_lisp_def Let_def)
    then show ?thesis
      using assms(1) Undo_List
      by (simp add: assms(5) undo_insert_entry [OF assms(3,4,2,2) order_refl] del: undo_entry_text.simps)
  qed
qed (simp add: undo_list_record_insert_def undo_list_is_disabled_def)

lemma record_delete_restores:
  assumes "undo_restores mb tx0 ul tx" "char_offset mb tx c i" "char_offset mb tx d j" "i \<le> j" "lead_ok mb tx"
    and str: "ls_bytes str = sub_list i j tx" "ls_multibyte str = mb"
  shows "undo_restores mb tx0 (undo_list_record_delete c str pt ul) (delete_range i j tx)"
proof (cases ul)
  case (Undo_List es)
  let ?t = "delete_range i j tx"
  have bd: "is_emacs_char_boundary tx i mb" "is_emacs_char_boundary tx j mb" and j: "j \<le> length tx"
    using assms(2,3) char_offset_le [OF assms(3)] by (auto simp: char_offset_def)
  have "lead_ok mb ?t" by (rule lead_ok_delete [OF bd(2) assms(5)])
  moreover have "char_offset mb ?t c i" by (rule char_offset_delete_before [OF bd assms(5,2) order_refl])
  ultimately have "lisp_pos_byte mb ?t (int c + 1) = i" "lisp_pos_in mb ?t (int c + 1)"
    using lisp_pos_offset by blast+
  moreover have "\<exists>p. undo_list_record_delete c str pt ul = Undo_List (Undo_Delete str p # es) \<and> \<bar>p\<bar> = int c + 1"
    using Undo_List by (simp add: undo_list_record_delete_def undo_list_is_disabled_def char_pos0_to_lisp_def Let_def)
  ultimately show ?thesis
    using assms(1) Undo_List str insert_delete_cancel [OF assms(4) j] by auto
qed (simp add: undo_list_record_delete_def undo_list_is_disabled_def)

text \<open>The other records do not concern the text.\<close>

lemma other_records_restore:
  assumes "undo_restores mb tx0 ul tx"
  shows "undo_restores mb tx0 (undo_list_record_marker_adjustment m adj ul) tx"
    "undo_restores mb tx0 (undo_list_record_point pt ul) tx"
    "undo_restores mb tx0 (undo_list_record_property_change prop val r ul) tx"
    "undo_restores mb tx0 (undo_list_record_first_change modtime ul) tx"
    "undo_restores mb tx0 (undo_list_boundary ul) tx"
  using assms
  by (cases ul; simp add: undo_list_record_marker_adjustment_def undo_list_record_point_def
      undo_list_record_property_change_def undo_list_record_first_change_def undo_list_boundary_def
      undo_list_is_disabled_def Let_def)+


end
