(* ===== verification/Edit_State.thy ===== *)
theory Edit_State
  imports Text_Backend_Spec
begin

text \<open>
  The bookkeeping of an edit that does not depend on the storage: point and the accessible region of
  a buffer after an insertion, a deletion or a replacement, for the edited buffer and for the
  buffers that share its text (\<open>src/crates/neovm-core/src/buffer/edit_transaction.rs\<close>), the
  modification ticks and the count of unchanged characters at both ends that redisplay uses
  (\<open>buffer_text.rs\<close>).

  Ticks and character counts are \<open>i64\<close> in the code and integers here; \<open>I64_MAX\<close> is the value that
  stands for "unchanged". The shift of a position panics on underflow, so the state after an edit
  is an option.
\<close>

subsection \<open>Policies\<close>

datatype insert_marker_adjustment = ByInsertionType | StrictAfter

datatype insert_marker_placement = AfterMarkers | BeforeMarkers

definition before_markers :: "insert_marker_placement \<Rightarrow> bool" where
  "before_markers p \<longleftrightarrow> (case p of BeforeMarkers \<Rightarrow> True | AfterMarkers \<Rightarrow> False)"

datatype shared_buffer_state_update = UpdateFields | RefreshFromStateMarkers

datatype state_field_update_policy = Update | Skip

definition from_shared_update :: "shared_buffer_state_update \<Rightarrow> state_field_update_policy" where
  "from_shared_update u = (case u of UpdateFields \<Rightarrow> Update | RefreshFromStateMarkers \<Rightarrow> Skip)"

definition update_state_fields :: "state_field_update_policy \<Rightarrow> bool" where
  "update_state_fields p \<longleftrightarrow> (case p of Update \<Rightarrow> True | Skip \<Rightarrow> False)"

datatype accessible_start_update_policy = Preserve | ShiftAfterEdit

definition shift_after_edit :: "accessible_start_update_policy \<Rightarrow> bool" where
  "shift_after_edit p \<longleftrightarrow> (case p of ShiftAfterEdit \<Rightarrow> True | Preserve \<Rightarrow> False)"

datatype insert_point_update_policy = AdvanceAtInsertion | StayBeforeInsertion

definition advance_point_at_insertion :: "insert_point_update_policy \<Rightarrow> bool" where
  "advance_point_at_insertion p \<longleftrightarrow> (case p of AdvanceAtInsertion \<Rightarrow> True | StayBeforeInsertion \<Rightarrow> False)"

datatype shared_text_side_data_policy = AdjustInThisBuffer | AlreadyAdjustedInSharedText

definition adjust_in_this_buffer :: "shared_text_side_data_policy \<Rightarrow> bool" where
  "adjust_in_this_buffer p \<longleftrightarrow> (case p of AdjustInThisBuffer \<Rightarrow> True | AlreadyAdjustedInSharedText \<Rightarrow> False)"

datatype same_len_modified_state_policy = RecordChange | PreserveUnmodifiedIfClean

definition preserve_unmodified_if_clean :: "same_len_modified_state_policy \<Rightarrow> bool" where
  "preserve_unmodified_if_clean p \<longleftrightarrow> (case p of PreserveUnmodifiedIfClean \<Rightarrow> True | RecordChange \<Rightarrow> False)"

record insert_policy =
  ip_state_fields :: state_field_update_policy
  ip_accessible_start :: accessible_start_update_policy
  ip_point_at_insertion :: insert_point_update_policy
  ip_shared_side_data :: shared_text_side_data_policy

definition insert_policy_current :: insert_policy where
  "insert_policy_current = \<lparr>ip_state_fields = Update, ip_accessible_start = Preserve,
     ip_point_at_insertion = AdvanceAtInsertion, ip_shared_side_data = AdjustInThisBuffer\<rparr>"

definition insert_policy_shared :: "shared_buffer_state_update \<Rightarrow> insert_policy" where
  "insert_policy_shared u = \<lparr>ip_state_fields = from_shared_update u, ip_accessible_start = ShiftAfterEdit,
     ip_point_at_insertion = StayBeforeInsertion, ip_shared_side_data = AlreadyAdjustedInSharedText\<rparr>"

record delete_policy =
  dp_state_fields :: state_field_update_policy
  dp_accessible_start :: accessible_start_update_policy
  dp_shared_side_data :: shared_text_side_data_policy

definition delete_policy_current :: delete_policy where
  "delete_policy_current = \<lparr>dp_state_fields = Update, dp_accessible_start = Preserve,
     dp_shared_side_data = AdjustInThisBuffer\<rparr>"

definition delete_policy_shared :: "shared_buffer_state_update \<Rightarrow> delete_policy" where
  "delete_policy_shared u = \<lparr>dp_state_fields = from_shared_update u, dp_accessible_start = ShiftAfterEdit,
     dp_shared_side_data = AlreadyAdjustedInSharedText\<rparr>"

record replace_policy =
  rp_state_fields :: state_field_update_policy
  rp_shared_side_data :: shared_text_side_data_policy

definition replace_policy_current :: replace_policy where
  "replace_policy_current = \<lparr>rp_state_fields = Update, rp_shared_side_data = AdjustInThisBuffer\<rparr>"

definition replace_policy_shared :: "shared_buffer_state_update \<Rightarrow> replace_policy" where
  "replace_policy_shared u = \<lparr>rp_state_fields = from_shared_update u, rp_shared_side_data = AlreadyAdjustedInSharedText\<rparr>"

subsection \<open>Point and the accessible region\<close>

record buffer_edit_state =
  es_point :: text_position_anchor
  es_begv :: text_position_anchor
  es_zv :: text_position_anchor

definition anchor_byte_gt :: "text_position_anchor \<Rightarrow> text_position_anchor \<Rightarrow> bool" where
  "anchor_byte_gt a b \<longleftrightarrow> ta_byte b < ta_byte a"

definition anchor_byte_ge :: "text_position_anchor \<Rightarrow> text_position_anchor \<Rightarrow> bool" where
  "anchor_byte_ge a b \<longleftrightarrow> ta_byte b \<le> ta_byte a"

definition anchor_byte_eq :: "text_position_anchor \<Rightarrow> text_position_anchor \<Rightarrow> bool" where
  "anchor_byte_eq a b \<longleftrightarrow> ta_byte a = ta_byte b"

definition move_after_insert :: "text_position_anchor \<Rightarrow> text_insertion \<Rightarrow> bool \<Rightarrow> text_position_anchor option" where
  "move_after_insert p ins move_at_insertion =
     (let start = insertion_start_anchor ins
      in if anchor_byte_gt p start \<or> move_at_insertion \<and> anchor_byte_eq p start
         then apply_to_anchor (extent_delta_insertion (ti_extent ins)) p
         else Some p)"

definition move_after_delete :: "text_position_anchor \<Rightarrow> text_edit_range \<Rightarrow> bool \<Rightarrow> text_position_anchor option" where
  "move_after_delete p r move_at_end =
     (let start = edit_range_start_anchor r; stop = edit_range_end_anchor r
      in if anchor_byte_gt p stop \<or> move_at_end \<and> anchor_byte_eq p stop
         then apply_to_anchor (extent_delta_deletion (edit_range_extent r)) p
         else if anchor_byte_gt p start then Some start
         else Some p)"

definition move_after_replace_for_point :: "text_position_anchor \<Rightarrow> text_replacement \<Rightarrow> text_position_anchor option" where
  "move_after_replace_for_point p rep =
     (let r = tr_old rep; start = edit_range_start_anchor r; stop = edit_range_end_anchor r
      in if anchor_byte_gt p start \<and> ta_byte p < ta_byte stop \<or> anchor_byte_eq p stop
         then apply_to_anchor (extent_delta_insertion (tr_new rep)) start
         else if anchor_byte_gt p stop
         then apply_to_anchor (extent_delta_replacement (edit_range_extent r) (tr_new rep)) p
         else Some p)"

definition move_after_replace_for_begv :: "text_position_anchor \<Rightarrow> text_replacement \<Rightarrow> text_position_anchor option" where
  "move_after_replace_for_begv p rep =
     (let r = tr_old rep; start = edit_range_start_anchor r; stop = edit_range_end_anchor r
      in if anchor_byte_gt p stop
         then apply_to_anchor (extent_delta_replacement (edit_range_extent r) (tr_new rep)) p
         else if anchor_byte_gt p start then Some start
         else Some p)"

definition move_after_replace_for_zv :: "text_position_anchor \<Rightarrow> text_replacement \<Rightarrow> text_position_anchor option" where
  "move_after_replace_for_zv p rep =
     (let r = tr_old rep; start = edit_range_start_anchor r; stop = edit_range_end_anchor r
      in if anchor_byte_ge p stop
         then apply_to_anchor (extent_delta_replacement (edit_range_extent r) (tr_new rep)) p
         else if anchor_byte_gt p start then apply_to_anchor (extent_delta_insertion (tr_new rep)) start
         else Some p)"

definition replace_state_after_edit :: "buffer_edit_state \<Rightarrow> text_replacement \<Rightarrow> buffer_edit_state option" where
  "replace_state_after_edit st rep = do {
     p \<leftarrow> move_after_replace_for_point (es_point st) rep;
     b \<leftarrow> move_after_replace_for_begv (es_begv st) rep;
     z \<leftarrow> move_after_replace_for_zv (es_zv st) rep;
     Some \<lparr>es_point = p, es_begv = b, es_zv = z\<rparr>
   }"

definition insert_state_after_edit ::
    "buffer_edit_state \<Rightarrow> text_insertion \<Rightarrow> insert_policy \<Rightarrow> buffer_edit_state option" where
  "insert_state_after_edit st ins policy =
     (if \<not> update_state_fields (ip_state_fields policy) then Some st
      else do {
        p \<leftarrow> move_after_insert (es_point st) ins (advance_point_at_insertion (ip_point_at_insertion policy));
        b \<leftarrow> (if shift_after_edit (ip_accessible_start policy) then move_after_insert (es_begv st) ins False else Some (es_begv st));
        z \<leftarrow> move_after_insert (es_zv st) ins True;
        Some \<lparr>es_point = p, es_begv = b, es_zv = z\<rparr>
      })"

definition delete_state_after_edit ::
    "buffer_edit_state \<Rightarrow> text_edit_range \<Rightarrow> delete_policy \<Rightarrow> buffer_edit_state option" where
  "delete_state_after_edit st r policy =
     (if \<not> update_state_fields (dp_state_fields policy) then Some st
      else do {
        p \<leftarrow> move_after_delete (es_point st) r True;
        b \<leftarrow> (if shift_after_edit (dp_accessible_start policy) then move_after_delete (es_begv st) r True else Some (es_begv st));
        z \<leftarrow> move_after_delete (es_zv st) r True;
        Some \<lparr>es_point = p, es_begv = b, es_zv = z\<rparr>
      })"

definition replace_state_after :: "text_replacement \<Rightarrow> buffer_edit_state \<Rightarrow> replace_policy \<Rightarrow> buffer_edit_state option" where
  "replace_state_after rep st policy =
     (if update_state_fields (rp_state_fields policy) then replace_state_after_edit st rep else Some st)"

subsection \<open>Modification ticks and the unchanged ends\<close>

definition I64_MAX :: int where
  "I64_MAX = 2 ^ 63 - 1"

record text_changes =
  tc_modified_tick :: int
  tc_chars_modified_tick :: int
  tc_props_modified_tick :: int
  tc_beg_unchanged :: int
  tc_end_unchanged :: int
  tc_prop_beg_unchanged :: int
  tc_save_modified_tick :: int

definition text_changes_new :: text_changes where
  "text_changes_new = \<lparr>tc_modified_tick = 1, tc_chars_modified_tick = 1, tc_props_modified_tick = 1,
     tc_beg_unchanged = I64_MAX, tc_end_unchanged = I64_MAX, tc_prop_beg_unchanged = I64_MAX, tc_save_modified_tick = 1\<rparr>"

fun ilog2 :: "nat \<Rightarrow> nat" where
  "ilog2 n = (if n < 2 then 0 else ilog2 (n div 2) + 1)"

declare ilog2.simps [simp del]

definition modification_tick_delta :: "char_len \<Rightarrow> int" where
  "modification_tick_delta changed_chars = (if changed_chars = 0 then 1 else int (ilog2 changed_chars) + 1)"

definition record_char_modification :: "int \<Rightarrow> text_changes \<Rightarrow> text_changes" where
  "record_char_modification delta s =
     s\<lparr>tc_modified_tick := tc_modified_tick s + delta, tc_chars_modified_tick := tc_modified_tick s + delta\<rparr>"

definition record_text_property_modification :: "text_changes \<Rightarrow> text_changes" where
  "record_text_property_modification s =
     s\<lparr>tc_modified_tick := tc_modified_tick s + 1, tc_props_modified_tick := tc_modified_tick s + 1\<rparr>"

definition note_changed_char_region :: "int \<Rightarrow> int \<Rightarrow> int \<Rightarrow> text_changes \<Rightarrow> text_changes" where
  "note_changed_char_region start stop old_z s =
     s\<lparr>tc_beg_unchanged := min (tc_beg_unchanged s) (max start 0),
       tc_end_unchanged := min (tc_end_unchanged s) (max (old_z - stop) 0)\<rparr>"

definition note_changed_property_start :: "int \<Rightarrow> text_changes \<Rightarrow> text_changes" where
  "note_changed_property_start start s = s\<lparr>tc_prop_beg_unchanged := min (tc_prop_beg_unchanged s) (max start 0)\<rparr>"

definition reset_unchanged_region :: "text_changes \<Rightarrow> text_changes" where
  "reset_unchanged_region s =
     s\<lparr>tc_beg_unchanged := I64_MAX, tc_end_unchanged := I64_MAX, tc_prop_beg_unchanged := I64_MAX\<rparr>"

definition gnu_beg_unchanged :: "text_changes \<Rightarrow> int option" where
  "gnu_beg_unchanged s =
     (if tc_beg_unchanged s = I64_MAX \<and> tc_end_unchanged s = I64_MAX then None
      else let props = (if tc_prop_beg_unchanged s = I64_MAX then I64_MAX else max (tc_prop_beg_unchanged s - 1) 0)
           in Some (min (tc_beg_unchanged s) props))"

definition changed_char_range :: "int \<Rightarrow> text_changes \<Rightarrow> (int \<times> int) option" where
  "changed_char_range current_z s =
     (if tc_beg_unchanged s = I64_MAX \<and> tc_end_unchanged s = I64_MAX then None
      else let start = max (min (tc_beg_unchanged s) current_z) 0;
               stop = max (current_z - min (tc_end_unchanged s) current_z) start
           in Some (start, stop))"

subsection \<open>The state stays on the text\<close>

definition state_ok :: "bool \<Rightarrow> bytes \<Rightarrow> buffer_edit_state \<Rightarrow> bool" where
  "state_ok mb tx st \<longleftrightarrow> valid_anchor mb tx (es_point st) \<and> valid_anchor mb tx (es_begv st) \<and> valid_anchor mb tx (es_zv st)
     \<and> ta_byte (es_begv st) \<le> ta_byte (es_point st) \<and> ta_byte (es_point st) \<le> ta_byte (es_zv st)"

lemmas anchor_byte_simps = anchor_byte_gt_def anchor_byte_ge_def anchor_byte_eq_def

lemma range_anchor_simps [simp]:
  "ta_byte (edit_range_start_anchor r) = er_byte_start r" "ta_char (edit_range_start_anchor r) = er_char_start r"
  "ta_byte (edit_range_end_anchor r) = er_byte_end r" "ta_char (edit_range_end_anchor r) = er_char_end r"
  by (simp_all add: edit_range_start_anchor_def edit_range_end_anchor_def)

lemma insertion_anchor_simps [simp]:
  "ta_byte (insertion_start_anchor (insertion_at_anchor a e)) = ta_byte a"
  "ta_char (insertion_start_anchor (insertion_at_anchor a e)) = ta_char a" "ti_extent (insertion_at_anchor a e) = e"
  by (simp_all add: insertion_start_anchor_def insertion_at_anchor_def)

text \<open>How a position behind, at or in front of an edit moves, and that it stays a position.\<close>

lemma moved_behind:
  assumes r: "measured_range mb tx r" and "lead_ok mb tx" and e: "measured_text mb bs e"
    and p: "valid_anchor mb tx p" "er_byte_end r \<le> ta_byte p"
  shows "\<exists>p'. apply_to_anchor (extent_delta_replacement (edit_range_extent r) e) p = Some p'
     \<and> valid_anchor mb (replace_range (er_byte_start r) (er_byte_end r) bs tx) p'
     \<and> ta_byte p' = ta_byte p - (er_byte_end r - er_byte_start r) + length bs"
proof -
  note d = measured_rangeD [OF r]
  have ext: "edit_range_extent r = extent_from_emacs_bytes (sub_list (er_byte_start r) (er_byte_end r) tx) mb"
    using measured_range_char_len(2) [OF r] d
    by (simp add: edit_range_extent_def extent_from_emacs_bytes_def edit_range_byte_len_def byte_range_len_def)
  have ee: "e = extent_from_emacs_bytes bs mb" "lead_ok mb bs" using e by (auto simp: measured_text_def)
  obtain p' where p': "apply_to_anchor (extent_delta_replacement (edit_range_extent r) e) p = Some p'"
      "valid_anchor mb (replace_range (er_byte_start r) (er_byte_end r) bs tx) p'"
    using apply_to_anchor_replacement [OF d(1,2) assms(2) ee(2) p(1) d(5) p(2)] by (auto simp: ext ee(1) replace_range_def)
  have "te_chars (edit_range_extent r) \<le> ta_char p"
    using char_offset_delete_after(2) [OF d(1,2) assms(2) p(1) d(5) p(2)] by (simp add: ext)
  then have "ta_byte p' = ta_byte p - (er_byte_end r - er_byte_start r) + length bs"
    using p'(1) p(2) d(5,6) by (auto simp: signed_delta_replacement ext ee(1))
  then show ?thesis using p' by blast
qed

lemma moved_before:
  assumes r: "measured_range mb tx r" and "lead_ok mb tx" and e: "measured_text mb bs e"
    and p: "valid_anchor mb tx p" "ta_byte p \<le> er_byte_start r"
  shows "valid_anchor mb (replace_range (er_byte_start r) (er_byte_end r) bs tx) p"
proof -
  note d = measured_rangeD [OF r]
  have "lead_ok mb bs" using e by (simp add: measured_text_def)
  then show ?thesis
    using d p assms(2)
    by (simp add: replace_range_def char_offset_insert_before boundary_delete_before lead_ok_delete char_offset_delete_before)
qed

lemma moved_start_end:
  assumes r: "measured_range mb tx r" and "lead_ok mb tx" and e: "measured_text mb bs e"
  shows "\<exists>p'. apply_to_anchor (extent_delta_insertion e) (edit_range_start_anchor r) = Some p'
     \<and> valid_anchor mb (replace_range (er_byte_start r) (er_byte_end r) bs tx) p' \<and> ta_byte p' = er_byte_start r + length bs"
proof -
  note d = measured_rangeD [OF r]
  have "valid_anchor mb (delete_range (er_byte_start r) (er_byte_end r) tx) (edit_range_start_anchor r)"
    using d assms(2) by (simp add: char_offset_delete_before)
  then have "char_offset mb (insert_at (er_byte_start r) bs (delete_range (er_byte_start r) (er_byte_end r) tx))
      (er_char_start r + emacs_char_count_bytes bs mb) (er_byte_start r + length bs)"
    using d assms(2) by (intro char_offset_insert_after boundary_delete_before lead_ok_delete) auto
  then show ?thesis
    using e by (simp add: signed_delta_insertion replace_range_def measured_text_def)
qed

lemma deletion_is_replacement:
  assumes r: "measured_range mb tx r" and "lead_ok mb tx" and p: "valid_anchor mb tx p" "er_byte_end r \<le> ta_byte p"
  shows "apply_to_anchor (extent_delta_deletion (edit_range_extent r)) p
    = apply_to_anchor (extent_delta_replacement (edit_range_extent r) extent_zero) p"
proof -
  note d = measured_rangeD [OF r]
  have "te_chars (edit_range_extent r) \<le> ta_char p" "te_bytes (edit_range_extent r) \<le> ta_byte p"
    using char_offset_delete_after(2) [OF d(1,2) assms(2) p(1) d(5) p(2)] p(2) measured_range_char_len(2) [OF r]
    by (auto simp: edit_range_extent_def extent_new_def edit_range_byte_len_def byte_range_len_def)
  then show ?thesis by (simp add: signed_delta_deletion signed_delta_replacement extent_zero_def)
qed

lemma replace_state_ok:
  assumes r: "measured_range mb tx r" and ok: "lead_ok mb tx" and e: "measured_text mb bs e" and st: "state_ok mb tx st"
  shows "\<exists>st'. replace_state_after_edit st (replacement_new r e) = Some st'
    \<and> state_ok mb (replace_range (er_byte_start r) (er_byte_end r) bs tx) st'"
proof -
  let ?tx = "replace_range (er_byte_start r) (er_byte_end r) bs tx"
  let ?d = "er_byte_end r - er_byte_start r"
  have le: "er_byte_start r \<le> er_byte_end r" by (rule measured_rangeD(5) [OF r])
  note mv = moved_behind [OF r ok e] and mb = moved_before [OF r ok e] and ms = moved_start_end [OF r ok e]
  have v: "valid_anchor mb tx (es_point st)" "valid_anchor mb tx (es_begv st)" "valid_anchor mb tx (es_zv st)"
    using st by (auto simp: state_ok_def)
  have "\<exists>p'. move_after_replace_for_point p (replacement_new r e) = Some p' \<and> valid_anchor mb ?tx p'
      \<and> ta_byte p' = (if ta_byte p < er_byte_start r \<or> ta_byte p = er_byte_start r \<and> 0 < ?d then ta_byte p
           else if ta_byte p \<le> er_byte_end r then er_byte_start r + length bs else ta_byte p - ?d + length bs)"
    if "valid_anchor mb tx p" for p
    using mv [OF that] mb [OF that] ms le
    by (auto simp: move_after_replace_for_point_def anchor_byte_simps replacement_new_def Let_def)
  note pt = this
  have "\<exists>p'. move_after_replace_for_begv p (replacement_new r e) = Some p' \<and> valid_anchor mb ?tx p'
      \<and> ta_byte p' = (if er_byte_end r < ta_byte p then ta_byte p - ?d + length bs else min (ta_byte p) (er_byte_start r))"
    if "valid_anchor mb tx p" for p
    using mv [OF that] mb [OF that] le moved_before [OF r ok e, of "edit_range_start_anchor r"] measured_rangeD(3) [OF r]
    by (auto simp: move_after_replace_for_begv_def anchor_byte_simps replacement_new_def Let_def)
  note bg = this
  have "\<exists>p'. move_after_replace_for_zv p (replacement_new r e) = Some p' \<and> valid_anchor mb ?tx p'
      \<and> ta_byte p' = (if er_byte_end r \<le> ta_byte p then ta_byte p - ?d + length bs
           else if er_byte_start r < ta_byte p then er_byte_start r + length bs else ta_byte p)"
    if "valid_anchor mb tx p" for p
    using mv [OF that] mb [OF that] ms le
    by (auto simp: move_after_replace_for_zv_def anchor_byte_simps replacement_new_def Let_def)
  note zv = this
  obtain p where p: "move_after_replace_for_point (es_point st) (replacement_new r e) = Some p" "valid_anchor mb ?tx p"
      "ta_byte p = (if ta_byte (es_point st) < er_byte_start r \<or> ta_byte (es_point st) = er_byte_start r \<and> 0 < ?d then ta_byte (es_point st)
           else if ta_byte (es_point st) \<le> er_byte_end r then er_byte_start r + length bs else ta_byte (es_point st) - ?d + length bs)"
    using pt [OF v(1)] by blast
  obtain b where b: "move_after_replace_for_begv (es_begv st) (replacement_new r e) = Some b" "valid_anchor mb ?tx b"
      "ta_byte b = (if er_byte_end r < ta_byte (es_begv st) then ta_byte (es_begv st) - ?d + length bs
           else min (ta_byte (es_begv st)) (er_byte_start r))"
    using bg [OF v(2)] by blast
  obtain z where z: "move_after_replace_for_zv (es_zv st) (replacement_new r e) = Some z" "valid_anchor mb ?tx z"
      "ta_byte z = (if er_byte_end r \<le> ta_byte (es_zv st) then ta_byte (es_zv st) - ?d + length bs
           else if er_byte_start r < ta_byte (es_zv st) then er_byte_start r + length bs else ta_byte (es_zv st))"
    using zv [OF v(3)] by blast
  have "ta_byte b \<le> ta_byte p" "ta_byte p \<le> ta_byte z"
    using st le unfolding p(3) b(3) z(3) state_ok_def by (auto split: if_splits)
  then have "state_ok mb ?tx \<lparr>es_point = p, es_begv = b, es_zv = z\<rparr>" using p(2) b(2) z(2) by (simp add: state_ok_def)
  then show ?thesis using p(1) b(1) z(1) by (simp add: replace_state_after_edit_def)
qed


lemma insert_move:
  assumes c: "char_offset mb tx c k" and ok: "lead_ok mb tx" and e: "measured_text mb bs e" and p: "valid_anchor mb tx p"
  shows "\<exists>p'. move_after_insert p (insertion_at_anchor (anchor_new c k) e) at = Some p' \<and> valid_anchor mb (insert_at k bs tx) p'
    \<and> ta_byte p' = (if k < ta_byte p \<or> at \<and> ta_byte p = k then ta_byte p + length bs else ta_byte p)"
proof -
  have bd: "is_emacs_char_boundary tx k mb" and bs: "lead_ok mb bs" "te_chars e = emacs_char_count_bytes bs mb" "te_bytes e = length bs"
    using c e by (auto simp: char_offset_def measured_text_def)
  show ?thesis
    using char_offset_insert_after [OF bd ok p] char_offset_insert_before [OF bd ok bs(1) p] bs(2,3)
    by (auto simp: move_after_insert_def anchor_byte_simps signed_delta_insertion Let_def)
qed

lemma insert_state_ok:
  assumes c: "char_offset mb tx c k" and ok: "lead_ok mb tx" and e: "measured_text mb bs e" and st: "state_ok mb tx st"
    and at: "advance_point_at_insertion (ip_point_at_insertion policy) \<longrightarrow> ta_byte (es_begv st) \<le> k"
    and start: "shift_after_edit (ip_accessible_start policy) \<or> ta_byte (es_begv st) \<le> k"
    and upd: "update_state_fields (ip_state_fields policy)"
  shows "\<exists>st'. insert_state_after_edit st (insertion_at_anchor (anchor_new c k) e) policy = Some st'
    \<and> state_ok mb (insert_at k bs tx) st'"
proof -
  let ?i = "insertion_at_anchor (anchor_new c k) e" and ?at = "advance_point_at_insertion (ip_point_at_insertion policy)"
  have v: "valid_anchor mb tx (es_point st)" "valid_anchor mb tx (es_begv st)" "valid_anchor mb tx (es_zv st)"
    using st by (auto simp: state_ok_def)
  note mv = insert_move [OF c ok e]
  obtain p where p: "move_after_insert (es_point st) ?i ?at = Some p" "valid_anchor mb (insert_at k bs tx) p"
      "ta_byte p = (if k < ta_byte (es_point st) \<or> ?at \<and> ta_byte (es_point st) = k then ta_byte (es_point st) + length bs else ta_byte (es_point st))"
    using mv [OF v(1)] by blast
  obtain z where z: "move_after_insert (es_zv st) ?i True = Some z" "valid_anchor mb (insert_at k bs tx) z"
      "ta_byte z = (if k < ta_byte (es_zv st) \<or> True \<and> ta_byte (es_zv st) = k then ta_byte (es_zv st) + length bs else ta_byte (es_zv st))"
    using mv [OF v(3)] by blast
  obtain b where b: "(if shift_after_edit (ip_accessible_start policy) then move_after_insert (es_begv st) ?i False else Some (es_begv st)) = Some b"
      "valid_anchor mb (insert_at k bs tx) b"
      "ta_byte b = (if k < ta_byte (es_begv st) then ta_byte (es_begv st) + length bs else ta_byte (es_begv st))"
  proof (cases "shift_after_edit (ip_accessible_start policy)")
    case True
    then show ?thesis using mv [OF v(2), of False] that by auto
  next
    case False
    then have le: "ta_byte (es_begv st) \<le> k" using start by simp
    moreover have "is_emacs_char_boundary tx k mb" "lead_ok mb bs"
      using c e by (simp_all add: char_offset_def measured_text_def)
    ultimately have "valid_anchor mb (insert_at k bs tx) (es_begv st)"
      using char_offset_insert_before [OF _ ok _ v(2)] by blast
    then show ?thesis using that [of "es_begv st"] False le by simp
  qed
  have "ta_byte b \<le> ta_byte p" "ta_byte p \<le> ta_byte z"
    using st at unfolding p(3) b(3) z(3) state_ok_def by (auto split: if_splits)
  then have "state_ok mb (insert_at k bs tx) \<lparr>es_point = p, es_begv = b, es_zv = z\<rparr>" using p(2) b(2) z(2) by (simp add: state_ok_def)
  then show ?thesis using p(1) b(1) z(1) upd by (simp add: insert_state_after_edit_def)
qed

lemma delete_move:
  assumes r: "measured_range mb tx r" and ok: "lead_ok mb tx" and p: "valid_anchor mb tx p"
  shows "\<exists>p'. move_after_delete p r True = Some p' \<and> valid_anchor mb (delete_range (er_byte_start r) (er_byte_end r) tx) p'
    \<and> ta_byte p' = (if er_byte_end r \<le> ta_byte p then ta_byte p - (er_byte_end r - er_byte_start r) else min (ta_byte p) (er_byte_start r))"
proof -
  have e: "measured_text mb [] extent_zero"
    by (simp add: measured_text_def extent_from_emacs_bytes_def extent_zero_def extent_new_def lead_ok_def)
  have start: "valid_anchor mb (delete_range (er_byte_start r) (er_byte_end r) tx) (edit_range_start_anchor r)"
    using moved_before [OF r ok e, of "edit_range_start_anchor r"] measured_rangeD(3) [OF r] by simp
  show ?thesis
    using moved_behind [OF r ok e p] moved_before [OF r ok e p] start deletion_is_replacement [OF r ok p] measured_rangeD(5) [OF r]
    by (auto simp: move_after_delete_def anchor_byte_simps Let_def)
qed

lemma delete_state_ok:
  assumes r: "measured_range mb tx r" and ok: "lead_ok mb tx" and st: "state_ok mb tx st"
    and start: "shift_after_edit (dp_accessible_start policy) \<or> ta_byte (es_begv st) \<le> er_byte_start r"
    and upd: "update_state_fields (dp_state_fields policy)"
  shows "\<exists>st'. delete_state_after_edit st r policy = Some st'
    \<and> state_ok mb (delete_range (er_byte_start r) (er_byte_end r) tx) st'"
proof -
  let ?tx = "delete_range (er_byte_start r) (er_byte_end r) tx"
  let ?to = "\<lambda>p. if er_byte_end r \<le> ta_byte p then ta_byte p - (er_byte_end r - er_byte_start r) else min (ta_byte p) (er_byte_start r)"
  have le: "er_byte_start r \<le> er_byte_end r" by (rule measured_rangeD(5) [OF r])
  have v: "valid_anchor mb tx (es_point st)" "valid_anchor mb tx (es_begv st)" "valid_anchor mb tx (es_zv st)"
    using st by (auto simp: state_ok_def)
  note mv = delete_move [OF r ok]
  obtain p where p: "move_after_delete (es_point st) r True = Some p" "valid_anchor mb ?tx p" "ta_byte p = ?to (es_point st)"
    using mv [OF v(1)] by blast
  obtain z where z: "move_after_delete (es_zv st) r True = Some z" "valid_anchor mb ?tx z" "ta_byte z = ?to (es_zv st)"
    using mv [OF v(3)] by blast
  obtain b where b: "(if shift_after_edit (dp_accessible_start policy) then move_after_delete (es_begv st) r True else Some (es_begv st)) = Some b"
      "valid_anchor mb ?tx b" "ta_byte b = ?to (es_begv st)"
  proof (cases "shift_after_edit (dp_accessible_start policy)")
    case True
    then show ?thesis using mv [OF v(2)] that by auto
  next
    case False
    then have le: "ta_byte (es_begv st) \<le> er_byte_start r" using start by simp
    have "measured_text mb [] extent_zero"
      by (simp add: measured_text_def extent_from_emacs_bytes_def extent_zero_def extent_new_def lead_ok_def)
    then have "valid_anchor mb ?tx (es_begv st)" using moved_before [OF r ok _ v(2) le, of "[]"] by simp
    moreover have "ta_byte (es_begv st) = ?to (es_begv st)" using le measured_rangeD(5) [OF r] by auto
    ultimately show ?thesis using that [of "es_begv st"] False by simp
  qed
  have "ta_byte b \<le> ta_byte p" "ta_byte p \<le> ta_byte z"
    using st le unfolding p(3) b(3) z(3) state_ok_def by (auto split: if_splits)
  then have "state_ok mb ?tx \<lparr>es_point = p, es_begv = b, es_zv = z\<rparr>" using p(2) b(2) z(2) by (simp add: state_ok_def)
  then show ?thesis using p(1) b(1) z(1) upd by (simp add: delete_state_after_edit_def)
qed

lemmas policy_defs = insert_policy_current_def insert_policy_shared_def delete_policy_current_def delete_policy_shared_def
  replace_policy_current_def replace_policy_shared_def from_shared_update_def update_state_fields_def
  shift_after_edit_def advance_point_at_insertion_def adjust_in_this_buffer_def

subsection \<open>Properties of the state\<close>

text \<open>Point and narrowing of the edited buffer. When the edit is inside the accessible region, the
  state after an insertion at the start of a measured range, after deleting the range and after
  replacing it is computed without a panic; its positions are character positions of the new text, and
  point is still inside the accessible region.\<close>

theorem edit_state_sound:
  assumes "measured_range mb tx r" "lead_ok mb tx" "measured_text mb bs e" "state_ok mb tx st"
    "ta_byte (es_begv st) \<le> er_byte_start r"
  shows "(\<exists>st'. insert_state_after_edit st (insertion_at_anchor (edit_range_start_anchor r) e) insert_policy_current = Some st'
       \<and> state_ok mb (insert_at (er_byte_start r) bs tx) st')
     \<and> (\<exists>st'. delete_state_after_edit st r delete_policy_current = Some st'
          \<and> state_ok mb (delete_range (er_byte_start r) (er_byte_end r) tx) st')
     \<and> (\<exists>st'. replace_state_after (replacement_new r e) st replace_policy_current = Some st'
          \<and> state_ok mb (replace_range (er_byte_start r) (er_byte_end r) bs tx) st')"
  using insert_state_ok [OF measured_rangeD(3) [OF assms(1)] assms(2-4), of insert_policy_current]
    delete_state_ok [OF assms(1,2,4), of delete_policy_current] replace_state_ok [OF assms(1-4)] assms(5)
  by (simp add: policy_defs replace_state_after_def edit_range_start_anchor_def)

definition sample_state :: buffer_edit_state where
  "sample_state = \<lparr>es_point = anchor_new 2 3, es_begv = anchor_new 1 1, es_zv = anchor_new 3 4\<rparr>"

definition sample_state_range :: text_edit_range where
  "sample_state_range = edit_range_new (byte_range_new 1 3) 1 2"

lemma sample_state_facts:
  "measured_range True [0x61, 0xC3, 0xA9, 0x62] sample_state_range" "lead_ok True [0x61, 0xC3, 0xA9, 0x62]"
  "measured_text True [0x78] (extent_new 1 1)" "state_ok True [0x61, 0xC3, 0xA9, 0x62] sample_state"
  "ta_byte (es_begv sample_state) \<le> er_byte_start sample_state_range"
  by code_simp+

theorem edit_state_sound_witness:
  "(\<exists>st'. insert_state_after_edit sample_state (insertion_at_anchor (edit_range_start_anchor sample_state_range) (extent_new 1 1))
         insert_policy_current = Some st'
       \<and> state_ok True (insert_at (er_byte_start sample_state_range) [0x78] [0x61, 0xC3, 0xA9, 0x62]) st')
     \<and> (\<exists>st'. delete_state_after_edit sample_state sample_state_range delete_policy_current = Some st'
          \<and> state_ok True (delete_range (er_byte_start sample_state_range) (er_byte_end sample_state_range) [0x61, 0xC3, 0xA9, 0x62]) st')
     \<and> (\<exists>st'. replace_state_after (replacement_new sample_state_range (extent_new 1 1)) sample_state replace_policy_current = Some st'
          \<and> state_ok True (replace_range (er_byte_start sample_state_range) (er_byte_end sample_state_range) [0x78] [0x61, 0xC3, 0xA9, 0x62]) st')"
  by (rule edit_state_sound [OF sample_state_facts])

text \<open>C21: point and narrowing of the other buffers. A buffer that shares the text may be narrowed to any
  region, also one that the edit is not inside of; its state after any of the three edits is
  computed without a panic and is right for the new text.\<close>

theorem sibling_state_sound:
  assumes "measured_range mb tx r" "lead_ok mb tx" "measured_text mb bs e" "state_ok mb tx st"
  shows "(\<exists>st'. insert_state_after_edit st (insertion_at_anchor (edit_range_start_anchor r) e) (insert_policy_shared UpdateFields) = Some st'
       \<and> state_ok mb (insert_at (er_byte_start r) bs tx) st')
     \<and> (\<exists>st'. delete_state_after_edit st r (delete_policy_shared UpdateFields) = Some st'
          \<and> state_ok mb (delete_range (er_byte_start r) (er_byte_end r) tx) st')
     \<and> (\<exists>st'. replace_state_after (replacement_new r e) st (replace_policy_shared UpdateFields) = Some st'
          \<and> state_ok mb (replace_range (er_byte_start r) (er_byte_end r) bs tx) st')"
  using insert_state_ok [OF measured_rangeD(3) [OF assms(1)] assms(2-4), of "insert_policy_shared UpdateFields"]
    delete_state_ok [OF assms(1,2,4), of "delete_policy_shared UpdateFields"] replace_state_ok [OF assms(1-4)]
  by (simp add: policy_defs replace_state_after_def edit_range_start_anchor_def)

theorem sibling_state_sound_witness:
  "(\<exists>st'. insert_state_after_edit sample_state (insertion_at_anchor (edit_range_start_anchor sample_state_range) (extent_new 1 1))
         (insert_policy_shared UpdateFields) = Some st'
       \<and> state_ok True (insert_at (er_byte_start sample_state_range) [0x78] [0x61, 0xC3, 0xA9, 0x62]) st')
     \<and> (\<exists>st'. delete_state_after_edit sample_state sample_state_range (delete_policy_shared UpdateFields) = Some st'
          \<and> state_ok True (delete_range (er_byte_start sample_state_range) (er_byte_end sample_state_range) [0x61, 0xC3, 0xA9, 0x62]) st')
     \<and> (\<exists>st'. replace_state_after (replacement_new sample_state_range (extent_new 1 1)) sample_state (replace_policy_shared UpdateFields) = Some st'
          \<and> state_ok True (replace_range (er_byte_start sample_state_range) (er_byte_end sample_state_range) [0x78] [0x61, 0xC3, 0xA9, 0x62]) st')"
  by (rule sibling_state_sound [OF sample_state_facts(1-4)])



subsection \<open>The unchanged ends are unchanged\<close>

text \<open>
  A text as a list of characters, edited by replacing \<open>len\<close> characters at \<open>start\<close>, each edit noted
  the way the side effects of the insert, delete, replace and same-length paths note it.
\<close>

definition note_char_edit :: "nat \<times> nat \<times> 'c list \<Rightarrow> 'c list \<times> text_changes \<Rightarrow> 'c list \<times> text_changes" where
  "note_char_edit ed ts =
     (case (ed, ts) of ((start, len, new), (tx, s)) \<Rightarrow>
        (take start tx @ new @ drop (start + len) tx,
         note_changed_char_region (int start) (int start + int len) (int (length tx)) s))"

fun note_char_edits :: "(nat \<times> nat \<times> 'c list) list \<Rightarrow> 'c list \<times> text_changes \<Rightarrow> 'c list \<times> text_changes" where
  "note_char_edits [] ts = ts"
| "note_char_edits (ed # eds) ts = note_char_edits eds (note_char_edit ed ts)"

fun legal_char_edits :: "(nat \<times> nat \<times> 'c list) list \<Rightarrow> 'c list \<times> text_changes \<Rightarrow> bool" where
  "legal_char_edits [] ts \<longleftrightarrow> True"
| "legal_char_edits ((start, len, new) # eds) ts \<longleftrightarrow>
     start + len \<le> length (fst ts) \<and> int (length (fst ts)) < I64_MAX \<and> legal_char_edits eds (note_char_edit (start, len, new) ts)"

definition last_n :: "nat \<Rightarrow> 'c list \<Rightarrow> 'c list" where
  "last_n n xs = drop (length xs - n) xs"

definition unchanged_ends :: "'c list \<Rightarrow> 'c list \<times> text_changes \<Rightarrow> bool" where
  "unchanged_ends tx0 ts \<longleftrightarrow>
     (let tx = fst ts; b = tc_beg_unchanged (snd ts); e = tc_end_unchanged (snd ts)
      in b = I64_MAX \<and> e = I64_MAX \<and> tx = tx0
         \<or> 0 \<le> b \<and> 0 \<le> e \<and> b < I64_MAX \<and> b \<le> int (length tx) \<and> b \<le> int (length tx0) \<and> e \<le> int (length tx) \<and> e \<le> int (length tx0)
           \<and> take (nat b) tx = take (nat b) tx0 \<and> last_n (nat e) tx = last_n (nat e) tx0)"

lemma last_n_shorter: "last_n n xs = last_n n ys \<Longrightarrow> m \<le> n \<Longrightarrow> n \<le> length xs \<Longrightarrow> n \<le> length ys \<Longrightarrow> last_n m xs = last_n m ys"
proof -
  assume a: "last_n n xs = last_n n ys" "m \<le> n" "n \<le> length xs" "n \<le> length ys"
  have "last_n m zs = drop (n - m) (last_n n zs)" if "n \<le> length zs" for zs :: "'a list"
    using that a(2) by (simp add: last_n_def)
  then show "last_n m xs = last_n m ys" using a by metis
qed

lemma last_n_append: "n \<le> length ys \<Longrightarrow> last_n n (xs @ ys) = last_n n ys"
  by (simp add: last_n_def)

lemma last_n_drop: "n \<le> length xs - k \<Longrightarrow> last_n n (drop k xs) = last_n n xs"
  by (cases "k \<le> length xs") (simp_all add: last_n_def)

lemma take_shorter: "take n xs = take n ys \<Longrightarrow> m \<le> n \<Longrightarrow> take m xs = take m ys"
  by (metis min.absorb1 take_take)

lemma note_char_edit_unchanged:
  assumes inv: "unchanged_ends tx0 (tx, s)" and legal: "start + len \<le> length tx" "int (length tx) < I64_MAX"
  shows "unchanged_ends tx0 (note_char_edit (start, len, new) (tx, s))"
proof -
  let ?tx = "take start tx @ new @ drop (start + len) tx"
  let ?b = "min (tc_beg_unchanged s) (int start)" and ?e = "min (tc_end_unchanged s) (int (length tx) - (int start + int len))"
  have inv': "tc_beg_unchanged s = I64_MAX \<and> tc_end_unchanged s = I64_MAX \<and> tx = tx0
      \<or> 0 \<le> tc_beg_unchanged s \<and> 0 \<le> tc_end_unchanged s \<and> tc_beg_unchanged s < I64_MAX
        \<and> tc_beg_unchanged s \<le> int (length tx) \<and> tc_beg_unchanged s \<le> int (length tx0)
        \<and> tc_end_unchanged s \<le> int (length tx) \<and> tc_end_unchanged s \<le> int (length tx0)
        \<and> take (nat (tc_beg_unchanged s)) tx = take (nat (tc_beg_unchanged s)) tx0
        \<and> last_n (nat (tc_end_unchanged s)) tx = last_n (nat (tc_end_unchanged s)) tx0"
    using inv by (simp add: unchanged_ends_def Let_def)
  have b: "0 \<le> ?b" "?b < I64_MAX" "?b \<le> int (length ?tx)" "?b \<le> int (length tx0)" "take (nat ?b) tx = take (nat ?b) tx0"
    using inv' legal take_shorter [of "nat (tc_beg_unchanged s)" tx tx0 "nat ?b"] by auto
  have e: "0 \<le> ?e" "?e \<le> int (length ?tx)" "?e \<le> int (length tx0)" "last_n (nat ?e) tx = last_n (nat ?e) tx0"
    using inv' legal last_n_shorter [of "nat (tc_end_unchanged s)" tx tx0 "nat ?e"] by auto
  have "take (nat ?b) ?tx = take (nat ?b) tx" using legal by simp
  moreover have "last_n (nat ?e) ?tx = last_n (nat ?e) tx"
  proof -
    have n: "nat ?e \<le> length (drop (start + len) tx)" using legal by (simp add: nat_le_iff)
    have "last_n (nat ?e) ?tx = last_n (nat ?e) (drop (start + len) tx)"
      using last_n_append [OF n, of "take start tx @ new"] by simp
    also have "\<dots> = last_n (nat ?e) tx" using n by (intro last_n_drop) simp
    finally show ?thesis .
  qed
  moreover have "max (int (length tx) - (int start + int len)) 0 = int (length tx) - (int start + int len)" using legal by simp
  ultimately show ?thesis
    using b e by (simp add: unchanged_ends_def note_char_edit_def note_changed_char_region_def Let_def)
qed

lemma note_char_edits_unchanged:
  "unchanged_ends tx0 ts \<Longrightarrow> legal_char_edits eds ts \<Longrightarrow> unchanged_ends tx0 (note_char_edits eds ts)"
proof (induction eds ts rule: legal_char_edits.induct)
  case (2 start len new eds ts)
  then show ?case using note_char_edit_unchanged [of tx0 "fst ts" "snd ts" start len new] by simp
qed simp

text \<open>C22: what redisplay may keep. After any sequence of edits since the unchanged region was reset, the
  range that is reported as changed lies in the text, and everything in front of it and behind it
  is what it was at the reset; when no range is reported, the whole text is.\<close>

theorem changed_range_sound:
  assumes "legal_char_edits eds (tx0, reset_unchanged_region s0)"
    "note_char_edits eds (tx0, reset_unchanged_region s0) = (tx, s)"
  shows "case changed_char_range (int (length tx)) s of
      None \<Rightarrow> tx = tx0
    | Some (a, b) \<Rightarrow> 0 \<le> a \<and> a \<le> b \<and> b \<le> int (length tx) \<and> take (nat a) tx = take (nat a) tx0
        \<and> drop (nat b) tx = last_n (length tx - nat b) tx0"
proof -
  have "unchanged_ends tx0 (tx0, reset_unchanged_region s0)" by (simp add: unchanged_ends_def reset_unchanged_region_def Let_def)
  then have inv: "unchanged_ends tx0 (tx, s)" using note_char_edits_unchanged [OF _ assms(1)] assms(2) by simp
  let ?b = "tc_beg_unchanged s" and ?e = "tc_end_unchanged s"
  show ?thesis
  proof (cases "?b = I64_MAX \<and> ?e = I64_MAX")
    case True
    then have "tx = tx0" using inv by (simp add: unchanged_ends_def Let_def)
    then show ?thesis using True by (simp add: changed_char_range_def)
  next
    case False
    then have i: "0 \<le> ?b" "0 \<le> ?e" "?b \<le> int (length tx)" "?e \<le> int (length tx)" "?e \<le> int (length tx0)"
        "take (nat ?b) tx = take (nat ?b) tx0" "last_n (nat ?e) tx = last_n (nat ?e) tx0"
      using inv by (auto simp: unchanged_ends_def Let_def)
    let ?stop = "max (int (length tx) - ?e) ?b"
    have r: "changed_char_range (int (length tx)) s = Some (?b, ?stop)"
      using False i by (simp add: changed_char_range_def Let_def)
    have n: "length tx - nat ?stop \<le> nat ?e" "length tx - (length tx - nat ?stop) = nat ?stop" using i by linarith+
    have "last_n (length tx - nat ?stop) tx = last_n (length tx - nat ?stop) tx0"
      using last_n_shorter [OF i(7) n(1)] i by auto
    then have "drop (nat ?stop) tx = last_n (length tx - nat ?stop) tx0" using n(2) by (simp add: last_n_def)
    then show ?thesis using r i by auto
  qed
qed

theorem changed_range_sound_witness:
  "case changed_char_range (int (length ''axyzd'')) (note_changed_char_region 1 3 4 text_changes_new) of
      None \<Rightarrow> ''axyzd'' = ''abcd''
    | Some (a, b) \<Rightarrow> 0 \<le> a \<and> a \<le> b \<and> b \<le> int (length ''axyzd'') \<and> take (nat a) ''axyzd'' = take (nat a) ''abcd''
        \<and> drop (nat b) ''axyzd'' = last_n (length ''axyzd'' - nat b) ''abcd''"
proof (rule changed_range_sound)
  show "legal_char_edits [(1, 2, ''xyz'')] (''abcd'', reset_unchanged_region text_changes_new)"
    by (simp add: I64_MAX_def note_char_edit_def)
  show "note_char_edits [(1, 2, ''xyz'')] (''abcd'', reset_unchanged_region text_changes_new)
      = (''axyzd'', note_changed_char_region 1 3 4 text_changes_new)"
    by (simp add: note_char_edit_def reset_unchanged_region_def text_changes_new_def eval_nat_numeral)
qed


end
