(* ===== verification/Buffer_Object.thy ===== *)
theory Buffer_Object
  imports Buffer_Storage Undo_List Edit_State
begin

text \<open>
  A buffer over a text: point, the accessible region and the conversions that are clamped to them,
  from \<open>src/crates/neovm-core/src/buffer/buffer.rs\<close>, and the undo state that belongs to a text,
  from \<open>shared.rs\<close>.

  An indirect buffer shares its text with its base buffer through reference-counted cells. So the
  state is split in two: \<open>text_object\<close> holds what the sharing buffers have in common (the storage,
  the markers, the modification ticks, the text properties, the undo list and the point saved before
  the last command), and \<open>buffer\<close> holds what each of them has for itself. Text properties and
  overlays are values of unknown type here.

  The invariant \<open>buffer_ok\<close> says that the storage and its markers are consistent and that point and
  the ends of the accessible region are ordered positions of the text. The operations that move them
  keep it.
\<close>

subsection \<open>State\<close>

record ('p, 'v) text_object =
  tx_storage :: buffer_storage
  tx_markers :: marker_store
  tx_changes :: text_changes
  tx_props :: 'p
  tx_undo_list :: "('p, 'v) undo_list"
  tx_recorded_first_change :: bool
  tx_saved_point :: "(nat \<times> char_pos0) option"

record state_marker_ids =
  sm_pt :: nat
  sm_begv :: nat
  sm_zv :: nat
  sm_pt_ptr :: nat
  sm_begv_ptr :: nat
  sm_zv_ptr :: nat

record ('v, 'o) buffer =
  bf_id :: nat
  bf_point :: text_position_anchor
  bf_accessible_start :: text_position_anchor
  bf_accessible_end :: text_position_anchor
  bf_autosave_modified_tick :: int
  bf_state_markers :: "state_marker_ids option"
  bf_multibyte :: bool
  bf_first_change_modtime :: 'v
  bf_overlays :: 'o

abbreviation bx_text :: "('p, 'v) text_object \<Rightarrow> bytes" where
  "bx_text x \<equiv> st_text (tx_storage x)"

abbreviation bx_mb :: "('p, 'v) text_object \<Rightarrow> bool" where
  "bx_mb x \<equiv> st_mb (tx_storage x)"

definition edit_state :: "('v, 'o) buffer \<Rightarrow> buffer_edit_state" where
  "edit_state b = \<lparr>es_point = bf_point b, es_begv = bf_accessible_start b, es_zv = bf_accessible_end b\<rparr>"

definition set_edit_state :: "buffer_edit_state \<Rightarrow> ('v, 'o) buffer \<Rightarrow> ('v, 'o) buffer" where
  "set_edit_state st b = b\<lparr>bf_accessible_start := es_begv st, bf_accessible_end := es_zv st, bf_point := es_point st\<rparr>"

definition set_accessible_region_anchors_unchecked ::
    "text_position_anchor \<Rightarrow> text_position_anchor \<Rightarrow> ('v, 'o) buffer \<Rightarrow> ('v, 'o) buffer" where
  "set_accessible_region_anchors_unchecked s e b = b\<lparr>bf_accessible_start := s, bf_accessible_end := e\<rparr>"

definition total_char_end_pos :: "('p, 'v) text_object \<Rightarrow> char_pos0" where
  "total_char_end_pos x = tm_chars (st_metrics (tx_storage x))"

definition total_emacs_byte_end_pos :: "('p, 'v) text_object \<Rightarrow> emacs_byte_pos" where
  "total_emacs_byte_end_pos x = tm_bytes (st_metrics (tx_storage x))"

definition is_narrowed :: "('v, 'o) buffer \<Rightarrow> ('p, 'v) text_object \<Rightarrow> bool" where
  "is_narrowed b x \<longleftrightarrow> 0 < ta_byte (bf_accessible_start b) \<or> ta_byte (bf_accessible_end b) < total_emacs_byte_end_pos x"

text \<open>The point saved before a command is one cell for all buffers, and names the buffer it belongs to.\<close>

definition save_point_before_command :: "nat \<Rightarrow> char_pos0 \<Rightarrow> ('p, 'v) text_object \<Rightarrow> ('p, 'v) text_object" where
  "save_point_before_command b p x = x\<lparr>tx_saved_point := Some (b, p)\<rparr>"

definition point_saved_in :: "nat \<Rightarrow> (nat \<times> char_pos0) option \<Rightarrow> char_pos0 option" where
  "point_saved_in b cell = (case cell of Some (saved, p) \<Rightarrow> if saved = b then Some p else None | None \<Rightarrow> None)"

subsection \<open>Positions of a buffer\<close>

text \<open>\<open>clamp\<close> of the standard library panics when the bounds are not ordered.\<close>

definition clamp :: "nat \<Rightarrow> nat \<Rightarrow> nat \<Rightarrow> nat option" where
  "clamp lo hi v = do { panic_unless (lo \<le> hi); Some (max lo (min v hi)) }"

definition text_anchor_for_emacs_byte_pos ::
    "emacs_byte_pos \<Rightarrow> ('p, 'v) text_object \<Rightarrow> (text_position_anchor \<times> ('p, 'v) text_object) option" where
  "text_anchor_for_emacs_byte_pos pos x =
     (let total = total_emacs_byte_end_pos x; clamped = min pos total
      in if clamped = total then Some (anchor_new (total_char_end_pos x) clamped, x)
         else do {
           (c, s) \<leftarrow> st_emacs_byte_pos_to_char_pos (tx_markers x) clamped (tx_storage x);
           Some (anchor_new c clamped, x\<lparr>tx_storage := s\<rparr>)
         })"

definition accessible_anchor_for_emacs_byte_pos ::
    "emacs_byte_pos \<Rightarrow> ('v, 'o) buffer \<Rightarrow> ('p, 'v) text_object \<Rightarrow> (text_position_anchor \<times> ('p, 'v) text_object) option" where
  "accessible_anchor_for_emacs_byte_pos pos b x = do {
     clamped \<leftarrow> clamp (ta_byte (bf_accessible_start b)) (ta_byte (bf_accessible_end b)) pos;
     if clamped = ta_byte (bf_accessible_start b) then Some (bf_accessible_start b, x)
     else if clamped = ta_byte (bf_accessible_end b) then Some (bf_accessible_end b, x)
     else text_anchor_for_emacs_byte_pos clamped x
   }"

definition goto_emacs_byte_pos ::
    "emacs_byte_pos \<Rightarrow> ('v, 'o) buffer \<Rightarrow> ('p, 'v) text_object \<Rightarrow> (('v, 'o) buffer \<times> ('p, 'v) text_object) option" where
  "goto_emacs_byte_pos pos b x = do {
     (a, x) \<leftarrow> accessible_anchor_for_emacs_byte_pos pos b x;
     Some (b\<lparr>bf_point := a\<rparr>, x)
   }"

text \<open>
  Restoring a saved point goes by its byte position; when the region does not clamp that, the assertion compares
  the character position that was saved beside it.
\<close>

definition set_point_anchor ::
    "text_position_anchor \<Rightarrow> ('v, 'o) buffer \<Rightarrow> ('p, 'v) text_object \<Rightarrow> (('v, 'o) buffer \<times> ('p, 'v) text_object) option" where
  "set_point_anchor p b x = do {
     (restored, x) \<leftarrow> accessible_anchor_for_emacs_byte_pos (ta_byte p) b x;
     panic_unless (ta_byte restored = ta_byte p \<longrightarrow> ta_char restored = min (ta_char p) (total_char_end_pos x));
     Some (b\<lparr>bf_point := restored\<rparr>, x)
   }"

definition narrow_to_emacs_byte_range ::
    "emacs_byte_range \<Rightarrow> ('v, 'o) buffer \<Rightarrow> ('p, 'v) text_object \<Rightarrow> (('v, 'o) buffer \<times> ('p, 'v) text_object) option" where
  "narrow_to_emacs_byte_range r b x = do {
     let total = total_emacs_byte_end_pos x;
     let start_byte = min (br_start r) total;
     end_byte \<leftarrow> clamp start_byte total (br_end r);
     (s, x) \<leftarrow> text_anchor_for_emacs_byte_pos start_byte x;
     (e, x) \<leftarrow> text_anchor_for_emacs_byte_pos end_byte x;
     let b = set_accessible_region_anchors_unchecked s e b;
     goto_emacs_byte_pos (ta_byte (bf_point b)) b x
   }"

definition set_accessible_region_and_point_from_emacs_bytes ::
    "emacs_byte_range \<Rightarrow> emacs_byte_pos \<Rightarrow> ('v, 'o) buffer \<Rightarrow> ('p, 'v) text_object
      \<Rightarrow> (('v, 'o) buffer \<times> ('p, 'v) text_object) option" where
  "set_accessible_region_and_point_from_emacs_bytes r p b x = do {
     (b, x) \<leftarrow> narrow_to_emacs_byte_range r b x;
     goto_emacs_byte_pos p b x
   }"

definition widen :: "('v, 'o) buffer \<Rightarrow> ('p, 'v) text_object \<Rightarrow> (('v, 'o) buffer \<times> ('p, 'v) text_object) option" where
  "widen b x = narrow_to_emacs_byte_range (byte_range_from_start_len 0 (total_emacs_byte_end_pos x)) b x"

definition restore_accessible_region ::
    "text_position_anchor \<times> text_position_anchor \<Rightarrow> ('v, 'o) buffer \<Rightarrow> ('p, 'v) text_object
      \<Rightarrow> (('v, 'o) buffer \<times> ('p, 'v) text_object) option" where
  "restore_accessible_region snapshot b x =
     (let b = set_accessible_region_anchors_unchecked (fst snapshot) (snd snapshot) b
      in goto_emacs_byte_pos (ta_byte (bf_point b)) b x)"

definition restore_accessible_region_with_current_full_end ::
    "text_position_anchor \<times> text_position_anchor \<Rightarrow> ('v, 'o) buffer \<Rightarrow> ('p, 'v) text_object
      \<Rightarrow> (('v, 'o) buffer \<times> ('p, 'v) text_object) option" where
  "restore_accessible_region_with_current_full_end snapshot b x = do {
     (e, x) \<leftarrow> text_anchor_for_emacs_byte_pos (total_emacs_byte_end_pos x) x;
     let b = set_accessible_region_anchors_unchecked (fst snapshot) e b;
     goto_emacs_byte_pos (ta_byte (bf_point b)) b x
   }"

definition accessible_region_snapshot :: "('v, 'o) buffer \<Rightarrow> text_position_anchor \<times> text_position_anchor" where
  "accessible_region_snapshot b = (bf_accessible_start b, bf_accessible_end b)"

definition char_pos_to_emacs_byte_pos_clamped ::
    "char_pos0 \<Rightarrow> ('v, 'o) buffer \<Rightarrow> ('p, 'v) text_object \<Rightarrow> (emacs_byte_pos \<times> ('p, 'v) text_object) option" where
  "char_pos_to_emacs_byte_pos_clamped c b x =
     (let c = min c (total_char_end_pos x)
      in if c = ta_char (bf_point b) then Some (ta_byte (bf_point b), x)
         else do {
           (k, s) \<leftarrow> st_char_pos_to_emacs_byte_pos (tx_markers x) c (tx_storage x);
           Some (k, x\<lparr>tx_storage := s\<rparr>)
         })"

definition emacs_byte_pos_to_char_pos_clamped ::
    "emacs_byte_pos \<Rightarrow> ('v, 'o) buffer \<Rightarrow> ('p, 'v) text_object \<Rightarrow> (char_pos0 \<times> ('p, 'v) text_object) option" where
  "emacs_byte_pos_to_char_pos_clamped k b x =
     (let k = min k (total_emacs_byte_end_pos x)
      in if k = ta_byte (bf_point b) then Some (ta_char (bf_point b), x)
         else do {
           (c, s) \<leftarrow> st_emacs_byte_pos_to_char_pos (tx_markers x) k (tx_storage x);
           Some (c, x\<lparr>tx_storage := s\<rparr>)
         })"

definition lisp_pos_to_emacs_byte_pos ::
    "int \<Rightarrow> ('v, 'o) buffer \<Rightarrow> ('p, 'v) text_object \<Rightarrow> (emacs_byte_pos \<times> ('p, 'v) text_object) option" where
  "lisp_pos_to_emacs_byte_pos p b x = char_pos_to_emacs_byte_pos_clamped (char_pos0_from_lisp p) b x"

definition lisp_pos_to_accessible_emacs_byte_pos ::
    "int \<Rightarrow> ('v, 'o) buffer \<Rightarrow> ('p, 'v) text_object \<Rightarrow> (emacs_byte_pos \<times> ('p, 'v) text_object) option" where
  "lisp_pos_to_accessible_emacs_byte_pos p b x = do {
     c \<leftarrow> clamp (ta_char (bf_accessible_start b)) (ta_char (bf_accessible_end b)) (char_pos0_from_lisp p);
     (k, s) \<leftarrow> st_char_pos_to_emacs_byte_pos (tx_markers x) c (tx_storage x);
     Some (k, x\<lparr>tx_storage := s\<rparr>)
   }"

definition lisp_pos_to_full_buffer_emacs_byte_pos ::
    "int \<Rightarrow> ('p, 'v) text_object \<Rightarrow> (emacs_byte_pos \<times> ('p, 'v) text_object) option" where
  "lisp_pos_to_full_buffer_emacs_byte_pos p x = do {
     (k, s) \<leftarrow> st_char_pos_to_emacs_byte_pos (tx_markers x) (min (char_pos0_from_lisp p) (total_char_end_pos x)) (tx_storage x);
     Some (k, x\<lparr>tx_storage := s\<rparr>)
   }"

text \<open>
  A buffer that shares its text and is not current keeps point and its accessible region in three
  markers; making it current reads them back. The outer option is a panic, the inner one the early
  return when a marker is not found.
\<close>

definition marker_emacs_byte_pos :: "nat \<Rightarrow> ('p, 'v) text_object \<Rightarrow> emacs_byte_pos option option" where
  "marker_emacs_byte_pos mid x = do {
     r \<leftarrow> marker_chain_anchor_lookup (st_markers (tx_storage x)) mid (tx_markers x);
     Some (map_option (\<lambda>(a, _). ta_byte a) r)
   }"

definition fetch_buffer_state_markers ::
    "('v, 'o) buffer \<Rightarrow> ('p, 'v) text_object \<Rightarrow> (('v, 'o) buffer \<times> ('p, 'v) text_object) option option" where
  "fetch_buffer_state_markers b x =
     (case bf_state_markers b of
        None \<Rightarrow> Some None
      | Some ids \<Rightarrow> do {
          pt \<leftarrow> marker_emacs_byte_pos (sm_pt ids) x;
          begv \<leftarrow> marker_emacs_byte_pos (sm_begv ids) x;
          zv \<leftarrow> marker_emacs_byte_pos (sm_zv ids) x;
          case (pt, begv, zv) of
            (Some pt, Some begv, Some zv) \<Rightarrow> do {
              r \<leftarrow> set_accessible_region_and_point_from_emacs_bytes (byte_range_new begv zv) pt b x;
              Some (Some r)
            }
          | _ \<Rightarrow> Some None
        })"

subsection \<open>What every buffer keeps\<close>

definition text_ok :: "(nat \<Rightarrow> nat list) \<Rightarrow> ('p, 'v) text_object \<Rightarrow> bool" where
  "text_ok cs x \<longleftrightarrow> storage_inv (tx_storage x) \<and> text_markers_ok cs (tx_markers x) (tx_storage x)"

definition buffer_on :: "('p, 'v) text_object \<Rightarrow> ('v, 'o) buffer \<Rightarrow> bool" where
  "buffer_on x b \<longleftrightarrow> bf_multibyte b = bx_mb x \<and> state_ok (bx_mb x) (bx_text x) (edit_state b)"

definition buffer_ok :: "(nat \<Rightarrow> nat list) \<Rightarrow> ('v, 'o) buffer \<Rightarrow> ('p, 'v) text_object \<Rightarrow> bool" where
  "buffer_ok cs b x \<longleftrightarrow> text_ok cs x \<and> buffer_on x b"

lemma buffer_okI: "text_ok cs x \<Longrightarrow> buffer_on x b \<Longrightarrow> buffer_ok cs b x"
  by (simp add: buffer_ok_def)

lemma text_okD:
  assumes "text_ok cs x"
  shows "storage_inv (tx_storage x)" "text_markers_ok cs (tx_markers x) (tx_storage x)" "lead_ok (bx_mb x) (bx_text x)"
    "total_emacs_byte_end_pos x = length (bx_text x)" "total_char_end_pos x = emacs_char_count_bytes (bx_text x) (bx_mb x)"
  using assms storage_invD(3,4) [of "tx_storage x"]
  by (simp_all add: text_ok_def total_emacs_byte_end_pos_def total_char_end_pos_def)

text \<open>A conversion may change the caches of the storage and nothing else.\<close>

definition recached :: "('p, 'v) text_object \<Rightarrow> ('p, 'v) text_object \<Rightarrow> bool" where
  "recached x x' \<longleftrightarrow> (\<exists>s. x' = x\<lparr>tx_storage := s\<rparr> \<and> storage_inv s \<and> same_text (tx_storage x) s)"

lemma recached_keeps:
  assumes "recached x x'"
  shows "bx_text x' = bx_text x" "bx_mb x' = bx_mb x" "text_ok cs x \<Longrightarrow> text_ok cs x'" "buffer_on x' b \<longleftrightarrow> buffer_on x b"
    "tx_markers x' = tx_markers x" "tx_undo_list x' = tx_undo_list x" "tx_changes x' = tx_changes x" "tx_props x' = tx_props x"
    "tx_saved_point x' = tx_saved_point x" "st_markers (tx_storage x') = st_markers (tx_storage x)"
    "tb_kind (st_backend (tx_storage x')) = tb_kind (st_backend (tx_storage x))"
proof -
  obtain s where x': "x' = x\<lparr>tx_storage := s\<rparr>" and s: "storage_inv s" "same_text (tx_storage x) s"
    using assms by (auto simp: recached_def)
  have t: "st_text s = bx_text x" "st_mb s = bx_mb x" "st_markers s = st_markers (tx_storage x)"
      "tb_kind (st_backend s) = tb_kind (st_backend (tx_storage x))"
    using s(2) by (simp_all add: same_text_def)
  show "bx_text x' = bx_text x" "bx_mb x' = bx_mb x" "buffer_on x' b \<longleftrightarrow> buffer_on x b"
    "tx_markers x' = tx_markers x" "tx_undo_list x' = tx_undo_list x" "tx_changes x' = tx_changes x" "tx_props x' = tx_props x"
    "tx_saved_point x' = tx_saved_point x" "st_markers (tx_storage x') = st_markers (tx_storage x)"
    "tb_kind (st_backend (tx_storage x')) = tb_kind (st_backend (tx_storage x))"
    using t by (simp_all add: x' buffer_on_def)
  show "text_ok cs x \<Longrightarrow> text_ok cs x'"
    using s(1) text_markers_same [OF s(2)] by (simp add: x' text_ok_def)
qed

lemma recached_refl: "text_ok cs x \<Longrightarrow> recached x x"
  unfolding recached_def text_ok_def by (intro exI [of _ "tx_storage x"]) simp

lemma recached_trans: "recached x y \<Longrightarrow> recached y z \<Longrightarrow> recached x z"
  unfolding recached_def by (elim exE conjE) (auto intro!: exI dest: same_text_trans)

lemma char_of_byte_boundary:
  "lead_ok mb tx \<Longrightarrow> is_emacs_char_boundary tx k mb \<Longrightarrow> char_of_byte mb tx k c \<Longrightarrow> char_offset mb tx c k"
  using boundary_le [of tx k mb] inside_char_boundary [of mb tx k]
  by (auto simp: char_of_byte_def char_offset_def split: if_splits)

lemma convert_boundary:
  assumes "text_ok cs x" "is_emacs_char_boundary (bx_text x) k (bx_mb x)"
  shows "\<exists>c s. st_emacs_byte_pos_to_char_pos (tx_markers x) k (tx_storage x) = Some (c, s)
    \<and> char_offset (bx_mb x) (bx_text x) c k \<and> recached x (x\<lparr>tx_storage := s\<rparr>)"
  using byte_to_char_converts [OF text_okD(1,2) [OF assms(1)], of k] char_of_byte_boundary [OF text_okD(3) [OF assms(1)] assms(2)]
  by (auto simp: converts_def recached_def)

subsection \<open>Moving point and narrowing\<close>

lemma clamp_ordered: "lo \<le> hi \<Longrightarrow> clamp lo hi v = Some (max lo (min v hi))"
  by (simp add: clamp_def)

lemma text_anchor_sound:
  assumes ok: "text_ok cs x" and k: "is_emacs_char_boundary (bx_text x) (min k (length (bx_text x))) (bx_mb x)"
  shows "\<exists>a x'. text_anchor_for_emacs_byte_pos k x = Some (a, x') \<and> valid_anchor (bx_mb x) (bx_text x) a
    \<and> ta_byte a = min k (length (bx_text x)) \<and> recached x x'"
  using convert_boundary [OF ok k] recached_refl [OF ok]
  by (auto simp: text_anchor_for_emacs_byte_pos_def text_okD [OF ok] Let_def)

lemma buffer_onD:
  assumes "buffer_on x b"
  shows "bf_multibyte b = bx_mb x" "valid_anchor (bx_mb x) (bx_text x) (bf_point b)"
    "valid_anchor (bx_mb x) (bx_text x) (bf_accessible_start b)" "valid_anchor (bx_mb x) (bx_text x) (bf_accessible_end b)"
    "ta_byte (bf_accessible_start b) \<le> ta_byte (bf_point b)" "ta_byte (bf_point b) \<le> ta_byte (bf_accessible_end b)"
    "ta_byte (bf_accessible_end b) \<le> length (bx_text x)"
  using assms char_offset_le [of "bx_mb x" "bx_text x" "ta_char (bf_accessible_end b)"]
  by (auto simp: buffer_on_def state_ok_def edit_state_def)

text \<open>Going to a character position, whatever point was before: the region need not contain point yet.\<close>

lemma goto_sound:
  assumes ok: "text_ok cs x" and k: "is_emacs_char_boundary (bx_text x) k (bx_mb x)"
    and b: "bf_multibyte b = bx_mb x" "valid_anchor (bx_mb x) (bx_text x) (bf_accessible_start b)"
      "valid_anchor (bx_mb x) (bx_text x) (bf_accessible_end b)"
      "ta_byte (bf_accessible_start b) \<le> ta_byte (bf_accessible_end b)"
  shows "\<exists>a x'. goto_emacs_byte_pos k b x = Some (b\<lparr>bf_point := a\<rparr>, x') \<and> recached x x' \<and> buffer_on x' (b\<lparr>bf_point := a\<rparr>)
    \<and> ta_byte a = max (ta_byte (bf_accessible_start b)) (min k (ta_byte (bf_accessible_end b)))"
proof -
  let ?lo = "ta_byte (bf_accessible_start b)" and ?hi = "ta_byte (bf_accessible_end b)"
  let ?k = "max ?lo (min k ?hi)"
  have hi: "?hi \<le> length (bx_text x)" using char_offset_le [OF b(3)] by simp
  have "\<exists>a x'. accessible_anchor_for_emacs_byte_pos k b x = Some (a, x') \<and> recached x x' \<and> valid_anchor (bx_mb x) (bx_text x) a \<and> ta_byte a = ?k"
  proof (cases "?k = ?lo \<or> ?k = ?hi")
    case True
    then show ?thesis using b recached_refl [OF ok]
      by (auto simp: accessible_anchor_for_emacs_byte_pos_def clamp_ordered [OF b(4)])
  next
    case False
    then have "?k = k" using b(4) by (auto simp: max_def min_def split: if_splits)
    moreover from this have "min k (length (bx_text x)) = k" using hi b(4) False by (auto simp: max_def min_def split: if_splits)
    ultimately show ?thesis
      using False text_anchor_sound [OF ok, of k] k
      by (auto simp: accessible_anchor_for_emacs_byte_pos_def clamp_ordered [OF b(4)])
  qed
  then show ?thesis
    using b recached_keeps(4) by (fastforce simp: goto_emacs_byte_pos_def buffer_on_def state_ok_def edit_state_def recached_keeps)
qed

lemma goto_on:
  assumes "text_ok cs x" "buffer_on x b" "is_emacs_char_boundary (bx_text x) k (bx_mb x)"
  shows "\<exists>a x'. goto_emacs_byte_pos k b x = Some (b\<lparr>bf_point := a\<rparr>, x') \<and> recached x x' \<and> buffer_on x' (b\<lparr>bf_point := a\<rparr>)
    \<and> ta_byte a = max (ta_byte (bf_accessible_start b)) (min k (ta_byte (bf_accessible_end b)))"
  by (rule goto_sound [OF assms(1,3) buffer_onD(1,3,4) [OF assms(2)] order_trans [OF buffer_onD(5,6) [OF assms(2)]]])

lemma set_point_on:
  assumes ok: "text_ok cs x" "buffer_on x b" and p: "valid_anchor (bx_mb x) (bx_text x) p"
  shows "\<exists>a x'. set_point_anchor p b x = Some (b\<lparr>bf_point := a\<rparr>, x') \<and> recached x x' \<and> buffer_on x' (b\<lparr>bf_point := a\<rparr>)
    \<and> ta_byte a = max (ta_byte (bf_accessible_start b)) (min (ta_byte p) (ta_byte (bf_accessible_end b)))"
proof -
  have bd: "is_emacs_char_boundary (bx_text x) (ta_byte p) (bx_mb x)" using p by (simp add: char_offset_def)
  obtain a x' where g: "goto_emacs_byte_pos (ta_byte p) b x = Some (b\<lparr>bf_point := a\<rparr>, x')" "recached x x'" "buffer_on x' (b\<lparr>bf_point := a\<rparr>)"
      "ta_byte a = max (ta_byte (bf_accessible_start b)) (min (ta_byte p) (ta_byte (bf_accessible_end b)))"
    using goto_on [OF ok bd] by blast
  have r: "accessible_anchor_for_emacs_byte_pos (ta_byte p) b x = Some (a, x')"
    using g(1) by (auto simp: goto_emacs_byte_pos_def bind_eq_Some_conv dest: arg_cong [of _ _ bf_point])
  have a: "valid_anchor (bx_mb x) (bx_text x) a" using buffer_onD(2) [OF g(3)] recached_keeps(1,2) [OF g(2)] by simp
  have "ta_char a = ta_char p" if "ta_byte a = ta_byte p" using a p that by (simp add: char_offset_def)
  moreover have "ta_char p \<le> total_char_end_pos x'"
    using char_offset_le [OF p] text_okD(5) [OF recached_keeps(3) [OF g(2) ok(1)]] recached_keeps(1,2) [OF g(2)] by simp
  ultimately have "set_point_anchor p b x = Some (b\<lparr>bf_point := a\<rparr>, x')" using r by (simp add: set_point_anchor_def)
  then show ?thesis using g(2-4) by blast
qed

text \<open>The other fields of a buffer are not touched by moving point or the region.\<close>

definition same_buffer :: "('v, 'o) buffer \<Rightarrow> ('v, 'o) buffer \<Rightarrow> bool" where
  "same_buffer b b' \<longleftrightarrow> b' = b\<lparr>bf_point := bf_point b', bf_accessible_start := bf_accessible_start b', bf_accessible_end := bf_accessible_end b'\<rparr>"

lemma same_buffer_simps [simp]:
  "same_buffer b b" "same_buffer b (b\<lparr>bf_point := a\<rparr>)" "same_buffer b (set_accessible_region_anchors_unchecked s e b)"
  "same_buffer b (set_edit_state st b)"
  by (simp_all add: same_buffer_def set_accessible_region_anchors_unchecked_def set_edit_state_def)

lemma same_bufferD:
  assumes "same_buffer b b'"
  shows "bf_id b' = bf_id b" "bf_multibyte b' = bf_multibyte b" "bf_state_markers b' = bf_state_markers b"
    "bf_overlays b' = bf_overlays b" "bf_first_change_modtime b' = bf_first_change_modtime b"
    "bf_autosave_modified_tick b' = bf_autosave_modified_tick b"
  using assms by (cases b; cases b'; simp add: same_buffer_def)+

lemma same_buffer_trans: "same_buffer a b \<Longrightarrow> same_buffer b c \<Longrightarrow> same_buffer a c"
  unfolding same_buffer_def by (cases a; cases b; cases c) simp

lemma narrow_sound:
  assumes ok: "text_ok cs x" and mb: "bf_multibyte b = bx_mb x"
    and p: "is_emacs_char_boundary (bx_text x) (ta_byte (bf_point b)) (bx_mb x)"
    and r: "is_emacs_char_boundary (bx_text x) (min (br_start r) (length (bx_text x))) (bx_mb x)"
      "is_emacs_char_boundary (bx_text x) (min (br_end r) (length (bx_text x))) (bx_mb x)"
  shows "\<exists>b' x'. narrow_to_emacs_byte_range r b x = Some (b', x') \<and> recached x x' \<and> buffer_on x' b' \<and> same_buffer b b'
    \<and> ta_byte (bf_accessible_start b') = min (br_start r) (length (bx_text x))
    \<and> ta_byte (bf_accessible_end b') = max (min (br_start r) (length (bx_text x))) (min (br_end r) (length (bx_text x)))
    \<and> ta_byte (bf_point b') = max (ta_byte (bf_accessible_start b')) (min (ta_byte (bf_point b)) (ta_byte (bf_accessible_end b')))"
proof -
  let ?n = "length (bx_text x)"
  let ?s = "min (br_start r) ?n" and ?e = "max (min (br_start r) ?n) (min (br_end r) ?n)"
  have total: "total_emacs_byte_end_pos x = ?n" by (rule text_okD(4) [OF ok])
  have min_again: "min ?s ?n = ?s" "min ?e ?n = ?e" by simp_all
  have end_byte: "clamp ?s ?n (br_end r) = Some ?e" by (simp add: clamp_ordered)
  obtain s x1 where s: "text_anchor_for_emacs_byte_pos ?s x = Some (s, x1)" "valid_anchor (bx_mb x) (bx_text x) s"
      "ta_byte s = ?s" "recached x x1"
    using text_anchor_sound [OF ok, of ?s] r(1) unfolding min_again by blast
  have "is_emacs_char_boundary (bx_text x) ?e (bx_mb x)" using r by (simp add: max_def)
  then obtain e x2 where e: "text_anchor_for_emacs_byte_pos ?e x1 = Some (e, x2)" "valid_anchor (bx_mb x) (bx_text x) e"
      "ta_byte e = ?e" "recached x1 x2"
    using text_anchor_sound [OF recached_keeps(3) [OF s(4) ok], of ?e] unfolding recached_keeps(1,2) [OF s(4)] min_again by blast
  let ?b = "set_accessible_region_anchors_unchecked s e b"
  have x2: "recached x x2" by (rule recached_trans [OF s(4) e(4)])
  have "\<exists>a x'. goto_emacs_byte_pos (ta_byte (bf_point ?b)) ?b x2 = Some (?b\<lparr>bf_point := a\<rparr>, x') \<and> recached x2 x'
      \<and> buffer_on x' (?b\<lparr>bf_point := a\<rparr>)
      \<and> ta_byte a = max (ta_byte (bf_accessible_start ?b)) (min (ta_byte (bf_point ?b)) (ta_byte (bf_accessible_end ?b)))"
    using p mb s e
    by (intro goto_sound [OF recached_keeps(3) [OF x2 ok]])
      (auto simp: recached_keeps [OF x2] set_accessible_region_anchors_unchecked_def)
  then obtain a x' where a: "goto_emacs_byte_pos (ta_byte (bf_point ?b)) ?b x2 = Some (?b\<lparr>bf_point := a\<rparr>, x')" "recached x2 x'"
      "buffer_on x' (?b\<lparr>bf_point := a\<rparr>)"
      "ta_byte a = max (ta_byte (bf_accessible_start ?b)) (min (ta_byte (bf_point ?b)) (ta_byte (bf_accessible_end ?b)))"
    by blast
  have "narrow_to_emacs_byte_range r b x = Some (?b\<lparr>bf_point := a\<rparr>, x')"
    by (simp add: narrow_to_emacs_byte_range_def total end_byte s(1) e(1) a(1))
  moreover have sb: "same_buffer b (?b\<lparr>bf_point := a\<rparr>)" by (rule same_buffer_trans [OF same_buffer_simps(3) same_buffer_simps(2)])
  moreover have fields: "ta_byte (bf_accessible_start (?b\<lparr>bf_point := a\<rparr>)) = ?s" "ta_byte (bf_accessible_end (?b\<lparr>bf_point := a\<rparr>)) = ?e"
      "bf_point (?b\<lparr>bf_point := a\<rparr>) = a" "ta_byte (bf_accessible_start ?b) = ?s" "ta_byte (bf_accessible_end ?b) = ?e" "bf_point ?b = bf_point b"
    by (simp_all add: set_accessible_region_anchors_unchecked_def s(3) e(3))
  ultimately show ?thesis
    using a(3) recached_trans [OF x2 a(2)]
    by (intro exI [of _ "?b\<lparr>bf_point := a\<rparr>"] exI [of _ x'] conjI) (simp_all only: fields a(4) [unfolded fields])
qed

lemma set_region_and_point_sound:
  assumes ok: "text_ok cs x" and mb: "bf_multibyte b = bx_mb x"
    and p: "is_emacs_char_boundary (bx_text x) (ta_byte (bf_point b)) (bx_mb x)"
    and r: "is_emacs_char_boundary (bx_text x) (br_start r) (bx_mb x)" "is_emacs_char_boundary (bx_text x) (br_end r) (bx_mb x)"
    and k: "is_emacs_char_boundary (bx_text x) k (bx_mb x)"
  shows "\<exists>b' x'. set_accessible_region_and_point_from_emacs_bytes r k b x = Some (b', x') \<and> recached x x' \<and> buffer_on x' b'
    \<and> same_buffer b b' \<and> ta_byte (bf_accessible_start b') = br_start r \<and> ta_byte (bf_accessible_end b') = max (br_start r) (br_end r)
    \<and> ta_byte (bf_point b') = max (br_start r) (min k (max (br_start r) (br_end r)))"
proof -
  have n: "min (br_start r) (length (bx_text x)) = br_start r" "min (br_end r) (length (bx_text x)) = br_end r"
    using boundary_le [OF r(1)] boundary_le [OF r(2)] by simp_all
  obtain b1 x1 where b1: "narrow_to_emacs_byte_range r b x = Some (b1, x1)" "recached x x1" "buffer_on x1 b1" "same_buffer b b1"
      "ta_byte (bf_accessible_start b1) = br_start r" "ta_byte (bf_accessible_end b1) = max (br_start r) (br_end r)"
    using narrow_sound [OF ok mb p, of r] r n by auto
  obtain a x2 where a: "goto_emacs_byte_pos k b1 x1 = Some (b1\<lparr>bf_point := a\<rparr>, x2)" "recached x1 x2" "buffer_on x2 (b1\<lparr>bf_point := a\<rparr>)"
      "ta_byte a = max (ta_byte (bf_accessible_start b1)) (min k (ta_byte (bf_accessible_end b1)))"
    using goto_on [OF recached_keeps(3) [OF b1(2) ok] b1(3), of k] k by (auto simp: recached_keeps [OF b1(2)])
  then show ?thesis
    using b1 recached_trans [OF b1(2) a(2)] same_buffer_trans [OF b1(4) same_buffer_simps(2) [of _ a]]
    by (auto simp: set_accessible_region_and_point_from_emacs_bytes_def)
qed

text \<open>Reading the state markers back gives an ordered state, also when an edit in another buffer has moved them.\<close>

lemma marker_lookup_boundary:
  assumes ok: "text_ok cs x"
  shows "\<exists>r. marker_emacs_byte_pos mid x = Some r \<and> (\<forall>k. r = Some k \<longrightarrow> is_emacs_char_boundary (bx_text x) k (bx_mb x))"
proof -
  let ?t = "st_markers (tx_storage x)" and ?ms = "tx_markers x"
  have inv: "store_inv cs ?ms" and v: "markers_valid (bx_mb x) (bx_text x) (cs ?t) (ms_heap ?ms)"
    using text_okD(2) [OF ok] by (auto simp: text_markers_ok_def)
  note f = chain_find_alloc [OF inv, of ?t mid]
  show ?thesis
  proof (cases "List.find (\<lambda>p. mk_marker_id (the (ms_heap ?ms p)) = Some mid) (cs ?t)")
    case None
    then show ?thesis using f by (simp add: marker_emacs_byte_pos_def marker_chain_anchor_lookup_def)
  next
    case (Some p)
    then have "p \<in> set (cs ?t)" by (auto simp: find_Some_iff)
    then obtain m where "ms_heap ?ms p = Some m" "valid_anchor (bx_mb x) (bx_text x) (marker_data_anchor m)"
      using v unfolding markers_valid_iff by blast
    then show ?thesis using f Some
      by (simp add: marker_emacs_byte_pos_def marker_chain_anchor_lookup_def char_offset_def)
  qed
qed

lemma fetch_sound:
  assumes ok: "text_ok cs x" and on: "buffer_on x b"
  shows "\<exists>r. fetch_buffer_state_markers b x = Some r
    \<and> (\<forall>b' x'. r = Some (b', x') \<longrightarrow> recached x x' \<and> buffer_on x' b' \<and> same_buffer b b')"
proof (cases "bf_state_markers b")
  case (Some ids)
  obtain pt begv zv where m: "marker_emacs_byte_pos (sm_pt ids) x = Some pt" "marker_emacs_byte_pos (sm_begv ids) x = Some begv"
      "marker_emacs_byte_pos (sm_zv ids) x = Some zv"
      "\<And>k. pt = Some k \<or> begv = Some k \<or> zv = Some k \<Longrightarrow> is_emacs_char_boundary (bx_text x) k (bx_mb x)"
    using marker_lookup_boundary [OF ok] by metis
  have p: "is_emacs_char_boundary (bx_text x) (ta_byte (bf_point b)) (bx_mb x)"
    using buffer_onD(2) [OF on] by (simp add: char_offset_def)
  show ?thesis
  proof (cases "pt = None \<or> begv = None \<or> zv = None")
    case True
    then show ?thesis using Some m(1-3) by (auto simp: fetch_buffer_state_markers_def split: option.splits)
  next
    case False
    then obtain i j k where "pt = Some i" "begv = Some j" "zv = Some k" by auto
    then show ?thesis
      using Some m set_region_and_point_sound [OF ok buffer_onD(1) [OF on] p, of "byte_range_new j k" i]
      by (auto simp: fetch_buffer_state_markers_def)
  qed
qed (simp add: fetch_buffer_state_markers_def)

text \<open>C24: narrowing and restoring. In a consistent buffer, narrowing to a range of character positions and
  moving point in it returns; the region is the range, point is clamped into it, and the buffer is
  consistent. Restoring the saved region afterwards brings back exactly the old region, with point
  clamped into it.\<close>

theorem narrowing_round_trip:
  assumes "buffer_ok cs b x" "is_emacs_char_boundary (bx_text x) (br_start r) (bx_mb x)"
    "is_emacs_char_boundary (bx_text x) (br_end r) (bx_mb x)" "br_start r \<le> br_end r"
    "is_emacs_char_boundary (bx_text x) k (bx_mb x)"
  shows "\<exists>b1 x1 b2 x2. set_accessible_region_and_point_from_emacs_bytes r k b x = Some (b1, x1) \<and> buffer_ok cs b1 x1
     \<and> ta_byte (bf_accessible_start b1) = br_start r \<and> ta_byte (bf_accessible_end b1) = br_end r
     \<and> ta_byte (bf_point b1) = max (br_start r) (min k (br_end r))
     \<and> restore_accessible_region (accessible_region_snapshot b) b1 x1 = Some (b2, x2) \<and> buffer_ok cs b2 x2
     \<and> accessible_region_snapshot b2 = accessible_region_snapshot b
     \<and> ta_byte (bf_point b2) = max (ta_byte (bf_accessible_start b)) (min (ta_byte (bf_point b1)) (ta_byte (bf_accessible_end b)))"
proof -
  have ok: "text_ok cs x" "buffer_on x b" using assms(1) by (simp_all add: buffer_ok_def)
  note on = buffer_onD [OF ok(2)]
  have p: "is_emacs_char_boundary (bx_text x) (ta_byte (bf_point b)) (bx_mb x)" using on(2) by (simp add: char_offset_def)
  obtain b1 x1 where b1: "set_accessible_region_and_point_from_emacs_bytes r k b x = Some (b1, x1)" "recached x x1" "buffer_on x1 b1"
      "same_buffer b b1" "ta_byte (bf_accessible_start b1) = br_start r" "ta_byte (bf_accessible_end b1) = br_end r"
      "ta_byte (bf_point b1) = max (br_start r) (min k (br_end r))"
    using set_region_and_point_sound [OF ok(1) on(1) p assms(2,3,5)] assms(4) by (auto simp: max_absorb2)
  note x1 = recached_keeps [OF b1(2)]
  let ?b = "set_accessible_region_anchors_unchecked (bf_accessible_start b) (bf_accessible_end b) b1"
  have "\<exists>a x'. goto_emacs_byte_pos (ta_byte (bf_point ?b)) ?b x1 = Some (?b\<lparr>bf_point := a\<rparr>, x') \<and> recached x1 x'
      \<and> buffer_on x' (?b\<lparr>bf_point := a\<rparr>)
      \<and> ta_byte a = max (ta_byte (bf_accessible_start ?b)) (min (ta_byte (bf_point ?b)) (ta_byte (bf_accessible_end ?b)))"
    using on order_trans [OF on(5,6)] buffer_onD(1,2) [OF b1(3)]
    by (intro goto_sound [OF x1(3) [OF ok(1)]])
      (auto simp: x1 set_accessible_region_anchors_unchecked_def char_offset_def)
  then show ?thesis
    using b1 x1(3) [OF ok(1)] recached_keeps(3)
    by (fastforce simp: restore_accessible_region_def accessible_region_snapshot_def buffer_ok_def
        set_accessible_region_anchors_unchecked_def)
qed

definition sample_text_object :: "(nat, nat) text_object" where
  "sample_text_object = \<lparr>tx_storage = sample_storage PieceTree, tx_markers = sample_markers, tx_changes = text_changes_new, tx_props = 0,
     tx_undo_list = Undo_List [], tx_recorded_first_change = False, tx_saved_point = Some (1, 0)\<rparr>"

definition sample_buffer :: "(nat, nat) buffer" where
  "sample_buffer = \<lparr>bf_id = 1, bf_point = anchor_new 2 3, bf_accessible_start = anchor_new 0 0, bf_accessible_end = anchor_new 3 4,
     bf_autosave_modified_tick = 1, bf_state_markers = None, bf_multibyte = True, bf_first_change_modtime = 0, bf_overlays = 0\<rparr>"

lemma sample_buffer_ok: "buffer_ok sample_chains sample_buffer sample_text_object"
proof -
  have "state_ok True sample_text (edit_state sample_buffer)"
    unfolding sample_text_def sample_buffer_def edit_state_def by code_simp
  then show ?thesis
    using sample_storage_inv [of PieceTree]
    by (simp add: buffer_ok_def text_ok_def buffer_on_def sample_text_object_def) (simp add: sample_buffer_def)
qed

theorem narrowing_round_trip_witness:
  "\<exists>b1 x1 b2 x2. set_accessible_region_and_point_from_emacs_bytes (byte_range_new 1 3) 3 sample_buffer sample_text_object = Some (b1, x1)
     \<and> buffer_ok sample_chains b1 x1
     \<and> ta_byte (bf_accessible_start b1) = br_start (byte_range_new 1 3) \<and> ta_byte (bf_accessible_end b1) = br_end (byte_range_new 1 3)
     \<and> ta_byte (bf_point b1) = max (br_start (byte_range_new 1 3)) (min 3 (br_end (byte_range_new 1 3)))
     \<and> restore_accessible_region (accessible_region_snapshot sample_buffer) b1 x1 = Some (b2, x2) \<and> buffer_ok sample_chains b2 x2
     \<and> accessible_region_snapshot b2 = accessible_region_snapshot sample_buffer
     \<and> ta_byte (bf_point b2) = max (ta_byte (bf_accessible_start sample_buffer)) (min (ta_byte (bf_point b1)) (ta_byte (bf_accessible_end sample_buffer)))"
proof -
  have t: "bx_text sample_text_object = sample_text" "bx_mb sample_text_object"
    using sample_storage_inv [of PieceTree] by (simp_all add: sample_text_object_def)
  have "is_emacs_char_boundary sample_text 1 True" "is_emacs_char_boundary sample_text 3 True"
    by code_simp+
  then show ?thesis by (intro narrowing_round_trip [OF sample_buffer_ok]) (simp_all add: t)
qed

end
