(* ===== verification/Edit_Transaction.thy ===== *)
theory Edit_Transaction
  imports Buffer_Object
begin

text \<open>
  Edit transactions of \<open>src/crates/neovm-core/src/buffer/edit_transaction.rs\<close>: what an insertion, a
  deletion, a replacement, a change of case and a substitution of characters do to a buffer, in the
  order the code does it. Each executor records the undo entries, changes the storage, moves point,
  the accessible region and the markers, notes the change for redisplay, and adjusts text properties
  and overlays; then the buffers that share the text follow.

  The tables of text properties and the overlay lists are values of unknown type, and their
  operations (\<open>text_props.rs\<close>, \<open>overlay.rs\<close>) are collected in a record that the executors
  take as an argument and call where the code calls them; nothing is assumed of them but that they
  return. Their memo tables for syntax scanning are left out. Debug assertions are live checks, as
  everywhere; the one on an insertion converts the place of the edit again and so fills a cache.
\<close>

subsection \<open>Operations on text properties and overlays\<close>

record ('p, 'o) side_data_ops =
  so_empty :: 'p
  so_is_empty :: "'p \<Rightarrow> bool"
  so_slice_char_range :: "char_range \<Rightarrow> 'p \<Rightarrow> 'p"
  so_append_shifted_at_char_pos :: "'p \<Rightarrow> char_pos0 \<Rightarrow> 'p \<Rightarrow> 'p"
  so_clear_properties :: "char_range \<Rightarrow> char_len \<Rightarrow> 'p \<Rightarrow> 'p"
  so_adjust_for_insert :: "char_pos0 \<Rightarrow> char_len \<Rightarrow> 'p \<Rightarrow> 'p"
  so_adjust_for_delete :: "char_range \<Rightarrow> 'p \<Rightarrow> 'p"
  so_adjust_for_replace :: "char_pos0 \<Rightarrow> char_len \<Rightarrow> char_len \<Rightarrow> 'p \<Rightarrow> 'p"
  so_overlays_insert :: "emacs_byte_pos \<Rightarrow> emacs_byte_len \<Rightarrow> bool \<Rightarrow> 'o \<Rightarrow> 'o"
  so_overlays_delete :: "emacs_byte_range \<Rightarrow> 'o \<Rightarrow> 'o"

definition adjust_text_props_for_insert_at ::
    "('p, 'o) side_data_ops \<Rightarrow> char_pos0 \<Rightarrow> char_len \<Rightarrow> ('p, 'v) text_object \<Rightarrow> ('p, 'v) text_object" where
  "adjust_text_props_for_insert_at ops pos len x =
     (if so_is_empty ops (tx_props x) then x else x\<lparr>tx_props := so_adjust_for_insert ops pos len (tx_props x)\<rparr>)"

definition adjust_text_props_for_delete_range ::
    "('p, 'o) side_data_ops \<Rightarrow> char_range \<Rightarrow> ('p, 'v) text_object \<Rightarrow> ('p, 'v) text_object" where
  "adjust_text_props_for_delete_range ops r x =
     (if so_is_empty ops (tx_props x) then x else x\<lparr>tx_props := so_adjust_for_delete ops r (tx_props x)\<rparr>)"

definition adjust_text_props_for_replace_at ::
    "('p, 'o) side_data_ops \<Rightarrow> char_pos0 \<Rightarrow> char_len \<Rightarrow> char_len \<Rightarrow> ('p, 'v) text_object \<Rightarrow> ('p, 'v) text_object" where
  "adjust_text_props_for_replace_at ops start old_len new_len x =
     x\<lparr>tx_props := so_adjust_for_replace ops start old_len new_len (tx_props x)\<rparr>"

definition text_props_append_shifted_at_emacs_byte_pos ::
    "('p, 'o) side_data_ops \<Rightarrow> 'p \<Rightarrow> emacs_byte_pos \<Rightarrow> ('p, 'v) text_object \<Rightarrow> ('p, 'v) text_object option" where
  "text_props_append_shifted_at_emacs_byte_pos ops other pos x = do {
     (r, s) \<leftarrow> st_byte_range_to_char_range (tx_markers x) (byte_range_new pos pos) (tx_storage x);
     Some (x\<lparr>tx_storage := s, tx_props := so_append_shifted_at_char_pos ops other (cr_start r) (tx_props x)\<rparr>)
   }"

definition text_props_set_properties_in_emacs_byte_range ::
    "('p, 'o) side_data_ops \<Rightarrow> emacs_byte_range \<Rightarrow> ('p, 'v) text_object \<Rightarrow> ('p, 'v) text_object option" where
  "text_props_set_properties_in_emacs_byte_range ops r x = do {
     (c, b) \<leftarrow> tb_emacs_byte_pos_to_char_pos (br_start r) (st_backend (tx_storage x));
     (d, b) \<leftarrow> tb_emacs_byte_pos_to_char_pos (br_end r) b;
     Some (x\<lparr>tx_storage := (tx_storage x)\<lparr>st_backend := b\<rparr>,
             tx_props := so_clear_properties ops (char_range_new c d) (tm_chars (st_metrics (tx_storage x))) (tx_props x)\<rparr>)
   }"

definition adjust_overlays_for_insert_at :: "('p, 'o) side_data_ops \<Rightarrow> text_insertion \<Rightarrow> bool \<Rightarrow> ('v, 'o) buffer \<Rightarrow> ('v, 'o) buffer" where
  "adjust_overlays_for_insert_at ops ins before b =
     b\<lparr>bf_overlays := so_overlays_insert ops (ti_byte ins) (te_bytes (ti_extent ins)) before (bf_overlays b)\<rparr>"

definition adjust_overlays_for_deleted_text :: "('p, 'o) side_data_ops \<Rightarrow> text_edit_range \<Rightarrow> ('v, 'o) buffer \<Rightarrow> ('v, 'o) buffer" where
  "adjust_overlays_for_deleted_text ops r b =
     (if byte_range_is_empty (er_bytes r) then b else b\<lparr>bf_overlays := so_overlays_delete ops (er_bytes r) (bf_overlays b)\<rparr>)"

definition adjust_overlays_for_replaced_text :: "('p, 'o) side_data_ops \<Rightarrow> text_replacement \<Rightarrow> ('v, 'o) buffer \<Rightarrow> ('v, 'o) buffer" where
  "adjust_overlays_for_replaced_text ops rep b =
     (let start = er_byte_start (tr_old rep); old_len = edit_range_byte_len (tr_old rep); new_len = te_bytes (tr_new rep)
      in if old_len = 0 then b\<lparr>bf_overlays := so_overlays_insert ops start new_len False (bf_overlays b)\<rparr>
         else b\<lparr>bf_overlays := so_overlays_delete ops (byte_range_from_start_len start old_len)
             (so_overlays_insert ops (add_len start old_len) new_len True (bf_overlays b))\<rparr>)"

subsection \<open>Measured edits and plans\<close>

record measured_insert_edit =
  mi_insertion :: text_insertion
  mi_marker_placement :: insert_marker_placement
  mi_marker_adjustment :: insert_marker_adjustment

definition insert_edit_is_empty :: "measured_insert_edit \<Rightarrow> bool" where
  "insert_edit_is_empty e \<longleftrightarrow> extent_is_empty (ti_extent (mi_insertion e))"

type_synonym measured_delete_edit = text_edit_range

type_synonym measured_replace_edit = text_replacement

definition replace_edit_is_empty :: "measured_replace_edit \<Rightarrow> bool" where
  "replace_edit_is_empty e \<longleftrightarrow> edit_range_is_empty (tr_old e) \<and> extent_is_empty (tr_new e)"

record measured_same_len_edit =
  sl_storage_range :: text_edit_range
  sl_modified_range :: text_edit_range

definition same_len_edit_covering :: "text_edit_range \<Rightarrow> measured_same_len_edit" where
  "same_len_edit_covering r = \<lparr>sl_storage_range = r, sl_modified_range = r\<rparr>"

definition same_len_edit_is_empty :: "measured_same_len_edit \<Rightarrow> bool" where
  "same_len_edit_is_empty e \<longleftrightarrow> edit_range_is_empty (sl_storage_range e) \<or> edit_range_is_empty (sl_modified_range e)"

record 'p insert_text_plan =
  ip_edit :: measured_insert_edit
  ip_text_properties :: 'p

definition insert_plan_for_extent ::
    "text_extent \<Rightarrow> 'p \<Rightarrow> text_position_anchor \<Rightarrow> insert_marker_placement \<Rightarrow> insert_marker_adjustment \<Rightarrow> 'p insert_text_plan" where
  "insert_plan_for_extent e props a placement adjustment =
     \<lparr>ip_edit = \<lparr>mi_insertion = insertion_at_anchor a e, mi_marker_placement = placement, mi_marker_adjustment = adjustment\<rparr>,
      ip_text_properties = props\<rparr>"

definition insert_plan_for_bytes ::
    "('p, 'o) side_data_ops \<Rightarrow> bytes \<Rightarrow> bool \<Rightarrow> text_position_anchor \<Rightarrow> insert_marker_placement \<Rightarrow> insert_marker_adjustment
      \<Rightarrow> 'p insert_text_plan" where
  "insert_plan_for_bytes ops bs mb a placement adjustment =
     insert_plan_for_extent (extent_from_emacs_bytes bs mb) (so_empty ops) a placement adjustment"

text \<open>
  The assertion that a string's header measures its payload holds by definition: the header fields are not data
  here, \<open>schars\<close> counts the payload.
\<close>

definition insert_plan_for_lisp_string ::
    "'p lisp_string \<Rightarrow> text_position_anchor \<Rightarrow> insert_marker_placement \<Rightarrow> insert_marker_adjustment \<Rightarrow> 'p insert_text_plan" where
  "insert_plan_for_lisp_string str a placement adjustment =
     insert_plan_for_extent (extent_new (schars str) (length (ls_bytes str))) (ls_intervals str) a placement adjustment"

record 'p replace_text_plan =
  rp_bytes :: bytes
  rp_text_properties :: 'p
  rp_replacement :: text_replacement

definition replace_plan_as_insert_plan ::
    "'p replace_text_plan \<Rightarrow> text_position_anchor \<Rightarrow> insert_marker_placement \<Rightarrow> insert_marker_adjustment \<Rightarrow> 'p insert_text_plan" where
  "replace_plan_as_insert_plan plan a placement adjustment =
     insert_plan_for_extent (tr_new (rp_replacement plan)) (rp_text_properties plan) a placement adjustment"

datatype deletion_string = IfRecorded | Wanted

record 'p delete_text_plan =
  dl_range :: measured_delete_edit
  dl_deleted_text :: "'p lisp_string option"
  dl_marker_adjustments :: "(nat \<times> int) list"

subsection \<open>Lisp strings for a buffer\<close>

function lisp_string_codes_loop :: "bytes \<Rightarrow> u32 list option" where
  "lisp_string_codes_loop bs = (case bs of
       [] \<Rightarrow> Some []
     | b # rest \<Rightarrow>
         if b < 0x80 then map_option (Cons (ucast b)) (lisp_string_codes_loop rest)
         else case string_char_unchecked bs of
           None \<Rightarrow> None
         | Some (c, len) \<Rightarrow> map_option (Cons c) (lisp_string_codes_loop (drop len bs)))"
  by pat_completeness auto

lemma string_char_unchecked_len: "string_char_unchecked bs = Some (c, len) \<Longrightarrow> 0 < len"
  by (auto simp: string_char_unchecked_def Let_def bind_eq_Some_conv split: if_splits)

termination lisp_string_codes_loop
  by (relation "measure length") (auto dest: string_char_unchecked_len)

declare lisp_string_codes_loop.simps [simp del]

definition lisp_string_char_codes :: "'p lisp_string \<Rightarrow> u32 list option" where
  "lisp_string_char_codes str =
     (if \<not> ls_multibyte str then Some (map ucast (ls_bytes str)) else lisp_string_codes_loop (ls_bytes str))"

definition encode_char_code_for_buffer_bytes :: "u32 \<Rightarrow> bool \<Rightarrow> bytes option" where
  "encode_char_code_for_buffer_bytes code mb =
     (if mb then char_string code
      else do { panic_unless (code \<le> 0xFF); Some [ucast code] })"

fun encode_codes :: "bool \<Rightarrow> u32 list \<Rightarrow> bytes option" where
  "encode_codes mb [] = Some []"
| "encode_codes mb (c # cs) = do {
     e \<leftarrow> encode_char_code_for_buffer_bytes c mb;
     bs \<leftarrow> encode_codes mb cs;
     Some (e @ bs)
   }"

definition convert_lisp_string_for_buffer_mode :: "'p lisp_string \<Rightarrow> bool \<Rightarrow> 'p lisp_string option" where
  "convert_lisp_string_for_buffer_mode str target =
     (if ls_multibyte str = target then Some str
      else do {
        codes \<leftarrow> lisp_string_char_codes str;
        let codes = (if target then map (\<lambda>c. if 0x7F < c then unibyte_to_char (ucast c) else c) codes
                     else map (\<lambda>c. c AND 0xFF) codes);
        bs \<leftarrow> encode_codes target codes;
        Some \<lparr>ls_bytes = bs, ls_multibyte = target, ls_intervals = ls_intervals str\<rparr>
      })"

definition replace_plan_from_lisp_string :: "text_edit_range \<Rightarrow> 'p lisp_string \<Rightarrow> bool \<Rightarrow> 'p replace_text_plan option" where
  "replace_plan_from_lisp_string r str mb = do {
     str \<leftarrow> (if ls_multibyte str \<noteq> mb then convert_lisp_string_for_buffer_mode str mb else Some str);
     Some \<lparr>rp_bytes = ls_bytes str, rp_text_properties = ls_intervals str,
           rp_replacement = replacement_new r (extent_new (schars str) (length (ls_bytes str)))\<rparr>
   }"

definition buffer_region_lisp_string ::
    "('p, 'o) side_data_ops \<Rightarrow> emacs_byte_range \<Rightarrow> ('v, 'o) buffer \<Rightarrow> ('p, 'v) text_object \<Rightarrow> ('p lisp_string \<times> ('p, 'v) text_object) option" where
  "buffer_region_lisp_string ops r b x = do {
     bs \<leftarrow> tb_copy_emacs_byte_range_to r (st_backend (tx_storage x));
     (cr, s) \<leftarrow> st_byte_range_to_char_range (tx_markers x) r (tx_storage x);
     let props = so_slice_char_range ops cr (tx_props x);
     Some (\<lparr>ls_bytes = bs, ls_multibyte = bf_multibyte b,
            ls_intervals = (if so_is_empty ops props then so_empty ops else props)\<rparr>,
           x\<lparr>tx_storage := s\<rparr>)
   }"

subsection \<open>Recording before a change\<close>

definition undo_prepare_change :: "char_pos0 \<Rightarrow> ('v, 'o) buffer \<Rightarrow> ('p, 'v) text_object \<Rightarrow> ('p, 'v) text_object" where
  "undo_prepare_change beg b x =
     (let ul = tx_undo_list x
      in if undo_list_is_disabled ul then x
         else let at_boundary = undo_list_at_boundary ul;
                  first = tc_modified_tick (tx_changes x) \<le> tc_save_modified_tick (tx_changes x);
                  ul = (if first then undo_list_record_first_change (bf_first_change_modtime b) ul else ul);
                  ul = (case point_saved_in (bf_id b) (tx_saved_point x) of
                          Some saved_point \<Rightarrow> if at_boundary \<and> saved_point \<noteq> beg then undo_list_record_point saved_point ul else ul
                        | None \<Rightarrow> ul)
              in x\<lparr>tx_undo_list := ul, tx_recorded_first_change := first \<or> tx_recorded_first_change x\<rparr>)"

definition delete_text_plan_for_range_extracting ::
    "('p, 'o) side_data_ops \<Rightarrow> text_edit_range \<Rightarrow> deletion_string \<Rightarrow> ('v, 'o) buffer \<Rightarrow> ('p, 'v) text_object
      \<Rightarrow> ('p delete_text_plan \<times> ('p, 'v) text_object) option" where
  "delete_text_plan_for_range_extracting ops r want b x = do {
     let build = (want = Wanted \<or> \<not> undo_list_is_disabled (tx_undo_list x));
     (deleted, x) \<leftarrow> (if build then do { (str, x) \<leftarrow> buffer_region_lisp_string ops (er_bytes r) b x; Some (Some str, x) }
                     else Some (None, x));
     adjustments \<leftarrow> marker_adjustments_for_delete (st_markers (tx_storage x)) r (tx_markers x);
     Some (\<lparr>dl_range = r, dl_deleted_text = deleted, dl_marker_adjustments = adjustments\<rparr>, x)
   }"

subsection \<open>Side effects of a change of the text\<close>

definition note_char_change :: "char_len \<Rightarrow> int \<Rightarrow> int \<Rightarrow> int \<Rightarrow> ('p, 'v) text_object \<Rightarrow> ('p, 'v) text_object" where
  "note_char_change changed_chars start stop old_z x =
     x\<lparr>tx_changes := note_changed_char_region start stop old_z (record_char_modification (modification_tick_delta changed_chars) (tx_changes x))\<rparr>"

definition on_markers :: "(nat \<Rightarrow> marker_store \<Rightarrow> marker_store option) \<Rightarrow> ('p, 'v) text_object \<Rightarrow> ('p, 'v) text_object option" where
  "on_markers f x = do {
     ms \<leftarrow> f (st_markers (tx_storage x)) (tx_markers x);
     Some (x\<lparr>tx_markers := ms\<rparr>)
   }"

definition apply_byte_insert_side_effects ::
    "('p, 'o) side_data_ops \<Rightarrow> measured_insert_edit \<Rightarrow> insert_policy \<Rightarrow> ('v, 'o) buffer \<Rightarrow> ('p, 'v) text_object
      \<Rightarrow> (('v, 'o) buffer \<times> ('p, 'v) text_object) option" where
  "apply_byte_insert_side_effects ops e policy b x =
     (if insert_edit_is_empty e then Some (b, x)
      else do {
        let ins = mi_insertion e;
        let here = adjust_in_this_buffer (ip_shared_side_data policy);
        st \<leftarrow> insert_state_after_edit (edit_state b) ins policy;
        let b = set_edit_state st b;
        x \<leftarrow> (if here
             then if mi_marker_adjustment e = StrictAfter
                  then on_markers (\<lambda>t. adjust_markers_for_insert_extent_strict_after t (ti_byte ins) (ti_extent ins)) x
                  else on_markers (\<lambda>t. adjust_markers_for_insert_extent t (ti_byte ins) (ti_extent ins)) x
             else Some x);
        (c, s) \<leftarrow> st_emacs_byte_pos_to_char_pos (tx_markers x) (ti_byte ins) (tx_storage x);
        panic_unless (c = ti_char ins);
        let x = x\<lparr>tx_storage := s\<rparr>;
        let x = (if here then adjust_text_props_for_insert_at ops (ti_char ins) (te_chars (ti_extent ins)) x else x);
        let b = adjust_overlays_for_insert_at ops ins (before_markers (mi_marker_placement e)) b;
        let pos = int (ti_char ins);
        let inserted = te_chars (ti_extent ins);
        Some (b, note_char_change inserted pos pos (int (tm_chars (st_metrics (tx_storage x))) - int inserted) x)
      })"

definition apply_byte_delete_side_effects ::
    "('p, 'o) side_data_ops \<Rightarrow> measured_delete_edit \<Rightarrow> delete_policy \<Rightarrow> ('v, 'o) buffer \<Rightarrow> ('p, 'v) text_object
      \<Rightarrow> (('v, 'o) buffer \<times> ('p, 'v) text_object) option" where
  "apply_byte_delete_side_effects ops r policy b x =
     (if edit_range_is_empty r then Some (b, x)
      else do {
        let here = adjust_in_this_buffer (dp_shared_side_data policy);
        st \<leftarrow> delete_state_after_edit (edit_state b) r policy;
        let b = set_edit_state st b;
        x \<leftarrow> (if here then on_markers (\<lambda>t. adjust_markers_for_delete_range t r) x else Some x);
        let x = (if here then adjust_text_props_for_delete_range ops (edit_range_char_range r) x else x);
        let b = adjust_overlays_for_deleted_text ops r b;
        let start = int (er_char_start r);
        let deleted = edit_range_char_len r;
        Some (b, note_char_change deleted start (start + int deleted) (int (tm_chars (st_metrics (tx_storage x))) + int deleted) x)
      })"

definition apply_replace_side_effects ::
    "('p, 'o) side_data_ops \<Rightarrow> measured_replace_edit \<Rightarrow> replace_policy \<Rightarrow> ('v, 'o) buffer \<Rightarrow> ('p, 'v) text_object
      \<Rightarrow> (('v, 'o) buffer \<times> ('p, 'v) text_object) option" where
  "apply_replace_side_effects ops e policy b x =
     (if replace_edit_is_empty e then Some (b, x)
      else do {
        let here = adjust_in_this_buffer (rp_shared_side_data policy);
        st \<leftarrow> replace_state_after e (edit_state b) policy;
        let b = set_edit_state st b;
        x \<leftarrow> (if here then on_markers (\<lambda>t. adjust_markers_for_replace_range t (tr_old e) (tr_new e)) x else Some x);
        let start = er_char_start (tr_old e);
        let old_len = edit_range_char_len (tr_old e);
        let new_len = te_chars (tr_new e);
        let x = (if here then adjust_text_props_for_replace_at ops start old_len new_len x else x);
        let b = adjust_overlays_for_replaced_text ops e b;
        Some (b, note_char_change (replacement_changed_chars e) (int start) (int start + int old_len)
                   (int (tm_chars (st_metrics (tx_storage x))) - int new_len + int old_len) x)
      })"

datatype modified_state = MS_Nil | MS_T | MS_Autosaved

definition modified_state_value :: "('v, 'o) buffer \<Rightarrow> ('p, 'v) text_object \<Rightarrow> modified_state" where
  "modified_state_value b x =
     (let s = tx_changes x
      in if tc_save_modified_tick s < tc_modified_tick s
         then if bf_autosave_modified_tick b = tc_modified_tick s then MS_Autosaved else MS_T
         else MS_Nil)"

definition apply_same_len_edit_side_effects ::
    "measured_same_len_edit \<Rightarrow> same_len_modified_state_policy \<Rightarrow> ('v, 'o) buffer \<Rightarrow> ('p, 'v) text_object \<Rightarrow> ('p, 'v) text_object" where
  "apply_same_len_edit_side_effects e modified_state b x =
     (if same_len_edit_is_empty e then x
      else let old_state = modified_state_value b x; m = sl_modified_range e;
               x = note_char_change (edit_range_char_len m) (int (er_char_start m)) (int (er_char_end m))
                     (int (tm_chars (st_metrics (tx_storage x)))) x
           in if preserve_unmodified_if_clean modified_state \<and> old_state = MS_Nil
              then x\<lparr>tx_changes := (tx_changes x)\<lparr>tc_save_modified_tick := tc_modified_tick (tx_changes x)\<rparr>\<rparr>
              else x)"

subsection \<open>Executors\<close>

definition apply_insert_text_plan ::
    "('p, 'o) side_data_ops \<Rightarrow> bytes \<Rightarrow> 'p insert_text_plan \<Rightarrow> ('v, 'o) buffer \<Rightarrow> ('p, 'v) text_object
      \<Rightarrow> (text_insertion \<times> ('v, 'o) buffer \<times> ('p, 'v) text_object) option" where
  "apply_insert_text_plan ops payload plan b x =
     (let e = ip_edit plan; ins = mi_insertion e
      in if insert_edit_is_empty e then Some (ins, b, x)
         else do {
           s \<leftarrow> st_insert_measured_emacs_bytes (ti_byte ins) payload (ti_extent ins) (tx_storage x);
           (b, x) \<leftarrow> apply_byte_insert_side_effects ops e insert_policy_current b (x\<lparr>tx_storage := s\<rparr>);
           x \<leftarrow> (if before_markers (mi_marker_placement e)
                then on_markers (\<lambda>t. advance_markers_at_position t (ti_byte ins) (ti_extent ins)) x else Some x);
           x \<leftarrow> (if so_is_empty ops (ip_text_properties plan) then Some x
                else text_props_append_shifted_at_emacs_byte_pos ops (ip_text_properties plan) (ti_byte ins) x);
           Some (ins, b, x)
         })"

definition execute_insert_text_plan ::
    "('p, 'o) side_data_ops \<Rightarrow> bytes \<Rightarrow> 'p insert_text_plan \<Rightarrow> ('v, 'o) buffer \<Rightarrow> ('p, 'v) text_object
      \<Rightarrow> (text_insertion \<times> ('v, 'o) buffer \<times> ('p, 'v) text_object) option" where
  "execute_insert_text_plan ops payload plan b x =
     (let e = ip_edit plan; ins = mi_insertion e
      in if insert_edit_is_empty e then Some (ins, b, x)
         else let x = undo_prepare_change (ti_char ins) b x;
                  x = x\<lparr>tx_undo_list := undo_list_record_insert (ti_char ins) (te_chars (ti_extent ins)) (tx_undo_list x)\<rparr>
              in apply_insert_text_plan ops payload plan b x)"

definition record_marker_adjustments :: "(nat \<times> int) list \<Rightarrow> ('p, 'v) undo_list \<Rightarrow> ('p, 'v) undo_list" where
  "record_marker_adjustments adjustments ul = fold (\<lambda>(m, d). undo_list_record_marker_adjustment m d) adjustments ul"

definition execute_delete_text_plan_extracting ::
    "('p, 'o) side_data_ops \<Rightarrow> 'p delete_text_plan \<Rightarrow> ('v, 'o) buffer \<Rightarrow> ('p, 'v) text_object
      \<Rightarrow> (text_edit_range \<times> 'p lisp_string option \<times> ('v, 'o) buffer \<times> ('p, 'v) text_object) option" where
  "execute_delete_text_plan_extracting ops plan b x =
     (let r = dl_range plan
      in if edit_range_is_empty r then Some (r, dl_deleted_text plan, b, x)
         else do {
           let x = undo_prepare_change (er_char_start r) b x;
           x \<leftarrow> (if undo_list_is_disabled (tx_undo_list x) then Some x
                else do {
                  let ul = record_marker_adjustments (dl_marker_adjustments plan) (tx_undo_list x);
                  (deleted, x) \<leftarrow> (case dl_deleted_text plan of Some str \<Rightarrow> Some (str, x)
                                  | None \<Rightarrow> buffer_region_lisp_string ops (er_bytes r) b x);
                  Some (x\<lparr>tx_undo_list := undo_list_record_delete (er_char_start r) deleted (ta_char (bf_point b)) ul\<rparr>)
                });
           s \<leftarrow> st_delete_measured_range r (tx_storage x);
           (b, x) \<leftarrow> apply_byte_delete_side_effects ops r delete_policy_current b (x\<lparr>tx_storage := s\<rparr>);
           Some (r, dl_deleted_text plan, b, x)
         })"

definition record_replace_range_undo ::
    "('p, 'o) side_data_ops \<Rightarrow> 'p replace_text_plan \<Rightarrow> ('v, 'o) buffer \<Rightarrow> ('p, 'v) text_object \<Rightarrow> ('p, 'v) text_object option" where
  "record_replace_range_undo ops plan b x = do {
     let old = tr_old (rp_replacement plan);
     (deleted, x) \<leftarrow> buffer_region_lisp_string ops (er_bytes old) b x;
     let x = undo_prepare_change (er_char_end old) b x;
     Some (if undo_list_is_disabled (tx_undo_list x) then x
           else let ul = undo_list_record_insert (er_char_end old) (te_chars (tr_new (rp_replacement plan))) (tx_undo_list x);
                    ul = undo_list_record_delete (er_char_start old) deleted (ta_char (bf_point b)) ul
                in x\<lparr>tx_undo_list := ul\<rparr>)
   }"

text \<open>What follows the storage change of a replacement: the properties of the new text, or none.\<close>

definition seat_replacement_properties ::
    "('p, 'o) side_data_ops \<Rightarrow> 'p replace_text_plan \<Rightarrow> ('p, 'v) text_object \<Rightarrow> ('p, 'v) text_object option" where
  "seat_replacement_properties ops plan x =
     (let start = er_byte_start (tr_old (rp_replacement plan)); new = tr_new (rp_replacement plan)
      in if \<not> so_is_empty ops (rp_text_properties plan)
         then text_props_append_shifted_at_emacs_byte_pos ops (rp_text_properties plan) start x
         else if te_chars new \<noteq> 0
         then text_props_set_properties_in_emacs_byte_range ops (byte_range_from_start_len start (te_bytes new)) x
         else Some x)"

definition execute_replace_text_plan ::
    "('p, 'o) side_data_ops \<Rightarrow> 'p replace_text_plan \<Rightarrow> ('v, 'o) buffer \<Rightarrow> ('p, 'v) text_object
      \<Rightarrow> (text_replacement \<times> ('v, 'o) buffer \<times> ('p, 'v) text_object) option" where
  "execute_replace_text_plan ops plan b x =
     (let rep = rp_replacement plan; old = tr_old rep
      in if edit_range_is_empty old \<and> te_chars (tr_new rep) = 0 then Some (replacement_new old (tr_new rep), b, x)
         else do {
           x \<leftarrow> record_replace_range_undo ops plan b x;
           if edit_range_is_empty old
           then do {
             (ins, b, x) \<leftarrow> apply_insert_text_plan ops (rp_bytes plan)
               (replace_plan_as_insert_plan plan (edit_range_start_anchor old) AfterMarkers ByInsertionType) b x;
             panic_unless (er_byte_start old = ti_byte ins);
             panic_unless (er_char_start old = ti_char ins);
             Some (replacement_new old (ti_extent ins), b, x)
           }
           else do {
             s \<leftarrow> st_replace_measured_range rep (rp_bytes plan) (tx_storage x);
             (b, x) \<leftarrow> apply_replace_side_effects ops rep replace_policy_current b (x\<lparr>tx_storage := s\<rparr>);
             x \<leftarrow> seat_replacement_properties ops plan x;
             Some (rep, b, x)
           }
         })"

definition execute_casify_replace_text_plan ::
    "('p, 'o) side_data_ops \<Rightarrow> 'p replace_text_plan \<Rightarrow> ('v, 'o) buffer \<Rightarrow> ('p, 'v) text_object
      \<Rightarrow> (text_replacement \<times> ('v, 'o) buffer \<times> ('p, 'v) text_object) option" where
  "execute_casify_replace_text_plan ops plan b x = do {
     let rep = rp_replacement plan;
     let old = tr_old rep;
     panic_unless (\<not> edit_range_is_empty old);
     (deleted, x) \<leftarrow> buffer_region_lisp_string ops (er_bytes old) b x;
     let x = undo_prepare_change (er_char_start old) b x;
     let x = (if undo_list_is_disabled (tx_undo_list x) then x
              else let ul = undo_list_record_delete (er_char_start old) deleted (ta_char (bf_point b)) (tx_undo_list x)
                   in x\<lparr>tx_undo_list := undo_list_record_insert (er_char_start old) (te_chars (tr_new rep)) ul\<rparr>);
     (b, x) \<leftarrow> (if edit_range_byte_len old = te_bytes (tr_new rep)
       then do {
         s \<leftarrow> st_replace_same_len_measured_range rep (rp_bytes plan) (tx_storage x);
         Some (b, apply_same_len_edit_side_effects (same_len_edit_covering old) RecordChange b (x\<lparr>tx_storage := s\<rparr>))
       }
       else do {
         s \<leftarrow> st_replace_measured_range rep (rp_bytes plan) (tx_storage x);
         apply_replace_side_effects ops rep replace_policy_current b (x\<lparr>tx_storage := s\<rparr>)
       });
     x \<leftarrow> (if edit_range_char_len old = te_chars (tr_new rep) then Some x else seat_replacement_properties ops plan x);
     Some (rep, b, x)
   }"

subsection \<open>Substitution of characters\<close>

record same_len_substitution_plan =
  sp_replacement_bytes :: bytes
  sp_changed_ranges :: "text_edit_range list"

text \<open>The two scanning loops; what they push on the vectors is consed in front of the rest.\<close>

definition changed_char :: "text_edit_range \<Rightarrow> nat \<Rightarrow> nat \<Rightarrow> nat \<Rightarrow> text_edit_range" where
  "changed_char r byte_off char_off len = subrange_from_start_offsets r byte_off char_off (extent_new 1 len)"

function append_multibyte_substitutions ::
    "text_edit_range \<Rightarrow> u32 \<Rightarrow> bytes \<Rightarrow> nat \<Rightarrow> nat \<Rightarrow> bytes \<Rightarrow> (bytes \<times> text_edit_range list) option" where
  "append_multibyte_substitutions r from_code to_bytes byte_off char_off region =
     (if region = [] then Some ([], [])
      else case string_char region of
        None \<Rightarrow> None
      | Some (code, len) \<Rightarrow> do {
          let clen = max len 1;
          (bs, changed) \<leftarrow> append_multibyte_substitutions r from_code to_bytes (byte_off + clen) (char_off + 1) (drop clen region);
          if code = from_code
          then do { panic_unless (clen = length to_bytes); Some (to_bytes @ bs, changed_char r byte_off char_off clen # changed) }
          else do { panic_unless (clen \<le> length region); Some (take clen region @ bs, changed) }
        })"
  by pat_completeness auto
termination
  by (relation "measure (\<lambda>(r, from_code, to_bytes, i, j, region). length region)") auto

declare append_multibyte_substitutions.simps [simp del]

fun append_unibyte_substitutions :: "text_edit_range \<Rightarrow> u8 \<Rightarrow> u8 \<Rightarrow> nat \<Rightarrow> bytes \<Rightarrow> bytes \<times> text_edit_range list" where
  "append_unibyte_substitutions r from_byte to_byte i [] = ([], [])"
| "append_unibyte_substitutions r from_byte to_byte i (b # region) =
     (let (bs, changed) = append_unibyte_substitutions r from_byte to_byte (i + 1) region
      in if b = from_byte then (to_byte # bs, changed_char r i i 1 # changed) else (b # bs, changed))"

text \<open>The outer option is a panic; the inner one is the result, nothing when no character changes.\<close>

definition same_len_substitution_plan_new ::
    "text_edit_range \<Rightarrow> bytes \<Rightarrow> bool \<Rightarrow> u32 \<Rightarrow> bytes \<Rightarrow> same_len_substitution_plan option option" where
  "same_len_substitution_plan_new r region mb from_code to_bytes = do {
     res \<leftarrow> (if mb then map_option Some (append_multibyte_substitutions r from_code to_bytes 0 0 region)
            else if 0xFF < from_code \<or> length to_bytes \<noteq> 1 then Some None
            else Some (Some (append_unibyte_substitutions r (ucast from_code) (hd to_bytes) 0 region)));
     Some (case res of
         None \<Rightarrow> None
       | Some (bs, changed) \<Rightarrow> if changed = [] then None else Some \<lparr>sp_replacement_bytes = bs, sp_changed_ranges = changed\<rparr>)
   }"

definition first_to_last_changed_range :: "same_len_substitution_plan \<Rightarrow> text_edit_range option" where
  "first_to_last_changed_range plan =
     (case sp_changed_ranges plan of
        [] \<Rightarrow> None
      | r # rs \<Rightarrow> Some (edit_range_from_start_end (edit_range_start_anchor r) (edit_range_end_anchor (last (r # rs)))))"

text \<open>The undo records of one substitution: each changed character is deleted and inserted again.\<close>

definition record_substitutions ::
    "('p, 'o) side_data_ops \<Rightarrow> text_edit_range \<Rightarrow> bytes \<Rightarrow> ('v, 'o) buffer \<Rightarrow> text_edit_range list
      \<Rightarrow> ('p, 'v) undo_list \<Rightarrow> ('p, 'v) text_object \<Rightarrow> (('p, 'v) undo_list \<times> ('p, 'v) text_object) option" where
  "record_substitutions ops whole region b changed ul x =
     foldl (\<lambda>acc r. do {
         (ul, x) \<leftarrow> acc;
         (i, j) \<leftarrow> byte_index_range_relative_to r whole;
         panic_unless (i \<le> j \<and> j \<le> length region);
         (cr, s) \<leftarrow> st_byte_range_to_char_range (tx_markers x) (er_bytes r) (tx_storage x);
         let props = so_slice_char_range ops cr (tx_props x);
         let deleted = \<lparr>ls_bytes = sub_list i j region, ls_multibyte = bf_multibyte b,
                        ls_intervals = (if so_is_empty ops props then so_empty ops else props)\<rparr>;
         let ul = undo_list_record_delete (er_char_start r) deleted (ta_char (bf_point b)) ul;
         Some (undo_list_record_insert (er_char_start r) (edit_range_char_len r) ul, x\<lparr>tx_storage := s\<rparr>)
       }) (Some (ul, x)) changed"

definition execute_same_len_substitution_plan ::
    "('p, 'o) side_data_ops \<Rightarrow> text_edit_range \<Rightarrow> text_edit_range \<Rightarrow> bytes \<Rightarrow> same_len_substitution_plan \<Rightarrow> bool
      \<Rightarrow> ('v, 'o) buffer \<Rightarrow> ('p, 'v) text_object \<Rightarrow> ('p, 'v) text_object option" where
  "execute_same_len_substitution_plan ops whole modified region plan noundo b x = do {
     x \<leftarrow> (if noundo then Some x
          else do {
            let x = undo_prepare_change (er_char_start modified) b x;
            if undo_list_is_disabled (tx_undo_list x) then Some x
            else do {
              (ul, x) \<leftarrow> record_substitutions ops whole region b (sp_changed_ranges plan) (tx_undo_list x) x;
              Some (x\<lparr>tx_undo_list := ul\<rparr>)
            }
          });
     s \<leftarrow> st_replace_same_len_measured_range
       (replacement_new whole (extent_from_emacs_bytes (sp_replacement_bytes plan) (bf_multibyte b))) (sp_replacement_bytes plan)
       (tx_storage x);
     Some (apply_same_len_edit_side_effects \<lparr>sl_storage_range = whole, sl_modified_range = modified\<rparr> RecordChange b (x\<lparr>tx_storage := s\<rparr>))
   }"

subsection \<open>The side effects fit the new text\<close>

text \<open>What stays of a buffer, and what a change of the storage to \<open>s\<close> must bring about.\<close>

definition kept :: "('v, 'o) buffer \<Rightarrow> ('v, 'o) buffer \<Rightarrow> bool" where
  "kept b b' \<longleftrightarrow> bf_id b' = bf_id b \<and> bf_multibyte b' = bf_multibyte b \<and> bf_state_markers b' = bf_state_markers b
     \<and> bf_autosave_modified_tick b' = bf_autosave_modified_tick b \<and> bf_first_change_modtime b' = bf_first_change_modtime b"

lemma kept_simps [simp]:
  "kept b b" "kept b (set_edit_state st c) \<longleftrightarrow> kept b c" "kept b (adjust_overlays_for_insert_at ops ins before c) \<longleftrightarrow> kept b c"
  "kept b (adjust_overlays_for_deleted_text ops r c) \<longleftrightarrow> kept b c" "kept b (adjust_overlays_for_replaced_text ops rep c) \<longleftrightarrow> kept b c"
  by (auto simp: kept_def set_edit_state_def adjust_overlays_for_insert_at_def adjust_overlays_for_deleted_text_def
      adjust_overlays_for_replaced_text_def Let_def)

definition effects :: "(nat \<Rightarrow> nat list) \<Rightarrow> buffer_storage \<Rightarrow> ('v, 'o) buffer \<Rightarrow> ('p, 'v) text_object
      \<Rightarrow> (('v, 'o) buffer \<times> ('p, 'v) text_object) option \<Rightarrow> bool" where
  "effects cs s b x res \<longleftrightarrow> (\<exists>b' x'. res = Some (b', x') \<and> text_ok cs x' \<and> buffer_on x' b' \<and> same_text s (tx_storage x')
     \<and> tx_undo_list x' = tx_undo_list x \<and> tx_saved_point x' = tx_saved_point x \<and> kept b b')"

lemma state_of_buffer [simp]:
  "edit_state (set_edit_state st b) = st" "edit_state (adjust_overlays_for_insert_at ops ins before b) = edit_state b"
  "edit_state (adjust_overlays_for_deleted_text ops r b) = edit_state b"
  "edit_state (adjust_overlays_for_replaced_text ops rep b) = edit_state b"
  by (simp_all add: edit_state_def set_edit_state_def adjust_overlays_for_insert_at_def adjust_overlays_for_deleted_text_def
      adjust_overlays_for_replaced_text_def Let_def)

lemma note_char_change_simps [simp]:
  "tx_storage (note_char_change n i j z x) = tx_storage x" "tx_markers (note_char_change n i j z x) = tx_markers x"
  "tx_undo_list (note_char_change n i j z x) = tx_undo_list x" "tx_saved_point (note_char_change n i j z x) = tx_saved_point x"
  "tx_props (note_char_change n i j z x) = tx_props x"
  by (simp_all add: note_char_change_def)

lemma props_simps [simp]:
  "tx_storage (adjust_text_props_for_insert_at ops p n x) = tx_storage x" "tx_markers (adjust_text_props_for_insert_at ops p n x) = tx_markers x"
  "tx_undo_list (adjust_text_props_for_insert_at ops p n x) = tx_undo_list x" "tx_saved_point (adjust_text_props_for_insert_at ops p n x) = tx_saved_point x"
  "tx_storage (adjust_text_props_for_delete_range ops r x) = tx_storage x" "tx_markers (adjust_text_props_for_delete_range ops r x) = tx_markers x"
  "tx_undo_list (adjust_text_props_for_delete_range ops r x) = tx_undo_list x" "tx_saved_point (adjust_text_props_for_delete_range ops r x) = tx_saved_point x"
  "tx_storage (adjust_text_props_for_replace_at ops p n m x) = tx_storage x" "tx_markers (adjust_text_props_for_replace_at ops p n m x) = tx_markers x"
  "tx_undo_list (adjust_text_props_for_replace_at ops p n m x) = tx_undo_list x" "tx_saved_point (adjust_text_props_for_replace_at ops p n m x) = tx_saved_point x"
  by (simp_all add: adjust_text_props_for_insert_at_def adjust_text_props_for_delete_range_def adjust_text_props_for_replace_at_def)

text \<open>
  The common shape of the three: a state that is right for the new text, markers adjusted to it, and
  ticks, properties and overlays that nothing here depends on.
\<close>

lemma effectsI:
  assumes s: "storage_inv s" "st_mb s = bx_mb x" "bf_multibyte b = bx_mb x"
    and st: "state_ok (bx_mb x) (st_text s) st"
    and ms: "adjusted cs (st_markers s) (bx_mb x) (st_text s) (tx_markers x) ms"
    and x': "storage_inv (tx_storage x')" "same_text s (tx_storage x')" "tx_markers x' = ms" "tx_undo_list x' = tx_undo_list x" "tx_saved_point x' = tx_saved_point x"
    and b': "edit_state b' = st" "kept b b'"
  shows "effects cs s b x (Some (b', x'))"
  using assms by (auto simp: effects_def text_ok_def text_markers_ok_def buffer_on_def adjusted_def kept_def same_text_def)

lemma text_markers:
  assumes "text_ok cs x"
  shows "store_inv cs (tx_markers x)" "markers_valid (bx_mb x) (bx_text x) (cs (st_markers (tx_storage x))) (ms_heap (tx_markers x))"
  using text_okD(2) [OF assms] by (simp_all add: text_markers_ok_def)

lemma measured_text_empty: "measured_text mb bs e \<Longrightarrow> extent_is_empty e \<longleftrightarrow> bs = []"
  by (auto simp: measured_text_def extent_is_empty_def extent_from_emacs_bytes_def extent_new_def)

text \<open>After an insertion its place converts to the same character as before, whatever the caches hold.\<close>

lemma edit_place:
  assumes ms: "storage_inv s \<and> text_markers_ok cs ms s" and c: "char_offset mb tx c k" and lead: "lead_ok mb tx" "lead_ok mb bs"
    and s: "st_mb s = mb" "st_text s = insert_at k bs tx"
  shows "\<exists>s'. st_emacs_byte_pos_to_char_pos ms k s = Some (c, s') \<and> storage_inv s' \<and> same_text s s'"
proof -
  have bd: "is_emacs_char_boundary tx k mb" using c by (simp add: char_offset_def)
  have c': "char_offset mb (st_text s) c k" unfolding s(2) by (rule char_offset_insert_before [OF bd lead c order_refl])
  have lead': "lead_ok mb (st_text s)" using storage_invD(3) [of s] ms s(1) by simp
  obtain d s' where d: "st_emacs_byte_pos_to_char_pos ms k s = Some (d, s')" "char_of_byte mb (st_text s) k d" "storage_inv s'" "same_text s s'"
    using byte_to_char_converts [of s cs ms k] ms s(1) by (auto simp: converts_def)
  have "char_offset mb (st_text s) d k" by (rule char_of_byte_boundary [OF lead' _ d(2)]) (use c' in \<open>simp add: char_offset_def\<close>)
  then have "d = c" using c' by (simp add: char_offset_def)
  then show ?thesis using d by blast
qed

lemma insert_effects:
  assumes ok: "text_ok cs x" "buffer_on x b" and c: "char_offset (bx_mb x) (bx_text x) c k" "ta_byte (bf_accessible_start b) \<le> k"
    and bs: "measured_text (bx_mb x) bs e" "bs \<noteq> []"
    and s: "storage_inv s" "st_mb s = bx_mb x" "st_markers s = st_markers (tx_storage x)" "st_text s = insert_at k bs (bx_text x)"
    and ins: "mi_insertion m = insertion_at_anchor (anchor_new c k) e"
  shows "effects cs s b x (apply_byte_insert_side_effects ops m insert_policy_current b (x\<lparr>tx_storage := s\<rparr>))"
proof -
  have bd: "is_emacs_char_boundary (bx_text x) k (bx_mb x)" using c(1) by (simp add: char_offset_def)
  have ne: "\<not> insert_edit_is_empty m" using measured_text_empty [OF bs(1)] bs(2) by (simp add: insert_edit_is_empty_def ins insertion_at_anchor_def)
  obtain st where st: "insert_state_after_edit (edit_state b) (mi_insertion m) insert_policy_current = Some st"
      "state_ok (bx_mb x) (st_text s) st"
    using insert_state_ok [OF c(1) text_okD(3) [OF ok(1)] bs(1), of "edit_state b" insert_policy_current] ok(2) c(2)
    by (auto simp: buffer_on_def policy_defs edit_state_def ins s(4))
  obtain ms1 where ms1: "adjust_markers_for_insert_extent (st_markers s) k e (tx_markers x) = Some ms1"
      "adjusted cs (st_markers s) (bx_mb x) (st_text s) (tx_markers x) ms1"
    using markers_insert_valid [OF text_markers [OF ok(1)] bd text_okD(3) [OF ok(1)] bs(1)] s(3,4) by auto
  obtain ms2 where ms2: "adjust_markers_for_insert_extent_strict_after (st_markers s) k e (tx_markers x) = Some ms2"
      "adjusted cs (st_markers s) (bx_mb x) (st_text s) (tx_markers x) ms2"
    using markers_insert_strict_valid [OF text_markers [OF ok(1)] bd text_okD(3) [OF ok(1)] bs(1)] s(3,4) by auto
  have lead: "lead_ok (bx_mb x) bs" by (rule measured_textD(3) [OF bs(1)])
  have place: "\<exists>s'. st_emacs_byte_pos_to_char_pos ms k s = Some (c, s') \<and> storage_inv s' \<and> same_text s s'"
    if "adjusted cs (st_markers s) (bx_mb x) (st_text s) (tx_markers x) ms" for ms
    by (rule edit_place [OF _ c(1) text_okD(3) [OF ok(1)] lead s(2,4)]) (use that s(1,2) in \<open>auto simp: adjusted_def text_markers_ok_def\<close>)
  note here = apply_byte_insert_side_effects_def on_markers_def ins insertion_at_anchor_def policy_defs Let_def
  show ?thesis
  proof (cases "mi_marker_adjustment m = StrictAfter")
    case True
    obtain s' where "st_emacs_byte_pos_to_char_pos ms2 k s = Some (c, s')" "storage_inv s'" "same_text s s'" using place [OF ms2(2)] by blast
    then show ?thesis
      using True ne st(1) ms2 buffer_onD(1) [OF ok(2)] by (simp add: here effectsI [OF s(1,2) _ st(2) ms2(2)])
  next
    case False
    obtain s' where "st_emacs_byte_pos_to_char_pos ms1 k s = Some (c, s')" "storage_inv s'" "same_text s s'" using place [OF ms1(2)] by blast
    then show ?thesis
      using False ne st(1) ms1 buffer_onD(1) [OF ok(2)] by (simp add: here effectsI [OF s(1,2) _ st(2) ms1(2)])
  qed
qed

lemma delete_effects:
  assumes ok: "text_ok cs x" "buffer_on x b" and r: "measured_range (bx_mb x) (bx_text x) r" "\<not> edit_range_is_empty r"
      "ta_byte (bf_accessible_start b) \<le> er_byte_start r"
    and s: "storage_inv s" "st_mb s = bx_mb x" "st_markers s = st_markers (tx_storage x)"
      "st_text s = delete_range (er_byte_start r) (er_byte_end r) (bx_text x)"
  shows "effects cs s b x (apply_byte_delete_side_effects ops r delete_policy_current b (x\<lparr>tx_storage := s\<rparr>))"
proof -
  obtain st where st: "delete_state_after_edit (edit_state b) r delete_policy_current = Some st" "state_ok (bx_mb x) (st_text s) st"
    using delete_state_ok [OF r(1) text_okD(3) [OF ok(1)], of "edit_state b" delete_policy_current] ok(2) r(3)
    by (auto simp: buffer_on_def policy_defs edit_state_def s(4))
  obtain ms where ms: "adjust_markers_for_delete_range (st_markers s) r (tx_markers x) = Some ms"
      "adjusted cs (st_markers s) (bx_mb x) (st_text s) (tx_markers x) ms"
    using markers_delete_valid [OF text_markers [OF ok(1)] r(1) text_okD(3) [OF ok(1)]] s(3,4) by auto
  show ?thesis
    using r(2) st(1) ms buffer_onD(1) [OF ok(2)]
    by (simp add: apply_byte_delete_side_effects_def on_markers_def policy_defs Let_def s(1) effectsI [OF s(1,2) _ st(2) ms(2)])
qed

lemma replace_effects:
  assumes ok: "text_ok cs x" "buffer_on x b" and r: "measured_range (bx_mb x) (bx_text x) (tr_old rep)"
    and bs: "measured_text (bx_mb x) bs (tr_new rep)" and ne: "\<not> edit_range_is_empty (tr_old rep)"
    and s: "storage_inv s" "st_mb s = bx_mb x" "st_markers s = st_markers (tx_storage x)"
      "st_text s = replace_range (er_byte_start (tr_old rep)) (er_byte_end (tr_old rep)) bs (bx_text x)"
  shows "effects cs s b x (apply_replace_side_effects ops rep replace_policy_current b (x\<lparr>tx_storage := s\<rparr>))"
proof -
  have "replacement_new (tr_old rep) (tr_new rep) = rep" by (cases rep) (simp add: replacement_new_def)
  then obtain st where st: "replace_state_after rep (edit_state b) replace_policy_current = Some st" "state_ok (bx_mb x) (st_text s) st"
    using replace_state_ok [OF r text_okD(3) [OF ok(1)] bs, of "edit_state b"] ok(2)
    by (auto simp: buffer_on_def policy_defs replace_state_after_def s(4))
  obtain ms where ms: "adjust_markers_for_replace_range (st_markers s) (tr_old rep) (tr_new rep) (tx_markers x) = Some ms"
      "adjusted cs (st_markers s) (bx_mb x) (st_text s) (tx_markers x) ms"
    using markers_replace_valid [OF text_markers [OF ok(1)] r text_okD(3) [OF ok(1)] bs] s(3,4) by auto
  show ?thesis
    using ne st(1) ms buffer_onD(1) [OF ok(2)]
    by (simp add: apply_replace_side_effects_def replace_edit_is_empty_def on_markers_def policy_defs Let_def
        s(1) effectsI [OF s(1,2) _ st(2) ms(2)])
qed

subsection \<open>What an executor guarantees\<close>

text \<open>Reading and tagging the text: only caches, properties and the undo list may change.\<close>

definition same_content :: "('p, 'v) text_object \<Rightarrow> ('p, 'v) text_object \<Rightarrow> bool" where
  "same_content x x' \<longleftrightarrow> storage_inv (tx_storage x') \<and> bx_text x' = bx_text x \<and> bx_mb x' = bx_mb x
     \<and> st_markers (tx_storage x') = st_markers (tx_storage x) \<and> tx_markers x' = tx_markers x"

lemma same_content_keeps:
  assumes "same_content x x'"
  shows "bx_text x' = bx_text x" "bx_mb x' = bx_mb x" "text_ok cs x \<Longrightarrow> text_ok cs x'" "buffer_on x' b \<longleftrightarrow> buffer_on x b"
    "tx_markers x' = tx_markers x" "st_markers (tx_storage x') = st_markers (tx_storage x)"
  using assms by (auto simp: same_content_def text_ok_def text_markers_ok_def buffer_on_def)

lemma same_content_trans: "same_content x y \<Longrightarrow> same_content y z \<Longrightarrow> same_content x z"
  by (simp add: same_content_def)

lemma recached_same_content: "recached x x' \<Longrightarrow> same_content x x'"
  by (auto simp: recached_def same_content_def same_text_def)

lemma char_range_conversion:
  assumes ok: "text_ok cs x" and r: "is_emacs_char_boundary (bx_text x) (br_start r) (bx_mb x)"
    "is_emacs_char_boundary (bx_text x) (br_end r) (bx_mb x)"
  shows "\<exists>c d s. st_byte_range_to_char_range (tx_markers x) r (tx_storage x) = Some (char_range_new c d, s)
    \<and> char_offset (bx_mb x) (bx_text x) c (br_start r) \<and> char_offset (bx_mb x) (bx_text x) d (br_end r) \<and> recached x (x\<lparr>tx_storage := s\<rparr>)"
proof -
  obtain c s where c: "st_emacs_byte_pos_to_char_pos (tx_markers x) (br_start r) (tx_storage x) = Some (c, s)"
      "char_offset (bx_mb x) (bx_text x) c (br_start r)" "recached x (x\<lparr>tx_storage := s\<rparr>)"
    using convert_boundary [OF ok r(1)] by blast
  obtain d s' where "st_emacs_byte_pos_to_char_pos (tx_markers x) (br_end r) s = Some (d, s')"
      "char_offset (bx_mb x) (bx_text x) d (br_end r)" "recached (x\<lparr>tx_storage := s\<rparr>) (x\<lparr>tx_storage := s'\<rparr>)"
    using convert_boundary [OF recached_keeps(3) [OF c(3) ok], of "br_end r"] r(2) recached_keeps(1,2) [OF c(3)] by auto
  then show ?thesis
    using c recached_trans [OF c(3)] by (auto simp: st_byte_range_to_char_range_def)
qed

lemma region_string:
  assumes ok: "text_ok cs x" and on: "bf_multibyte b = bx_mb x" and r: "measured_range (bx_mb x) (bx_text x) r"
  shows "\<exists>str x'. buffer_region_lisp_string ops (er_bytes r) b x = Some (str, x') \<and> recached x x'
    \<and> ls_bytes str = sub_list (er_byte_start r) (er_byte_end r) (bx_text x) \<and> ls_multibyte str = bx_mb x"
proof -
  note m = measured_rangeD [OF r]
  have "tb_copy_emacs_byte_range_to (er_bytes r) (st_backend (tx_storage x)) = Some (sub_list (er_byte_start r) (er_byte_end r) (bx_text x))"
    by (rule backend.copy_law [OF storage_invD(1) [OF text_okD(1) [OF ok]] m(5,6)])
  then show ?thesis
    using char_range_conversion [OF ok m(1,2)] on by (auto simp: buffer_region_lisp_string_def Let_def)
qed

lemma append_props_content:
  assumes ok: "text_ok cs x" and k: "is_emacs_char_boundary (bx_text x) k (bx_mb x)"
  shows "\<exists>x'. text_props_append_shifted_at_emacs_byte_pos ops other k x = Some x' \<and> same_content x x'
    \<and> tx_undo_list x' = tx_undo_list x \<and> tx_saved_point x' = tx_saved_point x"
proof -
  obtain c d s where "st_byte_range_to_char_range (tx_markers x) (byte_range_new k k) (tx_storage x) = Some (char_range_new c d, s)"
      "recached x (x\<lparr>tx_storage := s\<rparr>)"
    using char_range_conversion [OF ok, of "byte_range_new k k"] k by auto
  then show ?thesis
    using recached_same_content [of x "x\<lparr>tx_storage := s\<rparr>"]
    by (auto simp: text_props_append_shifted_at_emacs_byte_pos_def same_content_def)
qed

lemma set_props_content:
  assumes ok: "text_ok cs x" and r: "is_emacs_char_boundary (bx_text x) (br_start r) (bx_mb x)"
    "is_emacs_char_boundary (bx_text x) (br_end r) (bx_mb x)"
  shows "\<exists>x'. text_props_set_properties_in_emacs_byte_range ops r x = Some x' \<and> same_content x x'
    \<and> tx_undo_list x' = tx_undo_list x \<and> tx_saved_point x' = tx_saved_point x"
proof -
  note inv = text_okD(1) [OF ok]
  obtain c b where b: "tb_emacs_byte_pos_to_char_pos (br_start r) (st_backend (tx_storage x)) = Some (c, b)" "tb_inv b"
      "tb_is_multibyte b = bx_mb x" "tb_text b = bx_text x"
    using backend.byte_to_char_law [OF storage_invD(1) [OF inv] r(1)] by blast
  obtain d b' where b': "tb_emacs_byte_pos_to_char_pos (br_end r) b = Some (d, b')" "tb_inv b'"
      "tb_is_multibyte b' = bx_mb x" "tb_text b' = bx_text x"
    using backend.byte_to_char_law [OF b(2), of "br_end r"] r(2) b(3,4) by auto
  have "storage_inv ((tx_storage x)\<lparr>st_backend := b'\<rparr>)" using inv b'(2-4) by (simp add: storage_inv_def)
  then show ?thesis
    using b(1) b' by (simp add: text_props_set_properties_in_emacs_byte_range_def same_content_def)
qed

lemma undo_prepare_simps [simp]:
  "tx_storage (undo_prepare_change beg b x) = tx_storage x" "tx_markers (undo_prepare_change beg b x) = tx_markers x"
  "tx_saved_point (undo_prepare_change beg b x) = tx_saved_point x"
  by (simp_all add: undo_prepare_change_def Let_def)

lemma undo_prepare_restores:
  assumes "undo_restores mb tx0 (tx_undo_list x) tx"
  shows "undo_restores mb tx0 (tx_undo_list (undo_prepare_change beg b x)) tx"
proof -
  let ?first = "tc_modified_tick (tx_changes x) \<le> tc_save_modified_tick (tx_changes x)"
  let ?ul = "if ?first then undo_list_record_first_change (bf_first_change_modtime b) (tx_undo_list x) else tx_undo_list x"
  have "undo_restores mb tx0 ?ul tx" using other_records_restore(4) [OF assms] assms by simp
  then show ?thesis
    using other_records_restore(2) [of mb tx0 ?ul tx] assms
    by (auto simp: undo_prepare_change_def Let_def split: option.splits)
qed

definition undo_follows :: "('p, 'v) text_object \<Rightarrow> ('p, 'v) text_object \<Rightarrow> bool" where
  "undo_follows x x' \<longleftrightarrow> (\<forall>tx0. undo_restores (bx_mb x) tx0 (tx_undo_list x) (bx_text x)
     \<longrightarrow> undo_restores (bx_mb x) tx0 (tx_undo_list x') (bx_text x'))"

definition transacts :: "(nat \<Rightarrow> nat list) \<Rightarrow> bytes \<Rightarrow> ('v, 'o) buffer \<Rightarrow> ('p, 'v) text_object \<Rightarrow> ('v, 'o) buffer \<Rightarrow> ('p, 'v) text_object \<Rightarrow> bool" where
  "transacts cs tx' b x b' x' \<longleftrightarrow> text_ok cs x' \<and> buffer_on x' b' \<and> bx_text x' = tx' \<and> bx_mb x' = bx_mb x
     \<and> st_markers (tx_storage x') = st_markers (tx_storage x) \<and> kept b b' \<and> undo_follows x x'"

lemma transacts_refl: "text_ok cs x \<Longrightarrow> buffer_on x b \<Longrightarrow> transacts cs (bx_text x) b x b x"
  by (simp add: transacts_def undo_follows_def)

lemma effectsE:
  assumes "effects cs s b x res"
  obtains b' x' where "res = Some (b', x')" "text_ok cs x'" "buffer_on x' b'"
    "bx_text x' = st_text s \<and> bx_mb x' = st_mb s \<and> st_markers (tx_storage x') = st_markers s"
    "tx_undo_list x' = tx_undo_list x" "tx_saved_point x' = tx_saved_point x" "kept b b'"
  using assms unfolding effects_def same_text_def by auto

lemma advance_sound:
  assumes ok: "text_ok cs x" and tx: "bx_text x = insert_at k bs tx"
    and ed: "is_emacs_char_boundary tx k (bx_mb x)" "lead_ok (bx_mb x) tx" "measured_text (bx_mb x) bs e"
  shows "\<exists>x'. on_markers (\<lambda>t. advance_markers_at_position t k e) x = Some x' \<and> text_ok cs x'
    \<and> tx_storage x' = tx_storage x \<and> tx_undo_list x' = tx_undo_list x"
proof -
  let ?t = "st_markers (tx_storage x)"
  obtain ms where ms: "advance_markers_at_position ?t k e (tx_markers x) = Some ms"
      "adjusted cs ?t (bx_mb x) (bx_text x) (tx_markers x) ms"
    using markers_advance_valid [OF text_markers(1) [OF ok] _ ed, where t = ?t] text_markers(2) [OF ok] tx by auto
  then show ?thesis
    using text_okD(1) [OF ok] by (auto simp: on_markers_def text_ok_def text_markers_ok_def adjusted_def)
qed

lemma apply_insert_sound:
  assumes ok: "text_ok cs x" "buffer_on x b" and c: "char_offset (bx_mb x) (bx_text x) c k" "ta_byte (bf_accessible_start b) \<le> k"
    and bs: "measured_text (bx_mb x) bs e" "bs \<noteq> []" "rope_storable (bx_mb x) bs" "length (bx_text x) + length bs < 2 ^ 63"
    and plan: "mi_insertion (ip_edit plan) = insertion_at_anchor (anchor_new c k) e"
  shows "\<exists>b' x'. apply_insert_text_plan ops bs plan b x = Some (insertion_at_anchor (anchor_new c k) e, b', x')
    \<and> text_ok cs x' \<and> buffer_on x' b' \<and> bx_text x' = insert_at k bs (bx_text x) \<and> bx_mb x' = bx_mb x
    \<and> st_markers (tx_storage x') = st_markers (tx_storage x) \<and> kept b b' \<and> tx_undo_list x' = tx_undo_list x"
proof -
  let ?m = "ip_edit plan" and ?tx = "insert_at k bs (bx_text x)"
  have bd: "is_emacs_char_boundary (bx_text x) k (bx_mb x)" and lead: "lead_ok (bx_mb x) bs"
    using c(1) measured_textD(3) [OF bs(1)] by (simp_all add: char_offset_def)
  have ne: "\<not> insert_edit_is_empty ?m"
    using measured_text_empty [OF bs(1)] bs(2) by (simp add: insert_edit_is_empty_def plan insertion_at_anchor_def)
  obtain s where s: "st_insert_measured_emacs_bytes k bs e (tx_storage x) = Some s" "storage_inv s" "st_mb s = bx_mb x"
      "st_markers s = st_markers (tx_storage x)" "st_text s = ?tx"
    using st_insert_inv [OF text_okD(1) [OF ok(1)] c(1) bs(1,3,2,4)] by (auto simp: edits_storage_def)
  obtain b1 x1 where e1: "apply_byte_insert_side_effects ops ?m insert_policy_current b (x\<lparr>tx_storage := s\<rparr>) = Some (b1, x1)"
      "text_ok cs x1" "buffer_on x1 b1" "bx_text x1 = st_text s \<and> bx_mb x1 = st_mb s \<and> st_markers (tx_storage x1) = st_markers s" "tx_undo_list x1 = tx_undo_list x" "kept b b1"
    by (rule effectsE [OF insert_effects [OF ok c bs(1,2) s(2-5) plan]]) (rule that)
  obtain x2 where x2: "(if before_markers (mi_marker_placement ?m) then on_markers (\<lambda>t. advance_markers_at_position t k e) x1 else Some x1) = Some x2"
      "text_ok cs x2" "bx_text x2 = st_text s \<and> bx_mb x2 = st_mb s \<and> st_markers (tx_storage x2) = st_markers s" "tx_undo_list x2 = tx_undo_list x"
  proof (cases "before_markers (mi_marker_placement ?m)")
    case True
    then show ?thesis
      using advance_sound [OF e1(2), of k bs "bx_text x" e] that e1(4,5) s(3,5) bd text_okD(3) [OF ok(1)] bs(1) by auto
  next
    case False
    then show ?thesis using that [of x1] e1(2,4,5) by simp
  qed
  have on2: "buffer_on x2 b1" using e1(3,4) x2(3) by (simp add: buffer_on_def)
  have "char_offset (bx_mb x) ?tx c k" by (rule char_offset_insert_before [OF bd text_okD(3) [OF ok(1)] lead c(1) order_refl])
  then have bd2: "is_emacs_char_boundary (bx_text x2) k (bx_mb x2)" using x2(3) s(3,5) by (simp add: char_offset_def)
  obtain x3 where x3: "(if so_is_empty ops (ip_text_properties plan) then Some x2
        else text_props_append_shifted_at_emacs_byte_pos ops (ip_text_properties plan) k x2) = Some x3"
      "same_content x2 x3" "tx_undo_list x3 = tx_undo_list x"
  proof (cases "so_is_empty ops (ip_text_properties plan)")
    case True
    then show ?thesis using that [of x2] x2(2,4) text_okD(1) [OF x2(2)] by (simp add: same_content_def)
  next
    case False
    then show ?thesis using append_props_content [OF x2(2) bd2, of ops] that x2(4) by auto
  qed
  note k3 = same_content_keeps [OF x3(2)]
  have "apply_insert_text_plan ops bs plan b x = Some (insertion_at_anchor (anchor_new c k) e, b1, x3)"
    using ne s(1) e1(1) x2(1) x3(1)
    by (simp add: apply_insert_text_plan_def plan insertion_at_anchor_def Let_def split: if_splits)
  then show ?thesis using k3 x2 s on2 e1(6) x3(3) by auto
qed

lemma execute_insert_sound:
  assumes ok: "text_ok cs x" "buffer_on x b" and c: "char_offset (bx_mb x) (bx_text x) c k" "ta_byte (bf_accessible_start b) \<le> k"
    and bs: "measured_text (bx_mb x) bs e" "rope_storable (bx_mb x) bs" "length (bx_text x) + length bs < 2 ^ 63"
    and plan: "mi_insertion (ip_edit plan) = insertion_at_anchor (anchor_new c k) e"
  shows "\<exists>b' x'. execute_insert_text_plan ops bs plan b x = Some (insertion_at_anchor (anchor_new c k) e, b', x')
    \<and> transacts cs (insert_at k bs (bx_text x)) b x b' x'"
proof (cases "bs = []")
  case True
  then show ?thesis
    using measured_text_empty [OF bs(1)] plan transacts_refl [OF ok]
    by (simp add: execute_insert_text_plan_def insert_edit_is_empty_def insertion_at_anchor_def Let_def)
next
  case False
  let ?x0 = "undo_prepare_change c b x"
  let ?ul = "undo_list_record_insert c (te_chars e) (tx_undo_list ?x0)"
  let ?x = "?x0\<lparr>tx_undo_list := ?ul\<rparr>"
  have ok': "text_ok cs ?x" "buffer_on ?x b" using ok by (simp_all add: text_ok_def buffer_on_def)
  have ne: "\<not> insert_edit_is_empty (ip_edit plan)"
    using measured_text_empty [OF bs(1)] False by (simp add: insert_edit_is_empty_def plan insertion_at_anchor_def)
  obtain b' x' where r: "apply_insert_text_plan ops bs plan b ?x = Some (insertion_at_anchor (anchor_new c k) e, b', x')"
      "text_ok cs x'" "buffer_on x' b'" "bx_text x' = insert_at k bs (bx_text x)" "bx_mb x' = bx_mb x"
      "st_markers (tx_storage x') = st_markers (tx_storage x)" "kept b b'" "tx_undo_list x' = ?ul"
    using apply_insert_sound [OF ok', of c k bs e plan ops] c bs False plan by auto
  have "undo_restores (bx_mb x) tx0 ?ul (insert_at k bs (bx_text x))" if "undo_restores (bx_mb x) tx0 (tx_undo_list x) (bx_text x)" for tx0
    by (rule record_insert_restores [OF undo_prepare_restores [OF that] c(1) text_okD(3) [OF ok(1)] measured_textD(3,2) [OF bs(1)]])
  then have "undo_follows x x'" using r(4,8) by (simp add: undo_follows_def)
  moreover have "execute_insert_text_plan ops bs plan b x = Some (insertion_at_anchor (anchor_new c k) e, b', x')"
    using ne r(1) by (simp add: execute_insert_text_plan_def plan insertion_at_anchor_def Let_def)
  ultimately show ?thesis using r by (auto simp: transacts_def)
qed

lemma record_adjustments_restore:
  "undo_restores mb tx0 ul tx \<Longrightarrow> undo_restores mb tx0 (record_marker_adjustments adj ul) tx"
  unfolding record_marker_adjustments_def
proof (induction adj arbitrary: ul)
  case (Cons a adj)
  then show ?case using other_records_restore(1) [OF Cons.prems, of "fst a" "snd a"] by (simp add: case_prod_beta)
qed simp

text \<open>The text that a deletion plan carries is the text of its range.\<close>

definition plan_text_ok :: "bool \<Rightarrow> bytes \<Rightarrow> 'p delete_text_plan \<Rightarrow> bool" where
  "plan_text_ok mb tx plan \<longleftrightarrow> (case dl_deleted_text plan of None \<Rightarrow> True
     | Some str \<Rightarrow> ls_bytes str = sub_list (er_byte_start (dl_range plan)) (er_byte_end (dl_range plan)) tx \<and> ls_multibyte str = mb)"

lemma delete_plan_sound:
  assumes ok: "text_ok cs x" "buffer_on x b" and r: "measured_range (bx_mb x) (bx_text x) r"
  shows "\<exists>plan x'. delete_text_plan_for_range_extracting ops r want b x = Some (plan, x') \<and> recached x x'
    \<and> dl_range plan = r \<and> plan_text_ok (bx_mb x) (bx_text x) plan \<and> (want = Wanted \<longrightarrow> dl_deleted_text plan \<noteq> None)"
proof -
  let ?build = "want = Wanted \<or> \<not> undo_list_is_disabled (tx_undo_list x)"
  obtain del x' where del: "(if ?build then do { (str, x) \<leftarrow> buffer_region_lisp_string ops (er_bytes r) b x; Some (Some str, x) }
        else Some (None, x)) = Some (del, x')" "recached x x'"
      "case del of None \<Rightarrow> True | Some str \<Rightarrow> ls_bytes str = sub_list (er_byte_start r) (er_byte_end r) (bx_text x) \<and> ls_multibyte str = bx_mb x"
      "want = Wanted \<longrightarrow> del \<noteq> None"
  proof (cases ?build)
    case True
    obtain str y where "buffer_region_lisp_string ops (er_bytes r) b x = Some (str, y)" "recached x y"
        "ls_bytes str = sub_list (er_byte_start r) (er_byte_end r) (bx_text x)" "ls_multibyte str = bx_mb x"
      using region_string [OF ok(1) buffer_onD(1) [OF ok(2)] r, of ops] by blast
    then show ?thesis using that [of "Some str" y] True by simp
  next
    case False
    then show ?thesis using that [of None x] recached_refl [OF ok(1)] by simp
  qed
  have "\<exists>adj. marker_adjustments_for_delete (st_markers (tx_storage x')) r (tx_markers x') = Some adj"
    using delete_adjustments_chain [OF store_invD(2) [OF text_markers(1) [OF recached_keeps(3) [OF del(2) ok(1)]]]]
    by (simp add: marker_adjustments_for_delete_def)
  then show ?thesis
    using del by (auto simp: delete_text_plan_for_range_extracting_def plan_text_ok_def Let_def split: option.splits)
qed

lemma execute_delete_sound:
  assumes ok: "text_ok cs x" "buffer_on x b" and r: "measured_range (bx_mb x) (bx_text x) (dl_range plan)"
      "ta_byte (bf_accessible_start b) \<le> er_byte_start (dl_range plan)"
    and plan: "plan_text_ok (bx_mb x) (bx_text x) plan" and alloc: "length (bx_text x) < 2 ^ 63"
  shows "\<exists>b' x'. execute_delete_text_plan_extracting ops plan b x = Some (dl_range plan, dl_deleted_text plan, b', x')
    \<and> transacts cs (delete_range (er_byte_start (dl_range plan)) (er_byte_end (dl_range plan)) (bx_text x)) b x b' x'"
proof (cases "edit_range_is_empty (dl_range plan)")
  case True
  then have "er_byte_start (dl_range plan) = er_byte_end (dl_range plan)"
    using measured_rangeD(5) [OF r(1)] by (simp add: edit_range_is_empty_def byte_range_is_empty_def)
  then show ?thesis
    using True transacts_refl [OF ok] by (simp add: execute_delete_text_plan_extracting_def Let_def delete_range_def)
next
  case False
  let ?r = "dl_range plan"
  let ?tx = "delete_range (er_byte_start ?r) (er_byte_end ?r) (bx_text x)"
  note m = measured_rangeD [OF r(1)]
  let ?x0 = "undo_prepare_change (er_char_start ?r) b x"
  have ok0: "text_ok cs ?x0" "buffer_on ?x0 b" using ok by (simp_all add: text_ok_def buffer_on_def)
  let ?rec = "if undo_list_is_disabled (tx_undo_list ?x0) then Some ?x0
      else do {
        let ul = record_marker_adjustments (dl_marker_adjustments plan) (tx_undo_list ?x0);
        (deleted, x) \<leftarrow> (case dl_deleted_text plan of Some str \<Rightarrow> Some (str, ?x0) | None \<Rightarrow> buffer_region_lisp_string ops (er_bytes ?r) b ?x0);
        Some (x\<lparr>tx_undo_list := undo_list_record_delete (er_char_start ?r) deleted (ta_char (bf_point b)) ul\<rparr>)
      }"
  obtain x1 where x1: "?rec = Some x1" "same_content x x1"
      "\<And>tx0. undo_restores (bx_mb x) tx0 (tx_undo_list x) (bx_text x) \<Longrightarrow> undo_restores (bx_mb x) tx0 (tx_undo_list x1) ?tx"
  proof (cases "undo_list_is_disabled (tx_undo_list ?x0)")
    case True
    then have "tx_undo_list ?x0 = Undo_T"
      by (cases "tx_undo_list ?x0") (auto simp: undo_list_is_disabled_def)
    then show ?thesis using that [of ?x0] True text_okD(1) [OF ok(1)] by (simp add: same_content_def)
  next
    case False
    let ?ul = "record_marker_adjustments (dl_marker_adjustments plan) (tx_undo_list ?x0)"
    obtain str y where y: "(case dl_deleted_text plan of Some str \<Rightarrow> Some (str, ?x0)
          | None \<Rightarrow> buffer_region_lisp_string ops (er_bytes ?r) b ?x0) = Some (str, y)" "recached ?x0 y"
        "ls_bytes str = sub_list (er_byte_start ?r) (er_byte_end ?r) (bx_text x)" "ls_multibyte str = bx_mb x"
    proof (cases "dl_deleted_text plan")
      case None
      then show ?thesis using region_string [OF ok0(1), of b ?r ops] buffer_onD(1) [OF ok(2)] r(1) that by auto
    next
      case (Some str)
      then show ?thesis using that [of str ?x0] plan recached_refl [OF ok0(1)] by (simp add: plan_text_ok_def)
    qed
    have "undo_restores (bx_mb x) tx0 (undo_list_record_delete (er_char_start ?r) str (ta_char (bf_point b)) ?ul) ?tx"
      if "undo_restores (bx_mb x) tx0 (tx_undo_list x) (bx_text x)" for tx0
      by (rule record_delete_restores [OF record_adjustments_restore [OF undo_prepare_restores [OF that]] m(3,4,5) text_okD(3) [OF ok(1)] y(3,4)])
    moreover have "same_content x y" using recached_same_content [OF y(2)] by (simp add: same_content_def)
    ultimately show ?thesis
      using that [of "y\<lparr>tx_undo_list := undo_list_record_delete (er_char_start ?r) str (ta_char (bf_point b)) ?ul\<rparr>"] False y(1)
      by (simp add: same_content_def)
  qed
  note k1 = same_content_keeps [OF x1(2)]
  have ok1: "text_ok cs x1" "buffer_on x1 b" using k1(3) [OF ok(1)] ok(2) by (simp_all add: k1(4))
  have r1: "measured_range (bx_mb x1) (bx_text x1) ?r" using r(1) k1(1,2) by simp
  obtain s where s: "st_delete_measured_range ?r (tx_storage x1) = Some s" "storage_inv s" "st_mb s = bx_mb x1"
      "st_markers s = st_markers (tx_storage x1)" "st_text s = delete_range (er_byte_start ?r) (er_byte_end ?r) (bx_text x1)"
    using st_delete_inv [OF text_okD(1) [OF ok1(1)], of ?r] r(1) False alloc k1(1,2) by (auto simp: edits_storage_def)
  obtain b2 x2 where e: "apply_byte_delete_side_effects ops ?r delete_policy_current b (x1\<lparr>tx_storage := s\<rparr>) = Some (b2, x2)"
      "text_ok cs x2" "buffer_on x2 b2" "bx_text x2 = st_text s \<and> bx_mb x2 = st_mb s \<and> st_markers (tx_storage x2) = st_markers s" "tx_undo_list x2 = tx_undo_list x1" "kept b b2"
    by (rule effectsE [OF delete_effects [OF ok1 r1 False r(2) s(2-5)]]) (rule that)
  have "execute_delete_text_plan_extracting ops plan b x = Some (?r, dl_deleted_text plan, b2, x2)"
    using False x1(1) s(1) e(1) by (simp add: execute_delete_text_plan_extracting_def Let_def)
  then show ?thesis
    using e s k1 x1(3) by (auto simp: transacts_def undo_follows_def)
qed

text \<open>Recording a replacement: the insertion at the old end, then the deletion of the old text.\<close>

lemma replace_undo_sound:
  assumes ok: "text_ok cs x" "buffer_on x b" and r: "measured_range (bx_mb x) (bx_text x) (tr_old rep)"
    and bs: "measured_text (bx_mb x) bs (tr_new rep)"
    and ul: "undo_restores (bx_mb x) tx0 ul (bx_text x)" and str: "ls_bytes str = sub_list (er_byte_start (tr_old rep)) (er_byte_end (tr_old rep)) (bx_text x)"
      "ls_multibyte str = bx_mb x"
  shows "undo_restores (bx_mb x) tx0
      (undo_list_record_delete (er_char_start (tr_old rep)) str pt (undo_list_record_insert (er_char_end (tr_old rep)) (te_chars (tr_new rep)) ul))
      (replace_range (er_byte_start (tr_old rep)) (er_byte_end (tr_old rep)) bs (bx_text x))"
proof -
  let ?s = "er_byte_start (tr_old rep)" and ?e = "er_byte_end (tr_old rep)"
  note m = measured_rangeD [OF r] and lead = text_okD(3) [OF ok(1)] measured_textD(3) [OF bs]
  let ?t = "insert_at ?e bs (bx_text x)"
  have 1: "undo_restores (bx_mb x) tx0 (undo_list_record_insert (er_char_end (tr_old rep)) (te_chars (tr_new rep)) ul) ?t"
    by (rule record_insert_restores [OF ul m(4) lead measured_textD(2) [OF bs]])
  have c: "char_offset (bx_mb x) ?t (er_char_start (tr_old rep)) ?s" "char_offset (bx_mb x) ?t (er_char_end (tr_old rep)) ?e"
    using char_offset_insert_before [OF m(2) lead] m(3,4,5) by auto
  have sub: "sub_list ?s ?e ?t = sub_list ?s ?e (bx_text x)"
    using m(5,6) by (simp add: sub_list_def insert_at_def min_absorb1 drop_take)
  have "undo_restores (bx_mb x) tx0
      (undo_list_record_delete (er_char_start (tr_old rep)) str pt (undo_list_record_insert (er_char_end (tr_old rep)) (te_chars (tr_new rep)) ul))
      (delete_range ?s ?e ?t)"
    by (rule record_delete_restores [OF 1 c m(5) lead_ok_insert [OF m(2) lead] _ str(2)]) (simp add: str(1) sub)
  moreover have "delete_range ?s ?e ?t = replace_range ?s ?e bs (bx_text x)"
    using m(5,6) by (simp add: delete_range_def insert_at_def replace_range_alt min_absorb1)
  ultimately show ?thesis by simp
qed

lemma record_replace_sound:
  assumes ok: "text_ok cs x" "buffer_on x b" and r: "measured_range (bx_mb x) (bx_text x) (tr_old (rp_replacement plan))"
    and bs: "measured_text (bx_mb x) bs (tr_new (rp_replacement plan))"
  shows "\<exists>x'. record_replace_range_undo ops plan b x = Some x' \<and> same_content x x'
    \<and> (\<forall>tx0. undo_restores (bx_mb x) tx0 (tx_undo_list x) (bx_text x) \<longrightarrow> undo_restores (bx_mb x) tx0 (tx_undo_list x')
         (replace_range (er_byte_start (tr_old (rp_replacement plan))) (er_byte_end (tr_old (rp_replacement plan))) bs (bx_text x)))"
proof -
  let ?rep = "rp_replacement plan"
  obtain str y where y: "buffer_region_lisp_string ops (er_bytes (tr_old ?rep)) b x = Some (str, y)" "recached x y"
      "ls_bytes str = sub_list (er_byte_start (tr_old ?rep)) (er_byte_end (tr_old ?rep)) (bx_text x)" "ls_multibyte str = bx_mb x"
    using region_string [OF ok(1) buffer_onD(1) [OF ok(2)] r] by blast
  let ?x0 = "undo_prepare_change (er_char_end (tr_old ?rep)) b y"
  have c0: "same_content x ?x0" using recached_same_content [OF y(2)] by (simp add: same_content_def)
  have u0: "undo_restores (bx_mb x) tx0 (tx_undo_list ?x0) (bx_text x)"
    if "undo_restores (bx_mb x) tx0 (tx_undo_list x) (bx_text x)" for tx0
    using undo_prepare_restores [of "bx_mb x" tx0 y] that recached_keeps(6) [OF y(2)] by simp
  show ?thesis
  proof (cases "undo_list_is_disabled (tx_undo_list ?x0)")
    case True
    then have "tx_undo_list ?x0 = Undo_T" by (cases "tx_undo_list ?x0") (auto simp: undo_list_is_disabled_def)
    then show ?thesis using True c0 y(1) by (simp add: record_replace_range_undo_def Let_def)
  next
    case False
    then show ?thesis
      using c0 y(1) replace_undo_sound [OF ok r bs u0 y(3,4)]
      by (simp add: record_replace_range_undo_def Let_def same_content_def)
  qed
qed

lemma seat_properties_content:
  assumes ok: "text_ok cs x" and r: "is_emacs_char_boundary (bx_text x) (er_byte_start (tr_old (rp_replacement plan))) (bx_mb x)"
    "is_emacs_char_boundary (bx_text x) (er_byte_start (tr_old (rp_replacement plan)) + te_bytes (tr_new (rp_replacement plan))) (bx_mb x)"
  shows "\<exists>x'. seat_replacement_properties ops plan x = Some x' \<and> same_content x x'
    \<and> tx_undo_list x' = tx_undo_list x"
  using append_props_content [OF ok r(1), of ops "rp_text_properties plan"]
    set_props_content [OF ok, of "byte_range_from_start_len (er_byte_start (tr_old (rp_replacement plan))) (te_bytes (tr_new (rp_replacement plan)))" ops]
    r text_okD(1) [OF ok]
  by (auto simp: seat_replacement_properties_def Let_def byte_range_from_start_len_def add_len_def same_content_def)

lemma replaced_boundaries:
  assumes r: "measured_range mb tx r" "lead_ok mb tx" and bs: "lead_ok mb bs"
  shows "is_emacs_char_boundary (replace_range (er_byte_start r) (er_byte_end r) bs tx) (er_byte_start r) mb"
    "is_emacs_char_boundary (replace_range (er_byte_start r) (er_byte_end r) bs tx) (er_byte_start r + length bs) mb"
proof -
  note m = measured_rangeD [OF r(1)]
  let ?d = "delete_range (er_byte_start r) (er_byte_end r) tx"
  have d: "lead_ok mb ?d" "char_offset mb ?d (er_char_start r) (er_byte_start r)"
    using lead_ok_delete [OF m(2) r(2)] char_offset_delete_before [OF m(1,2) r(2) m(3) order_refl] by blast+
  have bd: "is_emacs_char_boundary ?d (er_byte_start r) mb" using d(2) by (simp add: char_offset_def)
  show "is_emacs_char_boundary (replace_range (er_byte_start r) (er_byte_end r) bs tx) (er_byte_start r) mb"
    "is_emacs_char_boundary (replace_range (er_byte_start r) (er_byte_end r) bs tx) (er_byte_start r + length bs) mb"
    using char_offset_insert_before [OF bd d(1) bs d(2) order_refl] char_offset_insert_after [OF bd d(1,2) order_refl, of bs]
    by (simp_all add: replace_range_def char_offset_def)
qed

lemma count_bytes_0: "lead_ok mb bs \<Longrightarrow> emacs_char_count_bytes bs mb = 0 \<longleftrightarrow> bs = []"
  using char_offset_mono(1) [of mb bs 0 0 "emacs_char_count_bytes bs mb" "length bs"] by auto

lemma execute_replace_sound:
  assumes ok: "text_ok cs x" "buffer_on x b" and r: "measured_range (bx_mb x) (bx_text x) (tr_old (rp_replacement plan))"
      "ta_byte (bf_accessible_start b) \<le> er_byte_start (tr_old (rp_replacement plan))"
    and bs: "measured_text (bx_mb x) (rp_bytes plan) (tr_new (rp_replacement plan))" "rope_storable (bx_mb x) (rp_bytes plan)"
    and alloc: "length (bx_text x) + length (rp_bytes plan) < 2 ^ 63"
  shows "\<exists>b' x'. execute_replace_text_plan ops plan b x = Some (rp_replacement plan, b', x')
    \<and> transacts cs (replace_range (er_byte_start (tr_old (rp_replacement plan))) (er_byte_end (tr_old (rp_replacement plan)))
        (rp_bytes plan) (bx_text x)) b x b' x'"
proof -
  let ?rep = "rp_replacement plan" and ?bs = "rp_bytes plan"
  let ?r = "tr_old ?rep"
  let ?tx = "replace_range (er_byte_start ?r) (er_byte_end ?r) ?bs (bx_text x)"
  note m = measured_rangeD [OF r(1)] and lead = measured_textD(3) [OF bs(1)]
  have rep: "replacement_new ?r (tr_new ?rep) = ?rep" by (cases ?rep) (simp add: replacement_new_def)
  have new0: "te_chars (tr_new ?rep) = 0 \<longleftrightarrow> ?bs = []" using measured_textD(2) [OF bs(1)] count_bytes_0 [OF lead] by simp
  have empty: "edit_range_is_empty ?r \<longleftrightarrow> er_byte_start ?r = er_byte_end ?r"
    using m(5) by (auto simp: edit_range_is_empty_def byte_range_is_empty_def)
  show ?thesis
  proof (cases "edit_range_is_empty ?r \<and> ?bs = []")
    case True
    then have "?tx = bx_text x" using empty by simp
    then show ?thesis using True new0 rep transacts_refl [OF ok] by (simp add: execute_replace_text_plan_def Let_def)
  next
    case False
    obtain x1 where x1: "record_replace_range_undo ops plan b x = Some x1" "same_content x x1"
        "\<And>tx0. undo_restores (bx_mb x) tx0 (tx_undo_list x) (bx_text x) \<Longrightarrow> undo_restores (bx_mb x) tx0 (tx_undo_list x1) ?tx"
      using record_replace_sound [OF ok r(1) bs(1), of ops] by blast
    note k1 = same_content_keeps [OF x1(2)]
    have ok1: "text_ok cs x1" "buffer_on x1 b" using k1(3) [OF ok(1)] ok(2) by (simp_all add: k1(4))
    show ?thesis
    proof (cases "edit_range_is_empty ?r")
      case True
      then have ne: "?bs \<noteq> []" and tx: "?tx = insert_at (er_byte_start ?r) ?bs (bx_text x)" using False empty by simp_all
      let ?plan = "replace_plan_as_insert_plan plan (edit_range_start_anchor ?r) AfterMarkers ByInsertionType"
      obtain b' x' where r': "apply_insert_text_plan ops ?bs ?plan b x1
            = Some (insertion_at_anchor (anchor_new (er_char_start ?r) (er_byte_start ?r)) (tr_new ?rep), b', x')"
          "text_ok cs x'" "buffer_on x' b'" "bx_text x' = ?tx" "bx_mb x' = bx_mb x"
          "st_markers (tx_storage x') = st_markers (tx_storage x)" "kept b b'" "tx_undo_list x' = tx_undo_list x1"
        using apply_insert_sound [OF ok1, of "er_char_start ?r" "er_byte_start ?r" ?bs "tr_new ?rep" ?plan ops] m(3) r(2) bs ne alloc k1 tx
        by (auto simp: replace_plan_as_insert_plan_def insert_plan_for_extent_def edit_range_start_anchor_def)
      have "execute_replace_text_plan ops plan b x = Some (?rep, b', x')"
        using True x1(1) r'(1) new0 ne rep by (simp add: execute_replace_text_plan_def Let_def insertion_at_anchor_def)
      then show ?thesis using r' x1(3) by (auto simp: transacts_def undo_follows_def)
    next
      case ne: False
      have len: "length ?tx < 2 ^ 63" using alloc m(5,6) by (simp add: length_replace_range)
      then have ed: "measured_edit (bx_mb x1) (bx_text x1) ?bs ?r (tr_new ?rep)"
        using r(1) bs(1) text_okD(3) [OF ok(1)] by (simp add: measured_edit_def k1(1,2))
      obtain s where s: "st_replace_measured_range ?rep ?bs (tx_storage x1) = Some s" "storage_inv s" "st_mb s = bx_mb x1"
          "st_markers s = st_markers (tx_storage x1)" "st_text s = replace_range (er_byte_start ?r) (er_byte_end ?r) ?bs (bx_text x1)"
        using st_replace_inv [OF text_okD(1) [OF ok1(1)] ed] bs(2) ne k1(2) by (auto simp: edits_storage_def)
      have m1: "measured_range (bx_mb x1) (bx_text x1) ?r" "measured_text (bx_mb x1) ?bs (tr_new ?rep)" using r(1) bs(1) k1(1,2) by simp_all
      obtain b2 x2 where e: "apply_replace_side_effects ops ?rep replace_policy_current b (x1\<lparr>tx_storage := s\<rparr>) = Some (b2, x2)"
          "text_ok cs x2" "buffer_on x2 b2" "bx_text x2 = st_text s \<and> bx_mb x2 = st_mb s \<and> st_markers (tx_storage x2) = st_markers s" "tx_undo_list x2 = tx_undo_list x1" "kept b b2"
        by (rule effectsE [OF replace_effects [OF ok1 m1 ne s(2-5)]]) (rule that)
      have t2: "bx_text x2 = ?tx" "bx_mb x2 = bx_mb x" using e(4) s(3,5) k1(1,2) by simp_all
      obtain x3 where x3: "seat_replacement_properties ops plan x2 = Some x3" "same_content x2 x3" "tx_undo_list x3 = tx_undo_list x2"
        using seat_properties_content [OF e(2), of plan ops] replaced_boundaries [OF r(1) text_okD(3) [OF ok(1)] lead]
          measured_textD(1) [OF bs(1)] t2 by auto
      have "execute_replace_text_plan ops plan b x = Some (?rep, b2, x3)"
        using ne x1(1) s(1) e(1) x3(1) by (simp add: execute_replace_text_plan_def Let_def)
      moreover have "buffer_on x3 b2" using e(3) by (simp add: same_content_keeps(4) [OF x3(2)])
      ultimately show ?thesis
        using x3 e(4-6) s(4) k1(6) t2 x1(3) same_content_keeps(1-3,6) [OF x3(2)] e(2) by (auto simp: transacts_def undo_follows_def)
    qed
  qed
qed

end
