(* ===== verification/State_Markers.thy ===== *)
theory State_Markers
  imports Edit_Transaction
begin

text \<open>
  The markers in which a buffer that shares its text keeps point and its accessible region while it
  is not current: \<open>ensure_buffer_state_markers\<close>, \<open>record_buffer_state_markers\<close>,
  \<open>create_marker_at_emacs_byte_pos\<close> and \<open>register_marker_id_at_emacs_byte_pos\<close> of
  \<open>src/crates/neovm-core/src/buffer/buffer.rs\<close>, for the text the buffer is on.

  Every buffer on a text has three markers of its own on the chain of the text. The relation
  \<open>rechained\<close> says what the operations leave alone: which markers are on the chain, to whom they
  belong and what they are; then every buffer still holds its markers. The markers that are written are
  on the positions of the buffer, so reading them back restores its state exactly.

  Allocating a marker object takes a fresh address; the caller gives it.
\<close>

subsection \<open>Operations\<close>

definition register_marker_at_anchor ::
    "nat \<Rightarrow> nat \<Rightarrow> nat \<Rightarrow> text_position_anchor \<Rightarrow> insertion_type \<Rightarrow> ('p, 'v) text_object \<Rightarrow> ('p, 'v) text_object option" where
  "register_marker_at_anchor buf ptr mid a it x = do {
     (a, x) \<leftarrow> text_anchor_for_emacs_byte_pos (ta_byte a) x;
     on_markers (\<lambda>t. register_marker t ptr buf mid a it) x
   }"

definition register_marker_at_emacs_byte_pos ::
    "nat \<Rightarrow> nat \<Rightarrow> nat \<Rightarrow> emacs_byte_pos \<Rightarrow> insertion_type \<Rightarrow> ('p, 'v) text_object \<Rightarrow> ('p, 'v) text_object option" where
  "register_marker_at_emacs_byte_pos buf ptr mid pos it x = do {
     (a, x) \<leftarrow> text_anchor_for_emacs_byte_pos pos x;
     register_marker_at_anchor buf ptr mid a it x
   }"

definition allocate_marker_node :: "nat \<Rightarrow> nat \<Rightarrow> nat \<Rightarrow> insertion_type \<Rightarrow> ('p, 'v) text_object \<Rightarrow> ('p, 'v) text_object" where
  "allocate_marker_node buf ptr mid it x =
     x\<lparr>tx_markers := (tx_markers x)\<lparr>ms_heap := (ms_heap (tx_markers x))(ptr \<mapsto>
        \<lparr>mk_buffer = Some buf, mk_insertion_type = (it = After), mk_marker_id = Some mid, mk_bytepos = 0, mk_charpos = 0,
         mk_last_position_valid = True, mk_next = None, mk_chained = False\<rparr>)\<rparr>\<rparr>"

definition create_marker_at_emacs_byte_pos ::
    "nat \<Rightarrow> nat \<Rightarrow> nat \<Rightarrow> emacs_byte_pos \<Rightarrow> insertion_type \<Rightarrow> ('p, 'v) text_object \<Rightarrow> ('p, 'v) text_object option" where
  "create_marker_at_emacs_byte_pos buf ptr mid pos it x =
     register_marker_at_emacs_byte_pos buf ptr mid pos it (allocate_marker_node buf ptr mid it x)"

text \<open>The ids and the addresses of the three markers are consecutive from the given ones.\<close>

definition ensure_state_markers ::
    "nat \<Rightarrow> nat \<Rightarrow> ('v, 'o) buffer \<Rightarrow> ('p, 'v) text_object \<Rightarrow> (('v, 'o) buffer \<times> ('p, 'v) text_object) option" where
  "ensure_state_markers mid ptr b x =
     (if bf_state_markers b \<noteq> None then Some (b, x)
      else do {
        x \<leftarrow> create_marker_at_emacs_byte_pos (bf_id b) ptr mid (ta_byte (bf_point b)) Before x;
        x \<leftarrow> create_marker_at_emacs_byte_pos (bf_id b) (ptr + 1) (mid + 1) (ta_byte (bf_accessible_start b)) Before x;
        x \<leftarrow> create_marker_at_emacs_byte_pos (bf_id b) (ptr + 2) (mid + 2) (ta_byte (bf_accessible_end b)) After x;
        Some (b\<lparr>bf_state_markers := Some \<lparr>sm_pt = mid, sm_begv = mid + 1, sm_zv = mid + 2,
                sm_pt_ptr = ptr, sm_begv_ptr = ptr + 1, sm_zv_ptr = ptr + 2\<rparr>\<rparr>, x)
      })"

definition record_state_markers :: "('v, 'o) buffer \<Rightarrow> ('p, 'v) text_object \<Rightarrow> ('p, 'v) text_object option" where
  "record_state_markers b x =
     (case bf_state_markers b of
        None \<Rightarrow> Some x
      | Some ids \<Rightarrow> do {
          x \<leftarrow> on_markers (\<lambda>t. chain_unlink t (sm_pt_ptr ids)) x;
          x \<leftarrow> on_markers (\<lambda>t. chain_unlink t (sm_begv_ptr ids)) x;
          x \<leftarrow> on_markers (\<lambda>t. chain_unlink t (sm_zv_ptr ids)) x;
          x \<leftarrow> register_marker_at_emacs_byte_pos (bf_id b) (sm_pt_ptr ids) (sm_pt ids) (ta_byte (bf_point b)) Before x;
          x \<leftarrow> register_marker_at_emacs_byte_pos (bf_id b) (sm_begv_ptr ids) (sm_begv ids) (ta_byte (bf_accessible_start b)) Before x;
          register_marker_at_emacs_byte_pos (bf_id b) (sm_zv_ptr ids) (sm_zv ids) (ta_byte (bf_accessible_end b)) After x
        })"

subsection \<open>What a marker is, apart from where it is\<close>

definition marker_ident :: "lisp_marker \<Rightarrow> nat option \<times> nat option \<times> bool" where
  "marker_ident m = (mk_marker_id m, mk_buffer m, mk_insertion_type m)"

definition same_idents :: "marker_heap \<Rightarrow> marker_heap \<Rightarrow> bool" where
  "same_idents h h' \<longleftrightarrow> (\<forall>q. map_option marker_ident (h' q) = map_option marker_ident (h q))"

lemma same_idents_refl [simp]: "same_idents h h"
  by (simp add: same_idents_def)

lemma same_idents_trans: "same_idents h h1 \<Longrightarrow> same_idents h1 h2 \<Longrightarrow> same_idents h h2"
  by (simp add: same_idents_def)

lemma same_identsD:
  assumes "same_idents h h'"
  shows "h' q = None \<longleftrightarrow> h q = None" "h q = Some m \<Longrightarrow> \<exists>m'. h' q = Some m' \<and> marker_ident m' = marker_ident m"
    "h' q = Some m' \<Longrightarrow> \<exists>m. h q = Some m \<and> marker_ident m' = marker_ident m"
proof -
  have eq: "map_option marker_ident (h' q) = map_option marker_ident (h q)" using assms by (simp add: same_idents_def)
  show "h' q = None \<longleftrightarrow> h q = None" using eq by (metis map_option_is_None)
  show "h q = Some m \<Longrightarrow> \<exists>m'. h' q = Some m' \<and> marker_ident m' = marker_ident m" using eq by (cases "h' q") auto
  show "h' q = Some m' \<Longrightarrow> \<exists>m. h q = Some m \<and> marker_ident m' = marker_ident m" using eq by (cases "h q") auto
qed

text \<open>The chain of the text of \<open>x\<close>, and a marker on it that belongs to a buffer.\<close>

abbreviation text_chain :: "(nat \<Rightarrow> nat list) \<Rightarrow> ('p, 'v) text_object \<Rightarrow> nat list" where
  "text_chain cs x \<equiv> cs (st_markers (tx_storage x))"

abbreviation bx_heap :: "('p, 'v) text_object \<Rightarrow> marker_heap" where
  "bx_heap x \<equiv> ms_heap (tx_markers x)"

definition holds_marker :: "nat list \<Rightarrow> marker_heap \<Rightarrow> nat \<Rightarrow> nat \<Rightarrow> nat \<Rightarrow> bool \<Rightarrow> bool" where
  "holds_marker ps h buf mid p it \<longleftrightarrow> p \<in> set ps \<and> map_option marker_ident (h p) = Some (Some mid, Some buf, it)
     \<and> (\<forall>q \<in> set ps. \<forall>m. h q = Some m \<longrightarrow> mk_marker_id m = Some mid \<longrightarrow> q = p)"

definition holds_ids :: "nat list \<Rightarrow> marker_heap \<Rightarrow> nat \<Rightarrow> state_marker_ids \<Rightarrow> bool" where
  "holds_ids ps h buf ids \<longleftrightarrow> holds_marker ps h buf (sm_pt ids) (sm_pt_ptr ids) False \<and> holds_marker ps h buf (sm_begv ids) (sm_begv_ptr ids) False
     \<and> holds_marker ps h buf (sm_zv ids) (sm_zv_ptr ids) True \<and> distinct [sm_pt_ptr ids, sm_begv_ptr ids, sm_zv_ptr ids]"

definition holds_markers :: "(nat \<Rightarrow> nat list) \<Rightarrow> ('p, 'v) text_object \<Rightarrow> ('v, 'o) buffer \<Rightarrow> bool" where
  "holds_markers cs x b \<longleftrightarrow> pred_option (holds_ids (text_chain cs x) (bx_heap x) (bf_id b)) (bf_state_markers b)"

text \<open>
  The ids and addresses given out so far. The mark of a buffer has an id of its own, far above the
  counter.
\<close>

definition MARK_MARKER_ID :: nat where
  "MARK_MARKER_ID = 2 ^ 63 - 1"

definition given_out :: "nat \<Rightarrow> nat \<Rightarrow> (nat \<Rightarrow> nat list) \<Rightarrow> ('p, 'v) text_object \<Rightarrow> bool" where
  "given_out mid ptr cs x \<longleftrightarrow> (\<forall>q m. bx_heap x q = Some m \<longrightarrow> q < ptr)
     \<and> (\<forall>q \<in> set (text_chain cs x). \<forall>m i. bx_heap x q = Some m \<longrightarrow> mk_marker_id m = Some i \<longrightarrow> i < mid \<or> i = MARK_MARKER_ID)"

text \<open>What an operation that leaves the markers of the text in place does.\<close>

definition rechained :: "(nat \<Rightarrow> nat list) \<Rightarrow> ('p, 'v) text_object \<Rightarrow> (nat \<Rightarrow> nat list) \<Rightarrow> ('p, 'v) text_object \<Rightarrow> bool" where
  "rechained cs x cs' x' \<longleftrightarrow> text_ok cs' x' \<and> set (text_chain cs' x') = set (text_chain cs x) \<and> same_idents (bx_heap x) (bx_heap x')"

lemma holds_marker_same:
  assumes "holds_marker ps h buf mid p it" "set ps' = set ps" "same_idents h h'"
  shows "holds_marker ps' h' buf mid p it"
proof -
  have "q = p" if q: "q \<in> set ps'" "h' q = Some m'" "mk_marker_id m' = Some mid" for q m'
  proof -
    obtain m where "h q = Some m" "marker_ident m' = marker_ident m" using same_identsD(3) [OF assms(3) q(2)] by blast
    then show ?thesis using assms(1,2) q by (auto simp: holds_marker_def marker_ident_def)
  qed
  then show ?thesis using assms by (auto simp: holds_marker_def same_idents_def)
qed

lemma rechained_holds:
  assumes "rechained cs x cs' x'" "holds_markers cs x b"
  shows "holds_markers cs' x' b"
  using assms holds_marker_same [of "text_chain cs x" "bx_heap x" _ _ _ _ "text_chain cs' x'" "bx_heap x'"]
  by (cases "bf_state_markers b") (auto simp: holds_markers_def holds_ids_def rechained_def)

lemma rechained_given_out:
  assumes "rechained cs x cs' x'" "given_out mid ptr cs x"
  shows "given_out mid ptr cs' x'"
proof -
  have i: "same_idents (bx_heap x) (bx_heap x')" and c: "set (text_chain cs' x') = set (text_chain cs x)"
    using assms(1) by (simp_all add: rechained_def)
  have "\<exists>m. bx_heap x q = Some m \<and> mk_marker_id m = mk_marker_id m'" if "bx_heap x' q = Some m'" for q m'
    using same_identsD(3) [OF i that] by (auto simp: marker_ident_def)
  then show ?thesis using assms(2) c by (fastforce simp: given_out_def)
qed

lemma rechained_trans: "rechained cs x cs1 x1 \<Longrightarrow> rechained cs1 x1 cs2 x2 \<Longrightarrow> rechained cs x cs2 x2"
  by (auto simp: rechained_def intro: same_idents_trans)

lemma rechained_refl: "text_ok cs x \<Longrightarrow> rechained cs x cs x"
  by (simp add: rechained_def)

lemma recached_rechained: "recached x x' \<Longrightarrow> text_ok cs x \<Longrightarrow> rechained cs x cs x'"
  by (simp add: rechained_def recached_keeps)

text \<open>Apart from markers and caches nothing changes.\<close>

definition remarked :: "('p, 'v) text_object \<Rightarrow> ('p, 'v) text_object \<Rightarrow> bool" where
  "remarked x x' \<longleftrightarrow> (\<exists>s ms. x' = x\<lparr>tx_storage := s, tx_markers := ms\<rparr> \<and> storage_inv s \<and> same_text (tx_storage x) s)"

lemma recached_remarked: "recached x x' \<Longrightarrow> remarked x x'"
  unfolding recached_def remarked_def by (metis text_object.surjective text_object.update_convs(1,2))

lemma remarked_trans: "remarked x y \<Longrightarrow> remarked y z \<Longrightarrow> remarked x z"
  unfolding remarked_def by (elim exE conjE) (auto intro!: exI dest: same_text_trans)

lemma remarked_keeps:
  assumes "remarked x x'"
  shows "bx_text x' = bx_text x" "bx_mb x' = bx_mb x" "buffer_on x' b \<longleftrightarrow> buffer_on x b" "tx_undo_list x' = tx_undo_list x"
    "tx_changes x' = tx_changes x" "tx_props x' = tx_props x" "tx_saved_point x' = tx_saved_point x"
    "st_markers (tx_storage x') = st_markers (tx_storage x)"
  using assms by (auto simp: remarked_def same_text_def buffer_on_def)

subsection \<open>Taking a marker off the chain and putting it at the head\<close>

definition same_data :: "nat set \<Rightarrow> marker_heap \<Rightarrow> marker_heap \<Rightarrow> bool" where
  "same_data S h h' \<longleftrightarrow> (\<forall>q. q \<notin> S \<longrightarrow> map_option unchained (h' q) = map_option unchained (h q))"

lemma unchained_eqD:
  assumes "unchained m' = unchained m"
  shows "marker_ident m' = marker_ident m" "marker_data_anchor m' = marker_data_anchor m"
proof -
  have "marker_ident (unchained k) = marker_ident k" "marker_data_anchor (unchained k) = marker_data_anchor k" for k
    by (simp_all add: unchained_def marker_ident_def marker_data_anchor_def)
  then show "marker_ident m' = marker_ident m" "marker_data_anchor m' = marker_data_anchor m" using assms by metis+
qed

lemma same_dataD:
  assumes "same_data S h h'" "q \<notin> S"
  shows "h q = Some m \<Longrightarrow> \<exists>m'. h' q = Some m' \<and> marker_ident m' = marker_ident m \<and> marker_data_anchor m' = marker_data_anchor m"
    "map_option marker_ident (h' q) = map_option marker_ident (h q)"
proof -
  have eq: "map_option unchained (h' q) = map_option unchained (h q)" using assms by (simp add: same_data_def)
  show 1: "\<exists>m'. h' q = Some m' \<and> marker_ident m' = marker_ident m \<and> marker_data_anchor m' = marker_data_anchor m" if m: "h q = Some m" for m
  proof -
    obtain m' where m': "h' q = Some m'" "unchained m' = unchained m" using eq m by auto
    then show ?thesis using unchained_eqD [OF m'(2)] by blast
  qed
  show "map_option marker_ident (h' q) = map_option marker_ident (h q)"
  proof (cases "h q")
    case None
    then show ?thesis using eq by simp
  next
    case (Some m)
    then show ?thesis using 1 [OF Some] by auto
  qed
qed

lemma valid_same_data:
  assumes "markers_valid mb tx ps h" "same_data S h h'" "set ps' \<subseteq> set ps - S"
  shows "markers_valid mb tx ps' h'"
  unfolding markers_valid_iff
proof
  fix q assume "q \<in> set ps'"
  then have q: "q \<in> set ps" "q \<notin> S" using assms(3) by auto
  obtain m where "h q = Some m" "valid_anchor mb tx (marker_data_anchor m)" using assms(1) q(1) unfolding markers_valid_iff by blast
  then show "\<exists>m'. h' q = Some m' \<and> valid_anchor mb tx (marker_data_anchor m')" using same_dataD(1) [OF assms(2) q(2)] by fastforce
qed

lemma unlink_sound:
  assumes ok: "text_ok cs x"
  obtains ms where "on_markers (\<lambda>t. chain_unlink t p) x = Some (x\<lparr>tx_markers := ms\<rparr>)"
    "text_ok (cs(st_markers (tx_storage x) := filter (\<lambda>q. q \<noteq> p) (text_chain cs x))) (x\<lparr>tx_markers := ms\<rparr>)"
    "same_data {} (bx_heap x) (ms_heap ms)"
proof -
  let ?t = "st_markers (tx_storage x)"
  have m: "store_inv cs (tx_markers x)" "markers_valid (bx_mb x) (bx_text x) (cs ?t) (bx_heap x)" by (rule text_markers [OF ok])+
  obtain ms where ms: "chain_unlink ?t p (tx_markers x) = Some ms" "store_inv (cs(?t := filter (\<lambda>q. q \<noteq> p) (cs ?t))) ms"
      "unchains unchained (HeadSlot ?t) (cs ?t) (filter (\<lambda>q. q \<noteq> p) (cs ?t)) (tx_markers x) ms"
    by (rule chain_unlink_inv [OF m(1)])
  have next_gone: "unchained (m\<lparr>mk_next := None\<rparr>) = unchained m" for m by (simp add: unchained_def)
  have "map_option unchained (ms_heap ms q) = map_option unchained (bx_heap x q)" for q
  proof (cases "q \<in> set (cs ?t) - set (filter (\<lambda>q. q \<noteq> p) (cs ?t))")
    case True
    then have "ms_heap ms q = map_option unchained (bx_heap x q)" using ms(3) by (simp add: unchains_def spliced_def)
    then show ?thesis by (cases "bx_heap x q") (simp_all add: unchained_def)
  next
    case False
    then have "map_option (mk_next_update (\<lambda>_. None)) (ms_heap ms q) = map_option (mk_next_update (\<lambda>_. None)) (bx_heap x q)"
      using ms(3) by (simp add: unchains_def spliced_def)
    then have "map_option unchained (map_option (mk_next_update (\<lambda>_. None)) (ms_heap ms q))
        = map_option unchained (map_option (mk_next_update (\<lambda>_. None)) (bx_heap x q))" by simp
    then show ?thesis by (simp add: option.map_comp comp_def next_gone)
  qed
  then have d: "same_data {} (bx_heap x) (ms_heap ms)" by (simp add: same_data_def)
  have "markers_valid (bx_mb x) (bx_text x) (filter (\<lambda>q. q \<noteq> p) (cs ?t)) (ms_heap ms)"
    by (rule valid_same_data [OF m(2) d]) auto
  then have "text_ok (cs(?t := filter (\<lambda>q. q \<noteq> p) (cs ?t))) (x\<lparr>tx_markers := ms\<rparr>)"
    using ok ms(2) by (simp add: text_ok_def text_markers_ok_def)
  moreover have "on_markers (\<lambda>t. chain_unlink t p) x = Some (x\<lparr>tx_markers := ms\<rparr>)" using ms(1) by (simp add: on_markers_def)
  ultimately show thesis using that d by blast
qed

lemma register_sound:
  assumes ok: "text_ok cs x" and p: "bx_heap x p = Some m" "\<And>t. p \<notin> set (cs t)"
    and k: "is_emacs_char_boundary (bx_text x) k (bx_mb x)"
  obtains x' m' where "register_marker_at_emacs_byte_pos buf p mid k it x = Some x'"
    "text_ok (cs(st_markers (tx_storage x) := p # text_chain cs x)) x'" "remarked x x'" "same_data {p} (bx_heap x) (bx_heap x')"
    "bx_heap x' p = Some m'" "marker_ident m' = (Some mid, Some buf, it = After)" "mk_bytepos m' = k"
proof -
  have n: "min k (length (bx_text x)) = k" using boundary_le [OF k] by simp
  obtain a x1 where a: "text_anchor_for_emacs_byte_pos k x = Some (a, x1)" "ta_byte a = k" "recached x x1"
    using text_anchor_sound [OF ok, of k] k n by auto
  note k1 = recached_keeps [OF a(3)]
  obtain a' x2 where a': "text_anchor_for_emacs_byte_pos k x1 = Some (a', x2)" "valid_anchor (bx_mb x) (bx_text x) a'" "ta_byte a' = k" "recached x1 x2"
    using text_anchor_sound [OF k1(3) [OF ok], of k] k n by (auto simp: k1(1,2))
  have r: "recached x x2" by (rule recached_trans [OF a(3) a'(4)])
  note k2 = recached_keeps [OF r]
  let ?t = "st_markers (tx_storage x)"
  have ok2: "text_ok cs x2" by (rule k2(3) [OF ok])
  have mv: "store_inv cs (tx_markers x)" "markers_valid (bx_mb x) (bx_text x) (cs ?t) (bx_heap x)" by (rule text_markers [OF ok])+
  have free: "\<not> mk_chained m" using store_invD(5) [OF mv(1) p(1)] p(2) by blast
  obtain ms where ms: "register_marker ?t p buf mid a' it (tx_markers x) = Some ms" "store_inv (cs(?t := p # cs ?t)) ms"
    by (rule register_marker_inv [OF mv(1) p(1) free])
  let ?m = "((set_marker_data_anchor (m\<lparr>mk_buffer := Some buf, mk_marker_id := Some mid\<rparr>) a')
      \<lparr>mk_last_position_valid := True, mk_insertion_type := (it = After)\<rparr>)\<lparr>mk_next := ms_heads (tx_markers x) ?t, mk_chained := True\<rparr>"
  have heap: "ms_heap ms = (bx_heap x)(p \<mapsto> ?m)"
    using ms(1) p(1) by (auto simp: register_marker_def chain_splice_at_head_def Let_def bind_eq_Some_conv panic_unless_def split: if_splits)
  have m: "marker_ident ?m = (Some mid, Some buf, it = After)" "mk_bytepos ?m = k" "marker_data_anchor ?m = a'"
    using a'(3) by (simp_all add: marker_ident_def set_marker_data_anchor_def marker_data_anchor_def anchor_new_def)
  have d: "same_data {p} (bx_heap x) (ms_heap ms)" by (simp add: same_data_def heap)
  have valid: "markers_valid (bx_mb x) (bx_text x) (p # cs ?t) (ms_heap ms)"
    using valid_same_data [OF mv(2) d, of "cs ?t"] p(2) a'(2) m(3)
    by (simp add: markers_valid_iff heap)
  let ?x' = "x2\<lparr>tx_markers := ms\<rparr>"
  have reg: "register_marker_at_emacs_byte_pos buf p mid k it x = Some ?x'"
    using a(1,2) a'(1) ms(1) k2(5,10)
    by (simp add: register_marker_at_emacs_byte_pos_def register_marker_at_anchor_def on_markers_def)
  have ok': "text_ok (cs(?t := p # cs ?t)) ?x'"
    using text_okD(1) [OF ok2] ms(2) valid k2(1,2,10) by (simp add: text_ok_def text_markers_ok_def)
  have rem: "remarked x ?x'" using r unfolding recached_def remarked_def by auto
  show thesis
    by (rule that [OF reg ok' rem _ _ m(1,2)]) (use d in \<open>simp_all add: heap\<close>)
qed

subsection \<open>Recording and reading back\<close>

lemma find_unique: "p \<in> set ps \<Longrightarrow> P p \<Longrightarrow> (\<forall>q \<in> set ps. P q \<longrightarrow> q = p) \<Longrightarrow> List.find P ps = Some p"
proof (induction ps)
  case (Cons a ps)
  then show ?case by (cases "P a") fastforce+
qed simp

lemma lookup_held:
  assumes ok: "text_ok cs x" and held: "holds_marker (text_chain cs x) (bx_heap x) buf mid p it"
  obtains m where "bx_heap x p = Some m" "marker_emacs_byte_pos mid x = Some (Some (mk_bytepos m))"
proof -
  let ?t = "st_markers (tx_storage x)"
  have inv: "store_inv cs (tx_markers x)" and v: "markers_valid (bx_mb x) (bx_text x) (cs ?t) (bx_heap x)" by (rule text_markers [OF ok])+
  obtain m where m: "bx_heap x p = Some m" "mk_marker_id m = Some mid" using held by (auto simp: holds_marker_def marker_ident_def)
  have u: "q = p" if q: "q \<in> set (cs ?t)" "mk_marker_id (the (bx_heap x q)) = Some mid" for q
  proof -
    obtain k where "bx_heap x q = Some k" using bspec [OF v [unfolded markers_valid_iff] q(1)] by blast
    then show ?thesis using held q by (simp add: holds_marker_def)
  qed
  have "p \<in> set (cs ?t)" using held by (simp add: holds_marker_def)
  moreover have "mk_marker_id (the (bx_heap x p)) = Some mid" using m by simp
  moreover have "\<forall>q \<in> set (cs ?t). mk_marker_id (the (bx_heap x q)) = Some mid \<longrightarrow> q = p" using u by blast
  ultimately have "List.find (\<lambda>q. mk_marker_id (the (bx_heap x q)) = Some mid) (cs ?t) = Some p" by (rule find_unique)
  then have "marker_emacs_byte_pos mid x = Some (Some (mk_bytepos m))"
    using chain_find_alloc [OF inv, of ?t mid] m(1) by (simp add: marker_emacs_byte_pos_def marker_chain_anchor_lookup_def)
  then show thesis using that m(1) by blast
qed

definition markers_at_state :: "('v, 'o) buffer \<Rightarrow> ('p, 'v) text_object \<Rightarrow> bool" where
  "markers_at_state b x \<longleftrightarrow> pred_option (\<lambda>ids. marker_emacs_byte_pos (sm_pt ids) x = Some (Some (ta_byte (bf_point b)))
     \<and> marker_emacs_byte_pos (sm_begv ids) x = Some (Some (ta_byte (bf_accessible_start b)))
     \<and> marker_emacs_byte_pos (sm_zv ids) x = Some (Some (ta_byte (bf_accessible_end b)))) (bf_state_markers b)"

lemma state_boundaries:
  assumes "buffer_on x b"
  shows "is_emacs_char_boundary (bx_text x) (ta_byte (bf_point b)) (bx_mb x)"
    "is_emacs_char_boundary (bx_text x) (ta_byte (bf_accessible_start b)) (bx_mb x)"
    "is_emacs_char_boundary (bx_text x) (ta_byte (bf_accessible_end b)) (bx_mb x)"
  using buffer_onD(2-4) [OF assms] by (simp_all add: char_offset_def)

lemma same_data_trans: "same_data S h h1 \<Longrightarrow> same_data T h1 h2 \<Longrightarrow> same_data (S \<union> T) h h2"
  by (simp add: same_data_def)

lemma register_three:
  assumes ok: "text_ok cs x" and on: "buffer_on x b"
    and p: "distinct [p1, p2, p3]" "\<forall>q \<in> {p1, p2, p3}. \<exists>m. bx_heap x q = Some m \<and> (\<forall>t. q \<notin> set (cs t))"
  obtains x1 x2 x3 cs' where
    "register_marker_at_emacs_byte_pos (bf_id b) p1 i1 (ta_byte (bf_point b)) Before x = Some x1"
    "register_marker_at_emacs_byte_pos (bf_id b) p2 i2 (ta_byte (bf_accessible_start b)) Before x1 = Some x2"
    "register_marker_at_emacs_byte_pos (bf_id b) p3 i3 (ta_byte (bf_accessible_end b)) After x2 = Some x3"
    "text_ok cs' x3" "text_chain cs' x3 = p3 # p2 # p1 # text_chain cs x" "remarked x x3" "same_data {p1, p2, p3} (bx_heap x) (bx_heap x3)"
    "\<exists>m. bx_heap x3 p1 = Some m \<and> marker_ident m = (Some i1, Some (bf_id b), False) \<and> mk_bytepos m = ta_byte (bf_point b)"
    "\<exists>m. bx_heap x3 p2 = Some m \<and> marker_ident m = (Some i2, Some (bf_id b), False) \<and> mk_bytepos m = ta_byte (bf_accessible_start b)"
    "\<exists>m. bx_heap x3 p3 = Some m \<and> marker_ident m = (Some i3, Some (bf_id b), True) \<and> mk_bytepos m = ta_byte (bf_accessible_end b)"
proof -
  let ?t = "st_markers (tx_storage x)"
  note bd = state_boundaries [OF on]
  obtain n1 n2 n3 where n: "bx_heap x p1 = Some n1" "bx_heap x p2 = Some n2" "bx_heap x p3 = Some n3" using p(2) by auto
  have free: "p1 \<notin> set (cs t)" "p2 \<notin> set (cs t)" "p3 \<notin> set (cs t)" for t using p(2) by auto
  let ?cs1 = "cs(?t := p1 # cs ?t)"
  obtain x1 m1 where r1: "register_marker_at_emacs_byte_pos (bf_id b) p1 i1 (ta_byte (bf_point b)) Before x = Some x1"
      "text_ok ?cs1 x1" "remarked x x1" "same_data {p1} (bx_heap x) (bx_heap x1)" "bx_heap x1 p1 = Some m1"
      "marker_ident m1 = (Some i1, Some (bf_id b), Before = After)" "mk_bytepos m1 = ta_byte (bf_point b)"
    by (rule register_sound [OF ok n(1) free(1) bd(1), where mid = i1 and buf = "bf_id b" and it = Before])
  note k1 = remarked_keeps [OF r1(3)]
  obtain k2 where q2: "bx_heap x1 p2 = Some k2" using same_dataD(1) [OF r1(4) _ n(2)] p(1) by auto
  obtain k3 where q3: "bx_heap x1 p3 = Some k3" using same_dataD(1) [OF r1(4) _ n(3)] p(1) by auto
  have bd2: "is_emacs_char_boundary (bx_text x1) (ta_byte (bf_accessible_start b)) (bx_mb x1)" using bd(2) by (simp add: k1)
  have free2: "p2 \<notin> set (?cs1 t)" for t using free(2) p(1) by auto
  let ?cs2 = "?cs1(?t := p2 # ?cs1 ?t)"
  obtain x2 m2 where r2: "register_marker_at_emacs_byte_pos (bf_id b) p2 i2 (ta_byte (bf_accessible_start b)) Before x1 = Some x2"
      "text_ok ?cs2 x2" "remarked x1 x2" "same_data {p2} (bx_heap x1) (bx_heap x2)" "bx_heap x2 p2 = Some m2"
      "marker_ident m2 = (Some i2, Some (bf_id b), Before = After)" "mk_bytepos m2 = ta_byte (bf_accessible_start b)"
    by (rule register_sound [OF r1(2) q2 free2 bd2, where mid = i2 and buf = "bf_id b" and it = Before, unfolded k1(8)])
  note k2 = remarked_keeps [OF r2(3)]
  obtain k3 where q3: "bx_heap x2 p3 = Some k3" using same_dataD(1) [OF r2(4) _ q3] p(1) by auto
  have bd3: "is_emacs_char_boundary (bx_text x2) (ta_byte (bf_accessible_end b)) (bx_mb x2)" using bd(3) by (simp add: k1 k2)
  have free3: "p3 \<notin> set (?cs2 t)" for t using free(3) p(1) by auto
  let ?cs3 = "?cs2(?t := p3 # ?cs2 ?t)"
  obtain x3 m3 where r3: "register_marker_at_emacs_byte_pos (bf_id b) p3 i3 (ta_byte (bf_accessible_end b)) After x2 = Some x3"
      "text_ok ?cs3 x3" "remarked x2 x3" "same_data {p3} (bx_heap x2) (bx_heap x3)" "bx_heap x3 p3 = Some m3"
      "marker_ident m3 = (Some i3, Some (bf_id b), After = After)" "mk_bytepos m3 = ta_byte (bf_accessible_end b)"
    by (rule register_sound [OF r2(2) q3 free3 bd3, where mid = i3 and buf = "bf_id b" and it = After, unfolded k2(8) k1(8)])
  have d2: "p1 \<notin> {p2}" "p1 \<notin> {p3}" "p2 \<notin> {p3}" using p(1) by auto
  obtain m1' where m1': "bx_heap x2 p1 = Some m1'" "marker_ident m1' = marker_ident m1" "marker_data_anchor m1' = marker_data_anchor m1"
    using same_dataD(1) [OF r2(4) d2(1) r1(5)] by blast
  obtain m1'' where m1'': "bx_heap x3 p1 = Some m1''" "marker_ident m1'' = marker_ident m1'" "marker_data_anchor m1'' = marker_data_anchor m1'"
    using same_dataD(1) [OF r3(4) d2(2) m1'(1)] by blast
  obtain m2' where m2': "bx_heap x3 p2 = Some m2'" "marker_ident m2' = marker_ident m2" "marker_data_anchor m2' = marker_data_anchor m2"
    using same_dataD(1) [OF r3(4) d2(3) r2(5)] by blast
  have anchor: "mk_bytepos m = mk_bytepos m'" if "marker_data_anchor m = marker_data_anchor m'" for m m'
    using that by (metis marker_anchor_simps(2))
  have "same_data {p1, p2, p3} (bx_heap x) (bx_heap x3)"
    using same_data_trans [OF same_data_trans [OF r1(4) r2(4)] r3(4)] by (simp add: insert_commute)
  moreover have "st_markers (tx_storage x3) = ?t" using remarked_keeps(8) [OF r3(3)] k1(8) k2(8) by simp
  then have "text_chain ?cs3 x3 = p3 # p2 # p1 # text_chain cs x" by simp
  ultimately show thesis
    using that [OF r1(1) r2(1) r3(1,2)] remarked_trans [OF remarked_trans [OF r1(3) r2(3)] r3(3)] r1(6,7) r2(6,7) r3(5-7)
      m1'(2) m1'' m2' anchor [OF m1'(3)] anchor [OF m1''(3)] anchor [OF m2'(3)]
    by simp
qed

lemma unlink_three:
  assumes ok: "text_ok cs x" and p: "p1 \<in> set (text_chain cs x)" "p2 \<in> set (text_chain cs x)" "p3 \<in> set (text_chain cs x)"
  obtains x1 x2 x3 cs' where
    "on_markers (\<lambda>t. chain_unlink t p1) x = Some x1" "on_markers (\<lambda>t. chain_unlink t p2) x1 = Some x2"
    "on_markers (\<lambda>t. chain_unlink t p3) x2 = Some x3" "text_ok cs' x3" "remarked x x3" "same_data {} (bx_heap x) (bx_heap x3)"
    "set (text_chain cs' x3) = set (text_chain cs x) - {p1, p2, p3}"
    "\<forall>q \<in> {p1, p2, p3}. \<exists>m. bx_heap x3 q = Some m \<and> (\<forall>t. q \<notin> set (cs' t))"
proof -
  let ?t = "st_markers (tx_storage x)"
  have inv: "store_inv cs (tx_markers x)" and v: "markers_valid (bx_mb x) (bx_text x) (cs ?t) (bx_heap x)" by (rule text_markers [OF ok])+
  obtain m1 where u1: "on_markers (\<lambda>t. chain_unlink t p1) x = Some (x\<lparr>tx_markers := m1\<rparr>)"
      "text_ok (cs(?t := filter (\<lambda>q. q \<noteq> p1) (cs ?t))) (x\<lparr>tx_markers := m1\<rparr>)" "same_data {} (bx_heap x) (ms_heap m1)"
    by (rule unlink_sound [OF ok])
  obtain m2 where u2: "on_markers (\<lambda>t. chain_unlink t p2) (x\<lparr>tx_markers := m1\<rparr>) = Some (x\<lparr>tx_markers := m2\<rparr>)"
      "text_ok (cs(?t := filter (\<lambda>q. q \<noteq> p2) (filter (\<lambda>q. q \<noteq> p1) (cs ?t)))) (x\<lparr>tx_markers := m2\<rparr>)" "same_data {} (ms_heap m1) (ms_heap m2)"
    by (rule unlink_sound [OF u1(2), where p = p2]) simp
  obtain m3 where u3: "on_markers (\<lambda>t. chain_unlink t p3) (x\<lparr>tx_markers := m2\<rparr>) = Some (x\<lparr>tx_markers := m3\<rparr>)"
      "text_ok (cs(?t := filter (\<lambda>q. q \<noteq> p3) (filter (\<lambda>q. q \<noteq> p2) (filter (\<lambda>q. q \<noteq> p1) (cs ?t))))) (x\<lparr>tx_markers := m3\<rparr>)"
      "same_data {} (ms_heap m2) (ms_heap m3)"
    by (rule unlink_sound [OF u2(2), where p = p3]) simp
  have d: "same_data {} (bx_heap x) (ms_heap m3)" using same_data_trans [OF same_data_trans [OF u1(3) u2(3)] u3(3)] by simp
  have "\<exists>m. ms_heap m3 q = Some m \<and> (\<forall>t. q \<notin> set ((cs(?t := filter (\<lambda>q. q \<noteq> p3) (filter (\<lambda>q. q \<noteq> p2) (filter (\<lambda>q. q \<noteq> p1) (cs ?t))))) t))"
    if q: "q \<in> {p1, p2, p3}" for q
  proof -
    have mem: "q \<in> set (cs ?t)" using q p by auto
    obtain m where m: "bx_heap x q = Some m" using bspec [OF v [unfolded markers_valid_iff] mem] by blast
    have "q \<notin> set (cs t)" if t: "t \<noteq> ?t" for t using store_invD(4) [OF inv mem] t by blast
    then show ?thesis using same_dataD(1) [OF d _ m] q by auto
  qed
  moreover have "remarked x (x\<lparr>tx_markers := m3\<rparr>)"
    unfolding remarked_def using text_okD(1) [OF ok] by (intro exI [of _ "tx_storage x"] exI [of _ m3]) simp
  ultimately show thesis using that [OF u1(1) u2(1) u3(1,2)] d by auto
qed

text \<open>Recording leaves the markers of all buffers in place and puts those of the buffer on its state.\<close>

lemma record_sound:
  fixes b :: "('v, 'o) buffer"
  assumes ok: "text_ok cs x" and on: "buffer_on x b" and held: "holds_markers cs x b"
  obtains cs' x' where "record_state_markers b x = Some x'" "rechained cs x cs' x'" "remarked x x'" "markers_at_state b x'"
    "\<And>c :: ('v, 'o) buffer. holds_markers cs x c \<Longrightarrow> bf_id c \<noteq> bf_id b \<Longrightarrow> markers_at_state c x \<Longrightarrow> markers_at_state c x'"
proof (cases "bf_state_markers b")
  case None
  then show thesis
    using that [of x cs] rechained_refl [OF ok] recached_remarked [OF recached_refl [OF ok]]
    by (simp add: record_state_markers_def markers_at_state_def)
next
  case (Some ids)
  let ?ps = "{sm_pt_ptr ids, sm_begv_ptr ids, sm_zv_ptr ids}"
  have h: "holds_ids (text_chain cs x) (bx_heap x) (bf_id b) ids" using held Some by (simp add: holds_markers_def)
  then have dist: "distinct [sm_pt_ptr ids, sm_begv_ptr ids, sm_zv_ptr ids]"
    and mem: "sm_pt_ptr ids \<in> set (text_chain cs x)" "sm_begv_ptr ids \<in> set (text_chain cs x)" "sm_zv_ptr ids \<in> set (text_chain cs x)"
    and was: "map_option marker_ident (bx_heap x (sm_pt_ptr ids)) = Some (Some (sm_pt ids), Some (bf_id b), False)"
      "map_option marker_ident (bx_heap x (sm_begv_ptr ids)) = Some (Some (sm_begv ids), Some (bf_id b), False)"
      "map_option marker_ident (bx_heap x (sm_zv_ptr ids)) = Some (Some (sm_zv ids), Some (bf_id b), True)"
    by (simp_all add: holds_ids_def holds_marker_def)
  obtain u1 u2 u3 cs1 where u: "on_markers (\<lambda>t. chain_unlink t (sm_pt_ptr ids)) x = Some u1"
      "on_markers (\<lambda>t. chain_unlink t (sm_begv_ptr ids)) u1 = Some u2" "on_markers (\<lambda>t. chain_unlink t (sm_zv_ptr ids)) u2 = Some u3"
      "text_ok cs1 u3" "remarked x u3" "same_data {} (bx_heap x) (bx_heap u3)"
      "set (text_chain cs1 u3) = set (text_chain cs x) - ?ps"
      "\<forall>q \<in> ?ps. \<exists>m. bx_heap u3 q = Some m \<and> (\<forall>t. q \<notin> set (cs1 t))"
    by (rule unlink_three [OF ok mem])
  have on': "buffer_on u3 b" using on by (simp add: remarked_keeps(3) [OF u(5)])
  obtain r1 r2 r3 cs2 where r: "register_marker_at_emacs_byte_pos (bf_id b) (sm_pt_ptr ids) (sm_pt ids) (ta_byte (bf_point b)) Before u3 = Some r1"
      "register_marker_at_emacs_byte_pos (bf_id b) (sm_begv_ptr ids) (sm_begv ids) (ta_byte (bf_accessible_start b)) Before r1 = Some r2"
      "register_marker_at_emacs_byte_pos (bf_id b) (sm_zv_ptr ids) (sm_zv ids) (ta_byte (bf_accessible_end b)) After r2 = Some r3"
      "text_ok cs2 r3" "text_chain cs2 r3 = sm_zv_ptr ids # sm_begv_ptr ids # sm_pt_ptr ids # text_chain cs1 u3" "remarked u3 r3"
      "same_data ?ps (bx_heap u3) (bx_heap r3)"
      "\<exists>m. bx_heap r3 (sm_pt_ptr ids) = Some m \<and> marker_ident m = (Some (sm_pt ids), Some (bf_id b), False) \<and> mk_bytepos m = ta_byte (bf_point b)"
      "\<exists>m. bx_heap r3 (sm_begv_ptr ids) = Some m \<and> marker_ident m = (Some (sm_begv ids), Some (bf_id b), False) \<and> mk_bytepos m = ta_byte (bf_accessible_start b)"
      "\<exists>m. bx_heap r3 (sm_zv_ptr ids) = Some m \<and> marker_ident m = (Some (sm_zv ids), Some (bf_id b), True) \<and> mk_bytepos m = ta_byte (bf_accessible_end b)"
    by (rule register_three [OF u(4) on' dist u(8)])
  have "map_option marker_ident (bx_heap r3 q) = map_option marker_ident (bx_heap x q)" for q
  proof (cases "q \<in> ?ps")
    case True
    then show ?thesis using r(8-10) was by auto
  next
    case False
    then show ?thesis using same_dataD(2) [OF r(7) False] same_dataD(2) [OF u(6), of q] by simp
  qed
  then have re: "rechained cs x cs2 r3" using r(4,5) u(7) mem by (auto simp: rechained_def same_idents_def)
  have rec: "record_state_markers b x = Some r3" using Some u(1-3) r(1-3) by (simp add: record_state_markers_def)
  have "holds_markers cs2 r3 b" by (rule rechained_holds [OF re held])
  then have h2: "holds_ids (text_chain cs2 r3) (bx_heap r3) (bf_id b) ids" using Some by (simp add: holds_markers_def)
  have at: "marker_emacs_byte_pos mid r3 = Some (Some k)"
    if held: "holds_marker (text_chain cs2 r3) (bx_heap r3) buf mid p it" and m: "\<exists>m. bx_heap r3 p = Some m \<and> marker_ident m = i \<and> mk_bytepos m = k"
    for buf mid p it i k
    using lookup_held [OF r(4) held] m by (metis option.inject)
  have "markers_at_state b r3"
    using h2 Some at [OF _ r(8)] at [OF _ r(9)] at [OF _ r(10)] by (auto simp: markers_at_state_def holds_ids_def)
  moreover have "markers_at_state c r3" if c: "holds_markers cs x c" "bf_id c \<noteq> bf_id b" "markers_at_state c x" for c :: "('v, 'o) buffer"
  proof (cases "bf_state_markers c")
    case None
    then show ?thesis by (simp add: markers_at_state_def)
  next
    case (Some idc)
    have hx: "holds_ids (text_chain cs x) (bx_heap x) (bf_id c) idc" using c(1) Some by (simp add: holds_markers_def)
    have hr: "holds_ids (text_chain cs2 r3) (bx_heap r3) (bf_id c) idc" using rechained_holds [OF re c(1)] Some by (simp add: holds_markers_def)
    have kept: "marker_emacs_byte_pos mid r3 = marker_emacs_byte_pos mid x"
      if h: "holds_marker (text_chain cs x) (bx_heap x) (bf_id c) mid p it" "holds_marker (text_chain cs2 r3) (bx_heap r3) (bf_id c) mid p it" for mid p it
    proof -
      have p: "p \<notin> ?ps" using h(1) was c(2) by (auto simp: holds_marker_def)
      obtain k where k: "bx_heap x p = Some k" "marker_emacs_byte_pos mid x = Some (Some (mk_bytepos k))" by (rule lookup_held [OF ok h(1)])
      obtain k' where k': "bx_heap r3 p = Some k'" "marker_emacs_byte_pos mid r3 = Some (Some (mk_bytepos k'))" by (rule lookup_held [OF r(4) h(2)])
      obtain k1 where "bx_heap u3 p = Some k1" "marker_data_anchor k1 = marker_data_anchor k" using same_dataD(1) [OF u(6) _ k(1)] by auto
      then have "marker_data_anchor k' = marker_data_anchor k" using same_dataD(1) [OF r(7) p] k'(1) by fastforce
      then show ?thesis using k(2) k'(2) by (simp add: marker_data_anchor_def anchor_new_def)
    qed
    have "marker_emacs_byte_pos (sm_pt idc) r3 = marker_emacs_byte_pos (sm_pt idc) x" "marker_emacs_byte_pos (sm_begv idc) r3 = marker_emacs_byte_pos (sm_begv idc) x"
      "marker_emacs_byte_pos (sm_zv idc) r3 = marker_emacs_byte_pos (sm_zv idc) x"
      using hx hr kept unfolding holds_ids_def by blast+
    then show ?thesis using c(3) Some by (simp add: markers_at_state_def)
  qed
  ultimately show thesis using that rec re remarked_trans [OF u(5) r(6)] by blast
qed

text \<open>Creating a marker: a fresh object, registered at the head of the chain.\<close>

lemma allocate_sound:
  assumes ok: "text_ok cs x" and p: "bx_heap x p = None"
  shows "text_ok cs (allocate_marker_node buf p mid it x)" "remarked x (allocate_marker_node buf p mid it x)"
    "same_data {p} (bx_heap x) (bx_heap (allocate_marker_node buf p mid it x))"
    "\<exists>m. bx_heap (allocate_marker_node buf p mid it x) p = Some m" "p \<notin> set (cs t)"
proof -
  let ?x = "allocate_marker_node buf p mid it x"
  note inv = text_markers [OF ok]
  have out: "p \<notin> set (cs t)" for t using chain_alloc [OF store_invD(2) [OF inv(1)]] p by fastforce
  then show "p \<notin> set (cs t)" .
  show d: "same_data {p} (bx_heap x) (bx_heap ?x)" by (simp add: same_data_def allocate_marker_node_def)
  have "store_inv cs (tx_markers ?x)"
    using store_inv_alloc [OF inv(1) p] by (simp add: allocate_marker_node_def)
  moreover have "markers_valid (bx_mb x) (bx_text x) (text_chain cs x) (bx_heap ?x)"
    by (rule valid_same_data [OF inv(2) d]) (use out in auto)
  ultimately show "text_ok cs ?x" using ok by (simp add: text_ok_def text_markers_ok_def allocate_marker_node_def)
  show "remarked x ?x" using text_okD(1) [OF ok] unfolding remarked_def allocate_marker_node_def
    by (intro exI [of _ "tx_storage x"] exI conjI refl) simp_all
  show "\<exists>m. bx_heap ?x p = Some m" by (simp add: allocate_marker_node_def)
qed

lemma create_sound:
  assumes ok: "text_ok cs x" and p: "bx_heap x p = None" and k: "is_emacs_char_boundary (bx_text x) k (bx_mb x)"
  obtains x' m where "create_marker_at_emacs_byte_pos buf p mid k it x = Some x'"
    "text_ok (cs(st_markers (tx_storage x) := p # text_chain cs x)) x'" "remarked x x'" "same_data {p} (bx_heap x) (bx_heap x')"
    "bx_heap x' p = Some m" "marker_ident m = (Some mid, Some buf, it = After)" "mk_bytepos m = k"
proof -
  note a = allocate_sound(1-4) [OF ok p, of buf mid it] allocate_sound(5) [OF ok p]
  note r = remarked_keeps [OF a(2)]
  obtain m0 where m0: "bx_heap (allocate_marker_node buf p mid it x) p = Some m0" using a(4) by blast
  have k': "is_emacs_char_boundary (bx_text (allocate_marker_node buf p mid it x)) k (bx_mb (allocate_marker_node buf p mid it x))"
    using k by (simp add: r)
  obtain x' m where x': "register_marker_at_emacs_byte_pos buf p mid k it (allocate_marker_node buf p mid it x) = Some x'"
      "text_ok (cs(st_markers (tx_storage x) := p # text_chain cs x)) x'" "remarked (allocate_marker_node buf p mid it x) x'"
      "same_data {p} (bx_heap (allocate_marker_node buf p mid it x)) (bx_heap x')"
      "bx_heap x' p = Some m" "marker_ident m = (Some mid, Some buf, it = After)" "mk_bytepos m = k"
    by (rule register_sound [OF a(1) m0 a(5) k', unfolded r(8)])
  show thesis
    using that x' remarked_trans [OF a(2) x'(3)] same_data_trans [OF a(3) x'(4)] by (simp add: create_marker_at_emacs_byte_pos_def)
qed

text \<open>
  Giving a buffer its markers: the chain grows by three, everybody else still holds theirs, and the
  counters of the caller have advanced by three.
\<close>

lemma holds_marker_grow:
  assumes "holds_marker ps h buf mid p it" "set ps' = insert q (set ps)" "same_data {q} h h'" "q \<notin> set ps"
    "\<forall>m. h' q = Some m \<longrightarrow> mk_marker_id m \<noteq> Some mid"
  shows "holds_marker ps' h' buf mid p it"
proof -
  have p: "p \<in> set ps" "map_option marker_ident (h p) = Some (Some mid, Some buf, it)" "p \<notin> {q}"
    using assms(1,4) by (auto simp: holds_marker_def)
  have uniq: "\<And>r m. r \<in> set ps \<Longrightarrow> h r = Some m \<Longrightarrow> mk_marker_id m = Some mid \<Longrightarrow> r = p"
    using assms(1) by (simp add: holds_marker_def)
  have "r = p" if r: "r \<in> set ps'" "h' r = Some m'" "mk_marker_id m' = Some mid" for r m'
  proof -
    have rq: "r \<notin> {q}" using r assms(5) by auto
    then obtain m where "h r = Some m" "marker_ident m' = marker_ident m"
      using same_dataD(2) [OF assms(3) rq] r(2) by (cases "h r") auto
    then show ?thesis using uniq [of r m] r rq assms(2) by (simp add: marker_ident_def)
  qed
  then show ?thesis
    using p same_dataD(2) [OF assms(3) p(3)] assms(2) unfolding holds_marker_def by auto
qed

lemma held_given_out:
  assumes "given_out mid ptr cs x" "holds_marker (text_chain cs x) (bx_heap x) buf i p it"
  shows "i < mid \<or> i = MARK_MARKER_ID"
proof -
  have p: "p \<in> set (text_chain cs x)" using assms(2) by (simp add: holds_marker_def)
  obtain m where "bx_heap x p = Some m" "mk_marker_id m = Some i" using assms(2) by (auto simp: holds_marker_def marker_ident_def)
  then show ?thesis using assms(1) p unfolding given_out_def by blast
qed

lemma create_one:
  assumes ok: "text_ok cs x" and g: "given_out mid ptr cs x" "mid < MARK_MARKER_ID" and k: "is_emacs_char_boundary (bx_text x) k (bx_mb x)"
  obtains cs' x' m where "create_marker_at_emacs_byte_pos buf ptr mid k it x = Some x'" "text_ok cs' x'" "remarked x x'"
    "given_out (mid + 1) (ptr + 1) cs' x'" "holds_marker (text_chain cs' x') (bx_heap x') buf mid ptr (it = After)"
    "\<And>buf' i p it'. i \<noteq> mid \<Longrightarrow> holds_marker (text_chain cs x) (bx_heap x) buf' i p it' \<Longrightarrow>
       p \<noteq> ptr \<and> holds_marker (text_chain cs' x') (bx_heap x') buf' i p it'"
proof -
  let ?t = "st_markers (tx_storage x)"
  let ?cs = "cs(?t := ptr # text_chain cs x)"
  have free: "bx_heap x ptr = None" using g(1) by (cases "bx_heap x ptr") (auto simp: given_out_def)
  obtain x' m where c: "create_marker_at_emacs_byte_pos buf ptr mid k it x = Some x'" "text_ok ?cs x'" "remarked x x'"
      "same_data {ptr} (bx_heap x) (bx_heap x')" "bx_heap x' ptr = Some m" "marker_ident m = (Some mid, Some buf, it = After)"
    by (rule create_sound [OF ok free k])
  have ch: "text_chain ?cs x' = ptr # text_chain cs x" using remarked_keeps(8) [OF c(3)] by simp
  have out: "ptr \<notin> set (text_chain cs x)" by (rule allocate_sound(5) [OF ok free])
  have old: "\<exists>m. bx_heap x q = Some m \<and> marker_ident m = marker_ident m'" if q: "bx_heap x' q = Some m'" "q \<noteq> ptr" for q m'
    using same_dataD(2) [OF c(4), of q] q by (cases "bx_heap x q") auto
  have ids: "mk_marker_id m = Some mid" using c(6) by (simp add: marker_ident_def)
  have "given_out (mid + 1) (ptr + 1) ?cs x'"
    unfolding given_out_def ch
  proof (intro conjI allI ballI impI)
    fix q m' assume q: "bx_heap x' q = Some m'"
    show "q < ptr + 1"
    proof (cases "q = ptr")
      case False
      then obtain m1 where "bx_heap x q = Some m1" using old [OF q] by blast
      then have "q < ptr" using g(1) unfolding given_out_def by blast
      then show ?thesis by simp
    qed simp
  next
    fix q m' i assume q: "q \<in> set (ptr # text_chain cs x)" "bx_heap x' q = Some m'" "mk_marker_id m' = Some i"
    show "i < mid + 1 \<or> i = MARK_MARKER_ID"
    proof (cases "q = ptr")
      case True
      then show ?thesis using q c(5) ids by simp
    next
      case False
      then obtain m1 where m1: "bx_heap x q = Some m1" "mk_marker_id m1 = Some i" using old [OF q(2)] q(3) by (auto simp: marker_ident_def)
      have "q \<in> set (text_chain cs x)" using q(1) False by simp
      then have "i < mid \<or> i = MARK_MARKER_ID" using g(1) m1 unfolding given_out_def by blast
      then show ?thesis by auto
    qed
  qed
  moreover have "q = ptr" if q: "q \<in> set (ptr # text_chain cs x)" "bx_heap x' q = Some m'" "mk_marker_id m' = Some mid" for q m'
  proof (rule ccontr)
    assume ne: "q \<noteq> ptr"
    then obtain m1 where m1: "bx_heap x q = Some m1" "mk_marker_id m1 = Some mid" using old [OF q(2)] q(3) by (auto simp: marker_ident_def)
    have "q \<in> set (text_chain cs x)" using q(1) ne by simp
    then have "mid < mid \<or> mid = MARK_MARKER_ID" using g(1) m1 unfolding given_out_def by blast
    then show False using g(2) by simp
  qed
  then have "holds_marker (text_chain ?cs x') (bx_heap x') buf mid ptr (it = After)"
    unfolding holds_marker_def ch using c(5,6) by auto
  moreover have "p \<noteq> ptr \<and> holds_marker (text_chain ?cs x') (bx_heap x') buf' i p it'"
    if i: "i \<noteq> mid" and h: "holds_marker (text_chain cs x) (bx_heap x) buf' i p it'" for buf' i p it'
    using holds_marker_grow [OF h _ c(4) out, of "text_chain ?cs x'"] ch c(5) ids i h out by (auto simp: holds_marker_def)
  ultimately show thesis using that c(1-3) by blast
qed

lemma ensure_sound:
  assumes ok: "text_ok cs x" and on: "buffer_on x b" and g: "given_out mid ptr cs x" "mid + 2 < MARK_MARKER_ID"
    and new: "bf_state_markers b = None"
  obtains cs' x' ids where "ensure_state_markers mid ptr b x = Some (b\<lparr>bf_state_markers := Some ids\<rparr>, x')" "text_ok cs' x'" "remarked x x'"
    "given_out (mid + 3) (ptr + 3) cs' x'" "holds_markers cs' x' (b\<lparr>bf_state_markers := Some ids\<rparr>)"
    "\<And>c. holds_markers cs x c \<Longrightarrow> holds_markers cs' x' c"
proof -
  note bd = state_boundaries [OF on]
  have lt: "mid < MARK_MARKER_ID" "mid + 1 < MARK_MARKER_ID" "mid + 1 + 1 < MARK_MARKER_ID" using g(2) by simp_all
  obtain cs1 x1 where c1: "create_marker_at_emacs_byte_pos (bf_id b) ptr mid (ta_byte (bf_point b)) Before x = Some x1" "text_ok cs1 x1"
      "remarked x x1" "given_out (mid + 1) (ptr + 1) cs1 x1" "holds_marker (text_chain cs1 x1) (bx_heap x1) (bf_id b) mid ptr (Before = After)"
      "\<And>buf' i p it'. i \<noteq> mid \<Longrightarrow> holds_marker (text_chain cs x) (bx_heap x) buf' i p it' \<Longrightarrow>
         p \<noteq> ptr \<and> holds_marker (text_chain cs1 x1) (bx_heap x1) buf' i p it'"
    by (rule create_one [OF ok g(1) lt(1) bd(1), where buf = "bf_id b" and it = Before]) (rule that)
  note k1 = remarked_keeps [OF c1(3)]
  have bd2: "is_emacs_char_boundary (bx_text x1) (ta_byte (bf_accessible_start b)) (bx_mb x1)" using bd(2) by (simp add: k1)
  obtain cs2 x2 where c2: "create_marker_at_emacs_byte_pos (bf_id b) (ptr + 1) (mid + 1) (ta_byte (bf_accessible_start b)) Before x1 = Some x2"
      "text_ok cs2 x2" "remarked x1 x2" "given_out (mid + 1 + 1) (ptr + 1 + 1) cs2 x2"
      "holds_marker (text_chain cs2 x2) (bx_heap x2) (bf_id b) (mid + 1) (ptr + 1) (Before = After)"
      "\<And>buf' i p it'. i \<noteq> mid + 1 \<Longrightarrow> holds_marker (text_chain cs1 x1) (bx_heap x1) buf' i p it' \<Longrightarrow>
         p \<noteq> ptr + 1 \<and> holds_marker (text_chain cs2 x2) (bx_heap x2) buf' i p it'"
    by (rule create_one [OF c1(2,4) lt(2) bd2, where buf = "bf_id b" and it = Before]) (rule that)
  note k2 = remarked_keeps [OF c2(3)]
  have bd3: "is_emacs_char_boundary (bx_text x2) (ta_byte (bf_accessible_end b)) (bx_mb x2)" using bd(3) by (simp add: k1 k2)
  obtain cs3 x3 where c3: "create_marker_at_emacs_byte_pos (bf_id b) (ptr + 1 + 1) (mid + 1 + 1) (ta_byte (bf_accessible_end b)) After x2 = Some x3"
      "text_ok cs3 x3" "remarked x2 x3" "given_out (mid + 1 + 1 + 1) (ptr + 1 + 1 + 1) cs3 x3"
      "holds_marker (text_chain cs3 x3) (bx_heap x3) (bf_id b) (mid + 1 + 1) (ptr + 1 + 1) (After = After)"
      "\<And>buf' i p it'. i \<noteq> mid + 1 + 1 \<Longrightarrow> holds_marker (text_chain cs2 x2) (bx_heap x2) buf' i p it' \<Longrightarrow>
         p \<noteq> ptr + 1 + 1 \<and> holds_marker (text_chain cs3 x3) (bx_heap x3) buf' i p it'"
    by (rule create_one [OF c2(2,4) lt(3) bd3, where buf = "bf_id b" and it = After]) (rule that)
  have keep: "holds_marker (text_chain cs3 x3) (bx_heap x3) buf i p it"
    if h: "holds_marker (text_chain cs x) (bx_heap x) buf i p it" for buf i p it
    using held_given_out [OF g(1) h] lt c3(6) [OF _ conjunct2 [OF c2(6) [OF _ conjunct2 [OF c1(6) [OF _ h]]]]] by auto
  let ?ids = "\<lparr>sm_pt = mid, sm_begv = mid + 1, sm_zv = mid + 2, sm_pt_ptr = ptr, sm_begv_ptr = ptr + 1, sm_zv_ptr = ptr + 2\<rparr>"
  have "holds_marker (text_chain cs3 x3) (bx_heap x3) (bf_id b) mid ptr False"
    using c3(6) [OF _ conjunct2 [OF c2(6) [OF _ c1(5)]]] by simp
  moreover have "holds_marker (text_chain cs3 x3) (bx_heap x3) (bf_id b) (mid + 1) (ptr + 1) False"
    using c3(6) [OF _ c2(5)] by simp
  ultimately have mine: "holds_markers cs3 x3 (b\<lparr>bf_state_markers := Some ?ids\<rparr>)"
    using c3(5) by (simp add: holds_markers_def holds_ids_def)
  have others: "holds_markers cs3 x3 c" if h: "holds_markers cs x c" for c
    using h keep by (cases "bf_state_markers c") (auto simp: holds_markers_def holds_ids_def)
  have "ensure_state_markers mid ptr b x = Some (b\<lparr>bf_state_markers := Some ?ids\<rparr>, x3)"
    using new c1(1) c2(1) c3(1) by (simp add: ensure_state_markers_def)
  moreover have "given_out (mid + 3) (ptr + 3) cs3 x3" using c3(4) by (simp add: eval_nat_numeral)
  ultimately show thesis
    using that c3(2) remarked_trans [OF remarked_trans [OF c1(3) c2(3)] c3(3)] mine others by blast
qed

lemma given_out_mono: "given_out mid ptr cs x \<Longrightarrow> mid \<le> mid' \<Longrightarrow> ptr \<le> ptr' \<Longrightarrow> given_out mid' ptr' cs x"
  unfolding given_out_def by (meson order_less_le_trans)

text \<open>
  Reading the markers of a buffer whose own state is stale, because the text has been edited in
  another buffer: its point need not be a position any more, but the markers are, and what is read is
  a state of the new text.
\<close>

lemma text_anchor_total:
  assumes ok: "text_ok cs x"
  shows "\<exists>a x'. text_anchor_for_emacs_byte_pos k x = Some (a, x') \<and> recached x x'"
proof (cases "min k (total_emacs_byte_end_pos x) = total_emacs_byte_end_pos x")
  case True
  then show ?thesis using recached_refl [OF ok] by (simp add: text_anchor_for_emacs_byte_pos_def Let_def)
next
  case False
  obtain c s where "st_emacs_byte_pos_to_char_pos (tx_markers x) (min k (total_emacs_byte_end_pos x)) (tx_storage x) = Some (c, s)"
      "storage_inv s" "same_text (tx_storage x) s"
    using byte_to_char_converts [OF text_okD(1,2) [OF ok], of "min k (total_emacs_byte_end_pos x)"] by (auto simp: converts_def)
  then show ?thesis using False by (auto simp: text_anchor_for_emacs_byte_pos_def Let_def recached_def)
qed

lemma stale_narrow:
  assumes ok: "text_ok cs x"
    and r: "is_emacs_char_boundary (bx_text x) (br_start r) (bx_mb x)" "is_emacs_char_boundary (bx_text x) (br_end r) (bx_mb x)"
  obtains s e a x' where "narrow_to_emacs_byte_range r b x = Some (b\<lparr>bf_accessible_start := s, bf_accessible_end := e, bf_point := a\<rparr>, x')"
    "recached x x'" "valid_anchor (bx_mb x) (bx_text x) s" "valid_anchor (bx_mb x) (bx_text x) e" "ta_byte s = br_start r"
    "ta_byte e = max (br_start r) (br_end r)"
proof -
  let ?n = "length (bx_text x)"
  have n: "min (br_start r) ?n = br_start r" "min (br_end r) ?n = br_end r" "br_start r \<le> ?n"
      "min (max (br_start r) (br_end r)) ?n = max (br_start r) (br_end r)"
    using boundary_le [OF r(1)] boundary_le [OF r(2)] by simp_all
  have total: "total_emacs_byte_end_pos x = ?n" by (rule text_okD(4) [OF ok])
  have end_byte: "clamp (br_start r) ?n (br_end r) = Some (max (br_start r) (br_end r))"
    using n by (simp add: clamp_ordered)
  obtain s x1 where s: "text_anchor_for_emacs_byte_pos (br_start r) x = Some (s, x1)" "valid_anchor (bx_mb x) (bx_text x) s"
      "ta_byte s = br_start r" "recached x x1"
    using text_anchor_sound [OF ok, of "br_start r"] r(1) unfolding n by blast
  note k1 = recached_keeps [OF s(4)]
  have "is_emacs_char_boundary (bx_text x) (max (br_start r) (br_end r)) (bx_mb x)" using r by (simp add: max_def)
  then obtain e x2 where e: "text_anchor_for_emacs_byte_pos (max (br_start r) (br_end r)) x1 = Some (e, x2)" "valid_anchor (bx_mb x) (bx_text x) e"
      "ta_byte e = max (br_start r) (br_end r)" "recached x1 x2"
    using text_anchor_sound [OF k1(3) [OF ok], of "max (br_start r) (br_end r)"] unfolding k1(1,2) n by blast
  note x2 = recached_trans [OF s(4) e(4)]
  let ?b = "set_accessible_region_anchors_unchecked s e b"
  have lohi: "ta_byte (bf_accessible_start ?b) \<le> ta_byte (bf_accessible_end ?b)"
    by (simp add: set_accessible_region_anchors_unchecked_def s(3) e(3))
  have "\<exists>a x'. accessible_anchor_for_emacs_byte_pos (ta_byte (bf_point b)) ?b x2 = Some (a, x') \<and> recached x2 x'"
  proof -
    have ok2: "text_ok cs x2" by (rule recached_keeps(3) [OF x2 ok])
    show ?thesis
      using recached_refl [OF ok2] text_anchor_total [OF ok2]
      by (auto simp: accessible_anchor_for_emacs_byte_pos_def clamp_ordered [OF lohi])
  qed
  then obtain a x' where a: "accessible_anchor_for_emacs_byte_pos (ta_byte (bf_point b)) ?b x2 = Some (a, x')" "recached x2 x'" by blast
  have "bf_point ?b = bf_point b" by (simp add: set_accessible_region_anchors_unchecked_def)
  then have "narrow_to_emacs_byte_range r b x = Some (?b\<lparr>bf_point := a\<rparr>, x')"
    using s(1) e(1) a(1) n by (simp add: narrow_to_emacs_byte_range_def total end_byte goto_emacs_byte_pos_def)
  moreover have "?b\<lparr>bf_point := a\<rparr> = b\<lparr>bf_accessible_start := s, bf_accessible_end := e, bf_point := a\<rparr>"
    by (simp add: set_accessible_region_anchors_unchecked_def)
  ultimately have nb: "narrow_to_emacs_byte_range r b x = Some (b\<lparr>bf_accessible_start := s, bf_accessible_end := e, bf_point := a\<rparr>, x')"
    by simp
  show thesis by (rule that [OF nb recached_trans [OF x2 a(2)] s(2) e(2) s(3) e(3)])
qed

lemma fetch_stale:
  assumes ok: "text_ok cs x" and mb: "bf_multibyte b = bx_mb x" and held: "holds_markers cs x b" and ids: "bf_state_markers b = Some ids"
  obtains b' x' pt begv zv where "fetch_buffer_state_markers b x = Some (Some (b', x'))" "recached x x'" "buffer_on x' b'" "same_buffer b b'"
    "marker_emacs_byte_pos (sm_pt ids) x = Some (Some pt)" "marker_emacs_byte_pos (sm_begv ids) x = Some (Some begv)"
    "marker_emacs_byte_pos (sm_zv ids) x = Some (Some zv)" "ta_byte (bf_accessible_start b') = begv"
    "ta_byte (bf_accessible_end b') = max begv zv" "ta_byte (bf_point b') = max begv (min pt (max begv zv))"
proof -
  have h: "holds_ids (text_chain cs x) (bx_heap x) (bf_id b) ids" using held ids by (simp add: holds_markers_def)
  have found: "\<exists>k. marker_emacs_byte_pos mid x = Some (Some k)" if "holds_marker (text_chain cs x) (bx_heap x) buf mid p it" for buf mid p it
    using lookup_held [OF ok that] by blast
  obtain pt begv zv where m: "marker_emacs_byte_pos (sm_pt ids) x = Some (Some pt)" "marker_emacs_byte_pos (sm_begv ids) x = Some (Some begv)"
      "marker_emacs_byte_pos (sm_zv ids) x = Some (Some zv)"
  proof -
    have "holds_marker (text_chain cs x) (bx_heap x) (bf_id b) (sm_pt ids) (sm_pt_ptr ids) False"
      "holds_marker (text_chain cs x) (bx_heap x) (bf_id b) (sm_begv ids) (sm_begv_ptr ids) False"
      "holds_marker (text_chain cs x) (bx_heap x) (bf_id b) (sm_zv ids) (sm_zv_ptr ids) True"
      using h by (simp_all add: holds_ids_def)
    from this [THEN found] show thesis using that by blast
  qed
  have bd: "is_emacs_char_boundary (bx_text x) k (bx_mb x)" if k: "marker_emacs_byte_pos mid x = Some (Some k)" for mid k
    using marker_lookup_boundary [OF ok, of mid] k by auto
  let ?r = "byte_range_new begv zv"
  have r: "is_emacs_char_boundary (bx_text x) (br_start ?r) (bx_mb x)" "is_emacs_char_boundary (bx_text x) (br_end ?r) (bx_mb x)"
    using bd [OF m(2)] bd [OF m(3)] by simp_all
  obtain s e a x1 where n: "narrow_to_emacs_byte_range ?r b x = Some (b\<lparr>bf_accessible_start := s, bf_accessible_end := e, bf_point := a\<rparr>, x1)"
      "recached x x1" "valid_anchor (bx_mb x) (bx_text x) s" "valid_anchor (bx_mb x) (bx_text x) e" "ta_byte s = br_start ?r"
      "ta_byte e = max (br_start ?r) (br_end ?r)"
    by (rule stale_narrow [OF ok r])
  note k1 = recached_keeps [OF n(2)]
  let ?b = "b\<lparr>bf_accessible_start := s, bf_accessible_end := e, bf_point := a\<rparr>"
  have "\<exists>a' x'. goto_emacs_byte_pos pt ?b x1 = Some (?b\<lparr>bf_point := a'\<rparr>, x') \<and> recached x1 x' \<and> buffer_on x' (?b\<lparr>bf_point := a'\<rparr>)
      \<and> ta_byte a' = max (ta_byte (bf_accessible_start ?b)) (min pt (ta_byte (bf_accessible_end ?b)))"
    by (rule goto_sound [OF k1(3) [OF ok]]) (use mb n bd [OF m(1)] in \<open>simp_all add: k1\<close>)
  then obtain a' x' where g: "goto_emacs_byte_pos pt ?b x1 = Some (?b\<lparr>bf_point := a'\<rparr>, x')" "recached x1 x'" "buffer_on x' (?b\<lparr>bf_point := a'\<rparr>)"
      "ta_byte a' = max begv (min pt (max begv zv))"
    using n(5,6) by auto
  have "fetch_buffer_state_markers b x = Some (Some (?b\<lparr>bf_point := a'\<rparr>, x'))"
    using ids m n(1) g(1) by (simp add: fetch_buffer_state_markers_def set_accessible_region_and_point_from_emacs_bytes_def)
  moreover have "same_buffer b (?b\<lparr>bf_point := a'\<rparr>)" by (simp add: same_buffer_def)
  ultimately show thesis using that recached_trans [OF n(2) g(2)] g(3,4) m n(5,6) by simp
qed

text \<open>What has been recorded is read back exactly, whatever the fields of the buffer say by then.\<close>

lemma fetch_recorded:
  assumes ok: "text_ok cs x" and on: "buffer_on x b" and held: "holds_markers cs x b" and ids: "bf_state_markers b = Some ids"
    and at: "markers_at_state b x"
  obtains x' where "fetch_buffer_state_markers b x = Some (Some (b, x'))" "recached x x'"
proof -
  obtain b' x' pt begv zv where f: "fetch_buffer_state_markers b x = Some (Some (b', x'))" "recached x x'" "buffer_on x' b'" "same_buffer b b'"
    "marker_emacs_byte_pos (sm_pt ids) x = Some (Some pt)" "marker_emacs_byte_pos (sm_begv ids) x = Some (Some begv)"
    "marker_emacs_byte_pos (sm_zv ids) x = Some (Some zv)" "ta_byte (bf_accessible_start b') = begv"
    "ta_byte (bf_accessible_end b') = max begv zv" "ta_byte (bf_point b') = max begv (min pt (max begv zv))"
    by (rule fetch_stale [OF ok buffer_onD(1) [OF on] held ids])
  have p: "pt = ta_byte (bf_point b)" "begv = ta_byte (bf_accessible_start b)" "zv = ta_byte (bf_accessible_end b)"
    using at ids f(5-7) by (auto simp: markers_at_state_def)
  note o = buffer_onD [OF on] and o' = buffer_onD [OF f(3)[unfolded recached_keeps(4) [OF f(2)]]]
  have bytes: "ta_byte (bf_accessible_start b') = ta_byte (bf_accessible_start b)" "ta_byte (bf_accessible_end b') = ta_byte (bf_accessible_end b)"
    "ta_byte (bf_point b') = ta_byte (bf_point b)"
    using f(8-10) p o(5,6) by simp_all
  have anchor: "a = a'" if v: "valid_anchor (bx_mb x) (bx_text x) a" "valid_anchor (bx_mb x) (bx_text x) a'" "ta_byte a = ta_byte a'" for a a'
    using v by (cases a; cases a'; simp add: char_offset_def)
  have "bf_point b' = bf_point b" "bf_accessible_start b' = bf_accessible_start b" "bf_accessible_end b' = bf_accessible_end b"
    using anchor [OF o'(2) o(2)] anchor [OF o'(3) o(3)] anchor [OF o'(4) o(4)] bytes by simp_all
  then have "b' = b" using f(4) by (simp add: same_buffer_def)
  then show thesis using that f(1,2) by simp
qed

end
