(* ===== verification/Live_Buffers.thy ===== *)
theory Live_Buffers
  imports Buffer_Object
begin

text \<open>
  The table of live buffers (\<open>LiveBuffers\<close> in \<open>src/crates/neovm-core/src/buffer/buffer.rs\<close>): a vector of
  slots indexed by the buffer id, the list of occupied indices, and counters of the live and of the
  indirect buffers.

  The invariant says that the list and the counters describe the slots. Under it the table is a
  finite map from ids to buffers, its enumeration is in the order of the ids, and the question
  whether any buffer is indirect is answered by the counter. Ids are \<open>u64\<close> in the code, and the
  occupied indices are stored as \<open>u32\<close>; they are natural numbers here, below the bound that a debug
  assertion of the code sets.
\<close>

subsection \<open>The table\<close>

text \<open>A buffer in the table: what it has for itself, the base buffer whose text it shares, and its name.\<close>

record ('v, 'o) live_buffer =
  lv_buffer :: "('v, 'o) buffer"
  lv_base_buffer :: "nat option"
  lv_name :: bytes

record 'b live_buffers =
  lb_slots :: "'b option list"
  lb_live_ids :: "nat list"
  lb_live :: nat
  lb_indirect :: nat

definition lb_new :: "'b live_buffers" where
  "lb_new = \<lparr>lb_slots = [], lb_live_ids = [], lb_live = 0, lb_indirect = 0\<rparr>"

definition lb_get :: "nat \<Rightarrow> 'b live_buffers \<Rightarrow> 'b option" where
  "lb_get i t = (if i < length (lb_slots t) then lb_slots t ! i else None)"

text \<open>Writing through the reference that \<open>get_mut\<close> returns; nothing happens when there is none.\<close>

definition lb_set :: "nat \<Rightarrow> 'b \<Rightarrow> 'b live_buffers \<Rightarrow> 'b live_buffers" where
  "lb_set i b t = (if lb_get i t = None then t else t\<lparr>lb_slots := (lb_slots t)[i := Some b]\<rparr>)"

definition lb_contains_key :: "nat \<Rightarrow> 'b live_buffers \<Rightarrow> bool" where
  "lb_contains_key i t \<longleftrightarrow> lb_get i t \<noteq> None"

text \<open>Searching and updating the ascending list of indices, as \<open>binary_search\<close> lets the code do.\<close>

definition sorted_insert :: "nat \<Rightarrow> nat list \<Rightarrow> nat list" where
  "sorted_insert i ids = (if i \<in> set ids then ids else takeWhile (\<lambda>j. j < i) ids @ i # dropWhile (\<lambda>j. j < i) ids)"

definition sorted_remove :: "nat \<Rightarrow> nat list \<Rightarrow> nat list" where
  "sorted_remove i ids = (if i \<in> set ids then takeWhile (\<lambda>j. j < i) ids @ tl (dropWhile (\<lambda>j. j < i) ids) else ids)"

definition is_indirect :: "('v, 'o) live_buffer \<Rightarrow> bool" where
  "is_indirect b \<longleftrightarrow> lv_base_buffer b \<noteq> None"

lemma pred_option_code [code]: "pred_option P y = (case y of None \<Rightarrow> True | Some a \<Rightarrow> P a)"
  by (cases y) simp_all

text \<open>The counters are \<open>usize\<close>, so a subtraction below zero is a panic.\<close>

definition dense_id :: "nat \<Rightarrow> bool" where
  "dense_id i \<longleftrightarrow> int i < 2 ^ 24"

definition lb_insert ::
    "nat \<Rightarrow> ('v, 'o) live_buffer \<Rightarrow> ('v, 'o) live_buffer live_buffers
      \<Rightarrow> (('v, 'o) live_buffer option \<times> ('v, 'o) live_buffer live_buffers) option" where
  "lb_insert i b t = do {
     panic_unless (dense_id i);
     let slots = (if length (lb_slots t) \<le> i then lb_slots t @ replicate (i + 1 - length (lb_slots t)) None else lb_slots t);
     let previous = slots ! i;
     let slots = slots[i := Some b];
     let live = (if previous = None then lb_live t + 1 else lb_live t);
     let ids = (if previous = None then sorted_insert i (lb_live_ids t) else lb_live_ids t);
     let indirect = lb_indirect t + of_bool (is_indirect b);
     let replaced = of_bool (pred_option is_indirect previous \<and> previous \<noteq> None);
     panic_unless (replaced \<le> indirect);
     Some (previous, \<lparr>lb_slots = slots, lb_live_ids = ids, lb_live = live, lb_indirect = indirect - replaced\<rparr>)
   }"

definition lb_remove ::
    "nat \<Rightarrow> ('v, 'o) live_buffer live_buffers \<Rightarrow> (('v, 'o) live_buffer option \<times> ('v, 'o) live_buffer live_buffers) option" where
  "lb_remove i t =
     (case lb_get i t of
        None \<Rightarrow> Some (None, t)
      | Some removed \<Rightarrow> do {
          panic_unless (1 \<le> lb_live t);
          panic_unless (of_bool (is_indirect removed) \<le> lb_indirect t);
          Some (Some removed, \<lparr>lb_slots = (lb_slots t)[i := None], lb_live_ids = sorted_remove i (lb_live_ids t),
                               lb_live = lb_live t - 1, lb_indirect = lb_indirect t - of_bool (is_indirect removed)\<rparr>)
        })"

definition lb_any_indirect :: "'b live_buffers \<Rightarrow> bool" where
  "lb_any_indirect t \<longleftrightarrow> lb_indirect t \<noteq> 0"

definition lb_keys :: "'b live_buffers \<Rightarrow> nat list" where
  "lb_keys t = lb_live_ids t"

text \<open>The enumeration indexes the slots by the listed ids, and skips an empty slot.\<close>

fun lb_collect :: "'b option list \<Rightarrow> nat list \<Rightarrow> (nat \<times> 'b) list option" where
  "lb_collect slots [] = Some []"
| "lb_collect slots (i # ids) = do {
     panic_unless (i < length slots);
     rest \<leftarrow> lb_collect slots ids;
     Some (case slots ! i of None \<Rightarrow> rest | Some b \<Rightarrow> (i, b) # rest)
   }"

definition lb_iter :: "'b live_buffers \<Rightarrow> (nat \<times> 'b) list option" where
  "lb_iter t = lb_collect (lb_slots t) (lb_live_ids t)"

definition lb_values :: "'b live_buffers \<Rightarrow> 'b list option" where
  "lb_values t = map_option (map snd) (lb_iter t)"

subsection \<open>The interface its clients use\<close>

text \<open>
  A table of objects under ids. The laws are those of a finite map that can enumerate its keys in
  ascending order; a client that asks for all objects with some property may stop caring how the
  table is laid out.
\<close>

locale id_table =
  fixes inv :: "'t \<Rightarrow> bool" and room :: "nat \<Rightarrow> bool" and get :: "nat \<Rightarrow> 't \<Rightarrow> 'b option" and ins :: "nat \<Rightarrow> 'b \<Rightarrow> 't \<Rightarrow> ('b option \<times> 't) option"
    and rem :: "nat \<Rightarrow> 't \<Rightarrow> ('b option \<times> 't) option" and enum :: "'t \<Rightarrow> (nat \<times> 'b) list option"
  assumes ins_law: "inv t \<Longrightarrow> room i \<Longrightarrow> \<exists>t'. ins i b t = Some (get i t, t') \<and> inv t' \<and> (\<forall>j. get j t' = (if j = i then Some b else get j t))"
    and rem_law: "inv t \<Longrightarrow> \<exists>t'. rem i t = Some (get i t, t') \<and> inv t' \<and> (\<forall>j. get j t' = (if j = i then None else get j t))"
    and enum_law: "inv t \<Longrightarrow> \<exists>xs. enum t = Some xs \<and> sorted_wrt (<) (map fst xs) \<and> (\<forall>i b. (i, b) \<in> set xs \<longleftrightarrow> get i t = Some b)"
begin

text \<open>Selecting keys: each one once, in ascending order, and no other.\<close>

lemma select_keys:
  assumes "inv t"
  obtains xs where "enum t = Some xs" "distinct (map fst (filter (\<lambda>(i, b). P b) xs))"
    "sorted (map fst (filter (\<lambda>(i, b). P b) xs))"
    "\<And>i. i \<in> set (map fst (filter (\<lambda>(i, b). P b) xs)) \<longleftrightarrow> (\<exists>b. get i t = Some b \<and> P b)"
proof -
  obtain xs where xs: "enum t = Some xs" "sorted_wrt (<) (map fst xs)" "\<forall>i b. (i, b) \<in> set xs \<longleftrightarrow> get i t = Some b"
    using enum_law [OF assms] by blast
  have "sorted_wrt (<) (map fst (filter (\<lambda>(i, b). P b) xs))"
    using xs(2) by (simp add: sorted_wrt_map sorted_wrt_filter)
  moreover have "i \<in> set (map fst (filter (\<lambda>(i, b). P b) xs)) \<longleftrightarrow> (\<exists>b. get i t = Some b \<and> P b)" for i
    using xs(3) by force
  ultimately show thesis
    using that xs(1) strict_sorted_imp_sorted strict_sorted_iff by blast
qed

text \<open>The enumeration is the map.\<close>

lemma enum_map:
  assumes "inv t"
  obtains xs where "enum t = Some xs" "sorted_wrt (<) (map fst xs)" "map_of xs = (\<lambda>i. get i t)"
proof -
  obtain xs where xs: "enum t = Some xs" "sorted_wrt (<) (map fst xs)" "\<And>i b. (i, b) \<in> set xs \<longleftrightarrow> get i t = Some b"
    using enum_law [OF assms] by blast
  have "distinct (map fst xs)" using xs(2) strict_sorted_iff by blast
  then have "map_of xs i = get i t" for i
    using xs(3) map_of_eq_Some_iff [of xs i] by (metis not_Some_eq)
  then show thesis using that xs(1,2) by blast
qed

lemma rem_ins:
  assumes "inv t" "room i" "get i t = None"
  obtains t1 t2 where "ins i b t = Some (None, t1)" "rem i t1 = Some (Some b, t2)" "inv t2" "\<And>j. get j t2 = get j t"
proof -
  obtain t1 where t1: "ins i b t = Some (get i t, t1)" "inv t1" "\<forall>j. get j t1 = (if j = i then Some b else get j t)"
    using ins_law [OF assms(1,2)] by blast
  obtain t2 where t2: "rem i t1 = Some (get i t1, t2)" "inv t2" "\<forall>j. get j t2 = (if j = i then None else get j t1)"
    using rem_law [OF t1(2)] by blast
  show thesis using that [of t1 t2] t1 t2 assms(3) by simp
qed

end

subsection \<open>The invariant\<close>

definition occupied :: "'b option list \<Rightarrow> nat list" where
  "occupied slots = filter (\<lambda>i. slots ! i \<noteq> None) [0..<length slots]"

definition indirect_count :: "('v, 'o) live_buffer option list \<Rightarrow> nat" where
  "indirect_count slots = length (filter (\<lambda>i. case slots ! i of Some b \<Rightarrow> is_indirect b | None \<Rightarrow> False) [0..<length slots])"

definition lb_ok :: "('v, 'o) live_buffer live_buffers \<Rightarrow> bool" where
  "lb_ok t \<longleftrightarrow> lb_live_ids t = occupied (lb_slots t) \<and> lb_live t = length (lb_live_ids t) \<and> lb_indirect t = indirect_count (lb_slots t)"

lemma lb_ok_new: "lb_ok lb_new"
  by (simp add: lb_ok_def lb_new_def occupied_def indirect_count_def)

lemma set_occupied: "set (occupied slots) = {i. i < length slots \<and> slots ! i \<noteq> None}"
  by (auto simp: occupied_def)

lemma strict_occupied: "sorted_wrt (<) (occupied slots)"
  by (simp add: occupied_def sorted_wrt_filter)

lemma indirect_set: "indirect_count slots = card {i. i < length slots \<and> (\<exists>b. slots ! i = Some b \<and> is_indirect b)}"
proof -
  have "indirect_count slots = card (set (filter (\<lambda>i. case slots ! i of Some b \<Rightarrow> is_indirect b | None \<Rightarrow> False) [0..<length slots]))"
    unfolding indirect_count_def by (intro distinct_card [symmetric]) simp
  also have "set (filter (\<lambda>i. case slots ! i of Some b \<Rightarrow> is_indirect b | None \<Rightarrow> False) [0..<length slots])
      = {i. i < length slots \<and> (\<exists>b. slots ! i = Some b \<and> is_indirect b)}"
    by (auto split: option.splits)
  finally show ?thesis .
qed

text \<open>An ascending list is determined by its elements, so the updates need only be right as sets.\<close>

lemma strict_sorted_eqI: "sorted_wrt (<) xs \<Longrightarrow> sorted_wrt (<) ys \<Longrightarrow> set xs = set ys \<Longrightarrow> xs = (ys :: nat list)"
  by (simp add: strict_sorted_equal)

lemma split_ascending:
  assumes "sorted_wrt (<) (ids :: nat list)"
  shows "set (takeWhile (\<lambda>j. j < i) ids) = {j \<in> set ids. j < i}" "set (dropWhile (\<lambda>j. j < i) ids) = {j \<in> set ids. i \<le> j}"
    "i \<in> set ids \<Longrightarrow> \<exists>rest. dropWhile (\<lambda>j. j < i) ids = i # rest \<and> set rest = {j \<in> set ids. i < j}"
  using assms
proof (induction ids)
  case (Cons k ids)
  {
    case 1
    then show ?case using Cons.IH(1) by auto
  next
    case 2
    then show ?case using Cons.IH(2) by auto
  next
    case 3
    then show ?case using Cons.IH(3) by fastforce
  }
qed simp_all

lemma ascending_parts:
  assumes "sorted_wrt (<) (ids :: nat list)"
  shows "sorted_wrt (<) (takeWhile (\<lambda>j. j < i) ids)" "sorted_wrt (<) (dropWhile (\<lambda>j. j < i) ids)"
proof -
  have "sorted_wrt (<) (takeWhile (\<lambda>j. j < i) ids @ dropWhile (\<lambda>j. j < i) ids)" using assms by simp
  then show "sorted_wrt (<) (takeWhile (\<lambda>j. j < i) ids)" "sorted_wrt (<) (dropWhile (\<lambda>j. j < i) ids)"
    unfolding sorted_wrt_append by blast+
qed

lemma sorted_insert_ok:
  assumes "sorted_wrt (<) ids"
  shows "sorted_wrt (<) (sorted_insert i ids) \<and> set (sorted_insert i ids) = insert i (set ids)"
proof (cases "i \<in> set ids")
  case False
  note p = split_ascending(1,2) [OF assms, of i] ascending_parts [OF assms, of i]
  have "sorted_wrt (<) (takeWhile (\<lambda>j. j < i) ids @ i # dropWhile (\<lambda>j. j < i) ids)"
    using p False by (fastforce simp: sorted_wrt_append le_less)
  moreover have "set (takeWhile (\<lambda>j. j < i) ids @ i # dropWhile (\<lambda>j. j < i) ids) = insert i (set ids)"
    using p(1,2) by auto
  ultimately show ?thesis using False by (simp add: sorted_insert_def)
qed (use assms in \<open>auto simp: sorted_insert_def\<close>)

lemma sorted_remove_ok:
  assumes "sorted_wrt (<) ids"
  shows "sorted_wrt (<) (sorted_remove i ids) \<and> set (sorted_remove i ids) = set ids - {i}"
proof (cases "i \<in> set ids")
  case True
  obtain rest where rest: "dropWhile (\<lambda>j. j < i) ids = i # rest" "set rest = {j \<in> set ids. i < j}"
    using split_ascending(3) [OF assms True] by blast
  have "sorted_wrt (<) (i # rest)" using ascending_parts(2) [OF assms, of i] unfolding rest(1) .
  then have "sorted_wrt (<) (takeWhile (\<lambda>j. j < i) ids @ rest)"
    using ascending_parts(1) [OF assms, of i] split_ascending(1) [OF assms, of i] rest(2) by (fastforce simp: sorted_wrt_append)
  moreover have "set (takeWhile (\<lambda>j. j < i) ids @ rest) = set ids - {i}"
    unfolding set_append split_ascending(1) [OF assms] rest(2) by auto
  ultimately show ?thesis using True rest(1) by (simp add: sorted_remove_def)
qed (use assms in \<open>auto simp: sorted_remove_def\<close>)

subsection \<open>The operations keep it\<close>

lemma occupied_update:
  assumes "i < length slots"
  shows "slots ! i = None \<Longrightarrow> occupied (slots[i := Some b]) = sorted_insert i (occupied slots)"
    "slots ! i \<noteq> None \<Longrightarrow> occupied (slots[i := Some b]) = occupied slots"
    "slots ! i \<noteq> None \<Longrightarrow> occupied (slots[i := None]) = sorted_remove i (occupied slots)"
  using assms sorted_insert_ok [OF strict_occupied, of i slots] sorted_remove_ok [OF strict_occupied, of i slots]
  by (auto intro!: strict_sorted_eqI strict_occupied simp: set_occupied nth_list_update split: if_splits)

lemma nth_padding: "i < length slots + n \<Longrightarrow> (slots @ replicate n None) ! i = Some b \<longleftrightarrow> i < length slots \<and> slots ! i = Some b"
  by (auto simp: nth_append)

lemma occupied_extend: "occupied (slots @ replicate n None) = occupied slots"
  by (intro strict_sorted_eqI strict_occupied) (auto simp: set_occupied nth_padding)

lemma indirect_extend: "indirect_count (slots @ replicate n None) = indirect_count slots"
  unfolding indirect_set by (intro arg_cong [of _ _ card]) (auto simp: nth_padding)

lemma indirect_update:
  assumes i: "i < length slots"
  shows "indirect_count (slots[i := x]) + of_bool (\<exists>b. slots ! i = Some b \<and> is_indirect b)
    = indirect_count slots + of_bool (\<exists>b. x = Some b \<and> is_indirect b)"
proof -
  define A where "A = {j. j < length slots \<and> (\<exists>b. slots ! j = Some b \<and> is_indirect b)} - {i}"
  have A: "finite A" "i \<notin> A" by (simp_all add: A_def)
  have "{j. j < length slots \<and> (\<exists>b. slots ! j = Some b \<and> is_indirect b)}
      = (if \<exists>b. slots ! i = Some b \<and> is_indirect b then insert i A else A)"
    using i by (auto simp: A_def)
  then have old: "indirect_count slots = card A + of_bool (\<exists>b. slots ! i = Some b \<and> is_indirect b)"
    using A by (simp add: indirect_set)
  have "{j. j < length (slots[i := x]) \<and> (\<exists>b. slots[i := x] ! j = Some b \<and> is_indirect b)}
      = (if \<exists>b. x = Some b \<and> is_indirect b then insert i A else A)"
    using i by (auto simp: A_def nth_list_update)
  then have "indirect_count (slots[i := x]) = card A + of_bool (\<exists>b. x = Some b \<and> is_indirect b)"
    unfolding indirect_set using A by simp
  then show ?thesis using old by simp
qed

lemma lb_insert_ok:
  assumes "lb_ok t" "dense_id i"
  shows "\<exists>t'. lb_insert i b t = Some (lb_get i t, t') \<and> lb_ok t' \<and> (\<forall>j. lb_get j t' = (if j = i then Some b else lb_get j t))"
proof -
  define slots where "slots = (if length (lb_slots t) \<le> i then lb_slots t @ replicate (i + 1 - length (lb_slots t)) None else lb_slots t)"
  have i: "i < length slots" by (auto simp: slots_def)
  have get: "(if j < length slots then slots ! j else None) = lb_get j t" for j
    by (auto simp: lb_get_def nth_append slots_def)
  have prev: "slots ! i = lb_get i t" using get [of i] i by simp
  have same: "occupied slots = occupied (lb_slots t)" "indirect_count slots = indirect_count (lb_slots t)"
    by (simp_all add: occupied_extend indirect_extend slots_def)
  have count: "indirect_count (slots[i := Some b]) + of_bool (pred_option is_indirect (lb_get i t) \<and> lb_get i t \<noteq> None)
      = lb_indirect t + of_bool (is_indirect b)"
  proof -
    have "(\<exists>c. lb_get i t = Some c \<and> is_indirect c) \<longleftrightarrow> pred_option is_indirect (lb_get i t) \<and> lb_get i t \<noteq> None"
      by (cases "lb_get i t") auto
    then show ?thesis
      using indirect_update [OF i, of "Some b"] assms unfolding prev by (simp add: same lb_ok_def)
  qed
  have ids: "occupied (slots[i := Some b]) = (if lb_get i t = None then sorted_insert i (lb_live_ids t) else lb_live_ids t)"
    using occupied_update(1,2) [OF i, of b] assms unfolding prev by (auto simp: same lb_ok_def)
  let ?t = "\<lparr>lb_slots = slots[i := Some b],
      lb_live_ids = (if lb_get i t = None then sorted_insert i (lb_live_ids t) else lb_live_ids t),
      lb_live = (if lb_get i t = None then lb_live t + 1 else lb_live t),
      lb_indirect = lb_indirect t + of_bool (is_indirect b) - of_bool (pred_option is_indirect (lb_get i t) \<and> lb_get i t \<noteq> None)\<rparr>"
  have eq: "lb_insert i b t = Some (lb_get i t, ?t)"
    using count assms(2) unfolding lb_insert_def Let_def slots_def [symmetric] prev by simp
  have len: "length (lb_live_ids ?t) = lb_live ?t"
  proof (cases "lb_get i t = None")
    case True
    then have "i \<notin> set (lb_live_ids t)" using assms by (auto simp: lb_ok_def set_occupied lb_get_def)
    moreover have "takeWhile (\<lambda>j. j < i) (lb_live_ids t) @ dropWhile (\<lambda>j. j < i) (lb_live_ids t) = lb_live_ids t" by simp
    then have "length (takeWhile (\<lambda>j. j < i) (lb_live_ids t)) + length (dropWhile (\<lambda>j. j < i) (lb_live_ids t)) = length (lb_live_ids t)"
      by (metis length_append)
    ultimately show ?thesis using True assms by (simp add: sorted_insert_def lb_ok_def)
  qed (use assms in \<open>auto simp: lb_ok_def\<close>)
  have "lb_ok ?t" unfolding lb_ok_def using ids count len by simp
  moreover have "lb_get j ?t = (if j = i then Some b else lb_get j t)" for j
  proof -
    have "lb_get j ?t = (if j < length slots then (slots[i := Some b]) ! j else None)" by (simp add: lb_get_def)
    then show ?thesis using get [of j] i by (auto simp: nth_list_update)
  qed
  ultimately show ?thesis using eq by blast
qed

lemma lb_remove_ok:
  assumes "lb_ok t"
  shows "\<exists>t'. lb_remove i t = Some (lb_get i t, t') \<and> lb_ok t' \<and> (\<forall>j. lb_get j t' = (if j = i then None else lb_get j t))"
proof (cases "lb_get i t")
  case None
  then show ?thesis using assms by (auto simp: lb_remove_def)
next
  case (Some b)
  then have i: "i < length (lb_slots t)" "lb_slots t ! i = Some b" by (auto simp: lb_get_def split: if_splits)
  have count: "indirect_count ((lb_slots t)[i := None]) + of_bool (is_indirect b) = lb_indirect t"
    using indirect_update [OF i(1), of None] i(2) assms by (simp add: lb_ok_def)
  have ids: "occupied ((lb_slots t)[i := None]) = sorted_remove i (lb_live_ids t)"
    using occupied_update(3) [OF i(1)] i(2) assms by (simp add: lb_ok_def)
  have mem: "i \<in> set (lb_live_ids t)" using i assms by (simp add: lb_ok_def set_occupied)
  then obtain rest where "dropWhile (\<lambda>j. j < i) (lb_live_ids t) = i # rest"
    using split_ascending(3) [of "lb_live_ids t" i] assms strict_occupied by (auto simp: lb_ok_def)
  moreover have "takeWhile (\<lambda>j. j < i) (lb_live_ids t) @ dropWhile (\<lambda>j. j < i) (lb_live_ids t) = lb_live_ids t" by simp
  then have "length (takeWhile (\<lambda>j. j < i) (lb_live_ids t)) + length (dropWhile (\<lambda>j. j < i) (lb_live_ids t)) = length (lb_live_ids t)"
    by (metis length_append)
  ultimately have len: "length (sorted_remove i (lb_live_ids t)) = lb_live t - 1" "1 \<le> lb_live t"
    using mem assms by (simp_all add: sorted_remove_def lb_ok_def)
  let ?t = "\<lparr>lb_slots = (lb_slots t)[i := None], lb_live_ids = sorted_remove i (lb_live_ids t),
      lb_live = lb_live t - 1, lb_indirect = lb_indirect t - of_bool (is_indirect b)\<rparr>"
  have "lb_remove i t = Some (Some b, ?t)" using Some count len(2) by (simp add: lb_remove_def flip: count)
  moreover have "lb_ok ?t" unfolding lb_ok_def using ids count len(1) by simp
  moreover have "lb_get j ?t = (if j = i then None else lb_get j t)" for j
    using i by (auto simp: lb_get_def nth_list_update)
  ultimately show ?thesis using Some by auto
qed

lemma lb_set_ok:
  assumes "lb_ok t" "lb_get i t = Some a" "is_indirect b = is_indirect a"
  shows "lb_ok (lb_set i b t)" "lb_get j (lb_set i b t) = (if j = i then Some b else lb_get j t)"
proof -
  have i: "i < length (lb_slots t)" "lb_slots t ! i = Some a" using assms(2) by (auto simp: lb_get_def split: if_splits)
  have "indirect_count ((lb_slots t)[i := Some b]) = indirect_count (lb_slots t)"
    using indirect_update [OF i(1), of "Some b"] i(2) assms(3) by simp
  then show "lb_ok (lb_set i b t)"
    using assms(1,2) occupied_update(2) [OF i(1)] i(2) by (simp add: lb_set_def lb_ok_def)
  show "lb_get j (lb_set i b t) = (if j = i then Some b else lb_get j t)"
    using i assms(2) by (auto simp: lb_set_def lb_get_def nth_list_update)
qed

lemma lb_collect_listed:
  assumes "\<forall>i \<in> set ids. i < length slots \<and> slots ! i \<noteq> None"
  shows "lb_collect slots ids = Some (map (\<lambda>i. (i, the (slots ! i))) ids)"
  using assms by (induction ids) (auto split: option.splits)

lemma lb_iter_ok:
  assumes "lb_ok t"
  shows "\<exists>xs. lb_iter t = Some xs \<and> sorted_wrt (<) (map fst xs) \<and> (\<forall>i b. (i, b) \<in> set xs \<longleftrightarrow> lb_get i t = Some b)"
proof -
  have ids: "lb_live_ids t = occupied (lb_slots t)" using assms by (simp add: lb_ok_def)
  have "lb_iter t = Some (map (\<lambda>i. (i, the (lb_slots t ! i))) (occupied (lb_slots t)))"
    unfolding lb_iter_def ids by (rule lb_collect_listed) (simp add: set_occupied)
  then show ?thesis
    using strict_occupied by (force simp: comp_def set_occupied lb_get_def)
qed

interpretation live: id_table lb_ok dense_id lb_get lb_insert lb_remove lb_iter
  by unfold_locales (rule lb_insert_ok lb_remove_ok lb_iter_ok; assumption)+

text \<open>The counter of indirect buffers is what counting them gives, which a debug assertion of the code checks.\<close>

definition indirect_count_checked :: "('v, 'o) live_buffer live_buffers \<Rightarrow> unit option" where
  "indirect_count_checked t = do {
     vs \<leftarrow> lb_values t;
     panic_unless (lb_indirect t = length (filter (\<lambda>lv. lv_base_buffer lv \<noteq> None) vs))
   }"

lemma indirect_count_holds:
  assumes "lb_ok t"
  shows "indirect_count_checked t = Some ()"
proof -
  let ?slots = "lb_slots t" and ?ind = "\<lambda>i. case lb_slots t ! i of Some b \<Rightarrow> is_indirect b | None \<Rightarrow> False"
  have it: "lb_iter t = Some (map (\<lambda>i. (i, the (?slots ! i))) (occupied ?slots))"
    using assms unfolding lb_iter_def by (simp add: lb_ok_def) (rule lb_collect_listed, simp add: set_occupied)
  have "length (filter (\<lambda>lv. lv_base_buffer lv \<noteq> None) (map (\<lambda>i. the (?slots ! i)) (occupied ?slots)))
      = length (filter (\<lambda>i. is_indirect (the (?slots ! i))) (occupied ?slots))"
    by (simp add: filter_map comp_def is_indirect_def)
  also have "filter (\<lambda>i. is_indirect (the (?slots ! i))) (occupied ?slots) = filter ?ind [0..<length ?slots]"
    unfolding occupied_def filter_filter by (rule filter_cong [OF refl]) (auto split: option.splits)
  finally show ?thesis using it assms
    by (simp add: indirect_count_checked_def lb_values_def comp_def lb_ok_def indirect_count_def)
qed

lemma any_indirect_iff:
  assumes "lb_ok t"
  shows "lb_any_indirect t \<longleftrightarrow> (\<exists>i b. lb_get i t = Some b \<and> is_indirect b)"
proof -
  have "lb_indirect t \<noteq> 0 \<longleftrightarrow> {i. i < length (lb_slots t) \<and> (\<exists>b. lb_slots t ! i = Some b \<and> is_indirect b)} \<noteq> {}"
    using assms by (simp add: lb_ok_def indirect_set)
  then show ?thesis by (auto simp: lb_any_indirect_def lb_get_def split: if_splits)
qed

text \<open>C12: the table of live buffers is a map. On a table in order, inserting and removing a buffer are the update and the
  deletion of a map, with the old entry as the result and no counter below zero; the enumeration lists the map
  in ascending order of ids; and the counter answers whether an indirect buffer is live.\<close>

theorem live_table_refines_map:
  fixes t :: "('v, 'o) live_buffer live_buffers"
  assumes "lb_ok t" "dense_id i"
  shows "(\<exists>t'. lb_insert i b t = Some (lb_get i t, t') \<and> lb_ok t' \<and> (\<lambda>j. lb_get j t') = (\<lambda>j. lb_get j t)(i \<mapsto> b))
    \<and> (\<exists>t'. lb_remove i t = Some (lb_get i t, t') \<and> lb_ok t' \<and> (\<lambda>j. lb_get j t') = (\<lambda>j. lb_get j t)(i := None))
    \<and> (\<exists>xs. lb_iter t = Some xs \<and> sorted_wrt (<) (map fst xs) \<and> map_of xs = (\<lambda>j. lb_get j t))
    \<and> (lb_any_indirect t \<longleftrightarrow> (\<exists>i b. lb_get i t = Some b \<and> is_indirect b))"
proof -
  have "\<exists>xs. lb_iter t = Some xs \<and> sorted_wrt (<) (map fst xs) \<and> map_of xs = (\<lambda>j. lb_get j t)"
    by (rule live.enum_map [OF assms(1)]) blast
  then show ?thesis
    using live.ins_law [OF assms, of b] live.rem_law [OF assms(1), of i] any_indirect_iff [OF assms(1)] by (force simp: fun_eq_iff)
qed

definition sample_live_buffer :: "nat \<Rightarrow> nat option \<Rightarrow> (nat, nat) live_buffer" where
  "sample_live_buffer i base = \<lparr>lv_buffer = sample_buffer\<lparr>bf_id := i\<rparr>, lv_base_buffer = base, lv_name = [0x61]\<rparr>"

definition sample_table :: "(nat, nat) live_buffer live_buffers" where
  "sample_table = snd (the (lb_insert 1 (sample_live_buffer 1 None) (snd (the (lb_insert 3 (sample_live_buffer 3 (Some 1)) lb_new)))))"

theorem live_table_refines_map_witness:
  "(\<exists>t'. lb_insert 2 (sample_live_buffer 2 (Some 1)) sample_table = Some (lb_get 2 sample_table, t') \<and> lb_ok t'
       \<and> (\<lambda>j. lb_get j t') = (\<lambda>j. lb_get j sample_table)(2 \<mapsto> sample_live_buffer 2 (Some 1)))
    \<and> (\<exists>t'. lb_remove 2 sample_table = Some (lb_get 2 sample_table, t') \<and> lb_ok t' \<and> (\<lambda>j. lb_get j t') = (\<lambda>j. lb_get j sample_table)(2 := None))
    \<and> (\<exists>xs. lb_iter sample_table = Some xs \<and> sorted_wrt (<) (map fst xs) \<and> map_of xs = (\<lambda>j. lb_get j sample_table))
    \<and> (lb_any_indirect sample_table \<longleftrightarrow> (\<exists>i b. lb_get i sample_table = Some b \<and> is_indirect b))"
proof (rule live_table_refines_map)
  obtain t1 where t1: "lb_insert 3 (sample_live_buffer 3 (Some 1)) lb_new = Some (lb_get 3 lb_new, t1)" "lb_ok t1"
    using lb_insert_ok [OF lb_ok_new, of 3 "sample_live_buffer 3 (Some 1)"] by (auto simp: dense_id_def)
  then show "lb_ok sample_table"
    using lb_insert_ok [OF t1(2), of 1 "sample_live_buffer 1 None"] by (auto simp: sample_table_def dense_id_def)
  show "dense_id 2" by (simp add: dense_id_def)
qed

end
