(* ===== verification/Edit_Session.thy ===== *)
theory Edit_Session
  imports Edit_Transaction
begin

text \<open>
  The entry points for edits of \<open>src/crates/neovm-core/src/buffer/insdel.rs\<close>, as far as they belong
  to one buffer: measuring a range, converting a string to the representation of the buffer,
  building the plan and running its executor. Entry points over a Rust \<open>&str\<close> and
  \<open>transpose_regions\<close> are left out.

  A session is a list of commands of one buffer. The last theorem is that a session of legal
  commands returns, keeps the buffer consistent, and leaves an undo list that restores the text
  the session began with.
\<close>

subsection \<open>Entry points\<close>

definition edit_range_for_emacs_byte_range ::
    "emacs_byte_range \<Rightarrow> ('p, 'v) text_object \<Rightarrow> (text_edit_range \<times> ('p, 'v) text_object) option" where
  "edit_range_for_emacs_byte_range r x = do {
     (e, s) \<leftarrow> (if byte_range_is_empty r then st_edit_range_at_emacs_byte_pos (tx_markers x) (br_start r) (tx_storage x)
               else st_edit_range_for_emacs_byte_range (tx_markers x) r (tx_storage x));
     Some (e, x\<lparr>tx_storage := s\<rparr>)
   }"

definition edit_range_for_char_range ::
    "char_range \<Rightarrow> ('p, 'v) text_object \<Rightarrow> (text_edit_range \<times> ('p, 'v) text_object) option" where
  "edit_range_for_char_range r x =
     (if char_range_is_empty r
      then do {
        (k, s) \<leftarrow> st_char_pos_to_emacs_byte_pos (tx_markers x) (cr_start r) (tx_storage x);
        Some (edit_range_empty_at k (cr_start r), x\<lparr>tx_storage := s\<rparr>)
      }
      else do {
        (e, s) \<leftarrow> st_edit_range_for_char_range (tx_markers x) r (tx_storage x);
        Some (e, x\<lparr>tx_storage := s\<rparr>)
      })"

definition insert_lisp_string_full ::
    "('p, 'o) side_data_ops \<Rightarrow> 'p lisp_string \<Rightarrow> insert_marker_placement \<Rightarrow> insert_marker_adjustment
      \<Rightarrow> ('v, 'o) buffer \<Rightarrow> ('p, 'v) text_object \<Rightarrow> (text_insertion \<times> ('v, 'o) buffer \<times> ('p, 'v) text_object) option" where
  "insert_lisp_string_full ops str placement adjustment b x =
     (if ls_multibyte str = bf_multibyte b
      then execute_insert_text_plan ops (ls_bytes str) (insert_plan_for_lisp_string str (bf_point b) placement adjustment) b x
      else do {
        converted \<leftarrow> convert_lisp_string_for_buffer_mode str (bf_multibyte b);
        execute_insert_text_plan ops (ls_bytes converted)
          (insert_plan_for_lisp_string converted (bf_point b) placement adjustment) b x
      })"

definition insert_lisp_string ::
    "('p, 'o) side_data_ops \<Rightarrow> 'p lisp_string \<Rightarrow> ('v, 'o) buffer \<Rightarrow> ('p, 'v) text_object
      \<Rightarrow> (text_insertion \<times> ('v, 'o) buffer \<times> ('p, 'v) text_object) option" where
  "insert_lisp_string ops str = insert_lisp_string_full ops str AfterMarkers ByInsertionType"

definition insert_lisp_string_before_markers ::
    "('p, 'o) side_data_ops \<Rightarrow> 'p lisp_string \<Rightarrow> ('v, 'o) buffer \<Rightarrow> ('p, 'v) text_object
      \<Rightarrow> (text_insertion \<times> ('v, 'o) buffer \<times> ('p, 'v) text_object) option" where
  "insert_lisp_string_before_markers ops str = insert_lisp_string_full ops str BeforeMarkers ByInsertionType"

definition insert_lisp_string_for_replace ::
    "('p, 'o) side_data_ops \<Rightarrow> 'p lisp_string \<Rightarrow> ('v, 'o) buffer \<Rightarrow> ('p, 'v) text_object
      \<Rightarrow> (text_insertion \<times> ('v, 'o) buffer \<times> ('p, 'v) text_object) option" where
  "insert_lisp_string_for_replace ops str = insert_lisp_string_full ops str AfterMarkers StrictAfter"

definition replace_measured_region_lisp_string ::
    "('p, 'o) side_data_ops \<Rightarrow> text_edit_range \<Rightarrow> 'p lisp_string \<Rightarrow> ('v, 'o) buffer \<Rightarrow> ('p, 'v) text_object
      \<Rightarrow> (text_replacement \<times> ('v, 'o) buffer \<times> ('p, 'v) text_object) option" where
  "replace_measured_region_lisp_string ops r str b x = do {
     plan \<leftarrow> replace_plan_from_lisp_string r str (bf_multibyte b);
     execute_replace_text_plan ops plan b x
   }"

definition replace_emacs_byte_range_lisp_string ::
    "('p, 'o) side_data_ops \<Rightarrow> emacs_byte_range \<Rightarrow> 'p lisp_string \<Rightarrow> ('v, 'o) buffer \<Rightarrow> ('p, 'v) text_object
      \<Rightarrow> (text_replacement \<times> ('v, 'o) buffer \<times> ('p, 'v) text_object) option" where
  "replace_emacs_byte_range_lisp_string ops r str b x =
     (if br_end r < br_start r then Some (replacement_new (edit_range_empty_at 0 0) extent_zero, b, x)
      else do {
        (old, x) \<leftarrow> edit_range_for_emacs_byte_range r x;
        replace_measured_region_lisp_string ops old str b x
      })"

definition delete_measured_region ::
    "('p, 'o) side_data_ops \<Rightarrow> text_edit_range \<Rightarrow> ('v, 'o) buffer \<Rightarrow> ('p, 'v) text_object
      \<Rightarrow> (text_edit_range \<times> ('v, 'o) buffer \<times> ('p, 'v) text_object) option" where
  "delete_measured_region ops r b x =
     (if edit_range_is_empty r then Some (edit_range_empty_at 0 0, b, x)
      else do {
        (plan, x) \<leftarrow> delete_text_plan_for_range_extracting ops r IfRecorded b x;
        (r, _, b, x) \<leftarrow> execute_delete_text_plan_extracting ops plan b x;
        Some (r, b, x)
      })"

definition delete_emacs_byte_range ::
    "('p, 'o) side_data_ops \<Rightarrow> emacs_byte_range \<Rightarrow> ('v, 'o) buffer \<Rightarrow> ('p, 'v) text_object
      \<Rightarrow> (text_edit_range \<times> ('v, 'o) buffer \<times> ('p, 'v) text_object) option" where
  "delete_emacs_byte_range ops r b x =
     (if byte_range_is_empty r then Some (edit_range_empty_at 0 0, b, x)
      else do {
        (e, x) \<leftarrow> edit_range_for_emacs_byte_range r x;
        delete_measured_region ops e b x
      })"

text \<open>The string was asked for, so a plan without it is a panic.\<close>

definition delete_and_extract_measured_region ::
    "('p, 'o) side_data_ops \<Rightarrow> text_edit_range \<Rightarrow> ('v, 'o) buffer \<Rightarrow> ('p, 'v) text_object
      \<Rightarrow> (measured_delete_edit \<times> 'p lisp_string \<times> ('v, 'o) buffer \<times> ('p, 'v) text_object) option" where
  "delete_and_extract_measured_region ops r b x = do {
     (plan, x) \<leftarrow> delete_text_plan_for_range_extracting ops r Wanted b x;
     (r, deleted, b, x) \<leftarrow> execute_delete_text_plan_extracting ops plan b x;
     str \<leftarrow> deleted;
     Some (r, str, b, x)
   }"

definition subst_char_in_region ::
    "('p, 'o) side_data_ops \<Rightarrow> text_edit_range \<Rightarrow> text_edit_range \<Rightarrow> u32 \<Rightarrow> bytes \<Rightarrow> bool
      \<Rightarrow> ('v, 'o) buffer \<Rightarrow> ('p, 'v) text_object \<Rightarrow> (bool \<times> ('p, 'v) text_object) option" where
  "subst_char_in_region ops r modified from_code to_bytes noundo b x =
     (if same_len_edit_is_empty \<lparr>sl_storage_range = r, sl_modified_range = modified\<rparr> then Some (False, x)
      else do {
        region \<leftarrow> tb_copy_emacs_byte_range_to (er_bytes r) (st_backend (tx_storage x));
        plan \<leftarrow> same_len_substitution_plan_new r region (bf_multibyte b) from_code to_bytes;
        case plan of
          None \<Rightarrow> Some (False, x)
        | Some plan \<Rightarrow> do {
            x \<leftarrow> execute_same_len_substitution_plan ops r modified region plan noundo b x;
            Some (True, x)
          }
      })"

text \<open>The outer option is a panic, the inner one the result.\<close>

definition subst_char_changed_range ::
    "text_edit_range \<Rightarrow> u32 \<Rightarrow> bytes \<Rightarrow> ('v, 'o) buffer \<Rightarrow> ('p, 'v) text_object \<Rightarrow> text_edit_range option option" where
  "subst_char_changed_range r from_code to_bytes b x =
     (if byte_range_is_empty (er_bytes r) then Some None
      else do {
        region \<leftarrow> tb_copy_emacs_byte_range_to (er_bytes r) (st_backend (tx_storage x));
        plan \<leftarrow> same_len_substitution_plan_new r region (bf_multibyte b) from_code to_bytes;
        case plan of
          None \<Rightarrow> Some None
        | Some plan \<Rightarrow> do { c \<leftarrow> first_to_last_changed_range plan; Some (Some c) }
      })"

subsection \<open>Strings in the representation of the buffer\<close>

text \<open>A string is stored as it is, or is a text of valid characters that can be converted.\<close>

definition string_storable :: "bool \<Rightarrow> 'p lisp_string \<Rightarrow> bool" where
  "string_storable mb str \<longleftrightarrow>
     (if ls_multibyte str = mb then rope_storable mb (ls_bytes str)
      else ls_multibyte str \<longrightarrow> (case decode_text (ls_bytes str) of Some cs \<Rightarrow> valid_codes cs \<and> encode_text cs = ls_bytes str | None \<Rightarrow> False))"

definition stored_bytes :: "bool \<Rightarrow> 'p lisp_string \<Rightarrow> bytes" where
  "stored_bytes mb str = (case convert_lisp_string_for_buffer_mode str mb of Some s \<Rightarrow> ls_bytes s | None \<Rightarrow> [])"

lemma valid_code_bytes:
  "c \<le> MAX_CHAR \<Longrightarrow> \<exists>e. char_string c = Some e \<and> length e = char_bytes c \<and> char_head_p (hd e) \<and> e \<noteq> []
     \<and> (\<forall>rest. string_char_unchecked (e @ rest) = Some (c, length e))"
  by (rule char_string_form) auto

lemma encode_text_storable:
  assumes "valid_codes cs"
  shows "rope_storable mb (encode_text cs)"
  using assms
proof (induction cs)
  case Nil
  then show ?case by (intro rope_storable_short) (simp_all add: MAX_LEAF_BYTES_def)
next
  case (Cons c cs)
  obtain e where e: "char_string c = Some e" "length e = char_bytes c" "char_head_p (hd e)"
    using valid_code_bytes [of c] Cons.prems by auto
  have "char_bytes c < MAX_LEAF_BYTES" by (simp add: char_bytes_def MAX_LEAF_BYTES_def)
  then have "rope_storable mb e" using e by (intro rope_storable_short) (simp_all add: lead_ok_def)
  then show ?case using e(1) Cons by (simp add: rope_storable_append)
qed

lemma codes_loop_encode:
  "valid_codes cs \<Longrightarrow> lisp_string_codes_loop (encode_text cs) = Some cs"
proof (induction cs)
  case Nil
  then show ?case by (simp add: lisp_string_codes_loop.simps)
next
  case (Cons c cs)
  obtain e where e: "char_string c = Some e" "e \<noteq> []" "\<And>rest. string_char_unchecked (e @ rest) = Some (c, length e)"
    using valid_code_bytes [of c] Cons.prems by auto
  obtain h t where h: "e = h # t" using e(2) by (cases e) auto
  have IH: "lisp_string_codes_loop (encode_text cs) = Some cs" using Cons by simp
  show ?case
  proof (cases "h < 0x80")
    case True
    have "c = ucast h \<and> length e = 1"
      using e(3) [of "[]"] True h by (simp add: string_char_unchecked_def index_at_def unchecked_bits word_less_nat_alt split: if_splits)
    then show ?thesis using e(1) h IH True by (simp add: lisp_string_codes_loop.simps [of "encode_text _"] lisp_string_codes_loop.simps [of "_ # _"])
  next
    case False
    then show ?thesis using e(1) e(3) [of "encode_text cs"] h IH
      by (simp add: lisp_string_codes_loop.simps [of "_ # _"])
  qed
qed

lemma encode_codes_multibyte: "valid_codes cs \<Longrightarrow> encode_codes True cs = Some (encode_text cs)"
proof (induction cs)
  case (Cons c cs)
  obtain e where "char_string c = Some e" using valid_code_bytes [of c] Cons.prems by auto
  then show ?case using Cons by (simp add: encode_char_code_for_buffer_bytes_def)
qed simp

lemma encode_codes_unibyte: "\<forall>c \<in> set cs. c \<le> 0xFF \<Longrightarrow> encode_codes False cs = Some (map ucast cs)"
  by (induction cs) (simp_all add: encode_char_code_for_buffer_bytes_def)

lemma u8_back: "ucast (ucast b :: u32) = (b :: u8)"
  using unat_u8_less [of b] by (simp add: word_unat_eq_iff unat_ucast_u8)

lemma convert_string:
  assumes "string_storable mb str"
  shows "\<exists>s. convert_lisp_string_for_buffer_mode str mb = Some s \<and> rope_storable mb (ls_bytes s) \<and> ls_multibyte s = mb
    \<and> stored_bytes mb str = ls_bytes s"
proof (cases "ls_multibyte str = mb")
  case True
  then show ?thesis using assms by (simp add: convert_lisp_string_for_buffer_mode_def string_storable_def stored_bytes_def)
next
  case diff: False
  show ?thesis
  proof (cases mb)
    case True
    let ?cs = "map unibyte_to_char (ls_bytes str)"
    have widen: "(\<lambda>b. if (0x7F :: u32) < ucast b then unibyte_to_char (ucast (ucast b :: u32)) else ucast b) = unibyte_to_char"
      by (rule ext) (auto simp: u8_back unibyte_to_char_def word_less_nat_alt)
    have "valid_codes ?cs" by (simp add: unibyte_to_char_valid)
    then show ?thesis
      using diff True encode_codes_multibyte encode_text_storable [of ?cs True]
      by (simp add: convert_lisp_string_for_buffer_mode_def stored_bytes_def lisp_string_char_codes_def comp_def widen)
  next
    case False
    then obtain cs where cs: "valid_codes cs" "ls_bytes str = encode_text cs"
      using assms diff by (auto simp: string_storable_def split: option.splits)
    have "\<forall>c \<in> set (map (\<lambda>c. c AND 0xFF) cs). c \<le> (0xFF :: u32)"
      by (simp add: word_and_le1)
    then show ?thesis
      using diff False cs codes_loop_encode [OF cs(1)]
      by (simp add: convert_lisp_string_for_buffer_mode_def stored_bytes_def lisp_string_char_codes_def encode_codes_unibyte)
  qed
qed

lemma stored_text_measured:
  "rope_storable mb bs \<Longrightarrow> measured_text mb bs (extent_new (emacs_char_count_bytes bs mb) (length bs))"
  by (simp add: measured_text_def extent_from_emacs_bytes_def rope_storable_lead_ok)

subsection \<open>What the entry points guarantee\<close>

lemma transacts_recached:
  assumes "recached x x1" "transacts cs tx b x1 b' x'"
  shows "transacts cs tx b x b' x'"
  using assms(2) unfolding transacts_def undo_follows_def by (auto simp: recached_keeps(1,2,6,10) [OF assms(1)])

lemma edit_range_sound:
  assumes ok: "text_ok cs x" and r: "is_emacs_char_boundary (bx_text x) (br_start r) (bx_mb x)"
    "is_emacs_char_boundary (bx_text x) (br_end r) (bx_mb x)" "br_start r \<le> br_end r"
  shows "\<exists>e x'. edit_range_for_emacs_byte_range r x = Some (e, x') \<and> recached x x' \<and> measured_range (bx_mb x) (bx_text x) e
    \<and> er_byte_start e = br_start r \<and> er_byte_end e = br_end r"
proof (cases "byte_range_is_empty r")
  case True
  then have "br_end r = br_start r" using r(3) by (simp add: byte_range_is_empty_def)
  then show ?thesis
    using True convert_boundary [OF ok r(1)] measured_range_empty
    by (auto simp: edit_range_for_emacs_byte_range_def st_edit_range_at_emacs_byte_pos_def)
next
  case False
  obtain c d s where c: "st_byte_range_to_char_range (tx_markers x) r (tx_storage x) = Some (char_range_new c d, s)"
      "char_offset (bx_mb x) (bx_text x) c (br_start r)" "char_offset (bx_mb x) (bx_text x) d (br_end r)"
      "recached x (x\<lparr>tx_storage := s\<rparr>)"
    using char_range_conversion [OF ok r(1,2)] by blast
  have "edit_range_for_emacs_byte_range r x
      = Some (edit_range_from_start_end (anchor_new c (br_start r)) (anchor_new d (br_end r)), x\<lparr>tx_storage := s\<rparr>)"
    using False c(1)
    by (simp add: edit_range_for_emacs_byte_range_def st_edit_range_for_emacs_byte_range_def char_range_new_def)
  then show ?thesis using measured_range_from_anchors [OF c(2,3) r(3)] c(4) by fastforce
qed

text \<open>Recording stays on or off.\<close>

lemma recording_kept [simp]:
  "undo_list_is_disabled (undo_list_record_insert c n ul) = undo_list_is_disabled ul"
  "undo_list_is_disabled (undo_list_record_delete c str pt ul) = undo_list_is_disabled ul"
  "undo_list_is_disabled (undo_list_record_marker_adjustment m d ul) = undo_list_is_disabled ul"
  "undo_list_is_disabled (undo_list_record_point pt ul) = undo_list_is_disabled ul"
  "undo_list_is_disabled (undo_list_record_first_change v ul) = undo_list_is_disabled ul"
  "undo_list_is_disabled (undo_list_boundary ul) = undo_list_is_disabled ul"
proof -
  have prepend: "undo_list_is_disabled (prepend_undo_entry e l) = undo_list_is_disabled l" for e :: "('p, 'v) undo_entry" and l
    by (cases l) (simp_all add: undo_list_is_disabled_def)
  have extend: "undo_list_is_disabled (extend_head_insert k l) = undo_list_is_disabled l" for k and l :: "('p, 'v) undo_list"
    by (cases "(k, l)" rule: extend_head_insert.cases) (simp_all add: undo_list_is_disabled_def)
  show "undo_list_is_disabled (undo_list_record_insert c n ul) = undo_list_is_disabled ul"
    "undo_list_is_disabled (undo_list_record_delete c str pt ul) = undo_list_is_disabled ul"
    "undo_list_is_disabled (undo_list_record_marker_adjustment m d ul) = undo_list_is_disabled ul"
    "undo_list_is_disabled (undo_list_record_point pt ul) = undo_list_is_disabled ul"
    "undo_list_is_disabled (undo_list_record_first_change v ul) = undo_list_is_disabled ul"
    "undo_list_is_disabled (undo_list_boundary ul) = undo_list_is_disabled ul"
    by (simp_all add: undo_list_record_insert_def undo_list_record_delete_def undo_list_record_marker_adjustment_def
        undo_list_record_point_def undo_list_record_first_change_def undo_list_boundary_def Let_def prepend extend)
qed

lemma recording_adjustments [simp]:
  "undo_list_is_disabled (record_marker_adjustments adj ul) = undo_list_is_disabled ul"
  unfolding record_marker_adjustments_def by (induction adj arbitrary: ul) (simp_all add: case_prod_beta)

lemma recording_prepare [simp]:
  "undo_list_is_disabled (tx_undo_list (undo_prepare_change beg b x)) = undo_list_is_disabled (tx_undo_list x)"
  by (simp add: undo_prepare_change_def Let_def split: option.splits)

text \<open>The side effects and the properties leave the undo list alone.\<close>

lemma on_markers_undo: "on_markers f x = Some x' \<Longrightarrow> tx_undo_list x' = tx_undo_list x"
  by (auto simp: on_markers_def bind_eq_Some_conv)

lemma insert_effects_undo:
  "apply_byte_insert_side_effects ops e p b x = Some (b', x') \<Longrightarrow> tx_undo_list x' = tx_undo_list x"
  by (auto simp: apply_byte_insert_side_effects_def Let_def bind_eq_Some_conv dest: on_markers_undo split: if_splits)

lemma delete_effects_undo:
  "apply_byte_delete_side_effects ops r p b x = Some (b', x') \<Longrightarrow> tx_undo_list x' = tx_undo_list x"
  by (auto simp: apply_byte_delete_side_effects_def Let_def bind_eq_Some_conv dest: on_markers_undo split: if_splits)

lemma replace_effects_undo:
  "apply_replace_side_effects ops e p b x = Some (b', x') \<Longrightarrow> tx_undo_list x' = tx_undo_list x"
  by (auto simp: apply_replace_side_effects_def Let_def bind_eq_Some_conv dest: on_markers_undo split: if_splits)

lemma append_props_undo:
  "text_props_append_shifted_at_emacs_byte_pos ops p k x = Some x' \<Longrightarrow> tx_undo_list x' = tx_undo_list x"
  by (auto simp: text_props_append_shifted_at_emacs_byte_pos_def bind_eq_Some_conv)

lemma seat_properties_undo:
  "seat_replacement_properties ops plan x = Some x' \<Longrightarrow> tx_undo_list x' = tx_undo_list x"
  by (auto simp: seat_replacement_properties_def Let_def text_props_set_properties_in_emacs_byte_range_def bind_eq_Some_conv
      dest: append_props_undo split: if_splits)

lemma apply_insert_undo:
  "apply_insert_text_plan ops bs plan b x = Some (i, b', x') \<Longrightarrow> tx_undo_list x' = tx_undo_list x"
  by (auto simp: apply_insert_text_plan_def Let_def bind_eq_Some_conv
      dest!: append_props_undo insert_effects_undo on_markers_undo split: if_splits)

lemma execute_insert_recording:
  "execute_insert_text_plan ops bs plan b x = Some (i, b', x') \<Longrightarrow>
     undo_list_is_disabled (tx_undo_list x') = undo_list_is_disabled (tx_undo_list x)"
  by (auto simp: execute_insert_text_plan_def Let_def dest!: apply_insert_undo split: if_splits)

lemma region_string_undo:
  "buffer_region_lisp_string ops r b x = Some (str, x') \<Longrightarrow> tx_undo_list x' = tx_undo_list x"
  by (auto simp: buffer_region_lisp_string_def Let_def bind_eq_Some_conv)

lemma execute_delete_recording:
  "execute_delete_text_plan_extracting ops plan b x = Some (r, str, b', x') \<Longrightarrow>
     undo_list_is_disabled (tx_undo_list x') = undo_list_is_disabled (tx_undo_list x)"
  by (auto simp: execute_delete_text_plan_extracting_def Let_def bind_eq_Some_conv
      dest!: delete_effects_undo region_string_undo split: if_splits option.splits)

lemma execute_replace_recording:
  "execute_replace_text_plan ops plan b x = Some (rep, b', x') \<Longrightarrow>
     undo_list_is_disabled (tx_undo_list x') = undo_list_is_disabled (tx_undo_list x)"
  by (auto simp: execute_replace_text_plan_def record_replace_range_undo_def Let_def bind_eq_Some_conv
      dest!: replace_effects_undo apply_insert_undo seat_properties_undo region_string_undo split: if_splits)

text \<open>What a step of a session guarantees, besides the text it leaves.\<close>

definition step_ok :: "(nat \<Rightarrow> nat list) \<Rightarrow> bytes \<Rightarrow> ('v, 'o) buffer \<Rightarrow> ('p, 'v) text_object \<Rightarrow> ('v, 'o) buffer \<Rightarrow> ('p, 'v) text_object \<Rightarrow> bool" where
  "step_ok cs tx b x b' x' \<longleftrightarrow> text_ok cs x' \<and> buffer_on x' b' \<and> bx_text x' = tx \<and> bx_mb x' = bx_mb x
     \<and> st_markers (tx_storage x') = st_markers (tx_storage x) \<and> kept b b' \<and> undo_follows x x'
     \<and> undo_list_is_disabled (tx_undo_list x') = undo_list_is_disabled (tx_undo_list x)"

lemma transacts_step:
  "transacts cs tx b x b' x' \<Longrightarrow> undo_list_is_disabled (tx_undo_list x') = undo_list_is_disabled (tx_undo_list x)
    \<Longrightarrow> step_ok cs tx b x b' x'"
  by (simp add: transacts_def step_ok_def)

lemma recached_step:
  assumes "text_ok cs x" "recached x x'" "buffer_on x' b'" "kept b b'"
  shows "step_ok cs (bx_text x) b x b' x'"
  using assms(3,4) recached_keeps(3) [OF assms(2,1)] by (simp add: step_ok_def undo_follows_def recached_keeps(1,2,6,10) [OF assms(2)])

text \<open>The length of a text is bounded as in Rust, where an allocation is below \<open>isize::MAX\<close> bytes.\<close>

definition fits_allocation :: "nat \<Rightarrow> bool" where
  "fits_allocation n \<longleftrightarrow> int n < 2 ^ 63"

lemma fits_allocation_nat: "fits_allocation n \<Longrightarrow> n < 2 ^ 63"
  by (simp add: fits_allocation_def)

lemma insert_string_sound:
  assumes ok: "text_ok cs x" "buffer_on x b"
    and str: "string_storable (bx_mb x) str" "fits_allocation (length (bx_text x) + length (stored_bytes (bx_mb x) str))"
  shows "\<exists>e b' x'. insert_lisp_string_full ops str placement adjustment b x = Some (insertion_at_anchor (bf_point b) e, b', x')
    \<and> measured_text (bx_mb x) (stored_bytes (bx_mb x) str) e
    \<and> step_ok cs (insert_at (ta_byte (bf_point b)) (stored_bytes (bx_mb x) str) (bx_text x)) b x b' x'"
proof -
  note on = buffer_onD [OF ok(2)]
  obtain s where s: "convert_lisp_string_for_buffer_mode str (bx_mb x) = Some s" "rope_storable (bx_mb x) (ls_bytes s)"
      "ls_multibyte s = bx_mb x" "stored_bytes (bx_mb x) str = ls_bytes s"
    using convert_string [OF str(1)] by blast
  let ?plan = "insert_plan_for_lisp_string s (bf_point b) placement adjustment"
  have point: "bf_point b = anchor_new (ta_char (bf_point b)) (ta_byte (bf_point b))" by (simp add: anchor_new_def)
  have "\<exists>b' x'. execute_insert_text_plan ops (ls_bytes s) ?plan b x
      = Some (insertion_at_anchor (anchor_new (ta_char (bf_point b)) (ta_byte (bf_point b))) (extent_new (schars s) (length (ls_bytes s))), b', x')
    \<and> transacts cs (insert_at (ta_byte (bf_point b)) (ls_bytes s) (bx_text x)) b x b' x'"
    using on stored_text_measured [OF s(2)] s(2,3) fits_allocation_nat [OF str(2)] s(4)
    by (intro execute_insert_sound [OF ok])
      (auto simp: insert_plan_for_lisp_string_def insert_plan_for_extent_def schars_def point [symmetric])
  then obtain b' x' where r: "execute_insert_text_plan ops (ls_bytes s) ?plan b x
        = Some (insertion_at_anchor (bf_point b) (extent_new (schars s) (length (ls_bytes s))), b', x')"
      "transacts cs (insert_at (ta_byte (bf_point b)) (ls_bytes s) (bx_text x)) b x b' x'"
    unfolding point [symmetric] by blast
  have "insert_lisp_string_full ops str placement adjustment b x
      = Some (insertion_at_anchor (bf_point b) (extent_new (schars s) (length (ls_bytes s))), b', x')"
  proof (cases "ls_multibyte str = bx_mb x")
    case True
    then have "s = str" using s(1) by (simp add: convert_lisp_string_for_buffer_mode_def)
    then show ?thesis using r(1) True on(1) by (simp add: insert_lisp_string_full_def)
  next
    case False
    then show ?thesis using r(1) s(1) on(1) by (simp add: insert_lisp_string_full_def)
  qed
  moreover have "measured_text (bx_mb x) (stored_bytes (bx_mb x) str) (extent_new (schars s) (length (ls_bytes s)))"
    using stored_text_measured [OF s(2)] s(3,4) by (simp add: schars_def)
  ultimately show ?thesis
    using transacts_step [OF r(2) execute_insert_recording [OF r(1)]] s(4) by auto
qed

text \<open>The range of an edit: character positions of the text, behind the start of the accessible region.\<close>

definition range_legal :: "emacs_byte_range \<Rightarrow> ('v, 'o) buffer \<Rightarrow> ('p, 'v) text_object \<Rightarrow> bool" where
  "range_legal r b x \<longleftrightarrow> is_emacs_char_boundary (bx_text x) (br_start r) (bx_mb x) \<and> is_emacs_char_boundary (bx_text x) (br_end r) (bx_mb x)
     \<and> br_start r \<le> br_end r \<and> ta_byte (bf_accessible_start b) \<le> br_start r"

lemma step_ok_recached:
  assumes "recached x x1" "step_ok cs tx b x1 b' x'"
  shows "step_ok cs tx b x b' x'"
  using assms(2) unfolding step_ok_def undo_follows_def by (auto simp: recached_keeps(1,2,6,10) [OF assms(1)])

lemma replace_measured_sound:
  assumes ok: "text_ok cs x" "buffer_on x b" and r: "measured_range (bx_mb x) (bx_text x) r" "ta_byte (bf_accessible_start b) \<le> er_byte_start r"
    and str: "string_storable (bx_mb x) str" "fits_allocation (length (bx_text x) + length (stored_bytes (bx_mb x) str))"
  shows "\<exists>rep b' x'. replace_measured_region_lisp_string ops r str b x = Some (rep, b', x') \<and> tr_old rep = r
    \<and> measured_text (bx_mb x) (stored_bytes (bx_mb x) str) (tr_new rep)
    \<and> step_ok cs (replace_range (er_byte_start r) (er_byte_end r) (stored_bytes (bx_mb x) str) (bx_text x)) b x b' x'"
proof -
  obtain s where s: "convert_lisp_string_for_buffer_mode str (bx_mb x) = Some s" "rope_storable (bx_mb x) (ls_bytes s)"
      "ls_multibyte s = bx_mb x" "stored_bytes (bx_mb x) str = ls_bytes s"
    using convert_string [OF str(1)] by blast
  let ?plan = "\<lparr>rp_bytes = ls_bytes s, rp_text_properties = ls_intervals s,
      rp_replacement = replacement_new r (extent_new (schars s) (length (ls_bytes s)))\<rparr>"
  have plan: "replace_plan_from_lisp_string r str (bf_multibyte b) = Some ?plan"
  proof (cases "ls_multibyte str = bx_mb x")
    case True
    then have "s = str" using s(1) by (simp add: convert_lisp_string_for_buffer_mode_def)
    then show ?thesis using True buffer_onD(1) [OF ok(2)] by (simp add: replace_plan_from_lisp_string_def)
  next
    case False
    then show ?thesis using s(1) buffer_onD(1) [OF ok(2)] by (simp add: replace_plan_from_lisp_string_def)
  qed
  obtain b' x' where x': "execute_replace_text_plan ops ?plan b x = Some (rp_replacement ?plan, b', x')"
      "transacts cs (replace_range (er_byte_start r) (er_byte_end r) (ls_bytes s) (bx_text x)) b x b' x'"
    using execute_replace_sound [OF ok, of ?plan ops] r stored_text_measured [OF s(2)] s(2,3) fits_allocation_nat [OF str(2)] s(4)
    by (auto simp: replacement_new_def schars_def)
  have "replace_measured_region_lisp_string ops r str b x = Some (rp_replacement ?plan, b', x')"
    using plan x'(1) by (simp add: replace_measured_region_lisp_string_def)
  moreover have "tr_old (rp_replacement ?plan) = r" "measured_text (bx_mb x) (ls_bytes s) (tr_new (rp_replacement ?plan))"
    using stored_text_measured [OF s(2)] s(3) by (simp_all add: replacement_new_def schars_def)
  ultimately show ?thesis
    using transacts_step [OF x'(2) execute_replace_recording [OF x'(1)]] unfolding s(4) by blast
qed

lemma replace_string_sound:
  assumes ok: "text_ok cs x" "buffer_on x b" and r: "range_legal r b x"
    and str: "string_storable (bx_mb x) str" "fits_allocation (length (bx_text x) + length (stored_bytes (bx_mb x) str))"
  shows "\<exists>rep b' x'. replace_emacs_byte_range_lisp_string ops r str b x = Some (rep, b', x')
    \<and> measured_range (bx_mb x) (bx_text x) (tr_old rep) \<and> er_byte_start (tr_old rep) = br_start r \<and> er_byte_end (tr_old rep) = br_end r
    \<and> measured_text (bx_mb x) (stored_bytes (bx_mb x) str) (tr_new rep)
    \<and> step_ok cs (replace_range (br_start r) (br_end r) (stored_bytes (bx_mb x) str) (bx_text x)) b x b' x'"
proof -
  obtain e x1 where e: "edit_range_for_emacs_byte_range r x = Some (e, x1)" "recached x x1" "measured_range (bx_mb x) (bx_text x) e"
      "er_byte_start e = br_start r" "er_byte_end e = br_end r"
    using edit_range_sound [OF ok(1), of r] r by (auto simp: range_legal_def)
  note k = recached_keeps [OF e(2)]
  have ok1: "text_ok cs x1" "buffer_on x1 b" using k(3) [OF ok(1)] ok(2) by (simp_all add: k(4))
  have "ta_byte (bf_accessible_start b) \<le> er_byte_start e" using r e(4) by (simp add: range_legal_def)
  then obtain rep b' x' where x': "replace_measured_region_lisp_string ops e str b x1 = Some (rep, b', x')" "tr_old rep = e"
      "measured_text (bx_mb x) (stored_bytes (bx_mb x) str) (tr_new rep)"
      "step_ok cs (replace_range (br_start r) (br_end r) (stored_bytes (bx_mb x) str) (bx_text x)) b x1 b' x'"
    using replace_measured_sound [OF ok1, of e str ops] e(3-5) str unfolding k(1,2) by auto
  have "replace_emacs_byte_range_lisp_string ops r str b x = Some (rep, b', x')"
    using r e(1) x'(1) by (simp add: replace_emacs_byte_range_lisp_string_def range_legal_def)
  then show ?thesis using x'(2,3) e(3-5) step_ok_recached [OF e(2) x'(4)] by blast
qed

lemma delete_region_sound:
  assumes ok: "text_ok cs x" "buffer_on x b" and r: "measured_range (bx_mb x) (bx_text x) r"
      "ta_byte (bf_accessible_start b) \<le> er_byte_start r" and fits: "fits_allocation (length (bx_text x))"
  shows "\<exists>plan x1 del b' x'. delete_text_plan_for_range_extracting ops r want b x = Some (plan, x1)
    \<and> execute_delete_text_plan_extracting ops plan b x1 = Some (r, del, b', x')
    \<and> step_ok cs (delete_range (er_byte_start r) (er_byte_end r) (bx_text x)) b x b' x'
    \<and> (want = Wanted \<longrightarrow> (\<exists>str. del = Some str \<and> ls_bytes str = sub_list (er_byte_start r) (er_byte_end r) (bx_text x)
          \<and> ls_multibyte str = bx_mb x))"
proof -
  obtain plan x1 where p: "delete_text_plan_for_range_extracting ops r want b x = Some (plan, x1)" "recached x x1" "dl_range plan = r"
      "plan_text_ok (bx_mb x) (bx_text x) plan" "want = Wanted \<longrightarrow> dl_deleted_text plan \<noteq> None"
    using delete_plan_sound [OF ok r(1), of ops want] by blast
  note k = recached_keeps [OF p(2)]
  have ok1: "text_ok cs x1" "buffer_on x1 b" using k(3) [OF ok(1)] ok(2) by (simp_all add: k(4))
  obtain b' x' where d: "execute_delete_text_plan_extracting ops plan b x1 = Some (r, dl_deleted_text plan, b', x')"
      "transacts cs (delete_range (er_byte_start r) (er_byte_end r) (bx_text x)) b x1 b' x'"
    using execute_delete_sound [OF ok1, of plan ops] r p(3,4) fits_allocation_nat [OF fits] by (auto simp: k(1,2))
  then show ?thesis
    using p step_ok_recached [OF p(2) transacts_step [OF d(2) execute_delete_recording [OF d(1)]]]
    by (auto simp: plan_text_ok_def split: option.splits)
qed

lemma delete_bytes_sound:
  assumes ok: "text_ok cs x" "buffer_on x b" and r: "range_legal r b x" and fits: "fits_allocation (length (bx_text x))"
  shows "\<exists>e b' x'. delete_emacs_byte_range ops r b x = Some (e, b', x')
    \<and> step_ok cs (delete_range (br_start r) (br_end r) (bx_text x)) b x b' x'"
proof (cases "byte_range_is_empty r")
  case True
  then have "br_end r = br_start r" using r by (simp add: byte_range_is_empty_def range_legal_def)
  then show ?thesis
    using True recached_step [OF ok(1) recached_refl [OF ok(1)] ok(2)] by (simp add: delete_emacs_byte_range_def delete_range_def)
next
  case False
  obtain e x1 where e: "edit_range_for_emacs_byte_range r x = Some (e, x1)" "recached x x1" "measured_range (bx_mb x) (bx_text x) e"
      "er_byte_start e = br_start r" "er_byte_end e = br_end r"
    using edit_range_sound [OF ok(1), of r] r by (auto simp: range_legal_def)
  note k = recached_keeps [OF e(2)]
  have ok1: "text_ok cs x1" "buffer_on x1 b" using k(3) [OF ok(1)] ok(2) by (simp_all add: k(4))
  have ne: "\<not> edit_range_is_empty e" using False e(4,5) by (simp add: edit_range_is_empty_def byte_range_is_empty_def)
  obtain plan x2 del b' x' where d: "delete_text_plan_for_range_extracting ops e IfRecorded b x1 = Some (plan, x2)"
      "execute_delete_text_plan_extracting ops plan b x2 = Some (e, del, b', x')"
      "step_ok cs (delete_range (br_start r) (br_end r) (bx_text x)) b x1 b' x'"
    using delete_region_sound [OF ok1, of e ops IfRecorded] e r fits by (auto simp: k(1,2) range_legal_def)
  then show ?thesis
    using False ne e(1) step_ok_recached [OF e(2) d(3)]
    by (auto simp: delete_emacs_byte_range_def delete_measured_region_def)
qed

text \<open>C5: the entry points refine the edits of a byte string. In a consistent buffer, inserting a string at point,
  replacing a range and deleting a range all return, whatever the representation of the string; the text
  changes as the operations on lists of bytes say, and the buffer is consistent again.\<close>

theorem entry_points_refine:
  assumes "buffer_ok cs b x" "string_storable (bx_mb x) str"
    "fits_allocation (length (bx_text x) + length (stored_bytes (bx_mb x) str))" "range_legal r b x"
  shows "(\<exists>i b' x'. insert_lisp_string_full ops str placement adjustment b x = Some (i, b', x') \<and> buffer_ok cs b' x'
       \<and> bx_text x' = insert_at (ta_byte (bf_point b)) (stored_bytes (bx_mb x) str) (bx_text x))
     \<and> (\<exists>rep b' x'. replace_emacs_byte_range_lisp_string ops r str b x = Some (rep, b', x') \<and> buffer_ok cs b' x'
       \<and> bx_text x' = replace_range (br_start r) (br_end r) (stored_bytes (bx_mb x) str) (bx_text x))
     \<and> (\<exists>e b' x'. delete_emacs_byte_range ops r b x = Some (e, b', x') \<and> buffer_ok cs b' x'
       \<and> bx_text x' = delete_range (br_start r) (br_end r) (bx_text x))"
proof -
  have ok: "text_ok cs x" "buffer_on x b" using assms(1) by (simp_all add: buffer_ok_def)
  have "fits_allocation (length (bx_text x))" using assms(3) by (simp add: fits_allocation_def)
  then show ?thesis
    using insert_string_sound [OF ok assms(2,3), of ops placement adjustment]
      replace_string_sound [OF ok assms(4,2,3), of ops] delete_bytes_sound [OF ok assms(4), of ops]
    unfolding step_ok_def buffer_ok_def by blast
qed

text \<open>C25: deleting and extracting. The string that \<open>delete-and-extract-region\<close> returns is the text that was
  deleted, in the representation of the buffer, and inserting it where it was restores the text.\<close>

theorem delete_and_extract_take_back:
  assumes "buffer_ok cs b x" "measured_range (bx_mb x) (bx_text x) r" "ta_byte (bf_accessible_start b) \<le> er_byte_start r"
    "fits_allocation (length (bx_text x))"
  shows "\<exists>str b' x'. delete_and_extract_measured_region ops r b x = Some (r, str, b', x') \<and> buffer_ok cs b' x'
     \<and> ls_multibyte str = bx_mb x \<and> bx_text x' = delete_range (er_byte_start r) (er_byte_end r) (bx_text x)
     \<and> insert_at (er_byte_start r) (ls_bytes str) (bx_text x') = bx_text x"
proof -
  have ok: "text_ok cs x" "buffer_on x b" using assms(1) by (simp_all add: buffer_ok_def)
  note m = measured_rangeD(5,6) [OF assms(2)]
  show ?thesis
    using delete_region_sound [OF ok assms(2-4), of ops Wanted] insert_delete_cancel [OF m]
    unfolding delete_and_extract_measured_region_def step_ok_def buffer_ok_def by fastforce
qed

subsection \<open>Sessions\<close>

datatype 'p edit_command =
  Goto_Byte emacs_byte_pos
| Narrow_To emacs_byte_range
| Command_Starts
| Insert_String "'p lisp_string" insert_marker_placement insert_marker_adjustment
| Replace_Range emacs_byte_range "'p lisp_string"
| Delete_Range emacs_byte_range

text \<open>A new command pushes a boundary on the undo list and saves point.\<close>

fun run_command ::
    "('p, 'o) side_data_ops \<Rightarrow> 'p edit_command \<Rightarrow> ('v, 'o) buffer \<Rightarrow> ('p, 'v) text_object
      \<Rightarrow> (('v, 'o) buffer \<times> ('p, 'v) text_object) option" where
  "run_command ops (Goto_Byte k) b x = goto_emacs_byte_pos k b x"
| "run_command ops (Narrow_To r) b x = narrow_to_emacs_byte_range r b x"
| "run_command ops Command_Starts b x =
     Some (b, save_point_before_command (bf_id b) (ta_char (bf_point b)) (x\<lparr>tx_undo_list := undo_list_boundary (tx_undo_list x)\<rparr>))"
| "run_command ops (Insert_String str placement adjustment) b x =
     map_option snd (insert_lisp_string_full ops str placement adjustment b x)"
| "run_command ops (Replace_Range r str) b x = map_option snd (replace_emacs_byte_range_lisp_string ops r str b x)"
| "run_command ops (Delete_Range r) b x = map_option snd (delete_emacs_byte_range ops r b x)"

fun command_legal :: "'p edit_command \<Rightarrow> ('v, 'o) buffer \<Rightarrow> ('p, 'v) text_object \<Rightarrow> bool" where
  "command_legal (Goto_Byte k) b x \<longleftrightarrow> is_emacs_char_boundary (bx_text x) k (bx_mb x)"
| "command_legal (Narrow_To r) b x \<longleftrightarrow>
     is_emacs_char_boundary (bx_text x) (br_start r) (bx_mb x) \<and> is_emacs_char_boundary (bx_text x) (br_end r) (bx_mb x)"
| "command_legal Command_Starts b x \<longleftrightarrow> True"
| "command_legal (Insert_String str placement adjustment) b x \<longleftrightarrow> string_storable (bx_mb x) str
     \<and> fits_allocation (length (bx_text x) + length (stored_bytes (bx_mb x) str))"
| "command_legal (Replace_Range r str) b x \<longleftrightarrow> range_legal r b x \<and> string_storable (bx_mb x) str
     \<and> fits_allocation (length (bx_text x) + length (stored_bytes (bx_mb x) str))"
| "command_legal (Delete_Range r) b x \<longleftrightarrow> range_legal r b x \<and> fits_allocation (length (bx_text x))"

fun run_session ::
    "('p, 'o) side_data_ops \<Rightarrow> 'p edit_command list \<Rightarrow> ('v, 'o) buffer \<Rightarrow> ('p, 'v) text_object
      \<Rightarrow> (('v, 'o) buffer \<times> ('p, 'v) text_object) option" where
  "run_session ops [] b x = Some (b, x)"
| "run_session ops (c # cs) b x = do {
     (b, x) \<leftarrow> run_command ops c b x;
     run_session ops cs b x
   }"

text \<open>Every command is legal in the state the commands before it leave.\<close>

fun session_legal ::
    "('p, 'o) side_data_ops \<Rightarrow> 'p edit_command list \<Rightarrow> ('v, 'o) buffer \<Rightarrow> ('p, 'v) text_object \<Rightarrow> bool" where
  "session_legal ops [] b x \<longleftrightarrow> True"
| "session_legal ops (c # cs) b x \<longleftrightarrow> command_legal c b x
     \<and> (case run_command ops c b x of Some (b, x) \<Rightarrow> session_legal ops cs b x | None \<Rightarrow> True)"

lemma step_ok_kept: "same_buffer b b' \<Longrightarrow> kept b b'"
  by (simp add: kept_def same_bufferD)

lemma command_sound:
  assumes ok: "text_ok cs x" "buffer_on x b" and legal: "command_legal c b x"
  shows "\<exists>tx b' x'. run_command ops c b x = Some (b', x') \<and> step_ok cs tx b x b' x'"
proof (cases c)
  case (Goto_Byte k)
  then obtain a x' where "goto_emacs_byte_pos k b x = Some (b\<lparr>bf_point := a\<rparr>, x')" "recached x x'" "buffer_on x' (b\<lparr>bf_point := a\<rparr>)"
    using goto_on [OF ok, of k] legal by auto
  then show ?thesis using Goto_Byte recached_step [OF ok(1)] step_ok_kept [of b "b\<lparr>bf_point := a\<rparr>"] by auto
next
  case (Narrow_To r)
  have p: "is_emacs_char_boundary (bx_text x) (ta_byte (bf_point b)) (bx_mb x)"
    using buffer_onD(2) [OF ok(2)] by (simp add: char_offset_def)
  have "min (br_start r) (length (bx_text x)) = br_start r" "min (br_end r) (length (bx_text x)) = br_end r"
    using legal Narrow_To boundary_le by (auto simp: min_absorb1)
  then obtain b' x' where "narrow_to_emacs_byte_range r b x = Some (b', x')" "recached x x'" "buffer_on x' b'" "same_buffer b b'"
    using narrow_sound [OF ok(1) buffer_onD(1) [OF ok(2)] p, of r] legal Narrow_To by auto
  then show ?thesis using Narrow_To recached_step [OF ok(1)] step_ok_kept [of b b'] by auto
next
  case Command_Starts
  then show ?thesis
    using ok other_records_restore(5)
    by (auto simp: step_ok_def save_point_before_command_def text_ok_def buffer_on_def undo_follows_def)
next
  case (Insert_String str placement adjustment)
  then show ?thesis using insert_string_sound [OF ok, of str ops placement adjustment] legal by auto
next
  case (Replace_Range r str)
  then show ?thesis using replace_string_sound [OF ok, of r str ops] legal by auto
next
  case (Delete_Range r)
  then show ?thesis using delete_bytes_sound [OF ok, of r ops] legal by auto
qed

lemma step_ok_trans: "step_ok cs tx b x b1 x1 \<Longrightarrow> step_ok cs tx' b1 x1 b2 x2 \<Longrightarrow> step_ok cs tx' b x b2 x2"
  by (auto simp: step_ok_def undo_follows_def kept_def)

lemma session_sound:
  assumes "text_ok cs x" "buffer_on x b" "session_legal ops cmds b x"
  shows "\<exists>tx b' x'. run_session ops cmds b x = Some (b', x') \<and> step_ok cs tx b x b' x'"
  using assms
proof (induction cmds arbitrary: b x)
  case Nil
  then show ?case using recached_step [OF Nil(1) recached_refl [OF Nil(1)] Nil(2) kept_simps(1)] by auto
next
  case (Cons c cmds)
  then obtain tx b1 x1 where c: "run_command ops c b x = Some (b1, x1)" "step_ok cs tx b x b1 x1"
    using command_sound [of cs x b c ops] by auto
  then obtain tx' b' x' where r: "run_session ops cmds b1 x1 = Some (b', x')" "step_ok cs tx' b1 x1 b' x'"
    using Cons.IH [of x1 b1] Cons.prems(3) by (auto simp: step_ok_def)
  then show ?case using c(1) step_ok_trans [OF c(2) r(2)] by auto
qed

text \<open>C4: undo restores the text. Start from a consistent buffer with an empty undo list, and run any session of
  legal commands, with insertions, replacements, deletions, motions, narrowing and command boundaries in any
  order. The session returns, the buffer is consistent, and undoing all the records it has left, newest first,
  gives exactly the text it began with.\<close>

theorem session_undo_restores:
  assumes "buffer_ok cs b x" "tx_undo_list x = Undo_List []" "session_legal ops cmds b x"
  shows "\<exists>b' x' es. run_session ops cmds b x = Some (b', x') \<and> buffer_ok cs b' x' \<and> tx_undo_list x' = Undo_List es
     \<and> undo_entries_text (bx_mb x') es (bx_text x') = Some (bx_text x)"
proof -
  obtain tx b' x' where r: "run_session ops cmds b x = Some (b', x')" "step_ok cs tx b x b' x'"
    using session_sound [of cs x b ops cmds] assms by (auto simp: buffer_ok_def)
  have "\<not> undo_list_is_disabled (tx_undo_list x')" using r(2) assms(2) by (simp add: step_ok_def undo_list_is_disabled_def)
  then obtain es where es: "tx_undo_list x' = Undo_List es"
    by (cases "tx_undo_list x'") (auto simp: undo_list_is_disabled_def)
  have "undo_restores (bx_mb x) (bx_text x) (tx_undo_list x') (bx_text x')"
    using r(2) assms(2) unfolding step_ok_def undo_follows_def by auto
  then show ?thesis using r es by (auto simp: step_ok_def buffer_ok_def)
qed

subsection \<open>A sample session\<close>

definition sample_ops :: "(nat, nat) side_data_ops" where
  "sample_ops = \<lparr>so_empty = 0, so_is_empty = (\<lambda>p. p = 0), so_slice_char_range = (\<lambda>_ p. p), so_append_shifted_at_char_pos = (\<lambda>q _ p. p + q),
     so_clear_properties = (\<lambda>_ _ p. p), so_adjust_for_insert = (\<lambda>_ _ p. p), so_adjust_for_delete = (\<lambda>_ p. p),
     so_adjust_for_replace = (\<lambda>_ _ _ p. p), so_overlays_insert = (\<lambda>_ _ _ o'. o'), so_overlays_delete = (\<lambda>_ o'. o')\<rparr>"

definition sample_string :: "nat lisp_string" where
  "sample_string = \<lparr>ls_bytes = [0x78, 0xE9], ls_multibyte = False, ls_intervals = 1\<rparr>"

definition sample_session :: "nat edit_command list" where
  "sample_session = [Insert_String sample_string AfterMarkers ByInsertionType, Goto_Byte 1, Command_Starts,
     Replace_Range (byte_range_new 1 3) sample_string, Delete_Range (byte_range_new 0 1)]"

lemma sample_text_facts: "bx_text sample_text_object = sample_text" "bx_mb sample_text_object"
  using sample_storage_inv [of PieceTree] by (simp_all add: sample_text_object_def)

lemma sample_string_facts:
  "string_storable True sample_string" "stored_bytes True sample_string = [0x78, 0xC1, 0xA9]"
  by code_simp+

text \<open>The loops over marker chains are evaluated by their equations.\<close>

declare chain_walk_mut.simps [code] chain_find.simps [code] delete_adjustments_loop.simps [code]
  marker_char_bounds.simps [code] marker_byte_bounds.simps [code]

lemma sample_session_legal: "session_legal sample_ops sample_session sample_buffer sample_text_object"
  by code_simp

lemma sample_start:
  "range_legal (byte_range_new 1 3) sample_buffer sample_text_object"
  "fits_allocation (length (bx_text sample_text_object) + length (stored_bytes (bx_mb sample_text_object) sample_string))"
  by code_simp+

theorem session_undo_restores_witness:
  "\<exists>b' x' es. run_session sample_ops sample_session sample_buffer sample_text_object = Some (b', x') \<and> buffer_ok sample_chains b' x'
     \<and> tx_undo_list x' = Undo_List es \<and> undo_entries_text (bx_mb x') es (bx_text x') = Some (bx_text sample_text_object)"
  by (rule session_undo_restores [OF sample_buffer_ok _ sample_session_legal]) (simp add: sample_text_object_def)

theorem entry_points_refine_witness:
  "(\<exists>i b' x'. insert_lisp_string_full sample_ops sample_string BeforeMarkers ByInsertionType sample_buffer sample_text_object = Some (i, b', x')
       \<and> buffer_ok sample_chains b' x'
       \<and> bx_text x' = insert_at (ta_byte (bf_point sample_buffer)) (stored_bytes (bx_mb sample_text_object) sample_string) (bx_text sample_text_object))
     \<and> (\<exists>rep b' x'. replace_emacs_byte_range_lisp_string sample_ops (byte_range_new 1 3) sample_string sample_buffer sample_text_object = Some (rep, b', x')
       \<and> buffer_ok sample_chains b' x'
       \<and> bx_text x' = replace_range (br_start (byte_range_new 1 3)) (br_end (byte_range_new 1 3))
            (stored_bytes (bx_mb sample_text_object) sample_string) (bx_text sample_text_object))
     \<and> (\<exists>e b' x'. delete_emacs_byte_range sample_ops (byte_range_new 1 3) sample_buffer sample_text_object = Some (e, b', x')
       \<and> buffer_ok sample_chains b' x'
       \<and> bx_text x' = delete_range (br_start (byte_range_new 1 3)) (br_end (byte_range_new 1 3)) (bx_text sample_text_object))"
  by (rule entry_points_refine [OF sample_buffer_ok _ sample_start(2,1)]) (simp add: sample_text_facts sample_string_facts(1))

theorem delete_and_extract_take_back_witness:
  "\<exists>str b' x'. delete_and_extract_measured_region sample_ops sample_edit_range sample_buffer sample_text_object = Some (sample_edit_range, str, b', x')
     \<and> buffer_ok sample_chains b' x' \<and> ls_multibyte str = bx_mb sample_text_object
     \<and> bx_text x' = delete_range (er_byte_start sample_edit_range) (er_byte_end sample_edit_range) (bx_text sample_text_object)
     \<and> insert_at (er_byte_start sample_edit_range) (ls_bytes str) (bx_text x') = bx_text sample_text_object"
proof (rule delete_and_extract_take_back [OF sample_buffer_ok])
  show "measured_range (bx_mb sample_text_object) (bx_text sample_text_object) sample_edit_range"
    using sample_edit(2) by (simp add: sample_text_facts sample_text_def)
  show "fits_allocation (length (bx_text sample_text_object))" by code_simp
  show "ta_byte (bf_accessible_start sample_buffer) \<le> er_byte_start sample_edit_range" by code_simp
qed

subsection \<open>Changing case in place\<close>

text \<open>A buffer that holds the single letter U+00DF, two bytes, and the plan that replaces it by two letters S.\<close>

definition eszett_text :: "(nat, nat) text_object" where
  "eszett_text = sample_text_object\<lparr>
     tx_storage := the (Option.bind (tb_from_emacs_bytes [0xC3, 0x9F] True PieceTree) (st_from_backend 0)), tx_markers := no_markers\<rparr>"

definition eszett_buffer :: "(nat, nat) buffer" where
  "eszett_buffer = sample_buffer\<lparr>bf_point := anchor_new 1 2, bf_accessible_end := anchor_new 1 2\<rparr>"

definition eszett_plan :: "nat replace_text_plan" where
  "eszett_plan = \<lparr>rp_bytes = [0x53, 0x53], rp_text_properties = 0,
     rp_replacement = replacement_new (edit_range_new (byte_range_new 0 2) 0 1) (extent_from_emacs_bytes [0x53, 0x53] True)\<rparr>"

text \<open>A change of case in place strands point and the region. When the new text has as many bytes as the old one
  but more characters, the executor overwrites the bytes and leaves point, the accessible region and the markers
  alone; afterwards point and the end of the region have a character position that is not that of their byte
  position, and conversions that trust them are wrong.\<close>

theorem casify_strands_point:
  "state_ok True (bx_text eszett_text) (edit_state eszett_buffer)
     \<and> (\<exists>x. execute_casify_replace_text_plan sample_ops eszett_plan eszett_buffer eszett_text
            = Some (rp_replacement eszett_plan, eszett_buffer, x)
          \<and> bx_text x = [0x53, 0x53] \<and> total_char_end_pos x = 2 \<and> ta_char (bf_accessible_end eszett_buffer) = 1
          \<and> \<not> state_ok True (bx_text x) (edit_state eszett_buffer)
          \<and> map_option fst (emacs_byte_pos_to_char_pos_clamped 2 eszett_buffer x) = Some 1)"
proof -
  let ?r = "execute_casify_replace_text_plan sample_ops eszett_plan eszett_buffer eszett_text"
  have "?r \<noteq> None" "fst (the ?r) = rp_replacement eszett_plan" "fst (snd (the ?r)) = eszett_buffer"
    "bx_text (snd (snd (the ?r))) = [0x53, 0x53]" "total_char_end_pos (snd (snd (the ?r))) = 2"
    "\<not> state_ok True [0x53, 0x53] (edit_state eszett_buffer)" "ta_char (bf_accessible_end eszett_buffer) = 1"
    "map_option fst (emacs_byte_pos_to_char_pos_clamped 2 eszett_buffer (snd (snd (the ?r)))) = Some 1"
    "state_ok True (bx_text eszett_text) (edit_state eszett_buffer)"
    by code_simp+
  then show ?thesis by (cases ?r) auto
qed

end
