(* ===== verification/Buffer_Manager.thy ===== *)
theory Buffer_Manager
  imports State_Markers Live_Buffers Edit_Session
begin

text \<open>
  The buffer manager of \<open>src/crates/neovm-core/src/buffer/buffer.rs\<close>: the table of live buffers, the texts
  they share, the current buffer, the order of the buffer list, and the operations that create, select,
  move, narrow and kill buffers.

  An indirect buffer shares the text of its base buffer. In the code both hold reference-counted
  handles of the same cells; here there is one \<open>text_object\<close> for each base buffer, under its id, and a
  buffer finds its text through its root. The saved point of the editor is one cell, and is put into the
  text object an operation works on. Buffer names are compared as bytes, as the code does for all names
  that are valid UTF-8. Local variables, marks, labeled restrictions, file names and modes of a buffer are
  left out. A dead buffer keeps only its name.

  An operation returns an option: no value is a panic. The value is a pair of what the Rust function
  returns (an option where \<open>?\<close> may leave early) and the new manager, since what was done before an early
  return stays done.
\<close>

subsection \<open>State\<close>

record ('p, 'v, 'o) buffer_manager =
  bm_buffers :: "('v, 'o) live_buffer live_buffers"
  bm_texts :: "nat \<Rightarrow> ('p, 'v) text_object option"
  bm_dead :: "nat \<Rightarrow> bytes option"
  bm_order :: "nat list"
  bm_current :: "nat option"
  bm_next_id :: nat
  bm_next_marker_id :: nat
  bm_next_address :: nat
  bm_default_backend :: backend_kind
  bm_saved_point :: "(nat \<times> char_pos0) option"

text \<open>What a new buffer starts with, for the components that are not modelled.\<close>

record ('p, 'v, 'o) buffer_defaults =
  bd_overlays_new :: 'o
  bd_overlays_retarget :: "nat \<Rightarrow> nat \<Rightarrow> 'o \<Rightarrow> 'o"
  bd_props_new :: 'p
  bd_modtime_unknown :: 'v

abbreviation bm_get :: "nat \<Rightarrow> ('p, 'v, 'o) buffer_manager \<Rightarrow> ('v, 'o) live_buffer option" where
  "bm_get i m \<equiv> lb_get i (bm_buffers m)"

definition text_root :: "('v, 'o) live_buffer \<Rightarrow> nat" where
  "text_root lv = (case lv_base_buffer lv of Some r \<Rightarrow> r | None \<Rightarrow> bf_id (lv_buffer lv))"

text \<open>The text a live buffer is on, and writing a buffer and its text back.\<close>

definition get_text :: "('v, 'o) live_buffer \<Rightarrow> ('p, 'v, 'o) buffer_manager \<Rightarrow> ('p, 'v) text_object option" where
  "get_text lv m = map_option (\<lambda>x. x\<lparr>tx_saved_point := bm_saved_point m\<rparr>) (bm_texts m (text_root lv))"

definition put_buffer ::
    "nat \<Rightarrow> ('v, 'o) live_buffer \<Rightarrow> ('v, 'o) buffer \<Rightarrow> ('p, 'v) text_object \<Rightarrow> ('p, 'v, 'o) buffer_manager
      \<Rightarrow> ('p, 'v, 'o) buffer_manager" where
  "put_buffer i lv b x m = m\<lparr>bm_buffers := lb_set i (lv\<lparr>lv_buffer := b\<rparr>) (bm_buffers m),
     bm_texts := (bm_texts m)(text_root lv \<mapsto> x), bm_saved_point := tx_saved_point x\<rparr>"

text \<open>Running an operation on a buffer that is looked up, and going on unless an operation left early.\<close>

definition on_buffer ::
    "nat \<Rightarrow> (('v, 'o) buffer \<Rightarrow> ('p, 'v) text_object \<Rightarrow> ('a \<times> ('v, 'o) buffer \<times> ('p, 'v) text_object) option)
      \<Rightarrow> ('p, 'v, 'o) buffer_manager \<Rightarrow> ('a option \<times> ('p, 'v, 'o) buffer_manager) option" where
  "on_buffer i f m =
     (case bm_get i m of
        None \<Rightarrow> Some (None, m)
      | Some lv \<Rightarrow> do {
          x \<leftarrow> get_text lv m;
          (a, b, x) \<leftarrow> f (lv_buffer lv) x;
          Some (Some a, put_buffer i lv b x m)
        })"

definition and_then ::
    "('a option \<times> 'm) option \<Rightarrow> ('a \<Rightarrow> 'm \<Rightarrow> ('b option \<times> 'm) option) \<Rightarrow> ('b option \<times> 'm) option" where
  "and_then r f = do {
     (a, m) \<leftarrow> r;
     case a of None \<Rightarrow> Some (None, m) | Some a \<Rightarrow> f a m
   }"

text \<open>\<open>let _ = ...\<close>: the result is ignored, its effect is not.\<close>

definition ignoring :: "('a option \<times> 'm) option \<Rightarrow> 'm option" where
  "ignoring r = map_option snd r"

subsection \<open>Which buffers share a text\<close>

definition shared_text_root_id :: "nat \<Rightarrow> ('p, 'v, 'o) buffer_manager \<Rightarrow> nat option" where
  "shared_text_root_id i m = map_option text_root (bm_get i m)"

definition any_indirect_buffer :: "('p, 'v, 'o) buffer_manager \<Rightarrow> bool" where
  "any_indirect_buffer m \<longleftrightarrow> lb_any_indirect (bm_buffers m)"

definition buffers_sharing_root_ids :: "nat \<Rightarrow> ('p, 'v, 'o) buffer_manager \<Rightarrow> nat list option" where
  "buffers_sharing_root_ids root m =
     (if \<not> lb_any_indirect (bm_buffers m) then Some (if lb_contains_key root (bm_buffers m) then [root] else [])
      else do {
        xs \<leftarrow> lb_iter (bm_buffers m);
        Some (map (\<lambda>(i, lv). bf_id (lv_buffer lv)) (filter (\<lambda>(i, lv). text_root lv = root) xs))
      })"

definition find_buffer_by_name :: "bytes \<Rightarrow> ('p, 'v, 'o) buffer_manager \<Rightarrow> nat option option" where
  "find_buffer_by_name name m = do {
     vs \<leftarrow> lb_values (bm_buffers m);
     Some (map_option (\<lambda>lv. bf_id (lv_buffer lv)) (List.find (\<lambda>lv. lv_name lv = name) vs))
   }"

subsection \<open>State markers\<close>

definition buffer_has_state_markers :: "nat \<Rightarrow> ('p, 'v, 'o) buffer_manager \<Rightarrow> bool" where
  "buffer_has_state_markers i m \<longleftrightarrow> (case bm_get i m of None \<Rightarrow> False | Some lv \<Rightarrow> bf_state_markers (lv_buffer lv) \<noteq> None)"

definition ensure_buffer_state_markers ::
    "nat \<Rightarrow> ('p, 'v, 'o) buffer_manager \<Rightarrow> (unit option \<times> ('p, 'v, 'o) buffer_manager) option" where
  "ensure_buffer_state_markers i m =
     (if buffer_has_state_markers i m then Some (Some (), m)
      else and_then (on_buffer i (\<lambda>b x. do {
             (b, x) \<leftarrow> ensure_state_markers (bm_next_marker_id m) (bm_next_address m) b x;
             Some ((), b, x)
           }) m)
         (\<lambda>_ m. Some (Some (), m\<lparr>bm_next_marker_id := bm_next_marker_id m + 3, bm_next_address := bm_next_address m + 3\<rparr>)))"

definition record_buffer_state_markers ::
    "nat \<Rightarrow> ('p, 'v, 'o) buffer_manager \<Rightarrow> (unit option \<times> ('p, 'v, 'o) buffer_manager) option" where
  "record_buffer_state_markers i m =
     (if \<not> buffer_has_state_markers i m then Some (None, m)
      else on_buffer i (\<lambda>b x. do { x \<leftarrow> record_state_markers b x; Some ((), b, x) }) m)"

definition mg_fetch_buffer_state_markers ::
    "nat \<Rightarrow> ('p, 'v, 'o) buffer_manager \<Rightarrow> (unit option \<times> ('p, 'v, 'o) buffer_manager) option" where
  "mg_fetch_buffer_state_markers i m =
     (case bm_get i m of
        None \<Rightarrow> Some (None, m)
      | Some lv \<Rightarrow> do {
          x \<leftarrow> get_text lv m;
          r \<leftarrow> fetch_buffer_state_markers (lv_buffer lv) x;
          case r of None \<Rightarrow> Some (None, m) | Some (b, x) \<Rightarrow> Some (Some (), put_buffer i lv b x m)
        })"

subsection \<open>The buffer list and the current buffer\<close>

definition note_buffer_order_head :: "nat \<Rightarrow> ('p, 'v, 'o) buffer_manager \<Rightarrow> ('p, 'v, 'o) buffer_manager" where
  "note_buffer_order_head i m = m\<lparr>bm_order := i # filter (\<lambda>j. j \<noteq> i) (bm_order m)\<rparr>"

definition note_buffer_order_tail :: "nat \<Rightarrow> ('p, 'v, 'o) buffer_manager \<Rightarrow> bool \<times> ('p, 'v, 'o) buffer_manager" where
  "note_buffer_order_tail i m =
     (if \<not> lb_contains_key i (bm_buffers m) then (False, m)
      else (True, m\<lparr>bm_order := filter (\<lambda>j. j \<noteq> i) (bm_order m) @ [i]\<rparr>))"

definition note_buffer_order_after :: "nat \<Rightarrow> nat \<Rightarrow> ('p, 'v, 'o) buffer_manager \<Rightarrow> bool \<times> ('p, 'v, 'o) buffer_manager" where
  "note_buffer_order_after i after m =
     (if i = after \<or> \<not> lb_contains_key i (bm_buffers m) \<or> \<not> lb_contains_key after (bm_buffers m) then (False, m)
      else let rest = filter (\<lambda>j. j \<noteq> i) (bm_order m);
               front = takeWhile (\<lambda>j. j \<noteq> after) rest; behind = dropWhile (\<lambda>j. j \<noteq> after) rest
           in (True, m\<lparr>bm_order := (if behind = [] then rest @ [i] else front @ [after, i] @ tl behind)\<rparr>))"

definition note_buffer_display :: "nat \<Rightarrow> ('p, 'v, 'o) buffer_manager \<Rightarrow> ('p, 'v, 'o) buffer_manager" where
  "note_buffer_display i m = (if lb_contains_key i (bm_buffers m) then note_buffer_order_head i m else m)"

definition buffer_list :: "('p, 'v, 'o) buffer_manager \<Rightarrow> nat list" where
  "buffer_list m =
     (let ids = filter (\<lambda>i. lb_contains_key i (bm_buffers m)) (bm_order m)
      in if length ids < lb_live (bm_buffers m)
         then ids @ sort (filter (\<lambda>i. i \<notin> set ids) (lb_keys (bm_buffers m)))
         else ids)"

definition switch_current_with_recording ::
    "nat \<Rightarrow> bool \<Rightarrow> ('p, 'v, 'o) buffer_manager \<Rightarrow> (bool \<times> ('p, 'v, 'o) buffer_manager) option" where
  "switch_current_with_recording i record_order m =
     (if \<not> lb_contains_key i (bm_buffers m) then Some (False, m)
      else if bm_current m = Some i then Some (True, if record_order then note_buffer_order_head i m else m)
      else do {
        let old = bm_current m;
        let m = m\<lparr>bm_current := Some i\<rparr>;
        let m = (if record_order then note_buffer_order_head i m else m);
        m \<leftarrow> (case old of Some old_id \<Rightarrow> ignoring (record_buffer_state_markers old_id m) | None \<Rightarrow> Some m);
        m \<leftarrow> ignoring (mg_fetch_buffer_state_markers i m);
        Some (True, m)
      })"

definition switch_current :: "nat \<Rightarrow> ('p, 'v, 'o) buffer_manager \<Rightarrow> (bool \<times> ('p, 'v, 'o) buffer_manager) option" where
  "switch_current i = switch_current_with_recording i True"

definition switch_current_unrecorded :: "nat \<Rightarrow> ('p, 'v, 'o) buffer_manager \<Rightarrow> (bool \<times> ('p, 'v, 'o) buffer_manager) option" where
  "switch_current_unrecorded i = switch_current_with_recording i False"

subsection \<open>Point and narrowing of a buffer\<close>

definition then_record ::
    "nat \<Rightarrow> ('a option \<times> ('p, 'v, 'o) buffer_manager) option \<Rightarrow> ('a option \<times> ('p, 'v, 'o) buffer_manager) option" where
  "then_record i r = and_then r (\<lambda>a m. do { m \<leftarrow> ignoring (record_buffer_state_markers i m); Some (Some a, m) })"

definition goto_buffer_emacs_byte_pos ::
    "nat \<Rightarrow> emacs_byte_pos \<Rightarrow> ('p, 'v, 'o) buffer_manager \<Rightarrow> (emacs_byte_pos option \<times> ('p, 'v, 'o) buffer_manager) option" where
  "goto_buffer_emacs_byte_pos i pos m =
     then_record i (on_buffer i (\<lambda>b x. do { (b, x) \<leftarrow> goto_emacs_byte_pos pos b x; Some (ta_byte (bf_point b), b, x) }) m)"

definition set_buffer_point_anchor ::
    "nat \<Rightarrow> text_position_anchor \<Rightarrow> ('p, 'v, 'o) buffer_manager
      \<Rightarrow> (text_position_anchor option \<times> ('p, 'v, 'o) buffer_manager) option" where
  "set_buffer_point_anchor i p m =
     then_record i (on_buffer i (\<lambda>b x. do {
       (b, x) \<leftarrow> set_point_anchor p b x;
       Some (bf_point b, b, x)
     }) m)"

definition narrow_buffer_to_emacs_byte_range ::
    "nat \<Rightarrow> emacs_byte_range \<Rightarrow> ('p, 'v, 'o) buffer_manager \<Rightarrow> (unit option \<times> ('p, 'v, 'o) buffer_manager) option" where
  "narrow_buffer_to_emacs_byte_range i r m =
     then_record i (on_buffer i (\<lambda>b x. do { (b, x) \<leftarrow> narrow_to_emacs_byte_range r b x; Some ((), b, x) }) m)"

definition restore_buffer_emacs_byte_restriction ::
    "nat \<Rightarrow> emacs_byte_range \<Rightarrow> ('p, 'v, 'o) buffer_manager \<Rightarrow> (unit option \<times> ('p, 'v, 'o) buffer_manager) option" where
  "restore_buffer_emacs_byte_restriction i r m =
     then_record i (on_buffer i (\<lambda>b x. do { (b, x) \<leftarrow> narrow_to_emacs_byte_range r b x; Some ((), b, x) }) m)"

definition restore_buffer_accessible_region ::
    "nat \<Rightarrow> text_position_anchor \<times> text_position_anchor \<Rightarrow> ('p, 'v, 'o) buffer_manager
      \<Rightarrow> (unit option \<times> ('p, 'v, 'o) buffer_manager) option" where
  "restore_buffer_accessible_region i snapshot m =
     then_record i (on_buffer i (\<lambda>b x. do { (b, x) \<leftarrow> restore_accessible_region snapshot b x; Some ((), b, x) }) m)"

definition restore_buffer_accessible_region_with_current_full_end ::
    "nat \<Rightarrow> text_position_anchor \<times> text_position_anchor \<Rightarrow> ('p, 'v, 'o) buffer_manager
      \<Rightarrow> (unit option \<times> ('p, 'v, 'o) buffer_manager) option" where
  "restore_buffer_accessible_region_with_current_full_end i snapshot m =
     then_record i (on_buffer i (\<lambda>b x. do {
       (b, x) \<leftarrow> restore_accessible_region_with_current_full_end snapshot b x;
       Some ((), b, x)
     }) m)"

definition full_buffer_emacs_byte_range :: "nat \<Rightarrow> ('p, 'v, 'o) buffer_manager \<Rightarrow> emacs_byte_range option option" where
  "full_buffer_emacs_byte_range i m =
     (case bm_get i m of
        None \<Rightarrow> Some None
      | Some lv \<Rightarrow> do { x \<leftarrow> get_text lv m; Some (Some (byte_range_from_start_len 0 (total_emacs_byte_end_pos x))) })"

definition widen_buffer_fully ::
    "nat \<Rightarrow> ('p, 'v, 'o) buffer_manager \<Rightarrow> (unit option \<times> ('p, 'v, 'o) buffer_manager) option" where
  "widen_buffer_fully i m = do {
     r \<leftarrow> full_buffer_emacs_byte_range i m;
     case r of None \<Rightarrow> Some (None, m) | Some r \<Rightarrow> restore_buffer_emacs_byte_restriction i r m
   }"

datatype undo_boundary_outcome = Recorded | UndoDisabled

definition add_undo_boundary ::
    "nat \<Rightarrow> ('p, 'v, 'o) buffer_manager \<Rightarrow> (undo_boundary_outcome option \<times> ('p, 'v, 'o) buffer_manager) option" where
  "add_undo_boundary i m =
     on_buffer i (\<lambda>b x.
       if undo_list_is_disabled (tx_undo_list x) then Some (UndoDisabled, b, x)
       else Some (Recorded, b, save_point_before_command i (ta_char (bf_point b))
                                 (x\<lparr>tx_undo_list := undo_list_boundary (tx_undo_list x)\<rparr>))) m"

definition record_undo_point_before_command ::
    "nat \<Rightarrow> ('p, 'v, 'o) buffer_manager \<Rightarrow> (unit option \<times> ('p, 'v, 'o) buffer_manager) option" where
  "record_undo_point_before_command i m =
     on_buffer i (\<lambda>b x. Some ((), b, save_point_before_command i (ta_char (bf_point b)) x)) m"

subsection \<open>Creating buffers\<close>

text \<open>The head slot of a text's marker chain is named after the buffer it is created for.\<close>

definition text_object_new :: "('p, 'v, 'o) buffer_defaults \<Rightarrow> nat \<Rightarrow> backend_kind \<Rightarrow> ('p, 'v) text_object option" where
  "text_object_new d i kind = do {
     s \<leftarrow> st_from_backend i (tb_new kind);
     Some \<lparr>tx_storage = s, tx_markers = empty_store, tx_changes = text_changes_new, tx_props = bd_props_new d,
           tx_undo_list = Undo_List [], tx_recorded_first_change = False, tx_saved_point = None\<rparr>
   }"

definition buffer_new :: "('p, 'v, 'o) buffer_defaults \<Rightarrow> nat \<Rightarrow> ('v, 'o) buffer" where
  "buffer_new d i = \<lparr>bf_id = i, bf_point = anchor_new 0 0, bf_accessible_start = anchor_new 0 0, bf_accessible_end = anchor_new 0 0,
     bf_autosave_modified_tick = 1, bf_state_markers = None, bf_multibyte = True, bf_first_change_modtime = bd_modtime_unknown d,
     bf_overlays = bd_overlays_new d\<rparr>"

text \<open>Undo is off in a buffer whose name starts with a space.\<close>

definition create_buffer ::
    "('p, 'v, 'o) buffer_defaults \<Rightarrow> bytes \<Rightarrow> ('p, 'v, 'o) buffer_manager \<Rightarrow> (nat \<times> ('p, 'v, 'o) buffer_manager) option" where
  "create_buffer d name m = do {
     let i = bm_next_id m;
     x \<leftarrow> text_object_new d i (bm_default_backend m);
     let x = (if name \<noteq> [] \<and> hd name = 0x20 then x\<lparr>tx_undo_list := Undo_T\<rparr> else x);
     (_, table) \<leftarrow> lb_insert i \<lparr>lv_buffer = buffer_new d i, lv_base_buffer = None, lv_name = name\<rparr> (bm_buffers m);
     Some (i, m\<lparr>bm_next_id := i + 1, bm_buffers := table, bm_texts := (bm_texts m)(i \<mapsto> x), bm_order := bm_order m @ [i]\<rparr>)
   }"

definition create_indirect_buffer ::
    "('p, 'v, 'o) buffer_defaults \<Rightarrow> nat \<Rightarrow> bytes \<Rightarrow> bool \<Rightarrow> ('p, 'v, 'o) buffer_manager
      \<Rightarrow> (nat option \<times> ('p, 'v, 'o) buffer_manager) option" where
  "create_indirect_buffer d base_id name clone m = do {
     taken \<leftarrow> find_buffer_by_name name m;
     if name = [] \<or> taken \<noteq> None then Some (None, m)
     else case shared_text_root_id base_id m of
       None \<Rightarrow> Some (None, m)
     | Some root_id \<Rightarrow> (case bm_get root_id m of
         None \<Rightarrow> Some (None, m)
       | Some root \<Rightarrow> do {
           let i = bm_next_id m;
           let m = m\<lparr>bm_next_id := i + 1\<rparr>;
           let rb = lv_buffer root;
           let b = (if clone then rb\<lparr>bf_id := i, bf_overlays := bd_overlays_retarget d root_id i (bf_overlays rb), bf_state_markers := None\<rparr>
                    else buffer_new d i);
           x \<leftarrow> get_text root m;
           (b, x) \<leftarrow> narrow_to_emacs_byte_range (byte_range_new (ta_byte (bf_accessible_start rb)) (ta_byte (bf_accessible_end rb))) b x;
           (b, x) \<leftarrow> goto_emacs_byte_pos (ta_byte (bf_point rb)) b x;
           s \<leftarrow> st_set_multibyte (bf_multibyte rb) (tx_storage x);
           let b = b\<lparr>bf_multibyte := bf_multibyte rb, bf_autosave_modified_tick := bf_autosave_modified_tick rb,
                     bf_first_change_modtime := bf_first_change_modtime rb\<rparr>;
           (_, table) \<leftarrow> lb_insert i \<lparr>lv_buffer = b, lv_base_buffer = Some root_id, lv_name = name\<rparr> (bm_buffers m);
           let m = m\<lparr>bm_buffers := table, bm_texts := (bm_texts m)(root_id \<mapsto> x\<lparr>tx_storage := s\<rparr>), bm_order := bm_order m @ [i]\<rparr>;
           m \<leftarrow> ignoring (ensure_buffer_state_markers root_id m);
           m \<leftarrow> ignoring (ensure_buffer_state_markers i m);
           Some (Some i, m)
         })
   }"

text \<open>The manager starts with a scratch buffer, selected.\<close>

definition SCRATCH_NAME :: bytes where
  "SCRATCH_NAME = [0x2A, 0x73, 0x63, 0x72, 0x61, 0x74, 0x63, 0x68, 0x2A]"

definition manager_new :: "('p, 'v, 'o) buffer_defaults \<Rightarrow> ('p, 'v, 'o) buffer_manager option" where
  "manager_new d = do {
     (scratch, m) \<leftarrow> create_buffer d SCRATCH_NAME
       \<lparr>bm_buffers = lb_new, bm_texts = (\<lambda>_. None), bm_dead = (\<lambda>_. None), bm_order = [], bm_current = None, bm_next_id = 1,
        bm_next_marker_id = 1, bm_next_address = 0, bm_default_backend = GapBuffer, bm_saved_point = None\<rparr>;
     Some (note_buffer_order_head scratch (m\<lparr>bm_current := Some scratch\<rparr>))
   }"

subsection \<open>Killing buffers\<close>

definition collect_killed_buffer_ids :: "nat \<Rightarrow> ('p, 'v, 'o) buffer_manager \<Rightarrow> nat list option option" where
  "collect_killed_buffer_ids i m =
     (case bm_get i m of
        None \<Rightarrow> Some None
      | Some lv \<Rightarrow> do {
          indirect_count_checked (bm_buffers m);
          if lv_base_buffer lv = None \<and> lb_any_indirect (bm_buffers m)
          then do {
            vs \<leftarrow> lb_values (bm_buffers m);
            Some (Some (i # sort (map (\<lambda>lv. bf_id (lv_buffer lv)) (filter (\<lambda>lv. lv_base_buffer lv = Some i) vs))))
          }
          else Some (Some [i])
        })"

fun remove_buffers :: "nat list \<Rightarrow> ('p, 'v, 'o) buffer_manager \<Rightarrow> (unit option \<times> ('p, 'v, 'o) buffer_manager) option" where
  "remove_buffers [] m = Some (Some (), m)"
| "remove_buffers (i # ids) m = do {
     (removed, table) \<leftarrow> lb_remove i (bm_buffers m);
     let m = m\<lparr>bm_buffers := table\<rparr>;
     case removed of
       None \<Rightarrow> Some (None, m)
     | Some lv \<Rightarrow> remove_buffers ids (m\<lparr>bm_dead := (bm_dead m)(i \<mapsto> lv_name lv)\<rparr>)
   }"

text \<open>A text whose base buffer is killed is dropped with it, since all buffers on it are killed.\<close>

definition kill_buffer_collect ::
    "nat \<Rightarrow> ('p, 'v, 'o) buffer_manager \<Rightarrow> (nat list option \<times> ('p, 'v, 'o) buffer_manager) option" where
  "kill_buffer_collect i m = do {
     killed \<leftarrow> collect_killed_buffer_ids i m;
     case (killed, bm_get i m) of
       (Some killed, Some lv) \<Rightarrow> do {
         x \<leftarrow> get_text lv m;
         ms \<leftarrow> remove_markers_for_buffers (st_markers (tx_storage x)) (set killed) (tx_markers x);
         let m = m\<lparr>bm_texts := (bm_texts m)(text_root lv \<mapsto> x\<lparr>tx_markers := ms\<rparr>)\<rparr>;
         and_then (remove_buffers killed m) (\<lambda>_ m.
           Some (Some killed, m\<lparr>bm_texts := (\<lambda>r. if r \<in> set killed then None else bm_texts m r),
                                bm_order := filter (\<lambda>j. j \<notin> set killed) (bm_order m),
                                bm_current := (case bm_current m of Some c \<Rightarrow> if c \<in> set killed then None else Some c | None \<Rightarrow> None)\<rparr>))
       }
     | _ \<Rightarrow> Some (None, m)
   }"

definition kill_buffer :: "nat \<Rightarrow> ('p, 'v, 'o) buffer_manager \<Rightarrow> (bool \<times> ('p, 'v, 'o) buffer_manager) option" where
  "kill_buffer i m = map_option (map_prod (\<lambda>r. r \<noteq> None) id) (kill_buffer_collect i m)"

subsection \<open>The invariant\<close>

text \<open>
  The buffers on one text hold their state markers on its chain, and \<open>P\<close> says what else is true of each
  of them and of the text: outside an edit, that its point and region are a state of the text.
\<close>

definition text_inv ::
    "(nat \<Rightarrow> ('v, 'o) buffer \<Rightarrow> bool \<Rightarrow> bytes \<Rightarrow> bool) \<Rightarrow> ('p, 'v, 'o) buffer_manager \<Rightarrow> nat \<Rightarrow> (nat \<Rightarrow> nat list)
      \<Rightarrow> ('p, 'v) text_object \<Rightarrow> bool" where
  "text_inv P m r cs x \<longleftrightarrow> text_ok cs x \<and> given_out (bm_next_marker_id m) (bm_next_address m) cs x
     \<and> (\<forall>i lv. bm_get i m = Some lv \<longrightarrow> text_root lv = r \<longrightarrow> P i (lv_buffer lv) (bx_mb x) (bx_text x) \<and> holds_markers cs x (lv_buffer lv))"

definition base_ok :: "('p, 'v, 'o) buffer_manager \<Rightarrow> nat \<Rightarrow> ('v, 'o) live_buffer \<Rightarrow> bool" where
  "base_ok m i lv \<longleftrightarrow> bf_id (lv_buffer lv) = i \<and> i < bm_next_id m
     \<and> (\<forall>r. lv_base_buffer lv = Some r \<longrightarrow> (\<exists>rv. bm_get r m = Some rv \<and> lv_base_buffer rv = None))"

definition manager_inv :: "(nat \<Rightarrow> ('v, 'o) buffer \<Rightarrow> bool \<Rightarrow> bytes \<Rightarrow> bool) \<Rightarrow> ('p, 'v, 'o) buffer_manager \<Rightarrow> bool" where
  "manager_inv P m \<longleftrightarrow> lb_ok (bm_buffers m)
     \<and> (\<forall>i lv. bm_get i m = Some lv \<longrightarrow> base_ok m i lv \<and> (\<exists>x cs. bm_texts m (text_root lv) = Some x \<and> text_inv P m (text_root lv) cs x))
     \<and> distinct (bm_order m) \<and> (\<forall>i. i \<in> set (bm_order m) \<longleftrightarrow> bm_get i m \<noteq> None)
     \<and> pred_option (\<lambda>c. bm_get c m \<noteq> None) (bm_current m)"

definition on_text :: "nat \<Rightarrow> ('v, 'o) buffer \<Rightarrow> bool \<Rightarrow> bytes \<Rightarrow> bool" where
  "on_text i b mb tx \<longleftrightarrow> bf_multibyte b = mb \<and> state_ok mb tx (edit_state b)"

abbreviation manager_ok :: "('p, 'v, 'o) buffer_manager \<Rightarrow> bool" where
  "manager_ok \<equiv> manager_inv on_text"

lemma on_text_buffer: "on_text i b (bx_mb x) (bx_text x) \<longleftrightarrow> buffer_on x b"
  by (simp add: on_text_def buffer_on_def)

text \<open>The saved point plays no part in the invariant of a text.\<close>

lemma saved_point_simps [simp]:
  "text_ok cs (x\<lparr>tx_saved_point := p\<rparr>) \<longleftrightarrow> text_ok cs x" "given_out mid ptr cs (x\<lparr>tx_saved_point := p\<rparr>) \<longleftrightarrow> given_out mid ptr cs x"
  "holds_markers cs (x\<lparr>tx_saved_point := p\<rparr>) b \<longleftrightarrow> holds_markers cs x b" "buffer_on (x\<lparr>tx_saved_point := p\<rparr>) b \<longleftrightarrow> buffer_on x b"
  "text_inv P m r cs (x\<lparr>tx_saved_point := p\<rparr>) \<longleftrightarrow> text_inv P m r cs x"
  by (simp_all add: text_ok_def given_out_def holds_markers_def buffer_on_def text_inv_def)

lemma manager_invD:
  assumes "manager_inv P m" "bm_get i m = Some lv"
  obtains x cs where "bm_texts m (text_root lv) = Some x" "get_text lv m = Some (x\<lparr>tx_saved_point := bm_saved_point m\<rparr>)"
    "text_inv P m (text_root lv) cs x" "base_ok m i lv" "lb_ok (bm_buffers m)"
  using assms by (fastforce simp: manager_inv_def get_text_def)

lemma text_invD:
  assumes "text_inv P m r cs x" "bm_get i m = Some lv" "text_root lv = r"
  shows "text_ok cs x" "given_out (bm_next_marker_id m) (bm_next_address m) cs x" "P i (lv_buffer lv) (bx_mb x) (bx_text x)" "holds_markers cs x (lv_buffer lv)"
  using assms by (auto simp: text_inv_def)

text \<open>Writing a buffer back.\<close>

lemma lv_update_simps [simp]:
  "lv_base_buffer (lv\<lparr>lv_buffer := b\<rparr>) = lv_base_buffer lv" "lv_buffer (lv\<lparr>lv_buffer := b\<rparr>) = b"
  "is_indirect (lv\<lparr>lv_buffer := b\<rparr>) = is_indirect lv" "lv_name (lv\<lparr>lv_buffer := b\<rparr>) = lv_name lv"
  by (simp_all add: is_indirect_def)

lemma text_root_update: "bf_id b = bf_id (lv_buffer lv) \<Longrightarrow> text_root (lv\<lparr>lv_buffer := b\<rparr>) = text_root lv"
  by (simp add: text_root_def split: option.splits)

lemma put_simps [simp]:
  "bm_texts (put_buffer i lv b x m) = (bm_texts m)(text_root lv \<mapsto> x)" "bm_order (put_buffer i lv b x m) = bm_order m"
  "bm_current (put_buffer i lv b x m) = bm_current m" "bm_next_id (put_buffer i lv b x m) = bm_next_id m"
  "bm_next_marker_id (put_buffer i lv b x m) = bm_next_marker_id m" "bm_next_address (put_buffer i lv b x m) = bm_next_address m"
  "bm_saved_point (put_buffer i lv b x m) = tx_saved_point x" "bm_dead (put_buffer i lv b x m) = bm_dead m"
  "bm_default_backend (put_buffer i lv b x m) = bm_default_backend m"
  by (simp_all add: put_buffer_def)

lemma put_get:
  assumes "lb_ok (bm_buffers m)" "bm_get i m = Some lv"
  shows "lb_ok (bm_buffers (put_buffer i lv b x m))"
    "bm_get j (put_buffer i lv b x m) = (if j = i then Some (lv\<lparr>lv_buffer := b\<rparr>) else bm_get j m)"
  using lb_set_ok [OF assms, of "lv\<lparr>lv_buffer := b\<rparr>"] by (simp_all add: put_buffer_def)

text \<open>
  Everything at once: the counters may have moved on, the text of the root of \<open>i\<close> is new, and what holds
  of a buffer on it is \<open>Q\<close> instead of \<open>P\<close>.
\<close>

lemma put_inv_counters:
  assumes m: "manager_inv P m" "bm_get i m = Some lv" and t: "text_inv P m (text_root lv) cs x"
    and x': "text_ok cs' x'" "given_out mid ptr cs' x'" and later: "bm_next_marker_id m \<le> mid" "bm_next_address m \<le> ptr"
    and b: "bf_id b = i" "Q i b (bx_mb x') (bx_text x')" "holds_markers cs' x' b"
    and others: "\<And>j jv. j \<noteq> i \<Longrightarrow> bm_get j m = Some jv \<Longrightarrow> text_root jv = text_root lv \<Longrightarrow>
      holds_markers cs x (lv_buffer jv) \<Longrightarrow> P j (lv_buffer jv) (bx_mb x) (bx_text x) \<Longrightarrow>
      holds_markers cs' x' (lv_buffer jv) \<and> Q j (lv_buffer jv) (bx_mb x') (bx_text x')"
    and elsewhere: "\<And>j jv mb tx. bm_get j m = Some jv \<Longrightarrow> text_root jv \<noteq> text_root lv \<Longrightarrow> P j (lv_buffer jv) mb tx \<Longrightarrow> Q j (lv_buffer jv) mb tx"
  shows "manager_inv Q ((put_buffer i lv b x' m)\<lparr>bm_next_marker_id := mid, bm_next_address := ptr\<rparr>)"
proof -
  obtain y csi where i: "base_ok m i lv" "lb_ok (bm_buffers m)" "bm_texts m (text_root lv) = Some y" by (rule manager_invD [OF m])
  let ?m = "(put_buffer i lv b x' m)\<lparr>bm_next_marker_id := mid, bm_next_address := ptr\<rparr>"
  have root: "text_root (lv\<lparr>lv_buffer := b\<rparr>) = text_root lv" using i(1) b(1) by (intro text_root_update) (simp add: base_ok_def)
  have get: "bm_get j ?m = (if j = i then Some (lv\<lparr>lv_buffer := b\<rparr>) else bm_get j m)" for j using put_get(2) [OF i(2) m(2)] by simp
  have base: "base_ok ?m j jv'" if j: "bm_get j ?m = Some jv'" for j jv'
  proof -
    obtain jv where jv: "bm_get j m = Some jv" "lv_base_buffer jv' = lv_base_buffer jv" "bf_id (lv_buffer jv') = j"
    proof (cases "j = i")
      case True
      then show thesis using that [of lv] j m(2) b(1) get by auto
    next
      case False
      then have "bm_get j m = Some jv'" using j get by auto
      moreover from this have "base_ok m j jv'" using m(1) by (auto simp: manager_inv_def)
      ultimately show thesis using that [of jv'] by (simp add: base_ok_def)
    qed
    have "base_ok m j jv" using m(1) jv(1) by (auto simp: manager_inv_def)
    moreover have "\<exists>rv'. bm_get r ?m = Some rv' \<and> lv_base_buffer rv' = None" if r: "bm_get r m = Some rv" "lv_base_buffer rv = None" for r rv
      using r m(2) get [of r] by (cases "r = i") auto
    ultimately show ?thesis unfolding base_ok_def using jv(2,3) by (auto simp del: put_simps(4)) (simp add: put_simps(4))
  qed
  have texts: "\<exists>x1 cs1. bm_texts ?m (text_root jv') = Some x1 \<and> text_inv Q ?m (text_root jv') cs1 x1" if j: "bm_get j ?m = Some jv'" for j jv'
  proof (cases "text_root jv' = text_root lv")
    case True
    have "Q k (lv_buffer kv) (bx_mb x') (bx_text x') \<and> holds_markers cs' x' (lv_buffer kv)"
      if k: "bm_get k ?m = Some kv" "text_root kv = text_root lv" for k kv
    proof (cases "k = i")
      case False
      then have k': "bm_get k m = Some kv" using k(1) get by simp
      show ?thesis using others [OF False k' k(2)] text_invD(3,4) [OF t k' k(2)] by blast
    qed (use k(1) get b in auto)
    then have "text_inv Q ?m (text_root lv) cs' x'" using x' by (simp add: text_inv_def)
    then show ?thesis using True by auto
  next
    case False
    then have jv: "bm_get j m = Some jv'" using j get [of j] root by (auto split: if_splits)
    obtain y cs1 where y: "bm_texts m (text_root jv') = Some y" "text_inv P m (text_root jv') cs1 y" by (rule manager_invD [OF m(1) jv])
    have "Q k (lv_buffer kv) (bx_mb y) (bx_text y) \<and> holds_markers cs1 y (lv_buffer kv)"
      if k: "bm_get k ?m = Some kv" "text_root kv = text_root jv'" for k kv
    proof -
      have k': "bm_get k m = Some kv" using k get [of k] root False by (auto split: if_splits)
      show ?thesis using text_invD(3,4) [OF y(2) k' k(2)] elsewhere [OF k'] k(2) False by simp
    qed
    moreover have "text_ok cs1 y" "given_out (bm_next_marker_id m) (bm_next_address m) cs1 y" using y(2) by (simp_all add: text_inv_def)
    ultimately have "text_inv Q ?m (text_root jv') cs1 y"
      using given_out_mono [OF _ later] by (simp add: text_inv_def)
    then show ?thesis using False y(1) by auto
  qed
  have live: "bm_get j ?m \<noteq> None \<longleftrightarrow> bm_get j m \<noteq> None" for j using get m(2) by simp
  show ?thesis
    unfolding manager_inv_def
  proof (intro conjI allI impI)
    show "lb_ok (bm_buffers ?m)" using put_get(1) [OF i(2) m(2)] by simp
    show "distinct (bm_order ?m)" using m(1) by (simp add: manager_inv_def)
    show "j \<in> set (bm_order ?m) \<longleftrightarrow> bm_get j ?m \<noteq> None" for j unfolding live using m(1) by (simp add: manager_inv_def)
    show "pred_option (\<lambda>c. bm_get c ?m \<noteq> None) (bm_current ?m)" unfolding live using m(1) by (simp add: manager_inv_def)
  qed (use base texts in blast)+
qed


lemma manager_kept_text:
  assumes m: "manager_inv P m" "bm_get i m = Some lv" and t: "text_inv P m (text_root lv) cs x"
    and x': "rechained cs x cs' x'" "bx_text x' = bx_text x" "bx_mb x' = bx_mb x"
    and b: "P i b (bx_mb x) (bx_text x)" "bf_id b = i" "bf_state_markers b = bf_state_markers (lv_buffer lv)"
  shows "manager_inv P (put_buffer i lv b x' m)"
proof -
  note ti = text_invD [OF t m(2) refl]
  have held: "holds_markers cs' x' b"
  proof -
    obtain y csy where "base_ok m i lv" by (rule manager_invD [OF m])
    then have "holds_markers cs x b" using ti(4) b(2,3) by (simp add: holds_markers_def base_ok_def)
    then show ?thesis by (rule rechained_holds [OF x'(1)])
  qed
  have "manager_inv P ((put_buffer i lv b x' m)\<lparr>bm_next_marker_id := bm_next_marker_id m, bm_next_address := bm_next_address m\<rparr>)"
  proof (rule put_inv_counters [OF m t _ _ order_refl order_refl b(2) _ held])
    show "text_ok cs' x'" using x'(1) by (simp add: rechained_def)
    show "given_out (bm_next_marker_id m) (bm_next_address m) cs' x'" by (rule rechained_given_out [OF x'(1) ti(2)])
    show "P i b (bx_mb x') (bx_text x')" using b(1) x'(2,3) by simp
  qed (use rechained_holds [OF x'(1)] x'(2,3) in auto)
  moreover have "(put_buffer i lv b x' m)\<lparr>bm_next_marker_id := bm_next_marker_id m, bm_next_address := bm_next_address m\<rparr> = put_buffer i lv b x' m"
    by (simp add: put_buffer_def)
  ultimately show ?thesis by simp
qed

subsection \<open>Operations that leave the text alone\<close>

text \<open>The undo list of a text goes on restoring whatever it restored.\<close>

definition follows_text :: "('p, 'v) text_object \<Rightarrow> ('p, 'v) text_object \<Rightarrow> bool" where
  "follows_text x x' \<longleftrightarrow> bx_mb x' = bx_mb x \<and> undo_follows x x'
     \<and> undo_list_is_disabled (tx_undo_list x') = undo_list_is_disabled (tx_undo_list x)"

lemma follows_text_refl [simp]: "follows_text x x"
  by (simp add: follows_text_def undo_follows_def)

lemma follows_text_trans: "follows_text x y \<Longrightarrow> follows_text y z \<Longrightarrow> follows_text x z"
  by (simp add: follows_text_def undo_follows_def)

lemma follows_saved_point [simp]:
  "follows_text (x\<lparr>tx_saved_point := p\<rparr>) y \<longleftrightarrow> follows_text x y" "follows_text x (y\<lparr>tx_saved_point := p\<rparr>) \<longleftrightarrow> follows_text x y"
  by (simp_all add: follows_text_def undo_follows_def)

lemma follows_same:
  "bx_text x' = bx_text x \<Longrightarrow> bx_mb x' = bx_mb x \<Longrightarrow> tx_undo_list x' = tx_undo_list x \<Longrightarrow> follows_text x x'"
  by (simp add: follows_text_def undo_follows_def)

definition follows :: "('p, 'v, 'o) buffer_manager \<Rightarrow> ('p, 'v, 'o) buffer_manager \<Rightarrow> bool" where
  "follows m m' \<longleftrightarrow> bm_next_id m \<le> bm_next_id m'
     \<and> (\<forall>r x'. r < bm_next_id m \<longrightarrow> bm_texts m' r = Some x' \<longrightarrow> (\<exists>x. bm_texts m r = Some x \<and> follows_text x x'))"

lemma follows_refl [simp]: "follows m m"
  by (simp add: follows_def)

lemma follows_trans: "follows m m1 \<Longrightarrow> follows m1 m2 \<Longrightarrow> follows m m2"
  unfolding follows_def by (meson follows_text_trans order_less_le_trans order_trans)

lemma follows_frame:
  "bm_next_id m \<le> bm_next_id m' \<Longrightarrow> bm_texts m' = bm_texts m \<Longrightarrow> follows m m'"
  by (simp add: follows_def)

definition lv_ident :: "('v, 'o) live_buffer \<Rightarrow> nat \<times> nat option \<times> bytes" where
  "lv_ident lv = (bf_id (lv_buffer lv), lv_base_buffer lv, lv_name lv)"

definition same_frame :: "('p, 'v, 'o) buffer_manager \<Rightarrow> ('p, 'v, 'o) buffer_manager \<Rightarrow> bool" where
  "same_frame m m' \<longleftrightarrow> bm_order m' = bm_order m \<and> bm_current m' = bm_current m \<and> bm_next_id m' = bm_next_id m
     \<and> bm_dead m' = bm_dead m \<and> bm_default_backend m' = bm_default_backend m
     \<and> (\<forall>j. map_option lv_ident (bm_get j m') = map_option lv_ident (bm_get j m))"

lemma same_frame_refl [simp]: "same_frame m m"
  by (simp add: same_frame_def)

lemma same_frame_trans: "same_frame m m1 \<Longrightarrow> same_frame m1 m2 \<Longrightarrow> same_frame m m2"
  by (simp add: same_frame_def)

lemma same_frame_live: "same_frame m m' \<Longrightarrow> bm_get j m' = None \<longleftrightarrow> bm_get j m = None"
  unfolding same_frame_def by (metis map_option_is_None)

lemma put_frame:
  assumes "manager_inv P m" "bm_get i m = Some lv" "bf_id b = bf_id (lv_buffer lv)"
  shows "same_frame m (put_buffer i lv b x m)"
proof -
  have "lb_ok (bm_buffers m)" using assms(1) by (simp add: manager_inv_def)
  then show ?thesis using put_get(2) [OF _ assms(2)] assms(2,3) by (simp add: same_frame_def lv_ident_def)
qed

lemma put_follows:
  assumes "bm_texts m (text_root lv) = Some x" "follows_text x x'"
  shows "follows m (put_buffer i lv b x' m)"
  using assms by (simp add: follows_def)

definition quiet :: "(nat \<Rightarrow> nat list) \<Rightarrow> ('v, 'o) buffer \<Rightarrow> ('p, 'v) text_object \<Rightarrow> ('v, 'o) buffer \<Rightarrow> ('p, 'v) text_object \<Rightarrow> bool" where
  "quiet cs b x b' x' \<longleftrightarrow> (\<exists>cs'. rechained cs x cs' x') \<and> bx_text x' = bx_text x \<and> buffer_on x' b' \<and> kept b b' \<and> follows_text x x'"

lemma quiet_recached:
  assumes "text_ok cs x" "recached x x'" "buffer_on x' b'" "same_buffer b b'"
  shows "quiet cs b x b' x'"
  using assms recached_rechained [OF assms(2,1)] follows_same [of x' x]
  by (auto simp: quiet_def recached_keeps(1,2,6) [OF assms(2)] step_ok_kept)

definition steps :: "('p, 'v, 'o) buffer_manager \<Rightarrow> ('p, 'v, 'o) buffer_manager \<Rightarrow> bool" where
  "steps m m' \<longleftrightarrow> manager_ok m' \<and> follows m m' \<and> same_frame m m' \<and> bm_next_marker_id m' = bm_next_marker_id m
     \<and> (\<forall>j. buffer_has_state_markers j m' \<longleftrightarrow> buffer_has_state_markers j m)"

lemma steps_trans: "steps m m1 \<Longrightarrow> steps m1 m2 \<Longrightarrow> steps m m2"
  unfolding steps_def using follows_trans same_frame_trans by fastforce

lemma steps_refl: "manager_ok m \<Longrightarrow> steps m m"
  by (simp add: steps_def)

lemma buffer_of_manager:
  assumes "manager_ok m" "bm_get i m = Some lv"
  obtains x cs where "bm_texts m (text_root lv) = Some x" "text_inv on_text m (text_root lv) cs x" "bf_id (lv_buffer lv) = i"
    "get_text lv m = Some (x\<lparr>tx_saved_point := bm_saved_point m\<rparr>)" "text_ok cs x" "buffer_on x (lv_buffer lv)"
    "holds_markers cs x (lv_buffer lv)" "given_out (bm_next_marker_id m) (bm_next_address m) cs x"
proof -
  obtain x cs where x: "bm_texts m (text_root lv) = Some x" "get_text lv m = Some (x\<lparr>tx_saved_point := bm_saved_point m\<rparr>)"
      "text_inv on_text m (text_root lv) cs x" "base_ok m i lv"
    by (rule manager_invD [OF assms])
  note t = text_invD [OF x(3) assms(2) refl]
  show thesis
    by (rule that [OF x(1,3) _ x(2) t(1) _ t(4,2)]) (use x(4) t(3) in \<open>simp_all add: base_ok_def on_text_buffer\<close>)
qed

lemma put_quiet:
  assumes m: "manager_ok m" "bm_get i m = Some lv" and t: "bm_texts m (text_root lv) = Some x" "text_inv on_text m (text_root lv) cs x"
    and q: "quiet cs (lv_buffer lv) (x\<lparr>tx_saved_point := p\<rparr>) b x'"
  shows "steps m (put_buffer i lv b x' m)"
proof -
  obtain y csy where id: "bf_id (lv_buffer lv) = i" by (rule buffer_of_manager [OF m])
  obtain cs' where q': "rechained cs x cs' x'" "bx_text x' = bx_text x" "bx_mb x' = bx_mb x" "buffer_on x' b" "follows_text x x'"
      "bf_id b = i" "bf_state_markers b = bf_state_markers (lv_buffer lv)"
    using q id by (auto simp: quiet_def kept_def follows_text_def rechained_def undo_follows_def)
  have "on_text i b (bx_mb x) (bx_text x)" using q'(2-4) by (simp add: on_text_def buffer_on_def)
  then have "manager_ok (put_buffer i lv b x' m)" by (rule manager_kept_text [OF m t(2) q'(1-3) _ q'(6,7)])
  moreover have "buffer_has_state_markers j (put_buffer i lv b x' m) \<longleftrightarrow> buffer_has_state_markers j m" for j
    using put_get(2) [OF _ m(2)] m q'(7) by (simp add: buffer_has_state_markers_def manager_inv_def)
  ultimately show ?thesis
    using put_follows [OF t(1) q'(5)] put_frame [OF m] q'(6) id by (simp add: steps_def)
qed

text \<open>An operation on a live buffer that is quiet there is quiet for the manager; a dead buffer is left alone.\<close>

lemma on_buffer_quiet:
  assumes m: "manager_ok m"
    and f: "\<And>lv x cs. bm_get i m = Some lv \<Longrightarrow> get_text lv m = Some x \<Longrightarrow> text_ok cs x \<Longrightarrow> buffer_on x (lv_buffer lv) \<Longrightarrow>
      holds_markers cs x (lv_buffer lv) \<Longrightarrow> \<exists>a b' x'. f (lv_buffer lv) x = Some (a, b', x') \<and> quiet cs (lv_buffer lv) x b' x'"
  shows "\<exists>a m'. on_buffer i f m = Some (a, m') \<and> steps m m' \<and> (a = None \<longleftrightarrow> bm_get i m = None)"
proof (cases "bm_get i m")
  case None
  then show ?thesis using steps_refl [OF m] by (simp add: on_buffer_def)
next
  case (Some lv)
  obtain x cs where x: "bm_texts m (text_root lv) = Some x" "text_inv on_text m (text_root lv) cs x"
      "get_text lv m = Some (x\<lparr>tx_saved_point := bm_saved_point m\<rparr>)" "text_ok cs x" "buffer_on x (lv_buffer lv)" "holds_markers cs x (lv_buffer lv)"
    by (rule buffer_of_manager [OF m Some])
  obtain a b' x' where f': "f (lv_buffer lv) (x\<lparr>tx_saved_point := bm_saved_point m\<rparr>) = Some (a, b', x')"
      "quiet cs (lv_buffer lv) (x\<lparr>tx_saved_point := bm_saved_point m\<rparr>) b' x'"
    using f [OF Some x(3), of cs] x(4-6) by auto
  then show ?thesis using Some x(3) put_quiet [OF m Some x(1,2) f'(2)] by (simp add: on_buffer_def)
qed

lemma and_then_steps:
  assumes r: "\<exists>a m1. r = Some (a, m1) \<and> steps m m1" and f: "\<And>a m1. steps m m1 \<Longrightarrow> r = Some (Some a, m1) \<Longrightarrow> \<exists>c m2. f a m1 = Some (c, m2) \<and> steps m1 m2"
  shows "\<exists>c m2. and_then r f = Some (c, m2) \<and> steps m m2"
proof -
  obtain a m1 where r1: "r = Some (a, m1)" "steps m m1" using r by blast
  show ?thesis
  proof (cases a)
    case (Some a)
    then show ?thesis using f [OF r1(2)] r1 steps_trans [OF r1(2)] by (fastforce simp: and_then_def)
  qed (use r1 in \<open>simp add: and_then_def\<close>)
qed

lemma record_quiet:
  assumes "text_ok cs x" "buffer_on x b" "holds_markers cs x b"
  shows "\<exists>x'. record_state_markers b x = Some x' \<and> quiet cs b x b x'"
proof -
  obtain cs' x' where r: "record_state_markers b x = Some x'" "rechained cs x cs' x'" "remarked x x'" "markers_at_state b x'"
    by (rule record_sound [OF assms]) (rule that)
  have "follows_text x x'" by (rule follows_same) (simp_all add: remarked_keeps [OF r(3)])
  then show ?thesis using r(1,2) assms(2) by (auto simp: quiet_def remarked_keeps [OF r(3)])
qed

lemma record_steps:
  assumes "manager_ok m"
  shows "\<exists>a m'. record_buffer_state_markers i m = Some (a, m') \<and> steps m m'"
proof (cases "buffer_has_state_markers i m")
  case False
  then show ?thesis using steps_refl [OF assms] by (simp add: record_buffer_state_markers_def)
next
  case True
  have "\<exists>a m'. on_buffer i (\<lambda>b x. do { x \<leftarrow> record_state_markers b x; Some ((), b, x) }) m = Some (a, m') \<and> steps m m' \<and> (a = None \<longleftrightarrow> bm_get i m = None)"
    by (rule on_buffer_quiet [OF assms]) (use record_quiet in fastforce)
  then show ?thesis using True by (auto simp: record_buffer_state_markers_def)
qed

lemma fetch_steps:
  assumes m: "manager_ok m"
  shows "\<exists>a m'. mg_fetch_buffer_state_markers i m = Some (a, m') \<and> steps m m' \<and> (a = None \<longleftrightarrow> \<not> buffer_has_state_markers i m)"
proof (cases "bm_get i m")
  case None
  then show ?thesis using steps_refl [OF m] by (simp add: mg_fetch_buffer_state_markers_def buffer_has_state_markers_def)
next
  case (Some lv)
  obtain x cs where x: "bm_texts m (text_root lv) = Some x" "text_inv on_text m (text_root lv) cs x"
      "get_text lv m = Some (x\<lparr>tx_saved_point := bm_saved_point m\<rparr>)" "text_ok cs x" "buffer_on x (lv_buffer lv)" "holds_markers cs x (lv_buffer lv)"
    by (rule buffer_of_manager [OF m Some])
  let ?x = "x\<lparr>tx_saved_point := bm_saved_point m\<rparr>"
  have x': "text_ok cs ?x" "buffer_on ?x (lv_buffer lv)" "holds_markers cs ?x (lv_buffer lv)" using x(4-6) by simp_all
  show ?thesis
  proof (cases "bf_state_markers (lv_buffer lv)")
    case None
    then show ?thesis using Some x(3) steps_refl [OF m]
      by (simp add: mg_fetch_buffer_state_markers_def fetch_buffer_state_markers_def buffer_has_state_markers_def)
  next
    case (Some ids)
    obtain b' y where "fetch_buffer_state_markers (lv_buffer lv) ?x = Some (Some (b', y))" "recached ?x y" "buffer_on y b'" "same_buffer (lv_buffer lv) b'"
      by (rule fetch_stale [OF x'(1) buffer_onD(1) [OF x'(2)] x'(3) Some])
    then show ?thesis
      using Some \<open>bm_get i m = Some lv\<close> x(3) put_quiet [OF m \<open>bm_get i m = Some lv\<close> x(1,2) quiet_recached [OF x'(1)]]
      by (fastforce simp: mg_fetch_buffer_state_markers_def buffer_has_state_markers_def)
  qed
qed

lemma ignoring_steps:
  assumes "\<exists>a m'. r = Some (a, m') \<and> steps m m'"
  shows "\<exists>m'. ignoring r = Some m' \<and> steps m m'"
  using assms by (auto simp: ignoring_def)

lemma then_record_steps:
  assumes "\<exists>a m'. r = Some (a, m') \<and> steps m m'"
  shows "\<exists>a m'. then_record i r = Some (a, m') \<and> steps m m'"
  unfolding then_record_def
proof (rule and_then_steps [OF assms])
  fix a m1
  assume "steps m m1"
  then have "manager_ok m1" by (simp add: steps_def)
  from ignoring_steps [OF record_steps [OF this, of i]]
  show "\<exists>c m2. do { m \<leftarrow> ignoring (record_buffer_state_markers i m1); Some (Some a, m) } = Some (c, m2) \<and> steps m1 m2" by auto
qed

text \<open>A position of the text that a buffer is on.\<close>

definition buffer_position :: "nat \<Rightarrow> emacs_byte_pos \<Rightarrow> ('p, 'v, 'o) buffer_manager \<Rightarrow> bool" where
  "buffer_position i k m \<longleftrightarrow> (case bm_get i m of None \<Rightarrow> True | Some lv \<Rightarrow>
     (case bm_texts m (text_root lv) of None \<Rightarrow> True | Some x \<Rightarrow> is_emacs_char_boundary (bx_text x) k (bx_mb x)))"

lemma buffer_positionD:
  "buffer_position i k m \<Longrightarrow> bm_get i m = Some lv \<Longrightarrow> get_text lv m = Some x \<Longrightarrow> is_emacs_char_boundary (bx_text x) k (bx_mb x)"
  by (auto simp: buffer_position_def get_text_def)

lemma goto_steps:
  assumes m: "manager_ok m" and k: "buffer_position i k m"
  shows "\<exists>a m'. goto_buffer_emacs_byte_pos i k m = Some (a, m') \<and> steps m m'"
proof -
  have "\<exists>a m'. on_buffer i (\<lambda>b x. do { (b, x) \<leftarrow> goto_emacs_byte_pos k b x; Some (ta_byte (bf_point b), b, x) }) m = Some (a, m')
      \<and> steps m m' \<and> (a = None \<longleftrightarrow> bm_get i m = None)"
  proof (rule on_buffer_quiet [OF m])
    fix lv x cs
    assume lv: "bm_get i m = Some lv" "get_text lv m = Some x" and ok: "text_ok cs x" "buffer_on x (lv_buffer lv)"
    obtain a x' where "goto_emacs_byte_pos k (lv_buffer lv) x = Some ((lv_buffer lv)\<lparr>bf_point := a\<rparr>, x')" "recached x x'"
        "buffer_on x' ((lv_buffer lv)\<lparr>bf_point := a\<rparr>)"
      using goto_on [OF ok buffer_positionD [OF k lv]] by blast
    then show "\<exists>a b' x'. do { (b, x) \<leftarrow> goto_emacs_byte_pos k (lv_buffer lv) x; Some (ta_byte (bf_point b), b, x) } = Some (a, b', x')
        \<and> quiet cs (lv_buffer lv) x b' x'"
      using quiet_recached [OF ok(1)] by fastforce
  qed
  then show ?thesis unfolding goto_buffer_emacs_byte_pos_def by (intro then_record_steps) blast
qed

text \<open>A saved point of the text that a buffer is on.\<close>

definition buffer_anchor :: "nat \<Rightarrow> text_position_anchor \<Rightarrow> ('p, 'v, 'o) buffer_manager \<Rightarrow> bool" where
  "buffer_anchor i p m \<longleftrightarrow> (case bm_get i m of None \<Rightarrow> True | Some lv \<Rightarrow>
     (case bm_texts m (text_root lv) of None \<Rightarrow> True | Some x \<Rightarrow> valid_anchor (bx_mb x) (bx_text x) p))"

lemma set_point_steps:
  assumes m: "manager_ok m" and p: "buffer_anchor i p m"
  shows "\<exists>a m'. set_buffer_point_anchor i p m = Some (a, m') \<and> steps m m'"
proof -
  have "\<exists>a m'. on_buffer i (\<lambda>b x. do { (b, x) \<leftarrow> set_point_anchor p b x; Some (bf_point b, b, x) }) m = Some (a, m')
      \<and> steps m m' \<and> (a = None \<longleftrightarrow> bm_get i m = None)"
  proof (rule on_buffer_quiet [OF m])
    fix lv x cs
    assume lv: "bm_get i m = Some lv" "get_text lv m = Some x" and ok: "text_ok cs x" "buffer_on x (lv_buffer lv)"
    have v: "valid_anchor (bx_mb x) (bx_text x) p" using p lv by (auto simp: buffer_anchor_def get_text_def)
    obtain a x' where "set_point_anchor p (lv_buffer lv) x = Some ((lv_buffer lv)\<lparr>bf_point := a\<rparr>, x')" "recached x x'"
        "buffer_on x' ((lv_buffer lv)\<lparr>bf_point := a\<rparr>)"
      using set_point_on [OF ok v] by blast
    then show "\<exists>a b' x'. do { (b, x) \<leftarrow> set_point_anchor p (lv_buffer lv) x; Some (bf_point b, b, x) } = Some (a, b', x')
        \<and> quiet cs (lv_buffer lv) x b' x'"
      using quiet_recached [OF ok(1)] by fastforce
  qed
  then show ?thesis unfolding set_buffer_point_anchor_def by (intro then_record_steps) blast
qed

lemma narrow_steps:
  assumes m: "manager_ok m" and r: "buffer_position i (br_start r) m" "buffer_position i (br_end r) m"
  shows "\<exists>a m'. narrow_buffer_to_emacs_byte_range i r m = Some (a, m') \<and> steps m m'"
proof -
  have "\<exists>a m'. on_buffer i (\<lambda>b x. do { (b, x) \<leftarrow> narrow_to_emacs_byte_range r b x; Some ((), b, x) }) m = Some (a, m')
      \<and> steps m m' \<and> (a = None \<longleftrightarrow> bm_get i m = None)"
  proof (rule on_buffer_quiet [OF m])
    fix lv x cs
    assume lv: "bm_get i m = Some lv" "get_text lv m = Some x" and ok: "text_ok cs x" "buffer_on x (lv_buffer lv)"
    obtain tx b' x' where "narrow_to_emacs_byte_range r (lv_buffer lv) x = Some (b', x')" "recached x x'" "buffer_on x' b'" "same_buffer (lv_buffer lv) b'"
    proof -
      have rb: "is_emacs_char_boundary (bx_text x) (br_start r) (bx_mb x)" "is_emacs_char_boundary (bx_text x) (br_end r) (bx_mb x)"
        by (rule buffer_positionD [OF r(1) lv] buffer_positionD [OF r(2) lv])+
      have "min (br_start r) (length (bx_text x)) = br_start r" "min (br_end r) (length (bx_text x)) = br_end r"
        using boundary_le [OF rb(1)] boundary_le [OF rb(2)] by simp_all
      then show thesis
        using narrow_sound [OF ok(1) buffer_onD(1) [OF ok(2)] state_boundaries(1) [OF ok(2)], of r] rb that by auto
    qed
    then show "\<exists>a b' x'. do { (b, x) \<leftarrow> narrow_to_emacs_byte_range r (lv_buffer lv) x; Some ((), b, x) } = Some (a, b', x')
        \<and> quiet cs (lv_buffer lv) x b' x'"
      using quiet_recached [OF ok(1)] by fastforce
  qed
  then show ?thesis unfolding narrow_buffer_to_emacs_byte_range_def by (intro then_record_steps) blast
qed

lemma restriction_narrows: "restore_buffer_emacs_byte_restriction = narrow_buffer_to_emacs_byte_range"
  by (simp add: restore_buffer_emacs_byte_restriction_def narrow_buffer_to_emacs_byte_range_def fun_eq_iff)

lemma widen_steps:
  assumes m: "manager_ok m"
  shows "\<exists>a m'. widen_buffer_fully i m = Some (a, m') \<and> steps m m'"
proof (cases "bm_get i m")
  case None
  then show ?thesis using steps_refl [OF m] by (simp add: widen_buffer_fully_def restriction_narrows full_buffer_emacs_byte_range_def)
next
  case (Some lv)
  obtain x cs where x: "bm_texts m (text_root lv) = Some x" "text_inv on_text m (text_root lv) cs x"
      "get_text lv m = Some (x\<lparr>tx_saved_point := bm_saved_point m\<rparr>)" "text_ok cs x"
    by (rule buffer_of_manager [OF m Some])
  have total: "total_emacs_byte_end_pos (x\<lparr>tx_saved_point := bm_saved_point m\<rparr>) = length (bx_text x)"
    using text_okD(4) [of cs "x\<lparr>tx_saved_point := bm_saved_point m\<rparr>"] x(4) by simp
  let ?r = "byte_range_from_start_len 0 (length (bx_text x))"
  have "buffer_position i (br_start ?r) m" "buffer_position i (br_end ?r) m"
    using Some x(1) by (simp_all add: buffer_position_def byte_range_from_start_len_def add_len_def)
  then show ?thesis
    using narrow_steps [OF m, of i ?r] Some x(3) total by (auto simp: widen_buffer_fully_def restriction_narrows full_buffer_emacs_byte_range_def)
qed

lemma boundary_steps:
  assumes m: "manager_ok m"
  shows "\<exists>a m'. add_undo_boundary i m = Some (a, m') \<and> steps m m'" "\<exists>a m'. record_undo_point_before_command i m = Some (a, m') \<and> steps m m'"
proof -
  let ?save = "\<lambda>b. save_point_before_command i (ta_char (bf_point b))"
  have q1: "quiet cs b x b (?save b (x\<lparr>tx_undo_list := undo_list_boundary (tx_undo_list x)\<rparr>))" if "text_ok cs x" "buffer_on x b" for cs and b :: "('v, 'o) buffer" and x :: "('p, 'v) text_object"
    using that other_records_restore(5) by (auto simp: quiet_def rechained_def save_point_before_command_def follows_text_def undo_follows_def buffer_on_def text_ok_def)
  have q2: "quiet cs b x b (?save b x)" if "text_ok cs x" "buffer_on x b" for cs and b :: "('v, 'o) buffer" and x :: "('p, 'v) text_object"
    using that by (auto simp: quiet_def rechained_def save_point_before_command_def follows_text_def undo_follows_def buffer_on_def text_ok_def)
  have q3: "quiet cs b x b x" if "text_ok cs x" "buffer_on x b" for cs and b :: "('v, 'o) buffer" and x :: "('p, 'v) text_object"
    using that rechained_refl [OF that(1)] by (auto simp: quiet_def)
  have "\<exists>a m'. add_undo_boundary i m = Some (a, m') \<and> steps m m' \<and> (a = None \<longleftrightarrow> bm_get i m = None)"
    unfolding add_undo_boundary_def by (rule on_buffer_quiet [OF m]) (use q1 q3 in auto)
  then show "\<exists>a m'. add_undo_boundary i m = Some (a, m') \<and> steps m m'" by blast
  have "\<exists>a m'. record_undo_point_before_command i m = Some (a, m') \<and> steps m m' \<and> (a = None \<longleftrightarrow> bm_get i m = None)"
    unfolding record_undo_point_before_command_def by (rule on_buffer_quiet [OF m]) (use q2 in auto)
  then show "\<exists>a m'. record_undo_point_before_command i m = Some (a, m') \<and> steps m m'" by blast
qed

subsection \<open>Changes of the list and of the current buffer\<close>

text \<open>The laws a change of the list or of the selection must keep.\<close>

lemma text_inv_select [simp]:
  "text_inv P (m\<lparr>bm_order := ord\<rparr>) r cs x = text_inv P m r cs x" "text_inv P (m\<lparr>bm_current := cur\<rparr>) r cs x = text_inv P m r cs x"
  "base_ok (m\<lparr>bm_order := ord\<rparr>) i lv = base_ok m i lv" "base_ok (m\<lparr>bm_current := cur\<rparr>) i lv = base_ok m i lv"
  by (simp_all add: text_inv_def base_ok_def)

lemma manager_reorder:
  "manager_inv P m \<Longrightarrow> distinct ord \<Longrightarrow> set ord = set (bm_order m) \<Longrightarrow> manager_inv P (m\<lparr>bm_order := ord\<rparr>)"
  by (simp add: manager_inv_def)

lemma manager_select:
  "manager_inv P m \<Longrightarrow> pred_option (\<lambda>c. bm_get c m \<noteq> None) cur \<Longrightarrow> manager_inv P (m\<lparr>bm_current := cur\<rparr>)"
  by (simp add: manager_inv_def)

lemma order_ok:
  assumes "manager_inv P m"
  shows "distinct (bm_order m)" "i \<in> set (bm_order m) \<longleftrightarrow> bm_get i m \<noteq> None" "lb_contains_key i (bm_buffers m) \<longleftrightarrow> bm_get i m \<noteq> None"
  using assms by (simp_all add: manager_inv_def lb_contains_key_def)

lemma head_ok:
  assumes "manager_inv P m" "bm_get i m \<noteq> None"
  shows "manager_inv P (note_buffer_order_head i m)"
  unfolding note_buffer_order_head_def using order_ok [OF assms(1)] assms(2) by (intro manager_reorder [OF assms(1)]) auto

lemma list_after:
  assumes "distinct xs" "i \<noteq> after"
  shows "let rest = filter (\<lambda>j. j \<noteq> i) xs; front = takeWhile (\<lambda>j. j \<noteq> after) rest; behind = dropWhile (\<lambda>j. j \<noteq> after) rest;
             ys = (if behind = [] then rest @ [i] else front @ [after, i] @ tl behind)
         in distinct ys \<and> set ys = insert i (set xs)"
proof -
  define rest where "rest = filter (\<lambda>j. j \<noteq> i) xs"
  define front where "front = takeWhile (\<lambda>j. j \<noteq> after) rest"
  define behind where "behind = dropWhile (\<lambda>j. j \<noteq> after) rest"
  have rest: "distinct rest" "set rest = set xs - {i}" using assms(1) by (auto simp: rest_def)
  have parts: "front @ behind = rest" by (simp add: front_def behind_def)
  have "distinct (front @ [after, i] @ tl behind) \<and> set (front @ [after, i] @ tl behind) = insert i (set xs)" if ne: "behind \<noteq> []"
  proof -
    have "hd behind = after" using ne by (metis (mono_tags) behind_def hd_dropWhile)
    then have b: "behind = after # tl behind" using ne by (cases behind) auto
    have all: "distinct (front @ after # tl behind)" "set (front @ after # tl behind) = set xs - {i}"
      using rest parts b by metis+
    have "i \<notin> set (front @ after # tl behind)" using all(2) by blast
    then have d: "distinct (front @ [after, i] @ tl behind)" using all(1) by auto
    have "set (front @ [after, i] @ tl behind) = insert i (set (front @ after # tl behind))" by auto
    then have "set (front @ [after, i] @ tl behind) = insert i (set xs)" unfolding all(2) by blast
    then show ?thesis using d by blast
  qed
  moreover have "distinct (rest @ [i]) \<and> set (rest @ [i]) = insert i (set xs)" using rest by auto
  ultimately show ?thesis unfolding Let_def rest_def [symmetric] front_def [symmetric] behind_def [symmetric] by simp
qed

lemma display_ok:
  assumes m: "manager_inv P m"
  shows "manager_inv P (note_buffer_display i m)" "manager_inv P (snd (note_buffer_order_tail i m))" "manager_inv P (snd (note_buffer_order_after i after m))"
proof -
  note o = order_ok [OF m]
  show "manager_inv P (note_buffer_display i m)" using head_ok [OF m] m by (simp add: note_buffer_display_def o(3))
  show "manager_inv P (snd (note_buffer_order_tail i m))"
    using m o(1) o(2,3) [of i] by (auto simp: note_buffer_order_tail_def intro!: manager_reorder [OF m])
  let ?ys = "let rest = filter (\<lambda>j. j \<noteq> i) (bm_order m); front = takeWhile (\<lambda>j. j \<noteq> after) rest; behind = dropWhile (\<lambda>j. j \<noteq> after) rest
      in if behind = [] then rest @ [i] else front @ [after, i] @ tl behind"
  show "manager_inv P (snd (note_buffer_order_after i after m))"
  proof (cases "i = after \<or> bm_get i m = None \<or> bm_get after m = None")
    case True
    then show ?thesis using m by (simp add: note_buffer_order_after_def o(3))
  next
    case False
    then have "distinct ?ys" "set ?ys = set (bm_order m)" using list_after [OF o(1), of i after] o(2) [of i] by (auto simp: Let_def)
    then have "manager_inv P (m\<lparr>bm_order := ?ys\<rparr>)" by (rule manager_reorder [OF m])
    then show ?thesis using False by (simp add: note_buffer_order_after_def o(3) Let_def)
  qed
qed

lemma display_follows [simp]:
  "follows m (note_buffer_display i m)" "follows m (snd (note_buffer_order_tail i m))" "follows m (snd (note_buffer_order_after i after m))"
  "follows m (note_buffer_order_head i m)" "follows m (m\<lparr>bm_current := c\<rparr>)"
  by (simp_all add: follows_def note_buffer_display_def note_buffer_order_head_def note_buffer_order_tail_def note_buffer_order_after_def Let_def)

lemma switch_sound:
  assumes m: "manager_ok m"
  shows "\<exists>m'. switch_current_with_recording i record_order m = Some (bm_get i m \<noteq> None, m') \<and> manager_ok m' \<and> follows m m'
    \<and> bm_current m' = (if bm_get i m = None then bm_current m else Some i)"
proof (cases "bm_get i m = None \<or> bm_current m = Some i")
  case True
  have key: "lb_contains_key i (bm_buffers m) \<longleftrightarrow> bm_get i m \<noteq> None" by (rule order_ok(3) [OF m])
  show ?thesis
  proof (cases "bm_get i m = None")
    case True
    then show ?thesis using m key by (simp add: switch_current_with_recording_def)
  next
    case False
    then have h: "manager_ok (note_buffer_order_head i m)" by (rule head_ok [OF m])
    moreover have "bm_current (note_buffer_order_head i m) = bm_current m" by (simp add: note_buffer_order_head_def)
    moreover have "bm_current m = Some i" using True False by blast
    ultimately show ?thesis using False m key by (cases record_order) (simp_all add: switch_current_with_recording_def)
  qed
next
  case False
  let ?m1 = "if record_order then note_buffer_order_head i (m\<lparr>bm_current := Some i\<rparr>) else m\<lparr>bm_current := Some i\<rparr>"
  have m0: "manager_ok (m\<lparr>bm_current := Some i\<rparr>)" by (rule manager_select [OF m]) (use False in simp)
  have m1: "manager_ok ?m1" "bm_current ?m1 = Some i" "follows m ?m1"
    using head_ok [OF m0, of i] m0 False by (simp_all add: follows_def note_buffer_order_head_def)
  obtain m2 where m2: "(case bm_current m of Some old_id \<Rightarrow> ignoring (record_buffer_state_markers old_id ?m1) | None \<Rightarrow> Some ?m1) = Some m2"
      "steps ?m1 m2"
  proof (cases "bm_current m")
    case None
    then show thesis using that [of ?m1] steps_refl [OF m1(1)] by simp
  next
    case (Some old)
    then show thesis using that ignoring_steps [OF record_steps [OF m1(1), of old]] by auto
  qed
  have "manager_ok m2" using m2(2) by (simp add: steps_def)
  then obtain m3 where m3: "ignoring (mg_fetch_buffer_state_markers i m2) = Some m3" "steps m2 m3"
    using ignoring_steps [of "mg_fetch_buffer_state_markers i m2" m2] fetch_steps [of m2 i] by blast
  have s: "steps ?m1 m3" by (rule steps_trans [OF m2(2) m3(2)])
  have "switch_current_with_recording i record_order m = Some (True, m3)"
    using False m2(1) m3(1) order_ok(3) [OF m] by (simp add: switch_current_with_recording_def Let_def)
  moreover have "manager_ok m3" "follows m m3" "bm_current m3 = Some i"
    using s m1(2) follows_trans [OF m1(3)] by (simp_all add: steps_def same_frame_def)
  ultimately show ?thesis using False by auto
qed

end
