(* ===== verification/Buffer_Lifecycle.thy ===== *)
theory Buffer_Lifecycle
  imports Buffer_Manager
begin

text \<open>
  The life of a buffer in the manager of \<open>src/crates/neovm-core/src/buffer/buffer.rs\<close>: what \<open>BufferManager::new\<close>,
  \<open>create_buffer\<close>, \<open>create_indirect_buffer\<close>, \<open>ensure_buffer_state_markers\<close> and \<open>kill_buffer_collect\<close> guarantee.
\<close>

subsection \<open>Creating buffers\<close>

lemma tb_new_inv: "tb_inv (tb_new kind) \<and> tb_text (tb_new kind) = [] \<and> tb_is_multibyte (tb_new kind)"
proof -
  have "rope_storable True []" by (intro rope_storable_short) (simp_all add: MAX_LEAF_BYTES_def)
  then show ?thesis
    using gb_new_inv [of True]
    by (cases kind) (simp_all add: tb_inv_def gb_new_def pt_new_def rt_new_def piece_inv_def rope_inv_def pt_text_def rt_text_def)
qed

lemma text_object_new_ok:
  "\<exists>x. text_object_new d i kind = Some x \<and> text_ok (\<lambda>_. []) x \<and> bx_text x = [] \<and> bx_mb x \<and> given_out mid ptr (\<lambda>_. []) x
     \<and> tx_undo_list x = Undo_List [] \<and> tx_saved_point x = None"
proof -
  obtain s where s: "st_from_backend i (tb_new kind) = Some s" "storage_inv s" "st_backend s = tb_new kind"
    using st_from_backend_inv [of "tb_new kind" i] tb_new_inv by blast
  then show ?thesis
    using tb_new_inv store_inv_empty
    by (auto simp: text_object_new_def text_ok_def text_markers_ok_def given_out_def empty_store_def markers_valid_iff)
qed

lemma text_inv_fewer:
  assumes "text_inv P m r cs x" "\<And>k kv. bm_get k m' = Some kv \<Longrightarrow> text_root kv = r \<Longrightarrow> bm_get k m = Some kv"
    "bm_next_marker_id m \<le> bm_next_marker_id m'" "bm_next_address m \<le> bm_next_address m'"
  shows "text_inv P m' r cs x"
  using assms(1,2) given_out_mono [OF _ assms(3,4)] unfolding text_inv_def by blast

lemma insert_buffer_ok:
  assumes m: "manager_ok m" and i: "i = bm_next_id m" "bf_id (lv_buffer lv) = i" and dense: "dense_id i"
    and base: "\<And>r. lv_base_buffer lv = Some r \<Longrightarrow> \<exists>rv. bm_get r m = Some rv \<and> lv_base_buffer rv = None"
    and x: "text_ok cs x" "given_out (bm_next_marker_id m) (bm_next_address m) cs x" "on_text i (lv_buffer lv) (bx_mb x) (bx_text x)"
      "holds_markers cs x (lv_buffer lv)"
    and others: "\<And>j jv. bm_get j m = Some jv \<Longrightarrow> text_root jv = text_root lv \<Longrightarrow>
      on_text j (lv_buffer jv) (bx_mb x) (bx_text x) \<and> holds_markers cs x (lv_buffer jv)"
  shows "\<exists>table. lb_insert i lv (bm_buffers m) = Some (None, table)
    \<and> manager_ok (m\<lparr>bm_next_id := i + 1, bm_buffers := table, bm_texts := (bm_texts m)(text_root lv \<mapsto> x), bm_order := bm_order m @ [i]\<rparr>)
    \<and> (\<forall>j. lb_get j table = (if j = i then Some lv else bm_get j m))"
proof -
  have lb: "lb_ok (bm_buffers m)" using m by (simp add: manager_inv_def)
  have below: "j < i" if "bm_get j m = Some jv" for j jv
    using m that i(1) by (auto simp: manager_inv_def base_ok_def)
  then have fresh: "bm_get i m = None" by (metis less_irrefl not_Some_eq)
  obtain table where t: "lb_insert i lv (bm_buffers m) = Some (None, table)" "lb_ok table" "\<And>j. lb_get j table = (if j = i then Some lv else bm_get j m)"
    using lb_insert_ok [OF lb dense, of lv] fresh by auto
  let ?m = "m\<lparr>bm_next_id := i + 1, bm_buffers := table, bm_texts := (bm_texts m)(text_root lv \<mapsto> x), bm_order := bm_order m @ [i]\<rparr>"
  have base': "base_ok ?m j jv" if j: "lb_get j table = Some jv" for j jv
  proof -
    have keep: "\<exists>rv. bm_get r ?m = Some rv \<and> lv_base_buffer rv = None" if r: "bm_get r m = Some rv" "lv_base_buffer rv = None" for r rv
      using r below [OF r(1)] t(3) [of r] by simp
    show ?thesis
    proof (cases "j = i")
      case True
      then have "jv = lv" using j t(3) by simp
      then show ?thesis using i True base keep unfolding base_ok_def by auto
    next
      case False
      then have jv: "bm_get j m = Some jv" using j t(3) by simp
      have b: "base_ok m j jv" using m jv by (auto simp: manager_inv_def)
      then show ?thesis using keep below [OF jv] unfolding base_ok_def by auto
    qed
  qed
  have texts: "\<exists>x1 cs1. bm_texts ?m (text_root jv) = Some x1 \<and> text_inv on_text ?m (text_root jv) cs1 x1" if j: "lb_get j table = Some jv" for j jv
  proof (cases "text_root jv = text_root lv")
    case True
    have "on_text k (lv_buffer kv) (bx_mb x) (bx_text x) \<and> holds_markers cs x (lv_buffer kv)"
      if k: "lb_get k table = Some kv" "text_root kv = text_root lv" for k kv
      using k t(3) [of k] x(3,4) others [of k kv] by (auto split: if_splits)
    then have "text_inv on_text ?m (text_root jv) cs x" using x(1,2) True by (simp add: text_inv_def)
    then show ?thesis using True by auto
  next
    case False
    then have jv: "bm_get j m = Some jv" using j t(3) [of j] by (auto split: if_splits)
    obtain y cs1 where y: "bm_texts m (text_root jv) = Some y" "text_inv on_text m (text_root jv) cs1 y" by (rule manager_invD [OF m jv])
    have "bm_get k m = Some kv" if "lb_get k table = Some kv" "text_root kv = text_root jv" for k kv
      using that t(3) [of k] False by (auto split: if_splits)
    then have "text_inv on_text ?m (text_root jv) cs1 y" by (intro text_inv_fewer [OF y(2)]) simp_all
    then show ?thesis using False y(1) by auto
  qed
  have o: "distinct (bm_order m @ [i])" "\<And>j. j \<in> set (bm_order m @ [i]) \<longleftrightarrow> lb_get j table \<noteq> None"
    using order_ok(1,2) [OF m] fresh t(3) by auto
  have cur: "pred_option (\<lambda>c. lb_get c table \<noteq> None) (bm_current m)"
    using m t(3) by (cases "bm_current m") (auto simp: manager_inv_def)
  have "manager_ok ?m"
    unfolding manager_inv_def using t(2) base' texts o cur by auto
  then show ?thesis using t(1,3) by blast
qed

lemma root_below:
  assumes "manager_inv P m" "bm_get j m = Some jv"
  shows "text_root jv < bm_next_id m" "j < bm_next_id m" "bm_get (text_root jv) m \<noteq> None"
    "\<exists>rv. bm_get (text_root jv) m = Some rv \<and> lv_base_buffer rv = None \<and> text_root rv = text_root jv"
proof -
  have b: "base_ok m k kv" if "bm_get k m = Some kv" for k kv using assms(1) that by (auto simp: manager_inv_def)
  show root: "\<exists>rv. bm_get (text_root jv) m = Some rv \<and> lv_base_buffer rv = None \<and> text_root rv = text_root jv"
  proof (cases "lv_base_buffer jv")
    case None
    then show ?thesis using assms(2) b [OF assms(2)] by (simp add: text_root_def base_ok_def)
  next
    case (Some r)
    then obtain rv where rv: "bm_get r m = Some rv" "lv_base_buffer rv = None" using b [OF assms(2)] by (auto simp: base_ok_def)
    then show ?thesis using Some b [OF rv(1)] by (simp add: text_root_def base_ok_def)
  qed
  then show "text_root jv < bm_next_id m" "bm_get (text_root jv) m \<noteq> None" using b by (auto simp: base_ok_def)
  show "j < bm_next_id m" using b [OF assms(2)] by (simp add: base_ok_def)
qed

lemma create_buffer_sound:
  assumes m: "manager_ok m" and dense: "dense_id (bm_next_id m)"
  shows "\<exists>m'. create_buffer d name m = Some (bm_next_id m, m') \<and> manager_ok m' \<and> follows m m' \<and> bm_next_id m' = bm_next_id m + 1
    \<and> bm_current m' = bm_current m \<and> bm_next_marker_id m' = bm_next_marker_id m
    \<and> (\<forall>j. j \<noteq> bm_next_id m \<longrightarrow> bm_get j m' = bm_get j m)
    \<and> (\<exists>lv x. bm_get (bm_next_id m) m' = Some lv \<and> lv_name lv = name \<and> lv_base_buffer lv = None
         \<and> bm_texts m' (bm_next_id m) = Some x \<and> bx_text x = [] \<and> tx_undo_list x = (if name \<noteq> [] \<and> hd name = 0x20 then Undo_T else Undo_List []))"
proof -
  let ?i = "bm_next_id m"
  let ?lv = "\<lparr>lv_buffer = buffer_new d ?i, lv_base_buffer = None, lv_name = name\<rparr>"
  obtain x where x: "text_object_new d ?i (bm_default_backend m) = Some x" "text_ok (\<lambda>_. []) x" "bx_text x = []" "bx_mb x"
      "given_out (bm_next_marker_id m) (bm_next_address m) (\<lambda>_. []) x" "tx_undo_list x = Undo_List []"
    using text_object_new_ok by blast
  let ?x = "if name \<noteq> [] \<and> hd name = 0x20 then x\<lparr>tx_undo_list := Undo_T\<rparr> else x"
  have x': "text_ok (\<lambda>_. []) ?x" "bx_text ?x = []" "bx_mb ?x" "given_out (bm_next_marker_id m) (bm_next_address m) (\<lambda>_. []) ?x"
    using x(2-5) by (auto simp: text_ok_def given_out_def)
  have root: "text_root ?lv = ?i" by (simp add: text_root_def buffer_new_def)
  have "\<exists>table. lb_insert ?i ?lv (bm_buffers m) = Some (None, table)
    \<and> manager_ok (m\<lparr>bm_next_id := ?i + 1, bm_buffers := table, bm_texts := (bm_texts m)(text_root ?lv \<mapsto> ?x), bm_order := bm_order m @ [?i]\<rparr>)
    \<and> (\<forall>j. lb_get j table = (if j = ?i then Some ?lv else bm_get j m))"
  proof (rule insert_buffer_ok [OF m refl _ dense _ x'(1,4)])
    show "bf_id (lv_buffer ?lv) = ?i" by (simp add: buffer_new_def)
    show "on_text ?i (lv_buffer ?lv) (bx_mb ?x) (bx_text ?x)"
      using x'(2,3) by (simp add: on_text_def buffer_new_def state_ok_def edit_state_def)
    show "holds_markers (\<lambda>_. []) ?x (lv_buffer ?lv)" by (simp add: holds_markers_def buffer_new_def)
    show "on_text j (lv_buffer jv) (bx_mb ?x) (bx_text ?x) \<and> holds_markers (\<lambda>_. []) ?x (lv_buffer jv)"
      if "bm_get j m = Some jv" "text_root jv = text_root ?lv" for j jv
      using root_below(1) [OF m that(1)] that(2) root by simp
  qed simp
  then obtain table where t: "lb_insert ?i ?lv (bm_buffers m) = Some (None, table)"
      "manager_ok (m\<lparr>bm_next_id := ?i + 1, bm_buffers := table, bm_texts := (bm_texts m)(?i \<mapsto> ?x), bm_order := bm_order m @ [?i]\<rparr>)"
      "\<And>j. lb_get j table = (if j = ?i then Some ?lv else bm_get j m)"
    unfolding root by blast
  have "create_buffer d name m = Some (?i, m\<lparr>bm_next_id := ?i + 1, bm_buffers := table, bm_texts := (bm_texts m)(?i \<mapsto> ?x), bm_order := bm_order m @ [?i]\<rparr>)"
    using x(1) t(1) by (simp add: create_buffer_def Let_def)
  moreover have "tx_undo_list ?x = (if name \<noteq> [] \<and> hd name = 0x20 then Undo_T else Undo_List [])" using x(6) by simp
  ultimately show ?thesis using t(2,3) x'(2) by (auto simp: follows_def)
qed

lemma manager_new_sound:
  "\<exists>m. manager_new d = Some m \<and> manager_ok m \<and> bm_current m = Some 1 \<and> bm_next_id m = 2 \<and> bm_next_marker_id m = 1
    \<and> (\<exists>lv x. bm_get 1 m = Some lv \<and> lv_name lv = SCRATCH_NAME \<and> lv_base_buffer lv = None \<and> bm_texts m 1 = Some x \<and> bx_text x = []
         \<and> tx_undo_list x = Undo_List [])"
proof -
  let ?m0 = "\<lparr>bm_buffers = lb_new, bm_texts = (\<lambda>_. None), bm_dead = (\<lambda>_. None), bm_order = [], bm_current = None, bm_next_id = 1,
        bm_next_marker_id = 1, bm_next_address = 0, bm_default_backend = GapBuffer, bm_saved_point = None\<rparr>"
  have get: "lb_get i lb_new = None" for i by (simp add: lb_get_def lb_new_def)
  have m0: "manager_ok ?m0" using lb_ok_new by (simp add: manager_inv_def get)
  obtain m1 where m1: "create_buffer d SCRATCH_NAME ?m0 = Some (1, m1)" "manager_ok m1" "bm_next_id m1 = 2" "bm_next_marker_id m1 = 1"
      "\<exists>lv x. bm_get 1 m1 = Some lv \<and> lv_name lv = SCRATCH_NAME \<and> lv_base_buffer lv = None \<and> bm_texts m1 1 = Some x \<and> bx_text x = []
         \<and> tx_undo_list x = Undo_List []"
    using create_buffer_sound [OF m0, of d SCRATCH_NAME] by (auto simp: SCRATCH_NAME_def dense_id_def)
  have "manager_ok (m1\<lparr>bm_current := Some 1\<rparr>)" by (rule manager_select [OF m1(2)]) (use m1(5) in auto)
  then have "manager_ok (note_buffer_order_head 1 (m1\<lparr>bm_current := Some 1\<rparr>))" by (rule head_ok) (use m1(5) in auto)
  then show ?thesis using m1 by (simp add: manager_new_def note_buffer_order_head_def)
qed

text \<open>The markers of a buffer are created once; the markers of the others stay.\<close>

lemma ensure_steps:
  fixes m :: "('p, 'v, 'o) buffer_manager"
  assumes m: "manager_ok m" and room: "bm_next_marker_id m + 2 < MARK_MARKER_ID"
  shows "\<exists>a m'. ensure_buffer_state_markers i m = Some (a, m') \<and> manager_ok m' \<and> follows m m' \<and> same_frame m m'
    \<and> bm_next_marker_id m' \<le> bm_next_marker_id m + 3
    \<and> (\<forall>j. buffer_has_state_markers j m' \<longleftrightarrow> buffer_has_state_markers j m \<or> j = i \<and> bm_get i m \<noteq> None)"
proof (cases "buffer_has_state_markers i m")
  case True
  then have "bm_get i m \<noteq> None" by (auto simp: buffer_has_state_markers_def split: option.splits)
  then show ?thesis using True m by (auto simp: ensure_buffer_state_markers_def)
next
  case no: False
  show ?thesis
  proof (cases "bm_get i m")
    case None
    then show ?thesis using m by (simp add: ensure_buffer_state_markers_def on_buffer_def and_then_def buffer_has_state_markers_def)
  next
    case (Some lv)
    obtain x cs where x: "bm_texts m (text_root lv) = Some x" "text_inv on_text m (text_root lv) cs x" "bf_id (lv_buffer lv) = i"
        "get_text lv m = Some (x\<lparr>tx_saved_point := bm_saved_point m\<rparr>)" "text_ok cs x" "buffer_on x (lv_buffer lv)" "holds_markers cs x (lv_buffer lv)"
        "given_out (bm_next_marker_id m) (bm_next_address m) cs x"
      by (rule buffer_of_manager [OF m Some])
    let ?x = "x\<lparr>tx_saved_point := bm_saved_point m\<rparr>" and ?mid = "bm_next_marker_id m" and ?ptr = "bm_next_address m"
    have x': "text_ok cs ?x" "buffer_on ?x (lv_buffer lv)" "given_out ?mid ?ptr cs ?x" using x(5,6,8) by simp_all
    have new: "bf_state_markers (lv_buffer lv) = None" using no Some by (auto simp: buffer_has_state_markers_def)
    obtain cs' y ids where e: "ensure_state_markers ?mid ?ptr (lv_buffer lv) ?x = Some ((lv_buffer lv)\<lparr>bf_state_markers := Some ids\<rparr>, y)"
        "text_ok cs' y" "remarked ?x y" "given_out (?mid + 3) (?ptr + 3) cs' y" "holds_markers cs' y ((lv_buffer lv)\<lparr>bf_state_markers := Some ids\<rparr>)"
        "\<And>c :: ('v, 'o) buffer. holds_markers cs ?x c \<Longrightarrow> holds_markers cs' y c"
      by (rule ensure_sound [OF x'(1,2,3) room new]) (rule that)
    let ?b = "(lv_buffer lv)\<lparr>bf_state_markers := Some ids\<rparr>"
    let ?m = "(put_buffer i lv ?b y m)\<lparr>bm_next_marker_id := ?mid + 3, bm_next_address := ?ptr + 3\<rparr>"
    note k = remarked_keeps [OF e(3)]
    have "manager_ok ?m"
    proof (rule put_inv_counters [OF m Some x(2) e(2,4) _ _ _ _ e(5)])
      show "on_text i ?b (bx_mb y) (bx_text y)"
        using x(6) k(1,2) by (simp add: on_text_def buffer_on_def edit_state_def)
    qed (use k e(6) x(3) in auto)
    moreover have "follows m ?m"
    proof -
      have "follows_text x y" by (rule follows_same) (simp_all add: k)
      from put_follows [OF x(1) this, of i ?b] show ?thesis by (simp add: follows_def)
    qed
    moreover have "same_frame m ?m" using put_frame [OF m Some, of ?b y] by (simp add: same_frame_def)
    moreover have "buffer_has_state_markers j ?m \<longleftrightarrow> buffer_has_state_markers j m \<or> j = i" for j
      using put_get(2) [OF _ Some] m by (simp add: buffer_has_state_markers_def manager_inv_def)
    moreover have "ensure_buffer_state_markers i m = Some (Some (), ?m)"
      using no Some x(4) e(1) by (simp add: ensure_buffer_state_markers_def on_buffer_def and_then_def)
    ultimately show ?thesis using Some by auto
  qed
qed

text \<open>
  A new indirect buffer takes over the region and the point of its root before it takes over whether
  the text is multibyte; the positions do not depend on that.
\<close>

lemma goto_any:
  assumes ok: "text_ok cs x" and k: "is_emacs_char_boundary (bx_text x) k (bx_mb x)"
    and b: "valid_anchor (bx_mb x) (bx_text x) (bf_accessible_start b)" "valid_anchor (bx_mb x) (bx_text x) (bf_accessible_end b)"
      "ta_byte (bf_accessible_start b) \<le> k" "k \<le> ta_byte (bf_accessible_end b)"
  obtains a x' where "goto_emacs_byte_pos k b x = Some (b\<lparr>bf_point := a\<rparr>, x')" "recached x x'" "valid_anchor (bx_mb x) (bx_text x) a" "ta_byte a = k"
proof -
  let ?b = "b\<lparr>bf_multibyte := bx_mb x\<rparr>"
  have "\<exists>a x'. goto_emacs_byte_pos k ?b x = Some (?b\<lparr>bf_point := a\<rparr>, x') \<and> recached x x' \<and> buffer_on x' (?b\<lparr>bf_point := a\<rparr>)
    \<and> ta_byte a = max (ta_byte (bf_accessible_start ?b)) (min k (ta_byte (bf_accessible_end ?b)))"
    by (rule goto_sound [OF ok k]) (use b in simp_all)
  then obtain a x' where g: "goto_emacs_byte_pos k ?b x = Some (?b\<lparr>bf_point := a\<rparr>, x')" "recached x x'" "buffer_on x' (?b\<lparr>bf_point := a\<rparr>)"
      "ta_byte a = max (ta_byte (bf_accessible_start b)) (min k (ta_byte (bf_accessible_end b)))" by auto
  have v: "valid_anchor (bx_mb x) (bx_text x) a" using buffer_onD(2) [OF g(3)] by (simp add: recached_keeps [OF g(2)])
  have "bf_accessible_start ?b = bf_accessible_start b" "bf_accessible_end ?b = bf_accessible_end b" by simp_all
  then have "accessible_anchor_for_emacs_byte_pos k ?b x = accessible_anchor_for_emacs_byte_pos k b x"
    unfolding accessible_anchor_for_emacs_byte_pos_def by (simp only:)
  then have "goto_emacs_byte_pos k b x = Some (b\<lparr>bf_point := a\<rparr>, x')"
    using g(1) by (auto simp: goto_emacs_byte_pos_def bind_eq_Some_conv dest: arg_cong [where f = bf_point])
  then show thesis using that v g(2,4) b(3,4) by simp
qed

lemma take_over_region:
  assumes ok: "text_ok cs x" and root: "buffer_on x rb"
  obtains b1 x1 x2 where
    "narrow_to_emacs_byte_range (byte_range_new (ta_byte (bf_accessible_start rb)) (ta_byte (bf_accessible_end rb))) b x = Some (b1, x1)"
    "goto_emacs_byte_pos (ta_byte (bf_point rb)) b1 x1 = Some (set_edit_state (edit_state rb) b, x2)" "recached x x2"
proof -
  let ?r = "byte_range_new (ta_byte (bf_accessible_start rb)) (ta_byte (bf_accessible_end rb))"
  note o = buffer_onD [OF root] and bd = state_boundaries [OF root]
  have r: "is_emacs_char_boundary (bx_text x) (br_start ?r) (bx_mb x)" "is_emacs_char_boundary (bx_text x) (br_end ?r) (bx_mb x)"
    using bd by simp_all
  obtain s e a x1 where n: "narrow_to_emacs_byte_range ?r b x = Some (b\<lparr>bf_accessible_start := s, bf_accessible_end := e, bf_point := a\<rparr>, x1)"
      "recached x x1" "valid_anchor (bx_mb x) (bx_text x) s" "valid_anchor (bx_mb x) (bx_text x) e" "ta_byte s = br_start ?r"
      "ta_byte e = max (br_start ?r) (br_end ?r)"
    by (rule stale_narrow [OF ok r])
  let ?b = "b\<lparr>bf_accessible_start := s, bf_accessible_end := e, bf_point := a\<rparr>"
  note k1 = recached_keeps [OF n(2)]
  have anchor: "p = q" if v: "valid_anchor (bx_mb x) (bx_text x) p" "valid_anchor (bx_mb x) (bx_text x) q" "ta_byte p = ta_byte q" for p q
    using v by (cases p; cases q; simp add: char_offset_def)
  have se: "s = bf_accessible_start rb" "e = bf_accessible_end rb"
    using anchor [OF n(3) o(3)] anchor [OF n(4) o(4)] n(5,6) o(5,6) by simp_all
  obtain a' x2 where g: "goto_emacs_byte_pos (ta_byte (bf_point rb)) ?b x1 = Some (?b\<lparr>bf_point := a'\<rparr>, x2)" "recached x1 x2"
      "valid_anchor (bx_mb x) (bx_text x) a'" "ta_byte a' = ta_byte (bf_point rb)"
  proof (rule goto_any [OF k1(3) [OF ok], of "ta_byte (bf_point rb)" ?b])
    show "is_emacs_char_boundary (bx_text x1) (ta_byte (bf_point rb)) (bx_mb x1)" using bd(1) by (simp add: k1)
  qed (use o se that in \<open>simp_all add: k1\<close>)
  have "a' = bf_point rb" by (rule anchor [OF g(3) o(2) g(4)])
  then have "?b\<lparr>bf_point := a'\<rparr> = set_edit_state (edit_state rb) b" by (simp add: se set_edit_state_def edit_state_def)
  then show thesis using that n(1) g(1) recached_trans [OF n(2) g(2)] by simp
qed

lemma find_name_total:
  assumes "manager_inv P m"
  shows "\<exists>r. find_buffer_by_name name m = Some r"
  using assms lb_iter_ok [of "bm_buffers m"] by (auto simp: find_buffer_by_name_def lb_values_def manager_inv_def)

lemma find_name_sound:
  assumes "manager_inv P m" "find_buffer_by_name name m = Some r"
  shows "r = None \<Longrightarrow> bm_get i m = Some lv \<Longrightarrow> lv_name lv \<noteq> name" "r = Some i \<Longrightarrow> \<exists>lv. bm_get i m = Some lv \<and> lv_name lv = name"
proof -
  obtain xs where xs: "lb_iter (bm_buffers m) = Some xs" "\<And>i b. (i, b) \<in> set xs \<longleftrightarrow> bm_get i m = Some b"
    using assms(1) lb_iter_ok [of "bm_buffers m"] by (auto simp: manager_inv_def)
  have r: "r = map_option (\<lambda>lv. bf_id (lv_buffer lv)) (List.find (\<lambda>lv. lv_name lv = name) (map snd xs))"
    using assms(2) xs(1) by (simp add: find_buffer_by_name_def lb_values_def)
  have id: "bf_id (lv_buffer lv) = i" if "bm_get i m = Some lv" for i lv using assms(1) that by (auto simp: manager_inv_def base_ok_def)
  show "r = None \<Longrightarrow> bm_get i m = Some lv \<Longrightarrow> lv_name lv \<noteq> name"
    using r xs(2) by (force simp: find_None_iff)
  show "r = Some i \<Longrightarrow> \<exists>lv. bm_get i m = Some lv \<and> lv_name lv = name"
  proof -
    assume "r = Some i"
    then obtain lv where lv: "List.find (\<lambda>lv. lv_name lv = name) (map snd xs) = Some lv" "i = bf_id (lv_buffer lv)" using r by auto
    then have "lv \<in> set (map snd xs)" "lv_name lv = name" by (auto simp: find_Some_iff)
    then show "\<exists>lv. bm_get i m = Some lv \<and> lv_name lv = name" using xs(2) id lv(2) by fastforce
  qed
qed

lemma create_indirect_sound:
  fixes m :: "('p, 'v, 'o) buffer_manager"
  assumes m: "manager_ok m" and room: "bm_next_marker_id m + 5 < MARK_MARKER_ID" and dense: "dense_id (bm_next_id m)"
  shows "\<exists>r m'. create_indirect_buffer d base name cl m = Some (r, m') \<and> manager_ok m' \<and> follows m m'
    \<and> (r = None \<longrightarrow> m' = m) \<and> (r = None \<longleftrightarrow> name = [] \<or> (\<exists>i lv. bm_get i m = Some lv \<and> lv_name lv = name) \<or> bm_get base m = None)
    \<and> (\<forall>bv. r \<noteq> None \<longrightarrow> bm_get base m = Some bv \<longrightarrow> r = Some (bm_next_id m) \<and> bm_current m' = bm_current m \<and> bm_next_id m' = bm_next_id m + 1
         \<and> bm_next_marker_id m' \<le> bm_next_marker_id m + 6
         \<and> (\<exists>lv. bm_get (bm_next_id m) m' = Some lv \<and> lv_name lv = name \<and> lv_base_buffer lv = Some (text_root bv))
         \<and> (\<forall>j. j \<noteq> bm_next_id m \<longrightarrow> map_option lv_ident (bm_get j m') = map_option lv_ident (bm_get j m))
         \<and> buffer_has_state_markers (bm_next_id m) m' \<and> buffer_has_state_markers (text_root bv) m')"
proof -
  obtain taken where taken: "find_buffer_by_name name m = Some taken" using find_name_total [OF m] by blast
  have taken': "taken \<noteq> None \<longleftrightarrow> (\<exists>i lv. bm_get i m = Some lv \<and> lv_name lv = name)"
    using find_name_sound(1) [OF m taken] find_name_sound(2) [OF m taken] by (metis not_None_eq)
  show ?thesis
  proof (cases "name = [] \<or> taken \<noteq> None \<or> bm_get base m = None")
    case True
    then have "create_indirect_buffer d base name cl m = Some (None, m)"
      using taken by (auto simp: create_indirect_buffer_def shared_text_root_id_def)
    then show ?thesis using True m taken' by auto
  next
    case False
    then obtain bv where bv: "bm_get base m = Some bv" "name \<noteq> []" "taken = None" by auto
    let ?root = "text_root bv" and ?i = "bm_next_id m"
    obtain rv where rv: "bm_get ?root m = Some rv" "lv_base_buffer rv = None" "text_root rv = ?root" using root_below(4) [OF m bv(1)] by blast
    obtain x cs where x: "bm_texts m (text_root rv) = Some x" "text_inv on_text m (text_root rv) cs x"
        "get_text rv m = Some (x\<lparr>tx_saved_point := bm_saved_point m\<rparr>)" "text_ok cs x" "buffer_on x (lv_buffer rv)"
        "given_out (bm_next_marker_id m) (bm_next_address m) cs x"
      by (rule buffer_of_manager [OF m rv(1)])
    let ?x = "x\<lparr>tx_saved_point := bm_saved_point m\<rparr>" and ?rb = "lv_buffer rv"
    let ?b = "if cl then ?rb\<lparr>bf_id := ?i, bf_overlays := bd_overlays_retarget d ?root ?i (bf_overlays ?rb), bf_state_markers := None\<rparr>
              else buffer_new d ?i"
    have x': "text_ok cs ?x" "buffer_on ?x ?rb" using x(4,5) by simp_all
    obtain b1 x1 x2 where t: "narrow_to_emacs_byte_range (byte_range_new (ta_byte (bf_accessible_start ?rb)) (ta_byte (bf_accessible_end ?rb))) ?b ?x = Some (b1, x1)"
        "goto_emacs_byte_pos (ta_byte (bf_point ?rb)) b1 x1 = Some (set_edit_state (edit_state ?rb) ?b, x2)" "recached ?x x2"
      by (rule take_over_region [OF x'])
    note k = recached_keeps [OF t(3)]
    let ?b2 = "(set_edit_state (edit_state ?rb) ?b)\<lparr>bf_multibyte := bf_multibyte ?rb, bf_autosave_modified_tick := bf_autosave_modified_tick ?rb,
                     bf_first_change_modtime := bf_first_change_modtime ?rb\<rparr>"
    let ?lv = "\<lparr>lv_buffer = ?b2, lv_base_buffer = Some ?root, lv_name = name\<rparr>"
    have mb: "st_set_multibyte (bf_multibyte ?rb) (tx_storage x2) = Some (tx_storage x2)"
      using buffer_onD(1) [OF x(5)] k(2) by (simp add: st_set_multibyte_def)
    have id2: "bf_id ?b2 = ?i" "bf_state_markers ?b2 = None" "edit_state ?b2 = edit_state ?rb" "bf_multibyte ?b2 = bf_multibyte ?rb"
      by (simp_all add: set_edit_state_def buffer_new_def edit_state_def)
    have lvroot: "text_root ?lv = ?root" by (simp add: text_root_def)
    have ok2: "text_ok cs x2" by (rule k(3) [OF x'(1)])
    have rc: "rechained cs ?x cs x2" by (rule recached_rechained [OF t(3) x'(1)])
    have "\<exists>table. lb_insert ?i ?lv (bm_buffers m) = Some (None, table)
        \<and> manager_ok (m\<lparr>bm_next_id := ?i + 1, bm_buffers := table, bm_texts := (bm_texts m)(text_root ?lv \<mapsto> x2), bm_order := bm_order m @ [?i]\<rparr>)
        \<and> (\<forall>j. lb_get j table = (if j = ?i then Some ?lv else bm_get j m))"
    proof (rule insert_buffer_ok [OF m refl _ dense _ ok2])
      show "bf_id (lv_buffer ?lv) = ?i" using id2(1) by simp
      show "\<exists>rv. bm_get r m = Some rv \<and> lv_base_buffer rv = None" if "lv_base_buffer ?lv = Some r" for r using that rv by simp
      show "given_out (bm_next_marker_id m) (bm_next_address m) cs x2" by (rule rechained_given_out [OF rc]) (use x(6) in simp)
      show "on_text ?i (lv_buffer ?lv) (bx_mb x2) (bx_text x2)"
        using x(5) id2(3,4) k(1,2) by (simp add: on_text_def buffer_on_def)
      show "holds_markers cs x2 (lv_buffer ?lv)" using id2(2) by (simp add: holds_markers_def)
      show "on_text j (lv_buffer jv) (bx_mb x2) (bx_text x2) \<and> holds_markers cs x2 (lv_buffer jv)"
        if j: "bm_get j m = Some jv" "text_root jv = text_root ?lv" for j jv
      proof -
        have "text_root jv = text_root rv" using j(2) lvroot rv(3) by simp
        note ti = text_invD [OF x(2) j(1) this]
        have "holds_markers cs ?x (lv_buffer jv)" using ti(4) by simp
        then show ?thesis using ti(3) rechained_holds [OF rc] k(1,2) by simp
      qed
    qed
    then obtain table where t1: "lb_insert ?i ?lv (bm_buffers m) = Some (None, table)"
        "manager_ok (m\<lparr>bm_next_id := ?i + 1, bm_buffers := table, bm_texts := (bm_texts m)(?root \<mapsto> x2), bm_order := bm_order m @ [?i]\<rparr>)"
        "\<And>j. lb_get j table = (if j = ?i then Some ?lv else bm_get j m)"
      unfolding lvroot by blast
    define m1 where "m1 = m\<lparr>bm_next_id := ?i + 1, bm_buffers := table, bm_texts := (bm_texts m)(?root \<mapsto> x2), bm_order := bm_order m @ [?i]\<rparr>"
    have m1: "manager_ok m1" "bm_next_marker_id m1 = bm_next_marker_id m" "bm_current m1 = bm_current m" "bm_next_id m1 = ?i + 1"
        "\<And>j. bm_get j m1 = (if j = ?i then Some ?lv else bm_get j m)"
      using t1(2,3) by (simp_all add: m1_def)
    have f1: "follows m m1"
    proof -
      have "follows_text x x2" using follows_same [of x2 ?x] k(1,2,6) by simp
      then show ?thesis using x(1) rv(3) by (simp add: follows_def m1_def)
    qed
    obtain a2 m2 where m2: "ensure_buffer_state_markers ?root m1 = Some (a2, m2)" "manager_ok m2" "follows m1 m2" "same_frame m1 m2"
        "bm_next_marker_id m2 \<le> bm_next_marker_id m1 + 3"
        "\<And>j. buffer_has_state_markers j m2 \<longleftrightarrow> buffer_has_state_markers j m1 \<or> j = ?root \<and> bm_get ?root m1 \<noteq> None"
      using ensure_steps [OF m1(1), of ?root] room m1(2) by fastforce
    obtain a3 m3 where m3: "ensure_buffer_state_markers ?i m2 = Some (a3, m3)" "manager_ok m3" "follows m2 m3" "same_frame m2 m3"
        "bm_next_marker_id m3 \<le> bm_next_marker_id m2 + 3"
        "\<And>j. buffer_has_state_markers j m3 \<longleftrightarrow> buffer_has_state_markers j m2 \<or> j = ?i \<and> bm_get ?i m2 \<noteq> None"
      using ensure_steps [OF m2(2), of ?i] room m1(2) m2(5) by fastforce
    note fr = same_frame_trans [OF m2(4) m3(4)]
    have get_later: "get_text rv (m\<lparr>bm_next_id := n\<rparr>) = get_text rv m" for n by (simp add: get_text_def)
    have run: "create_indirect_buffer d base name cl m = Some (Some ?i, m3)"
      using bv rv taken x(3) t(1,2) mb t1(1) m2(1) m3(1) unfolding m1_def
      by (cases cl) (simp_all add: create_indirect_buffer_def shared_text_root_id_def Let_def get_later ignoring_def)
    have ids: "map_option lv_ident (bm_get j m3) = map_option lv_ident (bm_get j m1)" for j using fr by (simp add: same_frame_def)
    have new: "\<exists>lv. bm_get ?i m3 = Some lv \<and> lv_name lv = name \<and> lv_base_buffer lv = Some ?root"
      using ids [of ?i] m1(5) by (auto simp: lv_ident_def)
    have marks: "buffer_has_state_markers ?i m3" "buffer_has_state_markers ?root m3"
    proof -
      have "bm_get ?root m1 \<noteq> None" using m1(5) rv(1) by simp
      then show "buffer_has_state_markers ?root m3" using m2(6) m3(6) by blast
      have "bm_get ?i m2 \<noteq> None" using same_frame_live [OF m2(4)] m1(5) by simp
      then show "buffer_has_state_markers ?i m3" using m3(6) by blast
    qed
    have fin: "manager_ok m3" "follows m m3" "bm_current m3 = bm_current m" "bm_next_id m3 = ?i + 1" "bm_next_marker_id m3 \<le> bm_next_marker_id m + 6"
      using m3(2) follows_trans [OF f1 follows_trans [OF m2(3) m3(3)]] fr m1(2,3,4) m2(5) m3(5) by (simp_all add: same_frame_def)
    have none: "\<not> (name = [] \<or> (\<exists>i lv. bm_get i m = Some lv \<and> lv_name lv = name) \<or> bm_get base m = None)" using False taken' by blast
    have rest: "map_option lv_ident (bm_get j m3) = map_option lv_ident (bm_get j m)" if "j \<noteq> ?i" for j using ids [of j] m1(5) that by simp
    show ?thesis
      by (rule exI [of _ "Some ?i"], rule exI [of _ m3]) (use run fin none new marks rest bv(1) in auto)
  qed
qed

subsection \<open>Killing buffers\<close>

text \<open>Taking the markers of some buffers off a chain: the markers of the others stay as they are.\<close>

lemma purge_sound:
  assumes ok: "text_ok cs x" and given: "given_out mid ptr cs x"
  obtains ms cs' where "remove_markers_for_buffers (st_markers (tx_storage x)) killed (tx_markers x) = Some ms"
    "text_ok cs' (x\<lparr>tx_markers := ms\<rparr>)" "given_out mid ptr cs' (x\<lparr>tx_markers := ms\<rparr>)"
    "text_chain cs' x = filter (\<lambda>q. \<not> belongs_to_killed killed (the (bx_heap x q))) (text_chain cs x)"
    "\<forall>q \<in> set (text_chain cs' x). map_option marker_ident (ms_heap ms q) = map_option marker_ident (bx_heap x q)"
proof -
  let ?t = "st_markers (tx_storage x)"
  let ?qs = "filter (\<lambda>q. \<not> belongs_to_killed killed (the (bx_heap x q))) (cs ?t)"
  let ?S = "set (cs ?t) - set ?qs"
  have m: "store_inv cs (tx_markers x)" "markers_valid (bx_mb x) (bx_text x) (cs ?t) (bx_heap x)" by (rule text_markers [OF ok])+
  obtain ms where ms: "remove_markers_for_buffers ?t killed (tx_markers x) = Some ms" "store_inv (cs(?t := ?qs)) ms"
      "unchains detached (HeadSlot ?t) (cs ?t) ?qs (tx_markers x) ms"
    by (rule remove_markers_for_buffers_inv [OF m(1)])
  have next_gone: "unchained (m\<lparr>mk_next := None\<rparr>) = unchained m" for m by (simp add: unchained_def)
  have "map_option unchained (ms_heap ms q) = map_option unchained (bx_heap x q)" if q: "q \<notin> ?S" for q
  proof -
    have "map_option (mk_next_update (\<lambda>_. None)) (ms_heap ms q) = map_option (mk_next_update (\<lambda>_. None)) (bx_heap x q)"
      using ms(3) q by (simp add: unchains_def spliced_def)
    then have "map_option unchained (map_option (mk_next_update (\<lambda>_. None)) (ms_heap ms q))
        = map_option unchained (map_option (mk_next_update (\<lambda>_. None)) (bx_heap x q))" by simp
    then show ?thesis by (simp add: option.map_comp comp_def next_gone)
  qed
  then have d: "same_data ?S (bx_heap x) (ms_heap ms)" by (simp add: same_data_def)
  have "markers_valid (bx_mb x) (bx_text x) ?qs (ms_heap ms)" by (rule valid_same_data [OF m(2) d]) auto
  then have ok': "text_ok (cs(?t := ?qs)) (x\<lparr>tx_markers := ms\<rparr>)" using ok ms(2) by (simp add: text_ok_def text_markers_ok_def)
  have ident: "map_option marker_ident (ms_heap ms q) = map_option marker_ident (bx_heap x q)" if "q \<notin> ?S" for q
    by (rule same_dataD(2) [OF d that])
  have dom: "\<exists>m'. bx_heap x q = Some m'" if q: "ms_heap ms q = Some m" for q m
  proof (cases "q \<in> ?S")
    case True
    then have "q \<in> set (cs ?t)" by simp
    then show ?thesis using m(2) unfolding markers_valid_iff by blast
  next
    case False
    then show ?thesis using ident [OF False] q by (cases "bx_heap x q") auto
  qed
  have "given_out mid ptr (cs(?t := ?qs)) (x\<lparr>tx_markers := ms\<rparr>)"
  proof -
    have "q < ptr" if "ms_heap ms q = Some m" for q m using dom [OF that] given by (auto simp: given_out_def)
    moreover have "i < mid \<or> i = MARK_MARKER_ID" if q: "q \<in> set ?qs" "ms_heap ms q = Some m" "mk_marker_id m = Some i" for q m i
    proof -
      obtain m' where m': "bx_heap x q = Some m'" using dom [OF q(2)] by blast
      have "q \<notin> ?S" using q(1) by simp
      then have "mk_marker_id m' = Some i" using ident [of q] q(2,3) m' by (simp add: marker_ident_def)
      moreover have "q \<in> set (text_chain cs x)" using q(1) by simp
      ultimately show ?thesis using given m' unfolding given_out_def by blast
    qed
    ultimately show ?thesis by (simp add: given_out_def)
  qed
  then show thesis using that [OF ms(1) ok'] ident by simp
qed

lemma purged_holds:
  assumes held: "holds_markers cs x b" and notin: "bf_id b \<notin> killed"
    and chain: "text_chain cs' x = filter (\<lambda>q. \<not> belongs_to_killed killed (the (bx_heap x q))) (text_chain cs x)"
    and ident: "\<forall>q \<in> set (text_chain cs' x). map_option marker_ident (ms_heap ms q) = map_option marker_ident (bx_heap x q)"
  shows "holds_markers cs' (x\<lparr>tx_markers := ms\<rparr>) b"
proof -
  have one: "holds_marker (text_chain cs' x) (ms_heap ms) (bf_id b) mid p it" if h: "holds_marker (text_chain cs x) (bx_heap x) (bf_id b) mid p it" for mid p it
  proof -
    obtain m where m: "bx_heap x p = Some m" "marker_ident m = (Some mid, Some (bf_id b), it)" using h by (auto simp: holds_marker_def)
    have "\<not> belongs_to_killed killed (the (bx_heap x p))"
      using m notin by (simp add: belongs_to_killed_def marker_ident_def)
    then have p: "p \<in> set (text_chain cs' x)" using h chain by (simp add: holds_marker_def)
    have "q = p" if q: "q \<in> set (text_chain cs' x)" "ms_heap ms q = Some k" "mk_marker_id k = Some mid" for q k
    proof -
      obtain k' where "bx_heap x q = Some k'" "marker_ident k' = marker_ident k"
        using ident q(1,2) by (cases "bx_heap x q") fastforce+
      moreover have "q \<in> set (text_chain cs x)" using q(1) chain by simp
      ultimately show ?thesis using h q(3) by (auto simp: holds_marker_def marker_ident_def)
    qed
    then show ?thesis using p ident h by (auto simp: holds_marker_def)
  qed
  show ?thesis
  proof (cases "bf_state_markers b")
    case None
    then show ?thesis by (simp add: holds_markers_def)
  next
    case (Some ids)
    then have "holds_ids (text_chain cs x) (bx_heap x) (bf_id b) ids" using held by (simp add: holds_markers_def)
    then have "holds_ids (text_chain cs' x) (ms_heap ms) (bf_id b) ids" unfolding holds_ids_def using one by blast
    then show ?thesis using Some by (simp add: holds_markers_def)
  qed
qed

text \<open>The buffers that a kill removes: the buffer, and for a base buffer those that share its text.\<close>

definition killed_with :: "nat \<Rightarrow> ('p, 'v, 'o) buffer_manager \<Rightarrow> nat set" where
  "killed_with i m = {j. \<exists>jv. bm_get j m = Some jv \<and> (j = i \<or> lv_base_buffer jv = Some i)}"

lemma not_base:
  assumes "manager_inv P m" "bm_get i m = Some lv" "lv_base_buffer lv \<noteq> None" "bm_get j m = Some jv"
  shows "lv_base_buffer jv \<noteq> Some i"
proof
  assume "lv_base_buffer jv = Some i"
  moreover have "base_ok m j jv" using assms(1,4) by (auto simp: manager_inv_def)
  ultimately show False using assms(2,3) by (auto simp: base_ok_def)
qed

lemma collect_sound:
  assumes m: "manager_inv P m" and i: "bm_get i m = Some lv"
  obtains ks where "collect_killed_buffer_ids i m = Some (Some ks)" "distinct ks" "set ks = killed_with i m" "hd ks = i" "sorted (tl ks)" "ks \<noteq> []"
proof (cases "lv_base_buffer lv = None \<and> lb_any_indirect (bm_buffers m)")
  case True
  have lb: "lb_ok (bm_buffers m)" using m by (simp add: manager_inv_def)
  obtain xs where xs: "lb_iter (bm_buffers m) = Some xs" "sorted_wrt (<) (map fst xs)" "\<And>i b. (i, b) \<in> set xs \<longleftrightarrow> bm_get i m = Some b"
    using lb_iter_ok [OF lb] by blast
  have id: "bf_id (lv_buffer jv) = j" if "bm_get j m = Some jv" for j jv using m that by (auto simp: manager_inv_def base_ok_def)
  let ?js = "map (\<lambda>lv. bf_id (lv_buffer lv)) (filter (\<lambda>lv. lv_base_buffer lv = Some i) (map snd xs))"
  have js: "?js = map fst (filter (\<lambda>x. lv_base_buffer (snd x) = Some i) xs)"
    using id xs(3) by (auto simp: filter_map comp_def case_prod_beta intro!: map_cong)
  have set_js: "set ?js = {j. \<exists>jv. bm_get j m = Some jv \<and> lv_base_buffer jv = Some i}"
    unfolding js using xs(3) by (force simp: image_iff)
  have "distinct (map fst xs)" using xs(2) strict_sorted_iff by blast
  then have dist: "distinct ?js" unfolding js by (rule distinct_map_filter)
  have i_not: "i \<notin> set ?js" unfolding set_js using True i by auto
  show thesis
  proof (rule that [of "i # sort ?js"])
    show "collect_killed_buffer_ids i m = Some (Some (i # sort ?js))"
      using True i xs(1) indirect_count_holds [OF lb] by (simp add: collect_killed_buffer_ids_def lb_values_def)
    show "distinct (i # sort ?js)" using dist i_not by simp
    show "set (i # sort ?js) = killed_with i m" unfolding list.set set_sort set_js using i by (auto simp: killed_with_def)
  qed simp_all
next
  case False
  have "lv_base_buffer jv \<noteq> Some i" if "bm_get j m = Some jv" for j jv
  proof (cases "lv_base_buffer lv = None")
    case True
    then have "\<not> is_indirect jv" using False any_indirect_iff [of "bm_buffers m"] m that by (auto simp: manager_inv_def)
    then show ?thesis by (simp add: is_indirect_def)
  next
    case ind: False
    show ?thesis by (rule not_base [OF m i ind that])
  qed
  then have "killed_with i m = {i}" using i by (auto simp: killed_with_def)
  moreover have "collect_killed_buffer_ids i m = Some (Some [i])"
    using False i indirect_count_holds [of "bm_buffers m"] m by (auto simp: collect_killed_buffer_ids_def manager_inv_def)
  ultimately show thesis using that [of "[i]"] by simp
qed

lemma remove_buffers_sound:
  assumes "lb_ok (bm_buffers m)" "distinct ks" "\<forall>k \<in> set ks. bm_get k m \<noteq> None"
  shows "\<exists>table. remove_buffers ks m = Some (Some (), m\<lparr>bm_buffers := table,
       bm_dead := (\<lambda>j. if j \<in> set ks then map_option lv_name (bm_get j m) else bm_dead m j)\<rparr>)
     \<and> lb_ok table \<and> (\<forall>j. lb_get j table = (if j \<in> set ks then None else bm_get j m))"
  using assms
proof (induction ks arbitrary: m)
  case Nil
  then show ?case by (intro exI [of _ "bm_buffers m"]) simp
next
  case (Cons k ks)
  obtain lv where lv: "bm_get k m = Some lv" using Cons.prems(3) by auto
  obtain t1 where t1: "lb_remove k (bm_buffers m) = Some (Some lv, t1)" "lb_ok t1" "\<And>j. lb_get j t1 = (if j = k then None else bm_get j m)"
    using lb_remove_ok [OF Cons.prems(1), of k] lv by auto
  let ?m = "m\<lparr>bm_buffers := t1, bm_dead := (bm_dead m)(k \<mapsto> lv_name lv)\<rparr>"
  have live: "\<forall>j \<in> set ks. bm_get j ?m \<noteq> None" using Cons.prems(2,3) t1(3) by auto
  have ok1: "lb_ok (bm_buffers ?m)" using t1(2) by simp
  have d1: "distinct ks" using Cons.prems(2) by simp
  obtain table where t: "remove_buffers ks ?m = Some (Some (), ?m\<lparr>bm_buffers := table,
         bm_dead := (\<lambda>j. if j \<in> set ks then map_option lv_name (bm_get j ?m) else bm_dead ?m j)\<rparr>)"
      "lb_ok table" "\<And>j. lb_get j table = (if j \<in> set ks then None else bm_get j ?m)"
    using Cons.IH [OF ok1 d1 live] by blast
  have "(\<lambda>j. if j \<in> set ks then map_option lv_name (bm_get j ?m) else bm_dead ?m j)
      = (\<lambda>j. if j \<in> set (k # ks) then map_option lv_name (bm_get j m) else bm_dead m j)"
    using Cons.prems(2) t1(3) lv by (auto simp: fun_eq_iff)
  then have "remove_buffers (k # ks) m = Some (Some (), m\<lparr>bm_buffers := table,
       bm_dead := (\<lambda>j. if j \<in> set (k # ks) then map_option lv_name (bm_get j m) else bm_dead m j)\<rparr>)"
    using t1(1) t(1) by simp
  then show ?case using t(2,3) t1(3) by auto
qed

lemma kill_sound:
  assumes m: "manager_ok m" and i: "bm_get i m = Some lv"
  shows "\<exists>ks m'. kill_buffer_collect i m = Some (Some ks, m') \<and> distinct ks \<and> set ks = killed_with i m \<and> manager_ok m' \<and> follows m m'
    \<and> (\<forall>j. bm_get j m' = (if j \<in> set ks then None else bm_get j m))
    \<and> (\<forall>j. bm_dead m' j = (if j \<in> set ks then map_option lv_name (bm_get j m) else bm_dead m j))
    \<and> bm_order m' = filter (\<lambda>j. j \<notin> set ks) (bm_order m)
    \<and> bm_current m' = (if pred_option (\<lambda>c. c \<notin> set ks) (bm_current m) then bm_current m else None)
    \<and> bm_next_id m' = bm_next_id m \<and> bm_next_marker_id m' = bm_next_marker_id m"
proof -
  obtain ks where ks: "collect_killed_buffer_ids i m = Some (Some ks)" "distinct ks" "set ks = killed_with i m"
    by (rule collect_sound [OF m i]) (rule that)
  obtain x cs where x: "bm_texts m (text_root lv) = Some x" "text_inv on_text m (text_root lv) cs x"
      "get_text lv m = Some (x\<lparr>tx_saved_point := bm_saved_point m\<rparr>)" "text_ok cs x" "bf_id (lv_buffer lv) = i"
      "given_out (bm_next_marker_id m) (bm_next_address m) cs x"
    by (rule buffer_of_manager [OF m i])
  let ?x = "x\<lparr>tx_saved_point := bm_saved_point m\<rparr>"
  have x': "text_ok cs ?x" "given_out (bm_next_marker_id m) (bm_next_address m) cs ?x" using x(4,6) by simp_all
  obtain ms cs' where ms: "remove_markers_for_buffers (st_markers (tx_storage ?x)) (set ks) (tx_markers ?x) = Some ms"
    "text_ok cs' (?x\<lparr>tx_markers := ms\<rparr>)" "given_out (bm_next_marker_id m) (bm_next_address m) cs' (?x\<lparr>tx_markers := ms\<rparr>)"
    "text_chain cs' ?x = filter (\<lambda>q. \<not> belongs_to_killed (set ks) (the (bx_heap ?x q))) (text_chain cs ?x)"
    "\<forall>q \<in> set (text_chain cs' ?x). map_option marker_ident (ms_heap ms q) = map_option marker_ident (bx_heap ?x q)"
    by (rule purge_sound [OF x']) (rule that)
  let ?y = "?x\<lparr>tx_markers := ms\<rparr>"
  let ?m1 = "m\<lparr>bm_texts := (bm_texts m)(text_root lv \<mapsto> ?y)\<rparr>"
  have lb: "lb_ok (bm_buffers ?m1)" using m by (simp add: manager_inv_def)
  have live: "\<forall>k \<in> set ks. bm_get k ?m1 \<noteq> None" using ks(3) by (auto simp: killed_with_def)
  define dead where "dead = (\<lambda>j. if j \<in> set ks then map_option lv_name (bm_get j m) else bm_dead m j)"
  obtain table where t: "remove_buffers ks ?m1 = Some (Some (), ?m1\<lparr>bm_buffers := table, bm_dead := dead\<rparr>)"
      "lb_ok table" "\<And>j. lb_get j table = (if j \<in> set ks then None else bm_get j m)"
    using remove_buffers_sound [OF lb ks(2) live] unfolding dead_def by (auto cong: if_cong)
  let ?cur = "case bm_current m of Some c \<Rightarrow> if c \<in> set ks then None else Some c | None \<Rightarrow> None"
  define m' where "m' = ?m1\<lparr>bm_buffers := table, bm_dead := dead,
     bm_texts := (\<lambda>r. if r \<in> set ks then None else bm_texts ?m1 r), bm_order := filter (\<lambda>j. j \<notin> set ks) (bm_order m), bm_current := ?cur\<rparr>"
  have run: "kill_buffer_collect i m = Some (Some ks, m')"
    using ks(1) i x(3) ms(1) t(1) by (simp add: kill_buffer_collect_def and_then_def m'_def Let_def cong: if_cong)
  have get: "bm_get j m' = (if j \<in> set ks then None else bm_get j m)" for j using t(3) by (simp add: m'_def)
  have texts: "bm_texts m' r = (if r \<in> set ks then None else if r = text_root lv then Some ?y else bm_texts m r)" for r
    by (simp add: m'_def)
  have root_alive: "r \<notin> set ks" if "j \<notin> set ks" "bm_get j m = Some jv" "lv_base_buffer jv = Some r" for r j jv
  proof
    assume "r \<in> set ks"
    then obtain rv where rv: "bm_get r m = Some rv" "r = i \<or> lv_base_buffer rv = Some i" using ks(3) by (auto simp: killed_with_def)
    have "r \<noteq> i" using that ks(3) by (auto simp: killed_with_def)
    then have "lv_base_buffer rv \<noteq> None" using rv(2) by auto
    then show False using not_base [OF m rv(1) _ that(2)] that(3) by blast
  qed
  have root_out: "text_root jv \<notin> set ks" if j: "j \<notin> set ks" "bm_get j m = Some jv" for j jv
  proof (cases "lv_base_buffer jv")
    case None
    have "base_ok m j jv" using m j(2) by (auto simp: manager_inv_def)
    then show ?thesis using None j(1) by (simp add: text_root_def base_ok_def)
  next
    case (Some r)
    then show ?thesis using root_alive [OF j Some] by (simp add: text_root_def)
  qed
  have base: "base_ok m' j jv" if j: "bm_get j m' = Some jv" for j jv
  proof -
    have jm: "j \<notin> set ks" "bm_get j m = Some jv" using j get [of j] by (auto split: if_splits)
    have "base_ok m j jv" using m jm(2) by (auto simp: manager_inv_def)
    moreover have "bm_next_id m' = bm_next_id m" by (simp add: m'_def)
    ultimately show ?thesis using get root_alive [OF jm] unfolding base_ok_def by auto
  qed
  have counters: "bm_next_marker_id m' = bm_next_marker_id m" "bm_next_address m' = bm_next_address m" "bm_next_id m' = bm_next_id m"
    by (simp_all add: m'_def)
  have inv: "\<exists>z csz. bm_texts m' (text_root jv) = Some z \<and> text_inv on_text m' (text_root jv) csz z" if j: "bm_get j m' = Some jv" for j jv
  proof -
    have jm: "j \<notin> set ks" "bm_get j m = Some jv" using j get [of j] by (auto split: if_splits)
    show ?thesis
    proof (cases "text_root jv = text_root lv")
      case True
      have "on_text k (lv_buffer kv) (bx_mb ?y) (bx_text ?y) \<and> holds_markers cs' ?y (lv_buffer kv)"
        if k: "bm_get k m' = Some kv" "text_root kv = text_root lv" for k kv
      proof -
        have km: "k \<notin> set ks" "bm_get k m = Some kv" using k(1) get [of k] by (auto split: if_splits)
        note ti = text_invD [OF x(2) km(2) k(2)]
        have "bf_id (lv_buffer kv) = k" using m km(2) by (auto simp: manager_inv_def base_ok_def)
        then have "bf_id (lv_buffer kv) \<notin> set ks" using km(1) by simp
        moreover have "holds_markers cs ?x (lv_buffer kv)" using ti(4) by simp
        ultimately have "holds_markers cs' ?y (lv_buffer kv)"
          by (intro purged_holds [where x = ?x and cs = cs and killed = "set ks"]) (use ms(4,5) in simp_all)
        then show ?thesis using ti(3) by simp
      qed
      then have "text_inv on_text m' (text_root jv) cs' ?y"
        using ms(2,3) True counters(1,2) by (simp add: text_inv_def)
      then show ?thesis using texts [of "text_root jv"] root_out [OF jm] True by auto
    next
      case False
      obtain z csz where z: "bm_texts m (text_root jv) = Some z" "text_inv on_text m (text_root jv) csz z"
        by (rule manager_invD [OF m jm(2)])
      have "text_inv on_text m' (text_root jv) csz z"
        by (rule text_inv_fewer [OF z(2)]) (use get counters in \<open>auto split: if_splits\<close>)
      then show ?thesis using texts [of "text_root jv"] root_out [OF jm] False z(1) by auto
    qed
  qed
  have order: "distinct (bm_order m')" "\<And>j. j \<in> set (bm_order m') \<longleftrightarrow> bm_get j m' \<noteq> None"
    using order_ok(1,2) [OF m] get by (auto simp: m'_def)
  have cur: "bm_current m' = (if pred_option (\<lambda>c. c \<notin> set ks) (bm_current m) then bm_current m else None)"
    by (cases "bm_current m") (simp_all add: m'_def)
  have "pred_option (\<lambda>c. bm_get c m' \<noteq> None) (bm_current m')"
    using m cur get by (cases "bm_current m") (auto simp: manager_inv_def)
  moreover have "lb_ok (bm_buffers m')" using t(2) by (simp add: m'_def)
  ultimately have ok: "manager_ok m'" unfolding manager_inv_def using base inv order by blast
  have "follows_text x ?y" by (rule follows_same) simp_all
  then have fol: "follows m m'" using x(1) texts counters(3) by (auto simp: follows_def split: if_splits)
  have dead: "bm_dead m' j = (if j \<in> set ks then map_option lv_name (bm_get j m) else bm_dead m j)" for j by (simp add: m'_def dead_def)
  have "bm_order m' = filter (\<lambda>j. j \<notin> set ks) (bm_order m)" by (simp add: m'_def)
  then show ?thesis using run ks(2,3) ok fol get dead cur counters by blast
qed

end
