(* ===== verification/Shared_Edit.thy ===== *)
theory Shared_Edit
  imports Buffer_Lifecycle
begin

text \<open>
  Edits of a text that several buffers share: the last part of
  \<open>src/crates/neovm-core/src/buffer/edit_transaction.rs\<close> and the entry points of the buffer manager in
  \<open>src/crates/neovm-core/src/buffer/insdel.rs\<close>. The edited buffer runs its executor, which changes the text, its
  markers and its properties once; then every other buffer on the text gets the description of the
  edit, moves its point, its region and its overlays, and a buffer that keeps its state in markers reads it
  back from them.

  Entry points over a Rust \<open>&str\<close> and the transposition of regions are left out. An operation returns an
  option as in \<open>Buffer_Manager\<close>: no value is a panic, and the value is a pair of the result and the manager.
\<close>

subsection \<open>The description of an edit\<close>

text \<open>The transposition of two regions is left out.\<close>

datatype shared_text_edit_metadata =
  SE_Insert measured_insert_edit
| SE_Delete measured_delete_edit
| SE_Replace measured_replace_edit
| SE_Same_Len measured_same_len_edit same_len_modified_state_policy

datatype shared_text_edit_state_policy = No_State_Fields | State_Fields shared_buffer_state_update

fun state_policy_for_shared_sibling :: "shared_text_edit_metadata \<Rightarrow> shared_buffer_state_update \<Rightarrow> shared_text_edit_state_policy" where
  "state_policy_for_shared_sibling (SE_Same_Len e p) u = No_State_Fields"
| "state_policy_for_shared_sibling edit u = State_Fields u"

fun state_update :: "shared_text_edit_state_policy \<Rightarrow> shared_buffer_state_update option" where
  "state_update No_State_Fields = None"
| "state_update (State_Fields u) = Some u"

text \<open>No value is a panic.\<close>

definition structural_state_update :: "shared_text_edit_state_policy \<Rightarrow> shared_buffer_state_update option" where
  "structural_state_update p = state_update p"

definition needs_state_marker_refresh :: "shared_buffer_state_update \<Rightarrow> bool" where
  "needs_state_marker_refresh u \<longleftrightarrow> u = RefreshFromStateMarkers"

datatype edit_scope = Solo | Shared_With nat "nat list"

fun siblings :: "edit_scope \<Rightarrow> nat list" where
  "siblings Solo = []"
| "siblings (Shared_With edited_id buffer_ids) = filter (\<lambda>j. j \<noteq> edited_id) buffer_ids"

fun apply_shared_text_edit_side_effects ::
    "('p, 'o) side_data_ops \<Rightarrow> shared_text_edit_metadata \<Rightarrow> shared_text_edit_state_policy \<Rightarrow> ('v, 'o) buffer \<Rightarrow> ('p, 'v) text_object
      \<Rightarrow> (('v, 'o) buffer \<times> ('p, 'v) text_object) option" where
  "apply_shared_text_edit_side_effects ops (SE_Insert e) policy b x = do {
     u \<leftarrow> structural_state_update policy;
     apply_byte_insert_side_effects ops e (insert_policy_shared u) b x
   }"
| "apply_shared_text_edit_side_effects ops (SE_Delete e) policy b x = do {
     u \<leftarrow> structural_state_update policy;
     apply_byte_delete_side_effects ops e (delete_policy_shared u) b x
   }"
| "apply_shared_text_edit_side_effects ops (SE_Replace e) policy b x = do {
     u \<leftarrow> structural_state_update policy;
     apply_replace_side_effects ops e (replace_policy_shared u) b x
   }"
| "apply_shared_text_edit_side_effects ops (SE_Same_Len e modified_state) policy b x =
     Some (b, apply_same_len_edit_side_effects e modified_state b x)"

subsection \<open>An edit and the other buffers on the text\<close>

definition shared_text_edit_scope :: "nat \<Rightarrow> ('p, 'v, 'o) buffer_manager \<Rightarrow> edit_scope option option" where
  "shared_text_edit_scope edited_id m =
     (case shared_text_root_id edited_id m of
        None \<Rightarrow> Some None
      | Some root_id \<Rightarrow>
          if \<not> any_indirect_buffer m then Some (Some Solo)
          else do {
            ids \<leftarrow> buffers_sharing_root_ids root_id m;
            Some (Some (Shared_With edited_id ids))
          })"

definition shared_sibling_state_update :: "nat \<Rightarrow> ('p, 'v, 'o) buffer_manager \<Rightarrow> shared_buffer_state_update" where
  "shared_sibling_state_update j m =
     (if bm_current m = Some j \<or> \<not> buffer_has_state_markers j m then UpdateFields else RefreshFromStateMarkers)"

definition refresh_shared_buffer_state_cache ::
    "nat \<Rightarrow> shared_buffer_state_update \<Rightarrow> ('p, 'v, 'o) buffer_manager \<Rightarrow> (unit option \<times> ('p, 'v, 'o) buffer_manager) option" where
  "refresh_shared_buffer_state_cache j u m =
     (if needs_state_marker_refresh u then mg_fetch_buffer_state_markers j m else Some (Some (), m))"

definition apply_shared_text_edit_to_sibling ::
    "('p, 'o) side_data_ops \<Rightarrow> shared_text_edit_metadata \<Rightarrow> nat \<Rightarrow> ('p, 'v, 'o) buffer_manager
      \<Rightarrow> (unit option \<times> ('p, 'v, 'o) buffer_manager) option" where
  "apply_shared_text_edit_to_sibling ops edit j m =
     (let policy = state_policy_for_shared_sibling edit (shared_sibling_state_update j m)
      in and_then (on_buffer j (\<lambda>b x. do {
             (b, x) \<leftarrow> apply_shared_text_edit_side_effects ops edit policy b x;
             Some ((), b, x)
           }) m)
         (\<lambda>_ m. case state_update policy of
            Some u \<Rightarrow> refresh_shared_buffer_state_cache j u m
          | None \<Rightarrow> Some (Some (), m)))"

fun apply_shared_text_edit_to_siblings ::
    "('p, 'o) side_data_ops \<Rightarrow> shared_text_edit_metadata \<Rightarrow> nat list \<Rightarrow> ('p, 'v, 'o) buffer_manager
      \<Rightarrow> (unit option \<times> ('p, 'v, 'o) buffer_manager) option" where
  "apply_shared_text_edit_to_siblings ops edit [] m = Some (Some (), m)"
| "apply_shared_text_edit_to_siblings ops edit (j # js) m =
     and_then (apply_shared_text_edit_to_sibling ops edit j m) (\<lambda>_ m. apply_shared_text_edit_to_siblings ops edit js m)"

text \<open>The edit of the current buffer gives its result and, unless nothing was changed, its description.\<close>

definition execute_shared_text_edit ::
    "('p, 'o) side_data_ops \<Rightarrow> nat
      \<Rightarrow> (('v, 'o) buffer \<Rightarrow> ('p, 'v) text_object
          \<Rightarrow> (('a \<times> shared_text_edit_metadata option) \<times> ('v, 'o) buffer \<times> ('p, 'v) text_object) option)
      \<Rightarrow> ('p, 'v, 'o) buffer_manager \<Rightarrow> ('a option \<times> ('p, 'v, 'o) buffer_manager) option" where
  "execute_shared_text_edit ops edited_id edit_current m = do {
     scope \<leftarrow> shared_text_edit_scope edited_id m;
     case scope of
       None \<Rightarrow> Some (None, m)
     | Some scope \<Rightarrow>
         and_then (on_buffer edited_id edit_current m) (\<lambda>(result, edit) m.
           case edit of
             None \<Rightarrow> Some (Some result, m)
           | Some edit \<Rightarrow> and_then (apply_shared_text_edit_to_siblings ops edit (siblings scope) m) (\<lambda>_ m. Some (Some result, m)))
   }"

subsection \<open>Entry points\<close>

definition edit_range_for_buffer_emacs_byte_range ::
    "nat \<Rightarrow> emacs_byte_range \<Rightarrow> ('p, 'v, 'o) buffer_manager \<Rightarrow> (text_edit_range option \<times> ('p, 'v, 'o) buffer_manager) option" where
  "edit_range_for_buffer_emacs_byte_range i r m =
     on_buffer i (\<lambda>b x. do { (e, x) \<leftarrow> edit_range_for_emacs_byte_range r x; Some (e, b, x) }) m"

definition edit_range_for_buffer_char_range ::
    "nat \<Rightarrow> char_range \<Rightarrow> ('p, 'v, 'o) buffer_manager \<Rightarrow> (text_edit_range option \<times> ('p, 'v, 'o) buffer_manager) option" where
  "edit_range_for_buffer_char_range i r m =
     on_buffer i (\<lambda>b x. do { (e, x) \<leftarrow> edit_range_for_char_range r x; Some (e, b, x) }) m"

definition insert_lisp_string_into_buffer_full ::
    "('p, 'o) side_data_ops \<Rightarrow> nat \<Rightarrow> 'p lisp_string \<Rightarrow> insert_marker_adjustment \<Rightarrow> ('p, 'v, 'o) buffer_manager
      \<Rightarrow> (unit option \<times> ('p, 'v, 'o) buffer_manager) option" where
  "insert_lisp_string_into_buffer_full ops i str adjustment m =
     (if ls_bytes str = [] then Some (Some (), m)
      else execute_shared_text_edit ops i (\<lambda>b x. do {
        (ins, b, x) \<leftarrow> (if adjustment = StrictAfter then insert_lisp_string_for_replace ops str b x else insert_lisp_string ops str b x);
        Some (((), Some (SE_Insert \<lparr>mi_insertion = ins, mi_marker_placement = AfterMarkers, mi_marker_adjustment = adjustment\<rparr>)), b, x)
      }) m)"

definition insert_lisp_string_into_buffer ::
    "('p, 'o) side_data_ops \<Rightarrow> nat \<Rightarrow> 'p lisp_string \<Rightarrow> ('p, 'v, 'o) buffer_manager \<Rightarrow> (unit option \<times> ('p, 'v, 'o) buffer_manager) option" where
  "insert_lisp_string_into_buffer ops i str = insert_lisp_string_into_buffer_full ops i str ByInsertionType"

definition insert_lisp_string_into_buffer_for_replace ::
    "('p, 'o) side_data_ops \<Rightarrow> nat \<Rightarrow> 'p lisp_string \<Rightarrow> ('p, 'v, 'o) buffer_manager \<Rightarrow> (unit option \<times> ('p, 'v, 'o) buffer_manager) option" where
  "insert_lisp_string_into_buffer_for_replace ops i str = insert_lisp_string_into_buffer_full ops i str StrictAfter"

definition insert_lisp_string_into_buffer_before_markers ::
    "('p, 'o) side_data_ops \<Rightarrow> nat \<Rightarrow> 'p lisp_string \<Rightarrow> ('p, 'v, 'o) buffer_manager \<Rightarrow> (unit option \<times> ('p, 'v, 'o) buffer_manager) option" where
  "insert_lisp_string_into_buffer_before_markers ops i str m =
     (if ls_bytes str = [] then Some (Some (), m)
      else execute_shared_text_edit ops i (\<lambda>b x. do {
        (ins, b, x) \<leftarrow> insert_lisp_string_before_markers ops str b x;
        Some (((), Some (SE_Insert \<lparr>mi_insertion = ins, mi_marker_placement = BeforeMarkers, mi_marker_adjustment = ByInsertionType\<rparr>)), b, x)
      }) m)"

definition delete_buffer_measured_region ::
    "('p, 'o) side_data_ops \<Rightarrow> nat \<Rightarrow> text_edit_range \<Rightarrow> ('p, 'v, 'o) buffer_manager \<Rightarrow> (unit option \<times> ('p, 'v, 'o) buffer_manager) option" where
  "delete_buffer_measured_region ops i r m =
     (if edit_range_is_empty r then Some (Some (), m)
      else execute_shared_text_edit ops i (\<lambda>b x. do {
        (e, b, x) \<leftarrow> delete_measured_region ops r b x;
        Some (((), Some (SE_Delete e)), b, x)
      }) m)"

definition delete_buffer_emacs_byte_range ::
    "('p, 'o) side_data_ops \<Rightarrow> nat \<Rightarrow> emacs_byte_range \<Rightarrow> ('p, 'v, 'o) buffer_manager \<Rightarrow> (unit option \<times> ('p, 'v, 'o) buffer_manager) option" where
  "delete_buffer_emacs_byte_range ops i r m =
     (if byte_range_is_empty r then Some (Some (), m)
      else and_then (edit_range_for_buffer_emacs_byte_range i r m) (delete_buffer_measured_region ops i))"

definition delete_buffer_char_range ::
    "('p, 'o) side_data_ops \<Rightarrow> nat \<Rightarrow> char_range \<Rightarrow> ('p, 'v, 'o) buffer_manager \<Rightarrow> (unit option \<times> ('p, 'v, 'o) buffer_manager) option" where
  "delete_buffer_char_range ops i r m =
     (if char_range_is_empty r then Some (Some (), m)
      else and_then (edit_range_for_buffer_char_range i r m) (delete_buffer_measured_region ops i))"

definition delete_and_extract_buffer_measured_region ::
    "('p, 'o) side_data_ops \<Rightarrow> nat \<Rightarrow> text_edit_range \<Rightarrow> ('p, 'v, 'o) buffer_manager
      \<Rightarrow> ('p lisp_string option \<times> ('p, 'v, 'o) buffer_manager) option" where
  "delete_and_extract_buffer_measured_region ops i r m =
     (if edit_range_is_empty r then Some (None, m)
      else execute_shared_text_edit ops i (\<lambda>b x. do {
        (e, str, b, x) \<leftarrow> delete_and_extract_measured_region ops r b x;
        Some ((str, Some (SE_Delete e)), b, x)
      }) m)"

definition replace_buffer_measured_region_lisp_string ::
    "('p, 'o) side_data_ops \<Rightarrow> nat \<Rightarrow> text_edit_range \<Rightarrow> 'p lisp_string \<Rightarrow> ('p, 'v, 'o) buffer_manager
      \<Rightarrow> (unit option \<times> ('p, 'v, 'o) buffer_manager) option" where
  "replace_buffer_measured_region_lisp_string ops i r str m =
     (if edit_range_is_empty r \<and> ls_bytes str = [] then Some (Some (), m)
      else execute_shared_text_edit ops i (\<lambda>b x. do {
        (rep, b, x) \<leftarrow> replace_measured_region_lisp_string ops r str b x;
        Some (((), Some (SE_Replace rep)), b, x)
      }) m)"

definition replace_buffer_emacs_byte_range_lisp_string ::
    "('p, 'o) side_data_ops \<Rightarrow> nat \<Rightarrow> emacs_byte_range \<Rightarrow> 'p lisp_string \<Rightarrow> ('p, 'v, 'o) buffer_manager
      \<Rightarrow> (unit option \<times> ('p, 'v, 'o) buffer_manager) option" where
  "replace_buffer_emacs_byte_range_lisp_string ops i r str m =
     (if br_end r < br_start r then Some (None, m)
      else and_then (edit_range_for_buffer_emacs_byte_range i r m)
             (\<lambda>e m. replace_buffer_measured_region_lisp_string ops i e str m))"

definition casify_replace_buffer_emacs_byte_range_lisp_string ::
    "('p, 'o) side_data_ops \<Rightarrow> nat \<Rightarrow> emacs_byte_range \<Rightarrow> 'p lisp_string \<Rightarrow> ('p, 'v, 'o) buffer_manager
      \<Rightarrow> (unit option \<times> ('p, 'v, 'o) buffer_manager) option" where
  "casify_replace_buffer_emacs_byte_range_lisp_string ops i r str m =
     (if br_end r \<le> br_start r then Some (None, m)
      else and_then (edit_range_for_buffer_emacs_byte_range i r m) (\<lambda>e m.
        if edit_range_is_empty e then Some (None, m)
        else case bm_get i m of
          None \<Rightarrow> Some (None, m)
        | Some lv \<Rightarrow> do {
            plan \<leftarrow> replace_plan_from_lisp_string e str (bf_multibyte (lv_buffer lv));
            execute_shared_text_edit ops i (\<lambda>b x. do {
              (rep, b, x) \<leftarrow> execute_casify_replace_text_plan ops plan b x;
              Some (((), Some (SE_Replace rep)), b, x)
            }) m
          }))"

definition subst_char_in_buffer_region ::
    "('p, 'o) side_data_ops \<Rightarrow> nat \<Rightarrow> text_edit_range \<Rightarrow> text_edit_range \<Rightarrow> u32 \<Rightarrow> bytes \<Rightarrow> bool \<Rightarrow> ('p, 'v, 'o) buffer_manager
      \<Rightarrow> (bool option \<times> ('p, 'v, 'o) buffer_manager) option" where
  "subst_char_in_buffer_region ops i r modified from_code to_bytes noundo m =
     (if byte_range_is_empty (er_bytes r) then Some (Some False, m)
      else let edit = \<lparr>sl_storage_range = r, sl_modified_range = modified\<rparr>
           in execute_shared_text_edit ops i (\<lambda>b x. do {
             (changed, x) \<leftarrow> subst_char_in_region ops r modified from_code to_bytes noundo b x;
             Some (if changed then ((True, Some (SE_Same_Len edit RecordChange)), b, x) else ((False, None), b, x))
           }) m)"

subsection \<open>Edits leave alone what the markers are\<close>

definition idents :: "('p, 'v) text_object \<Rightarrow> nat \<Rightarrow> (nat option \<times> nat option \<times> bool) option" where
  "idents x = (\<lambda>q. map_option marker_ident (bx_heap x q))"

lemma idents_same: "idents x' = idents x \<longleftrightarrow> same_idents (bx_heap x) (bx_heap x')"
  by (simp add: idents_def same_idents_def fun_eq_iff)

lemma idents_simps [simp]:
  "idents (x\<lparr>tx_storage := s\<rparr>) = idents x" "idents (x\<lparr>tx_undo_list := ul\<rparr>) = idents x" "idents (x\<lparr>tx_props := props\<rparr>) = idents x"
  "idents (x\<lparr>tx_changes := c\<rparr>) = idents x" "idents (x\<lparr>tx_saved_point := sp\<rparr>) = idents x"
  "idents (note_char_change n i j z x) = idents x" "idents (adjust_text_props_for_insert_at ops p l x) = idents x"
  "idents (adjust_text_props_for_delete_range ops cr x) = idents x" "idents (adjust_text_props_for_replace_at ops p l l' x) = idents x"
  "idents (undo_prepare_change beg b x) = idents x"
  by (simp_all add: idents_def)

lemma walk_idents:
  assumes "chain_walk_mut f cur h = Some h'" "\<And>m m'. f m = Some m' \<Longrightarrow> marker_ident m' = marker_ident m"
  shows "same_idents h h'"
proof -
  let ?P = "\<lambda>f cur h h'. (\<forall>m m'. f m = Some m' \<longrightarrow> marker_ident m' = marker_ident m) \<longrightarrow> same_idents h h'"
  have "?P f cur h h'"
  proof (rule chain_walk_mut.raw_induct [where P = ?P, OF _ assms(1)], rule impI)
    fix walk and f :: "lisp_marker \<Rightarrow> lisp_marker option" and cur h h'
    assume IH: "\<And>f cur h h'. walk f cur h = Some h' \<Longrightarrow> ?P f cur h h'"
      and eq: "(case cur of None \<Rightarrow> Some h
        | Some p \<Rightarrow> Option.bind (h p) (\<lambda>m. Option.bind (f m) (\<lambda>m. walk f (mk_next m) (h(p \<mapsto> m))))) = Some h'"
      and f: "\<forall>m m'. f m = Some m' \<longrightarrow> marker_ident m' = marker_ident m"
    show "same_idents h h'"
    proof (cases cur)
      case None
      then show ?thesis using eq by simp
    next
      case (Some p)
      then obtain m m' where m: "h p = Some m" "f m = Some m'" "walk f (mk_next m') (h(p \<mapsto> m')) = Some h'"
        using eq by (auto simp: bind_eq_Some_conv)
      have "same_idents h (h(p \<mapsto> m'))" using m(1,2) f by (simp add: same_idents_def)
      then show ?thesis using IH [OF m(3)] f same_idents_trans by blast
    qed
  qed
  then show ?thesis using assms(2) by blast
qed

lemma moved_ident:
  "apply_marker_data_delta m d = Some m' \<Longrightarrow> marker_ident m' = marker_ident m"
  "marker_ident (set_marker_data_anchor m a) = marker_ident m"
  by (auto simp: apply_marker_data_delta_def set_marker_data_anchor_def marker_ident_def bind_eq_Some_conv)

lemma update_idents:
  assumes "chain_update f t s = Some s'" "\<And>m m'. f m = Some m' \<Longrightarrow> marker_ident m' = marker_ident m"
  shows "same_idents (ms_heap s) (ms_heap s')"
  using assms walk_idents [of f "ms_heads s t" "ms_heap s"] by (auto simp: chain_update_def bind_eq_Some_conv)

lemma adjust_idents:
  "adjust_markers_for_insert_extent t k e s = Some s' \<Longrightarrow> same_idents (ms_heap s) (ms_heap s')"
  "adjust_markers_for_insert_extent_strict_after t k e s = Some s' \<Longrightarrow> same_idents (ms_heap s) (ms_heap s')"
  "adjust_markers_for_delete_range t r s = Some s' \<Longrightarrow> same_idents (ms_heap s) (ms_heap s')"
  "advance_markers_at_position t k e s = Some s' \<Longrightarrow> same_idents (ms_heap s) (ms_heap s')"
  by (auto simp: adjust_markers_for_insert_extent_def adjust_markers_for_insert_extent_strict_after_def adjust_markers_for_delete_range_def
      advance_markers_at_position_def marker_after_insert_def marker_after_insert_strict_def marker_after_delete_def
      marker_at_position_advanced_def Let_def moved_ident elim!: update_idents split: if_splits dest: moved_ident(1))

lemma adjust_replace_idents:
  "adjust_markers_for_replace_range t r e s = Some s' \<Longrightarrow> same_idents (ms_heap s) (ms_heap s')"
  by (auto simp: adjust_markers_for_replace_range_def marker_after_replace_def moved_ident
      elim!: update_idents adjust_idents split: if_splits dest: moved_ident(1))

lemma on_markers_idents:
  assumes "on_markers f x = Some x'" "\<And>t s s'. f t s = Some s' \<Longrightarrow> same_idents (ms_heap s) (ms_heap s')"
  shows "idents x' = idents x"
  using assms by (auto simp: on_markers_def bind_eq_Some_conv idents_same)

lemma insert_effects_idents:
  "apply_byte_insert_side_effects ops e p b x = Some (b', x') \<Longrightarrow> idents x' = idents x"
  by (auto simp: apply_byte_insert_side_effects_def Let_def bind_eq_Some_conv dest!: on_markers_idents adjust_idents(1,2) split: if_splits)

lemma delete_effects_idents:
  "apply_byte_delete_side_effects ops r p b x = Some (b', x') \<Longrightarrow> idents x' = idents x"
  by (auto simp: apply_byte_delete_side_effects_def Let_def bind_eq_Some_conv dest!: on_markers_idents adjust_idents(3) split: if_splits)

lemma replace_effects_idents:
  "apply_replace_side_effects ops e p b x = Some (b', x') \<Longrightarrow> idents x' = idents x"
  by (auto simp: apply_replace_side_effects_def Let_def bind_eq_Some_conv dest!: on_markers_idents adjust_replace_idents split: if_splits)

lemma append_props_idents:
  "text_props_append_shifted_at_emacs_byte_pos ops p k x = Some x' \<Longrightarrow> idents x' = idents x"
  by (auto simp: text_props_append_shifted_at_emacs_byte_pos_def bind_eq_Some_conv)

lemma seat_properties_idents:
  "seat_replacement_properties ops plan x = Some x' \<Longrightarrow> idents x' = idents x"
  by (auto simp: seat_replacement_properties_def Let_def text_props_set_properties_in_emacs_byte_range_def bind_eq_Some_conv
      dest: append_props_idents split: if_splits)

lemma apply_insert_idents:
  "apply_insert_text_plan ops bs plan b x = Some (i, b', x') \<Longrightarrow> idents x' = idents x"
  by (auto simp: apply_insert_text_plan_def Let_def bind_eq_Some_conv
      dest!: append_props_idents insert_effects_idents on_markers_idents adjust_idents(4) split: if_splits)

lemma region_string_idents:
  "buffer_region_lisp_string ops r b x = Some (str, x') \<Longrightarrow> idents x' = idents x"
  by (auto simp: buffer_region_lisp_string_def Let_def bind_eq_Some_conv)

lemma execute_insert_idents:
  "execute_insert_text_plan ops bs plan b x = Some (i, b', x') \<Longrightarrow> idents x' = idents x"
  by (auto simp: execute_insert_text_plan_def Let_def dest!: apply_insert_idents split: if_splits)

lemma execute_delete_idents:
  "execute_delete_text_plan_extracting ops plan b x = Some (r, str, b', x') \<Longrightarrow> idents x' = idents x"
  by (auto simp: execute_delete_text_plan_extracting_def Let_def bind_eq_Some_conv
      dest!: delete_effects_idents region_string_idents split: if_splits option.splits)

lemma execute_replace_idents:
  "execute_replace_text_plan ops plan b x = Some (rep, b', x') \<Longrightarrow> idents x' = idents x"
  by (auto simp: execute_replace_text_plan_def record_replace_range_undo_def Let_def bind_eq_Some_conv
      dest!: replace_effects_idents apply_insert_idents seat_properties_idents region_string_idents split: if_splits)

lemma same_len_effects_idents: "idents (apply_same_len_edit_side_effects e ms b x) = idents x"
  by (simp add: apply_same_len_edit_side_effects_def Let_def)

lemma execute_casify_idents:
  "execute_casify_replace_text_plan ops plan b x = Some (rep, b', x') \<Longrightarrow> idents x' = idents x"
  by (auto simp: execute_casify_replace_text_plan_def Let_def bind_eq_Some_conv same_len_effects_idents
      dest!: replace_effects_idents seat_properties_idents region_string_idents split: if_splits)

lemma edit_range_idents: "edit_range_for_emacs_byte_range r x = Some (e, x') \<Longrightarrow> idents x' = idents x"
  by (auto simp: edit_range_for_emacs_byte_range_def bind_eq_Some_conv)

lemma delete_plan_idents: "delete_text_plan_for_range_extracting ops r want b x = Some (plan, x') \<Longrightarrow> idents x' = idents x"
  by (auto simp: delete_text_plan_for_range_extracting_def Let_def bind_eq_Some_conv dest!: region_string_idents split: if_splits)

lemma insert_string_idents:
  "insert_lisp_string_full ops str placement adjustment b x = Some (i, b', x') \<Longrightarrow> idents x' = idents x"
  by (auto simp: insert_lisp_string_full_def bind_eq_Some_conv dest!: execute_insert_idents split: if_splits)

lemma replace_region_idents:
  "replace_measured_region_lisp_string ops r str b x = Some (rep, b', x') \<Longrightarrow> idents x' = idents x"
  by (auto simp: replace_measured_region_lisp_string_def bind_eq_Some_conv dest!: execute_replace_idents)

lemma delete_region_idents:
  "delete_measured_region ops r b x = Some (e, b', x') \<Longrightarrow> idents x' = idents x"
  by (auto simp: delete_measured_region_def bind_eq_Some_conv dest!: execute_delete_idents delete_plan_idents split: if_splits)

lemma delete_extract_idents:
  "delete_and_extract_measured_region ops r b x = Some (e, str, b', x') \<Longrightarrow> idents x' = idents x"
  by (auto simp: delete_and_extract_measured_region_def bind_eq_Some_conv dest!: execute_delete_idents delete_plan_idents)

subsection \<open>The other buffers on the text\<close>

text \<open>
  While an edit is handed on, some buffers still have a state of the old text. A description of an
  edit says how the new text comes from the old one.
\<close>

definition pending :: "nat set \<Rightarrow> bytes \<Rightarrow> nat \<Rightarrow> ('v, 'o) buffer \<Rightarrow> bool \<Rightarrow> bytes \<Rightarrow> bool" where
  "pending S old j b mb tx \<longleftrightarrow> bf_multibyte b = mb \<and> state_ok mb (if j \<in> S then old else tx) (edit_state b)"

lemma pending_none: "pending {} old = on_text"
  by (simp add: fun_eq_iff pending_def on_text_def)

fun edit_describes :: "bool \<Rightarrow> bytes \<Rightarrow> bytes \<Rightarrow> shared_text_edit_metadata \<Rightarrow> bool" where
  "edit_describes mb old new (SE_Insert e) \<longleftrightarrow> (\<exists>c k bs ext. char_offset mb old c k \<and> measured_text mb bs ext
     \<and> mi_insertion e = insertion_at_anchor (anchor_new c k) ext \<and> new = insert_at k bs old)"
| "edit_describes mb old new (SE_Delete r) \<longleftrightarrow> measured_range mb old r \<and> new = delete_range (er_byte_start r) (er_byte_end r) old"
| "edit_describes mb old new (SE_Replace rep) \<longleftrightarrow> (\<exists>bs. measured_range mb old (tr_old rep) \<and> measured_text mb bs (tr_new rep)
     \<and> new = replace_range (er_byte_start (tr_old rep)) (er_byte_end (tr_old rep)) bs old)"
| "edit_describes mb old new (SE_Same_Len e p) \<longleftrightarrow> (\<forall>st. state_ok mb old st \<longrightarrow> state_ok mb new st)"

definition carried :: "('v, 'o) buffer \<Rightarrow> ('p, 'v) text_object \<Rightarrow> ('v, 'o) buffer \<Rightarrow> ('p, 'v) text_object \<Rightarrow> bool" where
  "carried b x b' x' \<longleftrightarrow> same_text (tx_storage x) (tx_storage x') \<and> (storage_inv (tx_storage x) \<longrightarrow> storage_inv (tx_storage x'))
     \<and> tx_markers x' = tx_markers x \<and> tx_undo_list x' = tx_undo_list x
     \<and> tx_saved_point x' = tx_saved_point x \<and> tx_props x' = tx_props x \<and> kept b b'"

lemma carried_refl [simp]: "carried b x b x"
  by (simp add: carried_def)

lemma adopt_insert:
  fixes b :: "('v, 'o) buffer" and x :: "('p, 'v) text_object" and ops :: "('p, 'o) side_data_ops"
  assumes st: "state_ok mb old (edit_state b)" and lead: "lead_ok mb old" and e: "edit_describes mb old new (SE_Insert e)"
    and x: "text_ok cs x" "bx_text x = new" "bx_mb x = mb"
  shows "\<exists>b' x'. apply_byte_insert_side_effects ops e (insert_policy_shared UpdateFields) b x = Some (b', x') \<and> carried b x b' x' \<and> state_ok mb new (edit_state b')"
    "\<exists>b' x'. apply_byte_insert_side_effects ops e (insert_policy_shared RefreshFromStateMarkers) b x = Some (b', x') \<and> carried b x b' x' \<and> edit_state b' = edit_state b"
proof -
  obtain c k bs ext where d: "char_offset mb old c k" "measured_text mb bs ext" "mi_insertion e = insertion_at_anchor (anchor_new c k) ext" "new = insert_at k bs old"
    using e by auto
  have "new = old" if "insert_edit_is_empty e"
    using that measured_text_empty [OF d(2)] d(3,4) by (simp add: insert_edit_is_empty_def insertion_at_anchor_def insert_at_def)
  then have idle: "insert_edit_is_empty e \<Longrightarrow> state_ok mb new (edit_state b)" using st by simp
  obtain st' where st': "insert_state_after_edit (edit_state b) (mi_insertion e) (insert_policy_shared UpdateFields) = Some st'" "state_ok mb new st'"
    using insert_state_ok [OF d(1) lead d(2) st, of "insert_policy_shared UpdateFields"] unfolding d(3,4) by (auto simp: policy_defs)
  obtain s where s: "st_emacs_byte_pos_to_char_pos (tx_markers x) (ti_byte (mi_insertion e)) (tx_storage x) = Some (ti_char (mi_insertion e), s)"
      "storage_inv s" "same_text (tx_storage x) s"
    using edit_place [OF _ d(1) lead measured_textD(3) [OF d(2)], of "tx_storage x" cs "tx_markers x"] text_okD(1,2) [OF x(1)] x(2,3) d(3,4)
    by (auto simp: insertion_at_anchor_def)
  show "\<exists>b' x'. apply_byte_insert_side_effects ops e (insert_policy_shared UpdateFields) b x = Some (b', x') \<and> carried b x b' x' \<and> state_ok mb new (edit_state b')"
  proof (cases "insert_edit_is_empty e")
    case True
    then have "apply_byte_insert_side_effects ops e (insert_policy_shared UpdateFields) b x = Some (b, x)" by (simp add: apply_byte_insert_side_effects_def)
    moreover have "state_ok mb new (edit_state b)" by (rule idle [OF True])
    ultimately show ?thesis using carried_refl by blast
  next
    case False
    then show ?thesis using st' s by (auto simp: apply_byte_insert_side_effects_def carried_def Let_def policy_defs)
  qed
  have skip: "insert_state_after_edit (edit_state b) (mi_insertion e) (insert_policy_shared RefreshFromStateMarkers) = Some (edit_state b)"
    by (simp add: insert_state_after_edit_def policy_defs)
  show "\<exists>b' x'. apply_byte_insert_side_effects ops e (insert_policy_shared RefreshFromStateMarkers) b x = Some (b', x') \<and> carried b x b' x' \<and> edit_state b' = edit_state b"
    using skip s by (auto simp: apply_byte_insert_side_effects_def carried_def Let_def policy_defs)
qed

lemma adopt_delete:
  fixes b :: "('v, 'o) buffer" and x :: "('p, 'v) text_object" and ops :: "('p, 'o) side_data_ops"
  assumes st: "state_ok mb old (edit_state b)" and lead: "lead_ok mb old" and e: "edit_describes mb old new (SE_Delete r)"
  shows "\<exists>b' x'. apply_byte_delete_side_effects ops r (delete_policy_shared UpdateFields) b x = Some (b', x') \<and> carried b x b' x' \<and> state_ok mb new (edit_state b')"
    "\<exists>b' x'. apply_byte_delete_side_effects ops r (delete_policy_shared RefreshFromStateMarkers) b x = Some (b', x') \<and> carried b x b' x' \<and> edit_state b' = edit_state b"
proof -
  have d: "measured_range mb old r" "new = delete_range (er_byte_start r) (er_byte_end r) old" using e by simp_all
  have "new = old" if "edit_range_is_empty r"
    using that measured_rangeD(5) [OF d(1)] d(2) by (simp add: edit_range_is_empty_def byte_range_is_empty_def delete_range_def)
  then have idle: "edit_range_is_empty r \<Longrightarrow> state_ok mb new (edit_state b)" using st by simp
  obtain st' where st': "delete_state_after_edit (edit_state b) r (delete_policy_shared UpdateFields) = Some st'" "state_ok mb new st'"
    using delete_state_ok [OF d(1) lead st, of "delete_policy_shared UpdateFields"] unfolding d(2) by (auto simp: policy_defs)
  show "\<exists>b' x'. apply_byte_delete_side_effects ops r (delete_policy_shared UpdateFields) b x = Some (b', x') \<and> carried b x b' x' \<and> state_ok mb new (edit_state b')"
  proof (cases "edit_range_is_empty r")
    case True
    then have "apply_byte_delete_side_effects ops r (delete_policy_shared UpdateFields) b x = Some (b, x)" by (simp add: apply_byte_delete_side_effects_def)
    moreover have "state_ok mb new (edit_state b)" by (rule idle [OF True])
    ultimately show ?thesis using carried_refl by blast
  next
    case False
    then show ?thesis using st' by (auto simp: apply_byte_delete_side_effects_def carried_def Let_def policy_defs)
  qed
  have skip: "delete_state_after_edit (edit_state b) r (delete_policy_shared RefreshFromStateMarkers) = Some (edit_state b)"
    by (simp add: delete_state_after_edit_def policy_defs)
  show "\<exists>b' x'. apply_byte_delete_side_effects ops r (delete_policy_shared RefreshFromStateMarkers) b x = Some (b', x') \<and> carried b x b' x' \<and> edit_state b' = edit_state b"
    using skip by (auto simp: apply_byte_delete_side_effects_def carried_def Let_def policy_defs)
qed

lemma adopt_replace:
  fixes b :: "('v, 'o) buffer" and x :: "('p, 'v) text_object" and ops :: "('p, 'o) side_data_ops"
  assumes st: "state_ok mb old (edit_state b)" and lead: "lead_ok mb old" and e: "edit_describes mb old new (SE_Replace rep)"
  shows "\<exists>b' x'. apply_replace_side_effects ops rep (replace_policy_shared UpdateFields) b x = Some (b', x') \<and> carried b x b' x' \<and> state_ok mb new (edit_state b')"
    "\<exists>b' x'. apply_replace_side_effects ops rep (replace_policy_shared RefreshFromStateMarkers) b x = Some (b', x') \<and> carried b x b' x' \<and> edit_state b' = edit_state b"
proof -
  obtain bs where d: "measured_range mb old (tr_old rep)" "measured_text mb bs (tr_new rep)"
      "new = replace_range (er_byte_start (tr_old rep)) (er_byte_end (tr_old rep)) bs old" using e by auto
  have "new = old" if "replace_edit_is_empty rep"
    using that measured_text_empty [OF d(2)] measured_rangeD(5) [OF d(1)] d(3)
    by (simp add: replace_edit_is_empty_def edit_range_is_empty_def byte_range_is_empty_def replace_range_def)
  then have idle: "replace_edit_is_empty rep \<Longrightarrow> state_ok mb new (edit_state b)" using st by simp
  have "replacement_new (tr_old rep) (tr_new rep) = rep" by (cases rep) (simp add: replacement_new_def)
  then obtain st' where st': "replace_state_after rep (edit_state b) (replace_policy_shared UpdateFields) = Some st'" "state_ok mb new st'"
    using replace_state_ok [OF d(1) lead d(2) st] unfolding d(3) by (auto simp: replace_state_after_def policy_defs)
  show "\<exists>b' x'. apply_replace_side_effects ops rep (replace_policy_shared UpdateFields) b x = Some (b', x') \<and> carried b x b' x' \<and> state_ok mb new (edit_state b')"
  proof (cases "replace_edit_is_empty rep")
    case True
    then have "apply_replace_side_effects ops rep (replace_policy_shared UpdateFields) b x = Some (b, x)" by (simp add: apply_replace_side_effects_def)
    moreover have "state_ok mb new (edit_state b)" by (rule idle [OF True])
    ultimately show ?thesis using carried_refl by blast
  next
    case False
    then show ?thesis using st' by (auto simp: apply_replace_side_effects_def carried_def Let_def policy_defs)
  qed
  have skip: "replace_state_after rep (edit_state b) (replace_policy_shared RefreshFromStateMarkers) = Some (edit_state b)"
    by (simp add: replace_state_after_def policy_defs)
  show "\<exists>b' x'. apply_replace_side_effects ops rep (replace_policy_shared RefreshFromStateMarkers) b x = Some (b', x') \<and> carried b x b' x' \<and> edit_state b' = edit_state b"
    using skip by (auto simp: apply_replace_side_effects_def carried_def Let_def policy_defs)
qed

text \<open>A buffer that updates its fields has a state of the new text afterwards; one that does not is unchanged.\<close>

lemma adopt_edit:
  fixes b :: "('v, 'o) buffer" and x :: "('p, 'v) text_object" and ops :: "('p, 'o) side_data_ops"
  assumes st: "state_ok mb old (edit_state b)" "lead_ok mb old" "edit_describes mb old new edit"
    and x: "text_ok cs x" "bx_text x = new" "bx_mb x = mb"
  shows "\<exists>b' x'. apply_shared_text_edit_side_effects ops edit (state_policy_for_shared_sibling edit u) b x = Some (b', x') \<and> carried b x b' x'
    \<and> (if state_update (state_policy_for_shared_sibling edit u) = Some RefreshFromStateMarkers then edit_state b' = edit_state b
       else state_ok mb new (edit_state b'))"
proof (cases edit)
  case (SE_Insert e)
  then show ?thesis using adopt_insert [OF st(1,2) _ x, of e ops] st(3)
    by (cases u) (simp_all add: structural_state_update_def)
next
  case (SE_Delete r)
  then show ?thesis using adopt_delete [OF st(1,2), of new r ops x] st(3)
    by (cases u) (simp_all add: structural_state_update_def)
next
  case (SE_Replace rep)
  then show ?thesis using adopt_replace [OF st(1,2), of new rep ops x] st(3)
    by (cases u) (simp_all add: structural_state_update_def)
next
  case (SE_Same_Len e p)
  then show ?thesis using st(1,3)
    by (auto simp: carried_def apply_same_len_edit_side_effects_def Let_def)
qed

text \<open>Writing a buffer and its text back when what is known of the buffers changes from \<open>P\<close> to \<open>Q\<close>.\<close>

lemma put_rechained:
  assumes m: "manager_inv P m" "bm_get i m = Some lv" and t: "text_inv P m (text_root lv) cs x"
    and x': "rechained cs x cs' x'" and b: "Q i b (bx_mb x') (bx_text x')" "bf_id b = i" "bf_state_markers b = bf_state_markers (lv_buffer lv)"
    and others: "\<And>j jv. j \<noteq> i \<Longrightarrow> bm_get j m = Some jv \<Longrightarrow> text_root jv = text_root lv \<Longrightarrow> P j (lv_buffer jv) (bx_mb x) (bx_text x)
      \<Longrightarrow> Q j (lv_buffer jv) (bx_mb x') (bx_text x')"
    and elsewhere: "\<And>j jv mb tx. bm_get j m = Some jv \<Longrightarrow> text_root jv \<noteq> text_root lv \<Longrightarrow> P j (lv_buffer jv) mb tx \<Longrightarrow> Q j (lv_buffer jv) mb tx"
  shows "manager_inv Q (put_buffer i lv b x' m)"
proof -
  note ti = text_invD [OF t m(2) refl]
  have held: "holds_markers cs' x' b"
  proof -
    obtain y csy where "base_ok m i lv" by (rule manager_invD [OF m])
    then have "holds_markers cs x b" using ti(4) b(2,3) by (simp add: holds_markers_def base_ok_def)
    then show ?thesis by (rule rechained_holds [OF x'(1)])
  qed
  have "manager_inv Q ((put_buffer i lv b x' m)\<lparr>bm_next_marker_id := bm_next_marker_id m, bm_next_address := bm_next_address m\<rparr>)"
  proof (rule put_inv_counters [where Q = Q, OF m t _ _ order_refl order_refl b(2,1) held])
    show "text_ok cs' x'" using x'(1) by (simp add: rechained_def)
    show "given_out (bm_next_marker_id m) (bm_next_address m) cs' x'" by (rule rechained_given_out [OF x'(1) ti(2)])
  qed (use rechained_holds [OF x'(1)] others elsewhere in blast)+
  moreover have "(put_buffer i lv b x' m)\<lparr>bm_next_marker_id := bm_next_marker_id m, bm_next_address := bm_next_address m\<rparr> = put_buffer i lv b x' m"
    by (simp add: put_buffer_def)
  ultimately show ?thesis by simp
qed

text \<open>The buffers that get the description of an edit: all other live buffers on the text, each once.\<close>

definition sharing :: "nat \<Rightarrow> nat \<Rightarrow> ('p, 'v, 'o) buffer_manager \<Rightarrow> nat set" where
  "sharing i r m = {j. j \<noteq> i \<and> (\<exists>jv. bm_get j m = Some jv \<and> text_root jv = r)}"

lemma scope_sound:
  assumes m: "manager_inv P m" and i: "bm_get i m = Some lv"
  shows "\<exists>scope. shared_text_edit_scope i m = Some (Some scope) \<and> distinct (siblings scope) \<and> set (siblings scope) = sharing i (text_root lv) m"
proof (cases "any_indirect_buffer m")
  case False
  have lb: "lb_ok (bm_buffers m)" using m by (simp add: manager_inv_def)
  have own: "text_root jv = j" if j: "bm_get j m = Some jv" for j jv
  proof -
    have "\<not> is_indirect jv" using any_indirect_iff [OF lb] False j by (auto simp: any_indirect_buffer_def)
    moreover have "base_ok m j jv" using m j by (auto simp: manager_inv_def)
    ultimately show ?thesis by (simp add: text_root_def is_indirect_def base_ok_def)
  qed
  then have "sharing i (text_root lv) m = {}" using i by (auto simp: sharing_def)
  moreover have "shared_text_edit_scope i m = Some (Some Solo)" using i False by (simp add: shared_text_edit_scope_def shared_text_root_id_def)
  ultimately show ?thesis by simp
next
  case True
  have lb: "lb_ok (bm_buffers m)" using m by (simp add: manager_inv_def)
  obtain xs where xs: "lb_iter (bm_buffers m) = Some xs" "sorted_wrt (<) (map fst xs)" "\<And>i b. (i, b) \<in> set xs \<longleftrightarrow> bm_get i m = Some b"
    using lb_iter_ok [OF lb] by blast
  have id: "bf_id (lv_buffer jv) = j" if "bm_get j m = Some jv" for j jv using m that by (auto simp: manager_inv_def base_ok_def)
  let ?on = "filter (\<lambda>(j, jv). text_root jv = text_root lv) xs"
  let ?ids = "map (\<lambda>(j, jv). bf_id (lv_buffer jv)) ?on"
  have ids: "?ids = map fst ?on" using id xs(3) by (auto intro!: map_cong)
  have "distinct (map fst xs)" using xs(2) strict_sorted_iff by blast
  then have d: "distinct ?ids" unfolding ids by (rule distinct_map_filter)
  have set_ids: "set ?ids = {j. \<exists>jv. bm_get j m = Some jv \<and> text_root jv = text_root lv}" unfolding ids using xs(3) by force
  have run: "shared_text_edit_scope i m = Some (Some (Shared_With i ?ids))"
    using i True xs(1) by (simp add: shared_text_edit_scope_def shared_text_root_id_def buffers_sharing_root_ids_def any_indirect_buffer_def)
  have "set (siblings (Shared_With i ?ids)) = sharing i (text_root lv) m"
    unfolding siblings.simps set_filter set_ids by (auto simp: sharing_def)
  moreover have "distinct (siblings (Shared_With i ?ids))" unfolding siblings.simps by (rule distinct_filter [OF d])
  ultimately show ?thesis using run by blast
qed

text \<open>The texts of other buffers, and the buffers on them, are left as they are.\<close>

definition elsewhere :: "nat \<Rightarrow> ('p, 'v, 'o) buffer_manager \<Rightarrow> ('p, 'v, 'o) buffer_manager \<Rightarrow> bool" where
  "elsewhere r m m' \<longleftrightarrow> (\<forall>q. q \<noteq> r \<longrightarrow> bm_texts m' q = bm_texts m q)
     \<and> (\<forall>j jv. bm_get j m = Some jv \<longrightarrow> text_root jv \<noteq> r \<longrightarrow> bm_get j m' = Some jv)"

lemma elsewhere_refl [simp]: "elsewhere r m m"
  by (simp add: elsewhere_def)

lemma elsewhere_trans: "elsewhere r m m1 \<Longrightarrow> elsewhere r m1 m2 \<Longrightarrow> elsewhere r m m2"
  by (simp add: elsewhere_def)

lemma put_elsewhere:
  assumes "lb_ok (bm_buffers m)" "bm_get j m = Some lv"
  shows "elsewhere (text_root lv) m (put_buffer j lv b x m)"
  using put_get(2) [OF assms] assms(2) by (auto simp: elsewhere_def)

text \<open>What handing an edit on leaves alone.\<close>

definition handed_on :: "nat \<Rightarrow> ('p, 'v, 'o) buffer_manager \<Rightarrow> ('p, 'v, 'o) buffer_manager \<Rightarrow> bool" where
  "handed_on r m m' \<longleftrightarrow> same_frame m m' \<and> follows m m' \<and> elsewhere r m m' \<and> bm_next_marker_id m' = bm_next_marker_id m
     \<and> (\<forall>j. buffer_has_state_markers j m' \<longleftrightarrow> buffer_has_state_markers j m)
     \<and> (\<forall>x. bm_texts m r = Some x \<longrightarrow> (\<exists>x'. bm_texts m' r = Some x' \<and> bx_text x' = bx_text x \<and> bx_mb x' = bx_mb x))"

lemma handed_on_refl [simp]: "handed_on r m m"
  by (simp add: handed_on_def)

lemma handed_on_trans: "handed_on r m m1 \<Longrightarrow> handed_on r m1 m2 \<Longrightarrow> handed_on r m m2"
  unfolding handed_on_def by (elim conjE, intro conjI allI impI; (blast intro: follows_trans same_frame_trans elsewhere_trans | fastforce)?)

lemma put_handed_on:
  assumes m: "manager_inv P m" "bm_get j m = Some lv" and x: "bm_texts m (text_root lv) = Some x"
    and x': "bx_text x' = bx_text x" "bx_mb x' = bx_mb x" "tx_undo_list x' = tx_undo_list x"
    and b: "bf_id b = j" "bf_state_markers b = bf_state_markers (lv_buffer lv)"
  shows "handed_on (text_root lv) m (put_buffer j lv b x' m)"
proof -
  have lb: "lb_ok (bm_buffers m)" "bf_id (lv_buffer lv) = j" using m by (auto simp: manager_inv_def base_ok_def)
  have "buffer_has_state_markers k (put_buffer j lv b x' m) \<longleftrightarrow> buffer_has_state_markers k m" for k
    using put_get(2) [OF lb(1) m(2)] m(2) b(2) by (simp add: buffer_has_state_markers_def)
  moreover have "same_frame m (put_buffer j lv b x' m)" by (rule put_frame [OF m]) (simp add: b(1) lb(2))
  moreover have "follows m (put_buffer j lv b x' m)" by (rule put_follows [OF x follows_same [OF x']])
  ultimately show ?thesis using x x'(1,2) put_elsewhere [OF lb(1) m(2)] by (simp add: handed_on_def)
qed

lemma carried_keeps:
  assumes "carried b x b' x'"
  shows "bx_text x' = bx_text x" "bx_mb x' = bx_mb x" "tx_undo_list x' = tx_undo_list x" "text_ok cs x \<Longrightarrow> rechained cs x cs x'"
    "bf_id b' = bf_id b" "bf_state_markers b' = bf_state_markers b" "bf_multibyte b' = bf_multibyte b"
  using assms by (auto simp: carried_def kept_def rechained_def text_ok_def same_text_def text_markers_ok_def)

lemma same_sharing: "handed_on r m m' \<Longrightarrow> bm_get j m = Some jv \<Longrightarrow> \<exists>jv'. bm_get j m' = Some jv' \<and> text_root jv' = text_root jv"
proof -
  assume h: "handed_on r m m'" and j: "bm_get j m = Some jv"
  have "map_option lv_ident (bm_get j m') = map_option lv_ident (bm_get j m)" using h by (simp add: handed_on_def same_frame_def)
  then obtain jv' where "bm_get j m' = Some jv'" "lv_ident jv' = lv_ident jv" using j by auto
  then show ?thesis by (auto simp: lv_ident_def text_root_def split: option.splits)
qed

lemma sibling_sound:
  assumes m: "manager_inv (pending S old) m" and j: "j \<in> S" "bm_get j m = Some jv" "text_root jv = r"
    and all: "\<And>k. k \<in> S \<Longrightarrow> \<exists>kv. bm_get k m = Some kv \<and> text_root kv = r"
    and x: "bm_texts m r = Some x" and e: "lead_ok (bx_mb x) old" "edit_describes (bx_mb x) old (bx_text x) edit"
  shows "\<exists>m'. apply_shared_text_edit_to_sibling ops edit j m = Some (Some (), m') \<and> manager_inv (pending (S - {j}) old) m' \<and> handed_on r m m'"
proof -
  obtain y cs where y: "bm_texts m (text_root jv) = Some y" "get_text jv m = Some (y\<lparr>tx_saved_point := bm_saved_point m\<rparr>)"
      "text_inv (pending S old) m (text_root jv) cs y" "base_ok m j jv"
    by (rule manager_invD [OF m j(2)])
  have [simp]: "y = x" using y(1) x j(3) by simp
  note ti = text_invD [OF y(3) j(2) refl]
  let ?x = "x\<lparr>tx_saved_point := bm_saved_point m\<rparr>" and ?b = "lv_buffer jv"
  define u where "u = shared_sibling_state_update j m"
  define policy where "policy = state_policy_for_shared_sibling edit u"
  have p: "bf_multibyte ?b = bx_mb x" "state_ok (bx_mb x) old (edit_state ?b)" using ti(3) j(1) by (simp_all add: pending_def)
  have ok: "text_ok cs ?x" using ti(1) by simp
  obtain b1 x1 where a: "apply_shared_text_edit_side_effects ops edit policy ?b ?x = Some (b1, x1)" "carried ?b ?x b1 x1"
      "if state_update policy = Some RefreshFromStateMarkers then edit_state b1 = edit_state ?b else state_ok (bx_mb x) (bx_text x) (edit_state b1)"
    using adopt_edit [OF p(2) e ok, of ops u] unfolding policy_def by auto
  note k = carried_keeps [OF a(2)]
  have rc: "rechained cs x cs x1" using k(4) [OF ok] by (simp add: rechained_def)
  have id: "bf_id b1 = j" using k(5) y(4) by (simp add: base_ok_def)
  define m1 where "m1 = put_buffer j jv b1 x1 m"
  have t: "text_inv (pending S old) m (text_root jv) cs x" using y(3) by simp
  have out: "k \<notin> S" if "bm_get k m = Some kv" "text_root kv \<noteq> text_root jv" for k kv using all [of k] that j(3) by auto
  have put: "manager_inv (pending T old) m1"
    if T: "T = S \<or> T = S - {j}" and mine: "pending T old j b1 (bx_mb x) (bx_text x)" for T
    unfolding m1_def
  proof (rule put_rechained [where Q = "pending T old", OF m j(2) t rc _ id k(6)])
    show "pending T old j b1 (bx_mb x1) (bx_text x1)" using mine k(1,2) by simp
    show "pending T old i (lv_buffer iv) (bx_mb x1) (bx_text x1)"
      if "i \<noteq> j" "bm_get i m = Some iv" "text_root iv = text_root jv" "pending S old i (lv_buffer iv) (bx_mb x) (bx_text x)" for i iv
      using that T k(1,2) by (auto simp: pending_def)
    show "pending T old i (lv_buffer iv) mb tx"
      if "bm_get i m = Some iv" "text_root iv \<noteq> text_root jv" "pending S old i (lv_buffer iv) mb tx" for i iv mb tx
      using that T out [OF that(1,2)] by (auto simp: pending_def)
  qed
  have h1: "handed_on r m m1" unfolding m1_def j(3) [symmetric]
    by (rule put_handed_on [OF m j(2) _ _ _ _ id k(6)]) (use y(1) k in simp_all)
  have step: "on_buffer j (\<lambda>b x. do { (b, x) \<leftarrow> apply_shared_text_edit_side_effects ops edit policy b x; Some ((), b, x) }) m = Some (Some (), m1)"
    using j(2) y(2) a(1) by (simp add: on_buffer_def m1_def)
  show ?thesis
  proof (cases "state_update policy = Some RefreshFromStateMarkers")
    case False
    have "manager_inv (pending (S - {j}) old) m1" using a(3) False p(1) k(7) by (intro put) (simp_all add: pending_def)
    moreover have "apply_shared_text_edit_to_sibling ops edit j m = Some (Some (), m1)"
      using step False unfolding apply_shared_text_edit_to_sibling_def Let_def u_def [symmetric] policy_def [symmetric]
      by (cases "state_update policy") (auto simp: and_then_def refresh_shared_buffer_state_cache_def needs_state_marker_refresh_def)
    ultimately show ?thesis using h1 by blast
  next
    case True
    then have "u = RefreshFromStateMarkers" unfolding policy_def by (cases edit) simp_all
    then have marks: "buffer_has_state_markers j m" by (auto simp: u_def shared_sibling_state_update_def split: if_splits)
    have m1: "manager_inv (pending S old) m1" using a(3) True p k(7) j(1) by (intro put) (simp_all add: pending_def)
    obtain jv1 where jv1: "bm_get j m1 = Some jv1" "text_root jv1 = r" using same_sharing [OF h1 j(2)] j(3) by auto
    have b1: "lv_buffer jv1 = b1"
    proof -
      have "lb_ok (bm_buffers m)" using m by (simp add: manager_inv_def)
      from put_get(2) [OF this j(2)] show ?thesis using jv1(1) by (auto simp: m1_def)
    qed
    obtain ids where ids: "bf_state_markers b1 = Some ids" using marks j(2) k(6) by (auto simp: buffer_has_state_markers_def)
    obtain z cz where z: "bm_texts m1 (text_root jv1) = Some z" "get_text jv1 m1 = Some (z\<lparr>tx_saved_point := bm_saved_point m1\<rparr>)"
        "text_inv (pending S old) m1 (text_root jv1) cz z" "base_ok m1 j jv1"
      by (rule manager_invD [OF m1 jv1(1)])
    have zx: "bx_text z = bx_text x" "bx_mb z = bx_mb x" using z(1) jv1(2) h1 x by (auto simp: handed_on_def)
    note tz = text_invD [OF z(3) jv1(1) refl]
    let ?z = "z\<lparr>tx_saved_point := bm_saved_point m1\<rparr>"
    have z': "text_ok cz ?z" "bf_multibyte b1 = bx_mb ?z" "holds_markers cz ?z b1" using tz(1,4) b1 p(1) k(7) zx by simp_all
    obtain b2 z2 where f: "fetch_buffer_state_markers b1 ?z = Some (Some (b2, z2))" "recached ?z z2" "buffer_on z2 b2" "same_buffer b1 b2"
      by (rule fetch_stale [OF z' ids])
    note kz = recached_keeps [OF f(2)]
    let ?m2 = "put_buffer j jv1 b2 z2 m1"
    have run2: "mg_fetch_buffer_state_markers j m1 = Some (Some (), ?m2)"
      using jv1(1) z(2) f(1) b1 by (simp add: mg_fetch_buffer_state_markers_def)
    have id2: "bf_id b2 = j" "bf_state_markers b2 = bf_state_markers (lv_buffer jv1)" using same_bufferD(1,3) [OF f(4)] id b1 by simp_all
    have rcz: "rechained cz z cz z2" using recached_rechained [OF f(2) z'(1)] by (simp add: rechained_def)
    have "manager_inv (pending (S - {j}) old) ?m2"
    proof (rule put_rechained [where Q = "pending (S - {j}) old", OF m1 jv1(1) z(3) rcz _ id2])
      show "pending (S - {j}) old j b2 (bx_mb z2) (bx_text z2)" using f(3) by (simp add: pending_def buffer_on_def)
      show "pending (S - {j}) old i (lv_buffer iv) (bx_mb z2) (bx_text z2)"
        if "i \<noteq> j" "bm_get i m1 = Some iv" "text_root iv = text_root jv1" "pending S old i (lv_buffer iv) (bx_mb z) (bx_text z)" for i iv
        using that kz(1,2) by (auto simp: pending_def)
      show "pending (S - {j}) old i (lv_buffer iv) mb tx"
        if i: "bm_get i m1 = Some iv" "text_root iv \<noteq> text_root jv1" "pending S old i (lv_buffer iv) mb tx" for i iv mb tx
      proof -
        have "i \<notin> S"
        proof
          assume "i \<in> S"
          then obtain kv where "bm_get i m = Some kv" "text_root kv = r" using all by blast
          then obtain kv' where "bm_get i m1 = Some kv'" "text_root kv' = r" using same_sharing [OF h1] by blast
          then show False using i(1,2) jv1(2) by simp
        qed
        then show ?thesis using i(3) by (simp add: pending_def)
      qed
    qed
    moreover have "handed_on r m ?m2"
    proof (rule handed_on_trans [OF h1])
      show "handed_on r m1 ?m2" unfolding jv1(2) [symmetric]
        by (rule put_handed_on [OF m1 jv1(1) z(1) _ _ _ id2]) (use kz in simp_all)
    qed
    moreover have "apply_shared_text_edit_to_sibling ops edit j m = Some (Some (), ?m2)"
      using step True run2 unfolding apply_shared_text_edit_to_sibling_def Let_def u_def [symmetric] policy_def [symmetric]
      by (simp add: and_then_def refresh_shared_buffer_state_cache_def needs_state_marker_refresh_def)
    ultimately show ?thesis by blast
  qed
qed

lemma siblings_sound:
  assumes "manager_inv (pending (set js) old) m" "distinct js" "\<And>k. k \<in> set js \<Longrightarrow> \<exists>kv. bm_get k m = Some kv \<and> text_root kv = r"
    "bm_texts m r = Some x" "lead_ok (bx_mb x) old" "edit_describes (bx_mb x) old (bx_text x) edit"
  shows "\<exists>m'. apply_shared_text_edit_to_siblings ops edit js m = Some (Some (), m') \<and> manager_ok m' \<and> handed_on r m m'"
  using assms
proof (induction js arbitrary: m x)
  case Nil
  then show ?case by (simp add: pending_none)
next
  case (Cons j js)
  obtain jv where jv: "bm_get j m = Some jv" "text_root jv = r" using Cons.prems(3) [of j] by auto
  obtain m1 where m1: "apply_shared_text_edit_to_sibling ops edit j m = Some (Some (), m1)" "manager_inv (pending (set (j # js) - {j}) old) m1"
      "handed_on r m m1"
    using sibling_sound [OF Cons.prems(1) _ jv Cons.prems(3-6), of ops] by auto
  have rest: "set (j # js) - {j} = set js" using Cons.prems(2) by auto
  obtain x1 where x1: "bm_texts m1 r = Some x1" "bx_text x1 = bx_text x" "bx_mb x1 = bx_mb x"
    using m1(3) Cons.prems(4) by (auto simp: handed_on_def)
  have "\<exists>m'. apply_shared_text_edit_to_siblings ops edit js m1 = Some (Some (), m') \<and> manager_ok m' \<and> handed_on r m1 m'"
  proof (rule Cons.IH [OF _ _ _ x1(1)])
    show "\<exists>kv. bm_get k m1 = Some kv \<and> text_root kv = r" if "k \<in> set js" for k
      using Cons.prems(3) [of k] that same_sharing [OF m1(3)] by fastforce
  qed (use m1(2) rest Cons.prems(2,5,6) x1(2,3) in simp_all)
  then show ?case using m1(1) handed_on_trans [OF m1(3)] by (auto simp: and_then_def)
qed

text \<open>
  An edit of one buffer that is sound for the buffer and its text, and describes itself rightly, is
  sound for all the buffers on the text.
\<close>

lemma shared_edit_sound:
  assumes m: "manager_ok m" and i: "bm_get i m = Some lv" and x: "bm_texts m (text_root lv) = Some x" "text_inv on_text m (text_root lv) cs x"
    and s: "f (lv_buffer lv) (x\<lparr>tx_saved_point := bm_saved_point m\<rparr>) = Some ((res, edit), b', x')"
      "step_ok cs new (lv_buffer lv) (x\<lparr>tx_saved_point := bm_saved_point m\<rparr>) b' x'" "idents x' = idents x"
    and e: "case edit of None \<Rightarrow> new = bx_text x | Some e \<Rightarrow> edit_describes (bx_mb x) (bx_text x) new e"
  shows "\<exists>m'. execute_shared_text_edit ops i f m = Some (Some res, m') \<and> manager_ok m' \<and> follows m m' \<and> same_frame m m'
    \<and> elsewhere (text_root lv) m m' \<and> bm_next_marker_id m' = bm_next_marker_id m \<and> (\<exists>x'. bm_texts m' (text_root lv) = Some x' \<and> bx_text x' = new \<and> bx_mb x' = bx_mb x)"
proof -
  have ti: "text_inv on_text m (text_root lv) cs x" "text_ok cs x" "bf_id (lv_buffer lv) = i"
      "get_text lv m = Some (x\<lparr>tx_saved_point := bm_saved_point m\<rparr>)"
    using x m i text_invD(1) [OF x(2) i refl] by (auto simp: get_text_def manager_inv_def base_ok_def)
  obtain scope where sc: "shared_text_edit_scope i m = Some (Some scope)" "distinct (siblings scope)" "set (siblings scope) = sharing i (text_root lv) m"
    using scope_sound [OF m i] by blast
  define S where "S = (if edit = None then {} else sharing i (text_root lv) m)"
  have st: "text_ok cs x'" "buffer_on x' b'" "bx_text x' = new" "bx_mb x' = bx_mb x" "st_markers (tx_storage x') = st_markers (tx_storage x)"
      "kept (lv_buffer lv) b'" "follows_text x x'"
    using s(2) by (auto simp: step_ok_def follows_text_def undo_follows_def)
  have rc: "rechained cs x cs x'" using st(1,5) s(3) by (simp add: rechained_def idents_same)
  have id: "bf_id b' = i" "bf_state_markers b' = bf_state_markers (lv_buffer lv)" using st(6) ti(3) by (simp_all add: kept_def)
  let ?m1 = "put_buffer i lv b' x' m"
  have m1: "manager_inv (pending S (bx_text x)) ?m1"
  proof (rule put_rechained [where Q = "pending S (bx_text x)", OF m i ti(1) rc _ id])
    have "i \<notin> S" by (simp add: S_def sharing_def)
    then show "pending S (bx_text x) i b' (bx_mb x') (bx_text x')" using st(2) by (simp add: pending_def buffer_on_def)
    show "pending S (bx_text x) j (lv_buffer jv) (bx_mb x') (bx_text x')"
      if j: "j \<noteq> i" "bm_get j m = Some jv" "text_root jv = text_root lv" "on_text j (lv_buffer jv) (bx_mb x) (bx_text x)" for j jv
    proof (cases edit)
      case None
      then show ?thesis using j(4) e st(3,4) by (simp add: S_def pending_def on_text_def)
    next
      case (Some ed)
      then have "j \<in> S" using j(1-3) by (auto simp: S_def sharing_def)
      then show ?thesis using j(4) st(4) by (simp add: pending_def on_text_def)
    qed
    show "pending S (bx_text x) j (lv_buffer jv) mb tx"
      if j: "bm_get j m = Some jv" "text_root jv \<noteq> text_root lv" "on_text j (lv_buffer jv) mb tx" for j jv mb tx
    proof -
      have "j \<notin> S" using j(1,2) by (auto simp: S_def sharing_def)
      then show ?thesis using j(3) by (simp add: pending_def on_text_def)
    qed
  qed
  have step: "on_buffer i f m = Some (Some (res, edit), ?m1)" using i ti(4) s(1) by (simp add: on_buffer_def)
  have fr: "same_frame m ?m1" by (rule put_frame [OF m i]) (simp add: id(1) ti(3))
  have fo: "follows m ?m1" by (rule put_follows [OF x(1) st(7)])
  have el: "elsewhere (text_root lv) m ?m1" using m by (intro put_elsewhere [OF _ i]) (simp add: manager_inv_def)
  show ?thesis
  proof (cases edit)
    case None
    then have "manager_ok ?m1" using m1 by (simp add: S_def pending_none)
    moreover have "execute_shared_text_edit ops i f m = Some (Some res, ?m1)"
      using sc(1) step None by (simp add: execute_shared_text_edit_def and_then_def)
    ultimately show ?thesis using fr fo el st(3,4) by auto
  next
    case (Some ed)
    have S: "S = set (siblings scope)" using Some sc(3) by (simp add: S_def)
    have "\<exists>m'. apply_shared_text_edit_to_siblings ops ed (siblings scope) ?m1 = Some (Some (), m') \<and> manager_ok m' \<and> handed_on (text_root lv) ?m1 m'"
    proof (rule siblings_sound [OF _ sc(2)])
      show "manager_inv (pending (set (siblings scope)) (bx_text x)) ?m1" using m1 S by simp
      show "\<exists>kv. bm_get k ?m1 = Some kv \<and> text_root kv = text_root lv" if k: "k \<in> set (siblings scope)" for k
      proof -
        obtain kv where kv: "k \<noteq> i" "bm_get k m = Some kv" "text_root kv = text_root lv" using k unfolding sc(3) sharing_def by blast
        have "lb_ok (bm_buffers m)" using m by (simp add: manager_inv_def)
        then show ?thesis using put_get(2) [OF _ i] kv by simp
      qed
      show "bm_texts ?m1 (text_root lv) = Some x'" by simp
      show "lead_ok (bx_mb x') (bx_text x)" using text_okD(3) [OF ti(2)] st(4) by simp
      show "edit_describes (bx_mb x') (bx_text x) (bx_text x') ed" using e Some st(3,4) by simp
    qed
    then obtain m' where m': "apply_shared_text_edit_to_siblings ops ed (siblings scope) ?m1 = Some (Some (), m')" "manager_ok m'"
        "handed_on (text_root lv) ?m1 m'" by blast
    have "execute_shared_text_edit ops i f m = Some (Some res, m')"
      using sc(1) step Some m'(1) by (simp add: execute_shared_text_edit_def and_then_def)
    moreover have "same_frame m m'" "follows m m'" "elsewhere (text_root lv) m m'" "bm_next_marker_id m' = bm_next_marker_id m"
      using m'(3) same_frame_trans [OF fr] follows_trans [OF fo] elsewhere_trans [OF el] by (simp_all add: handed_on_def)
    moreover have "\<exists>z. bm_texts m' (text_root lv) = Some z \<and> bx_text z = new \<and> bx_mb z = bx_mb x"
      using m'(3) st(3,4) by (simp add: handed_on_def)
    ultimately show ?thesis using m'(2) by blast
  qed
qed

lemma stored_nothing: "ls_bytes str = [] \<Longrightarrow> stored_bytes mb str = []"
  by (cases "ls_multibyte str")
    (simp_all add: stored_bytes_def convert_lisp_string_for_buffer_mode_def lisp_string_char_codes_def lisp_string_codes_loop.simps)

text \<open>What an entry point promises: the new text, and that all buffers on it are right for it.\<close>

definition edits :: "nat \<Rightarrow> bytes \<Rightarrow> ('a option \<times> ('p, 'v, 'o) buffer_manager) option \<Rightarrow> ('p, 'v, 'o) buffer_manager \<Rightarrow> 'a \<Rightarrow> bool" where
  "edits r new run m res \<longleftrightarrow> (\<exists>m'. run = Some (Some res, m') \<and> manager_ok m' \<and> follows m m' \<and> same_frame m m' \<and> elsewhere r m m'
    \<and> bm_next_marker_id m' = bm_next_marker_id m
    \<and> (\<exists>x x'. bm_texts m r = Some x \<and> bm_texts m' r = Some x' \<and> bx_text x' = new \<and> bx_mb x' = bx_mb x))"

lemma edits_nothing: "manager_ok m \<Longrightarrow> bm_texts m r = Some x \<Longrightarrow> edits r (bx_text x) (Some (Some res, m)) m res"
  by (simp add: edits_def)

lemma shared_edit_edits:
  assumes "manager_ok m" "bm_get i m = Some lv" "bm_texts m (text_root lv) = Some x" "text_inv on_text m (text_root lv) cs x"
    "f (lv_buffer lv) (x\<lparr>tx_saved_point := bm_saved_point m\<rparr>) = Some ((res, Some ed), b', x')"
    "step_ok cs new (lv_buffer lv) (x\<lparr>tx_saved_point := bm_saved_point m\<rparr>) b' x'" "idents x' = idents x"
    "edit_describes (bx_mb x) (bx_text x) new ed"
  shows "edits (text_root lv) new (execute_shared_text_edit ops i f m) m res"
  using shared_edit_sound [where f = f and edit = "Some ed", OF assms(1-7), of ops] assms(3,8) unfolding edits_def by auto

lemma insert_edits:
  assumes m: "manager_ok m" "bm_get i m = Some lv" "bm_texts m (text_root lv) = Some x"
    and str: "string_storable (bx_mb x) str" "fits_allocation (length (bx_text x) + length (stored_bytes (bx_mb x) str))"
  shows "edits (text_root lv) (insert_at (ta_byte (bf_point (lv_buffer lv))) (stored_bytes (bx_mb x) str) (bx_text x))
      (insert_lisp_string_into_buffer_full ops i str adjustment m) m ()" (is "edits _ ?new _ _ _")
    "edits (text_root lv) (insert_at (ta_byte (bf_point (lv_buffer lv))) (stored_bytes (bx_mb x) str) (bx_text x))
      (insert_lisp_string_into_buffer_before_markers ops i str m) m ()"
proof -
  let ?x = "x\<lparr>tx_saved_point := bm_saved_point m\<rparr>" and ?b = "lv_buffer lv"
  obtain cs where t: "text_inv on_text m (text_root lv) cs x" "text_ok cs x" "buffer_on x ?b"
    by (rule buffer_of_manager [OF m(1,2)]) (use m(3) in auto)
  have ok: "text_ok cs ?x" "buffer_on ?x ?b" using t(2,3) by simp_all
  have nil: "?new = bx_text x" if "ls_bytes str = []" using stored_nothing [OF that] by (simp add: insert_at_def)
  have full: "edits (text_root lv) ?new (execute_shared_text_edit ops i (\<lambda>b x. do {
        (ins, b, x) \<leftarrow> insert_lisp_string_full ops str placement adjustment b x;
        Some (((), Some (SE_Insert \<lparr>mi_insertion = ins, mi_marker_placement = placement, mi_marker_adjustment = adjustment\<rparr>)), b, x)
      }) m) m ()" for placement adjustment
  proof -
    obtain e b' x' where r: "insert_lisp_string_full ops str placement adjustment ?b ?x = Some (insertion_at_anchor (bf_point ?b) e, b', x')"
        "measured_text (bx_mb x) (stored_bytes (bx_mb x) str) e" "step_ok cs ?new ?b ?x b' x'"
      using insert_string_sound [OF ok, of str ops placement adjustment] str by auto
    show ?thesis
    proof (rule shared_edit_edits [OF m t(1) _ r(3)])
      show "idents x' = idents x" using insert_string_idents [OF r(1)] by simp
      have c: "char_offset (bx_mb x) (bx_text x) (ta_char (bf_point ?b)) (ta_byte (bf_point ?b))" using buffer_onD(2) [OF t(3)] by simp
      have p: "anchor_new (ta_char (bf_point ?b)) (ta_byte (bf_point ?b)) = bf_point ?b" by (simp add: anchor_new_def)
      show "edit_describes (bx_mb x) (bx_text x) ?new
          (SE_Insert \<lparr>mi_insertion = insertion_at_anchor (bf_point ?b) e, mi_marker_placement = placement, mi_marker_adjustment = adjustment\<rparr>)"
        unfolding edit_describes.simps measured_insert_edit.simps
        by (intro exI conjI, rule c, rule r(2), unfold p, rule refl, rule refl)
    qed (use r(1) in simp)
  qed
  show "edits (text_root lv) ?new (insert_lisp_string_into_buffer_full ops i str adjustment m) m ()"
  proof (cases "ls_bytes str = []")
    case True
    show ?thesis unfolding nil [OF True] insert_lisp_string_into_buffer_full_def using True edits_nothing [OF m(1,3)] by simp
  next
    case False
    have "adjustment = ByInsertionType" if "adjustment \<noteq> StrictAfter" using that by (cases adjustment) simp_all
    then show ?thesis using False full [of AfterMarkers adjustment]
      by (cases adjustment) (simp_all add: insert_lisp_string_into_buffer_full_def insert_lisp_string_for_replace_def insert_lisp_string_def)
  qed
  show "edits (text_root lv) ?new (insert_lisp_string_into_buffer_before_markers ops i str m) m ()"
  proof (cases "ls_bytes str = []")
    case True
    show ?thesis unfolding nil [OF True] insert_lisp_string_into_buffer_before_markers_def using True edits_nothing [OF m(1,3)] by simp
  next
    case False
    then show ?thesis using full [of BeforeMarkers ByInsertionType]
      by (simp add: insert_lisp_string_into_buffer_before_markers_def insert_lisp_string_before_markers_def)
  qed
qed

text \<open>Measuring a range changes caches only.\<close>

lemma measure_sound:
  assumes m: "manager_ok m" "bm_get i m = Some lv" "bm_texts m (text_root lv) = Some x"
    and r: "is_emacs_char_boundary (bx_text x) (br_start r) (bx_mb x)" "is_emacs_char_boundary (bx_text x) (br_end r) (bx_mb x)" "br_start r \<le> br_end r"
  obtains e m1 x1 where "edit_range_for_buffer_emacs_byte_range i r m = Some (Some e, m1)" "steps m m1" "bm_get i m1 = Some lv"
    "bm_texts m1 (text_root lv) = Some x1" "bx_text x1 = bx_text x" "bx_mb x1 = bx_mb x" "measured_range (bx_mb x) (bx_text x) e"
    "er_byte_start e = br_start r" "er_byte_end e = br_end r" "elsewhere (text_root lv) m m1"
proof -
  let ?x = "x\<lparr>tx_saved_point := bm_saved_point m\<rparr>" and ?b = "lv_buffer lv"
  obtain cs where t: "text_inv on_text m (text_root lv) cs x" "text_ok cs x" "buffer_on x ?b" "get_text lv m = Some ?x"
    by (rule buffer_of_manager [OF m(1,2)]) (use m(3) in auto)
  have ok: "text_ok cs ?x" using t(2) by simp
  obtain e x1 where e: "edit_range_for_emacs_byte_range r ?x = Some (e, x1)" "recached ?x x1" "measured_range (bx_mb x) (bx_text x) e"
      "er_byte_start e = br_start r" "er_byte_end e = br_end r"
    using edit_range_sound [OF ok, of r] r by auto
  note k = recached_keeps [OF e(2)]
  have q: "quiet cs ?b ?x ?b x1" by (rule quiet_recached [OF ok e(2)]) (simp_all add: k(4) t(3))
  let ?m1 = "put_buffer i lv ?b x1 m"
  have lb: "lb_ok (bm_buffers m)" using m(1) by (simp add: manager_inv_def)
  have "edit_range_for_buffer_emacs_byte_range i r m = Some (Some e, ?m1)"
    using m(2) t(4) e(1) by (simp add: edit_range_for_buffer_emacs_byte_range_def on_buffer_def)
  moreover have "bm_get i ?m1 = Some lv" using put_get(2) [OF lb m(2)] by simp
  moreover have "steps m ?m1" by (rule put_quiet [OF m(1,2,3) t(1) q])
  ultimately show thesis using that [of e ?m1 x1] k(1,2) e(3-5) put_elsewhere [OF lb m(2)] by simp
qed

text \<open>A step that only changes caches before the edit.\<close>

lemma edits_after:
  assumes "steps m m1" "edits r new run m1 res" "bm_texts m r = Some x"
    and x1: "bm_texts m1 r = Some x1" "bx_mb x1 = bx_mb x" "elsewhere r m m1"
  shows "edits r new run m res"
  using assms unfolding edits_def steps_def by (auto intro: follows_trans same_frame_trans elsewhere_trans)

lemma delete_measured_edits:
  assumes m: "manager_ok m" "bm_get i m = Some lv" "bm_texts m (text_root lv) = Some x"
    and r: "measured_range (bx_mb x) (bx_text x) r" "ta_byte (bf_accessible_start (lv_buffer lv)) \<le> er_byte_start r"
    and fits: "fits_allocation (length (bx_text x))"
  shows "edits (text_root lv) (delete_range (er_byte_start r) (er_byte_end r) (bx_text x)) (delete_buffer_measured_region ops i r m) m ()"
    "\<not> edit_range_is_empty r \<Longrightarrow> \<exists>str. ls_bytes str = sub_list (er_byte_start r) (er_byte_end r) (bx_text x) \<and> ls_multibyte str = bx_mb x
      \<and> edits (text_root lv) (delete_range (er_byte_start r) (er_byte_end r) (bx_text x)) (delete_and_extract_buffer_measured_region ops i r m) m str"
proof -
  let ?x = "x\<lparr>tx_saved_point := bm_saved_point m\<rparr>" and ?b = "lv_buffer lv" and ?new = "delete_range (er_byte_start r) (er_byte_end r) (bx_text x)"
  obtain cs where t: "text_inv on_text m (text_root lv) cs x" "text_ok cs x" "buffer_on x ?b"
    by (rule buffer_of_manager [OF m(1,2)]) (use m(3) in auto)
  have ok: "text_ok cs ?x" "buffer_on ?x ?b" using t(2,3) by simp_all
  have d: "edit_describes (bx_mb x) (bx_text x) ?new (SE_Delete r)" using r(1) by simp
  have plan: "\<exists>plan x1 del b' x'. delete_text_plan_for_range_extracting ops r want ?b ?x = Some (plan, x1)
      \<and> execute_delete_text_plan_extracting ops plan ?b x1 = Some (r, del, b', x') \<and> step_ok cs ?new ?b ?x b' x'
      \<and> (want = Wanted \<longrightarrow> (\<exists>str. del = Some str \<and> ls_bytes str = sub_list (er_byte_start r) (er_byte_end r) (bx_text x) \<and> ls_multibyte str = bx_mb x))" for want
    using delete_region_sound [OF ok, of r ops want] r fits by simp
  show "edits (text_root lv) ?new (delete_buffer_measured_region ops i r m) m ()"
  proof (cases "edit_range_is_empty r")
    case True
    then have "er_byte_start r = er_byte_end r" using measured_rangeD(5) [OF r(1)] by (simp add: edit_range_is_empty_def byte_range_is_empty_def)
    then have "?new = bx_text x" by (simp add: delete_range_def)
    then show ?thesis using True edits_nothing [OF m(1,3)] by (simp add: delete_buffer_measured_region_def)
  next
    case False
    obtain plan x1 del b' x' where p: "delete_text_plan_for_range_extracting ops r IfRecorded ?b ?x = Some (plan, x1)"
        "execute_delete_text_plan_extracting ops plan ?b x1 = Some (r, del, b', x')" "step_ok cs ?new ?b ?x b' x'"
      using plan by blast
    have run: "delete_measured_region ops r ?b ?x = Some (r, b', x')" using False p(1,2) by (simp add: delete_measured_region_def)
    have id: "idents x' = idents x" using delete_region_idents [OF run] by simp
    show ?thesis unfolding delete_buffer_measured_region_def if_not_P [OF False]
      by (rule shared_edit_edits [OF m t(1) _ p(3) id d]) (simp add: run)
  qed
  assume ne: "\<not> edit_range_is_empty r"
  obtain plan x1 del b' x' str where p: "delete_text_plan_for_range_extracting ops r Wanted ?b ?x = Some (plan, x1)"
      "execute_delete_text_plan_extracting ops plan ?b x1 = Some (r, del, b', x')" "step_ok cs ?new ?b ?x b' x'"
      "del = Some str" "ls_bytes str = sub_list (er_byte_start r) (er_byte_end r) (bx_text x)" "ls_multibyte str = bx_mb x"
    using plan [of Wanted] by blast
  have run: "delete_and_extract_measured_region ops r ?b ?x = Some (r, str, b', x')" using p(1,2,4) by (simp add: delete_and_extract_measured_region_def)
  have id: "idents x' = idents x" using delete_extract_idents [OF run] by simp
  have "edits (text_root lv) ?new (delete_and_extract_buffer_measured_region ops i r m) m str"
    unfolding delete_and_extract_buffer_measured_region_def if_not_P [OF ne]
    by (rule shared_edit_edits [OF m t(1) _ p(3) id d]) (simp add: run)
  then show "\<exists>str. ls_bytes str = sub_list (er_byte_start r) (er_byte_end r) (bx_text x) \<and> ls_multibyte str = bx_mb x
      \<and> edits (text_root lv) ?new (delete_and_extract_buffer_measured_region ops i r m) m str" using p(5,6) by blast
qed

lemma replace_measured_edits:
  assumes m: "manager_ok m" "bm_get i m = Some lv" "bm_texts m (text_root lv) = Some x"
    and r: "measured_range (bx_mb x) (bx_text x) r" "ta_byte (bf_accessible_start (lv_buffer lv)) \<le> er_byte_start r"
    and str: "string_storable (bx_mb x) str" "fits_allocation (length (bx_text x) + length (stored_bytes (bx_mb x) str))"
  shows "edits (text_root lv) (replace_range (er_byte_start r) (er_byte_end r) (stored_bytes (bx_mb x) str) (bx_text x))
      (replace_buffer_measured_region_lisp_string ops i r str m) m ()" (is "edits _ ?new _ _ _")
proof -
  let ?x = "x\<lparr>tx_saved_point := bm_saved_point m\<rparr>" and ?b = "lv_buffer lv"
  obtain cs where t: "text_inv on_text m (text_root lv) cs x" "text_ok cs x" "buffer_on x ?b"
    by (rule buffer_of_manager [OF m(1,2)]) (use m(3) in auto)
  have ok: "text_ok cs ?x" "buffer_on ?x ?b" using t(2,3) by simp_all
  show ?thesis
  proof (cases "edit_range_is_empty r \<and> ls_bytes str = []")
    case True
    then have "er_byte_start r = er_byte_end r" using measured_rangeD(5) [OF r(1)] by (simp add: edit_range_is_empty_def byte_range_is_empty_def)
    then have "?new = bx_text x" using True stored_nothing [of str] by (simp add: replace_range_def)
    then show ?thesis using True edits_nothing [OF m(1,3)] by (simp add: replace_buffer_measured_region_lisp_string_def)
  next
    case False
    obtain rep b' x' where p: "replace_measured_region_lisp_string ops r str ?b ?x = Some (rep, b', x')" "tr_old rep = r"
        "measured_text (bx_mb x) (stored_bytes (bx_mb x) str) (tr_new rep)" "step_ok cs ?new ?b ?x b' x'"
      using replace_measured_sound [OF ok, of r str ops] r str by auto
    have d: "edit_describes (bx_mb x) (bx_text x) ?new (SE_Replace rep)" using p(2,3) r(1) by auto
    have id: "idents x' = idents x" using replace_region_idents [OF p(1)] by simp
    show ?thesis unfolding replace_buffer_measured_region_lisp_string_def if_not_P [OF False]
      by (rule shared_edit_edits [OF m t(1) _ p(4) id d]) (simp add: p(1))
  qed
qed

text \<open>The same for ranges that are given in bytes and measured first.\<close>

lemma delete_bytes_edits:
  assumes m: "manager_ok m" "bm_get i m = Some lv" "bm_texts m (text_root lv) = Some x"
    and r: "range_legal r (lv_buffer lv) x" and fits: "fits_allocation (length (bx_text x))"
  shows "edits (text_root lv) (delete_range (br_start r) (br_end r) (bx_text x)) (delete_buffer_emacs_byte_range ops i r m) m ()"
proof (cases "byte_range_is_empty r")
  case True
  then show ?thesis using r edits_nothing [OF m(1,3)]
    by (auto simp: delete_buffer_emacs_byte_range_def byte_range_is_empty_def delete_range_def range_legal_def)
next
  case False
  have r': "is_emacs_char_boundary (bx_text x) (br_start r) (bx_mb x)" "is_emacs_char_boundary (bx_text x) (br_end r) (bx_mb x)"
    "br_start r \<le> br_end r" "ta_byte (bf_accessible_start (lv_buffer lv)) \<le> br_start r"
    using r by (auto simp: range_legal_def)
  obtain e m1 x1 where e: "edit_range_for_buffer_emacs_byte_range i r m = Some (Some e, m1)" "steps m m1" "bm_get i m1 = Some lv"
      "bm_texts m1 (text_root lv) = Some x1" "bx_text x1 = bx_text x" "bx_mb x1 = bx_mb x" "measured_range (bx_mb x) (bx_text x) e"
      "er_byte_start e = br_start r" "er_byte_end e = br_end r" "elsewhere (text_root lv) m m1"
    by (rule measure_sound [OF m r'(1-3)])
  have m1: "manager_ok m1" using e(2) by (simp add: steps_def)
  have "edits (text_root lv) (delete_range (br_start r) (br_end r) (bx_text x)) (delete_buffer_measured_region ops i e m1) m1 ()"
    using delete_measured_edits(1) [OF m1 e(3,4), of e ops] e r' fits by simp
  then show ?thesis using edits_after [OF e(2) _ m(3) e(4,6,10)] False e(1) by (simp add: delete_buffer_emacs_byte_range_def and_then_def)
qed

lemma replace_bytes_edits:
  assumes m: "manager_ok m" "bm_get i m = Some lv" "bm_texts m (text_root lv) = Some x" and r: "range_legal r (lv_buffer lv) x"
    and str: "string_storable (bx_mb x) str" "fits_allocation (length (bx_text x) + length (stored_bytes (bx_mb x) str))"
  shows "edits (text_root lv) (replace_range (br_start r) (br_end r) (stored_bytes (bx_mb x) str) (bx_text x))
      (replace_buffer_emacs_byte_range_lisp_string ops i r str m) m ()"
proof -
  have r': "is_emacs_char_boundary (bx_text x) (br_start r) (bx_mb x)" "is_emacs_char_boundary (bx_text x) (br_end r) (bx_mb x)"
    "br_start r \<le> br_end r" "ta_byte (bf_accessible_start (lv_buffer lv)) \<le> br_start r"
    using r by (auto simp: range_legal_def)
  obtain e m1 x1 where e: "edit_range_for_buffer_emacs_byte_range i r m = Some (Some e, m1)" "steps m m1" "bm_get i m1 = Some lv"
      "bm_texts m1 (text_root lv) = Some x1" "bx_text x1 = bx_text x" "bx_mb x1 = bx_mb x" "measured_range (bx_mb x) (bx_text x) e"
      "er_byte_start e = br_start r" "er_byte_end e = br_end r" "elsewhere (text_root lv) m m1"
    by (rule measure_sound [OF m r'(1-3)])
  have m1: "manager_ok m1" using e(2) by (simp add: steps_def)
  have "edits (text_root lv) (replace_range (br_start r) (br_end r) (stored_bytes (bx_mb x) str) (bx_text x))
      (replace_buffer_measured_region_lisp_string ops i e str m1) m1 ()"
    using replace_measured_edits [OF m1 e(3,4), of e str ops] e r' str by simp
  then show ?thesis using edits_after [OF e(2) _ m(3) e(4,6,10)] r'(3) e(1) by (simp add: replace_buffer_emacs_byte_range_lisp_string_def and_then_def)
qed

end
