(* ===== verification/Manager_Session.thy ===== *)
theory Manager_Session
  imports Shared_Edit
begin

text \<open>
  Sessions of the buffer manager: any sequence of the operations of \<open>src/crates/neovm-core/src/buffer/buffer.rs\<close> and
  \<open>insdel.rs\<close> that create, select, order and kill buffers, move their points, narrow them and edit their
  texts. The operations are those of \<open>Buffer_Manager\<close> and \<open>Shared_Edit\<close>; a session is a list of calls.
\<close>

subsection \<open>Sessions\<close>

datatype 'p manager_command =
  MC_Create bytes
| MC_Create_Indirect nat bytes bool
| MC_Switch nat bool
| MC_Kill nat
| MC_Display nat
| MC_Order_Tail nat
| MC_Order_After nat nat
| MC_Goto nat emacs_byte_pos
| MC_Set_Point nat text_position_anchor
| MC_Narrow nat emacs_byte_range
| MC_Widen nat
| MC_Undo_Boundary nat
| MC_Record_Point nat
| MC_Insert nat "'p lisp_string" insert_marker_adjustment
| MC_Insert_Before nat "'p lisp_string"
| MC_Replace nat emacs_byte_range "'p lisp_string"
| MC_Delete nat emacs_byte_range

fun run_manager_command ::
    "('p, 'v, 'o) buffer_defaults \<Rightarrow> ('p, 'o) side_data_ops \<Rightarrow> 'p manager_command \<Rightarrow> ('p, 'v, 'o) buffer_manager
      \<Rightarrow> ('p, 'v, 'o) buffer_manager option" where
  "run_manager_command d ops (MC_Create name) m = map_option snd (create_buffer d name m)"
| "run_manager_command d ops (MC_Create_Indirect base name clone) m = map_option snd (create_indirect_buffer d base name clone m)"
| "run_manager_command d ops (MC_Switch i record_order) m = map_option snd (switch_current_with_recording i record_order m)"
| "run_manager_command d ops (MC_Kill i) m = map_option snd (kill_buffer i m)"
| "run_manager_command d ops (MC_Display i) m = Some (note_buffer_display i m)"
| "run_manager_command d ops (MC_Order_Tail i) m = Some (snd (note_buffer_order_tail i m))"
| "run_manager_command d ops (MC_Order_After i after) m = Some (snd (note_buffer_order_after i after m))"
| "run_manager_command d ops (MC_Goto i k) m = ignoring (goto_buffer_emacs_byte_pos i k m)"
| "run_manager_command d ops (MC_Set_Point i p) m = ignoring (set_buffer_point_anchor i p m)"
| "run_manager_command d ops (MC_Narrow i r) m = ignoring (narrow_buffer_to_emacs_byte_range i r m)"
| "run_manager_command d ops (MC_Widen i) m = ignoring (widen_buffer_fully i m)"
| "run_manager_command d ops (MC_Undo_Boundary i) m = ignoring (add_undo_boundary i m)"
| "run_manager_command d ops (MC_Record_Point i) m = ignoring (record_undo_point_before_command i m)"
| "run_manager_command d ops (MC_Insert i str adjustment) m = ignoring (insert_lisp_string_into_buffer_full ops i str adjustment m)"
| "run_manager_command d ops (MC_Insert_Before i str) m = ignoring (insert_lisp_string_into_buffer_before_markers ops i str m)"
| "run_manager_command d ops (MC_Replace i r str) m = ignoring (replace_buffer_emacs_byte_range_lisp_string ops i r str m)"
| "run_manager_command d ops (MC_Delete i r) m = ignoring (delete_buffer_emacs_byte_range ops i r m)"

fun run_manager_session ::
    "('p, 'v, 'o) buffer_defaults \<Rightarrow> ('p, 'o) side_data_ops \<Rightarrow> 'p manager_command list \<Rightarrow> ('p, 'v, 'o) buffer_manager
      \<Rightarrow> ('p, 'v, 'o) buffer_manager option" where
  "run_manager_session d ops [] m = Some m"
| "run_manager_session d ops (c # cs) m = do {
     m \<leftarrow> run_manager_command d ops c m;
     run_manager_session d ops cs m
   }"

text \<open>
  What the callers of an operation must see to: positions are boundaries of characters, ranges are ordered and
  lie behind the start of the accessible region, strings can be stored in the buffer and the text stays within an
  allocation, and ids for buffers and markers are left. There is nothing to see to for a buffer that is not live.
\<close>

definition on_live ::
    "nat \<Rightarrow> ('p, 'v, 'o) buffer_manager \<Rightarrow> (('v, 'o) buffer \<Rightarrow> ('p, 'v) text_object \<Rightarrow> bool) \<Rightarrow> bool" where
  "on_live i m P \<longleftrightarrow> (case bm_get i m of None \<Rightarrow> True | Some lv \<Rightarrow>
     (case bm_texts m (text_root lv) of None \<Rightarrow> True | Some x \<Rightarrow> P (lv_buffer lv) x))"

definition string_fits :: "'p lisp_string \<Rightarrow> ('p, 'v) text_object \<Rightarrow> bool" where
  "string_fits str x \<longleftrightarrow> string_storable (bx_mb x) str \<and> fits_allocation (length (bx_text x) + length (stored_bytes (bx_mb x) str))"

text \<open>Three markers for each of two buffers are left below the id that is reserved for the mark.\<close>

definition marker_ids_left :: "('p, 'v, 'o) buffer_manager \<Rightarrow> bool" where
  "marker_ids_left m \<longleftrightarrow> int (bm_next_marker_id m) + 5 < 2 ^ 63 - 1"

lemma marker_ids_left_nat: "marker_ids_left m \<Longrightarrow> bm_next_marker_id m + 5 < MARK_MARKER_ID"
  by (simp add: marker_ids_left_def MARK_MARKER_ID_def)

fun manager_command_legal :: "'p manager_command \<Rightarrow> ('p, 'v, 'o) buffer_manager \<Rightarrow> bool" where
  "manager_command_legal (MC_Create name) m \<longleftrightarrow> dense_id (bm_next_id m)"
| "manager_command_legal (MC_Create_Indirect base name clone) m \<longleftrightarrow> dense_id (bm_next_id m) \<and> marker_ids_left m"
| "manager_command_legal (MC_Goto i k) m \<longleftrightarrow> buffer_position i k m"
| "manager_command_legal (MC_Set_Point i p) m \<longleftrightarrow> buffer_anchor i p m"
| "manager_command_legal (MC_Narrow i r) m \<longleftrightarrow> buffer_position i (br_start r) m \<and> buffer_position i (br_end r) m"
| "manager_command_legal (MC_Insert i str adjustment) m \<longleftrightarrow> on_live i m (\<lambda>b x. string_fits str x)"
| "manager_command_legal (MC_Insert_Before i str) m \<longleftrightarrow> on_live i m (\<lambda>b x. string_fits str x)"
| "manager_command_legal (MC_Replace i r str) m \<longleftrightarrow> on_live i m (\<lambda>b x. range_legal r b x \<and> string_fits str x)"
| "manager_command_legal (MC_Delete i r) m \<longleftrightarrow> on_live i m (\<lambda>b x. range_legal r b x \<and> fits_allocation (length (bx_text x)))"
| "manager_command_legal _ m \<longleftrightarrow> True"

fun manager_session_legal ::
    "('p, 'v, 'o) buffer_defaults \<Rightarrow> ('p, 'o) side_data_ops \<Rightarrow> 'p manager_command list \<Rightarrow> ('p, 'v, 'o) buffer_manager \<Rightarrow> bool" where
  "manager_session_legal d ops [] m \<longleftrightarrow> True"
| "manager_session_legal d ops (c # cs) m \<longleftrightarrow> manager_command_legal c m
     \<and> (case run_manager_command d ops c m of Some m \<Rightarrow> manager_session_legal d ops cs m | None \<Rightarrow> True)"

subsection \<open>Every operation is sound\<close>

text \<open>An operation that runs, keeps the invariant, and whose records undo it.\<close>

definition runs :: "('p, 'v, 'o) buffer_manager option \<Rightarrow> ('p, 'v, 'o) buffer_manager \<Rightarrow> bool" where
  "runs r m \<longleftrightarrow> (\<exists>m'. r = Some m' \<and> manager_ok m' \<and> follows m m')"

lemma runs_same [intro]: "manager_ok m \<Longrightarrow> runs (Some m) m"
  by (simp add: runs_def)

lemma runs_steps: "\<exists>a m'. r = Some (a, m') \<and> steps m m' \<Longrightarrow> runs (ignoring r) m"
  by (auto simp: runs_def ignoring_def steps_def)

lemma runs_edits: "edits r new run m res \<Longrightarrow> runs (ignoring run) m"
  by (auto simp: runs_def ignoring_def edits_def)

lemma dead_edit:
  assumes "bm_get i m = None"
  shows "execute_shared_text_edit ops i f m = Some (None, m)" "edit_range_for_buffer_emacs_byte_range i r m = Some (None, m)"
    "kill_buffer_collect i m = Some (None, m)"
  using assms by (simp_all add: execute_shared_text_edit_def shared_text_edit_scope_def shared_text_root_id_def
      edit_range_for_buffer_emacs_byte_range_def on_buffer_def kill_buffer_collect_def collect_killed_buffer_ids_def)

lemma dead_edit_runs:
  assumes "bm_get i m = None" "manager_ok m"
  shows "runs (ignoring (insert_lisp_string_into_buffer_full ops i str adjustment m)) m"
    "runs (ignoring (insert_lisp_string_into_buffer_before_markers ops i str m)) m"
    "runs (ignoring (replace_buffer_emacs_byte_range_lisp_string ops i r str m)) m"
    "runs (ignoring (delete_buffer_emacs_byte_range ops i r m)) m"
  using assms(2) by (simp_all add: insert_lisp_string_into_buffer_full_def insert_lisp_string_into_buffer_before_markers_def
      replace_buffer_emacs_byte_range_lisp_string_def delete_buffer_emacs_byte_range_def dead_edit [OF assms(1)] and_then_def ignoring_def runs_def)

lemma on_live_runs:
  assumes "manager_ok m" "on_live i m P" "bm_get i m = None \<Longrightarrow> runs r m"
    and "\<And>lv x. bm_get i m = Some lv \<Longrightarrow> bm_texts m (text_root lv) = Some x \<Longrightarrow> P (lv_buffer lv) x \<Longrightarrow> runs r m"
  shows "runs r m"
proof (cases "bm_get i m")
  case None
  then show ?thesis by (rule assms(3))
next
  case (Some lv)
  obtain x where "bm_texts m (text_root lv) = Some x" by (rule manager_invD [OF assms(1) Some])
  then show ?thesis using assms(4) [OF Some] assms(2) Some by (simp add: on_live_def)
qed

lemma edit_command_runs:
  assumes m: "manager_ok m"
  shows "on_live i m (\<lambda>b x. string_fits str x) \<Longrightarrow> runs (ignoring (insert_lisp_string_into_buffer_full ops i str adjustment m)) m"
    "on_live i m (\<lambda>b x. string_fits str x) \<Longrightarrow> runs (ignoring (insert_lisp_string_into_buffer_before_markers ops i str m)) m"
    "on_live i m (\<lambda>b x. range_legal r b x \<and> string_fits str x) \<Longrightarrow> runs (ignoring (replace_buffer_emacs_byte_range_lisp_string ops i r str m)) m"
    "on_live i m (\<lambda>b x. range_legal r b x \<and> fits_allocation (length (bx_text x))) \<Longrightarrow> runs (ignoring (delete_buffer_emacs_byte_range ops i r m)) m"
proof -
  show "runs (ignoring (insert_lisp_string_into_buffer_full ops i str adjustment m)) m" if "on_live i m (\<lambda>b x. string_fits str x)"
  proof (rule on_live_runs [OF m that])
    fix lv x
    assume a: "bm_get i m = Some lv" "bm_texts m (text_root lv) = Some x" "string_fits str x"
    show "runs (ignoring (insert_lisp_string_into_buffer_full ops i str adjustment m)) m"
      by (rule runs_edits [OF insert_edits(1) [OF m a(1,2)]]) (use a(3) in \<open>simp_all add: string_fits_def\<close>)
  qed (rule dead_edit_runs [OF _ m])
  show "runs (ignoring (insert_lisp_string_into_buffer_before_markers ops i str m)) m" if "on_live i m (\<lambda>b x. string_fits str x)"
  proof (rule on_live_runs [OF m that])
    fix lv x
    assume a: "bm_get i m = Some lv" "bm_texts m (text_root lv) = Some x" "string_fits str x"
    show "runs (ignoring (insert_lisp_string_into_buffer_before_markers ops i str m)) m"
      by (rule runs_edits [OF insert_edits(2) [OF m a(1,2)]]) (use a(3) in \<open>simp_all add: string_fits_def\<close>)
  qed (rule dead_edit_runs [OF _ m])
  show "runs (ignoring (replace_buffer_emacs_byte_range_lisp_string ops i r str m)) m"
    if "on_live i m (\<lambda>b x. range_legal r b x \<and> string_fits str x)"
  proof (rule on_live_runs [OF m that])
    fix lv x
    assume a: "bm_get i m = Some lv" "bm_texts m (text_root lv) = Some x" "range_legal r (lv_buffer lv) x \<and> string_fits str x"
    show "runs (ignoring (replace_buffer_emacs_byte_range_lisp_string ops i r str m)) m"
      by (rule runs_edits [OF replace_bytes_edits [OF m a(1,2)]]) (use a(3) in \<open>simp_all add: string_fits_def\<close>)
  qed (rule dead_edit_runs [OF _ m])
  show "runs (ignoring (delete_buffer_emacs_byte_range ops i r m)) m"
    if "on_live i m (\<lambda>b x. range_legal r b x \<and> fits_allocation (length (bx_text x)))"
  proof (rule on_live_runs [OF m that])
    fix lv x
    assume a: "bm_get i m = Some lv" "bm_texts m (text_root lv) = Some x" "range_legal r (lv_buffer lv) x \<and> fits_allocation (length (bx_text x))"
    show "runs (ignoring (delete_buffer_emacs_byte_range ops i r m)) m"
      by (rule runs_edits [OF delete_bytes_edits [OF m a(1,2)]]) (use a(3) in simp_all)
  qed (rule dead_edit_runs [OF _ m])
qed

lemma manager_command_sound:
  assumes m: "manager_ok m" and legal: "manager_command_legal c m"
  shows "runs (run_manager_command d ops c m) m"
proof (cases c)
  case (MC_Create name)
  then show ?thesis using create_buffer_sound [OF m, of d name] legal by (auto simp: runs_def)
next
  case (MC_Create_Indirect base name clone)
  then show ?thesis using create_indirect_sound [OF m, of d base name clone] legal marker_ids_left_nat [of m] by (fastforce simp: runs_def)
next
  case (MC_Switch i record_order)
  then show ?thesis using switch_sound [OF m, of i record_order] by (auto simp: runs_def)
next
  case (MC_Kill i)
  then show ?thesis
    using kill_sound [OF m, of i] dead_edit(3) [of i m] m
    by (cases "bm_get i m") (fastforce simp: runs_def kill_buffer_def)+
next
  case (MC_Goto i k)
  then show ?thesis using runs_steps [OF goto_steps [OF m, of i k]] legal by simp
next
  case (MC_Set_Point i p)
  then show ?thesis using runs_steps [OF set_point_steps [OF m, of i p]] legal by simp
next
  case (MC_Narrow i r)
  then show ?thesis using runs_steps [OF narrow_steps [OF m, of i r]] legal by simp
next
  case (MC_Widen i)
  then show ?thesis using runs_steps [OF widen_steps [OF m, of i]] by simp
next
  case (MC_Undo_Boundary i)
  then show ?thesis using runs_steps [OF boundary_steps(1) [OF m, of i]] by simp
next
  case (MC_Record_Point i)
  then show ?thesis using runs_steps [OF boundary_steps(2) [OF m, of i]] by simp
qed (use legal m in \<open>auto simp: runs_def [where r = "Some _"] display_ok intro: edit_command_runs\<close>)

lemma manager_session_sound:
  assumes "manager_ok m" "manager_session_legal d ops cmds m"
  shows "runs (run_manager_session d ops cmds m) m"
  using assms
proof (induction cmds arbitrary: m)
  case Nil
  then show ?case by auto
next
  case (Cons c cmds)
  obtain m1 where m1: "run_manager_command d ops c m = Some m1" "manager_ok m1" "follows m m1"
    using manager_command_sound [OF Cons.prems(1), of c d ops] Cons.prems(2) by (auto simp: runs_def)
  have "runs (run_manager_session d ops cmds m1) m1" using Cons.IH [OF m1(2)] Cons.prems(2) m1(1) by simp
  then show ?case using m1(1) follows_trans [OF m1(3)] by (auto simp: runs_def)
qed

subsection \<open>Leaving a buffer and coming back\<close>

text \<open>The state of a buffer that is not current is kept by its markers.\<close>

definition parked :: "nat \<Rightarrow> ('v, 'o) live_buffer \<Rightarrow> ('p, 'v, 'o) buffer_manager \<Rightarrow> bool" where
  "parked i lv m \<longleftrightarrow> bm_get i m = Some lv \<and> pred_option (markers_at_state (lv_buffer lv)) (bm_texts m (text_root lv))"

lemma markers_at_state_same:
  "tx_markers x' = tx_markers x \<Longrightarrow> st_markers (tx_storage x') = st_markers (tx_storage x) \<Longrightarrow> markers_at_state b x' \<longleftrightarrow> markers_at_state b x"
  by (simp add: markers_at_state_def marker_emacs_byte_pos_def)

lemma put_same_get:
  assumes "lb_ok (bm_buffers m)" "bm_get j m = Some jv" "bm_get i m = Some lv" "i \<noteq> j"
  shows "bm_get i (put_buffer j jv b x m) = Some lv"
  using put_get(2) [OF assms(1,2)] assms(3,4) by simp

lemma record_parks:
  assumes m: "manager_ok m" and i: "bm_get i m = Some lv" and r: "ignoring (record_buffer_state_markers i m) = Some m'"
  shows "parked i lv m'"
proof (cases "bf_state_markers (lv_buffer lv)")
  case None
  then have "m' = m" using i r by (simp add: record_buffer_state_markers_def buffer_has_state_markers_def ignoring_def)
  then show ?thesis using i None by (simp add: parked_def markers_at_state_def option.pred_set)
next
  case (Some ids)
  obtain x cs where x: "bm_texts m (text_root lv) = Some x" "get_text lv m = Some (x\<lparr>tx_saved_point := bm_saved_point m\<rparr>)"
      "text_ok cs x" "buffer_on x (lv_buffer lv)" "holds_markers cs x (lv_buffer lv)"
    by (rule buffer_of_manager [OF m i])
  let ?x = "x\<lparr>tx_saved_point := bm_saved_point m\<rparr>"
  have ok: "text_ok cs ?x" "buffer_on ?x (lv_buffer lv)" "holds_markers cs ?x (lv_buffer lv)" using x(3-5) by simp_all
  obtain x' where x': "record_state_markers (lv_buffer lv) ?x = Some x'" "markers_at_state (lv_buffer lv) x'"
    by (rule record_sound [OF ok])
  have "m' = put_buffer i lv (lv_buffer lv) x' m"
    using r Some i x(2) x'(1) by (simp add: record_buffer_state_markers_def buffer_has_state_markers_def on_buffer_def ignoring_def)
  moreover have "lb_ok (bm_buffers m)" using m by (simp add: manager_inv_def)
  ultimately show ?thesis using put_get(2) [OF _ i] x'(2) by (simp add: parked_def)
qed

lemma record_other_parked:
  fixes m :: "('p, 'v, 'o) buffer_manager"
  assumes m: "manager_ok m" and p: "parked i lv m" and j: "j \<noteq> i" and r: "ignoring (record_buffer_state_markers j m) = Some m'"
  shows "parked i lv m'"
proof (cases "buffer_has_state_markers j m")
  case False
  then show ?thesis using r p by (simp add: record_buffer_state_markers_def ignoring_def)
next
  case True
  then obtain jv where jv: "bm_get j m = Some jv" by (auto simp: buffer_has_state_markers_def split: option.splits)
  have i: "bm_get i m = Some lv" using p by (simp add: parked_def)
  have id: "bf_id (lv_buffer lv) = i" "bf_id (lv_buffer jv) = j" "lb_ok (bm_buffers m)"
    using m i jv by (auto simp: manager_inv_def base_ok_def)
  obtain x cs where x: "bm_texts m (text_root jv) = Some x" "text_inv on_text m (text_root jv) cs x"
      "get_text jv m = Some (x\<lparr>tx_saved_point := bm_saved_point m\<rparr>)"
      "text_ok cs x" "buffer_on x (lv_buffer jv)" "holds_markers cs x (lv_buffer jv)"
    by (rule buffer_of_manager [OF m jv])
  let ?x = "x\<lparr>tx_saved_point := bm_saved_point m\<rparr>"
  have ok: "text_ok cs ?x" "buffer_on ?x (lv_buffer jv)" "holds_markers cs ?x (lv_buffer jv)" using x(4-6) by simp_all
  obtain x' where x': "record_state_markers (lv_buffer jv) ?x = Some x'"
      "\<And>c :: ('v, 'o) buffer. holds_markers cs ?x c \<Longrightarrow> bf_id c \<noteq> bf_id (lv_buffer jv) \<Longrightarrow> markers_at_state c ?x \<Longrightarrow> markers_at_state c x'"
    by (rule record_sound [OF ok]) (rule that)
  have m': "m' = put_buffer j jv (lv_buffer jv) x' m"
    using r True jv x(3) x'(1) by (simp add: record_buffer_state_markers_def on_buffer_def ignoring_def)
  show ?thesis
  proof (cases "text_root jv = text_root lv")
    case True
    have "holds_markers cs ?x (lv_buffer lv)" using text_invD(4) [OF x(2) i] True by simp
    moreover have "markers_at_state (lv_buffer lv) ?x" using p x(1) True by (simp add: parked_def markers_at_state_same [of ?x x])
    ultimately have "markers_at_state (lv_buffer lv) x'" using x'(2) id(1,2) j by simp
    then show ?thesis unfolding m' parked_def using True put_same_get [OF id(3) jv i] j by simp
  next
    case False
    then show ?thesis unfolding m' parked_def using put_same_get [OF id(3) jv i] j p by (simp add: parked_def)
  qed
qed

lemma fetch_other_parked:
  assumes m: "manager_ok m" and p: "parked i lv m" and j: "j \<noteq> i" and r: "ignoring (mg_fetch_buffer_state_markers j m) = Some m'"
  shows "parked i lv m'"
proof (cases "buffer_has_state_markers j m")
  case False
  obtain a m1 where "mg_fetch_buffer_state_markers j m = Some (a, m1)" using fetch_steps [OF m, of j] by blast
  with False have "m' = m" using r
    by (auto simp: mg_fetch_buffer_state_markers_def fetch_buffer_state_markers_def buffer_has_state_markers_def ignoring_def
        bind_eq_Some_conv split: option.splits)
  then show ?thesis using p by simp
next
  case True
  then obtain jv ids where jv: "bm_get j m = Some jv" "bf_state_markers (lv_buffer jv) = Some ids"
    by (auto simp: buffer_has_state_markers_def split: option.splits)
  have i: "bm_get i m = Some lv" using p by (simp add: parked_def)
  have lb: "lb_ok (bm_buffers m)" using m by (simp add: manager_inv_def)
  obtain x cs where x: "bm_texts m (text_root jv) = Some x" "get_text jv m = Some (x\<lparr>tx_saved_point := bm_saved_point m\<rparr>)"
      "text_ok cs x" "buffer_on x (lv_buffer jv)" "holds_markers cs x (lv_buffer jv)"
    by (rule buffer_of_manager [OF m jv(1)])
  let ?x = "x\<lparr>tx_saved_point := bm_saved_point m\<rparr>"
  have ok: "text_ok cs ?x" "bf_multibyte (lv_buffer jv) = bx_mb ?x" "holds_markers cs ?x (lv_buffer jv)"
    using x(3,5) buffer_onD(1) [OF x(4)] by simp_all
  obtain b' x' where f: "fetch_buffer_state_markers (lv_buffer jv) ?x = Some (Some (b', x'))" "recached ?x x'"
    by (rule fetch_stale [OF ok jv(2)])
  have m': "m' = put_buffer j jv b' x' m" using r jv(1) x(2) f(1) by (simp add: mg_fetch_buffer_state_markers_def ignoring_def)
  have "markers_at_state (lv_buffer lv) x'" if "text_root jv = text_root lv"
    using p x(1) that recached_keeps(5,10) [OF f(2)] by (simp add: parked_def markers_at_state_same [of x' x])
  then show ?thesis unfolding m' parked_def using put_same_get [OF lb jv(1) i] j p by (simp add: parked_def)
qed

lemma fetch_parked:
  assumes m: "manager_ok m" and p: "parked i lv m" and r: "ignoring (mg_fetch_buffer_state_markers i m) = Some m'"
  shows "bm_get i m' = Some lv"
proof -
  have i: "bm_get i m = Some lv" using p by (simp add: parked_def)
  have lb: "lb_ok (bm_buffers m)" using m by (simp add: manager_inv_def)
  obtain x cs where x: "bm_texts m (text_root lv) = Some x" "get_text lv m = Some (x\<lparr>tx_saved_point := bm_saved_point m\<rparr>)"
      "text_ok cs x" "buffer_on x (lv_buffer lv)" "holds_markers cs x (lv_buffer lv)"
    by (rule buffer_of_manager [OF m i])
  let ?x = "x\<lparr>tx_saved_point := bm_saved_point m\<rparr>"
  have ok: "text_ok cs ?x" "buffer_on ?x (lv_buffer lv)" "holds_markers cs ?x (lv_buffer lv)" using x(3-5) by simp_all
  show ?thesis
  proof (cases "bf_state_markers (lv_buffer lv)")
    case None
    then show ?thesis using r i x(2) by (simp add: mg_fetch_buffer_state_markers_def fetch_buffer_state_markers_def ignoring_def)
  next
    case (Some ids)
    have at: "markers_at_state (lv_buffer lv) ?x" using p x(1) by (simp add: parked_def markers_at_state_same [of ?x x])
    obtain x' where f: "fetch_buffer_state_markers (lv_buffer lv) ?x = Some (Some (lv_buffer lv, x'))"
      by (rule fetch_recorded [OF ok Some at])
    have "m' = put_buffer i lv (lv_buffer lv) x' m" using r i x(2) f by (simp add: mg_fetch_buffer_state_markers_def ignoring_def)
    then show ?thesis using put_get(2) [OF lb i] by simp
  qed
qed

lemma switch_parts:
  assumes m: "manager_ok m" and j: "bm_get j m \<noteq> None" and cur: "bm_current m = Some i" "i \<noteq> j"
  obtains m0 m2 m3 where "switch_current_with_recording j record_order m = Some (True, m3)" "manager_ok m0" "bm_buffers m0 = bm_buffers m"
    "bm_texts m0 = bm_texts m" "ignoring (record_buffer_state_markers i m0) = Some m2" "manager_ok m2"
    "ignoring (mg_fetch_buffer_state_markers j m2) = Some m3" "manager_ok m3" "bm_current m3 = Some j"
    "\<And>k. map_option lv_ident (bm_get k m3) = map_option lv_ident (bm_get k m)"
proof -
  let ?m0 = "if record_order then note_buffer_order_head j (m\<lparr>bm_current := Some j\<rparr>) else m\<lparr>bm_current := Some j\<rparr>"
  have "manager_ok (m\<lparr>bm_current := Some j\<rparr>)" by (rule manager_select [OF m]) (use j in simp)
  then have m0: "manager_ok ?m0" "bm_buffers ?m0 = bm_buffers m" "bm_texts ?m0 = bm_texts m" "bm_current ?m0 = Some j"
    using head_ok [of on_text "m\<lparr>bm_current := Some j\<rparr>" j] j by (simp_all add: note_buffer_order_head_def)
  obtain m2 where m2: "ignoring (record_buffer_state_markers i ?m0) = Some m2" "steps ?m0 m2"
    using ignoring_steps [OF record_steps [OF m0(1), of i]] by blast
  then have "manager_ok m2" by (simp add: steps_def)
  then obtain m3 where m3: "ignoring (mg_fetch_buffer_state_markers j m2) = Some m3" "steps m2 m3"
    using ignoring_steps [of "mg_fetch_buffer_state_markers j m2" m2] fetch_steps [of m2 j] by blast
  have s: "steps ?m0 m3" by (rule steps_trans [OF m2(2) m3(2)])
  have "switch_current_with_recording j record_order m = Some (True, m3)"
    using cur j m2(1) m3(1) order_ok(3) [OF m] by (simp add: switch_current_with_recording_def Let_def)
  then show thesis
    using that [OF _ m0(1-3) m2(1) \<open>manager_ok m2\<close> m3(1)] s m0(2,4) by (simp add: steps_def same_frame_def)
qed

text \<open>C9: leaving a buffer and coming back changes nothing. Select another buffer, which may be on the same text, and then
  select the first one again: its point, its region and everything else of it are as they were, although on
  the way its state was written to markers and read back from them.\<close>

theorem switch_and_back:
  assumes m: "manager_ok m" and cur: "bm_current m = Some i" "bm_get i m = Some lv" and j: "bm_get j m \<noteq> None" "j \<noteq> i"
  shows "\<exists>m1 m2. switch_current_with_recording j rec1 m = Some (True, m1) \<and> bm_current m1 = Some j
    \<and> switch_current_with_recording i rec2 m1 = Some (True, m2) \<and> bm_current m2 = Some i \<and> manager_ok m2 \<and> bm_get i m2 = Some lv"
proof -
  obtain a1 a2 m1 where s: "switch_current_with_recording j rec1 m = Some (True, m1)" "manager_ok a1" "bm_buffers a1 = bm_buffers m"
      "bm_texts a1 = bm_texts m" "ignoring (record_buffer_state_markers i a1) = Some a2" "manager_ok a2"
      "ignoring (mg_fetch_buffer_state_markers j a2) = Some m1" "manager_ok m1" "bm_current m1 = Some j"
      "\<And>k. map_option lv_ident (bm_get k m1) = map_option lv_ident (bm_get k m)"
    by (rule switch_parts [OF m j(1) cur(1)]) (use j(2) in auto)
  have "parked i lv a2" by (rule record_parks [OF s(2) _ s(5)]) (simp add: s(3) cur(2))
  then have p1: "parked i lv m1" by (rule fetch_other_parked [OF s(6) _ j(2) s(7)])
  have "bm_get i m1 \<noteq> None" using s(10) [of i] cur(2) by auto
  then obtain b1 b2 m2 where t: "switch_current_with_recording i rec2 m1 = Some (True, m2)" "manager_ok b1" "bm_buffers b1 = bm_buffers m1"
      "bm_texts b1 = bm_texts m1" "ignoring (record_buffer_state_markers j b1) = Some b2" "manager_ok b2"
      "ignoring (mg_fetch_buffer_state_markers i b2) = Some m2" "manager_ok m2" "bm_current m2 = Some i"
    by (rule switch_parts [OF s(8) _ s(9) j(2)])
  have "parked i lv b1" using p1 t(3,4) by (simp add: parked_def)
  then have "parked i lv b2" by (rule record_other_parked [OF t(2) _ j(2) t(5)])
  then have "bm_get i m2 = Some lv" by (rule fetch_parked [OF t(6) _ t(7)])
  then show ?thesis using s(1,9) t(1,8,9) by blast
qed

subsection \<open>Sessions from the first buffer on\<close>

lemma pred_optionI: "(\<And>a. y = Some a \<Longrightarrow> P a) \<Longrightarrow> pred_option P y"
  by (cases y) simp_all

text \<open>C8: every handle of the manager resolves. Start with a new manager and run any session of legal commands, which
  create, select, order, narrow, edit and kill buffers. The session returns. The current buffer is live, the
  buffer list holds exactly the live buffers, once each, and a live buffer has its own id, a text in its own
  representation and, when it is indirect, a base that is live and not indirect itself.\<close>

theorem manager_references_resolve:
  assumes "manager_new d = Some m" "manager_session_legal d ops cmds m"
  shows "\<exists>m'. run_manager_session d ops cmds m = Some m' \<and> pred_option (\<lambda>c. bm_get c m' \<noteq> None) (bm_current m')
    \<and> distinct (bm_order m') \<and> (\<forall>i. i \<in> set (bm_order m') \<longleftrightarrow> bm_get i m' \<noteq> None)
    \<and> (\<forall>i. pred_option (\<lambda>lv. bf_id (lv_buffer lv) = i \<and> i < bm_next_id m'
         \<and> pred_option (\<lambda>r. \<exists>rv. bm_get r m' = Some rv \<and> lv_base_buffer rv = None) (lv_base_buffer lv)
         \<and> (\<exists>x. bm_texts m' (text_root lv) = Some x \<and> bx_mb x = bf_multibyte (lv_buffer lv))) (bm_get i m'))"
proof -
  have "manager_ok m" using manager_new_sound [of d] assms(1) by auto
  then obtain m' where m': "run_manager_session d ops cmds m = Some m'" "manager_ok m'"
    using manager_session_sound [of m d ops cmds] assms(2) by (auto simp: runs_def)
  have "pred_option (\<lambda>lv. bf_id (lv_buffer lv) = i \<and> i < bm_next_id m'
         \<and> pred_option (\<lambda>r. \<exists>rv. bm_get r m' = Some rv \<and> lv_base_buffer rv = None) (lv_base_buffer lv)
         \<and> (\<exists>x. bm_texts m' (text_root lv) = Some x \<and> bx_mb x = bf_multibyte (lv_buffer lv))) (bm_get i m')" for i
  proof (cases "bm_get i m'")
    case (Some lv)
    obtain x cs where x: "bm_texts m' (text_root lv) = Some x" "buffer_on x (lv_buffer lv)"
      by (rule buffer_of_manager [OF m'(2) Some])
    moreover have "base_ok m' i lv" using m'(2) Some by (auto simp: manager_inv_def)
    ultimately show ?thesis using Some buffer_onD(1) [OF x(2)] by (auto simp: base_ok_def option.pred_set)
  qed simp
  then show ?thesis using m' order_ok [OF m'(2)] by (auto simp: manager_inv_def)
qed

text \<open>C2: positions stay right in every buffer. After any session of legal commands on a sound manager, a live buffer's
  point and accessible region are positions of its text, in order, with the character position that belongs to
  the byte position, whichever of the buffers on the text was edited.\<close>

theorem manager_session_keeps_positions:
  assumes "manager_ok m" "manager_session_legal d ops cmds m"
  shows "\<exists>m'. run_manager_session d ops cmds m = Some m' \<and> manager_ok m'
    \<and> (\<forall>i. pred_option (\<lambda>lv. pred_option (\<lambda>x. state_ok (bx_mb x) (bx_text x) (edit_state (lv_buffer lv))) (bm_texts m' (text_root lv))) (bm_get i m'))"
proof -
  obtain m' where m': "run_manager_session d ops cmds m = Some m'" "manager_ok m'"
    using manager_session_sound [OF assms] by (auto simp: runs_def)
  have "pred_option (\<lambda>lv. pred_option (\<lambda>x. state_ok (bx_mb x) (bx_text x) (edit_state (lv_buffer lv))) (bm_texts m' (text_root lv))) (bm_get i m')" for i
  proof (rule pred_optionI)
    fix lv
    assume "bm_get i m' = Some lv"
    then show "pred_option (\<lambda>x. state_ok (bx_mb x) (bx_text x) (edit_state (lv_buffer lv))) (bm_texts m' (text_root lv))"
      by (rule buffer_of_manager [OF m'(2)]) (simp add: buffer_on_def)
  qed
  then show ?thesis using m' by blast
qed

text \<open>C1: undo works across buffers. Take a text whose undo list is empty and run any session of legal commands, which may
  edit the text through any of the buffers on it, edit other texts, and create and kill buffers. If the text is
  still there at the end, its undo list is on, and undoing all of it, newest record first, gives exactly the
  text of the start.\<close>

theorem manager_session_undo_restores:
  assumes m: "manager_ok m" "bm_get i m = Some lv" "bm_texts m (text_root lv) = Some x" and empty: "tx_undo_list x = Undo_List []"
    and legal: "manager_session_legal d ops cmds m"
  shows "\<exists>m'. run_manager_session d ops cmds m = Some m'
    \<and> pred_option (\<lambda>x'. \<exists>es. tx_undo_list x' = Undo_List es \<and> undo_entries_text (bx_mb x') es (bx_text x') = Some (bx_text x))
        (bm_texts m' (text_root lv))"
proof -
  obtain m' where m': "run_manager_session d ops cmds m = Some m'" "follows m m'"
    using manager_session_sound [OF m(1) legal] by (auto simp: runs_def)
  have "\<exists>es. tx_undo_list x' = Undo_List es \<and> undo_entries_text (bx_mb x') es (bx_text x') = Some (bx_text x)"
    if x': "bm_texts m' (text_root lv) = Some x'" for x'
  proof -
    have f: "follows_text x x'" using m'(2) root_below(1) [OF m(1,2)] x' m(3) by (auto simp: follows_def)
    then obtain es where es: "tx_undo_list x' = Undo_List es"
      using empty by (cases "tx_undo_list x'") (auto simp: follows_text_def undo_list_is_disabled_def)
    moreover have "undo_restores (bx_mb x) (bx_text x) (tx_undo_list x') (bx_text x')"
      using f empty unfolding follows_text_def undo_follows_def by auto
    ultimately show ?thesis using f by (simp add: follows_text_def)
  qed
  then show ?thesis using m'(1) by (auto intro!: pred_optionI)
qed

subsection \<open>One text, several buffers\<close>

text \<open>What an edit of one buffer on a text is for another buffer on it.\<close>

definition reaches :: "nat \<Rightarrow> nat \<Rightarrow> bytes \<Rightarrow> (unit option \<times> ('p, 'v, 'o) buffer_manager) option \<Rightarrow> bool" where
  "reaches j r new run \<longleftrightarrow> (\<exists>m' jv x'. run = Some (Some (), m') \<and> bm_get j m' = Some jv \<and> text_root jv = r \<and> bm_texts m' r = Some x'
     \<and> bx_text x' = new \<and> state_ok (bx_mb x') new (edit_state (lv_buffer jv)))"

lemma edits_reaches:
  assumes "edits r new run m ()" "bm_get j m = Some jv" "text_root jv = r"
  shows "reaches j r new run"
proof -
  obtain m' x' where m': "run = Some (Some (), m')" "manager_ok m'" "same_frame m m'" "bm_texts m' r = Some x'" "bx_text x' = new"
    using assms(1) by (auto simp: edits_def)
  have "map_option lv_ident (bm_get j m') = map_option lv_ident (bm_get j m)" using m'(3) by (simp add: same_frame_def)
  then obtain kv where "bm_get j m' = Some kv" "lv_ident kv = lv_ident jv" using assms(2) by auto
  then have k: "bm_get j m' = Some kv" "text_root kv = r" using assms(3) by (auto simp: lv_ident_def text_root_def split: option.splits)
  obtain y where "bm_texts m' (text_root kv) = Some y" "buffer_on y (lv_buffer kv)" by (rule buffer_of_manager [OF m'(2) k(1)])
  then have "state_ok (bx_mb x') new (edit_state (lv_buffer kv))" using k(2) m'(4,5) by (simp add: buffer_on_def)
  then show ?thesis using m' k by (auto simp: reaches_def)
qed

text \<open>C3: an edit reaches every buffer on the text. When \<open>i\<close> and \<open>j\<close> are on one text, an insertion, a replacement or a deletion
  through \<open>i\<close> returns, gives the text that the edit of a byte list gives, and leaves \<open>j\<close> on that same text with a point
  and an accessible region that are right for it.\<close>

theorem shared_edits_reach_all:
  assumes "manager_ok m" "bm_get i m = Some lv" "bm_texts m (text_root lv) = Some x" "bm_get j m = Some jv" "text_root jv = text_root lv"
    and "string_fits str x" "range_legal r (lv_buffer lv) x"
  shows "reaches j (text_root lv) (insert_at (ta_byte (bf_point (lv_buffer lv))) (stored_bytes (bx_mb x) str) (bx_text x))
      (insert_lisp_string_into_buffer_full ops i str adjustment m)
    \<and> reaches j (text_root lv) (replace_range (br_start r) (br_end r) (stored_bytes (bx_mb x) str) (bx_text x))
      (replace_buffer_emacs_byte_range_lisp_string ops i r str m)
    \<and> reaches j (text_root lv) (delete_range (br_start r) (br_end r) (bx_text x)) (delete_buffer_emacs_byte_range ops i r m)"
proof -
  have fits: "string_storable (bx_mb x) str" "fits_allocation (length (bx_text x) + length (stored_bytes (bx_mb x) str))"
      "fits_allocation (length (bx_text x))"
    using assms(6) by (simp_all add: string_fits_def fits_allocation_def)
  show ?thesis
    using edits_reaches [OF insert_edits(1) [OF assms(1-3) fits(1,2)] assms(4,5)]
      edits_reaches [OF replace_bytes_edits [OF assms(1-3,7) fits(1,2)] assms(4,5)]
      edits_reaches [OF delete_bytes_edits [OF assms(1-3,7) fits(3)] assms(4,5)] by blast
qed

text \<open>C11: an edit stays within its text. A buffer on another text, and that text with its markers, undo list and
  properties, are exactly what they were after an insertion, a replacement or a deletion through \<open>i\<close>.\<close>

theorem edits_leave_other_texts:
  assumes "manager_ok m" "bm_get i m = Some lv" "bm_texts m (text_root lv) = Some x" "bm_get k m = Some kv" "text_root kv \<noteq> text_root lv"
    and "string_fits str x" "range_legal r (lv_buffer lv) x"
  shows "(\<exists>m'. insert_lisp_string_into_buffer_full ops i str adjustment m = Some (Some (), m')
       \<and> bm_get k m' = Some kv \<and> bm_texts m' (text_root kv) = bm_texts m (text_root kv))
    \<and> (\<exists>m'. replace_buffer_emacs_byte_range_lisp_string ops i r str m = Some (Some (), m')
       \<and> bm_get k m' = Some kv \<and> bm_texts m' (text_root kv) = bm_texts m (text_root kv))
    \<and> (\<exists>m'. delete_buffer_emacs_byte_range ops i r m = Some (Some (), m')
       \<and> bm_get k m' = Some kv \<and> bm_texts m' (text_root kv) = bm_texts m (text_root kv))"
proof -
  have fits: "string_storable (bx_mb x) str" "fits_allocation (length (bx_text x) + length (stored_bytes (bx_mb x) str))"
      "fits_allocation (length (bx_text x))"
    using assms(6) by (simp_all add: string_fits_def fits_allocation_def)
  have other: "\<exists>m'. run = Some (Some (), m') \<and> bm_get k m' = Some kv \<and> bm_texts m' (text_root kv) = bm_texts m (text_root kv)"
    if "edits (text_root lv) new run m ()" for new run
    using that assms(4,5) by (auto simp: edits_def elsewhere_def)
  show ?thesis
    using other [OF insert_edits(1) [OF assms(1-3) fits(1,2), of ops adjustment]]
      other [OF replace_bytes_edits [OF assms(1-3,7) fits(1,2), of ops]]
      other [OF delete_bytes_edits [OF assms(1-3,7) fits(3), of ops]] by blast
qed

subsection \<open>Creating and killing\<close>

text \<open>C10: killing is exact. Killing a live buffer returns the list of the killed buffers, which are the buffer and, when it
  is the base of others, all of those. They are gone from the table, the list and the selection and keep only
  their names, every other buffer is untouched, and what is left is sound.\<close>

theorem kill_takes_sharers:
  assumes "manager_ok m" "bm_get i m = Some lv"
  shows "\<exists>ks m'. kill_buffer_collect i m = Some (Some ks, m') \<and> distinct ks \<and> set ks = killed_with i m \<and> manager_ok m'
    \<and> (\<forall>j. bm_get j m' = (if j \<in> set ks then None else bm_get j m))
    \<and> (\<forall>j. bm_dead m' j = (if j \<in> set ks then map_option lv_name (bm_get j m) else bm_dead m j))
    \<and> bm_order m' = filter (\<lambda>j. j \<notin> set ks) (bm_order m)
    \<and> bm_current m' = (if pred_option (\<lambda>c. c \<notin> set ks) (bm_current m) then bm_current m else None)"
  using kill_sound [OF assms] by blast

text \<open>C13: an indirect buffer is on the text of a base buffer. Making one from a live buffer, itself indirect or not, with a
  new name gives the next id; the base of the new buffer is the buffer that owns the text, never an indirect
  one, and both keep their state in markers from then on.\<close>

theorem indirect_shares_root_text:
  assumes "manager_ok m" "marker_ids_left m" "dense_id (bm_next_id m)"
    and "bm_get base m = Some bv" "name \<noteq> []" "find_buffer_by_name name m = Some None"
  shows "\<exists>m' lv rv. create_indirect_buffer d base name clone m = Some (Some (bm_next_id m), m') \<and> manager_ok m'
    \<and> bm_get (bm_next_id m) m' = Some lv \<and> lv_name lv = name \<and> lv_base_buffer lv = Some (text_root bv)
    \<and> bm_get (text_root bv) m' = Some rv \<and> lv_base_buffer rv = None
    \<and> buffer_has_state_markers (bm_next_id m) m' \<and> buffer_has_state_markers (text_root bv) m'"
proof -
  have fresh: "\<not> (\<exists>i lv. bm_get i m = Some lv \<and> lv_name lv = name)"
    using find_name_sound [OF assms(1) assms(6)] by simp
  obtain m' lv where m': "create_indirect_buffer d base name clone m = Some (Some (bm_next_id m), m')" "manager_ok m'"
      "bm_get (bm_next_id m) m' = Some lv" "lv_name lv = name" "lv_base_buffer lv = Some (text_root bv)"
      "buffer_has_state_markers (bm_next_id m) m'" "buffer_has_state_markers (text_root bv) m'"
    using create_indirect_sound [OF assms(1) marker_ids_left_nat [OF assms(2)] assms(3), of d base name clone] assms(4,5) fresh by fastforce
  have "base_ok m' (bm_next_id m) lv" using m'(2,3) by (auto simp: manager_inv_def)
  then obtain rv where "bm_get (text_root bv) m' = Some rv" "lv_base_buffer rv = None" using m'(5) by (auto simp: base_ok_def)
  then show ?thesis using m' by blast
qed

text \<open>C14: an indirect buffer is refused for an empty name, a name in use or a base that is not live, and then the manager is
  unchanged.\<close>

theorem indirect_refused:
  assumes "manager_ok m" "marker_ids_left m" "dense_id (bm_next_id m)"
    and "name = [] \<or> pred_option (\<lambda>r. r \<noteq> None) (find_buffer_by_name name m) \<or> bm_get base m = None"
  shows "create_indirect_buffer d base name clone m = Some (None, m)"
proof -
  obtain taken where t: "find_buffer_by_name name m = Some taken" using find_name_total [OF assms(1)] by blast
  then have "name = [] \<or> (\<exists>i lv. bm_get i m = Some lv \<and> lv_name lv = name) \<or> bm_get base m = None"
    using assms(4) find_name_sound [OF assms(1) t] by (cases taken) auto
  then show ?thesis
    using create_indirect_sound [OF assms(1) marker_ids_left_nat [OF assms(2)] assms(3), of d base name clone] by auto
qed

text \<open>A new buffer has the next id, its name and an empty text of its own, its undo list is on unless the name starts
  with a space, and no other buffer is touched.\<close>

theorem create_buffer_fresh:
  assumes "manager_ok m" "dense_id (bm_next_id m)"
  shows "\<exists>m' lv x. create_buffer d name m = Some (bm_next_id m, m') \<and> manager_ok m' \<and> bm_next_id m' = bm_next_id m + 1
    \<and> bm_get (bm_next_id m) m' = Some lv \<and> lv_name lv = name \<and> lv_base_buffer lv = None
    \<and> bm_texts m' (bm_next_id m) = Some x \<and> bx_text x = []
    \<and> tx_undo_list x = (if name \<noteq> [] \<and> hd name = 0x20 then Undo_T else Undo_List [])
    \<and> bm_get (bm_next_id m) m = None \<and> (\<forall>j. bm_get j m' = (if j = bm_next_id m then Some lv else bm_get j m))"
proof -
  have "bm_get (bm_next_id m) m = None" using root_below(2) [OF assms(1), of "bm_next_id m"] by (cases "bm_get (bm_next_id m) m") auto
  moreover obtain m' lv x where "create_buffer d name m = Some (bm_next_id m, m')" "manager_ok m'" "bm_next_id m' = bm_next_id m + 1"
      "\<And>j. j \<noteq> bm_next_id m \<Longrightarrow> bm_get j m' = bm_get j m" "bm_get (bm_next_id m) m' = Some lv" "lv_name lv = name" "lv_base_buffer lv = None"
      "bm_texts m' (bm_next_id m) = Some x" "bx_text x = []" "tx_undo_list x = (if name \<noteq> [] \<and> hd name = 0x20 then Undo_T else Undo_List [])"
    using create_buffer_sound [OF assms, of d name] by blast
  ultimately show ?thesis by (intro exI [of _ m'] exI [of _ lv] exI [of _ x]) simp
qed

subsection \<open>A sample manager\<close>

text \<open>
  Buffers 1 and 2 are on one text, buffer 3 is on its own. The loops over marker chains are evaluated by
  their equations.
\<close>

definition sample_defaults :: "(nat, nat, nat) buffer_defaults" where
  "sample_defaults = \<lparr>bd_overlays_new = 0, bd_overlays_retarget = (\<lambda>_ _ o'. o'), bd_props_new = 0, bd_modtime_unknown = 0\<rparr>"

definition sample_first :: "(nat, nat, nat) buffer_manager" where
  "sample_first = the (manager_new sample_defaults)"

definition sample_setup :: "nat manager_command list" where
  "sample_setup = [MC_Insert 1 sample_string ByInsertionType, MC_Create_Indirect 1 [0x62] False, MC_Create [0x20]]"

definition sample_commands :: "nat manager_command list" where
  "sample_commands = [MC_Insert 1 sample_string ByInsertionType, MC_Create_Indirect 1 [0x62] False, MC_Switch 2 True, MC_Undo_Boundary 2,
     MC_Delete 2 (byte_range_new 0 1), MC_Order_After 1 2, MC_Kill 2]"

definition sample_manager :: "(nat, nat, nat) buffer_manager" where
  "sample_manager = the (run_manager_session sample_defaults sample_ops sample_setup sample_first)"

definition sample_live :: "nat \<Rightarrow> (nat, nat) live_buffer" where
  "sample_live i = the (bm_get i sample_manager)"

definition sample_shared :: "(nat, nat) text_object" where
  "sample_shared = the (bm_texts sample_manager 1)"

declare unchain_first.simps [code] unchain_all.simps [code]

lemma sample_first_new: "manager_new sample_defaults = Some sample_first" "manager_ok sample_first"
  using manager_new_sound [of sample_defaults] by (auto simp: sample_first_def)

lemma sample_legal:
  "manager_session_legal sample_defaults sample_ops sample_setup sample_first"
  "manager_session_legal sample_defaults sample_ops sample_commands sample_first"
  by code_simp+

lemma sample_manager_ok: "manager_ok sample_manager"
  using manager_session_sound [OF sample_first_new(2) sample_legal(1)] by (auto simp: runs_def sample_manager_def)

lemma sample_roots:
  "map (\<lambda>i. map_option text_root (bm_get i sample_manager)) [1, 2, 3] = [Some 1, Some 1, Some 3]"
  by code_simp

lemma sample_lives:
  "bm_get 1 sample_manager = Some (sample_live 1)" "bm_get 2 sample_manager = Some (sample_live 2)" "bm_get 3 sample_manager = Some (sample_live 3)"
  "text_root (sample_live 1) = 1" "text_root (sample_live 2) = 1" "text_root (sample_live 3) = 3"
  using sample_roots by (auto simp: sample_live_def)

lemma sample_shared_text: "bm_texts sample_manager 1 = Some sample_shared"
proof -
  obtain x where "bm_texts sample_manager (text_root (sample_live 1)) = Some x" by (rule manager_invD [OF sample_manager_ok sample_lives(1)])
  then show ?thesis by (simp add: sample_shared_def sample_lives(4) del: One_nat_def)
qed

lemma sample_edit_legal:
  "on_live 2 sample_manager (\<lambda>b x. string_fits sample_string x \<and> range_legal (byte_range_new 0 1) b x)"
  "bm_current sample_manager = Some 1" "marker_ids_left sample_manager" "dense_id (bm_next_id sample_manager)" "find_buffer_by_name [0x63] sample_manager = Some None"
  by code_simp+

lemma sample_fits: "string_fits sample_string sample_shared" "range_legal (byte_range_new 0 1) (lv_buffer (sample_live 2)) sample_shared"
  using sample_edit_legal(1) sample_shared_text by (simp_all add: on_live_def sample_lives del: One_nat_def)

theorem manager_references_resolve_witness:
  "\<exists>m'. run_manager_session sample_defaults sample_ops sample_commands sample_first = Some m' \<and> pred_option (\<lambda>c. bm_get c m' \<noteq> None) (bm_current m')
    \<and> distinct (bm_order m') \<and> (\<forall>i. i \<in> set (bm_order m') \<longleftrightarrow> bm_get i m' \<noteq> None)
    \<and> (\<forall>i. pred_option (\<lambda>lv. bf_id (lv_buffer lv) = i \<and> i < bm_next_id m'
         \<and> pred_option (\<lambda>r. \<exists>rv. bm_get r m' = Some rv \<and> lv_base_buffer rv = None) (lv_base_buffer lv)
         \<and> (\<exists>x. bm_texts m' (text_root lv) = Some x \<and> bx_mb x = bf_multibyte (lv_buffer lv))) (bm_get i m'))"
  by (rule manager_references_resolve [OF sample_first_new(1) sample_legal(2)])

theorem manager_session_keeps_positions_witness:
  "\<exists>m'. run_manager_session sample_defaults sample_ops sample_commands sample_first = Some m' \<and> manager_ok m'
    \<and> (\<forall>i. pred_option (\<lambda>lv. pred_option (\<lambda>x. state_ok (bx_mb x) (bx_text x) (edit_state (lv_buffer lv))) (bm_texts m' (text_root lv))) (bm_get i m'))"
  by (rule manager_session_keeps_positions [OF sample_first_new(2) sample_legal(2)])

theorem manager_session_undo_restores_witness:
  "\<exists>x m'. bm_texts sample_first 1 = Some x \<and> run_manager_session sample_defaults sample_ops sample_commands sample_first = Some m'
    \<and> pred_option (\<lambda>x'. \<exists>es. tx_undo_list x' = Undo_List es \<and> undo_entries_text (bx_mb x') es (bx_text x') = Some (bx_text x)) (bm_texts m' 1)"
proof -
  obtain lv x where n: "bm_get 1 sample_first = Some lv" "lv_base_buffer lv = None" "bm_texts sample_first 1 = Some x" "tx_undo_list x = Undo_List []"
    using manager_new_sound [of sample_defaults] sample_first_new(1) by auto
  have "base_ok sample_first 1 lv" using sample_first_new(2) n(1) by (auto simp: manager_inv_def)
  then have r: "text_root lv = 1" using n(2) by (simp add: text_root_def base_ok_def)
  show ?thesis
    using manager_session_undo_restores [OF sample_first_new(2) n(1) _ n(4) sample_legal(2)] n(3) r by simp
qed

theorem shared_edits_reach_all_witness:
  "reaches 1 1 (insert_at (ta_byte (bf_point (lv_buffer (sample_live 2)))) (stored_bytes (bx_mb sample_shared) sample_string) (bx_text sample_shared))
      (insert_lisp_string_into_buffer_full sample_ops 2 sample_string ByInsertionType sample_manager)
    \<and> reaches 1 1 (replace_range (br_start (byte_range_new 0 1)) (br_end (byte_range_new 0 1)) (stored_bytes (bx_mb sample_shared) sample_string) (bx_text sample_shared))
      (replace_buffer_emacs_byte_range_lisp_string sample_ops 2 (byte_range_new 0 1) sample_string sample_manager)
    \<and> reaches 1 1 (delete_range (br_start (byte_range_new 0 1)) (br_end (byte_range_new 0 1)) (bx_text sample_shared))
      (delete_buffer_emacs_byte_range sample_ops 2 (byte_range_new 0 1) sample_manager)"
  using shared_edits_reach_all [OF sample_manager_ok sample_lives(2) _ sample_lives(1) _ sample_fits] sample_shared_text
  by (simp add: sample_lives del: One_nat_def)

theorem edits_leave_other_texts_witness:
  "(\<exists>m'. insert_lisp_string_into_buffer_full sample_ops 2 sample_string ByInsertionType sample_manager = Some (Some (), m')
       \<and> bm_get 3 m' = Some (sample_live 3) \<and> bm_texts m' 3 = bm_texts sample_manager 3)
    \<and> (\<exists>m'. replace_buffer_emacs_byte_range_lisp_string sample_ops 2 (byte_range_new 0 1) sample_string sample_manager = Some (Some (), m')
       \<and> bm_get 3 m' = Some (sample_live 3) \<and> bm_texts m' 3 = bm_texts sample_manager 3)
    \<and> (\<exists>m'. delete_buffer_emacs_byte_range sample_ops 2 (byte_range_new 0 1) sample_manager = Some (Some (), m')
       \<and> bm_get 3 m' = Some (sample_live 3) \<and> bm_texts m' 3 = bm_texts sample_manager 3)"
  using edits_leave_other_texts [OF sample_manager_ok sample_lives(2) _ sample_lives(3) _ sample_fits] sample_shared_text
  by (simp add: sample_lives del: One_nat_def)

theorem switch_and_back_witness:
  "\<exists>m1 m2. switch_current_with_recording 2 True sample_manager = Some (True, m1) \<and> bm_current m1 = Some 2
    \<and> switch_current_with_recording 1 False m1 = Some (True, m2) \<and> bm_current m2 = Some 1 \<and> manager_ok m2 \<and> bm_get 1 m2 = Some (sample_live 1)"
  by (rule switch_and_back [OF sample_manager_ok sample_edit_legal(2) sample_lives(1)]) (simp_all add: sample_lives del: One_nat_def)

theorem kill_takes_sharers_witness:
  "\<exists>ks m'. kill_buffer_collect 1 sample_manager = Some (Some ks, m') \<and> distinct ks \<and> set ks = killed_with 1 sample_manager \<and> manager_ok m'
    \<and> (\<forall>j. bm_get j m' = (if j \<in> set ks then None else bm_get j sample_manager))
    \<and> (\<forall>j. bm_dead m' j = (if j \<in> set ks then map_option lv_name (bm_get j sample_manager) else bm_dead sample_manager j))
    \<and> bm_order m' = filter (\<lambda>j. j \<notin> set ks) (bm_order sample_manager)
    \<and> bm_current m' = (if pred_option (\<lambda>c. c \<notin> set ks) (bm_current sample_manager) then bm_current sample_manager else None)"
  by (rule kill_takes_sharers [OF sample_manager_ok sample_lives(1)])

theorem indirect_shares_root_text_witness:
  "\<exists>m' lv rv. create_indirect_buffer sample_defaults 2 [0x63] True sample_manager = Some (Some (bm_next_id sample_manager), m') \<and> manager_ok m'
    \<and> bm_get (bm_next_id sample_manager) m' = Some lv \<and> lv_name lv = [0x63] \<and> lv_base_buffer lv = Some (text_root (sample_live 2))
    \<and> bm_get (text_root (sample_live 2)) m' = Some rv \<and> lv_base_buffer rv = None
    \<and> buffer_has_state_markers (bm_next_id sample_manager) m' \<and> buffer_has_state_markers (text_root (sample_live 2)) m'"
  by (rule indirect_shares_root_text [OF sample_manager_ok sample_edit_legal(3,4) sample_lives(2) _ sample_edit_legal(5)]) simp

theorem indirect_refused_witness: "create_indirect_buffer sample_defaults 2 [] True sample_manager = Some (None, sample_manager)"
  by (rule indirect_refused [OF sample_manager_ok sample_edit_legal(3,4)]) simp

theorem create_buffer_fresh_witness:
  "\<exists>m' lv x. create_buffer sample_defaults [0x61] sample_manager = Some (bm_next_id sample_manager, m') \<and> manager_ok m'
    \<and> bm_next_id m' = bm_next_id sample_manager + 1
    \<and> bm_get (bm_next_id sample_manager) m' = Some lv \<and> lv_name lv = [0x61] \<and> lv_base_buffer lv = None
    \<and> bm_texts m' (bm_next_id sample_manager) = Some x \<and> bx_text x = [] \<and> tx_undo_list x = (if [0x61] \<noteq> ([] :: bytes) \<and> hd [0x61] = (0x20 :: u8) then Undo_T else Undo_List [])
    \<and> bm_get (bm_next_id sample_manager) sample_manager = None
    \<and> (\<forall>j. bm_get j m' = (if j = bm_next_id sample_manager then Some lv else bm_get j sample_manager))"
  using create_buffer_fresh [OF sample_manager_ok sample_edit_legal(4), of sample_defaults "[0x61]"] by simp

end
