(* ===== verification/Spec2Isabelle.thy ===== *)
theory Spec2Isabelle
  imports Line_Queries Manager_Session
begin

text \<open>
  \<^bold>\<open>The text engine of neovm-core\<close>

  Neomacs is an Emacs whose core is written in Rust. This development models the part of it that owns
  the text of buffers, \<open>src/crates/neovm-core/src/buffer/\<close>, from the encoding of characters up to
  the buffer manager that lets several buffers edit one text, and proves that the layers do what the
  layer above expects. Every definition that models code has the name of the Rust item, with a short
  prefix where a name occurs twice (\<open>gb_\<close> gap buffer, \<open>pt_\<close> piece tree, \<open>rt_\<close> rope, \<open>tb_\<close> the enum of the
  backends, \<open>st_\<close> the storage around a backend, \<open>lt_\<close> the same with a line index, \<open>lb_\<close> the table of
  live buffers, \<open>mg_\<close> where the manager has an operation of the same name as a buffer).

  \<^bold>\<open>Parts and how they interact\<close>

  A text is a sequence of bytes in the internal encoding (\<open>Emacs_Char\<close>: \<open>emacs_core/text/emacs_char/mod.rs\<close>,
  \<open>buffer/text/emacs_bytes.rs\<close>). Positions, extents, ranges and the descriptions of edits come in pairs of
  characters and bytes (\<open>Text_Position\<close>: \<open>buffer/position.rs\<close>, \<open>buffer/text/{edit,metrics,layout}.rs\<close>).

  Three backends store a text: \<open>Gap_Buffer\<close> (\<open>gap_buffer.rs\<close>, \<open>text/gap.rs\<close>), \<open>Piece_Tree\<close> and \<open>Rope_Text\<close>
  (\<open>text/piece_tree.rs\<close>, \<open>text/rope.rs\<close>), the last two over the treap of \<open>Treap_Text\<close> (\<open>text/treap.rs\<close>).
  \<open>Text_Backend\<close> is the enum that dispatches to them (\<open>text/mod.rs\<close>); \<open>Text_Backend_Spec\<close> states once, as
  the locale \<open>text_backend\<close>, what a backend promises, and each backend and the enum interpret it.

  \<open>Buffer_Text\<close> and \<open>Buffer_Storage\<close> (\<open>buffer_text.rs\<close>) put around a backend the metrics, the gap that Lisp
  sees (\<open>Gap_Compat\<close>), the content epoch, and the caches that make the conversion between characters and
  bytes fast: the last conversion, the proven single-byte span, the table of scan anchors, the markers.
  \<open>Position_Scan\<close> holds the forward and backward scans over borrowed chunks they end in. \<open>Buffer_Markers\<close>
  (\<open>buffer_text.rs\<close>, \<open>marker_data.rs\<close>, \<open>tagged/gc.rs\<close>) is the chain of markers of each text, a linked list
  threaded through heap objects, modelled as a map from addresses to markers with their links.

  Beside the text stands its line index. \<open>Fenwick_Sums\<close> and \<open>Line_Index\<close> (\<open>text_index.rs\<close>) are the chunk sums,
  their Fenwick tree, and the maintenance of both under edits; \<open>Line_Scan\<close> and \<open>Line_Queries\<close>
  (\<open>buffer_text.rs\<close>, \<open>buffer_text/line_index.rs\<close>) are the queries with and without it and the settings
  that decide which is used. The index reads texts through the locale \<open>indexed_text\<close>, which the backends
  interpret.

  \<open>Undo_List\<close> (\<open>undo.rs\<close>) records edits and truncates the list. \<open>Edit_State\<close> (\<open>edit_transaction.rs\<close>) moves point
  and the accessible region of a buffer over an edit, \<open>Buffer_Object\<close> (\<open>buffer.rs\<close>, \<open>shared.rs\<close>) is a buffer on
  a text with its clamped positions and narrowing, \<open>Edit_Transaction\<close> (\<open>edit_transaction.rs\<close>) the executors
  that carry out an edit in the order of the code (undo record, storage, markers, properties, overlays,
  point), and \<open>Edit_Session\<close> (\<open>insdel.rs\<close>) the entry points for one buffer.

  \<open>Live_Buffers\<close> is the table of buffers by id, \<open>State_Markers\<close> the three markers that keep point and region of a
  buffer that shares its text, \<open>Buffer_Manager\<close> and \<open>Buffer_Lifecycle\<close> the manager: the buffer list, the
  current buffer, creating and killing (all \<open>buffer.rs\<close>). \<open>Shared_Edit\<close> (\<open>edit_transaction.rs\<close>, \<open>insdel.rs\<close>) is an edit
  through one buffer and the pass that tells the others on the text, and \<open>Manager_Session\<close> runs any
  sequence of all these operations.

  \<^bold>\<open>How the model reads\<close>

  State is passed explicitly in records named after the structs. Bytes and character codes are words;
  positions and lengths (\<open>usize\<close>) are natural numbers, subtractions below zero are checked and a sum is
  bounded where the code's behaviour depends on it; ticks and the shift of an anchor are integers. Reads
  that fill a cache return the new state. A call that panics is \<^const>\<open>None\<close>: so a theorem that says a
  function returns \<^const>\<open>Some\<close> says that no index is out of range, no subtraction wraps and no assertion
  fails. What is modelled is the development build: a debug assertion is a live check, and what it computes is
  computed. An operation of the manager yields an option of a pair: no value is a panic, and the result
  inside is the \<open>Option\<close> that the Rust function returns, with the state it leaves also when it returns
  early.

  Loops over lists and trees are structural recursion. A loop that follows pointers or halves a window may
  run forever as far as its text goes; it is a \<open>partial_function\<close> over options, and its termination on
  sound states is a theorem (\<open>marker_loops_return\<close>, \<open>newline_scans_exact\<close>, \<open>fenwick_tree_exact\<close>, \<open>rope_join_terminates\<close>),
  which every later theorem that returns \<^const>\<open>Some\<close> rests on. There is no fuel.

  Code that is not modelled is a parameter: the interval table of text properties and the overlay list are
  type variables with the operations an edit calls on them in \<open>side_data_ops\<close>; what a new buffer starts
  with is \<open>buffer_defaults\<close>. No theorem assumes anything about them.

  \<^bold>\<open>What is shown\<close>

  \<^item> Encoding: decoding inverts encoding, the counting and seeking loops agree with the list of characters,
    the representation change and its inverse.
  \<^item> Backends: each refines lists of bytes on every edit and read, keeps its own invariant, and all agree
    (\<open>backends_agree\<close>); rope and piece tree operations return, with their recursion.
  \<^item> Storage: edits are exact and every conversion between characters and bytes is, through whatever caches
    earlier calls have left (\<open>char_to_byte_exact\<close>, \<open>byte_to_char_exact\<close>).
  \<^item> Markers: the chains stay chains under every operation and the markers move with the text
    (\<open>marker_chains_sound\<close>, \<open>markers_follow_replacement\<close>).
  \<^item> Lines: a session of edits and queries answers what the newlines of the bytes say, under every setting of the
    index (\<open>line_session_exact\<close>).
  \<^item> One buffer: a session of commands never panics, keeps point and region on characters of the text, and
    undoing its records gives the text it began with (\<open>session_undo_restores\<close>).
  \<^item> Several buffers: any session of creating, selecting, narrowing, editing and killing returns and keeps
    all handles, positions and markers right in all buffers (\<open>manager_references_resolve\<close>,
    \<open>manager_session_keeps_positions\<close>); undo restores a text that several buffers edited
    (\<open>manager_session_undo_restores\<close>); an edit reaches the buffers on its text and no others; leaving a
    buffer and coming back is the identity; killing takes exactly the sharers.
  \<^item> Where the code does not do what its comments or its callers expect, a theorem computes the case: the ones
    whose names end in \<open>strands_point\<close>, \<open>strands_gap\<close>, \<open>moves_sibling_point\<close>, \<open>splits_character\<close>, \<open>order_lost\<close>,
    \<open>conversion_varies\<close>, \<open>poisons_ring\<close>.

  \<^bold>\<open>Bounds\<close>

  A text with what is inserted stays below \<open>2 ^ 63\<close> bytes (\<open>fits_allocation\<close>), the limit of an allocation in
  Rust, which every text that exists obeys. Marker ids stay below \<open>MARK_MARKER_ID\<close>, \<open>2 ^ 63 - 1\<close>, which the code
  reserves for the mark (\<open>marker_ids_left\<close>: six more are needed to make an indirect buffer), and buffer ids
  below \<open>2 ^ 24\<close> (\<open>dense_id\<close>), which the code asserts when it makes a buffer. The sessions ask
  of their commands what the callers in the Lisp primitives check: positions at boundaries of characters,
  ordered ranges behind the start of the accessible region, strings that the representation can hold.

  \<^bold>\<open>Not modelled\<close>

  In the modelled files: entry points over Rust strings, formatting, dumps, the transposition of regions, the
  mark, labeled restrictions, swapping the texts of two buffers, buffer-local variables and slots, and
  visited-file times, all of which work on Lisp values or only convert between types. The entry points for changing
  case and for \<open>subst-char-in-region\<close> through the manager are definitions without a soundness theorem: the first is not
  sound (\<open>casify_strands_point\<close>). Text properties and overlays are parameters, as said above. The evaluator, the
  bytecode machine, the collector (but for its splice of dead markers), regular expressions, windows, the
  display, processes and files are other programs of the size of this one.
\<close>

end
